(* ===== verification/Prelude.thy ===== *)
theory Prelude
  imports Main "HOL-Library.Word"
begin

text \<open>
  Shared vocabulary of the trashdb development.

  \<^item> Machine integers: \<open>u8\<close>, \<open>u16\<close>, \<open>u32\<close> and \<open>size_t\<close> (64 bits, as on the LP64 platforms
    the Makefile targets) are words, so that \<open>+\<close> and \<open>-\<close> wrap as they do in C; a C \<open>int\<close> that only
    carries a return code is an \<open>int\<close>, an \<open>int\<close> that carries flag bits is a \<open>u32\<close>.
  \<^item> Faults: what C leaves undefined, and what \<open>assert\<close> turns into an abort, is a value of
    \<open>fault\<close>; an operation that can fault returns \<open>'a res\<close>, the sum of a fault and a result.
  \<^item> Flags: \<open>has_flag\<close>, \<open>set_flag\<close>, \<open>clear_flag\<close> are the C idioms \<open>f & m\<close>, \<open>f |= m\<close>,
    \<open>f &= ~m\<close>.
\<close>

unbundle bit_operations_syntax

named_theorems flag_simps \<open>evaluation of flag words\<close>
named_theorems res_simps \<open>rules for the fault monad\<close>
named_theorems step_defs \<open>the definitions of atomic steps\<close>

type_synonym u8 = "8 word"
type_synonym u16 = "16 word"
type_synonym u32 = "32 word"
type_synonym size_t = "64 word"

text \<open>Status codes of \<open>include/global.h\<close> and \<open>include/pool.h\<close>.\<close>

definition TRASH_SUCCESS :: int where "TRASH_SUCCESS = 0"
definition TRASH_ERROR :: int where "TRASH_ERROR = -1"
definition TRASH_EOF :: int where "TRASH_EOF = -2"

text \<open>
  Faults. \<open>Assert_failed\<close> is an \<open>assert\<close> that does not hold; \<open>Bad_pointer\<close> a load or store through
  \<open>NULL\<close> or through memory that is not allocated; \<open>Out_of_bounds\<close> an access outside an array or
  a buffer; \<open>Uninitialised\<close> a read of a variable that was never written; \<open>Diverges\<close> a loop
  that never ends; \<open>Double_free\<close> releases memory twice; \<open>Overflow\<close> is signed arithmetic that
  leaves the range of its type.
\<close>

datatype fault = Assert_failed | Bad_pointer | Out_of_bounds | Uninitialised | Diverges | Double_free | Overflow

type_synonym 'a res = "fault + 'a"

definition bindE :: "'a res \<Rightarrow> ('a \<Rightarrow> 'b res) \<Rightarrow> 'b res" where
  "bindE m f = (case m of Inl e \<Rightarrow> Inl e | Inr x \<Rightarrow> f x)"

definition assertE :: "bool \<Rightarrow> 'a res \<Rightarrow> 'a res" where
  "assertE b m = (if b then m else Inl Assert_failed)"

lemma bindE_Inr [simp, res_simps]: "bindE (Inr x) f = f x"
  by (simp add: bindE_def)

lemma bindE_Inl [simp, res_simps]: "bindE (Inl e) f = Inl e"
  by (simp add: bindE_def)

lemma bindE_eq_Inr_iff [res_simps]: "bindE m f = Inr y \<longleftrightarrow> (\<exists>x. m = Inr x \<and> f x = Inr y)"
  by (cases m) auto

lemma bindE_eq_Inl_iff: "bindE m f = Inl e \<longleftrightarrow> m = Inl e \<or> (\<exists>x. m = Inr x \<and> f x = Inl e)"
  by (cases m) auto

lemma bindE_assoc: "bindE (bindE m f) g = bindE m (\<lambda>x. bindE (f x) g)"
  by (cases m) auto

lemma assertE_True [simp, res_simps]: "assertE True m = m"
  by (simp add: assertE_def)

lemma assertE_False [simp, res_simps]: "assertE False m = Inl Assert_failed"
  by (simp add: assertE_def)

lemma assertE_eq_Inr_iff [res_simps]: "assertE b m = Inr y \<longleftrightarrow> b \<and> m = Inr y"
  by (simp add: assertE_def)

text \<open>Flag words.\<close>

definition has_flag :: "'a::len word \<Rightarrow> 'a word \<Rightarrow> bool" where
  "has_flag f m \<longleftrightarrow> f AND m \<noteq> 0"

definition set_flag :: "'a::len word \<Rightarrow> 'a word \<Rightarrow> 'a word" where
  "set_flag f m = f OR m"

definition clear_flag :: "'a::len word \<Rightarrow> 'a word \<Rightarrow> 'a word" where
  "clear_flag f m = f AND NOT m"

lemma has_flag_iff_bit: "has_flag f m \<longleftrightarrow> (\<exists>n. bit f n \<and> bit m n)"
  by (auto simp: has_flag_def bit_eq_iff bit_and_iff dest: bit_imp_le_length)

lemma has_flag_zero [simp]: "\<not> has_flag 0 m"
  by (simp add: has_flag_def)

lemma has_flag_set [simp, flag_simps]:
  "has_flag (set_flag f m) k \<longleftrightarrow> has_flag f k \<or> has_flag m k"
  by (auto simp: has_flag_iff_bit set_flag_def bit_or_iff)

lemma has_flag_clear_disjoint:
  assumes "m AND k = 0"
  shows "has_flag (clear_flag f m) k \<longleftrightarrow> has_flag f k"
proof -
  have "\<not> (bit m n \<and> bit k n)" for n
    using assms by (metis bit_0_eq bit_and_iff bot_apply bot_bool_def)
  then show ?thesis
    by (auto simp: has_flag_iff_bit clear_flag_def bit_and_iff bit_not_iff
        dest: bit_imp_le_length)
qed

lemma has_flag_clear_same [simp]: "\<not> has_flag (clear_flag f m) m"
  by (auto simp: has_flag_iff_bit clear_flag_def bit_and_iff bit_not_iff)

lemma has_flag_clearD: "has_flag (clear_flag f m) k \<Longrightarrow> has_flag f k"
  by (auto simp: has_flag_iff_bit clear_flag_def bit_and_iff)

text \<open>Counters kept in words.\<close>

lemma unat_lt_pow: "unat w < 2 ^ LENGTH('a)" for w :: "'a::len word"
  by (rule unsigned_less)

lemma unat_Suc_word:
  fixes n :: "'a::len word"
  shows "Suc (unat n) < 2 ^ LENGTH('a) \<Longrightarrow> unat (n + 1) = Suc (unat n)"
  by (simp add: unat_word_ariths)

lemma unat_pred_word:
  fixes n :: "'a::len word"
  shows "0 < unat n \<Longrightarrow> unat (n - 1) = unat n - 1"
  by (metis One_nat_def Suc_leI unat_sub_if' unsigned_1)

lemma word_eq_0_iff_unat: "n = 0 \<longleftrightarrow> unat n = 0"
  by (simp add: unat_eq_zero)

lemma ucast_back [simp]: "ucast (ucast x :: size_t) = x" for x :: u32
  by (rule bit_word_eqI) (auto simp: bit_ucast_iff dest: bit_imp_le_length)

text \<open>Lists.\<close>

lemma distinct_remove1_mem [simp]: "distinct xs \<Longrightarrow> x \<notin> set (remove1 x xs)"
  by simp

lemma range_Suc_insert: "{n..<n + Suc k} = insert n {Suc n..<Suc n + k}"
  by auto

lemma length_remove1_mem: "x \<in> set xs \<Longrightarrow> Suc (length (remove1 x xs)) = length xs"
  by (simp add: length_remove1) (metis Suc_pred length_pos_if_in_set)

end
