(* ===== verification/Fifo.thy ===== *)
theory Fifo
  imports Prelude
begin

text \<open>
  The contract of a first-in first-out container. The parts of trashdb that rely on it are the intrusive
  list of \<open>include/il.h\<close> (on the heap and as a value), the work queue of a thread group
  (\<open>src/pool.c\<close>), the list of pending log records (\<open>src/logger.c\<close>) and the byte buffer of
  \<open>src/message.c\<close>. The contract has a
  capacity (\<open>room\<close>) and a freshness condition, because an intrusive node may be linked once only.
  The clients' lemmas (filling a container, emptying it, the order in which the elements come out)
  are proved here once, over the contract.
\<close>

text \<open>Storing several elements, and taking elements out until there is none left.\<close>

fun put_all :: "('a \<Rightarrow> 'q \<Rightarrow> 'q res) \<Rightarrow> 'a list \<Rightarrow> 'q \<Rightarrow> 'q res" where
  "put_all put [] q = Inr q"
| "put_all put (x # xs) q = bindE (put x q) (put_all put xs)"

fun drain :: "('q \<Rightarrow> ('a option \<times> 'q) res) \<Rightarrow> nat \<Rightarrow> 'q \<Rightarrow> ('a list \<times> 'q) res" where
  "drain get 0 q = Inl Diverges"
| "drain get (Suc fuel) q =
     bindE (get q) (\<lambda>(r, q').
       case r of
         None \<Rightarrow> Inr ([], q')
       | Some x \<Rightarrow> bindE (drain get fuel q') (\<lambda>(xs, q''). Inr (x # xs, q'')))"

locale fifo =
  fixes inv :: "'q \<Rightarrow> bool"
    and items :: "'q \<Rightarrow> 'a list"
    and room :: "'q \<Rightarrow> nat"
    and fresh :: "'a \<Rightarrow> 'q \<Rightarrow> bool"
    and put :: "'a \<Rightarrow> 'q \<Rightarrow> 'q res"
    and get :: "'q \<Rightarrow> ('a option \<times> 'q) res"
  assumes put_ok: "inv q \<Longrightarrow> fresh x q \<Longrightarrow> 0 < room q \<Longrightarrow>
      \<exists>q'. put x q = Inr q' \<and> inv q' \<and> items q' = items q @ [x] \<and> room q = Suc (room q')"
    and fresh_put: "inv q \<Longrightarrow> fresh x q \<Longrightarrow> 0 < room q \<Longrightarrow> put x q = Inr q' \<Longrightarrow>
      fresh y q \<Longrightarrow> y \<noteq> x \<Longrightarrow> fresh y q'"
    and get_nil: "inv q \<Longrightarrow> items q = [] \<Longrightarrow> get q = Inr (None, q)"
    and get_cons: "inv q \<Longrightarrow> items q = x # xs \<Longrightarrow>
      \<exists>q'. get q = Inr (Some x, q') \<and> inv q' \<and> items q' = xs"
begin

lemma get_head:
  assumes "inv q" and "get q = Inr (Some x, q')"
  shows "items q = x # items q' \<and> inv q'"
proof (cases "items q")
  case Nil
  with assms get_nil show ?thesis by fastforce
next
  case (Cons y ys)
  with assms get_cons show ?thesis by fastforce
qed

lemma put_all_ok:
  assumes "inv q" and "distinct xs" and "\<forall>x\<in>set xs. fresh x q" and "length xs \<le> room q"
  shows "\<exists>q'. put_all put xs q = Inr q' \<and> inv q' \<and> items q' = items q @ xs"
  using assms
proof (induction xs arbitrary: q)
  case Nil
  then show ?case by simp
next
  case (Cons x xs)
  then have fx: "fresh x q" and r: "0 < room q" by auto
  from put_ok [OF \<open>inv q\<close> fx r] obtain q1 where
    q1: "put x q = Inr q1" "inv q1" "items q1 = items q @ [x]" "room q = Suc (room q1)" by blast
  have "fresh y q1" if "y \<in> set xs" for y
    using that Cons.prems fresh_put [OF \<open>inv q\<close> fx r q1(1)] by auto
  with Cons.IH [OF q1(2)] Cons.prems q1 show ?case by auto
qed

lemma drain_ok:
  assumes "inv q" and "length (items q) < fuel"
  shows "\<exists>q'. drain get fuel q = Inr (items q, q') \<and> inv q' \<and> items q' = []"
  using assms
proof (induction fuel arbitrary: q)
  case 0
  then show ?case by simp
next
  case (Suc fuel)
  show ?case
  proof (cases "items q")
    case Nil
    with Suc.prems get_nil [OF \<open>inv q\<close>] show ?thesis by simp
  next
    case (Cons x xs)
    from get_cons [OF \<open>inv q\<close> Cons] obtain q1 where
      q1: "get q = Inr (Some x, q1)" "inv q1" "items q1 = xs" by blast
    with Suc.IH [OF q1(2)] Suc.prems Cons show ?thesis by auto
  qed
qed

text \<open>What goes in comes out, in the order in which it went in.\<close>

lemma put_all_drain:
  assumes "inv q" and "items q = []" and "distinct xs" and "\<forall>x\<in>set xs. fresh x q"
    and "length xs \<le> room q" and "length xs < fuel"
  shows "\<exists>q'. bindE (put_all put xs q) (drain get fuel) = Inr (xs, q') \<and> inv q' \<and> items q' = []"
proof -
  from put_all_ok [OF assms(1,3,4,5)] obtain q1 where
    q1: "put_all put xs q = Inr q1" "inv q1" "items q1 = xs"
    using assms(2) by auto
  from drain_ok [OF q1(2), of fuel] q1 assms(6) show ?thesis by auto
qed

end

text \<open>A container of plain values, which may store any value at any time.\<close>

locale fifo_values = fifo +
  assumes fresh_any: "inv q \<Longrightarrow> fresh x q"
begin

lemma put_any_ok:
  assumes "inv q" and "length xs \<le> room q"
  shows "\<exists>q'. put_all put xs q = Inr q' \<and> inv q' \<and> items q' = items q @ xs"
  using assms
proof (induction xs arbitrary: q)
  case (Cons x xs)
  then have "0 < room q" by auto
  from put_ok [OF \<open>inv q\<close> fresh_any [OF \<open>inv q\<close>] this] obtain q1 where
    q1: "put x q = Inr q1" "inv q1" "items q1 = items q @ [x]" "room q = Suc (room q1)" by blast
  with Cons.IH [OF q1(2)] Cons.prems show ?case by auto
qed simp

lemma put_any_drain:
  assumes "inv q" and "items q = []" and "length xs \<le> room q" and "length xs < fuel"
  shows "\<exists>q'. bindE (put_all put xs q) (drain get fuel) = Inr (xs, q') \<and> inv q' \<and> items q' = []"
proof -
  from put_any_ok [OF assms(1,3)] assms(2) obtain q1 where
    q1: "put_all put xs q = Inr q1" "inv q1" "items q1 = xs" by auto
  from drain_ok [OF q1(2), of fuel] q1 assms(4) show ?thesis by auto
qed

end

end
