(* ===== verification/Il.thy ===== *)
theory Il
  imports Fifo
begin

text \<open>
  The intrusive circular list of \<open>include/il.h\<close>, twice.

  On the heap: \<open>IL\<close> nodes live at addresses, \<open>LL\<close> holds the address of its sentinel \<open>head\<close> and
  the counter \<open>len\<close>; every load and store of the C code is one load and store of the model, and a
  load through \<open>NULL\<close> or unallocated memory is the fault \<open>Bad_pointer\<close>. The predicate \<open>ring\<close>
  says which cyclic chain of nodes a sentinel heads, and \<open>LLrep\<close> adds that \<open>len\<close> counts it.

  As a value: \<open>vlist\<close> is the pair of the elements and the counter. The counter is kept apart from
  the elements, because the code updates the two separately (\<open>item_remove\<close> changes the chain only).
  The refinement lemmas show that each heap operation acts on the abstraction \<open>ll_abs\<close> as the
  value operation does; the other components use the value operations.
\<close>

subsection \<open>Nodes, heaps, loads and stores\<close>

type_synonym ptr = nat

definition NULL :: ptr where "NULL = 0"

record IL =
  il_next :: ptr
  il_prev :: ptr

record LL =
  ll_head :: ptr
  ll_len :: size_t

type_synonym heap = "ptr \<rightharpoonup> IL"

definition load :: "heap \<Rightarrow> ptr \<Rightarrow> IL res" where
  "load h p = (if p = NULL then Inl Bad_pointer
     else case h p of None \<Rightarrow> Inl Bad_pointer | Some n \<Rightarrow> Inr n)"

definition set_next :: "ptr \<Rightarrow> ptr \<Rightarrow> heap \<Rightarrow> heap res" where
  "set_next p q h = bindE (load h p) (\<lambda>n. Inr (h(p \<mapsto> n\<lparr>il_next := q\<rparr>)))"

definition set_prev :: "ptr \<Rightarrow> ptr \<Rightarrow> heap \<Rightarrow> heap res" where
  "set_prev p q h = bindE (load h p) (\<lambda>n. Inr (h(p \<mapsto> n\<lparr>il_prev := q\<rparr>)))"

subsection \<open>The operations of il.h\<close>

definition init_il :: "ptr \<Rightarrow> heap \<Rightarrow> heap res" where
  "init_il il h = bindE (set_prev il il h) (set_next il il)"

definition init_list :: "heap \<Rightarrow> LL \<Rightarrow> (heap \<times> LL) res" where
  "init_list h list =
     bindE (set_next (ll_head list) (ll_head list) h) (\<lambda>h1.
     bindE (set_prev (ll_head list) (ll_head list) h1) (\<lambda>h2.
     Inr (h2, list\<lparr>ll_len := 0\<rparr>)))"

definition empty_list :: "LL \<Rightarrow> bool" where
  "empty_list list \<longleftrightarrow> ll_len list = 0"

definition item_append :: "ptr \<Rightarrow> ptr \<Rightarrow> heap \<Rightarrow> heap res" where
  "item_append item1 item2 h =
     bindE (load h item1) (\<lambda>n1.
     bindE (set_next (il_prev n1) item2 h) (\<lambda>h1.
     bindE (load h1 item1) (\<lambda>n1'.
     bindE (set_prev item2 (il_prev n1') h1) (\<lambda>h2.
     bindE (set_prev item1 item2 h2) (\<lambda>h3.
     set_next item2 item1 h3)))))"

definition list_append :: "ptr \<Rightarrow> heap \<times> LL \<Rightarrow> (heap \<times> LL) res" where
  "list_append item = (\<lambda>(h, list).
     bindE (item_append (ll_head list) item h) (\<lambda>h1.
     Inr (h1, list\<lparr>ll_len := ll_len list + 1\<rparr>)))"

definition item_remove :: "ptr \<Rightarrow> heap \<Rightarrow> (ptr \<times> heap) res" where
  "item_remove item h =
     bindE (load h item) (\<lambda>n.
     bindE (set_next (il_prev n) (il_next n) h) (\<lambda>h1.
     bindE (load h1 item) (\<lambda>n1.
     bindE (set_prev (il_next n1) (il_prev n1) h1) (\<lambda>h2.
     bindE (set_prev item item h2) (\<lambda>h3.
     bindE (set_next item item h3) (\<lambda>h4.
     Inr (item, h4)))))))"

definition list_pop :: "heap \<times> LL \<Rightarrow> (ptr \<times> heap \<times> LL) res" where
  "list_pop = (\<lambda>(h, list).
     if empty_list list then Inr (NULL, h, list)
     else bindE (load h (ll_head list)) (\<lambda>n.
          bindE (item_remove (il_next n) h) (\<lambda>(rc, h1).
          Inr (rc, h1, list\<lparr>ll_len := ll_len list - 1\<rparr>))))"

definition list_rotate :: "heap \<times> LL \<Rightarrow> (ptr \<times> heap \<times> LL) res" where
  "list_rotate hl =
     bindE (list_pop hl) (\<lambda>(item, h, list).
     bindE (item_append (ll_head list) item h) (\<lambda>h1.
     Inr (item, h1, list)))"

text \<open>
  The loop \<open>for_each(head, curr)\<close>, as the list of the nodes it visits. A walk that never comes
  back to the head, or that leaves allocated memory, has no value.
\<close>

partial_function (option) for_each :: "heap \<Rightarrow> ptr \<Rightarrow> ptr \<Rightarrow> ptr list option" where
  "for_each h head c =
     (if c = head then Some []
      else if c = NULL then None
      else Option.bind (h c) (\<lambda>n.
           Option.bind (for_each h head (il_next n)) (\<lambda>xs. Some (c # xs))))"

definition list_items :: "heap \<Rightarrow> LL \<Rightarrow> ptr list option" where
  "list_items h list = Option.bind (h (ll_head list)) (\<lambda>n. for_each h (ll_head list) (il_next n))"

subsection \<open>Rings\<close>

definition nextp :: "heap \<Rightarrow> ptr \<Rightarrow> ptr option" where
  "nextp h p = (if p = NULL then None else map_option il_next (h p))"

definition prevp :: "heap \<Rightarrow> ptr \<Rightarrow> ptr option" where
  "prevp h p = (if p = NULL then None else map_option il_prev (h p))"

fun chain :: "heap \<Rightarrow> ptr \<Rightarrow> ptr list \<Rightarrow> ptr \<Rightarrow> bool" where
  "chain h a [] z \<longleftrightarrow> nextp h a = Some z \<and> prevp h z = Some a"
| "chain h a (x # xs) z \<longleftrightarrow> nextp h a = Some x \<and> prevp h x = Some a \<and> chain h x xs z"

definition ring :: "heap \<Rightarrow> ptr \<Rightarrow> ptr list \<Rightarrow> bool" where
  "ring h s xs \<longleftrightarrow> distinct (s # xs) \<and> chain h s xs s"

definition LLrep :: "heap \<Rightarrow> LL \<Rightarrow> ptr list \<Rightarrow> bool" where
  "LLrep h l xs \<longleftrightarrow> ring h (ll_head l) xs \<and> unat (ll_len l) = length xs"

lemma load_eq_Inr [simp]: "load h p = Inr n \<longleftrightarrow> p \<noteq> NULL \<and> h p = Some n"
  by (auto simp: load_def split: option.splits)

lemma nextp_Some: "nextp h p = Some q \<longleftrightarrow> p \<noteq> NULL \<and> (\<exists>n. h p = Some n \<and> il_next n = q)"
  by (auto simp: nextp_def)

lemma prevp_Some: "prevp h p = Some q \<longleftrightarrow> p \<noteq> NULL \<and> (\<exists>n. h p = Some n \<and> il_prev n = q)"
  by (auto simp: prevp_def)

lemma chain_append: "chain h a (xs @ y # ys) z \<longleftrightarrow> chain h a xs y \<and> chain h y ys z"
  by (induction xs arbitrary: a) auto

text \<open>A chain reads the \<open>next\<close> field of all its nodes but the last and \<open>prev\<close> of all but the first.\<close>

lemma chain_cong:
  assumes "chain h a xs z"
    and "\<And>p. p \<in> set (a # xs) \<Longrightarrow> nextp h' p = nextp h p"
    and "\<And>p. p \<in> set (xs @ [z]) \<Longrightarrow> prevp h' p = prevp h p"
  shows "chain h' a xs z"
  using assms by (induction xs arbitrary: a) auto

lemma ring_frame:
  assumes "ring h s xs" and "\<And>p. p \<in> set (s # xs) \<Longrightarrow> h' p = h p"
  shows "ring h' s xs"
proof -
  have "chain h' s xs s"
    by (rule chain_cong [of h]) (use assms in \<open>auto simp: ring_def nextp_def prevp_def\<close>)
  with assms(1) show ?thesis by (simp add: ring_def)
qed

lemma chain_alloc:
  "chain h a xs z \<Longrightarrow> p \<in> set (a # xs @ [z]) \<Longrightarrow> p \<noteq> NULL \<and> (\<exists>n. h p = Some n)"
  by (induction xs arbitrary: a) (auto simp: nextp_Some prevp_Some)

lemma ring_alloc: "ring h s xs \<Longrightarrow> p \<in> set (s # xs) \<Longrightarrow> p \<noteq> NULL \<and> (\<exists>n. h p = Some n)"
  unfolding ring_def by (rule chain_alloc [of h s xs s]) auto

text \<open>Redirecting the last link of a chain.\<close>

lemma chain_retarget:
  assumes "chain h a xs x"
    and "nextp h' (last (a # xs)) = Some z" and "prevp h' z = Some (last (a # xs))"
    and "\<And>p. p \<in> set (butlast (a # xs)) \<Longrightarrow> nextp h' p = nextp h p"
    and "\<And>p. p \<in> set xs \<Longrightarrow> prevp h' p = prevp h p"
  shows "chain h' a xs z"
  using assms by (induction xs arbitrary: a) auto

lemma chain_last: "chain h a xs z \<Longrightarrow> nextp h (last (a # xs)) = Some z \<and> prevp h z = Some (last (a # xs))"
  by (induction xs arbitrary: a) auto

lemma ring_Nil: "ring h p [] \<longleftrightarrow> nextp h p = Some p \<and> prevp h p = Some p"
  by (simp add: ring_def)

subsection \<open>What the operations do to rings\<close>

text \<open>Appending before the sentinel: the new node becomes the last one, nothing else changes.\<close>

lemma item_append_ring:
  assumes ring: "ring h s xs" and new: "x \<notin> set (s # xs)" "x \<noteq> NULL" "h x = Some nx"
  shows "\<exists>h'. item_append s x h = Inr h' \<and> ring h' s (xs @ [x]) \<and>
     (\<forall>p. p \<notin> set (x # s # xs) \<longrightarrow> h' p = h p) \<and> dom h' = dom h"
proof (cases xs rule: rev_cases)
  case Nil
  with assms show ?thesis
    by (auto simp: ring_def nextp_Some prevp_Some item_append_def set_next_def set_prev_def
        res_simps dom_def)
next
  case (snoc ys y)
  with ring obtain nh ny where
    ch: "chain h s ys y" and d: "distinct (s # ys @ [y])" and
    n: "s \<noteq> NULL" "h s = Some nh" "il_prev nh = y" "y \<noteq> NULL" "h y = Some ny" "il_next ny = s"
    by (auto simp: ring_def chain_append nextp_Some prevp_Some)
  let ?h = "h(y \<mapsto> ny\<lparr>il_next := x\<rparr>, s \<mapsto> nh\<lparr>il_prev := x\<rparr>,
              x \<mapsto> nx\<lparr>il_prev := y, il_next := s\<rparr>)"
  have x: "x \<noteq> s" "x \<noteq> y" "x \<notin> set ys" "s \<noteq> y" "y \<notin> set ys" "s \<notin> set ys"
    using new d snoc by auto
  have "item_append s x h = Inr ?h"
    using n new(2,3) x
    by (auto simp: item_append_def set_next_def set_prev_def res_simps fun_upd_twist)
  moreover have "chain ?h s ys y"
    by (rule chain_cong [OF ch]) (use x n in \<open>auto simp: nextp_def prevp_def\<close>)
  then have "ring ?h s (xs @ [x])"
    using d x n new snoc by (auto simp: ring_def chain_append nextp_Some prevp_Some)
  ultimately show ?thesis
    using n new(3) x snoc by (intro exI [of _ ?h]) auto
qed

text \<open>Unlinking a node: it leaves its ring and becomes a ring of its own.\<close>

lemma item_remove_ring:
  assumes ring: "ring h s (xs @ x # ys)"
  shows "\<exists>h'. item_remove x h = Inr (x, h') \<and> ring h' s (xs @ ys) \<and> ring h' x [] \<and>
     (\<forall>p. p \<notin> set (s # xs @ x # ys) \<longrightarrow> h' p = h p) \<and> dom h' = dom h"
proof -
  define a where "a = last (s # xs)"
  define z where "z = List.hd (ys @ [s])"
  have x: "x \<noteq> s" "x \<notin> set xs" "x \<notin> set ys" "x \<noteq> NULL"
    using ring ring_alloc [OF ring, of x] by (auto simp: ring_def)
  have ch: "chain h s xs x" "chain h x ys s" and d: "distinct (s # xs @ x # ys)"
    using ring by (auto simp: ring_def chain_append)
  have xa: "x \<noteq> a" and xz: "x \<noteq> z"
    using x by (auto simp: a_def z_def hd_append)
  have px: "nextp h a = Some x" "prevp h x = Some a"
    using chain_last [OF ch(1)] by (auto simp: a_def)
  have nx: "nextp h x = Some z" "prevp h z = Some x"
    using ch(2) by (cases ys; simp add: z_def)+
  from px nx obtain na nxx nz where
    n: "a \<noteq> NULL" "z \<noteq> NULL" "h a = Some na" "h x = Some nxx" "h z = Some nz"
       "il_next nxx = z" "il_prev nxx = a"
    by (auto simp: nextp_Some prevp_Some)
  define h1 where "h1 = h(a \<mapsto> na\<lparr>il_next := z\<rparr>)"
  define h2 where "h2 = h1(z \<mapsto> (the (h1 z))\<lparr>il_prev := a\<rparr>)"
  define h3 where "h3 = h2(x \<mapsto> nxx\<lparr>il_prev := x, il_next := x\<rparr>)"
  have rem: "item_remove x h = Inr (x, h3)"
    using n x xa xz
    by (auto simp: item_remove_def set_next_def set_prev_def res_simps h1_def h2_def h3_def)
  have nxt: "nextp h3 p = (if p = a then Some z else if p = x then Some x else nextp h p)" for p
    using n x xa xz by (auto simp: nextp_def h1_def h2_def h3_def)
  have prv: "prevp h3 p = (if p = z then Some a else if p = x then Some x else prevp h p)" for p
    using n x xa xz by (auto simp: prevp_def h1_def h2_def h3_def)
  have da: "a \<notin> set (butlast (s # xs))" "z \<notin> set xs" "a \<notin> set ys"
    using d by (cases xs rule: rev_cases; auto simp: a_def z_def hd_append)+
  have c1: "chain h3 s xs z"
    by (rule chain_retarget [OF ch(1)]) (use x da nxt prv in \<open>auto simp: a_def dest: in_set_butlastD\<close>)
  have "chain h3 s (xs @ ys) s"
  proof (cases ys)
    case Nil
    with c1 show ?thesis by (simp add: z_def)
  next
    case (Cons y ws)
    then have "z = y" "chain h y ws s" using ch(2) by (auto simp: z_def)
    moreover have "nextp h3 p = nextp h p" if "p \<in> set (y # ws)" for p
      using that Cons x(3) da(3) nxt [of p] by auto
    moreover have "prevp h3 p = prevp h p" if "p \<in> set (ws @ [s])" for p
      using that Cons x(1,3) d \<open>z = y\<close> prv [of p] by auto
    ultimately have "chain h3 y ws s" using chain_cong [of h y ws s h3] by blast
    with c1 Cons \<open>z = y\<close> show ?thesis by (simp add: chain_append)
  qed
  then have "ring h3 s (xs @ ys)" using d by (auto simp: ring_def)
  moreover have "ring h3 x []" using nxt prv xa xz by (simp add: ring_Nil)
  moreover have "h3 p = h p" if "p \<notin> set (s # xs @ x # ys)" for p
    using that by (cases ys) (auto simp: h1_def h2_def h3_def a_def z_def)
  moreover have "dom h3 = dom h" using n by (auto simp: h1_def h2_def h3_def)
  ultimately show ?thesis using rem by blast
qed

lemma item_remove_self:
  assumes "ring h x []"
  shows "item_remove x h = Inr (x, h)"
proof -
  from assms have "x \<noteq> NULL" "h x = Some \<lparr>il_next = x, il_prev = x\<rparr>"
    by (auto simp: ring_Nil nextp_Some prevp_Some)
  then show ?thesis
    by (simp add: item_remove_def set_next_def set_prev_def load_def fun_upd_idem)
qed

subsection \<open>The list operations\<close>

lemma for_each_chain:
  "chain h a xs s \<Longrightarrow> a \<noteq> NULL \<Longrightarrow> s \<notin> set xs \<Longrightarrow>
     Option.bind (h a) (\<lambda>n. for_each h s (il_next n)) = Some xs"
proof (induction xs arbitrary: a)
  case Nil
  then show ?case by (auto simp: nextp_Some for_each.simps)
next
  case (Cons x xs)
  then have "x \<noteq> NULL" by (auto simp: prevp_Some)
  with Cons have "Option.bind (h x) (\<lambda>n. for_each h s (il_next n)) = Some xs" by simp
  with Cons.prems \<open>x \<noteq> NULL\<close> have "for_each h s x = Some (x # xs)"
    by (subst for_each.simps) (cases "h x"; simp)
  with Cons.prems show ?case by (auto simp: nextp_Some)
qed

lemma init_list_LLrep:
  assumes "ll_head l \<noteq> NULL" and "h (ll_head l) = Some n"
  shows "\<exists>h'. init_list h l = Inr (h', l\<lparr>ll_len := 0\<rparr>) \<and> LLrep h' (l\<lparr>ll_len := 0\<rparr>) []"
  using assms by (auto simp: init_list_def set_next_def set_prev_def res_simps LLrep_def ring_Nil
      nextp_def prevp_def)

lemma list_items_ring: "ring h (ll_head l) xs \<Longrightarrow> list_items h l = Some xs"
  unfolding list_items_def ring_def
  by (rule for_each_chain) (auto dest: chain_alloc)

lemma list_items_LLrep: "LLrep h l xs \<Longrightarrow> list_items h l = Some xs"
  by (simp add: LLrep_def list_items_ring)

lemma LLrep_unique: "LLrep h l xs \<Longrightarrow> LLrep h l ys \<Longrightarrow> xs = ys"
  by (auto dest!: list_items_LLrep)

lemma list_append_ring:
  assumes "ring h (ll_head l) xs" and "x \<notin> set (ll_head l # xs)" "x \<noteq> NULL" "h x = Some n"
  shows "\<exists>h' l'. list_append x (h, l) = Inr (h', l') \<and> ring h' (ll_head l') (xs @ [x]) \<and>
     ll_head l' = ll_head l \<and> ll_len l' = ll_len l + 1 \<and>
     (\<forall>p. p \<notin> set (x # ll_head l # xs) \<longrightarrow> h' p = h p) \<and> dom h' = dom h"
  using item_append_ring [OF assms] by (auto simp: list_append_def)

lemma list_pop_ring:
  assumes "ring h (ll_head l) (x # xs)" and "ll_len l \<noteq> 0"
  shows "\<exists>h' l'. list_pop (h, l) = Inr (x, h', l') \<and> ring h' (ll_head l') xs \<and> ring h' x [] \<and>
     ll_head l' = ll_head l \<and> ll_len l' = ll_len l - 1 \<and>
     (\<forall>p. p \<notin> set (ll_head l # x # xs) \<longrightarrow> h' p = h p) \<and> dom h' = dom h"
proof -
  from assms(1) have r: "ring h (ll_head l) ([] @ x # xs)" by simp
  from r obtain nh where nh: "ll_head l \<noteq> NULL" "h (ll_head l) = Some nh" "il_next nh = x"
    by (auto simp: ring_def nextp_Some)
  from item_remove_ring [OF r] nh assms(2) show ?thesis
    by (auto simp: list_pop_def empty_list_def load_def)
qed

lemma list_pop_zero: "ll_len l = 0 \<Longrightarrow> list_pop (h, l) = Inr (NULL, h, l)"
  by (simp add: list_pop_def empty_list_def)

lemma list_append_LLrep:
  assumes "LLrep h l xs" and "x \<notin> set (ll_head l # xs)" "x \<noteq> NULL" "h x = Some n"
    and "Suc (length xs) < 2 ^ 64"
  shows "\<exists>h' l'. list_append x (h, l) = Inr (h', l') \<and> LLrep h' l' (xs @ [x]) \<and>
     ll_head l' = ll_head l \<and> (\<forall>p. p \<notin> set (x # ll_head l # xs) \<longrightarrow> h' p = h p) \<and> dom h' = dom h"
  using list_append_ring [of h l xs, OF _ assms(2-4)] assms(1,5)
  by (fastforce simp: LLrep_def unat_Suc_word)

lemma empty_list_LLrep: "LLrep h l xs \<Longrightarrow> empty_list l \<longleftrightarrow> xs = []"
  by (auto simp: LLrep_def empty_list_def word_eq_0_iff_unat)

lemma list_pop_LLrep:
  assumes "LLrep h l (x # xs)"
  shows "\<exists>h' l'. list_pop (h, l) = Inr (x, h', l') \<and> LLrep h' l' xs \<and> ring h' x [] \<and>
     ll_head l' = ll_head l \<and>
     (\<forall>p. p \<notin> set (ll_head l # x # xs) \<longrightarrow> h' p = h p) \<and> dom h' = dom h"
proof -
  from assms have "ring h (ll_head l) (x # xs)" "ll_len l \<noteq> 0" "unat (ll_len l) = Suc (length xs)"
    by (auto simp: LLrep_def)
  with list_pop_ring [of h l x xs] show ?thesis
    by (fastforce simp: LLrep_def unat_pred_word)
qed

text \<open>\<open>list_rotate\<close> moves the first node to the end, but the counter ends one too low.\<close>

lemma list_rotate_ring:
  assumes "ring h (ll_head l) (x # xs)" and "ll_len l \<noteq> 0"
  shows "\<exists>h' l'. list_rotate (h, l) = Inr (x, h', l') \<and> ring h' (ll_head l') (xs @ [x]) \<and>
     ll_head l' = ll_head l \<and> ll_len l' = ll_len l - 1 \<and>
     (\<forall>p. p \<notin> set (ll_head l # x # xs) \<longrightarrow> h' p = h p) \<and> dom h' = dom h"
proof -
  from list_pop_ring [OF assms] obtain h1 l1 where
    pop: "list_pop (h, l) = Inr (x, h1, l1)" and
    h1: "ring h1 (ll_head l1) xs" "ring h1 x []" "ll_head l1 = ll_head l" "ll_len l1 = ll_len l - 1"
    "\<forall>p. p \<notin> set (ll_head l # x # xs) \<longrightarrow> h1 p = h p" "dom h1 = dom h" by blast
  from ring_alloc [OF h1(2)] obtain nx where nx: "x \<noteq> NULL" "h1 x = Some nx" by auto
  have new: "x \<notin> set (ll_head l1 # xs)" using assms(1) h1(3) by (auto simp: ring_def)
  from item_append_ring [OF h1(1) new nx] obtain h2 where
    h2: "item_append (ll_head l1) x h1 = Inr h2" "ring h2 (ll_head l1) (xs @ [x])"
    "\<forall>p. p \<notin> set (x # ll_head l1 # xs) \<longrightarrow> h2 p = h1 p" "dom h2 = dom h1" by auto
  have "list_rotate (h, l) = Inr (x, h2, l1)"
    using pop h2(1) by (simp add: list_rotate_def)
  with h1 h2 show ?thesis by auto
qed

text \<open>On an exhausted counter \<open>list_rotate\<close> hands \<open>NULL\<close> to \<open>item_append\<close> and faults.\<close>

lemma list_rotate_zero:
  assumes "ring h (ll_head l) xs" and "ll_len l = 0"
  shows "list_rotate (h, l) = Inl Bad_pointer"
proof -
  from chain_last [of h "ll_head l" xs "ll_head l"] assms(1) obtain n1 n2 where
    "ll_head l \<noteq> NULL" "h (ll_head l) = Some n1" "il_prev n1 \<noteq> NULL" "h (il_prev n1) = Some n2"
    by (auto simp: ring_def nextp_Some prevp_Some)
  then show ?thesis
    using assms(2)
    by (auto simp: list_rotate_def list_pop_def empty_list_def item_append_def set_next_def
        set_prev_def load_def)
qed

subsection \<open>The list as a value\<close>

record 'a vlist =
  elems :: "'a list"
  vlen :: size_t

definition vl_init :: "'a vlist" where
  "vl_init = \<lparr>elems = [], vlen = 0\<rparr>"

definition vl_append :: "'a \<Rightarrow> 'a vlist \<Rightarrow> 'a vlist" where
  "vl_append x v = v\<lparr>elems := elems v @ [x], vlen := vlen v + 1\<rparr>"

definition vl_unlink :: "'a \<Rightarrow> 'a vlist \<Rightarrow> 'a vlist" where
  "vl_unlink x v = v\<lparr>elems := remove1 x (elems v)\<rparr>"

definition vl_pop :: "'a vlist \<Rightarrow> ('a option \<times> 'a vlist) res" where
  "vl_pop v =
     (if vlen v = 0 then Inr (None, v)
      else case elems v of
        [] \<Rightarrow> Inl Bad_pointer
      | x # xs \<Rightarrow> Inr (Some x, v\<lparr>elems := xs, vlen := vlen v - 1\<rparr>))"

definition vl_rotate :: "'a vlist \<Rightarrow> ('a \<times> 'a vlist) res" where
  "vl_rotate v =
     bindE (vl_pop v) (\<lambda>(r, v1).
       case r of
         None \<Rightarrow> Inl Bad_pointer
       | Some x \<Rightarrow> Inr (x, v1\<lparr>elems := elems v1 @ [x]\<rparr>))"

definition vl_ok :: "'a vlist \<Rightarrow> bool" where
  "vl_ok v \<longleftrightarrow> distinct (elems v) \<and> unat (vlen v) = length (elems v)"

definition ll_abs :: "heap \<Rightarrow> LL \<Rightarrow> ptr vlist" where
  "ll_abs h l = \<lparr>elems = the (list_items h l), vlen = ll_len l\<rparr>"

definition ptr_opt :: "ptr \<Rightarrow> ptr option" where
  "ptr_opt p = (if p = NULL then None else Some p)"

lemmas vlist_defs = vl_init_def vl_append_def vl_unlink_def vl_pop_def vl_rotate_def

lemma ll_abs_ring: "ring h (ll_head l) xs \<Longrightarrow> ll_abs h l = \<lparr>elems = xs, vlen = ll_len l\<rparr>"
  by (simp add: ll_abs_def list_items_ring)

lemma vl_ok_init [simp]: "vl_ok vl_init"
  by (simp add: vl_ok_def vl_init_def)

lemma vl_ok_append:
  "vl_ok v \<Longrightarrow> x \<notin> set (elems v) \<Longrightarrow> Suc (length (elems v)) < 2 ^ 64 \<Longrightarrow> vl_ok (vl_append x v)"
  by (simp add: vl_ok_def vl_append_def unat_Suc_word)

lemma vl_pop_Nil: "vl_ok v \<Longrightarrow> elems v = [] \<Longrightarrow> vl_pop v = Inr (None, v)"
  by (simp add: vl_ok_def vl_pop_def unat_eq_zero)

lemma vl_pop_Cons:
  assumes "vl_ok v" and "elems v = x # xs"
  shows "\<exists>v'. vl_pop v = Inr (Some x, v') \<and> vl_ok v' \<and> elems v' = xs"
proof -
  from assms have "vlen v \<noteq> 0" and "unat (vlen v) = Suc (length xs)"
    by (auto simp: vl_ok_def)
  with assms show ?thesis by (auto simp: vl_pop_def vl_ok_def unat_pred_word)
qed

text \<open>Unlinking with the counter adjusted, as the clients of \<open>item_remove\<close> do it.\<close>

lemma vl_ok_unlink:
  assumes "vl_ok v" and "x \<in> set (elems v)"
  shows "vl_ok ((vl_unlink x v)\<lparr>vlen := vlen v - 1\<rparr>)"
proof -
  have "0 < unat (vlen v)" using assms by (auto simp: vl_ok_def)
  moreover have "length (remove1 x (elems v)) = length (elems v) - 1"
    using assms(2) by (simp add: length_remove1)
  ultimately show ?thesis
    using assms by (simp add: vl_ok_def vl_unlink_def unat_pred_word)
qed

text \<open>Both levels keep the contract of a first-in first-out container.\<close>

definition ll_inv :: "heap \<times> LL \<Rightarrow> bool" where
  "ll_inv = (\<lambda>(h, l). \<exists>xs. LLrep h l xs)"

definition ll_elems :: "heap \<times> LL \<Rightarrow> ptr list" where
  "ll_elems = (\<lambda>(h, l). the (list_items h l))"

definition ll_room :: "heap \<times> LL \<Rightarrow> nat" where
  "ll_room hl = 2 ^ 64 - 1 - length (ll_elems hl)"

definition ll_fresh :: "ptr \<Rightarrow> heap \<times> LL \<Rightarrow> bool" where
  "ll_fresh x = (\<lambda>(h, l). x \<noteq> NULL \<and> x \<in> dom h \<and> x \<notin> set (ll_head l # ll_elems (h, l)))"

definition ll_get :: "heap \<times> LL \<Rightarrow> (ptr option \<times> heap \<times> LL) res" where
  "ll_get hl = bindE (list_pop hl) (\<lambda>(p, hl'). Inr (ptr_opt p, hl'))"

lemma ll_elems_LLrep: "LLrep h l xs \<Longrightarrow> ll_elems (h, l) = xs"
  by (simp add: ll_elems_def list_items_LLrep)

interpretation il: fifo ll_inv ll_elems ll_room ll_fresh list_append ll_get
proof unfold_locales
  fix hl x
  assume a: "ll_inv hl" "ll_fresh x hl" "0 < ll_room hl"
  obtain h l where hl: "hl = (h, l)" by (cases hl)
  with a obtain xs where r: "LLrep h l xs" by (auto simp: ll_inv_def)
  from a hl r obtain n where "x \<notin> set (ll_head l # xs)" "x \<noteq> NULL" "h x = Some n"
    "Suc (length xs) < 2 ^ 64"
    by (auto simp: ll_fresh_def ll_room_def ll_elems_LLrep [OF r])
  from list_append_LLrep [OF r this] obtain h' l' where
    o: "list_append x (h, l) = Inr (h', l')" "LLrep h' l' (xs @ [x])"
       "ll_head l' = ll_head l" "dom h' = dom h" by blast
  show "\<exists>q'. list_append x hl = Inr q' \<and> ll_inv q' \<and> ll_elems q' = ll_elems hl @ [x] \<and>
      ll_room hl = Suc (ll_room q')"
    using o a(3) hl by (auto simp: ll_inv_def ll_room_def ll_elems_LLrep [OF r] ll_elems_LLrep [OF o(2)])
  fix q' y
  assume "list_append x hl = Inr q'" "ll_fresh y hl" "y \<noteq> x"
  with o hl show "ll_fresh y q'"
    by (auto simp: ll_fresh_def ll_elems_LLrep [OF r] ll_elems_LLrep [OF o(2)])
next
  fix hl :: "heap \<times> LL"
  assume a: "ll_inv hl" "ll_elems hl = []"
  then show "ll_get hl = Inr (None, hl)"
    by (auto simp: ll_inv_def ll_elems_LLrep ll_get_def list_pop_zero LLrep_def ptr_opt_def
        unat_eq_zero dest!: ll_elems_LLrep)
next
  fix hl x xs
  assume a: "ll_inv hl" "ll_elems hl = x # xs"
  then obtain h l where hl: "hl = (h, l)" and r: "LLrep h l (x # xs)"
    using ll_elems_LLrep by (force simp: ll_inv_def)
  have "x \<noteq> NULL" using r ring_alloc [of h "ll_head l" "x # xs" x] by (auto simp: LLrep_def)
  with list_pop_LLrep [OF r] show "\<exists>q'. ll_get hl = Inr (Some x, q') \<and> ll_inv q' \<and> ll_elems q' = xs"
    by (fastforce simp: hl ll_get_def ll_inv_def ptr_opt_def dest: ll_elems_LLrep)
qed

definition vl_room :: "'a vlist \<Rightarrow> nat" where
  "vl_room v = 2 ^ 64 - 1 - length (elems v)"

definition vl_fresh :: "'a \<Rightarrow> 'a vlist \<Rightarrow> bool" where
  "vl_fresh x v \<longleftrightarrow> x \<notin> set (elems v)"

definition vl_put :: "'a \<Rightarrow> 'a vlist \<Rightarrow> 'a vlist res" where
  "vl_put x v = Inr (vl_append x v)"

interpretation vl: fifo vl_ok elems vl_room vl_fresh vl_put vl_pop
  by unfold_locales
    (auto simp: vl_put_def vl_fresh_def vl_room_def vl_ok_append vl_pop_Nil vl_pop_Cons,
     auto simp: vl_append_def)

subsection \<open>Properties\<close>

text \<open>
  C32: Appending on the heap. If the sentinel of a list heads a ring of nodes and a node is allocated
  and not in that ring, then \<open>list_append\<close> runs without a fault, the new ring is the old one with
  the node at its end, the abstraction of the result is the value-level append of the abstraction,
  and no other node of the heap is touched.
\<close>

theorem list_append_refines:
  assumes "ring h (ll_head l) xs" and "x \<notin> set (ll_head l # xs)" and "x \<noteq> NULL" and "h x = Some n"
  shows "\<exists>h' l'. list_append x (h, l) = Inr (h', l') \<and> ring h' (ll_head l') (xs @ [x]) \<and>
     ll_abs h' l' = vl_append x (ll_abs h l) \<and>
     (\<forall>p. p \<notin> set (x # ll_head l # xs) \<longrightarrow> h' p = h p)"
  using list_append_ring [OF assms] ll_abs_ring [OF assms(1)]
  by (fastforce simp: ll_abs_ring vl_append_def)

definition ex_heap :: heap where
  "ex_heap = [1 \<mapsto> \<lparr>il_next = 2, il_prev = 3\<rparr>, 2 \<mapsto> \<lparr>il_next = 3, il_prev = 1\<rparr>,
              3 \<mapsto> \<lparr>il_next = 1, il_prev = 2\<rparr>, 4 \<mapsto> \<lparr>il_next = 4, il_prev = 4\<rparr>]"

definition ex_list :: LL where
  "ex_list = \<lparr>ll_head = 1, ll_len = 2\<rparr>"

lemma ex_ring: "ring ex_heap (ll_head ex_list) [2, 3]"
  by (simp add: ring_def ex_heap_def ex_list_def nextp_def prevp_def NULL_def)

theorem list_append_refines_witness:
  "\<exists>h' l'. list_append 4 (ex_heap, ex_list) = Inr (h', l') \<and> ring h' (ll_head l') [2, 3, 4] \<and>
     ll_abs h' l' = vl_append 4 (ll_abs ex_heap ex_list)"
  using list_append_refines [OF ex_ring, of 4 "\<lparr>il_next = 4, il_prev = 4\<rparr>"]
  by (auto simp: ex_heap_def ex_list_def NULL_def)

text \<open>
  Unlinking on the heap. \<open>item_remove\<close> of a node of a ring closes the ring around it, leaves the
  node as a ring of its own (so that removing it again changes nothing), touches no other node,
  and leaves the counter of the list alone: the abstraction of the list changes as \<open>vl_unlink\<close> does.
\<close>

theorem item_remove_refines:
  assumes "ring h (ll_head l) (xs @ x # ys)"
  shows "\<exists>h'. item_remove x h = Inr (x, h') \<and> ring h' (ll_head l) (xs @ ys) \<and> ring h' x [] \<and>
     ll_abs h' l = vl_unlink x (ll_abs h l) \<and> item_remove x h' = Inr (x, h') \<and>
     (\<forall>p. p \<notin> set (ll_head l # xs @ x # ys) \<longrightarrow> h' p = h p)"
proof -
  from item_remove_ring [OF assms] obtain h' where
    h': "item_remove x h = Inr (x, h')" "ring h' (ll_head l) (xs @ ys)" "ring h' x []"
    "\<forall>p. p \<notin> set (ll_head l # xs @ x # ys) \<longrightarrow> h' p = h p" by blast
  have "x \<notin> set xs" using assms by (auto simp: ring_def)
  then have "ll_abs h' l = vl_unlink x (ll_abs h l)"
    by (simp add: ll_abs_ring [OF assms] ll_abs_ring [OF h'(2)] vl_unlink_def remove1_append)
  moreover have "item_remove x h' = Inr (x, h')"
    using h'(3) by (rule item_remove_self)
  ultimately show ?thesis using h' by blast
qed

theorem item_remove_refines_witness:
  "\<exists>h'. item_remove 2 ex_heap = Inr (2, h') \<and> ring h' 1 [3] \<and> ring h' 2 []"
  using item_remove_refines [of ex_heap ex_list "[]" 2 "[3]"] ex_ring
  by (auto simp: ex_list_def)

text \<open>
  Taking the first node out. On a list whose counter is right, \<open>list_pop\<close> never faults: it
  returns \<open>NULL\<close> and changes nothing when the ring is empty, and otherwise returns the first node,
  keeps the others in order with a counter that is right again, and leaves the node self-linked.
\<close>

theorem list_pop_refines:
  assumes "LLrep h l xs"
  shows "\<exists>p h' l'. list_pop (h, l) = Inr (p, h', l') \<and> LLrep h' l' (tl xs) \<and>
     vl_pop (ll_abs h l) = Inr (ptr_opt p, ll_abs h' l') \<and>
     p = (case xs of [] \<Rightarrow> NULL | x # _ \<Rightarrow> x) \<and> (xs \<noteq> [] \<longrightarrow> ring h' p [])"
proof (cases xs)
  case Nil
  with assms show ?thesis
    by (auto simp: list_pop_zero LLrep_def unat_eq_zero ll_abs_def vl_pop_def ptr_opt_def)
next
  case (Cons x ys)
  with assms have r: "ring h (ll_head l) (x # ys)" and n: "unat (ll_len l) = Suc (length ys)"
    by (auto simp: LLrep_def)
  then have nz: "ll_len l \<noteq> 0" by auto
  from ring_alloc [OF r] have "x \<noteq> NULL" by auto
  with list_pop_ring [OF r nz] nz n Cons show ?thesis
    by (auto simp: ll_abs_ring [OF r] ll_abs_ring vl_pop_def ptr_opt_def LLrep_def unat_pred_word)
qed

theorem list_pop_refines_witness:
  "\<exists>h' l'. list_pop (ex_heap, ex_list) = Inr (2, h', l') \<and> LLrep h' l' [3] \<and> ring h' 2 []"
  using list_pop_refines [of ex_heap ex_list "[2, 3]"] ex_ring
  by (auto simp: LLrep_def ex_list_def)

text \<open>
  First in, first out, on the heap. Appending distinct, allocated, unlinked nodes one after the
  other to an empty list and popping until \<open>NULL\<close> comes back yields the nodes in the order in
  which they were appended; no step faults and the list is empty again.
\<close>

theorem list_fifo:
  assumes "LLrep h l []" and "distinct xs" and "length xs < 2 ^ 64"
    and "\<forall>x\<in>set xs. x \<noteq> NULL \<and> x \<noteq> ll_head l \<and> x \<in> dom h"
  shows "\<exists>h' l'. bindE (put_all list_append xs (h, l)) (drain ll_get (Suc (length xs))) =
     Inr (xs, h', l') \<and> LLrep h' l' []"
proof -
  have i: "ll_inv (h, l)" "ll_elems (h, l) = []"
    using assms(1) by (auto simp: ll_inv_def ll_elems_LLrep)
  moreover have "\<forall>x\<in>set xs. ll_fresh x (h, l)" "length xs \<le> ll_room (h, l)"
    using assms(3,4) i(2) by (auto simp: ll_fresh_def ll_room_def)
  ultimately obtain hl where
    hl: "bindE (put_all list_append xs (h, l)) (drain ll_get (Suc (length xs))) = Inr (xs, hl)"
        "ll_inv hl" "ll_elems hl = []"
    using il.put_all_drain [OF i assms(2), of "Suc (length xs)"] by auto
  obtain h' l' where e: "hl = (h', l')" by (cases hl)
  with hl(2) obtain ys where y: "LLrep h' l' ys" by (auto simp: ll_inv_def)
  with hl(3) e have "ys = []" by (simp add: ll_elems_LLrep)
  with hl(1) e y show ?thesis by auto
qed

definition ex_pool_heap :: heap where
  "ex_pool_heap = (\<lambda>p. if p \<in> {1, 2, 3} then Some \<lparr>il_next = p, il_prev = p\<rparr> else None)"

theorem list_fifo_witness:
  "\<exists>h' l'. bindE (put_all list_append [3, 2] (ex_pool_heap, \<lparr>ll_head = 1, ll_len = 0\<rparr>))
     (drain ll_get 3) = Inr ([3, 2], h', l') \<and> LLrep h' l' []"
proof -
  have "LLrep ex_pool_heap \<lparr>ll_head = 1, ll_len = 0\<rparr> []"
    by (simp add: ex_pool_heap_def LLrep_def ring_Nil nextp_def prevp_def NULL_def)
  moreover have "\<forall>x\<in>set [3, 2]. x \<noteq> NULL \<and> x \<noteq> ll_head \<lparr>ll_head = 1, ll_len = 0\<rparr> \<and> x \<in> dom ex_pool_heap"
    by (auto simp: ex_pool_heap_def NULL_def dom_def)
  ultimately show ?thesis
    using list_fifo [of ex_pool_heap "\<lparr>ll_head = 1, ll_len = 0\<rparr>" "[3, 2]"]
    by (simp add: numeral_3_eq_3)
qed

text \<open>
  Rotation loses count. \<open>list_rotate\<close> of a non-empty list with a right counter moves the first node
  to the end of the ring, so the ring keeps all its nodes, but the counter is decremented and never
  incremented again: after one rotation it is one too low, and on a list whose counter has reached
  zero the rotation dereferences \<open>NULL\<close> although the ring still has all its nodes.
\<close>

theorem list_rotate_loses_count:
  assumes "LLrep h l (x # xs)"
  shows "\<exists>h' l'. list_rotate (h, l) = Inr (x, h', l') \<and> ring h' (ll_head l') (xs @ [x]) \<and>
     Suc (unat (ll_len l')) = length (xs @ [x]) \<and>
     list_rotate (h, l\<lparr>ll_len := 0\<rparr>) = Inl Bad_pointer"
proof -
  from assms have r: "ring h (ll_head l) (x # xs)" and n: "unat (ll_len l) = Suc (length xs)"
    by (auto simp: LLrep_def)
  then have "ll_len l \<noteq> 0" by auto
  moreover have "list_rotate (h, l\<lparr>ll_len := 0\<rparr>) = Inl Bad_pointer"
    using r by (intro list_rotate_zero) auto
  ultimately show ?thesis
    using list_rotate_ring [OF r] n by (fastforce simp: unat_pred_word)
qed

theorem list_rotate_loses_count_witness:
  "\<exists>h' l'. list_rotate (ex_heap, ex_list) = Inr (2, h', l') \<and> ring h' (ll_head l') [3, 2] \<and>
     Suc (unat (ll_len l')) = 2"
  using list_rotate_loses_count [of ex_heap ex_list 2 "[3]"] ex_ring
  by (auto simp: LLrep_def ex_list_def)

text \<open>
  The loop \<open>for_each\<close> terminates on every ring and visits exactly its nodes, once each and in order.
\<close>

theorem for_each_visits_ring:
  assumes "ring h (ll_head l) xs"
  shows "list_items h l = Some xs \<and> distinct xs"
  using list_items_ring [OF assms] assms by (auto simp: ring_def)

theorem for_each_visits_ring_witness: "list_items ex_heap ex_list = Some [2, 3]"
  using for_each_visits_ring [OF ex_ring] by blast

end
