(* ===== verification/Pool.thy ===== *)
theory Pool
  imports Il
begin

text \<open>
  The data and the critical sections of the thread pool, \<open>src/pool.c\<close>.

  A \<open>Work\<close>, \<open>TThread\<close> or \<open>TGroup\<close> struct is named by a number (its allocation), so
  \<open>CONTAINER_OF\<close> is the identity and the intrusive lists hold these names. What one thread does
  between taking and releasing the locks is one function on the data the locks protect; the
  theory \<open>Pool_Group\<close> interleaves these functions. The outcome of the
  calls that can fail (\<open>malloc\<close>, \<open>pthread_mutex_init\<close>, \<open>pthread_cond_init\<close>,
  \<open>pthread_create\<close>) is an argument, the record \<open>sysenv\<close>; the asserts on them are faults.
\<close>

subsection \<open>Constants and data\<close>

definition POOL_SUCCESS :: int where "POOL_SUCCESS = 0"
definition POOL_ERROR :: int where "POOL_ERROR = -1"
definition GROUP_FULL :: int where "GROUP_FULL = -2"

definition GROUP_DYNAMIC :: u32 where "GROUP_DYNAMIC = 0x01"
definition GROUP_FIXED :: u32 where "GROUP_FIXED = 0x02"
definition GROUP_CLOSE :: u32 where "GROUP_CLOSE = 0x04"
definition GROUP_CLEAN :: u32 where "GROUP_CLEAN = 0x08"
definition GROUP_WAIT :: u32 where "GROUP_WAIT = 0x10"
definition SOFT_KILL :: u32 where "SOFT_KILL = 0x20"
definition HARD_KILL :: u32 where "HARD_KILL = 0x40"
definition POOL_WAITING :: u32 where "POOL_WAITING = 0x80"
definition Q_SIZE_MULT :: u32 where "Q_SIZE_MULT = 100"

lemmas pool_flag_defs = GROUP_DYNAMIC_def GROUP_FIXED_def GROUP_CLOSE_def GROUP_CLEAN_def
  GROUP_WAIT_def SOFT_KILL_def HARD_KILL_def POOL_WAITING_def

lemmas pool_rc_defs = POOL_SUCCESS_def POOL_ERROR_def GROUP_FULL_def

type_synonym work = nat
type_synonym tid = nat
type_synonym gid = nat

record Work =
  wf :: nat
  work_arg :: nat

record Q =
  q_work :: "work vlist"
  q_capacity :: size_t

datatype Health = well | moderate | poor

datatype State = running | idle | dead

record TPool =
  totalThrds :: u32
  p_thrdMax :: u32
  p_groups :: "gid vlist"
  groupsWaiting :: int
  p_flags :: u32
  p_state :: State
  p_manager :: nat

record TGroup =
  g_flags :: u32
  g_q :: Q
  idleThrds :: "tid vlist"
  activeThrds :: "tid vlist"
  g_thrdMax :: u32
  g_thrdMin :: u32
  numThrds :: u32
  thrds :: "tid list"

record TThread =
  tt_state :: State
  currTask :: "work option"

record sysenv =
  malloc_ok :: bool
  mutex_ok :: bool
  cond_ok :: bool
  create_ok :: bool

definition all_ok :: sysenv where
  "all_ok = \<lparr>malloc_ok = True, mutex_ok = True, cond_ok = True, create_ok = True\<rparr>"

subsection \<open>Work items\<close>

text \<open>\<open>init_work\<close> stores the address of new memory, whose contents \<open>mem\<close> are not set yet.\<close>

definition init_work :: "bool \<Rightarrow> bool \<Rightarrow> Work \<Rightarrow> Work option res" where
  "init_work null_arg mok mem =
     (if null_arg then Inr None else assertE mok (Inr (Some mem)))"

definition add_work :: "Work \<Rightarrow> nat \<Rightarrow> nat \<Rightarrow> Work" where
  "add_work work func arg = work\<lparr>wf := func, work_arg := arg\<rparr>"

subsection \<open>The queue of a group\<close>

definition q_init :: "size_t \<Rightarrow> Q" where
  "q_init capacity = \<lparr>q_work = vl_init, q_capacity = capacity\<rparr>"

definition q_full :: "Q \<Rightarrow> bool" where
  "q_full q \<longleftrightarrow> vlen (q_work q) = q_capacity q"

definition q_empty :: "Q \<Rightarrow> bool" where
  "q_empty q \<longleftrightarrow> vlen (q_work q) = 0"

definition q_append :: "Q \<Rightarrow> work \<Rightarrow> int \<times> Q" where
  "q_append q w =
     (if \<not> q_full q then (POOL_SUCCESS, q\<lparr>q_work := vl_append w (q_work q)\<rparr>)
      else (POOL_ERROR, q))"

definition q_fetch :: "Q \<Rightarrow> (work option \<times> Q) res" where
  "q_fetch q =
     (if q_empty q then Inr (None, q)
      else bindE (vl_pop (q_work q)) (\<lambda>(il, l). Inr (il, q\<lparr>q_work := l\<rparr>)))"

abbreviation q_elems :: "Q \<Rightarrow> work list" where
  "q_elems q \<equiv> elems (q_work q)"

definition q_ok :: "Q \<Rightarrow> bool" where
  "q_ok q \<longleftrightarrow> vl_ok (q_work q) \<and> length (q_elems q) \<le> unat (q_capacity q)"

subsection \<open>Health\<close>

text \<open>
  The C code compares \<open>(float) len / (float) capacity\<close> with 0.25. With a capacity of at most
  \<open>2 ^ 24\<close> both conversions are exact and the rounded quotient is below a quarter exactly when
  the quotient is, so the comparison is the one on integers.
\<close>

definition internal_health_check :: "TGroup \<Rightarrow> Health" where
  "internal_health_check tg =
     (if q_empty (g_q tg) then well
      else if 4 * unat (vlen (q_work (g_q tg))) < unat (q_capacity (g_q tg)) then moderate
      else poor)"

subsection \<open>Creating threads\<close>

definition internal_create_thread :: "sysenv \<Rightarrow> work option \<Rightarrow> TThread option res" where
  "internal_create_thread e w =
     assertE (malloc_ok e)
       (if \<not> mutex_ok e then Inr None
        else if \<not> cond_ok e then Inr None
        else Inr (Some \<lparr>tt_state = running, currTask = w\<rparr>))"

text \<open>
  One iteration of the creation loops of \<open>add_group\<close> and \<open>manager_thread_function\<close>: the new
  struct joins the active list, its worker starts, and its id is stored in the array \<open>thrds\<close>.
  \<open>n\<close> is the name of the new struct.
\<close>

definition spawn_thread :: "sysenv \<Rightarrow> work option \<Rightarrow> tid \<Rightarrow> TGroup \<times> (tid \<rightharpoonup> TThread) \<Rightarrow>
    (TGroup \<times> (tid \<rightharpoonup> TThread)) res" where
  "spawn_thread e w n = (\<lambda>(tg, ts).
     bindE (internal_create_thread e w) (\<lambda>r.
       case r of
         None \<Rightarrow> Inl Assert_failed
       | Some tt \<Rightarrow>
           assertE (create_ok e)
             (if unat (numThrds tg) < length (thrds tg)
              then Inr (tg\<lparr>activeThrds := vl_append n (activeThrds tg),
                           thrds := (thrds tg)[unat (numThrds tg) := n],
                           numThrds := numThrds tg + 1\<rparr>,
                        ts(n \<mapsto> tt))
              else Inl Out_of_bounds)))"

subsection \<open>The pool\<close>

text \<open>What \<open>init_pool\<close> leaves in \<open>*tp\<close>: nothing written, \<open>NULL\<close>, memory that was
  allocated and never initialised, or a pool.\<close>

datatype pool_slot = Slot_untouched | Slot_null | Slot_garbage | Slot_pool TPool

definition init_pool :: "bool \<Rightarrow> bool \<Rightarrow> u32 \<Rightarrow> int \<times> pool_slot" where
  "init_pool tp_null mok maxThrds =
     (if tp_null then (POOL_ERROR, Slot_untouched)
      else if \<not> mok then (POOL_ERROR, Slot_null)
      else if maxThrds = 0 then (POOL_ERROR, Slot_garbage)
      else (POOL_SUCCESS, Slot_pool
        \<lparr>totalThrds = 0, p_thrdMax = maxThrds, p_groups = vl_init, groupsWaiting = 0,
         p_flags = 0, p_state = dead, p_manager = 0\<rparr>))"

subsection \<open>Adding a group\<close>

text \<open>
  \<open>add_group\<close> has three parts: under the pool lock it computes the limits from the threads that are
  still available; with the lock released it builds the group and starts its first threads; under
  the pool lock again it links the group and charges its threads to the pool.
\<close>

definition add_group_reserve :: "TPool \<Rightarrow> u32 \<Rightarrow> u32 \<Rightarrow> (u32 \<times> u32) option" where
  "add_group_reserve tp mn mx =
     (let mn' = (if mn = 0 then 1 else mn);
          availableThrds = p_thrdMax tp - totalThrds tp;
          mx' = (if availableThrds < mx then availableThrds else mx)
      in if mx' = 0 \<or> mn' > mx' then None else Some (mn', mx'))"

definition new_group :: "u32 \<Rightarrow> u32 \<Rightarrow> u32 \<Rightarrow> TGroup" where
  "new_group mn mx flags =
     \<lparr>g_flags = (if flags = GROUP_FIXED \<or> mn = mx then GROUP_FIXED else GROUP_DYNAMIC),
      g_q = q_init (ucast (mx * Q_SIZE_MULT)),
      idleThrds = vl_init, activeThrds = vl_init,
      g_thrdMax = (if flags = GROUP_FIXED \<or> mn = mx then mn else mx),
      g_thrdMin = mn,
      numThrds = 0,
      thrds = replicate (unat mx) 0\<rparr>"

fun spawn_min :: "(tid \<Rightarrow> sysenv) \<Rightarrow> nat \<Rightarrow> tid \<Rightarrow> TGroup \<times> (tid \<rightharpoonup> TThread) \<Rightarrow>
    (TGroup \<times> (tid \<rightharpoonup> TThread)) res" where
  "spawn_min env 0 n st = Inr st"
| "spawn_min env (Suc k) n st = bindE (spawn_thread (env n) None n st) (spawn_min env k (Suc n))"

definition add_group_build :: "bool \<Rightarrow> bool \<Rightarrow> (tid \<Rightarrow> sysenv) \<Rightarrow> u32 \<Rightarrow> u32 \<Rightarrow> u32 \<Rightarrow>
    (TGroup \<times> (tid \<rightharpoonup> TThread)) res" where
  "add_group_build mok1 mok2 env mn mx flags =
     assertE mok1 (assertE mok2
       (spawn_min env (unat mn) 0 (new_group mn mx flags, Map.empty)))"

definition add_group_link :: "bool \<Rightarrow> gid \<Rightarrow> u32 \<Rightarrow> TPool \<Rightarrow> TPool res" where
  "add_group_link cok g mx tp =
     bindE (if vlen (p_groups tp) = 0
            then assertE cok (Inr (tp\<lparr>p_state := idle, p_manager := Suc (p_manager tp)\<rparr>))
            else Inr tp) (\<lambda>tp1.
     Inr (tp1\<lparr>p_groups := vl_append g (p_groups tp1), totalThrds := totalThrds tp1 + mx\<rparr>))"

definition add_group :: "bool \<Rightarrow> (tid \<Rightarrow> sysenv) \<Rightarrow> gid \<Rightarrow> u32 \<Rightarrow> u32 \<Rightarrow> u32 \<Rightarrow> TPool option \<Rightarrow>
    (TPool option \<times> (TGroup \<times> (tid \<rightharpoonup> TThread)) option) res" where
  "add_group ok env g mn mx flags tpo =
     (case tpo of
        None \<Rightarrow> Inr (None, None)
      | Some tp \<Rightarrow>
          (case add_group_reserve tp mn mx of
             None \<Rightarrow> Inr (Some tp, None)
           | Some (mn', mx') \<Rightarrow>
               bindE (add_group_build ok ok env mn' mx' flags) (\<lambda>st.
               bindE (add_group_link ok g mx' tp) (\<lambda>tp'.
               Inr (Some tp', Some st)))))"

subsection \<open>Submitting work\<close>

datatype do_work_out = DW_Closed | DW_Queued int Health | DW_Thread tid

definition do_work_group :: "work \<Rightarrow> TGroup \<Rightarrow> (do_work_out \<times> TGroup) res" where
  "do_work_group w tg =
     (if has_flag (g_flags tg) GROUP_CLOSE then Inr (DW_Closed, tg)
      else bindE (vl_pop (idleThrds tg)) (\<lambda>(il, l).
        case il of
          None \<Rightarrow>
            (let (r, q') = q_append (g_q tg) w;
                 rc = (if r = 0 then POOL_SUCCESS else GROUP_FULL);
                 tg' = tg\<lparr>idleThrds := l, g_q := q'\<rparr>
             in Inr (DW_Queued rc (internal_health_check tg'), tg'))
        | Some t \<Rightarrow>
            Inr (DW_Thread t, tg\<lparr>idleThrds := l, activeThrds := vl_append t (activeThrds tg)\<rparr>)))"

definition do_work_signal :: "TPool \<Rightarrow> TPool" where
  "do_work_signal tp = tp\<lparr>p_state := running\<rparr>"

definition do_work_handoff :: "work \<Rightarrow> TThread \<Rightarrow> TThread" where
  "do_work_handoff w tt = tt\<lparr>currTask := Some w, tt_state := running\<rparr>"

text \<open>The whole call, when no other thread interferes.\<close>

definition do_work :: "work option \<Rightarrow> (TGroup \<times> (tid \<rightharpoonup> TThread)) option \<Rightarrow> TPool \<Rightarrow>
    (int \<times> (TGroup \<times> (tid \<rightharpoonup> TThread)) option \<times> TPool) res" where
  "do_work wo go tp =
     (case (wo, go) of
        (Some w, Some (tg, ts)) \<Rightarrow>
          bindE (do_work_group w tg) (\<lambda>(out, tg').
            case out of
              DW_Closed \<Rightarrow> Inr (POOL_ERROR, Some (tg', ts), tp)
            | DW_Queued rc health \<Rightarrow>
                Inr (rc, Some (tg', ts), if health \<noteq> well then do_work_signal tp else tp)
            | DW_Thread t \<Rightarrow>
                (case ts t of
                   None \<Rightarrow> Inl Bad_pointer
                 | Some tt \<Rightarrow> Inr (POOL_SUCCESS, Some (tg', ts(t \<mapsto> do_work_handoff w tt)), tp)))
      | _ \<Rightarrow> Inr (POOL_ERROR, go, tp))"

subsection \<open>Waiting\<close>

definition internal_wait_helper :: "TGroup \<Rightarrow> int \<times> TGroup" where
  "internal_wait_helper tg =
     (if q_empty (g_q tg) then (POOL_ERROR, tg)
      else (POOL_SUCCESS, tg\<lparr>g_flags := set_flag (g_flags tg) GROUP_WAIT\<rparr>))"

fun wait_groups :: "gid list \<Rightarrow> TPool \<times> (gid \<rightharpoonup> TGroup) \<Rightarrow> (TPool \<times> (gid \<rightharpoonup> TGroup)) res" where
  "wait_groups [] st = Inr st"
| "wait_groups (g # gs) (tp, grps) =
     (case grps g of
        None \<Rightarrow> Inl Bad_pointer
      | Some tg \<Rightarrow>
          (let (rc, tg') = internal_wait_helper tg;
               tp' = (if rc \<noteq> 0 then tp\<lparr>groupsWaiting := groupsWaiting tp - 1\<rparr> else tp)
           in wait_groups gs (tp', grps(g \<mapsto> tg'))))"

text \<open>\<open>wait_pool\<close> up to its first wait on the condition, and its end.\<close>

definition wait_pool_begin :: "TPool \<times> (gid \<rightharpoonup> TGroup) \<Rightarrow> (TPool \<times> (gid \<rightharpoonup> TGroup)) res" where
  "wait_pool_begin = (\<lambda>(tp, grps).
     bindE (wait_groups (elems (p_groups tp))
              (tp\<lparr>groupsWaiting := int (unat (vlen (p_groups tp)))\<rparr>, grps)) (\<lambda>(tp1, grps1).
     Inr (tp1\<lparr>p_flags := set_flag (p_flags tp1) POOL_WAITING\<rparr>, grps1)))"

definition wait_pool_blocked :: "TPool \<Rightarrow> bool" where
  "wait_pool_blocked tp \<longleftrightarrow> groupsWaiting tp > 0"

definition wait_pool_end :: "TPool \<Rightarrow> TPool" where
  "wait_pool_end tp = tp\<lparr>p_flags := clear_flag (p_flags tp) POOL_WAITING\<rparr>"

subsection \<open>The worker\<close>

text \<open>What the worker does under the group lock: leave, run a task, or go to sleep. \<open>WO_Sleep\<close>
  carries the local variable \<open>wait\<close>, which the code writes only when the thread is running.\<close>

datatype worker_out = WO_Exit | WO_Task work | WO_Sleep bool

definition worker_group :: "tid \<Rightarrow> TGroup \<Rightarrow> TThread \<Rightarrow> (worker_out \<times> TGroup \<times> TThread) res" where
  "worker_group t tg tt =
     (if has_flag (g_flags tg) HARD_KILL then Inr (WO_Exit, tg, tt)
      else assertE (\<not> has_flag (g_flags tg) GROUP_CLEAN)
       (bindE (q_fetch (g_q tg)) (\<lambda>(task, q').
         let tg1 = tg\<lparr>g_q := q'\<rparr>; tt1 = tt\<lparr>currTask := task\<rparr> in
         case task of
           Some w \<Rightarrow> Inr (WO_Task w, tg1, tt1)
         | None \<Rightarrow>
             if has_flag (g_flags tg1) SOFT_KILL then Inr (WO_Exit, tg1, tt1)
             else if tt_state tt1 = running then
               (let act = vl_unlink t (activeThrds tg1);
                    idl = vl_unlink t (idleThrds tg1);
                    wait = (has_flag (g_flags tg1) GROUP_WAIT \<and> vlen act = 1);
                    fl = (if wait then clear_flag (g_flags tg1) GROUP_WAIT else g_flags tg1)
                in Inr (WO_Sleep wait,
                        tg1\<lparr>g_flags := fl,
                            activeThrds := act\<lparr>vlen := vlen act - 1\<rparr>,
                            idleThrds := vl_append t idl\<rparr>,
                        tt1\<lparr>tt_state := idle\<rparr>))
             else Inl Uninitialised)))"

definition worker_free_task :: "TThread \<Rightarrow> TThread" where
  "worker_free_task tt = tt\<lparr>currTask := None\<rparr>"

definition worker_notify :: "TPool \<Rightarrow> TPool \<times> bool" where
  "worker_notify tp =
     (let tp1 = tp\<lparr>groupsWaiting := groupsWaiting tp - 1\<rparr>
      in (tp1, groupsWaiting tp1 = 0))"

definition internal_destroy_thread :: "tid \<Rightarrow> TGroup \<Rightarrow> TThread \<Rightarrow> TGroup res" where
  "internal_destroy_thread t tg tt =
     (let tg1 = tg\<lparr>activeThrds := vl_unlink t (activeThrds tg), idleThrds := vl_unlink t (idleThrds tg)\<rparr>
      in if tt_state tt \<noteq> idle
         then Inr (tg1\<lparr>activeThrds := (activeThrds tg1)\<lparr>vlen := vlen (activeThrds tg1) - 1\<rparr>\<rparr>)
         else Inl Assert_failed)"

subsection \<open>Destroying a group and the pool\<close>

text \<open>The loop that moves every idle thread to the active list and wakes it.\<close>

lemma vl_pop_shrinks:
  "vl_pop v = Inr (Some x, v') \<Longrightarrow> unat (vlen v') < unat (vlen v)"
  by (auto simp: vl_pop_def split: if_splits list.splits)
    (metis unat_pred_word unat_gt_0 diff_less zero_less_one)

function wake_idle :: "TGroup \<times> (tid \<rightharpoonup> TThread) \<Rightarrow> (TGroup \<times> (tid \<rightharpoonup> TThread)) res" where
  "wake_idle (tg, ts) =
     (case vl_pop (idleThrds tg) of
        Inl e \<Rightarrow> Inl e
      | Inr (None, l) \<Rightarrow> Inr (tg, ts)
      | Inr (Some t, l) \<Rightarrow>
          (case ts t of
             None \<Rightarrow> Inl Bad_pointer
           | Some tt \<Rightarrow>
               wake_idle (tg\<lparr>idleThrds := l, activeThrds := vl_append t (activeThrds tg)\<rparr>,
                          ts(t \<mapsto> tt\<lparr>tt_state := running\<rparr>))))"
  by pat_completeness auto
termination
  by (relation "measure (\<lambda>(tg, ts). unat (vlen (idleThrds tg)))") (auto dest: vl_pop_shrinks)

declare wake_idle.simps [simp del]

text \<open>\<open>internal_destroy_group\<close> up to the release of the group lock, and what it joins then.\<close>

definition destroy_group_close :: "TGroup \<times> (tid \<rightharpoonup> TThread) \<Rightarrow> (TGroup \<times> (tid \<rightharpoonup> TThread)) res" where
  "destroy_group_close = (\<lambda>(tg, ts).
     wake_idle (tg\<lparr>g_flags := set_flag (g_flags tg) (set_flag GROUP_CLOSE SOFT_KILL)\<rparr>, ts))"

definition joined_threads :: "TGroup \<Rightarrow> tid list" where
  "joined_threads tg = take (unat (numThrds tg)) (thrds tg)"

text \<open>The two sections of \<open>destroy_group\<close> under the pool lock, before and after the joins.\<close>

definition destroy_group_unlink :: "gid \<Rightarrow> TPool \<Rightarrow> TPool" where
  "destroy_group_unlink g tp = tp\<lparr>p_groups := vl_unlink g (p_groups tp)\<rparr>"

definition destroy_group_account :: "TGroup \<Rightarrow> TPool \<Rightarrow> TPool" where
  "destroy_group_account tg tp =
     tp\<lparr>p_groups := (p_groups tp)\<lparr>vlen := vlen (p_groups tp) - 1\<rparr>,
        totalThrds := totalThrds tp - g_thrdMax tg\<rparr>"

text \<open>\<open>destroy_pool\<close>: the request to the manager, and the loop over the groups, which subtracts
  the limit of each group that it takes out.\<close>

definition destroy_pool_request :: "TPool \<Rightarrow> TPool" where
  "destroy_pool_request tp =
     (if p_state tp \<noteq> dead
      then tp\<lparr>p_flags := set_flag (p_flags tp) HARD_KILL, p_state := running\<rparr>
      else tp)"

fun destroy_pool_groups :: "nat \<Rightarrow> (gid \<rightharpoonup> TGroup) \<Rightarrow> TPool \<Rightarrow> (gid list \<times> TPool) res" where
  "destroy_pool_groups 0 grps tp = Inl Diverges"
| "destroy_pool_groups (Suc fuel) grps tp =
     bindE (vl_pop (p_groups tp)) (\<lambda>(il, l).
       case il of
         None \<Rightarrow> Inr ([], tp\<lparr>p_groups := l\<rparr>)
       | Some g \<Rightarrow>
           (case grps g of
              None \<Rightarrow> Inl Bad_pointer
            | Some tg \<Rightarrow>
                bindE (destroy_pool_groups fuel grps
                         (tp\<lparr>p_groups := l, totalThrds := totalThrds tp - g_thrdMax tg\<rparr>)) (\<lambda>(gs, tp').
                Inr (g # gs, tp'))))"

subsection \<open>The manager\<close>

definition manager_sleeps :: "bool \<Rightarrow> TPool \<Rightarrow> bool" where
  "manager_sleeps timedout tp \<longleftrightarrow>
     \<not> (timedout \<or> p_state tp = running) \<or> has_flag (p_flags tp) POOL_WAITING"

definition addThrds :: "TGroup \<Rightarrow> u32" where
  "addThrds tg =
     (case internal_health_check tg of
        well \<Rightarrow> 0
      | moderate \<Rightarrow> (g_thrdMax tg - numThrds tg) div 2
      | poor \<Rightarrow> g_thrdMax tg - numThrds tg)"

fun manager_spawn :: "(tid \<Rightarrow> sysenv) \<Rightarrow> nat \<Rightarrow> tid \<Rightarrow> TGroup \<times> (tid \<rightharpoonup> TThread) \<Rightarrow>
    (TGroup \<times> (tid \<rightharpoonup> TThread)) res" where
  "manager_spawn env 0 n st = Inr st"
| "manager_spawn env (Suc k) n (tg, ts) =
     bindE (q_fetch (g_q tg)) (\<lambda>(w, q').
     bindE (spawn_thread (env n) w n (tg\<lparr>g_q := q'\<rparr>, ts)) (manager_spawn env k (Suc n)))"

definition manager_group :: "(tid \<Rightarrow> sysenv) \<Rightarrow> tid \<Rightarrow> TGroup \<times> (tid \<rightharpoonup> TThread) \<Rightarrow>
    (TGroup \<times> (tid \<rightharpoonup> TThread)) res" where
  "manager_group env n = (\<lambda>(tg, ts). manager_spawn env (unat (addThrds tg)) n (tg, ts))"

definition manager_sleep_again :: "TPool \<Rightarrow> TPool" where
  "manager_sleep_again tp = tp\<lparr>p_state := idle\<rparr>"

subsection \<open>The queue is a bounded first-in first-out container\<close>

definition q_room :: "Q \<Rightarrow> nat" where
  "q_room q = unat (q_capacity q) - length (q_elems q)"

definition q_fresh :: "work \<Rightarrow> Q \<Rightarrow> bool" where
  "q_fresh w q \<longleftrightarrow> w \<notin> set (q_elems q)"

definition q_put :: "work \<Rightarrow> Q \<Rightarrow> Q res" where
  "q_put w q = (case q_append q w of (rc, q') \<Rightarrow> if rc = POOL_SUCCESS then Inr q' else Inl Assert_failed)"

lemma q_ok_init [simp]: "q_ok (q_init c)"
  by (simp add: q_ok_def q_init_def vl_init_def vl_ok_def)

lemma q_full_iff: "q_ok q \<Longrightarrow> q_full q \<longleftrightarrow> length (q_elems q) = unat (q_capacity q)"
  by (auto simp: q_full_def q_ok_def vl_ok_def word_unat_eq_iff)

lemma q_empty_iff: "q_ok q \<Longrightarrow> q_empty q \<longleftrightarrow> q_elems q = []"
  by (auto simp: q_empty_def q_ok_def vl_ok_def word_unat_eq_iff)

lemma q_append_room:
  assumes "q_ok q" and "length (q_elems q) < unat (q_capacity q)" and "w \<notin> set (q_elems q)"
  shows "\<exists>q'. q_append q w = (POOL_SUCCESS, q') \<and> q_ok q' \<and> q_elems q' = q_elems q @ [w] \<and>
     q_capacity q' = q_capacity q"
proof -
  have "unat (q_capacity q) < 2 ^ 64" using unat_lt_pow [of "q_capacity q"] by simp
  with assms have "vl_ok (vl_append w (q_work q))"
    by (intro vl_ok_append) (auto simp: q_ok_def)
  with assms show ?thesis
    by (auto simp: q_append_def q_full_iff q_ok_def vl_append_def)
qed

lemma q_append_full:
  assumes "q_ok q" and "length (q_elems q) = unat (q_capacity q)"
  shows "q_append q w = (POOL_ERROR, q)"
  using assms by (simp add: q_append_def q_full_iff)

lemma q_fetch_Nil: "q_ok q \<Longrightarrow> q_elems q = [] \<Longrightarrow> q_fetch q = Inr (None, q)"
  by (simp add: q_fetch_def q_empty_iff)

lemma q_fetch_Cons:
  assumes "q_ok q" and "q_elems q = w # ws"
  shows "\<exists>q'. q_fetch q = Inr (Some w, q') \<and> q_ok q' \<and> q_elems q' = ws \<and> q_capacity q' = q_capacity q"
proof -
  from assms have "vl_ok (q_work q)" by (simp add: q_ok_def)
  from vl_pop_Cons [OF this assms(2)] obtain v where
    "vl_pop (q_work q) = Inr (Some w, v)" "vl_ok v" "elems v = ws" by blast
  with assms show ?thesis by (auto simp: q_fetch_def q_empty_iff q_ok_def)
qed

interpretation wq: fifo q_ok q_elems q_room q_fresh q_put q_fetch
proof unfold_locales
  fix q w
  assume a: "q_ok q" "q_fresh w q" "0 < q_room q"
  then have "length (q_elems q) < unat (q_capacity q)" "w \<notin> set (q_elems q)"
    by (auto simp: q_room_def q_fresh_def)
  from q_append_room [OF a(1) this] obtain q1 where
    q1: "q_append q w = (POOL_SUCCESS, q1)" "q_ok q1" "q_elems q1 = q_elems q @ [w]"
    "q_capacity q1 = q_capacity q" by blast
  with a(3) show "\<exists>q'. q_put w q = Inr q' \<and> q_ok q' \<and> q_elems q' = q_elems q @ [w] \<and>
      q_room q = Suc (q_room q')"
    by (auto simp: q_put_def q_room_def)
  fix q' y
  assume "q_put w q = Inr q'" "q_fresh y q" "y \<noteq> w"
  with q1 show "q_fresh y q'" by (auto simp: q_put_def q_fresh_def)
next
  fix q :: Q
  assume "q_ok q" "q_elems q = []"
  then show "q_fetch q = Inr (None, q)" by (rule q_fetch_Nil)
next
  fix q w ws
  assume "q_ok q" "q_elems q = w # ws"
  then show "\<exists>q'. q_fetch q = Inr (Some w, q') \<and> q_ok q' \<and> q_elems q' = ws"
    using q_fetch_Cons by blast
qed

subsection \<open>Flags\<close>

lemma pool_flags_distinct [simp]:
  "has_flag GROUP_CLOSE GROUP_CLOSE" "has_flag SOFT_KILL SOFT_KILL"
  "\<not> has_flag GROUP_CLOSE SOFT_KILL" "\<not> has_flag SOFT_KILL GROUP_CLOSE"
  "\<not> has_flag GROUP_WAIT HARD_KILL" "\<not> has_flag GROUP_WAIT GROUP_CLEAN"
  "\<not> has_flag GROUP_WAIT GROUP_CLOSE" "\<not> has_flag GROUP_WAIT SOFT_KILL"
  "\<not> has_flag GROUP_CLOSE HARD_KILL" "\<not> has_flag GROUP_CLOSE GROUP_CLEAN"
  "\<not> has_flag SOFT_KILL HARD_KILL" "\<not> has_flag SOFT_KILL GROUP_CLEAN"
  "\<not> has_flag SOFT_KILL GROUP_WAIT" "\<not> has_flag GROUP_CLOSE GROUP_WAIT"
  "has_flag GROUP_WAIT GROUP_WAIT" "has_flag HARD_KILL HARD_KILL"
  "has_flag POOL_WAITING POOL_WAITING" "\<not> has_flag POOL_WAITING HARD_KILL"
  "\<not> has_flag HARD_KILL POOL_WAITING"
  "\<not> has_flag GROUP_FIXED GROUP_CLOSE" "\<not> has_flag GROUP_FIXED SOFT_KILL"
  "\<not> has_flag GROUP_FIXED HARD_KILL" "\<not> has_flag GROUP_FIXED GROUP_CLEAN"
  "\<not> has_flag GROUP_FIXED GROUP_WAIT"
  "\<not> has_flag GROUP_DYNAMIC GROUP_CLOSE" "\<not> has_flag GROUP_DYNAMIC SOFT_KILL"
  "\<not> has_flag GROUP_DYNAMIC HARD_KILL" "\<not> has_flag GROUP_DYNAMIC GROUP_CLEAN"
  "\<not> has_flag GROUP_DYNAMIC GROUP_WAIT"
  by (simp_all add: has_flag_def pool_flag_defs)

lemma clear_wait_flags [simp]:
  "has_flag (clear_flag f GROUP_WAIT) HARD_KILL \<longleftrightarrow> has_flag f HARD_KILL"
  "has_flag (clear_flag f GROUP_WAIT) GROUP_CLEAN \<longleftrightarrow> has_flag f GROUP_CLEAN"
  "has_flag (clear_flag f GROUP_WAIT) GROUP_CLOSE \<longleftrightarrow> has_flag f GROUP_CLOSE"
  "has_flag (clear_flag f GROUP_WAIT) SOFT_KILL \<longleftrightarrow> has_flag f SOFT_KILL"
  by (rule has_flag_clear_disjoint; simp add: pool_flag_defs)+

subsection \<open>The lists of a group\<close>

text \<open>Idle and active threads: the two lists are disjoint and together name the threads \<open>L\<close>.\<close>

definition lists_ok :: "TGroup \<Rightarrow> tid set \<Rightarrow> bool" where
  "lists_ok tg L \<longleftrightarrow> vl_ok (idleThrds tg) \<and> vl_ok (activeThrds tg) \<and>
     set (elems (idleThrds tg)) \<inter> set (elems (activeThrds tg)) = {} \<and>
     set (elems (idleThrds tg)) \<union> set (elems (activeThrds tg)) = L \<and> L \<subseteq> {..<2 ^ 32}"

lemma short_list:
  fixes xs :: "nat list"
  assumes "distinct xs" and "set xs \<subseteq> {..<2 ^ 32}"
  shows "Suc (length xs) < 2 ^ 64"
proof -
  have "length xs = card (set xs)" using assms(1) by (simp add: distinct_card)
  also have "\<dots> \<le> card {..<(2::nat) ^ 32}" using assms(2) by (intro card_mono) auto
  finally show ?thesis by simp
qed

lemma lists_ok_append_room:
  "lists_ok tg L \<Longrightarrow> Suc (length (elems (idleThrds tg))) < 2 ^ 64 \<and>
     Suc (length (elems (activeThrds tg))) < 2 ^ 64"
  unfolding lists_ok_def vl_ok_def by (blast intro: short_list)

lemma lists_ok_cong:
  "idleThrds tg' = idleThrds tg \<Longrightarrow> activeThrds tg' = activeThrds tg \<Longrightarrow>
   lists_ok tg' L \<longleftrightarrow> lists_ok tg L"
  by (simp add: lists_ok_def)

text \<open>Popping an idle thread and moving it to the active list.\<close>

lemma lists_ok_activate:
  assumes "lists_ok tg L" and "elems (idleThrds tg) = t # ts"
  shows "\<exists>l. vl_pop (idleThrds tg) = Inr (Some t, l) \<and> elems l = ts \<and>
     lists_ok (tg\<lparr>idleThrds := l, activeThrds := vl_append t (activeThrds tg)\<rparr>) L"
proof -
  from assms have "vl_ok (idleThrds tg)" by (simp add: lists_ok_def)
  from vl_pop_Cons [OF this assms(2)] obtain l where
    l: "vl_pop (idleThrds tg) = Inr (Some t, l)" "vl_ok l" "elems l = ts" by blast
  have "t \<notin> set (elems (activeThrds tg))" "distinct (t # ts)"
    using assms by (auto simp: lists_ok_def vl_ok_def)
  moreover from this have "vl_ok (vl_append t (activeThrds tg))"
    using assms lists_ok_append_room [OF assms(1)] by (intro vl_ok_append) (auto simp: lists_ok_def)
  ultimately have "lists_ok (tg\<lparr>idleThrds := l, activeThrds := vl_append t (activeThrds tg)\<rparr>) L"
    using assms l by (auto simp: lists_ok_def vl_append_def)
  with l show ?thesis by blast
qed

text \<open>Moving an active thread to the idle list, as the worker does before it sleeps.\<close>

lemma lists_ok_deactivate:
  assumes "lists_ok tg L" and "t \<in> set (elems (activeThrds tg))"
  shows "lists_ok (tg\<lparr>activeThrds := (vl_unlink t (activeThrds tg))\<lparr>vlen := vlen (activeThrds tg) - 1\<rparr>,
                      idleThrds := vl_append t (vl_unlink t (idleThrds tg))\<rparr>) L"
proof -
  have t: "t \<notin> set (elems (idleThrds tg))" using assms by (auto simp: lists_ok_def)
  then have u: "vl_unlink t (idleThrds tg) = idleThrds tg"
    by (simp add: vl_unlink_def remove1_idem)
  have "vl_ok (vl_append t (idleThrds tg))"
    using assms t lists_ok_append_room [OF assms(1)] by (intro vl_ok_append) (auto simp: lists_ok_def)
  moreover have "vl_ok ((vl_unlink t (activeThrds tg))\<lparr>vlen := vlen (activeThrds tg) - 1\<rparr>)"
    using assms by (intro vl_ok_unlink) (auto simp: lists_ok_def)
  moreover have "distinct (elems (activeThrds tg))" using assms by (auto simp: lists_ok_def vl_ok_def)
  ultimately show ?thesis
    using assms t by (auto simp: lists_ok_def vl_append_def vl_unlink_def remove1_idem)
qed

text \<open>Removing an active thread, as the worker does when it ends.\<close>

lemma lists_ok_remove:
  assumes "lists_ok tg L" and "t \<in> set (elems (activeThrds tg))"
  shows "lists_ok (tg\<lparr>activeThrds := (vl_unlink t (activeThrds tg))\<lparr>vlen := vlen (activeThrds tg) - 1\<rparr>,
                      idleThrds := vl_unlink t (idleThrds tg)\<rparr>) (L - {t})"
proof -
  have t: "t \<notin> set (elems (idleThrds tg))" using assms by (auto simp: lists_ok_def)
  then have u: "vl_unlink t (idleThrds tg) = idleThrds tg"
    by (simp add: vl_unlink_def remove1_idem)
  moreover have "vl_ok ((vl_unlink t (activeThrds tg))\<lparr>vlen := vlen (activeThrds tg) - 1\<rparr>)"
    using assms by (intro vl_ok_unlink) (auto simp: lists_ok_def)
  moreover have "distinct (elems (activeThrds tg))" using assms by (auto simp: lists_ok_def vl_ok_def)
  ultimately show ?thesis
    using assms t by (auto simp: lists_ok_def vl_unlink_def remove1_idem)
qed

text \<open>A new thread joins the active list.\<close>

lemma lists_ok_new:
  assumes "lists_ok tg L" and "t \<notin> L" and "t < 2 ^ 32"
  shows "lists_ok (tg\<lparr>activeThrds := vl_append t (activeThrds tg)\<rparr>) (insert t L)"
proof -
  have "vl_ok (vl_append t (activeThrds tg))"
    using assms lists_ok_append_room [OF assms(1)] by (intro vl_ok_append) (auto simp: lists_ok_def)
  with assms show ?thesis by (auto simp: lists_ok_def vl_append_def)
qed

subsection \<open>What the critical sections do\<close>

lemma worker_group_task:
  assumes "\<not> has_flag (g_flags tg) HARD_KILL" and "\<not> has_flag (g_flags tg) GROUP_CLEAN"
    and "q_ok (g_q tg)" and "q_elems (g_q tg) = w # ws"
  shows "\<exists>q'. worker_group t tg tt = Inr (WO_Task w, tg\<lparr>g_q := q'\<rparr>, tt\<lparr>currTask := Some w\<rparr>) \<and>
     q_ok q' \<and> q_elems q' = ws"
  using q_fetch_Cons [OF assms(3,4)] assms(1,2) by (auto simp: worker_group_def)

lemma worker_group_exit:
  assumes "\<not> has_flag (g_flags tg) HARD_KILL" and "\<not> has_flag (g_flags tg) GROUP_CLEAN"
    and "q_ok (g_q tg)" and "q_elems (g_q tg) = []" and "has_flag (g_flags tg) SOFT_KILL"
  shows "worker_group t tg tt = Inr (WO_Exit, tg, tt\<lparr>currTask := None\<rparr>)"
  using assms by (simp add: worker_group_def q_fetch_Nil)

lemma worker_group_sleep:
  assumes "\<not> has_flag (g_flags tg) HARD_KILL" and "\<not> has_flag (g_flags tg) GROUP_CLEAN"
    and "q_ok (g_q tg)" and "q_elems (g_q tg) = []" and "\<not> has_flag (g_flags tg) SOFT_KILL"
    and "tt_state tt = running" and "lists_ok tg L" and "t \<in> set (elems (activeThrds tg))"
  shows "\<exists>b f a i. worker_group t tg tt =
       Inr (WO_Sleep b, tg\<lparr>g_flags := f, activeThrds := a, idleThrds := i\<rparr>,
            tt\<lparr>currTask := None, tt_state := idle\<rparr>) \<and>
     lists_ok (tg\<lparr>g_flags := f, activeThrds := a, idleThrds := i\<rparr>) L \<and>
     set (elems a) = set (elems (activeThrds tg)) - {t} \<and>
     set (elems i) = insert t (set (elems (idleThrds tg))) \<and>
     (f = g_flags tg \<or> f = clear_flag (g_flags tg) GROUP_WAIT) \<and>
     b = (has_flag (g_flags tg) GROUP_WAIT \<and> length (elems (activeThrds tg)) = 1) \<and>
     (b \<longrightarrow> \<not> has_flag f GROUP_WAIT) \<and> (\<not> b \<longrightarrow> f = g_flags tg)"
proof -
  have d: "distinct (elems (activeThrds tg))" "t \<notin> set (elems (idleThrds tg))"
    "unat (vlen (activeThrds tg)) = length (elems (activeThrds tg))"
    using assms(7,8) by (auto simp: lists_ok_def vl_ok_def)
  then have l1: "vlen (activeThrds tg) = 1 \<longleftrightarrow> length (elems (activeThrds tg)) = 1"
    by (metis unsigned_1 word_unat_eq_iff)
  define a where "a = (vl_unlink t (activeThrds tg))\<lparr>vlen := vlen (activeThrds tg) - 1\<rparr>"
  define i where "i = vl_append t (vl_unlink t (idleThrds tg))"
  have l: "lists_ok (tg\<lparr>g_flags := f, activeThrds := a, idleThrds := i\<rparr>) L" for f
    using lists_ok_deactivate [OF assms(7,8)]
    by (rule lists_ok_cong [THEN iffD2, rotated 2]) (simp_all add: a_def i_def)
  have "vlen (vl_unlink t (activeThrds tg)) = vlen (activeThrds tg)"
    by (simp add: vl_unlink_def)
  with assms(1-6) have "worker_group t tg tt =
       Inr (WO_Sleep (has_flag (g_flags tg) GROUP_WAIT \<and> vlen (activeThrds tg) = 1),
            tg\<lparr>g_flags := if has_flag (g_flags tg) GROUP_WAIT \<and> vlen (activeThrds tg) = 1
                          then clear_flag (g_flags tg) GROUP_WAIT else g_flags tg,
               activeThrds := a, idleThrds := i\<rparr>,
            tt\<lparr>currTask := None, tt_state := idle\<rparr>)"
    by (simp add: worker_group_def q_fetch_Nil a_def i_def Let_def)
  moreover have "set (elems a) = set (elems (activeThrds tg)) - {t}"
    "set (elems i) = insert t (set (elems (idleThrds tg)))"
    using d by (auto simp: a_def i_def vl_unlink_def vl_append_def remove1_idem)
  ultimately show ?thesis
    using l l1 by (intro exI conjI) auto
qed

lemma internal_destroy_thread_active:
  assumes "lists_ok tg L" and "t \<in> set (elems (activeThrds tg))" and "tt_state tt \<noteq> idle"
  shows "\<exists>a. internal_destroy_thread t tg tt = Inr (tg\<lparr>activeThrds := a\<rparr>) \<and>
     lists_ok (tg\<lparr>activeThrds := a\<rparr>) (L - {t}) \<and> set (elems a) = set (elems (activeThrds tg)) - {t}"
proof -
  define a where "a = (vl_unlink t (activeThrds tg))\<lparr>vlen := vlen (activeThrds tg) - 1\<rparr>"
  have t: "t \<notin> set (elems (idleThrds tg))" "distinct (elems (activeThrds tg))"
    using assms by (auto simp: lists_ok_def vl_ok_def)
  then have u: "vl_unlink t (idleThrds tg) = idleThrds tg"
    by (simp add: vl_unlink_def remove1_idem)
  have "internal_destroy_thread t tg tt = Inr (tg\<lparr>activeThrds := a\<rparr>)"
    using assms(3) by (simp add: internal_destroy_thread_def u a_def) (simp add: vl_unlink_def)
  moreover have "lists_ok (tg\<lparr>activeThrds := a\<rparr>) (L - {t})"
    using lists_ok_remove [OF assms(1,2)]
    by (rule lists_ok_cong [THEN iffD2, rotated 2]) (simp_all add: a_def u)
  ultimately show ?thesis using t by (auto simp: a_def vl_unlink_def)
qed

lemma do_work_group_thread:
  assumes "\<not> has_flag (g_flags tg) GROUP_CLOSE" and "lists_ok tg L" and "elems (idleThrds tg) = t # ts"
  shows "\<exists>i a. do_work_group w tg = Inr (DW_Thread t, tg\<lparr>idleThrds := i, activeThrds := a\<rparr>) \<and>
     lists_ok (tg\<lparr>idleThrds := i, activeThrds := a\<rparr>) L \<and> elems i = ts \<and>
     set (elems a) = insert t (set (elems (activeThrds tg)))"
proof -
  from lists_ok_activate [OF assms(2,3)] obtain l where
    "vl_pop (idleThrds tg) = Inr (Some t, l)" "elems l = ts"
    "lists_ok (tg\<lparr>idleThrds := l, activeThrds := vl_append t (activeThrds tg)\<rparr>) L" by blast
  with assms(1) show ?thesis
    by (intro exI [of _ l] exI [of _ "vl_append t (activeThrds tg)"])
      (auto simp: do_work_group_def vl_append_def)
qed

lemma do_work_group_queue:
  assumes "\<not> has_flag (g_flags tg) GROUP_CLOSE" and "vl_ok (idleThrds tg)" and "elems (idleThrds tg) = []"
    and "q_ok (g_q tg)" and "w \<notin> set (q_elems (g_q tg))"
  shows "\<exists>rc h q'. do_work_group w tg = Inr (DW_Queued rc h, tg\<lparr>g_q := q'\<rparr>) \<and> q_ok q' \<and>
     h = internal_health_check (tg\<lparr>g_q := q'\<rparr>) \<and>
     (if length (q_elems (g_q tg)) < unat (q_capacity (g_q tg))
      then rc = POOL_SUCCESS \<and> q_elems q' = q_elems (g_q tg) @ [w]
      else rc = GROUP_FULL \<and> q' = g_q tg)"
proof -
  have p: "vl_pop (idleThrds tg) = Inr (None, idleThrds tg)"
    using assms(2,3) by (rule vl_pop_Nil)
  show ?thesis
  proof (cases "length (q_elems (g_q tg)) < unat (q_capacity (g_q tg))")
    case True
    from q_append_room [OF assms(4) True assms(5)] p assms(1) True show ?thesis
      by (auto simp: do_work_group_def pool_rc_defs Let_def)
  next
    case False
    with assms(4) have "length (q_elems (g_q tg)) = unat (q_capacity (g_q tg))"
      by (auto simp: q_ok_def)
    from q_append_full [OF assms(4) this] p assms(1,4) False show ?thesis
      by (auto simp: do_work_group_def pool_rc_defs Let_def)
  qed
qed

lemma do_work_group_closed:
  "has_flag (g_flags tg) GROUP_CLOSE \<Longrightarrow> do_work_group w tg = Inr (DW_Closed, tg)"
  by (simp add: do_work_group_def)

text \<open>Waking all idle threads: none stays idle, all threads are active, and the woken ones run.\<close>

lemma wake_idle_all:
  assumes "lists_ok tg L" and "L \<subseteq> dom ts"
  shows "\<exists>i a ts'. wake_idle (tg, ts) = Inr (tg\<lparr>idleThrds := i, activeThrds := a\<rparr>, ts') \<and>
     lists_ok (tg\<lparr>idleThrds := i, activeThrds := a\<rparr>) L \<and> elems i = [] \<and> set (elems a) = L \<and>
     (\<forall>t. ts' t = (if t \<in> set (elems (idleThrds tg))
                   then map_option (\<lambda>tt. tt\<lparr>tt_state := running\<rparr>) (ts t) else ts t))"
  using assms
proof (induction "elems (idleThrds tg)" arbitrary: tg ts)
  case Nil
  then have "vl_pop (idleThrds tg) = Inr (None, idleThrds tg)"
    by (intro vl_pop_Nil) (auto simp: lists_ok_def)
  moreover have "tg\<lparr>idleThrds := idleThrds tg, activeThrds := activeThrds tg\<rparr> = tg" by simp
  ultimately show ?case
    using Nil by (intro exI [of _ "idleThrds tg"] exI [of _ "activeThrds tg"] exI [of _ ts])
      (auto simp: wake_idle.simps lists_ok_def)
next
  case (Cons t us)
  from lists_ok_activate [OF Cons.prems(1) Cons.hyps(2) [symmetric]] obtain l where
    l: "vl_pop (idleThrds tg) = Inr (Some t, l)" "elems l = us"
       "lists_ok (tg\<lparr>idleThrds := l, activeThrds := vl_append t (activeThrds tg)\<rparr>) L" by blast
  have d: "t \<in> L" "t \<notin> set us"
    using Cons.prems(1) Cons.hyps(2) [symmetric] by (auto simp: lists_ok_def vl_ok_def)
  with Cons.prems(2) obtain tt where tt: "ts t = Some tt" by blast
  let ?tg = "tg\<lparr>idleThrds := l, activeThrds := vl_append t (activeThrds tg)\<rparr>"
  let ?ts = "ts(t \<mapsto> tt\<lparr>tt_state := running\<rparr>)"
  have w: "wake_idle (tg, ts) = wake_idle (?tg, ?ts)"
    using l(1) tt by (subst wake_idle.simps) simp
  have us: "us = elems (idleThrds ?tg)" and dom: "L \<subseteq> dom ?ts"
    using l(2) Cons.prems(2) by auto
  from Cons.hyps(1) [OF us l(3) dom] obtain i a ts' where
    o: "wake_idle (?tg, ?ts) = Inr (?tg\<lparr>idleThrds := i, activeThrds := a\<rparr>, ts')"
       "lists_ok (?tg\<lparr>idleThrds := i, activeThrds := a\<rparr>) L" "elems i = []" "set (elems a) = L"
       "\<forall>u. ts' u = (if u \<in> set (elems (idleThrds ?tg))
          then map_option (\<lambda>tt. tt\<lparr>tt_state := running\<rparr>) (?ts u) else ?ts u)"
    by blast
  have "ts' u = (if u \<in> set (elems (idleThrds tg))
       then map_option (\<lambda>tt. tt\<lparr>tt_state := running\<rparr>) (ts u) else ts u)" for u
    using o(5) [rule_format, of u] tt d(2) Cons.hyps(2) [symmetric] us [symmetric]
    by (cases "u = t") simp_all
  with o(1-4) w show ?case
    by (intro exI [of _ i] exI [of _ a] exI [of _ ts']) simp
qed

text \<open>Starting threads.\<close>

lemma spawn_thread_ok:
  assumes "lists_ok tg L" and "n \<notin> L" and "unat (numThrds tg) = n" and "n < length (thrds tg)"
    and "length (thrds tg) < 2 ^ 32"
  shows "\<exists>a. spawn_thread all_ok w n (tg, ts) =
       Inr (tg\<lparr>activeThrds := a, thrds := (thrds tg)[n := n], numThrds := numThrds tg + 1\<rparr>,
            ts(n \<mapsto> \<lparr>tt_state = running, currTask = w\<rparr>)) \<and>
     lists_ok (tg\<lparr>activeThrds := a, thrds := (thrds tg)[n := n], numThrds := numThrds tg + 1\<rparr>) (insert n L) \<and>
     set (elems a) = insert n (set (elems (activeThrds tg))) \<and> unat (numThrds tg + 1) = Suc n"
proof -
  have "lists_ok (tg\<lparr>activeThrds := vl_append n (activeThrds tg)\<rparr>) (insert n L)"
    using assms by (intro lists_ok_new) auto
  then have "lists_ok (tg\<lparr>activeThrds := vl_append n (activeThrds tg), thrds := (thrds tg)[n := n],
      numThrds := numThrds tg + 1\<rparr>) (insert n L)"
    by (rule lists_ok_cong [THEN iffD2, rotated 2]) simp_all
  moreover have "unat (numThrds tg + 1) = Suc n"
    using assms by (simp add: unat_Suc_word)
  ultimately show ?thesis
    using assms(3,4)
    by (intro exI [of _ "vl_append n (activeThrds tg)"])
      (auto simp: spawn_thread_def internal_create_thread_def all_ok_def vl_append_def)
qed

subsection \<open>Groups that are well formed\<close>

text \<open>
  \<open>n\<close> threads have been created so far; the structs still allocated are the domain of \<open>ts\<close>. The
  array \<open>thrds\<close> names every thread ever created, so that the joins of
  \<open>internal_destroy_group\<close> cover all of them, and its length covers the limit of the group.
\<close>

definition group_wf :: "TGroup \<Rightarrow> (tid \<rightharpoonup> TThread) \<Rightarrow> nat \<Rightarrow> bool" where
  "group_wf tg ts n \<longleftrightarrow>
     lists_ok tg (dom ts) \<and> dom ts \<subseteq> {..<n} \<and> q_ok (g_q tg) \<and>
     unat (numThrds tg) = n \<and> n \<le> unat (g_thrdMax tg) \<and> unat (g_thrdMax tg) \<le> length (thrds tg) \<and>
     length (thrds tg) < 2 ^ 32 \<and> (\<forall>i<n. thrds tg ! i = i)"

lemma group_wf_joined: "group_wf tg ts n \<Longrightarrow> joined_threads tg = [0..<n]"
  unfolding group_wf_def joined_threads_def by (intro nth_equalityI) auto

lemma spawn_thread_wf:
  assumes "group_wf tg ts n" and "n < unat (g_thrdMax tg)"
  shows "\<exists>tg'. spawn_thread all_ok w n (tg, ts) =
       Inr (tg', ts(n \<mapsto> \<lparr>tt_state = running, currTask = w\<rparr>)) \<and>
     group_wf tg' (ts(n \<mapsto> \<lparr>tt_state = running, currTask = w\<rparr>)) (Suc n) \<and>
     set (elems (activeThrds tg')) = insert n (set (elems (activeThrds tg))) \<and>
     idleThrds tg' = idleThrds tg \<and> g_q tg' = g_q tg \<and> g_flags tg' = g_flags tg \<and>
     g_thrdMax tg' = g_thrdMax tg"
proof -
  have n: "n \<notin> dom ts" using assms(1) by (auto simp: group_wf_def)
  from spawn_thread_ok [of tg "dom ts" n w ts] n assms obtain a where
    a: "spawn_thread all_ok w n (tg, ts) =
       Inr (tg\<lparr>activeThrds := a, thrds := (thrds tg)[n := n], numThrds := numThrds tg + 1\<rparr>,
            ts(n \<mapsto> \<lparr>tt_state = running, currTask = w\<rparr>))"
       "lists_ok (tg\<lparr>activeThrds := a, thrds := (thrds tg)[n := n], numThrds := numThrds tg + 1\<rparr>) (insert n (dom ts))"
       "set (elems a) = insert n (set (elems (activeThrds tg)))" "unat (numThrds tg + 1) = Suc n"
    by (auto simp: group_wf_def)
  have "group_wf (tg\<lparr>activeThrds := a, thrds := (thrds tg)[n := n], numThrds := numThrds tg + 1\<rparr>)
      (ts(n \<mapsto> \<lparr>tt_state = running, currTask = w\<rparr>)) (Suc n)"
    using assms a(2,4) by (auto simp: group_wf_def nth_list_update less_Suc_eq)
  with a show ?thesis by auto
qed

lemma group_wf_q: "group_wf tg ts n \<Longrightarrow> q_ok q \<Longrightarrow> group_wf (tg\<lparr>g_q := q\<rparr>) ts n"
  by (simp add: group_wf_def lists_ok_def)

lemma q_fetch_drop:
  assumes "q_ok q"
  shows "\<exists>q'. q_fetch q = Inr (if q_elems q = [] then None else Some (q_elems q ! 0), q') \<and> q_ok q' \<and>
     q_elems q' = drop 1 (q_elems q)"
  using q_fetch_Nil [OF assms] q_fetch_Cons [OF assms] assms by (cases "q_elems q") auto

lemma manager_spawn_wf:
  assumes "group_wf tg ts n" and "n + k \<le> unat (g_thrdMax tg)"
  shows "\<exists>tg' ts'. manager_spawn (\<lambda>_. all_ok) k n (tg, ts) = Inr (tg', ts') \<and> group_wf tg' ts' (n + k) \<and>
     q_elems (g_q tg') = drop k (q_elems (g_q tg)) \<and> idleThrds tg' = idleThrds tg \<and>
     set (elems (activeThrds tg')) = set (elems (activeThrds tg)) \<union> {n..<n + k} \<and>
     g_flags tg' = g_flags tg \<and> g_thrdMax tg' = g_thrdMax tg \<and>
     (\<forall>t. ts' t = (if n \<le> t \<and> t < n + k
        then Some \<lparr>tt_state = running,
                  currTask = (if t - n < length (q_elems (g_q tg))
                              then Some (q_elems (g_q tg) ! (t - n)) else None)\<rparr>
        else ts t))"
  using assms
proof (induction k arbitrary: tg ts n)
  case 0
  then show ?case by auto
next
  case (Suc k)
  let ?xs = "q_elems (g_q tg)"
  let ?w = "if ?xs = [] then None else Some (?xs ! 0)"
  from Suc.prems(1) have "q_ok (g_q tg)" by (simp add: group_wf_def)
  from q_fetch_drop [OF this] obtain q' where
    q': "q_fetch (g_q tg) = Inr (?w, q')" "q_ok q'" "q_elems q' = drop 1 ?xs" by blast
  let ?ts = "ts(n \<mapsto> \<lparr>tt_state = running, currTask = ?w\<rparr>)"
  from group_wf_q [OF Suc.prems(1) q'(2)] Suc.prems(2)
  obtain tg1 where
    tg1: "spawn_thread all_ok ?w n (tg\<lparr>g_q := q'\<rparr>, ts) = Inr (tg1, ?ts)"
      "group_wf tg1 ?ts (Suc n)" "set (elems (activeThrds tg1)) = insert n (set (elems (activeThrds tg)))"
      "idleThrds tg1 = idleThrds tg" "g_q tg1 = q'" "g_flags tg1 = g_flags tg"
      "g_thrdMax tg1 = g_thrdMax tg"
    using spawn_thread_wf [of "tg\<lparr>g_q := q'\<rparr>" ts n ?w] by auto
  have b: "Suc n + k \<le> unat (g_thrdMax tg1)" using Suc.prems(2) tg1(7) by simp
  from Suc.IH [OF tg1(2) b] obtain tg2 ts2 where
    tg2: "manager_spawn (\<lambda>_. all_ok) k (Suc n) (tg1, ?ts) = Inr (tg2, ts2)" "group_wf tg2 ts2 (Suc n + k)"
      "q_elems (g_q tg2) = drop k (q_elems (g_q tg1))" "idleThrds tg2 = idleThrds tg1"
      "set (elems (activeThrds tg2)) = set (elems (activeThrds tg1)) \<union> {Suc n..<Suc n + k}"
      "g_flags tg2 = g_flags tg1" "g_thrdMax tg2 = g_thrdMax tg1"
      "\<forall>t. ts2 t = (if Suc n \<le> t \<and> t < Suc n + k
        then Some \<lparr>tt_state = running,
                  currTask = (if t - Suc n < length (q_elems (g_q tg1))
                              then Some (q_elems (g_q tg1) ! (t - Suc n)) else None)\<rparr>
        else ?ts t)"
    by blast
  have "manager_spawn (\<lambda>_. all_ok) (Suc k) n (tg, ts) = Inr (tg2, ts2)"
    using q'(1) tg1(1) tg2(1) by simp
  moreover have "ts2 t = (if n \<le> t \<and> t < n + Suc k
        then Some \<lparr>tt_state = running,
                  currTask = (if t - n < length ?xs then Some (?xs ! (t - n)) else None)\<rparr>
        else ts t)" for t
  proof (cases "Suc n \<le> t \<and> t < Suc n + k")
    case True
    then have "Suc (t - Suc n) = t - n" by auto
    with True tg2(8) tg1(5) q'(3) show ?thesis by (auto simp: Suc_diff_Suc) 
  next
    case False
    then show ?thesis using tg2(8) by (auto simp: less_Suc_eq_le)
  qed
  moreover have "q_elems (g_q tg2) = drop (Suc k) ?xs"
    using tg2(3) tg1(5) q'(3) by simp
  moreover have "set (elems (activeThrds tg2)) = set (elems (activeThrds tg)) \<union> {n..<n + Suc k}"
    unfolding tg2(5) tg1(3) range_Suc_insert by blast
  moreover have "group_wf tg2 ts2 (n + Suc k)" "idleThrds tg2 = idleThrds tg"
    "g_flags tg2 = g_flags tg" "g_thrdMax tg2 = g_thrdMax tg"
    using tg2(2,4,6,7) tg1(4,6,7) by simp_all
  ultimately show ?case by blast
qed

lemma spawn_min_wf:
  assumes "group_wf tg ts n" and "n + k \<le> unat (g_thrdMax tg)"
  shows "\<exists>tg' ts'. spawn_min (\<lambda>_. all_ok) k n (tg, ts) = Inr (tg', ts') \<and> group_wf tg' ts' (n + k) \<and>
     g_q tg' = g_q tg \<and> idleThrds tg' = idleThrds tg \<and>
     set (elems (activeThrds tg')) = set (elems (activeThrds tg)) \<union> {n..<n + k} \<and>
     g_flags tg' = g_flags tg \<and> g_thrdMax tg' = g_thrdMax tg \<and>
     (\<forall>t. ts' t = (if n \<le> t \<and> t < n + k then Some \<lparr>tt_state = running, currTask = None\<rparr> else ts t))"
  using assms
proof (induction k arbitrary: tg ts n)
  case 0
  then show ?case by auto
next
  case (Suc k)
  let ?ts = "ts(n \<mapsto> \<lparr>tt_state = running, currTask = None\<rparr>)"
  from Suc.prems obtain tg1 where
    tg1: "spawn_thread all_ok None n (tg, ts) = Inr (tg1, ?ts)"
      "group_wf tg1 ?ts (Suc n)" "set (elems (activeThrds tg1)) = insert n (set (elems (activeThrds tg)))"
      "idleThrds tg1 = idleThrds tg" "g_q tg1 = g_q tg" "g_flags tg1 = g_flags tg"
      "g_thrdMax tg1 = g_thrdMax tg"
    using spawn_thread_wf [of tg ts n None] by auto
  have b: "Suc n + k \<le> unat (g_thrdMax tg1)" using Suc.prems(2) tg1(7) by simp
  from Suc.IH [OF tg1(2) b] obtain tg2 ts2 where
    tg2: "spawn_min (\<lambda>_. all_ok) k (Suc n) (tg1, ?ts) = Inr (tg2, ts2)" "group_wf tg2 ts2 (Suc n + k)"
      "g_q tg2 = g_q tg1" "idleThrds tg2 = idleThrds tg1"
      "set (elems (activeThrds tg2)) = set (elems (activeThrds tg1)) \<union> {Suc n..<Suc n + k}"
      "g_flags tg2 = g_flags tg1" "g_thrdMax tg2 = g_thrdMax tg1"
      "\<forall>t. ts2 t = (if Suc n \<le> t \<and> t < Suc n + k then Some \<lparr>tt_state = running, currTask = None\<rparr> else ?ts t)"
    by blast
  have "spawn_min (\<lambda>_. all_ok) (Suc k) n (tg, ts) = Inr (tg2, ts2)"
    using tg1(1) tg2(1) by simp
  moreover have "ts2 t = (if n \<le> t \<and> t < n + Suc k
      then Some \<lparr>tt_state = running, currTask = None\<rparr> else ts t)" for t
    using tg2(8) by auto
  moreover have "set (elems (activeThrds tg2)) = set (elems (activeThrds tg)) \<union> {n..<n + Suc k}"
    unfolding tg2(5) tg1(3) range_Suc_insert by blast
  moreover have "group_wf tg2 ts2 (n + Suc k)" "idleThrds tg2 = idleThrds tg"
    "g_flags tg2 = g_flags tg" "g_thrdMax tg2 = g_thrdMax tg"
    using tg2(2,4,6,7) tg1(4,6,7) by simp_all
  moreover have "g_q tg2 = g_q tg" using tg2(3) tg1(5) by simp
  ultimately show ?case by blast
qed

lemma new_group_wf:
  assumes "0 < mn" and "mn \<le> mx"
  shows "group_wf (new_group mn mx flags) Map.empty 0"
  using assms unat_lt_pow [of mx]
  by (auto simp: group_wf_def new_group_def lists_ok_def vl_init_def vl_ok_def word_le_nat_alt)

text \<open>
  A group built by \<open>add_group\<close>: with memory and threads available the construction never faults and
  starts \<open>mn\<close> threads, all of them active, none with a task.
\<close>

lemma add_group_build_wf:
  assumes "0 < mn" and "mn \<le> mx"
  shows "\<exists>tg ts. add_group_build True True (\<lambda>_. all_ok) mn mx flags = Inr (tg, ts) \<and>
     group_wf tg ts (unat mn) \<and> q_elems (g_q tg) = [] \<and> elems (idleThrds tg) = [] \<and>
     set (elems (activeThrds tg)) = {..<unat mn} \<and> g_flags tg = g_flags (new_group mn mx flags) \<and>
     g_thrdMax tg = g_thrdMax (new_group mn mx flags) \<and> g_q tg = g_q (new_group mn mx flags) \<and>
     (\<forall>t. ts t = (if t < unat mn then Some \<lparr>tt_state = running, currTask = None\<rparr> else None))"
proof -
  have "0 + unat mn \<le> unat (g_thrdMax (new_group mn mx flags))"
    using assms by (simp add: new_group_def word_le_nat_alt)
  from spawn_min_wf [OF new_group_wf [OF assms] this] show ?thesis
    by (auto simp: add_group_build_def new_group_def vl_init_def q_init_def)
qed

lemma addThrds_bound:
  assumes "group_wf tg ts n"
  shows "n + unat (addThrds tg) \<le> unat (g_thrdMax tg)"
proof -
  have "numThrds tg \<le> g_thrdMax tg" and "unat (numThrds tg) = n"
    using assms by (auto simp: group_wf_def word_le_nat_alt)
  then have d: "unat (g_thrdMax tg - numThrds tg) = unat (g_thrdMax tg) - n"
    by (simp add: unat_sub)
  have "unat (addThrds tg) \<le> unat (g_thrdMax tg - numThrds tg)"
    by (auto simp: addThrds_def unat_div split: Health.splits)
  with d show ?thesis using assms by (auto simp: group_wf_def)
qed

text \<open>The definitions that evaluate the functions of the pool on concrete data.\<close>

lemmas pool_eval = add_group_build_def new_group_def q_init_def vl_init_def assertE_def
  spawn_thread_def internal_create_thread_def all_ok_def vl_append_def pool_flag_defs pool_rc_defs
  Q_SIZE_MULT_def do_work_group_def vl_pop_def q_append_def q_full_def q_empty_def q_fetch_def
  internal_health_check_def worker_group_def worker_free_task_def vl_unlink_def has_flag_def
  clear_flag_def set_flag_def internal_destroy_thread_def destroy_group_close_def
  wake_idle.simps joined_threads_def Let_def

end
