(* ===== verification/Pool_Group.thy ===== *)
theory Pool_Group
  imports Pool
begin

text \<open>
  One thread group as an interleaving of its workers, of the callers of \<open>do_work\<close>, of the manager and
  of the thread that destroys it.

  Every step is one critical section of \<open>src/pool.c\<close> (the functions of the theory \<open>Pool\<close>) or one
  piece of code that runs without a lock. The program counter of a worker says where in
  \<open>worker_thread_function\<close> it is, and hence whether it holds its own \<open>mutexThrd\<close>
  (\<open>holds_thrd\<close>); a step of another thread that locks \<open>mutexThrd\<close> is enabled only when the
  worker does not hold it. Three ghost fields record the work items: \<open>accepted\<close> by
  \<open>do_work\<close>, the order in which their functions ran (\<open>runs\<close>), and the ones released
  (\<open>freed\<close>).

  \<open>internal\<close> are the steps the pool takes by itself (workers, and callers that are inside
  \<open>do_work\<close>); \<open>external\<close> are new calls, the manager, \<open>wait_pool\<close>, and the destruction of
  the group.
\<close>

subsection \<open>States and steps\<close>

datatype wpc =
    W_Top            \<comment> \<open>about to lock \<open>mutexThrd\<close> at the head of the loop\<close>
  | W_Run work       \<comment> \<open>executing the task, no lock held\<close>
  | W_Done           \<comment> \<open>task finished, about to lock \<open>mutexThrd\<close> and free it\<close>
  | W_Group          \<comment> \<open>holds \<open>mutexThrd\<close>, about to lock \<open>mutexGrp\<close>\<close>
  | W_Notify         \<comment> \<open>holds \<open>mutexThrd\<close>, about to lock \<open>mutexPool\<close>\<close>
  | W_Wait           \<comment> \<open>in the loop on \<open>condThrd\<close>\<close>
  | W_Exit           \<comment> \<open>left the loop, about to call \<open>internal_destroy_thread\<close>\<close>
  | W_Dead           \<comment> \<open>returned\<close>

datatype cpc =
    C_Idle
  | C_Handoff tid work   \<comment> \<open>popped an idle thread, about to lock its \<open>mutexThrd\<close>\<close>
  | C_Signal int         \<comment> \<open>queued, about to lock \<open>mutexPool\<close> and wake the manager\<close>

datatype dpc = D_Open | D_Unlinked | D_Closed | D_Freed

type_synonym cid = nat

record gsys =
  grp :: TGroup
  thr :: "tid \<rightharpoonup> TThread"
  wpcs :: "tid \<Rightarrow> wpc"
  clis :: "cid \<Rightarrow> cpc"
  dst :: dpc
  ntid :: nat
  accepted :: "work set"
  runs :: "work list"
  freed :: "work list"

fun holds_thrd :: "wpc \<Rightarrow> bool" where
  "holds_thrd W_Group = True"
| "holds_thrd W_Notify = True"
| "holds_thrd _ = False"

fun pc_after :: "worker_out \<Rightarrow> wpc" where
  "pc_after WO_Exit = W_Exit"
| "pc_after (WO_Task w) = W_Run w"
| "pc_after (WO_Sleep b) = (if b then W_Notify else W_Wait)"

inductive internal :: "gsys \<Rightarrow> gsys \<Rightarrow> bool" where
  top_task: "thr s t = Some tt \<Longrightarrow> wpcs s t = W_Top \<Longrightarrow> currTask tt = Some w \<Longrightarrow>
     internal s (s\<lparr>wpcs := (wpcs s)(t := W_Run w)\<rparr>)"
| top_none: "thr s t = Some tt \<Longrightarrow> wpcs s t = W_Top \<Longrightarrow> currTask tt = None \<Longrightarrow>
     internal s (s\<lparr>wpcs := (wpcs s)(t := W_Group)\<rparr>)"
| run: "thr s t = Some tt \<Longrightarrow> wpcs s t = W_Run w \<Longrightarrow>
     internal s (s\<lparr>runs := runs s @ [w], wpcs := (wpcs s)(t := W_Done)\<rparr>)"
| free: "thr s t = Some tt \<Longrightarrow> wpcs s t = W_Done \<Longrightarrow>
     internal s (s\<lparr>freed := freed s @ (case currTask tt of None \<Rightarrow> [] | Some w \<Rightarrow> [w]),
                   thr := (thr s)(t \<mapsto> worker_free_task tt), wpcs := (wpcs s)(t := W_Group)\<rparr>)"
| group: "thr s t = Some tt \<Longrightarrow> wpcs s t = W_Group \<Longrightarrow>
     worker_group t (grp s) tt = Inr (out, tg', tt') \<Longrightarrow>
     internal s (s\<lparr>grp := tg', thr := (thr s)(t \<mapsto> tt'), wpcs := (wpcs s)(t := pc_after out)\<rparr>)"
| notify: "thr s t = Some tt \<Longrightarrow> wpcs s t = W_Notify \<Longrightarrow>
     internal s (s\<lparr>wpcs := (wpcs s)(t := W_Wait)\<rparr>)"
| wake: "thr s t = Some tt \<Longrightarrow> wpcs s t = W_Wait \<Longrightarrow> tt_state tt \<noteq> idle \<Longrightarrow>
     internal s (s\<lparr>wpcs := (wpcs s)(t := W_Top)\<rparr>)"
| exit: "thr s t = Some tt \<Longrightarrow> wpcs s t = W_Exit \<Longrightarrow>
     internal_destroy_thread t (grp s) tt = Inr tg' \<Longrightarrow>
     internal s (s\<lparr>grp := tg', thr := (thr s)(t := None), wpcs := (wpcs s)(t := W_Dead)\<rparr>)"
| handoff: "clis s c = C_Handoff t w \<Longrightarrow> thr s t = Some tt \<Longrightarrow> \<not> holds_thrd (wpcs s t) \<Longrightarrow>
     internal s (s\<lparr>thr := (thr s)(t \<mapsto> do_work_handoff w tt), clis := (clis s)(c := C_Idle)\<rparr>)"
| signal: "clis s c = C_Signal rc \<Longrightarrow>
     internal s (s\<lparr>clis := (clis s)(c := C_Idle)\<rparr>)"

inductive external :: "gsys \<Rightarrow> gsys \<Rightarrow> bool" where
  submit_closed: "clis s c = C_Idle \<Longrightarrow> do_work_group w (grp s) = Inr (DW_Closed, tg') \<Longrightarrow>
     external s (s\<lparr>grp := tg'\<rparr>)"
| submit_queue: "clis s c = C_Idle \<Longrightarrow> w \<notin> accepted s \<Longrightarrow>
     do_work_group w (grp s) = Inr (DW_Queued rc h, tg') \<Longrightarrow>
     external s (s\<lparr>grp := tg',
        accepted := (if rc = POOL_SUCCESS then insert w (accepted s) else accepted s),
        clis := (clis s)(c := if h \<noteq> well then C_Signal rc else C_Idle)\<rparr>)"
| submit_thread: "clis s c = C_Idle \<Longrightarrow> w \<notin> accepted s \<Longrightarrow>
     do_work_group w (grp s) = Inr (DW_Thread t, tg') \<Longrightarrow>
     external s (s\<lparr>grp := tg', accepted := insert w (accepted s), clis := (clis s)(c := C_Handoff t w)\<rparr>)"
| manage: "dst s = D_Open \<Longrightarrow> manager_group (\<lambda>_. all_ok) (ntid s) (grp s, thr s) = Inr (tg', ts') \<Longrightarrow>
     external s (s\<lparr>grp := tg', thr := ts', ntid := ntid s + unat (addThrds (grp s))\<rparr>)"
| wait: "internal_wait_helper (grp s) = (rc, tg') \<Longrightarrow> external s (s\<lparr>grp := tg'\<rparr>)"
| unlink: "dst s = D_Open \<Longrightarrow> external s (s\<lparr>dst := D_Unlinked\<rparr>)"
| close: "dst s = D_Unlinked \<Longrightarrow> \<forall>t\<in>set (elems (idleThrds (grp s))). \<not> holds_thrd (wpcs s t) \<Longrightarrow>
     destroy_group_close (grp s, thr s) = Inr (tg', ts') \<Longrightarrow>
     external s (s\<lparr>grp := tg', thr := ts', dst := D_Closed\<rparr>)"
| join: "dst s = D_Closed \<Longrightarrow> \<forall>t\<in>set (joined_threads (grp s)). wpcs s t = W_Dead \<Longrightarrow>
     external s (s\<lparr>dst := D_Freed\<rparr>)"

text \<open>The state in which \<open>add_group\<close> leaves a new group.\<close>

definition ginit :: "u32 \<Rightarrow> u32 \<Rightarrow> u32 \<Rightarrow> gsys option" where
  "ginit mn mx flags =
     (case add_group_build True True (\<lambda>_. all_ok) mn mx flags of
        Inl e \<Rightarrow> None
      | Inr (tg, ts) \<Rightarrow>
          Some \<lparr>grp = tg, thr = ts, wpcs = (\<lambda>_. W_Top), clis = (\<lambda>_. C_Idle), dst = D_Open,
                ntid = unat mn, accepted = {}, runs = [], freed = []\<rparr>)"

inductive greach :: "gsys \<Rightarrow> bool" where
  init: "0 < mn \<Longrightarrow> mn \<le> mx \<Longrightarrow> ginit mn mx flags = Some s \<Longrightarrow> greach s"
| internal: "greach s \<Longrightarrow> internal s s' \<Longrightarrow> greach s'"
| external: "greach s \<Longrightarrow> external s s' \<Longrightarrow> greach s'"

subsection \<open>The invariant\<close>

abbreviation queue :: "gsys \<Rightarrow> work list" where
  "queue s \<equiv> q_elems (g_q (grp s))"

abbreviation idles :: "gsys \<Rightarrow> tid set" where
  "idles s \<equiv> set (elems (idleThrds (grp s)))"

abbreviation actives :: "gsys \<Rightarrow> tid set" where
  "actives s \<equiv> set (elems (activeThrds (grp s)))"

abbreviation soft_killed :: "gsys \<Rightarrow> bool" where
  "soft_killed s \<equiv> has_flag (g_flags (grp s)) SOFT_KILL"

definition inv_wf :: "gsys \<Rightarrow> bool" where
  "inv_wf s \<longleftrightarrow> group_wf (grp s) (thr s) (ntid s) \<and> 0 < ntid s \<and>
     (\<forall>t. wpcs s t = W_Dead \<longleftrightarrow> t < ntid s \<and> thr s t = None) \<and>
     (\<forall>t. ntid s \<le> t \<longrightarrow> wpcs s t = W_Top)"

definition inv_flags :: "gsys \<Rightarrow> bool" where
  "inv_flags s \<longleftrightarrow> \<not> has_flag (g_flags (grp s)) HARD_KILL \<and> \<not> has_flag (g_flags (grp s)) GROUP_CLEAN \<and>
     (soft_killed s \<longleftrightarrow> dst s = D_Closed \<or> dst s = D_Freed) \<and>
     (has_flag (g_flags (grp s)) GROUP_CLOSE \<longleftrightarrow> soft_killed s)"

text \<open>Where a worker is, which list names it, and what its struct says.\<close>

definition pending :: "gsys \<Rightarrow> tid \<Rightarrow> bool" where
  "pending s t \<longleftrightarrow> (\<exists>c w. clis s c = C_Handoff t w)"

definition thread_ok :: "gsys \<Rightarrow> tid \<Rightarrow> TThread \<Rightarrow> bool" where
  "thread_ok s t tt \<longleftrightarrow>
     (t \<in> idles s \<longrightarrow> tt_state tt = idle) \<and>
     (tt_state tt = idle \<longrightarrow> currTask tt = None \<and> (wpcs s t = W_Notify \<or> wpcs s t = W_Wait) \<and>
        (t \<in> idles s \<or> pending s t)) \<and>
     (tt_state tt \<noteq> idle \<longrightarrow> tt_state tt = running \<and> wpcs s t \<noteq> W_Notify) \<and>
     (\<forall>w. wpcs s t = W_Run w \<longrightarrow> currTask tt = Some w) \<and>
     (wpcs s t = W_Done \<longrightarrow> currTask tt \<noteq> None) \<and>
     (wpcs s t = W_Group \<or> wpcs s t = W_Exit \<longrightarrow> currTask tt = None)"

definition inv_thr :: "gsys \<Rightarrow> bool" where
  "inv_thr s \<longleftrightarrow> (\<forall>t tt. thr s t = Some tt \<longrightarrow> thread_ok s t tt)"

definition inv_cli :: "gsys \<Rightarrow> bool" where
  "inv_cli s \<longleftrightarrow>
     (\<forall>c t w. clis s c = C_Handoff t w \<longrightarrow>
        t \<in> actives s \<and> (\<exists>tt. thr s t = Some tt \<and> tt_state tt = idle)) \<and>
     (\<forall>c c' t w w'. clis s c = C_Handoff t w \<longrightarrow> clis s c' = C_Handoff t w' \<longrightarrow> c = c')"

text \<open>Every accepted item is in exactly one place: queued, being handed over, held by one thread, or
  freed.\<close>

definition tasked :: "gsys \<Rightarrow> tid \<Rightarrow> work \<Rightarrow> bool" where
  "tasked s t w \<longleftrightarrow> (\<exists>tt. thr s t = Some tt \<and> currTask tt = Some w)"

definition handed :: "gsys \<Rightarrow> cid \<Rightarrow> work \<Rightarrow> bool" where
  "handed s c w \<longleftrightarrow> (\<exists>t. clis s c = C_Handoff t w)"

datatype loc = L_Queue | L_Hand cid | L_Task tid | L_Freed

fun located :: "gsys \<Rightarrow> work \<Rightarrow> loc \<Rightarrow> bool" where
  "located s w L_Queue \<longleftrightarrow> w \<in> set (queue s)"
| "located s w (L_Hand c) \<longleftrightarrow> handed s c w"
| "located s w (L_Task t) \<longleftrightarrow> tasked s t w"
| "located s w L_Freed \<longleftrightarrow> w \<in> set (freed s)"

definition inv_work :: "gsys \<Rightarrow> bool" where
  "inv_work s \<longleftrightarrow>
     (\<forall>w. w \<in> accepted s \<longleftrightarrow> (\<exists>l. located s w l)) \<and>
     (\<forall>w l l'. located s w l \<longrightarrow> located s w l' \<longrightarrow> l = l') \<and>
     distinct (freed s)"

text \<open>The items whose function has run: the freed ones, and those about to be freed.\<close>

definition done_works :: "gsys \<Rightarrow> work set" where
  "done_works s = {w. \<exists>t. wpcs s t = W_Done \<and> tasked s t w}"

definition inv_runs :: "gsys \<Rightarrow> bool" where
  "inv_runs s \<longleftrightarrow> distinct (runs s) \<and> set (runs s) = set (freed s) \<union> done_works s"

definition inv_queue :: "gsys \<Rightarrow> bool" where
  "inv_queue s \<longleftrightarrow> (queue s \<noteq> [] \<longrightarrow> elems (idleThrds (grp s)) = []) \<and>
     (\<forall>t. wpcs s t = W_Exit \<or> wpcs s t = W_Dead \<longrightarrow> soft_killed s \<and> queue s = []) \<and>
     (soft_killed s \<longrightarrow> elems (idleThrds (grp s)) = []) \<and>
     (dst s = D_Freed \<longrightarrow> (\<forall>t<ntid s. wpcs s t = W_Dead))"

definition ginv :: "gsys \<Rightarrow> bool" where
  "ginv s \<longleftrightarrow> inv_wf s \<and> inv_flags s \<and> inv_thr s \<and> inv_cli s \<and> inv_work s \<and> inv_runs s \<and> inv_queue s"

subsection \<open>Each step keeps the invariant\<close>

lemmas ginv_parts = inv_wf_def inv_flags_def inv_thr_def inv_cli_def inv_work_def inv_runs_def inv_queue_def

lemma ginvD:
  assumes "ginv s"
  shows "inv_wf s" "inv_flags s" "inv_thr s" "inv_cli s" "inv_work s" "inv_runs s" "inv_queue s"
  using assms by (auto simp: ginv_def)

lemma ginv_thread: "ginv s \<Longrightarrow> thr s t = Some tt \<Longrightarrow> thread_ok s t tt"
  by (auto simp: ginv_def inv_thr_def)

lemma ginv_thread_lt: "ginv s \<Longrightarrow> thr s t = Some tt \<Longrightarrow> t < ntid s"
  by (auto simp: ginv_def inv_wf_def group_wf_def)

lemma ginv_members: "ginv s \<Longrightarrow> dom (thr s) = idles s \<union> actives s"
  by (auto simp: ginv_def inv_wf_def group_wf_def lists_ok_def)

lemma ginv_disjoint: "ginv s \<Longrightarrow> idles s \<inter> actives s = {}"
  by (auto simp: ginv_def inv_wf_def group_wf_def lists_ok_def)

lemma ginv_cli:
  "ginv s \<Longrightarrow> clis s c = C_Handoff t w \<Longrightarrow> t \<in> actives s \<and> (\<exists>tt. thr s t = Some tt \<and> tt_state tt = idle)"
  unfolding ginv_def inv_cli_def by blast

lemma ginv_cli_unique:
  "ginv s \<Longrightarrow> clis s c = C_Handoff t w \<Longrightarrow> clis s c' = C_Handoff t w' \<Longrightarrow> c' = c"
  unfolding ginv_def inv_cli_def by blast

lemma thread_ok_cong:
  "thread_ok s t tt \<Longrightarrow> (t \<in> idles s' \<longleftrightarrow> t \<in> idles s) \<Longrightarrow> wpcs s' t = wpcs s t \<Longrightarrow>
   (pending s t \<longrightarrow> pending s' t) \<Longrightarrow> thread_ok s' t tt"
  unfolding thread_ok_def by auto

lemma running_active:
  assumes "ginv s" and "thr s t = Some tt" and "tt_state tt \<noteq> idle"
  shows "t \<in> actives s \<and> t \<notin> idles s"
  using assms ginv_thread [OF assms(1,2)] ginv_members [OF assms(1)]
  by (auto simp: thread_ok_def)

lemma located_only: "ginv s \<Longrightarrow> located s w l \<Longrightarrow> located s w l' \<longleftrightarrow> l' = l"
  unfolding ginv_def inv_work_def by blast

lemma tasked_unique: "ginv s \<Longrightarrow> tasked s t w \<Longrightarrow> tasked s t' w \<Longrightarrow> t' = t"
  using located_only [of s w "L_Task t" "L_Task t'"] by simp

lemma tasked_not_freed: "ginv s \<Longrightarrow> tasked s t w \<Longrightarrow> w \<notin> set (freed s)"
  using located_only [of s w "L_Task t" L_Freed] by simp

lemma inv_work_move:
  assumes "inv_work s" and "\<And>v l. located s' v l \<longleftrightarrow> (if v = w then l = l0 else located s v l)"
    and "accepted s' = insert w (accepted s)" and "distinct (freed s')"
  shows "inv_work s'"
proof -
  have "located s' = (\<lambda>v l. if v = w then l = l0 else located s v l)"
    by (intro ext) (rule assms(2))
  with assms(1,3,4) show ?thesis unfolding inv_work_def by auto
qed

lemma inv_work_same:
  assumes "inv_work s" and "\<And>v l. located s' v l \<longleftrightarrow> located s v l"
    and "accepted s' = accepted s" and "freed s' = freed s"
  shows "inv_work s'"
proof -
  have "located s' = located s" by (intro ext) (rule assms(2))
  with assms(1,3,4) show ?thesis unfolding inv_work_def by simp
qed

lemma located_accepted: "ginv s \<Longrightarrow> located s w l \<Longrightarrow> insert w (accepted s) = accepted s"
  unfolding ginv_def inv_work_def by blast

text \<open>A worker that only moves its program counter.\<close>

lemma ginv_move:
  assumes inv: "ginv s" and tt: "thr s t = Some tt"
    and ok: "thread_ok (s\<lparr>wpcs := (wpcs s)(t := pc)\<rparr>) t tt"
    and pc: "pc \<noteq> W_Dead" "pc = W_Exit \<longrightarrow> queue s = [] \<and> soft_killed s" "pc \<noteq> W_Done" "wpcs s t \<noteq> W_Done"
  shows "ginv (s\<lparr>wpcs := (wpcs s)(t := pc)\<rparr>)"
proof -
  let ?s = "s\<lparr>wpcs := (wpcs s)(t := pc)\<rparr>"
  have lt: "t < ntid s" by (rule ginv_thread_lt [OF inv tt])
  have "done_works ?s = done_works s" using pc by (auto simp: done_works_def tasked_def)
  moreover have "located ?s v l \<longleftrightarrow> located s v l" for v l
    by (cases l) (auto simp: tasked_def handed_def)
  ultimately have "inv_work ?s" "inv_runs ?s"
    using inv_work_same [OF ginvD(5) [OF inv], of ?s] ginvD(6) [OF inv] by (auto simp: inv_runs_def)
  moreover have "inv_wf ?s" using ginvD(1) [OF inv] tt lt pc by (auto simp: inv_wf_def)
  moreover have "inv_flags ?s" using ginvD(2) [OF inv] by (simp add: inv_flags_def)
  moreover have "inv_thr ?s" using ginvD(3) [OF inv] ok tt by (auto simp: inv_thr_def thread_ok_def pending_def)
  moreover have "inv_cli ?s" using ginvD(4) [OF inv] by (simp add: inv_cli_def)
  moreover have "inv_queue ?s"
    using ginvD(7) [OF inv] pc lt ginvD(1) [OF inv] tt by (auto simp: inv_queue_def inv_wf_def)
  ultimately show ?thesis by (simp add: ginv_def)
qed

lemma ginv_top_task:
  assumes "ginv s" "thr s t = Some tt" "wpcs s t = W_Top" "currTask tt = Some w"
  shows "ginv (s\<lparr>wpcs := (wpcs s)(t := W_Run w)\<rparr>)"
  using assms ginv_thread [OF assms(1,2)] by (intro ginv_move) (auto simp: thread_ok_def pending_def)

lemma ginv_top_none:
  assumes "ginv s" "thr s t = Some tt" "wpcs s t = W_Top" "currTask tt = None"
  shows "ginv (s\<lparr>wpcs := (wpcs s)(t := W_Group)\<rparr>)"
  using assms ginv_thread [OF assms(1,2)] by (intro ginv_move) (auto simp: thread_ok_def pending_def)

lemma ginv_notify:
  assumes "ginv s" "thr s t = Some tt" "wpcs s t = W_Notify"
  shows "ginv (s\<lparr>wpcs := (wpcs s)(t := W_Wait)\<rparr>)"
  using assms ginv_thread [OF assms(1,2)] by (intro ginv_move) (auto simp: thread_ok_def pending_def)

lemma ginv_wake:
  assumes "ginv s" "thr s t = Some tt" "wpcs s t = W_Wait" "tt_state tt \<noteq> idle"
  shows "ginv (s\<lparr>wpcs := (wpcs s)(t := W_Top)\<rparr>)"
  using assms ginv_thread [OF assms(1,2)] by (intro ginv_move) (auto simp: thread_ok_def pending_def)

lemma ginv_run:
  assumes inv: "ginv s" and tt: "thr s t = Some tt" and pc: "wpcs s t = W_Run w"
  shows "ginv (s\<lparr>runs := runs s @ [w], wpcs := (wpcs s)(t := W_Done)\<rparr>)"
proof -
  let ?s = "s\<lparr>runs := runs s @ [w], wpcs := (wpcs s)(t := W_Done)\<rparr>"
  have lt: "t < ntid s" by (rule ginv_thread_lt [OF inv tt])
  have tk: "thread_ok s t tt" by (rule ginv_thread [OF inv tt])
  then have w: "currTask tt = Some w" using pc by (auto simp: thread_ok_def)
  then have tw: "tasked s t w" and only: "tasked s t v \<longleftrightarrow> v = w" for v
    using tt by (auto simp: tasked_def)
  have T: "tasked ?s u v = tasked s u v" for u v by (simp add: tasked_def)
  have "located ?s v l \<longleftrightarrow> located s v l" for v l by (cases l) (auto simp: tasked_def handed_def)
  then have "inv_work ?s" by (intro inv_work_same [OF ginvD(5) [OF inv]]) auto
  moreover have "inv_runs ?s"
  proof -
    have "w \<notin> done_works s"
      using tasked_unique [OF inv tw] pc by (force simp: done_works_def)
    then have "w \<notin> set (runs s)"
      using tasked_not_freed [OF inv tw] ginvD(6) [OF inv] by (simp add: inv_runs_def)
    moreover have "done_works ?s = insert w (done_works s)"
      unfolding done_works_def T using only pc by (auto split: if_splits) (metis wpc.distinct)
    ultimately show ?thesis using ginvD(6) [OF inv] by (simp add: inv_runs_def)
  qed
  moreover have "inv_wf ?s" using ginvD(1) [OF inv] tt lt pc by (auto simp: inv_wf_def)
  moreover have "inv_flags ?s" using ginvD(2) [OF inv] by (simp add: inv_flags_def)
  moreover have "inv_thr ?s" using ginvD(3) [OF inv] tk tt w pc by (auto simp: inv_thr_def thread_ok_def pending_def)
  moreover have "inv_cli ?s" using ginvD(4) [OF inv] by (simp add: inv_cli_def)
  moreover have "inv_queue ?s" using ginvD(7) [OF inv] pc lt by (auto simp: inv_queue_def)
  ultimately show ?thesis by (simp add: ginv_def)
qed

lemma ginv_free:
  assumes inv: "ginv s" and tt: "thr s t = Some tt" and pc: "wpcs s t = W_Done"
  shows "ginv (s\<lparr>freed := freed s @ (case currTask tt of None \<Rightarrow> [] | Some w \<Rightarrow> [w]),
                  thr := (thr s)(t \<mapsto> worker_free_task tt), wpcs := (wpcs s)(t := W_Group)\<rparr>)"
proof -
  have lt: "t < ntid s" by (rule ginv_thread_lt [OF inv tt])
  have tk: "thread_ok s t tt" by (rule ginv_thread [OF inv tt])
  then obtain w where w: "currTask tt = Some w" using pc by (auto simp: thread_ok_def)
  then have tw: "located s w (L_Task t)" and only: "tasked s t v \<longleftrightarrow> v = w" for v
    using tt by (auto simp: tasked_def)
  let ?s = "s\<lparr>freed := freed s @ [w], thr := (thr s)(t \<mapsto> worker_free_task tt),
              wpcs := (wpcs s)(t := W_Group)\<rparr>"
  have T: "tasked ?s u v \<longleftrightarrow> u \<noteq> t \<and> tasked s u v" for u v
    by (auto simp: tasked_def worker_free_task_def)
  have H: "handed ?s c v \<longleftrightarrow> handed s c v" for c v by (simp add: handed_def)
  have nf: "w \<notin> set (freed s)" using tw tasked_not_freed [OF inv] by simp
  have L: "located ?s v l \<longleftrightarrow> (if v = w then l = L_Freed else located s v l)" for v l
    using located_only [OF inv tw, of l] only
    by (cases l; cases "v = w") (simp_all add: T H, blast+)
  have "inv_work ?s"
  proof (rule inv_work_move [OF ginvD(5) [OF inv] L])
    show "accepted ?s = insert w (accepted s)"
      using located_accepted [OF inv tw] by simp
    show "distinct (freed ?s)" using ginvD(5) [OF inv] nf by (simp add: inv_work_def)
  qed
  moreover have "done_works s = insert w (done_works ?s)"
    unfolding done_works_def T using only pc by auto (metis only)
  then have "inv_runs ?s" using ginvD(6) [OF inv] by (auto simp: inv_runs_def)
  moreover have "dom ((thr s)(t \<mapsto> worker_free_task tt)) = dom (thr s)" using tt by auto
  then have "inv_wf ?s" using ginvD(1) [OF inv] tt lt pc by (auto simp: inv_wf_def group_wf_def)
  moreover have "inv_flags ?s" using ginvD(2) [OF inv] by (simp add: inv_flags_def)
  moreover have "inv_thr ?s"
    using ginvD(3) [OF inv] tk pc by (auto simp: inv_thr_def thread_ok_def pending_def worker_free_task_def)
  moreover have "inv_cli ?s"
    using ginvD(4) [OF inv] tt by (fastforce simp: inv_cli_def worker_free_task_def)
  moreover have "inv_queue ?s" using ginvD(7) [OF inv] pc lt by (auto simp: inv_queue_def)
  ultimately show ?thesis using w by (simp add: ginv_def)
qed

lemma ginv_group_task:
  assumes inv: "ginv s" and tt: "thr s t = Some tt" and pc: "wpcs s t = W_Group"
    and q: "queue s = w # ws" "q_ok q'" "q_elems q' = ws"
  shows "ginv (s\<lparr>grp := (grp s)\<lparr>g_q := q'\<rparr>, thr := (thr s)(t \<mapsto> tt\<lparr>currTask := Some w\<rparr>),
                 wpcs := (wpcs s)(t := W_Run w)\<rparr>)"
proof -
  let ?s = "s\<lparr>grp := (grp s)\<lparr>g_q := q'\<rparr>, thr := (thr s)(t \<mapsto> tt\<lparr>currTask := Some w\<rparr>),
              wpcs := (wpcs s)(t := W_Run w)\<rparr>"
  have lt: "t < ntid s" by (rule ginv_thread_lt [OF inv tt])
  have tk: "thread_ok s t tt" by (rule ginv_thread [OF inv tt])
  have none: "\<not> tasked s t v" for v using tk pc tt by (auto simp: thread_ok_def tasked_def)
  have T: "tasked ?s u v \<longleftrightarrow> (u = t \<and> v = w) \<or> tasked s u v" for u v
    using none by (auto simp: tasked_def)
  have H: "handed ?s c v \<longleftrightarrow> handed s c v" for c v by (simp add: handed_def)
  have d: "w \<notin> set ws" "distinct ws"
    using ginvD(1) [OF inv] q(1) by (auto simp: inv_wf_def group_wf_def q_ok_def vl_ok_def)
  have qw: "located s w L_Queue" using q(1) by simp
  have L: "located ?s v l \<longleftrightarrow> (if v = w then l = L_Task t else located s v l)" for v l
    using located_only [OF inv qw, of l] q d by (cases l; cases "v = w") (auto simp: T H)
  have "inv_work ?s"
  proof (rule inv_work_move [OF ginvD(5) [OF inv] L])
    show "accepted ?s = insert w (accepted s)"
      using located_accepted [OF inv qw] by simp
    show "distinct (freed ?s)" using ginvD(5) [OF inv] by (simp add: inv_work_def)
  qed
  moreover have "done_works ?s = done_works s"
    unfolding done_works_def T using pc none by auto (metis none)
  then have "inv_runs ?s" using ginvD(6) [OF inv] by (auto simp: inv_runs_def)
  moreover have "dom ((thr s)(t \<mapsto> tt\<lparr>currTask := Some w\<rparr>)) = dom (thr s)" using tt by auto
  then have "inv_wf ?s" using ginvD(1) [OF inv] tt lt pc q(2)
    by (auto simp: inv_wf_def group_wf_def lists_ok_def)
  moreover have "inv_flags ?s" using ginvD(2) [OF inv] by (simp add: inv_flags_def)
  moreover have "inv_thr ?s"
    using ginvD(3) [OF inv] tk pc by (auto simp: inv_thr_def thread_ok_def pending_def)
  moreover have "inv_cli ?s" using ginvD(4) [OF inv] tt by (fastforce simp: inv_cli_def)
  moreover have "inv_queue ?s" using ginvD(7) [OF inv] pc lt q by (auto simp: inv_queue_def)
  ultimately show ?thesis by (simp add: ginv_def)
qed

lemma ginv_group_exit:
  assumes inv: "ginv s" and tt: "thr s t = Some tt" and pc: "wpcs s t = W_Group"
    and q: "queue s = []" "soft_killed s"
  shows "ginv (s\<lparr>grp := grp s, thr := (thr s)(t \<mapsto> tt\<lparr>currTask := None\<rparr>), wpcs := (wpcs s)(t := W_Exit)\<rparr>)"
proof -
  have tk: "thread_ok s t tt" by (rule ginv_thread [OF inv tt])
  then have "tt\<lparr>currTask := None\<rparr> = tt" using pc by (auto simp: thread_ok_def)
  then have e: "(thr s)(t \<mapsto> tt\<lparr>currTask := None\<rparr>) = thr s" using tt by auto
  have "ginv (s\<lparr>wpcs := (wpcs s)(t := W_Exit)\<rparr>)"
    using inv tt tk pc q by (intro ginv_move) (auto simp: thread_ok_def pending_def)
  with e show ?thesis by simp
qed

lemma ginv_group_sleep:
  assumes inv: "ginv s" and tt: "thr s t = Some tt" and pc: "wpcs s t = W_Group"
    and q: "queue s = []" "\<not> soft_killed s"
    and g: "lists_ok ((grp s)\<lparr>g_flags := f, activeThrds := a, idleThrds := i\<rparr>) (dom (thr s))"
      "set (elems a) = actives s - {t}" "set (elems i) = insert t (idles s)"
      "f = g_flags (grp s) \<or> f = clear_flag (g_flags (grp s)) GROUP_WAIT"
    and pc': "pc' = W_Notify \<or> pc' = W_Wait"
  shows "ginv (s\<lparr>grp := (grp s)\<lparr>g_flags := f, activeThrds := a, idleThrds := i\<rparr>,
                 thr := (thr s)(t \<mapsto> tt\<lparr>currTask := None, tt_state := idle\<rparr>),
                 wpcs := (wpcs s)(t := pc')\<rparr>)"
proof -
  let ?s = "s\<lparr>grp := (grp s)\<lparr>g_flags := f, activeThrds := a, idleThrds := i\<rparr>,
              thr := (thr s)(t \<mapsto> tt\<lparr>currTask := None, tt_state := idle\<rparr>),
              wpcs := (wpcs s)(t := pc')\<rparr>"
  have lt: "t < ntid s" by (rule ginv_thread_lt [OF inv tt])
  have tk: "thread_ok s t tt" by (rule ginv_thread [OF inv tt])
  have none: "\<not> tasked s t v" for v using tk pc tt by (auto simp: thread_ok_def tasked_def)
  have T: "tasked ?s u v \<longleftrightarrow> tasked s u v" for u v using none by (auto simp: tasked_def)
  have H: "handed ?s c v \<longleftrightarrow> handed s c v" for c v by (simp add: handed_def)
  have "located ?s v l \<longleftrightarrow> located s v l" for v l by (cases l) (auto simp: T H)
  then have "inv_work ?s" by (intro inv_work_same [OF ginvD(5) [OF inv]]) auto
  moreover have "done_works ?s = done_works s"
    unfolding done_works_def T using pc none pc' by auto (metis none)+
  then have "inv_runs ?s" using ginvD(6) [OF inv] by (auto simp: inv_runs_def)
  moreover have d: "dom ((thr s)(t \<mapsto> tt\<lparr>currTask := None, tt_state := idle\<rparr>)) = dom (thr s)" using tt by auto
  then have "inv_wf ?s" using ginvD(1) [OF inv] tt lt pc g(1) pc'
    by (auto simp: inv_wf_def group_wf_def)
  moreover have "inv_flags ?s" using ginvD(2) [OF inv] g(4) by (auto simp: inv_flags_def)
  moreover have "inv_thr ?s"
    using ginvD(3) [OF inv] tk pc pc' g(3) by (auto simp: inv_thr_def thread_ok_def pending_def)
  moreover have "inv_cli ?s"
  proof -
    have "\<And>c w. clis s c \<noteq> C_Handoff t w"
      using ginvD(4) [OF inv] tt tk pc by (fastforce simp: inv_cli_def thread_ok_def)
    then show ?thesis using ginvD(4) [OF inv] g(2) by (auto simp: inv_cli_def)
  qed
  moreover have "inv_queue ?s"
    using ginvD(7) [OF inv] ginvD(2) [OF inv] pc pc' lt q g(4) by (auto simp: inv_queue_def inv_flags_def)
  ultimately show ?thesis by (simp add: ginv_def)
qed

lemma ginv_exit:
  assumes inv: "ginv s" and tt: "thr s t = Some tt" and pc: "wpcs s t = W_Exit"
    and g: "lists_ok ((grp s)\<lparr>activeThrds := a\<rparr>) (dom (thr s) - {t})" "set (elems a) = actives s - {t}"
  shows "ginv (s\<lparr>grp := (grp s)\<lparr>activeThrds := a\<rparr>, thr := (thr s)(t := None), wpcs := (wpcs s)(t := W_Dead)\<rparr>)"
proof -
  let ?s = "s\<lparr>grp := (grp s)\<lparr>activeThrds := a\<rparr>, thr := (thr s)(t := None), wpcs := (wpcs s)(t := W_Dead)\<rparr>"
  have lt: "t < ntid s" by (rule ginv_thread_lt [OF inv tt])
  have tk: "thread_ok s t tt" by (rule ginv_thread [OF inv tt])
  have none: "\<not> tasked s t v" for v using tk pc tt by (auto simp: thread_ok_def tasked_def)
  have T: "tasked ?s u v \<longleftrightarrow> tasked s u v" for u v using none by (auto simp: tasked_def)
  have H: "handed ?s c v \<longleftrightarrow> handed s c v" for c v by (simp add: handed_def)
  have "located ?s v l \<longleftrightarrow> located s v l" for v l by (cases l) (auto simp: T H)
  then have "inv_work ?s" by (intro inv_work_same [OF ginvD(5) [OF inv]]) auto
  moreover have "done_works ?s = done_works s"
    unfolding done_works_def T using pc none by auto (metis none)
  then have "inv_runs ?s" using ginvD(6) [OF inv] by (auto simp: inv_runs_def)
  moreover have d: "dom ((thr s)(t := None)) = dom (thr s) - {t}" by auto
  have "inv_wf ?s" using ginvD(1) [OF inv] tt lt pc g(1) unfolding inv_wf_def group_wf_def
    by (auto simp: d)
  moreover have "inv_flags ?s" using ginvD(2) [OF inv] by (auto simp: inv_flags_def)
  moreover have "inv_thr ?s"
    using ginvD(3) [OF inv] by (auto simp: inv_thr_def thread_ok_def pending_def)
  moreover have "inv_cli ?s"
  proof -
    have "\<And>c w. clis s c \<noteq> C_Handoff t w"
      using ginvD(4) [OF inv] tt tk pc by (fastforce simp: inv_cli_def thread_ok_def)
    then show ?thesis using ginvD(4) [OF inv] g(2) by (auto simp: inv_cli_def)
  qed
  moreover have "inv_queue ?s" using ginvD(7) [OF inv] pc lt by (auto simp: inv_queue_def)
  ultimately show ?thesis by (simp add: ginv_def)
qed

lemma ginv_handoff:
  assumes inv: "ginv s" and c: "clis s c = C_Handoff t w" and tt: "thr s t = Some tt"
    and free: "\<not> holds_thrd (wpcs s t)"
  shows "ginv (s\<lparr>thr := (thr s)(t \<mapsto> do_work_handoff w tt), clis := (clis s)(c := C_Idle)\<rparr>)"
proof -
  let ?s = "s\<lparr>thr := (thr s)(t \<mapsto> do_work_handoff w tt), clis := (clis s)(c := C_Idle)\<rparr>"
  have lt: "t < ntid s" by (rule ginv_thread_lt [OF inv tt])
  have tk: "thread_ok s t tt" by (rule ginv_thread [OF inv tt])
  have cli: "t \<in> actives s" "tt_state tt = idle" "\<And>c' w'. clis s c' = C_Handoff t w' \<Longrightarrow> c' = c"
    using ginv_cli [OF inv c] ginv_cli_unique [OF inv c] tt by auto
  have pc: "wpcs s t = W_Wait" using tk cli(2) free by (auto simp: thread_ok_def)
  have ni: "t \<notin> idles s" using cli(1) ginv_disjoint [OF inv] by auto
  have none: "\<not> tasked s t v" for v using tk cli(2) tt by (auto simp: thread_ok_def tasked_def)
  have T: "tasked ?s u v \<longleftrightarrow> (u = t \<and> v = w) \<or> tasked s u v" for u v
    using none by (auto simp: tasked_def do_work_handoff_def)
  have H: "handed ?s d v \<longleftrightarrow> d \<noteq> c \<and> handed s d v" for d v by (auto simp: handed_def)
  have hw: "located s w (L_Hand c)" and only: "handed s c v \<longleftrightarrow> v = w" for v
    using c by (auto simp: handed_def)
  have L: "located ?s v l \<longleftrightarrow> (if v = w then l = L_Task t else located s v l)" for v l
    using located_only [OF inv hw, of l] only none by (cases l; cases "v = w") (auto simp: T H)
  have "inv_work ?s"
  proof (rule inv_work_move [OF ginvD(5) [OF inv] L])
    show "accepted ?s = insert w (accepted s)" using located_accepted [OF inv hw] by simp
    show "distinct (freed ?s)" using ginvD(5) [OF inv] by (simp add: inv_work_def)
  qed
  moreover have "done_works ?s = done_works s"
    unfolding done_works_def T using pc by auto
  then have "inv_runs ?s" using ginvD(6) [OF inv] by (auto simp: inv_runs_def)
  moreover have "dom ((thr s)(t \<mapsto> do_work_handoff w tt)) = dom (thr s)" using tt by auto
  then have "inv_wf ?s" using ginvD(1) [OF inv] tt lt pc by (auto simp: inv_wf_def group_wf_def)
  moreover have "inv_flags ?s" using ginvD(2) [OF inv] by (simp add: inv_flags_def)
  moreover have "inv_thr ?s"
    unfolding inv_thr_def
  proof (intro allI impI)
    fix u uu assume uu: "thr ?s u = Some uu"
    show "thread_ok ?s u uu"
    proof (cases "u = t")
      case True
      with uu pc ni show ?thesis by (auto simp: thread_ok_def do_work_handoff_def)
    next
      case False
      with uu ginv_thread [OF inv] have "thread_ok s u uu" by simp
      moreover have "pending s u \<longrightarrow> pending ?s u"
        using False c by (auto simp: pending_def) (metis cpc.inject(1))
      ultimately show ?thesis using thread_ok_cong [of s u uu ?s] by simp
    qed
  qed
  moreover have "inv_cli ?s"
    using ginvD(4) [OF inv] cli(3) by (auto simp: inv_cli_def)
  moreover have "inv_queue ?s" using ginvD(7) [OF inv] by (auto simp: inv_queue_def)
  ultimately show ?thesis by (simp add: ginv_def)
qed

lemma ginv_signal:
  assumes inv: "ginv s" and c: "clis s c = C_Signal rc"
  shows "ginv (s\<lparr>clis := (clis s)(c := C_Idle)\<rparr>)"
proof -
  let ?s = "s\<lparr>clis := (clis s)(c := C_Idle)\<rparr>"
  have E: "clis ?s d = C_Handoff u v \<longleftrightarrow> clis s d = C_Handoff u v" for d u v using c by auto
  have "located ?s v l \<longleftrightarrow> located s v l" for v l
    by (cases l) (simp_all only: located.simps handed_def E, simp_all add: tasked_def)
  then have "inv_work ?s" by (intro inv_work_same [OF ginvD(5) [OF inv]]) auto
  moreover have "inv_cli ?s" using ginvD(4) [OF inv] unfolding inv_cli_def E by simp
  moreover have "inv_thr ?s" using ginvD(3) [OF inv] unfolding inv_thr_def thread_ok_def pending_def E by simp
  moreover have "inv_wf ?s" "inv_flags ?s" "inv_queue ?s"
    using ginvD(1,2,7) [OF inv] by (simp_all add: inv_wf_def inv_flags_def inv_queue_def)
  moreover have "inv_runs ?s"
    using ginvD(6) [OF inv] by (simp add: inv_runs_def done_works_def tasked_def)
  ultimately show ?thesis by (simp add: ginv_def)
qed

text \<open>The three outcomes of the section of a worker under the group lock.\<close>

lemma worker_group_cases:
  assumes inv: "ginv s" and tt: "thr s t = Some tt" and pc: "wpcs s t = W_Group"
    and out: "worker_group t (grp s) tt = Inr (out, tg', tt')"
  obtains
    (task) w ws q' where "queue s = w # ws" "out = WO_Task w" "tg' = (grp s)\<lparr>g_q := q'\<rparr>"
      "tt' = tt\<lparr>currTask := Some w\<rparr>" "q_ok q'" "q_elems q' = ws"
  | (exit) "queue s = []" "soft_killed s" "out = WO_Exit" "tg' = grp s" "tt' = tt\<lparr>currTask := None\<rparr>"
  | (sleep) b f a i where "queue s = []" "\<not> soft_killed s" "out = WO_Sleep b"
      "tg' = (grp s)\<lparr>g_flags := f, activeThrds := a, idleThrds := i\<rparr>"
      "tt' = tt\<lparr>currTask := None, tt_state := idle\<rparr>"
      "lists_ok ((grp s)\<lparr>g_flags := f, activeThrds := a, idleThrds := i\<rparr>) (dom (thr s))"
      "set (elems a) = actives s - {t}" "set (elems i) = insert t (idles s)"
      "f = g_flags (grp s) \<or> f = clear_flag (g_flags (grp s)) GROUP_WAIT"
      "b = (has_flag (g_flags (grp s)) GROUP_WAIT \<and> length (elems (activeThrds (grp s))) = 1)"
      "b \<longrightarrow> \<not> has_flag f GROUP_WAIT"
proof -
  have st: "tt_state tt = running" using ginv_thread [OF inv tt] pc by (auto simp: thread_ok_def)
  then have act: "t \<in> actives s" using running_active [OF inv tt] by simp
  have fl: "\<not> has_flag (g_flags (grp s)) HARD_KILL" "\<not> has_flag (g_flags (grp s)) GROUP_CLEAN"
    using ginvD(2) [OF inv] by (auto simp: inv_flags_def)
  have qk: "q_ok (g_q (grp s))" and lk: "lists_ok (grp s) (dom (thr s))"
    using ginvD(1) [OF inv] by (auto simp: inv_wf_def group_wf_def)
  show thesis
  proof (cases "queue s")
    case (Cons w ws)
    from worker_group_task [OF fl qk Cons, of t tt] out obtain q' where
      "out = WO_Task w" "tg' = (grp s)\<lparr>g_q := q'\<rparr>" "tt' = tt\<lparr>currTask := Some w\<rparr>" "q_ok q'" "q_elems q' = ws"
      by auto
    with Cons show thesis by (intro task)
  next
    case Nil
    show thesis
    proof (cases "soft_killed s")
      case True
      with worker_group_exit [OF fl qk Nil] out Nil show thesis by (intro exit) auto
    next
      case False
      from worker_group_sleep [OF fl qk Nil False st lk act] out obtain b f a i where
        "out = WO_Sleep b" "tg' = (grp s)\<lparr>g_flags := f, activeThrds := a, idleThrds := i\<rparr>"
        "tt' = tt\<lparr>currTask := None, tt_state := idle\<rparr>"
        "lists_ok ((grp s)\<lparr>g_flags := f, activeThrds := a, idleThrds := i\<rparr>) (dom (thr s))"
        "set (elems a) = actives s - {t}" "set (elems i) = insert t (idles s)"
        "f = g_flags (grp s) \<or> f = clear_flag (g_flags (grp s)) GROUP_WAIT"
        "b = (has_flag (g_flags (grp s)) GROUP_WAIT \<and> length (elems (activeThrds (grp s))) = 1)"
        "b \<longrightarrow> \<not> has_flag f GROUP_WAIT" by auto
      with Nil False show thesis by (intro sleep)
    qed
  qed
qed

lemma ginv_group:
  assumes inv: "ginv s" and tt: "thr s t = Some tt" and pc: "wpcs s t = W_Group"
    and out: "worker_group t (grp s) tt = Inr (out, tg', tt')"
  shows "ginv (s\<lparr>grp := tg', thr := (thr s)(t \<mapsto> tt'), wpcs := (wpcs s)(t := pc_after out)\<rparr>)"
  using assms
proof (cases rule: worker_group_cases)
  case (task w ws q')
  with ginv_group_task [OF inv tt pc] show ?thesis by simp
next
  case exit
  with ginv_group_exit [OF inv tt pc] show ?thesis by simp
next
  case (sleep b f a i)
  with ginv_group_sleep [OF inv tt pc, where f = f and a = a and i = i and pc' = "pc_after out"]
  show ?thesis by simp
qed

lemma ginv_exit_step:
  assumes inv: "ginv s" and tt: "thr s t = Some tt" and pc: "wpcs s t = W_Exit"
    and out: "internal_destroy_thread t (grp s) tt = Inr tg'"
  shows "ginv (s\<lparr>grp := tg', thr := (thr s)(t := None), wpcs := (wpcs s)(t := W_Dead)\<rparr>)"
proof -
  have tk: "thread_ok s t tt" by (rule ginv_thread [OF inv tt])
  then have st: "tt_state tt \<noteq> idle" using pc by (auto simp: thread_ok_def)
  then have act: "t \<in> actives s" using running_active [OF inv tt] by simp
  have lk: "lists_ok (grp s) (dom (thr s))"
    using ginvD(1) [OF inv] by (auto simp: inv_wf_def group_wf_def)
  from internal_destroy_thread_active [OF lk act st] out ginv_exit [OF inv tt pc] show ?thesis by auto
qed

lemma internal_ginv: "internal s s' \<Longrightarrow> ginv s \<Longrightarrow> ginv s'"
  by (induction rule: internal.induct)
    (auto intro: ginv_top_task ginv_top_none ginv_run ginv_free ginv_group ginv_notify ginv_wake
      ginv_exit_step ginv_handoff ginv_signal)

lemma group_wf_lists: "group_wf tg ts n \<Longrightarrow> lists_ok tg' (dom ts) \<Longrightarrow> g_q tg' = g_q tg \<Longrightarrow>
   numThrds tg' = numThrds tg \<Longrightarrow> g_thrdMax tg' = g_thrdMax tg \<Longrightarrow> thrds tg' = thrds tg \<Longrightarrow>
   group_wf tg' ts n"
  by (simp add: group_wf_def)

text \<open>Submitting an item: refused, queued (the queue may be full), or handed to an idle thread.\<close>

lemma ginv_submit_queue:
  assumes inv: "ginv s" and c: "clis s c = C_Idle" and w: "w \<notin> accepted s"
    and out: "do_work_group w (grp s) = Inr (DW_Queued rc h, tg')"
  shows "ginv (s\<lparr>grp := tg',
        accepted := (if rc = POOL_SUCCESS then insert w (accepted s) else accepted s),
        clis := (clis s)(c := if h \<noteq> well then C_Signal rc else C_Idle)\<rparr>)" (is "ginv ?s")
proof -
  have qk: "q_ok (g_q (grp s))" and lk: "lists_ok (grp s) (dom (thr s))"
    using ginvD(1) [OF inv] by (auto simp: inv_wf_def group_wf_def)
  then have vi: "vl_ok (idleThrds (grp s))" by (simp add: lists_ok_def)
  have cl: "\<not> has_flag (g_flags (grp s)) GROUP_CLOSE"
    using out do_work_group_closed by fastforce
  have wq: "w \<notin> set (queue s)"
    using w located_accepted [OF inv, of w L_Queue] by auto
  have id: "elems (idleThrds (grp s)) = []"
  proof (cases "elems (idleThrds (grp s))")
    case (Cons t ts)
    from do_work_group_thread [OF cl lk Cons, of w] out show ?thesis by auto
  qed simp
  from do_work_group_queue [OF cl vi id qk wq] out obtain q' where
    q': "tg' = (grp s)\<lparr>g_q := q'\<rparr>" "q_ok q'"
    and r: "if length (queue s) < unat (q_capacity (g_q (grp s)))
            then rc = POOL_SUCCESS \<and> q_elems q' = queue s @ [w]
            else rc = GROUP_FULL \<and> q' = g_q (grp s)" by auto
  have sk: "\<not> soft_killed s" using ginvD(2) [OF inv] cl by (auto simp: inv_flags_def)
  have E: "clis ?s d = C_Handoff u v \<longleftrightarrow> clis s d = C_Handoff u v" for d u v using c by auto
  have T: "tasked ?s u v \<longleftrightarrow> tasked s u v" for u v by (simp add: tasked_def)
  have H: "handed ?s d v \<longleftrightarrow> handed s d v" for d v unfolding handed_def E ..
  have nw: "\<not> located s w l" for l using w located_accepted [OF inv] by blast
  have L0: "located ?s v l = (case l of L_Queue \<Rightarrow> v \<in> set (q_elems q') | L_Hand d \<Rightarrow> handed s d v
      | L_Task u \<Rightarrow> tasked s u v | L_Freed \<Rightarrow> v \<in> set (freed s))" for v l
    by (cases l) (simp_all only: located.simps T H, simp_all add: q'(1))
  have "inv_work ?s"
  proof (cases "length (queue s) < unat (q_capacity (g_q (grp s)))")
    case True
    with r have rc: "rc = POOL_SUCCESS" "q_elems q' = queue s @ [w]" by auto
    have L: "located ?s v l \<longleftrightarrow> (if v = w then l = L_Queue else located s v l)" for v l
      unfolding L0 using nw [of l] rc(2) by (cases l) auto
    show ?thesis
      by (rule inv_work_move [OF ginvD(5) [OF inv] L])
        (use rc ginvD(5) [OF inv] in \<open>auto simp: inv_work_def\<close>)
  next
    case False
    with r have rc: "rc \<noteq> POOL_SUCCESS" "q' = g_q (grp s)" by (auto simp: pool_rc_defs)
    have "located ?s v l \<longleftrightarrow> located s v l" for v l
      unfolding L0 rc(2) by (cases l) simp_all
    then show ?thesis by (intro inv_work_same [OF ginvD(5) [OF inv]]) (use rc in auto)
  qed
  moreover have "inv_cli ?s" using ginvD(4) [OF inv] unfolding inv_cli_def E by (simp add: q'(1))
  moreover have "inv_thr ?s"
    using ginvD(3) [OF inv] unfolding inv_thr_def thread_ok_def pending_def E by (simp add: q'(1))
  moreover have "inv_wf ?s"
    using ginvD(1) [OF inv] q'(2) by (simp add: inv_wf_def q'(1) group_wf_def lists_ok_def)
  moreover have "inv_flags ?s" using ginvD(2) [OF inv] by (simp add: inv_flags_def q'(1))
  moreover have "inv_queue ?s"
    using ginvD(7) [OF inv] id sk by (auto simp: inv_queue_def q'(1))
  moreover have "inv_runs ?s"
    using ginvD(6) [OF inv] by (simp add: inv_runs_def done_works_def tasked_def)
  ultimately show ?thesis by (simp add: ginv_def)
qed

lemma ginv_submit_thread:
  assumes inv: "ginv s" and c: "clis s c = C_Idle" and w: "w \<notin> accepted s"
    and out: "do_work_group w (grp s) = Inr (DW_Thread t, tg')"
  shows "ginv (s\<lparr>grp := tg', accepted := insert w (accepted s), clis := (clis s)(c := C_Handoff t w)\<rparr>)"
    (is "ginv ?s")
proof -
  have wf: "group_wf (grp s) (thr s) (ntid s)" using ginvD(1) [OF inv] by (simp add: inv_wf_def)
  then have qk: "q_ok (g_q (grp s))" and lk: "lists_ok (grp s) (dom (thr s))"
    by (auto simp: group_wf_def)
  then have vi: "vl_ok (idleThrds (grp s))" by (simp add: lists_ok_def)
  have cl: "\<not> has_flag (g_flags (grp s)) GROUP_CLOSE"
    using out do_work_group_closed by fastforce
  have wq: "w \<notin> set (queue s)"
    using w located_accepted [OF inv, of w L_Queue] by auto
  obtain u us where id: "elems (idleThrds (grp s)) = u # us"
  proof (cases "elems (idleThrds (grp s))")
    case Nil
    from do_work_group_queue [OF cl vi Nil qk wq] out show ?thesis by auto
  qed
  from do_work_group_thread [OF cl lk id, of w] out obtain i a where
    g: "u = t" "tg' = (grp s)\<lparr>idleThrds := i, activeThrds := a\<rparr>"
       "lists_ok ((grp s)\<lparr>idleThrds := i, activeThrds := a\<rparr>) (dom (thr s))" "elems i = us"
       "set (elems a) = insert t (actives s)" by auto
  have du: "t \<notin> set us" "t \<in> idles s" using vi id g(1) by (auto simp: vl_ok_def)
  then have "t \<in> dom (thr s)" using ginv_members [OF inv] by auto
  then obtain tt where tt: "thr s t = Some tt" by auto
  have tk: "thread_ok s t tt" by (rule ginv_thread [OF inv tt])
  then have st: "tt_state tt = idle" using du by (auto simp: thread_ok_def)
  have np: "clis s d \<noteq> C_Handoff t v" for d v
    using ginv_cli [OF inv] ginv_disjoint [OF inv] du by blast
  have sk: "\<not> soft_killed s" "queue s = []"
    using ginvD(2) [OF inv] ginvD(7) [OF inv] cl id by (auto simp: inv_flags_def inv_queue_def)
  have T: "tasked ?s x v \<longleftrightarrow> tasked s x v" for x v by (simp add: tasked_def)
  have nw: "\<not> located s w l" for l using w located_accepted [OF inv] by blast
  have H: "handed ?s d v \<longleftrightarrow> (d = c \<and> v = w) \<or> handed s d v" for d v
    using c by (auto simp: handed_def)
  have L: "located ?s v l \<longleftrightarrow> (if v = w then l = L_Hand c else located s v l)" for v l
    using nw [of l] by (cases l) (simp_all only: located.simps T H, auto simp: g(2))
  have "inv_work ?s"
    by (rule inv_work_move [OF ginvD(5) [OF inv] L]) (use ginvD(5) [OF inv] in \<open>auto simp: inv_work_def\<close>)
  moreover have "inv_cli ?s"
    using ginvD(4) [OF inv] np tt st unfolding inv_cli_def by (auto simp: g(2,5))
  moreover have "inv_thr ?s"
    unfolding inv_thr_def
  proof (intro allI impI)
    fix x xx assume xx: "thr ?s x = Some xx"
    then have xk: "thread_ok s x xx" using ginv_thread [OF inv] by simp
    show "thread_ok ?s x xx"
    proof (cases "x = t")
      case True
      with xk st xx tt have "pending ?s x" by (auto simp: pending_def)
      with xk True st xx tt show ?thesis by (auto simp: thread_ok_def)
    next
      case False
      have "pending s x \<longrightarrow> pending ?s x" using c by (auto simp: pending_def) (metis cpc.distinct(1))
      with xk False g(1,4) id show ?thesis
        by (intro thread_ok_cong [OF xk]) (auto simp: g(2))
    qed
  qed
  moreover have "inv_wf ?s"
    using ginvD(1) [OF inv] group_wf_lists [OF wf g(3)] by (simp add: inv_wf_def g(2))
  moreover have "inv_flags ?s" using ginvD(2) [OF inv] by (simp add: inv_flags_def g(2))
  moreover have "inv_queue ?s" using ginvD(7) [OF inv] sk by (auto simp: inv_queue_def g(2))
  moreover have "inv_runs ?s"
    using ginvD(6) [OF inv] by (simp add: inv_runs_def done_works_def tasked_def)
  ultimately show ?thesis by (simp add: ginv_def)
qed

lemma ginv_submit_closed:
  assumes "ginv s" and out: "do_work_group w (grp s) = Inr (DW_Closed, tg')"
  shows "ginv (s\<lparr>grp := tg'\<rparr>)"
proof -
  have "tg' = grp s"
    using out by (auto simp: do_work_group_def bindE_eq_Inr_iff Let_def
        split: if_splits option.splits prod.splits)
  with assms(1) show ?thesis by simp
qed

text \<open>The manager starts threads, each with the next queued item or with none.\<close>

lemma ginv_spawn:
  assumes inv: "ginv s" and lt: "ntid s < unat (g_thrdMax (grp s))" and open': "dst s = D_Open"
    and q: "q_fetch (g_q (grp s)) = Inr (wo, q')"
    and sp: "spawn_thread all_ok wo (ntid s) ((grp s)\<lparr>g_q := q'\<rparr>, thr s) = Inr (tg1, ts1)"
  shows "ginv (s\<lparr>grp := tg1, thr := ts1, ntid := Suc (ntid s)\<rparr>)" (is "ginv ?s")
    and "g_thrdMax tg1 = g_thrdMax (grp s)"
proof -
  have wf: "group_wf (grp s) (thr s) (ntid s)" using ginvD(1) [OF inv] by (simp add: inv_wf_def)
  then have qk: "q_ok (g_q (grp s))" by (simp add: group_wf_def)
  from q_fetch_drop [OF qk] q have wo: "wo = (if queue s = [] then None else Some (queue s ! 0))"
    "q_ok q'" "q_elems q' = drop 1 (queue s)" by auto
  from spawn_thread_wf [OF group_wf_q [OF wf wo(2)], of wo] lt sp have
    g: "ts1 = (thr s)(ntid s \<mapsto> \<lparr>tt_state = running, currTask = wo\<rparr>)" "group_wf tg1 ts1 (Suc (ntid s))"
       "set (elems (activeThrds tg1)) = insert (ntid s) (actives s)" "idleThrds tg1 = idleThrds (grp s)"
       "g_q tg1 = q'" "g_flags tg1 = g_flags (grp s)" "g_thrdMax tg1 = g_thrdMax (grp s)" by auto
  show "g_thrdMax tg1 = g_thrdMax (grp s)" by (rule g(7))
  have new: "thr s (ntid s) = None" "wpcs s (ntid s) = W_Top"
    using wf ginvD(1) [OF inv] by (auto simp: group_wf_def inv_wf_def)
  have sk: "\<not> soft_killed s" using ginvD(2) [OF inv] open' by (auto simp: inv_flags_def)
  have T: "tasked ?s u v \<longleftrightarrow> (u = ntid s \<and> wo = Some v) \<or> tasked s u v" for u v
    using new by (auto simp: tasked_def g(1))
  have H: "handed ?s d v \<longleftrightarrow> handed s d v" for d v by (simp add: handed_def)
  have nt: "\<not> tasked s (ntid s) v" for v using new by (simp add: tasked_def)
  have "inv_work ?s"
  proof (cases "queue s")
    case Nil
    have "located ?s v l \<longleftrightarrow> located s v l" for v l
      by (cases l) (simp_all only: located.simps T H, simp_all add: g(5) wo Nil)
    then show ?thesis by (intro inv_work_same [OF ginvD(5) [OF inv]]) auto
  next
    case (Cons w ws)
    have qw: "located s w L_Queue" using Cons by simp
    have d: "w \<notin> set ws" using qk Cons by (auto simp: q_ok_def vl_ok_def)
    have L: "located ?s v l \<longleftrightarrow> (if v = w then l = L_Task (ntid s) else located s v l)" for v l
      using located_only [OF inv qw, of l] Cons d wo nt
      by (cases l) (simp_all only: located.simps T H, auto simp: g(5))
    show ?thesis
      by (rule inv_work_move [OF ginvD(5) [OF inv] L])
        (use located_accepted [OF inv qw] ginvD(5) [OF inv] in \<open>auto simp: inv_work_def\<close>)
  qed
  moreover have "done_works ?s = done_works s"
    unfolding done_works_def T using new by auto
  then have "inv_runs ?s" using ginvD(6) [OF inv] by (auto simp: inv_runs_def)
  moreover have "inv_wf ?s"
    using ginvD(1) [OF inv] g(2) new by (auto simp: inv_wf_def g(1) less_Suc_eq)
  moreover have "inv_flags ?s" using ginvD(2) [OF inv] by (simp add: inv_flags_def g(6))
  moreover have "inv_thr ?s"
  proof -
    have "ntid s \<notin> idles s" using ginv_members [OF inv] new by auto
    then show ?thesis
      using ginvD(3) [OF inv] new by (auto simp: inv_thr_def thread_ok_def pending_def g(1,4))
  qed
  moreover have "inv_cli ?s"
    using ginvD(4) [OF inv] new by (fastforce simp: inv_cli_def g(1,3))
  moreover have "inv_queue ?s"
    using ginvD(7) [OF inv] sk open' by (auto simp: inv_queue_def g(4,5,6) wo(3))
  ultimately show "ginv ?s" by (simp add: ginv_def)
qed

lemma ginv_manager_spawn:
  assumes "ginv s" and "ntid s + k \<le> unat (g_thrdMax (grp s))" and "dst s = D_Open"
    and "manager_spawn (\<lambda>_. all_ok) k (ntid s) (grp s, thr s) = Inr (tg', ts')"
  shows "ginv (s\<lparr>grp := tg', thr := ts', ntid := ntid s + k\<rparr>)"
  using assms
proof (induction k arbitrary: s)
  case 0
  then show ?case by auto
next
  case (Suc k)
  from Suc.prems(4) obtain wo q' tg1 ts1 where
    q: "q_fetch (g_q (grp s)) = Inr (wo, q')" and
    sp: "spawn_thread all_ok wo (ntid s) ((grp s)\<lparr>g_q := q'\<rparr>, thr s) = Inr (tg1, ts1)" and
    rest: "manager_spawn (\<lambda>_. all_ok) k (Suc (ntid s)) (tg1, ts1) = Inr (tg', ts')"
    by (auto simp: bindE_eq_Inr_iff)
  have lt: "ntid s < unat (g_thrdMax (grp s))" using Suc.prems(2) by simp
  let ?s = "s\<lparr>grp := tg1, thr := ts1, ntid := Suc (ntid s)\<rparr>"
  note one = ginv_spawn [OF Suc.prems(1) lt Suc.prems(3) q sp]
  have "ginv (?s\<lparr>grp := tg', thr := ts', ntid := ntid ?s + k\<rparr>)"
    using Suc.prems rest one by (intro Suc.IH) auto
  then show ?case by simp
qed

lemma ginv_manage:
  assumes inv: "ginv s" and "dst s = D_Open"
    and m: "manager_group (\<lambda>_. all_ok) (ntid s) (grp s, thr s) = Inr (tg', ts')"
  shows "ginv (s\<lparr>grp := tg', thr := ts', ntid := ntid s + unat (addThrds (grp s))\<rparr>)"
proof -
  have "group_wf (grp s) (thr s) (ntid s)" using ginvD(1) [OF inv] by (simp add: inv_wf_def)
  from addThrds_bound [OF this] assms show ?thesis
    by (intro ginv_manager_spawn) (auto simp: manager_group_def)
qed

lemma ginv_wait:
  assumes inv: "ginv s" and m: "internal_wait_helper (grp s) = (rc, tg')"
  shows "ginv (s\<lparr>grp := tg'\<rparr>)" (is "ginv ?s")
proof -
  from m have tg': "tg' = grp s \<or> tg' = (grp s)\<lparr>g_flags := set_flag (g_flags (grp s)) GROUP_WAIT\<rparr>"
    by (auto simp: internal_wait_helper_def split: if_splits)
  then have same: "idleThrds tg' = idleThrds (grp s)" "activeThrds tg' = activeThrds (grp s)"
    "g_q tg' = g_q (grp s)" "numThrds tg' = numThrds (grp s)" "g_thrdMax tg' = g_thrdMax (grp s)"
    "thrds tg' = thrds (grp s)" by auto
  have fl: "has_flag (g_flags tg') HARD_KILL = has_flag (g_flags (grp s)) HARD_KILL"
    "has_flag (g_flags tg') GROUP_CLEAN = has_flag (g_flags (grp s)) GROUP_CLEAN"
    "has_flag (g_flags tg') GROUP_CLOSE = has_flag (g_flags (grp s)) GROUP_CLOSE"
    "has_flag (g_flags tg') SOFT_KILL = has_flag (g_flags (grp s)) SOFT_KILL"
    using tg' by auto
  have "located ?s v l \<longleftrightarrow> located s v l" for v l
    by (cases l) (auto simp: same tasked_def handed_def)
  then have "inv_work ?s" by (intro inv_work_same [OF ginvD(5) [OF inv]]) auto
  moreover have "inv_wf ?s" using ginvD(1) [OF inv] same by (simp add: inv_wf_def group_wf_def lists_ok_def)
  moreover have "inv_flags ?s" using ginvD(2) [OF inv] by (simp add: inv_flags_def fl)
  moreover have "inv_thr ?s" using ginvD(3) [OF inv] by (simp add: inv_thr_def thread_ok_def pending_def same)
  moreover have "inv_cli ?s" using ginvD(4) [OF inv] by (simp add: inv_cli_def same)
  moreover have "inv_runs ?s" using ginvD(6) [OF inv] by (simp add: inv_runs_def done_works_def tasked_def)
  moreover have "inv_queue ?s" using ginvD(7) [OF inv] by (simp add: inv_queue_def same fl)
  ultimately show ?thesis by (simp add: ginv_def)
qed

lemma ginv_unlink: "ginv s \<Longrightarrow> dst s = D_Open \<Longrightarrow> ginv (s\<lparr>dst := D_Unlinked\<rparr>)"
proof -
  assume inv: "ginv s" and d: "dst s = D_Open"
  let ?s = "s\<lparr>dst := D_Unlinked\<rparr>"
  have "located ?s v l \<longleftrightarrow> located s v l" for v l by (cases l) (auto simp: tasked_def handed_def)
  then have "inv_work ?s" by (intro inv_work_same [OF ginvD(5) [OF inv]]) auto
  with ginvD [OF inv] d show ?thesis
    by (simp add: ginv_def inv_wf_def inv_flags_def inv_thr_def thread_ok_def pending_def inv_cli_def
        inv_runs_def done_works_def tasked_def inv_queue_def)
qed

text \<open>Closing the group wakes every idle thread; it needs the locks of those threads.\<close>

lemma ginv_close:
  assumes inv: "ginv s" and d: "dst s = D_Unlinked"
    and free: "\<forall>t\<in>set (elems (idleThrds (grp s))). \<not> holds_thrd (wpcs s t)"
    and cl: "destroy_group_close (grp s, thr s) = Inr (tg', ts')"
  shows "ginv (s\<lparr>grp := tg', thr := ts', dst := D_Closed\<rparr>)" (is "ginv ?s")
proof -
  let ?g = "(grp s)\<lparr>g_flags := set_flag (g_flags (grp s)) (set_flag GROUP_CLOSE SOFT_KILL)\<rparr>"
  have wf: "group_wf (grp s) (thr s) (ntid s)" using ginvD(1) [OF inv] by (simp add: inv_wf_def)
  then have "lists_ok ?g (dom (thr s))" by (simp add: group_wf_def lists_ok_def)
  from wake_idle_all [OF this, of "thr s"] cl obtain i a where
    g: "tg' = ?g\<lparr>idleThrds := i, activeThrds := a\<rparr>" "lists_ok (?g\<lparr>idleThrds := i, activeThrds := a\<rparr>) (dom (thr s))"
       "elems i = []" "set (elems a) = dom (thr s)"
    and ts': "\<And>t. ts' t = (if t \<in> idles s
                   then map_option (\<lambda>tt. tt\<lparr>tt_state := running\<rparr>) (thr s t) else thr s t)"
    by (auto simp: destroy_group_close_def)
  have dom: "dom ts' = dom (thr s)" by (auto simp: ts' dom_def split: if_splits)
  have wait: "wpcs s t = W_Wait" if "t \<in> idles s" for t
  proof -
    from that ginv_members [OF inv] obtain tt where "thr s t = Some tt" by blast
    with ginv_thread [OF inv] that free show ?thesis by (fastforce simp: thread_ok_def)
  qed
  have T: "tasked ?s u v \<longleftrightarrow> tasked s u v" for u v by (auto simp: tasked_def ts')
  have "located ?s v l \<longleftrightarrow> located s v l" for v l
    by (cases l) (simp_all only: located.simps T, simp_all add: handed_def g(1))
  then have "inv_work ?s" by (intro inv_work_same [OF ginvD(5) [OF inv]]) auto
  moreover have "inv_runs ?s"
    using ginvD(6) [OF inv] unfolding inv_runs_def done_works_def T by simp
  moreover have "group_wf tg' ts' (ntid s)"
    using wf g(2) unfolding group_wf_def dom by (simp add: g(1))
  then have "inv_wf ?s" using ginvD(1) [OF inv] by (auto simp: inv_wf_def ts')
  moreover have "inv_flags ?s" using ginvD(2) [OF inv] by (auto simp: inv_flags_def g(1))
  moreover have "inv_thr ?s"
    unfolding inv_thr_def
  proof (intro allI impI)
    fix t tt assume tt: "thr ?s t = Some tt"
    show "thread_ok ?s t tt"
    proof (cases "t \<in> idles s")
      case True
      with tt ginv_thread [OF inv] wait [OF True] show ?thesis
        by (auto simp: ts' thread_ok_def g(1,3))
    next
      case False
      with tt ginv_thread [OF inv, of t tt] have tk: "thread_ok s t tt" by (simp add: ts')
      show ?thesis by (rule thread_ok_cong [OF tk]) (use False in \<open>auto simp: g(1,3) pending_def\<close>)
    qed
  qed
  moreover have "inv_cli ?s"
    unfolding inv_cli_def
  proof (intro conjI allI impI)
    fix c t w assume "clis ?s c = C_Handoff t w"
    then have "clis s c = C_Handoff t w" by simp
    from ginv_cli [OF inv this] ginv_disjoint [OF inv] have
      "t \<notin> idles s" "\<exists>tt. thr s t = Some tt \<and> tt_state tt = idle" by auto
    then show "t \<in> actives ?s" "\<exists>tt. thr ?s t = Some tt \<and> tt_state tt = idle"
      by (auto simp: g(1,4) ts')
  next
    fix c c' t w w' assume "clis ?s c = C_Handoff t w" "clis ?s c' = C_Handoff t w'"
    with ginv_cli_unique [OF inv] show "c = c'" by auto
  qed
  moreover have "inv_queue ?s"
    using ginvD(7) [OF inv] ginvD(2) [OF inv] d by (auto simp: inv_queue_def inv_flags_def g(1,3))
  ultimately show ?thesis by (simp add: ginv_def)
qed

lemma ginv_join:
  assumes inv: "ginv s" and d: "dst s = D_Closed"
    and j: "\<forall>t\<in>set (joined_threads (grp s)). wpcs s t = W_Dead"
  shows "ginv (s\<lparr>dst := D_Freed\<rparr>)" (is "ginv ?s")
proof -
  have "group_wf (grp s) (thr s) (ntid s)" using ginvD(1) [OF inv] by (simp add: inv_wf_def)
  with j have all: "\<forall>t<ntid s. wpcs s t = W_Dead" by (simp add: group_wf_joined)
  have "located ?s v l \<longleftrightarrow> located s v l" for v l by (cases l) (auto simp: tasked_def handed_def)
  then have "inv_work ?s" by (intro inv_work_same [OF ginvD(5) [OF inv]]) auto
  with ginvD [OF inv] d all show ?thesis
    by (simp add: ginv_def inv_wf_def inv_flags_def inv_thr_def thread_ok_def pending_def inv_cli_def
        inv_runs_def done_works_def tasked_def inv_queue_def)
qed

lemma external_ginv: "external s s' \<Longrightarrow> ginv s \<Longrightarrow> ginv s'"
  by (induction rule: external.induct)
    (blast intro: ginv_submit_closed ginv_submit_queue ginv_submit_thread ginv_manage ginv_wait
      ginv_unlink ginv_close ginv_join)+

lemma ginv_ginit:
  assumes "0 < mn" and "mn \<le> mx" and "ginit mn mx flags = Some s"
  shows "ginv s"
proof -
  from add_group_build_wf [OF assms(1,2), of flags] obtain tg ts where
    b: "add_group_build True True (\<lambda>_. all_ok) mn mx flags = Inr (tg, ts)" "group_wf tg ts (unat mn)"
       "q_elems (g_q tg) = []" "elems (idleThrds tg) = []" "set (elems (activeThrds tg)) = {..<unat mn}"
       "g_flags tg = g_flags (new_group mn mx flags)"
    and ts: "\<And>t. ts t = (if t < unat mn then Some \<lparr>tt_state = running, currTask = None\<rparr> else None)"
    by blast
  have s: "s = \<lparr>grp = tg, thr = ts, wpcs = (\<lambda>_. W_Top), clis = (\<lambda>_. C_Idle), dst = D_Open,
                ntid = unat mn, accepted = {}, runs = [], freed = []\<rparr>"
    using assms(3) b(1) by (simp add: ginit_def)
  have "\<not> located s w l" for w l
    using b(3) by (cases l) (auto simp: s tasked_def handed_def ts split: if_splits)
  then have "inv_work s" by (auto simp: inv_work_def s)
  moreover have "0 < unat mn" using assms(1) by (simp add: unat_gt_0 word_less_nat_alt)
  then have "inv_wf s" using b(2) by (auto simp: inv_wf_def s ts)
  moreover have "inv_flags s" by (simp add: inv_flags_def s b(6) new_group_def)
  moreover have "inv_thr s" "inv_cli s" "inv_runs s" "inv_queue s"
    using b(3,4,6) by (auto simp: inv_thr_def thread_ok_def inv_cli_def inv_runs_def done_works_def
        inv_queue_def s ts new_group_def split: if_splits)
  ultimately show ?thesis by (simp add: ginv_def)
qed

lemma greach_ginv: "greach s \<Longrightarrow> ginv s"
  by (induction rule: greach.induct) (auto intro: ginv_ginit internal_ginv external_ginv)

subsection \<open>No critical section faults\<close>

lemma ginv_lists: "ginv s \<Longrightarrow> lists_ok (grp s) (dom (thr s)) \<and> q_ok (g_q (grp s))"
  by (simp add: ginv_def inv_wf_def group_wf_def)

lemma worker_group_total:
  assumes inv: "ginv s" and tt: "thr s t = Some tt" and pc: "wpcs s t = W_Group"
  shows "\<exists>out tg' tt'. worker_group t (grp s) tt = Inr (out, tg', tt')"
proof -
  have st: "tt_state tt = running" using ginv_thread [OF inv tt] pc by (auto simp: thread_ok_def)
  then have act: "t \<in> actives s" using running_active [OF inv tt] by simp
  have fl: "\<not> has_flag (g_flags (grp s)) HARD_KILL" "\<not> has_flag (g_flags (grp s)) GROUP_CLEAN"
    using ginvD(2) [OF inv] by (auto simp: inv_flags_def)
  have qk: "q_ok (g_q (grp s))" and lk: "lists_ok (grp s) (dom (thr s))" using ginv_lists [OF inv] by auto
  show ?thesis
  proof (cases "queue s")
    case Nil
    then show ?thesis
      using worker_group_exit [OF fl qk Nil] worker_group_sleep [OF fl qk Nil _ st lk act]
      by (cases "soft_killed s") blast+
  next
    case (Cons w ws)
    then show ?thesis using worker_group_task [OF fl qk Cons] by blast
  qed
qed

lemma destroy_thread_total:
  assumes inv: "ginv s" and tt: "thr s t = Some tt" and pc: "wpcs s t = W_Exit"
  shows "\<exists>tg'. internal_destroy_thread t (grp s) tt = Inr tg'"
proof -
  have st: "tt_state tt \<noteq> idle" using ginv_thread [OF inv tt] pc by (auto simp: thread_ok_def)
  then show ?thesis
    using internal_destroy_thread_active running_active [OF inv tt st] ginv_lists [OF inv] by blast
qed

lemma do_work_group_total:
  assumes inv: "ginv s" and w: "w \<notin> accepted s"
  shows "\<exists>out tg'. do_work_group w (grp s) = Inr (out, tg')"
proof -
  have wq: "w \<notin> set (queue s)" using w located_accepted [OF inv, of w L_Queue] by auto
  have qk: "q_ok (g_q (grp s))" and lk: "lists_ok (grp s) (dom (thr s))" using ginv_lists [OF inv] by auto
  then have vi: "vl_ok (idleThrds (grp s))" by (simp add: lists_ok_def)
  show ?thesis
  proof (cases "has_flag (g_flags (grp s)) GROUP_CLOSE")
    case True
    then show ?thesis using do_work_group_closed by blast
  next
    case False
    then show ?thesis
      using do_work_group_queue [OF False vi _ qk wq] do_work_group_thread [OF False lk]
      by (cases "elems (idleThrds (grp s))") blast+
  qed
qed

lemma manager_group_total:
  assumes inv: "ginv s"
  shows "\<exists>tg' ts'. manager_group (\<lambda>_. all_ok) (ntid s) (grp s, thr s) = Inr (tg', ts')"
proof -
  have wf: "group_wf (grp s) (thr s) (ntid s)" using ginvD(1) [OF inv] by (simp add: inv_wf_def)
  from manager_spawn_wf [OF wf addThrds_bound [OF wf]] show ?thesis
    by (auto simp: manager_group_def)
qed

lemma destroy_group_close_total:
  assumes inv: "ginv s"
  shows "\<exists>tg' ts'. destroy_group_close (grp s, thr s) = Inr (tg', ts')"
proof -
  let ?g = "(grp s)\<lparr>g_flags := set_flag (g_flags (grp s)) (set_flag GROUP_CLOSE SOFT_KILL)\<rparr>"
  have "lists_ok ?g (dom (thr s))" using ginv_lists [OF inv] by (simp add: lists_ok_def)
  from wake_idle_all [OF this, of "thr s"] show ?thesis by (auto simp: destroy_group_close_def)
qed

subsection \<open>Progress\<close>

text \<open>A thread that cannot move is asleep: it is idle, and on the idle list, without a task.\<close>

lemma stuck_thread:
  assumes inv: "ginv s" and tt: "thr s t = Some tt" and stuck: "\<And>s'. \<not> internal s s'"
  shows "t \<in> idles s \<and> currTask tt = None \<and> wpcs s t = W_Wait"
proof -
  have tk: "thread_ok s t tt" by (rule ginv_thread [OF inv tt])
  have nd: "wpcs s t \<noteq> W_Dead" using ginvD(1) [OF inv] tt by (auto simp: inv_wf_def)
  have "\<exists>s'. internal s s'" if "wpcs s t = W_Top"
    using top_task [OF tt that] top_none [OF tt that] by (cases "currTask tt") blast+
  moreover have "\<exists>s'. internal s s'" if "wpcs s t = W_Run w" for w using run [OF tt that] by blast
  moreover have "\<exists>s'. internal s s'" if "wpcs s t = W_Done" using free [OF tt that] by blast
  moreover have "\<exists>s'. internal s s'" if "wpcs s t = W_Group"
    using group [OF tt that] worker_group_total [OF inv tt that] by blast
  moreover have "\<exists>s'. internal s s'" if "wpcs s t = W_Notify" using notify [OF tt that] by blast
  moreover have "\<exists>s'. internal s s'" if "wpcs s t = W_Exit"
    using exit [OF tt that] destroy_thread_total [OF inv tt that] by blast
  ultimately have wait: "wpcs s t = W_Wait" using stuck nd by (cases "wpcs s t") blast+
  then have idle: "tt_state tt = idle" using wake [OF tt wait] stuck by blast
  have "\<not> pending s t"
  proof
    assume "pending s t"
    then obtain c w where "clis s c = C_Handoff t w" by (auto simp: pending_def)
    from handoff [OF this tt] wait stuck show False by simp
  qed
  with tk idle wait show ?thesis by (auto simp: thread_ok_def)
qed

lemma quiescent_all_freed:
  assumes inv: "ginv s" and stuck: "\<And>s'. \<not> internal s s'"
  shows "accepted s = set (freed s)"
proof -
  have "located s w L_Freed" if lw: "located s w l" for w l
  proof (cases l)
    case L_Queue
    with lw have q: "queue s \<noteq> []" by auto
    then have ni: "idles s = {}" using ginvD(7) [OF inv] by (auto simp: inv_queue_def)
    have "thr s 0 \<noteq> None"
      using ginvD(1,7) [OF inv] q by (force simp: inv_wf_def inv_queue_def)
    then show ?thesis using stuck_thread [OF inv _ stuck, of 0] ni by auto
  next
    case (L_Hand c)
    with lw obtain t where c: "clis s c = C_Handoff t w" by (auto simp: handed_def)
    with ginv_cli [OF inv c] ginv_disjoint [OF inv] stuck_thread [OF inv _ stuck, of t]
    show ?thesis by blast
  next
    case (L_Task t)
    with lw obtain tt where "thr s t = Some tt" "currTask tt = Some w" by (auto simp: tasked_def)
    with stuck_thread [OF inv _ stuck, of t] show ?thesis by auto
  qed (use lw in simp)
  then show ?thesis using ginvD(5) [OF inv] unfolding inv_work_def
    by (metis (no_types, lifting) located.simps(4) subsetI subset_antisym)
qed

text \<open>A measure that every step of the pool's own decreases.\<close>

fun pc_weight :: "TThread option \<Rightarrow> wpc \<Rightarrow> bool \<Rightarrow> nat" where
  "pc_weight None pc onidle = 0"
| "pc_weight (Some tt) W_Top onidle = 5"
| "pc_weight (Some tt) (W_Run w) onidle = 4"
| "pc_weight (Some tt) W_Done onidle = 3"
| "pc_weight (Some tt) W_Group onidle = 2"
| "pc_weight (Some tt) W_Exit onidle = 1"
| "pc_weight (Some tt) W_Dead onidle = 0"
| "pc_weight (Some tt) W_Notify onidle = (if onidle then 1 else 8)"
| "pc_weight (Some tt) W_Wait onidle = (if tt_state tt \<noteq> idle then 6 else if onidle then 0 else 7)"

definition weight :: "gsys \<Rightarrow> tid \<Rightarrow> nat" where
  "weight s t = pc_weight (thr s t) (wpcs s t) (t \<in> idles s)"

definition signals :: "gsys \<Rightarrow> cid set" where
  "signals s = {c. \<exists>rc. clis s c = C_Signal rc}"

definition pool_measure :: "gsys \<Rightarrow> nat" where
  "pool_measure s = 3 * length (queue s) + (\<Sum>t<ntid s. weight s t) + card (signals s)"

lemma pool_measure_less:
  assumes "t < ntid s" and "ntid s' = ntid s" and "\<And>u. u \<noteq> t \<Longrightarrow> weight s' u = weight s u"
    and "3 * length (queue s') + weight s' t < 3 * length (queue s) + weight s t"
    and "signals s' = signals s"
  shows "pool_measure s' < pool_measure s"
proof -
  have "(\<Sum>u<ntid s. f u) = f t + (\<Sum>u\<in>{..<ntid s} - {t}. f u)" for f :: "tid \<Rightarrow> nat"
    using assms(1) by (intro sum.remove) auto
  moreover have "(\<Sum>u\<in>{..<ntid s} - {t}. weight s' u) = (\<Sum>u\<in>{..<ntid s} - {t}. weight s u)"
    by (rule sum.cong) (auto simp: assms(3))
  ultimately show ?thesis using assms(2,4,5) by (simp add: pool_measure_def)
qed

lemma weight_move: "weight (s\<lparr>wpcs := (wpcs s)(t := pc)\<rparr>) u = weight s u" if "u \<noteq> t"
  using that by (simp add: weight_def)

lemma decrease_move:
  assumes inv: "ginv s" and tt: "thr s t = Some tt"
    and w: "weight (s\<lparr>wpcs := (wpcs s)(t := pc)\<rparr>) t < weight s t"
  shows "pool_measure (s\<lparr>wpcs := (wpcs s)(t := pc)\<rparr>) < pool_measure s"
  using ginv_thread_lt [OF inv tt] w
  by (intro pool_measure_less [of t]) (auto simp: weight_move signals_def)

lemma decrease_group:
  assumes inv: "ginv s" and tt: "thr s t = Some tt" and pc: "wpcs s t = W_Group"
    and out: "worker_group t (grp s) tt = Inr (out, tg', tt')"
  shows "pool_measure (s\<lparr>grp := tg', thr := (thr s)(t \<mapsto> tt'), wpcs := (wpcs s)(t := pc_after out)\<rparr>)
     < pool_measure s" (is "pool_measure ?s < _")
proof -
  have lt: "t < ntid s" by (rule ginv_thread_lt [OF inv tt])
  have sg: "signals ?s = signals s" by (simp add: signals_def)
  from assms show ?thesis
  proof (cases rule: worker_group_cases)
    case (task w ws q')
    then show ?thesis
      using lt sg tt pc by (intro pool_measure_less [of t]) (auto simp: weight_def)
  next
    case exit
    then show ?thesis
      using lt sg tt pc by (intro pool_measure_less [of t]) (auto simp: weight_def)
  next
    case (sleep b f a i)
    then show ?thesis
      using lt sg tt pc by (intro pool_measure_less [of t]) (auto simp: weight_def)
  qed
qed

lemma decrease_exit:
  assumes inv: "ginv s" and tt: "thr s t = Some tt" and pc: "wpcs s t = W_Exit"
    and out: "internal_destroy_thread t (grp s) tt = Inr tg'"
  shows "pool_measure (s\<lparr>grp := tg', thr := (thr s)(t := None), wpcs := (wpcs s)(t := W_Dead)\<rparr>)
     < pool_measure s" (is "pool_measure ?s < _")
proof -
  have lt: "t < ntid s" by (rule ginv_thread_lt [OF inv tt])
  have st: "tt_state tt \<noteq> idle" using ginv_thread [OF inv tt] pc by (auto simp: thread_ok_def)
  have lk: "lists_ok (grp s) (dom (thr s))" using ginv_lists [OF inv] by simp
  have "t \<in> actives s" using running_active [OF inv tt st] by simp
  from internal_destroy_thread_active [OF lk this st] out
  obtain a where "tg' = (grp s)\<lparr>activeThrds := a\<rparr>" by auto
  then show ?thesis
    using lt tt pc by (intro pool_measure_less [of t]) (auto simp: weight_def signals_def)
qed

lemma decrease_handoff:
  assumes inv: "ginv s" and c: "clis s c = C_Handoff t w" and tt: "thr s t = Some tt"
    and free: "\<not> holds_thrd (wpcs s t)"
  shows "pool_measure (s\<lparr>thr := (thr s)(t \<mapsto> do_work_handoff w tt), clis := (clis s)(c := C_Idle)\<rparr>)
     < pool_measure s" (is "pool_measure ?s < _")
proof -
  have lt: "t < ntid s" by (rule ginv_thread_lt [OF inv tt])
  have "tt_state tt = idle" "t \<notin> idles s" using ginv_cli [OF inv c] tt ginv_disjoint [OF inv] by auto
  moreover from this have "wpcs s t = W_Wait"
    using ginv_thread [OF inv tt] free by (auto simp: thread_ok_def)
  moreover have "signals ?s = signals s" using c by (auto simp: signals_def)
  ultimately show ?thesis
    using lt tt by (intro pool_measure_less [of t]) (auto simp: weight_def do_work_handoff_def)
qed

lemma decrease_signal:
  assumes "finite (signals s)" and c: "clis s c = C_Signal rc"
  shows "pool_measure (s\<lparr>clis := (clis s)(c := C_Idle)\<rparr>) < pool_measure s" (is "pool_measure ?s < _")
proof -
  have "signals ?s = signals s - {c}" "c \<in> signals s" using c by (auto simp: signals_def)
  with assms(1) have "card (signals ?s) < card (signals s)" by (metis card_Diff1_less)
  moreover have "weight ?s u = weight s u" for u by (simp add: weight_def)
  ultimately show ?thesis by (simp add: pool_measure_def)
qed

lemma internal_decreases:
  assumes "internal s s'" and inv: "ginv s" and fin: "finite (signals s)"
  shows "pool_measure s' < pool_measure s"
  using assms(1)
proof cases
  case (top_task t tt w)
  with inv show ?thesis by (auto intro!: decrease_move simp: weight_def)
next
  case (top_none t tt)
  with inv show ?thesis by (auto intro!: decrease_move simp: weight_def)
next
  case (run t tt w)
  with ginv_thread_lt [OF inv] show ?thesis
    by (auto intro!: pool_measure_less [of t] simp: weight_def signals_def)
next
  case (free t tt)
  with ginv_thread_lt [OF inv] show ?thesis
    by (auto intro!: pool_measure_less [of t] simp: weight_def signals_def)
next
  case (group t tt out tg' tt')
  with decrease_group [OF inv] show ?thesis by simp
next
  case (notify t tt)
  have "tt_state tt = idle" using ginv_thread [OF inv notify(2)] notify(3) by (auto simp: thread_ok_def)
  with notify inv show ?thesis by (auto intro!: decrease_move simp: weight_def)
next
  case (wake t tt)
  with inv show ?thesis by (auto intro!: decrease_move simp: weight_def)
next
  case (exit t tt tg')
  with decrease_exit [OF inv] show ?thesis by simp
next
  case (handoff c t w tt)
  with decrease_handoff [OF inv] show ?thesis by simp
next
  case (signal c rc)
  with decrease_signal [OF fin] show ?thesis by simp
qed

lemma internal_signals: "internal s s' \<Longrightarrow> finite (signals s) \<Longrightarrow> finite (signals s')"
  by (erule internal.cases) (auto simp: signals_def elim: rev_finite_subset)

lemma external_signals: "external s s' \<Longrightarrow> finite (signals s) \<Longrightarrow> finite (signals s')"
proof (erule external.cases)
  fix s0 c w rc h tg'
  assume "s = s0" "s' = s0\<lparr>grp := tg',
        accepted := (if rc = POOL_SUCCESS then insert w (accepted s0) else accepted s0),
        clis := (clis s0)(c := if h \<noteq> well then C_Signal rc else C_Idle)\<rparr>" "finite (signals s)"
  moreover from this have "signals s' \<subseteq> insert c (signals s)" by (auto simp: signals_def)
  ultimately show "finite (signals s')" by (meson finite.insertI finite_subset)
qed (auto simp: signals_def elim: rev_finite_subset)

lemma greach_signals: "greach s \<Longrightarrow> finite (signals s)"
proof (induction rule: greach.induct)
  case (init mn mx flags s)
  then show ?case by (auto simp: ginit_def signals_def split: sum.splits)
qed (auto intro: internal_signals external_signals)

end
