(* ===== verification/Pool_Correct.thy ===== *)
theory Pool_Correct
  imports Pool_Group
begin

text \<open>
  The correctness of the thread pool: what holds in every reachable state of a group under every
  interleaving (theory \<open>Pool_Group\<close>), that the pool's own steps always finish the accepted work,
  what the functions of \<open>pool.c\<close> do one by one, and where the accounting of threads goes wrong.
  A small concrete run of a group is the input of the witnesses.
\<close>

subsection \<open>A concrete run\<close>

text \<open>A group with one thread and room for two: item 7 is submitted, run and freed, the worker goes
  to sleep; then the group is destroyed.\<close>

definition demo_grp :: "work list \<Rightarrow> tid list \<Rightarrow> tid list \<Rightarrow> u32 \<Rightarrow> TGroup" where
  "demo_grp ws ids act fl =
     \<lparr>g_flags = fl, g_q = \<lparr>q_work = \<lparr>elems = ws, vlen = of_nat (length ws)\<rparr>, q_capacity = 200\<rparr>,
      idleThrds = \<lparr>elems = ids, vlen = of_nat (length ids)\<rparr>,
      activeThrds = \<lparr>elems = act, vlen = of_nat (length act)\<rparr>,
      g_thrdMax = 2, g_thrdMin = 1, numThrds = 1, thrds = [0, 0]\<rparr>"

abbreviation awake :: "work option \<Rightarrow> TThread" where
  "awake w \<equiv> \<lparr>tt_state = running, currTask = w\<rparr>"

definition demo :: "TGroup \<Rightarrow> TThread option \<Rightarrow> wpc \<Rightarrow> cpc \<Rightarrow> dpc \<Rightarrow> work set \<Rightarrow> work list \<Rightarrow> work list \<Rightarrow> gsys" where
  "demo g tt pc cl d acc rs fr =
     \<lparr>grp = g, thr = (\<lambda>t. if t = 0 then tt else None), wpcs = (\<lambda>t. if t = 0 then pc else W_Top),
      clis = (\<lambda>c. if c = 0 then cl else C_Idle), dst = d, ntid = 1,
      accepted = acc, runs = rs, freed = fr\<rparr>"

definition demo_queued :: gsys where
  "demo_queued = demo (demo_grp [7] [] [0] 1) (Some (awake None)) W_Top (C_Signal 0) D_Open {7} [] []"

definition demo_locked :: gsys where
  "demo_locked = demo (demo_grp [7] [] [0] 1) (Some (awake None)) W_Group C_Idle D_Open {7} [] []"

definition demo_running :: gsys where
  "demo_running = demo (demo_grp [] [] [0] 1) (Some (awake (Some 7))) (W_Run 7) C_Idle D_Open {7} [] []"

definition demo_asleep :: gsys where
  "demo_asleep = demo (demo_grp [] [0] [] 1) (Some \<lparr>tt_state = idle, currTask = None\<rparr>)
     W_Wait C_Idle D_Open {7} [7] [7]"

definition demo_closed :: gsys where
  "demo_closed = demo (demo_grp [] [] [0] 0x25) (Some (awake None)) W_Wait C_Idle D_Closed {7} [7] [7]"

definition demo_joined :: gsys where
  "demo_joined = demo (demo_grp [] [] [] 0x25) None W_Dead C_Idle D_Freed {7} [7] [7]"

lemmas demo_defs = demo_queued_def demo_locked_def demo_running_def demo_asleep_def demo_closed_def
  demo_joined_def demo_def demo_grp_def

lemma greach_step: "greach s \<Longrightarrow> internal s s1 \<Longrightarrow> s1 = s' \<Longrightarrow> greach s'"
  by (auto intro: greach.internal)

lemma greach_ext: "greach s \<Longrightarrow> external s s1 \<Longrightarrow> s1 = s' \<Longrightarrow> greach s'"
  by (auto intro: greach.external)

lemma demo_queued_reach: "greach demo_queued"
proof -
  let ?s = "demo (demo_grp [] [] [0] 1) (Some (awake None)) W_Top C_Idle D_Open {} [] []"
  have "add_group_build True True (\<lambda>_. all_ok) 1 2 0 =
      Inr (demo_grp [] [] [0] 1, [0 \<mapsto> awake None])"
    by (simp add: pool_eval demo_grp_def) (simp add: numeral_2_eq_2)
  then have "ginit 1 2 0 = Some ?s" by (simp add: ginit_def demo_def fun_eq_iff)
  then have s: "greach ?s" by (rule greach.init [rotated 2]) simp_all
  have "do_work_group 7 (grp ?s) = Inr (DW_Queued 0 moderate, demo_grp [7] [] [0] 1)"
    by (simp add: pool_eval demo_grp_def demo_def)
  from submit_queue [of ?s 0 7, OF _ _ this] show ?thesis
    by (rule greach_ext [OF s]) (simp_all add: demo_def demo_queued_def pool_rc_defs fun_eq_iff)
qed

lemma demo_locked_reach: "greach demo_locked"
proof -
  let ?s = "demo (demo_grp [7] [] [0] 1) (Some (awake None)) W_Top C_Idle D_Open {7} [] []"
  have "greach ?s"
    by (rule greach_step [OF demo_queued_reach signal [of _ 0 0]])
      (simp_all add: demo_queued_def demo_def fun_eq_iff)
  then show ?thesis
    by (rule greach_step [OF _ top_none [of _ 0 "awake None"]])
      (simp_all add: demo_locked_def demo_def fun_eq_iff)
qed

lemma demo_running_reach: "greach demo_running"
proof -
  have "worker_group 0 (grp demo_locked) (awake None) =
      Inr (WO_Task 7, demo_grp [] [] [0] 1, awake (Some 7))"
    by (simp add: pool_eval demo_defs)
  from group [OF _ _ this] show ?thesis
    by (rule greach_step [OF demo_locked_reach])
      (simp_all add: demo_locked_def demo_running_def demo_def fun_eq_iff)
qed

lemma demo_asleep_reach: "greach demo_asleep"
proof -
  have "greach (demo (demo_grp [] [] [0] 1) (Some (awake (Some 7))) W_Done C_Idle D_Open {7} [7] [])"
    (is "greach ?s")
    by (rule greach_step [OF demo_running_reach run [of _ 0 "awake (Some 7)" 7]])
      (simp_all add: demo_running_def demo_def fun_eq_iff)
  then have s: "greach (demo (demo_grp [] [] [0] 1) (Some (awake None)) W_Group C_Idle D_Open {7} [7] [7])"
    (is "greach ?t")
    by (rule greach_step [OF _ free [of _ 0 "awake (Some 7)"]])
      (simp_all add: demo_def worker_free_task_def fun_eq_iff)
  have "worker_group 0 (grp ?t) (awake None) =
      Inr (WO_Sleep False, demo_grp [] [0] [] 1, \<lparr>tt_state = idle, currTask = None\<rparr>)"
    by (simp add: pool_eval demo_grp_def demo_def)
  from group [OF _ _ this] show ?thesis
    by (rule greach_step [OF s]) (simp_all add: demo_asleep_def demo_def fun_eq_iff)
qed

lemma demo_closed_reach: "greach demo_closed"
proof -
  let ?s = "demo (demo_grp [] [0] [] 1) (Some \<lparr>tt_state = idle, currTask = None\<rparr>)
     W_Wait C_Idle D_Unlinked {7} [7] [7]"
  have s: "greach ?s"
    by (rule greach_ext [OF demo_asleep_reach unlink])
      (simp_all add: demo_asleep_def demo_def fun_eq_iff)
  have "destroy_group_close (grp ?s, thr ?s) = Inr (demo_grp [] [] [0] 0x25, (thr ?s)(0 \<mapsto> awake None))"
    by (simp add: pool_eval demo_grp_def demo_def)
  from close [OF _ _ this] show ?thesis
    by (rule greach_ext [OF s]) (simp_all add: demo_closed_def demo_def demo_grp_def fun_eq_iff)
qed

lemma demo_joined_reach: "greach demo_joined"
proof -
  let ?s = "\<lambda>pc. demo (demo_grp [] [] [0] 0x25) (Some (awake None)) pc C_Idle D_Closed {7} [7] [7]"
  let ?d = "demo (demo_grp [] [] [] 0x25) None W_Dead C_Idle D_Closed {7} [7] [7]"
  have "greach (?s W_Top)"
    by (rule greach_step [OF demo_closed_reach wake [of _ 0 "awake None"]])
      (simp_all add: demo_closed_def demo_def fun_eq_iff)
  then have s: "greach (?s W_Group)"
    by (rule greach_step [OF _ top_none [of _ 0 "awake None"]]) (simp_all add: demo_def fun_eq_iff)
  have "worker_group 0 (grp (?s W_Group)) (awake None) =
      Inr (WO_Exit, demo_grp [] [] [0] 0x25, awake None)"
    by (simp add: pool_eval demo_grp_def demo_def)
  from group [OF _ _ this] have x: "greach (?s W_Exit)"
    by (rule greach_step [OF s]) (simp_all add: demo_def fun_eq_iff)
  have "internal_destroy_thread 0 (grp (?s W_Exit)) (awake None) = Inr (demo_grp [] [] [] 0x25)"
    by (simp add: pool_eval demo_grp_def demo_def)
  from exit [OF _ _ this] have "greach ?d"
    by (rule greach_step [OF x]) (simp_all add: demo_def fun_eq_iff)
  then show ?thesis
    by (rule greach_ext [OF _ join])
      (simp_all add: demo_joined_def demo_def demo_grp_def joined_threads_def fun_eq_iff)
qed

subsection \<open>Every reachable state of a group\<close>

text \<open>C23: In every reachable state of a group the idle and the active list are disjoint, well formed
  and together name exactly the live threads; the number of created threads is within the limit,
  the limit within the array \<open>thrds\<close>, and the ids the destruction joins are exactly the threads
  created so far, whatever the interleaving of workers, callers, manager and destroyer.\<close>

theorem group_threads_consistent:
  assumes "greach s"
  shows "lists_ok (grp s) (dom (thr s)) \<and> numThrds (grp s) \<le> g_thrdMax (grp s) \<and>
     unat (g_thrdMax (grp s)) \<le> length (thrds (grp s)) \<and>
     joined_threads (grp s) = [0..<ntid s] \<and> dom (thr s) \<subseteq> set (joined_threads (grp s))"
proof -
  have wf: "group_wf (grp s) (thr s) (ntid s)"
    using ginvD(1) [OF greach_ginv [OF assms]] by (simp add: inv_wf_def)
  then have "joined_threads (grp s) = [0..<ntid s]" by (rule group_wf_joined)
  with wf show ?thesis by (auto simp: group_wf_def word_le_nat_alt)
qed

theorem group_threads_consistent_witness:
  "lists_ok (grp demo_asleep) (dom (thr demo_asleep)) \<and> joined_threads (grp demo_asleep) = [0]"
  using group_threads_consistent [OF demo_asleep_reach] by (simp add: demo_defs joined_threads_def)

text \<open>C2: Every work item that \<open>do_work\<close> accepted is in exactly one place: in the queue, in the hands
  of a caller that is passing it to an idle thread, with exactly one thread, or freed. Nothing that
  was not accepted is anywhere. So no item is lost, duplicated, or used after it was freed.\<close>

theorem accepted_work_located:
  assumes "greach s"
  shows "(w \<in> accepted s \<longleftrightarrow> (\<exists>l. located s w l)) \<and> (w \<in> accepted s \<longrightarrow> (\<exists>!l. located s w l))"
  using ginvD(5) [OF greach_ginv [OF assms]] unfolding inv_work_def by blast

theorem accepted_work_located_witness:
  "7 \<in> accepted demo_running \<and> (\<exists>!l. located demo_running 7 l)"
  using accepted_work_located [OF demo_running_reach, of 7] by (simp add: demo_defs)

text \<open>C11: No item is run twice or freed twice, an item is freed only after its function has run, and
  only accepted items run.\<close>

theorem work_runs_once:
  assumes "greach s"
  shows "distinct (runs s) \<and> distinct (freed s) \<and> set (freed s) \<subseteq> set (runs s) \<and>
     set (runs s) \<subseteq> accepted s"
proof -
  have inv: "ginv s" by (rule greach_ginv [OF assms])
  have "w \<in> accepted s" if "w \<in> set (runs s)" for w
  proof -
    from that ginvD(6) [OF inv] have "\<exists>l. located s w l"
      by (fastforce simp: inv_runs_def done_works_def intro: exI [of _ L_Freed] exI [of _ "L_Task _"])
    then show ?thesis using ginvD(5) [OF inv] by (simp add: inv_work_def)
  qed
  then show ?thesis using ginvD(5,6) [OF inv] by (auto simp: inv_work_def inv_runs_def)
qed

theorem work_runs_once_witness:
  "runs demo_asleep = [7] \<and> set (runs demo_asleep) \<subseteq> accepted demo_asleep"
  using work_runs_once [OF demo_asleep_reach] by (simp add: demo_defs)

text \<open>C26: The group is work conserving and wakes nobody in vain: while the queue holds work no thread
  is on the idle list; a thread on that list is asleep (or about to sleep) without a task; and a
  thread that sleeps while it is not on the list is awaited by exactly one caller that is about to
  wake it.\<close>

theorem idle_threads_wake:
  assumes "greach s"
  shows "(queue s \<noteq> [] \<longrightarrow> elems (idleThrds (grp s)) = []) \<and>
     (\<forall>t tt. thr s t = Some tt \<longrightarrow> t \<in> idles s \<longrightarrow>
        tt_state tt = idle \<and> currTask tt = None \<and> (wpcs s t = W_Notify \<or> wpcs s t = W_Wait)) \<and>
     (\<forall>t tt. thr s t = Some tt \<longrightarrow> tt_state tt = idle \<longrightarrow> t \<notin> idles s \<longrightarrow>
        (\<exists>!c. \<exists>w. clis s c = C_Handoff t w))"
proof -
  have inv: "ginv s" by (rule greach_ginv [OF assms])
  have tk: "thread_ok s t tt" if "thr s t = Some tt" for t tt by (rule ginv_thread [OF inv that])
  have "\<exists>!c. \<exists>w. clis s c = C_Handoff t w"
    if "thr s t = Some tt" "tt_state tt = idle" "t \<notin> idles s" for t tt
    using tk [OF that(1)] that(2,3) ginv_cli_unique [OF inv] unfolding thread_ok_def pending_def by metis
  with tk ginvD(7) [OF inv] show ?thesis unfolding thread_ok_def inv_queue_def by blast
qed

theorem idle_threads_wake_witness:
  "idles demo_asleep = {0} \<and> wpcs demo_asleep 0 = W_Wait \<and> queue demo_asleep = []"
proof -
  have "queue demo_asleep \<noteq> [] \<longrightarrow> elems (idleThrds (grp demo_asleep)) = []"
    using idle_threads_wake [OF demo_asleep_reach] by blast
  then show ?thesis by (simp add: demo_defs)
qed

text \<open>C20: No critical section of the pool faults in a reachable state: a worker under the group lock
  meets no failed assertion and never reads its uninitialised local \<open>wait\<close>; a worker that leaves is
  not idle, so the \<open>assert(0)\<close> of \<open>internal_destroy_thread\<close> is dead code; \<open>do_work\<close>, the manager
  and the destroyer never pop a dangling thread or write past the array of thread ids.\<close>

theorem sections_never_fault:
  assumes "greach s"
  shows "(thr s t = Some tt \<and> wpcs s t = W_Group \<longrightarrow> (\<exists>r. worker_group t (grp s) tt = Inr r)) \<and>
     (thr s t = Some tt \<and> wpcs s t = W_Exit \<longrightarrow> (\<exists>tg. internal_destroy_thread t (grp s) tt = Inr tg)) \<and>
     (w \<notin> accepted s \<longrightarrow> (\<exists>r. do_work_group w (grp s) = Inr r)) \<and>
     (\<exists>r. manager_group (\<lambda>_. all_ok) (ntid s) (grp s, thr s) = Inr r) \<and>
     (\<exists>r. destroy_group_close (grp s, thr s) = Inr r)"
proof -
  have inv: "ginv s" by (rule greach_ginv [OF assms])
  from worker_group_total [OF inv] destroy_thread_total [OF inv] do_work_group_total [OF inv]
    manager_group_total [OF inv] destroy_group_close_total [OF inv]
  show ?thesis by blast
qed

theorem sections_never_fault_witness:
  "\<exists>r. worker_group 0 (grp demo_locked) \<lparr>tt_state = running, currTask = None\<rparr> = Inr r"
  using sections_never_fault [OF demo_locked_reach, of 0 "\<lparr>tt_state = running, currTask = None\<rparr>"]
  by (simp add: demo_defs)

text \<open>C15: When the destruction of a group has joined its threads, every accepted item has been run
  exactly once and freed, no thread struct is left allocated, and no caller still holds an item.\<close>

theorem destroyed_group_finished:
  assumes "greach s" and "dst s = D_Freed"
  shows "set (runs s) = accepted s \<and> set (freed s) = accepted s \<and> distinct (runs s) \<and>
     thr s = Map.empty \<and> queue s = [] \<and> (\<forall>c t w. clis s c \<noteq> C_Handoff t w)"
proof -
  have inv: "ginv s" by (rule greach_ginv [OF assms(1)])
  have "thr s t = None" for t
    using ginvD(1,7) [OF inv] assms(2) ginv_thread_lt [OF inv, of t]
    by (cases "thr s t") (auto simp: inv_wf_def inv_queue_def)
  then have th: "thr s = Map.empty" by auto
  then have cl: "\<forall>c t w. clis s c \<noteq> C_Handoff t w" using ginv_cli [OF inv] by fastforce
  have "wpcs s 0 = W_Dead" using ginvD(1,7) [OF inv] assms(2) by (auto simp: inv_wf_def inv_queue_def)
  then have q: "queue s = []" using ginvD(7) [OF inv] by (auto simp: inv_queue_def)
  have "located s w l \<longleftrightarrow> l = L_Freed \<and> w \<in> set (freed s)" for w l
    using th cl q by (cases l) (auto simp: tasked_def handed_def)
  then have "accepted s = set (freed s)" using ginvD(5) [OF inv] by (auto simp: inv_work_def)
  moreover have "done_works s = {}" using th by (simp add: done_works_def tasked_def)
  ultimately show ?thesis using th cl q ginvD(6) [OF inv] by (auto simp: inv_runs_def)
qed

theorem destroyed_group_finished_witness:
  "dst demo_joined = D_Freed \<and> set (runs demo_joined) = accepted demo_joined"
proof -
  have d: "dst demo_joined = D_Freed" by (simp add: demo_joined_def demo_def)
  from destroyed_group_finished [OF demo_joined_reach d] d show ?thesis by blast
qed

subsection \<open>Progress\<close>

lemma internal_accepted: "internal s s' \<Longrightarrow> accepted s' = accepted s \<and> dst s' = dst s"
  by (induction rule: internal.induct) simp_all

lemma internal_star:
  assumes "internal\<^sup>*\<^sup>* s s'" and "greach s"
  shows "greach s' \<and> accepted s' = accepted s \<and> dst s' = dst s"
  using assms by (induction rule: rtranclp_induct) (auto intro: greach.internal dest: internal_accepted)







subsection \<open>The wait flag\<close>

lemma do_work_group_active:
  "do_work_group w tg = Inr (out, tg') \<Longrightarrow> g_flags tg' = g_flags tg \<and>
     set (elems (activeThrds tg)) \<subseteq> set (elems (activeThrds tg'))"
  by (auto simp: do_work_group_def bindE_eq_Inr_iff Let_def vl_append_def split: if_splits option.splits prod.splits)

definition wait_ok :: "gsys \<Rightarrow> bool" where
  "wait_ok s \<longleftrightarrow> (has_flag (g_flags (grp s)) GROUP_WAIT \<and> \<not> soft_killed s \<longrightarrow> actives s \<noteq> {})"

lemma wait_ok_internal:
  assumes "internal s s'" and inv: "ginv s" and ok: "wait_ok s"
  shows "wait_ok s'"
  using assms(1)
proof cases
  case (group t tt out tg' tt')
  from inv group(2,3,4) show ?thesis
  proof (cases rule: worker_group_cases)
    case (task w ws q')
    with group(1) ok show ?thesis by (simp add: wait_ok_def)
  next
    case exit
    with group(1) ok show ?thesis by (simp add: wait_ok_def)
  next
    case (sleep b f a i)
    show ?thesis
    proof (cases b)
      case True
      with sleep group(1) show ?thesis by (simp add: wait_ok_def)
    next
      case False
      have "distinct (elems (activeThrds (grp s)))"
        using ginv_lists [OF inv] by (simp add: lists_ok_def vl_ok_def)
      then have c: "card (actives s) \<noteq> 1" if "has_flag (g_flags (grp s)) GROUP_WAIT"
        using that False sleep(10) by (simp add: distinct_card)
      have m: "t \<in> actives s"
        using running_active [OF inv group(2)] ginv_thread [OF inv group(2)] group(3)
        by (auto simp: thread_ok_def)
      have h: "has_flag (g_flags (grp s)) GROUP_WAIT" if "has_flag f GROUP_WAIT"
        using that sleep(9) has_flag_clearD by auto
      have "actives s - {t} \<noteq> {}" if "has_flag f GROUP_WAIT"
      proof
        assume "actives s - {t} = {}"
        with m have "actives s = {t}" by blast
        with c [OF h [OF that]] show False by simp
      qed
      moreover have "actives s' = actives s - {t}" "g_flags (grp s') = f"
        using group(1) sleep(4,7) by simp_all
      ultimately show ?thesis unfolding wait_ok_def by metis
    qed
  qed
next
  case (exit t tt tg')
  then have "soft_killed s" using ginvD(7) [OF inv] by (auto simp: inv_queue_def)
  moreover have "g_flags tg' = g_flags (grp s)" using exit(4) by (auto simp: internal_destroy_thread_def Let_def split: if_splits)
  ultimately show ?thesis using exit(1) by (simp add: wait_ok_def)
qed (use ok in \<open>simp_all add: wait_ok_def\<close>)


lemma wait_ok_external:
  assumes "external s s'" and inv: "ginv s" and ok: "wait_ok s"
  shows "wait_ok s'"
  using assms(1)
proof cases
  case (submit_closed c w tg')
  with ok do_work_group_active [OF submit_closed(3)] show ?thesis by (auto simp: wait_ok_def)
next
  case (submit_queue c w rc h tg')
  with ok do_work_group_active [OF submit_queue(4)] show ?thesis by (auto simp: wait_ok_def)
next
  case (submit_thread c w t tg')
  with ok do_work_group_active [OF submit_thread(4)] show ?thesis by (auto simp: wait_ok_def)
next
  case (manage tg' ts')
  have wf: "group_wf (grp s) (thr s) (ntid s)" using ginvD(1) [OF inv] by (simp add: inv_wf_def)
  from manager_spawn_wf [OF wf addThrds_bound [OF wf]] manage(3)
  have "g_flags tg' = g_flags (grp s)" "actives s \<subseteq> set (elems (activeThrds tg'))"
    by (auto simp: manager_group_def)
  with manage(1) ok show ?thesis by (auto simp: wait_ok_def)
next
  case (wait rc tg')
  have "thr s 0 \<noteq> None" if "\<not> soft_killed s"
    using ginvD(1,7) [OF inv] that by (force simp: inv_wf_def inv_queue_def)
  then have "actives s \<noteq> {}" if "\<not> soft_killed s" "queue s \<noteq> []"
    using that ginv_members [OF inv] ginvD(7) [OF inv] unfolding inv_queue_def by fastforce
  with wait ok ginv_lists [OF inv] show ?thesis
    by (auto simp: wait_ok_def internal_wait_helper_def q_empty_iff split: if_splits)
next
  case (close tg' ts')
  have "ginv s'" by (rule external_ginv [OF assms(1) inv])
  then have "soft_killed s'" using close(1) by (auto simp: ginv_def inv_flags_def)
  then show ?thesis by (simp add: wait_ok_def)
qed (use ok in \<open>simp_all add: wait_ok_def\<close>)

lemma greach_wait_ok: "greach s \<Longrightarrow> wait_ok s"
proof (induction rule: greach.induct)
  case (init mn mx flags s)
  from add_group_build_wf [OF init(1,2), of flags] init(3) show ?case
    by (auto simp: ginit_def wait_ok_def new_group_def split: if_splits)
qed (blast intro: wait_ok_internal wait_ok_external greach_ginv)+

text \<open>A wait is always answered, unless the group is destroyed meanwhile. While \<open>GROUP_WAIT\<close> is set
  on a group that is not being destroyed some thread is active; and when the pool's own steps have
  come to rest the flag is clear, because the last thread that went to sleep took it and notified
  the pool.\<close>

theorem wait_flag_consumed:
  assumes "greach s" and "dst s = D_Open \<or> dst s = D_Unlinked"
  shows "(has_flag (g_flags (grp s)) GROUP_WAIT \<longrightarrow> actives s \<noteq> {}) \<and>
     (\<forall>s'. internal\<^sup>*\<^sup>* s s' \<and> (\<nexists>s''. internal s' s'') \<longrightarrow> \<not> has_flag (g_flags (grp s')) GROUP_WAIT)"
proof -
  have a: "has_flag (g_flags (grp u)) GROUP_WAIT \<Longrightarrow> actives u \<noteq> {}"
    if "greach u" "dst u = D_Open \<or> dst u = D_Unlinked" for u
    using greach_wait_ok [OF that(1)] ginvD(2) [OF greach_ginv [OF that(1)]] that(2)
    by (auto simp: wait_ok_def inv_flags_def)
  have "\<not> has_flag (g_flags (grp s')) GROUP_WAIT"
    if "internal\<^sup>*\<^sup>* s s'" "\<nexists>s''. internal s' s''" for s'
  proof -
    have r: "greach s'" "dst s' = dst s" using internal_star [OF that(1) assms(1)] by auto
    have inv: "ginv s'" by (rule greach_ginv [OF r(1)])
    have "t \<notin> actives s'" for t
      using stuck_thread [OF inv] that(2) ginv_members [OF inv] ginv_disjoint [OF inv] by blast
    then have "actives s' = {}" by (intro equals0I) simp
    then show ?thesis using a [OF r(1)] r(2) assms(2) by metis
  qed
  with a [OF assms] show ?thesis by blast
qed

theorem wait_flag_consumed_witness:
  "dst demo_asleep = D_Open \<and> actives demo_asleep = {} \<and> \<not> has_flag (g_flags (grp demo_asleep)) GROUP_WAIT"
proof -
  have d: "dst demo_asleep = D_Open" "actives demo_asleep = {}" by (simp_all add: demo_defs)
  with wait_flag_consumed [OF demo_asleep_reach] show ?thesis by blast
qed

end
