(* ===== verification/Pool_Limits.thy ===== *)
theory Pool_Limits
  imports Pool
begin

text \<open>
  The functions of \<open>pool.c\<close> one by one: the queue, \<open>do_work\<close> on every branch, the admission
  of groups and the accounting of their threads, the manager, \<open>wait_pool\<close> and the loop of
  \<open>destroy_pool\<close>.
\<close>

subsection \<open>The queue and do_work\<close>

text \<open>The work queue of a group is a bounded first-in first-out queue: up to its capacity, items
  that are appended to an empty queue are all accepted and come back in order; at capacity the next
  one is refused with \<open>POOL_ERROR\<close> and the queue is unchanged.\<close>

theorem queue_bounded_fifo:
  assumes "distinct ws" and "length ws \<le> unat c"
  shows "\<exists>q. put_all q_put ws (q_init c) = Inr q \<and> q_elems q = ws \<and>
     (\<exists>q'. drain q_fetch (Suc (length ws)) q = Inr (ws, q') \<and> q_elems q' = []) \<and>
     (length ws = unat c \<longrightarrow> q_append q w = (POOL_ERROR, q))"
proof -
  have i: "q_elems (q_init c) = []" "q_capacity (q_init c) = c" by (simp_all add: q_init_def vl_init_def)
  from wq.put_all_ok [OF q_ok_init [of c] assms(1)] i assms(2) obtain q where
    q: "put_all q_put ws (q_init c) = Inr q" "q_ok q" "q_elems q = ws"
    by (auto simp: q_fresh_def q_room_def)
  have "q_capacity q' = c" if "put_all q_put xs q0 = Inr q'" "q_capacity q0 = c" for xs q0 q'
    using that
    by (induction xs arbitrary: q0)
      (auto simp: bindE_eq_Inr_iff q_put_def q_append_def split: if_splits)
  from this [OF q(1) i(2)] q show ?thesis
    using wq.drain_ok [OF q(2), of "Suc (length ws)"] q_append_full [OF q(2)] by auto
qed

theorem queue_bounded_fifo_witness:
  "\<exists>q. put_all q_put [4, 2] (q_init 2) = Inr q \<and> q_elems q = [4, 2] \<and> q_append q 9 = (POOL_ERROR, q)"
  using queue_bounded_fifo [of "[4, 2]" 2 9] by auto

text \<open>What a call of \<open>do_work\<close> does, on every branch, to a well formed group: a closed group
  refuses; otherwise an idle thread, if there is one, gets the item directly, becomes running and
  moves to the active list; otherwise the item is appended to the queue, and the manager is woken;
  when the queue is full the call returns \<open>GROUP_FULL\<close>, keeps the queue as it was, and the manager
  is still woken.\<close>

theorem do_work_branches:
  assumes "group_wf tg ts n" and "w \<notin> set (q_elems (g_q tg))" and "0 < q_capacity (g_q tg)"
  shows "\<exists>rc tg' ts' tp'. do_work (Some w) (Some (tg, ts)) tp = Inr (rc, Some (tg', ts'), tp') \<and>
    (if has_flag (g_flags tg) GROUP_CLOSE then rc = POOL_ERROR \<and> tg' = tg \<and> ts' = ts \<and> tp' = tp
     else case elems (idleThrds tg) of
       t # us \<Rightarrow> rc = POOL_SUCCESS \<and> tp' = tp \<and> g_q tg' = g_q tg \<and> elems (idleThrds tg') = us \<and>
          t \<in> set (elems (activeThrds tg')) \<and> lists_ok tg' (dom ts) \<and>
          ts' = ts(t \<mapsto> \<lparr>tt_state = running, currTask = Some w\<rparr>)
     | [] \<Rightarrow> ts' = ts \<and> p_state tp' = running \<and> group_wf tg' ts n \<and>
          (if length (q_elems (g_q tg)) < unat (q_capacity (g_q tg))
           then rc = POOL_SUCCESS \<and> q_elems (g_q tg') = q_elems (g_q tg) @ [w]
           else rc = GROUP_FULL \<and> tg' = tg))"
proof (cases "has_flag (g_flags tg) GROUP_CLOSE")
  case True
  then show ?thesis by (auto simp: do_work_def do_work_group_closed)
next
  case nc: False
  have lk: "lists_ok tg (dom ts)" and qk: "q_ok (g_q tg)" using assms(1) by (auto simp: group_wf_def)
  show ?thesis
  proof (cases "elems (idleThrds tg)")
    case (Cons t us)
    then have "t \<in> dom ts" using lk by (auto simp: lists_ok_def)
    then obtain tt where tt: "ts t = Some tt" by blast
    have "do_work_handoff w tt = \<lparr>tt_state = running, currTask = Some w\<rparr>"
      by (cases tt) (simp add: do_work_handoff_def)
    note h = this
    from do_work_group_thread [OF nc lk Cons, of w] obtain i a where
      d: "do_work_group w tg = Inr (DW_Thread t, tg\<lparr>idleThrds := i, activeThrds := a\<rparr>)"
        "lists_ok (tg\<lparr>idleThrds := i, activeThrds := a\<rparr>) (dom ts)" "elems i = us"
        "t \<in> set (elems a)" by blast
    have "do_work (Some w) (Some (tg, ts)) tp = Inr (POOL_SUCCESS,
        Some (tg\<lparr>idleThrds := i, activeThrds := a\<rparr>, ts(t \<mapsto> \<lparr>tt_state = running, currTask = Some w\<rparr>)), tp)"
      using d(1) tt h by (simp add: do_work_def)
    then show ?thesis using nc Cons d(2-4) by simp
  next
    case Nil
    have vi: "vl_ok (idleThrds tg)" using lk by (simp add: lists_ok_def)
    from do_work_group_queue [OF nc vi Nil qk assms(2)] obtain rc q' where
      d: "do_work_group w tg = Inr (DW_Queued rc (internal_health_check (tg\<lparr>g_q := q'\<rparr>)), tg\<lparr>g_q := q'\<rparr>)"
        "q_ok q'" "if length (q_elems (g_q tg)) < unat (q_capacity (g_q tg))
      then rc = POOL_SUCCESS \<and> q_elems q' = q_elems (g_q tg) @ [w]
      else rc = GROUP_FULL \<and> q' = g_q tg" by blast
    have "q_elems q' \<noteq> []"
      using d(3) assms(3) by (auto simp: word_less_nat_alt split: if_splits)
    then have "internal_health_check (tg\<lparr>g_q := q'\<rparr>) \<noteq> well"
      using d(2) by (simp add: internal_health_check_def q_empty_iff)
    then have "do_work (Some w) (Some (tg, ts)) tp = Inr (rc, Some (tg\<lparr>g_q := q'\<rparr>, ts), do_work_signal tp)"
      using d(1) by (simp add: do_work_def)
    moreover have "p_state (do_work_signal tp) = running" by (simp add: do_work_signal_def)
    moreover have "q' = g_q tg \<Longrightarrow> tg\<lparr>g_q := q'\<rparr> = tg" by (cases tg) simp
    moreover have "group_wf (tg\<lparr>g_q := q'\<rparr>) ts n" by (rule group_wf_q [OF assms(1) d(2)])
    ultimately show ?thesis
      using d(3) nc Nil by (intro exI [of _ rc] exI [of _ "tg\<lparr>g_q := q'\<rparr>"] exI [of _ ts]
          exI [of _ "do_work_signal tp"]) (simp split: if_splits)
  qed
qed

definition small_group :: "work list \<Rightarrow> TGroup" where
  "small_group ws =
     \<lparr>g_flags = GROUP_DYNAMIC, g_q = \<lparr>q_work = \<lparr>elems = ws, vlen = of_nat (length ws)\<rparr>, q_capacity = 2\<rparr>,
      idleThrds = \<lparr>elems = [], vlen = 0\<rparr>, activeThrds = \<lparr>elems = [0], vlen = 1\<rparr>,
      g_thrdMax = 3, g_thrdMin = 1, numThrds = 1, thrds = [0, 0, 0]\<rparr>"

definition small_pool :: TPool where
  "small_pool = \<lparr>totalThrds = 0, p_thrdMax = 4, p_groups = vl_init, groupsWaiting = 0,
     p_flags = 0, p_state = dead, p_manager = 0\<rparr>"

lemma small_group_wf:
  "group_wf (small_group [5]) [0 \<mapsto> \<lparr>tt_state = running, currTask = None\<rparr>] 1"
  by (auto simp: small_group_def group_wf_def lists_ok_def vl_ok_def q_ok_def)

theorem do_work_branches_witness:
  "\<exists>tg' ts' tp'. do_work (Some 6) (Some (small_group [5], [0 \<mapsto> \<lparr>tt_state = running, currTask = None\<rparr>])) small_pool =
     Inr (POOL_SUCCESS, Some (tg', ts'), tp') \<and> q_elems (g_q tg') = [5, 6] \<and> p_state tp' = running"
  using do_work_branches [OF small_group_wf, of 6 small_pool]
  by (auto simp: small_group_def GROUP_DYNAMIC_def GROUP_CLOSE_def has_flag_def)

subsection \<open>Admission and accounting of threads\<close>

lemma one_le_iff: "1 \<le> n \<longleftrightarrow> n \<noteq> 0" for n :: u32
  by (simp add: word_le_nat_alt Suc_le_eq unat_gt_0)

text \<open>What \<open>add_group\<close> reserves: at least one thread, at most what is left and what is asked for.\<close>

lemma add_group_reserve_eq:
  "add_group_reserve tp mn mx =
     (if max 1 mn \<le> min mx (p_thrdMax tp - totalThrds tp)
      then Some (max 1 mn, min mx (p_thrdMax tp - totalThrds tp)) else None)"
proof -
  have m: "(if mn = 0 then 1 else mn) = max 1 mn" by (auto simp: max_def one_le_iff)
  have a: "(if p_thrdMax tp - totalThrds tp < mx then p_thrdMax tp - totalThrds tp else mx) =
      min mx (p_thrdMax tp - totalThrds tp)" by (auto simp: min_def)
  have "x = 0 \<or> max 1 mn > x \<longleftrightarrow> \<not> max 1 mn \<le> x" for x :: u32
    by (metis max.bounded_iff not_le one_le_iff)
  then show ?thesis unfolding add_group_reserve_def Let_def m a by simp
qed

lemma add_group_reserve_SomeD:
  assumes "add_group_reserve tp mn mx = Some (mn', mx')"
  shows "0 < mn' \<and> mn' \<le> mx' \<and> mx' \<le> p_thrdMax tp - totalThrds tp \<and> mx' \<le> mx"
proof -
  have "0 < max 1 mn" by (metis max.bounded_iff not_le one_le_iff order_refl)
  with assms show ?thesis by (auto simp: add_group_reserve_eq split: if_splits)
qed

text \<open>C31: When nobody interferes, \<open>add_group\<close> succeeds exactly when the minimum (at least one) fits
  into what is left of the pool's limit and the requested maximum; the new group is well formed, its
  first threads run without a task, its limit is at most the share charged to the pool, and the sum
  of the charges stays within the limit of the pool without wrapping around.\<close>

theorem add_group_admission:
  fixes mn mx :: u32
  assumes "totalThrds tp \<le> p_thrdMax tp"
  defines "avail \<equiv> min mx (p_thrdMax tp - totalThrds tp)"
  shows "if max 1 mn \<le> avail
     then \<exists>tp' tg ts. add_group True (\<lambda>_. all_ok) g mn mx flags (Some tp) = Inr (Some tp', Some (tg, ts)) \<and>
        group_wf tg ts (unat (max 1 mn)) \<and> g_thrdMax tg \<le> avail \<and> elems (idleThrds tg) = [] \<and>
        unat (totalThrds tp') = unat (totalThrds tp) + unat avail \<and>
        totalThrds tp' \<le> p_thrdMax tp' \<and> elems (p_groups tp') = elems (p_groups tp) @ [g]
     else add_group True (\<lambda>_. all_ok) g mn mx flags (Some tp) = Inr (Some tp, None)"
proof (cases "max 1 mn \<le> avail")
  case True
  then have r: "add_group_reserve tp mn mx = Some (max 1 mn, avail)"
    by (simp add: add_group_reserve_eq avail_def)
  have pos: "0 < max 1 mn" and le: "avail \<le> p_thrdMax tp - totalThrds tp"
    using add_group_reserve_SomeD [OF r] by auto
  from add_group_build_wf [OF pos True] obtain tg ts where
    b: "add_group_build True True (\<lambda>_. all_ok) (max 1 mn) avail flags = Inr (tg, ts)"
      "group_wf tg ts (unat (max 1 mn))" "elems (idleThrds tg) = []"
      "g_thrdMax tg = g_thrdMax (new_group (max 1 mn) avail flags)" by blast
  have s: "unat avail \<le> unat (p_thrdMax tp) - unat (totalThrds tp)"
    using assms(1) le by (simp add: word_le_nat_alt unat_sub)
  then have t: "unat (totalThrds tp + avail) = unat (totalThrds tp) + unat avail"
    using assms(1) unat_lt_pow [of "p_thrdMax tp"] by (simp add: unat_word_ariths word_le_nat_alt)
  then have u: "totalThrds tp + avail \<le> p_thrdMax tp"
    using s assms(1) by (simp add: word_le_nat_alt)
  have "\<exists>tp'. add_group_link True g avail tp = Inr tp' \<and> totalThrds tp' = totalThrds tp + avail \<and>
      p_thrdMax tp' = p_thrdMax tp \<and> elems (p_groups tp') = elems (p_groups tp) @ [g]"
    by (simp add: add_group_link_def vl_append_def)
  then obtain tp' where l: "add_group_link True g avail tp = Inr tp'" "totalThrds tp' = totalThrds tp + avail"
    "p_thrdMax tp' = p_thrdMax tp" "elems (p_groups tp') = elems (p_groups tp) @ [g]"
    by blast
  have "g_thrdMax tg \<le> avail" using b(4) True by (simp add: new_group_def)
  moreover have "add_group True (\<lambda>_. all_ok) g mn mx flags (Some tp) = Inr (Some tp', Some (tg, ts))"
    using r b(1) l(1) by (simp add: add_group_def)
  ultimately show ?thesis using True b(2,3) t u l(2-4) by simp
next
  case False
  then have "add_group_reserve tp mn mx = None" by (simp add: add_group_reserve_eq avail_def)
  then show ?thesis using False by (simp add: add_group_def)
qed

theorem add_group_admission_witness:
  "\<exists>tp' tg ts. add_group True (\<lambda>_. all_ok) 0 1 3 0 (Some small_pool) = Inr (Some tp', Some (tg, ts)) \<and>
     unat (totalThrds tp') = 3"
  using add_group_admission [of small_pool 1 3 0 0] by (auto simp: small_pool_def)

text \<open>The admission is not atomic. The room is computed in one critical section and charged in a
  later one; when a second call of \<open>add_group\<close> runs in between, both are admitted: the threads
  charged exceed the limit of the pool, the next computation of the room wraps around, and a third
  group of any size is admitted.\<close>

theorem add_group_race:
  "\<exists>tp1 tp2. add_group_reserve small_pool 1 4 = Some (1, 4) \<and> add_group_link True 0 4 small_pool = Inr tp1 \<and>
     add_group_link True 1 4 tp1 = Inr tp2 \<and> totalThrds tp2 > p_thrdMax tp2 \<and>
     add_group_reserve tp2 1000 2000 = Some (1000, 2000)"
  by (simp add: add_group_reserve_def small_pool_def add_group_link_def vl_append_def vl_init_def Let_def)

text \<open>Destroying a fixed group does not give back what adding it took: \<open>add_group\<close> charges the
  (clipped) maximum to the pool, \<open>destroy_group\<close> subtracts the limit of the group, which for a
  \<open>GROUP_FIXED\<close> group is the minimum. The difference stays charged for ever. For a dynamic group
  the two cancel.\<close>

theorem fixed_group_leaks_threads:
  assumes "add_group True (\<lambda>_. all_ok) g mn mx flags (Some tp) = Inr (Some tp1, Some (tg, ts))"
    and "add_group_reserve tp mn mx = Some (mn', mx')"
  shows "totalThrds (destroy_group_account tg (destroy_group_unlink g tp1)) =
     totalThrds tp + (if flags = GROUP_FIXED then mx' - mn' else 0)"
proof -
  have "0 < mn'" "mn' \<le> mx'" using add_group_reserve_SomeD [OF assms(2)] by auto
  from add_group_build_wf [OF this, of flags] assms(1,2) have
    "g_thrdMax tg = g_thrdMax (new_group mn' mx' flags)" "totalThrds tp1 = totalThrds tp + mx'"
    by (auto simp: add_group_def add_group_link_def split: if_splits)
  then show ?thesis
    by (auto simp: destroy_group_account_def destroy_group_unlink_def new_group_def)
qed

theorem fixed_group_leaks_threads_witness:
  "\<exists>tp1 tg ts. add_group True (\<lambda>_. all_ok) 0 1 4 GROUP_FIXED (Some small_pool) = Inr (Some tp1, Some (tg, ts)) \<and>
     totalThrds (destroy_group_account tg (destroy_group_unlink 0 tp1)) = 3"
proof -
  have r: "add_group_reserve small_pool 1 4 = Some (1, 4)"
    by (simp add: add_group_reserve_def small_pool_def Let_def)
  have "\<exists>tp1 tg ts. add_group True (\<lambda>_. all_ok) 0 1 4 GROUP_FIXED (Some small_pool) = Inr (Some tp1, Some (tg, ts))"
    using add_group_build_wf [of 1 4 GROUP_FIXED] r
    by (auto simp: add_group_def add_group_link_def)
  then obtain tp1 tg ts where
    e: "add_group True (\<lambda>_. all_ok) 0 1 4 GROUP_FIXED (Some small_pool) = Inr (Some tp1, Some (tg, ts))" by blast
  from fixed_group_leaks_threads [OF e r] e show ?thesis by (auto simp: small_pool_def)
qed

subsection \<open>The manager\<close>

text \<open>C30: One pass of the manager over a well formed group starts exactly the threads its health asks
  for: none when the queue is empty, half of the missing ones when the queue is less than a quarter
  full, all of them otherwise; the limit of the group is never exceeded. The new threads get the
  oldest queued items, one each and in order, and the rest of the queue stays.\<close>

theorem manager_adds_threads:
  assumes "group_wf tg ts n"
  defines "missing \<equiv> unat (g_thrdMax tg) - n"
  defines "k \<equiv> (if q_elems (g_q tg) = [] then 0
     else if 4 * length (q_elems (g_q tg)) < unat (q_capacity (g_q tg)) then missing div 2 else missing)"
  shows "\<exists>tg' ts'. manager_group (\<lambda>_. all_ok) n (tg, ts) = Inr (tg', ts') \<and> group_wf tg' ts' (n + k) \<and>
     n + k \<le> unat (g_thrdMax tg) \<and>
     q_elems (g_q tg') = drop k (q_elems (g_q tg)) \<and>
     (\<forall>t. ts' t = (if n \<le> t \<and> t < n + k
        then Some \<lparr>tt_state = running,
                  currTask = (if t - n < length (q_elems (g_q tg))
                              then Some (q_elems (g_q tg) ! (t - n)) else None)\<rparr>
        else ts t))"
proof -
  have q: "q_ok (g_q tg)" and le: "numThrds tg \<le> g_thrdMax tg" and n: "unat (numThrds tg) = n"
    using assms(1) by (auto simp: group_wf_def word_le_nat_alt)
  have d: "unat (g_thrdMax tg - numThrds tg) = missing"
    using le n by (simp add: missing_def unat_sub)
  have "length (q_elems (g_q tg)) = unat (vlen (q_work (g_q tg)))" using q by (simp add: q_ok_def vl_ok_def)
  then have k: "unat (addThrds tg) = k"
    using d q by (simp add: addThrds_def internal_health_check_def k_def q_empty_iff unat_div)
  then have m: "manager_group (\<lambda>_. all_ok) n (tg, ts) = manager_spawn (\<lambda>_. all_ok) k n (tg, ts)"
    by (simp add: manager_group_def)
  have b: "n + k \<le> unat (g_thrdMax tg)" using addThrds_bound [OF assms(1)] k by simp
  from manager_spawn_wf [OF assms(1) b] b show ?thesis unfolding m by blast
qed

theorem manager_adds_threads_witness:
  "\<exists>tg' ts'. manager_group (\<lambda>_. all_ok) 1 (small_group [5], [0 \<mapsto> \<lparr>tt_state = running, currTask = None\<rparr>]) =
     Inr (tg', ts') \<and> q_elems (g_q tg') = [] \<and>
     ts' 1 = Some \<lparr>tt_state = running, currTask = Some 5\<rparr> \<and>
     ts' 2 = Some \<lparr>tt_state = running, currTask = None\<rparr>"
  using manager_adds_threads [OF small_group_wf] by (auto simp: small_group_def)

subsection \<open>Waiting\<close>

definition queued_groups :: "(gid \<rightharpoonup> TGroup) \<Rightarrow> gid list \<Rightarrow> gid list" where
  "queued_groups grps gs = [g \<leftarrow> gs. \<exists>tg. grps g = Some tg \<and> \<not> q_empty (g_q tg)]"

lemma wait_groups_spec:
  assumes "distinct gs" and "set gs \<subseteq> dom grps"
  shows "\<exists>grps'. wait_groups gs (tp, grps) =
       Inr (tp\<lparr>groupsWaiting := groupsWaiting tp - int (length gs) + int (length (queued_groups grps gs))\<rparr>, grps') \<and>
     (\<forall>g. grps' g = (if g \<in> set (queued_groups grps gs)
        then map_option (\<lambda>tg. tg\<lparr>g_flags := set_flag (g_flags tg) GROUP_WAIT\<rparr>) (grps g) else grps g))"
  using assms
proof (induction gs arbitrary: tp grps)
  case Nil
  then show ?case by (cases tp) (simp add: queued_groups_def)
next
  case (Cons g gs)
  then obtain tg where tg: "grps g = Some tg" by auto
  have g: "g \<notin> set gs" using Cons.prems by simp
  let ?tg = "if q_empty (g_q tg) then tg else tg\<lparr>g_flags := set_flag (g_flags tg) GROUP_WAIT\<rparr>"
  let ?tp = "if q_empty (g_q tg) then tp\<lparr>groupsWaiting := groupsWaiting tp - 1\<rparr> else tp"
  have step: "wait_groups (g # gs) (tp, grps) = wait_groups gs (?tp, grps(g \<mapsto> ?tg))"
    by (simp add: tg internal_wait_helper_def pool_rc_defs)
  have qg: "queued_groups (grps(g \<mapsto> ?tg)) gs = queued_groups grps gs"
    using g unfolding queued_groups_def by (intro filter_cong) auto
  have qc: "queued_groups grps (g # gs) = (if q_empty (g_q tg) then [] else [g]) @ queued_groups grps gs"
    by (simp add: queued_groups_def tg)
  have ng: "g \<notin> set (queued_groups grps gs)" using g by (simp add: queued_groups_def)
  have "distinct gs" "set gs \<subseteq> dom (grps(g \<mapsto> ?tg))" using Cons.prems by auto
  from Cons.IH [OF this, of ?tp, unfolded qg] obtain grps' where
    ih: "wait_groups gs (?tp, grps(g \<mapsto> ?tg)) = Inr (?tp\<lparr>groupsWaiting := groupsWaiting ?tp - int (length gs)
          + int (length (queued_groups grps gs))\<rparr>, grps')"
      "\<forall>u. grps' u = (if u \<in> set (queued_groups grps gs)
        then map_option (\<lambda>tg. tg\<lparr>g_flags := set_flag (g_flags tg) GROUP_WAIT\<rparr>) ((grps(g \<mapsto> ?tg)) u)
        else (grps(g \<mapsto> ?tg)) u)"
    by blast
  have T: "?tp\<lparr>groupsWaiting := groupsWaiting ?tp - int (length gs) + int (length (queued_groups grps gs))\<rparr> =
      tp\<lparr>groupsWaiting := groupsWaiting tp - int (length (g # gs)) + int (length (queued_groups grps (g # gs)))\<rparr>"
    by (simp add: qc)
  have U: "grps' u = (if u \<in> set (queued_groups grps (g # gs))
        then map_option (\<lambda>tg. tg\<lparr>g_flags := set_flag (g_flags tg) GROUP_WAIT\<rparr>) (grps u) else grps u)" for u
    using ih(2) ng tg by (auto simp: qc)
  show ?case unfolding step ih(1) T using U by blast
qed

text \<open>\<open>wait_pool\<close> waits for the groups whose queue is not empty, and for no others: after its first
  part the counter is the number of groups with queued work, exactly these have \<open>GROUP_WAIT\<close> set,
  and the caller blocks if and only if there is one. Tasks that are being executed do not count: with
  all queues empty \<open>wait_pool\<close> returns at once, whatever the threads are doing.\<close>

theorem wait_pool_counts_queued:
  assumes "vl_ok (p_groups tp)" and "set (elems (p_groups tp)) \<subseteq> dom grps"
  shows "\<exists>tp' grps'. wait_pool_begin (tp, grps) = Inr (tp', grps') \<and>
     groupsWaiting tp' = int (length (queued_groups grps (elems (p_groups tp)))) \<and>
     (wait_pool_blocked tp' \<longleftrightarrow> queued_groups grps (elems (p_groups tp)) \<noteq> []) \<and>
     has_flag (p_flags tp') POOL_WAITING \<and>
     (\<forall>g. grps' g = (if g \<in> set (queued_groups grps (elems (p_groups tp)))
        then map_option (\<lambda>tg. tg\<lparr>g_flags := set_flag (g_flags tg) GROUP_WAIT\<rparr>) (grps g) else grps g))"
proof -
  have d: "distinct (elems (p_groups tp))" and l: "unat (vlen (p_groups tp)) = length (elems (p_groups tp))"
    using assms(1) by (simp_all add: vl_ok_def)
  have u: "uint (vlen (p_groups tp)) = int (length (elems (p_groups tp)))"
    unfolding l [symmetric] by simp
  from wait_groups_spec [OF d assms(2), of "tp\<lparr>groupsWaiting := int (unat (vlen (p_groups tp)))\<rparr>"]
  obtain grps' where "wait_groups (elems (p_groups tp)) (tp\<lparr>groupsWaiting := int (length (elems (p_groups tp)))\<rparr>, grps) =
      Inr (tp\<lparr>groupsWaiting := int (length (queued_groups grps (elems (p_groups tp))))\<rparr>, grps')"
    "\<forall>g. grps' g = (if g \<in> set (queued_groups grps (elems (p_groups tp)))
        then map_option (\<lambda>tg. tg\<lparr>g_flags := set_flag (g_flags tg) GROUP_WAIT\<rparr>) (grps g) else grps g)"
    by (auto simp: u)
  then show ?thesis by (simp add: wait_pool_begin_def wait_pool_blocked_def u)
qed

theorem wait_pool_counts_queued_witness:
  "\<exists>tp' grps'. wait_pool_begin (small_pool\<lparr>p_groups := \<lparr>elems = [0], vlen = 1\<rparr>\<rparr>, [0 \<mapsto> small_group []]) =
     Inr (tp', grps') \<and> \<not> wait_pool_blocked tp' \<and>
     elems (activeThrds (small_group [])) = [0]"
  using wait_pool_counts_queued [of "small_pool\<lparr>p_groups := \<lparr>elems = [0], vlen = 1\<rparr>\<rparr>" "[0 \<mapsto> small_group []]"]
  by (auto simp: vl_ok_def queued_groups_def small_group_def q_empty_def)

subsection \<open>Destroying the pool\<close>

text \<open>The loop of \<open>destroy_pool\<close> takes out every group exactly once, in the order in which they
  were added, and ends with an empty list.\<close>

theorem destroy_pool_takes_all:
  assumes "vl_ok (p_groups tp)" and "set (elems (p_groups tp)) \<subseteq> dom grps"
    and "length (elems (p_groups tp)) < fuel"
  shows "\<exists>tp'. destroy_pool_groups fuel grps tp = Inr (elems (p_groups tp), tp') \<and> elems (p_groups tp') = []"
  using assms
proof (induction fuel arbitrary: tp)
  case (Suc fuel)
  show ?case
  proof (cases "elems (p_groups tp)")
    case Nil
    with vl_pop_Nil [OF Suc.prems(1) Nil] show ?thesis by simp
  next
    case (Cons g gs)
    from vl_pop_Cons [OF Suc.prems(1) Cons] obtain l where
      l: "vl_pop (p_groups tp) = Inr (Some g, l)" "vl_ok l" "elems l = gs" by blast
    from Cons Suc.prems(2) obtain tg where tg: "grps g = Some tg" by auto
    let ?tp = "tp\<lparr>p_groups := l, totalThrds := totalThrds tp - g_thrdMax tg\<rparr>"
    from Suc.IH [of ?tp] l Suc.prems Cons obtain tp' where
      "destroy_pool_groups fuel grps ?tp = Inr (gs, tp')" "elems (p_groups tp') = []" by auto
    with l tg Cons show ?thesis by simp
  qed
qed simp

theorem destroy_pool_takes_all_witness:
  "\<exists>tp'. destroy_pool_groups 3 (\<lambda>_. Some (small_group [])) (small_pool\<lparr>p_groups := \<lparr>elems = [4, 2], vlen = 2\<rparr>\<rparr>) =
     Inr ([4, 2], tp') \<and> elems (p_groups tp') = []"
  using destroy_pool_takes_all [of "small_pool\<lparr>p_groups := \<lparr>elems = [4, 2], vlen = 2\<rparr>\<rparr>" "\<lambda>_. Some (small_group [])" 3]
  by (simp add: vl_ok_def dom_def)

end
