(* ===== verification/Cook.thy ===== *)
theory Cook
  imports Pool
begin

text \<open>
  The scheduler of \<open>src/cook.c\<close>: it creates one group for the writer and three for the readers and
  hands each job to the readers in turn. The state has the global \<open>tp\<close> (\<open>None\<close> is \<open>NULL\<close>), the
  groups created so far with their threads, the list \<open>rdrs\<close> of \<open>CGrps\<close> structs, and the group
  pointer of each of them. The calls of the pool are the functions of the theory \<open>Pool\<close>, run without
  interference.
\<close>

record cook =
  ck_tp :: "TPool option"
  ck_grps :: "gid \<rightharpoonup> TGroup \<times> (tid \<rightharpoonup> TThread)"
  ck_next :: gid
  ck_wr :: "gid option"
  rdrs :: "nat vlist"
  cg_tg :: "nat \<rightharpoonup> gid"

subsection \<open>Operations\<close>

text \<open>The code passes the pool pointer itself, not its address. When it is \<open>NULL\<close>, \<open>init_pool\<close>
  refuses; otherwise it stores a pointer into the pool it points to.\<close>

definition init_thread_pool :: "bool \<Rightarrow> cook \<Rightarrow> cook res" where
  "init_thread_pool mok ck =
     (case ck_tp ck of
        None \<Rightarrow> (case init_pool True mok 14 of (rc, slot) \<Rightarrow> Inr ck)
      | Some tp \<Rightarrow> Inl Bad_pointer)"

definition cook_add_group :: "u32 \<Rightarrow> u32 \<Rightarrow> u32 \<Rightarrow> cook \<Rightarrow> (gid option \<times> cook) res" where
  "cook_add_group mn mx flags ck =
     bindE (add_group True (\<lambda>_. all_ok) (ck_next ck) mn mx flags (ck_tp ck)) (\<lambda>(tp', r).
       case r of
         None \<Rightarrow> Inr (None, ck\<lparr>ck_tp := tp'\<rparr>)
       | Some st \<Rightarrow> Inr (Some (ck_next ck),
           ck\<lparr>ck_tp := tp', ck_grps := (ck_grps ck)(ck_next ck \<mapsto> st), ck_next := Suc (ck_next ck)\<rparr>))"

fun add_readers :: "nat \<Rightarrow> nat \<Rightarrow> cook \<Rightarrow> cook res" where
  "add_readers 0 i ck = Inr ck"
| "add_readers (Suc k) i ck =
     bindE (cook_add_group 2 4 GROUP_DYNAMIC ck) (\<lambda>(tg, ck1).
     add_readers k (Suc i) (ck1\<lparr>cg_tg := (cg_tg ck1)(i := tg), rdrs := vl_append i (rdrs ck1)\<rparr>))"

definition init_thread_groups :: "cook \<Rightarrow> cook res" where
  "init_thread_groups ck =
     bindE (cook_add_group 1 1 GROUP_FIXED ck) (\<lambda>(wr, ck1).
     add_readers 3 0 (ck1\<lparr>ck_wr := wr, rdrs := vl_init\<rparr>))"

text \<open>One call of \<open>do_work\<close> on the group of a \<open>CGrps\<close>.\<close>

definition cook_do_work :: "work \<Rightarrow> nat \<Rightarrow> cook \<Rightarrow> (int \<times> cook) res" where
  "cook_do_work w cg ck =
     (case cg_tg ck cg of
        None \<Rightarrow> Inr (POOL_ERROR, ck)
      | Some g \<Rightarrow>
          (case (ck_tp ck, ck_grps ck g) of
             (Some tp, Some st) \<Rightarrow>
               bindE (do_work (Some w) (Some st) tp) (\<lambda>(rc, st', tp').
                 Inr (rc, ck\<lparr>ck_tp := Some tp', ck_grps := (ck_grps ck)(g := st')\<rparr>))
           | _ \<Rightarrow> Inl Bad_pointer))"

text \<open>The loop \<open>for(i = 0; i < rdrs.len; i++)\<close>. The counter \<open>rdrs.len\<close> is read again before every
  iteration. The result names the \<open>CGrps\<close> that took the job, if any.\<close>

lemma vl_rotate_shrinks: "vl_rotate v = Inr (x, v') \<Longrightarrow> unat (vlen v) = Suc (unat (vlen v'))"
proof -
  assume a: "vl_rotate v = Inr (x, v')"
  then have n: "vlen v \<noteq> 0"
    by (auto simp: vl_rotate_def vl_pop_def bindE_eq_Inr_iff split: if_splits)
  from a have "vlen v' = vlen v - 1"
    by (auto simp: vl_rotate_def vl_pop_def bindE_eq_Inr_iff split: if_splits list.splits)
  then show ?thesis using n unat_pred_word [of "vlen v"] by (simp add: unat_gt_0)
qed

lemma cook_do_work_rdrs: "cook_do_work w cg ck = Inr (rc, ck') \<Longrightarrow> rdrs ck' = rdrs ck"
  by (auto simp: cook_do_work_def bindE_eq_Inr_iff split: option.splits prod.splits)

function scheduler_loop :: "work \<Rightarrow> size_t \<Rightarrow> cook \<Rightarrow> (nat option \<times> cook) res" where
  "scheduler_loop w i ck =
     (if i < vlen (rdrs ck) then
        (case vl_rotate (rdrs ck) of
           Inl e \<Rightarrow> Inl e
         | Inr (cg, l) \<Rightarrow>
             (case cook_do_work w cg (ck\<lparr>rdrs := l\<rparr>) of
                Inl e \<Rightarrow> Inl e
              | Inr (rc, ck1) \<Rightarrow>
                  if rc = POOL_ERROR then Inl Assert_failed
                  else if rc \<noteq> GROUP_FULL then Inr (Some cg, ck1)
                  else scheduler_loop w (i + 1) ck1))
      else Inr (None, ck))"
  by pat_completeness auto

termination
proof (relation "measure (\<lambda>(w, i, ck). unat (vlen (rdrs ck)))")
  fix w :: work and i :: size_t and ck :: cook and x cg l y rc ck1
  assume "vl_rotate (rdrs ck) = Inr x" "(cg, l) = x" "cook_do_work w cg (ck\<lparr>rdrs := l\<rparr>) = Inr y" "(rc, ck1) = y"
  then show "((w, i + 1, ck1), w, i, ck) \<in> measure (\<lambda>(w, i, ck). unat (vlen (rdrs ck)))"
    using vl_rotate_shrinks [of "rdrs ck" cg l] cook_do_work_rdrs [of w cg "ck\<lparr>rdrs := l\<rparr>" rc ck1] by auto
qed simp

declare scheduler_loop.simps [simp del]

definition scheduler :: "work \<Rightarrow> cook \<Rightarrow> (nat option \<times> cook) res" where
  "scheduler w ck = scheduler_loop w 0 ck"

fun schedule_all :: "work list \<Rightarrow> cook \<Rightarrow> (nat option list \<times> cook) res" where
  "schedule_all [] ck = Inr ([], ck)"
| "schedule_all (w # ws) ck =
     bindE (scheduler w ck) (\<lambda>(r, ck1). bindE (schedule_all ws ck1) (\<lambda>(rs, ck2). Inr (r # rs, ck2)))"

subsection \<open>Properties\<close>

lemma scheduler_loop_le:
  "scheduler_loop w i ck = Inr (r, ck') \<Longrightarrow> unat (vlen (rdrs ck')) \<le> unat (vlen (rdrs ck)) \<and>
     (i < vlen (rdrs ck) \<longrightarrow> unat (vlen (rdrs ck')) < unat (vlen (rdrs ck)))"
proof (induction w i ck arbitrary: r ck' rule: scheduler_loop.induct)
  case (1 w i ck)
  show ?case
  proof (cases "i < vlen (rdrs ck)")
    case False
    then show ?thesis using 1(2) by (simp add: scheduler_loop.simps [of w i ck])
  next
    case True
    with 1(2) obtain cg l rc ck1 where
      s: "vl_rotate (rdrs ck) = Inr (cg, l)" "cook_do_work w cg (ck\<lparr>rdrs := l\<rparr>) = Inr (rc, ck1)"
        "rc \<noteq> POOL_ERROR" "if rc \<noteq> GROUP_FULL then Inr (Some cg, ck1) = Inr (r, ck')
         else scheduler_loop w (i + 1) ck1 = Inr (r, ck')"
      by (subst (asm) scheduler_loop.simps) (auto split: sum.splits prod.splits if_splits)
    have u: "unat (vlen (rdrs ck)) = Suc (unat (vlen (rdrs ck1)))"
      using vl_rotate_shrinks [OF s(1)] cook_do_work_rdrs [OF s(2)] by simp
    show ?thesis
    proof (cases "rc = GROUP_FULL")
      case True2: True
      with 1(1) [OF True s(1) refl s(2) refl s(3)] s(4) have "unat (vlen (rdrs ck')) \<le> unat (vlen (rdrs ck1))"
        by auto
      with u show ?thesis by simp
    next
      case False
      with s(4) u show ?thesis by auto
    qed
  qed
qed

text \<open>C36: The scheduler stops working. Every call that looks at a group rotates the list and so makes
  \<open>rdrs.len\<close> smaller, and nothing makes it larger: after as many calls as there are reader groups
  the counter is zero, and from then on every job is dropped without looking at any group, with no
  error reported.\<close>

theorem scheduler_stops:
  assumes "schedule_all ws ck = Inr (rs, ck')" and "unat (vlen (rdrs ck)) \<le> length ws"
  shows "vlen (rdrs ck') = 0 \<and> scheduler w ck' = Inr (None, ck')"
proof -
  have "unat (vlen (rdrs ck')) = 0"
    using assms
  proof (induction ws arbitrary: ck rs)
    case Nil
    then show ?case by simp
  next
    case (Cons v ws)
    then obtain r ck1 rs1 where
      s: "scheduler v ck = Inr (r, ck1)" "schedule_all ws ck1 = Inr (rs1, ck')"
      by (auto simp: bindE_eq_Inr_iff)
    have "unat (vlen (rdrs ck1)) \<le> length ws"
      using scheduler_loop_le [of v 0 ck r ck1] s(1) Cons.prems(2)
      by (cases "0 < vlen (rdrs ck)") (auto simp: scheduler_def word_less_nat_alt)
    with Cons.IH [OF s(2)] show ?case by simp
  qed
  then have z: "vlen (rdrs ck') = 0" by (simp add: unat_eq_zero)
  then show ?thesis by (simp add: scheduler_def scheduler_loop.simps [of w 0 ck'])
qed


definition pool14 :: TPool where
  "pool14 = \<lparr>totalThrds = 0, p_thrdMax = 14, p_groups = vl_init, groupsWaiting = 0,
     p_flags = 0, p_state = dead, p_manager = 0\<rparr>"

definition cook_start :: "TPool option \<Rightarrow> cook" where
  "cook_start tp = \<lparr>ck_tp = tp, ck_grps = Map.empty, ck_next = 0, ck_wr = None, rdrs = vl_init, cg_tg = Map.empty\<rparr>"

lemmas cook_eval = cook_add_group_def add_group_def add_group_reserve_def add_group_link_def
  init_thread_groups_def vl_append_def vl_init_def Let_def

definition writer_grp :: TGroup where
  "writer_grp = \<lparr>g_flags = 2, g_q = \<lparr>q_work = \<lparr>elems = [], vlen = 0\<rparr>, q_capacity = 100\<rparr>,
     idleThrds = \<lparr>elems = [], vlen = 0\<rparr>, activeThrds = \<lparr>elems = [0], vlen = 1\<rparr>,
     g_thrdMax = 1, g_thrdMin = 1, numThrds = 1, thrds = [0]\<rparr>"

definition reader_grp :: "work list \<Rightarrow> TGroup" where
  "reader_grp ws = \<lparr>g_flags = 1, g_q = \<lparr>q_work = \<lparr>elems = ws, vlen = of_nat (length ws)\<rparr>, q_capacity = 400\<rparr>,
     idleThrds = \<lparr>elems = [], vlen = 0\<rparr>, activeThrds = \<lparr>elems = [0, 1], vlen = 2\<rparr>,
     g_thrdMax = 4, g_thrdMin = 2, numThrds = 2, thrds = [0, 1, 0, 0]\<rparr>"

abbreviation new_thread :: TThread where
  "new_thread \<equiv> \<lparr>tt_state = running, currTask = None\<rparr>"

definition cook_pool :: TPool where
  "cook_pool = \<lparr>totalThrds = 13, p_thrdMax = 14, p_groups = \<lparr>elems = [0, 1, 2, 3], vlen = 4\<rparr>,
     groupsWaiting = 0, p_flags = 0, p_state = idle, p_manager = 1\<rparr>"

definition cook_ready :: cook where
  "cook_ready = \<lparr>ck_tp = Some cook_pool,
     ck_grps = [0 \<mapsto> (writer_grp, [0 \<mapsto> new_thread]),
                1 \<mapsto> (reader_grp [], [0 \<mapsto> new_thread, 1 \<mapsto> new_thread]),
                2 \<mapsto> (reader_grp [], [0 \<mapsto> new_thread, 1 \<mapsto> new_thread]),
                3 \<mapsto> (reader_grp [], [0 \<mapsto> new_thread, 1 \<mapsto> new_thread])],
     ck_next = 4, ck_wr = Some 0, rdrs = \<lparr>elems = [0, 1, 2], vlen = 3\<rparr>,
     cg_tg = [0 \<mapsto> 1, 1 \<mapsto> 2, 2 \<mapsto> 3]\<rparr>"

lemma build_writer:
  "add_group_build True True (\<lambda>_. all_ok) 1 1 GROUP_FIXED = Inr (writer_grp, [0 \<mapsto> new_thread])"
  by (simp add: pool_eval writer_grp_def)

lemma build_reader:
  "add_group_build True True (\<lambda>_. all_ok) 2 4 GROUP_DYNAMIC =
     Inr (reader_grp [], [0 \<mapsto> new_thread, 1 \<mapsto> new_thread])"
  by (simp add: pool_eval reader_grp_def) (simp add: pool_eval eval_nat_numeral)

lemma add_reader:
  assumes "ck_tp ck = Some tp" and "add_group_reserve tp 2 4 = Some (2, 4)" and "vlen (p_groups tp) \<noteq> 0"
  shows "cook_add_group 2 4 GROUP_DYNAMIC ck = Inr (Some (ck_next ck),
     ck\<lparr>ck_tp := Some (tp\<lparr>p_groups := vl_append (ck_next ck) (p_groups tp), totalThrds := totalThrds tp + 4\<rparr>),
        ck_grps := (ck_grps ck)(ck_next ck \<mapsto> (reader_grp [], [0 \<mapsto> new_thread, 1 \<mapsto> new_thread])),
        ck_next := Suc (ck_next ck)\<rparr>)"
  using assms build_reader by (simp add: cook_add_group_def add_group_def add_group_link_def)

text \<open>With a pool of fourteen threads, as intended, the groups are created as the comments say: one
  writer thread, three reader groups of two to four threads each, thirteen of the fourteen threads
  charged.\<close>

theorem init_thread_groups_fits:
  "init_thread_groups (cook_start (Some pool14)) = Inr cook_ready"
proof -
  let ?tp = "\<lambda>n gs k. \<lparr>totalThrds = n, p_thrdMax = 14, p_groups = \<lparr>elems = gs, vlen = k\<rparr>,
     groupsWaiting = 0, p_flags = 0, p_state = idle, p_manager = Suc 0\<rparr>"
  have r: "add_group_reserve (?tp 1 gs k) 2 4 = Some (2, 4)" "add_group_reserve (?tp 5 gs k) 2 4 = Some (2, 4)"
    "add_group_reserve (?tp 9 gs k) 2 4 = Some (2, 4)" for gs k
    by (simp_all add: add_group_reserve_def)
  have w: "cook_add_group 1 1 GROUP_FIXED (cook_start (Some pool14)) = Inr (Some 0,
      (cook_start (Some (?tp 1 [0] 1)))\<lparr>ck_grps := [0 \<mapsto> (writer_grp, [0 \<mapsto> new_thread])], ck_next := 1\<rparr>)"
    by (simp add: cook_eval cook_start_def pool14_def build_writer)
  show ?thesis
    unfolding init_thread_groups_def w
    by (simp add: numeral_3_eq_3 add_reader r cook_start_def vl_append_def vl_init_def)
      (simp add: cook_ready_def cook_pool_def eval_nat_numeral)
qed

text \<open>As the code is written the pool is never created: \<open>init_thread_pool\<close> passes the value of the
  global pointer, which is \<open>NULL\<close>, so every \<open>add_group\<close> returns \<open>NULL\<close> and the first call of
  \<open>scheduler\<close> fails its assertion.\<close>

theorem cook_without_pool:
  "\<exists>ck. bindE (init_thread_pool mok (cook_start None)) init_thread_groups = Inr ck \<and> ck_tp ck = None \<and>
     ck_wr ck = None \<and> elems (rdrs ck) = [0, 1, 2] \<and> cg_tg ck = Map.empty \<and>
     scheduler w ck = Inl Assert_failed"
  by (simp add: init_thread_pool_def cook_start_def init_pool_def init_thread_groups_def cook_add_group_def
      add_group_def numeral_3_eq_3 vl_append_def vl_init_def)
    (simp add: scheduler_def scheduler_loop.simps [of w 0] vl_rotate_def vl_pop_def cook_do_work_def)

text \<open>A job on the groups just created goes into the queue of a reader group.\<close>

lemma scheduler_queues:
  assumes "rdrs ck = \<lparr>elems = cg # cgs, vlen = k\<rparr>" and "k \<noteq> 0" and "cg_tg ck cg = Some g"
    and "ck_tp ck = Some tp" and "ck_grps ck g = Some (reader_grp [], ts)"
  shows "scheduler w ck = Inr (Some cg, ck\<lparr>ck_tp := Some (do_work_signal tp),
     ck_grps := (ck_grps ck)(g \<mapsto> (reader_grp [w], ts)), rdrs := \<lparr>elems = cgs @ [cg], vlen = k - 1\<rparr>\<rparr>)"
proof -
  have d: "do_work (Some w) (Some (reader_grp [], ts)) tp =
      Inr (POOL_SUCCESS, Some (reader_grp [w], ts), do_work_signal tp)"
    by (simp add: do_work_def pool_eval reader_grp_def)
  have "0 < k" using assms(2) by (simp add: word_gt_0)
  then show ?thesis
    using assms
    by (simp add: scheduler_def scheduler_loop.simps [of w 0 ck] vl_rotate_def vl_pop_def cook_do_work_def d
        pool_rc_defs)
qed

theorem scheduler_stops_witness:
  "\<exists>ck. schedule_all [5, 6, 7] cook_ready = Inr ([Some 0, Some 1, Some 2], ck) \<and>
     scheduler 8 ck = Inr (None, ck)"
proof -
  have "\<exists>ck. schedule_all [5, 6, 7] cook_ready = Inr ([Some 0, Some 1, Some 2], ck)"
    by (simp add: scheduler_queues cook_ready_def)
  then obtain ck where c: "schedule_all [5, 6, 7] cook_ready = Inr ([Some 0, Some 1, Some 2], ck)" by blast
  have "unat (vlen (rdrs cook_ready)) \<le> length [5, 6, 7 :: nat]" by (simp add: cook_ready_def)
  from scheduler_stops [OF c this, of 8] c show ?thesis by blast
qed

end
