(* ===== verification/Utilities.thy ===== *)
theory Utilities
  imports Fifo
begin

text \<open>
  The helpers of \<open>src/utilities.c\<close>: creating directories, taking file names apart, socket options
  and addresses. Bytes of C strings are characters, a string ends before its first zero byte, and
  arrays keep their declared sizes, so that a write or read outside them is the fault
  \<open>Out_of_bounds\<close>. The operating system is an argument: \<open>mkdir\<close> is a function on a state of
  files, \<open>setsockopt\<close> and \<open>fcntl\<close> say which calls succeed, \<open>inet_ntop\<close> and the matcher of
  regular expressions are functions.
\<close>

subsection \<open>C strings\<close>

definition NUL :: char where "NUL = CHR 0x00"

definition slash :: char where "slash = CHR 0x2F"

definition cstr :: "string \<Rightarrow> string" where
  "cstr = takeWhile (\<lambda>c. c \<noteq> NUL)"

text \<open>Reading a string from an array that may lack its terminator.\<close>

definition read_cstr :: "string \<Rightarrow> string res" where
  "read_cstr buf = (if NUL \<in> set buf then Inr (cstr buf) else Inl Out_of_bounds)"

lemma cstr_id: "NUL \<notin> set s \<Longrightarrow> cstr s = s"
  by (auto simp: cstr_def takeWhile_eq_all_conv)

lemma cstr_append_NUL: "NUL \<notin> set s \<Longrightarrow> cstr (s @ NUL # r) = s"
  by (induction s) (auto simp: cstr_def)

subsection \<open>Directories\<close>

definition MAX_DIR_SIZE :: nat where "MAX_DIR_SIZE = 256"

datatype errno = ENOENT | EACCES | EEXIST | EOTHER

text \<open>The loop of \<open>trash_mkdir\<close> from index \<open>i\<close> on; \<open>mkdir\<close> returns \<open>None\<close> for success. The string
  passed to it is the prefix that ends at the zero byte stored in place of the slash.\<close>

function mkdir_loop :: "('fs \<Rightarrow> string \<Rightarrow> errno option \<times> 'fs) \<Rightarrow> string \<Rightarrow> nat \<Rightarrow> nat \<Rightarrow> 'fs \<Rightarrow> int \<times> 'fs" where
  "mkdir_loop mkdir holder len i fs =
     (if i < len then
        (if holder ! i = slash \<and> i \<noteq> 0 then
           (case mkdir fs (cstr (holder[i := NUL])) of
              (rc, fs') \<Rightarrow>
                if rc \<noteq> None \<and> rc \<noteq> Some EEXIST then (-1, fs')
                else mkdir_loop mkdir holder len (Suc i) fs')
         else mkdir_loop mkdir holder len (Suc i) fs)
      else (0, fs))"
  by pat_completeness auto
termination
  by (relation "measure (\<lambda>(_, _, len, i, _). len - i)") auto

declare mkdir_loop.simps [simp del]

text \<open>\<open>path\<close> is the memory at the pointer; \<open>holder\<close> is the local array of 256 bytes.\<close>

definition trash_mkdir :: "('fs \<Rightarrow> string \<Rightarrow> errno option \<times> 'fs) \<Rightarrow> string \<Rightarrow> nat \<Rightarrow> 'fs \<Rightarrow> (int \<times> 'fs) res" where
  "trash_mkdir mkdir path len fs =
     (if len > MAX_DIR_SIZE then Inr (-1, fs)
      else if length path < len then Inl Out_of_bounds
      else if len < MAX_DIR_SIZE then Inr (mkdir_loop mkdir (take len path @ [NUL]) len 0 fs)
      else Inl Out_of_bounds)"

definition trash_no_file_dir :: "('fs \<Rightarrow> string \<Rightarrow> errno option \<times> 'fs) \<Rightarrow> string \<Rightarrow> 'fs \<Rightarrow> (int \<times> 'fs) res" where
  "trash_no_file_dir mkdir filepath fs = trash_mkdir mkdir filepath (length (cstr filepath)) fs"

text \<open>What the loop should do: create every directory that a slash of the path ends, parents first.\<close>

definition dir_prefixes :: "string \<Rightarrow> string list" where
  "dir_prefixes path = [take i path. i \<leftarrow> [1..<length path], path ! i = slash]"

fun make_all :: "('fs \<Rightarrow> string \<Rightarrow> errno option \<times> 'fs) \<Rightarrow> string list \<Rightarrow> 'fs \<Rightarrow> int \<times> 'fs" where
  "make_all mkdir [] fs = (0, fs)"
| "make_all mkdir (d # ds) fs =
     (case mkdir fs d of (rc, fs') \<Rightarrow>
        if rc = None \<or> rc = Some EEXIST then make_all mkdir ds fs' else (-1, fs'))"

lemma cstr_prefix:
  assumes "NUL \<notin> set p" and "i < length p"
  shows "cstr ((p @ [NUL])[i := NUL]) = take i p"
proof -
  have "(p @ [NUL])[i := NUL] = take i p @ NUL # drop (Suc i) p @ [NUL]"
    using assms(2) by (simp add: list_update_append upd_conv_take_nth_drop)
  moreover have "NUL \<notin> set (take i p)" using assms(1) by (auto dest: in_set_takeD)
  ultimately show ?thesis by (simp add: cstr_append_NUL)
qed

lemma mkdir_loop_make_all:
  assumes "NUL \<notin> set p" and "i \<le> length p"
  shows "mkdir_loop mkdir (p @ [NUL]) (length p) i fs =
     make_all mkdir [take j p. j \<leftarrow> [i..<length p], p ! j = slash \<and> j \<noteq> 0] fs"
  using assms(2)
proof (induction "length p - i" arbitrary: i fs)
  case 0
  then show ?case by (subst mkdir_loop.simps) simp
next
  case (Suc n)
  then have i: "i < length p" by simp
  have IH: "mkdir_loop mkdir (p @ [NUL]) (length p) (Suc i) fs' =
      make_all mkdir [take j p. j \<leftarrow> [Suc i..<length p], p ! j = slash \<and> j \<noteq> 0] fs'" for fs'
    using Suc by (intro Suc.hyps) auto
  show ?case
    using i cstr_prefix [OF assms(1) i]
    by (subst mkdir_loop.simps) (auto simp: IH upt_conv_Cons nth_append split: prod.splits)
qed

text \<open>\<open>trash_mkdir\<close> on a path of fewer than 256 bytes makes exactly the directories that end before
  a slash of the path (the root excepted), shortest first so that a parent exists before its child is
  made; a directory that exists already is no error, and any other failure stops the loop with -1.\<close>

theorem trash_mkdir_parents_first:
  assumes "NUL \<notin> set (take len path)" and "len \<le> length path" and "len < 256"
  shows "trash_mkdir mkdir path len fs = Inr (make_all mkdir (dir_prefixes (take len path)) fs) \<and>
     sorted_wrt (\<lambda>d e. length d < length e \<and> d = take (length d) e) (dir_prefixes (take len path))"
proof -
  let ?p = "take len path"
  have l: "length ?p = len" using assms(2) by simp
  have "mkdir_loop mkdir (?p @ [NUL]) len 0 fs =
      make_all mkdir [take j ?p. j \<leftarrow> [0..<length ?p], ?p ! j = slash \<and> j \<noteq> 0] fs"
    using mkdir_loop_make_all [OF assms(1), of 0 mkdir fs] l by simp
  also have "[take j ?p. j \<leftarrow> [0..<length ?p], ?p ! j = slash \<and> j \<noteq> 0] = dir_prefixes ?p"
    by (cases "length ?p") (auto simp: dir_prefixes_def upt_conv_Cons simp del: upt_Suc intro!: arg_cong [of _ _ concat] map_cong)
  finally have "trash_mkdir mkdir path len fs = Inr (make_all mkdir (dir_prefixes ?p) fs)"
    using assms by (simp add: trash_mkdir_def MAX_DIR_SIZE_def)
  moreover have "sorted_wrt (\<lambda>d e. length d < length e \<and> d = take (length d) e)
      [take i p. i \<leftarrow> [m..<n], p ! i = slash]" if "n \<le> length p" for p :: string and m n
    using that
  proof (induction n)
    case (Suc n)
    then show ?case by (cases "m \<le> n") (auto simp: sorted_wrt_append min_def)
  qed simp
  ultimately show ?thesis by (simp add: dir_prefixes_def)
qed

text \<open>A file system that is a set of directories, for the examples.\<close>

definition set_mkdir :: "string set \<Rightarrow> string \<Rightarrow> errno option \<times> string set" where
  "set_mkdir fs d = (if d \<in> fs then (Some EEXIST, fs) else (None, insert d fs))"

theorem trash_mkdir_parents_first_witness:
  "trash_mkdir set_mkdir ''/a/bc/f'' 7 {''/a''} = Inr (0, {''/a'', ''/a/bc''})"
proof -
  have "dir_prefixes ''/a/bc/f'' = [''/a'', ''/a/bc'']"
    by (simp add: dir_prefixes_def slash_def upt_rec)
  moreover have "NUL \<notin> set (take 7 ''/a/bc/f'')" by (simp add: NUL_def)
  ultimately show ?thesis
    using trash_mkdir_parents_first [of 7 "''/a/bc/f''" set_mkdir "{''/a''}"]
    by (simp add: set_mkdir_def insert_commute)
qed

text \<open>The length check of \<open>trash_mkdir\<close> is off by one: a path of exactly 256 bytes passes it, and the
  terminator is written behind the array of 256 bytes.\<close>

theorem trash_mkdir_overruns:
  assumes "length p = 256" and "NUL \<notin> set p"
  shows "trash_no_file_dir mkdir (p @ [NUL]) fs = Inl Out_of_bounds"
  using assms by (simp add: trash_no_file_dir_def trash_mkdir_def MAX_DIR_SIZE_def cstr_append_NUL)

theorem trash_mkdir_overruns_witness:
  "trash_no_file_dir set_mkdir (replicate 256 slash @ [NUL]) {} = Inl Out_of_bounds"
  by (rule trash_mkdir_overruns) (simp_all add: NUL_def slash_def)

subsection \<open>File names\<close>

text \<open>The loop that walks back to the last slash, with the number of bytes it passed.\<close>

fun name_scan :: "string \<Rightarrow> nat \<Rightarrow> nat \<Rightarrow> nat \<times> nat" where
  "name_scan temp 0 n = (0, n)"
| "name_scan temp (Suc i) n = (if temp ! Suc i \<noteq> slash then name_scan temp i (Suc n) else (Suc i, n))"

definition name_bounds :: "string \<Rightarrow> nat \<times> nat" where
  "name_bounds temp =
     (let index = length temp - 1;
          index' = (if temp ! index = slash then index - 1 else index);
          (i, n) = name_scan temp index' 0
      in (Suc i, n))"

definition internal_filename_from_path :: "bool \<Rightarrow> string \<Rightarrow> string option res" where
  "internal_filename_from_path mok path =
     (let temp = cstr path; len = length temp
      in if len > MAX_DIR_SIZE - 1 \<or> len < 3 then Inr None
         else
           let (index, filenameLen) = name_bounds temp
           in if index = 0 \<and> temp ! index \<noteq> slash then Inr None
              else if \<not> mok then Inr None
              else
                let allocated = filenameLen
                in if filenameLen < allocated then Inr (Some (take filenameLen (drop index temp)))
                   else Inl Out_of_bounds)"

lemma name_scan_base:
  assumes "slash \<notin> set b" and "p = d @ slash # b @ r" and "i = length d + length b"
  shows "name_scan p i n = (length d, n + length b)"
  using assms
proof (induction b arbitrary: i n r rule: rev_induct)
  case Nil
  then have "p ! length d = slash" "i = length d" by auto
  then show ?case by (cases "length d") auto
next
  case (snoc x b)
  then have i: "i = Suc (length d + length b)" by simp
  have "p ! i = x" using snoc.prems i by (simp add: nth_append)
  moreover have "x \<noteq> slash" using snoc.prems(1) by auto
  moreover have "name_scan p (length d + length b) (Suc n) = (length d, Suc n + length b)"
    using snoc.prems(1,2) by (intro snoc.IH [where r = "x # r"]) auto
  ultimately show ?case using i by simp
qed

lemma name_scan_no_slash:
  assumes "slash \<notin> set p" and "i < length p"
  shows "name_scan p i n = (0, n + i)"
  using assms(2)
proof (induction i arbitrary: n)
  case (Suc i)
  have "p ! Suc i \<noteq> slash" using Suc.prems assms(1) by (metis nth_mem)
  with Suc show ?case by simp
qed simp

text \<open>\<open>internal_filename_from_path\<close> finds the last component of a path that has a slash before it
  (with or without a slash at the end), but a path without any slash loses its first byte; and
  whatever it finds, the allocation has no room for the terminator, which is written one byte behind
  it: every call that does not return \<open>NULL\<close> is out of bounds.\<close>

theorem filename_from_path_overruns:
  assumes "NUL \<notin> set p" and "3 \<le> length p" and "length p \<le> 255"
  shows "internal_filename_from_path True (p @ [NUL]) = Inl Out_of_bounds \<and>
     (\<forall>d b e. p = d @ slash # b @ e \<longrightarrow> slash \<notin> set b \<longrightarrow> b \<noteq> [] \<longrightarrow> e = [] \<or> e = [slash] \<longrightarrow>
        take (snd (name_bounds p)) (drop (fst (name_bounds p)) p) = b) \<and>
     (slash \<notin> set p \<longrightarrow> take (snd (name_bounds p)) (drop (fst (name_bounds p)) p) = tl p)"
proof -
  have "internal_filename_from_path True (p @ [NUL]) = Inl Out_of_bounds"
    using assms by (auto simp: internal_filename_from_path_def cstr_append_NUL MAX_DIR_SIZE_def Let_def
        name_bounds_def split: prod.splits)
  moreover have "name_bounds p = (Suc (length d), length b)"
    if p: "p = d @ slash # b @ e" and b: "slash \<notin> set b" "b \<noteq> []" and e: "e = [] \<or> e = [slash]" for d b e
  proof -
    have nb: "last b \<noteq> slash" using b last_in_set by metis
    have "(if p ! (length p - 1) = slash then length p - 1 - 1 else length p - 1) = length d + length b"
      using e nb b(2) p by (auto simp: last_conv_nth nth_append)
    then show ?thesis
      using name_scan_base [OF b(1) p refl, of 0] unfolding name_bounds_def Let_def by (simp only:) simp
  qed
  moreover have "name_bounds p = (1, length p - 1)" if "slash \<notin> set p"
  proof -
    have "p ! (length p - 1) \<noteq> slash" using that assms(2) by (metis diff_less nth_mem less_le_trans zero_less_numeral zero_less_one)
    then show ?thesis
      using name_scan_no_slash [OF that, of "length p - 1" 0] assms(2) by (simp add: name_bounds_def Let_def)
  qed
  ultimately show ?thesis by (auto simp: drop_Suc)
qed

theorem filename_from_path_overruns_witness:
  "internal_filename_from_path True (''a/bc'' @ [NUL]) = Inl Out_of_bounds"
  using filename_from_path_overruns [of "''a/bc''"] by (simp add: NUL_def)

text \<open>\<open>validate_filename\<close> passes the pointer to \<open>regexec\<close> before it checks it.\<close>

definition validate_filename :: "bool \<Rightarrow> (string \<Rightarrow> bool) \<Rightarrow> string option \<Rightarrow> int res" where
  "validate_filename comp_ok matches filename =
     (if \<not> comp_ok then Inr (-1)
      else case filename of
        None \<Rightarrow> Inl Bad_pointer
      | Some f \<Rightarrow> if \<not> matches f then Inr (-1) else Inr 0)"

subsection \<open>Socket options\<close>

datatype sockopt =
    SO_SNDBUF int | SO_RCVBUF int | SO_KEEPALIVE int | SO_REUSEADDR int | IPV6_V6ONLY int
  | TCP_KEEPIDLE int | TCP_KEEPINTVL int | TCP_KEEPCNT int

definition KEEP_ALIVE :: int where "KEEP_ALIVE = 2"
definition KEEP_IDLE :: int where "KEEP_IDLE = 2"
definition KEEP_INTERVAL :: int where "KEEP_INTERVAL = 2"
definition KEEP_COUNT :: int where "KEEP_COUNT = 10"

text \<open>\<open>sso\<close> says which calls of \<open>setsockopt\<close> succeed. The result has the options that were set.\<close>

definition sock_buff_size :: "(sockopt \<Rightarrow> bool) \<Rightarrow> int \<Rightarrow> int \<Rightarrow> bool \<times> sockopt list" where
  "sock_buff_size sso snd_size rcv_size =
     (if \<not> sso (SO_SNDBUF snd_size) then (False, [])
      else if \<not> sso (SO_RCVBUF rcv_size) then (False, [SO_SNDBUF snd_size])
      else (True, [SO_SNDBUF snd_size, SO_RCVBUF rcv_size]))"

definition keep_sock_alive :: "(sockopt \<Rightarrow> bool) \<Rightarrow> int \<Rightarrow> int \<Rightarrow> int \<Rightarrow> int \<Rightarrow> bool \<times> sockopt list" where
  "keep_sock_alive sso alive idle interval maxpkt =
     (if \<not> sso (SO_KEEPALIVE alive) then (False, [])
      else if \<not> sso (TCP_KEEPIDLE idle) then (False, [SO_KEEPALIVE alive])
      else if \<not> sso (TCP_KEEPINTVL interval) then (False, [SO_KEEPALIVE alive, TCP_KEEPIDLE idle])
      else if \<not> sso (TCP_KEEPCNT maxpkt)
        then (False, [SO_KEEPALIVE alive, TCP_KEEPIDLE idle, TCP_KEEPINTVL interval])
      else (True, [SO_KEEPALIVE alive, TCP_KEEPIDLE idle, TCP_KEEPINTVL interval, TCP_KEEPCNT maxpkt]))"

text \<open>\<open>getfl\<close> is the result of \<open>fcntl(F_GETFL)\<close> (\<open>None\<close> for -1), \<open>setfl\<close> whether
  \<open>fcntl(F_SETFL)\<close> succeeds. The new file flags are part of the result.\<close>

definition O_NONBLOCK :: u32 where "O_NONBLOCK = 0x800"

definition opt_sock :: "u32 option \<Rightarrow> bool \<Rightarrow> (sockopt \<Rightarrow> bool) \<Rightarrow> bool \<Rightarrow> int \<times> u32 option \<times> sockopt list" where
  "opt_sock getfl setfl sso isUnixSock =
     (case getfl of
        None \<Rightarrow> (-1, None, [])
      | Some flags \<Rightarrow>
          let flags' = set_flag flags O_NONBLOCK
          in if \<not> setfl then (-1, Some flags, [])
             else if \<not> isUnixSock then
               (case keep_sock_alive sso KEEP_ALIVE KEEP_IDLE KEEP_INTERVAL KEEP_COUNT of
                  (ok, opts) \<Rightarrow> if \<not> ok then (-1, Some flags', opts) else (0, Some flags', opts))
             else (0, Some flags', []))"

subsection \<open>Socket addresses\<close>

definition AF_UNIX :: nat where "AF_UNIX = 1"
definition AF_INET :: nat where "AF_INET = 2"
definition AF_INET6 :: nat where "AF_INET6 = 10"

text \<open>\<open>sockaddr_storage\<close> has 128 bytes: the family and 126 bytes, of which \<open>sun_path\<close> is the first
  108. \<open>sockaddr_in\<close> has 16 bytes and \<open>sockaddr_in6\<close> 28, their family included.\<close>

record TrashAddr =
  ss_family :: nat
  ss_rest :: string
  addrlen :: nat

definition sun_path_size :: nat where "sun_path_size = 108"

definition is_unix_socket :: "TrashAddr \<Rightarrow> bool" where
  "is_unix_socket addr \<longleftrightarrow> ss_family addr = AF_UNIX"

text \<open>\<open>memcpy\<close> into an array at an offset, with the bounds of both sides.\<close>

definition copy_to :: "string \<Rightarrow> nat \<Rightarrow> string \<Rightarrow> nat \<Rightarrow> string res" where
  "copy_to dst off src n =
     (if n \<le> length src \<and> off + n \<le> length dst then Inr (take off dst @ take n src @ drop (off + n) dst)
      else Inl Out_of_bounds)"

definition get_sock_path :: "TrashAddr option \<Rightarrow> string \<Rightarrow> nat \<Rightarrow> string res" where
  "get_sock_path taddr path pathLen =
     (case taddr of
        None \<Rightarrow> Inr path
      | Some a \<Rightarrow>
          if ss_family a \<noteq> AF_UNIX then Inr path
          else if pathLen \<ge> sun_path_size then copy_to path 0 (take sun_path_size (ss_rest a)) sun_path_size
          else Inr path)"

definition set_unix_trash_addr :: "TrashAddr option \<Rightarrow> string option \<Rightarrow> TrashAddr option res" where
  "set_unix_trash_addr taddr path =
     (case (taddr, path) of
        (Some a, Some p) \<Rightarrow>
          let a1 = \<lparr>ss_family = AF_UNIX, ss_rest = replicate 126 NUL, addrlen = 0\<rparr>
          in if p = [] then Inl Out_of_bounds
             else
               let index = (if p ! 0 = CHR ''@'' then 1 else 0)
               in bindE (copy_to (ss_rest a1) index (drop index p) sun_path_size)
                    (\<lambda>r. Inr (Some (a1\<lparr>ss_rest := r\<rparr>)))
      | _ \<Rightarrow> Inr taddr)"

definition set_ip_trash_addr :: "TrashAddr \<Rightarrow> nat \<times> string \<Rightarrow> nat \<Rightarrow> TrashAddr res" where
  "set_ip_trash_addr taddr = (\<lambda>(fam, bytes) sockFam.
     let t1 = taddr\<lparr>ss_family := sockFam\<rparr>
     in if sockFam = AF_INET then
          bindE (copy_to (ss_rest t1) 0 bytes 14) (\<lambda>r. Inr (t1\<lparr>ss_family := fam, ss_rest := r, addrlen := 16\<rparr>))
        else if sockFam = AF_INET6 then
          bindE (copy_to (ss_rest t1) 0 bytes 26) (\<lambda>r. Inr (t1\<lparr>ss_family := fam, ss_rest := r, addrlen := 28\<rparr>))
        else Inr t1)"

text \<open>The result of \<open>parse_sock_addr\<close> is a pointer: to a literal, or into the array of the call that has
  returned.\<close>

datatype addr_text = Literal string | Dangling "string option"

definition parse_sock_addr :: "(string \<Rightarrow> string option) \<Rightarrow> nat \<times> string \<Rightarrow> addr_text" where
  "parse_sock_addr inet_ntop = (\<lambda>(fam, sa_data).
     if fam = AF_UNIX then Literal ''unix socket''
     else if fam = AF_INET then Dangling (inet_ntop sa_data)
     else Literal ''rip'')"

text \<open>\<open>set_unix_trash_addr\<close> copies 108 bytes whatever the length of the path: a path stored in fewer
  bytes is read past its end, although it would fit. With enough memory behind it the copy is right: the
  bytes of \<open>sun_path\<close> are those of the path, a leading \<open>@\<close> replaced by zero.\<close>

theorem set_unix_trash_addr_overreads:
  "set_unix_trash_addr (Some a) (Some p) =
     (let i = (if p \<noteq> [] \<and> hd p = CHR ''@'' then 1 else 0)
      in if p = [] \<or> length p < 108 + i then Inl Out_of_bounds
         else Inr (Some \<lparr>ss_family = AF_UNIX,
           ss_rest = (if i = 1 then NUL # take 108 (tl p) @ replicate 17 NUL else take 108 p @ replicate 18 NUL),
           addrlen = 0\<rparr>))"
  by (cases p) (auto simp: set_unix_trash_addr_def copy_to_def sun_path_size_def Let_def)

end
