(* ===== verification/Logger.thy ===== *)
theory Logger
  imports Il Utilities
begin

text \<open>
  The logger of \<open>src/logger.c\<close>: callers append records to a list under \<open>logMutex\<close>, one thread writes
  them to the file. Records are named by their allocation; what a thread does between taking and
  releasing the mutex is one function, and \<open>lstep\<close> interleaves the callers, the log thread and
  \<open>close_logger\<close>. The state also keeps, for the statements, the records accepted so far. A thread that waits on the condition moves only when it is signalled.
\<close>

subsection \<open>Data\<close>

definition CLOSE_Q :: u32 where "CLOSE_Q = 0x01"
definition OPEN_Q :: u32 where "OPEN_Q = 0x02"
definition MAX_LEVEL_LEN :: nat where "MAX_LEVEL_LEN = 5"
definition TIME_LENGTH :: nat where "TIME_LENGTH = 26"
definition LOGGED :: int where "LOGGED = TRASH_SUCCESS"
definition LOG_ERROR :: int where "LOG_ERROR = TRASH_ERROR"

datatype LEVEL = INFO | DEBUG | WARN | ERROR

record LogInfo =
  message :: string
  lfile :: string
  lline :: int
  level :: LEVEL

datatype lpc = L_Top | L_Wait | L_Woken | L_Exit

record logger =
  logs :: "nat vlist"
  lg_info :: "nat \<rightharpoonup> LogInfo"
  lg_flags :: u32
  lg_file :: "string list"
  lg_pc :: lpc
  lg_sent :: "LogInfo list"

subsection \<open>Formatting\<close>

text \<open>\<open>strcpy\<close> into an array.\<close>

definition strcpy :: "string \<Rightarrow> string \<Rightarrow> string res" where
  "strcpy buff s = copy_to buff 0 (s @ [NUL]) (Suc (length s))"

fun level_name :: "LEVEL \<Rightarrow> string" where
  "level_name INFO = ''INFO''"
| "level_name DEBUG = ''DEBUG''"
| "level_name WARN = ''WARN''"
| "level_name ERROR = ''ERROR''"

definition level_to_char :: "string \<Rightarrow> LEVEL \<Rightarrow> string res" where
  "level_to_char buff l = strcpy buff (level_name l)"

text \<open>\<open>asct\<close> is what \<open>asctime\<close> returns.\<close>

definition current_time :: "string \<Rightarrow> string \<Rightarrow> string res" where
  "current_time asct timestamp = copy_to timestamp 0 asct (TIME_LENGTH - 2)"

fun digits :: "nat \<Rightarrow> string" where
  "digits n = (if n < 10 then [char_of (48 + n)] else digits (n div 10) @ [char_of (48 + n mod 10)])"

declare digits.simps [simp del]

definition show_int :: "int \<Rightarrow> string" where
  "show_int i = (if i < 0 then CHR ''-'' # digits (nat (- i)) else digits (nat i))"

text \<open>The line that \<open>fprintf\<close> writes. \<open>%s\<close> reads the two arrays up to their terminators; without a terminator it reads beyond the array.\<close>

definition log_text :: "string \<Rightarrow> string \<Rightarrow> LogInfo \<Rightarrow> string res" where
  "log_text timestamp levelBuff log =
     bindE (read_cstr timestamp) (\<lambda>ts. bindE (read_cstr levelBuff) (\<lambda>lv.
     Inr (''['' @ ts @ '']['' @ lv @ ''][''  @ lfile log @ '':'' @ show_int (lline log) @
       ''][''  @ message log @ '']'' @ [CHR 0x0A])))"

subsection \<open>The critical sections\<close>

definition trash_log :: "bool \<Rightarrow> nat \<Rightarrow> LogInfo \<Rightarrow> logger \<Rightarrow> (int \<times> logger) res" where
  "trash_log mok a info st =
     assertE mok
       (let st1 = st\<lparr>lg_info := (lg_info st)(a \<mapsto> info)\<rparr>
        in if \<not> has_flag (lg_flags st) OPEN_Q then Inr (LOG_ERROR, st1)
           else
             let l = vl_append a (logs st1);
                 signal = (vlen l < 1)
             in Inr (LOGGED, st1\<lparr>logs := l, lg_sent := lg_sent st @ [info],
                       lg_pc := (if signal \<and> lg_pc st = L_Wait then L_Woken else lg_pc st)\<rparr>))"

definition close_logger_request :: "logger \<Rightarrow> logger" where
  "close_logger_request st =
     st\<lparr>lg_flags := CLOSE_Q, lg_pc := (if lg_pc st = L_Wait then L_Woken else lg_pc st)\<rparr>"

text \<open>One turn of the loop of \<open>log_func\<close>: wait, leave (with the mutex held), or write one record.\<close>

definition log_func_turn :: "string \<Rightarrow> logger \<Rightarrow> logger res" where
  "log_func_turn asct st =
     (if vlen (logs st) = 0 \<and> has_flag (lg_flags st) OPEN_Q then Inr (st\<lparr>lg_pc := L_Wait\<rparr>)
      else if vlen (logs st) = 0 \<and> has_flag (lg_flags st) CLOSE_Q then Inr (st\<lparr>lg_pc := L_Exit\<rparr>)
      else bindE (vl_pop (logs st)) (\<lambda>(item, l).
        case item of
          None \<Rightarrow> Inl Bad_pointer
        | Some a \<Rightarrow>
            (case lg_info st a of
               None \<Rightarrow> Inl Bad_pointer
             | Some log \<Rightarrow>
                 bindE (level_to_char (replicate (MAX_LEVEL_LEN + 1) NUL) (level log)) (\<lambda>levelBuff.
                 bindE (current_time asct (replicate (TIME_LENGTH - 2) NUL)) (\<lambda>timestamp.
                 bindE (log_text timestamp levelBuff log) (\<lambda>line.
                 Inr (st\<lparr>logs := l, lg_info := (lg_info st)(a := None),
                         lg_file := lg_file st @ [line], lg_pc := L_Top\<rparr>)))))))"

text \<open>\<open>init_logger\<close>: at most two attempts to open the file. Each attempt is the result of \<open>fopen\<close>
  (\<open>None\<close> for success); \<open>nofile\<close> is the result of \<open>trash_no_file_dir\<close> and the \<open>errno\<close> it leaves.\<close>

fun open_log :: "errno option list \<Rightarrow> int \<times> errno \<Rightarrow> nat \<Rightarrow> bool res" where
  "open_log [] nofile n = Inr False"
| "open_log (r # rs) nofile n =
     (case r of
        None \<Rightarrow> Inr True
      | Some e \<Rightarrow>
          bindE (if e = ENOENT then assertE (fst nofile = 0) (Inr (snd nofile)) else Inr e) (\<lambda>e'.
          assertE (e' \<noteq> EACCES)
            (if Suc n < 2 then open_log rs nofile (Suc n) else Inr False)))"

definition init_logger :: "errno option list \<Rightarrow> int \<times> errno \<Rightarrow> int \<Rightarrow> u32 \<Rightarrow> (int \<times> logger option) res" where
  "init_logger opens nofile create_rc flags =
     bindE (open_log opens nofile 0) (\<lambda>opened.
       if \<not> opened then Inr (TRASH_ERROR, None)
       else Inr (create_rc, Some \<lparr>logs = vl_init, lg_info = Map.empty, lg_flags = set_flag flags OPEN_Q,
              lg_file = [], lg_pc = L_Top, lg_sent = []\<rparr>))"

subsection \<open>Interleaving\<close>

definition fresh_logger :: logger where
  "fresh_logger = \<lparr>logs = vl_init, lg_info = Map.empty, lg_flags = OPEN_Q, lg_file = [], lg_pc = L_Top,
     lg_sent = []\<rparr>"

text \<open>What \<open>asctime\<close> returns: 24 characters, a newline and the terminator.\<close>

definition asctime_ok :: "string \<Rightarrow> bool" where
  "asctime_ok asct \<longleftrightarrow> length asct = 26 \<and> NUL \<notin> set (take 24 asct)"

inductive lstep :: "logger \<Rightarrow> logger \<Rightarrow> bool" where
  log: "lg_pc st \<noteq> L_Exit \<Longrightarrow> lg_info st a = None \<Longrightarrow> length (elems (logs st)) < 2 ^ 63 \<Longrightarrow>
     trash_log True a info st = Inr (rc, st') \<Longrightarrow> lstep st st'"
| turn: "lg_pc st = L_Top \<or> lg_pc st = L_Woken \<Longrightarrow> asctime_ok asct \<Longrightarrow>
     log_func_turn asct st = Inr st' \<Longrightarrow> lstep st st'"
| close: "lg_pc st \<noteq> L_Exit \<Longrightarrow> lstep st (close_logger_request st)"

inductive lreach :: "logger \<Rightarrow> bool" where
  init: "lreach fresh_logger"
| step: "lreach st \<Longrightarrow> lstep st st' \<Longrightarrow> lreach st'"

definition linv :: "logger \<Rightarrow> bool" where
  "linv st \<longleftrightarrow> vl_ok (logs st) \<and> set (elems (logs st)) \<subseteq> dom (lg_info st) \<and>
     lg_sent st = map (\<lambda>a. the (lg_info st a)) (elems (logs st)) \<and> lg_file st = [] \<and>
     (lg_flags st = OPEN_Q \<or> lg_flags st = CLOSE_Q) \<and>
     (lg_pc st = L_Wait \<longrightarrow> lg_flags st = OPEN_Q) \<and>
     (lg_pc st = L_Exit \<longrightarrow> lg_flags st = CLOSE_Q \<and> elems (logs st) = [])"

lemma log_flags [simp]:
  "has_flag OPEN_Q OPEN_Q" "\<not> has_flag CLOSE_Q OPEN_Q" "has_flag CLOSE_Q CLOSE_Q" "\<not> has_flag OPEN_Q CLOSE_Q"
  "OPEN_Q \<noteq> CLOSE_Q" "CLOSE_Q \<noteq> OPEN_Q"
  by (simp_all add: has_flag_def OPEN_Q_def CLOSE_Q_def)

lemma level_fits:
  "\<exists>b. level_to_char (replicate (MAX_LEVEL_LEN + 1) NUL) l = Inr b \<and> read_cstr b = Inr (level_name l)"
  by (cases l) (simp_all add: level_to_char_def strcpy_def copy_to_def MAX_LEVEL_LEN_def read_cstr_def cstr_def NUL_def)

lemma current_time_eq:
  "asctime_ok asct \<Longrightarrow> current_time asct (replicate (TIME_LENGTH - 2) NUL) = Inr (take 24 asct)"
  by (simp add: asctime_ok_def current_time_def copy_to_def TIME_LENGTH_def)

subsection \<open>The invariant\<close>

lemma linv_fresh: "linv fresh_logger"
  by (simp add: linv_def fresh_logger_def vl_init_def vl_ok_def)

text \<open>Appending wakes nobody: the counter is at least one after the append.\<close>

lemma append_no_signal:
  assumes "vl_ok l" and "length (elems l) < 2 ^ 63"
  shows "\<not> vlen (vl_append a l) < 1"
proof -
  have "unat (vlen l + 1) = Suc (unat (vlen l))"
    using assms by (intro unat_Suc_word) (simp add: vl_ok_def)
  then show ?thesis by (simp add: vl_append_def word_less_nat_alt)
qed

lemma trash_log_cases:
  assumes "linv st" and "lg_info st a = None" and "length (elems (logs st)) < 2 ^ 63"
  shows "trash_log True a info st =
     (if lg_flags st = OPEN_Q
      then Inr (LOGGED, st\<lparr>lg_info := (lg_info st)(a \<mapsto> info), logs := vl_append a (logs st),
                 lg_sent := lg_sent st @ [info]\<rparr>)
      else Inr (LOG_ERROR, st\<lparr>lg_info := (lg_info st)(a \<mapsto> info)\<rparr>))"
  using append_no_signal [of "logs st" a] assms
  by (auto simp: trash_log_def Let_def linv_def)

lemma linv_log:
  assumes inv: "linv st" and a: "lg_info st a = None" and len: "length (elems (logs st)) < 2 ^ 63"
    and "trash_log True a info st = Inr (rc, st')"
  shows "linv st'"
proof -
  have ok: "vl_ok (logs st)" and sub: "set (elems (logs st)) \<subseteq> dom (lg_info st)"
    using inv by (auto simp: linv_def)
  have na: "a \<notin> set (elems (logs st))" using sub a by auto
  then have "vl_ok (vl_append a (logs st))" using ok len by (intro vl_ok_append) auto
  moreover have m: "map (\<lambda>x. the (if x = a then Some info else lg_info st x)) (elems (logs st)) =
      map (\<lambda>x. the (lg_info st x)) (elems (logs st))"
    using na by (intro map_cong) auto
  ultimately show ?thesis
    using assms sub unfolding trash_log_cases [OF inv a len]
    by (auto simp: linv_def vl_append_def fun_upd_def split: if_splits)
qed

lemma log_func_turn_cases:
  assumes "linv st" and "asctime_ok asct"
  shows "log_func_turn asct st =
     (if elems (logs st) = [] then Inr (st\<lparr>lg_pc := if lg_flags st = OPEN_Q then L_Wait else L_Exit\<rparr>) else Inl Out_of_bounds)"
proof (cases "elems (logs st)")
  case Nil
  with assms(1) have "vlen (logs st) = 0" by (simp add: linv_def vl_ok_def unat_eq_zero)
  with assms(1) Nil show ?thesis by (auto simp: log_func_turn_def linv_def)
next
  case (Cons a as)
  have ok: "vl_ok (logs st)" and sub: "set (a # as) \<subseteq> dom (lg_info st)"
    using assms(1) Cons by (auto simp: linv_def vl_ok_def)
  from vl_pop_Cons [OF ok Cons] obtain l where l: "vl_pop (logs st) = Inr (Some a, l)" by blast
  from sub obtain log where log: "lg_info st a = Some log" by auto
  have v: "vlen (logs st) \<noteq> 0" using ok Cons by (auto simp: vl_ok_def)
  obtain b where b: "level_to_char (replicate (MAX_LEVEL_LEN + 1) NUL) (level log) = Inr b"
    using level_fits by blast
  have "log_text (take 24 asct) b log = Inl Out_of_bounds" using assms(2) by (simp add: log_text_def read_cstr_def asctime_ok_def)
  then show ?thesis using v l log b current_time_eq [OF assms(2)] Cons by (simp add: log_func_turn_def)
qed

lemma lreach_linv: "lreach st \<Longrightarrow> linv st"
proof (induction rule: lreach.induct)
  case (step st st')
  from step(2,3) show ?case
  proof (induction rule: lstep.induct)
    case (log st a info rc st')
    then show ?case using linv_log [of st a info rc st'] by simp
  next
    case (turn st asct st')
    then show ?case using log_func_turn_cases [of st asct] by (auto simp: linv_def split: if_splits)
  next
    case (close st)
    then show ?case by (auto simp: linv_def close_logger_request_def)
  qed
qed (rule linv_fresh)

subsection \<open>Properties\<close>

text \<open>C35: The log thread cannot write a record. In every reachable state the records that \<open>trash_log\<close> has accepted are in the queue, in the order of
  acceptance, and no line has been written: a turn of the log thread that finds a record reads beyond the array of the timestamp, which has no terminator. With an empty
  queue the thread waits, or leaves once the queue is closed; so \<open>close_logger\<close> ends only if nothing was logged.\<close>

theorem logged_record_faults:
  assumes "lreach st" and "asctime_ok asct"
  shows "lg_sent st = map (\<lambda>a. the (lg_info st a)) (elems (logs st)) \<and> lg_file st = [] \<and>
     log_func_turn asct st = (if lg_sent st = [] then Inr (st\<lparr>lg_pc := if lg_flags st = OPEN_Q then L_Wait else L_Exit\<rparr>) else Inl Out_of_bounds) \<and>
     log_func_turn asct (close_logger_request st) = (if lg_sent st = [] then Inr (st\<lparr>lg_flags := CLOSE_Q, lg_pc := L_Exit\<rparr>) else Inl Out_of_bounds)"
proof -
  have inv: "linv st" by (rule lreach_linv [OF assms(1)])
  then have "linv (close_logger_request st)" by (auto simp: linv_def close_logger_request_def)
  then show ?thesis using inv log_func_turn_cases [OF inv assms(2)] log_func_turn_cases [OF _ assms(2), of "close_logger_request st"]
    by (auto simp: linv_def close_logger_request_def)
qed

text \<open>The wake-up of the log thread is lost. Once it waits for the first record, no number of
  calls of \<open>trash_log\<close> wakes it: each appends its record and returns \<open>LOGGED\<close>, but signals only if the
  counter is below one after the append, which is never the case. Nothing is written before
  \<open>close_logger\<close>.\<close>

theorem trash_log_never_wakes:
  assumes "lreach st" and "lg_pc st = L_Wait" and "lg_info st a = None" and "length (elems (logs st)) < 2 ^ 63"
  shows "\<exists>st'. trash_log True a info st = Inr (LOGGED, st') \<and> lreach st' \<and> lg_pc st' = L_Wait \<and>
     elems (logs st') = elems (logs st) @ [a] \<and> lg_file st' = lg_file st \<and>
     \<not> (\<exists>asct s. (lg_pc st' = L_Top \<or> lg_pc st' = L_Woken) \<and> log_func_turn asct st' = Inr s)"
proof -
  have inv: "linv st" by (rule lreach_linv [OF assms(1)])
  then have "lg_flags st = OPEN_Q" using assms(2) by (auto simp: linv_def)
  then have t: "trash_log True a info st = Inr (LOGGED, st\<lparr>lg_info := (lg_info st)(a \<mapsto> info),
      logs := vl_append a (logs st), lg_sent := lg_sent st @ [info]\<rparr>)"
    using trash_log_cases [OF inv assms(3,4)] by simp
  have "lreach (st\<lparr>lg_info := (lg_info st)(a \<mapsto> info),
      logs := vl_append a (logs st), lg_sent := lg_sent st @ [info]\<rparr>)"
    by (rule lreach.step [OF assms(1) lstep.log [OF _ assms(3,4) t]]) (simp add: assms(2))
  with t assms(2) show ?thesis by (simp add: vl_append_def)
qed

text \<open>The buffers of a log line. The level always fits into its array with its terminator, but the
  timestamp fills its array of 24 bytes without one: reading it as a string leaves the array.\<close>

theorem log_buffers:
  assumes "asctime_ok asct"
  shows "(\<exists>b. level_to_char (replicate (MAX_LEVEL_LEN + 1) NUL) l = Inr b \<and> read_cstr b = Inr (level_name l)) \<and>
     bindE (current_time asct (replicate (TIME_LENGTH - 2) NUL)) read_cstr = Inl Out_of_bounds"
  using level_fits [of l] assms by (simp add: current_time_eq read_cstr_def asctime_ok_def)

subsection \<open>Witnesses\<close>

definition ex_info :: LogInfo where
  "ex_info = \<lparr>message = ''hello'', lfile = ''a.c'', lline = 7, level = WARN\<rparr>"

definition ex_clock :: string where
  "ex_clock = ''Mon Jan 01 23:59:59 2024'' @ [CHR 0x0A, NUL]"

definition ex_waiting :: logger where
  "ex_waiting = fresh_logger\<lparr>lg_pc := L_Wait\<rparr>"

lemma ex_clock_ok: "asctime_ok ex_clock"
  by (simp add: asctime_ok_def ex_clock_def NUL_def)

lemma ex_waiting_reach: "lreach ex_waiting"
proof -
  have "log_func_turn ex_clock fresh_logger = Inr ex_waiting"
    by (simp add: log_func_turn_def fresh_logger_def vl_init_def ex_waiting_def)
  from lreach.step [OF lreach.init lstep.turn [OF _ ex_clock_ok this]] show ?thesis
    by (simp add: fresh_logger_def)
qed

theorem trash_log_never_wakes_witness:
  "\<exists>st'. trash_log True 3 ex_info ex_waiting = Inr (LOGGED, st') \<and> lg_pc st' = L_Wait \<and> elems (logs st') = [3]"
  using trash_log_never_wakes [OF ex_waiting_reach, of 3 ex_info]
  by (simp add: ex_waiting_def fresh_logger_def vl_init_def) blast

theorem logged_record_faults_witness:
  "\<exists>st. trash_log True 3 ex_info fresh_logger = Inr (LOGGED, st) \<and> lg_sent st = [ex_info] \<and> log_func_turn ex_clock st = Inl Out_of_bounds"
proof -
  obtain st where st: "trash_log True 3 ex_info fresh_logger = Inr (LOGGED, st)" "lg_sent st = [ex_info]"
    by (simp add: trash_log_def fresh_logger_def Let_def)
  have "lreach st" by (rule lreach.step [OF lreach.init lstep.log [OF _ _ _ st(1)]]) (simp_all add: fresh_logger_def vl_init_def)
  from logged_record_faults [OF this ex_clock_ok] st show ?thesis by simp
qed

theorem log_buffers_witness:
  "bindE (current_time ex_clock (replicate (TIME_LENGTH - 2) NUL)) read_cstr = Inl Out_of_bounds"
  using log_buffers [OF ex_clock_ok, of INFO] by simp

end
