(* ===== verification/Db.thy ===== *)
theory Db
  imports Il Utilities
begin

text \<open>
  The storage layer of \<open>src/db.c\<close>: the open environment with its list of open databases, transactions
  (\<open>TrashTxn\<close>) and the pool of read transactions of the calling thread. LMDB is an argument, the record
  \<open>mdb\<close> of the calls the code makes on a state \<open>'e\<close> of the store; what a theorem needs of them is among
  its hypotheses. Structs are named by their allocation, which is taken to have the size of the struct.
  Keys, values and names are strings of bytes; the key that a cursor gives is a pointer into a page and its length, so \<open>m_cursor_get\<close> gives all the memory from that pointer to the
  end of the page. \<open>OpenDb.name\<close> is the string that its pointer leads to when it is stored.
\<close>

subsection \<open>Constants and data\<close>

definition METADATA :: string where "METADATA = ''metadata''"
definition META_META :: string where "META_META = ''meta_meta''"
definition DB_PREFIX :: string where "DB_PREFIX = ''dbs:''"
definition DB_DNE :: int where "DB_DNE = 8"
definition TRASH_RD_TXN :: u32 where "TRASH_RD_TXN = 0x01"
definition TRASH_WR_TXN :: u32 where "TRASH_WR_TXN = 0x02"
definition TRASH_TXN_COMMIT :: u32 where "TRASH_TXN_COMMIT = 0x04"
definition TRASH_TXN_DONT_FIN :: u32 where "TRASH_TXN_DONT_FIN = 0x08"
definition TXN_POOL_CAPACITY :: nat where "TXN_POOL_CAPACITY = 1"
definition MDB_CREATE :: u32 where "MDB_CREATE = 0x40000"
definition MDB_NOOVERWRITE :: u32 where "MDB_NOOVERWRITE = 0x10"
definition MDB_NOTFOUND :: int where "MDB_NOTFOUND = -30798"
definition MDB_KEYEXIST :: int where "MDB_KEYEXIST = -30799"
definition METADATA_FLAGS :: u32 where "METADATA_FLAGS = MDB_CREATE"

lemmas txn_flag_defs = TRASH_RD_TXN_def TRASH_WR_TXN_def TRASH_TXN_COMMIT_def TRASH_TXN_DONT_FIN_def

datatype cursor_op = MDB_SET_RANGE | MDB_NEXT

record 'e mdb =
  m_begin :: "bool \<Rightarrow> 'e \<Rightarrow> int \<times> nat \<times> 'e"
  m_commit :: "nat \<Rightarrow> 'e \<Rightarrow> int \<times> 'e"
  m_abort :: "nat \<Rightarrow> 'e \<Rightarrow> 'e"
  m_reset :: "nat \<Rightarrow> 'e \<Rightarrow> 'e"
  m_renew :: "nat \<Rightarrow> 'e \<Rightarrow> int \<times> 'e"
  m_dbi_open :: "nat \<Rightarrow> string \<Rightarrow> u32 \<Rightarrow> 'e \<Rightarrow> int \<times> nat \<times> 'e"
  m_put :: "nat \<Rightarrow> nat \<Rightarrow> string \<Rightarrow> string \<Rightarrow> u32 \<Rightarrow> 'e \<Rightarrow> int \<times> 'e"
  m_get :: "nat \<Rightarrow> nat \<Rightarrow> string \<Rightarrow> 'e \<Rightarrow> int \<times> string"
  m_cursor_open :: "nat \<Rightarrow> nat \<Rightarrow> 'e \<Rightarrow> int \<times> nat \<times> 'e"
  m_cursor_renew :: "nat \<Rightarrow> nat \<Rightarrow> 'e \<Rightarrow> int \<times> 'e"
  m_cursor_get :: "nat \<Rightarrow> cursor_op \<Rightarrow> string \<Rightarrow> 'e \<Rightarrow> int \<times> (string \<times> nat) \<times> string \<times> 'e"
  m_cursor_close :: "nat \<Rightarrow> 'e \<Rightarrow> 'e"

record OpenDb =
  odb_name :: string
  odb_flags :: u32
  odb_id :: nat
  odb_count :: u32

record TrashTxn =
  tt_txn :: nat
  tt_actions :: u32
  tt_db :: "nat option"

record Readers =
  iCurr :: nat
  rtxns :: "nat list"
  numTxns :: nat

record 'e dbst =
  d_env :: 'e
  d_dbs :: "nat vlist"
  d_db :: "nat \<rightharpoonup> OpenDb"
  d_tt :: "nat \<rightharpoonup> TrashTxn"
  d_rdr :: "Readers option"
  d_next :: nat

text \<open>\<open>struct DbMeta\<close> as stored: the four bytes of its flags. \<open>memcpy\<close> of a longer value into the struct is
  out of bounds; a shorter one leaves the other bytes as they were.\<close>

definition enc_flags :: "u32 \<Rightarrow> string" where
  "enc_flags f = map (\<lambda>i. char_of (unat (drop_bit (8 * i) f) mod 256)) [0, 1, 2, 3]"

definition dec_flags :: "u32 \<Rightarrow> string \<Rightarrow> u32 res" where
  "dec_flags old v =
     (if length v > 4 then Inl Out_of_bounds
      else let bs = map of_char v @ drop (length v) (map of_char (enc_flags old))
           in Inr (bs ! 0 + 256 * bs ! 1 + 65536 * bs ! 2 + 16777216 * bs ! 3))"

subsection \<open>Databases\<close>

definition db_match :: "OpenDb option \<Rightarrow> string \<Rightarrow> int" where
  "db_match db dbname =
     (case db of None \<Rightarrow> TRASH_ERROR | Some d \<Rightarrow> if odb_name d = dbname then TRASH_SUCCESS else TRASH_ERROR)"

definition internal_add_db :: "string \<Rightarrow> nat \<Rightarrow> u32 \<Rightarrow> 'e dbst \<Rightarrow> nat \<times> 'e dbst" where
  "internal_add_db dbname dbi flags st =
     (let a = d_next st
      in (a, st\<lparr>d_db := (d_db st)(a \<mapsto> \<lparr>odb_name = dbname, odb_flags = flags, odb_id = dbi, odb_count = 0\<rparr>),
                d_dbs := vl_append a (d_dbs st), d_next := Suc a\<rparr>))"

text \<open>The loop of \<open>change_txn_db\<close> over the open databases.\<close>

definition find_db :: "string \<Rightarrow> 'e dbst \<Rightarrow> nat option" where
  "find_db dbname st = find (\<lambda>a. db_match (d_db st a) dbname = TRASH_SUCCESS) (elems (d_dbs st))"

definition change_txn_db :: "nat \<Rightarrow> string \<Rightarrow> 'e dbst \<Rightarrow> (int \<times> 'e dbst) res" where
  "change_txn_db t dbname st =
     (case d_tt st t of
        None \<Rightarrow> Inl Bad_pointer
      | Some tt \<Rightarrow>
          let rc = db_match (case tt_db tt of None \<Rightarrow> None | Some a \<Rightarrow> d_db st a) dbname
          in if rc \<noteq> TRASH_ERROR then Inr (rc, st)
             else case find_db dbname st of
               None \<Rightarrow> Inr (DB_DNE, st)
             | Some a \<Rightarrow>
                 (case d_db st a of
                    None \<Rightarrow> Inl Bad_pointer
                  | Some db \<Rightarrow>
                      Inr (TRASH_SUCCESS,
                           st\<lparr>d_db := (d_db st)(a \<mapsto> db\<lparr>odb_count := odb_count db + 1\<rparr>),
                              d_tt := (d_tt st)(t \<mapsto> tt\<lparr>tt_db := Some a\<rparr>)\<rparr>)))"

subsection \<open>Transactions\<close>

definition internal_create_trash_txn :: "nat \<Rightarrow> u32 \<Rightarrow> 'e dbst \<Rightarrow> nat \<times> 'e dbst" where
  "internal_create_trash_txn txn rdwr st =
     (let a = d_next st
      in (a, st\<lparr>d_tt := (d_tt st)(a \<mapsto> \<lparr>tt_txn = txn, tt_actions = rdwr, tt_db = None\<rparr>), d_next := Suc a\<rparr>))"

definition internal_get_read_txn :: "'e mdb \<Rightarrow> 'e dbst \<Rightarrow> (nat \<times> 'e dbst) res" where
  "internal_get_read_txn M st =
     (case d_rdr st of
        None \<Rightarrow>
          (case m_begin M True (d_env st) of (rc, txn, e) \<Rightarrow>
             Inr (internal_create_trash_txn txn TRASH_RD_TXN (st\<lparr>d_env := e\<rparr>)))
      | Some r \<Rightarrow>
          assertE (numTxns r \<noteq> 0)
            (let t = rtxns r ! (numTxns r - 1)
             in (case d_tt st t of
                   None \<Rightarrow> Inl Bad_pointer
                 | Some tt \<Rightarrow>
                     (case m_renew M (tt_txn tt) (d_env st) of (rc, e) \<Rightarrow>
                        assertE (rc = 0)
                          (Inr (t, st\<lparr>d_env := e, d_rdr := Some (r\<lparr>numTxns := numTxns r - 1\<rparr>)\<rparr>))))))"

definition internal_begin_txn :: "'e mdb \<Rightarrow> u32 \<Rightarrow> 'e dbst \<Rightarrow> (nat \<times> 'e dbst) res" where
  "internal_begin_txn M rdwr st =
     (if rdwr = TRASH_RD_TXN then internal_get_read_txn M st
      else case m_begin M False (d_env st) of (rc, txn, e) \<Rightarrow>
        assertE (rc = 0) (Inr (internal_create_trash_txn txn TRASH_WR_TXN (st\<lparr>d_env := e\<rparr>))))"

definition begin_txn :: "'e mdb \<Rightarrow> string \<Rightarrow> u32 \<Rightarrow> 'e dbst \<Rightarrow> (int \<times> nat \<times> 'e dbst) res" where
  "begin_txn M dbname rd st =
     bindE (internal_begin_txn M rd st) (\<lambda>(t, st1).
     bindE (change_txn_db t dbname st1) (\<lambda>(rc, st2). Inr (rc, t, st2)))"

text \<open>\<open>return_txn\<close> in the order of the code: the commit, the abort of a write transaction, the reset of a
  read transaction and its way back to the pool, and the release of the database.\<close>

definition return_txn_commit :: "'e mdb \<Rightarrow> nat \<Rightarrow> TrashTxn \<Rightarrow> 'e dbst \<Rightarrow> (bool \<times> TrashTxn \<times> 'e dbst) res" where
  "return_txn_commit M t tt st =
     (if has_flag (tt_actions tt) TRASH_TXN_COMMIT then
        (case m_commit M (tt_txn tt) (d_env st) of (rc, e) \<Rightarrow>
           assertE (rc = 0)
             (let tt1 = tt\<lparr>tt_actions := clear_flag (tt_actions tt) TRASH_TXN_COMMIT\<rparr>
              in Inr (True, tt1, st\<lparr>d_env := e, d_tt := (d_tt st)(t \<mapsto> tt1)\<rparr>)))
      else Inr (False, tt, st))"

definition return_txn_abort :: "'e mdb \<Rightarrow> bool \<Rightarrow> TrashTxn \<Rightarrow> 'e dbst \<Rightarrow> 'e dbst" where
  "return_txn_abort M committed tt st =
     (if has_flag (tt_actions tt) TRASH_WR_TXN \<and> \<not> committed
      then st\<lparr>d_env := m_abort M (tt_txn tt) (d_env st)\<rparr> else st)"

definition return_txn_pool :: "'e mdb \<Rightarrow> nat \<Rightarrow> TrashTxn \<Rightarrow> 'e dbst \<Rightarrow> 'e dbst res" where
  "return_txn_pool M t tt st =
     (case d_rdr st of
        None \<Rightarrow> Inl Bad_pointer
      | Some r \<Rightarrow>
          if numTxns r < TXN_POOL_CAPACITY
          then Inr (st\<lparr>d_rdr := Some (r\<lparr>rtxns := (rtxns r)[numTxns r := t], numTxns := Suc (numTxns r)\<rparr>)\<rparr>)
          else Inr (st\<lparr>d_env := m_abort M (tt_txn tt) (d_env st)\<rparr>))"

definition return_txn_release :: "nat \<Rightarrow> TrashTxn \<Rightarrow> 'e dbst \<Rightarrow> 'e dbst res" where
  "return_txn_release t tt st =
     (case tt_db tt of
        None \<Rightarrow> Inl Bad_pointer
      | Some a \<Rightarrow>
          (case d_db st a of
             None \<Rightarrow> Inl Bad_pointer
           | Some db \<Rightarrow>
               let st1 = st\<lparr>d_db := (d_db st)(a \<mapsto> db\<lparr>odb_count := odb_count db - 1\<rparr>)\<rparr>
               in Inr (if has_flag (tt_actions tt) TRASH_WR_TXN then st1\<lparr>d_tt := (d_tt st1)(t := None)\<rparr> else st1)))"

definition return_txn :: "'e mdb \<Rightarrow> nat \<Rightarrow> 'e dbst \<Rightarrow> 'e dbst res" where
  "return_txn M t st =
     (case d_tt st t of
        None \<Rightarrow> Inl Bad_pointer
      | Some tt \<Rightarrow>
          bindE (return_txn_commit M t tt st) (\<lambda>(committed, tt1, st1).
          let st2 = return_txn_abort M committed tt1 st1
          in if has_flag (tt_actions tt1) TRASH_RD_TXN then
               (let st3 = (if \<not> committed then st2\<lparr>d_env := m_reset M (tt_txn tt1) (d_env st2)\<rparr> else st2)
                in if has_flag (tt_actions tt1) TRASH_TXN_DONT_FIN
                   then Inr (st3\<lparr>d_tt := (d_tt st3)(t \<mapsto>
                          tt1\<lparr>tt_actions := clear_flag (tt_actions tt1) TRASH_TXN_DONT_FIN\<rparr>)\<rparr>)
                   else bindE (return_txn_pool M t tt1 st3) (return_txn_release t tt1))
             else return_txn_release t tt1 st2))"

subsection \<open>Values\<close>

definition trash_put :: "'e mdb \<Rightarrow> nat \<Rightarrow> string \<Rightarrow> string \<Rightarrow> u32 \<Rightarrow> 'e dbst \<Rightarrow> (int \<times> 'e dbst) res" where
  "trash_put M t key val flags st =
     (case d_tt st t of
        None \<Rightarrow> Inl Bad_pointer
      | Some tt \<Rightarrow>
          if has_flag (tt_actions tt) TRASH_RD_TXN then Inr (TRASH_ERROR, st)
          else case tt_db tt of
            None \<Rightarrow> Inl Bad_pointer
          | Some a \<Rightarrow>
              (case d_db st a of
                 None \<Rightarrow> Inl Bad_pointer
               | Some db \<Rightarrow>
                   (case m_put M (tt_txn tt) (odb_id db) key val flags (d_env st) of (rc, e) \<Rightarrow>
                      let st1 = st\<lparr>d_env := e\<rparr>
                      in Inr (rc, if rc = 0
                           then st1\<lparr>d_tt := (d_tt st1)(t \<mapsto> tt\<lparr>tt_actions := set_flag (tt_actions tt) TRASH_TXN_COMMIT\<rparr>)\<rparr>
                           else st1))))"

definition trash_get :: "'e mdb \<Rightarrow> nat \<Rightarrow> string \<Rightarrow> 'e dbst \<Rightarrow> (int \<times> string) res" where
  "trash_get M t key st =
     (case d_tt st t of
        None \<Rightarrow> Inl Bad_pointer
      | Some tt \<Rightarrow>
          (case tt_db tt of
             None \<Rightarrow> Inl Bad_pointer
           | Some a \<Rightarrow>
               (case d_db st a of
                  None \<Rightarrow> Inl Bad_pointer
                | Some db \<Rightarrow> Inr (m_get M (tt_txn tt) (odb_id db) key (d_env st)))))"

subsection \<open>Cursors\<close>

definition create_cursor :: "'e mdb \<Rightarrow> nat option \<Rightarrow> 'e dbst \<Rightarrow> (nat \<times> 'e dbst) res" where
  "create_cursor M to st =
     bindE (case to of None \<Rightarrow> internal_get_read_txn M st | Some t \<Rightarrow> Inr (t, st)) (\<lambda>(t, st1).
     bindE (case d_tt st1 t of
              None \<Rightarrow> Inl Bad_pointer
            | Some tt \<Rightarrow> if tt_db tt = None then bindE (change_txn_db t METADATA st1) (\<lambda>(rc, s). Inr s) else Inr st1) (\<lambda>st2.
     case d_tt st2 t of
       None \<Rightarrow> Inl Bad_pointer
     | Some tt \<Rightarrow>
         (let db = (case tt_db tt of None \<Rightarrow> None | Some a \<Rightarrow> d_db st2 a)
          in case (d_rdr st2, has_flag (tt_actions tt) TRASH_RD_TXN \<and> db_match db METADATA = 0) of
               (Some r, True) \<Rightarrow>
                 (case m_cursor_renew M (tt_txn tt) (iCurr r) (d_env st2) of (rc, e) \<Rightarrow>
                    assertE (rc = 0) (Inr (iCurr r, st2\<lparr>d_env := e\<rparr>)))
             | _ \<Rightarrow>
                 (case db of
                    None \<Rightarrow> Inl Bad_pointer
                  | Some d \<Rightarrow>
                      (case m_cursor_open M (tt_txn tt) (odb_id d) (d_env st2) of (rc, c, e) \<Rightarrow>
                         assertE (rc = 0) (Inr (c, st2\<lparr>d_env := e\<rparr>)))))))"

definition return_cursor :: "'e mdb \<Rightarrow> nat option \<Rightarrow> 'e dbst \<Rightarrow> 'e dbst" where
  "return_cursor M co st =
     (case co of None \<Rightarrow> st | Some c \<Rightarrow> st\<lparr>d_env := m_cursor_close M c (d_env st)\<rparr>)"

subsection \<open>Opening a database\<close>

definition set_actions :: "nat \<Rightarrow> (u32 \<Rightarrow> u32) \<Rightarrow> 'e dbst \<Rightarrow> 'e dbst res" where
  "set_actions t f st =
     (case d_tt st t of
        None \<Rightarrow> Inl Bad_pointer
      | Some tt \<Rightarrow> Inr (st\<lparr>d_tt := (d_tt st)(t \<mapsto> tt\<lparr>tt_actions := f (tt_actions tt)\<rparr>)\<rparr>))"

definition set_txn_db :: "nat \<Rightarrow> nat \<Rightarrow> 'e dbst \<Rightarrow> 'e dbst res" where
  "set_txn_db t a st =
     (case d_tt st t of
        None \<Rightarrow> Inl Bad_pointer
      | Some tt \<Rightarrow> Inr (st\<lparr>d_tt := (d_tt st)(t \<mapsto> tt\<lparr>tt_db := Some a\<rparr>)\<rparr>))"

definition txn_of :: "nat \<Rightarrow> 'e dbst \<Rightarrow> nat res" where
  "txn_of t st = (case d_tt st t of None \<Rightarrow> Inl Bad_pointer | Some tt \<Rightarrow> Inr (tt_txn tt))"

text \<open>The lookup in the metadata: the transaction to go on with (a new write transaction when the one passed
  in only reads), the flags to open with and the flags to store. \<open>junk\<close> is what the uninitialised
  \<open>dbMeta\<close> contains.\<close>

definition open_db_lookup :: "'e mdb \<Rightarrow> u32 \<Rightarrow> nat \<Rightarrow> string \<Rightarrow> u32 \<Rightarrow> 'e dbst \<Rightarrow>
    (nat \<times> u32 \<times> u32 \<times> 'e dbst) res" where
  "open_db_lookup M junk t dbname flags st =
     bindE (change_txn_db t METADATA st) (\<lambda>(rc0, st1).
     bindE (trash_get M t dbname st1) (\<lambda>(rc, data).
       if rc = MDB_NOTFOUND then
         bindE (case d_tt st1 t of
                  None \<Rightarrow> Inl Bad_pointer
                | Some tt \<Rightarrow>
                    if has_flag (tt_actions tt) TRASH_RD_TXN then
                      bindE (set_actions t (\<lambda>a. set_flag a TRASH_TXN_DONT_FIN) st1) (\<lambda>st2.
                      bindE (return_txn M t st2) (\<lambda>st3.
                      bindE (begin_txn M METADATA TRASH_WR_TXN st3) (\<lambda>(rc1, temp, st4). Inr (temp, st4))))
                    else Inr (t, st1)) (\<lambda>(temp, st5).
         Inr (temp, set_flag flags MDB_CREATE, flags, st5))
       else if rc = 0 then
         bindE (dec_flags junk data) (\<lambda>meta. Inr (t, flags AND meta, meta, st1))
       else Inl Assert_failed))"

definition db_key :: "string \<Rightarrow> string" where
  "db_key dbname = take 255 (DB_PREFIX @ dbname)"

definition open_db :: "'e mdb \<Rightarrow> u32 \<Rightarrow> nat \<Rightarrow> string \<Rightarrow> u32 \<Rightarrow> 'e dbst \<Rightarrow> 'e dbst res" where
  "open_db M junk t dbname flags st =
     bindE (open_db_lookup M junk t dbname flags st) (\<lambda>(temp, fl, meta, st1).
     bindE (txn_of temp st1) (\<lambda>txn.
     case m_dbi_open M txn dbname fl (d_env st1) of (rc, dbi, e) \<Rightarrow>
       assertE (rc = 0)
         (let st2 = st1\<lparr>d_env := e\<rparr>
          in if has_flag fl MDB_CREATE then
               (let meta' = clear_flag meta MDB_CREATE
                in bindE (trash_put M temp (db_key dbname) (enc_flags meta') 0 st2) (\<lambda>(rc, st3).
                   assertE (rc = 0)
                     (bindE (if temp \<noteq> t then return_txn M temp st3 else Inr st3) (\<lambda>st4.
                      bindE (txn_of t st4) (\<lambda>ttxn.
                      let st5 = st4\<lparr>d_env := snd (m_renew M ttxn (d_env st4))\<rparr>;
                          (a, st6) = internal_add_db dbname dbi meta' st5
                      in set_txn_db t a st6)))))
             else
               (let (a, st6) = internal_add_db dbname dbi meta st2 in set_txn_db t a st6))))"

subsection \<open>Start-up\<close>

text \<open>The loop of \<open>init_metadata\<close> over the keys with the database prefix. The name is read as a string from the memory of the key, which has no terminator of its own: it ends at the first null byte
  behind the key.\<close>

fun reopen_dbs :: "'e mdb \<Rightarrow> nat \<Rightarrow> nat \<Rightarrow> nat \<Rightarrow> cursor_op \<Rightarrow> string \<Rightarrow> u32 \<Rightarrow> 'e dbst \<Rightarrow> 'e dbst res" where
  "reopen_dbs M 0 txn c op key meta st = Inl Diverges"
| "reopen_dbs M (Suc fuel) txn c op key meta st =
     (case m_cursor_get M c op key (d_env st) of (rc, (mem, len), val, e) \<Rightarrow>
        let st1 = st\<lparr>d_env := e\<rparr>
        in if rc \<noteq> 0 then Inr st1
           else if length mem < 4 then Inl Out_of_bounds
           else if take 4 mem \<noteq> DB_PREFIX then Inr st1
           else
             bindE (dec_flags meta val) (\<lambda>meta'.
             bindE (read_cstr (drop 4 mem)) (\<lambda>dbname.
             case m_dbi_open M txn dbname meta' e of (rc, dbi, e') \<Rightarrow>
               assertE (rc = 0)
                 (case internal_add_db dbname dbi meta' (st1\<lparr>d_env := e'\<rparr>) of (a, st2) \<Rightarrow>
                    reopen_dbs M fuel txn c MDB_NEXT (take len mem) meta' st2))))"

definition init_metadata :: "'e mdb \<Rightarrow> nat \<Rightarrow> 'e dbst \<Rightarrow> 'e dbst res" where
  "init_metadata M fuel st =
     bindE (begin_txn M METADATA TRASH_WR_TXN st) (\<lambda>(rc, t, st1).
       if rc \<noteq> DB_DNE then Inr st1
       else
         bindE (txn_of t st1) (\<lambda>txn.
         case m_dbi_open M txn METADATA METADATA_FLAGS (d_env st1) of (rc, dbi, e) \<Rightarrow>
           assertE (rc = 0)
             (case internal_add_db METADATA dbi METADATA_FLAGS (st1\<lparr>d_env := e\<rparr>) of (a, st2) \<Rightarrow>
                bindE (set_txn_db t a st2) (\<lambda>st3.
                bindE (set_actions t (\<lambda>x. set_flag x TRASH_TXN_COMMIT) st3) (\<lambda>st4.
                bindE (trash_put M t META_META [] MDB_NOOVERWRITE st4) (\<lambda>(rc, st5).
                assertE (rc = 0 \<or> rc = MDB_KEYEXIST)
                  (bindE (create_cursor M (Some t) st5) (\<lambda>(c, st6).
                   bindE (reopen_dbs M fuel txn c MDB_SET_RANGE DB_PREFIX METADATA_FLAGS st6) (\<lambda>st7.
                   return_txn M t (return_cursor M (Some c) st7))))))))))"

definition init_thread_local_readers :: "'e mdb \<Rightarrow> 'e dbst \<Rightarrow> 'e dbst res" where
  "init_thread_local_readers M st =
     (if d_rdr st \<noteq> None then Inr st
      else
        bindE (create_cursor M None st) (\<lambda>(c, st1).
        case m_begin M True (d_env st1) of (rc, txn, e) \<Rightarrow>
          assertE (rc = 0)
            (case internal_create_trash_txn txn TRASH_RD_TXN (st1\<lparr>d_env := m_reset M txn e\<rparr>) of (t, st2) \<Rightarrow>
               Inr (st2\<lparr>d_rdr := Some \<lparr>iCurr = c, rtxns = [t], numTxns = TXN_POOL_CAPACITY\<rparr>\<rparr>))))"

definition internal_set_env_fields :: "int \<Rightarrow> int \<Rightarrow> int \<Rightarrow> int" where
  "internal_set_env_fields maxdbs_rc maxreaders_rc mapsize_rc =
     (if maxdbs_rc \<noteq> 0 then TRASH_ERROR
      else if maxreaders_rc \<noteq> 0 then TRASH_ERROR
      else if mapsize_rc \<noteq> 0 then TRASH_ERROR
      else TRASH_SUCCESS)"

definition internal_create_open_env :: "'e \<Rightarrow> 'e dbst \<Rightarrow> 'e dbst" where
  "internal_create_open_env env st = st\<lparr>d_env := env, d_dbs := vl_init\<rparr>"

text \<open>\<open>open_env\<close>; \<open>opened\<close> is whether \<open>oEnv\<close> is set already, the other arguments are the results of the calls
  in the order of the code. A failed \<open>stat\<close> always creates the directories, whatever its error is.\<close>

definition open_env :: "'e mdb \<Rightarrow> nat \<Rightarrow> bool \<Rightarrow> int \<Rightarrow> int \<Rightarrow> int \<Rightarrow> int \<Rightarrow> int \<Rightarrow> 'e \<Rightarrow> 'e dbst \<Rightarrow> (int \<times> 'e dbst) res" where
  "open_env M fuel opened valid_rc stat_rc mkdir_rc fields_rc open_rc env st =
     (if opened then Inr (TRASH_SUCCESS, st)
      else if valid_rc \<noteq> 0 then Inr (TRASH_ERROR, st)
      else if stat_rc < 0 \<and> mkdir_rc \<noteq> 0 then Inr (TRASH_ERROR, st)
      else if fields_rc \<noteq> TRASH_SUCCESS then Inr (TRASH_ERROR, st)
      else assertE (open_rc = 0)
        (bindE (init_metadata M fuel (internal_create_open_env env st)) (\<lambda>st1. Inr (TRASH_SUCCESS, st1))))"

end
