(* ===== verification/Db_Correct.thy ===== *)
theory Db_Correct
  imports Db
begin

text \<open>
  The behaviour of the storage layer: read transactions and their pool, the counters of open databases,
  opening databases and reopening them at start-up. The store is any record of LMDB calls; the
  hypotheses name the results of the calls that matter.
\<close>

lemma txn_flags [simp]:
  "has_flag TRASH_RD_TXN TRASH_RD_TXN" "\<not> has_flag TRASH_RD_TXN TRASH_WR_TXN"
  "\<not> has_flag TRASH_RD_TXN TRASH_TXN_COMMIT" "\<not> has_flag TRASH_RD_TXN TRASH_TXN_DONT_FIN"
  "has_flag TRASH_WR_TXN TRASH_WR_TXN" "\<not> has_flag TRASH_WR_TXN TRASH_RD_TXN"
  "\<not> has_flag TRASH_WR_TXN TRASH_TXN_COMMIT" "TRASH_WR_TXN \<noteq> TRASH_RD_TXN"
  "has_flag TRASH_TXN_COMMIT TRASH_TXN_COMMIT" "\<not> has_flag TRASH_TXN_COMMIT TRASH_RD_TXN"
  "\<not> has_flag TRASH_TXN_COMMIT TRASH_WR_TXN"
  by (simp_all add: has_flag_def txn_flag_defs)

lemma clear_commit [simp]:
  "has_flag (clear_flag f TRASH_TXN_COMMIT) TRASH_RD_TXN \<longleftrightarrow> has_flag f TRASH_RD_TXN"
  "has_flag (clear_flag f TRASH_TXN_COMMIT) TRASH_WR_TXN \<longleftrightarrow> has_flag f TRASH_WR_TXN"
  by (rule has_flag_clear_disjoint; simp add: txn_flag_defs)+

subsection \<open>Read transactions\<close>

text \<open>One read: begin, and return. The pool of the thread holds one read transaction.\<close>

definition read_once :: "'e mdb \<Rightarrow> string \<Rightarrow> 'e dbst \<Rightarrow> 'e dbst res" where
  "read_once M dbname st = bindE (begin_txn M dbname TRASH_RD_TXN st) (\<lambda>(rc, t, st1). return_txn M t st1)"

definition pooled :: "nat \<Rightarrow> nat option \<Rightarrow> 'e dbst \<Rightarrow> bool" where
  "pooled t db st \<longleftrightarrow> (\<exists>c x. d_rdr st = Some \<lparr>iCurr = c, rtxns = [t], numTxns = 1\<rparr> \<and>
     d_tt st t = Some \<lparr>tt_txn = x, tt_actions = TRASH_RD_TXN, tt_db = db\<rparr>)"

definition db_count :: "nat \<Rightarrow> 'e dbst \<Rightarrow> u32 option" where
  "db_count a st = map_option odb_count (d_db st a)"

text \<open>Reading a database with the pooled transaction gives the transaction back to the pool in every
  case. The first read leaves the counter of the database as it was. But the transaction stays bound
  to the database, and a second read of the same database does not count itself when it begins, yet
  discounts itself when it ends: every repeated read lowers the counter, below zero if need be.\<close>

theorem repeated_reads_miscount:
  assumes "\<And>x e. fst (m_renew M x e) = 0"
    and "pooled t db st" and "find_db name st = Some a" and "d_db st a = Some d" and "odb_name d = name"
    and "db = None \<or> db = Some a"
  shows "\<exists>st'. read_once M name st = Inr st' \<and> pooled t (Some a) st' \<and> find_db name st' = Some a \<and>
     db_count a st' = Some (if db = None then odb_count d else odb_count d - 1)"
proof -
  obtain c x where p: "d_rdr st = Some \<lparr>iCurr = c, rtxns = [t], numTxns = 1\<rparr>"
    "d_tt st t = Some \<lparr>tt_txn = x, tt_actions = TRASH_RD_TXN, tt_db = db\<rparr>"
    using assms(2) by (auto simp: pooled_def)
  obtain e where e: "m_renew M x (d_env st) = (0, e)"
    using assms(1) [of x "d_env st"] by (cases "m_renew M x (d_env st)") auto
  let ?tt = "\<lparr>tt_txn = x, tt_actions = TRASH_RD_TXN, tt_db = Some a\<rparr>"
  let ?n = "if db = None then odb_count d + 1 else odb_count d"
  let ?r = "\<lambda>n. Some \<lparr>iCurr = c, rtxns = [t], numTxns = n\<rparr>"
  let ?s1 = "st\<lparr>d_env := e, d_rdr := ?r 0\<rparr>"
  have g: "internal_begin_txn M TRASH_RD_TXN st = Inr (t, ?s1)"
    using p e by (simp add: internal_begin_txn_def internal_get_read_txn_def)
  have f: "find_db name ?s1 = Some a" using assms(3) by (simp add: find_db_def)
  have "change_txn_db t name ?s1 = Inr (TRASH_SUCCESS,
      ?s1\<lparr>d_db := (d_db st)(a \<mapsto> d\<lparr>odb_count := ?n\<rparr>), d_tt := (d_tt st)(t \<mapsto> ?tt)\<rparr>)"
    using p(2) assms(4-6) f by (auto simp: change_txn_db_def db_match_def TRASH_SUCCESS_def TRASH_ERROR_def
        fun_upd_idem)
  then have b: "begin_txn M name TRASH_RD_TXN st = Inr (TRASH_SUCCESS, t,
      ?s1\<lparr>d_db := (d_db st)(a \<mapsto> d\<lparr>odb_count := ?n\<rparr>), d_tt := (d_tt st)(t \<mapsto> ?tt)\<rparr>)"
    using g by (simp add: begin_txn_def)
  let ?s2 = "st\<lparr>d_env := m_reset M x e, d_rdr := ?r 1, d_db := (d_db st)(a \<mapsto> d\<lparr>odb_count := ?n - 1\<rparr>),
      d_tt := (d_tt st)(t \<mapsto> ?tt)\<rparr>"
  have "read_once M name st = Inr ?s2"
    using b by (simp add: read_once_def return_txn_def return_txn_commit_def return_txn_abort_def
        return_txn_pool_def return_txn_release_def TXN_POOL_CAPACITY_def Let_def)
  moreover have "find_db name ?s2 = Some a"
  proof -
    have "(\<lambda>b. db_match (d_db ?s2 b) name = TRASH_SUCCESS) = (\<lambda>b. db_match (d_db st b) name = TRASH_SUCCESS)"
      using assms(4) by (auto simp: db_match_def fun_eq_iff)
    then show ?thesis using assms(3) by (simp add: find_db_def)
  qed
  ultimately show ?thesis by (simp add: pooled_def db_count_def)
qed

text \<open>A thread has one read transaction: beginning a second read before the first is returned fails the
  assertion, whatever the databases.\<close>

theorem nested_read_asserts:
  assumes "\<And>x e. fst (m_renew M x e) = 0" and "pooled t db st" and "vl_ok (d_dbs st)"
    and "set (elems (d_dbs st)) \<subseteq> dom (d_db st)"
  shows "bindE (begin_txn M name1 TRASH_RD_TXN st) (\<lambda>(rc, t, st1). begin_txn M name2 TRASH_RD_TXN st1) =
     Inl Assert_failed"
proof -
  obtain c x where p: "d_rdr st = Some \<lparr>iCurr = c, rtxns = [t], numTxns = 1\<rparr>"
    "d_tt st t = Some \<lparr>tt_txn = x, tt_actions = TRASH_RD_TXN, tt_db = db\<rparr>"
    using assms(2) by (auto simp: pooled_def)
  obtain e where e: "m_renew M x (d_env st) = (0, e)"
    using assms(1) [of x "d_env st"] by (cases "m_renew M x (d_env st)") auto
  let ?s1 = "st\<lparr>d_env := e, d_rdr := Some \<lparr>iCurr = c, rtxns = [t], numTxns = 0\<rparr>\<rparr>"
  have g: "internal_begin_txn M TRASH_RD_TXN st = Inr (t, ?s1)"
    using p e by (simp add: internal_begin_txn_def internal_get_read_txn_def)
  have "\<exists>rc s2. change_txn_db t name1 ?s1 = Inr (rc, s2) \<and> d_rdr s2 = d_rdr ?s1"
  proof (cases "find_db name1 ?s1")
    case None
    then show ?thesis using p(2) by (auto simp: change_txn_db_def Let_def)
  next
    case (Some a)
    then have "a \<in> set (elems (d_dbs st))" by (auto simp: find_db_def find_Some_iff)
    then have "a \<in> dom (d_db st)" using assms(4) by blast
    then show ?thesis using p(2) Some by (auto simp: change_txn_db_def Let_def)
  qed
  then obtain rc s2 where c: "change_txn_db t name1 ?s1 = Inr (rc, s2)" "d_rdr s2 = d_rdr ?s1" by blast
  then have "internal_begin_txn M TRASH_RD_TXN s2 = Inl Assert_failed"
    by (simp add: internal_begin_txn_def internal_get_read_txn_def)
  with c g show ?thesis by (simp add: begin_txn_def)
qed

text \<open>Returning a transaction that was begun on a database that is not open dereferences \<open>NULL\<close>:
  \<open>begin_txn\<close> reports \<open>DB_DNE\<close> and leaves the transaction without a database, and \<open>return_txn\<close> takes the
  lock of that database. This holds for write transactions and for a read transaction not used before.\<close>

theorem unknown_db_faults:
  assumes "find_db name st = None" and "\<And>e. fst (m_begin M False e) = 0" and "\<And>x e. fst (m_renew M x e) = 0"
    and "pooled t None st"
  shows "\<exists>t1 st1 t2 st2. begin_txn M name TRASH_WR_TXN st = Inr (DB_DNE, t1, st1) \<and>
     return_txn M t1 st1 = Inl Bad_pointer \<and>
     begin_txn M name TRASH_RD_TXN st = Inr (DB_DNE, t2, st2) \<and> return_txn M t2 st2 = Inl Bad_pointer"
proof -
  obtain c x where p: "d_rdr st = Some \<lparr>iCurr = c, rtxns = [t], numTxns = 1\<rparr>"
    "d_tt st t = Some \<lparr>tt_txn = x, tt_actions = TRASH_RD_TXN, tt_db = None\<rparr>"
    using assms(4) by (auto simp: pooled_def)
  obtain e where e: "m_renew M x (d_env st) = (0, e)"
    using assms(3) [of x "d_env st"] by (cases "m_renew M x (d_env st)") auto
  obtain y e' where b: "m_begin M False (d_env st) = (0, y, e')"
    using assms(2) [of "d_env st"] by (cases "m_begin M False (d_env st)") auto
  let ?w = "st\<lparr>d_env := e', d_tt := (d_tt st)(d_next st \<mapsto> \<lparr>tt_txn = y, tt_actions = TRASH_WR_TXN, tt_db = None\<rparr>),
      d_next := Suc (d_next st)\<rparr>"
  let ?r = "st\<lparr>d_env := e, d_rdr := Some \<lparr>iCurr = c, rtxns = [t], numTxns = 0\<rparr>\<rparr>"
  have f: "find_db name ?w = None" "find_db name ?r = None" using assms(1) by (simp_all add: find_db_def)
  have w: "begin_txn M name TRASH_WR_TXN st = Inr (DB_DNE, d_next st, ?w)"
    using b f(1) by (simp add: begin_txn_def internal_begin_txn_def internal_create_trash_txn_def
        change_txn_db_def db_match_def TRASH_ERROR_def Let_def)
  have r: "begin_txn M name TRASH_RD_TXN st = Inr (DB_DNE, t, ?r)"
    using p e f(2) by (simp add: begin_txn_def internal_begin_txn_def internal_get_read_txn_def
        change_txn_db_def db_match_def TRASH_ERROR_def Let_def)
  have "return_txn M (d_next st) ?w = Inl Bad_pointer"
    by (simp add: return_txn_def return_txn_commit_def return_txn_abort_def return_txn_release_def)
  moreover have "return_txn M t ?r = Inl Bad_pointer"
    using p by (simp add: return_txn_def return_txn_commit_def return_txn_abort_def return_txn_pool_def
        return_txn_release_def TXN_POOL_CAPACITY_def)
  ultimately show ?thesis using w r by blast
qed

subsection \<open>Opening databases\<close>

lemma db_key_neq:
  assumes "length name \<le> 251"
  shows "db_key name \<noteq> name"
proof
  assume "db_key name = name"
  then have "length (db_key name) = length name" by simp
  with assms show False by (simp add: db_key_def DB_PREFIX_def)
qed

lemma db_key_name: "length name \<le> 251 \<Longrightarrow> drop 4 (db_key name) = name \<and> take 4 (db_key name) = DB_PREFIX"
  by (simp add: db_key_def DB_PREFIX_def)

text \<open>Opening a database with a write transaction. The new database is stored in the metadata under its
  prefixed key and joins the open databases, but the lookup uses the plain name: even after the
  database was created its name is not found, so that opening it again creates and stores it again and
  adds a second entry. And the transaction is bound to the new database without being counted: when it is
  returned the counter wraps around.\<close>

theorem open_db_forgets:
  assumes "find_db METADATA st = Some m" and "d_db st m = Some md" and "odb_name md = METADATA"
    and "d_tt st t = Some \<lparr>tt_txn = x, tt_actions = TRASH_WR_TXN, tt_db = None\<rparr>"
    and "m < d_next st" and "t < d_next st" and "length name \<le> 251"
    and nf: "fst (m_get M x (odb_id md) name (d_env st)) = MDB_NOTFOUND"
    and op: "\<And>y n fl e. fst (m_dbi_open M y n fl e) = 0"
    and put: "\<And>y i k v fl e. fst (m_put M y i k v fl e) = 0"
    and com: "\<And>y e. fst (m_commit M y e) = 0"
    and get: "\<And>y i k e n fl. m_get M y i k (snd (snd (m_dbi_open M y n fl e))) = m_get M y i k e"
      "\<And>y i k e. m_get M y i k (snd (m_renew M y e)) = m_get M y i k e"
      "\<And>y i j k k' v fl e. k' \<noteq> k \<Longrightarrow> m_get M y j k' (snd (m_put M y i k v fl e)) = m_get M y j k' e"
  shows "\<exists>st' st''. open_db M junk t name flags st = Inr st' \<and>
     elems (d_dbs st') = elems (d_dbs st) @ [d_next st] \<and> db_count (d_next st) st' = Some 0 \<and>
     fst (m_get M x (odb_id md) name (d_env st')) = MDB_NOTFOUND \<and>
     return_txn M t st' = Inr st'' \<and> db_count (d_next st) st'' = Some 0xFFFFFFFF"
proof -
  let ?tt = "\<lambda>a db. \<lparr>tt_txn = x, tt_actions = a, tt_db = db\<rparr>"
  let ?md = "md\<lparr>odb_count := odb_count md + 1\<rparr>"
  let ?s1 = "st\<lparr>d_db := (d_db st)(m \<mapsto> ?md), d_tt := (d_tt st)(t \<mapsto> ?tt TRASH_WR_TXN (Some m))\<rparr>"
  have c: "change_txn_db t METADATA st = Inr (TRASH_SUCCESS, ?s1)"
    using assms(1-4) by (simp add: change_txn_db_def db_match_def TRASH_ERROR_def Let_def)
  obtain dat where g: "m_get M x (odb_id md) name (d_env st) = (MDB_NOTFOUND, dat)"
    using nf by (cases "m_get M x (odb_id md) name (d_env st)") auto
  have l: "open_db_lookup M junk t name flags st = Inr (t, set_flag flags MDB_CREATE, flags, ?s1)"
    using c g by (simp add: open_db_lookup_def trash_get_def)
  obtain dbi e1 where o: "m_dbi_open M x name (set_flag flags MDB_CREATE) (d_env st) = (0, dbi, e1)"
    using op [of x name "set_flag flags MDB_CREATE" "d_env st"]
    by (cases "m_dbi_open M x name (set_flag flags MDB_CREATE) (d_env st)") auto
  let ?fl = "clear_flag flags MDB_CREATE"
  obtain e2 where p: "m_put M x (odb_id md) (db_key name) (enc_flags ?fl) 0 e1 = (0, e2)"
    using put [of x "odb_id md" "db_key name" "enc_flags ?fl" 0 e1]
    by (cases "m_put M x (odb_id md) (db_key name) (enc_flags ?fl) 0 e1") auto
  let ?a = "d_next st" and ?act = "set_flag TRASH_WR_TXN TRASH_TXN_COMMIT"
  let ?s2 = "st\<lparr>d_env := snd (m_renew M x e2),
      d_db := (d_db st)(m \<mapsto> ?md, ?a \<mapsto> \<lparr>odb_name = name, odb_flags = ?fl, odb_id = dbi, odb_count = 0\<rparr>),
      d_dbs := vl_append ?a (d_dbs st), d_next := Suc ?a, d_tt := (d_tt st)(t \<mapsto> ?tt ?act (Some ?a))\<rparr>"
  have create: "has_flag MDB_CREATE MDB_CREATE" by (simp add: has_flag_def MDB_CREATE_def)
  have ob: "open_db M junk t name flags st = Inr ?s2"
    using o p assms(4) create
    by (simp add: open_db_def l txn_of_def trash_put_def internal_add_db_def set_txn_db_def Let_def)
  have "m_get M x (odb_id md) name (d_env ?s2) = m_get M x (odb_id md) name (d_env st)"
    using get(1) [of x "odb_id md" name name "set_flag flags MDB_CREATE" "d_env st"]
      get(3) [OF db_key_neq [OF assms(7), symmetric], of x "odb_id md" "odb_id md" "enc_flags ?fl" 0 e1] o p
      get(2) [of x "odb_id md" name e2] by simp
  then have n: "fst (m_get M x (odb_id md) name (d_env ?s2)) = MDB_NOTFOUND" using nf by simp
  obtain e3 where e3: "m_commit M x (snd (m_renew M x e2)) = (0, e3)"
    using com [of x "snd (m_renew M x e2)"] by (cases "m_commit M x (snd (m_renew M x e2))") auto
  have "\<exists>st''. return_txn M t ?s2 = Inr st'' \<and> db_count ?a st'' = Some 0xFFFFFFFF"
    using e3 assms(5)
    by (simp add: return_txn_def return_txn_commit_def return_txn_abort_def return_txn_release_def
        db_count_def Let_def)
  then show ?thesis using ob n by (simp add: vl_append_def db_count_def)
qed

subsection \<open>Start-up\<close>

text \<open>What is in memory at an entry: a node has the data right behind the key (\<open>NODEDATA\<close> in \<open>lib/lmdb/mdb.c\<close>), then come other bytes of the page.\<close>

type_synonym entry = "string \<times> string \<times> string"

fun entry_result :: "entry \<Rightarrow> 'e \<Rightarrow> int \<times> (string \<times> nat) \<times> string \<times> 'e" where
  "entry_result (k, v, rest) e = (0, (k @ v @ rest, length k), v, e)"


















subsection \<open>A small store\<close>

text \<open>A store that keeps its pairs in a map and whose cursor lists one database and the entry of the environment, for the witnesses.\<close>

definition kv_mdb :: "(nat \<times> string \<Rightarrow> string option) mdb" where
  "kv_mdb = \<lparr>m_begin = (\<lambda>_ e. (0, 1, e)), m_commit = (\<lambda>_ e. (0, e)), m_abort = (\<lambda>_ e. e),
     m_reset = (\<lambda>_ e. e), m_renew = (\<lambda>_ e. (0, e)), m_dbi_open = (\<lambda>_ n _ e. (0, length n, e)),
     m_put = (\<lambda>_ i k v _ e. (0, e((i, k) \<mapsto> v))),
     m_get = (\<lambda>_ i k e. case e (i, k) of None \<Rightarrow> (MDB_NOTFOUND, []) | Some v \<Rightarrow> (0, v)),
     m_cursor_open = (\<lambda>_ _ e. (0, 0, e)), m_cursor_renew = (\<lambda>_ _ e. (0, e)),
     m_cursor_get = (\<lambda>_ op _ e. entry_result (if op = MDB_SET_RANGE then (''dbs:users'', enc_flags 0, ''xy'') else (META_META, [], ''z'')) e),
     m_cursor_close = (\<lambda>_ e. e)\<rparr>"

definition kv_st :: "nat option \<Rightarrow> (nat \<times> string \<Rightarrow> string option) dbst" where
  "kv_st db = \<lparr>d_env = Map.empty, d_dbs = \<lparr>elems = [0], vlen = 1\<rparr>,
     d_db = [0 \<mapsto> \<lparr>odb_name = METADATA, odb_flags = 0, odb_id = 8, odb_count = 0\<rparr>],
     d_tt = [1 \<mapsto> \<lparr>tt_txn = 1, tt_actions = TRASH_RD_TXN, tt_db = db\<rparr>,
             2 \<mapsto> \<lparr>tt_txn = 2, tt_actions = TRASH_WR_TXN, tt_db = None\<rparr>],
     d_rdr = Some \<lparr>iCurr = 0, rtxns = [1], numTxns = 1\<rparr>, d_next = 3\<rparr>"

lemma kv_facts:
  "pooled 1 db (kv_st db)" "find_db METADATA (kv_st db) = Some 0" "find_db ''x'' (kv_st db) = None"
  "vl_ok (d_dbs (kv_st db))" "set (elems (d_dbs (kv_st db))) \<subseteq> dom (d_db (kv_st db))"
  by (simp_all add: pooled_def kv_st_def find_db_def db_match_def vl_ok_def METADATA_def TRASH_SUCCESS_def
      TRASH_ERROR_def)

theorem repeated_reads_miscount_witness:
  "\<exists>st'. read_once kv_mdb METADATA (kv_st (Some 0)) = Inr st' \<and> db_count 0 st' = Some 0xFFFFFFFF"
  using repeated_reads_miscount [of kv_mdb 1 "Some 0" "kv_st (Some 0)" METADATA 0
      "\<lparr>odb_name = METADATA, odb_flags = 0, odb_id = 8, odb_count = 0\<rparr>"] kv_facts [of "Some 0"]
  by (auto simp: kv_mdb_def kv_st_def)

theorem nested_read_asserts_witness:
  "bindE (begin_txn kv_mdb METADATA TRASH_RD_TXN (kv_st None)) (\<lambda>(rc, t, st1). begin_txn kv_mdb ''x'' TRASH_RD_TXN st1) =
     Inl Assert_failed"
  using nested_read_asserts [of kv_mdb 1 None "kv_st None" METADATA "''x''"] kv_facts [of None]
  by (simp add: kv_mdb_def)

theorem unknown_db_faults_witness:
  "\<exists>t1 st1. begin_txn kv_mdb ''x'' TRASH_WR_TXN (kv_st None) = Inr (DB_DNE, t1, st1) \<and>
     return_txn kv_mdb t1 st1 = Inl Bad_pointer"
proof -
  have "\<And>e. fst (m_begin kv_mdb False e) = 0" "\<And>x e. fst (m_renew kv_mdb x e) = 0"
    by (simp_all add: kv_mdb_def)
  from unknown_db_faults [OF kv_facts(3) this kv_facts(1)] show ?thesis by blast
qed

theorem open_db_forgets_witness:
  "\<exists>st' st''. open_db kv_mdb 0 2 ''users'' 0 (kv_st None) = Inr st' \<and> return_txn kv_mdb 2 st' = Inr st'' \<and>
     db_count 3 st'' = Some 0xFFFFFFFF"
proof -
  let ?d = "\<lparr>odb_name = METADATA, odb_flags = 0, odb_id = 8, odb_count = 0\<rparr>"
  have "\<exists>st' st''. open_db kv_mdb 0 2 ''users'' 0 (kv_st None) = Inr st' \<and>
     elems (d_dbs st') = elems (d_dbs (kv_st None)) @ [d_next (kv_st None)] \<and>
     db_count (d_next (kv_st None)) st' = Some 0 \<and>
     fst (m_get kv_mdb 2 (odb_id ?d) ''users'' (d_env st')) = MDB_NOTFOUND \<and>
     return_txn kv_mdb 2 st' = Inr st'' \<and> db_count (d_next (kv_st None)) st'' = Some 0xFFFFFFFF"
    by (rule open_db_forgets [OF kv_facts(2)]) (simp_all add: kv_mdb_def kv_st_def)
  then show ?thesis by (auto simp: kv_st_def)
qed


end
