(* ===== verification/Message.thy ===== *)
theory Message
  imports Fifo
begin

text \<open>
  The growing byte buffer \<open>TBuffer\<close> of \<open>src/message.c\<close>. The memory behind \<open>data\<close> is a list of
  cells, \<open>None\<close> where nothing was written yet; an access outside the list is the fault
  \<open>Out_of_bounds\<close>. \<open>start\<close>, \<open>end\<close> and \<open>capacity\<close> keep their 32 bits, \<open>availSpace\<close> its 16 bits
  and \<open>needed\<close> its 64 bits, with the conversions the C code performs between them. The loop that
  doubles \<open>needed\<close> can run forever; it is a partial function, and running forever is \<open>None\<close>.
  Whether \<open>malloc\<close> and \<open>realloc\<close> succeed is the argument \<open>mok\<close>.
\<close>

subsection \<open>The buffer\<close>

definition DEFAULT_TBUFF_SIZE :: u32 where "DEFAULT_TBUFF_SIZE = 1024"

definition UINT32_MAX :: u32 where "UINT32_MAX = 0xFFFFFFFF"

record TBuffer =
  tb_data :: "u8 option list"
  tb_start :: u32
  tb_end :: u32
  tb_capacity :: u32

definition trash_realloc :: "bool \<Rightarrow> 'a option list \<Rightarrow> size_t \<Rightarrow> 'a option list option" where
  "trash_realloc mok mem needed =
     (if mok then Some (take (unat needed) mem @ replicate (unat needed - length mem) None) else None)"

definition reset_tbuff :: "TBuffer \<Rightarrow> TBuffer" where
  "reset_tbuff tb = tb\<lparr>tb_start := 0, tb_end := 0\<rparr>"

definition init_tbuff :: "bool \<Rightarrow> TBuffer \<Rightarrow> u32 \<Rightarrow> TBuffer res" where
  "init_tbuff mok tb sz =
     (let sz' = (if sz > DEFAULT_TBUFF_SIZE then DEFAULT_TBUFF_SIZE else sz)
      in assertE mok (Inr ((reset_tbuff tb)\<lparr>tb_data := replicate (unat sz') None, tb_capacity := sz'\<rparr>)))"

datatype allocation = A_Data | A_Struct

definition kill_tbuffer :: "TBuffer option \<Rightarrow> allocation list" where
  "kill_tbuffer tbo = (case tbo of None \<Rightarrow> [] | Some tb \<Rightarrow> [A_Data, A_Struct])"

text \<open>The loop \<open>while(needed < size) needed = needed * 2\<close>.\<close>

partial_function (option) double_until :: "size_t \<Rightarrow> size_t \<Rightarrow> size_t option" where
  "double_until needed sz = (if needed < sz then double_until (needed * 2) sz else Some needed)"

definition resize_tbuff :: "bool \<Rightarrow> TBuffer \<Rightarrow> u32 \<Rightarrow> TBuffer res" where
  "resize_tbuff mok tb sz =
     (if tb_end tb \<ge> UINT32_MAX - sz then Inl Assert_failed
      else
        let availSpace = (ucast (tb_capacity tb - (tb_end tb + 1)) :: u16)
        in if sz > ucast availSpace then
             (if tb_capacity tb = UINT32_MAX then Inl Assert_failed
              else case double_until (ucast (tb_capacity tb * 2)) (ucast sz) of
                None \<Rightarrow> Inl Diverges
              | Some n \<Rightarrow>
                  let needed = (if n > ucast UINT32_MAX then ucast UINT32_MAX else n)
                  in (case trash_realloc mok (tb_data tb) needed of
                        None \<Rightarrow> Inl Assert_failed
                      | Some mem \<Rightarrow> Inr (tb\<lparr>tb_data := mem, tb_capacity := ucast needed\<rparr>)))
           else Inr tb)"

definition store_byte :: "u32 \<Rightarrow> u8 \<Rightarrow> TBuffer \<Rightarrow> TBuffer res" where
  "store_byte i b tb =
     (if unat i < length (tb_data tb) then Inr (tb\<lparr>tb_data := (tb_data tb)[unat i := Some b]\<rparr>)
      else Inl Out_of_bounds)"

definition add_byte_to_tbuffer :: "bool \<Rightarrow> TBuffer option \<Rightarrow> u8 \<Rightarrow> TBuffer option res" where
  "add_byte_to_tbuffer mok tbo b =
     (case tbo of
        None \<Rightarrow> Inr None
      | Some tb \<Rightarrow>
          bindE (resize_tbuff mok tb 1) (\<lambda>tb1.
          bindE (store_byte (tb_end tb1) b tb1) (\<lambda>tb2.
          let tb3 = tb2\<lparr>tb_end := tb_end tb2 + 1\<rparr>
          in bindE (store_byte (tb_end tb3) 0 tb3) (\<lambda>tb4. Inr (Some tb4)))))"

text \<open>\<open>memcpy(data + end, src, n)\<close>.\<close>

definition copy_in :: "u32 \<Rightarrow> u8 list \<Rightarrow> TBuffer \<Rightarrow> TBuffer res" where
  "copy_in i bs tb =
     (if unat i + length bs \<le> length (tb_data tb)
      then Inr (tb\<lparr>tb_data := take (unat i) (tb_data tb) @ map Some bs @ drop (unat i + length bs) (tb_data tb)\<rparr>)
      else Inl Out_of_bounds)"

definition add_bytes_to_tbuffer :: "bool \<Rightarrow> TBuffer option \<Rightarrow> u8 list \<Rightarrow> u32 \<Rightarrow> TBuffer option res" where
  "add_bytes_to_tbuffer mok tbo bs dataLen =
     (case tbo of
        None \<Rightarrow> Inr None
      | Some tb \<Rightarrow>
          bindE (resize_tbuff mok tb dataLen) (\<lambda>tb1.
          if length bs < unat dataLen then Inl Out_of_bounds
          else
          bindE (copy_in (tb_end tb1) (take (unat dataLen) bs) tb1) (\<lambda>tb2.
          let tb3 = tb2\<lparr>tb_end := tb_end tb2 + dataLen\<rparr>
          in bindE (store_byte (tb_end tb3) 0 tb3) (\<lambda>tb4. Inr (Some tb4)))))"

definition get_byte_from_tbuffer :: "TBuffer option \<Rightarrow> bool \<Rightarrow> (int \<times> u8 option \<times> TBuffer option) res" where
  "get_byte_from_tbuffer tbo peek =
     (case tbo of
        None \<Rightarrow> Inr (TRASH_ERROR, None, None)
      | Some tb \<Rightarrow>
          if tb_start tb = tb_end tb then Inr (TRASH_ERROR, None, Some tb)
          else
            let startPtr = tb_start tb;
                tb' = (if \<not> peek then tb\<lparr>tb_start := tb_start tb + 1\<rparr> else tb)
            in if unat startPtr < length (tb_data tb)
               then (case tb_data tb ! unat startPtr of
                       None \<Rightarrow> Inl Uninitialised
                     | Some b \<Rightarrow> Inr (TRASH_SUCCESS, Some b, Some tb'))
               else Inl Out_of_bounds)"

subsection \<open>Well formed buffers\<close>

text \<open>The unread bytes, and the invariant: the memory has the size the struct says, there is room for
  the terminating zero, and every unread byte was written.\<close>

definition tb_bytes :: "TBuffer \<Rightarrow> u8 list" where
  "tb_bytes tb = map the (drop (unat (tb_start tb)) (take (unat (tb_end tb)) (tb_data tb)))"

definition tb_ok :: "TBuffer \<Rightarrow> bool" where
  "tb_ok tb \<longleftrightarrow> length (tb_data tb) = unat (tb_capacity tb) \<and> tb_start tb \<le> tb_end tb \<and>
     tb_end tb < tb_capacity tb \<and>
     None \<notin> set (drop (unat (tb_start tb)) (take (unat (tb_end tb)) (tb_data tb)))"

subsection \<open>The doubling loop\<close>

lemma double_until_Some: "double_until n sz = Some r \<Longrightarrow> sz \<le> r \<and> (n = 0 \<longrightarrow> sz = 0)"
  by (rule double_until.raw_induct [of "\<lambda>n sz r. sz \<le> r \<and> (n = 0 \<longrightarrow> sz = 0)"])
    (force split: if_splits simp: not_less)+

lemma double_until_zero: "0 < sz \<Longrightarrow> double_until 0 sz = None"
  using double_until_Some [of 0 sz] by (cases "double_until 0 sz") auto

lemma double_until_done: "sz \<le> n \<Longrightarrow> double_until n sz = Some n"
  by (subst double_until.simps) (auto dest: leD)

text \<open>From a positive start the loop ends, within a factor of two of the request.\<close>

lemma double_until_ends:
  assumes "0 < unat n" and "unat n < 2 ^ 33" and "unat sz < 2 ^ 32"
  shows "\<exists>r. double_until n sz = Some r \<and> unat sz \<le> unat r \<and> unat n \<le> unat r \<and>
     (r = n \<or> unat r < 2 * unat sz)"
  using assms
proof (induction "unat sz - unat n" arbitrary: n rule: less_induct)
  case less
  show ?case
  proof (cases "n < sz")
    case False
    then show ?thesis by (intro exI [of _ n]) (simp add: double_until_done not_less word_le_nat_alt)
  next
    case True
    then have lt: "unat n < unat sz" by (simp add: word_less_nat_alt)
    have u: "unat (n * 2) = 2 * unat n" using less.prems lt by (simp add: unat_word_ariths)
    have "\<exists>r. double_until (n * 2) sz = Some r \<and> unat sz \<le> unat r \<and> unat (n * 2) \<le> unat r \<and>
        (r = n * 2 \<or> unat r < 2 * unat sz)"
      using less.prems lt u by (intro less.hyps) auto
    moreover have "double_until n sz = double_until (n * 2) sz"
      using True by (subst double_until.simps) simp
    ultimately show ?thesis using u lt by auto
  qed
qed

subsection \<open>Growing\<close>

lemma tb_ok_nat:
  assumes "tb_ok tb"
  shows "length (tb_data tb) = unat (tb_capacity tb)" "unat (tb_start tb) \<le> unat (tb_end tb)"
    "unat (tb_end tb) < unat (tb_capacity tb)"
  using assms by (auto simp: tb_ok_def word_le_nat_alt word_less_nat_alt)

lemma avail_nat:
  assumes "tb_ok tb"
  shows "unat (ucast (ucast (tb_capacity tb - (tb_end tb + 1)) :: u16) :: u32) =
     (unat (tb_capacity tb) - Suc (unat (tb_end tb))) mod 65536"
proof -
  have e: "unat (tb_end tb + 1) = Suc (unat (tb_end tb))"
    using tb_ok_nat(3) [OF assms] unat_lt_pow [of "tb_capacity tb"] by (intro unat_Suc_word) simp
  then have "tb_end tb + 1 \<le> tb_capacity tb" using tb_ok_nat(3) [OF assms] by (simp add: word_le_nat_alt)
  then have "unat (tb_capacity tb - (tb_end tb + 1)) = unat (tb_capacity tb) - Suc (unat (tb_end tb))"
    using e by (simp add: unat_sub)
  then show ?thesis by (simp add: unsigned_ucast_eq take_bit_eq_mod unat_mod)
qed

lemma resize_tbuff_ok:
  assumes ok: "tb_ok tb" and small: "unat (tb_capacity tb) < 2 ^ 31" and n: "unat n \<le> unat (tb_capacity tb)"
  shows "\<exists>mem c. resize_tbuff True tb n = Inr (tb\<lparr>tb_data := mem, tb_capacity := c\<rparr>) \<and>
     length mem = unat c \<and> unat (tb_end tb) + unat n < unat c \<and>
     take (unat (tb_capacity tb)) mem = tb_data tb \<and>
     (if unat n \<le> (unat (tb_capacity tb) - Suc (unat (tb_end tb))) mod 65536
      then c = tb_capacity tb else unat c = 2 * unat (tb_capacity tb))"
proof -
  let ?c = "unat (tb_capacity tb)" and ?e = "unat (tb_end tb)"
  note nat = tb_ok_nat [OF ok]
  have "unat (UINT32_MAX - n) = 2 ^ 32 - 1 - unat n"
    using unat_lt_pow [of n] by (simp add: UINT32_MAX_def unat_sub word_le_nat_alt)
  then have g: "\<not> tb_end tb \<ge> UINT32_MAX - n"
    using nat small n by (simp add: word_le_nat_alt)
  have m: "tb_capacity tb \<noteq> UINT32_MAX" using small by (auto simp: UINT32_MAX_def)
  have av: "n > ucast (ucast (tb_capacity tb - (tb_end tb + 1)) :: u16) \<longleftrightarrow> \<not> unat n \<le> (?c - Suc ?e) mod 65536"
    by (simp add: word_less_nat_alt avail_nat [OF ok] not_le)
  show ?thesis
  proof (cases "unat n \<le> (?c - Suc ?e) mod 65536")
    case True
    moreover have "(?c - Suc ?e) mod 65536 \<le> ?c - Suc ?e" by simp
    ultimately have "?e + unat n < ?c" using nat(3) by linarith
    moreover have "resize_tbuff True tb n = Inr tb"
      using g av True by (simp add: resize_tbuff_def Let_def)
    ultimately show ?thesis using nat(1) True
      by (intro exI [of _ "tb_data tb"] exI [of _ "tb_capacity tb"]) simp
  next
    case False
    have d: "unat (ucast (tb_capacity tb * 2) :: size_t) = 2 * ?c" "unat (tb_capacity tb * 2) = 2 * ?c"
      using small by (simp_all add: unsigned_ucast_eq take_bit_eq_mod unat_word_ariths)
    have "double_until (ucast (tb_capacity tb * 2)) (ucast n) = Some (ucast (tb_capacity tb * 2))"
      using d n by (intro double_until_done) (simp add: word_le_nat_alt unsigned_ucast_eq take_bit_eq_mod)
    moreover have "\<not> ucast (tb_capacity tb * 2) > (ucast UINT32_MAX :: size_t)"
      using d small by (simp add: word_less_nat_alt UINT32_MAX_def)
    ultimately have "resize_tbuff True tb n = Inr (tb\<lparr>tb_data := tb_data tb @ replicate ?c None,
        tb_capacity := tb_capacity tb * 2\<rparr>)"
      using g av False m d nat(1) by (simp add: resize_tbuff_def Let_def trash_realloc_def)
    then show ?thesis using False d nat n
      by (intro exI [of _ "tb_data tb @ replicate ?c None"] exI [of _ "tb_capacity tb * 2"]) auto
  qed
qed

subsection \<open>Appending\<close>

lemma add_byte_as_bytes: "add_byte_to_tbuffer mok tbo b = add_bytes_to_tbuffer mok tbo [b] 1"
proof -
  have "store_byte i b tb = copy_in i [b] tb" for i tb
    by (simp add: store_byte_def copy_in_def upd_conv_take_nth_drop Suc_le_eq)
  then show ?thesis
    by (simp add: add_byte_to_tbuffer_def add_bytes_to_tbuffer_def split: option.splits)
qed

lemma append_cells:
  assumes "e + length bs < length mem"
  shows "take (e + length bs) ((take e mem @ map Some bs @ drop (e + length bs) mem)[e + length bs := z]) =
     take e mem @ map Some bs"
  using assms by (simp add: list_update_append)

lemma add_bytes_ok:
  assumes ok: "tb_ok tb" and "unat (tb_capacity tb) < 2 ^ 31" and "length bs = unat n"
    and "unat n \<le> unat (tb_capacity tb)"
  shows "\<exists>tb'. add_bytes_to_tbuffer True (Some tb) bs n = Inr (Some tb') \<and> tb_ok tb' \<and>
     tb_bytes tb' = tb_bytes tb @ bs \<and> tb_data tb' ! unat (tb_end tb') = Some 0 \<and>
     unat (tb_end tb') = unat (tb_end tb) + length bs \<and> tb_start tb' = tb_start tb \<and>
     (if length bs \<le> (unat (tb_capacity tb) - Suc (unat (tb_end tb))) mod 65536
      then tb_capacity tb' = tb_capacity tb else unat (tb_capacity tb') = 2 * unat (tb_capacity tb))"
proof -
  let ?e = "unat (tb_end tb)" and ?s = "unat (tb_start tb)"
  from resize_tbuff_ok [OF ok assms(2,4)] obtain mem c where
    r: "resize_tbuff True tb n = Inr (tb\<lparr>tb_data := mem, tb_capacity := c\<rparr>)" "length mem = unat c"
      "?e + length bs < unat c" "take (unat (tb_capacity tb)) mem = tb_data tb"
      "if length bs \<le> (unat (tb_capacity tb) - Suc ?e) mod 65536
       then c = tb_capacity tb else unat c = 2 * unat (tb_capacity tb)"
    unfolding assms(3) by blast
  note nat = tb_ok_nat [OF ok]
  have te: "take ?e mem = take ?e (tb_data tb)"
    using nat(3) by (simp flip: r(4))
  have e: "unat (tb_end tb + n) = ?e + length bs"
    using r(3) assms(3) unat_lt_pow [of c] by (simp add: unat_word_ariths)
  let ?d = "(take ?e mem @ map Some bs @ drop (?e + length bs) mem)[?e + length bs := Some 0]"
  let ?tb = "tb\<lparr>tb_data := ?d, tb_capacity := c, tb_end := tb_end tb + n\<rparr>"
  have "add_bytes_to_tbuffer True (Some tb) bs n = Inr (Some ?tb)"
    using r(1,2,3) assms(3) e
    by (simp add: add_bytes_to_tbuffer_def copy_in_def store_byte_def Let_def)
  moreover have tk: "take (?e + length bs) ?d = take ?e (tb_data tb) @ map Some bs"
    using append_cells [of ?e bs mem "Some 0"] r(2,3) te by simp
  have "tb_bytes ?tb = tb_bytes tb @ bs"
    using nat(1-3) tk e by (simp add: tb_bytes_def comp_def)
  moreover have "tb_ok ?tb"
    using ok nat r(2,3) e tk by (auto simp: tb_ok_def word_le_nat_alt word_less_nat_alt)
  moreover have "?d ! (?e + length bs) = Some 0" using r(2,3) by simp
  ultimately show ?thesis using r(5) e by (intro exI [of _ ?tb]) simp
qed

text \<open>Appending at most as many bytes as the capacity (below 2^31) always works: no access is out of
  bounds, the buffer grows when it must, the unread bytes afterwards are the old ones followed by the
  new ones, a zero byte terminates them, and the buffer is well formed again.\<close>

theorem add_bytes_appends:
  assumes "tb_ok tb" and "unat (tb_capacity tb) < 2 ^ 31" and "length bs = unat n"
    and "unat n \<le> unat (tb_capacity tb)"
  shows "\<exists>tb'. add_bytes_to_tbuffer True (Some tb) bs n = Inr (Some tb') \<and> tb_ok tb' \<and>
     tb_bytes tb' = tb_bytes tb @ bs \<and> tb_data tb' ! unat (tb_end tb') = Some 0 \<and>
     tb_capacity tb \<le> tb_capacity tb' \<and> unat (tb_capacity tb') \<le> 2 * unat (tb_capacity tb)"
proof -
  from add_bytes_ok [OF assms] obtain tb' where
    "add_bytes_to_tbuffer True (Some tb) bs n = Inr (Some tb')" "tb_ok tb'"
    "tb_bytes tb' = tb_bytes tb @ bs" "tb_data tb' ! unat (tb_end tb') = Some 0"
    "tb_capacity tb' = tb_capacity tb \<or> unat (tb_capacity tb') = 2 * unat (tb_capacity tb)"
    by metis
  then show ?thesis by (intro exI [of _ tb']) (auto simp: word_le_nat_alt)
qed

definition ex_tbuff :: TBuffer where
  "ex_tbuff = \<lparr>tb_data = [Some 7, Some 8, Some 9, Some 0], tb_start = 1, tb_end = 3, tb_capacity = 4\<rparr>"

lemma ex_tbuff_facts:
  "tb_ok ex_tbuff" "tb_bytes ex_tbuff = [8, 9]" "tb_capacity ex_tbuff = 4" "tb_end ex_tbuff = 3"
  by (simp_all add: tb_ok_def ex_tbuff_def tb_bytes_def)

theorem add_bytes_appends_witness:
  "\<exists>tb'. add_bytes_to_tbuffer True (Some ex_tbuff) [1, 2] 2 = Inr (Some tb') \<and> tb_bytes tb' = [8, 9, 1, 2]"
  using add_bytes_appends [of ex_tbuff "[1, 2]" 2] by (auto simp: ex_tbuff_facts)

text \<open>Appending more than the buffer can grow to in one doubling writes past its end. The new size is
  the first doubling that covers the new bytes alone; the unread bytes before them and the final zero
  are not counted, so a request between the free space and twice the capacity overflows as soon as
  it does not fit behind the bytes already there.\<close>

theorem add_bytes_overflows:
  assumes ok: "tb_ok tb" and small: "unat (tb_capacity tb) < 2 ^ 31" and "length bs = unat n"
    and "unat n \<le> 2 * unat (tb_capacity tb)" and "2 * unat (tb_capacity tb) \<le> unat (tb_end tb) + unat n"
    and "unat (tb_end tb) + unat n < 2 ^ 32 - 1"
  shows "add_bytes_to_tbuffer True (Some tb) bs n = Inl Out_of_bounds"
proof -
  let ?c = "unat (tb_capacity tb)" and ?e = "unat (tb_end tb)"
  note nat = tb_ok_nat [OF ok]
  have "unat (UINT32_MAX - n) = 2 ^ 32 - 1 - unat n"
    using unat_lt_pow [of n] by (simp add: UINT32_MAX_def unat_sub word_le_nat_alt)
  then have g: "\<not> tb_end tb \<ge> UINT32_MAX - n" using assms(6) by (simp add: word_le_nat_alt)
  have m: "tb_capacity tb \<noteq> UINT32_MAX" using small by (auto simp: UINT32_MAX_def)
  have "(?c - Suc ?e) mod 65536 \<le> ?c - Suc ?e" by simp
  then have av: "n > ucast (ucast (tb_capacity tb - (tb_end tb + 1)) :: u16)"
    using assms(5) nat(3) by (simp add: word_less_nat_alt avail_nat [OF ok])
  have d: "unat (ucast (tb_capacity tb * 2) :: size_t) = 2 * ?c" "unat (tb_capacity tb * 2) = 2 * ?c"
    using small by (simp_all add: unsigned_ucast_eq take_bit_eq_mod unat_word_ariths)
  have "double_until (ucast (tb_capacity tb * 2)) (ucast n) = Some (ucast (tb_capacity tb * 2))"
    using d assms(4) by (intro double_until_done) (simp add: word_le_nat_alt unsigned_ucast_eq take_bit_eq_mod)
  moreover have "\<not> ucast (tb_capacity tb * 2) > (ucast UINT32_MAX :: size_t)"
    using d small by (simp add: word_less_nat_alt UINT32_MAX_def)
  ultimately have r: "resize_tbuff True tb n = Inr (tb\<lparr>tb_data := tb_data tb @ replicate ?c None,
      tb_capacity := tb_capacity tb * 2\<rparr>)"
    using g av m d nat(1) by (simp add: resize_tbuff_def Let_def trash_realloc_def)
  have "unat (tb_end tb + n) = ?e + unat n" using assms(6) by (simp add: unat_word_ariths)
  then show ?thesis
    using r nat(1) assms(3,5)
    by (auto simp: add_bytes_to_tbuffer_def copy_in_def store_byte_def Let_def)
qed

theorem add_bytes_overflows_witness:
  "add_bytes_to_tbuffer True (Some ex_tbuff) [1, 2, 3, 4, 5, 6] 6 = Inl Out_of_bounds"
  using add_bytes_overflows [of ex_tbuff "[1, 2, 3, 4, 5, 6]" 6] by (simp add: ex_tbuff_facts)

text \<open>A buffer created with size zero is unusable: the free space is computed as
  \<open>0 - 1\<close> and cut to 16 bits, so the first byte added is written outside the allocation.\<close>

theorem empty_tbuff_overflows:
  "bindE (init_tbuff True tb 0) (\<lambda>t. add_byte_to_tbuffer True (Some t) b) = Inl Out_of_bounds"
proof -
  have "(-1 :: u32) = 0xFFFFFFFF" by simp
  then have "(ucast (ucast (-1 :: u32) :: u16) :: u32) = 0xFFFF" by (simp only:) simp
  then show ?thesis
    by (simp add: init_tbuff_def DEFAULT_TBUFF_SIZE_def reset_tbuff_def add_byte_to_tbuffer_def
        resize_tbuff_def UINT32_MAX_def store_byte_def Let_def)
qed

text \<open>At a capacity of 2^31 the doubling wraps around to zero and the loop that doubles it never
  ends: every request that does not fit into the (16 bit) free space hangs.\<close>

theorem resize_hangs:
  assumes "tb_capacity tb = 0x80000000" and "tb_ok tb" and "unat (tb_end tb) + unat n < 2 ^ 32 - 1"
    and "(2 ^ 31 - Suc (unat (tb_end tb))) mod 65536 < unat n"
  shows "resize_tbuff mok tb n = Inl Diverges"
proof -
  have "unat (UINT32_MAX - n) = 2 ^ 32 - 1 - unat n"
    using unat_lt_pow [of n] by (simp add: UINT32_MAX_def unat_sub word_le_nat_alt)
  then have g: "\<not> tb_end tb \<ge> UINT32_MAX - n" using assms(3) by (simp add: word_le_nat_alt)
  have av: "n > ucast (ucast (tb_capacity tb - (tb_end tb + 1)) :: u16)"
    unfolding word_less_nat_alt avail_nat [OF assms(2)] using assms(1,4) by simp
  have "0 < unat n" using assms(4) by simp
  then have "0 < (ucast n :: size_t)"
    using unat_lt_pow [of n] by (simp add: word_less_nat_alt unsigned_ucast_eq take_bit_eq_mod)
  then have "double_until (ucast (tb_capacity tb * 2)) (ucast n) = None"
    using assms(1) double_until_zero by simp
  then show ?thesis using g av assms(1) by (simp add: resize_tbuff_def Let_def UINT32_MAX_def)
qed

definition huge_tbuff :: TBuffer where
  "huge_tbuff = \<lparr>tb_data = replicate (2 ^ 31) None, tb_start = 0xFFFF, tb_end = 0xFFFF, tb_capacity = 0x80000000\<rparr>"

theorem resize_hangs_witness: "resize_tbuff True huge_tbuff 1 = Inl Diverges"
proof -
  have d: "drop n (take n xs) = []" for n and xs :: "u8 option list" by simp
  have "tb_ok huge_tbuff"
    unfolding huge_tbuff_def tb_ok_def TBuffer.simps d length_replicate by simp
  from resize_hangs [OF _ this, of 1 True] show ?thesis by (simp add: huge_tbuff_def)
qed

subsection \<open>The buffer as a queue of bytes\<close>

text \<open>Up to 64 KiB the 16 bit free space is exact, and the buffer is a first-in first-out queue.\<close>

definition tb_inv :: "TBuffer \<Rightarrow> bool" where
  "tb_inv tb \<longleftrightarrow> tb_ok tb \<and> unat (tb_end tb) \<le> 65536 \<and> unat (tb_capacity tb) \<le> 65536 + unat (tb_end tb)"

definition tb_room :: "TBuffer \<Rightarrow> nat" where
  "tb_room tb = 65536 - unat (tb_end tb)"

definition tb_put :: "u8 \<Rightarrow> TBuffer \<Rightarrow> TBuffer res" where
  "tb_put b tb = bindE (add_byte_to_tbuffer True (Some tb) b)
     (\<lambda>t. case t of None \<Rightarrow> Inl Bad_pointer | Some tb' \<Rightarrow> Inr tb')"

definition tb_get :: "TBuffer \<Rightarrow> (u8 option \<times> TBuffer) res" where
  "tb_get tb = bindE (get_byte_from_tbuffer (Some tb) False)
     (\<lambda>(rc, b, t). case t of None \<Rightarrow> Inl Bad_pointer | Some tb' \<Rightarrow> Inr (b, tb'))"

lemma tb_bytes_Nil: "tb_ok tb \<Longrightarrow> tb_bytes tb = [] \<longleftrightarrow> tb_start tb = tb_end tb"
  using tb_ok_nat [of tb] by (auto simp: tb_bytes_def word_unat_eq_iff)

lemma tb_put_spec:
  assumes "tb_inv tb" and "0 < tb_room tb"
  shows "\<exists>tb'. tb_put b tb = Inr tb' \<and> tb_inv tb' \<and> tb_bytes tb' = tb_bytes tb @ [b] \<and> tb_room tb = Suc (tb_room tb')"
proof -
  have ok: "tb_ok tb" "unat (tb_end tb) < 65536" "unat (tb_capacity tb) \<le> 65536 + unat (tb_end tb)"
    using assms by (auto simp: tb_inv_def tb_room_def)
  have "\<exists>tb'. add_bytes_to_tbuffer True (Some tb) [b] 1 = Inr (Some tb') \<and> tb_ok tb' \<and>
     tb_bytes tb' = tb_bytes tb @ [b] \<and> tb_data tb' ! unat (tb_end tb') = Some 0 \<and>
     unat (tb_end tb') = unat (tb_end tb) + length [b] \<and> tb_start tb' = tb_start tb \<and>
     (if length [b] \<le> (unat (tb_capacity tb) - Suc (unat (tb_end tb))) mod 65536
      then tb_capacity tb' = tb_capacity tb else unat (tb_capacity tb') = 2 * unat (tb_capacity tb))"
    using ok tb_ok_nat(3) [OF ok(1)] by (intro add_bytes_ok) auto
  then obtain tb' where t: "add_bytes_to_tbuffer True (Some tb) [b] 1 = Inr (Some tb')" "tb_ok tb'"
     "tb_bytes tb' = tb_bytes tb @ [b]" "unat (tb_end tb') = Suc (unat (tb_end tb))"
     "if 1 \<le> (unat (tb_capacity tb) - Suc (unat (tb_end tb))) mod 65536
      then tb_capacity tb' = tb_capacity tb else unat (tb_capacity tb') = 2 * unat (tb_capacity tb)"
    by auto
  have "(unat (tb_capacity tb) - Suc (unat (tb_end tb))) mod 65536 = unat (tb_capacity tb) - Suc (unat (tb_end tb))"
    using ok(3) by simp
  then have "unat (tb_capacity tb') \<le> 65536 + unat (tb_end tb')"
    using t(4,5) ok tb_ok_nat(3) [OF ok(1)] by (auto split: if_splits)
  then show ?thesis
    using t ok by (simp add: tb_put_def add_byte_as_bytes tb_inv_def tb_room_def)
qed

lemma tb_get_spec:
  assumes "tb_ok tb" and "tb_bytes tb = b # bs"
  shows "tb_get tb = Inr (Some b, tb\<lparr>tb_start := tb_start tb + 1\<rparr>)"
    "tb_ok (tb\<lparr>tb_start := tb_start tb + 1\<rparr>)" "tb_bytes (tb\<lparr>tb_start := tb_start tb + 1\<rparr>) = bs"
proof -
  let ?s = "unat (tb_start tb)" and ?e = "unat (tb_end tb)"
  note nat = tb_ok_nat [OF assms(1)]
  have ne: "tb_start tb \<noteq> tb_end tb" using assms(2) tb_bytes_Nil [OF assms(1)] by auto
  then have lt: "?s < ?e" using nat(2) by (simp add: word_unat_eq_iff)
  then have s1: "unat (tb_start tb + 1) = Suc ?s"
    using unat_lt_pow [of "tb_end tb"] by (intro unat_Suc_word) simp
  have dr: "drop ?s (take ?e (tb_data tb)) = tb_data tb ! ?s # drop (Suc ?s) (take ?e (tb_data tb))"
    using lt nat by (simp flip: Cons_nth_drop_Suc)
  then have "tb_data tb ! ?s \<noteq> None" using assms(1) by (metis list.set_intros(1) tb_ok_def)
  moreover have "the (tb_data tb ! ?s) = b" "map the (drop (Suc ?s) (take ?e (tb_data tb))) = bs"
    using assms(2) dr by (auto simp: tb_bytes_def)
  ultimately show "tb_get tb = Inr (Some b, tb\<lparr>tb_start := tb_start tb + 1\<rparr>)"
    "tb_bytes (tb\<lparr>tb_start := tb_start tb + 1\<rparr>) = bs"
    using ne lt nat s1 by (auto simp: tb_get_def get_byte_from_tbuffer_def Let_def tb_bytes_def)
  show "tb_ok (tb\<lparr>tb_start := tb_start tb + 1\<rparr>)"
    using assms(1) lt nat s1 dr by (auto simp: tb_ok_def word_le_nat_alt)
qed

interpretation tbq: fifo_values tb_inv tb_bytes tb_room "\<lambda>_ _. True" tb_put tb_get
proof unfold_locales
  fix tb b
  assume "tb_inv tb" "0 < tb_room tb"
  then show "\<exists>tb'. tb_put b tb = Inr tb' \<and> tb_inv tb' \<and> tb_bytes tb' = tb_bytes tb @ [b] \<and>
      tb_room tb = Suc (tb_room tb')" by (rule tb_put_spec)
next
  fix tb
  assume "tb_inv tb" "tb_bytes tb = []"
  then show "tb_get tb = Inr (None, tb)"
    using tb_bytes_Nil by (simp add: tb_get_def get_byte_from_tbuffer_def tb_inv_def)
next
  fix tb b bs
  assume a: "tb_inv tb" "tb_bytes tb = b # bs"
  then have "tb_ok tb" by (simp add: tb_inv_def)
  from tb_get_spec [OF this a(2)] a(1) show "\<exists>tb'. tb_get tb = Inr (Some b, tb') \<and> tb_inv tb' \<and> tb_bytes tb' = bs"
    by (auto simp: tb_inv_def)
qed simp_all

text \<open>C34: Round trip. The bytes added one by one to a new buffer of any positive size, up to 64 KiB of
  them, are read back one by one in the same order, whatever number of reallocations happens on the
  way; then the buffer is empty.\<close>

theorem tbuffer_roundtrip:
  assumes "0 < n" and "length bs \<le> 65536"
  shows "\<exists>tb'. bindE (bindE (init_tbuff True tb n) (put_all tb_put bs)) (drain tb_get (Suc (length bs))) =
     Inr (bs, tb') \<and> tb_bytes tb' = []"
proof -
  define c where "c = (if n > DEFAULT_TBUFF_SIZE then DEFAULT_TBUFF_SIZE else n)"
  have c: "0 < c" "unat c \<le> 1024"
    using assms(1) by (auto simp: c_def DEFAULT_TBUFF_SIZE_def word_le_nat_alt not_less)
  let ?tb = "(reset_tbuff tb)\<lparr>tb_data := replicate (unat c) None, tb_capacity := c\<rparr>"
  have i: "init_tbuff True tb n = Inr ?tb" by (simp add: init_tbuff_def c_def Let_def)
  have "tb_inv ?tb" "tb_bytes ?tb = []" "length bs \<le> tb_room ?tb"
    using c assms(2) by (auto simp: tb_inv_def tb_ok_def tb_bytes_def tb_room_def reset_tbuff_def)
  from tbq.put_any_drain [OF this, of "Suc (length bs)"] i show ?thesis by auto
qed

theorem tbuffer_roundtrip_witness:
  "\<exists>tb'. bindE (bindE (init_tbuff True ex_tbuff 2) (put_all tb_put [5, 5, 6])) (drain tb_get (Suc (length [5, 5, 6 :: u8]))) =
     Inr ([5, 5, 6], tb') \<and> tb_bytes tb' = []"
  by (rule tbuffer_roundtrip) simp_all

end
