(* ===== verification/Buffy.thy ===== *)
theory Buffy
  imports Message Utilities
begin

text \<open>
  The byte moving code of \<open>src/buffy.c\<close>: the receive buffer of a client, the framing of messages in
  \<open>buffer_read_cb\<close>, and the send buffer. The results of \<open>recv\<close> and \<open>send\<close> are an argument, the list of
  what the successive calls return; when it is used up the call blocks. \<open>msg_len_valid\<close> and
  \<open>add_bytes_to_message\<close> are declared but not defined in the repository: they are arguments too.
\<close>

subsection \<open>The receive buffer\<close>

definition RECV_BUFFY_SIZE :: u32 where "RECV_BUFFY_SIZE = 4096"
definition SEND_BUFFY_SIZE :: size_t where "SEND_BUFFY_SIZE = 4096"
definition TRASH_MSG_LEN :: u32 where "TRASH_MSG_LEN = 4"

datatype recv_out = R_Bytes "u8 list" | R_Intr | R_Again | R_Eof

record rbuf =
  recvBuff :: "u8 list"
  recvBuffPtr :: u32
  recvBuffLen :: u32

definition recv_space :: "rbuf \<Rightarrow> u32" where
  "recv_space rb = RECV_BUFFY_SIZE - recvBuffLen rb"

definition bytes_recv :: "rbuf \<Rightarrow> u32" where
  "bytes_recv rb = recvBuffLen rb - recvBuffPtr rb"

text \<open>The bytes received and not consumed yet.\<close>

definition recv_window :: "rbuf \<Rightarrow> u8 list" where
  "recv_window rb = drop (unat (recvBuffPtr rb)) (take (unat (recvBuffLen rb)) (recvBuff rb))"

definition memmove :: "'a list \<Rightarrow> nat \<Rightarrow> 'a list \<Rightarrow> 'a list res" where
  "memmove dst off bs =
     (if off + length bs \<le> length dst then Inr (take off dst @ bs @ drop (off + length bs) dst)
      else Inl Out_of_bounds)"

text \<open>The compaction at the head of \<open>get_bytes_from_kernel\<close>.\<close>

definition compact_recv :: "rbuf \<Rightarrow> rbuf res" where
  "compact_recv rb =
     (let rb1 = (if recvBuffPtr rb \<ge> recvBuffLen rb then rb\<lparr>recvBuffPtr := 0, recvBuffLen := 0\<rparr> else rb)
      in if recvBuffPtr rb1 > 0 then
           (let untouched = recvBuffLen rb1 - recvBuffPtr rb1
            in if unat (recvBuffPtr rb1) + unat untouched \<le> length (recvBuff rb1)
               then bindE (memmove (recvBuff rb1) 0 (take (unat untouched) (drop (unat (recvBuffPtr rb1)) (recvBuff rb1))))
                 (\<lambda>b. Inr (rb1\<lparr>recvBuff := b, recvBuffPtr := 0, recvBuffLen := recvBuffLen rb1 - untouched\<rparr>))
               else Inl Out_of_bounds)
         else Inr rb1)"

text \<open>The loop on \<open>recv\<close>: the bytes go to the start of the buffer.\<close>

fun recv_loop :: "recv_out list \<Rightarrow> rbuf \<Rightarrow> (int \<times> rbuf \<times> recv_out list) res" where
  "recv_loop [] rb = Inl Diverges"
| "recv_loop (R_Intr # env) rb = recv_loop env rb"
| "recv_loop (R_Again # env) rb = Inr (TRASH_ERROR, rb, env)"
| "recv_loop (R_Eof # env) rb = Inr (TRASH_EOF, rb, env)"
| "recv_loop (R_Bytes bs # env) rb =
     bindE (memmove (recvBuff rb) 0 (take (unat (RECV_BUFFY_SIZE - recvBuffLen rb)) bs)) (\<lambda>b.
     Inr (TRASH_SUCCESS,
          rb\<lparr>recvBuff := b,
             recvBuffLen := recvBuffLen rb + of_nat (min (length bs) (unat (RECV_BUFFY_SIZE - recvBuffLen rb)))\<rparr>,
          env))"

definition get_bytes_from_kernel :: "recv_out list \<Rightarrow> rbuf \<Rightarrow> (int \<times> rbuf \<times> recv_out list) res" where
  "get_bytes_from_kernel env rb = bindE (compact_recv rb) (recv_loop env)"

definition get_bytes_from_buff :: "rbuf \<Rightarrow> nat \<Rightarrow> (u8 list \<times> rbuf) res" where
  "get_bytes_from_buff rb strgLen =
     (let amnt0 = (ucast (recvBuffLen rb - recvBuffPtr rb) :: u16);
          amnt = (if strgLen < unat amnt0 then of_nat strgLen else amnt0)
      in if unat (recvBuffPtr rb) + unat amnt \<le> length (recvBuff rb)
         then Inr (take (unat amnt) (drop (unat (recvBuffPtr rb)) (recvBuff rb)),
                   rb\<lparr>recvBuffPtr := recvBuffPtr rb + ucast amnt\<rparr>)
         else Inl Out_of_bounds)"

definition rb_ok :: "rbuf \<Rightarrow> bool" where
  "rb_ok rb \<longleftrightarrow> length (recvBuff rb) = 4096 \<and> recvBuffPtr rb \<le> recvBuffLen rb \<and> unat (recvBuffLen rb) \<le> 4096"

lemma rb_ok_nat:
  "rb_ok rb \<Longrightarrow> length (recvBuff rb) = 4096 \<and> unat (recvBuffPtr rb) \<le> unat (recvBuffLen rb) \<and> unat (recvBuffLen rb) \<le> 4096"
  by (simp add: rb_ok_def word_le_nat_alt)

lemma recv_space_nat: "unat l \<le> 4096 \<Longrightarrow> unat (RECV_BUFFY_SIZE - l) = 4096 - unat l"
  by (simp add: RECV_BUFFY_SIZE_def unat_sub word_le_nat_alt)

lemma recv_bytes:
  assumes "length (recvBuff rb) = 4096" and "unat (recvBuffLen rb) + length bs \<le> 4096"
  shows "recv_loop (R_Bytes bs # env) rb =
     Inr (TRASH_SUCCESS, rb\<lparr>recvBuff := bs @ drop (length bs) (recvBuff rb),
       recvBuffLen := recvBuffLen rb + of_nat (length bs)\<rparr>, env)"
  using assms recv_space_nat [of "recvBuffLen rb"] by (simp add: memmove_def)

lemma recv_window_after:
  assumes "length (recvBuff r) = 4096" and "recvBuffPtr r = 0" and "unat (recvBuffLen r) + length bs \<le> 4096"
  shows "\<exists>r'. recv_loop (replicate n R_Intr @ R_Bytes bs # env) r = Inr (TRASH_SUCCESS, r', env) \<and> rb_ok r' \<and>
     length (recv_window r') = unat (recvBuffLen r) + length bs \<and> take (length bs) (recv_window r') = bs"
proof -
  have intr: "recv_loop (replicate n R_Intr @ R_Bytes bs # env) r = recv_loop (R_Bytes bs # env) r"
    by (induction n) auto
  have "unat (recvBuffLen r + of_nat (length bs)) = unat (recvBuffLen r) + length bs"
    using assms(3) by (simp add: unat_word_ariths unat_of_nat)
  then show ?thesis
    using assms unfolding intr recv_bytes [OF assms(1,3)] by (simp add: rb_ok_def recv_window_def)
qed

text \<open>What the compaction leaves: the unread bytes at the start, and a length that is wrong unless they were
  there already.\<close>

lemma compact_recv_ok:
  assumes "rb_ok rb"
  shows "\<exists>r. compact_recv rb = Inr r \<and> length (recvBuff r) = 4096 \<and> recvBuffPtr r = 0 \<and>
     recvBuffLen r = (if recvBuffPtr rb = recvBuffLen rb then 0
       else if recvBuffPtr rb = 0 then recvBuffLen rb else recvBuffPtr rb)"
proof -
  note nat = rb_ok_nat [OF assms]
  have "recvBuffLen rb \<le> recvBuffPtr rb \<longleftrightarrow> recvBuffPtr rb = recvBuffLen rb"
    using assms by (auto simp: rb_ok_def)
  moreover have "unat (recvBuffLen rb - recvBuffPtr rb) = unat (recvBuffLen rb) - unat (recvBuffPtr rb)"
    using assms by (simp add: rb_ok_def unat_sub)
  ultimately show ?thesis
    using nat by (auto simp: compact_recv_def Let_def memmove_def word_gt_0)
qed

text \<open>Receiving into an empty buffer is right: the window is then exactly what \<open>recv\<close> delivered,
  after any number of interrupted calls. But when there are unread bytes, the new bytes are stored over
  them at the start of the buffer instead of behind them, while the length still grows by the number of
  new bytes (and loses count of the unread ones when they had to be moved).\<close>

theorem recv_into_buffer:
  assumes "rb_ok rb" and "unat (recvBuffLen rb) + length bs \<le> 4096"
  shows "\<exists>rb'. get_bytes_from_kernel (replicate n R_Intr @ R_Bytes bs # env) rb = Inr (TRASH_SUCCESS, rb', env) \<and>
     rb_ok rb' \<and> take (length bs) (recv_window rb') = bs \<and>
     length (recv_window rb') = length bs +
       (if recvBuffPtr rb = recvBuffLen rb then 0
        else if recvBuffPtr rb = 0 then unat (recvBuffLen rb) else unat (recvBuffPtr rb))"
proof -
  from compact_recv_ok [OF assms(1)] obtain r where
    r: "compact_recv rb = Inr r" "length (recvBuff r) = 4096" "recvBuffPtr r = 0"
     "recvBuffLen r = (if recvBuffPtr rb = recvBuffLen rb then 0
       else if recvBuffPtr rb = 0 then recvBuffLen rb else recvBuffPtr rb)" by blast
  have "unat (recvBuffLen r) + length bs \<le> 4096"
    using assms(2) rb_ok_nat [OF assms(1)] r(4) by auto
  from recv_window_after [OF r(2,3) this, of n env] r show ?thesis
    by (auto simp: get_bytes_from_kernel_def)
qed

definition ex_rbuf :: rbuf where
  "ex_rbuf = \<lparr>recvBuff = [1, 2, 3] @ replicate 4093 0, recvBuffPtr = 0, recvBuffLen = 3\<rparr>"

theorem recv_into_buffer_witness:
  "recv_window ex_rbuf = [1, 2, 3] \<and>
     (\<exists>rb'. get_bytes_from_kernel [R_Intr, R_Bytes [8, 9]] ex_rbuf = Inr (TRASH_SUCCESS, rb', []) \<and>
       take 2 (recv_window rb') = [8, 9] \<and> length (recv_window rb') = 5)"
proof -
  have f: "recvBuffPtr ex_rbuf = 0" "recvBuffLen ex_rbuf = 3" "recv_window ex_rbuf = [1, 2, 3]"
    by (simp_all add: ex_rbuf_def recv_window_def)
  have "rb_ok ex_rbuf" "unat (recvBuffLen ex_rbuf) + length [8, 9 :: u8] \<le> 4096"
    by (simp_all add: ex_rbuf_def rb_ok_def)
  from recv_into_buffer [OF this, of 1 "[]"] obtain rb' where
    "get_bytes_from_kernel [R_Intr, R_Bytes [8, 9]] ex_rbuf = Inr (TRASH_SUCCESS, rb', [])"
    "take (length [8, 9 :: u8]) (recv_window rb') = [8, 9]" "length (recv_window rb') = 5"
    by (auto simp: f)
  then show ?thesis using f(3) by (intro conjI exI [of _ rb']) (simp_all add: numeral_2_eq_2)
qed

text \<open>Reading from the buffer: a request returns the next bytes of the window, as many as were asked for
  or are there, and advances past them.\<close>

theorem get_bytes_advances:
  assumes "rb_ok rb"
  shows "\<exists>rb'. get_bytes_from_buff rb n = Inr (take n (recv_window rb), rb') \<and> rb_ok rb' \<and>
     recv_window rb' = drop n (recv_window rb)"
proof -
  let ?p = "unat (recvBuffPtr rb)" and ?l = "unat (recvBuffLen rb)"
  note nat = rb_ok_nat [OF assms]
  have u: "unat (ucast (recvBuffLen rb - recvBuffPtr rb) :: u16) = ?l - ?p"
  proof -
    have "?l - ?p < 65536" using nat by linarith
    then show ?thesis using assms by (simp add: rb_ok_def unat_sub unsigned_ucast_eq take_bit_eq_mod)
  qed
  define a where "a = (if n < unat (ucast (recvBuffLen rb - recvBuffPtr rb) :: u16) then of_nat n
     else (ucast (recvBuffLen rb - recvBuffPtr rb) :: u16))"
  have a: "unat a = min n (?l - ?p)" using u nat by (auto simp: a_def unat_of_nat)
  have pa: "unat (recvBuffPtr rb + ucast a) = ?p + min n (?l - ?p)"
  proof -
    have "?p + min n (?l - ?p) < 2 ^ 32" using nat by (auto simp: min_def)
    then show ?thesis using a by (simp add: unat_word_ariths unsigned_ucast_eq take_bit_eq_mod mod_less)
  qed
  have w: "take (min n (?l - ?p)) (drop ?p (recvBuff rb)) = take n (recv_window rb)"
    using nat by (simp add: recv_window_def drop_take)
  have pm: "?p + min n (?l - ?p) \<le> 4096" using nat by (auto simp: min_def)
  have "get_bytes_from_buff rb n = Inr (take n (recv_window rb), rb\<lparr>recvBuffPtr := recvBuffPtr rb + ucast a\<rparr>)"
    using nat a w pm by (simp add: get_bytes_from_buff_def Let_def flip: a_def)
  moreover have "rb_ok (rb\<lparr>recvBuffPtr := recvBuffPtr rb + ucast a\<rparr>)"
    using nat pa by (auto simp: rb_ok_def word_le_nat_alt min_def)
  moreover have "recv_window (rb\<lparr>recvBuffPtr := recvBuffPtr rb + ucast a\<rparr>) = drop n (recv_window rb)"
    using nat pa by (auto simp: recv_window_def min_def add.commute)
  ultimately show ?thesis by blast
qed

theorem get_bytes_advances_witness:
  "\<exists>rb'. get_bytes_from_buff ex_rbuf 2 = Inr ([1, 2], rb') \<and> recv_window rb' = [3]"
proof -
  have "rb_ok ex_rbuf" "recv_window ex_rbuf = [1, 2, 3]"
    by (simp_all add: ex_rbuf_def rb_ok_def recv_window_def)
  with get_bytes_advances [of ex_rbuf 2] show ?thesis by auto
qed

subsection \<open>Reading a message\<close>

text \<open>
  \<open>buffer_read_cb\<close>. \<open>availBytes\<close> is a local that only the receiving branch sets: \<open>None\<close> until then.
  The end of file that the code compares with is \<open>EOF\<close>, which is -1. The loop \<open>goto get_more_data\<close> gets
  fuel; the results of \<open>recv\<close> it consumes are a list, so that enough fuel is always the length of that
  list and of the messages in it.
\<close>

definition c_EOF :: int where "c_EOF = -1"

record 'm client =
  td_rb :: rbuf
  partialMsg :: bool
  remainingMsg :: u32
  td_msg :: 'm

datatype read_end = RE_Closed | RE_Blocked | RE_Send

definition be32 :: "u8 list \<Rightarrow> u32" where
  "be32 bs = of_nat (foldl (\<lambda>n b. 256 * n + unat b) 0 bs)"

definition read_frame :: "(u32 \<Rightarrow> bool) \<Rightarrow> u32 \<Rightarrow> 'm client \<Rightarrow> (u32 \<times> 'm client) option option res" where
  "read_frame msg_len_valid avail td =
     (if partialMsg td then
        (let a = (if remainingMsg td < avail then remainingMsg td else avail)
         in Inr (Some (Some (a, td\<lparr>remainingMsg := remainingMsg td - a\<rparr>))))
      else if avail < TRASH_MSG_LEN then Inr None
      else
        bindE (get_bytes_from_buff (td_rb td) 4) (\<lambda>(bs, rb).
          let len = be32 bs - 4
          in if \<not> msg_len_valid len then Inr (Some None)
             else
               let a = (if len < avail then len else avail)
               in Inr (Some (Some (a, td\<lparr>td_rb := rb, remainingMsg := len - a, partialMsg := (len - a > 0)\<rparr>)))))"

fun buffer_read_cb :: "nat \<Rightarrow> (u32 \<Rightarrow> bool) \<Rightarrow> ('m \<Rightarrow> u8 list \<Rightarrow> 'm) \<Rightarrow> recv_out list \<Rightarrow> u32 option \<Rightarrow>
    'm client \<Rightarrow> (read_end \<times> 'm client) res" where
  "buffer_read_cb 0 valid addm env avail td = Inl Diverges"
| "buffer_read_cb (Suc fuel) valid addm env avail td =
     (let frame = (\<lambda>av env td.
        case av of
          None \<Rightarrow> Inl Uninitialised
        | Some a0 \<Rightarrow>
            bindE (read_frame valid a0 td) (\<lambda>r.
              case r of
                None \<Rightarrow> buffer_read_cb fuel valid addm env av td
              | Some None \<Rightarrow> Inr (RE_Closed, td)
              | Some (Some (a, td1)) \<Rightarrow>
                  if partialMsg td1 then
                    (if length (recvBuff (td_rb td1)) < unat (recvBuffPtr (td_rb td1)) + unat a then Inl Out_of_bounds
                     else let td2 = td1\<lparr>td_msg := addm (td_msg td1)
                           (take (unat a) (drop (unat (recvBuffPtr (td_rb td1))) (recvBuff (td_rb td1))))\<rparr>
                     in if remainingMsg td2 > 0 then buffer_read_cb fuel valid addm env (Some a) td2
                        else Inr (RE_Send, td2\<lparr>partialMsg := False\<rparr>))
                  else Inr (RE_Send, td1)))
      in if recv_space (td_rb td) > 0 then
           bindE (get_bytes_from_kernel env (td_rb td)) (\<lambda>(rc, rb, env').
             let td1 = td\<lparr>td_rb := rb\<rparr>
             in if rc = c_EOF then Inr (RE_Closed, td1)
                else if rc = TRASH_ERROR then Inr (RE_Blocked, td1)
                else if bytes_recv rb \<le> 0 then buffer_read_cb fuel valid addm env' (Some (bytes_recv rb)) td1
                else frame (Some (bytes_recv rb)) env' td1)
         else frame avail env td)"

text \<open>The two ends of reading are confused. \<open>get_bytes_from_kernel\<close> reports "would block" as -1 and the
  end of the stream as -2, but the callback compares the result with \<open>EOF\<close>, which is -1: a read that
  would block closes the client, and the end of the stream of a client without unread bytes is not noticed
  at all, so that the callback calls \<open>recv\<close> again and again for as long as it is let.\<close>

theorem read_cb_confuses_ends:
  assumes "rb_ok (td_rb td)" and "recvBuffPtr (td_rb td) = recvBuffLen (td_rb td)"
    and "0 < recv_space (td_rb td)"
  shows "(\<exists>td'. buffer_read_cb (Suc fuel) valid addm (R_Again # env) av td = Inr (RE_Closed, td')) \<and>
     buffer_read_cb n valid addm (replicate n R_Eof @ env) av td = Inl Diverges"
proof -
  have c: "compact_recv rb = Inr (rb\<lparr>recvBuffPtr := 0, recvBuffLen := 0\<rparr>)"
    if "recvBuffPtr rb = recvBuffLen rb" for rb
    using that by (simp add: compact_recv_def Let_def)
  have "buffer_read_cb n valid addm (replicate n R_Eof @ env) av td = Inl Diverges"
    using assms(2,3)
  proof (induction n arbitrary: av td)
    case (Suc n)
    let ?rb = "(td_rb td)\<lparr>recvBuffPtr := 0, recvBuffLen := 0\<rparr>"
    have "buffer_read_cb n valid addm (replicate n R_Eof @ env) (Some 0) (td\<lparr>td_rb := ?rb\<rparr>) = Inl Diverges"
      by (rule Suc.IH) (simp_all add: recv_space_def RECV_BUFFY_SIZE_def)
    then show ?case
      using Suc.prems c [of "td_rb td"]
      by (simp add: get_bytes_from_kernel_def TRASH_EOF_def TRASH_ERROR_def c_EOF_def bytes_recv_def Let_def)
  qed simp
  then show ?thesis
    using assms(3) c [OF assms(2)] by (simp add: get_bytes_from_kernel_def TRASH_ERROR_def c_EOF_def Let_def)
qed

definition ex_client :: "u8 list client" where
  "ex_client = \<lparr>td_rb = \<lparr>recvBuff = replicate 4096 0, recvBuffPtr = 0, recvBuffLen = 0\<rparr>,
     partialMsg = False, remainingMsg = 0, td_msg = []\<rparr>"

theorem read_cb_confuses_ends_witness:
  "\<exists>td'. buffer_read_cb 1 (\<lambda>_. True) (@) [R_Again] None ex_client = Inr (RE_Closed, td')"
proof -
  have "rb_ok (td_rb ex_client)" "recvBuffPtr (td_rb ex_client) = recvBuffLen (td_rb ex_client)"
    "0 < recv_space (td_rb ex_client)"
    by (simp_all add: ex_client_def rb_ok_def recv_space_def RECV_BUFFY_SIZE_def)
  from read_cb_confuses_ends [OF this, of 0 "\<lambda>_. True" "(@)" "[]" None] show ?thesis by simp
qed

subsection \<open>The send buffer\<close>

text \<open>\<open>struct SendBuff\<close> is not declared in the repository; these are the fields the code uses. \<open>sb_valid\<close> is
  whether the pointer still points to live memory.\<close>

record SendBuff =
  sendBuff :: "u8 list"
  sendBuffSize :: size_t
  sb_start :: size_t
  sb_end :: size_t

datatype send_out = S_Sent nat | S_Intr | S_Fail | S_Zero

text \<open>\<open>flush_data\<close>: each \<open>send\<close> takes its bytes from the start of the buffer; \<open>len\<close> accumulates. The result
  has the bytes given to the kernel. A kernel that accepts \<open>n\<close> bytes accepts at most what was offered.\<close>

fun flush_loop :: "send_out list \<Rightarrow> size_t \<Rightarrow> SendBuff \<Rightarrow> (int \<times> u8 list \<times> SendBuff) res" where
  "flush_loop env len sb =
     (if sb_start sb < sb_end sb then
        (case env of
           [] \<Rightarrow> Inl Diverges
         | S_Intr # env' \<Rightarrow> flush_loop env' len sb
         | S_Fail # env' \<Rightarrow> Inr (TRASH_ERROR, [], sb)
         | S_Zero # env' \<Rightarrow> Inr (TRASH_EOF, [], sb)
         | S_Sent n # env' \<Rightarrow>
             (let k = min (Suc n) (unat (sb_end sb - sb_start sb));
                  len' = len + of_nat k
              in if unat (sb_end sb - sb_start sb) \<le> length (sendBuff sb)
                 then bindE (flush_loop env' len' (sb\<lparr>sb_start := sb_start sb + len'\<rparr>)) (\<lambda>(rc, out, sb').
                        Inr (rc, take k (sendBuff sb) @ out, sb'))
                 else Inl Out_of_bounds))
      else Inr (TRASH_SUCCESS, [], sb\<lparr>sb_start := 0, sb_end := 0\<rparr>))"

declare flush_loop.simps [simp del]

definition flush_data :: "send_out list \<Rightarrow> SendBuff \<Rightarrow> (int \<times> u8 list \<times> SendBuff) res" where
  "flush_data env sb = flush_loop env 0 sb"

definition buffer_write_cb :: "bool \<Rightarrow> send_out list \<Rightarrow> SendBuff \<Rightarrow> (u8 list \<times> SendBuff) res" where
  "buffer_write_cb mok env sb =
     bindE (flush_data env sb) (\<lambda>(rc, out, sb1).
       if sendBuffSize sb1 \<noteq> SEND_BUFFY_SIZE then
         (if mok then Inr (out, sb1\<lparr>sendBuffSize := SEND_BUFFY_SIZE,
              sendBuff := take 4096 (sendBuff sb1) @ replicate (4096 - length (sendBuff sb1)) 0,
              sb_start := 0, sb_end := 0\<rparr>)
          else Inr (out, sb1\<lparr>sendBuffSize := SEND_BUFFY_SIZE, sendBuff := [], sb_start := 0, sb_end := 0\<rparr>))
       else Inr (out, sb1))"

definition resize_send_buff :: "bool \<Rightarrow> u8 list \<Rightarrow> size_t \<Rightarrow> size_t \<Rightarrow> u8 list \<times> size_t" where
  "resize_send_buff mok buf len needed =
     (if needed > len then
        ((if mok then take (unat needed) buf @ replicate (unat needed - length buf) 0 else []), needed)
      else (buf, len))"

text \<open>\<open>put_bytes_on_buff\<close> gets the buffer pointer by value. The result has the memory it wrote to.\<close>

definition put_bytes_on_buff :: "bool \<Rightarrow> u8 list \<Rightarrow> size_t \<Rightarrow> size_t \<Rightarrow> u8 list \<Rightarrow> (u8 list \<times> size_t \<times> size_t) res" where
  "put_bytes_on_buff mok buf len endp bs =
     (let space = len - endp;
          (buf1, len1) = (if of_nat (length bs) > space
             then resize_send_buff mok buf len (of_nat (length bs) - space) else (buf, len))
      in bindE (memmove buf1 (unat endp) bs) (\<lambda>b. Inr (b, len1, endp + of_nat (length bs))))"

text \<open>Queueing bytes for sending works while they fit, and overflows the buffer as soon as they do not:
  the buffer is grown to the number of missing bytes instead of by it, and only when that is more than
  it has.\<close>

theorem put_bytes_overflows:
  assumes "length buf = unat len" and "0 < len" and "endp \<le> len" and "unat endp + length bs < 2 ^ 64"
  shows "put_bytes_on_buff True buf len endp bs =
     (if unat endp + length bs \<le> unat len
      then Inr (take (unat endp) buf @ bs @ drop (unat endp + length bs) buf, len, endp + of_nat (length bs))
      else Inl Out_of_bounds)"
proof -
  have s: "unat (len - endp) = unat len - unat endp" using assms(3) by (simp add: unat_sub)
  have e: "unat endp \<le> unat len" using assms(3) by (simp add: word_le_nat_alt)
  have b: "unat (of_nat (length bs) :: size_t) = length bs" using assms(4) by (simp add: unat_of_nat)
  have g: "of_nat (length bs) > len - endp \<longleftrightarrow> \<not> unat endp + length bs \<le> unat len"
    using s b e by (auto simp: word_less_nat_alt)
  show ?thesis
  proof (cases "unat endp + length bs \<le> unat len")
    case True
    then show ?thesis using g assms(1) by (simp add: put_bytes_on_buff_def memmove_def)
  next
    case False
    have "unat (of_nat (length bs) - (len - endp)) = length bs - (unat len - unat endp)"
      using g False s b by (simp add: unat_sub less_imp_le)
    then have "length (fst (resize_send_buff True buf len (of_nat (length bs) - (len - endp)))) < unat endp + length bs"
      using False e assms(1,2) by (auto simp: resize_send_buff_def word_less_nat_alt)
    moreover obtain b l where "resize_send_buff True buf len (of_nat (length bs) - (len - endp)) = (b, l)"
      by (cases "resize_send_buff True buf len (of_nat (length bs) - (len - endp))")
    ultimately show ?thesis using g False by (simp add: put_bytes_on_buff_def memmove_def)
  qed
qed

theorem put_bytes_overflows_witness:
  "put_bytes_on_buff True [1, 2, 0, 0] 4 2 [7, 8] = Inr ([1, 2, 7, 8], 4, 4) \<and>
   put_bytes_on_buff True [1, 2, 0, 0] 4 2 [7, 8, 9] = Inl Out_of_bounds"
  using put_bytes_overflows [of "[1, 2, 0, 0]" 4 2 "[7, 8]"] put_bytes_overflows [of "[1, 2, 0, 0]" 4 2 "[7, 8, 9]"]
  by simp

text \<open>Flushing is right when the kernel takes everything at once, after any number of interruptions:
  exactly the queued bytes are sent and the buffer is empty.\<close>

theorem flush_all_at_once:
  assumes "sb_start sb = 0" and "0 < sb_end sb" and "unat (sb_end sb) \<le> length (sendBuff sb)"
    and "unat (sb_end sb) \<le> Suc k"
  shows "flush_data (replicate n S_Intr @ S_Sent k # env) sb =
     Inr (TRASH_SUCCESS, take (unat (sb_end sb)) (sendBuff sb), sb\<lparr>sb_start := 0, sb_end := 0\<rparr>)"
proof -
  have fin: "flush_loop env' l (sb\<lparr>sb_start := sb_end sb\<rparr>) = Inr (TRASH_SUCCESS, [], sb\<lparr>sb_start := 0, sb_end := 0\<rparr>)"
    for env' l by (subst flush_loop.simps) simp
  have send: "flush_loop (S_Sent k # env) 0 sb =
      Inr (TRASH_SUCCESS, take (unat (sb_end sb)) (sendBuff sb), sb\<lparr>sb_start := 0, sb_end := 0\<rparr>)"
    using assms fin by (subst flush_loop.simps) (simp add: min_def)
  have "flush_loop (replicate n S_Intr @ S_Sent k # env) 0 sb = flush_loop (S_Sent k # env) 0 sb"
  proof (induction n)
    case (Suc n)
    then show ?case using assms(1,2) by (subst flush_loop.simps) simp
  qed simp
  then show ?thesis using send by (simp add: flush_data_def)
qed

definition ex_send :: SendBuff where
  "ex_send = \<lparr>sendBuff = [1, 2, 3, 4], sendBuffSize = 4096, sb_start = 0, sb_end = 4\<rparr>"

theorem flush_all_at_once_witness:
  "flush_data [S_Intr, S_Sent 9] ex_send = Inr (TRASH_SUCCESS, [1, 2, 3, 4], ex_send\<lparr>sb_end := 0\<rparr>)"
  using flush_all_at_once [of ex_send 9 1 "[]"] by (simp add: ex_send_def)

text \<open>A partial send breaks the stream: the next \<open>send\<close> starts again at the first byte of the buffer and
  the position advances by the total sent so far, so that the peer gets the first bytes twice and never
  the rest, while the flush reports success.\<close>

theorem flush_partial_repeats:
  "flush_data [S_Sent 1, S_Sent 1] ex_send = Inr (TRASH_SUCCESS, [1, 2, 1, 2], ex_send\<lparr>sb_end := 0\<rparr>)"
  by (simp add: ex_send_def flush_data_def flush_loop.simps)

subsection \<open>Clients\<close>

text \<open>The event of a client and its mutex. The results of the event library are arguments, in the order of the
  calls.\<close>

datatype CurrEv = READ_EV | WRITE_EV

record tdata =
  td_fd :: int
  td_curr :: CurrEv
  td_ev :: "CurrEv option"
  td_added :: bool
  tdMutex :: bool
  td_closed :: bool
  td_bufs :: bool

definition data_wait :: "bool \<Rightarrow> bool \<Rightarrow> tdata \<Rightarrow> int \<times> tdata" where
  "data_wait new_ok add_ok td =
     (if \<not> new_ok then (TRASH_ERROR, td\<lparr>td_ev := None, td_added := False\<rparr>)
      else if \<not> add_ok then (TRASH_ERROR, td\<lparr>td_ev := Some READ_EV, td_added := False\<rparr>)
      else (TRASH_SUCCESS, td\<lparr>td_ev := Some READ_EV, td_added := True, td_curr := READ_EV\<rparr>))"

text \<open>\<open>data_send\<close> locks the mutex; locking a mutex that is held blocks forever.\<close>

definition data_send :: "bool \<Rightarrow> bool \<Rightarrow> bool \<Rightarrow> tdata \<Rightarrow> (int \<times> tdata) res" where
  "data_send del_ok new_ok add_ok td =
     (if tdMutex td then Inl Diverges
      else
        let td1 = td\<lparr>tdMutex := True\<rparr>
        in if \<not> del_ok then Inr (TRASH_ERROR, td1)
           else if \<not> new_ok then Inr (TRASH_ERROR, td1\<lparr>td_ev := None, td_added := False\<rparr>)
           else if \<not> add_ok then Inr (TRASH_ERROR, td1\<lparr>td_ev := Some WRITE_EV, td_added := False\<rparr>)
           else Inr (TRASH_SUCCESS,
                  td1\<lparr>td_ev := Some WRITE_EV, td_added := True, td_curr := WRITE_EV, tdMutex := False\<rparr>))"

definition close_client_internal :: "tdata \<Rightarrow> tdata res" where
  "close_client_internal td =
     (case td_ev td of
        None \<Rightarrow> Inl Bad_pointer
      | Some e \<Rightarrow> Inr (td\<lparr>td_closed := (td_closed td \<or> td_fd td \<noteq> -1), td_added := False, td_bufs := False\<rparr>))"

definition close_client :: "tdata option \<Rightarrow> (int \<times> tdata option) res" where
  "close_client tdo =
     (case tdo of
        None \<Rightarrow> Inr (TRASH_ERROR, None)
      | Some td \<Rightarrow> bindE (close_client_internal td) (\<lambda>td'. Inr (TRASH_SUCCESS, Some td')))"

text \<open>\<open>construct_client\<close>. The error path passes the address of the caller's variable to \<open>free\<close>.\<close>

definition construct_client :: "bool \<Rightarrow> bool \<Rightarrow> bool \<Rightarrow> bool \<Rightarrow> bool \<Rightarrow> bool \<Rightarrow> int \<Rightarrow> bool \<Rightarrow> (int \<times> tdata) res" where
  "construct_client mok msg_ok build_ok mutex_ok new_ok add_ok clientFd isUnixSock =
     (if \<not> mok \<or> \<not> isUnixSock \<or> \<not> msg_ok \<or> \<not> build_ok \<or> \<not> mutex_ok then Inl Bad_pointer
      else
        let td = \<lparr>td_fd = clientFd, td_curr = READ_EV, td_ev = None, td_added = False, tdMutex = False,
                  td_closed = False, td_bufs = True\<rparr>
        in case data_wait new_ok add_ok td of (rc, td') \<Rightarrow>
             if rc \<noteq> 0 then Inl Bad_pointer else Inr (TRASH_SUCCESS, td'))"

text \<open>\<open>trash_flush\<close>: flush now, or wait for the socket to become writable. \<open>again\<close> is whether \<open>errno\<close> is
  \<open>EAGAIN\<close>.\<close>

definition trash_flush :: "send_out list \<Rightarrow> bool \<Rightarrow> bool \<Rightarrow> bool \<Rightarrow> bool \<Rightarrow> (tdata \<times> SendBuff) option \<Rightarrow>
    (bool \<times> (tdata \<times> SendBuff) option \<times> u8 list) res" where
  "trash_flush env again del_ok new_ok add_ok tdo =
     (case tdo of
        None \<Rightarrow> Inr (False, None, [])
      | Some (td, sb) \<Rightarrow>
          bindE (flush_data env sb) (\<lambda>(rc, out, sb1).
            if rc < 0 then
              (if again then
                 bindE (data_send del_ok new_ok add_ok td) (\<lambda>(rc1, td1). Inr (False, Some (td1, sb1), out))
               else Inr (False, Some (td, sb1), out))
            else Inr (True, Some (td, sb1), out)))"

text \<open>A client whose switch to writing fails once is stuck: \<open>data_send\<close> leaves its mutex locked on every
  error path, so that it releases the mutex exactly when it succeeds, and the next call blocks forever.\<close>

theorem data_send_keeps_lock:
  assumes "\<not> tdMutex td"
  shows "\<exists>rc td'. data_send del_ok new_ok add_ok td = Inr (rc, td') \<and>
     (rc = TRASH_SUCCESS \<longleftrightarrow> del_ok \<and> new_ok \<and> add_ok) \<and> (tdMutex td' \<longleftrightarrow> rc \<noteq> TRASH_SUCCESS) \<and>
     (rc \<noteq> TRASH_SUCCESS \<longrightarrow> data_send d n a td' = Inl Diverges)"
  using assms by (auto simp: data_send_def Let_def TRASH_SUCCESS_def TRASH_ERROR_def)

definition ex_td :: tdata where
  "ex_td = \<lparr>td_fd = 5, td_curr = READ_EV, td_ev = Some READ_EV, td_added = True, tdMutex = False,
     td_closed = False, td_bufs = True\<rparr>"

theorem data_send_keeps_lock_witness:
  "\<exists>td'. data_send True False True ex_td = Inr (TRASH_ERROR, td') \<and> data_send True True True td' = Inl Diverges"
proof -
  have "\<not> tdMutex ex_td" by (simp add: ex_td_def)
  from data_send_keeps_lock [OF this, of True False True True True True] show ?thesis
    by (auto simp: data_send_def ex_td_def)
qed

end
