(* ===== verification/Server.thy ===== *)
theory Server
  imports Il Buffy
begin

text \<open>
  The listening side of \<open>src/server.c\<close> and the start of the program in \<open>src/main.c\<close>: creating sockets,
  registering and closing listeners, and accepting clients. Addresses, sockets and events come from the
  operating system and the event library; the results of their calls are arguments.
\<close>

subsection \<open>TCP sockets\<close>

text \<open>One entry of the list that \<open>getaddrinfo\<close> returns, with what the calls on it do: the descriptor that
  \<open>socket\<close> returns (-1 on failure), whether \<open>setsockopt\<close> and \<open>bind\<close> succeed.\<close>

record addrinfo =
  ai_family :: nat
  ai_fd :: int
  ai_reuse :: bool
  ai_bind :: bool
  ai_addr :: "nat \<times> string"

text \<open>The loop over the list, from \<open>server_info\<close> on: the entry that was bound, and the descriptors closed. The
  entry is not advanced when \<open>setsockopt\<close> fails.\<close>

fun tcp_loop :: "nat \<Rightarrow> addrinfo list \<Rightarrow> (addrinfo option \<times> int list) res" where
  "tcp_loop 0 ais = Inl Diverges"
| "tcp_loop (Suc fuel) [] = Inr (None, [])"
| "tcp_loop (Suc fuel) (ai # ais) =
     (if ai_fd ai = -1 then tcp_loop fuel ais
      else if ai_family ai = AF_INET \<and> \<not> ai_reuse ai then
        bindE (tcp_loop fuel (ai # ais)) (\<lambda>(r, cl). Inr (r, ai_fd ai # cl))
      else if ai_bind ai then Inr (Some ai, [])
      else bindE (tcp_loop fuel ais) (\<lambda>(r, cl). Inr (r, ai_fd ai # cl)))"

text \<open>\<open>create_tcp_sock\<close>: the list is freed before the address of the bound entry is read.\<close>

definition create_tcp_sock :: "nat \<Rightarrow> addrinfo list option \<Rightarrow> int res" where
  "create_tcp_sock fuel res =
     (case res of
        None \<Rightarrow> Inr TRASH_ERROR
      | Some ais \<Rightarrow>
          bindE (tcp_loop fuel ais) (\<lambda>(server_info, cl).
            case server_info of
              None \<Rightarrow> Inr TRASH_ERROR
            | Some ai \<Rightarrow> Inl Bad_pointer))"

text \<open>An entry the loop cannot get past.\<close>

definition stuck_entry :: "addrinfo \<Rightarrow> bool" where
  "stuck_entry ai \<longleftrightarrow> ai_fd ai \<noteq> -1 \<and> ai_family ai = AF_INET \<and> \<not> ai_reuse ai"

definition usable_entry :: "addrinfo \<Rightarrow> bool" where
  "usable_entry ai \<longleftrightarrow> ai_fd ai \<noteq> -1 \<and> \<not> stuck_entry ai \<and> ai_bind ai"

lemma tcp_loop_spec:
  assumes "\<forall>ai\<in>set ais. \<not> stuck_entry ai" and "length ais < fuel"
  shows "tcp_loop fuel ais =
     Inr (find usable_entry ais, map ai_fd [ai \<leftarrow> takeWhile (\<lambda>ai. \<not> usable_entry ai) ais. ai_fd ai \<noteq> -1])"
  using assms
proof (induction ais arbitrary: fuel)
  case Nil
  then show ?case by (cases fuel) auto
next
  case (Cons ai ais)
  then obtain f where f: "fuel = Suc f" "length ais < f" by (cases fuel) auto
  with Cons.IH [of f] Cons.prems(1) show ?case
    by (auto simp: stuck_entry_def usable_entry_def)
qed

lemma tcp_loop_stuck: "stuck_entry ai \<Longrightarrow> tcp_loop fuel (ai # ais) = Inl Diverges"
  by (induction fuel) (auto simp: stuck_entry_def)

text \<open>C37: The search for a TCP socket takes the first entry whose socket can be created and bound, and closes
  every descriptor it created before, provided that the options can be set; but an IPv4 entry on which
  \<open>setsockopt\<close> fails is tried for ever, since the loop does not advance.\<close>

theorem tcp_search:
  assumes "length ais < fuel"
  shows "((\<forall>ai\<in>set ais. \<not> stuck_entry ai) \<longrightarrow> tcp_loop fuel ais =
       Inr (find usable_entry ais, map ai_fd [ai \<leftarrow> takeWhile (\<lambda>ai. \<not> usable_entry ai) ais. ai_fd ai \<noteq> -1])) \<and>
     (stuck_entry ai \<longrightarrow> tcp_loop n (ai # ais) = Inl Diverges)"
  using tcp_loop_spec [OF _ assms] tcp_loop_stuck by blast

definition ex_ai :: "int \<Rightarrow> bool \<Rightarrow> addrinfo" where
  "ex_ai fd b = \<lparr>ai_family = AF_INET, ai_fd = fd, ai_reuse = True, ai_bind = b, ai_addr = (AF_INET, [])\<rparr>"

theorem tcp_search_witness:
  "tcp_loop 4 [ex_ai (-1) True, ex_ai 5 False, ex_ai 6 True] = Inr (Some (ex_ai 6 True), [5])"
proof -
  have "\<forall>ai\<in>set [ex_ai (-1) True, ex_ai 5 False, ex_ai 6 True]. \<not> stuck_entry ai"
    by (simp add: ex_ai_def stuck_entry_def)
  with tcp_search [of "[ex_ai (-1) True, ex_ai 5 False, ex_ai 6 True]" 4] show ?thesis
    by (simp add: usable_entry_def stuck_entry_def ex_ai_def)
qed

subsection \<open>Unix sockets\<close>

definition socket_name :: "string \<Rightarrow> string" where
  "socket_name dir = dir @ ''/trash.socket''"

text \<open>The 108 bytes of \<open>sun_path\<close> after \<open>snprintf\<close>, which may write 108 bytes from \<open>sunIndex\<close> on.\<close>

definition sun_path_of :: "bool \<Rightarrow> string \<Rightarrow> string res" where
  "sun_path_of isAbstract dir =
     (let s = take 107 (socket_name dir) @ [NUL]; i = (if isAbstract then 1 else 0)
      in copy_to (replicate 108 NUL) i s (length s))"

definition unix_addrlen :: "bool \<Rightarrow> string \<Rightarrow> nat" where
  "unix_addrlen isAbstract path = (if \<not> isAbstract then 110 else 2 + length (cstr path))"

record unixenv =
  u_fd :: int
  u_bind :: bool
  u_chmod :: bool

definition create_unix_sock :: "unixenv \<Rightarrow> bool \<Rightarrow> string \<Rightarrow> TrashAddr \<Rightarrow> (int \<times> TrashAddr) res" where
  "create_unix_sock u isAbstract dir taddr =
     (if u_fd u = -1 then Inr (TRASH_ERROR, taddr)
      else
        bindE (sun_path_of isAbstract dir) (\<lambda>path.
          let len = unix_addrlen isAbstract path
          in if \<not> u_bind u then Inr (TRASH_ERROR, taddr)
             else
               bindE (copy_to (ss_rest taddr) 0 path (len - 2)) (\<lambda>r.
               let taddr1 = taddr\<lparr>ss_family := AF_UNIX, ss_rest := r, addrlen := len\<rparr>
               in if \<not> isAbstract \<and> \<not> u_chmod u then Inr (TRASH_ERROR, taddr1)
                  else Inr (TRASH_SUCCESS, taddr1))))"

text \<open>A path name socket is bound to the whole name, and its address is stored as it was bound. An abstract
  socket loses its name: the length of the address is computed from a string that starts with a zero byte,
  so that only the family remains, and the stored address has no name either.\<close>

theorem abstract_name_lost:
  assumes "NUL \<notin> set dir" and "length dir \<le> 93" and "u_fd u \<noteq> -1" and "u_bind u" and "u_chmod u"
    and "length (ss_rest taddr) = 126"
  shows "(\<exists>t. create_unix_sock u False dir taddr = Inr (TRASH_SUCCESS, t) \<and> addrlen t = 110 \<and>
       is_unix_socket t \<and> cstr (ss_rest t) = socket_name dir) \<and>
     (\<exists>t. create_unix_sock u True dir taddr = Inr (TRASH_SUCCESS, t) \<and> addrlen t = 2 \<and> ss_rest t = ss_rest taddr)"
proof -
  let ?n = "socket_name dir"
  have n: "NUL \<notin> set ?n" "length ?n \<le> 106" using assms(1,2) by (simp_all add: socket_name_def NUL_def)
  have p: "sun_path_of False dir = Inr (?n @ NUL # replicate (107 - length ?n) NUL)"
    "sun_path_of True dir = Inr (NUL # ?n @ NUL # replicate (106 - length ?n) NUL)"
    using n(2) by (simp_all add: sun_path_of_def copy_to_def Let_def)
  have "cstr (NUL # x) = []" for x by (simp add: cstr_def)
  moreover have "cstr (?n @ NUL # x) = ?n" for x by (rule cstr_append_NUL [OF n(1)])
  ultimately show ?thesis
    using assms(3-6) n(2) by (simp add: create_unix_sock_def p unix_addrlen_def copy_to_def is_unix_socket_def)
qed

definition ex_addr :: TrashAddr where
  "ex_addr = \<lparr>ss_family = 0, ss_rest = replicate 126 NUL, addrlen = 0\<rparr>"

definition ex_unix :: unixenv where
  "ex_unix = \<lparr>u_fd = 4, u_bind = True, u_chmod = True\<rparr>"

theorem abstract_name_lost_witness:
  "\<exists>t. create_unix_sock ex_unix True ''/tmp'' ex_addr = Inr (TRASH_SUCCESS, t) \<and> addrlen t = 2"
proof -
  have "NUL \<notin> set ''/tmp''" "length ''/tmp'' \<le> 93" "u_fd ex_unix \<noteq> -1" "u_bind ex_unix" "u_chmod ex_unix"
    "length (ss_rest ex_addr) = 126"
    by (simp_all add: NUL_def ex_unix_def ex_addr_def)
  from abstract_name_lost [OF this] show ?thesis by blast
qed

subsection \<open>Listeners\<close>

record Listener =
  l_fd :: int
  l_active :: bool
  l_ev :: bool
  l_addr :: TrashAddr

record server =
  listeners :: "nat vlist"
  ls_of :: "nat \<rightharpoonup> Listener"
  sv_next :: nat
  sv_closed :: "int list"
  sv_unlinked :: "string list"

record sockenv =
  se_unix :: unixenv
  se_tcp :: "addrinfo list option"
  se_fuel :: nat
  se_calloc :: bool
  se_listen :: bool

text \<open>\<open>init_server_sock\<close>. For \<open>AF_INET6\<close> no socket is made and \<open>listen(-1)\<close> fails.\<close>

definition init_server_sock :: "sockenv \<Rightarrow> nat \<Rightarrow> string \<Rightarrow> bool \<Rightarrow> server \<Rightarrow> (int \<times> server) res" where
  "init_server_sock se sockFam hostName isAbstract sv =
     (if \<not> se_calloc se then Inr (TRASH_ERROR, sv)
      else
        let a0 = \<lparr>ss_family = sockFam, ss_rest = replicate 126 NUL, addrlen = 0\<rparr>;
            close_fd = (\<lambda>fd sv. if fd \<noteq> -1 then sv\<lparr>sv_closed := sv_closed sv @ [fd]\<rparr> else sv)
        in bindE (if sockFam = AF_UNIX then
                    bindE (create_unix_sock (se_unix se) isAbstract hostName a0)
                      (\<lambda>(rc, a). Inr (rc, u_fd (se_unix se), a))
                  else if sockFam = AF_INET then
                    bindE (create_tcp_sock (se_fuel se) (se_tcp se)) (\<lambda>rc. Inr (rc, -1, a0))
                  else if sockFam = AF_INET6 then Inr (TRASH_SUCCESS, -1, a0)
                  else Inr (TRASH_ERROR, -1, a0)) (\<lambda>(rc, fd, a).
             if rc \<noteq> 0 then Inr (TRASH_ERROR, close_fd fd sv)
             else if fd = -1 \<or> \<not> se_listen se then Inr (TRASH_ERROR, close_fd fd sv)
             else
               let n = sv_next sv
               in Inr (TRASH_SUCCESS,
                    sv\<lparr>listeners := vl_append n (listeners sv), sv_next := Suc n,
                       ls_of := (ls_of sv)(n \<mapsto> \<lparr>l_fd = fd, l_active = False, l_ev = False, l_addr = a\<rparr>)\<rparr>)))"

definition init_server :: "sockenv \<Rightarrow> nat \<Rightarrow> string \<Rightarrow> bool \<Rightarrow> server \<Rightarrow> (int \<times> server) res" where
  "init_server se sockFam hostname isAbstract sv =
     bindE (init_server_sock se sockFam hostname isAbstract sv) (\<lambda>(rc, sv').
       if rc \<noteq> 0 then Inr (TRASH_ERROR, sv') else Inr (TRASH_SUCCESS, sv'))"

text \<open>\<open>start_accepting_connections\<close>; \<open>add_ok\<close> says for which listeners the event can be added.\<close>

fun start_listeners :: "(nat \<Rightarrow> bool) \<Rightarrow> nat list \<Rightarrow> (nat \<rightharpoonup> Listener) \<Rightarrow> (nat \<rightharpoonup> Listener) res" where
  "start_listeners add_ok [] m = Inr m"
| "start_listeners add_ok (n # ns) m =
     (case m n of
        None \<Rightarrow> Inl Bad_pointer
      | Some ls \<Rightarrow>
          start_listeners add_ok ns (if add_ok n then m(n \<mapsto> ls\<lparr>l_ev := True, l_active := True\<rparr>) else m))"

definition start_accepting_connections :: "(nat \<Rightarrow> bool) \<Rightarrow> server \<Rightarrow> server res" where
  "start_accepting_connections add_ok sv =
     bindE (start_listeners add_ok (elems (listeners sv)) (ls_of sv)) (\<lambda>m. Inr (sv\<lparr>ls_of := m\<rparr>))"

text \<open>\<open>clean_listening_sockets\<close>: one turn of its loop, and the loop.\<close>

definition clean_one :: "nat \<Rightarrow> server \<Rightarrow> server res" where
  "clean_one n sv =
     (case ls_of sv n of
        None \<Rightarrow> Inl Bad_pointer
      | Some ls \<Rightarrow>
          if \<not> l_ev ls then Inl Bad_pointer
          else Inr (sv\<lparr>sv_closed := sv_closed sv @ [l_fd ls],
                 sv_unlinked := sv_unlinked sv @
                   (if is_unix_socket (l_addr ls) \<and> cstr (ss_rest (l_addr ls)) \<noteq> [] then [cstr (ss_rest (l_addr ls))] else []),
                 ls_of := (ls_of sv)(n := None)\<rparr>))"

fun clean_listening_sockets :: "nat \<Rightarrow> server \<Rightarrow> server res" where
  "clean_listening_sockets 0 sv = Inl Diverges"
| "clean_listening_sockets (Suc fuel) sv =
     bindE (vl_pop (listeners sv)) (\<lambda>(r, l).
       case r of
         None \<Rightarrow> Inr (sv\<lparr>listeners := l\<rparr>)
       | Some n \<Rightarrow> bindE (clean_one n (sv\<lparr>listeners := l\<rparr>)) (clean_listening_sockets fuel))"

lemma start_listeners_all:
  assumes "distinct ns" and "set ns \<subseteq> dom m" and "\<forall>n. add_ok n"
  shows "start_listeners add_ok ns m =
     Inr (\<lambda>n. if n \<in> set ns then map_option (\<lambda>ls. ls\<lparr>l_ev := True, l_active := True\<rparr>) (m n) else m n)"
  using assms
proof (induction ns arbitrary: m)
  case (Cons n ns)
  then obtain ls where ls: "m n = Some ls" by auto
  have "set ns \<subseteq> dom (m(n \<mapsto> ls\<lparr>l_ev := True, l_active := True\<rparr>))" using Cons.prems by auto
  with Cons ls show ?case by (auto simp: fun_eq_iff)
qed simp

lemma clean_all:
  assumes "vl_ok (listeners sv)" and "\<forall>n\<in>set (elems (listeners sv)). \<exists>ls. ls_of sv n = Some ls \<and> l_ev ls"
    and "length (elems (listeners sv)) < fuel"
  shows "\<exists>sv'. clean_listening_sockets fuel sv = Inr sv' \<and> elems (listeners sv') = [] \<and>
     sv_closed sv' = sv_closed sv @ map (\<lambda>n. l_fd (the (ls_of sv n))) (elems (listeners sv)) \<and>
     (\<forall>k. ls_of sv' k = (if k \<in> set (elems (listeners sv)) then None else ls_of sv k))"
  using assms
proof (induction fuel arbitrary: sv)
  case (Suc fuel)
  show ?case
  proof (cases "elems (listeners sv)")
    case Nil
    with vl_pop_Nil [OF Suc.prems(1) Nil] show ?thesis by simp
  next
    case (Cons n ns)
    from vl_pop_Cons [OF Suc.prems(1) Cons] obtain l where
      l: "vl_pop (listeners sv) = Inr (Some n, l)" "vl_ok l" "elems l = ns" by blast
    have d: "n \<notin> set ns" "distinct ns" using Suc.prems(1) Cons by (auto simp: vl_ok_def)
    obtain ls where ls: "ls_of sv n = Some ls" "l_ev ls" using Suc.prems(2) Cons by auto
    obtain sv1 where s: "clean_one n (sv\<lparr>listeners := l\<rparr>) = Inr sv1" "listeners sv1 = l"
      "ls_of sv1 = (ls_of sv)(n := None)" "sv_closed sv1 = sv_closed sv @ [l_fd ls]"
      using ls by (simp add: clean_one_def)
    have "\<forall>k\<in>set (elems (listeners sv1)). \<exists>ls. ls_of sv1 k = Some ls \<and> l_ev ls"
      using Suc.prems(2) Cons d s(2,3) l(3) by auto
    then obtain sv' where r: "clean_listening_sockets fuel sv1 = Inr sv'" "elems (listeners sv') = []"
      "sv_closed sv' = sv_closed sv1 @ map (\<lambda>n. l_fd (the (ls_of sv1 n))) (elems (listeners sv1))"
      "\<forall>k. ls_of sv' k = (if k \<in> set (elems (listeners sv1)) then None else ls_of sv1 k)"
      using Suc.IH [of sv1] Suc.prems(3) Cons s(2) l(2,3) by auto
    have "map (\<lambda>k. l_fd (the (ls_of sv1 k))) ns = map (\<lambda>k. l_fd (the (ls_of sv k))) ns"
      using d s(3) by (intro map_cong) auto
    then show ?thesis using l s r Cons ls by auto
  qed
qed simp

text \<open>Listeners that were all started are all closed on shutdown: each descriptor once and in the order of
  the list, every struct is freed, and the list is empty.\<close>

theorem listeners_closed:
  assumes "vl_ok (listeners sv)" and "set (elems (listeners sv)) \<subseteq> dom (ls_of sv)" and "\<forall>n. add_ok n"
  shows "\<exists>sv1 sv2. start_accepting_connections add_ok sv = Inr sv1 \<and>
     clean_listening_sockets (length (elems (listeners sv)) + 1) sv1 = Inr sv2 \<and> elems (listeners sv2) = [] \<and>
     sv_closed sv2 = sv_closed sv @ map (\<lambda>n. l_fd (the (ls_of sv n))) (elems (listeners sv)) \<and>
     (\<forall>n\<in>set (elems (listeners sv)). ls_of sv2 n = None)"
proof -
  let ?m = "\<lambda>n. if n \<in> set (elems (listeners sv))
     then map_option (\<lambda>ls. ls\<lparr>l_ev := True, l_active := True\<rparr>) (ls_of sv n) else ls_of sv n"
  have "distinct (elems (listeners sv))" using assms(1) by (simp add: vl_ok_def)
  from start_listeners_all [OF this assms(2,3)] have a: "start_accepting_connections add_ok sv = Inr (sv\<lparr>ls_of := ?m\<rparr>)"
    by (simp add: start_accepting_connections_def)
  have "\<forall>n\<in>set (elems (listeners (sv\<lparr>ls_of := ?m\<rparr>))). \<exists>ls. ls_of (sv\<lparr>ls_of := ?m\<rparr>) n = Some ls \<and> l_ev ls"
    using assms(2) by force
  with clean_all [of "sv\<lparr>ls_of := ?m\<rparr>" "length (elems (listeners sv)) + 1"] assms(1) obtain sv2 where
    c: "clean_listening_sockets (length (elems (listeners sv)) + 1) (sv\<lparr>ls_of := ?m\<rparr>) = Inr sv2"
      "elems (listeners sv2) = []"
      "sv_closed sv2 = sv_closed sv @ map (\<lambda>n. l_fd (the (?m n))) (elems (listeners sv))"
      "\<forall>n\<in>set (elems (listeners sv)). ls_of sv2 n = None" by auto
  have "map (\<lambda>n. l_fd (the (?m n))) (elems (listeners sv)) = map (\<lambda>n. l_fd (the (ls_of sv n))) (elems (listeners sv))"
    using assms(2) by (intro map_cong) force+
  with a c show ?thesis by auto
qed

definition ex_server :: server where
  "ex_server = \<lparr>listeners = \<lparr>elems = [0], vlen = 1\<rparr>,
     ls_of = [0 \<mapsto> \<lparr>l_fd = 9, l_active = False, l_ev = False, l_addr = ex_addr\<rparr>],
     sv_next = 1, sv_closed = [], sv_unlinked = []\<rparr>"

theorem listeners_closed_witness:
  "\<exists>sv1 sv2. start_accepting_connections (\<lambda>_. True) ex_server = Inr sv1 \<and>
     clean_listening_sockets 2 sv1 = Inr sv2 \<and> sv_closed sv2 = [9]"
proof -
  have "vl_ok (listeners ex_server)" "set (elems (listeners ex_server)) \<subseteq> dom (ls_of ex_server)"
    by (simp_all add: ex_server_def vl_ok_def)
  from listeners_closed [OF this, of "\<lambda>_. True"] show ?thesis
    by (auto simp: ex_server_def numeral_2_eq_2)
qed

subsection \<open>Accepting clients\<close>

text \<open>What happens to one accepted client: its descriptor, the result of \<open>opt_sock\<close>, whether the buffer sizes
  could be set, whether memory was there, and the result of \<open>construct_client\<close>.\<close>

record accepted_client =
  ac_fd :: int
  ac_opt :: int
  ac_bufs :: bool
  ac_calloc :: bool
  ac_cons :: int

record accept_result =
  ar_served :: "int list"
  ar_listener_closed :: bool
  ar_leaked :: "int list"

text \<open>The loop of \<open>on_connect\<close> until \<open>accept\<close> fails. The error path closes the listening socket and not the
  client's.\<close>

fun on_connect :: "accepted_client list \<Rightarrow> accept_result" where
  "on_connect [] = \<lparr>ar_served = [], ar_listener_closed = False, ar_leaked = []\<rparr>"
| "on_connect (c # cs) =
     (if ac_opt c = -1 \<or> \<not> ac_bufs c \<or> \<not> ac_calloc c
      then \<lparr>ar_served = [], ar_listener_closed = True, ar_leaked = [ac_fd c]\<rparr>
      else let r = on_connect cs
           in if ac_cons c = 0 then r\<lparr>ar_served := ac_fd c # ar_served r\<rparr> else r)"

definition client_ok :: "accepted_client \<Rightarrow> bool" where
  "client_ok c \<longleftrightarrow> ac_opt c \<noteq> -1 \<and> ac_bufs c \<and> ac_calloc c"

text \<open>Clients are served in the order in which they arrive, until one cannot be set up: then the listening
  socket is closed, so that no further client is ever accepted, while the descriptor of that client stays
  open.\<close>

theorem one_bad_client_closes_listener:
  shows "on_connect cs =
     \<lparr>ar_served = map ac_fd [c \<leftarrow> takeWhile client_ok cs. ac_cons c = 0],
      ar_listener_closed = (\<exists>c\<in>set cs. \<not> client_ok c),
      ar_leaked = (case dropWhile client_ok cs of [] \<Rightarrow> [] | c # _ \<Rightarrow> [ac_fd c])\<rparr>"
  by (induction cs) (auto simp: client_ok_def Let_def)

subsection \<open>The program\<close>

datatype outcome = Exits int | Runs server

definition check_not_null :: "bool \<Rightarrow> outcome \<Rightarrow> outcome" where
  "check_not_null present next_step = (if \<not> present then Exits 1 else next_step)"

text \<open>\<open>setup_signals\<close>: all three checks look at the first event.\<close>

definition setup_signals :: "bool \<Rightarrow> bool \<Rightarrow> bool \<Rightarrow> outcome \<Rightarrow> outcome" where
  "setup_signals sigint sigterm sighup k =
     check_not_null sigint (check_not_null sigint (check_not_null sigint k))"

definition run_server :: "(nat \<Rightarrow> bool) \<Rightarrow> server \<Rightarrow> server res" where
  "run_server add_ok sv = start_accepting_connections add_ok sv"

definition kill_server :: "nat \<Rightarrow> server \<Rightarrow> server res" where
  "kill_server fuel sv = clean_listening_sockets fuel sv"

definition no_listeners :: server where
  "no_listeners = \<lparr>listeners = vl_init, ls_of = Map.empty, sv_next = 0, sv_closed = [], sv_unlinked = []\<rparr>"

definition main :: "bool \<Rightarrow> bool \<Rightarrow> bool \<Rightarrow> bool \<Rightarrow> (nat \<Rightarrow> bool) \<Rightarrow> outcome res" where
  "main base sigint sigterm sighup add_ok =
     bindE (run_server add_ok no_listeners) (\<lambda>sv.
       Inr (check_not_null base (setup_signals sigint sigterm sighup (Runs sv))))"

text \<open>The program as it stands serves nobody: \<open>main\<close> never creates a listening socket, so that no event is
  registered when the loop starts; and a missing handler for \<open>SIGTERM\<close> or \<open>SIGHUP\<close> goes unnoticed.\<close>

theorem main_serves_nobody:
  "main base sigint sigterm sighup add_ok =
     Inr (if base \<and> sigint then Runs no_listeners else Exits 1)"
  by (simp add: main_def run_server_def start_accepting_connections_def no_listeners_def vl_init_def
      check_not_null_def setup_signals_def)

end
