(* ===== verification/Arr.thy ===== *)
theory Arr
  imports Prelude
begin

text \<open>
  Arrays with checked access, and the two loops that several functions of LMDB have in common: the
  binary search (the same text in \<open>mdb_midl_search\<close>, \<open>mdb_mid2l_search\<close> and
  \<open>mdb_pid_insert\<close>) and the loop that moves the tail of an array up by one cell. The locale
  \<open>search_array\<close> is the contract between the search and an array: the cells up to the count can be
  read, and the comparison result falls along the array.
\<close>

definition aget :: "'a list \<Rightarrow> nat \<Rightarrow> 'a res" where
  "aget xs i = (if i < length xs then Inr (xs ! i) else Inl Out_of_bounds)"

definition aset :: "'a list \<Rightarrow> nat \<Rightarrow> 'a \<Rightarrow> 'a list res" where
  "aset xs i v = (if i < length xs then Inr (xs[i := v]) else Inl Out_of_bounds)"

lemma aget_ok [simp]: "i < length xs \<Longrightarrow> aget xs i = Inr (xs ! i)"
  by (simp add: aget_def)

lemma aset_ok [simp]: "i < length xs \<Longrightarrow> aset xs i v = Inr (xs[i := v])"
  by (simp add: aset_def)

subsection \<open>Moving the tail of an array up\<close>

text \<open>\<open>for (; i > x; i--) ids[i] = ids[i-1]\<close>.\<close>

fun shift_up :: "nat \<Rightarrow> nat \<Rightarrow> 'a list \<Rightarrow> 'a list res" where
  "shift_up 0 x xs = Inr xs"
| "shift_up (Suc i) x xs =
     (if x < Suc i then bindE (aget xs i) (\<lambda>v. bindE (aset xs (Suc i) v) (shift_up i x)) else Inr xs)"

lemma shift_up_ok:
  assumes "x \<le> n" and "n < length xs"
  shows "shift_up n x xs = Inr (take (Suc x) xs @ take (n - x) (drop x xs) @ drop (Suc n) xs)"
  using assms
proof (induction n arbitrary: xs)
  case 0
  then show ?case by simp
next
  case (Suc n)
  show ?case
  proof (cases "x = Suc n")
    case True
    then show ?thesis by simp
  next
    case False
    let ?ys = "xs[Suc n := xs ! n]"
    have "shift_up (Suc n) x xs = shift_up n x ?ys"
      using Suc.prems False by simp
    also have "\<dots> = Inr (take (Suc x) ?ys @ take (n - x) (drop x ?ys) @ drop (Suc n) ?ys)"
      using Suc.prems False by (intro Suc.IH) auto
    also have "take (Suc x) ?ys = take (Suc x) xs" using False Suc.prems by simp
    also have "take (n - x) (drop x ?ys) @ drop (Suc n) ?ys = take (Suc n - x) (drop x xs) @ drop (Suc (Suc n)) xs"
    proof -
      have e: "drop (Suc n) ?ys = xs ! n # drop (Suc (Suc n)) xs"
        using Suc.prems by (simp add: Cons_nth_drop_Suc [symmetric])
      have "take (n - x) (drop x ?ys) = take (n - x) (drop x xs)"
        using Suc.prems False by (simp add: drop_update_swap)
      moreover have "take (Suc n - x) (drop x xs) = take (n - x) (drop x xs) @ [xs ! n]"
        using Suc.prems False by (simp add: Suc_diff_le take_Suc_conv_app_nth)
      ultimately show ?thesis by (simp add: e)
    qed
    finally show ?thesis .
  qed
qed

text \<open>An insertion at position \<open>x\<close>: move the tail up, then store.\<close>

lemma shift_insert:
  assumes "x \<le> n" and "n < length xs"
  shows "bindE (shift_up n x xs) (\<lambda>ys. aset ys x v) =
    Inr (take x xs @ v # take (n - x) (drop x xs) @ drop (Suc n) xs)"
  using assms by (simp add: shift_up_ok aset_def take_Suc_conv_app_nth list_update_append)

subsection \<open>Binary search\<close>

lemma unat_half [simp]: "unat (drop_bit (Suc 0) n) = unat n div 2" for n :: u32
  unfolding unat_drop_bit_eq by (simp add: drop_bit_Suc)

text \<open>
  The search loop. \<open>cmp\<close> is the comparison of the searched value with the cell at an index; the
  indices are 32 bits wide, as in the code. The result says whether the loop returned from inside, and
  where; when the loop ends by itself, \<open>if (val > 0) ++cursor\<close> has been applied.
\<close>

function search_loop :: "(nat \<Rightarrow> int res) \<Rightarrow> u32 \<Rightarrow> u32 \<Rightarrow> int \<Rightarrow> u32 \<Rightarrow> (bool \<times> u32) res" where
  "search_loop cmp base cursor v n =
     (if 0 < n then
        (let pivot = drop_bit 1 n; cursor' = base + pivot + 1 in
         case cmp (unat cursor') of
           Inl e \<Rightarrow> Inl e
         | Inr w \<Rightarrow>
             if w < 0 then search_loop cmp base cursor' w pivot
             else if 0 < w then search_loop cmp cursor' cursor' w (n - (pivot + 1))
             else Inr (True, cursor'))
      else Inr (False, if 0 < v then cursor + 1 else cursor))"
  by pat_completeness auto

termination
proof (relation "measure (\<lambda>(cmp, base, cursor, v, n). unat n)", goal_cases)
  case 1
  show ?case by simp
next
  case (2 cmp base cursor v n)
  then show ?case by (simp add: unat_half unat_gt_0)
next
  case (3 cmp base cursor v n pivot)
  have "0 < unat n" using 3(1) by (simp add: unat_gt_0)
  moreover have "unat pivot = unat n div 2" using 3(2) by (simp add: unat_half)
  moreover have "unat (pivot + 1) = Suc (unat pivot)"
    using calculation unat_lt_pow [of n] by (intro unat_Suc_word) simp
  moreover have "pivot + 1 \<le> n"
    using calculation by (simp add: word_le_nat_alt)
  ultimately show ?case by (simp add: unat_sub)
qed


declare search_loop.simps [simp del]

definition pos_at :: "(nat \<Rightarrow> int res) \<Rightarrow> nat \<Rightarrow> bool" where
  "pos_at cmp c \<longleftrightarrow> (\<exists>v. cmp c = Inr v \<and> 0 < v)"

definition neg_at :: "(nat \<Rightarrow> int res) \<Rightarrow> nat \<Rightarrow> bool" where
  "neg_at cmp c \<longleftrightarrow> (\<exists>v. cmp c = Inr v \<and> v < 0)"

locale search_array =
  fixes ok :: "'a \<Rightarrow> bool"
    and cnt :: "'a \<Rightarrow> u32"
    and cmp :: "'a \<Rightarrow> 'k \<Rightarrow> nat \<Rightarrow> int res"
  assumes readable: "ok a \<Longrightarrow> 1 \<le> c \<Longrightarrow> c \<le> unat (cnt a) \<Longrightarrow> \<exists>v. cmp a k c = Inr v"
    and falls: "ok a \<Longrightarrow> 1 \<le> c \<Longrightarrow> c \<le> d \<Longrightarrow> d \<le> unat (cnt a) \<Longrightarrow>
      cmp a k c = Inr v \<Longrightarrow> cmp a k d = Inr w \<Longrightarrow> sgn w \<le> sgn v"
begin

lemma above_before:
  assumes "ok a" "pos_at (cmp a k) d" "1 \<le> c" "c \<le> d" "d \<le> unat (cnt a)"
  shows "pos_at (cmp a k) c"
proof -
  obtain v where v: "cmp a k c = Inr v" using readable [OF assms(1,3), of k] assms by force
  obtain w where w: "cmp a k d = Inr w" "0 < w" using assms(2) by (auto simp: pos_at_def)
  have "sgn w \<le> sgn v" by (rule falls [OF assms(1,3,4,5) v w(1)])
  then have "0 < v" using w(2) by (simp add: sgn_if split: if_splits)
  then show ?thesis using v by (auto simp: pos_at_def)
qed

lemma below_after:
  assumes "ok a" "neg_at (cmp a k) c" "1 \<le> c" "c \<le> d" "d \<le> unat (cnt a)"
  shows "neg_at (cmp a k) d"
proof -
  obtain w where w: "cmp a k d = Inr w" using readable [OF assms(1) _ assms(5), of k] assms by force
  obtain v where v: "cmp a k c = Inr v" "v < 0" using assms(2) by (auto simp: neg_at_def)
  have "sgn w \<le> sgn v" by (rule falls [OF assms(1,3,4,5) v(1) w])
  then have "w < 0" using v(2) by (simp add: sgn_if split: if_splits)
  then show ?thesis using w by (auto simp: neg_at_def)
qed

text \<open>The loop invariant: everything up to \<open>base\<close> is above the searched value, everything after
  \<open>base + n\<close> is below it.\<close>

lemma search_loop_inv:
  assumes "ok a" and "Suc (unat (cnt a)) < 2 ^ 32"
    and "unat base + unat n \<le> unat (cnt a)"
    and "\<forall>c. 1 \<le> c \<and> c \<le> unat base \<longrightarrow> pos_at (cmp a k) c"
    and "\<forall>c. unat base + unat n < c \<and> c \<le> unat (cnt a) \<longrightarrow> neg_at (cmp a k) c"
    and "0 < v \<and> cursor = base \<or> v < 0 \<and> unat cursor = unat base + unat n + 1 \<or>
         v = 0 \<and> unat cursor = unat base + 1"
  shows "\<exists>f x. search_loop (cmp a k) base cursor v n = Inr (f, x) \<and>
      1 \<le> unat x \<and> unat x \<le> Suc (unat (cnt a)) \<and>
      (f \<longrightarrow> unat x \<le> unat (cnt a) \<and> cmp a k (unat x) = Inr 0) \<and>
      (\<not> f \<longrightarrow> (\<forall>c. 1 \<le> c \<and> c < unat x \<longrightarrow> pos_at (cmp a k) c) \<and>
              (\<forall>c. unat x \<le> c \<and> c \<le> unat (cnt a) \<longrightarrow> neg_at (cmp a k) c))"
  using assms(3-6)
proof (induction "cmp a k" base cursor v n rule: search_loop.induct)
  case (1 base cursor v n)
  show ?case
  proof (cases "0 < n")
    case False
    then have n: "n = 0" using word_gt_0 by blast
    have "unat (if 0 < v then cursor + 1 else cursor) = unat base + 1"
      using 1(6) 1(3) assms(2) n by (auto simp: unat_Suc_word)
    then show ?thesis using n 1(3-5) by (auto simp: search_loop.simps [of "cmp a k"])
  next
    case True
    define pivot where "pivot = drop_bit 1 n"
    define cu where "cu = base + pivot + 1"
    have n0: "0 < unat n" using True by (simp add: unat_gt_0)
    have p: "unat pivot = unat n div 2" by (simp add: pivot_def)
    have bp: "unat (base + pivot) = unat base + unat pivot"
      using 1(3) p assms(2) by (intro unat_add_lem [THEN iffD1]) simp
    have cu: "unat cu = unat base + unat pivot + 1"
      using bp 1(3) p n0 assms(2) unfolding cu_def by (subst unat_Suc_word) simp_all
    have p1: "unat (pivot + 1) = unat pivot + 1"
      using p n0 unat_lt_pow [of n] by (subst unat_Suc_word) simp_all
    have np: "unat (n - (pivot + 1)) = unat n - unat pivot - 1"
      using p1 p n0 by (subst unat_sub) (simp_all add: word_le_nat_alt)
    have cr: "1 \<le> unat cu" "unat cu \<le> unat (cnt a)" using cu 1(3) p n0 by simp_all
    obtain w where w: "cmp a k (unat cu) = Inr w" using readable [OF assms(1) cr] by blast
    have s: "search_loop (cmp a k) base cursor v n =
      (if w < 0 then search_loop (cmp a k) base cu w pivot
       else if 0 < w then search_loop (cmp a k) cu cu w (n - (pivot + 1)) else Inr (True, cu))"
      using True w by (subst search_loop.simps) (simp add: Let_def pivot_def cu_def)
    consider "w < 0" | "0 < w" | "w = 0" by linarith
    then show ?thesis
    proof cases
      case wneg: 1
      have b: "neg_at (cmp a k) (unat cu)" using w wneg by (auto simp: neg_at_def)
      have "\<forall>c. unat base + unat pivot < c \<and> c \<le> unat (cnt a) \<longrightarrow> neg_at (cmp a k) c"
        using below_after [OF assms(1) b cr(1)] cu by auto
      from 1(1) [OF True pivot_def cu_def w wneg _ 1(4) this] s wneg cu 1(3) p show ?thesis by simp
    next
      case wpos: 2
      have b: "pos_at (cmp a k) (unat cu)" using w wpos by (auto simp: pos_at_def)
      have ab: "\<forall>c. 1 \<le> c \<and> c \<le> unat cu \<longrightarrow> pos_at (cmp a k) c"
        using above_before [OF assms(1) b _ _ cr(2)] by auto
      have sm: "unat cu + unat (n - (pivot + 1)) = unat base + unat n" using cu np p n0 by simp
      then have "unat cu + unat (n - (pivot + 1)) \<le> unat (cnt a)"
        "\<forall>c. unat cu + unat (n - (pivot + 1)) < c \<and> c \<le> unat (cnt a) \<longrightarrow> neg_at (cmp a k) c"
        using 1(3,5) by simp_all
      from 1(2) [OF True pivot_def cu_def w _ wpos this(1) ab this(2)] s wpos show ?thesis by simp
    next
      case wz: 3
      then show ?thesis using s w cr by auto
    qed
  qed
qed

text \<open>The whole search: either an equal cell is found, or the result separates the greater cells from
  the smaller ones.\<close>

lemma search_finds:
  assumes "ok a" and "Suc (unat (cnt a)) < 2 ^ 32"
  obtains f x where "search_loop (cmp a k) 0 1 0 (cnt a) = Inr (f, x)"
    and "1 \<le> unat x" and "unat x \<le> Suc (unat (cnt a))"
    and "f \<Longrightarrow> unat x \<le> unat (cnt a) \<and> cmp a k (unat x) = Inr 0"
    and "\<And>c. \<not> f \<Longrightarrow> 1 \<le> c \<Longrightarrow> c < unat x \<Longrightarrow> pos_at (cmp a k) c"
    and "\<And>c. \<not> f \<Longrightarrow> unat x \<le> c \<Longrightarrow> c \<le> unat (cnt a) \<Longrightarrow> neg_at (cmp a k) c"
proof -
  have "\<exists>f x. search_loop (cmp a k) 0 1 0 (cnt a) = Inr (f, x) \<and>
      1 \<le> unat x \<and> unat x \<le> Suc (unat (cnt a)) \<and>
      (f \<longrightarrow> unat x \<le> unat (cnt a) \<and> cmp a k (unat x) = Inr 0) \<and>
      (\<not> f \<longrightarrow> (\<forall>c. 1 \<le> c \<and> c < unat x \<longrightarrow> pos_at (cmp a k) c) \<and>
              (\<forall>c. unat x \<le> c \<and> c \<le> unat (cnt a) \<longrightarrow> neg_at (cmp a k) c))"
    by (rule search_loop_inv [OF assms]) auto
  then show ?thesis using that by blast
qed

end

end
