(* ===== verification/Mdb_Page.thy ===== *)
theory Mdb_Page
  imports Arr
begin

text \<open>
  The pages of LMDB (\<open>lib/lmdb/mdb.c\<close>): the page and node headers, and the operations that add a node
  to a page, delete one and compute its size.

  A page is a block of bytes with a header. \<open>mp_bytes\<close> holds the bytes of the whole page, addressed
  by their offset as in the code; the fields of the header and the array \<open>mp_ptrs\<close>, which grows into
  the free space between \<open>mp_lower\<close> and \<open>mp_upper\<close>, are fields of the record of their own, \<open>mp_ptrs\<close>
  with all the entries it could ever have. \<open>PAGEBASE\<close> is 0 and the byte order is little endian, as in the builds of
  the program. Node sizes are natural numbers: they are below \<open>2 ^ 33\<close> and computed in \<open>size_t\<close>.
\<close>

subsection \<open>Bytes\<close>

definition mem_put :: "nat \<Rightarrow> 'a list \<Rightarrow> 'a list \<Rightarrow> 'a list res" where
  "mem_put d xs bs = (if d + length xs \<le> length bs then Inr (take d bs @ xs @ drop (d + length xs) bs) else Inl Out_of_bounds)"

definition slice :: "'a list \<Rightarrow> nat \<Rightarrow> nat \<Rightarrow> 'a list" where
  "slice bs d n = take n (drop d bs)"

definition mem_get :: "nat \<Rightarrow> nat \<Rightarrow> 'a list \<Rightarrow> 'a list res" where
  "mem_get d n bs = (if d + n \<le> length bs then Inr (slice bs d n) else Inl Out_of_bounds)"

definition le16 :: "u16 \<Rightarrow> u8 list" where
  "le16 w = [ucast w, ucast (drop_bit 8 w)]"

definition de16 :: "u8 \<Rightarrow> u8 \<Rightarrow> u16" where
  "de16 a b = ucast a OR push_bit 8 (ucast b)"

definition le64 :: "size_t \<Rightarrow> u8 list" where
  "le64 w = map (\<lambda>i. ucast (drop_bit (8 * i) w)) [0..<8]"

subsection \<open>Headers\<close>

definition P_BRANCH :: u16 where "P_BRANCH = 0x01"
definition P_LEAF :: u16 where "P_LEAF = 0x02"
definition P_OVERFLOW :: u16 where "P_OVERFLOW = 0x04"
definition P_DIRTY :: u16 where "P_DIRTY = 0x10"
definition P_LEAF2 :: u16 where "P_LEAF2 = 0x20"
definition P_SUBP :: u16 where "P_SUBP = 0x40"

definition F_BIGDATA :: u32 where "F_BIGDATA = 0x01"
definition F_SUBDATA :: u32 where "F_SUBDATA = 0x02"
definition F_DUPDATA :: u32 where "F_DUPDATA = 0x04"
definition MDB_RESERVE :: u32 where "MDB_RESERVE = 0x10000"

definition PAGEHDRSZ :: nat where "PAGEHDRSZ = 16"
definition NODESIZE :: nat where "NODESIZE = 8"

definition MDB_PAGE_FULL :: int where "MDB_PAGE_FULL = -30786"
definition MDB_TXN_ERROR :: u32 where "MDB_TXN_ERROR = 0x02"

record MDB_page =
  mp_pgno :: size_t
  mp_pad :: u16
  mp_flags :: u16
  mp_lower :: u16
  mp_upper :: u16
  mp_ptrs :: "u16 list"
  mp_bytes :: "u8 list"

record MDB_node =
  mn_lo :: u16
  mn_hi :: u16
  mn_flags :: u16
  mn_ksize :: u16

definition F_ISSET :: "'a::len word \<Rightarrow> 'a word \<Rightarrow> bool" where
  "F_ISSET w f \<longleftrightarrow> w AND f = f"

definition IS_LEAF :: "MDB_page \<Rightarrow> bool" where "IS_LEAF p \<longleftrightarrow> F_ISSET (mp_flags p) P_LEAF"
definition IS_LEAF2 :: "MDB_page \<Rightarrow> bool" where "IS_LEAF2 p \<longleftrightarrow> F_ISSET (mp_flags p) P_LEAF2"
definition IS_BRANCH :: "MDB_page \<Rightarrow> bool" where "IS_BRANCH p \<longleftrightarrow> F_ISSET (mp_flags p) P_BRANCH"

definition NUMKEYS :: "MDB_page \<Rightarrow> nat" where
  "NUMKEYS p = unat (drop_bit 1 (ucast (mp_lower p) - 16 :: u32))"

definition SIZELEFT :: "MDB_page \<Rightarrow> u16" where
  "SIZELEFT p = mp_upper p - mp_lower p"

text \<open>\<open>EVEN(n)\<close> rounds up to an even number, \<open>OVPAGES\<close> is the number of overflow pages.\<close>

definition EVEN :: "nat \<Rightarrow> nat" where
  "EVEN n = 2 * ((n + 1) div 2)"

definition OVPAGES :: "nat \<Rightarrow> nat \<Rightarrow> nat" where
  "OVPAGES sz psize = (PAGEHDRSZ - 1 + sz) div psize + 1"

definition enc_node :: "MDB_node \<Rightarrow> u8 list" where
  "enc_node n = le16 (mn_lo n) @ le16 (mn_hi n) @ le16 (mn_flags n) @ le16 (mn_ksize n)"

definition dec_node :: "u8 list \<Rightarrow> MDB_node" where
  "dec_node h = \<lparr>mn_lo = de16 (h ! 0) (h ! 1), mn_hi = de16 (h ! 2) (h ! 3), mn_flags = de16 (h ! 4) (h ! 5),
     mn_ksize = de16 (h ! 6) (h ! 7)\<rparr>"

definition NODEDSZ :: "MDB_node \<Rightarrow> u32" where
  "NODEDSZ n = ucast (mn_lo n) OR push_bit 16 (ucast (mn_hi n))"

definition NODEPGNO :: "MDB_node \<Rightarrow> size_t" where
  "NODEPGNO n = ucast (mn_lo n) OR push_bit 16 (ucast (mn_hi n)) OR push_bit 32 (ucast (mn_flags n))"

definition SETDSZ :: "u32 \<Rightarrow> MDB_node \<Rightarrow> MDB_node" where
  "SETDSZ sz n = n\<lparr>mn_lo := ucast (sz AND 0xffff), mn_hi := ucast (drop_bit 16 sz)\<rparr>"

definition SETPGNO :: "size_t \<Rightarrow> MDB_node \<Rightarrow> MDB_node" where
  "SETPGNO pgno n = n\<lparr>mn_lo := ucast (pgno AND 0xffff), mn_hi := ucast (drop_bit 16 pgno), mn_flags := ucast (drop_bit 32 pgno)\<rparr>"

text \<open>\<open>NODEPTR(p, i)\<close> and the header found there.\<close>

definition NODEPTR :: "MDB_page \<Rightarrow> nat \<Rightarrow> nat res" where
  "NODEPTR p i = bindE (aget (mp_ptrs p) i) (\<lambda>w. Inr (unat w))"

definition node_hdr :: "MDB_page \<Rightarrow> nat \<Rightarrow> (nat \<times> MDB_node) res" where
  "node_hdr p i = bindE (NODEPTR p i) (\<lambda>d. bindE (mem_get d NODESIZE (mp_bytes p)) (\<lambda>h. Inr (d, dec_node h)))"

subsection \<open>Node sizes\<close>

definition mdb_leaf_size :: "nat \<Rightarrow> nat \<Rightarrow> nat \<Rightarrow> nat" where
  "mdb_leaf_size nodemax ks ds =
     (let sz = NODESIZE + ks + ds;
          sz' = (if nodemax < sz then sz - ds + 8 else sz)
      in EVEN (sz' + 2))"

definition mdb_branch_size :: "nat option \<Rightarrow> nat" where
  "mdb_branch_size ks = NODESIZE + (case ks of None \<Rightarrow> 0 | Some k \<Rightarrow> k) + 2"

subsection \<open>Adding a node\<close>

text \<open>On a \<open>LEAF2\<close> page the keys lie one behind the other after the page header.\<close>

definition LEAF2KEY :: "nat \<Rightarrow> nat \<Rightarrow> nat" where
  "LEAF2KEY i ks = PAGEHDRSZ + i * ks"

definition node_add_leaf2 :: "nat \<Rightarrow> nat \<Rightarrow> u8 list \<Rightarrow> MDB_page \<Rightarrow> MDB_page res" where
  "node_add_leaf2 ksize indx key p =
     (let ptr = LEAF2KEY indx ksize; dif = NUMKEYS p - indx in
      bindE (if indx < NUMKEYS p then bindE (mem_get ptr (dif * ksize) (mp_bytes p)) (\<lambda>xs. mem_put (ptr + ksize) xs (mp_bytes p))
             else Inr (mp_bytes p)) (\<lambda>bs.
      bindE (mem_get 0 ksize key) (\<lambda>k.
      bindE (mem_put ptr k bs) (\<lambda>bs'.
      Inr (p\<lparr>mp_bytes := bs', mp_lower := mp_lower p + 2, mp_upper := mp_upper p - (of_nat ksize - 2)\<rparr>)))))"

text \<open>Where the data goes: in the node, behind a page number that is already known, or on new overflow
  pages.\<close>

datatype place = In_node | Big_known | Big_new size_t

text \<open>The header of the new node, and the bytes of a key that may be absent.\<close>

definition new_header :: "bool \<Rightarrow> u8 list option \<Rightarrow> u8 list option \<Rightarrow> size_t \<Rightarrow> u32 \<Rightarrow> MDB_node" where
  "new_header leaf key data pgno flags =
     (let h0 = \<lparr>mn_lo = 0, mn_hi = 0, mn_flags = ucast flags, mn_ksize = (case key of None \<Rightarrow> 0 | Some k \<Rightarrow> of_nat (length k))\<rparr>
      in if leaf then (case data of None \<Rightarrow> h0 | Some v \<Rightarrow> SETDSZ (of_nat (length v)) h0) else SETPGNO pgno h0)"

definition opt_bytes :: "u8 list option \<Rightarrow> u8 list" where
  "opt_bytes k = (case k of None \<Rightarrow> [] | Some k \<Rightarrow> k)"

text \<open>The part after the label \<open>update\<close>: move the pointers, take the space, write header, key and
  data.\<close>

definition node_write :: "nat \<Rightarrow> u8 list option \<Rightarrow> u8 list option \<Rightarrow> size_t \<Rightarrow> u32 \<Rightarrow> place \<Rightarrow> nat \<Rightarrow> MDB_page \<Rightarrow> MDB_page res" where
  "node_write indx key data pgno flags pl node_size p =
     bindE (shift_up (NUMKEYS p) indx (mp_ptrs p)) (\<lambda>ps.
     let ofs = mp_upper p - of_nat node_size in
     assertE (unat (mp_lower p) + 2 \<le> unat ofs)
     (bindE (aset ps indx ofs) (\<lambda>ps'.
      let h = new_header (IS_LEAF p) key data pgno flags;
          k = opt_bytes key;
          d = unat ofs
      in
      bindE (mem_put d (enc_node h) (mp_bytes p)) (\<lambda>b1.
      bindE (mem_put (d + NODESIZE) k b1) (\<lambda>b2.
      bindE (if IS_LEAF p then
               (let dd = d + NODESIZE + unat (mn_ksize h) in
                case data of
                  None \<Rightarrow> Inl Bad_pointer
                | Some v \<Rightarrow>
                    (case pl of
                       Big_new n \<Rightarrow> mem_put dd (le64 n) b2
                     | Big_known \<Rightarrow> bindE (mem_get 0 8 v) (\<lambda>x. mem_put dd x b2)
                     | In_node \<Rightarrow> if F_ISSET flags MDB_RESERVE then Inr b2 else mem_put dd v b2))
             else Inr b2) (\<lambda>b3.
      Inr (p\<lparr>mp_ptrs := ps', mp_upper := ofs, mp_lower := mp_lower p + 2, mp_bytes := b3\<rparr>)))))))"

text \<open>\<open>mdb_node_add\<close>. \<open>newpg\<close> is the call of \<open>mdb_page_new\<close> for overflow pages: its code and the page
  number. The result has the return code, the page, the flags of the transaction, and the data that
  went to overflow pages.\<close>

type_synonym node_add_result = "int \<times> MDB_page \<times> u32 \<times> (size_t \<times> u8 list) option"

definition node_full :: "MDB_page \<Rightarrow> u32 \<Rightarrow> node_add_result res" where
  "node_full p tf = Inr (MDB_PAGE_FULL, p, tf OR MDB_TXN_ERROR, None)"

definition node_update :: "int \<Rightarrow> nat \<Rightarrow> u8 list option \<Rightarrow> u8 list option \<Rightarrow> size_t \<Rightarrow> u32 \<Rightarrow> place \<Rightarrow> nat \<Rightarrow> MDB_page \<Rightarrow> u32 \<Rightarrow>
    node_add_result res" where
  "node_update room indx key data pgno flags pl node_size p tf =
     (if room < int node_size then node_full p tf
      else bindE (node_write indx key data pgno flags pl node_size p) (\<lambda>p'. Inr (0, p', tf, None)))"

definition mdb_node_add :: "nat \<Rightarrow> nat \<Rightarrow> nat \<Rightarrow> (nat \<Rightarrow> int \<times> size_t) \<Rightarrow> nat \<Rightarrow> u8 list option \<Rightarrow> u8 list option \<Rightarrow>
    size_t \<Rightarrow> u32 \<Rightarrow> MDB_page \<Rightarrow> u32 \<Rightarrow> node_add_result res" where
  "mdb_node_add nodemax psize pad newpg indx key data pgno flags p tf =
     assertE (mp_lower p \<le> mp_upper p)
     (if IS_LEAF2 p then
        (case key of
           None \<Rightarrow> Inl Bad_pointer
         | Some k \<Rightarrow> bindE (node_add_leaf2 pad indx k p) (\<lambda>p'. Inr (0, p', tf, None)))
      else
        let room = int (unat (SIZELEFT p)) - 2;
            ns0 = NODESIZE + (case key of None \<Rightarrow> 0 | Some k \<Rightarrow> length k) in
        if IS_LEAF p then
          (case (key, data) of
             (Some k, Some v) \<Rightarrow>
               if F_ISSET flags F_BIGDATA then
                 node_update room indx key data pgno flags Big_known (EVEN (ns0 + 8)) p tf
               else if nodemax < ns0 + length v then
                 (if room < int (EVEN (ns0 + 8)) then node_full p tf
                  else
                    (case newpg (OVPAGES (length v) psize) of
                       (rc, n) \<Rightarrow>
                         if rc \<noteq> 0 then Inr (rc, p, tf, None)
                         else bindE (node_write indx key data pgno (flags OR F_BIGDATA) (Big_new n) (EVEN (ns0 + 8)) p)
                                (\<lambda>p'. Inr (0, p', tf, if F_ISSET flags MDB_RESERVE then None else Some (n, v)))))
               else node_update room indx key data pgno flags In_node (EVEN (ns0 + length v)) p tf
           | _ \<Rightarrow> Inl Assert_failed)
        else node_update room indx key data pgno flags In_node (EVEN ns0) p tf)"

subsection \<open>Deleting a node\<close>

text \<open>The loop \<open>for (i = j = 0; i < numkeys; i++)\<close> over the pointers; \<open>n\<close> rounds are left.\<close>

fun del_ptrs :: "nat \<Rightarrow> nat \<Rightarrow> nat \<Rightarrow> nat \<Rightarrow> u16 \<Rightarrow> u16 \<Rightarrow> u16 list \<Rightarrow> u16 list res" where
  "del_ptrs 0 i j indx ptr sz ps = Inr ps"
| "del_ptrs (Suc n) i j indx ptr sz ps =
     (if i \<noteq> indx then
        bindE (aget ps i) (\<lambda>w.
        bindE (aset ps j w) (\<lambda>ps1.
        bindE (aget ps1 i) (\<lambda>w'.
        bindE (if w' < ptr then bindE (aget ps1 j) (\<lambda>x. aset ps1 j (x + sz)) else Inr ps1) (\<lambda>ps2.
        del_ptrs n (Suc i) (Suc j) indx ptr sz ps2))))
      else del_ptrs n (Suc i) j indx ptr sz ps)"

definition node_del_leaf2 :: "nat \<Rightarrow> nat \<Rightarrow> MDB_page \<Rightarrow> MDB_page res" where
  "node_del_leaf2 ksize indx p =
     (let x = NUMKEYS p - 1 - indx; base = LEAF2KEY indx ksize in
      bindE (if x \<noteq> 0 then bindE (mem_get (base + ksize) (x * ksize) (mp_bytes p)) (\<lambda>xs. mem_put base xs (mp_bytes p))
             else Inr (mp_bytes p)) (\<lambda>bs.
      Inr (p\<lparr>mp_bytes := bs, mp_lower := mp_lower p - 2, mp_upper := mp_upper p + (of_nat ksize - 2)\<rparr>)))"

definition mdb_node_del :: "nat \<Rightarrow> nat \<Rightarrow> MDB_page \<Rightarrow> MDB_page res" where
  "mdb_node_del ksize indx p =
     assertE (indx < NUMKEYS p)
     (if IS_LEAF2 p then node_del_leaf2 ksize indx p
      else
        bindE (node_hdr p indx) (\<lambda>(d, h).
        let sz = EVEN (NODESIZE + unat (mn_ksize h) +
                   (if IS_LEAF p then (if F_ISSET (ucast (mn_flags h)) F_BIGDATA then 8 else unat (NODEDSZ h)) else 0)) in
        bindE (aget (mp_ptrs p) indx) (\<lambda>ptr.
        bindE (del_ptrs (NUMKEYS p) 0 0 indx ptr (of_nat sz) (mp_ptrs p)) (\<lambda>ps.
        bindE (mem_get (unat (mp_upper p)) (unat ptr - unat (mp_upper p)) (mp_bytes p)) (\<lambda>xs.
        bindE (mem_put (unat (mp_upper p) + sz) xs (mp_bytes p)) (\<lambda>bs.
        Inr (p\<lparr>mp_ptrs := ps, mp_bytes := bs, mp_lower := mp_lower p - 2, mp_upper := mp_upper p + of_nat sz\<rparr>)))))))"

subsection \<open>New pages\<close>

record MDB_db =
  md_pad :: u32
  md_flags :: u16
  md_depth :: u16
  md_branch_pages :: size_t
  md_leaf_pages :: size_t
  md_overflow_pages :: size_t
  md_entries :: size_t
  md_root :: size_t

definition IS_OVERFLOW :: "MDB_page \<Rightarrow> bool" where "IS_OVERFLOW p \<longleftrightarrow> F_ISSET (mp_flags p) P_OVERFLOW"

text \<open>\<open>mp_pages\<close> shares its bytes with \<open>mp_lower\<close> and \<open>mp_upper\<close>.\<close>

definition set_mp_pages :: "u32 \<Rightarrow> MDB_page \<Rightarrow> MDB_page" where
  "set_mp_pages n p = p\<lparr>mp_lower := ucast n, mp_upper := ucast (drop_bit 16 n)\<rparr>"

text \<open>\<open>mdb_page_new\<close>; \<open>alloc\<close> is the call of \<open>mdb_page_alloc\<close>: its code and the memory of the page.\<close>

definition mdb_page_new :: "nat \<Rightarrow> (u32 \<Rightarrow> int \<times> MDB_page) \<Rightarrow> u32 \<Rightarrow> u32 \<Rightarrow> MDB_db \<Rightarrow> int \<times> MDB_page option \<times> MDB_db" where
  "mdb_page_new psize alloc flags num db =
     (case alloc num of
        (rc, np0) \<Rightarrow>
          if rc \<noteq> 0 then (rc, None, db)
          else
            let np = np0\<lparr>mp_flags := ucast flags OR P_DIRTY, mp_lower := of_nat PAGEHDRSZ, mp_upper := of_nat psize\<rparr> in
            if IS_BRANCH np then (0, Some np, db\<lparr>md_branch_pages := md_branch_pages db + 1\<rparr>)
            else if IS_LEAF np then (0, Some np, db\<lparr>md_leaf_pages := md_leaf_pages db + 1\<rparr>)
            else if IS_OVERFLOW np then (0, Some (set_mp_pages num np), db\<lparr>md_overflow_pages := md_overflow_pages db + ucast num\<rparr>)
            else (0, Some np, db))"

end
