(* ===== verification/Mdb_Page_Correct.thy ===== *)
theory Mdb_Page_Correct
  imports Mdb_Page
begin

text \<open>
  The slotted pages of LMDB keep their nodes. \<open>page_wf\<close> is the invariant of a page: the pointers fill
  the space up to \<open>mp_lower\<close>, the nodes they lead to lie between \<open>mp_upper\<close> and the end of the page and
  do not overlap. \<open>page_nodes\<close> reads a page as the list of its nodes; on it \<open>mdb_node_add\<close> is an
  insertion into a list and \<open>mdb_node_del\<close> a removal.
\<close>

subsection \<open>Memory\<close>

lemma mem_put_ok:
  assumes "d + length xs \<le> length bs"
  shows "mem_put d xs bs = Inr (take d bs @ xs @ drop (d + length xs) bs)"
  using assms by (simp add: mem_put_def)

lemma nth_put:
  assumes "d + length xs \<le> length bs" and "x < length bs"
  shows "(take d bs @ xs @ drop (d + length xs) bs) ! x = (if d \<le> x \<and> x < d + length xs then xs ! (x - d) else bs ! x)"
  using assms by (auto simp: nth_append min_def)

lemma mem_putE:
  assumes "d + length xs \<le> length bs"
  obtains bs' where "mem_put d xs bs = Inr bs'" and "length bs' = length bs"
    and "\<And>x. x < length bs \<Longrightarrow> d \<le> x \<Longrightarrow> x < d + length xs \<Longrightarrow> bs' ! x = xs ! (x - d)"
    and "\<And>x. x < length bs \<Longrightarrow> x < d \<or> d + length xs \<le> x \<Longrightarrow> bs' ! x = bs ! x"
proof (rule that)
  show "mem_put d xs bs = Inr (take d bs @ xs @ drop (d + length xs) bs)" by (rule mem_put_ok [OF assms])
  show "length (take d bs @ xs @ drop (d + length xs) bs) = length bs" using assms by simp
qed (use assms in \<open>auto simp: nth_put\<close>)

lemma mem_get_ok: "d + n \<le> length bs \<Longrightarrow> mem_get d n bs = Inr (slice bs d n)"
  by (simp add: mem_get_def)

lemma length_slice [simp]: "d + n \<le> length bs \<Longrightarrow> length (slice bs d n) = n"
  by (simp add: slice_def)

lemma nth_slice [simp]: "d + n \<le> length bs \<Longrightarrow> x < n \<Longrightarrow> slice bs d n ! x = bs ! (d + x)"
  by (simp add: slice_def)

lemma slice_eqI:
  assumes "d + n \<le> length bs" "length xs = n" "\<And>x. x < n \<Longrightarrow> bs ! (d + x) = xs ! x"
  shows "slice bs d n = xs"
  using assms by (intro nth_equalityI) simp_all

subsection \<open>Headers\<close>

lemma length_le16 [simp]: "length (le16 w) = 2"
  by (simp add: le16_def)

lemma length_enc_node [simp]: "length (enc_node n) = 8"
  by (simp add: enc_node_def)

lemma length_le64 [simp]: "length (le64 n) = 8"
  by (simp add: le64_def)

lemma de16_le16: "de16 (ucast w) (ucast (drop_bit 8 w)) = w"
  by (rule bit_word_eqI)
    (auto simp: de16_def bit_or_iff bit_push_bit_iff bit_ucast_iff bit_drop_bit_eq dest: bit_imp_le_length)

lemma dec_enc_node: "dec_node (enc_node n) = n"
  by (simp add: dec_node_def enc_node_def le16_def de16_le16)

lemma ffff_mask: "(0xffff :: 'a::len word) = mask 16"
  by (simp add: mask_eq_exp_minus_1)

lemmas header_bits = bit_or_iff bit_push_bit_iff bit_ucast_iff bit_drop_bit_eq bit_and_iff bit_mask_iff ffff_mask

lemma NODEDSZ_SETDSZ: "NODEDSZ (SETDSZ sz n) = sz"
proof (rule bit_word_eqI)
  fix k :: nat
  assume "k < LENGTH(32)"
  then show "bit (NODEDSZ (SETDSZ sz n)) k = bit sz k"
    by (cases "16 \<le> k") (auto simp: NODEDSZ_def SETDSZ_def header_bits dest: bit_imp_le_length)
qed

lemma NODEPGNO_SETPGNO:
  assumes "pg < 2 ^ 48"
  shows "NODEPGNO (SETPGNO pg n) = pg"
proof (rule bit_word_eqI)
  fix k :: nat
  assume k: "k < LENGTH(64)"
  have t: "take_bit 48 pg = pg" unfolding take_bit_eq_mask by (rule less_mask_eq [OF assms])
  then have hi: "bit pg k \<Longrightarrow> k < 48" by (metis bit_take_bit_iff)
  consider "k < 16" | "16 \<le> k" "k < 32" | "32 \<le> k" by linarith
  then show "bit (NODEPGNO (SETPGNO pg n)) k = bit pg k"
    by cases (use k hi in \<open>auto simp: NODEPGNO_def SETPGNO_def header_bits dest: bit_imp_le_length\<close>)
qed

lemma F_BIGDATA_bit: "F_ISSET w F_BIGDATA \<longleftrightarrow> bit w 0"
  by (simp add: F_ISSET_def F_BIGDATA_def and_one_eq bit_0 odd_iff_mod_2_eq_one)

lemma F_BIGDATA_hdr [simp]: "F_ISSET (ucast (ucast f :: u16)) F_BIGDATA \<longleftrightarrow> F_ISSET f F_BIGDATA" for f :: u32
  by (simp add: F_BIGDATA_bit bit_ucast_iff)

lemma EVEN_ge: "n \<le> EVEN n"
  by (simp add: EVEN_def)

subsection \<open>A page as a list of nodes\<close>

type_synonym node = "MDB_node \<times> u8 list \<times> u8 list"

definition payload_size :: "bool \<Rightarrow> MDB_node \<Rightarrow> nat" where
  "payload_size leaf h = (if leaf then if F_ISSET (ucast (mn_flags h)) F_BIGDATA then 8 else unat (NODEDSZ h) else 0)"

definition node_len :: "bool \<Rightarrow> MDB_node \<Rightarrow> nat" where
  "node_len leaf h = EVEN (8 + unat (mn_ksize h) + payload_size leaf h)"

definition ext_at :: "bool \<Rightarrow> u8 list \<Rightarrow> nat \<Rightarrow> nat" where
  "ext_at leaf bs d = node_len leaf (dec_node (slice bs d 8))"

definition node_at :: "bool \<Rightarrow> u8 list \<Rightarrow> nat \<Rightarrow> node" where
  "node_at leaf bs d = (let h = dec_node (slice bs d 8) in
     (h, slice bs (d + 8) (unat (mn_ksize h)), slice bs (d + 8 + unat (mn_ksize h)) (payload_size leaf h)))"

definition page_offs :: "MDB_page \<Rightarrow> nat list" where
  "page_offs p = map unat (take (NUMKEYS p) (mp_ptrs p))"

definition page_nodes :: "MDB_page \<Rightarrow> node list" where
  "page_nodes p = map (node_at (IS_LEAF p) (mp_bytes p)) (page_offs p)"

definition apart :: "bool \<Rightarrow> u8 list \<Rightarrow> nat \<Rightarrow> nat \<Rightarrow> bool" where
  "apart leaf bs d e \<longleftrightarrow> d + ext_at leaf bs d \<le> e \<or> e + ext_at leaf bs e \<le> d"

definition page_wf :: "nat \<Rightarrow> MDB_page \<Rightarrow> bool" where
  "page_wf psize p \<longleftrightarrow> psize < 2 ^ 16 \<and> length (mp_bytes p) = psize \<and> length (mp_ptrs p) = (psize - 16) div 2 \<and>
     16 \<le> unat (mp_lower p) \<and> even (unat (mp_lower p)) \<and> even (unat (mp_upper p)) \<and> unat (mp_lower p) \<le> unat (mp_upper p) \<and> unat (mp_upper p) \<le> psize \<and>
     (\<forall>d\<in>set (page_offs p). unat (mp_upper p) \<le> d \<and> d + ext_at (IS_LEAF p) (mp_bytes p) d \<le> psize) \<and>
     sorted_wrt (apart (IS_LEAF p) (mp_bytes p)) (page_offs p)"

lemma ext_ge: "8 \<le> ext_at leaf bs d"
  using EVEN_ge [of "8 + unat (mn_ksize (dec_node (slice bs d 8))) + payload_size leaf (dec_node (slice bs d 8))"]
  by (simp add: ext_at_def node_len_def)

lemma ext_even: "even (ext_at leaf bs d)"
  by (simp add: ext_at_def node_len_def EVEN_def)

lemma apart_sym: "apart leaf bs d e \<Longrightarrow> apart leaf bs e d"
  by (auto simp: apart_def)

text \<open>A node is its bytes: equal bytes at another place are the same node.\<close>

lemma node_frame:
  assumes in1: "d + ext_at leaf bs d \<le> length bs" and in2: "d' + ext_at leaf bs d \<le> length bs'"
    and same: "\<And>x. x < ext_at leaf bs d \<Longrightarrow> bs' ! (d' + x) = bs ! (d + x)"
  shows "node_at leaf bs' d' = node_at leaf bs d" and "ext_at leaf bs' d' = ext_at leaf bs d"
proof -
  let ?h = "dec_node (slice bs d 8)"
  have len: "8 + unat (mn_ksize ?h) + payload_size leaf ?h \<le> ext_at leaf bs d"
    unfolding ext_at_def node_len_def by (rule EVEN_ge)
  have sl: "slice bs' (d' + a) n = slice bs (d + a) n" if "a + n \<le> ext_at leaf bs d" for a n
    using that in1 in2 same by (intro slice_eqI) (simp_all add: add.assoc)
  have h: "slice bs' d' 8 = slice bs d 8" using sl [of 0 8] len by simp
  show "node_at leaf bs' d' = node_at leaf bs d"
    using sl [of 8 "unat (mn_ksize ?h)"] sl [of "8 + unat (mn_ksize ?h)" "payload_size leaf ?h"] len
    by (simp add: node_at_def h Let_def add.assoc)
  show "ext_at leaf bs' d' = ext_at leaf bs d" by (simp add: ext_at_def h)
qed

lemma NUMKEYS_eq:
  assumes "16 \<le> unat (mp_lower p)"
  shows "NUMKEYS p = (unat (mp_lower p) - 16) div 2"
proof -
  have u: "unat (ucast (mp_lower p) :: u32) = unat (mp_lower p)"
    using unat_lt_pow [of "mp_lower p"] by (simp add: unsigned_ucast_eq take_bit_nat_eq_self_iff)
  then have "unat (ucast (mp_lower p) - 16 :: u32) = unat (mp_lower p) - 16"
    using assms by (subst unat_sub) (simp_all add: word_le_nat_alt)
  then show ?thesis by (simp add: NUMKEYS_def)
qed

lemma page_wfD:
  assumes "page_wf psize p"
  shows "psize < 2 ^ 16" "length (mp_bytes p) = psize" "length (mp_ptrs p) = (psize - 16) div 2"
    "unat (mp_lower p) = 16 + 2 * NUMKEYS p" "unat (mp_lower p) \<le> unat (mp_upper p)" "unat (mp_upper p) \<le> psize"
    "NUMKEYS p \<le> length (mp_ptrs p)"
    "\<And>d. d \<in> set (page_offs p) \<Longrightarrow> unat (mp_upper p) \<le> d \<and> d + ext_at (IS_LEAF p) (mp_bytes p) d \<le> psize"
    "sorted_wrt (apart (IS_LEAF p) (mp_bytes p)) (page_offs p)" "even (unat (mp_upper p))"
  using assms NUMKEYS_eq [of p] by (auto simp: page_wf_def)

lemma length_page_offs: "page_wf psize p \<Longrightarrow> length (page_offs p) = NUMKEYS p"
  using page_wfD(7) [of psize p] by (simp add: page_offs_def)

subsection \<open>Adding a node\<close>

text \<open>The payload that a new node gets; \<open>old\<close> is what the memory held before.\<close>

definition new_payload :: "bool \<Rightarrow> u32 \<Rightarrow> place \<Rightarrow> u8 list option \<Rightarrow> u8 list \<Rightarrow> u8 list" where
  "new_payload leaf flags pl data old =
     (if leaf then
        (case data of
           None \<Rightarrow> []
         | Some v \<Rightarrow>
             (case pl of
                Big_new n \<Rightarrow> le64 n
              | Big_known \<Rightarrow> take 8 v
              | In_node \<Rightarrow> if F_ISSET flags MDB_RESERVE then take (length v) old else v))
      else [])"

lemma unat_of_nat_small: "n < 2 ^ LENGTH('a) \<Longrightarrow> unat (of_nat n :: 'a::len word) = n"
  by (simp add: unsigned_of_nat take_bit_nat_eq_self_iff)

lemma new_header_ksize [simp]: "mn_ksize (new_header leaf key data pgno flags) = of_nat (length (opt_bytes key))"
  by (simp add: new_header_def opt_bytes_def Let_def SETDSZ_def SETPGNO_def split: option.splits)

lemma new_header_flags: "leaf \<Longrightarrow> mn_flags (new_header leaf key data pgno flags) = ucast flags"
  by (simp add: new_header_def Let_def SETDSZ_def split: option.splits)

lemma new_header_dsz: "leaf \<Longrightarrow> NODEDSZ (new_header leaf key (Some v) pgno flags) = of_nat (length v)"
  by (simp add: new_header_def Let_def NODEDSZ_SETDSZ)

text \<open>What \<open>node_write\<close> needs of its arguments: a leaf gets data, the flag \<open>F_BIGDATA\<close> says where the data is.\<close>

definition place_ok :: "bool \<Rightarrow> u32 \<Rightarrow> place \<Rightarrow> u8 list option \<Rightarrow> bool" where
  "place_ok leaf flags pl data \<longleftrightarrow> (leaf \<longrightarrow> (\<exists>v. data = Some v \<and>
     (F_ISSET flags F_BIGDATA \<longleftrightarrow> pl \<noteq> In_node) \<and> (pl = Big_known \<longrightarrow> 8 \<le> length v) \<and> (pl = In_node \<longrightarrow> length v < 2 ^ 32)))"

lemma payload_new:
  assumes "place_ok leaf flags pl data"
    and "leaf \<Longrightarrow> pl = In_node \<Longrightarrow> length (opt_bytes data) \<le> length old"
  shows "payload_size leaf (new_header leaf key data pgno flags) = length (new_payload leaf flags pl data old)"
proof (cases leaf)
  case True
  then obtain v where v: "data = Some v" and f: "F_ISSET flags F_BIGDATA \<longleftrightarrow> pl \<noteq> In_node"
    and k: "pl = Big_known \<longrightarrow> 8 \<le> length v" "pl = In_node \<longrightarrow> length v < 2 ^ 32"
    using assms(1) by (auto simp: place_ok_def)
  show ?thesis
    using True v f k assms(2)
    by (cases pl) (simp_all add: payload_size_def new_payload_def new_header_flags new_header_dsz opt_bytes_def unat_of_nat_small)
qed (simp add: payload_size_def new_payload_def)

text \<open>The three copies of \<open>node_write\<close> as one block of bytes.\<close>

lemma node_bytes_written:
  fixes bs :: "u8 list"
  assumes "d + 8 + length k + length v \<le> length bs" and "length hd8 = 8"
  shows "bindE (mem_put d hd8 bs) (\<lambda>b1. bindE (mem_put (d + 8) k b1) (mem_put (d + 8 + length k) v)) = mem_put d (hd8 @ k @ v) bs"
  using assms by (simp add: mem_put_def ac_simps)

lemma put_same: "d + n \<le> length bs \<Longrightarrow> mem_put d (take n (drop d bs)) bs = Inr bs"
  by (simp add: mem_put_def min_def) (metis add.commute append.assoc append_take_drop_id take_add)

lemma put_payload:
  assumes "place_ok leaf flags pl data" and "dd + length (new_payload leaf flags pl data (drop dd b)) \<le> length b"
    and "leaf \<Longrightarrow> pl = In_node \<Longrightarrow> dd + length (opt_bytes data) \<le> length b"
  shows "(if leaf then
      (case data of
         None \<Rightarrow> Inl Bad_pointer
       | Some v \<Rightarrow>
           (case pl of
              Big_new n \<Rightarrow> mem_put dd (le64 n) b
            | Big_known \<Rightarrow> bindE (mem_get 0 8 v) (\<lambda>x. mem_put dd x b)
            | In_node \<Rightarrow> if F_ISSET flags MDB_RESERVE then Inr b else mem_put dd v b))
    else Inr b) = mem_put dd (new_payload leaf flags pl data (drop dd b)) b"
proof (cases leaf)
  case True
  then obtain v where v: "data = Some v" and k: "pl = Big_known \<longrightarrow> 8 \<le> length v"
    using assms(1) by (auto simp: place_ok_def)
  show ?thesis
    using True v k assms(3)
    by (cases pl) (simp_all add: new_payload_def opt_bytes_def put_same mem_get_def slice_def)
next
  case False
  then show ?thesis using assms(2) by (simp add: new_payload_def mem_put_def)
qed

lemma node_write_bytes:
  assumes pl: "place_ok (IS_LEAF p) flags pl data"
    and d: "d = unat (mp_upper p - of_nat node_size)"
    and k: "length (opt_bytes key) < 2 ^ 16"
    and pay: "pay = new_payload (IS_LEAF p) flags pl data (drop (d + 8 + length (opt_bytes key)) (mp_bytes p))"
    and fits: "d + 8 + length (opt_bytes key) + length pay \<le> length (mp_bytes p)"
    and fits2: "IS_LEAF p \<Longrightarrow> pl = In_node \<Longrightarrow> d + 8 + length (opt_bytes key) + length (opt_bytes data) \<le> length (mp_bytes p)"
    and low: "unat (mp_lower p) + 2 \<le> d"
    and i: "indx \<le> NUMKEYS p" "NUMKEYS p < length (mp_ptrs p)"
  shows "node_write indx key data pgno flags pl node_size p =
     Inr (p\<lparr>mp_ptrs := take indx (mp_ptrs p) @ (mp_upper p - of_nat node_size) # take (NUMKEYS p - indx) (drop indx (mp_ptrs p)) @ drop (Suc (NUMKEYS p)) (mp_ptrs p),
         mp_upper := mp_upper p - of_nat node_size, mp_lower := mp_lower p + 2,
         mp_bytes := take d (mp_bytes p) @ (enc_node (new_header (IS_LEAF p) key data pgno flags) @ opt_bytes key @ pay) @
           drop (d + 8 + length (opt_bytes key) + length pay) (mp_bytes p)\<rparr>)"
proof -
  let ?h = "new_header (IS_LEAF p) key data pgno flags" and ?k = "opt_bytes key" and ?ofs = "mp_upper p - of_nat node_size"
  let ?b1 = "take d (mp_bytes p) @ enc_node ?h @ drop (d + 8) (mp_bytes p)"
  let ?b2 = "take d (mp_bytes p) @ (enc_node ?h @ ?k) @ drop (d + 8 + length ?k) (mp_bytes p)"
  have ks: "unat (mn_ksize ?h) = length ?k" using k by (simp add: unat_of_nat_small)
  have b1: "mem_put d (enc_node ?h) (mp_bytes p) = Inr ?b1" using fits by (simp add: mem_put_def)
  have b2: "mem_put (d + 8) ?k ?b1 = Inr ?b2" using fits by (simp add: mem_put_def ac_simps)
  have dr: "drop (d + 8 + length ?k) ?b2 = drop (d + 8 + length ?k) (mp_bytes p)" and l2: "length ?b2 = length (mp_bytes p)"
    using fits by simp_all
  have b3: "mem_put (d + 8 + length ?k) pay ?b2 =
      Inr (take d (mp_bytes p) @ (enc_node ?h @ ?k @ pay) @ drop (d + 8 + length ?k + length pay) (mp_bytes p))"
    using fits by (simp add: mem_put_def ac_simps)
  have pay2: "pay = new_payload (IS_LEAF p) flags pl data (drop (d + 8 + length ?k) ?b2)" by (simp only: pay dr)
  have p3: "(if IS_LEAF p then
      (case data of
         None \<Rightarrow> Inl Bad_pointer
       | Some v \<Rightarrow>
           (case pl of
              Big_new n \<Rightarrow> mem_put (d + 8 + length ?k) (le64 n) ?b2
            | Big_known \<Rightarrow> bindE (mem_get 0 8 v) (\<lambda>x. mem_put (d + 8 + length ?k) x ?b2)
            | In_node \<Rightarrow> if F_ISSET flags MDB_RESERVE then Inr ?b2 else mem_put (d + 8 + length ?k) v ?b2))
    else Inr ?b2) = mem_put (d + 8 + length ?k) pay ?b2"
    by (rule put_payload [OF pl, of "d + 8 + length ?k" ?b2, folded pay2]) (use fits fits2 l2 in \<open>simp_all only:\<close>)
  have ps: "bindE (shift_up (NUMKEYS p) indx (mp_ptrs p)) (\<lambda>ys. bindE (aset ys indx ?ofs) f) =
     f (take indx (mp_ptrs p) @ ?ofs # take (NUMKEYS p - indx) (drop indx (mp_ptrs p)) @ drop (Suc (NUMKEYS p)) (mp_ptrs p))"
    for f :: "u16 list \<Rightarrow> MDB_page res"
    using shift_insert [OF i, of ?ofs] by (simp add: bindE_assoc [symmetric])
  show ?thesis
    using low
    by (simp only: node_write_def Let_def d [symmetric] NODESIZE_def assertE_True ps ks b1 b2 p3 b3 bindE_Inr)
qed

text \<open>The new node is found where it was written.\<close>

lemma node_at_written:
  assumes "length (opt_bytes key) < 2 ^ 16" and "d \<le> length bs"
    and "payload_size leaf (new_header leaf key data pgno flags) = length pay"
    and "bs' = take d bs @ (enc_node (new_header leaf key data pgno flags) @ opt_bytes key @ pay) @ rest"
  shows "node_at leaf bs' d = (new_header leaf key data pgno flags, opt_bytes key, pay)"
    and "ext_at leaf bs' d = EVEN (8 + length (opt_bytes key) + length pay)"
proof -
  have h: "slice bs' d 8 = enc_node (new_header leaf key data pgno flags)" using assms by (simp add: slice_def)
  have u: "unat (mn_ksize (new_header leaf key data pgno flags)) = length (opt_bytes key)"
    using assms(1) by (simp add: unat_of_nat_small)
  have hh: "dec_node (slice bs' d 8) = new_header leaf key data pgno flags" by (simp add: h dec_enc_node)
  have s1: "slice bs' (d + 8) (length (opt_bytes key)) = opt_bytes key"
    and s2: "slice bs' (d + 8 + length (opt_bytes key)) (length pay) = pay"
    using assms(2,4) by (simp_all add: slice_def)
  show "node_at leaf bs' d = (new_header leaf key data pgno flags, opt_bytes key, pay)"
    by (simp only: node_at_def hh Let_def u assms(3) s1 s2)
  show "ext_at leaf bs' d = EVEN (8 + length (opt_bytes key) + length pay)"
    by (simp only: ext_at_def hh node_len_def u assms(3))
qed

text \<open>Bytes that change only below \<open>mp_upper\<close> leave the nodes of the page alone.\<close>

lemma nodes_kept:
  assumes wf: "page_wf psize p" and e: "e \<in> set (page_offs p)" and len: "length bs' = length (mp_bytes p)"
    and same: "\<And>x. unat (mp_upper p) \<le> x \<Longrightarrow> x < length bs' \<Longrightarrow> bs' ! x = mp_bytes p ! x"
  shows "node_at (IS_LEAF p) bs' e = node_at (IS_LEAF p) (mp_bytes p) e"
    and "ext_at (IS_LEAF p) bs' e = ext_at (IS_LEAF p) (mp_bytes p) e"
proof -
  note w = page_wfD(8) [OF wf e] page_wfD(2) [OF wf]
  have eq: "bs' ! (e + x) = mp_bytes p ! (e + x)" if "x < ext_at (IS_LEAF p) (mp_bytes p) e" for x
    using w that len by (intro same) linarith+
  show "node_at (IS_LEAF p) bs' e = node_at (IS_LEAF p) (mp_bytes p) e"
    by (rule node_frame) (use w len eq in simp_all)
  show "ext_at (IS_LEAF p) bs' e = ext_at (IS_LEAF p) (mp_bytes p) e"
    by (rule node_frame) (use w len eq in simp_all)
qed

lemma sorted_wrt_insert:
  assumes "sorted_wrt R xs" and "\<And>x. x \<in> set xs \<Longrightarrow> R y x \<and> R x y"
  shows "sorted_wrt R (take i xs @ y # drop i xs)"
proof -
  have "sorted_wrt R (take i xs @ drop i xs)" using assms(1) by simp
  then show ?thesis
    unfolding sorted_wrt_append using assms(2) by (auto dest: in_set_takeD in_set_dropD)
qed

lemma take_insert_Suc:
  assumes "i \<le> n" and "n \<le> length xs"
  shows "take (Suc n) (take i xs @ y # take (n - i) (drop i xs) @ zs) = take i (take n xs) @ y # drop i (take n xs)"
  using assms by (simp add: min_def Suc_diff_le drop_take)

lemma nodes_inserted:
  assumes wf: "page_wf psize p" and i: "indx \<le> NUMKEYS p" "NUMKEYS p < length (mp_ptrs p)"
    and q: "mp_flags q = mp_flags p" "mp_lower q = mp_lower p + 2" "length (mp_bytes q) = psize"
      "mp_ptrs q = take indx (mp_ptrs p) @ mp_upper q # take (NUMKEYS p - indx) (drop indx (mp_ptrs p)) @ drop (Suc (NUMKEYS p)) (mp_ptrs p)"
    and up: "unat (mp_lower p) + 2 \<le> unat (mp_upper q)"
      "unat (mp_upper q) + ext_at (IS_LEAF p) (mp_bytes q) (unat (mp_upper q)) = unat (mp_upper p)"
    and same: "\<And>x. unat (mp_upper p) \<le> x \<Longrightarrow> x < psize \<Longrightarrow> mp_bytes q ! x = mp_bytes p ! x"
  shows "page_wf psize q \<and> page_nodes q = take indx (page_nodes p) @ node_at (IS_LEAF p) (mp_bytes q) (unat (mp_upper q)) # drop indx (page_nodes p)"
proof -
  let ?l = "IS_LEAF p" and ?d = "unat (mp_upper q)"
  note w = page_wfD [OF wf]
  have leaf: "IS_LEAF q = ?l" using q(1) by (simp add: IS_LEAF_def)
  have low: "unat (mp_lower q) = unat (mp_lower p) + 2"
    using up(1) unat_lt_pow [of "mp_upper q"] q(2) by (simp add: unat_word_ariths)
  have nk: "NUMKEYS q = Suc (NUMKEYS p)" using low w(4) NUMKEYS_eq [of q] by simp
  have offs: "page_offs q = take indx (page_offs p) @ ?d # drop indx (page_offs p)"
    using take_insert_Suc [OF i(1), of "mp_ptrs p"] i(2) by (simp add: page_offs_def nk q(4) take_map drop_map)
  have kept: "node_at ?l (mp_bytes q) e = node_at ?l (mp_bytes p) e" "ext_at ?l (mp_bytes q) e = ext_at ?l (mp_bytes p) e"
    if "e \<in> set (page_offs p)" for e
    using nodes_kept [OF wf that, of "mp_bytes q"] q(3) w(2) same by simp_all
  have so: "set (take indx (page_offs p)) \<subseteq> set (page_offs p)" "set (drop indx (page_offs p)) \<subseteq> set (page_offs p)"
    by (rule set_take_subset, rule set_drop_subset)
  have nodes: "page_nodes q = take indx (page_nodes p) @ node_at ?l (mp_bytes q) ?d # drop indx (page_nodes p)"
    using so kept(1) by (auto simp: page_nodes_def leaf offs take_map drop_map)
  have ap: "sorted_wrt (apart ?l (mp_bytes q)) (page_offs p)"
    by (rule sorted_wrt_mono_rel [OF _ w(9)]) (use kept(2) in \<open>auto simp: apart_def\<close>)
  have "sorted_wrt (apart ?l (mp_bytes q)) (page_offs q)"
    unfolding offs using ap w(8) up(2) by (intro sorted_wrt_insert) (auto simp: apart_def)
  moreover have "?d \<le> e \<and> e + ext_at ?l (mp_bytes q) e \<le> psize" if "e \<in> set (page_offs q)" for e
  proof (cases "e = ?d")
    case True then show ?thesis using up(2) w(6) by simp
  next
    case False
    then have "e \<in> set (page_offs p)" using that so by (auto simp: offs)
    then show ?thesis using w(8) kept(2) up(2) by fastforce
  qed
  moreover have "length (mp_ptrs q) = (psize - 16) div 2" using q(4) i w(3) by simp
  moreover have "even ?d" using up(2) w(10) ext_even by (metis even_add)
  ultimately have "page_wf psize q"
    using w(1,4,5,6) q(3) low up by (simp add: page_wf_def leaf)
  then show ?thesis using nodes by simp
qed

definition payload_len :: "bool \<Rightarrow> place \<Rightarrow> u8 list option \<Rightarrow> nat" where
  "payload_len leaf pl data = (if leaf then if pl = In_node then length (opt_bytes data) else 8 else 0)"

lemma length_new_payload:
  assumes "place_ok leaf flags pl data" and "payload_len leaf pl data \<le> length old"
  shows "length (new_payload leaf flags pl data old) = payload_len leaf pl data"
  using assms by (cases pl) (auto simp: place_ok_def payload_len_def new_payload_def opt_bytes_def split: option.splits)

lemma node_write_inserts:
  assumes wf: "page_wf psize p" and pl: "place_ok (IS_LEAF p) flags pl data" and i: "indx \<le> NUMKEYS p"
    and ns: "ns = EVEN (8 + length (opt_bytes key) + payload_len (IS_LEAF p) pl data)"
    and room: "ns + 2 \<le> unat (mp_upper p) - unat (mp_lower p)"
  shows "\<exists>p'. node_write indx key data pgno flags pl ns p = Inr p' \<and> page_wf psize p' \<and> mp_flags p' = mp_flags p \<and>
     page_nodes p' = take indx (page_nodes p) @
       (new_header (IS_LEAF p) key data pgno flags, opt_bytes key,
        new_payload (IS_LEAF p) flags pl data (drop (unat (mp_upper p) - ns + 8 + length (opt_bytes key)) (mp_bytes p))) #
       drop indx (page_nodes p)"
proof -
  let ?k = "opt_bytes key" and ?l = "IS_LEAF p"
  define d where "d = unat (mp_upper p - of_nat ns)"
  define pay where "pay = new_payload ?l flags pl data (drop (d + 8 + length ?k) (mp_bytes p))"
  note w = page_wfD [OF wf]
  have nsl: "8 + length ?k + payload_len ?l pl data \<le> ns" unfolding ns by (rule EVEN_ge)
  have un: "unat (of_nat ns :: u16) = ns" using room w(1,6) by (intro unat_of_nat_small) simp
  have d: "d = unat (mp_upper p) - ns"
    using room un unfolding d_def by (subst unat_sub) (simp_all add: word_le_nat_alt)
  have ud: "d + ns = unat (mp_upper p)" "unat (mp_lower p) + 2 \<le> d" using room by (simp_all add: d)
  have k: "length ?k < 2 ^ 16" using nsl ud w(1,6) by simp
  have lp: "length pay = payload_len ?l pl data"
    unfolding pay_def using nsl ud w(2,6) by (intro length_new_payload [OF pl]) simp
  have cap: "NUMKEYS p < length (mp_ptrs p)" using ud w(3,4,6) nsl by simp
  define q where "q = p\<lparr>mp_ptrs := take indx (mp_ptrs p) @ (mp_upper p - of_nat ns) # take (NUMKEYS p - indx) (drop indx (mp_ptrs p)) @ drop (Suc (NUMKEYS p)) (mp_ptrs p),
         mp_upper := mp_upper p - of_nat ns, mp_lower := mp_lower p + 2,
         mp_bytes := take d (mp_bytes p) @ (enc_node (new_header ?l key data pgno flags) @ ?k @ pay) @
           drop (d + 8 + length ?k + length pay) (mp_bytes p)\<rparr>"
  have wr: "node_write indx key data pgno flags pl ns p = Inr q"
    unfolding q_def using k i cap ud nsl lp w(2,6)
    by (intro node_write_bytes [OF pl d_def _ pay_def]) (auto simp: payload_len_def)
  have ps: "payload_size ?l (new_header ?l key data pgno flags) = length pay"
    unfolding pay_def using nsl ud w(2,6) by (intro payload_new [OF pl]) (simp add: payload_len_def)
  have dl: "d \<le> length (mp_bytes p)" using ud(1) w(2,6) by simp
  have fl: "mp_flags q = mp_flags p" and uq: "unat (mp_upper q) = d" by (simp_all add: q_def d_def)
  have bq: "mp_bytes q = take d (mp_bytes p) @ (enc_node (new_header ?l key data pgno flags) @ ?k @ pay) @
           drop (d + 8 + length ?k + length pay) (mp_bytes p)" by (simp add: q_def)
  note nn = node_at_written [OF k dl ps bq]
  have same: "mp_bytes q ! x = mp_bytes p ! x" if "unat (mp_upper p) \<le> x" "x < psize" for x
    using that ud nsl lp w(2,6) nth_put [of d "enc_node (new_header ?l key data pgno flags) @ ?k @ pay" "mp_bytes p" x]
    by (simp add: bq add.assoc)
  have "page_wf psize q \<and> page_nodes q = take indx (page_nodes p) @ node_at ?l (mp_bytes q) (unat (mp_upper q)) # drop indx (page_nodes p)"
    using nn(2) ud nsl lp w(2,6) dl
    by (intro nodes_inserted [OF wf i cap fl]) (simp_all add: uq same ns [symmetric], simp_all add: q_def)
  then show ?thesis using wr fl nn(1) by (simp add: uq pay_def d)
qed

lemma SIZELEFT_eq:
  assumes "page_wf psize p"
  shows "unat (SIZELEFT p) = unat (mp_upper p) - unat (mp_lower p)" and "mp_lower p \<le> mp_upper p"
proof -
  show le: "mp_lower p \<le> mp_upper p" using page_wfD(5) [OF assms] by (simp add: word_le_nat_alt)
  show "unat (SIZELEFT p) = unat (mp_upper p) - unat (mp_lower p)" unfolding SIZELEFT_def by (rule unat_sub [OF le])
qed

lemma EVEN_plus2: "EVEN (n + 2) = EVEN n + 2"
  by (simp add: EVEN_def)

lemma leaf_size_inline: "8 + k + v \<le> nodemax \<Longrightarrow> mdb_leaf_size nodemax k v = EVEN (8 + k + v) + 2"
  by (simp only: mdb_leaf_size_def NODESIZE_def Let_def EVEN_plus2) simp

lemma leaf_size_big: "nodemax < 8 + k + v \<Longrightarrow> mdb_leaf_size nodemax k v = EVEN (8 + k + 8) + 2"
  by (simp only: mdb_leaf_size_def NODESIZE_def Let_def EVEN_plus2) simp

text \<open>The header that \<open>mdb_node_add\<close> promises for a leaf node.\<close>

definition leaf_header :: "u32 \<Rightarrow> nat \<Rightarrow> nat \<Rightarrow> MDB_node" where
  "leaf_header flags klen vlen = SETDSZ (of_nat vlen) \<lparr>mn_lo = 0, mn_hi = 0, mn_flags = ucast flags, mn_ksize = of_nat klen\<rparr>"

lemma new_header_leaf: "new_header True (Some k) (Some v) pgno flags = leaf_header flags (length k) (length v)"
  by (simp add: new_header_def leaf_header_def)

lemma set_BIGDATA: "F_ISSET (flags OR F_BIGDATA) F_BIGDATA"
  by (simp add: F_BIGDATA_bit bit_or_iff) (simp add: F_BIGDATA_def)

lemma not_room: "uint (SIZELEFT p) - 2 < int ns \<longleftrightarrow> unat (SIZELEFT p) < ns + 2"
  unfolding uint_nat by linarith

lemma room_for:
  assumes "page_wf psize p" and "\<not> unat (SIZELEFT p) < ns + 2"
  shows "ns + 2 \<le> unat (mp_upper p) - unat (mp_lower p)"
  using assms(2) SIZELEFT_eq(1) [OF assms(1)] by simp

text \<open>C18: \<open>mdb_node_add\<close> with data that fits into a leaf node. When \<open>mdb_leaf_size\<close> says that the page
  has no room the page stays as it is, the transaction is marked as failed and \<open>MDB_PAGE_FULL\<close> is
  returned; otherwise the call succeeds, the page stays well formed, and its list of nodes has the new
  node, with the key and (unless space was only reserved) the data, at the index asked for.\<close>

theorem node_add_leaf:
  assumes "page_wf psize p" and "IS_LEAF p" and "\<not> IS_LEAF2 p" and "indx \<le> NUMKEYS p"
    and "\<not> F_ISSET flags F_BIGDATA" and "8 + length k + length v \<le> nodemax" and "nodemax < 2 ^ 32"
  shows "if unat (SIZELEFT p) < mdb_leaf_size nodemax (length k) (length v)
     then mdb_node_add nodemax psize pad newpg indx (Some k) (Some v) pgno flags p tf = Inr (MDB_PAGE_FULL, p, tf OR MDB_TXN_ERROR, None)
     else (\<exists>p' v'. mdb_node_add nodemax psize pad newpg indx (Some k) (Some v) pgno flags p tf = Inr (0, p', tf, None) \<and>
       page_wf psize p' \<and> length v' = length v \<and> (F_ISSET flags MDB_RESERVE \<or> v' = v) \<and>
       page_nodes p' = take indx (page_nodes p) @ (leaf_header flags (length k) (length v), k, v') # drop indx (page_nodes p))"
proof -
  let ?ns = "EVEN (8 + length k + length v)"
  have pl: "place_ok (IS_LEAF p) flags In_node (Some v)" using assms by (simp add: place_ok_def)
  have call: "mdb_node_add nodemax psize pad newpg indx (Some k) (Some v) pgno flags p tf =
     node_update (int (unat (SIZELEFT p)) - 2) indx (Some k) (Some v) pgno flags In_node ?ns p tf"
    using assms SIZELEFT_eq(2) [OF assms(1)] by (simp add: mdb_node_add_def NODESIZE_def)
  show ?thesis
  proof (cases "unat (SIZELEFT p) < ?ns + 2")
    case True
    then show ?thesis using assms(6)
      by (simp add: call leaf_size_inline node_update_def node_full_def not_room)
  next
    case False
    let ?pay = "new_payload (IS_LEAF p) flags In_node (Some v) (drop (unat (mp_upper p) - ?ns + 8 + length k) (mp_bytes p))"
    note ro = room_for [OF assms(1) False]
    have "8 + length k + length v \<le> ?ns" by (rule EVEN_ge)
    then have len: "length ?pay = length v" and res: "F_ISSET flags MDB_RESERVE \<or> ?pay = v"
      using assms(2) ro page_wfD(2,6) [OF assms(1)] by (auto simp: new_payload_def)
    obtain p' where p': "node_write indx (Some k) (Some v) pgno flags In_node ?ns p = Inr p'" "page_wf psize p'"
      "page_nodes p' = take indx (page_nodes p) @ (leaf_header flags (length k) (length v), k, ?pay) # drop indx (page_nodes p)"
      using node_write_inserts [OF assms(1) pl assms(4) _ ro, of "Some k" pgno] assms(2)
      by (auto simp: payload_len_def opt_bytes_def new_header_leaf)
    then show ?thesis using False assms(6) len res
      by (simp add: call leaf_size_inline node_update_def not_room)
  qed
qed

lemma OR_flag_bit0: "bit (flags OR F_BIGDATA) 0"
  using set_BIGDATA [of flags] by (simp add: F_BIGDATA_bit)

text \<open>C28: \<open>mdb_node_add\<close> with data too large for a leaf node. When there is room for the key and a page
  number, overflow pages are asked for, as many as the data needs; an error of that call is returned
  with the page unchanged; otherwise the new node has the number of the first overflow page in place of the data, is marked with
  \<open>F_BIGDATA\<close>, and the data goes to those pages unless space was only reserved.\<close>

theorem node_add_big:
  assumes "page_wf psize p" and "IS_LEAF p" and "\<not> IS_LEAF2 p" and "indx \<le> NUMKEYS p"
    and "\<not> F_ISSET flags F_BIGDATA" and "nodemax < 8 + length k + length v"
    and "mdb_leaf_size nodemax (length k) (length v) \<le> unat (SIZELEFT p)"
    and "newpg (OVPAGES (length v) psize) = (rc, n)"
  shows "if rc \<noteq> 0
     then mdb_node_add nodemax psize pad newpg indx (Some k) (Some v) pgno flags p tf = Inr (rc, p, tf, None)
     else (\<exists>p'. mdb_node_add nodemax psize pad newpg indx (Some k) (Some v) pgno flags p tf =
         Inr (0, p', tf, if F_ISSET flags MDB_RESERVE then None else Some (n, v)) \<and> page_wf psize p' \<and>
       page_nodes p' = take indx (page_nodes p) @ (leaf_header (flags OR F_BIGDATA) (length k) (length v), k, le64 n) # drop indx (page_nodes p))"
proof -
  let ?ns = "EVEN (8 + length k + 8)" and ?fl = "flags OR F_BIGDATA"
  have pl: "place_ok (IS_LEAF p) ?fl (Big_new n) (Some v)" using assms(2) set_BIGDATA by (simp add: place_ok_def)
  have nf: "\<not> unat (SIZELEFT p) < ?ns + 2" using assms(7) leaf_size_big [OF assms(6)] by linarith
  have call: "mdb_node_add nodemax psize pad newpg indx (Some k) (Some v) pgno flags p tf =
     (if rc \<noteq> 0 then Inr (rc, p, tf, None)
      else bindE (node_write indx (Some k) (Some v) pgno ?fl (Big_new n) ?ns p)
             (\<lambda>p'. Inr (0, p', tf, if F_ISSET flags MDB_RESERVE then None else Some (n, v))))"
    using assms SIZELEFT_eq(2) [OF assms(1)] nf by (simp add: mdb_node_add_def NODESIZE_def not_room)
  obtain p' where "node_write indx (Some k) (Some v) pgno ?fl (Big_new n) ?ns p = Inr p'" "page_wf psize p'"
    "page_nodes p' = take indx (page_nodes p) @ (leaf_header ?fl (length k) (length v), k, le64 n) # drop indx (page_nodes p)"
    using node_write_inserts [OF assms(1) pl assms(4) _ room_for [OF assms(1) nf], of "Some k" pgno] assms(2)
    by (auto simp: payload_len_def opt_bytes_def new_header_leaf new_payload_def)
  then show ?thesis by (simp add: call)
qed

text \<open>C29: \<open>mdb_node_add\<close> on a branch page. A page number below \<open>2 ^ 48\<close> comes back from the new node's
  header; and although \<open>mdb_branch_size\<close> does not round up to an even number, on a well-formed page it
  never promises room that is not there.\<close>

theorem node_add_branch:
  assumes "page_wf psize p" and "\<not> IS_LEAF p" and "\<not> IS_LEAF2 p" and "indx \<le> NUMKEYS p" and "pgno < 2 ^ 48"
  shows "if unat (SIZELEFT p) < mdb_branch_size (map_option length key)
     then mdb_node_add nodemax psize pad newpg indx key data pgno flags p tf = Inr (MDB_PAGE_FULL, p, tf OR MDB_TXN_ERROR, None)
     else (\<exists>p' h. mdb_node_add nodemax psize pad newpg indx key data pgno flags p tf = Inr (0, p', tf, None) \<and>
       page_wf psize p' \<and> NODEPGNO h = pgno \<and>
       page_nodes p' = take indx (page_nodes p) @ (h, opt_bytes key, []) # drop indx (page_nodes p))"
proof -
  let ?ns = "EVEN (8 + length (opt_bytes key))" and ?h = "new_header (IS_LEAF p) key data pgno flags"
  have pl: "place_ok (IS_LEAF p) flags In_node data" using assms(2) by (simp add: place_ok_def)
  have call: "mdb_node_add nodemax psize pad newpg indx key data pgno flags p tf =
     node_update (int (unat (SIZELEFT p)) - 2) indx key data pgno flags In_node ?ns p tf"
    using assms SIZELEFT_eq(2) [OF assms(1)] by (cases key) (simp_all add: mdb_node_add_def NODESIZE_def opt_bytes_def)
  have "even (unat (SIZELEFT p))"
    using page_wfD(4,5,10) [OF assms(1)] SIZELEFT_eq(1) [OF assms(1)] by simp
  moreover have "mdb_branch_size (map_option length key) = 8 + length (opt_bytes key) + 2"
    by (cases key) (simp_all add: mdb_branch_size_def NODESIZE_def opt_bytes_def)
  ultimately have full: "unat (SIZELEFT p) < mdb_branch_size (map_option length key) \<longleftrightarrow> unat (SIZELEFT p) < ?ns + 2"
    unfolding EVEN_def by presburger
  show ?thesis
  proof (cases "unat (SIZELEFT p) < ?ns + 2")
    case True
    then show ?thesis by (simp only: full call node_update_def node_full_def) (simp add: not_room)
  next
    case False
    have "NODEPGNO ?h = pgno" using assms(2,5) NODEPGNO_SETPGNO by (simp add: new_header_def)
    moreover obtain p' where wr: "node_write indx key data pgno flags In_node ?ns p = Inr p'" and "page_wf psize p'"
      "page_nodes p' = take indx (page_nodes p) @ (?h, opt_bytes key, []) # drop indx (page_nodes p)"
      using node_write_inserts [OF assms(1) pl assms(4) _ room_for [OF assms(1) False], of key pgno] assms(2)
      by (auto simp: payload_len_def new_payload_def)
    moreover have "node_update (int (unat (SIZELEFT p)) - 2) indx key data pgno flags In_node ?ns p tf = Inr (0, p', tf, None)"
      using False wr by (simp add: node_update_def not_room)
    ultimately show ?thesis using False by (simp only: full call) auto
  qed
qed

subsection \<open>Deleting a node\<close>

definition moved :: "u16 \<Rightarrow> u16 \<Rightarrow> u16 \<Rightarrow> u16" where
  "moved ptr sz w = (if w < ptr then w + sz else w)"

lemma del_ptrs_after:
  assumes "indx < i" and "j < i" and "i + n \<le> length ps"
  shows "\<exists>qs. del_ptrs n i j indx ptr sz ps = Inr qs \<and> length qs = length ps \<and> (\<forall>x<j. qs ! x = ps ! x) \<and>
     (\<forall>x<n. qs ! (j + x) = moved ptr sz (ps ! (i + x)))"
  using assms
proof (induction n arbitrary: i j ps)
  case 0
  then show ?case by simp
next
  case (Suc n)
  let ?ps = "ps[j := moved ptr sz (ps ! i)]"
  have st: "del_ptrs (Suc n) i j indx ptr sz ps = del_ptrs n (Suc i) (Suc j) indx ptr sz ?ps"
    using Suc.prems by (simp add: moved_def)
  obtain qs where qs: "del_ptrs n (Suc i) (Suc j) indx ptr sz ?ps = Inr qs" "length qs = length ps"
    "\<forall>x<Suc j. qs ! x = ?ps ! x" "\<forall>x<n. qs ! (Suc j + x) = moved ptr sz (?ps ! (Suc i + x))"
    using Suc.IH [of "Suc i" "Suc j" ?ps] Suc.prems by auto
  have "qs ! (j + x) = moved ptr sz (ps ! (i + x))" if "x < Suc n" for x
    using that qs(3,4) Suc.prems by (cases x) simp_all
  then show ?case using st qs Suc.prems by simp
qed

lemma del_ptrs_before:
  assumes "i \<le> indx" and "indx < i + n" and "i + n \<le> length ps"
  shows "\<exists>qs. del_ptrs n i i indx ptr sz ps = Inr qs \<and> length qs = length ps \<and> (\<forall>x<i. qs ! x = ps ! x) \<and>
     (\<forall>x. i \<le> x \<and> x < indx \<longrightarrow> qs ! x = moved ptr sz (ps ! x)) \<and>
     (\<forall>x. indx \<le> x \<and> x < i + n - 1 \<longrightarrow> qs ! x = moved ptr sz (ps ! Suc x))"
  using assms
proof (induction n arbitrary: i ps)
  case 0
  then show ?case by simp
next
  case (Suc n)
  show ?case
  proof (cases "i = indx")
    case True
    then obtain qs where qs: "del_ptrs n (Suc i) i indx ptr sz ps = Inr qs" "length qs = length ps" "\<forall>x<i. qs ! x = ps ! x"
      "\<forall>x<n. qs ! (i + x) = moved ptr sz (ps ! (Suc i + x))"
      using del_ptrs_after [of indx "Suc i" i n ps ptr sz] Suc.prems by auto
    have "qs ! x = moved ptr sz (ps ! Suc x)" if "indx \<le> x" "x < i + Suc n - 1" for x
      using qs(4) [rule_format, of "x - i"] that True by simp
    then show ?thesis using qs True by (intro exI [of _ qs]) (simp, meson leD)
  next
    case False
    let ?ps = "ps[i := moved ptr sz (ps ! i)]"
    have st: "del_ptrs (Suc n) i i indx ptr sz ps = del_ptrs n (Suc i) (Suc i) indx ptr sz ?ps"
      using Suc.prems False by (simp add: moved_def)
    obtain qs where qs: "del_ptrs n (Suc i) (Suc i) indx ptr sz ?ps = Inr qs" "length qs = length ps"
      "\<forall>x<Suc i. qs ! x = ?ps ! x" "\<forall>x. Suc i \<le> x \<and> x < indx \<longrightarrow> qs ! x = moved ptr sz (?ps ! x)"
      "\<forall>x. indx \<le> x \<and> x < Suc i + n - 1 \<longrightarrow> qs ! x = moved ptr sz (?ps ! Suc x)"
      using Suc.IH [of "Suc i" ?ps] Suc.prems False by auto
    have "qs ! x = moved ptr sz (ps ! x)" if "i \<le> x" "x < indx" for x
      using that qs(3,4) Suc.prems by (cases "x = i") simp_all
    moreover have "qs ! x = moved ptr sz (ps ! Suc x)" if "indx \<le> x" "x < i + Suc n - 1" for x
      using that qs(5) Suc.prems False by simp
    ultimately show ?thesis using st qs Suc.prems by simp
  qed
qed

text \<open>The loop removes one pointer from the list and moves those that lead below the hole.\<close>

lemma del_ptrs_removes:
  assumes "indx < n" and "n \<le> length ps"
  obtains qs where "del_ptrs n 0 0 indx ptr sz ps = Inr qs" and "length qs = length ps"
    and "take (n - 1) qs = map (moved ptr sz) (take indx (take n ps) @ drop (Suc indx) (take n ps))"
proof -
  obtain qs where qs: "del_ptrs n 0 0 indx ptr sz ps = Inr qs" "length qs = length ps"
    "\<forall>x. x < indx \<longrightarrow> qs ! x = moved ptr sz (ps ! x)"
    "\<forall>x. indx \<le> x \<and> x < n - 1 \<longrightarrow> qs ! x = moved ptr sz (ps ! Suc x)"
    using del_ptrs_before [of 0 indx n ps ptr sz] assms by auto
  have "take (n - 1) qs = map (moved ptr sz) (take indx (take n ps) @ drop (Suc indx) (take n ps))"
  proof (rule nth_equalityI)
    show "length (take (n - 1) qs) = length (map (moved ptr sz) (take indx (take n ps) @ drop (Suc indx) (take n ps)))"
      using qs(2) assms by simp
    show "take (n - 1) qs ! x = map (moved ptr sz) (take indx (take n ps) @ drop (Suc indx) (take n ps)) ! x"
      if "x < length (take (n - 1) qs)" for x
      using that qs assms by (cases "x < indx") (simp_all add: nth_append)
  qed
  then show ?thesis using that qs by blast
qed

text \<open>Where an offset goes when the node at \<open>ptr\<close>, \<open>sz\<close> bytes long, is removed.\<close>

definition slid :: "nat \<Rightarrow> nat \<Rightarrow> nat \<Rightarrow> nat" where
  "slid ptr sz d = (if d < ptr then d + sz else d)"

lemma slid_apart:
  assumes "apart leaf bs d ptr" and "sz = ext_at leaf bs ptr"
  shows "d < ptr \<and> d + ext_at leaf bs d \<le> ptr \<and> slid ptr sz d = d + sz \<or> ptr + sz \<le> d \<and> slid ptr sz d = d"
  using assms ext_ge [of leaf bs d] ext_ge [of leaf bs ptr] by (auto simp: apart_def slid_def)

text \<open>The bytes after the copy that closes the hole.\<close>

lemma closed_nodes:
  fixes bs bs' :: "u8 list"
  assumes ap: "apart leaf bs d ptr" and sz: "sz = ext_at leaf bs ptr" and inb: "up \<le> d" "d + ext_at leaf bs d \<le> length bs"
    and pin: "ptr + sz \<le> length bs" and len: "length bs' = length bs"
    and low: "\<And>x. up \<le> x \<Longrightarrow> x < ptr \<Longrightarrow> bs' ! (x + sz) = bs ! x"
    and high: "\<And>x. ptr + sz \<le> x \<Longrightarrow> x < length bs \<Longrightarrow> bs' ! x = bs ! x"
  shows "node_at leaf bs' (slid ptr sz d) = node_at leaf bs d" and "ext_at leaf bs' (slid ptr sz d) = ext_at leaf bs d"
proof -
  have c: "slid ptr sz d + ext_at leaf bs d \<le> length bs'" and e: "bs' ! (slid ptr sz d + x) = bs ! (d + x)" if "x < ext_at leaf bs d" for x
  proof -
    consider "d + ext_at leaf bs d \<le> ptr" "slid ptr sz d = d + sz" | "ptr + sz \<le> d" "slid ptr sz d = d"
      using slid_apart [OF ap sz] by blast
    then have "slid ptr sz d + ext_at leaf bs d \<le> length bs' \<and> bs' ! (slid ptr sz d + x) = bs ! (d + x)"
    proof cases
      case 1
      have "bs' ! (d + x + sz) = bs ! (d + x)" using 1 that inb by (intro low) simp_all
      then show ?thesis using 1 that pin len by (simp add: ac_simps)
    next
      case 2
      then show ?thesis using high [of "d + x"] that inb len by simp
    qed
    then show "slid ptr sz d + ext_at leaf bs d \<le> length bs'" "bs' ! (slid ptr sz d + x) = bs ! (d + x)" by simp_all
  qed
  have c': "slid ptr sz d + ext_at leaf bs d \<le> length bs'" using c [of 0] ext_ge [of leaf bs d] by simp
  show "node_at leaf bs' (slid ptr sz d) = node_at leaf bs d" by (rule node_frame(1) [OF inb(2) c' e])
  show "ext_at leaf bs' (slid ptr sz d) = ext_at leaf bs d" by (rule node_frame(2) [OF inb(2) c' e])
qed

lemma sorted_wrt_remove:
  assumes "sorted_wrt R xs" and "i < length xs"
  shows "sorted_wrt R (take i xs @ drop (Suc i) xs)" and "\<And>x. x \<in> set (take i xs @ drop (Suc i) xs) \<Longrightarrow> R x (xs ! i) \<or> R (xs ! i) x"
proof -
  have "sorted_wrt R (take i xs @ xs ! i # drop (Suc i) xs)" using assms by (simp add: id_take_nth_drop [symmetric])
  then show "sorted_wrt R (take i xs @ drop (Suc i) xs)" "\<And>x. x \<in> set (take i xs @ drop (Suc i) xs) \<Longrightarrow> R x (xs ! i) \<or> R (xs ! i) x"
    by (auto simp: sorted_wrt_append)
qed

lemma nodes_removed:
  assumes wf: "page_wf psize p" and i: "indx < NUMKEYS p"
    and ptr: "ptr = page_offs p ! indx" and sz: "sz = ext_at (IS_LEAF p) (mp_bytes p) ptr"
    and q: "mp_flags q = mp_flags p" "unat (mp_lower q) = unat (mp_lower p) - 2" "unat (mp_upper q) = unat (mp_upper p) + sz"
      "length (mp_bytes q) = psize" "length (mp_ptrs q) = length (mp_ptrs p)"
      "page_offs q = map (slid ptr sz) (take indx (page_offs p) @ drop (Suc indx) (page_offs p))"
    and low: "\<And>x. unat (mp_upper p) \<le> x \<Longrightarrow> x < ptr \<Longrightarrow> mp_bytes q ! (x + sz) = mp_bytes p ! x"
    and high: "\<And>x. ptr + sz \<le> x \<Longrightarrow> x < psize \<Longrightarrow> mp_bytes q ! x = mp_bytes p ! x"
  shows "page_wf psize q \<and> page_nodes q = take indx (page_nodes p) @ drop (Suc indx) (page_nodes p)"
proof -
  let ?l = "IS_LEAF p" and ?os = "take indx (page_offs p) @ drop (Suc indx) (page_offs p)"
  note w = page_wfD [OF wf]
  have il: "indx < length (page_offs p)" using i length_page_offs [OF wf] by simp
  have pm: "ptr \<in> set (page_offs p)" using il ptr by simp
  have leaf: "IS_LEAF q = ?l" using q(1) by (simp add: IS_LEAF_def)
  have so: "d \<in> set (page_offs p)" if "d \<in> set ?os" for d using that by (auto dest: in_set_takeD in_set_dropD)
  have ap: "apart ?l (mp_bytes p) d ptr" if "d \<in> set ?os" for d
    using sorted_wrt_remove(2) [OF w(9) il that] ptr by (auto intro: apart_sym)
  have kept: "node_at ?l (mp_bytes q) (slid ptr sz d) = node_at ?l (mp_bytes p) d"
    "ext_at ?l (mp_bytes q) (slid ptr sz d) = ext_at ?l (mp_bytes p) d" if "d \<in> set ?os" for d
    using closed_nodes [OF ap [OF that] sz, of "unat (mp_upper p)" "mp_bytes q"] w(8) [OF so [OF that]] w(8) [OF pm] w(2) q(4) low high sz
    by simp_all
  have nodes: "page_nodes q = take indx (page_nodes p) @ drop (Suc indx) (page_nodes p)"
    unfolding page_nodes_def leaf q(6) using kept(1) by (simp add: take_map drop_map)
  have "sorted_wrt (\<lambda>x y. apart ?l (mp_bytes q) (slid ptr sz x) (slid ptr sz y)) ?os"
  proof (rule sorted_wrt_mono_rel [OF _ sorted_wrt_remove(1) [OF w(9) il]])
    fix x y assume xy: "x \<in> set ?os" "y \<in> set ?os" "apart ?l (mp_bytes p) x y"
    show "apart ?l (mp_bytes q) (slid ptr sz x) (slid ptr sz y)"
      using slid_apart [OF ap [OF xy(1)] sz] slid_apart [OF ap [OF xy(2)] sz] xy(3) kept(2) [OF xy(1)] kept(2) [OF xy(2)]
      by (auto simp: apart_def)
  qed
  then have "sorted_wrt (apart ?l (mp_bytes q)) (page_offs q)" unfolding q(6) sorted_wrt_map .
  moreover have "unat (mp_upper q) \<le> e \<and> e + ext_at ?l (mp_bytes q) e \<le> psize" if "e \<in> set (page_offs q)" for e
  proof -
    obtain d where d: "d \<in> set ?os" "e = slid ptr sz d" using \<open>e \<in> set (page_offs q)\<close> unfolding q(6) by auto
    show ?thesis
      using slid_apart [OF ap [OF d(1)] sz] w(8) [OF so [OF d(1)]] w(8) [OF pm] kept(2) [OF d(1)] sz q(3) d(2) by auto
  qed
  moreover have "even (unat (mp_upper q))" using q(3) w(10) ext_even sz by simp
  moreover have "unat (mp_upper q) \<le> psize" using w(8) [OF pm] q(3) sz by simp
  ultimately have "page_wf psize q" using w i q by (simp add: page_wf_def leaf)
  then show ?thesis using nodes by simp
qed

lemma unat_moved:
  assumes "w < ptr \<Longrightarrow> unat w + unat s < 2 ^ 16"
  shows "unat (moved ptr s w) = slid (unat ptr) (unat s) (unat w)"
  using assms by (simp add: moved_def slid_def word_less_nat_alt unat_word_ariths)

lemma node_hdr_ok:
  assumes "page_wf psize p" and "i < NUMKEYS p"
  shows "node_hdr p i = Inr (page_offs p ! i, dec_node (slice (mp_bytes p) (page_offs p ! i) 8))"
    and "aget (mp_ptrs p) i = Inr (mp_ptrs p ! i)" and "unat (mp_ptrs p ! i) = page_offs p ! i" and "page_offs p ! i \<in> set (page_offs p)"
proof -
  note w = page_wfD [OF assms(1)]
  show u: "unat (mp_ptrs p ! i) = page_offs p ! i" using assms(2) w(7) by (simp add: page_offs_def)
  show a: "aget (mp_ptrs p) i = Inr (mp_ptrs p ! i)" using assms(2) w(7) by simp
  show m: "page_offs p ! i \<in> set (page_offs p)" using assms length_page_offs [OF assms(1)] by simp
  show "node_hdr p i = Inr (page_offs p ! i, dec_node (slice (mp_bytes p) (page_offs p ! i) 8))"
    using w(2) w(8) [OF m] ext_ge [of "IS_LEAF p" "mp_bytes p" "page_offs p ! i"]
    by (simp add: node_hdr_def NODEPTR_def NODESIZE_def a u mem_get_ok)
qed

lemma node_del_steps:
  assumes wf: "page_wf psize p" and nl: "\<not> IS_LEAF2 p" and i: "indx < NUMKEYS p"
    and d: "d = page_offs p ! indx" and sz: "sz = ext_at (IS_LEAF p) (mp_bytes p) d"
    and qs: "del_ptrs (NUMKEYS p) 0 0 indx (mp_ptrs p ! indx) (of_nat sz) (mp_ptrs p) = Inr qs"
    and bs: "mem_put (unat (mp_upper p) + sz) (slice (mp_bytes p) (unat (mp_upper p)) (d - unat (mp_upper p))) (mp_bytes p) = Inr bs'"
  shows "mdb_node_del ksize indx p =
     Inr (p\<lparr>mp_ptrs := qs, mp_bytes := bs', mp_lower := mp_lower p - 2, mp_upper := mp_upper p + of_nat sz\<rparr>)"
proof -
  note w = page_wfD [OF wf] and h = node_hdr_ok [OF wf i, folded d]
  have sz': "EVEN (8 + unat (mn_ksize (dec_node (slice (mp_bytes p) d 8))) +
      (if IS_LEAF p then if F_ISSET (ucast (mn_flags (dec_node (slice (mp_bytes p) d 8)))) F_BIGDATA then 8
       else unat (NODEDSZ (dec_node (slice (mp_bytes p) d 8))) else 0)) = sz"
    by (simp add: sz ext_at_def node_len_def payload_size_def)
  have get: "mem_get (unat (mp_upper p)) (d - unat (mp_upper p)) (mp_bytes p) =
      Inr (slice (mp_bytes p) (unat (mp_upper p)) (d - unat (mp_upper p)))"
    using w(2) w(8) [OF h(4)] by (intro mem_get_ok) simp
  show ?thesis
    unfolding mdb_node_del_def h(1) NODESIZE_def using nl i
    by (simp only: assertE_True if_False bindE_Inr prod.case Let_def sz' h(2,3) qs get bs)
qed

text \<open>\<open>memmove(base + sz, base, ptr - MP_UPPER(mp))\<close>.\<close>

lemma close_hole:
  assumes "up \<le> d" and "d + sz \<le> length bs"
  obtains bs' where "mem_put (up + sz) (slice bs up (d - up)) bs = Inr bs'" and "length bs' = length bs"
    and "\<And>x. up \<le> x \<Longrightarrow> x < d \<Longrightarrow> bs' ! (x + sz) = bs ! x"
    and "\<And>x. d + sz \<le> x \<Longrightarrow> x < length bs \<Longrightarrow> bs' ! x = bs ! x"
proof -
  let ?mv = "slice bs up (d - up)"
  have lm: "length ?mv = d - up" using assms by simp
  then have fits: "up + sz + length ?mv \<le> length bs" using assms by simp
  show ?thesis
    by (rule that [OF mem_put_ok [OF fits]])
      (use assms lm in \<open>auto simp: nth_append min_def\<close>)
qed

text \<open>The offsets of the page without the pointer at \<open>indx\<close>.\<close>

lemma offs_removed:
  assumes wf: "page_wf psize p" and i: "indx < NUMKEYS p" and d: "d = page_offs p ! indx" and fits: "d + sz \<le> psize"
    and qs: "take (NUMKEYS p - 1) qs = map (moved (mp_ptrs p ! indx) (of_nat sz))
       (take indx (take (NUMKEYS p) (mp_ptrs p)) @ drop (Suc indx) (take (NUMKEYS p) (mp_ptrs p)))"
  shows "map unat (take (NUMKEYS p - 1) qs) = map (slid d sz) (take indx (page_offs p) @ drop (Suc indx) (page_offs p))"
proof -
  have us: "unat (of_nat sz :: u16) = sz" using fits page_wfD(1) [OF wf] by (intro unat_of_nat_small) simp
  have "unat (moved (mp_ptrs p ! indx) (of_nat sz) v) = slid d sz (unat v)" for v
    using unat_moved [of v "mp_ptrs p ! indx" "of_nat sz"] us node_hdr_ok(3) [OF wf i, folded d] fits page_wfD(1) [OF wf]
    by (simp add: word_less_nat_alt)
  then show ?thesis unfolding qs page_offs_def by (simp add: take_map drop_map)
qed

lemma node_del_removes_aux:
  assumes wf: "page_wf psize p" and nl: "\<not> IS_LEAF2 p" and i: "indx < NUMKEYS p"
  shows "\<exists>p'. mdb_node_del ksize indx p = Inr p' \<and> page_wf psize p' \<and> mp_flags p' = mp_flags p \<and>
     page_nodes p' = take indx (page_nodes p) @ drop (Suc indx) (page_nodes p)"
proof -
  define d where "d = page_offs p ! indx"
  define sz where "sz = ext_at (IS_LEAF p) (mp_bytes p) d"
  note w = page_wfD [OF wf] and h = node_hdr_ok [OF wf i, folded d_def]
  have din: "unat (mp_upper p) \<le> d" "d + sz \<le> psize" using w(8) [OF h(4)] by (simp_all add: sz_def)
  have us: "unat (of_nat sz :: u16) = sz" using din w(1) by (intro unat_of_nat_small) simp
  obtain qs where qs: "del_ptrs (NUMKEYS p) 0 0 indx (mp_ptrs p ! indx) (of_nat sz) (mp_ptrs p) = Inr qs" "length qs = length (mp_ptrs p)"
    "take (NUMKEYS p - 1) qs = map (moved (mp_ptrs p ! indx) (of_nat sz))
       (take indx (take (NUMKEYS p) (mp_ptrs p)) @ drop (Suc indx) (take (NUMKEYS p) (mp_ptrs p)))"
    by (rule del_ptrs_removes [OF i w(7), of "mp_ptrs p ! indx" "of_nat sz"])
  obtain bs' where bs: "mem_put (unat (mp_upper p) + sz) (slice (mp_bytes p) (unat (mp_upper p)) (d - unat (mp_upper p))) (mp_bytes p) = Inr bs'"
    "length bs' = length (mp_bytes p)" "\<And>x. unat (mp_upper p) \<le> x \<Longrightarrow> x < d \<Longrightarrow> bs' ! (x + sz) = mp_bytes p ! x"
    "\<And>x. d + sz \<le> x \<Longrightarrow> x < length (mp_bytes p) \<Longrightarrow> bs' ! x = mp_bytes p ! x"
    using din w(2) by (metis close_hole)
  define q where "q = p\<lparr>mp_ptrs := qs, mp_bytes := bs', mp_lower := mp_lower p - 2, mp_upper := mp_upper p + of_nat sz\<rparr>"
  have call: "mdb_node_del ksize indx p = Inr q"
    unfolding q_def by (rule node_del_steps [OF wf nl i d_def sz_def qs(1) bs(1)])
  have lo: "unat (mp_lower q) = unat (mp_lower p) - 2" using w(4) by (simp add: q_def, subst unat_sub) (simp_all add: word_le_nat_alt)
  have up: "unat (mp_upper q) = unat (mp_upper p) + sz" using din w(1) us by (simp add: q_def unat_word_ariths)
  have nk: "NUMKEYS q = NUMKEYS p - 1" using NUMKEYS_eq [of q] lo w(4) i by simp
  have of: "page_offs q = map (slid d sz) (take indx (page_offs p) @ drop (Suc indx) (page_offs p))"
    using offs_removed [OF wf i d_def din(2) qs(3)] by (simp add: page_offs_def nk) (simp add: q_def)
  have "page_wf psize q \<and> page_nodes q = take indx (page_nodes p) @ drop (Suc indx) (page_nodes p)"
    using bs(2-4) qs(2) w(2) by (intro nodes_removed [OF wf i d_def sz_def _ lo up _ _ of]) (simp_all add: q_def)
  moreover have "mp_flags q = mp_flags p" by (simp add: q_def)
  ultimately show ?thesis using call by blast
qed

text \<open>C16: \<open>mdb_node_del\<close> on a well-formed page, at an index that exists, never faults; the page stays well
  formed and its list of nodes has lost exactly the node at that index: the hole is closed and every pointer
  below it follows its node.\<close>

theorem node_del_removes:
  assumes "page_wf psize p" and "\<not> IS_LEAF2 p" and "indx < NUMKEYS p"
  shows "\<exists>p'. mdb_node_del ksize indx p = Inr p' \<and> page_wf psize p' \<and>
     page_nodes p' = take indx (page_nodes p) @ drop (Suc indx) (page_nodes p)"
  using node_del_removes_aux [OF assms] by blast

subsection \<open>New pages\<close>

text \<open>C40: \<open>mdb_page_new\<close> for a leaf or branch page gives a well-formed page without nodes, of the type asked for and
  dirty, with the number that it was allocated with, and counts it in the database: as a leaf page or as a branch page, and nowhere else.\<close>

theorem page_new_empty:
  assumes "alloc num = (0, np)" and "length (mp_bytes np) = psize" and "length (mp_ptrs np) = (psize - 16) div 2"
    and "even psize" and "16 \<le> psize" and "psize < 2 ^ 16" and "flags = ucast P_LEAF \<or> flags = ucast P_BRANCH"
  shows "\<exists>p db'. mdb_page_new psize alloc flags num db = (0, Some p, db') \<and> page_wf psize p \<and> page_nodes p = [] \<and>
     mp_pgno p = mp_pgno np \<and> IS_LEAF p = (flags = ucast P_LEAF) \<and> IS_BRANCH p = (flags = ucast P_BRANCH) \<and> \<not> IS_LEAF2 p \<and> F_ISSET (mp_flags p) P_DIRTY \<and>
     db' = (if flags = ucast P_LEAF then db\<lparr>md_leaf_pages := md_leaf_pages db + 1\<rparr> else db\<lparr>md_branch_pages := md_branch_pages db + 1\<rparr>)"
proof -
  have ne: "ucast P_BRANCH \<noteq> (ucast P_LEAF :: u32)" by (simp add: P_BRANCH_def P_LEAF_def)
  let ?p = "np\<lparr>mp_flags := ucast flags OR P_DIRTY, mp_lower := of_nat PAGEHDRSZ, mp_upper := of_nat psize\<rparr>"
  have "unat (of_nat psize :: u16) = psize" using assms(6) by (intro unat_of_nat_small) simp
  then have wf: "page_wf psize ?p" "page_nodes ?p = []"
    using assms(2-6) NUMKEYS_eq [of ?p] by (simp_all add: page_wf_def page_nodes_def page_offs_def PAGEHDRSZ_def)
  show ?thesis
  proof (cases "flags = ucast P_LEAF")
    case True
    then have "\<not> IS_BRANCH ?p" "IS_LEAF ?p" "\<not> IS_LEAF2 ?p" "F_ISSET (mp_flags ?p) P_DIRTY"
      by (simp_all add: IS_BRANCH_def IS_LEAF_def IS_LEAF2_def F_ISSET_def P_LEAF_def P_BRANCH_def P_LEAF2_def P_DIRTY_def)
    then show ?thesis using wf assms(1) True ne by (simp add: mdb_page_new_def Let_def)
  next
    case False
    then have f: "flags = ucast P_BRANCH" using assms(7) by blast
    then have "IS_BRANCH ?p" "\<not> IS_LEAF ?p" "\<not> IS_LEAF2 ?p" "F_ISSET (mp_flags ?p) P_DIRTY"
      by (simp_all add: IS_BRANCH_def IS_LEAF_def IS_LEAF2_def F_ISSET_def P_LEAF_def P_BRANCH_def P_LEAF2_def P_DIRTY_def)
    then show ?thesis using wf assms(1) f ne by (simp add: mdb_page_new_def Let_def)
  qed
qed

subsection \<open>Concrete pages\<close>

definition blank_page :: "u16 \<Rightarrow> MDB_page" where
  "blank_page fl = \<lparr>mp_pgno = 3, mp_pad = 0, mp_flags = fl, mp_lower = 16, mp_upper = 64, mp_ptrs = replicate 24 0, mp_bytes = replicate 64 0\<rparr>"

definition one_node_page :: MDB_page where
  "one_node_page = (blank_page P_LEAF)\<lparr>mp_lower := 18, mp_upper := 52, mp_ptrs := 52 # replicate 23 0,
     mp_bytes := replicate 52 0 @ [1, 0, 0, 0, 0, 0, 2, 0, 7, 8, 9, 0]\<rparr>"

lemma blank_page_facts:
  "page_wf 64 (blank_page fl)" "NUMKEYS (blank_page fl) = 0" "page_nodes (blank_page fl) = []" "SIZELEFT (blank_page fl) = 48"
  "IS_LEAF (blank_page P_LEAF)" "\<not> IS_LEAF (blank_page P_BRANCH)" "\<not> IS_LEAF2 (blank_page P_LEAF)" "\<not> IS_LEAF2 (blank_page P_BRANCH)"
proof -
  show n: "NUMKEYS (blank_page fl) = 0" by (simp add: NUMKEYS_eq blank_page_def)
  show "page_wf 64 (blank_page fl)" "page_nodes (blank_page fl) = []"
    by (simp_all add: page_wf_def page_nodes_def page_offs_def n) (simp_all add: blank_page_def)
qed (simp_all add: blank_page_def SIZELEFT_def IS_LEAF_def IS_LEAF2_def F_ISSET_def P_LEAF_def P_LEAF2_def P_BRANCH_def)

lemma one_node_page_facts:
  "page_wf 64 one_node_page" "NUMKEYS one_node_page = 1" "\<not> IS_LEAF2 one_node_page"
  "page_nodes one_node_page = [(leaf_header 0 2 (Suc 0), [7, 8], [9])]"
proof -
  have lf: "IS_LEAF one_node_page" by (simp add: one_node_page_def blank_page_def IS_LEAF_def F_ISSET_def P_LEAF_def)
  show n: "NUMKEYS one_node_page = 1" by (simp add: NUMKEYS_eq one_node_page_def)
  have o: "page_offs one_node_page = [52]" by (simp add: page_offs_def n) (simp add: one_node_page_def)
  have h: "dec_node (slice (mp_bytes one_node_page) 52 8) = leaf_header 0 2 (Suc 0)"
    by (simp add: one_node_page_def slice_def dec_node_def de16_def leaf_header_def SETDSZ_def)
  have p: "payload_size True (leaf_header 0 2 (Suc 0)) = 1"
    by (simp add: payload_size_def leaf_header_def NODEDSZ_SETDSZ F_ISSET_def F_BIGDATA_def SETDSZ_def NODEDSZ_def)
  have k: "mn_ksize (leaf_header 0 2 (Suc 0)) = 2" by (simp add: leaf_header_def SETDSZ_def)
  have e: "ext_at True (mp_bytes one_node_page) 52 = 12"
    by (simp add: ext_at_def h node_len_def p k EVEN_def)
  show "page_wf 64 one_node_page" using e by (simp add: page_wf_def o lf) (simp add: one_node_page_def blank_page_def)
  show "page_nodes one_node_page = [(leaf_header 0 2 (Suc 0), [7, 8], [9])]"
    by (simp add: page_nodes_def o lf node_at_def h k p Let_def) (simp add: one_node_page_def slice_def)
  show "\<not> IS_LEAF2 one_node_page" by (simp add: one_node_page_def blank_page_def IS_LEAF2_def F_ISSET_def P_LEAF_def P_LEAF2_def)
qed

theorem node_add_leaf_witness:
  "\<exists>p'. mdb_node_add 20 64 0 (\<lambda>_. (0, 0)) 0 (Some [7, 8]) (Some [1, 2, 3]) 0 0 (blank_page P_LEAF) 0 = Inr (0, p', 0, None) \<and>
     page_nodes p' = [(leaf_header 0 (length [7, 8 :: u8]) (length [1, 2, 3 :: u8]), [7, 8], [1, 2, 3])]"
  using node_add_leaf [of 64 "blank_page P_LEAF" 0 0 "[7, 8]" "[1, 2, 3]" 20 0 "\<lambda>_. (0, 0)" 0 0] blank_page_facts
  by (simp add: F_ISSET_def F_BIGDATA_def MDB_RESERVE_def leaf_size_inline EVEN_def) auto

theorem node_add_big_witness:
  "\<exists>p'. mdb_node_add 12 64 0 (\<lambda>_. (0, 5)) 0 (Some [7, 8]) (Some [1, 2, 3]) 0 0 (blank_page P_LEAF) 0 = Inr (0, p', 0, Some (5, [1, 2, 3])) \<and>
     page_nodes p' = [(leaf_header (0 OR F_BIGDATA) (length [7, 8 :: u8]) (length [1, 2, 3 :: u8]), [7, 8], le64 5)]"
  using node_add_big [of 64 "blank_page P_LEAF" 0 0 12 "[7, 8]" "[1, 2, 3]" "\<lambda>_. (0, 5)" 0 5 0 0 0] blank_page_facts
  by (simp add: F_ISSET_def F_BIGDATA_def MDB_RESERVE_def leaf_size_big EVEN_def) auto

theorem node_add_branch_witness:
  "\<exists>p' h. mdb_node_add 20 64 0 (\<lambda>_. (0, 0)) 0 (Some [7]) None 1000 0 (blank_page P_BRANCH) 0 = Inr (0, p', 0, None) \<and>
     page_nodes p' = [(h, [7], [])] \<and> NODEPGNO h = 1000"
  using node_add_branch [of 64 "blank_page P_BRANCH" 0 1000 "Some [7]" 20 0 "\<lambda>_. (0, 0)" None 0 0] blank_page_facts
  by (simp add: mdb_branch_size_def NODESIZE_def opt_bytes_def) auto

theorem node_del_removes_witness:
  "length (page_nodes one_node_page) = 1 \<and> (\<exists>p'. mdb_node_del 0 0 one_node_page = Inr p' \<and> page_wf 64 p' \<and> page_nodes p' = [])"
  using node_del_removes [of 64 one_node_page 0 0] one_node_page_facts by simp

theorem page_new_empty_witness:
  "\<exists>p db'. mdb_page_new 64 (\<lambda>_. (0, blank_page 0)) (ucast P_LEAF) 1
     \<lparr>md_pad = 0, md_flags = 0, md_depth = 0, md_branch_pages = 0, md_leaf_pages = 0, md_overflow_pages = 0, md_entries = 0, md_root = 0\<rparr> =
     (0, Some p, db') \<and> page_nodes p = [] \<and> IS_LEAF p \<and> md_leaf_pages db' = 1 \<and> md_branch_pages db' = 0"
  using page_new_empty [of "\<lambda>_. (0, blank_page 0)" 1 "blank_page 0" 64 "ucast P_LEAF"
     "\<lparr>md_pad = 0, md_flags = 0, md_depth = 0, md_branch_pages = 0, md_leaf_pages = 0, md_overflow_pages = 0, md_entries = 0, md_root = 0\<rparr>"]
  by (simp add: blank_page_def) auto

end
