(* ===== verification/Mdb_Cmp.thy ===== *)
theory Mdb_Cmp
  imports Arr "HOL-Library.List_Lexorder"
begin

text \<open>
  The comparison functions of LMDB (\<open>lib/lmdb/mdb.c\<close>) and the contract they keep. The locale
  \<open>key_order\<close> is that contract: on the keys it is meant for, a comparison function returns the sign of a linear
  order. It is interpreted for the default function \<open>mdb_cmp_memn\<close> (lexicographic order), for
  \<open>mdb_cmp_memnr\<close> (lexicographic order from the end) and for \<open>mdb_cmp_cint\<close> (numeric order of
  little-endian integers), including the faster functions that \<open>mdb_node_search\<close> puts in its place.
\<close>

subsection \<open>The functions\<close>

text \<open>\<open>memcmp\<close> of the C library, reading \<open>n\<close> bytes of both arguments.\<close>

fun memcmp :: "nat \<Rightarrow> u8 list \<Rightarrow> u8 list \<Rightarrow> int res" where
  "memcmp 0 as bs = Inr 0"
| "memcmp (Suc n) (a # as) (b # bs) = (if a = b then memcmp n as bs else Inr (uint a - uint b))"
| "memcmp (Suc n) as bs = Inl Out_of_bounds"

definition mdb_cmp_memn :: "u8 list \<Rightarrow> u8 list \<Rightarrow> int res" where
  "mdb_cmp_memn a b =
     (let d = int (length a) - int (length b);
          len = (if 0 < d then of_nat (length b) else of_nat (length a)) :: u32;
          len_diff = (if 0 < d then 1 else d)
      in bindE (memcmp (unat len) a b) (\<lambda>diff. Inr (if diff \<noteq> 0 then diff else if len_diff < 0 then -1 else len_diff)))"

text \<open>\<open>while (p1 > p1_lim)\<close> of \<open>mdb_cmp_memnr\<close>; \<open>n\<close> rounds are left, \<open>i\<close> and \<open>j\<close> are the offsets of \<open>p1\<close>
  and \<open>p2\<close>.\<close>

fun memnr_loop :: "nat \<Rightarrow> nat \<Rightarrow> nat \<Rightarrow> u8 list \<Rightarrow> u8 list \<Rightarrow> int option res" where
  "memnr_loop 0 i j a b = Inr None"
| "memnr_loop (Suc n) i j a b =
     bindE (aget a (i - 1)) (\<lambda>x. bindE (if j = 0 then Inl Out_of_bounds else aget b (j - 1)) (\<lambda>y.
       if uint x - uint y \<noteq> 0 then Inr (Some (uint x - uint y)) else memnr_loop n (i - 1) (j - 1) a b))"

definition mdb_cmp_memnr :: "u8 list \<Rightarrow> u8 list \<Rightarrow> int res" where
  "mdb_cmp_memnr a b =
     (let d = int (length a) - int (length b);
          lim = (if 0 < d then nat d else 0);
          len_diff = (if 0 < d then 1 else d)
      in bindE (memnr_loop (length a - lim) (length a) (length b) a b)
           (\<lambda>r. Inr (case r of Some x \<Rightarrow> x | None \<Rightarrow> if len_diff < 0 then -1 else len_diff)))"

text \<open>Little-endian numbers; the functions on aligned integers read a fixed number of bytes.\<close>

fun le_val :: "u8 list \<Rightarrow> nat" where
  "le_val [] = 0"
| "le_val (b # bs) = unat b + 256 * le_val bs"

definition load_le :: "nat \<Rightarrow> u8 list \<Rightarrow> nat res" where
  "load_le n bs = (if n \<le> length bs then Inr (le_val (take n bs)) else Inl Out_of_bounds)"

definition cmp_loads :: "nat \<Rightarrow> u8 list \<Rightarrow> u8 list \<Rightarrow> int res" where
  "cmp_loads n a b = bindE (load_le n a) (\<lambda>x. bindE (load_le n b) (\<lambda>y. Inr (if x < y then -1 else if y < x then 1 else 0)))"

definition mdb_cmp_long :: "u8 list \<Rightarrow> u8 list \<Rightarrow> int res" where
  "mdb_cmp_long = cmp_loads 8"

definition mdb_cmp_int :: "u8 list \<Rightarrow> u8 list \<Rightarrow> int res" where
  "mdb_cmp_int = cmp_loads 4"

text \<open>The loop of \<open>mdb_cmp_cint\<close> on a little-endian machine, from the last 16-bit unit to the first; \<open>n\<close> is
  the offset of \<open>u\<close> and \<open>c\<close> in bytes.\<close>

definition half_at :: "u8 list \<Rightarrow> nat \<Rightarrow> nat res" where
  "half_at bs n = (if 2 \<le> n \<and> n \<le> length bs then Inr (unat (bs ! (n - 2)) + 256 * unat (bs ! (n - 1))) else Inl Out_of_bounds)"

function cint_loop :: "nat \<Rightarrow> u8 list \<Rightarrow> u8 list \<Rightarrow> int res" where
  "cint_loop n a b =
     bindE (half_at a n) (\<lambda>x. bindE (half_at b n) (\<lambda>y.
       let d = int x - int y in if d = 0 \<and> 0 < n - 2 then cint_loop (n - 2) a b else Inr d))"
  by pat_completeness auto

termination
  by (relation "measure (\<lambda>(n, a, b). n)") auto

declare cint_loop.simps [simp del]

definition mdb_cmp_cint :: "u8 list \<Rightarrow> u8 list \<Rightarrow> int res" where
  "mdb_cmp_cint a b = cint_loop (length a) a b"

text \<open>A pointer to a comparison function; the program can also set one of its own.\<close>

datatype cmp_func = Cmp_memn | Cmp_memnr | Cmp_cint | Cmp_int | Cmp_long | Cmp_user "u8 list \<Rightarrow> u8 list \<Rightarrow> int res"

fun run_cmp :: "cmp_func \<Rightarrow> u8 list \<Rightarrow> u8 list \<Rightarrow> int res" where
  "run_cmp Cmp_memn = mdb_cmp_memn"
| "run_cmp Cmp_memnr = mdb_cmp_memnr"
| "run_cmp Cmp_cint = mdb_cmp_cint"
| "run_cmp Cmp_int = mdb_cmp_int"
| "run_cmp Cmp_long = mdb_cmp_long"
| "run_cmp (Cmp_user f) = f"

text \<open>The replacement that \<open>mdb_node_search\<close> makes on branch pages, for keys of \<open>ks\<close> bytes.\<close>

definition branch_cmp :: "nat \<Rightarrow> cmp_func \<Rightarrow> cmp_func" where
  "branch_cmp ks f = (case f of Cmp_cint \<Rightarrow> if ks = 8 then Cmp_long else Cmp_int | _ \<Rightarrow> f)"

subsection \<open>The contract\<close>

definition decides :: "(u8 list \<Rightarrow> u8 list \<Rightarrow> bool) \<Rightarrow> int res \<Rightarrow> u8 list \<Rightarrow> u8 list \<Rightarrow> bool" where
  "decides lt r a b \<longleftrightarrow> (\<exists>c. r = Inr c \<and> (c < 0 \<longleftrightarrow> lt a b) \<and> (0 < c \<longleftrightarrow> lt b a) \<and> (c = 0 \<longleftrightarrow> a = b))"

locale key_order =
  fixes f :: cmp_func
    and fit :: "u8 list \<Rightarrow> bool"
    and lt :: "u8 list \<Rightarrow> u8 list \<Rightarrow> bool"
  assumes compares: "fit a \<Longrightarrow> fit b \<Longrightarrow> decides lt (run_cmp f a b) a b"
    and compares_branch: "fit a \<Longrightarrow> fit b \<Longrightarrow> fit c \<Longrightarrow> decides lt (run_cmp (branch_cmp (length c) f) a b) a b"
    and lt_trans: "lt a b \<Longrightarrow> lt b c \<Longrightarrow> lt a c"
begin

lemma lt_irrefl: "fit a \<Longrightarrow> \<not> lt a a"
  using compares [of a a] by (auto simp: decides_def)

lemma lt_total: "fit a \<Longrightarrow> fit b \<Longrightarrow> a \<noteq> b \<Longrightarrow> lt a b \<or> lt b a"
  using compares [of a b] by (auto simp: decides_def)

lemma lt_asym: "fit a \<Longrightarrow> lt a b \<Longrightarrow> \<not> lt b a"
  using lt_irrefl lt_trans by blast

end

subsection \<open>Lexicographic order\<close>

lemma list_less_cases:
  fixes a b :: "'a::linorder list"
  shows "(x # a < y # b) = (x < y \<or> x = y \<and> a < b)" "([] < b) = (b \<noteq> [])" "(a < []) = False"
  by (simp_all add: Cons_less_Cons) (cases b, simp_all)

lemma memcmp_sign:
  "n = min (length a) (length b) \<Longrightarrow> \<exists>d. memcmp n a b = Inr d \<and>
     (d < 0 \<longrightarrow> a < b \<and> \<not> b < a \<and> a \<noteq> b) \<and> (0 < d \<longrightarrow> b < a \<and> \<not> a < b \<and> a \<noteq> b) \<and>
     (d = 0 \<longrightarrow> (a < b \<longleftrightarrow> length a < length b) \<and> (b < a \<longleftrightarrow> length b < length a) \<and> (a = b \<longleftrightarrow> length a = length b))"
proof (induction n a b rule: memcmp.induct)
  case (2 n a as b bs)
  show ?case
  proof (cases "a = b")
    case True
    then obtain d where "memcmp n as bs = Inr d \<and>
     (d < 0 \<longrightarrow> as < bs \<and> \<not> bs < as \<and> as \<noteq> bs) \<and> (0 < d \<longrightarrow> bs < as \<and> \<not> as < bs \<and> as \<noteq> bs) \<and>
     (d = 0 \<longrightarrow> (as < bs \<longleftrightarrow> length as < length bs) \<and> (bs < as \<longleftrightarrow> length bs < length as) \<and> (as = bs \<longleftrightarrow> length as = length bs))"
      using 2 by auto
    then show ?thesis using True by (intro exI [of _ d]) (simp add: list_less_cases)
  next
    case False
    then have "a < b \<or> b < a" by auto
    then show ?thesis using False by (auto simp: list_less_cases word_less_def)
  qed
qed (auto simp: min_def list_less_cases split: if_splits)

lemma cmp_memn_decides:
  assumes "length a < 2 ^ 32" and "length b < 2 ^ 32"
  shows "decides (<) (mdb_cmp_memn a b) a b"
proof -
  let ?n = "min (length a) (length b)"
  have u: "unat (if 0 < int (length a) - int (length b) then of_nat (length b) else of_nat (length a) :: u32) = ?n"
    using assms by (auto simp: unsigned_of_nat take_bit_nat_eq_self_iff min_def)
  obtain d where d: "memcmp ?n a b = Inr d" "d < 0 \<longrightarrow> a < b \<and> \<not> b < a \<and> a \<noteq> b" "0 < d \<longrightarrow> b < a \<and> \<not> a < b \<and> a \<noteq> b"
     "d = 0 \<longrightarrow> (a < b \<longleftrightarrow> length a < length b) \<and> (b < a \<longleftrightarrow> length b < length a) \<and> (a = b \<longleftrightarrow> length a = length b)"
    using memcmp_sign [of ?n a b] by blast
  have r: "mdb_cmp_memn a b = Inr (if d \<noteq> 0 then d else sgn (int (length a) - int (length b)))"
    unfolding mdb_cmp_memn_def Let_def u by (simp add: d(1) sgn_if)
  show ?thesis
    unfolding decides_def r using d(2-4) by (cases "d = 0") (auto simp: sgn_if)
qed

text \<open>The length of a key fits in the \<open>unsigned int\<close> that \<open>mdb_cmp_memn\<close> keeps it in.\<close>

definition short_key :: "u8 list \<Rightarrow> bool" where
  "short_key k \<longleftrightarrow> length k < 2 ^ 32"

interpretation memn: key_order Cmp_memn short_key "(<)"
  by unfold_locales (auto simp: branch_cmp_def short_key_def intro: cmp_memn_decides order.strict_trans)

text \<open>\<open>mdb_cmp_memnr\<close> is the same comparison of the keys read from the end.\<close>

lemma memnr_loop_memcmp:
  "n \<le> i \<Longrightarrow> i \<le> length a \<Longrightarrow> n \<le> j \<Longrightarrow> j \<le> length b \<Longrightarrow>
     memnr_loop n i j a b = bindE (memcmp n (rev (take i a)) (rev (take j b))) (\<lambda>d. Inr (if d = 0 then None else Some d))"
proof (induction n arbitrary: i j)
  case (Suc n)
  obtain i' j' where ij: "i = Suc i'" "j = Suc j'" using Suc.prems by (metis Suc_le_D)
  then have "rev (take i a) = a ! i' # rev (take i' a)" "rev (take j b) = b ! j' # rev (take j' b)"
    using Suc.prems by (simp_all add: take_Suc_conv_app_nth)
  then show ?case using Suc ij by (auto simp: uint_word_ariths word_uint_eq_iff)
qed simp

lemma memnr_rev:
  assumes "length a < 2 ^ 32" and "length b < 2 ^ 32"
  shows "mdb_cmp_memnr a b = mdb_cmp_memn (rev a) (rev b)"
proof -
  have u: "unat (if 0 < int (length a) - int (length b) then of_nat (length b) else of_nat (length a) :: u32) = min (length a) (length b)"
    using assms by (auto simp: unsigned_of_nat take_bit_nat_eq_self_iff min_def)
  have n: "length a - (if 0 < int (length a) - int (length b) then nat (int (length a) - int (length b)) else 0) = min (length a) (length b)"
    by (auto simp: min_def)
  show ?thesis
    unfolding mdb_cmp_memnr_def mdb_cmp_memn_def Let_def length_rev u n
    by (subst memnr_loop_memcmp) (auto simp: bindE_assoc bindE_def split: sum.splits)
qed

interpretation memnr: key_order Cmp_memnr short_key "\<lambda>a b. rev a < rev b"
proof unfold_locales
  have d: "decides (\<lambda>a b. rev a < rev b) (mdb_cmp_memnr a b) a b" if "short_key a" "short_key b" for a b
    using cmp_memn_decides [of "rev a" "rev b"] that by (simp add: memnr_rev decides_def short_key_def)
  then show "decides (\<lambda>a b. rev a < rev b) (run_cmp Cmp_memnr a b) a b" if "short_key a" "short_key b" for a b
    using that by simp
  show "decides (\<lambda>a b. rev a < rev b) (run_cmp (branch_cmp (length c) Cmp_memnr) a b) a b" if "short_key a" "short_key b" for a b c :: "u8 list"
    using d that by (simp add: branch_cmp_def)
qed (rule order.strict_trans)

subsection \<open>Numeric order\<close>

lemma le_val_append: "le_val (xs @ ys) = le_val xs + 256 ^ length xs * le_val ys"
  by (induction xs) (simp_all add: algebra_simps)

lemma le_val_less: "le_val xs < 256 ^ length xs"
proof (induction xs)
  case (Cons x xs)
  have "unat x < 256" using unat_lt_pow [of x] by simp
  then show ?case using Cons by simp
qed simp

lemma digit_inj: "x < 256 \<Longrightarrow> y < 256 \<Longrightarrow> x + 256 * u = y + 256 * v \<longleftrightarrow> x = y \<and> u = v" for x y u v :: nat
proof
  assume xy: "x < 256" "y < 256" and e: "x + 256 * u = y + 256 * v"
  have "x = y" using arg_cong [OF e, of "\<lambda>z. z mod 256"] xy by simp
  then show "x = y \<and> u = v" using e by simp
qed simp

lemma le_val_inj: "length xs = length ys \<Longrightarrow> le_val xs = le_val ys \<longleftrightarrow> xs = ys"
proof (induction xs ys rule: list_induct2)
  case (Cons x xs y ys)
  have "unat x < 256" "unat y < 256" using unat_lt_pow [of x] unat_lt_pow [of y] by simp_all
  then have "unat x + 256 * le_val xs = unat y + 256 * le_val ys \<longleftrightarrow> unat x = unat y \<and> le_val xs = le_val ys"
    by (rule digit_inj)
  then show ?case using Cons by (simp add: word_unat_eq_iff)
qed simp

lemma high_part_decides:
  fixes v w B :: nat
  assumes "v < B" and "w < B" and "x < y"
  shows "v + B * x < w + B * y"
proof -
  have "B * Suc x \<le> B * y" using assms(3) by (intro mult_le_mono2) simp
  then show ?thesis using assms(1) by simp
qed

lemma cint_loop_sign:
  assumes "even n" and "0 < n" and "n \<le> length a" and "n \<le> length b"
  shows "\<exists>d. cint_loop n a b = Inr d \<and> (d < 0 \<longleftrightarrow> le_val (take n a) < le_val (take n b)) \<and>
     (0 < d \<longleftrightarrow> le_val (take n b) < le_val (take n a))"
  using assms
proof (induction n rule: less_induct)
  case (less n)
  then obtain m where m: "n = Suc (Suc m)" "even m" by (metis Suc_pred even_Suc gr0_implies_Suc not_gr_zero odd_pos)
  define hf where "hf k = unat (k ! m) + 256 * unat (k ! Suc m)" for k :: "u8 list"
  have h: "half_at a n = Inr (hf a)" "half_at b n = Inr (hf b)" using less.prems m by (simp_all add: half_at_def hf_def)
  have val: "le_val (take n k) = le_val (take m k) + 256 ^ m * hf k" if "n \<le> length k" for k
    using that m by (simp add: take_Suc_conv_app_nth le_val_append hf_def min_def algebra_simps)
  have lt: "le_val (take m a) < 256 ^ m" "le_val (take m b) < 256 ^ m"
    using le_val_less [of "take m a"] le_val_less [of "take m b"] less.prems m by simp_all
  have st: "cint_loop n a b = (let d = int (hf a) - int (hf b) in if d = 0 \<and> 0 < m then cint_loop m a b else Inr d)"
    unfolding cint_loop.simps [of n] h by (simp add: m(1))
  note v = val [OF less.prems(3)] val [OF less.prems(4)]
  consider "hf a < hf b" | "hf b < hf a" | "hf a = hf b" "m = 0" | "hf a = hf b" "0 < m" by linarith
  then show ?case
  proof cases
    case 1
    then show ?thesis using high_part_decides [OF lt 1] by (simp add: st v)
  next
    case 2
    then show ?thesis using high_part_decides [OF lt(2,1) 2] by (simp add: st v)
  next
    case 3
    then show ?thesis by (simp add: st v)
  next
    case 4
    have "\<exists>d. cint_loop m a b = Inr d \<and> (d < 0 \<longleftrightarrow> le_val (take m a) < le_val (take m b)) \<and>
        (0 < d \<longleftrightarrow> le_val (take m b) < le_val (take m a))"
      using less.IH [of m] less.prems m 4 by simp
    then show ?thesis using 4 unfolding st v by simp
  qed
qed

lemma cint_decides:
  assumes "length a = n" and "length b = n" and "even n" and "0 < n"
  shows "decides (\<lambda>a b. le_val a < le_val b) (mdb_cmp_cint a b) a b"
  using cint_loop_sign [of n a b] le_val_inj [of a b] assms by (auto simp: decides_def mdb_cmp_cint_def)

lemma cmp_loads_decides:
  assumes "length a = n" and "length b = n"
  shows "decides (\<lambda>a b. le_val a < le_val b) (cmp_loads n a b) a b"
  using le_val_inj [of a b] assms by (auto simp: decides_def cmp_loads_def load_le_def)

interpretation cint8: key_order Cmp_cint "\<lambda>k. length k = 8" "\<lambda>a b. le_val a < le_val b"
  by unfold_locales (auto simp: branch_cmp_def mdb_cmp_long_def intro: cint_decides cmp_loads_decides)

interpretation cint4: key_order Cmp_cint "\<lambda>k. length k = 4" "\<lambda>a b. le_val a < le_val b"
  by unfold_locales (auto simp: branch_cmp_def mdb_cmp_int_def intro: cint_decides cmp_loads_decides)

subsection \<open>The comparisons of keys\<close>

text \<open>\<open>mdb_cmp_memn\<close>, the default comparison, is the lexicographic order of byte strings for all keys of less than 4 GiB; it
  never reads outside of either key. \<open>mdb_cmp_memnr\<close> is the same comparison of the reversed strings. (Beyond 4 GiB the
  length would be cut to 32 bits.)\<close>

theorem cmp_memn_lexicographic:
  assumes "short_key a" and "short_key b"
  shows "(\<exists>c. mdb_cmp_memn a b = Inr c \<and> (c < 0 \<longleftrightarrow> a < b) \<and> (0 < c \<longleftrightarrow> b < a) \<and> (c = 0 \<longleftrightarrow> a = b)) \<and>
     mdb_cmp_memnr a b = mdb_cmp_memn (rev a) (rev b)"
  using memn.compares [OF assms] memnr_rev [of a b] assms by (simp add: decides_def short_key_def)

theorem cmp_memn_lexicographic_witness:
  "(\<exists>c. mdb_cmp_memn [1, 2] [1, 2, 0] = Inr c \<and> c < 0) \<and> mdb_cmp_memnr [1, 2] [1, 2, 0] = mdb_cmp_memn (rev [1, 2]) (rev [1, 2, 0])"
  using cmp_memn_lexicographic [of "[1, 2]" "[1, 2, 0]"] by (simp add: short_key_def) auto

text \<open>The comparison of integer keys: on keys of one even length \<open>mdb_cmp_cint\<close>, which compares 16-bit units from the
  most significant end, gives the numeric order of the little-endian numbers; on keys of 8 bytes it agrees in sign with \<open>mdb_cmp_long\<close> and on
  keys of 4 bytes with \<open>mdb_cmp_int\<close>, the functions that \<open>mdb_node_search\<close> puts in its place on branch pages.\<close>

theorem cmp_cint_numeric:
  assumes "length a = n" and "length b = n" and "even n" and "0 < n"
  shows "\<exists>c. mdb_cmp_cint a b = Inr c \<and> sgn c = sgn (int (le_val a) - int (le_val b)) \<and>
     (n = 8 \<longrightarrow> mdb_cmp_long a b = Inr (sgn c)) \<and> (n = 4 \<longrightarrow> mdb_cmp_int a b = Inr (sgn c))"
proof -
  obtain c where c: "mdb_cmp_cint a b = Inr c" "c < 0 \<longleftrightarrow> le_val a < le_val b" "0 < c \<longleftrightarrow> le_val b < le_val a"
    using cint_decides [OF assms] by (auto simp: decides_def)
  have "cmp_loads n a b = Inr (sgn c)" using c(2,3) assms(1,2) by (auto simp: cmp_loads_def load_le_def sgn_if)
  then show ?thesis using c by (auto simp: mdb_cmp_long_def mdb_cmp_int_def sgn_if)
qed

theorem cmp_cint_numeric_witness:
  "\<exists>c. mdb_cmp_cint [9, 0, 1, 0] [8, 0, 2, 0] = Inr c \<and> sgn c = sgn (int (le_val [9, 0, 1, 0]) - int (le_val [8, 0, 2, 0])) \<and>
     mdb_cmp_int [9, 0, 1, 0] [8, 0, 2, 0] = Inr (sgn c)"
  using cmp_cint_numeric [of "[9, 0, 1, 0]" 4 "[8, 0, 2, 0]"] by simp

end
