(* ===== verification/Mdb_Search.thy ===== *)
theory Mdb_Search
  imports Mdb_Page_Correct Mdb_Cmp
begin

text \<open>
  \<open>mdb_node_search\<close> of \<open>lib/lmdb/mdb.c\<close>: the binary search for a key on a page. On a well-formed page whose
  keys ascend it finds the smallest entry that is not below the key, for every comparison function
  that keeps the contract \<open>key_order\<close>. The first entry of a branch page has no key of its own and is left out
  of the search.
\<close>

subsection \<open>The search\<close>

definition node_key :: "MDB_page \<Rightarrow> nat \<Rightarrow> u8 list res" where
  "node_key p i = bindE (node_hdr p i) (\<lambda>(d, h). mem_get (d + NODESIZE) (unat (mn_ksize h)) (mp_bytes p))"

text \<open>The loop, the same on both kinds of pages; \<open>rc_at i\<close> compares the key searched for with entry \<open>i\<close>.
  The result has \<open>i\<close>, \<open>rc\<close> and \<open>node\<close> as the loop leaves them.\<close>

function search_keys :: "(nat \<Rightarrow> int res) \<Rightarrow> nat \<Rightarrow> int \<Rightarrow> nat \<Rightarrow> int \<Rightarrow> nat option \<Rightarrow> (nat \<times> int \<times> nat option) res" where
  "search_keys rc_at low high i rc node =
     (if int low \<le> high then
        (let i' = (low + nat high) div 2 in
         case rc_at i' of
           Inl e \<Rightarrow> Inl e
         | Inr r \<Rightarrow>
             if r = 0 then Inr (i', r, Some i')
             else if 0 < r then search_keys rc_at (i' + 1) high i' r (Some i')
             else search_keys rc_at low (int i' - 1) i' r (Some i'))
      else Inr (i, rc, node))"
  by pat_completeness auto

termination
  by (relation "measure (\<lambda>(rc_at, low, high, i, rc, node). nat (high + 1 - int low))") auto

declare search_keys.simps [simp del]

text \<open>The result has the node found (its index, \<open>None\<close> for \<open>NULL\<close>), \<open>*exactp\<close> and the new
  \<open>mc_ki[mc_top]\<close>.\<close>

definition mdb_node_search :: "cmp_func \<Rightarrow> nat \<Rightarrow> u8 list \<Rightarrow> MDB_page \<Rightarrow> (nat option \<times> bool \<times> nat) res" where
  "mdb_node_search f pad key p =
     (let nkeys = NUMKEYS p; low = (if IS_LEAF p then 0 else 1); high = int nkeys - 1 in
      bindE (case f of
               Cmp_cint \<Rightarrow> if IS_BRANCH p then bindE (node_hdr p 1) (\<lambda>(d, h). Inr (branch_cmp (unat (mn_ksize h)) f)) else Inr f
             | _ \<Rightarrow> Inr f) (\<lambda>cmp.
      bindE (if IS_LEAF2 p then
               search_keys (\<lambda>i. bindE (mem_get (LEAF2KEY i pad) pad (mp_bytes p)) (run_cmp cmp key)) low high 0 0 (Some 0)
             else
               search_keys (\<lambda>i. bindE (node_key p i) (run_cmp cmp key)) low high 0 0 None) (\<lambda>(i, rc, node).
      bindE (if 0 < rc \<and> \<not> IS_LEAF2 p then bindE (NODEPTR p (i + 1)) (\<lambda>_. Inr (Some (i + 1))) else Inr node) (\<lambda>node'.
      let i' = (if 0 < rc then i + 1 else i) in
      Inr (if nkeys \<le> i' then None else node', rc = 0 \<and> 0 < nkeys, i')))))"

subsection \<open>The loop\<close>

definition splits_at :: "nat \<Rightarrow> nat \<Rightarrow> (nat \<Rightarrow> int) \<Rightarrow> nat \<Rightarrow> bool" where
  "splits_at l0 n c x \<longleftrightarrow> l0 \<le> x \<and> x \<le> n \<and> (\<forall>j. l0 \<le> j \<and> j < x \<longrightarrow> 0 < c j) \<and> (\<forall>j. x \<le> j \<and> j < n \<longrightarrow> c j < 0)"

definition found_at :: "nat \<Rightarrow> nat \<Rightarrow> (nat \<Rightarrow> int) \<Rightarrow> nat \<Rightarrow> int \<Rightarrow> nat option \<Rightarrow> bool" where
  "found_at l0 n c i rc node \<longleftrightarrow> (if rc = 0 then l0 \<le> i \<and> i < n \<and> c i = 0 \<and> node = Some i
     else if 0 < rc then splits_at l0 n c (Suc i) else splits_at l0 n c i \<and> node = Some i)"

lemma search_keys_ok:
  assumes at: "\<And>j. l0 \<le> j \<Longrightarrow> j < n \<Longrightarrow> rc_at j = Inr (c j)"
    and falls: "\<And>j k. l0 \<le> j \<Longrightarrow> j < k \<Longrightarrow> k < n \<Longrightarrow> (0 \<le> c k \<longrightarrow> 0 < c j) \<and> (c j \<le> 0 \<longrightarrow> c k < 0)"
    and "l0 \<le> low" "high < int n" "int low \<le> high + 1"
    and "\<forall>j. l0 \<le> j \<and> j < low \<longrightarrow> 0 < c j" and "\<forall>j. high < int j \<and> j < n \<longrightarrow> c j < 0"
    and "int low \<le> high \<or> 0 < rc \<and> Suc i = low \<or> rc < 0 \<and> int i = high + 1 \<and> node = Some i"
  shows "\<exists>i' rc' node'. search_keys rc_at low high i rc node = Inr (i', rc', node') \<and> found_at l0 n c i' rc' node'"
  using assms(3-8)
proof (induction "nat (high + 1 - int low)" arbitrary: low high i rc node rule: less_induct)
  case less
  show ?case
  proof (cases "int low \<le> high")
    case False
    then have h: "int low = high + 1" using less.prems(3) by simp
    then have "splits_at l0 n c low" using less.prems by (auto simp: splits_at_def)
    moreover have "0 < rc \<and> Suc i = low \<or> rc < 0 \<and> i = low \<and> node = Some i" using less.prems(6) False h by auto
    ultimately have "found_at l0 n c i rc node" by (auto simp: found_at_def)
    then show ?thesis using False by (simp add: search_keys.simps)
  next
    case True
    define m where "m = (low + nat high) div 2"
    have m: "low \<le> m" "int m \<le> high" using True by (auto simp: m_def)
    then have ml: "l0 \<le> m" "m < n" using less.prems(1,2) by linarith+
    note f = falls [OF _ _ ml(2)] falls [OF ml(1)]
    have s: "search_keys rc_at low high i rc node =
        (if c m = 0 then Inr (m, c m, Some m)
         else if 0 < c m then search_keys rc_at (m + 1) high m (c m) (Some m)
         else search_keys rc_at low (int m - 1) m (c m) (Some m))"
      using True at [OF ml] by (subst search_keys.simps) (simp add: m_def [symmetric])
    consider "c m = 0" | "0 < c m" | "c m < 0" by linarith
    then show ?thesis
    proof cases
      case 1
      then show ?thesis using ml by (simp add: s found_at_def)
    next
      case 2
      have "\<forall>j. l0 \<le> j \<and> j < m + 1 \<longrightarrow> 0 < c j" using f(1) 2 by (metis less_antisym Suc_eq_plus1 order_less_imp_le)
      moreover have "nat (high + 1 - int (m + 1)) < nat (high + 1 - int low)" using m by linarith
      moreover have "search_keys rc_at low high i rc node = search_keys rc_at (m + 1) high m (c m) (Some m)" using 2 by (simp add: s)
      ultimately show ?thesis
        using 2 less.hyps [of high "m + 1" "c m" m "Some m"] less.prems m by simp
    next
      case 3
      have "\<forall>j. int m - 1 < int j \<and> j < n \<longrightarrow> c j < 0"
      proof (intro allI impI)
        fix j assume "int m - 1 < int j \<and> j < n"
        then show "c j < 0" using f(2) [of j] 3 by (cases "j = m") auto
      qed
      moreover have "nat (int m - 1 + 1 - int low) < nat (high + 1 - int low)" using m by linarith
      moreover have "search_keys rc_at low high i rc node = search_keys rc_at low (int m - 1) m (c m) (Some m)" using 3 by (simp add: s)
      ultimately show ?thesis
        using 3 less.hyps [of "int m - 1" low "c m" m "Some m"] less.prems m ml by simp
    qed
  qed
qed

subsection \<open>On a page\<close>

definition page_keys :: "MDB_page \<Rightarrow> u8 list list" where
  "page_keys p = map (\<lambda>(h, k, v). k) (page_nodes p)"

lemma length_page_keys: "page_wf psize p \<Longrightarrow> length (page_keys p) = NUMKEYS p"
  by (simp add: page_keys_def page_nodes_def length_page_offs)

lemma node_key_ok:
  assumes "page_wf psize p" and "i < NUMKEYS p"
  shows "node_key p i = Inr (page_keys p ! i)"
proof -
  let ?d = "page_offs p ! i" and ?h = "dec_node (slice (mp_bytes p) (page_offs p ! i) 8)"
  have "8 + unat (mn_ksize ?h) + payload_size (IS_LEAF p) ?h \<le> ext_at (IS_LEAF p) (mp_bytes p) ?d"
    unfolding ext_at_def node_len_def by (rule EVEN_ge)
  then have "?d + 8 + unat (mn_ksize ?h) \<le> length (mp_bytes p)"
    using page_wfD(8) [OF assms(1) node_hdr_ok(4) [OF assms]] page_wfD(2) [OF assms(1)] by simp
  moreover have "page_keys p ! i = slice (mp_bytes p) (?d + 8) (unat (mn_ksize ?h))"
    using assms length_page_offs [OF assms(1)] by (simp add: page_keys_def page_nodes_def node_at_def Let_def)
  ultimately show ?thesis
    by (simp add: node_key_def node_hdr_ok(1) [OF assms] NODESIZE_def mem_get_ok)
qed

lemma ksize_key:
  assumes "page_wf psize p" and "i < NUMKEYS p"
  shows "unat (mn_ksize (dec_node (slice (mp_bytes p) (page_offs p ! i) 8))) = length (page_keys p ! i)"
proof -
  let ?d = "page_offs p ! i" and ?n = "unat (mn_ksize (dec_node (slice (mp_bytes p) (page_offs p ! i) 8)))"
  have "?d + NODESIZE + ?n \<le> length (mp_bytes p) \<and> slice (mp_bytes p) (?d + NODESIZE) ?n = page_keys p ! i"
    using node_key_ok [OF assms] by (simp add: node_key_def node_hdr_ok(1) [OF assms] mem_get_def split: if_splits)
  then show ?thesis by (metis length_slice)
qed

text \<open>A page that can be searched: of one kind, the keys that count fit the comparison function and ascend. The
  first key of a branch page does not count.\<close>

definition first_key :: "MDB_page \<Rightarrow> nat" where
  "first_key p = (if IS_LEAF p then 0 else 1)"

definition page_sorted :: "(u8 list \<Rightarrow> bool) \<Rightarrow> (u8 list \<Rightarrow> u8 list \<Rightarrow> bool) \<Rightarrow> nat \<Rightarrow> MDB_page \<Rightarrow> bool" where
  "page_sorted fit lt psize p \<longleftrightarrow> page_wf psize p \<and> \<not> IS_LEAF2 p \<and> (IS_BRANCH p \<longleftrightarrow> \<not> IS_LEAF p) \<and> (IS_BRANCH p \<longrightarrow> 2 \<le> NUMKEYS p) \<and>
     list_all fit (drop (first_key p) (page_keys p)) \<and> sorted_wrt lt (drop (first_key p) (page_keys p))"

text \<open>What the search promises: everything before the index is below the key, everything from it on is not.\<close>

definition search_result :: "(u8 list \<Rightarrow> u8 list \<Rightarrow> bool) \<Rightarrow> u8 list \<Rightarrow> MDB_page \<Rightarrow> nat option \<Rightarrow> bool \<Rightarrow> nat \<Rightarrow> bool" where
  "search_result lt key p node exact i \<longleftrightarrow> first_key p \<le> i \<and> i \<le> NUMKEYS p \<and>
     node = (if i < NUMKEYS p then Some i else None) \<and> (exact \<longleftrightarrow> i < NUMKEYS p \<and> page_keys p ! i = key) \<and>
     (\<forall>j. first_key p \<le> j \<and> j < i \<longrightarrow> lt (page_keys p ! j) key) \<and>
     (\<forall>j. i \<le> j \<and> j < NUMKEYS p \<longrightarrow> lt key (page_keys p ! j) \<or> j = i \<and> exact)"

lemma page_sortedD:
  assumes "page_sorted fit lt psize p"
  shows "page_wf psize p" "\<not> IS_LEAF2 p" "IS_BRANCH p \<longleftrightarrow> \<not> IS_LEAF p" "IS_BRANCH p \<Longrightarrow> 2 \<le> NUMKEYS p"
    "\<And>j. first_key p \<le> j \<Longrightarrow> j < NUMKEYS p \<Longrightarrow> fit (page_keys p ! j)"
    "\<And>j k. first_key p \<le> j \<Longrightarrow> j < k \<Longrightarrow> k < NUMKEYS p \<Longrightarrow> lt (page_keys p ! j) (page_keys p ! k)"
proof -
  show wf: "page_wf psize p" and "\<not> IS_LEAF2 p" "IS_BRANCH p \<longleftrightarrow> \<not> IS_LEAF p" "IS_BRANCH p \<Longrightarrow> 2 \<le> NUMKEYS p"
    using assms by (auto simp: page_sorted_def)
  note len = length_page_keys [OF wf]
  have nth: "page_keys p ! j = drop (first_key p) (page_keys p) ! (j - first_key p)" if "first_key p \<le> j" "j < NUMKEYS p" for j
    using that len by (subst nth_drop) simp_all
  show "fit (page_keys p ! j)" if "first_key p \<le> j" "j < NUMKEYS p" for j
  proof -
    have "list_all fit (drop (first_key p) (page_keys p))" using assms by (simp add: page_sorted_def)
    moreover have "drop (first_key p) (page_keys p) ! (j - first_key p) \<in> set (drop (first_key p) (page_keys p))"
      using that len by (intro nth_mem) simp
    ultimately show ?thesis unfolding nth [OF that] list_all_iff by blast
  qed
  show "lt (page_keys p ! j) (page_keys p ! k)" if "first_key p \<le> j" "j < k" "k < NUMKEYS p" for j k
    using assms nth [of j] nth [of k] that len
      sorted_wrt_nth_less [of lt "drop (first_key p) (page_keys p)" "j - first_key p" "k - first_key p"]
    by (auto simp: page_sorted_def)
qed

lemma NODEPTR_reads:
  assumes "page_wf psize p" and "i \<le> NUMKEYS p" and "0 < NUMKEYS p"
  shows "\<exists>w. NODEPTR p i = Inr w"
proof -
  note w = page_wfD [OF assms(1)]
  have "unat (mp_upper p) + 8 \<le> psize"
    using w(8) [OF node_hdr_ok(4) [OF assms(1,3)]] ext_ge [of "IS_LEAF p" "mp_bytes p" "page_offs p ! 0"] by linarith
  then have "i < length (mp_ptrs p)" using w(3,4,5) assms(2) by simp
  then show ?thesis by (simp add: NODEPTR_def)
qed

lemma search_cmp:
  assumes "page_wf psize p" and "IS_BRANCH p \<longrightarrow> 2 \<le> NUMKEYS p"
  shows "(case f of
            Cmp_cint \<Rightarrow> if IS_BRANCH p then bindE (node_hdr p 1) (\<lambda>(d, h). Inr (branch_cmp (unat (mn_ksize h)) f)) else Inr f
          | _ \<Rightarrow> Inr f) = Inr (if IS_BRANCH p then branch_cmp (length (page_keys p ! 1)) f else f)"
proof (cases "IS_BRANCH p")
  case True
  then have 1: "1 < NUMKEYS p" using assms(2) by simp
  show ?thesis
    using True node_hdr_ok(1) [OF assms(1) 1] ksize_key [OF assms(1) 1] by (cases f) (simp_all add: branch_cmp_def)
qed (cases f, simp_all)

text \<open>From the outcome of the loop to the result of the search.\<close>

lemma found_at_result:
  assumes "found_at (first_key p) (NUMKEYS p) c i rc node"
    and cs: "\<And>j. first_key p \<le> j \<Longrightarrow> j < NUMKEYS p \<Longrightarrow> (c j < 0 \<longleftrightarrow> lt key (page_keys p ! j)) \<and> (0 < c j \<longleftrightarrow> lt (page_keys p ! j) key) \<and> (c j = 0 \<longleftrightarrow> key = page_keys p ! j)"
    and falls: "\<And>j k. first_key p \<le> j \<Longrightarrow> j < k \<Longrightarrow> k < NUMKEYS p \<Longrightarrow> (0 \<le> c k \<longrightarrow> 0 < c j) \<and> (c j \<le> 0 \<longrightarrow> c k < 0)"
  shows "\<exists>x. x = (if 0 < rc then Suc i else i) \<and>
     search_result lt key p (if NUMKEYS p \<le> x then None else if 0 < rc then Some (Suc i) else node) (rc = 0 \<and> 0 < NUMKEYS p) x"
proof (cases "rc = 0")
  case True
  then have i: "first_key p \<le> i" "i < NUMKEYS p" "c i = 0" "node = Some i" using assms(1) by (simp_all add: found_at_def)
  have "lt (page_keys p ! j) key" if "first_key p \<le> j" "j < i" for j using falls [OF that i(2)] cs [of j] that i by auto
  moreover have "lt key (page_keys p ! j)" if "i < j" "j < NUMKEYS p" for j using falls [OF i(1) that] cs [of j] that i by auto
  ultimately show ?thesis using True i cs [OF i(1,2)] by (auto simp: search_result_def le_less)
next
  case False
  define x where "x = (if 0 < rc then Suc i else i)"
  have sp: "splits_at (first_key p) (NUMKEYS p) c x" and nd: "\<not> 0 < rc \<Longrightarrow> node = Some i"
    using assms(1) False by (auto simp: found_at_def x_def split: if_splits)
  have lo: "lt (page_keys p ! j) key" if "first_key p \<le> j" "j < x" for j
    using sp cs [of j] that by (auto simp: splits_at_def)
  have hi: "lt key (page_keys p ! j) \<and> page_keys p ! j \<noteq> key" if "x \<le> j" "j < NUMKEYS p" for j
    using sp cs [of j] that by (auto simp: splits_at_def)
  have "search_result lt key p (if NUMKEYS p \<le> x then None else if 0 < rc then Some (Suc i) else node) (rc = 0 \<and> 0 < NUMKEYS p) x"
    unfolding search_result_def using sp nd lo hi False by (auto simp: splits_at_def x_def)
  then show ?thesis unfolding x_def by blast
qed

context key_order
begin

lemma node_search_ok:
  assumes srt: "page_sorted fit lt psize p" and k: "fit key" and ne: "IS_LEAF p \<Longrightarrow> 0 < NUMKEYS p"
  shows "\<exists>node exact i. mdb_node_search f pad key p = Inr (node, exact, i) \<and> search_result lt key p node exact i"
proof -
  note s = page_sortedD [OF srt]
  let ?n = "NUMKEYS p" and ?l = "first_key p"
  define g where "g = (if IS_BRANCH p then branch_cmp (length (page_keys p ! 1)) f else f)"
  have dec: "decides lt (run_cmp g key (page_keys p ! j)) key (page_keys p ! j)" if "?l \<le> j" "j < ?n" for j
    using compares [OF k s(5) [OF that]] compares_branch [OF k s(5) [OF that], of "page_keys p ! 1"] s(3,4) s(5) [of 1]
    by (auto simp: g_def first_key_def)
  define c where "c j = (case run_cmp g key (page_keys p ! j) of Inr x \<Rightarrow> x | Inl _ \<Rightarrow> 0)" for j
  have c: "run_cmp g key (page_keys p ! j) = Inr (c j)" and cs: "(c j < 0 \<longleftrightarrow> lt key (page_keys p ! j)) \<and> (0 < c j \<longleftrightarrow> lt (page_keys p ! j) key) \<and> (c j = 0 \<longleftrightarrow> key = page_keys p ! j)"
    if "?l \<le> j" "j < ?n" for j
    using dec [OF that] by (auto simp: decides_def c_def)
  have falls: "(0 \<le> c j' \<longrightarrow> 0 < c j) \<and> (c j \<le> 0 \<longrightarrow> c j' < 0)" if "?l \<le> j" "j < j'" "j' < ?n" for j j'
    using cs [of j] cs [of j'] s(6) [OF that] that lt_trans [of "page_keys p ! j" "page_keys p ! j'" key]
      lt_trans [of key "page_keys p ! j" "page_keys p ! j'"] by auto
  have n0: "?l < ?n" using ne s(3,4) by (cases "IS_LEAF p") (auto simp: first_key_def)
  obtain i rc node where sk: "search_keys (\<lambda>i. bindE (node_key p i) (run_cmp g key)) ?l (int ?n - 1) 0 0 None = Inr (i, rc, node)"
    and fa: "found_at ?l ?n c i rc node"
    using search_keys_ok [of ?l ?n "\<lambda>i. bindE (node_key p i) (run_cmp g key)" c ?l "int ?n - 1" 0 0 None] n0 falls c node_key_ok [OF s(1)]
    by (auto simp: first_key_def)
  have ptr: "\<exists>w. NODEPTR p (i + 1) = Inr w" if "0 < rc"
    using fa that n0 by (intro NODEPTR_reads [OF s(1)]) (auto simp: found_at_def splits_at_def)
  obtain x where x: "x = (if 0 < rc then Suc i else i)"
     "search_result lt key p (if ?n \<le> x then None else if 0 < rc then Some (Suc i) else node) (rc = 0 \<and> 0 < ?n) x"
    using found_at_result [OF fa cs falls] by blast
  have br: "IS_BRANCH p \<longrightarrow> 2 \<le> NUMKEYS p" using s(4) by blast
  have "mdb_node_search f pad key p = Inr (if ?n \<le> x then None else if 0 < rc then Some (Suc i) else node, rc = 0 \<and> 0 < ?n, x)"
    unfolding mdb_node_search_def Let_def search_cmp [OF s(1) br] first_key_def [symmetric] g_def [symmetric]
    using s(2) ptr x(1) by (auto simp: sk)
  then show ?thesis using x(2) by blast
qed

text \<open>An empty leaf, as a new tree has it for a moment, is searched without a comparison.\<close>

lemma node_search_always:
  assumes srt: "page_sorted fit lt psize p" and k: "fit key"
  shows "\<exists>node exact i. mdb_node_search f pad key p = Inr (node, exact, i) \<and> search_result lt key p node exact i"
proof (cases "IS_LEAF p \<and> NUMKEYS p = 0")
  case True
  note s = page_sortedD [OF srt]
  have br: "IS_BRANCH p \<longrightarrow> 2 \<le> NUMKEYS p" using s(4) by blast
  have "mdb_node_search f pad key p = Inr (None, False, 0)"
    unfolding mdb_node_search_def Let_def search_cmp [OF s(1) br] using True s(2) by (simp add: search_keys.simps)
  moreover have "search_result lt key p None False 0" using True by (simp add: search_result_def first_key_def)
  ultimately show ?thesis by blast
next
  case False
  then show ?thesis by (intro node_search_ok [OF assms]) auto
qed

end

end
