(* ===== verification/Midl.thy ===== *)
theory Midl
  imports Arr "HOL-Library.Multiset"
begin

text \<open>
  The ID lists of LMDB (\<open>lib/lmdb/midl.c\<close>, \<open>midl.h\<close>).

  An \<open>MDB_IDL\<close> points into a block of cells: the cell before it holds the allocated length, cell 0 the
  number of IDs, the IDs follow in descending order. The record \<open>midl\<close> is such a block:
  \<open>alloclen\<close> is the cell at index -1, \<open>cells\<close> the cells from index 0 on. \<open>malloc\<close> and
  \<open>realloc\<close> are arguments: whether they succeed, and what the new cells hold. An \<open>MDB_ID2L\<close> is an
  array of ID/pointer pairs in ascending order, cell 0 holding the count.

  The \<open>int\<close> indices of \<open>mdb_midl_sort\<close> are natural numbers here: they never become negative, except
  for \<open>ir\<close> on a list whose count does not fit, where the loops do nothing as they do for 0. Their
  additions are checked against the range of \<open>int\<close>. The stack of \<open>mdb_midl_sort\<close> has its 64
  cells.
\<close>

type_synonym MDB_ID = size_t

record midl =
  alloclen :: MDB_ID
  cells :: "MDB_ID list"

text \<open>An allocation: success, and the contents of fresh cells.\<close>

record mem =
  mem_ok :: bool
  mem_fill :: "nat \<Rightarrow> MDB_ID"

definition MDB_IDL_LOGN :: nat where "MDB_IDL_LOGN = 16"
definition MDB_IDL_UM_SIZE :: nat where "MDB_IDL_UM_SIZE = 2 ^ (MDB_IDL_LOGN + 1)"
definition MDB_IDL_UM_MAX :: nat where "MDB_IDL_UM_MAX = MDB_IDL_UM_SIZE - 1"

definition ENOMEM :: int where "ENOMEM = 12"

text \<open>\<open>realloc\<close> of the cells from index 0 on: the old contents are kept as far as they fit.\<close>

definition fit :: "mem \<Rightarrow> nat \<Rightarrow> MDB_ID list \<Rightarrow> MDB_ID list" where
  "fit m n xs = take n xs @ map (mem_fill m) [length xs..<n]"

subsection \<open>Search\<close>

text \<open>\<open>CMP(x, y)\<close>.\<close>

definition CMP :: "MDB_ID \<Rightarrow> MDB_ID \<Rightarrow> int" where
  "CMP x y = (if x < y then -1 else if y < x then 1 else 0)"

definition idl_cmp :: "MDB_ID list \<Rightarrow> MDB_ID \<Rightarrow> nat \<Rightarrow> int res" where
  "idl_cmp ids x c = bindE (aget ids c) (\<lambda>y. Inr (CMP y x))"

definition mdb_midl_search :: "MDB_ID list \<Rightarrow> MDB_ID \<Rightarrow> u32 res" where
  "mdb_midl_search ids x =
     bindE (aget ids 0) (\<lambda>n. bindE (search_loop (idl_cmp ids x) 0 1 0 (ucast n)) (\<lambda>(_, c). Inr c))"

subsection \<open>Allocation\<close>

definition mdb_midl_alloc :: "mem \<Rightarrow> nat \<Rightarrow> midl option" where
  "mdb_midl_alloc m num =
     (if mem_ok m then
        Some \<lparr>alloclen = of_nat num, cells = (map (mem_fill m) [0..<Suc num])[0 := 0]\<rparr>
      else None)"

definition mdb_midl_shrink :: "mem \<Rightarrow> midl \<Rightarrow> midl" where
  "mdb_midl_shrink m idl =
     (if of_nat MDB_IDL_UM_MAX < alloclen idl \<and> mem_ok m then
        \<lparr>alloclen = of_nat MDB_IDL_UM_MAX, cells = fit m (Suc MDB_IDL_UM_MAX) (cells idl)\<rparr>
      else idl)"

definition mdb_midl_grow :: "mem \<Rightarrow> midl \<Rightarrow> 32 word \<Rightarrow> int \<times> midl" where
  "mdb_midl_grow m idl num =
     (if mem_ok m then
        (0, \<lparr>alloclen = alloclen idl + scast num,
             cells = fit m (Suc (unat (alloclen idl + scast num))) (cells idl)\<rparr>)
      else (ENOMEM, idl))"

definition mdb_midl_need :: "mem \<Rightarrow> midl \<Rightarrow> u32 \<Rightarrow> (int \<times> midl) res" where
  "mdb_midl_need m idl num =
     bindE (aget (cells idl) 0) (\<lambda>len.
       let num1 = ucast (ucast num + len) :: u32 in
       if alloclen idl < ucast num1 then
         let num2 = (num1 + num1 div 4 + (256 + 2)) AND (- 256) in
         if mem_ok m then
           Inr (0, \<lparr>alloclen = ucast (num2 - 2), cells = fit m (unat num2 - 1) (cells idl)\<rparr>)
         else Inr (ENOMEM, idl)
       else Inr (0, idl))"

subsection \<open>Appending\<close>

text \<open>The macro \<open>mdb_midl_xappend\<close>.\<close>

definition mdb_midl_xappend :: "midl \<Rightarrow> MDB_ID \<Rightarrow> midl res" where
  "mdb_midl_xappend idl x =
     bindE (aget (cells idl) 0) (\<lambda>len.
     bindE (aset (cells idl) 0 (len + 1)) (\<lambda>cs.
     bindE (aset cs (unat (len + 1)) x) (\<lambda>cs'. Inr (idl\<lparr>cells := cs'\<rparr>))))"

definition mdb_midl_append :: "mem \<Rightarrow> midl \<Rightarrow> MDB_ID \<Rightarrow> (int \<times> midl) res" where
  "mdb_midl_append m idl x =
     bindE (aget (cells idl) 0) (\<lambda>len.
       let (rc, idl1) = (if alloclen idl \<le> len then mdb_midl_grow m idl (of_nat MDB_IDL_UM_MAX) else (0, idl)) in
       if rc \<noteq> 0 then Inr (ENOMEM, idl1)
       else bindE (mdb_midl_xappend idl1 x) (\<lambda>idl2. Inr (0, idl2)))"

text \<open>\<open>memcpy\<close> into cells: both ranges have to be inside their arrays.\<close>

definition copy_cells :: "MDB_ID list \<Rightarrow> nat \<Rightarrow> MDB_ID list \<Rightarrow> nat \<Rightarrow> nat \<Rightarrow> MDB_ID list res" where
  "copy_cells dst d src s n =
     (if d + n \<le> length dst \<and> s + n \<le> length src
      then Inr (take d dst @ take n (drop s src) @ drop (d + n) dst) else Inl Out_of_bounds)"

definition mdb_midl_append_list :: "mem \<Rightarrow> midl \<Rightarrow> MDB_ID list \<Rightarrow> (int \<times> midl) res" where
  "mdb_midl_append_list m idl app =
     bindE (aget (cells idl) 0) (\<lambda>len. bindE (aget app 0) (\<lambda>n.
       let (rc, idl1) = (if alloclen idl \<le> len + n then mdb_midl_grow m idl (ucast n) else (0, idl)) in
       if rc \<noteq> 0 then Inr (ENOMEM, idl1)
       else bindE (copy_cells (cells idl1) (unat (len + 1)) app 1 (unat n)) (\<lambda>cs.
            bindE (aset cs 0 (len + n)) (\<lambda>cs'. Inr (0, idl1\<lparr>cells := cs'\<rparr>)))))"

text \<open>\<open>while (n) ids[n--] = id++\<close> with \<open>ids\<close> moved up by \<open>len\<close>.\<close>

fun fill_range :: "nat \<Rightarrow> nat \<Rightarrow> MDB_ID \<Rightarrow> MDB_ID list \<Rightarrow> MDB_ID list res" where
  "fill_range len 0 x cs = Inr cs"
| "fill_range len (Suc n) x cs = bindE (aset cs (len + Suc n) x) (fill_range len n (x + 1))"

definition mdb_midl_append_range :: "mem \<Rightarrow> midl \<Rightarrow> MDB_ID \<Rightarrow> u32 \<Rightarrow> (int \<times> midl) res" where
  "mdb_midl_append_range m idl x n =
     bindE (aget (cells idl) 0) (\<lambda>len.
       let (rc, idl1) = (if alloclen idl < len + ucast n
                         then mdb_midl_grow m idl (n OR of_nat MDB_IDL_UM_MAX) else (0, idl)) in
       if rc \<noteq> 0 then Inr (ENOMEM, idl1)
       else bindE (aset (cells idl1) 0 (len + ucast n)) (\<lambda>cs.
            bindE (fill_range (unat len) (unat n) x cs) (\<lambda>cs'. Inr (0, idl1\<lparr>cells := cs'\<rparr>))))"

subsection \<open>Merging\<close>

text \<open>The inner loop \<open>for (; old_id < merge_id; old_id = idl[--j]) idl[k--] = old_id\<close>; the state is
  \<open>(cells, j, k, old_id)\<close>.\<close>

fun xmerge_down :: "MDB_ID \<Rightarrow> nat \<Rightarrow> nat \<Rightarrow> MDB_ID \<Rightarrow> MDB_ID list \<Rightarrow> (MDB_ID list \<times> nat \<times> nat \<times> MDB_ID) res" where
  "xmerge_down mid 0 k old cs = (if old < mid then Inl Out_of_bounds else Inr (cs, 0, k, old))"
| "xmerge_down mid (Suc j) k old cs =
     (if old < mid then
        bindE (aset cs k old) (\<lambda>cs'. bindE (aget cs' j) (\<lambda>old'. xmerge_down mid j (k - 1) old' cs'))
      else Inr (cs, Suc j, k, old))"

fun xmerge_loop :: "MDB_ID list \<Rightarrow> nat \<Rightarrow> nat \<Rightarrow> nat \<Rightarrow> MDB_ID \<Rightarrow> MDB_ID list \<Rightarrow> MDB_ID list res" where
  "xmerge_loop merge 0 j k old cs = Inr cs"
| "xmerge_loop merge (Suc i) j k old cs =
     bindE (aget merge (Suc i)) (\<lambda>mid.
     bindE (xmerge_down mid j k old cs) (\<lambda>(cs1, j1, k1, old1).
     bindE (aset cs1 k1 mid) (\<lambda>cs2. xmerge_loop merge i j1 (k1 - 1) old1 cs2)))"

definition mdb_midl_xmerge :: "MDB_ID list \<Rightarrow> MDB_ID list \<Rightarrow> MDB_ID list res" where
  "mdb_midl_xmerge idl merge =
     bindE (aget merge 0) (\<lambda>i. bindE (aget idl 0) (\<lambda>j.
       let total = i + j in
       bindE (aset idl 0 (- 1)) (\<lambda>cs.
       bindE (aget cs (unat j)) (\<lambda>old.
       bindE (xmerge_loop merge (unat i) (unat j) (unat total) old cs) (\<lambda>cs'. aset cs' 0 total)))))"

subsection \<open>Sorting\<close>

definition SMALL :: nat where "SMALL = 8"

text \<open>\<open>sizeof(int) * CHAR_BIT * 2\<close> cells.\<close>

definition ISTACK :: nat where "ISTACK = 4 * 8 * 2"

definition INT_MAX :: nat where "INT_MAX = 2 ^ 31 - 1"

definition MIDL_SWAP :: "MDB_ID list \<Rightarrow> nat \<Rightarrow> nat \<Rightarrow> MDB_ID list res" where
  "MIDL_SWAP ids i j =
     bindE (aget ids i) (\<lambda>a. bindE (aget ids j) (\<lambda>b.
     bindE (aset ids i b) (\<lambda>ids1. aset ids1 j a)))"

text \<open>\<open>if (ids[i] < ids[j]) MIDL_SWAP(ids[i], ids[j])\<close>.\<close>

definition swap_if :: "MDB_ID list \<Rightarrow> nat \<Rightarrow> nat \<Rightarrow> MDB_ID list res" where
  "swap_if ids i j =
     bindE (aget ids i) (\<lambda>a. bindE (aget ids j) (\<lambda>b. if a < b then MIDL_SWAP ids i j else Inr ids))"

text \<open>The inner loop of the insertion sort, and the store after it.\<close>

fun insert_down :: "MDB_ID \<Rightarrow> nat \<Rightarrow> MDB_ID list \<Rightarrow> MDB_ID list res" where
  "insert_down a 0 ids = aset ids 1 a"
| "insert_down a (Suc i) ids =
     bindE (aget ids (Suc i)) (\<lambda>x.
       if a \<le> x then aset ids (Suc (Suc i)) a
       else bindE (aset ids (Suc (Suc i)) x) (insert_down a i))"

text \<open>\<open>for (j = l+1; j <= ir; j++)\<close>; the third argument counts the iterations that are left.\<close>

fun insertion_sort :: "nat \<Rightarrow> nat \<Rightarrow> MDB_ID list \<Rightarrow> MDB_ID list res" where
  "insertion_sort j 0 ids = Inr ids"
| "insertion_sort j (Suc n) ids =
     bindE (aget ids j) (\<lambda>a. bindE (insert_down a (j - 1) ids) (insertion_sort (Suc j) n))"

text \<open>\<open>do i++; while (ids[i] > a)\<close> and \<open>do j--; while (ids[j] < a)\<close>.\<close>

function scan_up :: "MDB_ID list \<Rightarrow> MDB_ID \<Rightarrow> nat \<Rightarrow> nat res" where
  "scan_up ids a i =
     (if Suc i < length ids then (if a < ids ! Suc i then scan_up ids a (Suc i) else Inr (Suc i))
      else Inl Out_of_bounds)"
  by pat_completeness auto

termination
  by (relation "measure (\<lambda>(ids, a, i). length ids - i)") auto

fun scan_down :: "MDB_ID list \<Rightarrow> MDB_ID \<Rightarrow> nat \<Rightarrow> nat res" where
  "scan_down ids a 0 = Inl Out_of_bounds"
| "scan_down ids a (Suc j) =
     bindE (aget ids j) (\<lambda>x. if x < a then scan_down ids a j else Inr j)"

declare scan_up.simps [simp del]

lemma scan_down_less: "scan_down ids a j = Inr j' \<Longrightarrow> j' < j"
  by (induction j) (auto simp: res_simps split: if_splits dest: less_SucI)

text \<open>The partition loop: the result is the array and the final \<open>i\<close> and \<open>j\<close>.\<close>

function partition_loop :: "MDB_ID \<Rightarrow> nat \<Rightarrow> nat \<Rightarrow> MDB_ID list \<Rightarrow> (MDB_ID list \<times> nat \<times> nat) res" where
  "partition_loop a i j ids =
     (case scan_up ids a i of
        Inl e \<Rightarrow> Inl e
      | Inr i' \<Rightarrow>
          (case scan_down ids a j of
             Inl e \<Rightarrow> Inl e
           | Inr j' \<Rightarrow>
               if j' < i' then Inr (ids, i', j')
               else (case MIDL_SWAP ids i' j' of
                       Inl e \<Rightarrow> Inl e
                     | Inr ids' \<Rightarrow> partition_loop a i' j' ids')))"
  by pat_completeness auto

termination
  by (relation "measure (\<lambda>(a, i, j, ids). j)") (auto dest: scan_down_less)

declare partition_loop.simps [simp del]

text \<open>One partition of the segment from \<open>l\<close> to \<open>ir\<close>, up to \<open>ids[j] = a\<close>.\<close>

definition partition_segment :: "nat \<Rightarrow> nat \<Rightarrow> MDB_ID list \<Rightarrow> (MDB_ID list \<times> nat \<times> nat) res" where
  "partition_segment l ir ids =
     (if INT_MAX < l + ir then Inl Overflow else
      bindE (MIDL_SWAP ids ((l + ir) div 2) (l + 1)) (\<lambda>ids1.
      bindE (swap_if ids1 l ir) (\<lambda>ids2.
      bindE (swap_if ids2 (l + 1) ir) (\<lambda>ids3.
      bindE (swap_if ids3 l (l + 1)) (\<lambda>ids4.
      bindE (aget ids4 (l + 1)) (\<lambda>a.
      bindE (partition_loop a (l + 1) ir ids4) (\<lambda>(ids5, i, j).
      bindE (aget ids5 j) (\<lambda>x.
      bindE (aset ids5 (l + 1) x) (\<lambda>ids6.
      bindE (aset ids6 j a) (\<lambda>ids7. Inr (ids7, i, j)))))))))))"

text \<open>The outer loop. Every round either sorts a short segment and takes the next one off the stack, or
  partitions a long one; the fuel counts the rounds.\<close>

fun sort_loop :: "nat \<Rightarrow> nat list \<Rightarrow> nat \<Rightarrow> nat \<Rightarrow> nat \<Rightarrow> MDB_ID list \<Rightarrow> MDB_ID list res" where
  "sort_loop 0 istack jstack l ir ids = Inl Diverges"
| "sort_loop (Suc fuel) istack jstack l ir ids =
     (if ir < l + SMALL then
        bindE (insertion_sort (l + 1) (ir - l) ids) (\<lambda>ids'.
          if jstack = 0 then Inr ids'
          else bindE (aget istack jstack) (\<lambda>ir'. bindE (aget istack (jstack - 1)) (\<lambda>l'.
               sort_loop fuel istack (jstack - 2) l' ir' ids')))
      else
        bindE (partition_segment l ir ids) (\<lambda>(ids', i, j).
          let jstack' = jstack + 2 in
          if j - l \<le> ir + 1 - i then
            bindE (aset istack jstack' ir) (\<lambda>st. bindE (aset st (jstack' - 1) i) (\<lambda>st'.
              sort_loop fuel st' jstack' l (j - 1) ids'))
          else
            bindE (aset istack jstack' (j - 1)) (\<lambda>st. bindE (aset st (jstack' - 1) l) (\<lambda>st'.
              sort_loop fuel st' jstack' i ir ids'))))"

definition mdb_midl_sort :: "MDB_ID list \<Rightarrow> MDB_ID list res" where
  "mdb_midl_sort ids =
     bindE (aget ids 0) (\<lambda>n.
       let ir = nat (sint (ucast n :: 32 word)) in
       sort_loop (2 * ir + 2) (replicate ISTACK 0) 0 1 ir ids)"

subsection \<open>ID/pointer lists\<close>

record MDB_ID2 =
  mid :: MDB_ID
  mptr :: nat

definition id2_cmp :: "MDB_ID2 list \<Rightarrow> MDB_ID \<Rightarrow> nat \<Rightarrow> int res" where
  "id2_cmp ids x c = bindE (aget ids c) (\<lambda>y. Inr (CMP x (mid y)))"

definition mdb_mid2l_search :: "MDB_ID2 list \<Rightarrow> MDB_ID \<Rightarrow> u32 res" where
  "mdb_mid2l_search ids x =
     bindE (aget ids 0) (\<lambda>n. bindE (search_loop (id2_cmp ids x) 0 1 0 (ucast (mid n))) (\<lambda>(_, c). Inr c))"

text \<open>\<open>x <= ids[0].mid && ids[x].mid == id->mid\<close>: the array is read only when the index is in
  range.\<close>

definition id2_dup :: "MDB_ID2 list \<Rightarrow> u32 \<Rightarrow> MDB_ID2 \<Rightarrow> bool res" where
  "id2_dup ids x e =
     bindE (aget ids 0) (\<lambda>n. if ucast x \<le> mid n then bindE (aget ids (unat x)) (\<lambda>y. Inr (mid y = mid e))
                              else Inr False)"

definition mdb_mid2l_insert :: "MDB_ID2 list \<Rightarrow> MDB_ID2 \<Rightarrow> (int \<times> MDB_ID2 list) res" where
  "mdb_mid2l_insert ids e =
     bindE (mdb_mid2l_search ids (mid e)) (\<lambda>x.
       if x < 1 then Inr (- 2, ids)
       else bindE (id2_dup ids x e) (\<lambda>dup.
         if dup then Inr (- 1, ids)
         else bindE (aget ids 0) (\<lambda>n.
           if of_nat MDB_IDL_UM_MAX \<le> mid n then Inr (- 2, ids)
           else bindE (aset ids 0 (n\<lparr>mid := mid n + 1\<rparr>)) (\<lambda>ids1.
                bindE (shift_up (unat (ucast (mid n + 1) :: u32)) (unat x) ids1) (\<lambda>ids2.
                bindE (aset ids2 (unat x) e) (\<lambda>ids3. Inr (0, ids3)))))))"

definition mdb_mid2l_append :: "MDB_ID2 list \<Rightarrow> MDB_ID2 \<Rightarrow> (int \<times> MDB_ID2 list) res" where
  "mdb_mid2l_append ids e =
     bindE (aget ids 0) (\<lambda>n.
       if of_nat MDB_IDL_UM_MAX \<le> mid n then Inr (- 2, ids)
       else bindE (aset ids 0 (n\<lparr>mid := mid n + 1\<rparr>)) (\<lambda>ids1.
            bindE (aset ids1 (unat (mid n + 1)) e) (\<lambda>ids2. Inr (0, ids2))))"

end
