(* ===== verification/Mdb_Cursor.thy ===== *)
theory Mdb_Cursor
  imports Mdb_Search Midl
begin

text \<open>
  The read path of LMDB (\<open>lib/lmdb/mdb.c\<close>): finding the page of a page number, descending a tree with a
  cursor, moving a cursor, and \<open>mdb_get\<close>.

  A cursor has a stack of pages with an index into each, in arrays of \<open>CURSOR_STACK\<close> cells, as in the
  code: cells above \<open>mc_top\<close> keep what was there before. A transaction is the part of \<open>MDB_txn\<close> and its environment that
  reading needs: \<open>mt_lists\<close> has the spill list and the dirty list of the transaction and of its parents,
  innermost first; \<open>me_map\<close> is the memory map read page by page and \<open>me_mem\<close> the dirty pages by address.
  Both are states that the functions pass on, with the return code. A \<open>MDB_val\<close> is the bytes it leads to,
  a pointer to one is an option.

  The model covers cursors without a sub-cursor (\<open>mc_xcursor\<close> is \<open>NULL\<close>), that is databases without
  \<open>MDB_DUPSORT\<close>. There a node with \<open>F_DUPDATA\<close> would be followed through \<open>NULL\<close>, a fault of the model.
  \<open>mdb_page_touch\<close>, called only with \<open>MDB_PS_MODIFY\<close>, is an argument.
\<close>

subsection \<open>Codes and flags\<close>

definition MDB_NOTFOUND :: int where "MDB_NOTFOUND = -30798"
definition MDB_PAGE_NOTFOUND :: int where "MDB_PAGE_NOTFOUND = -30797"
definition MDB_CORRUPTED :: int where "MDB_CORRUPTED = -30796"
definition MDB_CURSOR_FULL :: int where "MDB_CURSOR_FULL = -30787"
definition MDB_INCOMPATIBLE :: int where "MDB_INCOMPATIBLE = -30784"
definition MDB_BAD_TXN :: int where "MDB_BAD_TXN = -30782"
definition MDB_BAD_VALSIZE :: int where "MDB_BAD_VALSIZE = -30781"
definition MDB_BAD_DBI :: int where "MDB_BAD_DBI = -30780"
definition EINVAL :: int where "EINVAL = 22"

lemmas mdb_codes = MDB_NOTFOUND_def MDB_PAGE_NOTFOUND_def MDB_CORRUPTED_def MDB_CURSOR_FULL_def MDB_INCOMPATIBLE_def
  MDB_BAD_TXN_def MDB_BAD_VALSIZE_def MDB_BAD_DBI_def EINVAL_def

definition MDB_TXN_RDONLY :: u32 where "MDB_TXN_RDONLY = 0x20000"
definition MDB_TXN_WRITEMAP :: u32 where "MDB_TXN_WRITEMAP = 0x80000"
definition MDB_TXN_FINISHED :: u32 where "MDB_TXN_FINISHED = 0x01"
definition MDB_TXN_HAS_CHILD :: u32 where "MDB_TXN_HAS_CHILD = 0x10"
definition MDB_TXN_BLOCKED :: u32 where "MDB_TXN_BLOCKED = MDB_TXN_FINISHED OR MDB_TXN_ERROR OR MDB_TXN_HAS_CHILD"

definition MDB_DUPSORT :: u16 where "MDB_DUPSORT = 0x04"
definition MDB_DUPFIXED :: u16 where "MDB_DUPFIXED = 0x10"
definition PERSISTENT_FLAGS :: u16 where "PERSISTENT_FLAGS = 0x7fff"

definition DB_STALE :: u8 where "DB_STALE = 0x02"
definition DB_VALID :: u8 where "DB_VALID = 0x08"
definition DB_USRVALID :: u8 where "DB_USRVALID = 0x10"

definition C_INITIALIZED :: u32 where "C_INITIALIZED = 0x01"
definition C_EOF :: u32 where "C_EOF = 0x02"
definition C_DEL :: u32 where "C_DEL = 0x08"

definition MDB_PS_MODIFY :: u32 where "MDB_PS_MODIFY = 1"
definition MDB_PS_ROOTONLY :: u32 where "MDB_PS_ROOTONLY = 2"
definition MDB_PS_FIRST :: u32 where "MDB_PS_FIRST = 4"
definition MDB_PS_LAST :: u32 where "MDB_PS_LAST = 8"

definition CURSOR_STACK :: nat where "CURSOR_STACK = 32"
definition P_INVALID :: size_t where "P_INVALID = - 1"
definition MAIN_DBI :: nat where "MAIN_DBI = 1"

datatype MDB_cursor_op = MDB_FIRST | MDB_FIRST_DUP | MDB_GET_BOTH | MDB_GET_BOTH_RANGE | MDB_GET_CURRENT | MDB_GET_MULTIPLE
  | MDB_LAST | MDB_LAST_DUP | MDB_NEXT | MDB_NEXT_DUP | MDB_NEXT_MULTIPLE | MDB_NEXT_NODUP | MDB_PREV | MDB_PREV_DUP
  | MDB_PREV_NODUP | MDB_SET | MDB_SET_KEY | MDB_SET_RANGE | MDB_PREV_MULTIPLE

subsection \<open>Transactions and cursors\<close>

record MDB_dbx =
  md_name :: "u8 list"
  md_cmp :: cmp_func
  md_dcmp :: cmp_func

record MDB_txn =
  mt_flags :: u32
  mt_next_pgno :: size_t
  mt_lists :: "(MDB_ID list option \<times> MDB_ID2 list) list"
  me_map :: "size_t \<Rightarrow> MDB_page"
  me_mem :: "nat \<Rightarrow> MDB_page"
  mt_dbs :: "MDB_db list"
  mt_dbxs :: "MDB_dbx list"
  mt_dbflags :: "u8 list"
  mt_dbiseqs :: "u32 list"
  me_dbiseqs :: "u32 list"

record MDB_cursor =
  mc_dbi :: nat
  mc_snum :: nat
  mc_top :: nat
  mc_flags :: u32
  mc_pg :: "MDB_page option list"
  mc_ki :: "nat list"

type_synonym cur = "MDB_txn \<times> MDB_cursor"

text \<open>\<open>if ((rc = m) != 0) return rc; f\<close>.\<close>

definition okE :: "(int \<times> 's) res \<Rightarrow> ('s \<Rightarrow> (int \<times> 's) res) \<Rightarrow> (int \<times> 's) res" where
  "okE m f = bindE m (\<lambda>(rc, s). if rc \<noteq> 0 then Inr (rc, s) else f s)"

lemma okE_simps [simp, res_simps]:
  "okE (Inr (0, s)) f = f s" "rc \<noteq> 0 \<Longrightarrow> okE (Inr (rc, s)) f = Inr (rc, s)" "okE (Inl e) f = Inl e"
  by (simp_all add: okE_def)

definition get_page :: "MDB_cursor \<Rightarrow> nat \<Rightarrow> MDB_page res" where
  "get_page mc i = bindE (aget (mc_pg mc) i) (\<lambda>o1. case o1 of None \<Rightarrow> Inl Bad_pointer | Some p \<Rightarrow> Inr p)"

definition top_page :: "MDB_cursor \<Rightarrow> MDB_page res" where
  "top_page mc = get_page mc (mc_top mc)"

definition top_ki :: "MDB_cursor \<Rightarrow> nat res" where
  "top_ki mc = aget (mc_ki mc) (mc_top mc)"

definition set_ki :: "nat \<Rightarrow> MDB_cursor \<Rightarrow> MDB_cursor res" where
  "set_ki i mc = bindE (aset (mc_ki mc) (mc_top mc) i) (\<lambda>ks. Inr (mc\<lparr>mc_ki := ks\<rparr>))"

text \<open>\<open>NUMKEYS(mp) - 1\<close> stored into an \<open>indx_t\<close>.\<close>

definition last_indx :: "MDB_page \<Rightarrow> nat" where
  "last_indx p = unat (of_nat (NUMKEYS p) - 1 :: u16)"

definition txn_error :: "MDB_txn \<Rightarrow> MDB_txn" where
  "txn_error t = t\<lparr>mt_flags := set_flag (mt_flags t) MDB_TXN_ERROR\<rparr>"

subsection \<open>The stack\<close>

definition mdb_cursor_pop :: "MDB_cursor \<Rightarrow> MDB_cursor" where
  "mdb_cursor_pop mc =
     (if mc_snum mc \<noteq> 0 then
        (let n = mc_snum mc - 1 in
         if n \<noteq> 0 then mc\<lparr>mc_snum := n, mc_top := mc_top mc - 1\<rparr>
         else mc\<lparr>mc_snum := n, mc_flags := clear_flag (mc_flags mc) C_INITIALIZED\<rparr>)
      else mc)"

definition mdb_cursor_push :: "MDB_page \<Rightarrow> cur \<Rightarrow> (int \<times> cur) res" where
  "mdb_cursor_push mp c =
     (case c of (t, mc) \<Rightarrow>
        if CURSOR_STACK \<le> mc_snum mc then Inr (MDB_CURSOR_FULL, txn_error t, mc)
        else
          bindE (aset (mc_pg mc) (mc_snum mc) (Some mp)) (\<lambda>pg.
          bindE (aset (mc_ki mc) (mc_snum mc) 0) (\<lambda>ki.
          Inr (0, t, mc\<lparr>mc_top := mc_snum mc, mc_snum := mc_snum mc + 1, mc_pg := pg, mc_ki := ki\<rparr>))))"

subsection \<open>Pages\<close>

text \<open>The loop over the transaction and its parents: the page when it is spilled or dirty there, and the
  level.\<close>

fun page_get_dirty :: "MDB_txn \<Rightarrow> size_t \<Rightarrow> nat \<Rightarrow> (MDB_ID list option \<times> MDB_ID2 list) list \<Rightarrow> (MDB_page \<times> nat) option res" where
  "page_get_dirty t pgno level [] = Inr None"
| "page_get_dirty t pgno level ((sp, dl) # ls) =
     bindE (case sp of
              None \<Rightarrow> Inr False
            | Some s \<Rightarrow>
                let pn = push_bit 1 pgno in
                bindE (mdb_midl_search s pn) (\<lambda>x. bindE (aget s 0) (\<lambda>n.
                  if ucast x \<le> n then bindE (aget s (unat x)) (\<lambda>v. Inr (v = pn)) else Inr False))) (\<lambda>spilled.
     if spilled then Inr (Some (me_map t pgno, level))
     else
       bindE (aget dl 0) (\<lambda>n.
       bindE (if mid n \<noteq> 0 then
                bindE (mdb_mid2l_search dl pgno) (\<lambda>x.
                  if ucast x \<le> mid n then bindE (aget dl (unat x)) (\<lambda>e. Inr (if mid e = pgno then Some (mptr e) else None)) else Inr None)
              else Inr None) (\<lambda>found.
       case found of
         Some a \<Rightarrow> Inr (Some (me_mem t a, level))
       | None \<Rightarrow> page_get_dirty t pgno (level + 1) ls)))"

definition mdb_page_get :: "size_t \<Rightarrow> MDB_txn \<Rightarrow> (int \<times> MDB_txn \<times> (MDB_page \<times> nat) option) res" where
  "mdb_page_get pgno t =
     bindE (if has_flag (mt_flags t) (MDB_TXN_RDONLY OR MDB_TXN_WRITEMAP) then Inr None else page_get_dirty t pgno 1 (mt_lists t)) (\<lambda>r.
       case r of
         Some pl \<Rightarrow> Inr (0, t, Some pl)
       | None \<Rightarrow>
           if pgno < mt_next_pgno t then Inr (0, t, Some (me_map t pgno, 0))
           else Inr (MDB_PAGE_NOTFOUND, txn_error t, None))"

text \<open>Get a page and go on with it.\<close>

definition with_page :: "size_t \<Rightarrow> cur \<Rightarrow> (MDB_page \<Rightarrow> (int \<times> cur) res) \<Rightarrow> (int \<times> cur) res" where
  "with_page pgno c f =
     bindE (mdb_page_get pgno (fst c)) (\<lambda>(rc, t, r).
       case r of None \<Rightarrow> Inr (rc, t, snd c) | Some (p, _) \<Rightarrow> f p)"

subsection \<open>Descending\<close>

text \<open>The choice of the child on a branch page: the index to follow, or \<open>None\<close> for the shortcut when the cursor is already
  on the last child.\<close>

definition search_index :: "cmp_func \<Rightarrow> nat \<Rightarrow> u8 list option \<Rightarrow> u32 \<Rightarrow> MDB_page \<Rightarrow> MDB_cursor \<Rightarrow> (nat option \<times> MDB_cursor) res" where
  "search_index f pad key flags mp mc =
     (if has_flag flags (MDB_PS_FIRST OR MDB_PS_LAST) then
        if has_flag flags MDB_PS_LAST then
          (if has_flag (mc_flags mc) C_INITIALIZED then
             bindE (top_ki mc) (\<lambda>k. Inr (if k = last_indx mp then None else Some (last_indx mp), mc))
           else Inr (Some (last_indx mp), mc))
        else Inr (Some 0, mc)
      else
        (case key of
           None \<Rightarrow> Inl Bad_pointer
         | Some k \<Rightarrow>
             bindE (mdb_node_search f pad k mp) (\<lambda>(node, exact, i).
             bindE (set_ki i mc) (\<lambda>mc'.
             case node of
               None \<Rightarrow> Inr (Some (last_indx mp), mc')
             | Some _ \<Rightarrow> if exact then Inr (Some i, mc') else assertE (0 < i) (Inr (Some (i - 1), mc'))))))"

text \<open>\<open>while (IS_BRANCH(mp))\<close>. Every round pushes a page, so that \<open>CURSOR_STACK + 2\<close> rounds are enough.\<close>

fun search_root_loop :: "nat \<Rightarrow> (cur \<Rightarrow> (int \<times> cur) res) \<Rightarrow> u8 list option \<Rightarrow> u32 \<Rightarrow> cur \<Rightarrow> (int \<times> cur) res" where
  "search_root_loop 0 touch key flags c = Inl Diverges"
| "search_root_loop (Suc n) touch key flags (t, mc) =
     bindE (top_page mc) (\<lambda>mp.
     if IS_BRANCH mp then
       assertE (mc_dbi mc = 0 \<or> 1 < NUMKEYS mp)
       (bindE (aget (mt_dbxs t) (mc_dbi mc)) (\<lambda>dbx. bindE (aget (mt_dbs t) (mc_dbi mc)) (\<lambda>db.
        bindE (search_index (md_cmp dbx) (unat (md_pad db)) key flags mp mc) (\<lambda>(choice, mc1).
        okE (case choice of
               None \<Rightarrow> Inr (0, t, mc1\<lparr>mc_top := mc_snum mc1, mc_snum := mc_snum mc1 + 1\<rparr>)
             | Some i \<Rightarrow>
                 assertE (i < NUMKEYS mp)
                 (bindE (node_hdr mp i) (\<lambda>(d, h).
                  with_page (NODEPGNO h) (t, mc1) (\<lambda>mp'.
                  bindE (set_ki i mc1) (\<lambda>mc2. mdb_cursor_push mp' (t, mc2)))))) (\<lambda>c2.
        okE (if has_flag flags MDB_PS_MODIFY then touch c2 else Inr (0, c2)) (\<lambda>c3.
        search_root_loop n touch key flags c3))))))
     else if \<not> IS_LEAF mp then Inr (MDB_CORRUPTED, txn_error t, mc)
     else Inr (0, t, mc\<lparr>mc_flags := clear_flag (set_flag (mc_flags mc) C_INITIALIZED) C_EOF\<rparr>))"

definition mdb_page_search_root :: "(cur \<Rightarrow> (int \<times> cur) res) \<Rightarrow> u8 list option \<Rightarrow> u32 \<Rightarrow> cur \<Rightarrow> (int \<times> cur) res" where
  "mdb_page_search_root touch key flags c = search_root_loop (CURSOR_STACK + 2) touch key flags c"

definition mdb_page_search_lowest :: "(cur \<Rightarrow> (int \<times> cur) res) \<Rightarrow> cur \<Rightarrow> (int \<times> cur) res" where
  "mdb_page_search_lowest touch c =
     bindE (top_page (snd c)) (\<lambda>mp. bindE (node_hdr mp 0) (\<lambda>(d, h).
     with_page (NODEPGNO h) c (\<lambda>mp'.
     bindE (set_ki 0 (snd c)) (\<lambda>mc. okE (mdb_cursor_push mp' (fst c, mc)) (mdb_page_search_root touch None MDB_PS_FIRST)))))"

text \<open>The rest of \<open>mdb_page_search\<close> after the record of the database is known to be up to date.\<close>

definition page_search_fresh :: "(cur \<Rightarrow> (int \<times> cur) res) \<Rightarrow> u8 list option \<Rightarrow> u32 \<Rightarrow> cur \<Rightarrow> (int \<times> cur) res" where
  "page_search_fresh touch key flags c =
     (case c of (t, mc) \<Rightarrow>
      bindE (aget (mt_dbs t) (mc_dbi mc)) (\<lambda>db.
      let root = md_root db in
      if root = P_INVALID then Inr (MDB_NOTFOUND, t, mc)
      else
        assertE (1 < root)
        (bindE (aget (mc_pg mc) 0) (\<lambda>o0.
         okE (if (case o0 of None \<Rightarrow> True | Some p \<Rightarrow> mp_pgno p \<noteq> root) then
                with_page root (t, mc) (\<lambda>p. Inr (0, t, mc\<lparr>mc_pg := (mc_pg mc)[0 := Some p]\<rparr>))
              else Inr (0, t, mc)) (\<lambda>(t1, mc1).
         okE (if has_flag flags MDB_PS_MODIFY then touch (t1, mc1\<lparr>mc_snum := 1, mc_top := 0\<rparr>)
              else Inr (0, t1, mc1\<lparr>mc_snum := 1, mc_top := 0\<rparr>)) (\<lambda>c2.
         if has_flag flags MDB_PS_ROOTONLY then Inr (0, c2) else mdb_page_search_root touch key flags c2))))))"

definition cursor_on :: "nat \<Rightarrow> MDB_cursor" where
  "cursor_on dbi = \<lparr>mc_dbi = dbi, mc_snum = 0, mc_top = 0, mc_flags = 0, mc_pg = replicate CURSOR_STACK None, mc_ki = replicate CURSOR_STACK 0\<rparr>"

text \<open>\<open>mdb_node_read\<close>: the data of the node at index \<open>i\<close>, from the page or from the overflow pages.\<close>

definition mdb_node_read :: "MDB_txn \<Rightarrow> MDB_page \<Rightarrow> nat \<Rightarrow> (int \<times> MDB_txn \<times> u8 list) res" where
  "mdb_node_read t mp i =
     bindE (node_hdr mp i) (\<lambda>(d, h).
     let at = d + NODESIZE + unat (mn_ksize h) in
     if \<not> F_ISSET (ucast (mn_flags h)) F_BIGDATA then
       bindE (mem_get at (unat (NODEDSZ h)) (mp_bytes mp)) (\<lambda>v. Inr (0, t, v))
     else
       bindE (mem_get at 8 (mp_bytes mp)) (\<lambda>pg.
       bindE (mdb_page_get (of_nat (le_val pg)) t) (\<lambda>(rc, t', r).
       case r of
         None \<Rightarrow> Inr (rc, t', [])
       | Some (omp, _) \<Rightarrow> bindE (mem_get PAGEHDRSZ (unat (NODEDSZ h)) (mp_bytes omp)) (\<lambda>v. Inr (0, t', v)))))"

text \<open>The bytes of a record \<open>MDB_db\<close> in the main database.\<close>

definition dec_db :: "u8 list \<Rightarrow> MDB_db" where
  "dec_db bs = \<lparr>md_pad = of_nat (le_val (slice bs 0 4)), md_flags = of_nat (le_val (slice bs 4 2)), md_depth = of_nat (le_val (slice bs 6 2)),
     md_branch_pages = of_nat (le_val (slice bs 8 8)), md_leaf_pages = of_nat (le_val (slice bs 16 8)),
     md_overflow_pages = of_nat (le_val (slice bs 24 8)), md_entries = of_nat (le_val (slice bs 32 8)), md_root = of_nat (le_val (slice bs 40 8))\<rparr>"

text \<open>The branch for \<open>DB_STALE\<close>: read the record of the named database from the main database. The main
  database itself is never stale.\<close>

definition db_refresh :: "(cur \<Rightarrow> (int \<times> cur) res) \<Rightarrow> cur \<Rightarrow> (int \<times> cur) res" where
  "db_refresh touch c =
     (case c of (t, mc) \<Rightarrow>
      bindE (aget (mt_dbflags t) (mc_dbi mc)) (\<lambda>fl.
      if \<not> has_flag fl DB_STALE then Inr (0, t, mc)
      else
        bindE (aget (mt_dbiseqs t) (mc_dbi mc)) (\<lambda>s1. bindE (aget (me_dbiseqs t) (mc_dbi mc)) (\<lambda>s2.
        if s1 \<noteq> s2 then Inr (MDB_BAD_DBI, t, mc)
        else
          bindE (aget (mt_dbflags t) MAIN_DBI) (\<lambda>mfl.
          if has_flag mfl DB_STALE then Inl Diverges
          else
            bindE (aget (mt_dbxs t) (mc_dbi mc)) (\<lambda>dbx. bindE (aget (mt_dbs t) (mc_dbi mc)) (\<lambda>db.
            bindE (page_search_fresh touch (Some (md_name dbx)) 0 (t, cursor_on MAIN_DBI)) (\<lambda>(rc, t2, mc2).
            if rc \<noteq> 0 then Inr (rc, t2, mc)
            else
              bindE (top_page mc2) (\<lambda>mp. bindE (aget (mt_dbxs t2) MAIN_DBI) (\<lambda>mdbx. bindE (aget (mt_dbs t2) MAIN_DBI) (\<lambda>mdb.
              bindE (mdb_node_search (md_cmp mdbx) (unat (md_pad mdb)) (md_name dbx) mp) (\<lambda>(node, exact, i).
              if \<not> exact then Inr (MDB_NOTFOUND, t2, mc)
              else
                bindE (node_hdr mp i) (\<lambda>(d, h).
                if ucast (mn_flags h) AND (F_DUPDATA OR F_SUBDATA) \<noteq> F_SUBDATA then Inr (MDB_INCOMPATIBLE, t2, mc)
                else
                  bindE (mdb_node_read t2 mp i) (\<lambda>(rc, t3, v).
                  if rc \<noteq> 0 then Inr (rc, t3, mc)
                  else if length v < 48 then Inl Out_of_bounds
                  else if md_flags db AND PERSISTENT_FLAGS \<noteq> md_flags (dec_db v) then Inr (MDB_INCOMPATIBLE, t3, mc)
                  else
                    Inr (0, t3\<lparr>mt_dbs := (mt_dbs t3)[mc_dbi mc := dec_db v],
                               mt_dbflags := (mt_dbflags t3)[mc_dbi mc := clear_flag fl DB_STALE]\<rparr>, mc)))))))))))))))"

definition mdb_page_search :: "(cur \<Rightarrow> (int \<times> cur) res) \<Rightarrow> u8 list option \<Rightarrow> u32 \<Rightarrow> cur \<Rightarrow> (int \<times> cur) res" where
  "mdb_page_search touch key flags c =
     (if has_flag (mt_flags (fst c)) MDB_TXN_BLOCKED then Inr (MDB_BAD_TXN, c)
      else okE (db_refresh touch c) (page_search_fresh touch key flags))"

definition mdb_cursor_init :: "(cur \<Rightarrow> (int \<times> cur) res) \<Rightarrow> MDB_txn \<Rightarrow> nat \<Rightarrow> cur res" where
  "mdb_cursor_init touch t dbi =
     bindE (aget (mt_dbs t) dbi) (\<lambda>db. bindE (aget (mt_dbflags t) dbi) (\<lambda>fl.
     if has_flag (md_flags db) MDB_DUPSORT then Inl Assert_failed
     else if has_flag fl DB_STALE then bindE (mdb_page_search touch None MDB_PS_ROOTONLY (t, cursor_on dbi)) (\<lambda>(_, c). Inr c)
     else Inr (t, cursor_on dbi)))"

subsection \<open>Moving to a sibling\<close>

function mdb_cursor_sibling :: "bool \<Rightarrow> cur \<Rightarrow> (int \<times> cur) res" where
  "mdb_cursor_sibling right (t, mc) =
     (if mc_snum mc < 2 then Inr (MDB_NOTFOUND, t, mc)
      else
        (let mc1 = mdb_cursor_pop mc in
         case (top_page mc1, top_ki mc1) of
           (Inl e, _) \<Rightarrow> Inl e
         | (Inr _, Inl e) \<Rightarrow> Inl e
         | (Inr mp, Inr k) \<Rightarrow>
             okE (if (if right then NUMKEYS mp \<le> k + 1 else k = 0) then
                    (case mdb_cursor_sibling right (t, mc1) of
                       Inl e \<Rightarrow> Inl e
                     | Inr (rc, t2, mc2) \<Rightarrow>
                         if rc \<noteq> 0 then Inr (rc, t2, mc2\<lparr>mc_top := mc_top mc2 + 1, mc_snum := mc_snum mc2 + 1\<rparr>) else Inr (0, t2, mc2))
                  else bindE (set_ki (if right then k + 1 else k - 1) mc1) (\<lambda>mc2. Inr (0, t, mc2))) (\<lambda>(t2, mc2).
             bindE (top_page mc2) (\<lambda>par.
             assertE (IS_BRANCH par)
             (bindE (top_ki mc2) (\<lambda>i. bindE (node_hdr par i) (\<lambda>(d, h).
              bindE (mdb_page_get (NODEPGNO h) t2) (\<lambda>(rc, t3, r).
              case r of
                None \<Rightarrow> Inr (rc, t3, mc2\<lparr>mc_flags := clear_flag (mc_flags mc2) (C_INITIALIZED OR C_EOF)\<rparr>)
              | Some (p', _) \<Rightarrow>
                  bindE (mdb_cursor_push p' (t3, mc2)) (\<lambda>(_, t4, mc3).
                  if right then Inr (0, t4, mc3) else bindE (set_ki (last_indx p') mc3) (\<lambda>mc4. Inr (0, t4, mc4)))))))))))"
  by pat_completeness auto

termination
  by (relation "measure (\<lambda>(right, t, mc). mc_snum mc)") (auto simp: mdb_cursor_pop_def Let_def)

declare mdb_cursor_sibling.simps [simp del]

subsection \<open>Reading at the cursor\<close>

type_synonym kd = "u8 list option \<times> u8 list option"

definition searchE :: "(int \<times> cur) res \<Rightarrow> kd \<Rightarrow> (cur \<Rightarrow> (int \<times> kd \<times> cur) res) \<Rightarrow> (int \<times> kd \<times> cur) res" where
  "searchE m kd f = bindE m (\<lambda>(rc, c). if rc \<noteq> 0 then Inr (rc, kd, c) else f c)"

lemma searchE_simps [simp, res_simps]:
  "searchE (Inr (0, s)) kd f = f s" "rc \<noteq> 0 \<Longrightarrow> searchE (Inr (rc, s)) kd f = Inr (rc, kd, s)" "searchE (Inl e) kd f = Inl e"
  by (simp_all add: searchE_def)

text \<open>\<open>MDB_GET_KEY\<close>.\<close>

definition get_key :: "MDB_page \<Rightarrow> nat \<Rightarrow> u8 list option \<Rightarrow> u8 list option res" where
  "get_key mp i key = (case key of None \<Rightarrow> Inr None | Some _ \<Rightarrow> bindE (node_key mp i) (\<lambda>k. Inr (Some k)))"

text \<open>The data, unless \<open>data\<close> is \<open>NULL\<close>.\<close>

definition get_data :: "MDB_txn \<Rightarrow> MDB_page \<Rightarrow> nat \<Rightarrow> u8 list option \<Rightarrow> (int \<times> MDB_txn \<times> u8 list option) res" where
  "get_data t mp i data =
     (case data of
        None \<Rightarrow> Inr (0, t, None)
      | Some _ \<Rightarrow> bindE (mdb_node_read t mp i) (\<lambda>(rc, t', v). Inr (rc, t', if rc \<noteq> 0 then data else Some v)))"

text \<open>The end of \<open>mdb_cursor_first\<close>, \<open>_last\<close>, \<open>_next\<close> and \<open>_prev\<close>.\<close>

definition read_item :: "MDB_page \<Rightarrow> nat \<Rightarrow> kd \<Rightarrow> cur \<Rightarrow> (int \<times> kd \<times> cur) res" where
  "read_item mp i kd c =
     bindE (node_hdr mp i) (\<lambda>(d, h).
     if F_ISSET (ucast (mn_flags h)) F_DUPDATA then Inl Bad_pointer
     else
       bindE (get_data (fst c) mp i (snd kd)) (\<lambda>(rc, t, data).
       if rc \<noteq> 0 then Inr (rc, kd, t, snd c)
       else bindE (get_key mp i (fst kd)) (\<lambda>key. Inr (0, (key, data), t, snd c))))"

definition read_leaf2 :: "bool \<Rightarrow> MDB_page \<Rightarrow> nat \<Rightarrow> kd \<Rightarrow> cur \<Rightarrow> (int \<times> kd \<times> cur) res" where
  "read_leaf2 opt mp i kd c =
     bindE (aget (mt_dbs (fst c)) (mc_dbi (snd c))) (\<lambda>db.
     case fst kd of
       None \<Rightarrow> if opt then Inr (0, kd, c) else Inl Bad_pointer
     | Some _ \<Rightarrow>
         bindE (mem_get (LEAF2KEY i (unat (md_pad db))) (unat (md_pad db)) (mp_bytes mp)) (\<lambda>k. Inr (0, (Some k, snd kd), c)))"

definition mdb_cursor_first :: "(cur \<Rightarrow> (int \<times> cur) res) \<Rightarrow> kd \<Rightarrow> cur \<Rightarrow> (int \<times> kd \<times> cur) res" where
  "mdb_cursor_first touch kd c =
     searchE (if \<not> has_flag (mc_flags (snd c)) C_INITIALIZED \<or> mc_top (snd c) \<noteq> 0 then mdb_page_search touch None MDB_PS_FIRST c
              else Inr (0, c)) kd (\<lambda>(t, mc).
     bindE (top_page mc) (\<lambda>mp.
     assertE (IS_LEAF mp)
     (bindE (set_ki 0 (mc\<lparr>mc_flags := clear_flag (set_flag (mc_flags mc) C_INITIALIZED) C_EOF\<rparr>)) (\<lambda>mc1.
      if IS_LEAF2 mp then read_leaf2 True mp 0 kd (t, mc1) else read_item mp 0 kd (t, mc1)))))"

definition mdb_cursor_last :: "(cur \<Rightarrow> (int \<times> cur) res) \<Rightarrow> kd \<Rightarrow> cur \<Rightarrow> (int \<times> kd \<times> cur) res" where
  "mdb_cursor_last touch kd c =
     searchE (if \<not> has_flag (mc_flags (snd c)) C_INITIALIZED \<or> mc_top (snd c) \<noteq> 0 then mdb_page_search touch None MDB_PS_LAST c
              else Inr (0, c)) kd (\<lambda>(t, mc).
     bindE (top_page mc) (\<lambda>mp.
     assertE (IS_LEAF mp)
     (bindE (set_ki (last_indx mp) mc) (\<lambda>mc1.
      let c1 = (t, mc1\<lparr>mc_flags := set_flag (mc_flags mc1) (C_INITIALIZED OR C_EOF)\<rparr>) in
      if IS_LEAF2 mp then read_leaf2 True mp (last_indx mp) kd c1 else read_item mp (last_indx mp) kd c1))))"

text \<open>The part of \<open>mdb_cursor_next\<close> after the label \<open>skip\<close>.\<close>

definition next_item :: "kd \<Rightarrow> cur \<Rightarrow> (int \<times> kd \<times> cur) res" where
  "next_item kd c =
     bindE (top_page (snd c)) (\<lambda>mp. bindE (top_ki (snd c)) (\<lambda>i.
     if IS_LEAF2 mp then read_leaf2 False mp i kd c else assertE (IS_LEAF mp) (read_item mp i kd c)))"

definition mdb_cursor_next :: "(cur \<Rightarrow> (int \<times> cur) res) \<Rightarrow> MDB_cursor_op \<Rightarrow> kd \<Rightarrow> cur \<Rightarrow> (int \<times> kd \<times> cur) res" where
  "mdb_cursor_next touch op kd c =
     (case c of (t, mc) \<Rightarrow>
      if has_flag (mc_flags mc) C_DEL \<and> op = MDB_NEXT_DUP then Inr (MDB_NOTFOUND, kd, c)
      else if \<not> has_flag (mc_flags mc) C_INITIALIZED then mdb_cursor_first touch kd c
      else
        bindE (top_page mc) (\<lambda>mp. bindE (top_ki mc) (\<lambda>k. bindE (aget (mt_dbs t) (mc_dbi mc)) (\<lambda>db.
        if has_flag (mc_flags mc) C_EOF \<and> 0 < NUMKEYS mp \<and> NUMKEYS mp - 1 \<le> k then Inr (MDB_NOTFOUND, kd, c)
        else
          let mc1 = mc\<lparr>mc_flags := clear_flag (mc_flags mc) C_EOF\<rparr> in
          if has_flag (md_flags db) MDB_DUPSORT then Inl Bad_pointer
          else if has_flag (mc_flags mc1) C_DEL then next_item kd (t, mc1\<lparr>mc_flags := clear_flag (mc_flags mc1) C_DEL\<rparr>)
          else if NUMKEYS mp \<le> k + 1 then
            bindE (mdb_cursor_sibling True (t, mc1)) (\<lambda>(rc, t2, mc2).
            if rc \<noteq> 0 then Inr (rc, kd, t2, mc2\<lparr>mc_flags := set_flag (mc_flags mc2) C_EOF\<rparr>) else next_item kd (t2, mc2))
          else bindE (set_ki (k + 1) mc1) (\<lambda>mc2. next_item kd (t, mc2))))))"

definition mdb_cursor_prev :: "(cur \<Rightarrow> (int \<times> cur) res) \<Rightarrow> kd \<Rightarrow> cur \<Rightarrow> (int \<times> kd \<times> cur) res" where
  "mdb_cursor_prev touch kd c =
     bindE (if \<not> has_flag (mc_flags (snd c)) C_INITIALIZED then
              bindE (mdb_cursor_last touch kd c) (\<lambda>(rc, kd1, t1, mc1).
              if rc \<noteq> 0 then Inr (rc, kd1, t1, mc1)
              else bindE (top_ki mc1) (\<lambda>k. bindE (set_ki (k + 1) mc1) (\<lambda>mc2. Inr (0, kd1, t1, mc2))))
            else Inr (0, kd, c)) (\<lambda>(rc, kd1, t, mc).
     if rc \<noteq> 0 then Inr (rc, kd1, t, mc)
     else
       bindE (top_page mc) (\<lambda>mp. bindE (top_ki mc) (\<lambda>k. bindE (aget (mt_dbs t) (mc_dbi mc)) (\<lambda>db.
       if has_flag (md_flags db) MDB_DUPSORT \<and> k < NUMKEYS mp then Inl Bad_pointer
       else
         let mc1 = mc\<lparr>mc_flags := clear_flag (mc_flags mc) (C_EOF OR C_DEL)\<rparr> in
         bindE (if k = 0 then
                  bindE (mdb_cursor_sibling False (t, mc1)) (\<lambda>(rc, t2, mc2).
                  if rc \<noteq> 0 then Inr (rc, t2, mc2)
                  else bindE (top_page mc2) (\<lambda>mp2. bindE (set_ki (last_indx mp2) mc2) (\<lambda>mc3. Inr (0, t2, mc3))))
                else bindE (set_ki (k - 1) mc1) (\<lambda>mc2. Inr (0, t, mc2))) (\<lambda>(rc, t2, mc2).
         if rc \<noteq> 0 then Inr (rc, kd1, t2, mc2)
         else
           bindE (top_page mc2) (\<lambda>mp2. bindE (top_ki mc2) (\<lambda>i.
           if \<not> IS_LEAF mp2 then Inr (MDB_CORRUPTED, kd1, t2, mc2)
           else if IS_LEAF2 mp2 then read_leaf2 False mp2 i kd1 (t2, mc2)
           else read_item mp2 i kd1 (t2, mc2))))))))"

subsection \<open>Setting a cursor on a key\<close>

definition set_initialized :: "MDB_cursor \<Rightarrow> MDB_cursor" where
  "set_initialized mc = mc\<lparr>mc_flags := clear_flag (set_flag (mc_flags mc) C_INITIALIZED) C_EOF\<rparr>"

text \<open>From the label \<open>set1\<close> on: \<open>mp\<close> and \<open>i\<close> are the page and the index of \<open>leaf\<close>.\<close>

definition cursor_set1 :: "MDB_cursor_op \<Rightarrow> MDB_page \<Rightarrow> nat \<Rightarrow> kd \<Rightarrow> cur \<Rightarrow> (int \<times> kd \<times> cur) res" where
  "cursor_set1 op mp i kd c =
     (case c of (t, mc0) \<Rightarrow>
      let mc = set_initialized mc0; give = (op = MDB_SET_RANGE \<or> op = MDB_SET_KEY) in
      bindE (aget (mt_dbxs t) (mc_dbi mc)) (\<lambda>dbx.
      if IS_LEAF2 mp then
        (if give then bindE (top_ki mc) (\<lambda>k. read_leaf2 False mp k kd (t, mc)) else Inr (0, kd, t, mc))
      else
        bindE (node_hdr mp i) (\<lambda>(d, h).
        if F_ISSET (ucast (mn_flags h)) F_DUPDATA then Inl Bad_pointer
        else
          bindE (case snd kd of
                   None \<Rightarrow> Inr (0, t, None)
                 | Some dat \<Rightarrow>
                     if op = MDB_GET_BOTH \<or> op = MDB_GET_BOTH_RANGE then
                       bindE (mdb_node_read t mp i) (\<lambda>(rc, t', old).
                       if rc \<noteq> 0 then Inr (rc, t', Some dat)
                       else
                         bindE (run_cmp (case md_dcmp dbx of Cmp_int \<Rightarrow> if length old = 8 then Cmp_long else Cmp_int | g \<Rightarrow> g) dat old) (\<lambda>r.
                         if r \<noteq> 0 \<and> (op = MDB_GET_BOTH \<or> 0 < r) then Inr (MDB_NOTFOUND, t', Some dat) else Inr (0, t', Some old)))
                     else get_data t mp i (Some dat)) (\<lambda>(rc, t', data).
          if rc \<noteq> 0 then Inr (rc, kd, t', mc)
          else if give then bindE (get_key mp i (fst kd)) (\<lambda>key. Inr (0, (key, data), t', mc))
          else Inr (0, (fst kd, data), t', mc)))))"

text \<open>From the label \<open>set2\<close> on; \<open>exactp\<close> says whether the pointer of that name is not \<open>NULL\<close>.\<close>

definition cursor_set2 :: "MDB_cursor_op \<Rightarrow> bool \<Rightarrow> u8 list \<Rightarrow> MDB_page \<Rightarrow> kd \<Rightarrow> cur \<Rightarrow> (int \<times> kd \<times> cur) res" where
  "cursor_set2 op exactp key mp kd c =
     (case c of (t, mc) \<Rightarrow>
      bindE (aget (mt_dbxs t) (mc_dbi mc)) (\<lambda>dbx. bindE (aget (mt_dbs t) (mc_dbi mc)) (\<lambda>db.
      bindE (mdb_node_search (md_cmp dbx) (unat (md_pad db)) key mp) (\<lambda>(node, exact, i).
      bindE (set_ki i mc) (\<lambda>mc1.
      if exactp \<and> \<not> exact then Inr (MDB_NOTFOUND, kd, t, mc1)
      else
        (case node of
           Some j \<Rightarrow> cursor_set1 op mp j kd (t, mc1)
         | None \<Rightarrow>
             bindE (mdb_cursor_sibling True (t, mc1)) (\<lambda>(rc, t2, mc2).
             if rc \<noteq> 0 then Inr (rc, kd, t2, mc2\<lparr>mc_flags := set_flag (mc_flags mc2) C_EOF\<rparr>)
             else bindE (top_page mc2) (\<lambda>mp2. assertE (IS_LEAF mp2) (cursor_set1 op mp2 0 kd (t2, mc2))))))))))"

text \<open>The key of an entry, on either kind of leaf.\<close>

definition entry_key :: "nat \<Rightarrow> MDB_page \<Rightarrow> nat \<Rightarrow> u8 list res" where
  "entry_key pad mp i = (if has_flag (mp_flags mp) P_LEAF2 then mem_get (LEAF2KEY i pad) pad (mp_bytes mp) else node_key mp i)"

text \<open>\<open>for (i=0; i<mc->mc_top; i++)\<close>: whether no parent has a right sibling; \<open>n\<close> rounds are left.\<close>

fun no_right_sib :: "nat \<Rightarrow> nat \<Rightarrow> MDB_cursor \<Rightarrow> bool res" where
  "no_right_sib 0 i mc = Inr True"
| "no_right_sib (Suc n) i mc =
     bindE (aget (mc_ki mc) i) (\<lambda>k. bindE (get_page mc i) (\<lambda>p.
       if k < unat (of_nat (NUMKEYS p) - 1 :: u32) then Inr False else no_right_sib n (Suc i) mc))"

text \<open>The search on the page the cursor is on. \<open>Inr (Some r)\<close> is a return or a jump out of it with the
  result \<open>r\<close>; \<open>Inr None\<close> goes on to \<open>mdb_page_search\<close>.\<close>

definition set_on_page :: "MDB_cursor_op \<Rightarrow> bool \<Rightarrow> u8 list \<Rightarrow> kd \<Rightarrow> cur \<Rightarrow> (int \<times> kd \<times> cur) option res" where
  "set_on_page op exactp key kd c =
     (case c of (t, mc) \<Rightarrow>
      bindE (aget (mt_dbxs t) (mc_dbi mc)) (\<lambda>dbx. bindE (aget (mt_dbs t) (mc_dbi mc)) (\<lambda>db.
      bindE (top_page mc) (\<lambda>mp.
      let nkeys = NUMKEYS mp; cmp = run_cmp (md_cmp dbx) key; nkey = entry_key (unat (md_pad db)) mp;
          ret = (\<lambda>m. bindE m (\<lambda>r. Inr (Some r)));
          at = (\<lambda>i. bindE (set_ki i mc) (\<lambda>mc1. cursor_set1 op mp i kd (t, mc1)));
          alone = (\<lambda>mc'. if mc_top mc' = 0 then
                     bindE (set_ki 0 mc') (\<lambda>mc1.
                       if op = MDB_SET_RANGE \<and> \<not> exactp then ret (cursor_set1 op mp 0 kd (t, mc1)) else Inr (Some (MDB_NOTFOUND, kd, t, mc1)))
                   else Inr None)
      in
      if nkeys = 0 then ret (bindE (set_ki 0 mc) (\<lambda>mc1. Inr (MDB_NOTFOUND, kd, t, mc1)))
      else
        bindE (nkey 0) (\<lambda>k0. bindE (cmp k0) (\<lambda>rc.
        if rc = 0 then ret (at 0)
        else if rc < 0 then alone mc
        else
          bindE (if 1 < nkeys then bindE (nkey (nkeys - 1)) cmp else Inr 1) (\<lambda>rc2.
          if rc2 = 0 then ret (at (nkeys - 1))
          else if rc2 < 0 then
            bindE (top_ki mc) (\<lambda>k.
            bindE (if k < nkeys then bindE (nkey k) cmp else Inr 1) (\<lambda>rc3.
            if rc3 = 0 then ret (cursor_set1 op mp k kd c)
            else ret (cursor_set2 op exactp key mp kd (t, mc\<lparr>mc_flags := clear_flag (mc_flags mc) C_EOF\<rparr>))))
          else
            bindE (no_right_sib (mc_top mc) 0 mc) (\<lambda>none.
            if none then ret (bindE (set_ki nkeys mc) (\<lambda>mc1. Inr (MDB_NOTFOUND, kd, t, mc1))) else alone mc))))))))"

definition mdb_cursor_set :: "(cur \<Rightarrow> (int \<times> cur) res) \<Rightarrow> MDB_cursor_op \<Rightarrow> bool \<Rightarrow> u8 list \<Rightarrow> u8 list option \<Rightarrow> cur \<Rightarrow> (int \<times> kd \<times> cur) res" where
  "mdb_cursor_set touch op exactp key data c =
     (let kd = (Some key, data) in
      if length key = 0 then Inr (MDB_BAD_VALSIZE, kd, c)
      else
        bindE (if has_flag (mc_flags (snd c)) C_INITIALIZED then bindE (set_on_page op exactp key kd c) (\<lambda>r. Inr (r, c))
               else bindE (aset (mc_pg (snd c)) 0 None) (\<lambda>pg. Inr (None, fst c, (snd c)\<lparr>mc_pg := pg\<rparr>))) (\<lambda>(r, c1).
        case r of
          Some res \<Rightarrow> Inr res
        | None \<Rightarrow>
            searchE (mdb_page_search touch (Some key) 0 c1) kd (\<lambda>(t, mc).
            bindE (top_page mc) (\<lambda>mp. assertE (IS_LEAF mp) (cursor_set2 op exactp key mp kd (t, mc))))))"

definition TXN_DBI_EXIST :: "MDB_txn \<Rightarrow> nat \<Rightarrow> u8 \<Rightarrow> bool" where
  "TXN_DBI_EXIST t dbi validity \<longleftrightarrow> dbi < length (mt_dbs t) \<and> dbi < length (mt_dbflags t) \<and> has_flag (mt_dbflags t ! dbi) validity"

text \<open>\<open>mdb_get\<close>; \<open>None\<close> for the key is \<open>NULL\<close>.\<close>

definition mdb_get :: "(cur \<Rightarrow> (int \<times> cur) res) \<Rightarrow> MDB_txn \<Rightarrow> nat \<Rightarrow> u8 list option \<Rightarrow> u8 list option \<Rightarrow> (int \<times> u8 list option \<times> MDB_txn) res" where
  "mdb_get touch t dbi key data =
     (case key of
        None \<Rightarrow> Inr (EINVAL, data, t)
      | Some k \<Rightarrow>
          if data = None \<or> \<not> TXN_DBI_EXIST t dbi DB_USRVALID then Inr (EINVAL, data, t)
          else if has_flag (mt_flags t) MDB_TXN_BLOCKED then Inr (MDB_BAD_TXN, data, t)
          else
            bindE (mdb_cursor_init touch t dbi) (\<lambda>c.
            bindE (mdb_cursor_set touch MDB_SET True k data c) (\<lambda>(rc, (_, dat), t', _). Inr (rc, dat, t'))))"

subsection \<open>The interface of cursors\<close>

definition get_current :: "kd \<Rightarrow> cur \<Rightarrow> (int \<times> kd \<times> cur) res" where
  "get_current kd c =
     (case c of (t, mc) \<Rightarrow>
      if \<not> has_flag (mc_flags mc) C_INITIALIZED then Inr (EINVAL, kd, c)
      else
        bindE (top_page mc) (\<lambda>mp. bindE (top_ki mc) (\<lambda>k.
        if NUMKEYS mp \<le> k then bindE (set_ki (NUMKEYS mp) mc) (\<lambda>mc1. Inr (MDB_NOTFOUND, kd, t, mc1))
        else if IS_LEAF2 mp then read_leaf2 False mp k kd c
        else
          bindE (get_key mp k (fst kd)) (\<lambda>key. bindE (node_hdr mp k) (\<lambda>(d, h).
          if snd kd \<noteq> None \<and> F_ISSET (ucast (mn_flags h)) F_DUPDATA then Inl Bad_pointer
          else bindE (get_data t mp k (snd kd)) (\<lambda>(rc, t', data). Inr (rc, (key, data), t', mc)))))))"

text \<open>The operations on more than one item need \<open>MDB_DUPFIXED\<close>.\<close>

definition multiple :: "bool \<Rightarrow> kd \<Rightarrow> cur \<Rightarrow> (int \<times> kd \<times> cur) res" where
  "multiple ok kd c =
     (if \<not> ok then Inr (EINVAL, kd, c)
      else
        bindE (aget (mt_dbs (fst c)) (mc_dbi (snd c))) (\<lambda>db.
        if \<not> has_flag (md_flags db) MDB_DUPFIXED then Inr (MDB_INCOMPATIBLE, kd, c) else Inl Bad_pointer))"

definition mdb_cursor_get :: "(cur \<Rightarrow> (int \<times> cur) res) \<Rightarrow> MDB_cursor_op \<Rightarrow> kd \<Rightarrow> cur \<Rightarrow> (int \<times> kd \<times> cur) res" where
  "mdb_cursor_get touch op kd c =
     (let data_given = (snd kd \<noteq> None); inited = has_flag (mc_flags (snd c)) C_INITIALIZED in
      if has_flag (mt_flags (fst c)) MDB_TXN_BLOCKED then Inr (MDB_BAD_TXN, kd, c)
      else
        bindE
          (case op of
             MDB_GET_CURRENT \<Rightarrow> get_current kd c
           | MDB_GET_BOTH \<Rightarrow> Inr (if data_given then MDB_INCOMPATIBLE else EINVAL, kd, c)
           | MDB_GET_BOTH_RANGE \<Rightarrow> Inr (if data_given then MDB_INCOMPATIBLE else EINVAL, kd, c)
           | MDB_SET \<Rightarrow> (case fst kd of None \<Rightarrow> Inr (EINVAL, kd, c) | Some k \<Rightarrow> mdb_cursor_set touch op True k (snd kd) c)
           | MDB_SET_KEY \<Rightarrow> (case fst kd of None \<Rightarrow> Inr (EINVAL, kd, c) | Some k \<Rightarrow> mdb_cursor_set touch op True k (snd kd) c)
           | MDB_SET_RANGE \<Rightarrow> (case fst kd of None \<Rightarrow> Inr (EINVAL, kd, c) | Some k \<Rightarrow> mdb_cursor_set touch op False k (snd kd) c)
           | MDB_GET_MULTIPLE \<Rightarrow> multiple (data_given \<and> inited) kd c
           | MDB_NEXT_MULTIPLE \<Rightarrow> multiple data_given kd c
           | MDB_PREV_MULTIPLE \<Rightarrow> multiple data_given kd c
           | MDB_NEXT \<Rightarrow> mdb_cursor_next touch op kd c
           | MDB_NEXT_DUP \<Rightarrow> mdb_cursor_next touch op kd c
           | MDB_NEXT_NODUP \<Rightarrow> mdb_cursor_next touch op kd c
           | MDB_PREV \<Rightarrow> mdb_cursor_prev touch kd c
           | MDB_PREV_DUP \<Rightarrow> mdb_cursor_prev touch kd c
           | MDB_PREV_NODUP \<Rightarrow> mdb_cursor_prev touch kd c
           | MDB_FIRST \<Rightarrow> mdb_cursor_first touch kd c
           | MDB_LAST \<Rightarrow> mdb_cursor_last touch kd c
           | MDB_FIRST_DUP \<Rightarrow> Inr (if data_given \<and> inited then MDB_INCOMPATIBLE else EINVAL, kd, c)
           | MDB_LAST_DUP \<Rightarrow> Inr (if data_given \<and> inited then MDB_INCOMPATIBLE else EINVAL, kd, c))
          (\<lambda>(rc, kd', t, mc). Inr (rc, kd', t, mc\<lparr>mc_flags := clear_flag (mc_flags mc) C_DEL\<rparr>)))"

end
