(* ===== verification/Midl_Sort.thy ===== *)
theory Midl_Sort
  imports Midl
begin

text \<open>
  \<open>mdb_midl_sort\<close> sorts: the insertion sort of short segments, the partition of long ones, the order
  between segments that are still on the stack, the depth of the stack and the number of rounds.
\<close>

subsection \<open>Permuting a segment\<close>

text \<open>\<open>ys\<close> is a permutation of \<open>xs\<close> that moves cells between \<open>l\<close> and \<open>r\<close> only.\<close>

definition same_but :: "nat \<Rightarrow> nat \<Rightarrow> 'a list \<Rightarrow> 'a list \<Rightarrow> bool" where
  "same_but l r xs ys \<longleftrightarrow> mset ys = mset xs \<and> (\<forall>k. k < l \<or> r < k \<longrightarrow> ys ! k = xs ! k)"

lemma same_but_length: "same_but l r xs ys \<Longrightarrow> length ys = length xs"
  by (metis same_but_def size_mset)

lemma same_but_refl [simp]: "same_but l r xs xs"
  by (simp add: same_but_def)

lemma same_but_trans: "same_but l r xs ys \<Longrightarrow> same_but l r ys zs \<Longrightarrow> same_but l r xs zs"
  by (auto simp: same_but_def)

lemma same_but_mono: "same_but l r xs ys \<Longrightarrow> l' \<le> l \<Longrightarrow> r \<le> r' \<Longrightarrow> same_but l' r' xs ys"
  by (auto simp: same_but_def)

lemma same_but_nth: "same_but l r xs ys \<Longrightarrow> k < l \<or> r < k \<Longrightarrow> ys ! k = xs ! k"
  by (auto simp: same_but_def)

lemma same_but_swap:
  assumes "l \<le> i" "i \<le> r" "l \<le> j" "j \<le> r" "i < length xs" "j < length xs"
  shows "same_but l r xs (xs[i := xs ! j, j := xs ! i])"
  using assms by (auto simp: same_but_def mset_swap)

text \<open>The cells of the segment are the same ones, in another order.\<close>

lemma same_but_from:
  assumes "same_but l r xs ys" and "l \<le> k" "k \<le> r" "r < length xs"
  shows "\<exists>m. l \<le> m \<and> m \<le> r \<and> ys ! k = xs ! m"
proof -
  have len: "length ys = length xs" using assms(1) by (rule same_but_length)
  let ?seg = "\<lambda>zs. take (Suc r - l) (drop l zs)"
  have split: "mset zs = mset (take l zs) + mset (?seg zs) + mset (drop (Suc r) zs)"
    if "length zs = length xs" for zs :: "'a list"
  proof -
    have "drop l zs = ?seg zs @ drop (Suc r) zs"
      using that assms by (metis append_take_drop_id drop_drop le_SucI le_add_diff_inverse2 order_trans add.commute)
    then have "zs = take l zs @ ?seg zs @ drop (Suc r) zs" by (metis append_take_drop_id)
    then show ?thesis by (metis mset_append add.assoc)
  qed
  have t: "take l ys = take l xs" using assms(1) len by (auto intro: nth_equalityI simp: same_but_def)
  have d: "drop (Suc r) ys = drop (Suc r) xs"
    using assms(1) len by (auto intro: nth_equalityI simp: same_but_def)
  have "mset (?seg ys) = mset (?seg xs)"
    using split [of xs] split [of ys] len t d assms(1) by (simp add: same_but_def)
  then have "set (?seg ys) = set (?seg xs)" by (rule mset_eq_setD)
  moreover have "ys ! k \<in> set (?seg ys)"
    using assms len by (auto simp: in_set_conv_nth intro!: exI [of _ "k - l"])
  ultimately obtain m where "m < Suc r - l" "ys ! k = xs ! (l + m)"
    using assms by (auto simp: in_set_conv_nth)
  then show ?thesis by (intro exI [of _ "l + m"]) auto
qed

definition desc_on :: "nat \<Rightarrow> nat \<Rightarrow> 'a::linorder list \<Rightarrow> bool" where
  "desc_on l r xs \<longleftrightarrow> (\<forall>p q. l \<le> p \<and> p < q \<and> q \<le> r \<longrightarrow> xs ! q \<le> xs ! p)"

subsection \<open>Insertion sort\<close>

lemma insert_down_ok:
  assumes "Suc i < length ids" and "1 \<le> l" and "l \<le> Suc i" and "l = 1 \<or> a \<le> ids ! (l - 1)"
    and "desc_on l i ids"
  shows "\<exists>ids'. insert_down a i ids = Inr ids' \<and> mset ids' = mset (ids[Suc i := a]) \<and>
    (\<forall>k. k < l \<or> Suc i < k \<longrightarrow> ids' ! k = ids ! k) \<and>
    (\<forall>k. l \<le> k \<and> k \<le> Suc i \<longrightarrow> ids' ! k = a \<or> (\<exists>m. l \<le> m \<and> m \<le> i \<and> ids' ! k = ids ! m)) \<and>
    desc_on l (Suc i) ids'"
  using assms
proof (induction i arbitrary: ids)
  case 0
  then show ?case by (auto simp: desc_on_def le_Suc_eq)
next
  case (Suc i)
  let ?x = "ids ! Suc i"
  show ?case
  proof (cases "a \<le> ?x")
    case True
    have "desc_on l (Suc (Suc i)) (ids[Suc (Suc i) := a])"
      unfolding desc_on_def
    proof (intro allI impI)
      fix p q assume pq: "l \<le> p \<and> p < q \<and> q \<le> Suc (Suc i)"
      have le: "?x \<le> ids ! p" if "l \<le> p" "p \<le> Suc i" for p
        using that Suc.prems(5) by (cases "p = Suc i") (auto simp: desc_on_def)
      show "ids[Suc (Suc i) := a] ! q \<le> ids[Suc (Suc i) := a] ! p"
      proof (cases "q = Suc (Suc i)")
        case True2: True
        then show ?thesis using pq le [of p] True Suc.prems(1) by auto
      next
        case False
        then show ?thesis using pq Suc.prems(1,5) by (auto simp: desc_on_def)
      qed
    qed
    then show ?thesis using True Suc.prems by (auto simp: nth_list_update split: if_splits)
  next
    case False
    then have l: "l \<le> Suc i" using Suc.prems(3,4) by (cases "l = Suc (Suc i)") auto
    let ?ids1 = "ids[Suc (Suc i) := ?x]"
    have d1: "desc_on l i ?ids1" using Suc.prems(5) by (auto simp: desc_on_def)
    have a1: "l = 1 \<or> a \<le> ?ids1 ! (l - 1)" using Suc.prems(4) l by auto
    have b1: "Suc i < length ?ids1" using Suc.prems(1) by simp
    obtain ids' where i': "insert_down a i ?ids1 = Inr ids'" "mset ids' = mset (?ids1[Suc i := a])"
      "\<And>k. k < l \<or> Suc i < k \<Longrightarrow> ids' ! k = ?ids1 ! k"
      "\<And>k. l \<le> k \<Longrightarrow> k \<le> Suc i \<Longrightarrow> ids' ! k = a \<or> (\<exists>m. l \<le> m \<and> m \<le> i \<and> ids' ! k = ?ids1 ! m)"
      "desc_on l (Suc i) ids'"
      using Suc.IH [OF b1 Suc.prems(2) l a1 d1] by blast
    have "mset (?ids1[Suc i := a]) = mset (ids[Suc (Suc i) := a])"
    proof -
      let ?z = "ids[Suc (Suc i) := a]"
      have "?ids1[Suc i := a] = ?z[Suc (Suc i) := ?z ! Suc i, Suc i := ?z ! Suc (Suc i)]"
        using Suc.prems(1) by simp
      then show ?thesis using Suc.prems(1) mset_swap [of "Suc i" ?z "Suc (Suc i)"] by simp
    qed
    moreover have x: "ids' ! Suc (Suc i) = ?x" using i'(3) Suc.prems(1) by simp
    have ge: "?x \<le> ids' ! p" if "l \<le> p" "p \<le> Suc i" for p
    proof -
      from i'(4) [OF that] show ?thesis
      proof
        assume "ids' ! p = a"
        then show ?thesis using False by simp
      next
        assume "\<exists>m. l \<le> m \<and> m \<le> i \<and> ids' ! p = ?ids1 ! m"
        then show ?thesis using Suc.prems(5) by (auto simp: desc_on_def)
      qed
    qed
    have "desc_on l (Suc (Suc i)) ids'"
      unfolding desc_on_def
    proof (intro allI impI)
      fix p q assume pq: "l \<le> p \<and> p < q \<and> q \<le> Suc (Suc i)"
      show "ids' ! q \<le> ids' ! p"
      proof (cases "q = Suc (Suc i)")
        case True
        then show ?thesis using pq x ge [of p] by simp
      next
        case False
        then show ?thesis using pq i'(5) by (auto simp: desc_on_def)
      qed
    qed
    moreover have "ids' ! k = a \<or> (\<exists>m. l \<le> m \<and> m \<le> Suc i \<and> ids' ! k = ids ! m)"
      if k: "l \<le> k" "k \<le> Suc (Suc i)" for k
    proof (cases "k = Suc (Suc i)")
      case True
      then show ?thesis using x l by auto
    next
      case False
      then consider "ids' ! k = a" | m where "l \<le> m" "m \<le> i" "ids' ! k = ?ids1 ! m"
        using i'(4) [of k] k by auto
      then show ?thesis
      proof cases
        case (2 m)
        then show ?thesis by (intro disjI2 exI [of _ m]) auto
      qed simp
    qed
    moreover have "ids' ! k = ids ! k" if "k < l \<or> Suc (Suc i) < k" for k
      using i'(3) [of k] that l by auto
    ultimately show ?thesis using i'(1,2) False Suc.prems(1) by auto
  qed
qed

text \<open>The cells before the segment stop the inner loop.\<close>

lemma insertion_sort_ok:
  assumes "1 \<le> l" and "l < j" and "j + n \<le> length ids"
    and "l = 1 \<or> (\<forall>k. l \<le> k \<and> k < j + n \<longrightarrow> ids ! k \<le> ids ! (l - 1))" and "desc_on l (j - 1) ids"
  shows "\<exists>ids'. insertion_sort j n ids = Inr ids' \<and> same_but l (j + n - 1) ids ids' \<and> desc_on l (j + n - 1) ids'"
  using assms(2-5)
proof (induction n arbitrary: j ids)
  case 0
  then show ?case by simp
next
  case (Suc n)
  let ?a = "ids ! j"
  have j: "Suc (j - 1) = j" using Suc.prems(1) by simp
  have "l = 1 \<or> ?a \<le> ids ! (l - 1)" using Suc.prems(1,3) by auto
  from insert_down_ok [of "j - 1" ids l ?a] this Suc.prems(1,2,4) assms(1) obtain ids1 where
    i: "insert_down ?a (j - 1) ids = Inr ids1" "mset ids1 = mset ids"
      "\<And>k. k < l \<or> j < k \<Longrightarrow> ids1 ! k = ids ! k" "desc_on l j ids1"
    by (auto simp: j)
  have s1: "same_but l j ids ids1" using i(2,3) by (auto simp: same_but_def)
  have len: "length ids1 = length ids" by (rule same_but_length [OF s1])
  have "l = 1 \<or> (\<forall>k. l \<le> k \<and> k < Suc j + n \<longrightarrow> ids1 ! k \<le> ids1 ! (l - 1))"
  proof (cases "l = 1")
    case False
    then have "ids1 ! (l - 1) = ids ! (l - 1)" using assms(1) i(3) by simp
    moreover have "ids1 ! k \<le> ids ! (l - 1)" if k: "l \<le> k" "k < Suc j + n" for k
    proof -
      have "j + n < length ids" using Suc.prems(2) by simp
      from same_but_from [OF same_but_mono [OF s1, of l "j + n"] _ _ this, of k] k
      obtain m where "l \<le> m" "m \<le> j + n" "ids1 ! k = ids ! m" by auto
      then show ?thesis using Suc.prems(3) False by auto
    qed
    ultimately show ?thesis by simp
  qed simp
  from Suc.IH [of "Suc j" ids1, OF _ _ this] i(4) Suc.prems(1,2) len obtain ids' where
    "insertion_sort (Suc j) n ids1 = Inr ids'" "same_but l (j + n) ids1 ids'" "desc_on l (j + n) ids'" by auto
  moreover from this(2) have "same_but l (j + n) ids ids'"
    using same_but_trans [OF same_but_mono [OF s1, of l "j + n"]] by simp
  ultimately show ?case using i(1) Suc.prems(2) by simp
qed

subsection \<open>Partition\<close>

lemma scan_up_ok:
  assumes "i < k" and "k < length ids" and "ids ! k \<le> a"
  shows "\<exists>i'. scan_up ids a i = Inr i' \<and> i < i' \<and> i' \<le> k \<and> ids ! i' \<le> a \<and> (\<forall>m. i < m \<and> m < i' \<longrightarrow> a < ids ! m)"
  using assms(1)
proof (induction "k - i" arbitrary: i)
  case 0
  then show ?case by simp
next
  case (Suc d)
  show ?case
  proof (cases "a < ids ! Suc i")
    case True
    then have "Suc i < k" using Suc.prems assms(3) by (metis Suc_lessI leD)
    have d: "d = k - Suc i" using Suc.hyps(2) by simp
    obtain i' where "scan_up ids a (Suc i) = Inr i'" "Suc i < i'" "i' \<le> k" "ids ! i' \<le> a"
      "\<forall>m. Suc i < m \<and> m < i' \<longrightarrow> a < ids ! m"
      using Suc.hyps(1) [OF d \<open>Suc i < k\<close>] by blast
    moreover have "scan_up ids a i = scan_up ids a (Suc i)"
      using True Suc.prems assms(2) by (subst scan_up.simps) simp
    moreover have "a < ids ! m" if "i < m" "m < i'" for m
      using that True calculation by (cases "m = Suc i") auto
    ultimately show ?thesis by auto
  next
    case False
    then show ?thesis using Suc.prems assms(2) by (subst scan_up.simps) auto
  qed
qed

lemma scan_down_ok:
  assumes "k < j" and "j \<le> length ids" and "a \<le> ids ! k"
  shows "\<exists>j'. scan_down ids a j = Inr j' \<and> k \<le> j' \<and> j' < j \<and> a \<le> ids ! j' \<and> (\<forall>m. j' < m \<and> m < j \<longrightarrow> ids ! m < a)"
  using assms(1,2)
proof (induction j)
  case 0
  then show ?case by simp
next
  case (Suc j)
  show ?case
  proof (cases "ids ! j < a")
    case True
    then have "k < j" using Suc.prems(1) assms(3) by (metis leD less_antisym)
    then obtain j' where "scan_down ids a j = Inr j'" "k \<le> j'" "j' < j" "a \<le> ids ! j'"
      "\<forall>m. j' < m \<and> m < j \<longrightarrow> ids ! m < a"
      using Suc by auto
    then show ?thesis using True Suc.prems by (auto simp: less_Suc_eq)
  next
    case False
    then show ?thesis using Suc.prems by auto
  qed
qed

lemma MIDL_SWAP_ok:
  "i < length ids \<Longrightarrow> j < length ids \<Longrightarrow> MIDL_SWAP ids i j = Inr (ids[i := ids ! j, j := ids ! i])"
  by (simp add: MIDL_SWAP_def)

lemma partition_loop_ok:
  assumes "l + 1 \<le> i" "i \<le> j" "j \<le> ir" "i < ir" "l + 1 < j" "ir < length ids" "ids ! (l + 1) = a"
    and "\<forall>k. l \<le> k \<and> k \<le> i \<longrightarrow> a \<le> ids ! k" and "\<forall>k. j \<le> k \<and> k \<le> ir \<longrightarrow> ids ! k \<le> a"
    and "i = j \<longrightarrow> j < ir"
  shows "\<exists>ids' i' j'. partition_loop a i j ids = Inr (ids', i', j') \<and> same_but (l + 2) ir ids ids' \<and>
    l + 1 \<le> j' \<and> j' < i' \<and> l + 2 \<le> i' \<and> i' \<le> ir \<and> j' < j \<and>
    (\<forall>k. l \<le> k \<and> k < i' \<longrightarrow> a \<le> ids' ! k) \<and> (\<forall>k. j' < k \<and> k \<le> ir \<longrightarrow> ids' ! k \<le> a) \<and> a \<le> ids' ! j'"
  using assms
proof (induction j arbitrary: i ids rule: less_induct)
  case (less j)
  have "\<exists>k. i < k \<and> k \<le> ir \<and> ids ! k \<le> a"
  proof (cases "i = j")
    case True
    then show ?thesis using less.prems by (intro exI [of _ "Suc j"]) auto
  next
    case False
    then show ?thesis using less.prems by (intro exI [of _ j]) auto
  qed
  then obtain i' where u: "scan_up ids a i = Inr i'" "i < i'" "i' \<le> ir" "ids ! i' \<le> a"
      "\<And>m. i < m \<Longrightarrow> m < i' \<Longrightarrow> a < ids ! m"
    using scan_up_ok [of i _ ids a] less.prems(6) by (meson le_less_trans le_trans)
  obtain j' where d: "scan_down ids a j = Inr j'" "l + 1 \<le> j'" "j' < j" "a \<le> ids ! j'"
      "\<And>m. j' < m \<Longrightarrow> m < j \<Longrightarrow> ids ! m < a"
    using scan_down_ok [of "l + 1" j ids a] less.prems by auto
  have lo: "a \<le> ids ! k" if "l \<le> k" "k < i'" for k
    using that less.prems(8) u(5) by (cases "k \<le> i") (auto simp: less_imp_le)
  have hi: "ids ! k \<le> a" if "j' < k" "k \<le> ir" for k
    using that less.prems(9) d(5) by (cases "j \<le> k") (auto simp: less_imp_le)
  show ?case
  proof (cases "j' < i'")
    case True
    then have "partition_loop a i j ids = Inr (ids, i', j')"
      by (subst partition_loop.simps) (simp add: u(1) d(1))
    moreover have "l + 2 \<le> i'" using u(2) less.prems(1) by simp
    ultimately show ?thesis using True lo hi d u by auto
  next
    case False
    let ?ids = "ids[i' := ids ! j', j' := ids ! i']"
    have i2: "l + 2 \<le> i'" using u(2) less.prems(1) by simp
    have b: "i' < length ids" "j' < length ids" using u(3) d(3) less.prems(3,6) by auto
    have e: "partition_loop a i j ids = partition_loop a i' j' ?ids"
      using False by (subst partition_loop.simps) (simp add: u(1) d(1) MIDL_SWAP_ok [OF b])
    have s: "same_but (l + 2) ir ids ?ids"
      using i2 False d(3) less.prems(3) u(3) b by (intro same_but_swap) auto
    have "a \<le> ?ids ! k" if "l \<le> k" "k \<le> i'" for k
      using that lo [of k] d(4) u(4) False b by (cases "k = i'") (auto simp: nth_list_update)
    moreover have "?ids ! k \<le> a" if "j' \<le> k" "k \<le> ir" for k
      using that hi [of k] u(4) False b by (cases "k = j'") (auto simp: nth_list_update)
    moreover have "?ids ! (l + 1) = a" using i2 False less.prems(7) by simp
    ultimately obtain ids' i'' j'' where r: "partition_loop a i' j' ?ids = Inr (ids', i'', j'')"
       "same_but (l + 2) ir ?ids ids'" "l + 1 \<le> j''" "j'' < i''" "l + 2 \<le> i''" "i'' \<le> ir" "j'' < j'"
       "\<forall>k. l \<le> k \<and> k < i'' \<longrightarrow> a \<le> ids' ! k" "\<forall>k. j'' < k \<and> k \<le> ir \<longrightarrow> ids' ! k \<le> a" "a \<le> ids' ! j''"
      using less.IH [OF d(3), of i' ?ids] i2 False d(3) less.prems(3,6) by auto
    have "same_but (l + 2) ir ids ids'" by (rule same_but_trans [OF s r(2)])
    then show ?thesis using r d(3) unfolding e by (intro exI [of _ ids'] exI [of _ i''] exI [of _ j'']) auto
  qed
qed

lemma swap_if_ok:
  assumes "i < length ids" "j < length ids" "l \<le> i" "i \<le> r" "l \<le> j" "j \<le> r" "i \<noteq> j"
  shows "\<exists>ids'. swap_if ids i j = Inr ids' \<and> same_but l r ids ids' \<and> ids' ! j \<le> ids' ! i \<and>
    ids' ! i = max (ids ! i) (ids ! j) \<and> ids' ! j = min (ids ! i) (ids ! j) \<and> (\<forall>k. k \<noteq> i \<and> k \<noteq> j \<longrightarrow> ids' ! k = ids ! k)"
proof (cases "ids ! i < ids ! j")
  case True
  then show ?thesis using assms same_but_swap [of l i r j ids]
    by (auto simp: swap_if_def MIDL_SWAP_ok nth_list_update)
next
  case False
  then show ?thesis using assms by (auto simp: swap_if_def)
qed

lemma partition_segment_ok:
  assumes "l + SMALL \<le> ir" and "ir < length ids" and "l + ir \<le> INT_MAX"
  shows "\<exists>ids' i j a. partition_segment l ir ids = Inr (ids', i, j) \<and> same_but l ir ids ids' \<and>
    l + 1 \<le> j \<and> j < i \<and> i \<le> ir \<and>
    (\<forall>k. l \<le> k \<and> k < i \<longrightarrow> a \<le> ids' ! k) \<and> (\<forall>k. j \<le> k \<and> k \<le> ir \<longrightarrow> ids' ! k \<le> a)"
proof -
  let ?k = "(l + ir) div 2"
  have l: "l + 8 \<le> ir" using assms(1) by (simp add: SMALL_def)
  have kb: "l \<le> ?k" "?k \<le> ir" using l by auto
  define ids1 where "ids1 = ids[?k := ids ! (l + 1), l + 1 := ids ! ?k]"
  have sw: "MIDL_SWAP ids ?k (l + 1) = Inr ids1"
    using l kb assms(2) by (simp add: MIDL_SWAP_ok ids1_def)
  have s1: "same_but l ir ids ids1"
    unfolding ids1_def using l kb assms(2) by (intro same_but_swap) auto
  have len1: "length ids1 = length ids" by (simp add: ids1_def)
  from swap_if_ok [of l ids1 ir l ir] l assms(2) len1 obtain ids2 where
    i2: "swap_if ids1 l ir = Inr ids2" "same_but l ir ids1 ids2" "ids2 ! ir \<le> ids2 ! l" by auto
  have len2: "length ids2 = length ids" using same_but_length [OF i2(2)] len1 by simp
  from swap_if_ok [of "l + 1" ids2 ir l ir] l assms(2) len2 obtain ids3 where
    i3: "swap_if ids2 (l + 1) ir = Inr ids3" "same_but l ir ids2 ids3" "ids3 ! ir \<le> ids3 ! (l + 1)"
      "ids3 ! l = ids2 ! l" "ids3 ! ir \<le> ids2 ! ir" by auto
  have len3: "length ids3 = length ids" using same_but_length [OF i3(2)] len2 by simp
  from swap_if_ok [of l ids3 "l + 1" l ir] l assms(2) len3 obtain ids4 where
    i4: "swap_if ids3 l (l + 1) = Inr ids4" "same_but l ir ids3 ids4" "ids4 ! (l + 1) \<le> ids4 ! l"
      "ids4 ! ir = ids3 ! ir" "ids4 ! (l + 1) = min (ids3 ! l) (ids3 ! (l + 1))" by auto
  have len4: "length ids4 = length ids" using same_but_length [OF i4(2)] len3 by simp
  let ?a = "ids4 ! (l + 1)"
  have "ids3 ! ir \<le> ids3 ! l" using order_trans [OF i3(5) i2(3)] i3(4) by simp
  then have "ids4 ! ir \<le> ?a" using i3(3) i4(4,5) by simp
  then have r: "\<forall>k. ir \<le> k \<and> k \<le> ir \<longrightarrow> ids4 ! k \<le> ?a" by (auto dest: le_antisym)
  have lft: "\<forall>k. l \<le> k \<and> k \<le> l + 1 \<longrightarrow> ?a \<le> ids4 ! k"
    using i4(3) by (auto simp: le_Suc_eq dest: le_antisym)
  from partition_loop_ok [of l "l + 1" ir ir ids4 ?a, OF _ _ _ _ _ _ _ lft r] l assms(2) len4
  obtain ids5 i j where p: "partition_loop ?a (l + 1) ir ids4 = Inr (ids5, i, j)"
      "same_but (l + 2) ir ids4 ids5" "l + 1 \<le> j" "j < i" "l + 2 \<le> i" "i \<le> ir" "j < ir"
      "\<forall>k. l \<le> k \<and> k < i \<longrightarrow> ?a \<le> ids5 ! k" "\<forall>k. j < k \<and> k \<le> ir \<longrightarrow> ids5 ! k \<le> ?a" "?a \<le> ids5 ! j"
    by auto
  have len5: "length ids5 = length ids" using same_but_length [OF p(2)] len4 by simp
  have a5: "ids5 ! (l + 1) = ?a" by (rule same_but_nth [OF p(2)]) simp
  define ids7 where "ids7 = ids5[l + 1 := ids5 ! j, j := ids5 ! (l + 1)]"
  have b: "l + 1 < length ids5" "j < length ids5" using len5 l p(7) assms(2) by auto
  have e: "partition_segment l ir ids = Inr (ids7, i, j)"
    using assms(3) b len4 l assms(2) a5 sw i2(1) i3(1) i4(1) p(1)
    by (simp add: partition_segment_def ids7_def)
  have "same_but l ir ids5 ids7"
    unfolding ids7_def using b l p(3,7) by (intro same_but_swap) auto
  moreover have "same_but l ir ids4 ids5" by (rule same_but_mono [OF p(2)]) auto
  ultimately have "same_but l ir ids ids7"
    using s1 i2(2) i3(2) i4(2) same_but_trans by blast
  moreover have "?a \<le> ids7 ! k" if "l \<le> k" "k < i" for k
    using that p(8) p(10) a5 b by (auto simp: ids7_def nth_list_update)
  moreover have "ids7 ! k \<le> ?a" if "j \<le> k" "k \<le> ir" for k
    using that p(3,9) a5 b by (auto simp: ids7_def nth_list_update)
  ultimately show ?thesis using e p(3,4,6) by blast
qed

subsection \<open>The outer loop\<close>

type_synonym seg = "nat \<times> nat"

definition disj :: "seg \<Rightarrow> seg \<Rightarrow> bool" where
  "disj s t \<longleftrightarrow> snd s < fst t \<or> snd t < fst s"

definition seg_size :: "seg \<Rightarrow> nat" where
  "seg_size s = Suc (snd s) - fst s"

text \<open>Two cells are in order unless a segment that is still to be sorted holds both.\<close>

definition ordered :: "nat \<Rightarrow> seg set \<Rightarrow> MDB_ID list \<Rightarrow> bool" where
  "ordered n S ids \<longleftrightarrow> (\<forall>p q. 1 \<le> p \<and> p < q \<and> q \<le> n \<and> (\<forall>s\<in>S. \<not> (fst s \<le> p \<and> q \<le> snd s)) \<longrightarrow>
     ids ! q \<le> ids ! p)"

definition sort_inv :: "nat \<Rightarrow> seg list \<Rightarrow> seg \<Rightarrow> MDB_ID list \<Rightarrow> bool" where
  "sort_inv n segs s ids \<longleftrightarrow> n < length ids \<and> 1 \<le> fst s \<and> snd s \<le> n \<and>
     (\<forall>t\<in>set segs. 1 \<le> fst t \<and> snd t \<le> n \<and> disj t s) \<and> sorted_wrt disj segs \<and>
     ordered n (insert s (set segs)) ids"

text \<open>Permuting the current segment keeps the order with the cells around it.\<close>

lemma ordered_same_but:
  assumes "sort_inv n segs (l, r) ids" and "same_but l r ids ids'" and "l \<le> r"
    and "1 \<le> p" "p < q" "q \<le> n" and "\<not> (l \<le> p \<and> q \<le> r)"
    and "\<forall>t\<in>set segs. \<not> (fst t \<le> p \<and> q \<le> snd t)"
  shows "ids' ! q \<le> ids' ! p"
proof -
  have n: "r < length ids" "r \<le> n" "1 \<le> l" using assms(1) by (auto simp: sort_inv_def)
  have o: "\<And>p q. 1 \<le> p \<Longrightarrow> p < q \<Longrightarrow> q \<le> n \<Longrightarrow> \<not> (l \<le> p \<and> q \<le> r) \<Longrightarrow>
      \<forall>t\<in>set segs. \<not> (fst t \<le> p \<and> q \<le> snd t) \<Longrightarrow> ids ! q \<le> ids ! p"
    using assms(1) by (auto simp: sort_inv_def ordered_def)
  have d: "\<And>t. t \<in> set segs \<Longrightarrow> snd t < l \<or> r < fst t"
    using assms(1) by (auto simp: sort_inv_def disj_def)
  show ?thesis
  proof (cases "l \<le> q \<and> q \<le> r")
    case True
    then have p: "p < l" using assms(5,7) by auto
    from same_but_from [OF assms(2) _ _ n(1), of q] True obtain m where
      m: "l \<le> m" "m \<le> r" "ids' ! q = ids ! m" by auto
    have "\<forall>t\<in>set segs. \<not> (fst t \<le> p \<and> m \<le> snd t)" using d m p by force
    then have "ids ! m \<le> ids ! p" using m p assms(4) n by (intro o) auto
    then show ?thesis using m p same_but_nth [OF assms(2), of p] by simp
  next
    case False
    then have q: "ids' ! q = ids ! q" using same_but_nth [OF assms(2), of q] by auto
    show ?thesis
    proof (cases "l \<le> p \<and> p \<le> r")
      case True
      from same_but_from [OF assms(2) _ _ n(1), of p] True obtain m where
        m: "l \<le> m" "m \<le> r" "ids' ! p = ids ! m" by auto
      have "r < q" using False True assms(5) by auto
      moreover have "\<forall>t\<in>set segs. \<not> (fst t \<le> m \<and> q \<le> snd t)" using d m \<open>r < q\<close> by force
      ultimately have "ids ! q \<le> ids ! m" using m n assms(6) by (intro o) auto
      then show ?thesis using m q by simp
    next
      case out: False
      then have "ids' ! p = ids ! p" using same_but_nth [OF assms(2), of p] by auto
      then show ?thesis using q o [OF assms(4-8)] by simp
    qed
  qed
qed

lemma ordered_sorted:
  assumes "sort_inv n segs (l, r) ids" and "same_but l r ids ids'" and "desc_on l r ids'"
  shows "ordered n (set segs) ids'"
  unfolding ordered_def
proof (intro allI impI, elim conjE)
  fix p q assume pq: "1 \<le> p" "p < q" "q \<le> n" "\<forall>s\<in>set segs. \<not> (fst s \<le> p \<and> q \<le> snd s)"
  show "ids' ! q \<le> ids' ! p"
  proof (cases "l \<le> p \<and> q \<le> r")
    case True
    then show ?thesis using assms(3) pq by (auto simp: desc_on_def)
  next
    case False
    show ?thesis
    proof (cases "l \<le> r")
      case True
      then show ?thesis by (rule ordered_same_but [OF assms(1,2) _ pq(1-3) False pq(4)])
    next
      case empty: False
      have "ids' ! k = ids ! k" for k
        using same_but_nth [OF assms(2), of k] empty by (cases "k < l") auto
      then show ?thesis using assms(1) pq False by (auto simp: sort_inv_def ordered_def)
    qed
  qed
qed

lemma sort_inv_pop:
  assumes "sort_inv n (segs @ [t]) (l, r) ids" and "same_but l r ids ids'" and "desc_on l r ids'"
  shows "sort_inv n segs t ids'"
  using assms(1) ordered_sorted [OF assms] same_but_length [OF assms(2)]
  by (auto simp: sort_inv_def sorted_wrt_append insert_commute)

lemma sort_inv_split:
  assumes "sort_inv n segs (l, r) ids" and "same_but l r ids ids'" and "l < j" "j < i" "i \<le> r"
    and "\<forall>k. l \<le> k \<and> k < i \<longrightarrow> a \<le> ids' ! k" and "\<forall>k. j \<le> k \<and> k \<le> r \<longrightarrow> ids' ! k \<le> a"
  shows "sort_inv n (segs @ [(i, r)]) (l, j - 1) ids'" and "sort_inv n (segs @ [(l, j - 1)]) (i, r) ids'"
proof -
  have o: "ordered n (insert (l, j - 1) (insert (i, r) (set segs))) ids'"
    unfolding ordered_def
  proof (intro allI impI, elim conjE)
    fix p q assume pq: "1 \<le> p" "p < q" "q \<le> n"
      "\<forall>s\<in>insert (l, j - 1) (insert (i, r) (set segs)). \<not> (fst s \<le> p \<and> q \<le> snd s)"
    show "ids' ! q \<le> ids' ! p"
    proof (cases "l \<le> p \<and> q \<le> r")
      case True
      then have "j \<le> q" "p < i" using pq(2,4) assms(3) by auto
      then have "ids' ! q \<le> a" "a \<le> ids' ! p" using True assms(6,7) by auto
      then show ?thesis by simp
    next
      case False
      then show ?thesis using ordered_same_but [OF assms(1,2) _ pq(1-3) False] pq(4) assms(3-5) by auto
    qed
  qed
  have len: "length ids' = length ids" by (rule same_but_length [OF assms(2)])
  show "sort_inv n (segs @ [(i, r)]) (l, j - 1) ids'"
    using assms(1,3-5) o len by (auto simp: sort_inv_def disj_def sorted_wrt_append insert_commute)
  show "sort_inv n (segs @ [(l, j - 1)]) (i, r) ids'"
    using assms(1,3-5) o len by (auto simp: sort_inv_def disj_def sorted_wrt_append insert_commute)
qed

lemma sort_short:
  assumes "sort_inv n segs (l, ir) ids"
  shows "\<exists>ids'. insertion_sort (l + 1) (ir - l) ids = Inr ids' \<and> same_but l ir ids ids' \<and> desc_on l ir ids'"
proof (cases "l \<le> ir")
  case True
  have b: "1 \<le> l" "ir \<le> n" "n < length ids" using assms by (auto simp: sort_inv_def)
  have "ids ! k \<le> ids ! (l - 1)" if "l \<noteq> 1" "l \<le> k" "k < l + 1 + (ir - l)" for k
  proof -
    have "\<forall>t\<in>set segs. snd t < l \<or> ir < fst t" using assms by (auto simp: sort_inv_def disj_def)
    then have "\<forall>t\<in>insert (l, ir) (set segs). \<not> (fst t \<le> l - 1 \<and> k \<le> snd t)"
      using that True b(1) by force
    moreover have "1 \<le> l - 1" "l - 1 < k" "k \<le> n" using that b True by auto
    ultimately show ?thesis using assms unfolding sort_inv_def ordered_def by blast
  qed
  then have "l = 1 \<or> (\<forall>k. l \<le> k \<and> k < l + 1 + (ir - l) \<longrightarrow> ids ! k \<le> ids ! (l - 1))" by blast
  moreover have "desc_on l (l + 1 - 1) ids" by (auto simp: desc_on_def)
  ultimately show ?thesis using insertion_sort_ok [of l "l + 1" "ir - l" ids] b True by auto
next
  case False
  then show ?thesis by (auto simp: desc_on_def)
qed

definition stack_ok :: "nat list \<Rightarrow> seg list \<Rightarrow> bool" where
  "stack_ok istack segs \<longleftrightarrow> length istack = ISTACK \<and> length segs \<le> 31 \<and>
     (\<forall>m<length segs. istack ! (2 * m + 1) = fst (segs ! m) \<and> istack ! (2 * m + 2) = snd (segs ! m))"

text \<open>The stack is only ever as deep as the logarithm of the length: the larger part is pushed and the
  smaller one is partitioned next.\<close>

definition depth_ok :: "nat \<Rightarrow> seg list \<Rightarrow> seg \<Rightarrow> bool" where
  "depth_ok n segs s \<longleftrightarrow> 2 ^ length segs * seg_size s \<le> n \<and> (\<forall>m<length segs. 2 ^ m * seg_size (segs ! m) \<le> n)"

definition rounds :: "seg list \<Rightarrow> nat" where
  "rounds segs = sum_list (map (\<lambda>s. 2 * seg_size s + 1) segs)"

lemma stack_ok_top:
  assumes "stack_ok istack (segs @ [t])"
  shows "aget istack (2 * Suc (length segs)) = Inr (snd t)" "aget istack (2 * Suc (length segs) - 1) = Inr (fst t)"
    "stack_ok istack segs"
  using assms by (auto simp: stack_ok_def ISTACK_def aget_def nth_append split: if_splits)

lemma stack_ok_push:
  assumes "stack_ok istack segs" and "length segs < 31"
  shows "\<exists>st st'. aset istack (2 * length segs + 2) r = Inr st \<and> aset st (2 * length segs + 2 - 1) l = Inr st' \<and>
    stack_ok st' (segs @ [(l, r)])"
  using assms by (auto simp: stack_ok_def ISTACK_def aset_def nth_append nth_list_update less_Suc_eq)

lemma depth_ok_push:
  assumes "depth_ok n segs s" and "seg_size t \<le> seg_size s" and "2 * seg_size u \<le> seg_size s"
  shows "depth_ok n (segs @ [t]) u"
proof -
  have "2 ^ Suc (length segs) * seg_size u = 2 ^ length segs * (2 * seg_size u)" by simp
  also have "\<dots> \<le> 2 ^ length segs * seg_size s" using assms(3) by (intro mult_le_mono2)
  also have "\<dots> \<le> n" using assms(1) by (simp add: depth_ok_def)
  finally have u: "2 ^ Suc (length segs) * seg_size u \<le> n" .
  have "2 ^ length segs * seg_size t \<le> 2 ^ length segs * seg_size s" using assms(2) by (intro mult_le_mono2)
  also have "\<dots> \<le> n" using assms(1) by (simp add: depth_ok_def)
  finally have "2 ^ length segs * seg_size t \<le> n" .
  then show ?thesis using u assms(1) by (auto simp: depth_ok_def nth_append less_Suc_eq)
qed

lemma depth_bound:
  assumes "depth_ok n segs s" and "8 < seg_size s" and "n < 2 ^ 30"
  shows "length segs < 31"
proof (rule ccontr)
  assume "\<not> length segs < 31"
  then have "(2::nat) ^ 31 \<le> 2 ^ length segs" by (intro power_increasing) auto
  also have "\<dots> \<le> 2 ^ length segs * seg_size s" using assms(2) by simp
  also have "\<dots> \<le> n" using assms(1) by (simp add: depth_ok_def)
  finally show False using assms(3) by simp
qed

lemma sort_loop_ok:
  assumes "n < 2 ^ 30" and "sort_inv n segs (l, ir) ids" and "stack_ok istack segs"
    and "depth_ok n segs (l, ir)" and "rounds (segs @ [(l, ir)]) \<le> fuel"
  shows "\<exists>ids'. sort_loop fuel istack (2 * length segs) l ir ids = Inr ids' \<and> same_but 1 n ids ids' \<and> desc_on 1 n ids'"
  using assms(2-5)
proof (induction fuel arbitrary: segs l ir ids istack)
  case 0
  then show ?case by (simp add: rounds_def)
next
  case (Suc fuel)
  have b: "1 \<le> l" "ir \<le> n" "n < length ids" using Suc.prems(1) by (auto simp: sort_inv_def)
  show ?case
  proof (cases "ir < l + SMALL")
    case True
    from sort_short [OF Suc.prems(1)] obtain ids1 where
      s: "insertion_sort (l + 1) (ir - l) ids = Inr ids1" "same_but l ir ids ids1" "desc_on l ir ids1" by blast
    have sb: "same_but 1 n ids ids1" by (rule same_but_mono [OF s(2) b(1,2)])
    show ?thesis
    proof (cases segs rule: rev_cases)
      case Nil
      have "desc_on 1 n ids1"
        using ordered_sorted [OF Suc.prems(1) s(2,3)] Nil by (auto simp: ordered_def desc_on_def)
      then show ?thesis using s(1) sb True Nil by simp
    next
      case (snoc segs' t)
      have i: "sort_inv n segs' (fst t, snd t) ids1"
        using sort_inv_pop [of n segs' t l ir ids ids1] Suc.prems(1) s(2,3) snoc by simp
      note st = stack_ok_top [OF Suc.prems(2) [unfolded snoc]]
      have "depth_ok n segs' (fst t, snd t)"
        using Suc.prems(3) snoc by (auto simp: depth_ok_def nth_append split: if_splits dest: spec [of _ "length segs'"])
      from Suc.IH [OF i st(3) this] Suc.prems(4) snoc obtain ids' where
        "sort_loop fuel istack (2 * length segs') (fst t) (snd t) ids1 = Inr ids'" "same_but 1 n ids1 ids'"
        "desc_on 1 n ids'" by (auto simp: rounds_def)
      then show ?thesis using s(1) sb True snoc st(1,2) same_but_trans [OF sb] by auto
    qed
  next
    case False
    then have sm: "l + SMALL \<le> ir" by simp
    moreover have "ir < length ids" "l + ir \<le> INT_MAX" using sm b assms(1) by (auto simp: INT_MAX_def)
    ultimately obtain ids1 i j a where
      p: "partition_segment l ir ids = Inr (ids1, i, j)" "same_but l ir ids ids1" "l < j" "j < i" "i \<le> ir"
        "\<forall>k. l \<le> k \<and> k < i \<longrightarrow> a \<le> ids1 ! k" "\<forall>k. j \<le> k \<and> k \<le> ir \<longrightarrow> ids1 ! k \<le> a"
      using partition_segment_ok [of l ir ids] by (auto simp: Suc_le_eq)
    note inv = sort_inv_split [OF Suc.prems(1) p(2-7)]
    have sb: "same_but 1 n ids ids1" by (rule same_but_mono [OF p(2) b(1,2)])
    have d: "length segs < 31"
      using depth_bound [OF Suc.prems(3) _ assms(1)] sm by (simp add: seg_size_def SMALL_def)
    have r: "rounds (segs @ [t] @ [u]) \<le> fuel" if "seg_size t + seg_size u < seg_size (l, ir)" for t u
      using Suc.prems(4) that by (simp add: rounds_def)
    show ?thesis
    proof (cases "j - l \<le> ir + 1 - i")
      case True
      from stack_ok_push [OF Suc.prems(2) d, of ir i] obtain st st' where
        st: "aset istack (2 * length segs + 2) ir = Inr st" "aset st (2 * length segs + 2 - 1) i = Inr st'"
          "stack_ok st' (segs @ [(i, ir)])" by blast
      have "depth_ok n (segs @ [(i, ir)]) (l, j - 1)"
        using True p(3-5) by (intro depth_ok_push [OF Suc.prems(3)]) (auto simp: seg_size_def)
      moreover have "rounds ((segs @ [(i, ir)]) @ [(l, j - 1)]) \<le> fuel"
        using r [of "(i, ir)" "(l, j - 1)"] p(3-5) by (simp add: seg_size_def)
      ultimately obtain ids' where
        "sort_loop fuel st' (2 * length (segs @ [(i, ir)])) l (j - 1) ids1 = Inr ids'" "same_but 1 n ids1 ids'"
        "desc_on 1 n ids'" using Suc.IH [OF inv(1) st(3)] by blast
      then show ?thesis using st(1,2) p(1) sm True same_but_trans [OF sb] by auto
    next
      case False2: False
      from stack_ok_push [OF Suc.prems(2) d, of "j - 1" l] obtain st st' where
        st: "aset istack (2 * length segs + 2) (j - 1) = Inr st" "aset st (2 * length segs + 2 - 1) l = Inr st'"
          "stack_ok st' (segs @ [(l, j - 1)])" by blast
      have "depth_ok n (segs @ [(l, j - 1)]) (i, ir)"
        using False2 p(3-5) by (intro depth_ok_push [OF Suc.prems(3)]) (auto simp: seg_size_def)
      moreover have "rounds ((segs @ [(l, j - 1)]) @ [(i, ir)]) \<le> fuel"
        using r [of "(l, j - 1)" "(i, ir)"] p(3-5) by (simp add: seg_size_def)
      ultimately obtain ids' where
        "sort_loop fuel st' (2 * length (segs @ [(l, j - 1)])) i ir ids1 = Inr ids'" "same_but 1 n ids1 ids'"
        "desc_on 1 n ids'" using Suc.IH [OF inv(2) st(3)] by blast
      then show ?thesis using st(1,2) p(1) sm False2 same_but_trans [OF sb] by auto
    qed
  qed
qed

subsection \<open>The IDs of a list\<close>

definition ids_of :: "MDB_ID list \<Rightarrow> MDB_ID list" where
  "ids_of cs = take (unat (cs ! 0)) (drop 1 cs)"

definition ids_ok :: "MDB_ID list \<Rightarrow> bool" where
  "ids_ok cs \<longleftrightarrow> unat (cs ! 0) < length cs"

lemma length_ids_of [simp]: "ids_ok cs \<Longrightarrow> length (ids_of cs) = unat (cs ! 0)"
  by (simp add: ids_of_def ids_ok_def)

lemma nth_ids_of: "k < unat (cs ! 0) \<Longrightarrow> ids_ok cs \<Longrightarrow> ids_of cs ! k = cs ! Suc k"
  by (simp add: ids_of_def ids_ok_def)

lemma ids_of_split:
  assumes "ids_ok cs"
  shows "cs = cs ! 0 # ids_of cs @ drop (Suc (unat (cs ! 0))) cs"
proof -
  obtain x xs where "cs = x # xs" using assms by (cases cs) (auto simp: ids_ok_def)
  then show ?thesis by (simp add: ids_of_def)
qed

lemma desc_rev_sort:
  fixes xs ys :: "'a::linorder list"
  assumes "mset ys = mset xs" and "\<forall>p q. p < q \<and> q < length ys \<longrightarrow> ys ! q \<le> ys ! p"
  shows "ys = rev (sort xs)"
proof -
  have "sorted (rev ys)"
    unfolding sorted_iff_nth_mono
  proof (intro allI impI)
    fix i j assume ij: "i \<le> j" "j < length (rev ys)"
    show "rev ys ! i \<le> rev ys ! j"
    proof (cases "i = j")
      case False
      then have "length ys - Suc j < length ys - Suc i" "length ys - Suc i < length ys" using ij by auto
      then have "ys ! (length ys - Suc i) \<le> ys ! (length ys - Suc j)" using assms(2) by blast
      then show ?thesis using ij by (simp add: rev_nth)
    qed simp
  qed
  moreover have "mset (rev ys) = mset xs" using assms(1) by simp
  ultimately have "sort xs = rev ys" by (metis properties_for_sort)
  then show ?thesis by simp
qed

lemma sort_int_count:
  assumes "unat (n :: size_t) < 2 ^ 30"
  shows "nat (sint (ucast n :: 32 word)) = unat n"
proof -
  have i: "uint n < 2 ^ 30" using assms by (metis of_nat_less_iff of_nat_numeral of_nat_power uint_nat)
  then have "uint (ucast n :: 32 word) = uint n"
    by (simp add: unsigned_ucast_eq take_bit_int_eq_self_iff)
  then have "sint (ucast n :: 32 word) = uint n"
    using i by (auto simp: sint_uint signed_take_bit_int_eq_self_iff intro: order_trans [OF _ uint_ge_0])
  then show ?thesis by simp
qed

text \<open>C27: \<open>mdb_midl_sort\<close> sorts. On a list of fewer than \<open>2 ^ 30\<close> IDs it ends within
  \<open>2 n + 2\<close> rounds, reads and writes only the cells of the list, never overflows its stack of 64 cells
  or an \<open>int\<close>, leaves the count and the cells after the list alone, and the IDs end up as the
  descending rearrangement of what they were.\<close>

theorem midl_sort_sorts:
  assumes "ids_ok ids" and "unat (ids ! 0) < 2 ^ 30"
  shows "\<exists>ids'. mdb_midl_sort ids = Inr ids' \<and> ids' ! 0 = ids ! 0 \<and> length ids' = length ids \<and>
    ids_of ids' = rev (sort (ids_of ids)) \<and>
    drop (Suc (unat (ids ! 0))) ids' = drop (Suc (unat (ids ! 0))) ids"
proof -
  let ?n = "unat (ids ! 0)"
  have n: "?n < length ids" using assms(1) by (simp add: ids_ok_def)
  then have n0: "0 < length ids" by (rule le_less_trans [OF le0])
  have "\<exists>ids'. sort_loop (2 * ?n + 2) (replicate ISTACK 0) (2 * length ([] :: seg list)) 1 ?n ids = Inr ids' \<and>
      same_but 1 ?n ids ids' \<and> desc_on 1 ?n ids'"
    by (rule sort_loop_ok [OF assms(2), of "[]"])
      (use n in \<open>auto simp: sort_inv_def ordered_def stack_ok_def depth_ok_def seg_size_def rounds_def\<close>)
  then obtain ids' where s: "mdb_midl_sort ids = Inr ids'" "same_but 1 ?n ids ids'" "desc_on 1 ?n ids'"
    using n n0 sort_int_count [OF assms(2)] by (auto simp: mdb_midl_sort_def Let_def simp del: sort_loop.simps split: if_splits)
  have len: "length ids' = length ids" by (rule same_but_length [OF s(2)])
  have z: "ids' ! 0 = ids ! 0" by (rule same_but_nth [OF s(2)]) simp
  have d: "drop (Suc ?n) ids' = drop (Suc ?n) ids"
    using s(2) len by (auto intro: nth_equalityI simp: same_but_def)
  have ok: "ids_ok ids'" using assms(1) z len by (simp add: ids_ok_def)
  have "mset ids' = mset ids" using s(2) by (simp add: same_but_def)
  then have "mset (ids_of ids') = mset (ids_of ids)"
    using ids_of_split [OF ok] ids_of_split [OF assms(1)] z d
    by (metis add_right_cancel mset.simps(2) mset_append add_mset_eq_singleton_iff add_mset_add_single)
  moreover have "\<forall>p q. p < q \<and> q < length (ids_of ids') \<longrightarrow> ids_of ids' ! q \<le> ids_of ids' ! p"
    using s(3) ok z by (auto simp: nth_ids_of desc_on_def)
  ultimately have "ids_of ids' = rev (sort (ids_of ids))" by (rule desc_rev_sort)
  then show ?thesis using s(1) z len d by blast
qed

theorem midl_sort_sorts_witness:
  "ids_ok [3, 5, 9, 7, 0] \<and> (\<exists>ids'. mdb_midl_sort [3, 5, 9, 7, 0] = Inr ids' \<and>
     ids_of ids' = rev (sort (ids_of [3, 5, 9, 7, 0])))"
proof -
  have ok: "ids_ok [3, 5, 9, 7, 0]" by (simp add: ids_ok_def)
  have "unat ([3, 5, 9, 7, 0 :: MDB_ID] ! 0) < 2 ^ 30" by simp
  from midl_sort_sorts [OF ok this] ok show ?thesis by blast
qed

end
