(* ===== verification/Midl_Correct.thy ===== *)
theory Midl_Correct
  imports Midl_Sort
begin

text \<open>
  The other operations on ID lists: the searches (through the contract \<open>search_array\<close>), the merge,
  the allocation and the append operations, and the insertion into an ID/pointer list.
\<close>

subsection \<open>Search\<close>

text \<open>A descending list, as every IDL is.\<close>

definition idl_desc :: "MDB_ID list \<Rightarrow> bool" where
  "idl_desc cs \<longleftrightarrow> ids_ok cs \<and> unat (cs ! 0) < 2 ^ 32 - 1 \<and> sorted_wrt (\<lambda>x y. y \<le> x) (ids_of cs)"

definition idl_count :: "MDB_ID list \<Rightarrow> u32" where
  "idl_count cs = ucast (cs ! 0)"

lemma unat_ucast_small: "unat (n :: size_t) < 2 ^ 32 \<Longrightarrow> unat (ucast n :: u32) = unat n"
  by (simp add: unsigned_ucast_eq take_bit_nat_eq_self_iff)

lemma CMP_mono: "x \<le> y \<Longrightarrow> sgn (CMP x z) \<le> sgn (CMP y z)" "x \<le> y \<Longrightarrow> sgn (CMP z y) \<le> sgn (CMP z x)"
  by (auto simp: CMP_def)

lemma ids_ok_aget0: "ids_ok cs \<Longrightarrow> aget cs 0 = Inr (cs ! 0)"
  by (metis aget_ok ids_ok_def le0 le_less_trans)

lemma idl_desc_count: "idl_desc cs \<Longrightarrow> unat (idl_count cs) = unat (cs ! 0)"
  by (simp add: idl_desc_def idl_count_def unat_ucast_small)

lemma idl_desc_nth:
  assumes "idl_desc cs" "1 \<le> c" "c \<le> d" "d \<le> unat (cs ! 0)"
  shows "cs ! d \<le> cs ! c"
proof (cases "c = d")
  case False
  then have "c - 1 < d - 1" "d - 1 < length (ids_of cs)" using assms by (auto simp: idl_desc_def)
  then have "ids_of cs ! (d - 1) \<le> ids_of cs ! (c - 1)"
    using assms(1) by (auto simp: idl_desc_def sorted_wrt_iff_nth_less)
  then show ?thesis using assms by (auto simp: idl_desc_def nth_ids_of)
qed simp

lemma idl_cmp_eq: "idl_desc cs \<Longrightarrow> c \<le> unat (cs ! 0) \<Longrightarrow> idl_cmp cs x c = Inr (CMP (cs ! c) x)"
  by (simp add: idl_cmp_def idl_desc_def ids_ok_def)

interpretation midl: search_array idl_desc idl_count idl_cmp
proof unfold_locales
  fix a :: "MDB_ID list" and c :: nat and k :: MDB_ID
  assume "idl_desc a" "1 \<le> c" "c \<le> unat (idl_count a)"
  then show "\<exists>v. idl_cmp a k c = Inr v" by (simp add: idl_desc_count idl_cmp_eq)
next
  fix a :: "MDB_ID list" and c d :: nat and k :: MDB_ID and v w :: int
  assume a: "idl_desc a" "1 \<le> c" "c \<le> d" "d \<le> unat (idl_count a)" "idl_cmp a k c = Inr v" "idl_cmp a k d = Inr w"
  then have "v = CMP (a ! c) k" "w = CMP (a ! d) k" by (simp_all add: idl_desc_count idl_cmp_eq)
  then show "sgn w \<le> sgn v" using idl_desc_nth [OF a(1-3)] a(1,4) by (simp add: idl_desc_count CMP_mono)
qed

lemma midl_search_ok:
  assumes "idl_desc ids"
  shows "\<exists>x. mdb_midl_search ids a = Inr x \<and> 1 \<le> unat x \<and> unat x \<le> Suc (length (ids_of ids)) \<and>
    (\<forall>y\<in>set (take (unat x - 1) (ids_of ids)). a \<le> y) \<and>
    (\<forall>y\<in>set (drop (unat x - 1) (ids_of ids)). y \<le> a) \<and>
    (a \<in> set (ids_of ids) \<longrightarrow> unat x \<le> length (ids_of ids) \<and> ids_of ids ! (unat x - 1) = a)"
proof -
  have ok: "ids_ok ids" and cnt: "Suc (unat (idl_count ids)) < 2 ^ 32"
    using assms by (auto simp: idl_desc_def idl_desc_count [OF assms])
  from midl.search_finds [OF assms cnt, of a] obtain f x where
    s: "search_loop (idl_cmp ids a) 0 1 0 (idl_count ids) = Inr (f, x)" "1 \<le> unat x"
      "unat x \<le> Suc (unat (idl_count ids))"
      "f \<Longrightarrow> unat x \<le> unat (idl_count ids) \<and> idl_cmp ids a (unat x) = Inr 0"
      "\<And>c. \<not> f \<Longrightarrow> 1 \<le> c \<Longrightarrow> c < unat x \<Longrightarrow> pos_at (idl_cmp ids a) c"
      "\<And>c. \<not> f \<Longrightarrow> unat x \<le> c \<Longrightarrow> c \<le> unat (idl_count ids) \<Longrightarrow> neg_at (idl_cmp ids a) c" by metis
  note cmp = idl_cmp_eq [OF assms, of _ a]
  note n = idl_desc_count [OF assms]
  have m: "mdb_midl_search ids a = Inr x"
    using s(1) by (simp add: mdb_midl_search_def ids_ok_aget0 [OF ok] idl_count_def)
  have fx: "unat x \<le> unat (ids ! 0) \<and> ids ! unat x = a" if f
    using s(4) [OF that] cmp [of "unat x"] by (auto simp: n CMP_def split: if_splits)
  have ge: "a \<le> ids ! c" if "1 \<le> c" "c < unat x" for c
  proof (cases f)
    case True
    then show ?thesis using fx idl_desc_nth [OF assms that(1), of "unat x"] that by auto
  next
    case False
    then show ?thesis using s(5) [OF False that] cmp [of c] that s(3)
      by (auto simp: pos_at_def n CMP_def split: if_splits)
  qed
  have le: "ids ! c \<le> a" "\<not> f \<Longrightarrow> ids ! c < a" if "unat x \<le> c" "c \<le> unat (ids ! 0)" for c
  proof -
    show "\<not> f \<Longrightarrow> ids ! c < a"
      using s(6) [OF _ that(1)] cmp [of c] that by (auto simp: neg_at_def n CMP_def split: if_splits)
    then show "ids ! c \<le> a"
      using fx idl_desc_nth [OF assms s(2) that] by (cases f) auto
  qed
  have "\<forall>y\<in>set (take (unat x - 1) (ids_of ids)). a \<le> y"
    using ge s(3) by (auto simp: in_set_conv_nth nth_ids_of ok n)
  moreover have "\<forall>y\<in>set (drop (unat x - 1) (ids_of ids)). y \<le> a"
    using le(1) s(2) by (auto simp: in_set_conv_nth nth_ids_of ok n)
  moreover have "unat x \<le> length (ids_of ids) \<and> ids_of ids ! (unat x - 1) = a" if "a \<in> set (ids_of ids)"
  proof (cases f)
    case True
    then show ?thesis using fx s(2) by (auto simp: nth_ids_of ok)
  next
    case False
    from that obtain k where k: "k < unat (ids ! 0)" "ids ! Suc k = a"
      by (auto simp: in_set_conv_nth nth_ids_of ok)
    then have "ids ! Suc k \<noteq> a"
      using s(5) [OF False, of "Suc k"] le(2) [OF _ _ False, of "Suc k"] cmp [of "Suc k"]
      by (cases "Suc k < unat x") (auto simp: pos_at_def CMP_def split: if_splits)
    then show ?thesis using k by simp
  qed
  ultimately show ?thesis using m s(2,3) ok n by auto
qed

text \<open>\<open>mdb_midl_search\<close> on a descending list returns a position between 1 and one past the end such
  that every ID before it is greater than or equal to the searched one and every ID after it is at most
  the searched one; if the searched ID is in the list, it is the ID at that position.\<close>

theorem midl_search_finds:
  assumes "idl_desc ids"
  shows "\<exists>x. mdb_midl_search ids a = Inr x \<and> 1 \<le> unat x \<and> unat x \<le> Suc (length (ids_of ids)) \<and>
    (\<forall>y\<in>set (take (unat x - 1) (ids_of ids)). a \<le> y) \<and>
    (\<forall>y\<in>set (drop (unat x - 1) (ids_of ids)). y \<le> a) \<and>
    (a \<in> set (ids_of ids) \<longrightarrow> unat x \<le> length (ids_of ids) \<and> ids_of ids ! (unat x - 1) = a)"
  by (rule midl_search_ok [OF assms])

theorem midl_search_finds_witness:
  "idl_desc [3, 9, 7, 5] \<and> (\<exists>x. mdb_midl_search [3, 9, 7, 5] 7 = Inr x \<and> ids_of [3, 9, 7, 5] ! (unat x - 1) = 7)"
proof -
  have ok: "idl_desc [3, 9, 7, 5]" by (simp add: idl_desc_def ids_ok_def ids_of_def take_Cons')
  have "(7::MDB_ID) \<in> set (ids_of [3, 9, 7, 5])" by (simp add: ids_of_def take_Cons')
  with midl_search_finds [OF ok, of 7] ok show ?thesis by blast
qed

subsection \<open>Merging\<close>

abbreviation desc :: "MDB_ID list \<Rightarrow> bool" where
  "desc \<equiv> sorted_wrt (\<lambda>x y. y \<le> x)"

text \<open>While a merge is under way the array is the delimiter, the IDs of \<open>idl\<close> that are left, a gap as
  long as the rest of \<open>merge\<close>, the merged IDs and the cells after the list.\<close>

lemma xmerge_down_ok:
  assumes "cs = (- 1) # take j A @ X @ S @ D" and "length X = Suc i" and "j \<le> length A" and "desc A"
  shows "\<exists>j' X'. xmerge_down mrg j (j + Suc i) (cs ! j) cs =
      Inr ((- 1) # take j' A @ X' @ drop j' (take j A) @ S @ D, j', j' + Suc i,
           ((- 1) # take j' A @ X' @ drop j' (take j A) @ S @ D) ! j') \<and>
    length X' = Suc i \<and> j' \<le> j \<and> (\<forall>y\<in>set (drop j' (take j A)). y < mrg) \<and> (0 < j' \<longrightarrow> mrg \<le> A ! (j' - 1))"
  using assms
proof (induction j arbitrary: cs X S)
  case 0
  have "\<not> (- 1 :: MDB_ID) < mrg" by (simp add: not_less)
  then show ?case using 0 by (intro exI [of _ 0] exI [of _ X]) simp
next
  case (Suc j)
  have A: "take (Suc j) A = take j A @ [A ! j]" using Suc.prems(3) by (simp add: take_Suc_conv_app_nth)
  have old: "cs ! Suc j = A ! j" using Suc.prems(1,3) by (simp add: nth_append)
  show ?case
  proof (cases "A ! j < mrg")
    case False
    then show ?thesis using Suc.prems old
      by (intro exI [of _ "Suc j"] exI [of _ X]) (auto simp: not_less)
  next
    case True
    obtain X1 x where X: "X = X1 @ [x]" using Suc.prems(2) by (metis length_Suc_conv_rev)
    define cs1 where "cs1 = cs[Suc j + Suc i := A ! j]"
    have k: "Suc j + Suc i < length cs" using Suc.prems(1-3) by simp
    have cs1: "cs1 = (- 1) # take j A @ (A ! j # X1) @ (A ! j # S) @ D"
    proof -
      have "cs = ((- 1) # take (Suc j) A @ X1) @ x # S @ D" using Suc.prems(1) X by simp
      moreover have "length ((- 1) # take (Suc j) A @ X1) = Suc j + Suc i" using Suc.prems(2,3) X by simp
      ultimately have "cs1 = ((- 1) # take (Suc j) A @ X1) @ (A ! j) # S @ D"
        unfolding cs1_def by (metis list_update_length)
      then show ?thesis using A by simp
    qed
    have "length (A ! j # X1) = Suc i" using Suc.prems(2) X by simp
    from Suc.IH [OF cs1 this _ Suc.prems(4)] Suc.prems(3) obtain j' X' where
      IH: "xmerge_down mrg j (j + Suc i) (cs1 ! j) cs1 =
        Inr ((- 1) # take j' A @ X' @ drop j' (take j A) @ (A ! j # S) @ D, j', j' + Suc i,
             ((- 1) # take j' A @ X' @ drop j' (take j A) @ (A ! j # S) @ D) ! j')"
      "length X' = Suc i" "j' \<le> j" "\<forall>y\<in>set (drop j' (take j A)). y < mrg" "0 < j' \<longrightarrow> mrg \<le> A ! (j' - 1)" by auto
    have dj: "drop j' (take (Suc j) A) = drop j' (take j A) @ [A ! j]"
      using A IH(3) Suc.prems(3) by simp
    have "xmerge_down mrg (Suc j) (Suc j + Suc i) (cs ! Suc j) cs = xmerge_down mrg j (j + Suc i) (cs1 ! j) cs1"
      using True k Suc.prems(3) cs1 by (simp add: old cs1_def aget_def)
    then show ?thesis using IH True dj by (intro exI [of _ j'] exI [of _ X']) auto
  qed
qed

lemma xmerge_loop_ok:
  assumes "cs = (- 1) # take j A @ X @ S @ D" and "length X = i" and "j \<le> length A" and "i \<le> length B"
    and "desc A" and "desc B" and "\<forall>p<length B. aget merge (Suc p) = Inr (B ! p)" and "desc S"
    and "\<forall>y\<in>set S. (\<forall>x\<in>set (take j A). y \<le> x) \<and> (\<forall>x\<in>set (take i B). y \<le> x)"
  shows "\<exists>S'. xmerge_loop merge i j (j + i) (cs ! j) cs = Inr ((- 1) # S' @ D) \<and> desc S' \<and>
    mset S' = mset (take j A) + mset (take i B) + mset S"
  using assms
proof (induction i arbitrary: cs j X S)
  case 0
  then show ?case by (auto simp: sorted_wrt_append sorted_wrt_take intro!: exI [of _ "take j A @ S"])
next
  case (Suc i)
  let ?mid = "B ! i"
  have B: "take (Suc i) B = take i B @ [?mid]" using Suc.prems(4) by (simp add: take_Suc_conv_app_nth)
  from xmerge_down_ok [OF Suc.prems(1,2,3,5), of ?mid] obtain j' X' where
    d: "xmerge_down ?mid j (j + Suc i) (cs ! j) cs =
      Inr ((- 1) # take j' A @ X' @ drop j' (take j A) @ S @ D, j', j' + Suc i,
           ((- 1) # take j' A @ X' @ drop j' (take j A) @ S @ D) ! j')"
    "length X' = Suc i" "j' \<le> j" "\<forall>y\<in>set (drop j' (take j A)). y < ?mid" "0 < j' \<longrightarrow> ?mid \<le> A ! (j' - 1)" by blast
  let ?S = "?mid # drop j' (take j A) @ S"
  obtain X1 x where X: "X' = X1 @ [x]" using d(2) by (metis length_Suc_conv_rev)
  define cs1 where "cs1 = (- 1) # take j' A @ X' @ drop j' (take j A) @ S @ D"
  define cs2 where "cs2 = cs1[j' + Suc i := ?mid]"
  have k: "j' + Suc i < length cs1" using d(2,3) Suc.prems(3) by (simp add: cs1_def)
  have cs2: "cs2 = (- 1) # take j' A @ X1 @ ?S @ D"
  proof -
    have "cs1 = ((- 1) # take j' A @ X1) @ x # (drop j' (take j A) @ S @ D)" using X by (simp add: cs1_def)
    moreover have "length ((- 1) # take j' A @ X1) = j' + Suc i" using X d(2,3) Suc.prems(3) by simp
    ultimately have "cs2 = ((- 1) # take j' A @ X1) @ ?mid # (drop j' (take j A) @ S @ D)"
      unfolding cs2_def by (metis list_update_length)
    then show ?thesis by simp
  qed
  have old: "cs1 ! j' = cs2 ! j'" by (simp add: cs2_def)
  have tj: "take j A = take j' A @ drop j' (take j A)"
    using d(3) by (metis append_take_drop_id min.absorb1 take_take)
  have "desc (take j A)" using Suc.prems(5) by (rule sorted_wrt_take)
  then have dA: "desc (drop j' (take j A))" "\<forall>x\<in>set (take j' A). \<forall>y\<in>set (drop j' (take j A)). y \<le> x"
    using sorted_wrt_append tj by (metis, metis sorted_wrt_append)
  have midA: "\<forall>x\<in>set (take j' A). ?mid \<le> x"
  proof
    fix x assume "x \<in> set (take j' A)"
    then obtain p where p: "p < j'" "x = A ! p" using d(3) Suc.prems(3) by (auto simp: in_set_conv_nth)
    have "A ! (j' - 1) \<le> A ! p"
      using p Suc.prems(3,5) d(3) by (cases "p = j' - 1") (auto simp: sorted_wrt_iff_nth_less)
    then show "?mid \<le> x" using d(5) p by auto
  qed
  have midB: "\<forall>x\<in>set (take i B). ?mid \<le> x"
    using Suc.prems(4,6) by (auto simp: in_set_conv_nth sorted_wrt_iff_nth_less)
  have S: "\<forall>y\<in>set S. y \<le> ?mid \<and> (\<forall>x\<in>set (take j A). y \<le> x) \<and> (\<forall>x\<in>set (take i B). y \<le> x)"
    using Suc.prems(9) B by auto
  have sub: "set (drop j' (take j A)) \<subseteq> set (take j A)" "set (take j' A) \<subseteq> set (take j A)"
    using arg_cong [OF tj, of set] by auto
  have d1: "xmerge_down ?mid j (j + Suc i) (cs ! j) cs = Inr (cs1, j', j' + Suc i, cs1 ! j')"
    using d(1) by (simp only: cs1_def)
  have m1: "aget merge (Suc i) = Inr ?mid" using Suc.prems(4,7) by simp
  have a1: "aset cs1 (j' + Suc i) ?mid = Inr cs2" using k by (simp add: cs2_def)
  have lens: "length X1 = i" "j' \<le> length A" "i \<le> length B" using d(2,3) X Suc.prems(3,4) by auto
  have "desc ?S" using S Suc.prems(8) dA(1) d(4) sub(1) by (auto simp: sorted_wrt_append less_imp_le subset_iff)
  moreover have "\<forall>y\<in>set ?S. (\<forall>x\<in>set (take j' A). y \<le> x) \<and> (\<forall>x\<in>set (take i B). y \<le> x)"
  proof (intro ballI conjI)
    fix y x assume y: "y \<in> set ?S" and x: "x \<in> set (take j' A)"
    then consider "y = ?mid" | "y \<in> set (drop j' (take j A))" | "y \<in> set S" by auto
    then show "y \<le> x"
    proof cases
      case 1
      then show ?thesis using midA x by simp
    next
      case 2
      then show ?thesis using dA(2) x by simp
    next
      case 3
      then show ?thesis using S sub(2) x by blast
    qed
  next
    fix y x assume y: "y \<in> set ?S" and x: "x \<in> set (take i B)"
    then have mx: "?mid \<le> x" using midB by simp
    consider "y \<le> ?mid" | "y \<in> set S" using y d(4) by (auto dest: less_imp_le)
    then show "y \<le> x"
    proof cases
      case 1
      then show ?thesis using mx by (rule order_trans)
    next
      case 2
      then show ?thesis using S x by blast
    qed
  qed
  ultimately obtain S' where
    r: "xmerge_loop merge i j' (j' + i) (cs2 ! j') cs2 = Inr ((- 1) # S' @ D)" "desc S'"
      "mset S' = mset (take j' A) + mset (take i B) + mset ?S"
    using Suc.IH [OF cs2 lens Suc.prems(5-7)] by blast
  have "xmerge_loop merge (Suc i) j (j + Suc i) (cs ! j) cs = xmerge_loop merge i j' (j' + i) (cs2 ! j') cs2"
    using d1 m1 a1 old by simp
  moreover have "mset S' = mset (take j A) + mset (take (Suc i) B) + mset S"
    using r(3) arg_cong [OF tj, of mset] by (simp add: B del: append_take_drop_id)
  ultimately show ?case using r by metis
qed

text \<open>C38: \<open>mdb_midl_xmerge\<close> of two descending lists, the first with room for both, is the sorted merge:
  the IDs become the descending rearrangement of both lists, the count their sum, and the cells after
  them are untouched. The delimiter that the code stores over the count stops the scan of the first
  list.\<close>

theorem midl_xmerge_merges:
  assumes "idl_desc idl" and "idl_desc merge" and "unat (idl ! 0) + unat (merge ! 0) < length idl"
  shows "\<exists>idl'. mdb_midl_xmerge idl merge = Inr idl' \<and> idl' ! 0 = idl ! 0 + merge ! 0 \<and>
    ids_of idl' = rev (sort (ids_of idl @ ids_of merge)) \<and>
    drop (Suc (unat (idl ! 0) + unat (merge ! 0))) idl' = drop (Suc (unat (idl ! 0) + unat (merge ! 0))) idl"
proof -
  let ?A = "ids_of idl" and ?B = "ids_of merge" and ?n = "unat (idl ! 0)" and ?m = "unat (merge ! 0)"
  have ok: "ids_ok idl" "ids_ok merge" and d: "desc ?A" "desc ?B" and b: "?n < 2 ^ 32" "?m < 2 ^ 32"
    using assms by (auto simp: idl_desc_def)
  have t: "unat (merge ! 0 + idl ! 0) = ?n + ?m" using b by (simp add: unat_word_ariths)
  let ?X = "take ?m (drop (Suc ?n) idl)" and ?D = "drop (Suc (?n + ?m)) idl"
  let ?cs = "idl[0 := - 1]"
  have cs: "?cs = (- 1) # take ?n ?A @ ?X @ [] @ ?D"
  proof -
    have "drop (Suc ?n) idl = ?X @ ?D"
      using append_take_drop_id [of ?m "drop (Suc ?n) idl"] by (simp add: add.commute)
    then have "idl = idl ! 0 # ?A @ ?X @ ?D" using ids_of_split [OF ok(1)] by simp
    then have "?cs = (idl ! 0 # ?A @ ?X @ ?D)[0 := - 1]" by (rule arg_cong)
    then have "?cs = (- 1) # ?A @ ?X @ ?D" by simp
    then show ?thesis using ok(1) by simp
  qed
  have "\<forall>p<length ?B. aget merge (Suc p) = Inr (?B ! p)"
    using ok(2) by (auto simp: nth_ids_of ids_ok_def)
  then obtain S where S: "xmerge_loop merge ?m ?n (?n + ?m) (?cs ! ?n) ?cs = Inr ((- 1) # S @ ?D)" "desc S"
      "mset S = mset ?A + mset ?B"
    using xmerge_loop_ok [OF cs _ _ _ d, of ?m merge] ok assms(3) by auto
  have ne: "idl \<noteq> []" using assms(3) by auto
  let ?r = "(merge ! 0 + idl ! 0) # S @ ?D"
  have "mdb_midl_xmerge idl merge = Inr ?r"
    using S(1) assms(3) t ids_ok_aget0 [OF ok(1)] ids_ok_aget0 [OF ok(2)] ne
    by (simp add: mdb_midl_xmerge_def aset_def aget_def Let_def ids_ok_def add.commute)
  moreover have "length S = ?n + ?m" using arg_cong [OF S(3), of size] ok by simp
  then have "ids_of ?r = S" using t by (simp add: ids_of_def)
  moreover have "S = rev (sort (?A @ ?B))"
    using S(2,3) by (intro desc_rev_sort) (auto simp: sorted_wrt_iff_nth_less)
  moreover have "drop (Suc (?n + ?m)) ?r = ?D" using \<open>length S = ?n + ?m\<close> by simp
  ultimately show ?thesis by (auto simp: add.commute)
qed

theorem midl_xmerge_merges_witness:
  "\<exists>idl'. mdb_midl_xmerge [2, 8, 3, 0, 0] [2, 5, 4] = Inr idl' \<and> ids_of idl' = rev (sort [8, 3, 5, 4])"
proof -
  have ok: "idl_desc [2, 8, 3, 0, 0]" "idl_desc [2, 5, 4]"
    by (simp_all add: idl_desc_def ids_ok_def ids_of_def take_Cons')
  have "ids_of [2, 8, 3, 0, 0] @ ids_of [2, 5, 4] = [8, 3, 5, 4]" by (simp add: ids_of_def take_Cons')
  with midl_xmerge_merges [OF ok] show ?thesis by auto
qed

subsection \<open>Allocated lists\<close>

text \<open>The invariant of an allocated list: as many cells as the allocated length says, a count within it,
  and an allocation far from the end of the address space.\<close>

definition midl_ok :: "midl \<Rightarrow> bool" where
  "midl_ok idl \<longleftrightarrow> length (cells idl) = Suc (unat (alloclen idl)) \<and> unat (cells idl ! 0) \<le> unat (alloclen idl) \<and>
     unat (alloclen idl) < 2 ^ 60"

definition idl_ids :: "midl \<Rightarrow> MDB_ID list" where
  "idl_ids idl = ids_of (cells idl)"

definition spare :: "midl \<Rightarrow> MDB_ID list" where
  "spare idl = drop (Suc (unat (cells idl ! 0))) (cells idl)"

lemma midl_ok_ids: "midl_ok idl \<Longrightarrow> ids_ok (cells idl)"
  by (simp add: midl_ok_def ids_ok_def)

lemma midl_form:
  assumes "midl_ok idl"
  shows "cells idl = cells idl ! 0 # idl_ids idl @ spare idl" "length (idl_ids idl) = unat (cells idl ! 0)"
    "length (spare idl) = unat (alloclen idl) - unat (cells idl ! 0)"
  using ids_of_split [OF midl_ok_ids [OF assms]] midl_ok_ids [OF assms] assms
  by (simp_all add: idl_ids_def spare_def midl_ok_def)

lemma midl_okI:
  assumes "cells idl = n # A @ R" and "length A = unat n" and "length A + length R = unat (alloclen idl)"
    and "unat (alloclen idl) < 2 ^ 60"
  shows "midl_ok idl" "idl_ids idl = A"
  using assms by (simp_all add: midl_ok_def idl_ids_def ids_of_def)

lemma unat_scast_small:
  assumes "unat (w :: 32 word) < 2 ^ 31"
  shows "unat (scast w :: size_t) = unat w"
proof -
  have i: "uint w < 2 ^ 31" using assms by (metis of_nat_less_iff of_nat_numeral of_nat_power uint_nat)
  have "sint w = uint w"
    unfolding sint_uint using i by (intro signed_take_bit_int_eq_self) (auto intro: order_trans [OF _ uint_ge_0])
  then have "scast w = (ucast w :: size_t)" by (metis of_int_sint of_int_uint)
  moreover have "unat (ucast w :: size_t) = unat w"
    using assms by (simp only: unsigned_ucast_eq take_bit_nat_eq_self_iff) simp
  ultimately show ?thesis by simp
qed

lemma length_fit [simp]: "length (fit m n xs) = n"
  by (simp add: fit_def)

lemma fit_longer: "length xs \<le> n \<Longrightarrow> fit m n xs = xs @ map (mem_fill m) [length xs..<n]"
  by (simp add: fit_def)

text \<open>Growing keeps the IDs and makes as much room as asked for.\<close>

lemma grow_ok:
  assumes "midl_ok idl" and "mem_ok m" and "unat (alloclen idl) + unat num < 2 ^ 60" and "unat num < 2 ^ 31"
  obtains idl' where "mdb_midl_grow m idl num = (0, idl')" and "midl_ok idl'"
    and "cells idl' ! 0 = cells idl ! 0" and "idl_ids idl' = idl_ids idl"
    and "unat (alloclen idl') = unat (alloclen idl) + unat num"
proof -
  let ?a = "alloclen idl + scast num"
  have a: "unat ?a = unat (alloclen idl) + unat num"
    using assms(3,4) by (simp add: unat_word_ariths unat_scast_small)
  define idl' where "idl' = \<lparr>alloclen = ?a, cells = fit m (Suc (unat ?a)) (cells idl)\<rparr>"
  let ?F = "map (mem_fill m) [length (cells idl)..<Suc (unat ?a)]"
  have c: "cells idl' = cells idl ! 0 # idl_ids idl @ (spare idl @ ?F)"
    using midl_form(1) [OF assms(1)] assms(1) a by (simp add: idl'_def fit_longer midl_ok_def)
  have "length (idl_ids idl) + length (spare idl @ ?F) = unat (alloclen idl')"
    using midl_form(2,3) [OF assms(1)] assms(1) a by (simp add: idl'_def midl_ok_def)
  from midl_okI [OF c midl_form(2) [OF assms(1)] this] a assms(3)
  have "midl_ok idl'" "idl_ids idl' = idl_ids idl" by (simp_all add: idl'_def)
  moreover have "mdb_midl_grow m idl num = (0, idl')" using assms(2) by (simp add: mdb_midl_grow_def idl'_def)
  moreover have "cells idl' ! 0 = cells idl ! 0" using c by simp
  moreover have "unat (alloclen idl') = unat (alloclen idl) + unat num" using a by (simp add: idl'_def)
  ultimately show ?thesis using that by blast
qed

lemma xappend_ok:
  assumes "midl_ok idl" and "unat (cells idl ! 0) < unat (alloclen idl)"
  shows "\<exists>idl'. mdb_midl_xappend idl x = Inr idl' \<and> midl_ok idl' \<and> idl_ids idl' = idl_ids idl @ [x] \<and>
    alloclen idl' = alloclen idl"
proof -
  note f = midl_form [OF assms(1)]
  let ?n = "cells idl ! 0"
  obtain r R where R: "spare idl = r # R" using f(3) assms(2) by (cases "spare idl") auto
  have n1: "unat (?n + 1) = Suc (unat ?n)"
    using assms by (intro unat_Suc_word) (simp add: midl_ok_def)
  let ?idl' = "idl\<lparr>cells := (?n + 1) # (idl_ids idl @ [x]) @ R\<rparr>"
  have e: "cells idl = ?n # idl_ids idl @ r # R" using f(1) R by simp
  have u: "(?n # idl_ids idl @ r # R)[0 := ?n + 1, Suc (unat ?n) := x] = (?n + 1) # idl_ids idl @ x # R"
    using f(2) by (metis list_update_code(2,3) list_update_length)
  have l: "Suc (unat ?n) < length (cells idl)" using assms by (simp add: midl_ok_def)
  then have "mdb_midl_xappend idl x = Inr (idl\<lparr>cells := (cells idl)[0 := ?n + 1, Suc (unat ?n) := x]\<rparr>)"
    using n1 ids_ok_aget0 [OF midl_ok_ids [OF assms(1)]] order_less_trans [OF zero_less_Suc l]
    by (simp only: mdb_midl_xappend_def bindE_Inr aset_ok length_list_update)
  also have "(cells idl)[0 := ?n + 1, Suc (unat ?n) := x] = (?n + 1) # idl_ids idl @ x # R"
    using arg_cong [OF e, of "\<lambda>cs. cs[0 := ?n + 1, Suc (unat ?n) := x]"] u by (rule trans)
  finally have "mdb_midl_xappend idl x = Inr ?idl'" by simp
  moreover have "midl_ok ?idl'" "idl_ids ?idl' = idl_ids idl @ [x]"
    using midl_okI [of ?idl' "?n + 1" "idl_ids idl @ [x]" R] n1 f(2,3) R assms by (auto simp: midl_ok_def)
  ultimately show ?thesis by auto
qed

lemma fill_range_ok:
  assumes "length A = len" and "length R = n"
  shows "fill_range len n x (c # A @ R @ T) = Inr (c # A @ rev (map (\<lambda>k. x + of_nat k) [0..<n]) @ T)"
  using assms(2)
proof (induction n arbitrary: x R T)
  case 0
  then show ?case by simp
next
  case (Suc n)
  obtain R1 r where R: "R = R1 @ [r]" "length R1 = n" using Suc.prems by (metis length_Suc_conv_rev)
  have u: "(c # A @ R @ T)[len + Suc n := x] = c # A @ R1 @ x # T"
    using R assms(1) by (simp add: list_update_append)
  have "fill_range len (Suc n) x (c # A @ R @ T) = fill_range len n (x + 1) (c # A @ R1 @ x # T)"
    using R assms(1) u by (simp add: aset_def)
  also have "\<dots> = Inr (c # A @ rev (map (\<lambda>k. x + 1 + of_nat k) [0..<n]) @ x # T)"
    using Suc.IH [of R1 "x + 1" "x # T"] R(2) by simp
  also have "map (\<lambda>k. x + 1 + of_nat k) [0..<n] = map (\<lambda>k. x + of_nat k) [Suc 0..<Suc n]"
    by (simp add: map_Suc_upt [symmetric] add.assoc del: upt_Suc)
  also have "rev (map (\<lambda>k. x + of_nat k) [Suc 0..<Suc n]) @ x # T =
      rev (map (\<lambda>k. x + of_nat k) [0..<Suc n]) @ T"
    by (simp add: upt_conv_Cons del: upt_Suc)
  finally show ?case .
qed

text \<open>A list that has room for \<open>k\<close> more IDs after growing, if it needs to.\<close>

lemma grow_if_needed:
  assumes "midl_ok idl" and "mem_ok m" and "unat (alloclen idl) + unat num < 2 ^ 60" and "unat num < 2 ^ 31"
    and "k \<le> unat num" and "\<not> full \<Longrightarrow> unat (cells idl ! 0) + k \<le> unat (alloclen idl)"
  obtains idl1 where "(if full then mdb_midl_grow m idl num else (0, idl)) = (0, idl1)" and "midl_ok idl1"
    and "cells idl1 ! 0 = cells idl ! 0" and "idl_ids idl1 = idl_ids idl"
    and "unat (cells idl1 ! 0) + k \<le> unat (alloclen idl1)"
proof (cases full)
  case True
  from grow_ok [OF assms(1-4)] obtain idl' where
    "mdb_midl_grow m idl num = (0, idl')" "midl_ok idl'" "cells idl' ! 0 = cells idl ! 0"
    "idl_ids idl' = idl_ids idl" "unat (alloclen idl') = unat (alloclen idl) + unat num" by blast
  moreover from this have "unat (cells idl' ! 0) + k \<le> unat (alloclen idl')"
    using assms(1,5) by (simp add: midl_ok_def)
  ultimately show ?thesis using True that by simp
next
  case False
  then show ?thesis using that assms(1,6) by simp
qed

lemma append_ok:
  assumes "midl_ok idl" and "unat (alloclen idl) < 2 ^ 59" and "mem_ok m"
  shows "\<exists>idl'. mdb_midl_append m idl x = Inr (0, idl') \<and> midl_ok idl' \<and> idl_ids idl' = idl_ids idl @ [x]"
proof -
  let ?full = "alloclen idl \<le> cells idl ! 0"
  have um: "unat (of_nat MDB_IDL_UM_MAX :: 32 word) = MDB_IDL_UM_MAX"
    by (simp add: MDB_IDL_UM_MAX_def MDB_IDL_UM_SIZE_def MDB_IDL_LOGN_def)
  then have "unat (alloclen idl) + unat (of_nat MDB_IDL_UM_MAX :: 32 word) < 2 ^ 60"
    "unat (of_nat MDB_IDL_UM_MAX :: 32 word) < 2 ^ 31" "1 \<le> unat (of_nat MDB_IDL_UM_MAX :: 32 word)"
    using assms(2) by (simp_all add: MDB_IDL_UM_MAX_def MDB_IDL_UM_SIZE_def MDB_IDL_LOGN_def)
  moreover have "\<not> ?full \<Longrightarrow> unat (cells idl ! 0) + 1 \<le> unat (alloclen idl)" by (simp add: word_le_nat_alt)
  ultimately obtain idl1 where
    g: "(if ?full then mdb_midl_grow m idl (of_nat MDB_IDL_UM_MAX) else (0, idl)) = (0, idl1)" "midl_ok idl1"
      "idl_ids idl1 = idl_ids idl" "unat (cells idl1 ! 0) + 1 \<le> unat (alloclen idl1)"
    using grow_if_needed [OF assms(1,3)] by metis
  from xappend_ok [OF g(2), of x] g(4) obtain idl' where
    "mdb_midl_xappend idl1 x = Inr idl'" "midl_ok idl'" "idl_ids idl' = idl_ids idl @ [x]" using g(3) by auto
  then show ?thesis
    by (simp add: mdb_midl_append_def ids_ok_aget0 [OF midl_ok_ids [OF assms(1)]] g(1))
qed

lemma append_list_ok:
  assumes "midl_ok idl" and "unat (alloclen idl) < 2 ^ 59" and "mem_ok m" and "ids_ok app" and "unat (app ! 0) < 2 ^ 31"
  shows "\<exists>idl'. mdb_midl_append_list m idl app = Inr (0, idl') \<and> midl_ok idl' \<and> idl_ids idl' = idl_ids idl @ ids_of app"
proof -
  let ?n = "app ! 0" and ?len = "cells idl ! 0"
  have len: "unat ?len \<le> unat (alloclen idl)" using assms(1) by (simp add: midl_ok_def)
  have s: "unat (?len + ?n) = unat ?len + unat ?n" using len assms(2,5) by (simp add: unat_word_ariths)
  have l1: "unat (?len + 1) = Suc (unat ?len)" using len assms(2) by (intro unat_Suc_word) simp
  let ?full = "alloclen idl \<le> ?len + ?n"
  have nu: "unat (ucast ?n :: 32 word) = unat ?n" using assms(5) by (simp add: unat_ucast_small)
  then have "unat (alloclen idl) + unat (ucast ?n :: 32 word) < 2 ^ 60" "unat (ucast ?n :: 32 word) < 2 ^ 31"
    "unat ?n \<le> unat (ucast ?n :: 32 word)" using assms(2,5) by simp_all
  moreover have "\<not> ?full \<Longrightarrow> unat ?len + unat ?n \<le> unat (alloclen idl)" using s by (simp add: word_le_nat_alt)
  ultimately obtain idl1 where
    g: "(if ?full then mdb_midl_grow m idl (ucast ?n) else (0, idl)) = (0, idl1)" "midl_ok idl1"
      "cells idl1 ! 0 = ?len" "idl_ids idl1 = idl_ids idl" "unat (cells idl1 ! 0) + unat ?n \<le> unat (alloclen idl1)"
    using grow_if_needed [OF assms(1,3)] by metis
  note f = midl_form [OF g(2)]
  let ?R = "drop (unat ?n) (spare idl1)"
  let ?cs = "(?len + ?n) # (idl_ids idl @ ids_of app) @ ?R"
  have c: "cells idl1 = ?len # idl_ids idl @ spare idl1" using f(1) g(3,4) by simp
  have la: "length (idl_ids idl) = unat ?len" using f(2) g(3,4) by simp
  have "copy_cells (cells idl1) (unat (?len + 1)) app 1 (unat ?n) = Inr (?len # (idl_ids idl @ ids_of app) @ ?R)"
  proof -
    have "take (Suc (unat ?len)) (cells idl1) = ?len # idl_ids idl" using c la by simp
    moreover have "drop (Suc (unat ?len) + unat ?n) (cells idl1) = ?R" using c la by simp
    moreover have "Suc (unat ?len) + unat ?n \<le> length (cells idl1)" using g(2,3,5) by (simp add: midl_ok_def)
    ultimately show ?thesis using assms(4) by (simp add: copy_cells_def l1 ids_of_def ids_ok_def)
  qed
  then have "mdb_midl_append_list m idl app = Inr (0, idl1\<lparr>cells := ?cs\<rparr>)"
    by (simp add: mdb_midl_append_list_def ids_ok_aget0 [OF midl_ok_ids [OF assms(1)]] ids_ok_aget0 [OF assms(4)]
        g(1) aset_def)
  moreover have "midl_ok (idl1\<lparr>cells := ?cs\<rparr>)" "idl_ids (idl1\<lparr>cells := ?cs\<rparr>) = idl_ids idl @ ids_of app"
    using midl_okI [of "idl1\<lparr>cells := ?cs\<rparr>" "?len + ?n" "idl_ids idl @ ids_of app" ?R] s la f(3) g(2,3,5) assms(4)
    by (simp_all add: midl_ok_def)
  ultimately show ?thesis by auto
qed

lemma append_range_ok:
  assumes "midl_ok idl" and "unat (alloclen idl) < 2 ^ 59" and "mem_ok m" and "unat n < 2 ^ 31"
  shows "\<exists>idl'. mdb_midl_append_range m idl x n = Inr (0, idl') \<and> midl_ok idl' \<and>
    idl_ids idl' = idl_ids idl @ rev (map (\<lambda>k. x + of_nat k) [0..<unat n])"
proof -
  let ?len = "cells idl ! 0"
  let ?num = "n OR of_nat MDB_IDL_UM_MAX"
  have len: "unat ?len \<le> unat (alloclen idl)" using assms(1) by (simp add: midl_ok_def)
  have un: "unat (ucast n :: size_t) = unat n"
    by (simp only: unsigned_ucast_eq take_bit_nat_eq_self_iff) (use assms(4) in simp)
  have s: "unat (?len + ucast n) = unat ?len + unat n"
    using len assms(2,4) un by (simp add: unat_word_ariths)
  let ?full = "alloclen idl < ?len + ucast n"
  have ge: "unat n \<le> unat ?num" using le_word_or2 by (simp only: word_le_nat_alt)
  have um: "uint (of_nat MDB_IDL_UM_MAX :: u32) < 2 ^ 31"
    by (simp add: MDB_IDL_UM_MAX_def MDB_IDL_UM_SIZE_def MDB_IDL_LOGN_def)
  have "uint n < 2 ^ 31" using assms(4) by (metis of_nat_less_iff of_nat_numeral of_nat_power uint_nat)
  then have "uint ?num < 2 ^ 31"
    unfolding uint_or using um by (intro OR_upper) simp_all
  then have lt: "unat ?num < 2 ^ 31" by (metis of_nat_less_iff of_nat_numeral of_nat_power uint_nat)
  have "unat (alloclen idl) + unat ?num < 2 ^ 60" using assms(2) lt by simp
  moreover have "\<not> ?full \<Longrightarrow> unat ?len + unat n \<le> unat (alloclen idl)"
    using s by (simp add: not_less word_le_nat_alt)
  ultimately obtain idl1 where
    g: "(if ?full then mdb_midl_grow m idl ?num else (0, idl)) = (0, idl1)" "midl_ok idl1"
      "cells idl1 ! 0 = ?len" "idl_ids idl1 = idl_ids idl" "unat (cells idl1 ! 0) + unat n \<le> unat (alloclen idl1)"
    using grow_if_needed [OF assms(1,3) _ lt ge] by metis
  note f = midl_form [OF g(2)]
  let ?S = "take (unat n) (spare idl1)" and ?R = "drop (unat n) (spare idl1)"
  let ?ids = "idl_ids idl @ rev (map (\<lambda>k. x + of_nat k) [0..<unat n])"
  let ?cs = "(?len + ucast n) # ?ids @ ?R"
  have c: "cells idl1 = ?len # idl_ids idl @ ?S @ ?R" using f(1) g(3,4) by simp
  have la: "length (idl_ids idl) = unat ?len" using f(2) g(3,4) by simp
  have "aset (cells idl1) 0 (?len + ucast n) = Inr ((?len + ucast n) # idl_ids idl @ ?S @ ?R)"
    by (subst c) (simp add: aset_def)
  moreover have "fill_range (unat ?len) (unat n) x ((?len + ucast n) # idl_ids idl @ ?S @ ?R) = Inr ?cs"
    using fill_range_ok [OF la, of ?S "unat n" x _ ?R] f(3) g(3,5) by simp
  ultimately have "mdb_midl_append_range m idl x n = Inr (0, idl1\<lparr>cells := ?cs\<rparr>)"
    by (simp add: mdb_midl_append_range_def ids_ok_aget0 [OF midl_ok_ids [OF assms(1)]] g(1))
  moreover have "midl_ok (idl1\<lparr>cells := ?cs\<rparr>)" "idl_ids (idl1\<lparr>cells := ?cs\<rparr>) = ?ids"
    using midl_okI [of "idl1\<lparr>cells := ?cs\<rparr>" "?len + ucast n" ?ids ?R] s la f(3) g(2,3,5)
    by (simp_all add: midl_ok_def)
  ultimately show ?thesis by auto
qed

text \<open>The append operations of an allocated list. With memory, \<open>mdb_midl_append\<close>,
  \<open>mdb_midl_append_list\<close> and \<open>mdb_midl_append_range\<close> return 0, keep the invariant and append the
  ID, the IDs of the other list, and the range of IDs in descending order, however often the list has
  to grow; nothing is written outside the allocated cells. Without memory a full list is left as it is
  and \<open>ENOMEM\<close> is returned.\<close>

theorem midl_appends:
  assumes "midl_ok idl" and "unat (alloclen idl) < 2 ^ 59" and "mem_ok m" and "ids_ok app"
    and "unat (app ! 0) < 2 ^ 31" and "unat n < 2 ^ 31"
  shows "(\<exists>idl'. mdb_midl_append m idl x = Inr (0, idl') \<and> midl_ok idl' \<and> idl_ids idl' = idl_ids idl @ [x]) \<and>
    (\<exists>idl'. mdb_midl_append_list m idl app = Inr (0, idl') \<and> midl_ok idl' \<and> idl_ids idl' = idl_ids idl @ ids_of app) \<and>
    (\<exists>idl'. mdb_midl_append_range m idl x n = Inr (0, idl') \<and> midl_ok idl' \<and>
        idl_ids idl' = idl_ids idl @ rev (map (\<lambda>k. x + of_nat k) [0..<unat n])) \<and>
    (cells idl ! 0 = alloclen idl \<longrightarrow> mdb_midl_append (m\<lparr>mem_ok := False\<rparr>) idl x = Inr (ENOMEM, idl))"
proof (intro conjI impI)
  assume "cells idl ! 0 = alloclen idl"
  then show "mdb_midl_append (m\<lparr>mem_ok := False\<rparr>) idl x = Inr (ENOMEM, idl)"
    by (simp add: mdb_midl_append_def mdb_midl_grow_def ids_ok_aget0 [OF midl_ok_ids [OF assms(1)]] ENOMEM_def)
qed (use append_ok [OF assms(1-3)] append_list_ok [OF assms(1-5)] append_range_ok [OF assms(1-3,6)] in blast)+

definition ex_mem :: mem where
  "ex_mem = \<lparr>mem_ok = True, mem_fill = (\<lambda>_. 0)\<rparr>"

definition ex_midl :: midl where
  "ex_midl = \<lparr>alloclen = 3, cells = [2, 9, 8, 0]\<rparr>"

theorem midl_appends_witness:
  "\<exists>idl'. mdb_midl_append_range ex_mem ex_midl 3 4 = Inr (0, idl') \<and> idl_ids idl' = [9, 8, 6, 5, 4, 3]"
proof -
  have "midl_ok ex_midl" "unat (alloclen ex_midl) < 2 ^ 59" "mem_ok ex_mem" "ids_ok [0]" "unat ([0::MDB_ID] ! 0) < 2 ^ 31"
    "unat (4 :: u32) < 2 ^ 31"
    by (simp_all add: midl_ok_def ids_ok_def ex_midl_def ex_mem_def)
  note m = midl_appends [OF this, of 3]
  have "idl_ids ex_midl @ rev (map (\<lambda>k. 3 + of_nat k) [0..<unat (4 :: u32)]) = [9, 8, 6, 5, 4, 3]"
    by (simp add: idl_ids_def ids_of_def ex_midl_def take_Cons' upt_rec)
  with m show ?thesis by auto
qed

end
