(* ===== verification/Mid2l_Correct.thy ===== *)
theory Mid2l_Correct
  imports Midl_Correct
begin

text \<open>
  ID/pointer lists: the search and the sorted insertion that \<open>mdb_page_dirty\<close> uses for the list of
  dirty pages, the append that it uses when pages come in order, and the room that
  \<open>mdb_midl_need\<close> makes.
\<close>

definition id2_of :: "MDB_ID2 list \<Rightarrow> MDB_ID2 list" where
  "id2_of cs = take (unat (mid (cs ! 0))) (drop 1 cs)"

text \<open>An ascending list without duplicates, with at least the cells that the count says.\<close>

definition id2_asc :: "MDB_ID2 list \<Rightarrow> bool" where
  "id2_asc cs \<longleftrightarrow> unat (mid (cs ! 0)) < length cs \<and> unat (mid (cs ! 0)) \<le> MDB_IDL_UM_MAX \<and>
     sorted_wrt (\<lambda>x y. mid x < mid y) (id2_of cs)"

definition id2_count :: "MDB_ID2 list \<Rightarrow> u32" where
  "id2_count cs = ucast (mid (cs ! 0))"

lemma UM_MAX_small: "MDB_IDL_UM_MAX < 2 ^ 31" "MDB_IDL_UM_MAX = 131071"
  by (simp_all add: MDB_IDL_UM_MAX_def MDB_IDL_UM_SIZE_def MDB_IDL_LOGN_def)

lemma id2_of_Cons: "length ys = unat (mid h) \<Longrightarrow> id2_of (h # ys @ R) = ys"
  by (simp add: id2_of_def)

lemma id2_asc_bounds:
  assumes "id2_asc cs"
  shows "unat (id2_count cs) = unat (mid (cs ! 0))" "unat (mid (cs ! 0)) < length cs"
    "length (id2_of cs) = unat (mid (cs ! 0))" "aget cs 0 = Inr (cs ! 0)" "Suc (unat (id2_count cs)) < 2 ^ 32"
proof -
  have l: "unat (mid (cs ! 0)) < length cs" "unat (mid (cs ! 0)) \<le> MDB_IDL_UM_MAX"
    using assms by (auto simp: id2_asc_def)
  then show "unat (mid (cs ! 0)) < length cs" "length (id2_of cs) = unat (mid (cs ! 0))"
    by (simp_all add: id2_of_def)
  show c: "unat (id2_count cs) = unat (mid (cs ! 0))"
    unfolding id2_count_def using l(2) UM_MAX_small by (intro unat_ucast_small) simp
  show "Suc (unat (id2_count cs)) < 2 ^ 32" using c l(2) UM_MAX_small by simp
  show "aget cs 0 = Inr (cs ! 0)" using l(1) by (metis aget_ok le0 le_less_trans)
qed

lemma nth_id2_of: "id2_asc cs \<Longrightarrow> k < unat (mid (cs ! 0)) \<Longrightarrow> id2_of cs ! k = cs ! Suc k"
  by (simp add: id2_of_def id2_asc_def)

lemma id2_asc_nth:
  assumes "id2_asc cs" "1 \<le> c" "c \<le> d" "d \<le> unat (mid (cs ! 0))"
  shows "mid (cs ! c) \<le> mid (cs ! d)"
proof (cases "c = d")
  case False
  then have "c - 1 < d - 1" "d - 1 < length (id2_of cs)" using assms id2_asc_bounds [OF assms(1)] by auto
  then have "mid (id2_of cs ! (c - 1)) < mid (id2_of cs ! (d - 1))"
    using assms(1) by (auto simp: id2_asc_def sorted_wrt_iff_nth_less)
  then show ?thesis using assms by (auto simp: nth_id2_of)
qed simp

lemma id2_cmp_eq: "id2_asc cs \<Longrightarrow> c \<le> unat (mid (cs ! 0)) \<Longrightarrow> id2_cmp cs x c = Inr (CMP x (mid (cs ! c)))"
  by (simp add: id2_cmp_def id2_asc_def)

interpretation mid2l: search_array id2_asc id2_count id2_cmp
proof unfold_locales
  fix a :: "MDB_ID2 list" and c :: nat and k :: MDB_ID
  assume "id2_asc a" "1 \<le> c" "c \<le> unat (id2_count a)"
  then show "\<exists>v. id2_cmp a k c = Inr v" by (simp add: id2_asc_bounds id2_cmp_eq)
next
  fix a :: "MDB_ID2 list" and c d :: nat and k :: MDB_ID and v w :: int
  assume a: "id2_asc a" "1 \<le> c" "c \<le> d" "d \<le> unat (id2_count a)" "id2_cmp a k c = Inr v" "id2_cmp a k d = Inr w"
  then have "v = CMP k (mid (a ! c))" "w = CMP k (mid (a ! d))" by (simp_all add: id2_asc_bounds id2_cmp_eq)
  then show "sgn w \<le> sgn v" using id2_asc_nth [OF a(1-3)] a(1,4) by (simp add: id2_asc_bounds CMP_mono)
qed

lemma mid2l_search_ok:
  assumes "id2_asc cs"
  obtains x where "mdb_mid2l_search cs k = Inr x" and "1 \<le> unat x" and "unat x \<le> Suc (unat (mid (cs ! 0)))"
    and "k \<in> mid ` set (id2_of cs) \<longleftrightarrow> unat x \<le> unat (mid (cs ! 0)) \<and> mid (cs ! unat x) = k"
    and "k \<notin> mid ` set (id2_of cs) \<Longrightarrow>
      (\<forall>y\<in>set (take (unat x - 1) (id2_of cs)). mid y < k) \<and> (\<forall>y\<in>set (drop (unat x - 1) (id2_of cs)). k < mid y)"
proof -
  note b = id2_asc_bounds [OF assms]
  note cmp = id2_cmp_eq [OF assms, of _ k]
  from mid2l.search_finds [OF assms b(5), of k] obtain f x where
    s: "search_loop (id2_cmp cs k) 0 1 0 (id2_count cs) = Inr (f, x)" "1 \<le> unat x"
      "unat x \<le> Suc (unat (id2_count cs))"
      "f \<Longrightarrow> unat x \<le> unat (id2_count cs) \<and> id2_cmp cs k (unat x) = Inr 0"
      "\<And>c. \<not> f \<Longrightarrow> 1 \<le> c \<Longrightarrow> c < unat x \<Longrightarrow> pos_at (id2_cmp cs k) c"
      "\<And>c. \<not> f \<Longrightarrow> unat x \<le> c \<Longrightarrow> c \<le> unat (id2_count cs) \<Longrightarrow> neg_at (id2_cmp cs k) c" by metis
  have m: "mdb_mid2l_search cs k = Inr x"
    using s(1) b(4) by (simp add: mdb_mid2l_search_def id2_count_def)
  have lo: "mid (cs ! c) < k" if "\<not> f" "1 \<le> c" "c < unat x" for c
    using s(5) [OF that] cmp [of c] that s(3) by (auto simp: pos_at_def b(1) CMP_def split: if_splits)
  have hi: "k < mid (cs ! c)" if "\<not> f" "unat x \<le> c" "c \<le> unat (mid (cs ! 0))" for c
    using s(6) [OF that(1,2)] cmp [of c] that by (auto simp: neg_at_def b(1) CMP_def split: if_splits)
  have mem: "y \<in> set (id2_of cs) \<longleftrightarrow> (\<exists>c. 1 \<le> c \<and> c \<le> unat (mid (cs ! 0)) \<and> y = cs ! c)" for y
  proof
    assume "y \<in> set (id2_of cs)"
    then obtain i where "i < unat (mid (cs ! 0))" "y = cs ! Suc i"
      using b(3) by (auto simp: in_set_conv_nth nth_id2_of [OF assms])
    then show "\<exists>c. 1 \<le> c \<and> c \<le> unat (mid (cs ! 0)) \<and> y = cs ! c" by (intro exI [of _ "Suc i"]) auto
  next
    assume "\<exists>c. 1 \<le> c \<and> c \<le> unat (mid (cs ! 0)) \<and> y = cs ! c"
    then obtain c where "1 \<le> c" "c \<le> unat (mid (cs ! 0))" "y = cs ! c" by blast
    then show "y \<in> set (id2_of cs)"
      using b(3) by (auto simp: in_set_conv_nth nth_id2_of [OF assms] intro!: exI [of _ "c - 1"])
  qed
  have found: "f \<longleftrightarrow> unat x \<le> unat (mid (cs ! 0)) \<and> mid (cs ! unat x) = k"
  proof
    assume f
    then show "unat x \<le> unat (mid (cs ! 0)) \<and> mid (cs ! unat x) = k"
      using s(4) cmp [of "unat x"] by (auto simp: b(1) CMP_def split: if_splits)
  next
    assume "unat x \<le> unat (mid (cs ! 0)) \<and> mid (cs ! unat x) = k"
    then show f using hi [of "unat x"] by auto
  qed
  have iff: "k \<in> mid ` set (id2_of cs) \<longleftrightarrow> f"
  proof
    assume f
    then show "k \<in> mid ` set (id2_of cs)" using found s(2) mem [of "cs ! unat x"] by auto
  next
    assume "k \<in> mid ` set (id2_of cs)"
    then obtain c where c: "1 \<le> c" "c \<le> unat (mid (cs ! 0))" "mid (cs ! c) = k" using mem by auto
    show f
    proof (rule ccontr)
      assume "\<not> f"
      then show False using lo [of c] hi [of c] c by (cases "c < unat x") auto
    qed
  qed
  have "(\<forall>y\<in>set (take (unat x - 1) (id2_of cs)). mid y < k) \<and> (\<forall>y\<in>set (drop (unat x - 1) (id2_of cs)). k < mid y)"
    if "k \<notin> mid ` set (id2_of cs)"
    using that lo hi iff s(2,3) b(1,3) by (auto simp: in_set_conv_nth nth_id2_of [OF assms])
  then show ?thesis using that m s(2,3) b(1) iff found by simp
qed

lemma insort_split:
  assumes "\<forall>y\<in>set xs. f y < f e" and "\<forall>y\<in>set ys. f e < f y"
  shows "insort_key f e (xs @ ys) = xs @ e # ys"
  using assms
proof (induction xs)
  case Nil
  then show ?case by (cases ys) (auto simp: less_imp_le)
next
  case (Cons x xs)
  then show ?case by (auto dest: leD)
qed

lemma mid2l_insert_ok:
  assumes "id2_asc cs" and "Suc (unat (mid (cs ! 0))) < length cs"
  shows "if mid e \<in> mid ` set (id2_of cs) then mdb_mid2l_insert cs e = Inr (- 1, cs)
    else if unat (mid (cs ! 0)) = MDB_IDL_UM_MAX then mdb_mid2l_insert cs e = Inr (- 2, cs)
    else \<exists>cs'. mdb_mid2l_insert cs e = Inr (0, cs') \<and> id2_asc cs' \<and> length cs' = length cs \<and>
      id2_of cs' = insort_key mid e (id2_of cs)"
proof -
  note b = id2_asc_bounds [OF assms(1)]
  let ?n = "unat (mid (cs ! 0))"
  obtain x where x: "mdb_mid2l_search cs (mid e) = Inr x" "1 \<le> unat x" "unat x \<le> Suc ?n"
     "mid e \<in> mid ` set (id2_of cs) \<longleftrightarrow> unat x \<le> ?n \<and> mid (cs ! unat x) = mid e"
     "mid e \<notin> mid ` set (id2_of cs) \<Longrightarrow>
      (\<forall>y\<in>set (take (unat x - 1) (id2_of cs)). mid y < mid e) \<and> (\<forall>y\<in>set (drop (unat x - 1) (id2_of cs)). mid e < mid y)"
    using mid2l_search_ok [OF assms(1), of "mid e"] by metis
  have x0: "\<not> x < 1" using x(2) by (simp add: word_less_nat_alt)
  have ux: "unat (ucast x :: size_t) = unat x"
    by (simp only: unsigned_ucast_eq take_bit_nat_eq_self_iff) (use unat_lt_pow [of x] in simp)
  have dup: "id2_dup cs x e = Inr (mid e \<in> mid ` set (id2_of cs))"
    using b(4) x(4) assms(2) by (auto simp: id2_dup_def word_le_nat_alt ux)
  show ?thesis
  proof (cases "mid e \<in> mid ` set (id2_of cs)")
    case True
    then show ?thesis using x(1) x0 dup by (simp add: mdb_mid2l_insert_def)
  next
    case new: False
    have um: "unat (of_nat MDB_IDL_UM_MAX :: size_t) = MDB_IDL_UM_MAX" by (simp add: UM_MAX_small)
    have le: "?n \<le> MDB_IDL_UM_MAX" using assms(1) by (simp add: id2_asc_def)
    show ?thesis
    proof (cases "?n = MDB_IDL_UM_MAX")
      case True
      then have "of_nat MDB_IDL_UM_MAX \<le> mid (cs ! 0)" by (simp add: word_le_nat_alt um)
      then show ?thesis using new True x(1) x0 dup b(4) by (simp add: mdb_mid2l_insert_def)
    next
      case False
      then have lt: "?n < MDB_IDL_UM_MAX" using le by simp
      then have nle: "\<not> of_nat MDB_IDL_UM_MAX \<le> mid (cs ! 0)" by (simp add: word_le_nat_alt um)
      have n1: "unat (mid (cs ! 0) + 1) = Suc ?n"
        using lt UM_MAX_small by (intro unat_Suc_word) simp
      then have n2: "unat (ucast (mid (cs ! 0) + 1) :: u32) = Suc ?n"
        using lt UM_MAX_small by (subst unat_ucast_small) simp_all
      let ?h = "(cs ! 0)\<lparr>mid := mid (cs ! 0) + 1\<rparr>"
      let ?c1 = "cs[0 := ?h]"
      let ?xs = "take (unat x - 1) (id2_of cs)" and ?ys = "drop (unat x - 1) (id2_of cs)"
      let ?r = "?h # (?xs @ e # ?ys) @ drop (Suc (Suc ?n)) cs"
      have c1: "?c1 = ?h # id2_of cs @ drop (Suc ?n) cs"
        using assms(2) by (cases cs) (auto simp: id2_of_def)
      have "bindE (shift_up (Suc ?n) (unat x) ?c1) (\<lambda>ys. aset ys (unat x) e) = Inr ?r"
      proof -
        have "take (unat x) ?c1 = ?h # ?xs" using x(2,3) b(3) unfolding c1 by (simp add: take_Cons')
        moreover have "take (Suc ?n - unat x) (drop (unat x) ?c1) = ?ys"
          using x(2,3) b(3) unfolding c1 by (simp add: drop_Cons')
        moreover have "drop (Suc (Suc ?n)) ?c1 = drop (Suc (Suc ?n)) cs" by simp
        ultimately show ?thesis using shift_insert [of "unat x" "Suc ?n" ?c1 e] x(3) assms(2) by simp
      qed
      then obtain ys where ys: "shift_up (Suc ?n) (unat x) ?c1 = Inr ys" "aset ys (unat x) e = Inr ?r"
        unfolding bindE_eq_Inr_iff by blast
      have "aset cs 0 ?h = Inr ?c1" by (rule aset_ok) (use assms(2) in linarith)
      then have ins: "mdb_mid2l_insert cs e = Inr (0, ?r)"
        using x(1) x0 dup new b(4) nle n2 ys by (simp add: mdb_mid2l_insert_def del: shift_up.simps)
      have len: "length (?xs @ e # ?ys) = Suc ?n" using b(3) x(3) by simp
      have of: "id2_of ?r = ?xs @ e # ?ys" by (rule id2_of_Cons) (use len n1 in simp)
      have "sorted_wrt (\<lambda>x y. mid x < mid y) (id2_of cs)" using assms(1) by (simp add: id2_asc_def)
      then have "sorted_wrt (\<lambda>x y. mid x < mid y) (?xs @ ?ys)" by simp
      then have "sorted_wrt (\<lambda>x y. mid x < mid y) (?xs @ e # ?ys)"
        using x(5) [OF new] unfolding sorted_wrt_append by auto
      then have "id2_asc ?r" using of n1 lt len by (simp add: id2_asc_def)
      moreover have "insort_key mid e (?xs @ ?ys) = ?xs @ e # ?ys"
        using x(5) [OF new] by (intro insort_split) auto
      moreover have "length ?r = length cs" using len assms(2) by simp
      ultimately show ?thesis using ins new False of by auto
    qed
  qed
qed

text \<open>\<open>mdb_mid2l_insert\<close> into an ascending list with a free cell is the sorted insertion: it returns 0
  and the list gains the pair at its place, it returns -1 and changes nothing when the ID is already
  there, and -2 when the list already has \<open>MDB_IDL_UM_MAX\<close> entries.\<close>

theorem mid2l_insert_sorted:
  assumes "id2_asc cs" and "Suc (unat (mid (cs ! 0))) < length cs"
  shows "if mid e \<in> mid ` set (id2_of cs) then mdb_mid2l_insert cs e = Inr (- 1, cs)
    else if unat (mid (cs ! 0)) = MDB_IDL_UM_MAX then mdb_mid2l_insert cs e = Inr (- 2, cs)
    else \<exists>cs'. mdb_mid2l_insert cs e = Inr (0, cs') \<and> id2_asc cs' \<and> length cs' = length cs \<and>
      id2_of cs' = insort_key mid e (id2_of cs)"
  by (rule mid2l_insert_ok [OF assms])

definition ex_id2l :: "MDB_ID2 list" where
  "ex_id2l = [\<lparr>mid = 2, mptr = 0\<rparr>, \<lparr>mid = 4, mptr = 1\<rparr>, \<lparr>mid = 9, mptr = 2\<rparr>, \<lparr>mid = 0, mptr = 0\<rparr>]"

theorem mid2l_insert_sorted_witness:
  "\<exists>cs'. mdb_mid2l_insert ex_id2l \<lparr>mid = 5, mptr = 7\<rparr> = Inr (0, cs') \<and>
     id2_of cs' = insort_key mid \<lparr>mid = 5, mptr = 7\<rparr> (id2_of ex_id2l)"
proof -
  have o: "id2_of ex_id2l = [\<lparr>mid = 4, mptr = 1\<rparr>, \<lparr>mid = 9, mptr = 2\<rparr>]"
    by (simp add: id2_of_def ex_id2l_def take_Cons')
  then have "id2_asc ex_id2l" "Suc (unat (mid (ex_id2l ! 0))) < length ex_id2l"
    by (simp_all add: id2_asc_def) (simp_all add: ex_id2l_def UM_MAX_small)
  note ins = mid2l_insert_sorted [OF this, of "\<lparr>mid = 5, mptr = 7\<rparr>"]
  have "mid \<lparr>mid = 5, mptr = 7\<rparr> \<notin> mid ` set (id2_of ex_id2l)" by (simp add: o)
  moreover have "unat (mid (ex_id2l ! 0)) \<noteq> MDB_IDL_UM_MAX" by (simp add: ex_id2l_def UM_MAX_small)
  ultimately show ?thesis using ins by auto
qed

text \<open>The room that \<open>mdb_midl_need\<close> makes: with memory, and a total that stays below \<open>2 ^ 31\<close>, the list
  keeps its IDs and can take \<open>num\<close> more.\<close>

lemma unat_add_le: "unat (x + y) \<le> unat x + unat y" for x y :: u32
  by (simp only: unat_word_ariths) (rule mod_less_eq_dividend)

lemma and_minus_256:
  fixes x :: u32
  shows "unat x \<le> unat (x AND - 256) + 255" "unat (x AND - 256) \<le> unat x"
proof -
  have m: "- 256 = (NOT (mask 8) :: u32)" by (simp add: mask_eq_exp_minus_1 not_eq_complement)
  have "(x AND NOT (mask 8)) + (x AND mask 8) = x"
    by (subst disjunctive_add_eq_or) (auto intro!: bit_word_eqI simp: bit_simps)
  then have "unat x \<le> unat (x AND NOT (mask 8)) + unat (x AND mask 8)"
    by (metis unat_add_le)
  moreover have "unat (x AND mask 8) \<le> unat (mask 8 :: u32)"
    using word_and_le1 by (simp only: word_le_nat_alt)
  moreover have "unat (mask 8 :: u32) = 255" by (simp add: mask_eq_exp_minus_1)
  ultimately show "unat x \<le> unat (x AND - 256) + 255" unfolding m by linarith
  show "unat (x AND - 256) \<le> unat x" using word_and_le2 by (simp only: word_le_nat_alt)
qed

theorem midl_need_room:
  assumes "midl_ok idl" and "mem_ok m" and "unat (cells idl ! 0) + unat num < 2 ^ 31"
  shows "\<exists>idl'. mdb_midl_need m idl num = Inr (0, idl') \<and> midl_ok idl' \<and> idl_ids idl' = idl_ids idl \<and>
    unat (cells idl ! 0) + unat num \<le> unat (alloclen idl')"
proof -
  let ?l = "cells idl ! 0"
  let ?n1 = "ucast (ucast num + ?l) :: u32"
  let ?x = "?n1 + ?n1 div 4 + (256 + 2)"
  let ?n2 = "?x AND - 256"
  let ?s = "unat ?l + unat num"
  have un: "unat (ucast num :: size_t) = unat num"
    by (simp only: unsigned_ucast_eq take_bit_nat_eq_self_iff) (use unat_lt_pow [of num] in simp)
  have "unat (ucast num + ?l) = ?s" using assms(3) un by (simp add: unat_word_ariths)
  then have n1: "unat ?n1 = ?s" using assms(3) by (subst unat_ucast_small) simp_all
  have u1: "unat (ucast ?n1 :: size_t) = ?s"
    by (simp only: unsigned_ucast_eq [of ?n1] n1 take_bit_nat_eq_self_iff) (use assms(3) in simp)
  have a0: "aget (cells idl) 0 = Inr ?l" by (rule ids_ok_aget0 [OF midl_ok_ids [OF assms(1)]])
  show ?thesis
  proof (cases "alloclen idl < ucast ?n1")
    case False
    then show ?thesis using assms(1) a0 u1
      by (intro exI [of _ idl]) (simp add: mdb_midl_need_def Let_def word_less_nat_alt)
  next
    case True
    then have al: "unat (alloclen idl) < ?s" using u1 by (simp add: word_less_nat_alt)
    have "unat (?n1 div 4) = ?s div 4" by (simp add: unat_div n1)
    then have "unat (?n1 + ?n1 div 4) = ?s + ?s div 4" using assms(3) n1 by (simp add: unat_word_ariths)
    then have x: "unat ?x = ?s + ?s div 4 + 258" using assms(3) by (simp add: unat_word_ariths)
    then have n2: "?s + 3 \<le> unat ?n2" using and_minus_256(1) [of ?x] by linarith
    then have n3: "unat (?n2 - 2) = unat ?n2 - 2" by (simp add: unat_sub word_le_nat_alt)
    have u3: "unat (ucast (?n2 - 2) :: size_t) = unat ?n2 - 2"
      by (simp only: unsigned_ucast_eq [of "?n2 - 2"] n3 take_bit_nat_eq_self_iff)
        (use unat_lt_pow [of ?n2] in simp)
    let ?idl' = "\<lparr>alloclen = ucast (?n2 - 2), cells = fit m (unat ?n2 - 1) (cells idl)\<rparr>"
    let ?F = "map (mem_fill m) [length (cells idl)..<unat ?n2 - 1]"
    have l: "length (cells idl) = Suc (unat (alloclen idl))" using assms(1) by (simp add: midl_ok_def)
    have c: "cells ?idl' = ?l # idl_ids idl @ (spare idl @ ?F)"
      using midl_form(1) [OF assms(1)] l al n2 by (simp add: fit_longer)
    have "length (idl_ids idl) + length (spare idl @ ?F) = unat (alloclen ?idl')"
      using midl_form(2,3) [OF assms(1)] assms(1) l al n2 u3 by (simp add: midl_ok_def)
    from midl_okI [OF c midl_form(2) [OF assms(1)] this] u3 unat_lt_pow [of ?n2]
    have "midl_ok ?idl'" "idl_ids ?idl' = idl_ids idl" by simp_all
    moreover have "mdb_midl_need m idl num = Inr (0, ?idl')"
      using a0 True assms(2) by (simp add: mdb_midl_need_def Let_def)
    ultimately show ?thesis using u3 n2 by auto
  qed
qed

end
