(* ===== verification/Mdb_Page_Get.thy ===== *)
theory Mdb_Page_Get
  imports Mdb_Cursor Mid2l_Correct
begin

text \<open>
  \<open>mdb_page_get\<close> against its contract: where a transaction finds a page. The two binary searches on the ID
  lists of a transaction become membership and lookup.
\<close>

text \<open>The lists of a transaction and of its parents are kept sorted.\<close>

definition txn_lists_ok :: "MDB_txn \<Rightarrow> bool" where
  "txn_lists_ok t \<longleftrightarrow> (\<forall>(sp, dl)\<in>set (mt_lists t). (case sp of None \<Rightarrow> True | Some s \<Rightarrow> idl_desc s) \<and> id2_asc dl)"

text \<open>The contract: the innermost transaction that has spilled the page or holds it dirty decides. A spilled page is in
  the map again.\<close>

fun own_page :: "MDB_txn \<Rightarrow> size_t \<Rightarrow> nat \<Rightarrow> (MDB_ID list option \<times> MDB_ID2 list) list \<Rightarrow> (MDB_page \<times> nat) option" where
  "own_page t pgno level [] = None"
| "own_page t pgno level ((sp, dl) # ls) =
     (if (case sp of None \<Rightarrow> False | Some s \<Rightarrow> push_bit 1 pgno \<in> set (ids_of s)) then Some (me_map t pgno, level)
      else case map_of (map (\<lambda>e. (mid e, mptr e)) (id2_of dl)) pgno of
             Some a \<Rightarrow> Some (me_mem t a, level)
           | None \<Rightarrow> own_page t pgno (level + 1) ls)"

lemma ucast_u32_u64 [simp]: "unat (ucast (x :: u32) :: size_t) = unat x"
  by (simp only: unsigned_ucast_eq take_bit_nat_eq_self_iff) (use unat_lt_pow [of x] in simp)

lemma spilled_ok:
  assumes "idl_desc s"
  shows "bindE (mdb_midl_search s pn) (\<lambda>x. bindE (aget s 0) (\<lambda>n. if ucast x \<le> n then bindE (aget s (unat x)) (\<lambda>v. Inr (v = pn)) else Inr False)) =
     Inr (pn \<in> set (ids_of s))"
proof -
  have ok: "ids_ok s" using assms by (simp add: idl_desc_def)
  obtain x where x: "mdb_midl_search s pn = Inr x" "1 \<le> unat x" "unat x \<le> Suc (length (ids_of s))"
    "pn \<in> set (ids_of s) \<longrightarrow> unat x \<le> length (ids_of s) \<and> ids_of s ! (unat x - 1) = pn"
    using midl_search_ok [OF assms, of pn] by blast
  have le: "(ucast x :: size_t) \<le> s ! 0 \<longleftrightarrow> unat x \<le> length (ids_of s)" using ok by (simp add: word_le_nat_alt)
  have in_len: "unat x < length s" if "unat x \<le> length (ids_of s)" using that ok by (simp add: ids_ok_def)
  have cell: "s ! unat x = ids_of s ! (unat x - 1)" if "unat x \<le> length (ids_of s)" using that x(2) ok by (simp add: nth_ids_of)
  have "pn \<in> set (ids_of s) \<longleftrightarrow> unat x \<le> length (ids_of s) \<and> s ! unat x = pn"
  proof
    assume "unat x \<le> length (ids_of s) \<and> s ! unat x = pn"
    then have "unat x - 1 < length (ids_of s)" "ids_of s ! (unat x - 1) = pn" using x(2) cell by auto
    then show "pn \<in> set (ids_of s)" by (metis nth_mem)
  qed (use x(4) cell in auto)
  then show ?thesis using x(1) ids_ok_aget0 [OF ok] le in_len by (auto simp del: length_ids_of)
qed

lemma dirty_ok:
  assumes "id2_asc dl"
  shows "bindE (aget dl 0) (\<lambda>n. bindE (if mid n \<noteq> 0 then bindE (mdb_mid2l_search dl pgno) (\<lambda>x.
       if ucast x \<le> mid n then bindE (aget dl (unat x)) (\<lambda>e. Inr (if mid e = pgno then Some (mptr e) else None)) else Inr None) else Inr None) g) =
     g (map_of (map (\<lambda>e. (mid e, mptr e)) (id2_of dl)) pgno)"
proof -
  note b = id2_asc_bounds [OF assms]
  let ?m = "map_of (map (\<lambda>e. (mid e, mptr e)) (id2_of dl))"
  obtain x where x: "mdb_mid2l_search dl pgno = Inr x" "1 \<le> unat x" "unat x \<le> Suc (unat (mid (dl ! 0)))"
    "pgno \<in> mid ` set (id2_of dl) \<longleftrightarrow> unat x \<le> unat (mid (dl ! 0)) \<and> mid (dl ! unat x) = pgno"
    using mid2l_search_ok [OF assms, of pgno] by metis
  have srt: "sorted_wrt (<) (map mid (id2_of dl))" using assms by (simp add: id2_asc_def sorted_wrt_map)
  have dis: "distinct (map fst (map (\<lambda>e. (mid e, mptr e)) (id2_of dl)))" using srt by (simp add: comp_def strict_sorted_iff)
  have le: "(ucast x :: size_t) \<le> mid (dl ! 0) \<longleftrightarrow> unat x \<le> unat (mid (dl ! 0))" by (simp add: word_le_nat_alt)
  show ?thesis
  proof (cases "pgno \<in> mid ` set (id2_of dl)")
    case True
    then have f: "unat x \<le> unat (mid (dl ! 0))" "mid (dl ! unat x) = pgno" using x(4) by simp_all
    have "dl ! unat x = id2_of dl ! (unat x - 1)" "unat x - 1 < length (id2_of dl)" using f(1) x(2) b(3) nth_id2_of [OF assms, of "unat x - 1"] by simp_all
    then have "dl ! unat x \<in> set (id2_of dl)" by simp
    then have "?m pgno = Some (mptr (dl ! unat x))" using f(2) by (subst map_of_eq_Some_iff [OF dis]) force
    moreover have "mid (dl ! 0) \<noteq> 0" using f(1) x(2) by auto
    ultimately show ?thesis using b(2,4) f x(1) le by simp
  next
    case False
    then have "?m pgno = None" by (auto simp: map_of_eq_None_iff)
    then show ?thesis using False b(2,4) x(1,4) le by auto
  qed
qed

lemma page_get_dirty_ok:
  assumes "\<forall>(sp, dl)\<in>set ls. (case sp of None \<Rightarrow> True | Some s \<Rightarrow> idl_desc s) \<and> id2_asc dl"
  shows "page_get_dirty t pgno level ls = Inr (own_page t pgno level ls)"
  using assms
proof (induction ls arbitrary: level)
  case (Cons l ls)
  obtain sp dl where l: "l = (sp, dl)" by (cases l)
  have d: "id2_asc dl" and s: "case sp of None \<Rightarrow> True | Some s \<Rightarrow> idl_desc s" using Cons.prems l by auto
  have "(case sp of None \<Rightarrow> Inr False
            | Some s \<Rightarrow> let pn = push_bit 1 pgno in bindE (mdb_midl_search s pn) (\<lambda>x. bindE (aget s 0) (\<lambda>n.
                  if ucast x \<le> n then bindE (aget s (unat x)) (\<lambda>v. Inr (v = pn)) else Inr False))) =
      Inr (case sp of None \<Rightarrow> False | Some s \<Rightarrow> push_bit 1 pgno \<in> set (ids_of s))"
    using s spilled_ok by (cases sp) (simp_all add: Let_def)
  then show ?case using Cons.IH [of "level + 1"] Cons.prems by (simp add: l dirty_ok [OF d] split: option.split)
qed simp

lemma page_get_ok:
  assumes "txn_lists_ok t"
  shows "mdb_page_get pgno t = Inr
    (case (if has_flag (mt_flags t) (MDB_TXN_RDONLY OR MDB_TXN_WRITEMAP) then None else own_page t pgno 1 (mt_lists t)) of
       Some pl \<Rightarrow> (0, t, Some pl)
     | None \<Rightarrow> if pgno < mt_next_pgno t then (0, t, Some (me_map t pgno, 0)) else (MDB_PAGE_NOTFOUND, txn_error t, None))"
  using page_get_dirty_ok [of "mt_lists t" t pgno 1] assms by (simp add: mdb_page_get_def txn_lists_ok_def split: option.split)

text \<open>C21: \<open>mdb_page_get\<close> in a transaction whose ID lists are sorted, nested to any depth: the page comes from the innermost
  transaction that has spilled it (then it is read from the map) or holds it dirty (then from memory), with the level where it was
  found; else from the map when its number is below \<open>mt_next_pgno\<close>, with level 0; else the code is \<open>MDB_PAGE_NOTFOUND\<close> and the
  transaction is marked as failed. Read-only transactions and those of a writable map always use the map.\<close>

theorem page_get_resolves:
  assumes "txn_lists_ok t"
  shows "mdb_page_get pgno t = Inr
    (case (if has_flag (mt_flags t) (MDB_TXN_RDONLY OR MDB_TXN_WRITEMAP) then None else own_page t pgno 1 (mt_lists t)) of
       Some pl \<Rightarrow> (0, t, Some pl)
     | None \<Rightarrow> if pgno < mt_next_pgno t then (0, t, Some (me_map t pgno, 0)) else (MDB_PAGE_NOTFOUND, txn_error t, None))"
  by (rule page_get_ok [OF assms])

text \<open>A child transaction with page 7 dirty, in a parent that has spilled page 6 and holds page 7 dirty as well.\<close>

definition nested_txn :: MDB_txn where
  "nested_txn = \<lparr>mt_flags = 0, mt_next_pgno = 9,
     mt_lists = [(None, [\<lparr>mid = 1, mptr = 0\<rparr>, \<lparr>mid = 7, mptr = 100\<rparr>]), (Some [1, 12], [\<lparr>mid = 1, mptr = 0\<rparr>, \<lparr>mid = 7, mptr = 200\<rparr>])],
     me_map = (\<lambda>_. blank_page P_LEAF), me_mem = (\<lambda>a. if a = 100 then one_node_page else blank_page P_BRANCH), mt_dbs = [], mt_dbxs = [], mt_dbflags = [], mt_dbiseqs = [], me_dbiseqs = []\<rparr>"

theorem page_get_resolves_witness:
  "mdb_page_get 7 nested_txn = Inr (0, nested_txn, Some (one_node_page, 1)) \<and> mdb_page_get 6 nested_txn = Inr (0, nested_txn, Some (blank_page P_LEAF, 2)) \<and>
   mdb_page_get 9 nested_txn = Inr (MDB_PAGE_NOTFOUND, txn_error nested_txn, None)"
proof -
  have ok: "txn_lists_ok nested_txn"
    by (simp add: txn_lists_ok_def nested_txn_def idl_desc_def ids_ok_def ids_of_def id2_asc_def id2_of_def MDB_IDL_UM_MAX_def MDB_IDL_UM_SIZE_def MDB_IDL_LOGN_def)
  show ?thesis
    using page_get_resolves [OF ok, of 7] page_get_resolves [OF ok, of 6] page_get_resolves [OF ok, of 9]
    by (simp add: nested_txn_def ids_of_def id2_of_def has_flag_def)
qed

end
