(* ===== verification/Mdb_Alloc.thy ===== *)
theory Mdb_Alloc
  imports Mdb_Page_Get
begin

text \<open>
  The allocation of pages in a write transaction of LMDB (\<open>lib/lmdb/mdb.c\<close>) and copy-on-write: page memory, the
  list of free pages \<open>me_pghead\<close> and the records of the free database it is filled from, the dirty list, loose pages,
  \<open>mdb_page_copy\<close>, \<open>mdb_page_unspill\<close>, \<open>mdb_page_touch\<close> and \<open>mdb_cursor_touch\<close>.

  A page pointer leads into the map (\<open>Map\<close>, by page number) or into memory of the process (\<open>Mem\<close>, by
  address); only the latter can be written. Cursors of a write transaction hold such pointers. The model covers
  environments without \<open>MDB_WRITEMAP\<close>, as the program opens them, and cursors without sub-cursors. Linked lists of pages are
  lists of their addresses. \<open>malloc\<close> is an argument: for a size it gives an address and what the memory there holds, or fails; so
  is the memory that ID lists are allocated in.
\<close>

subsection \<open>The state\<close>

definition MDB_MAP_FULL :: int where "MDB_MAP_FULL = -30792"
definition MDB_TXN_FULL :: int where "MDB_TXN_FULL = -30788"
definition MDB_NOMEMINIT :: u32 where "MDB_NOMEMINIT = 0x1000000"
definition MDB_WRITEMAP :: u32 where "MDB_WRITEMAP = 0x80000"
definition MDB_TXN_SPILLS :: u32 where "MDB_TXN_SPILLS = 0x08"
definition P_LOOSE :: u16 where "P_LOOSE = 0x4000"
definition FREE_DBI :: nat where "FREE_DBI = 0"
definition CORE_DBS :: nat where "CORE_DBS = 2"
definition DB_DIRTY :: u8 where "DB_DIRTY = 0x01"
definition DB_DUPDATA :: u8 where "DB_DUPDATA = 0x20"

text \<open>\<open>me_txns\<close>: process and transaction number of every slot of the reader table in use.\<close>

record MDB_env =
  me_flags :: u32
  me_psize :: nat
  me_maxpg :: size_t
  me_pghead :: "midl option"
  me_pglast :: size_t
  me_pgoldest :: size_t
  me_txns :: "(int \<times> size_t) list option"
  me_dpages :: "nat list"

record MDB_wtxn =
  w_txn :: MDB_txn
  w_env :: MDB_env
  mt_txnid :: size_t
  mt_free_pgs :: midl
  mt_loose_pgs :: "nat list"
  mt_loose_count :: int
  mt_dirty_room :: u32

datatype pptr = Map size_t | Mem nat

record MDB_wcursor =
  wc_dbi :: nat
  wc_snum :: nat
  wc_top :: nat
  wc_flags :: u32
  wc_pg :: "pptr option list"
  wc_ki :: "nat list"

fun page_at :: "MDB_wtxn \<Rightarrow> pptr \<Rightarrow> MDB_page" where
  "page_at w (Map g) = me_map (w_txn w) g"
| "page_at w (Mem a) = me_mem (w_txn w) a"

definition upd_txn :: "(MDB_txn \<Rightarrow> MDB_txn) \<Rightarrow> MDB_wtxn \<Rightarrow> MDB_wtxn" where
  "upd_txn f w = w\<lparr>w_txn := f (w_txn w)\<rparr>"

definition upd_env :: "(MDB_env \<Rightarrow> MDB_env) \<Rightarrow> MDB_wtxn \<Rightarrow> MDB_wtxn" where
  "upd_env f w = w\<lparr>w_env := f (w_env w)\<rparr>"

definition put_page :: "nat \<Rightarrow> MDB_page \<Rightarrow> MDB_wtxn \<Rightarrow> MDB_wtxn" where
  "put_page a p = upd_txn (\<lambda>t. t\<lparr>me_mem := (me_mem t)(a := p)\<rparr>)"

definition w_error :: "MDB_wtxn \<Rightarrow> MDB_wtxn" where
  "w_error = upd_txn txn_error"

definition has_parent :: "MDB_wtxn \<Rightarrow> bool" where
  "has_parent w \<longleftrightarrow> 1 < length (mt_lists (w_txn w))"

type_synonym malloc = "nat \<Rightarrow> (nat \<times> MDB_page) option"

subsection \<open>Memory\<close>

text \<open>The \<open>memset\<close> of fresh memory: behind the header for one page, the last page for several.\<close>

definition page_init :: "nat \<Rightarrow> nat \<Rightarrow> MDB_page \<Rightarrow> MDB_page" where
  "page_init psize num p =
     (let off = (if num = 1 then PAGEHDRSZ else num * psize - psize); n = (if num = 1 then psize - PAGEHDRSZ else psize) in
      p\<lparr>mp_pad := 0, mp_ptrs := (if num = 1 then replicate (length (mp_ptrs p)) 0 else mp_ptrs p),
        mp_bytes := take off (mp_bytes p) @ replicate n 0 @ drop (off + n) (mp_bytes p)\<rparr>)"

definition mdb_page_malloc :: "malloc \<Rightarrow> nat \<Rightarrow> MDB_wtxn \<Rightarrow> nat option \<times> MDB_wtxn" where
  "mdb_page_malloc m num w =
     (case (num = 1, me_dpages (w_env w)) of
        (True, a # as) \<Rightarrow> (Some a, upd_env (\<lambda>e. e\<lparr>me_dpages := as\<rparr>) w)
      | _ \<Rightarrow>
          (case m (num * me_psize (w_env w)) of
             None \<Rightarrow> (None, w_error w)
           | Some (a, p) \<Rightarrow> (Some a, put_page a (if has_flag (me_flags (w_env w)) MDB_NOMEMINIT then p else page_init (me_psize (w_env w)) num p) w)))"

definition mdb_page_free :: "nat \<Rightarrow> MDB_wtxn \<Rightarrow> MDB_wtxn" where
  "mdb_page_free a = upd_env (\<lambda>e. e\<lparr>me_dpages := a # me_dpages e\<rparr>)"

subsection \<open>Loose pages\<close>

text \<open>\<open>mdb_page_loose\<close> for the page at \<open>p\<close>; \<open>mm\<close> is the memory of \<open>mt_free_pgs\<close>. The result has the code and the flags of the cursor.\<close>

definition mdb_page_loose :: "mem \<Rightarrow> nat \<Rightarrow> u32 \<Rightarrow> pptr \<Rightarrow> MDB_wtxn \<Rightarrow> (int \<times> u32 \<times> MDB_wtxn) res" where
  "mdb_page_loose mm dbi cflags p w =
     (let mp = page_at w p; pgno = mp_pgno mp in
      bindE (if has_flag (mp_flags mp) P_DIRTY \<and> dbi \<noteq> FREE_DBI then
               if has_parent w then
                 bindE (aget (mt_lists (w_txn w)) 0) (\<lambda>(sp, dl). bindE (aget dl 0) (\<lambda>n.
                 if mid n \<noteq> 0 then
                   bindE (mdb_mid2l_search dl pgno) (\<lambda>x.
                     if ucast x \<le> mid n then bindE (aget dl (unat x)) (\<lambda>e. Inr (if mid e = pgno then Some (p = Mem (mptr e)) else None)) else Inr None)
                 else Inr None))
               else Inr (Some True)
             else Inr None) (\<lambda>ours.
      case ours of
        Some False \<Rightarrow> Inr (MDB_CORRUPTED, clear_flag cflags (C_INITIALIZED OR C_EOF), w_error w)
      | Some True \<Rightarrow>
          (case p of
             Map _ \<Rightarrow> Inl Bad_pointer
           | Mem a \<Rightarrow>
               Inr (0, cflags, (put_page a (mp\<lparr>mp_flags := mp_flags mp OR P_LOOSE\<rparr>) w)\<lparr>mt_loose_pgs := a # mt_loose_pgs w, mt_loose_count := mt_loose_count w + 1\<rparr>))
      | None \<Rightarrow>
          bindE (mdb_midl_append mm (mt_free_pgs w) pgno) (\<lambda>(rc, l). Inr (rc, cflags, w\<lparr>mt_free_pgs := l\<rparr>))))"

subsection \<open>The oldest reader\<close>

fun oldest_reader :: "nat \<Rightarrow> (int \<times> size_t) list \<Rightarrow> size_t \<Rightarrow> size_t res" where
  "oldest_reader 0 rs old = Inr old"
| "oldest_reader (Suc i) rs old =
     bindE (aget rs i) (\<lambda>(pid, mr). oldest_reader i rs (if pid \<noteq> 0 \<and> mr < old then mr else old))"

definition mdb_find_oldest :: "MDB_wtxn \<Rightarrow> size_t res" where
  "mdb_find_oldest w =
     (case me_txns (w_env w) of None \<Rightarrow> Inr (mt_txnid w - 1) | Some rs \<Rightarrow> oldest_reader (length rs) rs (mt_txnid w - 1))"

subsection \<open>The dirty list\<close>

definition mdb_page_dirty :: "nat \<Rightarrow> MDB_wtxn \<Rightarrow> MDB_wtxn res" where
  "mdb_page_dirty a w =
     (case mt_lists (w_txn w) of
        [] \<Rightarrow> Inl Bad_pointer
      | (sp, dl) # ls \<Rightarrow>
          let insert = (if has_flag (mt_flags (w_txn w)) MDB_TXN_WRITEMAP then mdb_mid2l_append else mdb_mid2l_insert) in
          bindE (insert dl \<lparr>mid = mp_pgno (me_mem (w_txn w) a), mptr = a\<rparr>) (\<lambda>(rc, dl').
          assertE (rc = 0) (Inr ((upd_txn (\<lambda>t. t\<lparr>mt_lists := (sp, dl') # ls\<rparr>) w)\<lparr>mt_dirty_room := mt_dirty_room w - 1\<rparr>))))"

subsection \<open>The list of free pages\<close>

text \<open>\<open>do { pgno = mop[i]; if (mop[i-n2] == pgno+n2) goto search_done; } while (--i > n2)\<close>.\<close>

fun seek_range :: "nat \<Rightarrow> nat \<Rightarrow> MDB_ID list \<Rightarrow> nat option res" where
  "seek_range n2 0 mop = Inr None"
| "seek_range n2 (Suc i) mop =
     bindE (aget mop (Suc i)) (\<lambda>pgno. bindE (aget mop (Suc i - n2)) (\<lambda>x.
     if x = pgno + of_nat n2 then Inr (Some (Suc i))
     else if n2 < i then seek_range n2 i mop else Inr None))"

text \<open>\<open>for (j = i-num; j < mop_len; ) mop[++j] = mop[++i]\<close>; \<open>n\<close> rounds are left.\<close>

fun move_down :: "nat \<Rightarrow> nat \<Rightarrow> nat \<Rightarrow> MDB_ID list \<Rightarrow> MDB_ID list res" where
  "move_down 0 j i mop = Inr mop"
| "move_down (Suc n) j i mop = bindE (aget mop (Suc i)) (\<lambda>x. bindE (aset mop (Suc j) x) (\<lambda>mop'. move_down n (Suc j) (Suc i) mop'))"

text \<open>The length of \<open>me_pghead\<close>, in the \<open>unsigned\<close> that it is kept in.\<close>

definition mop_len :: "midl option \<Rightarrow> nat res" where
  "mop_len h = (case h of None \<Rightarrow> Inr 0 | Some l \<Rightarrow> bindE (aget (cells l) 0) (\<lambda>n. Inr (unat (ucast n :: u32))))"

definition mop_cells :: "midl option \<Rightarrow> MDB_ID list" where
  "mop_cells h = (case h of None \<Rightarrow> [] | Some l \<Rightarrow> cells l)"

text \<open>The IDs in the data of a record of the free database.\<close>

fun bytes_ids :: "u8 list \<Rightarrow> MDB_ID list" where
  "bytes_ids (a # b # c # d # e # f # g # h # bs) = of_nat (le_val [a, b, c, d, e, f, g, h]) # bytes_ids bs"
| "bytes_ids _ = []"

text \<open>\<open>if (oldest <= last) { if (!found_old) ... }\<close>.\<close>

definition refresh_oldest :: "size_t \<Rightarrow> size_t \<Rightarrow> bool \<Rightarrow> MDB_wtxn \<Rightarrow> (size_t \<times> bool \<times> MDB_wtxn) res" where
  "refresh_oldest lst oldest found w =
     (if oldest \<le> lst \<and> \<not> found then bindE (mdb_find_oldest w) (\<lambda>old. Inr (old, True, upd_env (\<lambda>e. e\<lparr>me_pgoldest := old\<rparr>) w))
      else Inr (oldest, found, w))"

text \<open>Merge the IDs of a record into \<open>me_pghead\<close>: the code and the new state.\<close>

definition merge_record :: "mem \<Rightarrow> size_t \<Rightarrow> MDB_ID list \<Rightarrow> MDB_wtxn \<Rightarrow> (int \<times> MDB_wtxn) res" where
  "merge_record mm lst idl w =
     bindE (aget idl 0) (\<lambda>n.
     let i = ucast n :: u32 in
     bindE (case me_pghead (w_env w) of
              None \<Rightarrow> Inr (case mdb_midl_alloc mm (unat i) of None \<Rightarrow> (ENOMEM, None) | Some l \<Rightarrow> (0, Some l))
            | Some l \<Rightarrow> bindE (mdb_midl_need mm l i) (\<lambda>(rc, l'). Inr (rc, Some l'))) (\<lambda>(rc, h).
     let w1 = upd_env (\<lambda>e. e\<lparr>me_pghead := h\<rparr>) w in
     if rc \<noteq> 0 then Inr (rc, w1)
     else
       (case h of
          None \<Rightarrow> Inl Bad_pointer
        | Some l \<Rightarrow> bindE (mdb_midl_xmerge (cells l) idl) (\<lambda>cs. Inr (0, upd_env (\<lambda>e. e\<lparr>me_pghead := Some (l\<lparr>cells := cs\<rparr>), me_pglast := lst\<rparr>) w)))))"

text \<open>How the loop of \<open>mdb_page_alloc\<close> ends: at \<open>search_done\<close> with \<open>i\<close> and \<open>pgno\<close>, with \<open>break\<close>, or at \<open>fail\<close>.\<close>

datatype alloc_stop = Found nat size_t | Broke | Failed int

definition no_touch :: "cur \<Rightarrow> (int \<times> cur) res" where
  "no_touch c = Inl Bad_pointer"

text \<open>One round from the call of \<open>mdb_cursor_get\<close> on the free database to the merge: a stop, or \<open>None\<close> with the new \<open>last\<close>, \<open>oldest\<close>,
  \<open>found_old\<close> and cursor.\<close>

definition fetch_record :: "mem \<Rightarrow> MDB_cursor_op \<Rightarrow> size_t \<Rightarrow> size_t \<Rightarrow> bool \<Rightarrow> MDB_cursor \<Rightarrow> MDB_wtxn \<Rightarrow>
    ((alloc_stop + size_t \<times> size_t \<times> bool \<times> MDB_cursor) \<times> MDB_wtxn) res" where
  "fetch_record mm op lst oldest found m2 w =
     bindE (mdb_cursor_get no_touch op (Some (le64 lst), None) (w_txn w, m2)) (\<lambda>(rc, kd, t, m2').
     let w1 = w\<lparr>w_txn := t\<rparr> in
     if rc \<noteq> 0 then Inr (Inl (if rc = MDB_NOTFOUND then Broke else Failed rc), w1)
     else
       (case fst kd of
          None \<Rightarrow> Inl Bad_pointer
        | Some key \<Rightarrow>
            bindE (load_le 8 key) (\<lambda>l.
            let lst' = of_nat l in
            bindE (refresh_oldest lst' oldest found w1) (\<lambda>(oldest', found', w2).
            if oldest' \<le> lst' then Inr (Inl Broke, w2)
            else
              bindE (top_page m2') (\<lambda>np. bindE (top_ki m2') (\<lambda>k. bindE (mdb_node_read (w_txn w2) np k) (\<lambda>(rc2, t2, v).
              let w3 = w2\<lparr>w_txn := t2\<rparr> in
              if rc2 \<noteq> 0 then Inr (Inl (Failed rc2), w3)
              else
                bindE (merge_record mm lst' (bytes_ids v) w3) (\<lambda>(rc3, w4).
                if rc3 \<noteq> 0 then Inr (Inl (Failed rc3), w4) else Inr (Inr (lst', oldest', found', m2'), w4)))))))))"

text \<open>\<open>for (op = MDB_FIRST;; op = MDB_NEXT)\<close>; \<open>mm n\<close> is the memory in the round with \<open>n\<close> rounds left after it.\<close>

fun alloc_loop :: "nat \<Rightarrow> (nat \<Rightarrow> mem) \<Rightarrow> nat \<Rightarrow> MDB_cursor_op \<Rightarrow> int \<Rightarrow> size_t \<Rightarrow> size_t \<Rightarrow> bool \<Rightarrow> MDB_cursor \<Rightarrow> MDB_wtxn \<Rightarrow>
    (alloc_stop \<times> MDB_wtxn) res" where
  "alloc_loop 0 mm n2 op retry lst oldest found m2 w = Inl Diverges"
| "alloc_loop (Suc n) mm n2 op retry lst oldest found m2 w =
     bindE (mop_len (me_pghead (w_env w))) (\<lambda>len.
     let mop = mop_cells (me_pghead (w_env w)) in
     bindE (if n2 < len then seek_range n2 len mop else Inr None) (\<lambda>r.
     case r of
       Some i \<Rightarrow> bindE (aget mop i) (\<lambda>pgno. Inr (Found i pgno, w))
     | None \<Rightarrow>
         let retry' = (if n2 < len then retry - 1 else retry) in
         if n2 < len \<and> retry' < 0 then Inr (Broke, w)
         else
           bindE (if op = MDB_FIRST then
                    bindE (mdb_cursor_init no_touch (w_txn w) FREE_DBI) (\<lambda>(t, c).
                      Inr (if me_pglast (w_env w) \<noteq> 0 then MDB_SET_RANGE else MDB_FIRST, me_pglast (w_env w), me_pgoldest (w_env w), c, w\<lparr>w_txn := t\<rparr>))
                  else Inr (op, lst, oldest, m2, w)) (\<lambda>(op1, last1, oldest1, m21, w1).
           bindE (refresh_oldest (last1 + 1) oldest1 found w1) (\<lambda>(oldest2, found2, w2).
           if oldest2 \<le> last1 + 1 then Inr (Broke, w2)
           else
             bindE (fetch_record (mm n) op1 (last1 + 1) oldest2 found2 m21 w2) (\<lambda>(s, w3).
             case s of
               Inl stop \<Rightarrow> Inr (stop, w3)
             | Inr (lst', oldest', found', m2') \<Rightarrow> alloc_loop n mm n2 MDB_NEXT retry' lst' oldest' found' m2' w3)))))"

declare alloc_loop.simps [simp del]

text \<open>From the label \<open>search_done\<close> on.\<close>

definition alloc_done :: "malloc \<Rightarrow> nat \<Rightarrow> nat \<Rightarrow> size_t \<Rightarrow> MDB_wtxn \<Rightarrow> (int \<times> nat option \<times> MDB_wtxn) res" where
  "alloc_done m num i pgno w =
     (if has_flag (me_flags (w_env w)) MDB_WRITEMAP then Inl Assert_failed
      else
        (case mdb_page_malloc m num w of
           (None, w1) \<Rightarrow> Inr (ENOMEM, None, w_error w1)
         | (Some a, w1) \<Rightarrow>
             bindE (if i \<noteq> 0 then
                      (case me_pghead (w_env w1) of
                         None \<Rightarrow> Inl Bad_pointer
                       | Some l \<Rightarrow>
                           bindE (mop_len (Some l)) (\<lambda>len.
                           bindE (aset (cells l) 0 (of_nat (len - num))) (\<lambda>cs.
                           bindE (move_down (len - num - (i - num)) (i - num) i cs) (\<lambda>cs'.
                           Inr (upd_env (\<lambda>e. e\<lparr>me_pghead := Some (l\<lparr>cells := cs'\<rparr>)\<rparr>) w1)))))
                    else Inr (upd_txn (\<lambda>t. t\<lparr>mt_next_pgno := pgno + of_nat num\<rparr>) w1)) (\<lambda>w2.
             bindE (mdb_page_dirty a (put_page a ((me_mem (w_txn w2) a)\<lparr>mp_pgno := pgno\<rparr>) w2)) (\<lambda>w3. Inr (0, Some a, w3)))))"

definition mdb_page_alloc :: "nat \<Rightarrow> (nat \<Rightarrow> mem) \<Rightarrow> malloc \<Rightarrow> nat \<Rightarrow> MDB_wtxn \<Rightarrow> (int \<times> nat option \<times> MDB_wtxn) res" where
  "mdb_page_alloc n mm m num w =
     (case (num = 1, mt_loose_pgs w) of
        (True, a # as) \<Rightarrow> Inr (0, Some a, w\<lparr>mt_loose_pgs := as, mt_loose_count := mt_loose_count w - 1\<rparr>)
      | _ \<Rightarrow>
          if mt_dirty_room w = 0 then Inr (MDB_TXN_FULL, None, w_error w)
          else if 2 ^ 31 \<le> num * 60 then Inl Overflow
          else
            bindE (alloc_loop n mm (num - 1) MDB_FIRST (int num * 60) 0 0 False (cursor_on FREE_DBI) w) (\<lambda>(stop, w1).
            case stop of
              Failed rc \<Rightarrow> Inr (rc, None, w_error w1)
            | Found i pgno \<Rightarrow> alloc_done m num i pgno w1
            | Broke \<Rightarrow>
                let pgno = mt_next_pgno (w_txn w1) in
                if me_maxpg (w_env w1) \<le> pgno + of_nat num then Inr (MDB_MAP_FULL, None, w_error w1) else alloc_done m num 0 pgno w1))"

end
