(* ===== verification/Mdb_Alloc_Correct.thy ===== *)
theory Mdb_Alloc_Correct
  imports Mdb_Alloc
begin

text \<open>
  What the allocation of pages promises: a run of free pages is found when there is one and leaves the free list, the oldest reader
  is the minimum of the reader table, and records of the free database that a reader may still need are left alone.
\<close>

subsection \<open>Runs of page numbers\<close>

definition free_ok :: "MDB_ID list \<Rightarrow> bool" where
  "free_ok cs \<longleftrightarrow> ids_ok cs \<and> unat (cs ! 0) < 2 ^ 32 \<and> sorted_wrt (\<lambda>x y. y < x) (ids_of cs)"

text \<open>The page numbers \<open>g\<close>, \<open>g + 1\<close>, \<open>\<dots>\<close>, \<open>num\<close> of them.\<close>

definition run :: "MDB_ID \<Rightarrow> nat \<Rightarrow> MDB_ID set" where
  "run g num = {x. unat g \<le> unat x \<and> unat x < unat g + num}"

lemma free_cell:
  assumes "free_ok cs" and "1 \<le> k" and "k \<le> unat (cs ! 0)"
  shows "k < length cs" "cs ! k = ids_of cs ! (k - 1)" "k - 1 < length (ids_of cs)"
  using assms nth_ids_of [of "k - 1" cs] by (auto simp: free_ok_def ids_ok_def)

lemma free_desc:
  assumes "free_ok cs" and "1 \<le> j" and "j < k" and "k \<le> unat (cs ! 0)"
  shows "cs ! k < cs ! j"
proof -
  have "ids_of cs ! (k - 1) < ids_of cs ! (j - 1)"
    using assms free_cell(3) [OF assms(1), of k] sorted_wrt_nth_less [of "\<lambda>x y. y < x" "ids_of cs" "j - 1" "k - 1"] by (auto simp: free_ok_def)
  then show ?thesis using free_cell(2) [OF assms(1), of k] free_cell(2) [OF assms(1), of j] assms(2-4) by simp
qed

text \<open>Between two cells of a descending list the numbers differ by their distance at least.\<close>

lemma free_gap:
  assumes "free_ok cs" and "1 \<le> j" and "j + d \<le> unat (cs ! 0)"
  shows "unat (cs ! (j + d)) + d \<le> unat (cs ! j)"
  using assms(3)
proof (induction d)
  case (Suc d)
  have "cs ! (j + Suc d) < cs ! (j + d)" using Suc.prems assms(2) by (intro free_desc [OF assms(1)]) simp_all
  then have "unat (cs ! (j + Suc d)) < unat (cs ! (j + d))" by (simp add: word_less_nat_alt)
  then show ?case using Suc by simp
qed simp

lemma run_at:
  assumes ok: "free_ok cs" and i: "n2 < i" "i \<le> unat (cs ! 0)" and eq: "cs ! (i - n2) = cs ! i + of_nat n2"
  shows "set (take (Suc n2) (drop (i - Suc n2) (ids_of cs))) = run (cs ! i) (Suc n2)"
proof -
  let ?l = "i - n2"
  have gap: "unat (cs ! i) + n2 \<le> unat (cs ! ?l)" using free_gap [OF ok, of ?l n2] i by simp
  have "unat (cs ! ?l) = unat (cs ! i) + n2"
  proof (rule antisym)
    have "unat (cs ! i) + n2 < 2 ^ 64" using gap unat_lt_pow [of "cs ! ?l"] by simp
    then show "unat (cs ! ?l) \<le> unat (cs ! i) + n2" unfolding eq by (simp add: unat_word_ariths unsigned_of_nat take_bit_nat_def)
  qed (rule gap)
  note top = this
  have cell: "unat (cs ! (?l + k)) = unat (cs ! i) + (n2 - k)" if "k \<le> n2" for k
  proof -
    have a: "1 \<le> ?l" "?l + k \<le> unat (cs ! 0)" "1 \<le> ?l + k" "?l + k + (n2 - k) = i" using that i by linarith+
    have "unat (cs ! (?l + k)) + k \<le> unat (cs ! ?l)" using free_gap [OF ok a(1,2)] .
    moreover have "unat (cs ! i) + (n2 - k) \<le> unat (cs ! (?l + k))" using free_gap [OF ok a(3), of "n2 - k"] a(4) i(2) by simp
    ultimately show ?thesis using top that by linarith
  qed
  have len: "length (ids_of cs) = unat (cs ! 0)" using ok by (simp add: free_ok_def)
  let ?xs = "take (Suc n2) (drop (i - Suc n2) (ids_of cs))"
  have nth: "?xs ! k = cs ! (?l + k)" if "k \<le> n2" for k
    using that i free_cell(2) [OF ok, of "?l + k"] len by simp
  have lx: "length ?xs = Suc n2" using i len by simp
  show ?thesis
  proof (intro equalityI subsetI)
    fix x assume "x \<in> set ?xs"
    then obtain k where "k \<le> n2" "x = cs ! (?l + k)" using nth lx by (auto simp: in_set_conv_nth less_Suc_eq_le)
    then have "unat x = unat (cs ! i) + (n2 - k)" using cell [of k] by simp
    then show "x \<in> run (cs ! i) (Suc n2)" unfolding run_def mem_Collect_eq by linarith
  next
    fix x assume x: "x \<in> run (cs ! i) (Suc n2)"
    define k where "k = n2 - (unat x - unat (cs ! i))"
    have "k \<le> n2" "unat x = unat (cs ! i) + (n2 - k)" using x by (auto simp: run_def k_def)
    then have "unat x = unat (cs ! (?l + k))" using cell [of k] by simp
    then have "x = ?xs ! k" using nth [OF \<open>k \<le> n2\<close>] by (simp add: word_unat_eq_iff)
    then show "x \<in> set ?xs" using \<open>k \<le> n2\<close> lx by (metis less_Suc_eq_le nth_mem)
  qed
qed

text \<open>A run inside the list is found at its smallest number.\<close>

lemma run_in_list:
  assumes ok: "free_ok cs" and sub: "run g (Suc n2) \<subseteq> set (ids_of cs)" and g: "unat g + n2 < 2 ^ 64"
  obtains i where "n2 < i" "i \<le> unat (cs ! 0)" "cs ! i = g" "cs ! (i - n2) = cs ! i + of_nat n2"
proof -
  have len: "length (ids_of cs) = unat (cs ! 0)" using ok by (simp add: free_ok_def)
  have pos: "\<exists>i. 1 \<le> i \<and> i \<le> unat (cs ! 0) \<and> cs ! i = x" if x: "x \<in> set (ids_of cs)" for x
  proof -
    obtain k where "k < length (ids_of cs)" "ids_of cs ! k = x" using x by (auto simp: in_set_conv_nth)
    then show ?thesis using free_cell(2) [OF ok, of "Suc k"] len by (intro exI [of _ "Suc k"]) simp
  qed
  have mem: "g + of_nat k \<in> set (ids_of cs)" and un: "unat (g + of_nat k) = unat g + k" if "k \<le> n2" for k
  proof -
    show "unat (g + of_nat k) = unat g + k" using that g by (simp add: unat_word_ariths unsigned_of_nat take_bit_nat_def)
    then show "g + of_nat k \<in> set (ids_of cs)" using sub that by (auto simp: run_def)
  qed
  obtain i where i: "1 \<le> i" "i \<le> unat (cs ! 0)" "cs ! i = g" using pos [OF mem [of 0]] by auto
  have "k < i \<and> cs ! (i - k) = g + of_nat k" if "k \<le> n2" for k
    using that
  proof (induction k)
    case (Suc k)
    obtain j where j: "1 \<le> j" "j \<le> unat (cs ! 0)" "cs ! j = g + of_nat (Suc k)" using pos [OF mem [OF Suc.prems]] by auto
    have ik: "k < i" "cs ! (i - k) = g + of_nat k" using Suc by simp_all
    have lt: "cs ! (i - k) < cs ! j" using un [of k] un [OF Suc.prems] Suc.prems unfolding j(3) ik(2) word_less_nat_alt by simp
    have ji: "j < i - k" 
    proof (rule ccontr)
      assume "\<not> j < i - k"
      then consider "j = i - k" | "i - k < j" by linarith
      then show False
      proof cases
        case 2
        then have "cs ! j < cs ! (i - k)" using free_desc [OF ok, of "i - k" j] ik(1) j(2) by simp
        then show False using lt by simp
      qed (use lt in simp)
    qed
    have "j + (i - k - j) = i - k" using ji by simp
    then have "unat (cs ! (i - k)) + (i - k - j) \<le> unat (cs ! j)" using free_gap [OF ok j(1), of "i - k - j"] i(2) by simp
    then have "i - k - j \<le> 1" using un [of k] un [OF Suc.prems] Suc.prems unfolding j(3) ik(2) by simp
    then have "j = i - Suc k" using ji by simp
    then show ?case using j ji by auto
  qed (use i in simp)
  then have "n2 < i" "cs ! (i - n2) = g + of_nat n2" by blast+
  then show thesis using that i by simp
qed

subsection \<open>The search for a run\<close>

lemma seek_range_ok:
  assumes ok: "free_ok cs"
  shows "n2 < i \<Longrightarrow> i \<le> unat (cs ! 0) \<Longrightarrow> \<exists>r. seek_range n2 i cs = Inr r \<and>
     (case r of Some j \<Rightarrow> n2 < j \<and> j \<le> i \<and> cs ! (j - n2) = cs ! j + of_nat n2
      | None \<Rightarrow> (\<forall>j. n2 < j \<and> j \<le> i \<longrightarrow> cs ! (j - n2) \<noteq> cs ! j + of_nat n2))"
proof (induction i)
  case (Suc i)
  have c: "Suc i < length cs" "Suc i - n2 < length cs" using free_cell(1) [OF ok, of "Suc i"] Suc.prems by simp_all
  show ?case
  proof (cases "cs ! (Suc i - n2) = cs ! Suc i + of_nat n2")
    case True
    then show ?thesis using c Suc.prems by simp
  next
    case no: False
    show ?thesis
    proof (cases "n2 < i")
      case True
      then obtain r where r: "seek_range n2 i cs = Inr r"
        "case r of Some j \<Rightarrow> n2 < j \<and> j \<le> i \<and> cs ! (j - n2) = cs ! j + of_nat n2
         | None \<Rightarrow> (\<forall>j. n2 < j \<and> j \<le> i \<longrightarrow> cs ! (j - n2) \<noteq> cs ! j + of_nat n2)" using Suc by auto
      then show ?thesis using c no True by (cases r) (auto simp: le_Suc_eq)
    next
      case False
      then have "i = n2" using Suc.prems by simp
      then show ?thesis using c no by (auto simp: le_Suc_eq)
    qed
  qed
qed simp

text \<open>Taking a run out of the list.\<close>

lemma move_down_ok:
  "j \<le> i \<Longrightarrow> i + n < length cs \<Longrightarrow> move_down n j i cs = Inr (take (Suc j) cs @ take n (drop (Suc i) cs) @ drop (Suc j + n) cs)"
proof (induction n arbitrary: j i cs)
  case (Suc n)
  let ?cs = "cs[Suc j := cs ! Suc i]"
  have "move_down (Suc n) j i cs = move_down n (Suc j) (Suc i) ?cs" using Suc.prems by simp
  also have "\<dots> = Inr (take (Suc (Suc j)) ?cs @ take n (drop (Suc (Suc i)) ?cs) @ drop (Suc (Suc j) + n) ?cs)"
    using Suc.prems by (intro Suc.IH) simp_all
  also have "take (Suc (Suc j)) ?cs @ take n (drop (Suc (Suc i)) ?cs) @ drop (Suc (Suc j) + n) ?cs =
      take (Suc j) cs @ take (Suc n) (drop (Suc i) cs) @ drop (Suc j + Suc n) cs"
    using Suc.prems by (simp add: take_Suc_conv_app_nth [of "Suc j"] Cons_nth_drop_Suc [of "Suc i" cs, symmetric])
  finally show ?case .
qed (simp add: append_take_drop_id)

lemma run_removed:
  assumes ok: "free_ok cs" and i: "n2 < i" "i \<le> unat (cs ! 0)" and eq: "cs ! (i - n2) = cs ! i + of_nat n2"
    and cs': "cs' = take (Suc (i - Suc n2)) (cs[0 := of_nat (unat (cs ! 0) - Suc n2)]) @ take (unat (cs ! 0) - i) (drop (Suc i) cs) @ rest"
  shows "free_ok cs'" "ids_of cs' = take (i - Suc n2) (ids_of cs) @ drop i (ids_of cs)" "set (ids_of cs') = set (ids_of cs) - run (cs ! i) (Suc n2)"
    "run (cs ! i) (Suc n2) \<subseteq> set (ids_of cs)"
proof -
  have lc: "unat (cs ! 0) < length cs" "unat (cs ! 0) < 2 ^ 32" and srt: "sorted_wrt (\<lambda>x y. y < x) (ids_of cs)" using ok by (auto simp: free_ok_def ids_ok_def)
  define n where "n = unat (cs ! 0) - Suc n2"
  obtain c0 xs where cs: "cs = c0 # xs" using lc by (cases cs) auto
  have ids: "ids_of cs = take (unat c0) xs" by (simp add: ids_of_def cs)
  have un: "unat (of_nat n :: MDB_ID) = n" using lc(2) by (intro unat_of_nat_small) (simp add: n_def)
  have e: "cs' = of_nat n # take (i - Suc n2) xs @ take (unat c0 - i) (drop i xs) @ rest"
    using i lc(1) by (simp add: cs' cs n_def take_Suc_Cons)
  have len: "length (take (i - Suc n2) xs) = i - Suc n2" "length (take (unat c0 - i) (drop i xs)) = unat c0 - i" using i lc(1) by (simp_all add: cs)
  have n': "n = (i - Suc n2) + (unat c0 - i)" using i by (simp add: n_def cs)
  have lx: "length xs \<ge> unat c0" using lc(1) by (simp add: cs)
  have "ids_of cs' = take n (take (i - Suc n2) xs @ take (unat c0 - i) (drop i xs) @ rest)" using un by (simp add: e ids_of_def)
  also have "\<dots> = take (i - Suc n2) xs @ take (unat c0 - i) (drop i xs)" unfolding n' using len by simp
  also have "\<dots> = take (i - Suc n2) (ids_of cs) @ drop i (ids_of cs)" 
  proof -
    have "i - Suc n2 \<le> unat c0" using i by (simp add: cs)
    then show ?thesis unfolding ids by (simp add: drop_take min_absorb1)
  qed
  finally show ids': "ids_of cs' = take (i - Suc n2) (ids_of cs) @ drop i (ids_of cs)" .
  have split: "ids_of cs = take (i - Suc n2) (ids_of cs) @ take (Suc n2) (drop (i - Suc n2) (ids_of cs)) @ drop i (ids_of cs)"
  proof -
    have "drop (Suc n2) (drop (i - Suc n2) (ids_of cs)) = drop i (ids_of cs)" using i(1) by (simp add: add.commute)
    then show ?thesis by (metis append_take_drop_id)
  qed
  note r = run_at [OF ok i eq]
  show "run (cs ! i) (Suc n2) \<subseteq> set (ids_of cs)" unfolding r [symmetric] by (meson in_set_dropD in_set_takeD subsetI)
  have "sorted_wrt (\<lambda>x y. y < x) (take (i - Suc n2) (ids_of cs) @ take (Suc n2) (drop (i - Suc n2) (ids_of cs)) @ drop i (ids_of cs))"
    using srt split by metis
  then have s: "sorted_wrt (\<lambda>x y. y < x) (ids_of cs')" and dis: "set (ids_of cs') \<inter> set (take (Suc n2) (drop (i - Suc n2) (ids_of cs))) = {}"
    by (auto simp: ids' sorted_wrt_append)
  have "set (ids_of cs) = set (ids_of cs') \<union> set (take (Suc n2) (drop (i - Suc n2) (ids_of cs)))"
    unfolding ids' by (subst split) auto
  then show "set (ids_of cs') = set (ids_of cs) - run (cs ! i) (Suc n2)" using dis unfolding r by blast
  have "cs' ! 0 = of_nat n" by (simp add: e)
  moreover have "n < length cs'" unfolding e using len n' by simp
  moreover have "n < 2 ^ 32" using lc(2) by (simp add: n_def)
  ultimately show "free_ok cs'" using s un by (simp add: free_ok_def ids_ok_def)
qed

subsection \<open>The oldest reader\<close>

lemma oldest_reader_ok:
  "i \<le> length rs \<Longrightarrow> \<exists>r. oldest_reader i rs old = Inr r \<and> r \<le> old \<and> (\<forall>(pid, mr)\<in>set (take i rs). pid \<noteq> 0 \<longrightarrow> r \<le> mr) \<and>
     (r = old \<or> (\<exists>pid. pid \<noteq> 0 \<and> (pid, r) \<in> set (take i rs)))"
proof (induction i arbitrary: old)
  case (Suc i)
  obtain pid mr where e: "rs ! i = (pid, mr)" by (cases "rs ! i")
  let ?o = "if pid \<noteq> 0 \<and> mr < old then mr else old"
  obtain r where r: "oldest_reader i rs ?o = Inr r" "r \<le> ?o" "\<forall>(pid, mr)\<in>set (take i rs). pid \<noteq> 0 \<longrightarrow> r \<le> mr"
    "r = ?o \<or> (\<exists>pid. pid \<noteq> 0 \<and> (pid, r) \<in> set (take i rs))" using Suc.IH [of ?o] Suc.prems by auto
  have "oldest_reader (Suc i) rs old = Inr r" using r(1) Suc.prems e by simp
  moreover have "take (Suc i) rs = take i rs @ [(pid, mr)]" using Suc.prems e by (simp add: take_Suc_conv_app_nth)
  ultimately show ?case using r(2-4) by (auto split: if_splits)
qed simp

lemma find_oldest_ok:
  "\<exists>r. mdb_find_oldest w = Inr r \<and> r \<le> mt_txnid w - 1 \<and> (\<forall>rs. me_txns (w_env w) = Some rs \<longrightarrow> (\<forall>(pid, mr)\<in>set rs. pid \<noteq> 0 \<longrightarrow> r \<le> mr)) \<and>
     (r = mt_txnid w - 1 \<or> (\<exists>rs pid. me_txns (w_env w) = Some rs \<and> pid \<noteq> 0 \<and> (pid, r) \<in> set rs))"
proof (cases "me_txns (w_env w)")
  case (Some rs)
  then show ?thesis using oldest_reader_ok [of "length rs" rs "mt_txnid w - 1"] by (auto simp: mdb_find_oldest_def)
qed (simp add: mdb_find_oldest_def)

text \<open>Whether \<open>x\<close> is not newer than the snapshot of any reader, nor than the last committed one.\<close>

definition no_younger :: "MDB_wtxn \<Rightarrow> size_t \<Rightarrow> bool" where
  "no_younger w x \<longleftrightarrow> x \<le> mt_txnid w - 1 \<and> (\<forall>rs. me_txns (w_env w) = Some rs \<longrightarrow> (\<forall>(pid, mr)\<in>set rs. pid \<noteq> 0 \<longrightarrow> x \<le> mr))"

lemma no_younger_cong: "mt_txnid w' = mt_txnid w \<Longrightarrow> me_txns (w_env w') = me_txns (w_env w) \<Longrightarrow> no_younger w' x = no_younger w x"
  by (simp add: no_younger_def)

lemma upd_simps [simp]:
  "w_txn (upd_env f w) = w_txn w" "w_env (upd_env f w) = f (w_env w)" "mt_txnid (upd_env f w) = mt_txnid w" "mt_free_pgs (upd_env f w) = mt_free_pgs w"
  "mt_loose_pgs (upd_env f w) = mt_loose_pgs w" "mt_dirty_room (upd_env f w) = mt_dirty_room w"
  "w_env (upd_txn g w) = w_env w" "w_txn (upd_txn g w) = g (w_txn w)" "mt_txnid (upd_txn g w) = mt_txnid w" "mt_free_pgs (upd_txn g w) = mt_free_pgs w"
  "mt_loose_pgs (upd_txn g w) = mt_loose_pgs w" "mt_dirty_room (upd_txn g w) = mt_dirty_room w"
  by (simp_all add: upd_env_def upd_txn_def)

lemma put_page_simps [simp]:
  "w_env (put_page a p w) = w_env w" "mt_txnid (put_page a p w) = mt_txnid w" "mt_free_pgs (put_page a p w) = mt_free_pgs w" "mt_loose_pgs (put_page a p w) = mt_loose_pgs w"
  "mt_dirty_room (put_page a p w) = mt_dirty_room w" "me_map (w_txn (put_page a p w)) = me_map (w_txn w)" "me_mem (w_txn (put_page a p w)) = (me_mem (w_txn w))(a := p)"
  "mt_lists (w_txn (put_page a p w)) = mt_lists (w_txn w)" "mt_flags (w_txn (put_page a p w)) = mt_flags (w_txn w)"
  "mt_next_pgno (w_txn (put_page a p w)) = mt_next_pgno (w_txn w)" "mt_dbs (w_txn (put_page a p w)) = mt_dbs (w_txn w)"
  by (simp_all add: put_page_def)

lemma w_error_simps [simp]: "w_env (w_error w) = w_env w" "mt_txnid (w_error w) = mt_txnid w"
  by (simp_all add: w_error_def)

text \<open>The records of the free database consumed on the way from one state to another are older than every snapshot in use.\<close>

definition env_advances :: "MDB_wtxn \<Rightarrow> MDB_wtxn \<Rightarrow> bool" where
  "env_advances w w' \<longleftrightarrow> mt_txnid w' = mt_txnid w \<and> me_txns (w_env w') = me_txns (w_env w) \<and> no_younger w (me_pgoldest (w_env w')) \<and>
     (me_pglast (w_env w') = me_pglast (w_env w) \<or> (\<exists>x. no_younger w x \<and> me_pglast (w_env w') < x))"

lemma env_advances_refl: "no_younger w (me_pgoldest (w_env w)) \<Longrightarrow> env_advances w w"
  by (simp add: env_advances_def)

lemma env_advances_trans: "env_advances w w1 \<Longrightarrow> env_advances w1 w2 \<Longrightarrow> env_advances w w2"
  using no_younger_cong [of w1 w] by (auto simp: env_advances_def)

lemma env_advances_env: "env_advances w w1 \<Longrightarrow> w_env w2 = w_env w1 \<Longrightarrow> mt_txnid w2 = mt_txnid w1 \<Longrightarrow> env_advances w w2"
  by (simp add: env_advances_def)

lemma refresh_oldest_safe:
  assumes "refresh_oldest lst oldest found w = Inr (oldest', found', w')" and "no_younger w oldest" and "no_younger w (me_pgoldest (w_env w))"
  shows "env_advances w w'" "no_younger w oldest'"
  using assms find_oldest_ok [of w] by (auto simp: refresh_oldest_def env_advances_def res_simps no_younger_def split: if_splits)

lemma merge_record_safe:
  assumes "merge_record mm lst idl w = Inr (rc, w')"
  shows "mt_txnid w' = mt_txnid w" "me_txns (w_env w') = me_txns (w_env w)" "me_pgoldest (w_env w') = me_pgoldest (w_env w)"
    "me_pglast (w_env w') = me_pglast (w_env w) \<or> me_pglast (w_env w') = lst"
proof -
  obtain n h where a: "aget idl 0 = Inr n" and h: "(case me_pghead (w_env w) of
       None \<Rightarrow> Inr (case mdb_midl_alloc mm (unat (ucast n :: u32)) of None \<Rightarrow> (ENOMEM, None) | Some l \<Rightarrow> (0, Some l))
     | Some l \<Rightarrow> bindE (mdb_midl_need mm l (ucast n)) (\<lambda>(rc, l'). Inr (rc, Some l'))) = Inr h"
    using assms unfolding merge_record_def Let_def bindE_eq_Inr_iff by blast
  obtain rc0 h0 where h0: "h = (rc0, h0)" by (cases h)
  have m: "(if rc0 \<noteq> 0 then Inr (rc0, upd_env (\<lambda>e. e\<lparr>me_pghead := h0\<rparr>) w)
      else case h0 of None \<Rightarrow> Inl Bad_pointer
        | Some l \<Rightarrow> bindE (mdb_midl_xmerge (cells l) idl) (\<lambda>cs. Inr (0, upd_env (\<lambda>e. e\<lparr>me_pghead := Some (l\<lparr>cells := cs\<rparr>), me_pglast := lst\<rparr>) w))) = Inr (rc, w')"
    using assms a h h0 by (simp add: merge_record_def Let_def)
  have "(\<exists>h. w' = upd_env (\<lambda>e. e\<lparr>me_pghead := h\<rparr>) w) \<or> (\<exists>h. w' = upd_env (\<lambda>e. e\<lparr>me_pghead := h, me_pglast := lst\<rparr>) w)"
  proof (cases "rc0 = 0")
    case False
    then show ?thesis using m by auto
  next
    case True
    then show ?thesis using m by (cases h0) (auto simp: bindE_eq_Inr_iff)
  qed
  then show "mt_txnid w' = mt_txnid w" "me_txns (w_env w') = me_txns (w_env w)" "me_pgoldest (w_env w') = me_pgoldest (w_env w)"
    "me_pglast (w_env w') = me_pglast (w_env w) \<or> me_pglast (w_env w') = lst" by auto
qed

lemma fetch_record_safe:
  assumes "fetch_record mm op lst oldest found m2 w = Inr (s, w')" and "no_younger w oldest" and "no_younger w (me_pgoldest (w_env w))"
  shows "env_advances w w'" "\<And>lst' oldest' found' m2'. s = Inr (lst', oldest', found', m2') \<Longrightarrow> no_younger w oldest'"
proof -
  obtain rc kd t m2' where g: "mdb_cursor_get no_touch op (Some (le64 lst), None) (w_txn w, m2) = Inr (rc, kd, t, m2')"
    using assms(1) by (auto simp: fetch_record_def res_simps)
  let ?w1 = "w\<lparr>w_txn := t\<rparr>"
  have a1: "env_advances w ?w1" using assms(3) by (simp add: env_advances_def)
  have ny: "no_younger ?w1 = no_younger w" by (intro ext no_younger_cong) simp_all
  have "env_advances w w' \<and> (\<forall>lst' oldest' found' m2'. s = Inr (lst', oldest', found', m2') \<longrightarrow> no_younger w oldest')"
  proof (cases "rc = 0")
    case False
    then show ?thesis using assms(1) g a1 by (auto simp: fetch_record_def)
  next
    case True
    obtain key l where k: "fst kd = Some key" "load_le 8 key = Inr l" using assms(1) g True by (auto simp: fetch_record_def res_simps split: option.splits)
    obtain oldest' found' w2 where r: "refresh_oldest (of_nat l) oldest found ?w1 = Inr (oldest', found', w2)"
      using assms(1) g True k by (auto simp: fetch_record_def res_simps Let_def)
    have r2: "env_advances ?w1 w2" "no_younger ?w1 oldest'" using refresh_oldest_safe [OF r] assms(2,3) ny by simp_all
    have a2: "env_advances w w2" using a1 r2(1) env_advances_trans by blast
    show ?thesis
    proof (cases "oldest' \<le> of_nat l")
      case stop: True
      then show ?thesis using assms(1) g True k r a2 by (auto simp: fetch_record_def Let_def)
    next
      case False
      obtain np kk rc2 t2 v where p: "top_page m2' = Inr np" "top_ki m2' = Inr kk" "mdb_node_read (w_txn w2) np kk = Inr (rc2, t2, v)"
        using assms(1) g True k r False by (auto simp: fetch_record_def res_simps Let_def)
      let ?w3 = "w2\<lparr>w_txn := t2\<rparr>"
      have a3: "env_advances w ?w3" using a2 by (rule env_advances_env) simp_all
      show ?thesis
      proof (cases "rc2 = 0")
        case err: False
        then show ?thesis using assms(1) g True k r False p a3 by (auto simp: fetch_record_def Let_def)
      next
        case ok: True
        obtain rc3 w4 where m: "merge_record mm (of_nat l) (bytes_ids v) ?w3 = Inr (rc3, w4)"
          using assms(1) g True k r False p ok by (auto simp: fetch_record_def res_simps Let_def)
        note ms = merge_record_safe [OF m]
        have lt: "of_nat l < oldest'" using False by simp
        have "env_advances w w4" using a3 ms lt r2(2) unfolding env_advances_def ny by auto
        then show ?thesis using assms(1) g True k r False p ok m r2(2) ny by (auto simp: fetch_record_def Let_def split: if_splits)
      qed
    qed
  qed
  then show "env_advances w w'" "\<And>lst' oldest' found' m2'. s = Inr (lst', oldest', found', m2') \<Longrightarrow> no_younger w oldest'" by blast+
qed

lemma alloc_loop_safe:
  assumes "alloc_loop n mm n2 op retry lst oldest found m2 w = Inr (s, w')" and "op \<noteq> MDB_FIRST \<Longrightarrow> no_younger w oldest" and "no_younger w (me_pgoldest (w_env w))"
  shows "env_advances w w'"
  using assms
proof (induction n arbitrary: op retry lst oldest found m2 w)
  case (Suc n)
  note a = Suc.prems(1) [unfolded alloc_loop.simps]
  obtain len r where l: "mop_len (me_pghead (w_env w)) = Inr len"
    "(if n2 < len then seek_range n2 len (mop_cells (me_pghead (w_env w))) else Inr None) = Inr r"
    using a by (auto simp: res_simps Let_def simp del: if_split_asm)
  show ?case
  proof (cases r)
    case (Some i)
    then show ?thesis using a l Suc.prems(3) by (auto simp: res_simps Let_def intro: env_advances_refl)
  next
    case None
    let ?retry = "if n2 < len then retry - 1 else retry"
    show ?thesis
    proof (cases "n2 < len \<and> ?retry < 0")
      case True
      then show ?thesis using a l None Suc.prems(3) by (auto simp: Let_def intro: env_advances_refl)
    next
      case go: False
      obtain op1 lst1 oldest1 m21 w1 where i: "(if op = MDB_FIRST then
            bindE (mdb_cursor_init no_touch (w_txn w) FREE_DBI) (\<lambda>(t, c).
              Inr (if me_pglast (w_env w) \<noteq> 0 then MDB_SET_RANGE else MDB_FIRST, me_pglast (w_env w), me_pgoldest (w_env w), c, w\<lparr>w_txn := t\<rparr>))
          else Inr (op, lst, oldest, m2, w)) = Inr (op1, lst1, oldest1, m21, w1)"
        using a l None go by (auto simp: res_simps Let_def simp del: if_split_asm)
      have w1: "w_env w1 = w_env w" "mt_txnid w1 = mt_txnid w" "no_younger w oldest1"
        using i Suc.prems(2,3) by (auto simp: res_simps split: if_splits)
      have ny1: "no_younger w1 = no_younger w" using w1 by (intro ext no_younger_cong) simp_all
      obtain oldest2 found2 w2 where r2: "refresh_oldest (lst1 + 1) oldest1 found w1 = Inr (oldest2, found2, w2)"
        using a l None go i by (auto simp: res_simps Let_def simp del: if_split_asm)
      have s2: "env_advances w1 w2" "no_younger w1 oldest2" using refresh_oldest_safe [OF r2] w1 Suc.prems(3) ny1 by simp_all
      have a2: "env_advances w w2" using s2(1) w1 ny1 by (simp add: env_advances_def)
      have ny2: "no_younger w2 = no_younger w" using a2 by (intro ext no_younger_cong) (simp_all add: env_advances_def)
      show ?thesis
      proof (cases "oldest2 \<le> lst1 + 1")
        case True
        then show ?thesis using a l None go i r2 a2 by (auto simp: Let_def simp del: if_split_asm)
      next
        case False
        obtain f w3 where f: "fetch_record (mm n) op1 (lst1 + 1) oldest2 found2 m21 w2 = Inr (f, w3)"
          using a l None go i r2 False by (auto simp: res_simps Let_def simp del: if_split_asm)
        have o2: "no_younger w2 oldest2" "no_younger w2 (me_pgoldest (w_env w2))" using s2(2) ny1 ny2 a2 by (simp_all add: env_advances_def)
        note fs = fetch_record_safe [OF f o2]
        have a3: "env_advances w w3" using a2 fs(1) env_advances_trans by blast
        show ?thesis
        proof (cases f)
          case (Inl stop)
          then show ?thesis using a l None go i r2 False f a3 by (auto simp: Let_def simp del: if_split_asm)
        next
          case (Inr q)
          obtain lst' oldest' found' m2' where q: "q = (lst', oldest', found', m2')" by (cases q)
          have rec: "alloc_loop n mm n2 MDB_NEXT ?retry lst' oldest' found' m2' w3 = Inr (s, w')"
            using a l None go i r2 False f Inr q by (auto simp: Let_def simp del: if_split_asm)
          have ny3: "no_younger w3 = no_younger w" using a3 by (intro ext no_younger_cong) (simp_all add: env_advances_def)
          have "env_advances w3 w'"
            using fs(2) [of lst' oldest' found' m2'] Inr q ny2 ny3 a3 by (intro Suc.IH [OF rec]) (simp_all add: env_advances_def)
          then show ?thesis using a3 env_advances_trans by blast
        qed
      qed
    qed
  qed
qed (simp add: alloc_loop.simps)

subsection \<open>A page from the free list\<close>

lemma malloc_keeps:
  assumes "mdb_page_malloc m num w = (r, w1)"
  shows "me_pghead (w_env w1) = me_pghead (w_env w)" "me_pglast (w_env w1) = me_pglast (w_env w)" "me_pgoldest (w_env w1) = me_pgoldest (w_env w)"
    "me_txns (w_env w1) = me_txns (w_env w)" "me_flags (w_env w1) = me_flags (w_env w)" "me_maxpg (w_env w1) = me_maxpg (w_env w)" "me_psize (w_env w1) = me_psize (w_env w)"
    "mt_txnid w1 = mt_txnid w" "mt_free_pgs w1 = mt_free_pgs w" "mt_dirty_room w1 = mt_dirty_room w" "mt_loose_pgs w1 = mt_loose_pgs w"
    "mt_lists (w_txn w1) = mt_lists (w_txn w)" "me_map (w_txn w1) = me_map (w_txn w)" "mt_next_pgno (w_txn w1) = mt_next_pgno (w_txn w)" "mt_dbs (w_txn w1) = mt_dbs (w_txn w)"
    "r = Some a \<Longrightarrow> mt_flags (w_txn w1) = mt_flags (w_txn w)" "r = Some a \<Longrightarrow> b \<noteq> a \<Longrightarrow> me_mem (w_txn w1) b = me_mem (w_txn w) b"
  using assms by (auto simp: mdb_page_malloc_def w_error_def txn_error_def split: list.splits option.splits bool.splits prod.splits if_splits)

text \<open>The dirty list of the transaction can take one more page, and does not have \<open>pgno\<close>.\<close>

definition dirty_ready :: "MDB_wtxn \<Rightarrow> MDB_ID \<Rightarrow> bool" where
  "dirty_ready w pgno \<longleftrightarrow> \<not> has_flag (mt_flags (w_txn w)) MDB_TXN_WRITEMAP \<and>
     (case mt_lists (w_txn w) of [] \<Rightarrow> False | (sp, dl) # ls \<Rightarrow>
        id2_asc dl \<and> Suc (unat (mid (dl ! 0))) < length dl \<and> unat (mid (dl ! 0)) < MDB_IDL_UM_MAX \<and> pgno \<notin> mid ` set (id2_of dl))"

definition dirty_of :: "MDB_wtxn \<Rightarrow> MDB_ID2 list" where
  "dirty_of w = (case mt_lists (w_txn w) of [] \<Rightarrow> [] | (sp, dl) # ls \<Rightarrow> id2_of dl)"

lemma page_dirty_ok:
  assumes "dirty_ready w pgno" and "pgno = mp_pgno (me_mem (w_txn w) a)"
  obtains w' ls' where "mdb_page_dirty a w = Inr w'" "w' = (upd_txn (\<lambda>t. t\<lparr>mt_lists := ls'\<rparr>) w)\<lparr>mt_dirty_room := mt_dirty_room w - 1\<rparr>"
    "dirty_of w' = insort_key mid \<lparr>mid = pgno, mptr = a\<rparr> (dirty_of w)" "tl ls' = tl (mt_lists (w_txn w))" "map fst ls' = map fst (mt_lists (w_txn w))" "id2_asc (snd (hd ls'))" "length (snd (hd ls')) = length (snd (hd (mt_lists (w_txn w))))"
proof -
  obtain sp dl ls where l: "mt_lists (w_txn w) = (sp, dl) # ls" "id2_asc dl" "Suc (unat (mid (dl ! 0))) < length dl" "unat (mid (dl ! 0)) < MDB_IDL_UM_MAX" "pgno \<notin> mid ` set (id2_of dl)"
    using assms(1) by (auto simp: dirty_ready_def split: list.splits)
  obtain dl' where d: "mdb_mid2l_insert dl \<lparr>mid = pgno, mptr = a\<rparr> = Inr (0, dl')" "id2_asc dl'" "id2_of dl' = insort_key mid \<lparr>mid = pgno, mptr = a\<rparr> (id2_of dl)" "length dl' = length dl"
    using mid2l_insert_ok [OF l(2,3), of "\<lparr>mid = pgno, mptr = a\<rparr>"] l(4,5) by auto
  show thesis
    by (rule that [of "(upd_txn (\<lambda>t. t\<lparr>mt_lists := (sp, dl') # ls\<rparr>) w)\<lparr>mt_dirty_room := mt_dirty_room w - 1\<rparr>" "(sp, dl') # ls"]) (use assms l(1) d in \<open>simp_all add: mdb_page_dirty_def Let_def dirty_ready_def dirty_of_def upd_txn_def\<close>)
qed

text \<open>From \<open>w\<close> to \<open>w'\<close> the page at \<open>a\<close>, with what \<open>w1\<close> has there, has become dirty under the number \<open>pgno\<close>, and nothing else has changed.\<close>

definition page_added :: "nat \<Rightarrow> MDB_ID \<Rightarrow> MDB_wtxn \<Rightarrow> MDB_wtxn \<Rightarrow> MDB_wtxn \<Rightarrow> bool" where
  "page_added a pgno w w1 w' \<longleftrightarrow> me_mem (w_txn w') a = (me_mem (w_txn w1) a)\<lparr>mp_pgno := pgno\<rparr> \<and> dirty_of w' = insort_key mid \<lparr>mid = pgno, mptr = a\<rparr> (dirty_of w) \<and>
     tl (mt_lists (w_txn w')) = tl (mt_lists (w_txn w)) \<and> map fst (mt_lists (w_txn w')) = map fst (mt_lists (w_txn w)) \<and> id2_asc (snd (hd (mt_lists (w_txn w')))) \<and>
     length (snd (hd (mt_lists (w_txn w')))) = length (snd (hd (mt_lists (w_txn w)))) \<and> mt_dirty_room w' = mt_dirty_room w - 1 \<and> mt_loose_pgs w' = mt_loose_pgs w \<and>
     me_flags (w_env w') = me_flags (w_env w) \<and> me_dpages (w_env w') = me_dpages (w_env w1) \<and> me_map (w_txn w') = me_map (w_txn w) \<and> mt_next_pgno (w_txn w') = mt_next_pgno (w_txn w) \<and> mt_flags (w_txn w') = mt_flags (w_txn w) \<and>
     mt_dbs (w_txn w') = mt_dbs (w_txn w) \<and> mt_free_pgs w' = mt_free_pgs w \<and> me_psize (w_env w') = me_psize (w_env w) \<and>
     (\<forall>b. b \<noteq> a \<longrightarrow> me_mem (w_txn w') b = me_mem (w_txn w) b)"

lemma alloc_done_run:
  assumes h: "me_pghead (w_env w) = Some l" "free_ok (cells l)" and i: "n2 < i" "i \<le> unat (cells l ! 0)" and eq: "cells l ! (i - n2) = cells l ! i + of_nat n2"
    and env: "\<not> has_flag (me_flags (w_env w)) MDB_WRITEMAP" "mdb_page_malloc m (Suc n2) w = (Some a, w1)" and d: "dirty_ready w (cells l ! i)"
  shows "\<exists>w' l'. alloc_done m (Suc n2) i (cells l ! i) w = Inr (0, Some a, w') \<and> me_pghead (w_env w') = Some l' \<and> free_ok (cells l') \<and>
     run (cells l ! i) (Suc n2) \<subseteq> set (ids_of (cells l)) \<and> set (ids_of (cells l')) = set (ids_of (cells l)) - run (cells l ! i) (Suc n2) \<and>
     page_added a (cells l ! i) w w1 w'"
proof -
  let ?cs = "cells l"
  note k = malloc_keeps [OF env(2)]
  have lc: "unat (?cs ! 0) < length ?cs" "unat (?cs ! 0) < 2 ^ 32" using h(2) by (auto simp: free_ok_def ids_ok_def)
  have len: "mop_len (Some l) = Inr (unat (?cs ! 0))"
  proof -
    have "aget ?cs 0 = Inr (?cs ! 0)" using lc(1) by (intro aget_ok) linarith
    then show ?thesis using lc(2) by (simp add: mop_len_def unat_ucast_small)
  qed
  define cs0 where "cs0 = ?cs[0 := of_nat (unat (?cs ! 0) - Suc n2)]"
  define cs' where "cs' = take (Suc (i - Suc n2)) cs0 @ take (unat (?cs ! 0) - i) (drop (Suc i) cs0) @ drop (Suc (i - Suc n2) + (unat (?cs ! 0) - i)) cs0"
  have rest: "unat (?cs ! 0) - Suc n2 - (i - Suc n2) = unat (?cs ! 0) - i" using i by simp
  have mv: "move_down (unat (?cs ! 0) - i) (i - Suc n2) i cs0 = Inr cs'"
    unfolding cs'_def using i lc(1) by (intro move_down_ok) (simp_all add: cs0_def)
  have as: "aset ?cs 0 (of_nat (unat (?cs ! 0) - Suc n2)) = Inr cs0" unfolding cs0_def using lc(1) by (intro aset_ok) linarith
  have rr: "free_ok cs'" "set (ids_of cs') = set (ids_of ?cs) - run (?cs ! i) (Suc n2)" "run (?cs ! i) (Suc n2) \<subseteq> set (ids_of ?cs)"
    using run_removed [OF h(2) i eq, of cs' "drop (Suc (i - Suc n2) + (unat (?cs ! 0) - i)) cs0"] i by (simp_all add: cs'_def cs0_def)
  let ?w2 = "upd_env (\<lambda>e. e\<lparr>me_pghead := Some (l\<lparr>cells := cs'\<rparr>)\<rparr>) w1"
  let ?w3 = "put_page a ((me_mem (w_txn ?w2) a)\<lparr>mp_pgno := ?cs ! i\<rparr>) ?w2"
  have dr: "dirty_ready ?w3 (?cs ! i)" "dirty_of ?w3 = dirty_of w" using d k by (simp_all add: dirty_ready_def dirty_of_def)
  have pg: "?cs ! i = mp_pgno (me_mem (w_txn ?w3) a)" by simp
  obtain w' ls' where w': "mdb_page_dirty a ?w3 = Inr w'" "w' = (upd_txn (\<lambda>t. t\<lparr>mt_lists := ls'\<rparr>) ?w3)\<lparr>mt_dirty_room := mt_dirty_room ?w3 - 1\<rparr>"
    "dirty_of w' = insort_key mid \<lparr>mid = ?cs ! i, mptr = a\<rparr> (dirty_of ?w3)"
    "tl ls' = tl (mt_lists (w_txn ?w3))" "map fst ls' = map fst (mt_lists (w_txn ?w3))" "id2_asc (snd (hd ls'))" "length (snd (hd ls')) = length (snd (hd (mt_lists (w_txn ?w3))))"
    using page_dirty_ok [OF dr(1) pg] by blast
  have "alloc_done m (Suc n2) i (?cs ! i) w = Inr (0, Some a, w')"
    using env h(1) k(1) len as mv i(1) w'(1) by (simp add: alloc_done_def rest)
  moreover have "page_added a (?cs ! i) w w1 w'"
    unfolding page_added_def using w'(2-7) dr(2) k(5,7,9-17) by simp
  moreover have "me_pghead (w_env w') = Some (l\<lparr>cells := cs'\<rparr>)" using w'(2) by simp
  ultimately show ?thesis using rr by (intro exI [of _ w'] exI [of _ "l\<lparr>cells := cs'\<rparr>"]) simp
qed

lemma alloc_run_ok:
  assumes "me_pghead (w_env w) = Some l" and "free_ok (cells l)" and "run g num \<subseteq> set (ids_of (cells l))" and "unat g + num \<le> 2 ^ 64" and "1 \<le> num" and "num * 60 < 2 ^ 31"
    and "num = 1 \<longrightarrow> mt_loose_pgs w = []" and "mt_dirty_room w \<noteq> 0" and "\<not> has_flag (me_flags (w_env w)) MDB_WRITEMAP"
    and "mdb_page_malloc m num w = (Some a, w1)" and "\<forall>x\<in>set (ids_of (cells l)). dirty_ready w x"
  shows "\<exists>pgno w' l'. mdb_page_alloc (Suc n) mm m num w = Inr (0, Some a, w') \<and> me_pghead (w_env w') = Some l' \<and> free_ok (cells l') \<and>
     run pgno num \<subseteq> set (ids_of (cells l)) \<and> set (ids_of (cells l')) = set (ids_of (cells l)) - run pgno num \<and>
     page_added a pgno w w1 w'"
proof -
  let ?cs = "cells l"
  obtain n2 where n2: "num = Suc n2" using assms(5) by (cases num) auto
  obtain j where j: "n2 < j" "j \<le> unat (?cs ! 0)" "?cs ! (j - n2) = ?cs ! j + of_nat n2"
    by (rule run_in_list [OF assms(2), of g n2]) (use assms(3,4) n2 in simp_all)
  have lc: "unat (?cs ! 0) < length ?cs" "unat (?cs ! 0) < 2 ^ 32" using assms(2) by (auto simp: free_ok_def ids_ok_def)
  have "aget ?cs 0 = Inr (?cs ! 0)" using lc(1) by (intro aget_ok) linarith
  then have len: "mop_len (Some l) = Inr (unat (?cs ! 0))" using lc(2) by (simp add: mop_len_def unat_ucast_small)
  obtain r where r: "seek_range n2 (unat (?cs ! 0)) ?cs = Inr r"
     "case r of Some j \<Rightarrow> n2 < j \<and> j \<le> unat (?cs ! 0) \<and> ?cs ! (j - n2) = ?cs ! j + of_nat n2
      | None \<Rightarrow> (\<forall>j. n2 < j \<and> j \<le> unat (?cs ! 0) \<longrightarrow> ?cs ! (j - n2) \<noteq> ?cs ! j + of_nat n2)"
    using seek_range_ok [OF assms(2), of n2 "unat (?cs ! 0)"] j by auto
  then obtain i where i: "r = Some i" "n2 < i" "i \<le> unat (?cs ! 0)" "?cs ! (i - n2) = ?cs ! i + of_nat n2" using j by (cases r) auto
  have il: "i < length ?cs" using i(3) lc(1) by simp
  have lt: "n2 < unat (?cs ! 0)" using j by simp
  have "alloc_loop (Suc n) mm (num - 1) MDB_FIRST (int num * 60) 0 0 False (cursor_on FREE_DBI) w = Inr (Found i (?cs ! i), w)"
    using assms(1) len r(1) i(1) il lt n2 by (simp add: mop_cells_def alloc_loop.simps)
  then have "mdb_page_alloc (Suc n) mm m num w = alloc_done m num i (?cs ! i) w"
    using assms(6-8) by (auto simp: mdb_page_alloc_def split: list.splits bool.splits)
  then have call: "mdb_page_alloc (Suc n) mm m num w = alloc_done m (Suc n2) i (?cs ! i) w" using n2 by simp
  have "?cs ! i \<in> set (ids_of ?cs)"
    using run_removed(4) [OF assms(2) i(2-4) refl] by (auto simp: run_def)
  then have d: "dirty_ready w (?cs ! i)" using assms(11) by blast
  show ?thesis
    unfolding call using alloc_done_run [OF assms(1,2) i(2-4) assms(9) assms(10) [unfolded n2] d] n2 by blast
qed

text \<open>C22: \<open>mdb_page_alloc\<close> with a run of \<open>num\<close> free pages in \<open>me_pghead\<close>: the call succeeds without a look at the free database; the pages it
  takes are such a run, all of them free before and none of them after, the list stays sorted and keeps all other pages, the new page has
  the first number of the run and joins the dirty list, and neither the map, nor \<open>mt_next_pgno\<close>, nor any other page in memory changes.\<close>

theorem alloc_takes_run:
  assumes "me_pghead (w_env w) = Some l" and "free_ok (cells l)" and "run g num \<subseteq> set (ids_of (cells l))" and "unat g + num \<le> 2 ^ 64" and "1 \<le> num" and "num * 60 < 2 ^ 31"
    and "num = 1 \<longrightarrow> mt_loose_pgs w = []" and "mt_dirty_room w \<noteq> 0" and "\<not> has_flag (me_flags (w_env w)) MDB_WRITEMAP"
    and "mdb_page_malloc m num w = (Some a, w1)" and "\<forall>x\<in>set (ids_of (cells l)). dirty_ready w x"
  shows "\<exists>pgno w' l'. mdb_page_alloc (Suc n) mm m num w = Inr (0, Some a, w') \<and> me_pghead (w_env w') = Some l' \<and> free_ok (cells l') \<and>
     run pgno num \<subseteq> set (ids_of (cells l)) \<and> set (ids_of (cells l')) = set (ids_of (cells l)) - run pgno num \<and>
     mp_pgno (me_mem (w_txn w') a) = pgno \<and> dirty_of w' = insort_key mid \<lparr>mid = pgno, mptr = a\<rparr> (dirty_of w) \<and>
     me_map (w_txn w') = me_map (w_txn w) \<and> mt_next_pgno (w_txn w') = mt_next_pgno (w_txn w) \<and> (\<forall>b. b \<noteq> a \<longrightarrow> me_mem (w_txn w') b = me_mem (w_txn w) b)"
  using alloc_run_ok [OF assms, of n mm] unfolding page_added_def by fastforce

definition alloc_env :: MDB_wtxn where
  "alloc_env = \<lparr>w_txn = nested_txn\<lparr>mt_lists := [(None, [\<lparr>mid = 1, mptr = 0\<rparr>, \<lparr>mid = 7, mptr = 100\<rparr>, \<lparr>mid = 0, mptr = 0\<rparr>])]\<rparr>,
     w_env = \<lparr>me_flags = 0, me_psize = 64, me_maxpg = 1000, me_pghead = Some \<lparr>alloclen = 8, cells = [3, 6, 5, 3, 0, 0]\<rparr>, me_pglast = 0, me_pgoldest = 0,
       me_txns = Some [(11, 4), (0, 2)], me_dpages = []\<rparr>,
     mt_txnid = 9, mt_free_pgs = \<lparr>alloclen = 8, cells = [0, 0, 0]\<rparr>, mt_loose_pgs = [], mt_loose_count = 0, mt_dirty_room = 5\<rparr>"

lemma alloc_env_ready: "x \<in> {3, 5, 6} \<Longrightarrow> dirty_ready alloc_env x"
  by (auto simp: dirty_ready_def alloc_env_def nested_txn_def id2_asc_def id2_of_def MDB_IDL_UM_MAX_def MDB_IDL_UM_SIZE_def MDB_IDL_LOGN_def take_Cons')

lemma alloc_env_free: "free_ok [3, 6, 5, 3, 0, 0]" "ids_of [3, 6, 5, 3, 0, 0] = [6, 5, 3]"
  by (simp_all add: free_ok_def ids_ok_def ids_of_def take_Cons')

lemma run_5_2: "run 5 2 = {5, 6}"
proof (intro equalityI subsetI)
  fix x :: MDB_ID assume "x \<in> run 5 2"
  then have "unat x = unat (5 :: MDB_ID) \<or> unat x = unat (6 :: MDB_ID)" by (auto simp: run_def)
  then show "x \<in> {5, 6}" by (simp only: word_unat_eq_iff insert_iff empty_iff) blast
qed (auto simp: run_def)

theorem alloc_takes_run_witness:
  "\<exists>pgno w'. mdb_page_alloc 1 (\<lambda>_. \<lparr>mem_ok = True, mem_fill = \<lambda>_. 0\<rparr>) (\<lambda>_. Some (300, blank_page 0)) 2 alloc_env = Inr (0, Some 300, w') \<and>
     run pgno 2 \<subseteq> {3, 5, 6} \<and> mp_pgno (me_mem (w_txn w') 300) = pgno \<and> mt_next_pgno (w_txn w') = 9"
proof -
  let ?l = "\<lparr>alloclen = 8, cells = [3, 6, 5, 3, 0, 0 :: MDB_ID]\<rparr>"
  have e: "me_pghead (w_env alloc_env) = Some ?l" "mt_dirty_room alloc_env \<noteq> 0" "\<not> has_flag (me_flags (w_env alloc_env)) MDB_WRITEMAP" "mt_next_pgno (w_txn alloc_env) = 9"
    by (simp_all add: alloc_env_def nested_txn_def)
  obtain w1 where m: "mdb_page_malloc (\<lambda>_. Some (300, blank_page 0)) 2 alloc_env = (Some 300, w1)" by (simp add: mdb_page_malloc_def)
  have f: "free_ok (cells ?l)" "run 5 2 \<subseteq> set (ids_of (cells ?l))" "\<forall>x\<in>set (ids_of (cells ?l)). dirty_ready alloc_env x"
    using alloc_env_free alloc_env_ready by (auto simp: run_5_2)
  show ?thesis
    using alloc_takes_run [OF e(1) f(1,2) _ _ _ _ e(2,3) m f(3), of 0 "\<lambda>_. \<lparr>mem_ok = True, mem_fill = \<lambda>_. 0\<rparr>"] alloc_env_free(2) e(4) by fastforce
qed

text \<open>C10: No allocation takes pages that a reader may still see: whatever \<open>mdb_page_alloc\<close> does, with a free database of any content, a record of the
  free database is consumed only when its transaction is older than the snapshot of every reader in the table and than the last committed one; the
  remembered oldest snapshot stays a lower bound of the snapshots in use.\<close>

theorem alloc_respects_readers:
  assumes "mdb_page_alloc n mm m num w = Inr (rc, r, w')" and "no_younger w (me_pgoldest (w_env w))"
  shows "(me_pglast (w_env w') = me_pglast (w_env w) \<or> me_pglast (w_env w') < mt_txnid w - 1 \<and>
      (\<forall>rs. me_txns (w_env w) = Some rs \<longrightarrow> (\<forall>(pid, mr)\<in>set rs. pid \<noteq> 0 \<longrightarrow> me_pglast (w_env w') < mr))) \<and>
    no_younger w (me_pgoldest (w_env w'))"
proof -
  have "env_advances w w'"
  proof (cases "num = 1 \<and> mt_loose_pgs w \<noteq> [] \<or> mt_dirty_room w = 0 \<or> 2 ^ 31 \<le> num * 60")
    case True
    then show ?thesis using assms by (auto simp: mdb_page_alloc_def w_error_def intro: env_advances_env [OF env_advances_refl] split: list.splits bool.splits if_splits)
  next
    case False
    then obtain stop w1 where l: "alloc_loop n mm (num - 1) MDB_FIRST (int num * 60) 0 0 False (cursor_on FREE_DBI) w = Inr (stop, w1)"
      using assms(1) by (auto simp: mdb_page_alloc_def res_simps split: list.splits bool.splits)
    have a: "env_advances w w1" using alloc_loop_safe [OF l] assms(2) by simp
    have ad: "env_advances w w2" if "alloc_done m num i pgno w1 = Inr (rc2, r2, w2)" for i pgno rc2 r2 w2
    proof -
      obtain a' w3 where m: "mdb_page_malloc m num w1 = (a', w3)" by (cases "mdb_page_malloc m num w1")
      have b: "env_advances w w3" using a malloc_keeps [OF m] by (simp add: env_advances_def)
      have c: "w_env w5 = w_env w4 \<and> mt_txnid w5 = mt_txnid w4" if "mdb_page_dirty x w4 = Inr w5" for x w4 w5
        using that by (auto simp: mdb_page_dirty_def Let_def res_simps split: list.splits)
      show ?thesis
        using that m b by (auto simp: alloc_done_def res_simps env_advances_def dest!: c split: option.splits if_splits)
    qed
    show ?thesis
      using assms(1) False l a ad by (auto simp: mdb_page_alloc_def Let_def w_error_def intro: env_advances_env split: list.splits bool.splits alloc_stop.splits if_splits)
  qed
  then show ?thesis by (fastforce simp: env_advances_def no_younger_def)
qed

theorem alloc_respects_readers_witness:
  "\<exists>rc r w'. mdb_page_alloc 1 (\<lambda>_. \<lparr>mem_ok = True, mem_fill = \<lambda>_. 0\<rparr>) (\<lambda>_. None) 2 alloc_env = Inr (rc, r, w') \<and> no_younger alloc_env (me_pgoldest (w_env w'))"
proof -
  have 1: "alloc_loop 1 mm 1 MDB_FIRST 120 0 0 False c alloc_env = Inr (Found 2 5, alloc_env)" for mm c
  proof -
    have "seek_range 1 3 [3, 6, 5, 3, 0, 0] = Inr (Some 2)" by (simp add: numeral_3_eq_3 numeral_2_eq_2)
    then show ?thesis unfolding One_nat_def alloc_loop.simps by (simp add: alloc_env_def mop_len_def mop_cells_def)
  qed
  then have 2: "mdb_page_alloc 1 (\<lambda>_. \<lparr>mem_ok = True, mem_fill = \<lambda>_. 0\<rparr>) (\<lambda>_. None) 2 alloc_env = Inr (ENOMEM, None, w_error (w_error alloc_env))"
    by (simp add: mdb_page_alloc_def alloc_done_def mdb_page_malloc_def) (simp add: alloc_env_def)
  have "no_younger alloc_env (me_pgoldest (w_env alloc_env))" by (simp add: no_younger_def alloc_env_def)
  then show ?thesis using 2 alloc_respects_readers [OF 2] by blast
qed

end
