(* ===== verification/Mdb_Tree.thy ===== *)
theory Mdb_Tree
  imports Mdb_Cursor
begin

text \<open>
  The trees of LMDB and the cursors on them. \<open>mtree\<close> is a tree of pages; \<open>tree_ok\<close> says that it is stored in a
  transaction and that its keys are in order, \<open>tree_items\<close> is its list of key/data pairs. A cursor on
  a tree (\<open>on_path\<close>) divides that list into what is behind it (\<open>passed\<close>) and what is at it and ahead (\<open>ahead\<close>); the operations of the read
  path are operations on that division.
\<close>

subsection \<open>Trees\<close>

datatype mtree = Lf MDB_page | Br MDB_page "mtree list"

fun root_page :: "mtree \<Rightarrow> MDB_page" where
  "root_page (Lf p) = p"
| "root_page (Br p ts) = p"

definition page_of :: "MDB_txn \<Rightarrow> size_t \<Rightarrow> MDB_page \<Rightarrow> bool" where
  "page_of t g p \<longleftrightarrow> (case mdb_page_get g t of Inr (rc, t', Some (q, l)) \<Rightarrow> rc = 0 \<and> t' = t \<and> q = p | _ \<Rightarrow> False)"

definition hdr_at :: "MDB_page \<Rightarrow> nat \<Rightarrow> MDB_node" where
  "hdr_at p i = dec_node (slice (mp_bytes p) (page_offs p ! i) 8)"

text \<open>The data of an entry, and whether it can be read.\<close>

definition item_val :: "MDB_txn \<Rightarrow> MDB_page \<Rightarrow> nat \<Rightarrow> u8 list" where
  "item_val t p i = (case mdb_node_read t p i of Inr (_, _, v) \<Rightarrow> v | _ \<Rightarrow> [])"

definition item_ok :: "MDB_txn \<Rightarrow> MDB_page \<Rightarrow> nat \<Rightarrow> bool" where
  "item_ok t p i \<longleftrightarrow> mdb_node_read t p i = Inr (0, t, item_val t p i) \<and> \<not> F_ISSET (ucast (mn_flags (hdr_at p i))) F_DUPDATA"

definition leaf_items :: "MDB_txn \<Rightarrow> MDB_page \<Rightarrow> (u8 list \<times> u8 list) list" where
  "leaf_items t p = map (\<lambda>i. (page_keys p ! i, item_val t p i)) [0..<NUMKEYS p]"

definition within :: "(u8 list \<Rightarrow> u8 list \<Rightarrow> bool) \<Rightarrow> u8 list option \<Rightarrow> u8 list option \<Rightarrow> u8 list \<Rightarrow> bool" where
  "within lt lo hi k \<longleftrightarrow> (case lo of None \<Rightarrow> True | Some l \<Rightarrow> l = k \<or> lt l k) \<and> (case hi of None \<Rightarrow> True | Some u \<Rightarrow> lt k u)"

definition low_bound :: "u8 list option \<Rightarrow> MDB_page \<Rightarrow> nat \<Rightarrow> u8 list option" where
  "low_bound lo p i = (if i = 0 then lo else Some (page_keys p ! i))"

definition high_bound :: "u8 list option \<Rightarrow> MDB_page \<Rightarrow> nat \<Rightarrow> u8 list option" where
  "high_bound hi p i = (if Suc i < NUMKEYS p then Some (page_keys p ! Suc i) else hi)"

text \<open>A tree of height \<open>h\<close> with keys between \<open>lo\<close> and \<open>hi\<close>. Every leaf is at the same depth and has an entry;
  every branch page has two children at least.\<close>

fun tree_ok :: "MDB_txn \<Rightarrow> nat \<Rightarrow> (u8 list \<Rightarrow> bool) \<Rightarrow> (u8 list \<Rightarrow> u8 list \<Rightarrow> bool) \<Rightarrow> nat \<Rightarrow> u8 list option \<Rightarrow> u8 list option \<Rightarrow> mtree \<Rightarrow> bool" where
  "tree_ok t psize ok lt 0 lo hi (Lf p) \<longleftrightarrow> page_sorted ok lt psize p \<and> IS_LEAF p \<and> 0 < NUMKEYS p \<and>
     (\<forall>i<NUMKEYS p. item_ok t p i \<and> within lt lo hi (page_keys p ! i))"
| "tree_ok t psize ok lt (Suc h) lo hi (Br p ts) \<longleftrightarrow> page_sorted ok lt psize p \<and> IS_BRANCH p \<and> length ts = NUMKEYS p \<and>
     (\<forall>i<NUMKEYS p. page_of t (NODEPGNO (hdr_at p i)) (root_page (ts ! i)) \<and> (0 < i \<longrightarrow> within lt lo hi (page_keys p ! i)) \<and>
        tree_ok t psize ok lt h (low_bound lo p i) (high_bound hi p i) (ts ! i))"
| "tree_ok t psize ok lt 0 lo hi (Br p ts) \<longleftrightarrow> False"
| "tree_ok t psize ok lt (Suc h) lo hi (Lf p) \<longleftrightarrow> False"

fun tree_items :: "MDB_txn \<Rightarrow> mtree \<Rightarrow> (u8 list \<times> u8 list) list" where
  "tree_items t (Lf p) = leaf_items t p"
| "tree_items t (Br p ts) = concat (map (tree_items t) ts)"

subsection \<open>Cursors on a tree\<close>

text \<open>The cells of the stack from level \<open>l\<close> on lead down a tree of height \<open>h\<close>.\<close>

fun on_path :: "nat \<Rightarrow> MDB_cursor \<Rightarrow> nat \<Rightarrow> mtree \<Rightarrow> bool" where
  "on_path 0 mc l (Lf p) \<longleftrightarrow> mc_pg mc ! l = Some p"
| "on_path (Suc h) mc l (Br p ts) \<longleftrightarrow> mc_pg mc ! l = Some p \<and> mc_ki mc ! l < length ts \<and> on_path h mc (Suc l) (ts ! (mc_ki mc ! l))"
| "on_path 0 mc l (Br p ts) \<longleftrightarrow> False"
| "on_path (Suc h) mc l (Lf p) \<longleftrightarrow> False"

definition stack_ok :: "MDB_cursor \<Rightarrow> bool" where
  "stack_ok mc \<longleftrightarrow> length (mc_pg mc) = CURSOR_STACK \<and> length (mc_ki mc) = CURSOR_STACK"

text \<open>A cursor on a tree of height \<open>h\<close>, ready to be used.\<close>

definition cursor_at :: "nat \<Rightarrow> MDB_cursor \<Rightarrow> mtree \<Rightarrow> bool" where
  "cursor_at h mc tr \<longleftrightarrow> stack_ok mc \<and> h < CURSOR_STACK \<and> mc_top mc = h \<and> mc_snum mc = Suc h \<and> on_path h mc 0 tr"

text \<open>What is at the cursor and ahead of it, and what is behind it.\<close>

fun ahead :: "MDB_txn \<Rightarrow> nat \<Rightarrow> MDB_cursor \<Rightarrow> nat \<Rightarrow> mtree \<Rightarrow> (u8 list \<times> u8 list) list" where
  "ahead t h mc l (Lf p) = drop (mc_ki mc ! l) (leaf_items t p)"
| "ahead t (Suc h) mc l (Br p ts) = ahead t h mc (Suc l) (ts ! (mc_ki mc ! l)) @ concat (map (tree_items t) (drop (Suc (mc_ki mc ! l)) ts))"
| "ahead t 0 mc l (Br p ts) = []"

fun passed :: "MDB_txn \<Rightarrow> nat \<Rightarrow> MDB_cursor \<Rightarrow> nat \<Rightarrow> mtree \<Rightarrow> (u8 list \<times> u8 list) list" where
  "passed t h mc l (Lf p) = take (mc_ki mc ! l) (leaf_items t p)"
| "passed t (Suc h) mc l (Br p ts) = concat (map (tree_items t) (take (mc_ki mc ! l) ts)) @ passed t h mc (Suc l) (ts ! (mc_ki mc ! l))"
| "passed t 0 mc l (Br p ts) = []"

lemma passed_ahead:
  "on_path h mc l tr \<Longrightarrow> passed t h mc l tr @ ahead t h mc l tr = tree_items t tr"
proof (induction h arbitrary: l tr)
  case 0
  then show ?case by (cases tr) simp_all
next
  case (Suc h)
  show ?case
  proof (cases tr)
    case (Br p ts)
    let ?i = "mc_ki mc ! l"
    have i: "?i < length ts" "on_path h mc (Suc l) (ts ! ?i)" using Suc.prems Br by simp_all
    have "concat (map (tree_items t) ts) =
      concat (map (tree_items t) (take ?i ts)) @ tree_items t (ts ! ?i) @ concat (map (tree_items t) (drop (Suc ?i) ts))"
      using id_take_nth_drop [OF i(1)] by (metis concat.simps(2) concat_append list.simps(9) map_append)
    then show ?thesis using Suc.IH [OF i(2)] Br by simp
  qed (use Suc.prems in simp)
qed

text \<open>Only the cells of the stack from level \<open>l\<close> down count.\<close>

lemma path_cong:
  assumes "\<And>j. l \<le> j \<Longrightarrow> j \<le> l + h \<Longrightarrow> mc_pg mc' ! j = mc_pg mc ! j \<and> mc_ki mc' ! j = mc_ki mc ! j"
  shows "on_path h mc' l tr = on_path h mc l tr" and "ahead t h mc' l tr = ahead t h mc l tr" and "passed t h mc' l tr = passed t h mc l tr"
  using assms
proof (induction h arbitrary: l tr)
  case 0
  { case 1 then show ?case by (cases tr) simp_all next case 2 then show ?case by (cases tr) simp_all next case 3 then show ?case by (cases tr) simp_all }
next
  case (Suc h)
  { case 1
    have "mc_ki mc' ! l = mc_ki mc ! l" "mc_pg mc' ! l = mc_pg mc ! l" using 1 [of l] by simp_all
    then show ?case using Suc(1) [of "Suc l"] 1 by (cases tr) simp_all
  next case 2
    have "mc_ki mc' ! l = mc_ki mc ! l" using 2 [of l] by simp
    then show ?case using Suc(2) [of "Suc l"] 2 by (cases tr) simp_all
  next case 3
    have "mc_ki mc' ! l = mc_ki mc ! l" using 3 [of l] by simp
    then show ?case using Suc(3) [of "Suc l"] 3 by (cases tr) simp_all }
qed

subsection \<open>Descending\<close>

lemma NUMKEYS_small:
  assumes "page_wf psize p"
  shows "NUMKEYS p < 2 ^ 15"
  using page_wfD(1,4,5,6) [OF assms] by simp

lemma last_indx_eq:
  assumes "page_wf psize p" and "0 < NUMKEYS p"
  shows "last_indx p = NUMKEYS p - 1"
proof -
  have "unat (of_nat (NUMKEYS p) :: u16) = NUMKEYS p" using NUMKEYS_small [OF assms(1)] by (intro unat_of_nat_small) simp
  then show ?thesis using unat_pred_word [of "of_nat (NUMKEYS p) :: u16"] assms(2) by (simp add: last_indx_def)
qed

lemma page_ofD: "page_of t g p \<Longrightarrow> \<exists>l. mdb_page_get g t = Inr (0, t, Some (p, l))"
  by (auto simp: page_of_def split: sum.splits prod.splits option.splits)

lemma with_page_of: "page_of t g p \<Longrightarrow> with_page g (t, mc) k = k p"
  by (auto dest!: page_ofD simp: with_page_def)

lemma stack_get [simp]:
  assumes "stack_ok mc" and "i < CURSOR_STACK"
  shows "aget (mc_ki mc) i = Inr (mc_ki mc ! i)" and "aget (mc_pg mc) i = Inr (mc_pg mc ! i)"
    and "aset (mc_ki mc) i x = Inr ((mc_ki mc)[i := x])" and "aset (mc_pg mc) i y = Inr ((mc_pg mc)[i := y])"
  using assms by (simp_all add: stack_ok_def)

lemma stack_ok_update [simp]:
  "stack_ok (mc\<lparr>mc_ki := (mc_ki mc)[i := x]\<rparr>) = stack_ok mc" "stack_ok (mc\<lparr>mc_flags := fl\<rparr>) = stack_ok mc"
  by (simp_all add: stack_ok_def)

lemma top_page_eq: "stack_ok mc \<Longrightarrow> mc_top mc < CURSOR_STACK \<Longrightarrow> mc_pg mc ! mc_top mc = Some p \<Longrightarrow> top_page mc = Inr p"
  by (simp add: top_page_def get_page_def)

lemma set_ki_eq: "stack_ok mc \<Longrightarrow> mc_top mc < CURSOR_STACK \<Longrightarrow> set_ki i mc = Inr (mc\<lparr>mc_ki := (mc_ki mc)[mc_top mc := i]\<rparr>)"
  by (simp add: set_ki_def)

lemma top_ki_eq: "stack_ok mc \<Longrightarrow> mc_top mc < CURSOR_STACK \<Longrightarrow> top_ki mc = Inr (mc_ki mc ! mc_top mc)"
  by (simp add: top_ki_def)

text \<open>One step down.\<close>

definition descend :: "nat \<Rightarrow> MDB_page \<Rightarrow> MDB_cursor \<Rightarrow> MDB_cursor" where
  "descend i q mc = mc\<lparr>mc_top := mc_snum mc, mc_snum := mc_snum mc + 1, mc_pg := (mc_pg mc)[mc_snum mc := Some q],
     mc_ki := (mc_ki mc)[mc_top mc := i, mc_snum mc := 0]\<rparr>"

lemma descend_simps [simp]:
  "mc_top (descend i q mc) = mc_snum mc" "mc_snum (descend i q mc) = Suc (mc_snum mc)" "mc_flags (descend i q mc) = mc_flags mc"
  "mc_dbi (descend i q mc) = mc_dbi mc" "stack_ok (descend i q mc) = stack_ok mc"
  by (simp_all add: descend_def stack_ok_def)

lemma descend_cells:
  assumes "stack_ok mc" and "mc_snum mc = Suc (mc_top mc)" and "mc_snum mc < CURSOR_STACK"
  shows "mc_pg (descend i q mc) ! mc_snum mc = Some q" "mc_ki (descend i q mc) ! mc_top mc = i" "mc_ki (descend i q mc) ! mc_snum mc = 0"
    "j \<le> mc_top mc \<Longrightarrow> mc_pg (descend i q mc) ! j = mc_pg mc ! j" "j < mc_top mc \<Longrightarrow> mc_ki (descend i q mc) ! j = mc_ki mc ! j"
  using assms by (simp_all add: descend_def stack_ok_def)

definition plain :: "u32 \<Rightarrow> bool" where
  "plain flags \<longleftrightarrow> \<not> has_flag flags MDB_PS_MODIFY \<and> \<not> has_flag flags MDB_PS_ROOTONLY"

lemma search_root_step:
  assumes st: "stack_ok mc" "mc_snum mc = Suc (mc_top mc)" "mc_snum mc < CURSOR_STACK"
    and pg: "mc_pg mc ! mc_top mc = Some p" "IS_BRANCH p" "1 < NUMKEYS p" "page_wf psize p"
    and db: "mc_dbi mc < length (mt_dbxs t)" "mc_dbi mc < length (mt_dbs t)" and fl: "plain flags"
    and ch: "search_index (md_cmp (mt_dbxs t ! mc_dbi mc)) (unat (md_pad (mt_dbs t ! mc_dbi mc))) key flags p mc =
       Inr (Some i, mc\<lparr>mc_ki := (mc_ki mc)[mc_top mc := x]\<rparr>)" "i < NUMKEYS p"
    and sub: "page_of t (NODEPGNO (hdr_at p i)) q"
  shows "search_root_loop (Suc n) touch key flags (t, mc) = search_root_loop n touch key flags (t, descend i q mc)"
proof -
  have h: "node_hdr p i = Inr (page_offs p ! i, hdr_at p i)" using node_hdr_ok(1) [OF pg(4) ch(2)] by (simp add: hdr_at_def)
  show ?thesis
    using assms by (simp add: top_page_eq h with_page_of [OF sub] set_ki_eq mdb_cursor_push_def plain_def) (simp add: descend_def stack_ok_def)
qed

text \<open>The path that a descent takes, as a choice of the child for every branch page.\<close>

fun follows :: "(MDB_page \<Rightarrow> nat) \<Rightarrow> nat \<Rightarrow> MDB_cursor \<Rightarrow> nat \<Rightarrow> mtree \<Rightarrow> bool" where
  "follows ch (Suc h) mc l (Br p ts) \<longleftrightarrow> mc_ki mc ! l = ch p \<and> follows ch h mc (Suc l) (ts ! ch p)"
| "follows ch h mc l tr \<longleftrightarrow> True"

definition chooses :: "MDB_txn \<Rightarrow> nat \<Rightarrow> u8 list option \<Rightarrow> u32 \<Rightarrow> u32 \<Rightarrow> (MDB_page \<Rightarrow> nat) \<Rightarrow> MDB_page \<Rightarrow> bool" where
  "chooses t dbi key flags fl ch p \<longleftrightarrow> ch p < NUMKEYS p \<and> (\<forall>mc. stack_ok mc \<and> mc_top mc < CURSOR_STACK \<and> mc_flags mc = fl \<longrightarrow>
     (\<exists>x. search_index (md_cmp (mt_dbxs t ! dbi)) (unat (md_pad (mt_dbs t ! dbi))) key flags p mc =
       Inr (Some (ch p), mc\<lparr>mc_ki := (mc_ki mc)[mc_top mc := x]\<rparr>)))"

lemma search_root_descends:
  assumes "tree_ok t psize ok lt h lo hi tr" and "h < n"
    and "stack_ok mc" "mc_snum mc = Suc (mc_top mc)" "mc_top mc + h < CURSOR_STACK" "mc_pg mc ! mc_top mc = Some (root_page tr)"
    and "mc_dbi mc < length (mt_dbxs t)" "mc_dbi mc < length (mt_dbs t)" and "plain flags"
    and ch: "\<And>p. IS_BRANCH p \<Longrightarrow> page_sorted ok lt psize p \<Longrightarrow> chooses t (mc_dbi mc) key flags (mc_flags mc) ch p"
  shows "\<exists>mc'. search_root_loop n touch key flags (t, mc) = Inr (0, t, set_initialized mc') \<and> stack_ok mc' \<and> mc_top mc' = mc_top mc + h \<and>
     mc_snum mc' = Suc (mc_top mc') \<and> mc_dbi mc' = mc_dbi mc \<and> mc_flags mc' = mc_flags mc \<and> on_path h mc' (mc_top mc) tr \<and> follows ch h mc' (mc_top mc) tr \<and>
     (\<forall>j\<le>mc_top mc. mc_pg mc' ! j = mc_pg mc ! j) \<and> (\<forall>j<mc_top mc. mc_ki mc' ! j = mc_ki mc ! j)"
  using assms
proof (induction h arbitrary: n lo hi tr mc)
  case 0
  then obtain p where p: "tr = Lf p" "page_sorted ok lt psize p" "IS_LEAF p" by (cases tr) auto
  then have "\<not> IS_BRANCH p" by (auto dest: page_sortedD(3))
  moreover obtain m where "n = Suc m" using 0(2) by (cases n) auto
  ultimately show ?case using 0 p by (intro exI [of _ mc]) (simp add: top_page_eq set_initialized_def)
next
  case (Suc h)
  then obtain p ts where tr: "tr = Br p ts" "page_sorted ok lt psize p" "IS_BRANCH p" "length ts = NUMKEYS p"
    "\<And>i. i < NUMKEYS p \<Longrightarrow> page_of t (NODEPGNO (hdr_at p i)) (root_page (ts ! i)) \<and> tree_ok t psize ok lt h (low_bound lo p i) (high_bound hi p i) (ts ! i)"
    by (cases tr) auto
  obtain m where m: "n = Suc m" "h < m" using Suc.prems(2) by (cases n) auto
  note ps = page_sortedD [OF tr(2)]
  have c: "ch p < NUMKEYS p" using Suc.prems(10) [OF tr(3,2)] by (simp add: chooses_def)
  let ?i = "ch p" and ?mc = "descend (ch p) (root_page (ts ! ch p)) mc"
  have top: "mc_top mc < CURSOR_STACK" "mc_snum mc < CURSOR_STACK" using Suc.prems(4,5) by simp_all
  obtain x where x: "search_index (md_cmp (mt_dbxs t ! mc_dbi mc)) (unat (md_pad (mt_dbs t ! mc_dbi mc))) key flags p mc =
       Inr (Some ?i, mc\<lparr>mc_ki := (mc_ki mc)[mc_top mc := x]\<rparr>)"
    using Suc.prems(10) [OF tr(3,2)] Suc.prems(3) top unfolding chooses_def by blast
  have step: "search_root_loop n touch key flags (t, mc) = search_root_loop m touch key flags (t, ?mc)"
    unfolding m(1) using Suc.prems tr ps c top
    by (intro search_root_step [OF _ _ _ _ _ _ ps(1) _ _ _ x]) (auto dest: ps(4))
  note cells = descend_cells [OF Suc.prems(3,4) top(2), where i = ?i and q = "root_page (ts ! ?i)"]
  have "\<exists>mc'. search_root_loop m touch key flags (t, ?mc) = Inr (0, t, set_initialized mc') \<and> stack_ok mc' \<and> mc_top mc' = mc_top ?mc + h \<and>
     mc_snum mc' = Suc (mc_top mc') \<and> mc_dbi mc' = mc_dbi ?mc \<and> mc_flags mc' = mc_flags ?mc \<and> on_path h mc' (mc_top ?mc) (ts ! ?i) \<and> follows ch h mc' (mc_top ?mc) (ts ! ?i) \<and>
     (\<forall>j\<le>mc_top ?mc. mc_pg mc' ! j = mc_pg ?mc ! j) \<and> (\<forall>j<mc_top ?mc. mc_ki mc' ! j = mc_ki ?mc ! j)"
    using Suc.prems tr(5) [OF c] m(2) cells(1)
    by (intro Suc.IH) (auto simp: descend_simps)
  then obtain mc' where mc': "search_root_loop m touch key flags (t, ?mc) = Inr (0, t, set_initialized mc')" "stack_ok mc'" "mc_top mc' = mc_top ?mc + h"
     "mc_snum mc' = Suc (mc_top mc')" "mc_dbi mc' = mc_dbi ?mc" "mc_flags mc' = mc_flags ?mc" "on_path h mc' (mc_top ?mc) (ts ! ?i)" "follows ch h mc' (mc_top ?mc) (ts ! ?i)"
     "\<And>j. j \<le> mc_top ?mc \<Longrightarrow> mc_pg mc' ! j = mc_pg ?mc ! j" "\<And>j. j < mc_top ?mc \<Longrightarrow> mc_ki mc' ! j = mc_ki ?mc ! j" by blast
  have k: "mc_ki mc' ! mc_top mc = ?i" "mc_pg mc' ! mc_top mc = Some p"
    using mc'(9) [of "mc_top mc"] mc'(10) [of "mc_top mc"] cells(2,4) Suc.prems(4,6) tr(1) by simp_all
  show ?case
    unfolding step using mc' k Suc.prems(4) tr(1,4) c cells
    by (intro exI [of _ mc']) auto
qed

subsection \<open>A database in a transaction\<close>

text \<open>The handle \<open>dbi\<close> is open, its record is current, its comparison function is \<open>f\<close> and its root is the root of the
  tree \<open>tr\<close> of height \<open>h\<close>.\<close>

definition db_tree :: "MDB_txn \<Rightarrow> nat \<Rightarrow> cmp_func \<Rightarrow> nat \<Rightarrow> (u8 list \<Rightarrow> bool) \<Rightarrow> (u8 list \<Rightarrow> u8 list \<Rightarrow> bool) \<Rightarrow> nat \<Rightarrow> mtree \<Rightarrow> bool" where
  "db_tree t dbi f psize ok lt h tr \<longleftrightarrow> \<not> has_flag (mt_flags t) MDB_TXN_BLOCKED \<and>
     dbi < length (mt_dbs t) \<and> dbi < length (mt_dbxs t) \<and> dbi < length (mt_dbflags t) \<and>
     has_flag (mt_dbflags t ! dbi) DB_USRVALID \<and> \<not> has_flag (mt_dbflags t ! dbi) DB_STALE \<and> \<not> has_flag (md_flags (mt_dbs t ! dbi)) MDB_DUPSORT \<and>
     md_cmp (mt_dbxs t ! dbi) = f \<and> md_root (mt_dbs t ! dbi) \<noteq> P_INVALID \<and> 1 < md_root (mt_dbs t ! dbi) \<and>
     mp_pgno (root_page tr) = md_root (mt_dbs t ! dbi) \<and> page_of t (md_root (mt_dbs t ! dbi)) (root_page tr) \<and>
     h < CURSOR_STACK \<and> tree_ok t psize ok lt h None None tr"

lemma db_treeD:
  assumes "db_tree t dbi f psize ok lt h tr"
  shows "\<not> has_flag (mt_flags t) MDB_TXN_BLOCKED" "dbi < length (mt_dbs t)" "dbi < length (mt_dbxs t)" "dbi < length (mt_dbflags t)"
    "\<not> has_flag (mt_dbflags t ! dbi) DB_STALE" "\<not> has_flag (md_flags (mt_dbs t ! dbi)) MDB_DUPSORT" "md_cmp (mt_dbxs t ! dbi) = f"
    "md_root (mt_dbs t ! dbi) \<noteq> P_INVALID" "1 < md_root (mt_dbs t ! dbi)" "mp_pgno (root_page tr) = md_root (mt_dbs t ! dbi)"
    "page_of t (md_root (mt_dbs t ! dbi)) (root_page tr)" "h < CURSOR_STACK" "tree_ok t psize ok lt h None None tr"
    "has_flag (mt_dbflags t ! dbi) DB_USRVALID"
  using assms by (simp_all add: db_tree_def)

text \<open>A cursor whose cell 0 does not claim to be the root without being it.\<close>

definition root_cell :: "MDB_cursor \<Rightarrow> mtree \<Rightarrow> bool" where
  "root_cell mc tr \<longleftrightarrow> (case mc_pg mc ! 0 of None \<Rightarrow> True | Some p \<Rightarrow> mp_pgno p = mp_pgno (root_page tr) \<longrightarrow> p = root_page tr)"

lemma page_search_descends:
  assumes db: "db_tree t dbi f psize ok lt h tr" and mc: "stack_ok mc" "mc_dbi mc = dbi" "root_cell mc tr" and fl: "plain flags"
    and ch: "\<And>p. IS_BRANCH p \<Longrightarrow> page_sorted ok lt psize p \<Longrightarrow> chooses t dbi key flags (mc_flags mc) ch p"
  shows "\<exists>mc'. mdb_page_search touch key flags (t, mc) = Inr (0, t, set_initialized mc') \<and> mc_dbi mc' = dbi \<and> mc_flags mc' = mc_flags mc \<and>
     cursor_at h mc' tr \<and> follows ch h mc' 0 tr"
proof -
  note d = db_treeD [OF db]
  let ?mc = "mc\<lparr>mc_pg := (mc_pg mc)[0 := Some (root_page tr)], mc_snum := 1, mc_top := 0\<rparr>"
  have C: "0 < CURSOR_STACK" by (simp add: CURSOR_STACK_def)
  have g: "aget (mc_pg mc) 0 = Inr (mc_pg mc ! 0)" using mc(1) C by simp
  have root: "okE (if (case mc_pg mc ! 0 of None \<Rightarrow> True | Some p \<Rightarrow> mp_pgno p \<noteq> md_root (mt_dbs t ! dbi))
         then with_page (md_root (mt_dbs t ! dbi)) (t, mc) (\<lambda>p. Inr (0, t, mc\<lparr>mc_pg := (mc_pg mc)[0 := Some p]\<rparr>)) else Inr (0, t, mc)) k =
       k (t, mc\<lparr>mc_pg := (mc_pg mc)[0 := Some (root_page tr)]\<rparr>)" for k
  proof (cases "case mc_pg mc ! 0 of None \<Rightarrow> True | Some p \<Rightarrow> mp_pgno p \<noteq> md_root (mt_dbs t ! dbi)")
    case True
    then show ?thesis by (simp only: if_True with_page_of [OF d(11)] okE_simps)
  next
    case False
    then have "mc_pg mc ! 0 = Some (root_page tr)" using mc(3) d(10) by (auto simp: root_cell_def split: option.splits)
    then have "mc = mc\<lparr>mc_pg := (mc_pg mc)[0 := Some (root_page tr)]\<rparr>" by (metis list_update_id MDB_cursor.surjective MDB_cursor.update_convs(5))
    then show ?thesis using False by simp
  qed
  have s: "mdb_page_search touch key flags (t, mc) = mdb_page_search_root touch key flags (t, ?mc)"
    using d fl mc by (simp add: mdb_page_search_def db_refresh_def page_search_fresh_def Let_def g root plain_def)
  have "\<exists>mc'. search_root_loop (CURSOR_STACK + 2) touch key flags (t, ?mc) = Inr (0, t, set_initialized mc') \<and> stack_ok mc' \<and> mc_top mc' = mc_top ?mc + h \<and>
     mc_snum mc' = Suc (mc_top mc') \<and> mc_dbi mc' = mc_dbi ?mc \<and> mc_flags mc' = mc_flags ?mc \<and> on_path h mc' (mc_top ?mc) tr \<and> follows ch h mc' (mc_top ?mc) tr \<and>
     (\<forall>j\<le>mc_top ?mc. mc_pg mc' ! j = mc_pg ?mc ! j) \<and> (\<forall>j<mc_top ?mc. mc_ki mc' ! j = mc_ki ?mc ! j)"
    using d mc C ch by (intro search_root_descends [OF d(13)]) (simp_all add: fl stack_ok_def)
  then show ?thesis unfolding s mdb_page_search_root_def cursor_at_def using mc(2) d(12) by auto
qed

end
