(* ===== verification/Mdb_Touch.thy ===== *)
theory Mdb_Touch
  imports Mdb_Alloc_Correct Mdb_Tree
begin

text \<open>
  Copy-on-write in LMDB (\<open>lib/lmdb/mdb.c\<close>): \<open>mdb_page_copy\<close>, \<open>mdb_page_unspill\<close>, \<open>mdb_page_touch\<close> and
  \<open>mdb_cursor_touch\<close>. A page that is written for the first time in a transaction moves to a new page number; its parent, written
  before it, is made to point there.
\<close>

subsection \<open>Copying pages\<close>

text \<open>\<open>memcpy\<close> of the first \<open>n\<close> bytes of a page, and of the bytes from \<open>u\<close> on. The header is in the first 16 bytes; pointer
  \<open>k\<close> is at byte \<open>16 + 2 k\<close>.\<close>

definition copy_head :: "nat \<Rightarrow> MDB_page \<Rightarrow> MDB_page \<Rightarrow> MDB_page" where
  "copy_head n src dst =
     (let k = (n - PAGEHDRSZ) div 2 in
      src\<lparr>mp_ptrs := take k (mp_ptrs src) @ drop k (mp_ptrs dst), mp_bytes := take n (mp_bytes src) @ drop n (mp_bytes dst)\<rparr>)"

definition copy_tail :: "nat \<Rightarrow> MDB_page \<Rightarrow> MDB_page \<Rightarrow> MDB_page" where
  "copy_tail u src dst =
     (let k = (u - PAGEHDRSZ) div 2 in
      dst\<lparr>mp_ptrs := take k (mp_ptrs dst) @ drop k (mp_ptrs src), mp_bytes := take u (mp_bytes dst) @ drop u (mp_bytes src)\<rparr>)"

definition mdb_page_copy :: "nat \<Rightarrow> MDB_page \<Rightarrow> MDB_page \<Rightarrow> MDB_page res" where
  "mdb_page_copy psize src dst =
     (let unused = (mp_upper src - mp_lower src) AND (- 8) in
      if length (mp_bytes src) < psize \<or> length (mp_bytes dst) < psize then Inl Out_of_bounds
      else if unused \<noteq> 0 \<and> \<not> IS_LEAF2 src then
        (let upper = unat (mp_upper src AND (- 8)); n = unat ((ucast (mp_lower src) + 7 :: u32) AND (- 8)) in
         if upper \<le> psize \<and> n \<le> psize then Inr (copy_tail upper src (copy_head n src dst)) else Inl Out_of_bounds)
      else if unat unused \<le> psize then Inr (copy_head (psize - unat unused) src dst)
      else Inl Out_of_bounds)"

subsection \<open>Bringing a spilled page back\<close>

text \<open>The loop over the transaction and its parents: the level and the index where the page is spilled.\<close>

fun unspill_find :: "MDB_ID \<Rightarrow> nat \<Rightarrow> (MDB_ID list option \<times> MDB_ID2 list) list \<Rightarrow> (nat \<times> nat) option res" where
  "unspill_find pn level [] = Inr None"
| "unspill_find pn level ((None, dl) # ls) = unspill_find pn (level + 1) ls"
| "unspill_find pn level ((Some s, dl) # ls) =
     bindE (mdb_midl_search s pn) (\<lambda>x. bindE (aget s 0) (\<lambda>n.
     bindE (if ucast x \<le> n then bindE (aget s (unat x)) (\<lambda>v. Inr (v = pn)) else Inr False) (\<lambda>found.
     if found then Inr (Some (level, unat x)) else unspill_find pn (level + 1) ls)))"

text \<open>The page is no longer spilled in this transaction.\<close>

definition unspill_mark :: "nat \<Rightarrow> MDB_wtxn \<Rightarrow> MDB_wtxn res" where
  "unspill_mark x w =
     (case mt_lists (w_txn w) of
        (Some s, dl) # ls \<Rightarrow>
          bindE (aget s 0) (\<lambda>n.
          bindE (if of_nat x = n then aset s 0 (n - 1) else bindE (aget s x) (\<lambda>v. aset s x (v OR 1))) (\<lambda>s'.
          Inr (upd_txn (\<lambda>t. t\<lparr>mt_lists := (Some s', dl) # ls\<rparr>) w)))
      | _ \<Rightarrow> Inl Bad_pointer)"

definition mdb_page_unspill :: "malloc \<Rightarrow> pptr \<Rightarrow> MDB_wtxn \<Rightarrow> (int \<times> nat option \<times> MDB_wtxn) res" where
  "mdb_page_unspill m p w =
     (let mp = page_at w p in
      bindE (unspill_find (push_bit 1 (mp_pgno mp)) 0 (mt_lists (w_txn w))) (\<lambda>r.
      case r of
        None \<Rightarrow> Inr (0, None, w)
      | Some (level, x) \<Rightarrow>
          if mt_dirty_room w = 0 then Inr (MDB_TXN_FULL, None, w)
          else
            let num = (if IS_OVERFLOW mp then unat (ucast (mp_lower mp) OR push_bit 16 (ucast (mp_upper mp)) :: u32) else 1) in
            if has_flag (me_flags (w_env w)) MDB_WRITEMAP then Inl Assert_failed
            else
              (case mdb_page_malloc m num w of
                 (None, w1) \<Rightarrow> Inr (ENOMEM, None, w1)
               | (Some a, w1) \<Rightarrow>
                   bindE (if 1 < num then Inr mp else mdb_page_copy (me_psize (w_env w1)) mp (me_mem (w_txn w1) a)) (\<lambda>np.
                   bindE (if level = 0 then unspill_mark x (put_page a np w1) else Inr (put_page a np w1)) (\<lambda>w2.
                   bindE (mdb_page_dirty a w2) (\<lambda>w3.
                   Inr (0, Some a, put_page a ((me_mem (w_txn w3) a)\<lparr>mp_flags := mp_flags (me_mem (w_txn w3) a) OR P_DIRTY\<rparr>) w3)))))))"

subsection \<open>Touching a page\<close>

definition wtop :: "MDB_wcursor \<Rightarrow> pptr res" where
  "wtop mc = bindE (aget (wc_pg mc) (wc_top mc)) (\<lambda>o1. case o1 of None \<Rightarrow> Inl Bad_pointer | Some p \<Rightarrow> Inr p)"

text \<open>\<open>SETPGNO(NODEPTR(parent, i), pgno)\<close>.\<close>

definition set_child :: "nat \<Rightarrow> size_t \<Rightarrow> MDB_page \<Rightarrow> MDB_page res" where
  "set_child i pgno p =
     bindE (node_hdr p i) (\<lambda>(d, h). bindE (mem_put d (enc_node (SETPGNO pgno h)) (mp_bytes p)) (\<lambda>bs. Inr (p\<lparr>mp_bytes := bs\<rparr>)))"

definition link_page :: "size_t \<Rightarrow> MDB_wcursor \<Rightarrow> MDB_wtxn \<Rightarrow> MDB_wtxn res" where
  "link_page pgno mc w =
     (if wc_top mc \<noteq> 0 then
        bindE (aget (wc_pg mc) (wc_top mc - 1)) (\<lambda>par. bindE (aget (wc_ki mc) (wc_top mc - 1)) (\<lambda>i.
        case par of
          Some (Mem b) \<Rightarrow> bindE (set_child i pgno (me_mem (w_txn w) b)) (\<lambda>p. Inr (put_page b p w))
        | _ \<Rightarrow> Inl Bad_pointer))
      else
        bindE (aget (mt_dbs (w_txn w)) (wc_dbi mc)) (\<lambda>db.
        Inr (upd_txn (\<lambda>t. t\<lparr>mt_dbs := (mt_dbs t)[wc_dbi mc := db\<lparr>md_root := pgno\<rparr>]\<rparr>) w)))"

text \<open>The label \<open>done\<close>: the cursor and the other cursors of the database that are on the old page; those with fewer pages on their stack
  are left alone.\<close>

definition adjust_cursor :: "MDB_wcursor \<Rightarrow> pptr \<Rightarrow> nat \<Rightarrow> MDB_wcursor \<Rightarrow> MDB_wcursor" where
  "adjust_cursor mc p a m2 =
     (if wc_snum m2 < wc_snum mc then m2
      else if wc_top mc < length (wc_pg m2) \<and> wc_pg m2 ! wc_top mc = Some p then m2\<lparr>wc_pg := (wc_pg m2)[wc_top mc := Some (Mem a)]\<rparr>
      else m2)"

definition touch_done :: "pptr \<Rightarrow> nat \<Rightarrow> MDB_wtxn \<Rightarrow> MDB_wcursor \<Rightarrow> MDB_wcursor list \<Rightarrow> (int \<times> MDB_wtxn \<times> MDB_wcursor \<times> MDB_wcursor list) res" where
  "touch_done p a w mc cs =
     bindE (aset (wc_pg mc) (wc_top mc) (Some (Mem a))) (\<lambda>pg. Inr (0, w, mc\<lparr>wc_pg := pg\<rparr>, map (adjust_cursor mc p a) cs))"

text \<open>\<open>mdb_page_copy\<close> into the new page, its number and its flags.\<close>

definition touch_copy :: "pptr \<Rightarrow> nat \<Rightarrow> size_t \<Rightarrow> MDB_wtxn \<Rightarrow> MDB_wcursor \<Rightarrow> MDB_wcursor list \<Rightarrow> (int \<times> MDB_wtxn \<times> MDB_wcursor \<times> MDB_wcursor list) res" where
  "touch_copy p a pgno w mc cs =
     bindE (mdb_page_copy (me_psize (w_env w)) (page_at w p) (me_mem (w_txn w) a)) (\<lambda>np.
     touch_done p a (put_page a (np\<lparr>mp_pgno := pgno, mp_flags := mp_flags np OR P_DIRTY\<rparr>) w) mc cs)"

text \<open>The page is dirty and the transaction has a parent: find or make a copy of its own.\<close>

definition touch_nested :: "malloc \<Rightarrow> pptr \<Rightarrow> MDB_wtxn \<Rightarrow> MDB_wcursor \<Rightarrow> MDB_wcursor list \<Rightarrow> (int \<times> MDB_wtxn \<times> MDB_wcursor \<times> MDB_wcursor list) res" where
  "touch_nested m p w mc cs =
     (case mt_lists (w_txn w) of
        [] \<Rightarrow> Inl Bad_pointer
      | (sp, dl) # ls \<Rightarrow>
          let pgno = mp_pgno (page_at w p) in
          bindE (aget dl 0) (\<lambda>n.
          bindE (if mid n \<noteq> 0 then
                   bindE (mdb_mid2l_search dl pgno) (\<lambda>x.
                     if ucast x \<le> mid n then bindE (aget dl (unat x)) (\<lambda>e. Inr (if mid e = pgno then Some (mptr e) else None)) else Inr None)
                 else Inr None) (\<lambda>own.
          case own of
            Some a \<Rightarrow>
              if p \<noteq> Mem a then Inr (MDB_CORRUPTED, w_error w, mc\<lparr>wc_flags := clear_flag (wc_flags mc) (C_INITIALIZED OR C_EOF)\<rparr>, cs)
              else Inr (0, w, mc, cs)
          | None \<Rightarrow>
              assertE (mid n < of_nat MDB_IDL_UM_MAX)
              (case mdb_page_malloc m 1 w of
                 (None, w1) \<Rightarrow> Inr (ENOMEM, w1, mc, cs)
               | (Some a, w1) \<Rightarrow>
                   bindE (mdb_mid2l_insert dl \<lparr>mid = pgno, mptr = a\<rparr>) (\<lambda>(rc, dl').
                   assertE (rc = 0) (touch_copy p a pgno (upd_txn (\<lambda>t. t\<lparr>mt_lists := (sp, dl') # ls\<rparr>) w1) mc cs))))))"

text \<open>\<open>mdb_page_touch\<close>; \<open>n\<close> and \<open>mm\<close> are for \<open>mdb_page_alloc\<close>, \<open>mf\<close> is the memory of \<open>mt_free_pgs\<close> and \<open>cs\<close> are the other cursors of the
  database.\<close>

definition mdb_page_touch :: "nat \<Rightarrow> (nat \<Rightarrow> mem) \<Rightarrow> mem \<Rightarrow> malloc \<Rightarrow> MDB_wtxn \<Rightarrow> MDB_wcursor \<Rightarrow> MDB_wcursor list \<Rightarrow>
    (int \<times> MDB_wtxn \<times> MDB_wcursor \<times> MDB_wcursor list) res" where
  "mdb_page_touch n mm mf m w mc cs =
     bindE (wtop mc) (\<lambda>p.
     let mp = page_at w p in
     if \<not> F_ISSET (mp_flags mp) P_DIRTY then
       bindE (if has_flag (mt_flags (w_txn w)) MDB_TXN_SPILLS then mdb_page_unspill m p w else Inr (0, None, w)) (\<lambda>(rc, np, w1).
       if rc \<noteq> 0 then Inr (rc, w_error w1, mc, cs)
       else
         (case np of
            Some a \<Rightarrow> touch_done p a w1 mc cs
          | None \<Rightarrow>
              bindE (mdb_midl_need mf (mt_free_pgs w1) 1) (\<lambda>(rc, fl).
              let w2 = w1\<lparr>mt_free_pgs := fl\<rparr> in
              if rc \<noteq> 0 then Inr (rc, w_error w2, mc, cs)
              else
                bindE (mdb_page_alloc n mm m 1 w2) (\<lambda>(rc, r, w3).
                if rc \<noteq> 0 then Inr (rc, w_error w3, mc, cs)
                else
                  (case r of
                     None \<Rightarrow> Inl Bad_pointer
                   | Some a \<Rightarrow>
                       let pgno = mp_pgno (me_mem (w_txn w3) a) in
                       assertE (mp_pgno mp \<noteq> pgno)
                       (bindE (mdb_midl_xappend (mt_free_pgs w3) (mp_pgno mp)) (\<lambda>fl'.
                        bindE (link_page pgno mc (w3\<lparr>mt_free_pgs := fl'\<rparr>)) (\<lambda>w4. touch_copy p a pgno w4 mc cs))))))))
     else if has_parent w \<and> \<not> F_ISSET (mp_flags mp) P_SUBP then touch_nested m p w mc cs
     else Inr (0, w, mc, cs))"

text \<open>The loop of \<open>mdb_cursor_touch\<close>, from the root down; \<open>k\<close> rounds are left.\<close>

fun touch_loop :: "nat \<Rightarrow> (nat \<Rightarrow> MDB_wtxn \<Rightarrow> MDB_wcursor \<Rightarrow> MDB_wcursor list \<Rightarrow> (int \<times> MDB_wtxn \<times> MDB_wcursor \<times> MDB_wcursor list) res) \<Rightarrow>
    MDB_wtxn \<Rightarrow> MDB_wcursor \<Rightarrow> MDB_wcursor list \<Rightarrow> (int \<times> MDB_wtxn \<times> MDB_wcursor \<times> MDB_wcursor list) res" where
  "touch_loop 0 touch w mc cs = Inr (0, w, mc, cs)"
| "touch_loop (Suc k) touch w mc cs =
     bindE (touch k w mc cs) (\<lambda>(rc, w1, mc1, cs1).
     if rc \<noteq> 0 then Inr (rc, w1, mc1, cs1) else touch_loop k touch w1 (mc1\<lparr>wc_top := wc_top mc1 + 1\<rparr>) cs1)"

text \<open>\<open>mdb_cursor_touch\<close>; \<open>touch k\<close> is the call of \<open>mdb_page_touch\<close> with \<open>k\<close> rounds left after it, \<open>search_rec\<close> the call of \<open>mdb_page_search\<close>
  with \<open>MDB_PS_MODIFY\<close> for the record of a named database in the main database.\<close>

definition mdb_cursor_touch :: "(MDB_wtxn \<Rightarrow> (int \<times> MDB_wtxn) res) \<Rightarrow>
    (nat \<Rightarrow> MDB_wtxn \<Rightarrow> MDB_wcursor \<Rightarrow> MDB_wcursor list \<Rightarrow> (int \<times> MDB_wtxn \<times> MDB_wcursor \<times> MDB_wcursor list) res) \<Rightarrow>
    MDB_wtxn \<Rightarrow> MDB_wcursor \<Rightarrow> MDB_wcursor list \<Rightarrow> (int \<times> MDB_wtxn \<times> MDB_wcursor \<times> MDB_wcursor list) res" where
  "mdb_cursor_touch search_rec touch w mc cs =
     (let dbi = wc_dbi mc in
      bindE (aget (mt_dbflags (w_txn w)) dbi) (\<lambda>fl.
      bindE (if CORE_DBS \<le> dbi \<and> \<not> has_flag fl (DB_DIRTY OR DB_DUPDATA) then
               bindE (aget (mt_dbiseqs (w_txn w)) dbi) (\<lambda>s1. bindE (aget (me_dbiseqs (w_txn w)) dbi) (\<lambda>s2.
               if s1 \<noteq> s2 then Inr (MDB_BAD_DBI, w)
               else
                 bindE (search_rec w) (\<lambda>(rc, w1).
                 if rc \<noteq> 0 then Inr (rc, w1)
                 else Inr (0, upd_txn (\<lambda>t. t\<lparr>mt_dbflags := (mt_dbflags t)[dbi := set_flag (mt_dbflags t ! dbi) DB_DIRTY]\<rparr>) w1))))
             else Inr (0, w)) (\<lambda>(rc, w1).
      if rc \<noteq> 0 then Inr (rc, w1, mc, cs)
      else if wc_snum mc = 0 then Inr (0, w1, mc\<lparr>wc_top := 0\<rparr>, cs)
      else
        bindE (touch_loop (wc_snum mc) touch w1 (mc\<lparr>wc_top := 0\<rparr>) cs) (\<lambda>(rc, w2, mc2, cs2).
        Inr (rc, w2, mc2\<lparr>wc_top := wc_snum mc2 - 1\<rparr>, cs2)))))"

end
