(* ===== verification/Mdb_Touch_Correct.thy ===== *)
theory Mdb_Touch_Correct
  imports Mdb_Touch
begin

text \<open>
  Copy-on-write keeps what was there: a copied page has the nodes of the original, redirecting a child changes one node, and
  touching a page moves it without a change of its contents.
\<close>

subsection \<open>Pages with the same nodes\<close>

lemma page_same:
  assumes wf: "page_wf psize p" and hdr: "mp_lower q = mp_lower p" "mp_upper q = mp_upper p" "IS_LEAF q = IS_LEAF p"
    and len: "length (mp_ptrs q) = length (mp_ptrs p)" "length (mp_bytes q) = length (mp_bytes p)"
    and ptrs: "\<And>i. i < NUMKEYS p \<Longrightarrow> mp_ptrs q ! i = mp_ptrs p ! i"
    and same: "\<And>x. unat (mp_upper p) \<le> x \<Longrightarrow> x < psize \<Longrightarrow> mp_bytes q ! x = mp_bytes p ! x"
  shows "page_wf psize q" "page_nodes q = page_nodes p" "page_offs q = page_offs p" "NUMKEYS q = NUMKEYS p"
proof -
  note w = page_wfD [OF wf]
  show nk: "NUMKEYS q = NUMKEYS p" by (simp add: NUMKEYS_def hdr)
  have "take (NUMKEYS p) (mp_ptrs q) = take (NUMKEYS p) (mp_ptrs p)" using ptrs len w(7) by (intro nth_equalityI) simp_all
  then show of: "page_offs q = page_offs p" by (simp add: page_offs_def nk)
  have kept: "node_at (IS_LEAF p) (mp_bytes q) e = node_at (IS_LEAF p) (mp_bytes p) e" "ext_at (IS_LEAF p) (mp_bytes q) e = ext_at (IS_LEAF p) (mp_bytes p) e"
    if "e \<in> set (page_offs p)" for e
    using nodes_kept [OF wf that, of "mp_bytes q"] same len(2) w(2) by simp_all
  show "page_nodes q = page_nodes p" using kept(1) by (simp add: page_nodes_def of hdr(3))
  have "sorted_wrt (apart (IS_LEAF p) (mp_bytes q)) (page_offs p)"
    using w(9) by (rule sorted_wrt_mono_rel [rotated]) (simp add: apart_def kept(2))
  then show "page_wf psize q" using wf kept(2) by (simp add: page_wf_def of hdr len)
qed

subsection \<open>Copying\<close>

lemma and_not_mask: "unat (x AND NOT (mask k)) = 2 ^ k * (unat x div 2 ^ k)" for x :: "'a::len word"
proof -
  have "x AND NOT (mask k) = push_bit k (drop_bit k x)"
    by (rule bit_word_eqI) (auto simp: bit_and_iff bit_not_iff bit_mask_iff bit_push_bit_iff bit_drop_bit_eq not_less)
  moreover have "2 ^ k * (unat x div 2 ^ k) < 2 ^ LENGTH('a)"
    by (rule le_less_trans [OF _ unsigned_less [of x]]) simp
  moreover have "unat (push_bit k (drop_bit k x)) = take_bit LENGTH('a) (2 ^ k * (unat x div 2 ^ k))"
    unfolding unsigned_push_bit_eq unsigned_drop_bit_eq by (simp add: push_bit_eq_mult drop_bit_eq_div mult.commute take_bit_nat_eq_self [OF unsigned_less])
  ultimately show ?thesis by (simp add: take_bit_nat_eq_self)
qed

lemma and_minus_8: "unat (x AND (- 8)) = 8 * (unat x div 8)" for x :: "'a::len word"
proof -
  have "(- 8 :: 'a word) = NOT (mask 3)" by (simp add: mask_eq_exp_minus_1 not_eq_complement)
  then show ?thesis using and_not_mask [of x 3] by simp
qed

text \<open>\<open>mdb_midl_need\<close> makes room for the number of IDs asked for and keeps the list.\<close>

lemma need_ok:
  assumes ok: "midl_ok idl" and m: "mem_ok m" and small: "unat (cells idl ! 0) + unat num < 2 ^ 31"
  obtains idl' where "mdb_midl_need m idl num = Inr (0, idl')" "midl_ok idl'" "idl_ids idl' = idl_ids idl" "unat (cells idl' ! 0) + unat num \<le> unat (alloclen idl')"
    "cells idl' ! 0 = cells idl ! 0"
proof -
  obtain idl' where i: "mdb_midl_need m idl num = Inr (0, idl')" "midl_ok idl'" "idl_ids idl' = idl_ids idl" "unat (cells idl ! 0) + unat num \<le> unat (alloclen idl')"
    using midl_need_room [OF assms] by blast
  have "cells idl' ! 0 = cells idl ! 0" using midl_form(2) [OF i(2)] midl_form(2) [OF ok] i(3) by (simp add: word_unat_eq_iff)
  then show thesis using that i by simp
qed

lemma copy_head_tail:
  assumes wf: "page_wf psize src" and dst: "length (mp_ptrs dst) = (psize - 16) div 2" "length (mp_bytes dst) = psize"
    and n: "unat (mp_lower src) \<le> n" "n \<le> psize" and u: "u \<le> unat (mp_upper src)" and q: "q = copy_tail u src (copy_head n src dst)"
  shows "page_wf psize q" "page_nodes q = page_nodes src" "mp_flags q = mp_flags src" "length (mp_bytes q) = psize" "NUMKEYS q = NUMKEYS src" "mp_pad q = mp_pad src"
proof -
  note w = page_wfD [OF wf]
  let ?h = "copy_head n src dst"
  have hdr: "mp_lower q = mp_lower src" "mp_upper q = mp_upper src" "mp_flags q = mp_flags src" "mp_pad q = mp_pad src"
    by (simp_all add: q copy_tail_def copy_head_def Let_def)
  have k: "NUMKEYS src \<le> (n - 16) div 2" "(n - 16) div 2 \<le> (psize - 16) div 2" using w(4) n by (simp_all add: div_le_mono)
  have h: "length (mp_ptrs ?h) = length (mp_ptrs src)" "length (mp_bytes ?h) = psize" "\<And>i. i < NUMKEYS src \<Longrightarrow> mp_ptrs ?h ! i = mp_ptrs src ! i"
    using w(2,3,7) dst n(2) k by (simp_all add: copy_head_def Let_def PAGEHDRSZ_def nth_append)
  have ku: "(u - PAGEHDRSZ) div 2 \<le> length (mp_ptrs src)" unfolding w(3) PAGEHDRSZ_def using u w(6) by (intro div_le_mono) simp
  have len: "length (mp_ptrs q) = length (mp_ptrs src)" "length (mp_bytes q) = length (mp_bytes src)"
    using h(1,2) ku w(2,6) u by (simp_all add: q copy_tail_def Let_def)
  have ptrs: "mp_ptrs q ! i = mp_ptrs src ! i" if "i < NUMKEYS src" for i
    using h that w(7) by (simp add: q copy_tail_def Let_def nth_append)
  have same: "mp_bytes q ! x = mp_bytes src ! x" if "unat (mp_upper src) \<le> x" "x < psize" for x
    using that u h(2) w(2) by (simp add: q copy_tail_def Let_def nth_append)
  have "IS_LEAF q = IS_LEAF src" by (simp add: IS_LEAF_def hdr)
  note s = page_same [OF wf hdr(1,2) this len ptrs same]
  show "page_wf psize q" "page_nodes q = page_nodes src" "NUMKEYS q = NUMKEYS src" using s by simp_all
  show "mp_flags q = mp_flags src" "mp_pad q = mp_pad src" by (rule hdr)+
  show "length (mp_bytes q) = psize" using len(2) w(2) by simp
qed

lemma unat_lower_7: "unat (ucast x + 7 :: u32) = unat x + 7" for x :: u16
proof -
  have x: "unat x < 65536" using unsigned_less [of x] by simp
  have "unat (ucast x :: u32) = unat x" using x by (simp add: unsigned_ucast_eq take_bit_nat_eq_self)
  then show ?thesis using x by (simp add: unat_word_ariths)
qed

lemma round_up_8: "x \<le> 8 * ((x + 7) div 8)" "x \<le> 8 * c \<Longrightarrow> 8 * ((x + 7) div 8) \<le> 8 * c" for x :: nat
proof -
  show "x \<le> 8 * ((x + 7) div 8)" by presburger
  assume "x \<le> 8 * c"
  then have "(x + 7) div 8 \<le> (8 * c + 7) div 8" by (intro div_le_mono) simp
  also have "(8 * c + 7) div 8 = c" by simp
  finally show "8 * ((x + 7) div 8) \<le> 8 * c" by simp
qed

lemma page_copy_ok:
  assumes wf: "page_wf psize src" and nl: "\<not> IS_LEAF2 src" and dst: "length (mp_ptrs dst) = (psize - 16) div 2" "length (mp_bytes dst) = psize" and al: "8 dvd psize"
  shows "\<exists>q. mdb_page_copy psize src dst = Inr q \<and> page_wf psize q \<and> page_nodes q = page_nodes src \<and> mp_flags q = mp_flags src \<and> NUMKEYS q = NUMKEYS src \<and>
     length (mp_bytes q) = psize"
proof -
  note w = page_wfD [OF wf]
  let ?lo = "unat (mp_lower src)" and ?up = "unat (mp_upper src)"
  have ud: "unat (mp_upper src - mp_lower src) = ?up - ?lo" using w(5) by (simp add: unat_sub word_le_nat_alt)
  show ?thesis
  proof (cases "(mp_upper src - mp_lower src) AND (- 8) = 0")
    case True
    let ?q = "copy_head psize src dst"
    have "?q = copy_tail psize src ?q"
      using w(2,3) dst by (simp add: copy_tail_def copy_head_def Let_def PAGEHDRSZ_def)
    moreover have "copy_tail ?up src ?q = copy_tail psize src ?q"
      using w(2,3,6) dst by (auto simp: copy_tail_def copy_head_def Let_def PAGEHDRSZ_def min_def)
    ultimately have q: "?q = copy_tail ?up src (copy_head psize src dst)" by simp
    have n: "?lo \<le> psize" using w(5,6) by simp
    have "mdb_page_copy psize src dst = Inr ?q" using True w(2) dst by (simp add: mdb_page_copy_def)
    then show ?thesis using copy_head_tail [OF wf dst n order_refl order_refl q] by blast
  next
    case False
    define n where "n = unat ((ucast (mp_lower src) + 7 :: u32) AND (- 8))"
    define u where "u = unat (mp_upper src AND (- 8))"
    have n: "n = 8 * ((?lo + 7) div 8)" by (simp add: n_def and_minus_8 unat_lower_7)
    have u: "u \<le> ?up" by (simp add: u_def and_minus_8)
    have lop: "?lo \<le> psize" using w(5,6) by simp
    have np: "?lo \<le> n" "n \<le> psize"
    proof -
      show "?lo \<le> n" unfolding n by (rule round_up_8)
      obtain c where c: "psize = 8 * c" using al by (elim dvdE)
      show "n \<le> psize" using round_up_8(2) [OF lop [unfolded c]] unfolding n c .
    qed
    have "mdb_page_copy psize src dst = Inr (copy_tail u src (copy_head n src dst))"
      using False nl w(2,6) dst u np(2) by (simp add: mdb_page_copy_def Let_def n_def u_def)
    then show ?thesis using copy_head_tail [OF wf dst np u refl] by blast
  qed
qed

subsection \<open>Redirecting a child\<close>

lemma apart_nodes:
  assumes wf: "page_wf psize p" and ij: "i < NUMKEYS p" "j < NUMKEYS p" "j \<noteq> i"
  shows "apart (IS_LEAF p) (mp_bytes p) (page_offs p ! j) (page_offs p ! i)"
proof (cases "j < i")
  case True
  then show ?thesis using sorted_wrt_nth_less [OF page_wfD(9) [OF wf]] ij length_page_offs [OF wf] by simp
next
  case False
  then show ?thesis using sorted_wrt_nth_less [OF page_wfD(9) [OF wf], of i j] ij length_page_offs [OF wf] by (simp add: apart_sym)
qed

text \<open>A write into one node leaves the others alone.\<close>

lemma other_nodes:
  assumes wf: "page_wf psize p" and i: "i < NUMKEYS p" and j: "j < NUMKEYS p" "j \<noteq> i" and len: "length bs = length (mp_bytes p)"
    and same: "\<And>x. x < length (mp_bytes p) \<Longrightarrow> x < page_offs p ! i \<or> page_offs p ! i + ext_at (IS_LEAF p) (mp_bytes p) (page_offs p ! i) \<le> x \<Longrightarrow> bs ! x = mp_bytes p ! x"
  shows "node_at (IS_LEAF p) bs (page_offs p ! j) = node_at (IS_LEAF p) (mp_bytes p) (page_offs p ! j)"
    "ext_at (IS_LEAF p) bs (page_offs p ! j) = ext_at (IS_LEAF p) (mp_bytes p) (page_offs p ! j)"
proof -
  let ?e = "page_offs p ! j"
  note w = page_wfD [OF wf]
  have ap: "apart (IS_LEAF p) (mp_bytes p) ?e (page_offs p ! i)" using apart_nodes [OF wf i j] .
  have ein: "?e + ext_at (IS_LEAF p) (mp_bytes p) ?e \<le> length (mp_bytes p)" using w(2) w(8) [of ?e] j(1) length_page_offs [OF wf] by simp
  have eq: "bs ! (?e + x) = mp_bytes p ! (?e + x)" if "x < ext_at (IS_LEAF p) (mp_bytes p) ?e" for x
    using that ap ein by (intro same) (auto simp: apart_def)
  show "node_at (IS_LEAF p) bs ?e = node_at (IS_LEAF p) (mp_bytes p) ?e" by (rule node_frame) (use ein eq len in simp_all)
  show "ext_at (IS_LEAF p) bs ?e = ext_at (IS_LEAF p) (mp_bytes p) ?e" by (rule node_frame) (use ein eq len in simp_all)
qed

lemma slice_0: "slice bs d 0 = []"
  by (simp add: slice_def)

lemma set_child_ok:
  assumes wf: "page_wf psize p" and br: "\<not> IS_LEAF p" and i: "i < NUMKEYS p"
  shows "\<exists>q. set_child i pgno p = Inr q \<and> page_wf psize q \<and> mp_flags q = mp_flags p \<and> mp_pgno q = mp_pgno p \<and> NUMKEYS q = NUMKEYS p \<and> length (mp_bytes q) = length (mp_bytes p) \<and>
     page_nodes q = (page_nodes p)[i := (case page_nodes p ! i of (h, k, v) \<Rightarrow> (SETPGNO pgno h, k, v))]"
proof -
  define d where "d = page_offs p ! i"
  note w = page_wfD [OF wf] and h = node_hdr_ok [OF wf i, folded d_def]
  let ?h = "dec_node (slice (mp_bytes p) d 8)"
  have din: "unat (mp_upper p) \<le> d" "d + ext_at False (mp_bytes p) d \<le> psize" using w(8) [OF h(4)] br by simp_all
  note ge = ext_ge [of False "mp_bytes p" d]
  obtain bs where bs: "mem_put d (enc_node (SETPGNO pgno ?h)) (mp_bytes p) = Inr bs" "length bs = length (mp_bytes p)"
    "\<And>x. x < length (mp_bytes p) \<Longrightarrow> d \<le> x \<Longrightarrow> x < d + 8 \<Longrightarrow> bs ! x = enc_node (SETPGNO pgno ?h) ! (x - d)"
    "\<And>x. x < length (mp_bytes p) \<Longrightarrow> x < d \<or> d + 8 \<le> x \<Longrightarrow> bs ! x = mp_bytes p ! x"
    by (rule mem_putE [of d "enc_node (SETPGNO pgno ?h)" "mp_bytes p"]) (use din ge w(2) in simp_all)
  let ?q = "p\<lparr>mp_bytes := bs\<rparr>"
  have call: "set_child i pgno p = Inr ?q" using h(1) bs(1) by (simp add: set_child_def)
  have nk: "NUMKEYS ?q = NUMKEYS p" "IS_LEAF ?q = IS_LEAF p" by (simp_all add: NUMKEYS_def IS_LEAF_def)
  have of: "page_offs ?q = page_offs p" by (simp add: page_offs_def nk)
  have sl: "slice bs d 8 = enc_node (SETPGNO pgno ?h)"
    using bs(2,3) din ge w(2) by (intro slice_eqI) simp_all
  have hd: "dec_node (slice bs d 8) = SETPGNO pgno ?h" by (simp add: sl dec_enc_node)
  have ks: "mn_ksize (SETPGNO pgno ?h) = mn_ksize ?h" by (simp add: SETPGNO_def)
  have ext: "ext_at False bs d = ext_at False (mp_bytes p) d" by (simp add: ext_at_def node_len_def hd ks payload_size_def)
  have sm: "bs ! x = mp_bytes p ! x" if "x < length (mp_bytes p)" "x < page_offs p ! i \<or> page_offs p ! i + ext_at (IS_LEAF p) (mp_bytes p) (page_offs p ! i) \<le> x" for x
    using that bs(4) [of x] ge br by (auto simp: d_def)
  have other: "node_at False bs (page_offs p ! j) = node_at False (mp_bytes p) (page_offs p ! j)" "ext_at False bs (page_offs p ! j) = ext_at False (mp_bytes p) (page_offs p ! j)"
    if "j < NUMKEYS p" "j \<noteq> i" for j
    using other_nodes [OF wf i that bs(2) sm] br by simp_all
  have exts: "ext_at False bs e = ext_at False (mp_bytes p) e" if m: "e \<in> set (page_offs p)" for e
  proof -
    obtain j where "j < NUMKEYS p" "e = page_offs p ! j" using m length_page_offs [OF wf] by (auto simp: in_set_conv_nth)
    then show ?thesis using other(2) [of j] ext by (cases "j = i") (simp_all add: d_def)
  qed
  have "sorted_wrt (apart False (mp_bytes p)) (page_offs p)" using w(9) br by simp
  then have "sorted_wrt (apart False bs) (page_offs p)" by (rule sorted_wrt_mono_rel [rotated]) (simp add: apart_def exts)
  then have wfq: "page_wf psize ?q" using wf exts bs(2) br by (simp add: page_wf_def of nk)
  have lo: "length (page_nodes p) = NUMKEYS p" by (simp add: page_nodes_def length_page_offs [OF wf])
  have "page_nodes ?q ! j = (page_nodes p)[i := (case page_nodes p ! i of (h, k, v) \<Rightarrow> (SETPGNO pgno h, k, v))] ! j" if j: "j < NUMKEYS p" for j
  proof (cases "j = i")
    case False
    then show ?thesis using other(1) [OF j False] j br length_page_offs [OF wf] by (simp add: page_nodes_def of nk)
  next
    case True
    have "slice bs (d + 8) (unat (mn_ksize ?h)) = slice (mp_bytes p) (d + 8) (unat (mn_ksize ?h))"
    proof -
      have "8 + unat (mn_ksize ?h) \<le> ext_at False (mp_bytes p) d"
        unfolding ext_at_def node_len_def using EVEN_ge [of "8 + unat (mn_ksize ?h) + payload_size False ?h"] by linarith
      then have l: "d + 8 + unat (mn_ksize ?h) \<le> psize" using din by linarith
      have "slice bs (d + 8) (unat (mn_ksize ?h)) ! x = mp_bytes p ! (d + 8 + x)" if "x < unat (mn_ksize ?h)" for x
        using that l bs(2) w(2) bs(4) [of "d + 8 + x"] by simp
      then show ?thesis using l bs(2) w(2) by (intro nth_equalityI) simp_all
    qed
    then have "node_at False bs d = (SETPGNO pgno ?h, slice (mp_bytes p) (d + 8) (unat (mn_ksize ?h)), [])"
      unfolding node_at_def Let_def hd ks by (simp add: payload_size_def slice_0)
    moreover have "node_at False (mp_bytes p) d = (?h, slice (mp_bytes p) (d + 8) (unat (mn_ksize ?h)), [])"
      unfolding node_at_def Let_def by (simp add: payload_size_def slice_0)
    moreover have "page_nodes p ! i = node_at False (mp_bytes p) d" "page_nodes ?q ! i = node_at False bs d"
      using i br length_page_offs [OF wf] by (simp_all add: page_nodes_def of nk d_def)
    ultimately show ?thesis using i lo by (simp add: True)
  qed
  then have "page_nodes ?q = (page_nodes p)[i := (case page_nodes p ! i of (h, k, v) \<Rightarrow> (SETPGNO pgno h, k, v))]"
    using lo length_page_offs [OF wfq] nk by (intro nth_equalityI) (simp_all add: page_nodes_def of)
  then show ?thesis using call wfq nk bs(2) by (intro exI [of _ ?q]) simp
qed

subsection \<open>Touching a page\<close>

definition free_ids :: "MDB_wtxn \<Rightarrow> MDB_ID list" where
  "free_ids w = (case me_pghead (w_env w) of None \<Rightarrow> [] | Some l \<Rightarrow> ids_of (cells l))"

text \<open>Room for \<open>k\<close> more pages in a transaction that is not nested: free pages, room in the dirty list and in \<open>mt_free_pgs\<close>.\<close>

definition lists_ready :: "nat \<Rightarrow> MDB_wtxn \<Rightarrow> bool" where
  "lists_ready k w \<longleftrightarrow> (\<exists>dl. mt_lists (w_txn w) = [(None, dl)] \<and> id2_asc dl \<and> unat (mid (dl ! 0)) + k < length dl \<and> unat (mid (dl ! 0)) + k \<le> MDB_IDL_UM_MAX)"

definition write_ready :: "nat \<Rightarrow> MDB_wtxn \<Rightarrow> bool" where
  "write_ready k w \<longleftrightarrow> (case me_pghead (w_env w) of None \<Rightarrow> False | Some l \<Rightarrow> free_ok (cells l)) \<and> k \<le> length (free_ids w) \<and>
     (\<forall>x\<in>set (free_ids w). x \<notin> mid ` set (dirty_of w) \<and> x < 2 ^ 48) \<and> lists_ready k w \<and> distinct (map mptr (dirty_of w)) \<and>
     mt_loose_pgs w = [] \<and> k \<le> unat (mt_dirty_room w) \<and> me_dpages (w_env w) = [] \<and> \<not> has_flag (me_flags (w_env w)) MDB_WRITEMAP \<and>
     \<not> has_flag (mt_flags (w_txn w)) (MDB_TXN_RDONLY OR MDB_TXN_WRITEMAP) \<and> \<not> has_flag (mt_flags (w_txn w)) MDB_TXN_SPILLS \<and> 16 \<le> me_psize (w_env w) \<and> 8 dvd me_psize (w_env w) \<and>
     midl_ok (mt_free_pgs w) \<and> unat (cells (mt_free_pgs w) ! 0) + k < 2 ^ 30"

text \<open>\<open>malloc\<close> gives a block of a page at \<open>a\<close>, which no dirty page uses.\<close>

definition fresh :: "malloc \<Rightarrow> nat \<Rightarrow> MDB_wtxn \<Rightarrow> bool" where
  "fresh m a w \<longleftrightarrow> a \<notin> mptr ` set (dirty_of w) \<and>
     (case m (me_psize (w_env w)) of None \<Rightarrow> False | Some (b, p) \<Rightarrow> b = a \<and> length (mp_ptrs p) = (me_psize (w_env w) - 16) div 2 \<and> length (mp_bytes p) = me_psize (w_env w))"

text \<open>What leads to the page at the top of the cursor: the root of the database, or a node of a branch page that is in memory already.\<close>

definition parent_ready :: "nat \<Rightarrow> MDB_wtxn \<Rightarrow> MDB_wcursor \<Rightarrow> bool" where
  "parent_ready a w mc \<longleftrightarrow>
     (if wc_top mc = 0 then wc_dbi mc < length (mt_dbs (w_txn w))
      else wc_top mc \<le> length (wc_ki mc) \<and> wc_top mc \<le> length (wc_pg mc) \<and>
        (\<exists>b. wc_pg mc ! (wc_top mc - 1) = Some (Mem b) \<and> b \<noteq> a \<and> page_wf (me_psize (w_env w)) (me_mem (w_txn w) b) \<and> \<not> IS_LEAF (me_mem (w_txn w) b) \<and>
           wc_ki mc ! (wc_top mc - 1) < NUMKEYS (me_mem (w_txn w) b)))"

definition redirect :: "size_t \<Rightarrow> node \<Rightarrow> node" where
  "redirect pgno = (\<lambda>(h, k, v). (SETPGNO pgno h, k, v))"

text \<open>The way to the page at the top of the cursor leads to \<open>pgno\<close> in \<open>w'\<close>, and nothing else but the page at \<open>a\<close> differs.\<close>

definition relinked :: "nat \<Rightarrow> size_t \<Rightarrow> MDB_wcursor \<Rightarrow> MDB_wtxn \<Rightarrow> MDB_wtxn \<Rightarrow> bool" where
  "relinked a pgno mc w w' \<longleftrightarrow>
     (if wc_top mc = 0 then mt_dbs (w_txn w') = (mt_dbs (w_txn w))[wc_dbi mc := (mt_dbs (w_txn w) ! wc_dbi mc)\<lparr>md_root := pgno\<rparr>] \<and>
        (\<forall>c. c \<noteq> a \<longrightarrow> me_mem (w_txn w') c = me_mem (w_txn w) c)
      else mt_dbs (w_txn w') = mt_dbs (w_txn w) \<and>
        (\<exists>b. wc_pg mc ! (wc_top mc - 1) = Some (Mem b) \<and> page_wf (me_psize (w_env w)) (me_mem (w_txn w') b) \<and>
           mp_flags (me_mem (w_txn w') b) = mp_flags (me_mem (w_txn w) b) \<and> mp_pgno (me_mem (w_txn w') b) = mp_pgno (me_mem (w_txn w) b) \<and>
           page_nodes (me_mem (w_txn w') b) = (page_nodes (me_mem (w_txn w) b))[wc_ki mc ! (wc_top mc - 1) := redirect pgno (page_nodes (me_mem (w_txn w) b) ! (wc_ki mc ! (wc_top mc - 1)))] \<and>
           (\<forall>c. c \<noteq> a \<and> c \<noteq> b \<longrightarrow> me_mem (w_txn w') c = me_mem (w_txn w) c)))"

lemma sorted_wrt_distinct: "sorted_wrt (\<lambda>x y. y < x) xs \<Longrightarrow> distinct xs" for xs :: "'a::order list"
  by (induction xs) auto

lemma distinct_map_insort: "distinct (map f (insort_key g x xs)) = (f x \<notin> f ` set xs \<and> distinct (map f xs))"
  by (induction xs) (auto simp: set_insort_key)

lemma unat_minus_one_room: "Suc k \<le> unat x \<Longrightarrow> k \<le> unat (x - 1)" for x :: "'a::len word"
  by (cases "x = 0") (auto simp: unat_minus_one)

lemma has_flag_or: "has_flag f (x OR y) = (has_flag f x \<or> has_flag f y)"
  by (simp add: has_flag_def bit.conj_disj_distrib or_eq_0_iff)

lemma run_1: "run g 1 = {g}"
  by (auto simp: run_def word_unat_eq_iff)

lemma free_ids_distinct: "write_ready k w \<Longrightarrow> distinct (free_ids w)"
  by (auto simp: write_ready_def free_ids_def free_ok_def split: option.splits intro: sorted_wrt_distinct)

lemma malloc_fresh:
  assumes "write_ready k w" and "fresh m a w"
  obtains p where "mdb_page_malloc m 1 w = (Some a, put_page a p w)" "length (mp_ptrs p) = (me_psize (w_env w) - 16) div 2" "length (mp_bytes p) = me_psize (w_env w)"
proof -
  let ?ps = "me_psize (w_env w)"
  obtain p where p: "m ?ps = Some (a, p)" "length (mp_ptrs p) = (?ps - 16) div 2" "length (mp_bytes p) = ?ps" using assms(2) by (auto simp: fresh_def split: option.splits)
  let ?q = "if has_flag (me_flags (w_env w)) MDB_NOMEMINIT then p else page_init ?ps 1 p"
  have "length (mp_ptrs ?q) = (?ps - 16) div 2" "length (mp_bytes ?q) = ?ps" using p assms(1) by (auto simp: page_init_def Let_def PAGEHDRSZ_def write_ready_def)
  moreover have "mdb_page_malloc m 1 w = (Some a, put_page a ?q w)" using p(1) assms(1) by (simp add: mdb_page_malloc_def write_ready_def)
  ultimately show thesis using that by blast
qed

lemma ready_dirty: "write_ready (Suc k) w \<Longrightarrow> x \<in> set (free_ids w) \<Longrightarrow> dirty_ready w x"
  by (auto simp: write_ready_def lists_ready_def dirty_ready_def dirty_of_def has_flag_or)

lemma ready_after:
  assumes r: "write_ready (Suc k) w" and f: "fresh m a w" and ad: "page_added a pgno w (put_page a p w) w'" and fr: "pgno \<in> set (free_ids w)" "set (free_ids w') = set (free_ids w) - {pgno}"
    and h: "me_pghead (w_env w') = Some l'" "free_ok (cells l')"
  shows "write_ready k w'"
proof -
  obtain dl where dl: "mt_lists (w_txn w) = [(None, dl)]" "id2_asc dl" "unat (mid (dl ! 0)) + Suc k < length dl" "unat (mid (dl ! 0)) + Suc k \<le> MDB_IDL_UM_MAX"
    using r by (auto simp: write_ready_def lists_ready_def)
  obtain dl' where dl': "mt_lists (w_txn w') = [(None, dl')]" "id2_asc dl'" "length dl' = length dl"
    using ad dl(1) by (cases "mt_lists (w_txn w')") (auto simp: page_added_def)
  have ins: "dirty_of w' = insort_key mid \<lparr>mid = pgno, mptr = a\<rparr> (dirty_of w)" using ad by (simp add: page_added_def)
  have "unat (mid (dl' ! 0)) = length (dirty_of w')" "unat (mid (dl ! 0)) = length (dirty_of w)"
    using id2_asc_bounds(3) [OF dl(2)] id2_asc_bounds(3) [OF dl'(2)] dl(1) dl'(1) by (simp_all add: dirty_of_def)
  then have ls: "lists_ready k w'" using dl(3,4) dl' ins by (simp add: lists_ready_def)
  have "distinct (free_ids w')" using h by (auto simp: free_ids_def free_ok_def intro: sorted_wrt_distinct)
  then have "length (free_ids w') = length (free_ids w) - 1"
    using fr free_ids_distinct [OF r] by (metis card_Diff_singleton distinct_card)
  moreover have "Suc k \<le> length (free_ids w)" using r by (simp add: write_ready_def)
  ultimately have fl: "k \<le> length (free_ids w')" by linarith
  have room: "k \<le> unat (mt_dirty_room w - 1)" using r by (simp add: write_ready_def unat_minus_one_room)
  have ids: "\<forall>x\<in>set (free_ids w'). x \<notin> mid ` set (dirty_of w') \<and> x < 2 ^ 48" using r fr(2) ins by (auto simp: write_ready_def set_insort_key)
  have di: "distinct (map mptr (dirty_of w'))" using r f ins by (auto simp: write_ready_def fresh_def distinct_map_insort)
  show ?thesis
    using r h fl ids ls di room ad unfolding write_ready_def page_added_def by simp
qed

text \<open>A page is allocated, and there is room for one page less.\<close>

lemma ready_alloc:
  assumes r: "write_ready (Suc k) w" and f: "fresh m a w"
  obtains pgno w' w1 where "mdb_page_alloc (Suc n) mm m 1 w = Inr (0, Some a, w')" "pgno \<in> set (free_ids w)" "set (free_ids w') = set (free_ids w) - {pgno}"
    "page_added a pgno w w1 w'" "length (mp_ptrs (me_mem (w_txn w1) a)) = (me_psize (w_env w) - 16) div 2" "length (mp_bytes (me_mem (w_txn w1) a)) = me_psize (w_env w)"
    "write_ready k w'"
proof -
  have "Suc k \<le> length (free_ids w)" using r by (simp add: write_ready_def)
  then have ne: "free_ids w \<noteq> []" by auto
  obtain l where l: "me_pghead (w_env w) = Some l" "free_ok (cells l)" "ids_of (cells l) = free_ids w"
    using r by (cases "me_pghead (w_env w)") (simp_all add: write_ready_def free_ids_def)
  obtain p where p: "mdb_page_malloc m 1 w = (Some a, put_page a p w)" "length (mp_ptrs p) = (me_psize (w_env w) - 16) div 2" "length (mp_bytes p) = me_psize (w_env w)"
    by (rule malloc_fresh [OF r f])
  have "Suc k \<le> unat (mt_dirty_room w)" using r by (simp add: write_ready_def)
  then have e: "mt_loose_pgs w = []" "mt_dirty_room w \<noteq> 0" "\<not> has_flag (me_flags (w_env w)) MDB_WRITEMAP" using r by (auto simp: write_ready_def)
  have rn: "run (hd (free_ids w)) 1 \<subseteq> set (ids_of (cells l))" unfolding run_1 using l(3) ne by simp
  have g: "unat (hd (free_ids w)) + 1 \<le> 2 ^ 64" using unat_lt_pow [of "hd (free_ids w)"] by simp
  have num: "(1 :: nat) * 60 < 2 ^ 31" and lo: "(1 :: nat) = 1 \<longrightarrow> mt_loose_pgs w = []" using e(1) by simp_all
  have d: "\<forall>x\<in>set (ids_of (cells l)). dirty_ready w x" using ready_dirty [OF r] l(3) by simp
  obtain pgno w' l' where w': "mdb_page_alloc (Suc n) mm m 1 w = Inr (0, Some a, w')" "me_pghead (w_env w') = Some l'" "free_ok (cells l')"
    "run pgno 1 \<subseteq> set (ids_of (cells l))" "set (ids_of (cells l')) = set (ids_of (cells l)) - run pgno 1" "page_added a pgno w (put_page a p w) w'"
    using alloc_run_ok [OF l(1,2) rn g order_refl num lo e(2,3) p(1) d, of n mm] by blast
  have "free_ids w' = ids_of (cells l')" using w'(2) by (simp add: free_ids_def)
  then have fr: "pgno \<in> set (free_ids w)" "set (free_ids w') = set (free_ids w) - {pgno}"
    using w'(4,5) unfolding run_1 l(3) by simp_all
  show thesis
    by (rule that [OF w'(1) fr w'(6) _ _ ready_after [OF r f w'(6) fr w'(2,3)]]) (simp_all add: p(2,3))
qed

lemma link_ok:
  assumes ready: "parent_ready a w mc" and same: "page_added a pgno w w1 w3" "w4 = w3\<lparr>mt_free_pgs := fl\<rparr>"
  obtains w5 where "link_page g mc w4 = Inr w5" "relinked a g mc w w5" "me_mem (w_txn w5) a = me_mem (w_txn w3) a" "w_env w5 = w_env w3" "mt_free_pgs w5 = fl"
    "mt_lists (w_txn w5) = mt_lists (w_txn w3)" "me_map (w_txn w5) = me_map (w_txn w)" "mt_flags (w_txn w5) = mt_flags (w_txn w3)" "mt_next_pgno (w_txn w5) = mt_next_pgno (w_txn w3)"
    "mt_loose_pgs w5 = mt_loose_pgs w3" "mt_dirty_room w5 = mt_dirty_room w3"
proof (cases "wc_top mc = 0")
  case True
  let ?w5 = "upd_txn (\<lambda>t. t\<lparr>mt_dbs := (mt_dbs t)[wc_dbi mc := (mt_dbs t ! wc_dbi mc)\<lparr>md_root := g\<rparr>]\<rparr>) w4"
  have "wc_dbi mc < length (mt_dbs (w_txn w))" using ready True by (simp add: parent_ready_def)
  then have "link_page g mc w4 = Inr ?w5" using True same by (simp add: link_page_def page_added_def upd_txn_def)
  then show thesis by (rule that) (use True same in \<open>simp_all add: relinked_def page_added_def\<close>)
next
  case False
  let ?i = "wc_ki mc ! (wc_top mc - 1)"
  obtain b where b: "wc_pg mc ! (wc_top mc - 1) = Some (Mem b)" "b \<noteq> a" "page_wf (me_psize (w_env w)) (me_mem (w_txn w) b)" "\<not> IS_LEAF (me_mem (w_txn w) b)"
    "?i < NUMKEYS (me_mem (w_txn w) b)" and len: "wc_top mc \<le> length (wc_ki mc)" "wc_top mc \<le> length (wc_pg mc)"
    using ready False by (auto simp: parent_ready_def)
  obtain q where q: "set_child ?i g (me_mem (w_txn w) b) = Inr q" "page_wf (me_psize (w_env w)) q"
    "mp_flags q = mp_flags (me_mem (w_txn w) b)" "mp_pgno q = mp_pgno (me_mem (w_txn w) b)"
    "page_nodes q = (page_nodes (me_mem (w_txn w) b))[?i := redirect g (page_nodes (me_mem (w_txn w) b) ! ?i)]"
    using set_child_ok [OF b(3-5), of g] unfolding redirect_def by blast
  have ags: "aget (wc_pg mc) (wc_top mc - 1) = Inr (Some (Mem b))" "aget (wc_ki mc) (wc_top mc - 1) = Inr ?i" using b(1) len False by simp_all
  have "me_mem (w_txn w4) b = me_mem (w_txn w) b" using same b(2) by (simp add: page_added_def)
  then have "link_page g mc w4 = Inr (put_page b q w4)" using False ags q(1) by (simp add: link_page_def)
  then show thesis by (rule that) (use False same b q in \<open>simp_all add: relinked_def page_added_def\<close>)
qed

lemma P_DIRTY_leaf: "IS_LEAF (q\<lparr>mp_pgno := g, mp_flags := mp_flags q OR P_DIRTY\<rparr>) = IS_LEAF q"
  by (simp add: IS_LEAF_def F_ISSET_def P_LEAF_def P_DIRTY_def bit.conj_disj_distrib2)

lemma relinked_put: "relinked a g mc w w' \<Longrightarrow> parent_ready a w mc \<Longrightarrow> relinked a g mc w (put_page a q w')"
  by (auto simp: relinked_def parent_ready_def split: if_splits)

text \<open>From \<open>w\<close> to \<open>w'\<close> the page \<open>p\<close> at the top of the cursor has moved to \<open>pgno\<close>, in memory at \<open>a\<close>.\<close>

definition moved :: "nat \<Rightarrow> size_t \<Rightarrow> MDB_page \<Rightarrow> MDB_wcursor \<Rightarrow> MDB_wtxn \<Rightarrow> MDB_wtxn \<Rightarrow> bool" where
  "moved a pgno p mc w w' \<longleftrightarrow> pgno \<in> set (free_ids w) \<and> set (free_ids w') = set (free_ids w) - {pgno} \<and>
     idl_ids (mt_free_pgs w') = idl_ids (mt_free_pgs w) @ [mp_pgno p] \<and> dirty_of w' = insort_key mid \<lparr>mid = pgno, mptr = a\<rparr> (dirty_of w) \<and>
     (let q = me_mem (w_txn w') a in page_wf (me_psize (w_env w)) q \<and> page_nodes q = page_nodes p \<and> mp_pgno q = pgno \<and> mp_flags q = mp_flags p OR P_DIRTY) \<and>
     relinked a pgno mc w w' \<and> me_map (w_txn w') = me_map (w_txn w) \<and> mt_next_pgno (w_txn w') = mt_next_pgno (w_txn w) \<and> me_psize (w_env w') = me_psize (w_env w)"

lemma ready_keeps:
  assumes "write_ready k w" and "w_env w' = w_env w" "mt_lists (w_txn w') = mt_lists (w_txn w)" "mt_flags (w_txn w') = mt_flags (w_txn w)" "mt_loose_pgs w' = mt_loose_pgs w"
    "mt_dirty_room w' = mt_dirty_room w" and "midl_ok (mt_free_pgs w')" "unat (cells (mt_free_pgs w') ! 0) + k < 2 ^ 30"
  shows "write_ready k w'"
proof -
  have "free_ids w' = free_ids w" "dirty_of w' = dirty_of w" "lists_ready k w' = lists_ready k w" using assms(2,3) by (simp_all add: free_ids_def dirty_of_def lists_ready_def)
  then show ?thesis using assms unfolding write_ready_def by simp
qed

lemma touch_ok:
  assumes top: "wtop mc = Inr (Map g)" "p = me_map (w_txn w) g" and p: "\<not> F_ISSET (mp_flags p) P_DIRTY" "page_wf (me_psize (w_env w)) p" "\<not> IS_LEAF2 p" "mp_pgno p \<notin> set (free_ids w)"
    and r: "write_ready (Suc k) w" and f: "fresh m a w" and par: "parent_ready a w mc" and mf: "mem_ok mf"
  obtains pgno w' cs' where "mdb_page_touch (Suc n) mm mf m w mc cs = Inr (0, w', mc\<lparr>wc_pg := (wc_pg mc)[wc_top mc := Some (Mem a)]\<rparr>, cs')" "moved a pgno p mc w w'" "write_ready k w'"
proof -
  let ?ps = "me_psize (w_env w)"
  have fg: "midl_ok (mt_free_pgs w)" "unat (cells (mt_free_pgs w) ! 0) + Suc k < 2 ^ 30" "8 dvd ?ps" "\<not> has_flag (mt_flags (w_txn w)) MDB_TXN_SPILLS" using r by (simp_all add: write_ready_def)
  have small: "unat (cells (mt_free_pgs w) ! 0) + unat (1 :: u32) < 2 ^ 31" using fg(2) by simp
  obtain fl where fl: "mdb_midl_need mf (mt_free_pgs w) 1 = Inr (0, fl)" "midl_ok fl" "idl_ids fl = idl_ids (mt_free_pgs w)" "unat (cells fl ! 0) + unat (1 :: u32) \<le> unat (alloclen fl)"
     "cells fl ! 0 = cells (mt_free_pgs w) ! 0"
    by (rule need_ok [OF fg(1) mf small]) (rule that)
  define w2 where "w2 = w\<lparr>mt_free_pgs := fl\<rparr>"
  have w2: "w_env w2 = w_env w" "w_txn w2 = w_txn w" "mt_free_pgs w2 = fl" "free_ids w2 = free_ids w" "dirty_of w2 = dirty_of w" by (simp_all add: w2_def free_ids_def dirty_of_def)
  have r2: "write_ready (Suc k) w2" using fg(2) fl(2,5) by (intro ready_keeps [OF r]) (simp_all add: w2_def)
  have f2: "fresh m a w2" and par2: "parent_ready a w2 mc" using f par unfolding fresh_def parent_ready_def w2 by simp_all
  obtain pgno w3 w1 where al: "mdb_page_alloc (Suc n) mm m 1 w2 = Inr (0, Some a, w3)" "pgno \<in> set (free_ids w2)" "set (free_ids w3) = set (free_ids w2) - {pgno}"
    "page_added a pgno w2 w1 w3" "length (mp_ptrs (me_mem (w_txn w1) a)) = (me_psize (w_env w2) - 16) div 2" "length (mp_bytes (me_mem (w_txn w1) a)) = me_psize (w_env w2)" "write_ready k w3"
    by (rule ready_alloc [OF r2 f2]) (rule that)
  note al' = al [unfolded w2]
  have pa: "mp_pgno (me_mem (w_txn w3) a) = pgno" "mt_free_pgs w3 = fl" "me_psize (w_env w3) = ?ps" "length (mp_ptrs (me_mem (w_txn w3) a)) = (?ps - 16) div 2" "length (mp_bytes (me_mem (w_txn w3) a)) = ?ps"
    "dirty_of w3 = insort_key mid \<lparr>mid = pgno, mptr = a\<rparr> (dirty_of w)" "mt_next_pgno (w_txn w3) = mt_next_pgno (w_txn w)"
    using al(4) al'(5,6) unfolding page_added_def w2 by simp_all
  obtain fl' where fl': "mdb_midl_xappend fl (mp_pgno p) = Inr fl'" "idl_ids fl' = idl_ids (mt_free_pgs w) @ [mp_pgno p]" "midl_ok fl'"
    using xappend_ok [OF fl(2), of "mp_pgno p"] fl(3,4) by auto
  have cnt: "unat (cells fl' ! 0) = Suc (unat (cells fl ! 0))" using midl_form(2) [OF fl'(3)] midl_form(2) [OF fl(2)] fl'(2) fl(3) by simp
  obtain w5 where l: "link_page pgno mc (w3\<lparr>mt_free_pgs := fl'\<rparr>) = Inr w5" "relinked a pgno mc w2 w5" "me_mem (w_txn w5) a = me_mem (w_txn w3) a" "w_env w5 = w_env w3" "mt_free_pgs w5 = fl'"
    "mt_lists (w_txn w5) = mt_lists (w_txn w3)" "me_map (w_txn w5) = me_map (w_txn w2)" "mt_flags (w_txn w5) = mt_flags (w_txn w3)" "mt_next_pgno (w_txn w5) = mt_next_pgno (w_txn w3)"
    "mt_loose_pgs w5 = mt_loose_pgs w3" "mt_dirty_room w5 = mt_dirty_room w3"
    by (rule link_ok [OF par2 al(4) refl]) (rule that)
  obtain q where q: "mdb_page_copy ?ps p (me_mem (w_txn w5) a) = Inr q" "page_wf ?ps q" "page_nodes q = page_nodes p" "mp_flags q = mp_flags p"
    using page_copy_ok [OF p(2,3), of "me_mem (w_txn w5) a"] fg(3) pa l(3) by auto
  define q' where "q' = q\<lparr>mp_pgno := pgno, mp_flags := mp_flags q OR P_DIRTY\<rparr>"
  define w' where "w' = put_page a q' w5"
  have aset: "aset (wc_pg mc) (wc_top mc) x = Inr ((wc_pg mc)[wc_top mc := x])" for x
    using top(1) by (auto simp: wtop_def res_simps aset_def aget_def split: if_splits)
  have ne: "mp_pgno p \<noteq> pgno" using al'(2) p(4) by blast
  have "mdb_page_touch (Suc n) mm mf m w mc cs = touch_copy (Map g) a pgno w5 mc cs"
    using top p(1) fg(4) fl(1) al(1) pa(1,2) ne fl'(1) l(1) by (simp add: mdb_page_touch_def Let_def w2_def)
  also have "\<dots> = Inr (0, w', mc\<lparr>wc_pg := (wc_pg mc)[wc_top mc := Some (Mem a)]\<rparr>, map (adjust_cursor mc (Map g) a) cs)"
    using q(1) l(4,7) w2(2) pa(3) top(2) aset by (simp add: touch_copy_def touch_done_def w'_def q'_def)
  finally have call: "mdb_page_touch (Suc n) mm mf m w mc cs = \<dots>" .
  have qq: "page_wf ?ps q'" "page_nodes q' = page_nodes p" using page_same [OF q(2), of q'] q(3) P_DIRTY_leaf by (simp_all add: q'_def)
  have rel: "relinked a pgno mc w w'" using relinked_put [OF l(2) par2, of q'] unfolding w'_def relinked_def w2 .
  have fr: "free_ids w' = free_ids w3" "dirty_of w' = dirty_of w3" by (simp_all add: free_ids_def dirty_of_def l(4,6) w'_def)
  have mv: "moved a pgno p mc w w'"
    unfolding moved_def fr pa(6) using al'(2,3) fl'(2) l(4,5,7,9) pa(3,7) w2(2) q(4) qq rel by (simp add: w'_def q'_def Let_def)
  have "write_ready k w'" using l(4-6,8,10,11) fl'(3) cnt fl(5) fg(2) by (intro ready_keeps [OF al(7)]) (simp_all add: w'_def)
  then show thesis using that [OF call mv] by blast
qed

end
