(* ===== verification/Mdb_Get.thy ===== *)
theory Mdb_Get
  imports Mdb_Tree
begin

text \<open>
  \<open>mdb_get\<close> is a lookup. Inside the contract \<open>key_order\<close>: the items of a well-formed tree ascend, the descent
  for a key leads to the only leaf that can hold it, and the result is the one of \<open>map_of\<close> on the
  list of items. The properties are the instances for the default comparison function.
\<close>

subsection \<open>Where a search goes\<close>

definition key_child :: "cmp_func \<Rightarrow> nat \<Rightarrow> u8 list \<Rightarrow> MDB_page \<Rightarrow> nat" where
  "key_child f pad key p =
     (case mdb_node_search f pad key p of
        Inr (None, _, _) \<Rightarrow> NUMKEYS p - 1
      | Inr (Some _, exact, i) \<Rightarrow> if exact then i else i - 1
      | Inl _ \<Rightarrow> 0)"

text \<open>The items of the leaves to the left and to the right of the leaf that a cursor is on.\<close>

fun left_items :: "MDB_txn \<Rightarrow> nat \<Rightarrow> MDB_cursor \<Rightarrow> nat \<Rightarrow> mtree \<Rightarrow> (u8 list \<times> u8 list) list" where
  "left_items t (Suc h) mc l (Br p ts) = concat (map (tree_items t) (take (mc_ki mc ! l) ts)) @ left_items t h mc (Suc l) (ts ! (mc_ki mc ! l))"
| "left_items t h mc l tr = []"

fun right_items :: "MDB_txn \<Rightarrow> nat \<Rightarrow> MDB_cursor \<Rightarrow> nat \<Rightarrow> mtree \<Rightarrow> (u8 list \<times> u8 list) list" where
  "right_items t (Suc h) mc l (Br p ts) = right_items t h mc (Suc l) (ts ! (mc_ki mc ! l)) @ concat (map (tree_items t) (drop (Suc (mc_ki mc ! l)) ts))"
| "right_items t h mc l tr = []"

lemma around_leaf:
  assumes "on_path h mc l tr" and "mc_pg mc ! (l + h) = Some p"
  shows "ahead t h mc l tr = drop (mc_ki mc ! (l + h)) (leaf_items t p) @ right_items t h mc l tr"
    and "passed t h mc l tr = left_items t h mc l tr @ take (mc_ki mc ! (l + h)) (leaf_items t p)"
  using assms
proof (induction h arbitrary: l tr)
  case 0
  { case 1 then show ?case by (cases tr) simp_all next case 2 then show ?case by (cases tr) simp_all }
next
  case (Suc h)
  { case 1 then show ?case using Suc(1) [of "Suc l"] by (cases tr) simp_all
  next case 2 then show ?case using Suc(2) [of "Suc l"] by (cases tr) simp_all }
qed

lemma items_around:
  assumes "on_path h mc l tr" and "mc_pg mc ! (l + h) = Some p"
  shows "tree_items t tr = left_items t h mc l tr @ leaf_items t p @ right_items t h mc l tr"
  using passed_ahead [OF assms(1), of t] around_leaf [OF assms, of t] by (metis append.assoc append_take_drop_id)

text \<open>The leaf at the end of a path.\<close>

lemma path_leaf:
  assumes "on_path h mc l tr" and "tree_ok t psize ok lt h lo hi tr"
  shows "\<exists>p lo' hi'. mc_pg mc ! (l + h) = Some p \<and> tree_ok t psize ok lt 0 lo' hi' (Lf p)"
  using assms
proof (induction h arbitrary: l tr lo hi)
  case 0
  then show ?case by (cases tr) auto
next
  case (Suc h)
  then obtain p ts where tr: "tr = Br p ts" by (cases tr) auto
  let ?i = "mc_ki mc ! l"
  have "?i < NUMKEYS p" "on_path h mc (Suc l) (ts ! ?i)" "tree_ok t psize ok lt h (low_bound lo p ?i) (high_bound hi p ?i) (ts ! ?i)"
    using Suc.prems tr by auto
  then show ?case using Suc.IH by fastforce
qed

lemma tree_ok_Br:
  assumes "tree_ok t psize ok lt (Suc h) lo hi (Br p ts)"
  shows "page_sorted ok lt psize p" "IS_BRANCH p" "length ts = NUMKEYS p" "first_key p = 1"
    "\<And>i. i < NUMKEYS p \<Longrightarrow> tree_ok t psize ok lt h (low_bound lo p i) (high_bound hi p i) (ts ! i)"
    "\<And>i. i < NUMKEYS p \<Longrightarrow> 0 < i \<Longrightarrow> within lt lo hi (page_keys p ! i)"
  using assms by (auto simp: first_key_def dest: page_sortedD(3))

lemma leaf_item: "(k, v) \<in> set (leaf_items t p) \<longleftrightarrow> (\<exists>i<NUMKEYS p. k = page_keys p ! i \<and> v = item_val t p i)"
  by (auto simp: leaf_items_def)

context key_order
begin

lemma within_sub:
  assumes "tree_ok t psize fit lt (Suc h) lo hi (Br p ts)" and "i < NUMKEYS p" and "within lt (low_bound lo p i) (high_bound hi p i) k"
  shows "within lt lo hi k"
proof -
  note b = tree_ok_Br [OF assms(1)]
  have "case lo of None \<Rightarrow> True | Some l \<Rightarrow> l = k \<or> lt l k"
    using assms(2,3) b(6) [OF assms(2)] by (cases "i = 0") (auto simp: within_def low_bound_def split: option.splits intro: lt_trans)
  moreover have "case hi of None \<Rightarrow> True | Some u \<Rightarrow> lt k u"
    using assms(2,3) b(6) [of "Suc i"] by (cases "Suc i < NUMKEYS p") (auto simp: within_def high_bound_def split: option.splits intro: lt_trans)
  ultimately show ?thesis by (simp add: within_def)
qed

lemma within_items:
  "tree_ok t psize fit lt h lo hi tr \<Longrightarrow> (k, v) \<in> set (tree_items t tr) \<Longrightarrow> fit k \<and> within lt lo hi k"
proof (induction h arbitrary: lo hi tr)
  case 0
  then obtain p i where "tr = Lf p" "page_sorted fit lt psize p" "IS_LEAF p" "i < NUMKEYS p" "k = page_keys p ! i" "within lt lo hi (page_keys p ! i)"
    by (cases tr) (auto simp: leaf_item)
  then show ?case using page_sortedD(5) [of fit lt psize p i] by (simp add: first_key_def)
next
  case (Suc h)
  then obtain p ts where tr: "tr = Br p ts" by (cases tr) auto
  note b = tree_ok_Br [OF Suc.prems(1) [unfolded tr]]
  obtain i where i: "i < NUMKEYS p" "(k, v) \<in> set (tree_items t (ts ! i))"
    using Suc.prems(2) b(3) by (auto simp: tr in_set_conv_nth [of _ ts])
  show ?case using Suc.IH [OF b(5) [OF i(1)] i(2)] within_sub [OF Suc.prems(1) [unfolded tr] i(1)] by blast
qed

lemma lt_chain: "lt a b \<Longrightarrow> b = c \<or> lt b c \<Longrightarrow> c = d \<or> lt c d \<Longrightarrow> lt a d"
  using lt_trans by blast

text \<open>The items of a tree ascend.\<close>

lemma items_ascend: "tree_ok t psize fit lt h lo hi tr \<Longrightarrow> sorted_wrt lt (map fst (tree_items t tr))"
proof (induction h arbitrary: lo hi tr)
  case 0
  then obtain p where p: "tr = Lf p" "page_sorted fit lt psize p" "IS_LEAF p" by (cases tr) auto
  note s = page_sortedD [OF p(2)]
  have "map fst (leaf_items t p) = page_keys p"
    using length_page_keys [OF s(1)] by (intro nth_equalityI) (simp_all add: leaf_items_def)
  then show ?case using p by (simp add: page_sorted_def first_key_def)
next
  case (Suc h)
  then obtain p ts where tr: "tr = Br p ts" by (cases tr) auto
  note b = tree_ok_Br [OF Suc.prems [unfolded tr]]
  have sub: "sorted_wrt lt (map fst (tree_items t (ts ! i)))" if "i < NUMKEYS p" for i using Suc.IH [OF b(5) [OF that]] .
  have across: "lt a c" if ij: "i < j" "j < NUMKEYS p" and a: "(a, v) \<in> set (tree_items t (ts ! i))" and c: "(c, w) \<in> set (tree_items t (ts ! j))" for i j a v c w
  proof -
    have "lt a (page_keys p ! Suc i)" using within_items [OF b(5) a] ij by (auto simp: within_def high_bound_def)
    moreover have "page_keys p ! Suc i = page_keys p ! j \<or> lt (page_keys p ! Suc i) (page_keys p ! j)"
      using page_sortedD(6) [OF b(1), of "Suc i" j] ij by (cases "Suc i = j") (auto simp: b(4))
    moreover have "page_keys p ! j = c \<or> lt (page_keys p ! j) c" using within_items [OF b(5) c] ij by (auto simp: within_def low_bound_def)
    ultimately show ?thesis by (rule lt_chain)
  qed
  have "sorted_wrt lt (map fst (concat (map (tree_items t) (take n ts))))" if "n \<le> NUMKEYS p" for n
    using that
  proof (induction n)
    case (Suc n)
    have n: "n < NUMKEYS p" "n < length ts" using Suc.prems b(3) by simp_all
    have "lt a c" if "(a, v) \<in> set (concat (map (tree_items t) (take n ts)))" "(c, w) \<in> set (tree_items t (ts ! n))" for a v c w
      using that across [OF _ n(1)] n(2) by (auto simp: in_set_conv_nth [of _ "take n ts"])
    then have "\<forall>x\<in>set (concat (map (tree_items t) (take n ts))). \<forall>y\<in>set (tree_items t (ts ! n)). lt (fst x) (fst y)" by fastforce
    then show ?case using Suc sub [OF n(1)] by (simp add: take_Suc_conv_app_nth [OF n(2)] sorted_wrt_append)
  qed simp
  from this [of "NUMKEYS p"] show ?case using b(3) by (simp add: tr)
qed

text \<open>The child that is followed for a key is the one whose range has the key.\<close>

lemma key_child_ok:
  assumes srt: "page_sorted fit lt psize p" and br: "IS_BRANCH p" and k: "fit key" and i: "i = key_child f pad key p"
  shows "i < NUMKEYS p" and "0 < i \<Longrightarrow> page_keys p ! i = key \<or> lt (page_keys p ! i) key" and "Suc i < NUMKEYS p \<Longrightarrow> lt key (page_keys p ! Suc i)"
    and "\<exists>node exact x. mdb_node_search f pad key p = Inr (node, exact, x) \<and> (node = None \<longrightarrow> i = NUMKEYS p - 1) \<and>
      (node \<noteq> None \<longrightarrow> i = (if exact then x else x - 1) \<and> 0 < x)"
proof -
  note s = page_sortedD [OF srt]
  have n: "2 \<le> NUMKEYS p" "first_key p = 1" using s(3,4) br by (auto simp: first_key_def)
  obtain node exact x where r: "mdb_node_search f pad key p = Inr (node, exact, x)" "search_result lt key p node exact x"
    using node_search_ok [OF srt k, of pad] s(3) br by blast
  have i': "i = (if x < NUMKEYS p then if exact then x else x - 1 else NUMKEYS p - 1)"
    using r by (auto simp: i key_child_def search_result_def)
  have x: "1 \<le> x" "x \<le> NUMKEYS p" using r(2) n by (auto simp: search_result_def)
  show "i < NUMKEYS p" using i' x n by auto
  have lo: "lt (page_keys p ! j) key" if "1 \<le> j" "j < x" for j using r(2) n that by (auto simp: search_result_def)
  show "page_keys p ! i = key \<or> lt (page_keys p ! i) key" if "0 < i"
    using i' that lo [of i] r(2) x by (auto simp: search_result_def split: if_splits)
  show "lt key (page_keys p ! Suc i)" if "Suc i < NUMKEYS p"
  proof -
    have "\<forall>j. x \<le> j \<and> j < NUMKEYS p \<longrightarrow> lt key (page_keys p ! j) \<or> j = x \<and> exact"
      using r(2) unfolding search_result_def by blast
    from this [rule_format, of "Suc i"] have "lt key (page_keys p ! Suc i) \<or> Suc i = x \<and> exact" using i' that x by (simp split: if_splits)
    then show ?thesis using i' that by (auto split: if_splits)
  qed
  show "\<exists>node exact x. mdb_node_search f pad key p = Inr (node, exact, x) \<and> (node = None \<longrightarrow> i = NUMKEYS p - 1) \<and>
      (node \<noteq> None \<longrightarrow> i = (if exact then x else x - 1) \<and> 0 < x)"
    using r i' x by (auto simp: search_result_def)
qed

lemma chooses_key:
  assumes srt: "page_sorted fit lt psize p" and br: "IS_BRANCH p" and k: "fit key" and cmp: "md_cmp (mt_dbxs t ! dbi) = f"
  shows "chooses t dbi (Some key) 0 fl (key_child f (unat (md_pad (mt_dbs t ! dbi))) key) p"
proof -
  let ?pad = "unat (md_pad (mt_dbs t ! dbi))"
  let ?i = "key_child f ?pad key p"
  note c = key_child_ok [OF srt br k refl, of ?pad]
  obtain node exact x where r: "mdb_node_search f ?pad key p = Inr (node, exact, x)" "node = None \<longrightarrow> ?i = NUMKEYS p - 1"
      "node \<noteq> None \<longrightarrow> ?i = (if exact then x else x - 1) \<and> 0 < x" using c(4) by blast
  have l: "last_indx p = NUMKEYS p - 1" using c(1) page_sortedD(1) [OF srt] by (intro last_indx_eq) auto
  have "search_index f ?pad (Some key) 0 p mc = Inr (Some ?i, mc\<lparr>mc_ki := (mc_ki mc)[mc_top mc := x]\<rparr>)"
    if "stack_ok mc" "mc_top mc < CURSOR_STACK" for mc
    using that r l by (cases node) (auto simp: search_index_def set_ki_eq)
  then show ?thesis unfolding chooses_def cmp using c(1) by blast
qed

text \<open>On the way to a key, everything to the left is below it and everything to the right above it.\<close>

lemma follows_key:
  assumes "tree_ok t psize fit lt h lo hi tr" and "on_path h mc l tr" and "follows (key_child f pad key) h mc l tr" and "fit key"
    and "within lt lo hi key"
  shows "(\<forall>(k, v)\<in>set (left_items t h mc l tr). lt k key) \<and> (\<forall>(k, v)\<in>set (right_items t h mc l tr). lt key k) \<and>
     (\<exists>p lo' hi'. mc_pg mc ! (l + h) = Some p \<and> tree_ok t psize fit lt 0 lo' hi' (Lf p) \<and> within lt lo' hi' key)"
  using assms(1-3,5)
proof (induction h arbitrary: l tr lo hi)
  case 0
  then show ?case by (cases tr) auto
next
  case (Suc h)
  then obtain p ts where tr: "tr = Br p ts" by (cases tr) auto
  note b = tree_ok_Br [OF Suc.prems(1) [unfolded tr]]
  define i where "i = key_child f pad key p"
  note c = key_child_ok [OF b(1,2) assms(4) i_def]
  have ki: "mc_ki mc ! l = i" using Suc.prems(3) by (simp add: tr i_def)
  have wi: "within lt (low_bound lo p i) (high_bound hi p i) key"
    using Suc.prems(4) c(2,3) by (auto simp: within_def low_bound_def high_bound_def)
  have IH: "(\<forall>(k, v)\<in>set (left_items t h mc (Suc l) (ts ! i)). lt k key) \<and> (\<forall>(k, v)\<in>set (right_items t h mc (Suc l) (ts ! i)). lt key k) \<and>
     (\<exists>p lo' hi'. mc_pg mc ! (Suc l + h) = Some p \<and> tree_ok t psize fit lt 0 lo' hi' (Lf p) \<and> within lt lo' hi' key)"
    using Suc.prems(2,3) b(5) [OF c(1)] wi by (intro Suc.IH) (simp_all add: tr ki i_def [symmetric])
  note s = page_sortedD(6) [OF b(1), unfolded b(4)]
  have left: "lt k key" if "j < i" "(k, v) \<in> set (tree_items t (ts ! j))" for j k v
  proof -
    have "lt k (page_keys p ! Suc j)"
      using within_items [OF b(5) that(2)] that(1) c(1) by (auto simp: within_def high_bound_def)
    moreover have "page_keys p ! Suc j = page_keys p ! i \<or> lt (page_keys p ! Suc j) (page_keys p ! i)"
      using s [of "Suc j" i] that(1) c(1) by (cases "Suc j = i") auto
    moreover have "page_keys p ! i = key \<or> lt (page_keys p ! i) key" using c(2) that(1) by simp
    ultimately show ?thesis by (rule lt_chain)
  qed
  have right: "lt key k" if "i < j" "j < NUMKEYS p" "(k, v) \<in> set (tree_items t (ts ! j))" for j k v
  proof -
    have "lt key (page_keys p ! Suc i)" using c(3) that(1,2) by simp
    moreover have "page_keys p ! Suc i = page_keys p ! j \<or> lt (page_keys p ! Suc i) (page_keys p ! j)"
      using s [of "Suc i" j] that(1,2) by (cases "Suc i = j") auto
    moreover have "page_keys p ! j = k \<or> lt (page_keys p ! j) k"
      using within_items [OF b(5) that(3)] that(1,2) by (auto simp: within_def low_bound_def)
    ultimately show ?thesis by (rule lt_chain)
  qed
  have L: "lt k key" if "(k, v) \<in> set (concat (map (tree_items t) (take i ts)))" for k v
    using that left b(3) c(1) by (auto simp: in_set_conv_nth [of _ "take i ts"])
  have R: "lt key k" if mem: "(k, v) \<in> set (concat (map (tree_items t) (drop (Suc i) ts)))" for k v
  proof -
    obtain y where y: "y \<in> set (drop (Suc i) ts)" "(k, v) \<in> set (tree_items t y)" using mem by auto
    obtain j where "j < length (drop (Suc i) ts)" "drop (Suc i) ts ! j = y" using y(1) by (meson in_set_conv_nth)
    then have "Suc i + j < length ts" "(k, v) \<in> set (tree_items t (ts ! (Suc i + j)))" using y(2) by auto
    then show ?thesis using right [of "Suc i + j"] b(3) by simp
  qed
  have "\<forall>(k, v)\<in>set (left_items t (Suc h) mc l tr). lt k key" using IH L by (auto simp: tr ki simp del: set_concat)
  moreover have "\<forall>(k, v)\<in>set (right_items t (Suc h) mc l tr). lt key k" using IH R by (auto simp: tr ki simp del: set_concat)
  ultimately show ?case using IH by simp
qed

end

subsection \<open>Lookup\<close>

lemma map_of_middle:
  assumes "k \<notin> fst ` set xs" and "k \<notin> fst ` set zs"
  shows "map_of (xs @ ys @ zs) k = map_of ys k"
proof -
  have "map_of xs k = None" "map_of zs k = None" using assms by (simp_all add: map_of_eq_None_iff)
  then show ?thesis by (cases "map_of ys k") (simp_all add: map_add_def)
qed

lemma leaf_search_item:
  assumes "page_wf psize p" and "i < NUMKEYS p"
  shows "node_hdr p i = Inr (page_offs p ! i, hdr_at p i)"
  using node_hdr_ok(1) [OF assms] by (simp add: hdr_at_def)

text \<open>The end of \<open>mdb_cursor_set\<close> on an entry that can be read.\<close>

lemma cursor_set1_reads:
  assumes "page_wf psize p" and "i < NUMKEYS p" and "item_ok t p i" and "\<not> IS_LEAF2 p" and "mc_dbi mc < length (mt_dbxs t)"
    and op: "op = MDB_SET \<or> op = MDB_SET_KEY \<or> op = MDB_SET_RANGE"
  shows "cursor_set1 op p i (Some key, Some d) (t, mc) =
     Inr (0, (Some (if op = MDB_SET then key else page_keys p ! i), Some (item_val t p i)), t, set_initialized mc)"
proof -
  have "get_key p i (Some key) = Inr (Some (page_keys p ! i))" by (simp add: get_key_def node_key_ok [OF assms(1,2)])
  moreover have "get_data t p i (Some d) = Inr (0, t, Some (item_val t p i))" using assms(3) by (simp add: get_data_def item_ok_def)
  ultimately show ?thesis
    using assms(3-6) leaf_search_item [OF assms(1,2)] by (auto simp: cursor_set1_def item_ok_def set_initialized_def)
qed

lemma set_initialized_simps [simp]:
  "mc_top (set_initialized mc) = mc_top mc" "mc_snum (set_initialized mc) = mc_snum mc" "mc_pg (set_initialized mc) = mc_pg mc"
  "mc_ki (set_initialized mc) = mc_ki mc" "mc_dbi (set_initialized mc) = mc_dbi mc" "stack_ok (set_initialized mc) = stack_ok mc"
  "top_page (set_initialized mc) = top_page mc" "top_ki (set_initialized mc) = top_ki mc"
  by (simp_all add: set_initialized_def stack_ok_def top_page_def get_page_def top_ki_def)

lemma cursor_on_simps [simp]:
  "stack_ok (cursor_on dbi)" "mc_dbi (cursor_on dbi) = dbi" "mc_flags (cursor_on dbi) = 0" "mc_pg (cursor_on dbi) ! 0 = None"
  by (simp_all add: cursor_on_def stack_ok_def CURSOR_STACK_def)

lemma cursor_init_ok: "db_tree t dbi f psize ok lt h tr \<Longrightarrow> mdb_cursor_init touch t dbi = Inr (t, cursor_on dbi)"
  by (simp add: mdb_cursor_init_def db_tree_def)

context key_order
begin

lemma page_keys_distinct:
  assumes "page_sorted fit lt psize p" and "IS_LEAF p"
  shows "distinct (page_keys p)"
proof -
  note s = page_sortedD [OF assms(1)]
  have "page_keys p ! i \<noteq> page_keys p ! j" if "i < j" "j < NUMKEYS p" for i j
    using s(6) [of i j] s(5) [of i] lt_irrefl that assms(2) by (auto simp: first_key_def)
  then show ?thesis unfolding distinct_conv_nth length_page_keys [OF s(1)] by (metis nat_neq_iff)
qed

lemma map_of_leaf:
  assumes "page_sorted fit lt psize p" and "IS_LEAF p"
  shows "i < NUMKEYS p \<Longrightarrow> map_of (leaf_items t p) (page_keys p ! i) = Some (item_val t p i)"
    and "map_of (leaf_items t p) k = None \<longleftrightarrow> (\<forall>i<NUMKEYS p. page_keys p ! i \<noteq> k)"
proof -
  have m: "map fst (leaf_items t p) = page_keys p"
    using length_page_keys [OF page_sortedD(1) [OF assms(1)]] by (intro nth_equalityI) (simp_all add: leaf_items_def)
  have "distinct (map fst (leaf_items t p))" using page_keys_distinct [OF assms] by (simp add: m)
  then show "i < NUMKEYS p \<Longrightarrow> map_of (leaf_items t p) (page_keys p ! i) = Some (item_val t p i)"
    by (subst map_of_eq_Some_iff) (auto simp: leaf_item)
  have "fst ` set (leaf_items t p) = set (page_keys p)" using m by (metis set_map)
  then show "map_of (leaf_items t p) k = None \<longleftrightarrow> (\<forall>i<NUMKEYS p. page_keys p ! i \<noteq> k)"
    using length_page_keys [OF page_sortedD(1) [OF assms(1)]] by (auto simp: map_of_eq_None_iff in_set_conv_nth)
qed

text \<open>A search for a key by a cursor that is not set yet: the leaf where it ends.\<close>

lemma search_key_leaf:
  assumes db: "db_tree t dbi f psize fit lt h tr" and mc: "stack_ok mc" "mc_dbi mc = dbi" "mc_pg mc ! 0 = None" and k: "fit key"
  obtains mc' p where "mdb_page_search touch (Some key) 0 (t, mc) = Inr (0, t, set_initialized mc')" "mc_dbi mc' = dbi" "mc_flags mc' = mc_flags mc"
    "cursor_at h mc' tr" "top_page mc' = Inr p" "mc_pg mc' ! h = Some p" "page_sorted fit lt psize p" "IS_LEAF p" "0 < NUMKEYS p" "\<And>i. i < NUMKEYS p \<Longrightarrow> item_ok t p i"
    "\<And>k v. (k, v) \<in> set (left_items t h mc' 0 tr) \<Longrightarrow> lt k key" "\<And>k v. (k, v) \<in> set (right_items t h mc' 0 tr) \<Longrightarrow> lt key k"
    "tree_items t tr = left_items t h mc' 0 tr @ leaf_items t p @ right_items t h mc' 0 tr"
proof -
  note d = db_treeD [OF db]
  let ?ch = "key_child f (unat (md_pad (mt_dbs t ! dbi))) key"
  have rc: "root_cell mc tr" using mc(3) by (simp add: root_cell_def)
  have pl: "plain 0" by (simp add: plain_def)
  obtain mc' where mc': "mdb_page_search touch (Some key) 0 (t, mc) = Inr (0, t, set_initialized mc')" "mc_dbi mc' = dbi" "mc_flags mc' = mc_flags mc"
    "cursor_at h mc' tr" "follows ?ch h mc' 0 tr"
    using page_search_descends [OF db mc(1,2) rc pl, of "Some key" ?ch touch] chooses_key [OF _ _ k d(7)] by blast
  have op: "on_path h mc' 0 tr" "mc_top mc' = h" "h < CURSOR_STACK" "stack_ok mc'" using mc'(4) by (auto simp: cursor_at_def)
  have wi: "within lt None None key" by (simp add: within_def)
  note fo = follows_key [OF d(13) op(1) mc'(5) k wi]
  have l: "lt a key" if "(a, v) \<in> set (left_items t h mc' 0 tr)" for a v using fo that by auto
  have r: "lt key a" if "(a, v) \<in> set (right_items t h mc' 0 tr)" for a v using fo that by auto
  obtain p lo' hi' where p: "mc_pg mc' ! h = Some p" "tree_ok t psize fit lt 0 lo' hi' (Lf p)" using fo by auto
  show thesis
    by (rule that [OF mc'(1-4) _ p(1) _ _ _ _ l r]) (use p op top_page_eq [of mc' p] items_around [OF op(1), of p t] in auto)
qed

lemma get_lookup:
  assumes db: "db_tree t dbi f psize fit lt h tr" and k: "fit key" "key \<noteq> []"
  shows "mdb_get touch t dbi (Some key) (Some d) =
     Inr (case map_of (tree_items t tr) key of Some v \<Rightarrow> (0, Some v, t) | None \<Rightarrow> (MDB_NOTFOUND, Some d, t))"
proof -
  note dd = db_treeD [OF db]
  let ?mc = "(cursor_on dbi)\<lparr>mc_pg := (mc_pg (cursor_on dbi))[0 := None]\<rparr>"
  have C: "0 < CURSOR_STACK" by (simp add: CURSOR_STACK_def)
  obtain mc' p where s: "mdb_page_search touch (Some key) 0 (t, ?mc) = Inr (0, t, set_initialized mc')" "mc_dbi mc' = dbi"
    "cursor_at h mc' tr" "top_page mc' = Inr p" "page_sorted fit lt psize p" "IS_LEAF p" "0 < NUMKEYS p" "\<And>i. i < NUMKEYS p \<Longrightarrow> item_ok t p i"
    "\<And>k v. (k, v) \<in> set (left_items t h mc' 0 tr) \<Longrightarrow> lt k key" "\<And>k v. (k, v) \<in> set (right_items t h mc' 0 tr) \<Longrightarrow> lt key k"
    "tree_items t tr = left_items t h mc' 0 tr @ leaf_items t p @ right_items t h mc' 0 tr"
    by (rule search_key_leaf [OF db, of ?mc key touch]) (use k in \<open>auto simp: stack_ok_def cursor_on_def CURSOR_STACK_def\<close>)
  note ps = page_sortedD [OF s(5)]
  obtain node exact i where r: "mdb_node_search f (unat (md_pad (mt_dbs t ! dbi))) key p = Inr (node, exact, i)" "search_result lt key p node exact i"
    using node_search_ok [OF s(5) k(1)] s(7) by blast
  have m: "map_of (tree_items t tr) key = map_of (leaf_items t p) key"
    unfolding s(11) using s(9,10) lt_irrefl [OF k(1)] by (intro map_of_middle) force+
  have st: "stack_ok mc'" "mc_top mc' < CURSOR_STACK" using s(3) by (auto simp: cursor_at_def)
  have call: "mdb_get touch t dbi (Some key) (Some d) =
     bindE (cursor_set2 MDB_SET True key p (Some key, Some d) (t, set_initialized mc')) (\<lambda>(rc, (_, dat), t', _). Inr (rc, dat, t'))"
    using dd k(2) C s(1,4,6)
    by (simp add: mdb_get_def TXN_DBI_EXIST_def cursor_init_ok [OF db] mdb_cursor_set_def bindE_assoc)
  show ?thesis
  proof (cases exact)
    case True
    then have i: "i < NUMKEYS p" "page_keys p ! i = key" "node = Some i" using r(2) by (auto simp: search_result_def)
    have "cursor_set1 MDB_SET p i (Some key, Some d) (t, (set_initialized mc')\<lparr>mc_ki := (mc_ki mc')[mc_top mc' := i]\<rparr>) =
       Inr (0, (Some key, Some (item_val t p i)), t, set_initialized ((set_initialized mc')\<lparr>mc_ki := (mc_ki mc')[mc_top mc' := i]\<rparr>))"
      using cursor_set1_reads [OF ps(1) i(1) s(8) [OF i(1)] ps(2)] dd(3) s(2) by simp
    then show ?thesis
      using True i r(1) st dd(2,3,7) s(2) map_of_leaf(1) [OF s(5,6) i(1), of t]
      by (simp add: call m cursor_set2_def set_ki_eq)
  next
    case False
    have "page_keys p ! j \<noteq> key" if "j < NUMKEYS p" for j
      using r(2) False that lt_irrefl [OF k(1)] s(6) by (cases "j < i") (force simp: search_result_def first_key_def)+
    then have "map_of (leaf_items t p) key = None" using map_of_leaf(2) [OF s(5,6)] by blast
    then show ?thesis using False r(1) st dd(2,3,7) s(2) by (simp add: call m cursor_set2_def set_ki_eq MDB_NOTFOUND_def)
  qed
qed

end

end
