(* ===== verification/Mdb_Sibling.thy ===== *)
theory Mdb_Sibling
  imports Mdb_Get
begin

text \<open>
  \<open>mdb_cursor_sibling\<close> moves a cursor to the next leaf of a tree: what was to the right of the leaf starts
  at the new one. The proof follows the recursion up the stack, with the part of the path above a level (\<open>on_spine\<close>, \<open>sub_at\<close>) in
  place of the whole path.
\<close>

subsection \<open>Part of a path\<close>

fun on_spine :: "nat \<Rightarrow> MDB_cursor \<Rightarrow> nat \<Rightarrow> mtree \<Rightarrow> bool" where
  "on_spine 0 mc l tr \<longleftrightarrow> mc_pg mc ! l = Some (root_page tr)"
| "on_spine (Suc m) mc l (Br p ts) \<longleftrightarrow> mc_pg mc ! l = Some p \<and> mc_ki mc ! l < length ts \<and> on_spine m mc (Suc l) (ts ! (mc_ki mc ! l))"
| "on_spine (Suc m) mc l (Lf p) \<longleftrightarrow> False"

fun sub_at :: "nat \<Rightarrow> MDB_cursor \<Rightarrow> nat \<Rightarrow> mtree \<Rightarrow> mtree" where
  "sub_at (Suc m) mc l (Br p ts) = sub_at m mc (Suc l) (ts ! (mc_ki mc ! l))"
| "sub_at m mc l tr = tr"

lemma spine_page: "on_spine m mc l tr \<Longrightarrow> mc_pg mc ! (l + m) = Some (root_page (sub_at m mc l tr))"
  by (induction m mc l tr rule: on_spine.induct) simp_all

lemma spine_Suc:
  "on_spine (Suc m) mc l tr \<longleftrightarrow> on_spine m mc l tr \<and> (\<exists>p ts. sub_at m mc l tr = Br p ts \<and> mc_ki mc ! (l + m) < length ts \<and>
     mc_pg mc ! Suc (l + m) = Some (root_page (ts ! (mc_ki mc ! (l + m)))))"
proof (induction m arbitrary: l tr)
  case 0
  show ?case by (cases tr) auto
next
  case (Suc m)
  show ?case
  proof (cases tr)
    case (Br p ts)
    show ?thesis unfolding Br on_spine.simps(2) [of "Suc m"] Suc.IH [of "Suc l"] by simp
  qed simp
qed

lemma at_Suc:
  assumes "on_spine (Suc m) mc l tr" and "sub_at m mc l tr = Br p ts"
  shows "sub_at (Suc m) mc l tr = ts ! (mc_ki mc ! (l + m))"
    and "left_items t (Suc m) mc l tr = left_items t m mc l tr @ concat (map (tree_items t) (take (mc_ki mc ! (l + m)) ts))"
    and "right_items t (Suc m) mc l tr = concat (map (tree_items t) (drop (Suc (mc_ki mc ! (l + m))) ts)) @ right_items t m mc l tr"
  using assms
proof (induction m arbitrary: l tr)
  case 0
  { case 1 then show ?case by simp next case 2 then show ?case by simp next case 3 then show ?case by simp }
next
  case (Suc m)
  { case 1 then show ?case using Suc(1) [of "Suc l"] by (cases tr) simp_all
  next case 2 then show ?case using Suc(2) [of "Suc l"] by (cases tr) simp_all
  next case 3 then show ?case using Suc(3) [of "Suc l"] by (cases tr) simp_all }
qed

lemma spine_path: "tree_ok t psize ok lt h lo hi tr \<Longrightarrow> on_path h mc l tr \<longleftrightarrow> on_spine h mc l tr"
proof (induction h arbitrary: lo hi l tr)
  case 0
  then show ?case by (cases tr) simp_all
next
  case (Suc h)
  show ?case
  proof (cases tr)
    case (Br p ts)
    note b = tree_ok_Br [OF Suc.prems [unfolded Br]]
    show ?thesis using Suc.IH [OF b(5), of "mc_ki mc ! l" "Suc l"] b(3) by (auto simp: Br)
  qed (use Suc.prems in simp)
qed

lemma spine_sub:
  "tree_ok t psize ok lt h lo hi tr \<Longrightarrow> on_spine m mc l tr \<Longrightarrow> m \<le> h \<Longrightarrow> \<exists>lo' hi'. tree_ok t psize ok lt (h - m) lo' hi' (sub_at m mc l tr)"
proof (induction m arbitrary: h lo hi l tr)
  case 0
  then show ?case by auto
next
  case (Suc m)
  obtain h' where h: "h = Suc h'" using Suc.prems(3) by (cases h) auto
  obtain p ts where tr: "tr = Br p ts" using Suc.prems(2) by (cases tr) auto
  note b = tree_ok_Br [OF Suc.prems(1) [unfolded h tr]]
  have "mc_ki mc ! l < NUMKEYS p" using Suc.prems(2) b(3) by (simp add: tr)
  then show ?case using Suc.IH [OF b(5)] Suc.prems(2,3) by (simp add: tr h)
qed

lemma spine_cong:
  assumes "\<And>j. l \<le> j \<Longrightarrow> j < l + m \<Longrightarrow> mc_ki mc' ! j = mc_ki mc ! j"
  shows "(\<And>j. l \<le> j \<Longrightarrow> j \<le> l + m \<Longrightarrow> mc_pg mc' ! j = mc_pg mc ! j) \<Longrightarrow> on_spine m mc' l tr = on_spine m mc l tr"
    and "sub_at m mc' l tr = sub_at m mc l tr" and "left_items t m mc' l tr = left_items t m mc l tr" and "right_items t m mc' l tr = right_items t m mc l tr"
  using assms
proof (induction m arbitrary: l tr)
  case 0
  { case 1 then show ?case by simp next case 2 then show ?case by simp next case 3 then show ?case by simp next case 4 then show ?case by simp }
next
  case (Suc m)
  { case 1
    have "mc_ki mc' ! l = mc_ki mc ! l" "mc_pg mc' ! l = mc_pg mc ! l" using 1(1) [of l] 1(2) [of l] by simp_all
    then show ?case using Suc(1) [of "Suc l"] 1 by (cases tr) simp_all
  next case 2
    have "mc_ki mc' ! l = mc_ki mc ! l" using 2 [of l] by simp
    then show ?case using Suc(2) [of "Suc l"] 2 by (cases tr) simp_all
  next case 3
    have "mc_ki mc' ! l = mc_ki mc ! l" using 3 [of l] by simp
    then show ?case using Suc(3) [of "Suc l"] 3 by (cases tr) simp_all
  next case 4
    have "mc_ki mc' ! l = mc_ki mc ! l" using 4 [of l] by simp
    then show ?case using Suc(4) [of "Suc l"] 4 by (cases tr) simp_all }
qed

lemma items_nonempty: "tree_ok t psize ok lt h lo hi tr \<Longrightarrow> tree_items t tr \<noteq> []"
proof (induction h arbitrary: lo hi tr)
  case 0
  then show ?case by (cases tr) (auto simp: leaf_items_def)
next
  case (Suc h)
  then obtain p ts where tr: "tr = Br p ts" by (cases tr) auto
  note b = tree_ok_Br [OF Suc.prems [unfolded tr]]
  have n: "0 < NUMKEYS p" using page_sortedD(4) [OF b(1) b(2)] by simp
  then have "tree_items t (ts ! 0) \<noteq> []" "ts ! 0 \<in> set ts" using Suc.IH [OF b(5) [OF n]] b(3) by simp_all
  then show ?case by (auto simp: tr)
qed

subsection \<open>The right sibling\<close>

definition popped :: "MDB_cursor \<Rightarrow> MDB_cursor" where
  "popped mc = mc\<lparr>mc_snum := mc_snum mc - 1, mc_top := mc_top mc - 1\<rparr>"

lemma popped_simps [simp]:
  "mc_pg (popped mc) = mc_pg mc" "mc_ki (popped mc) = mc_ki mc" "mc_flags (popped mc) = mc_flags mc" "mc_dbi (popped mc) = mc_dbi mc"
  "mc_top (popped mc) = mc_top mc - 1" "mc_snum (popped mc) = mc_snum mc - 1" "stack_ok (popped mc) = stack_ok mc"
  by (simp_all add: popped_def stack_ok_def)

text \<open>The end of the function, on a branch page where the index has been moved: the child is pushed.\<close>

lemma sibling_push:
  assumes st: "stack_ok mc" "mc_top mc = m" "mc_snum mc = Suc m" "Suc m < CURSOR_STACK"
    and par: "mc_pg mc ! m = Some p" "IS_BRANCH p" "page_wf psize p" "mc_ki mc ! m < NUMKEYS p"
    and sub: "page_of t (NODEPGNO (hdr_at p (mc_ki mc ! m))) q"
  shows "bindE (top_page mc) (\<lambda>par. assertE (IS_BRANCH par) (bindE (top_ki mc) (\<lambda>i. bindE (node_hdr par i) (\<lambda>(d, h).
      bindE (mdb_page_get (NODEPGNO h) t) (\<lambda>(rc, t3, r).
      case r of
        None \<Rightarrow> Inr (rc, t3, mc\<lparr>mc_flags := clear_flag (mc_flags mc) (C_INITIALIZED OR C_EOF)\<rparr>)
      | Some (p', _) \<Rightarrow>
          bindE (mdb_cursor_push p' (t3, mc)) (\<lambda>(_, t4, mc3).
          if True then Inr (0, t4, mc3) else bindE (set_ki (last_indx p') mc3) (\<lambda>mc4. Inr (0, t4, mc4)))))))) =
    Inr (0, t, descend (mc_ki mc ! m) q mc)"
proof -
  obtain l where l: "mdb_page_get (NODEPGNO (hdr_at p (mc_ki mc ! m))) t = Inr (0, t, Some (q, l))" using page_ofD [OF sub] by blast
  have "(mc_ki mc)[m := mc_ki mc ! m] = mc_ki mc" by simp
  then show ?thesis
    using assms l leaf_search_item [OF par(3,4)]
    by (simp add: top_page_eq top_ki_eq mdb_cursor_push_def) (simp add: descend_def)
qed

text \<open>The cursor after a move to the right on level \<open>m\<close>.\<close>

definition moved_right :: "MDB_txn \<Rightarrow> nat \<Rightarrow> mtree \<Rightarrow> MDB_cursor \<Rightarrow> MDB_cursor \<Rightarrow> bool" where
  "moved_right t m tr mc mc' \<longleftrightarrow> stack_ok mc' \<and> mc_top mc' = m \<and> mc_snum mc' = Suc m \<and> mc_flags mc' = mc_flags mc \<and> mc_dbi mc' = mc_dbi mc \<and>
     on_spine m mc' 0 tr \<and> mc_ki mc' ! m = 0 \<and> left_items t m mc' 0 tr = left_items t m mc 0 tr @ tree_items t (sub_at m mc 0 tr) \<and>
     tree_items t (sub_at m mc' 0 tr) @ right_items t m mc' 0 tr = right_items t m mc 0 tr"

lemma moved_rightD:
  assumes "moved_right t m tr mc mc'"
  shows "stack_ok mc'" "mc_top mc' = m" "mc_snum mc' = Suc m" "mc_flags mc' = mc_flags mc" "mc_dbi mc' = mc_dbi mc" "on_spine m mc' 0 tr" "mc_ki mc' ! m = 0"
    "left_items t m mc' 0 tr = left_items t m mc 0 tr @ tree_items t (sub_at m mc 0 tr)"
    "tree_items t (sub_at m mc' 0 tr) @ right_items t m mc' 0 tr = right_items t m mc 0 tr"
  using assms by (simp_all add: moved_right_def)

lemma concat_split:
  assumes "i < length ts"
  shows "concat (map g ts) = concat (map g (take i ts)) @ g (ts ! i) @ concat (map g (drop (Suc i) ts))"
  using id_take_nth_drop [OF assms] by (metis concat.simps(2) concat_append list.simps(9) map_append)

text \<open>A descent by one level from a moved parent.\<close>

lemma descend_spine:
  assumes sp: "on_spine m mc 0 tr" "sub_at m mc 0 tr = Br p ts" and i: "i < length ts"
    and st: "stack_ok mc" "mc_top mc = m" "mc_snum mc = Suc m" "Suc m < CURSOR_STACK" and q: "q = root_page (ts ! i)"
  shows "on_spine (Suc m) (descend i q mc) 0 tr" and "sub_at (Suc m) (descend i q mc) 0 tr = ts ! i" and "mc_ki (descend i q mc) ! Suc m = 0"
    and "left_items t (Suc m) (descend i q mc) 0 tr = left_items t m mc 0 tr @ concat (map (tree_items t) (take i ts))"
    and "right_items t (Suc m) (descend i q mc) 0 tr = concat (map (tree_items t) (drop (Suc i) ts)) @ right_items t m mc 0 tr"
proof -
  let ?mc = "descend i q mc"
  have sn: "mc_snum mc = Suc (mc_top mc)" "mc_snum mc < CURSOR_STACK" using st by simp_all
  note cells = descend_cells [OF st(1) sn, where i = i and q = q, unfolded st(2,3)]
  note cong = spine_cong [of 0 m ?mc mc, simplified, OF cells(5)]
  have pre: "on_spine m ?mc 0 tr" "sub_at m ?mc 0 tr = Br p ts" using sp cong(1,2) cells(4) by simp_all
  show on: "on_spine (Suc m) ?mc 0 tr" unfolding spine_Suc using pre i cells(1,2) q by simp
  show "sub_at (Suc m) ?mc 0 tr = ts ! i" "left_items t (Suc m) ?mc 0 tr = left_items t m mc 0 tr @ concat (map (tree_items t) (take i ts))"
    "right_items t (Suc m) ?mc 0 tr = concat (map (tree_items t) (drop (Suc i) ts)) @ right_items t m mc 0 tr"
    using at_Suc [OF on pre(2)] cells(2) cong(3,4) by simp_all
  show "mc_ki ?mc ! Suc m = 0" using cells(3) .
qed

lemma pop_popped: "2 \<le> mc_snum mc \<Longrightarrow> mdb_cursor_pop mc = popped mc"
  by (simp add: mdb_cursor_pop_def popped_def Let_def)

lemma unpop: "mc_top mc = Suc m \<Longrightarrow> mc_snum mc = Suc (Suc m) \<Longrightarrow> (popped mc)\<lparr>mc_top := Suc m, mc_snum := Suc (Suc m)\<rparr> = mc"
  by (simp add: popped_def)

lemma sibling_step:
  assumes st: "stack_ok mc" "mc_top mc = Suc m" "mc_snum mc = Suc (Suc m)" "Suc m < CURSOR_STACK" and pg: "mc_pg mc ! m = Some p"
  shows "mdb_cursor_sibling True (t, mc) =
     okE (if NUMKEYS p \<le> mc_ki mc ! m + 1 then
            (case mdb_cursor_sibling True (t, popped mc) of
               Inl e \<Rightarrow> Inl e
             | Inr (rc, t2, mc2) \<Rightarrow>
                 if rc \<noteq> 0 then Inr (rc, t2, mc2\<lparr>mc_top := mc_top mc2 + 1, mc_snum := mc_snum mc2 + 1\<rparr>) else Inr (0, t2, mc2))
          else Inr (0, t, (popped mc)\<lparr>mc_ki := (mc_ki mc)[m := mc_ki mc ! m + 1]\<rparr>)) (\<lambda>(t2, mc2).
      bindE (top_page mc2) (\<lambda>par. assertE (IS_BRANCH par) (bindE (top_ki mc2) (\<lambda>i. bindE (node_hdr par i) (\<lambda>(d, h).
      bindE (mdb_page_get (NODEPGNO h) t2) (\<lambda>(rc, t3, r).
      case r of
        None \<Rightarrow> Inr (rc, t3, mc2\<lparr>mc_flags := clear_flag (mc_flags mc2) (C_INITIALIZED OR C_EOF)\<rparr>)
      | Some (p', _) \<Rightarrow>
          bindE (mdb_cursor_push p' (t3, mc2)) (\<lambda>(_, t4, mc3).
          if True then Inr (0, t4, mc3) else bindE (set_ki (last_indx p') mc3) (\<lambda>mc4. Inr (0, t4, mc4)))))))))"
proof -
  have m: "m < CURSOR_STACK" using st(4) by simp
  have tp: "top_page (popped mc) = Inr p" "top_ki (popped mc) = Inr (mc_ki mc ! m)"
    "set_ki i (popped mc) = Inr ((popped mc)\<lparr>mc_ki := (mc_ki mc)[m := i]\<rparr>)" for i
    using st m pg top_page_eq [of "popped mc" p] top_ki_eq [of "popped mc"] set_ki_eq [of "popped mc" i] by simp_all
  have two: "\<not> mc_snum mc < 2" "2 \<le> mc_snum mc" using st(3) by simp_all
  show ?thesis
    unfolding mdb_cursor_sibling.simps [of True t mc] Let_def pop_popped [OF two(2)] tp prod.case sum.case if_True
    using two(1) by (simp only: if_False bindE_Inr)
qed

lemma sibling_right:
  assumes "tree_ok t psize ok lt h None None tr" and "m \<le> h" and "h < CURSOR_STACK"
    and "stack_ok mc" "mc_top mc = m" "mc_snum mc = Suc m" "on_spine m mc 0 tr"
  shows "if right_items t m mc 0 tr = [] then mdb_cursor_sibling True (t, mc) = Inr (MDB_NOTFOUND, t, mc)
     else (\<exists>mc'. mdb_cursor_sibling True (t, mc) = Inr (0, t, mc') \<and> moved_right t m tr mc mc')"
  using assms(2,4-7)
proof (induction m arbitrary: mc)
  case 0
  then show ?case by (simp add: mdb_cursor_sibling.simps [of True t mc])
next
  case (Suc m)
  have C: "Suc m < CURSOR_STACK" "m \<le> h" using Suc.prems(1) assms(3) by simp_all
  obtain p ts where sp: "on_spine m mc 0 tr" "sub_at m mc 0 tr = Br p ts" "mc_ki mc ! m < length ts"
    using Suc.prems(5) by (auto simp: spine_Suc [of m])
  define i where "i = mc_ki mc ! m"
  obtain lo hi where ok: "tree_ok t psize ok lt (Suc (h - Suc m)) lo hi (Br p ts)"
    using spine_sub [OF assms(1) sp(1) C(2)] sp(2) Suc.prems(1) by (metis Suc_diff_Suc Suc_le_lessD)
  note b = tree_ok_Br [OF ok]
  have wf: "page_wf psize p" by (rule page_sortedD(1) [OF b(1)])
  have pg: "mc_pg mc ! m = Some p" using spine_page [OF sp(1)] sp(2) by simp
  note step = sibling_step [OF Suc.prems(2-4) C(1) pg, of t, folded i_def]
  note at = at_Suc [OF Suc.prems(5) sp(2), unfolded add_0 i_def [symmetric]]
  have ch: "page_of t (NODEPGNO (hdr_at p j)) (root_page (ts ! j))" if "j < NUMKEYS p" for j using ok that by simp
  show ?case
  proof (cases "NUMKEYS p \<le> i + 1")
    case False
    let ?mc = "(popped mc)\<lparr>mc_ki := (mc_ki mc)[m := Suc i]\<rparr>" and ?q = "root_page (ts ! Suc i)"
    have st: "stack_ok ?mc" "mc_top ?mc = m" "mc_snum ?mc = Suc m" using Suc.prems(2-4) by (simp_all add: stack_ok_def)
    have km: "mc_ki ?mc ! m = Suc i" using Suc.prems(2) C(1) by (simp add: stack_ok_def)
    have cong: "on_spine m ?mc 0 tr" "sub_at m ?mc 0 tr = Br p ts" "left_items t m ?mc 0 tr = left_items t m mc 0 tr" "right_items t m ?mc 0 tr = right_items t m mc 0 tr"
      using spine_cong [of 0 m ?mc mc] sp by simp_all
    have iN: "Suc i < NUMKEYS p" using False by simp
    have r: "mdb_cursor_sibling True (t, mc) = Inr (0, t, descend (Suc i) ?q ?mc)"
      unfolding step using False sibling_push [OF st C(1) _ b(2) wf, of t ?q] pg km iN ch [OF iN] by simp
    note ds = descend_spine [OF cong(1,2) _ st C(1) refl]
    have ne: "right_items t (Suc m) mc 0 tr \<noteq> []"
      using items_nonempty [OF b(5) [OF iN]] iN b(3) by (simp add: at(3) Cons_nth_drop_Suc [symmetric])
    have iL: "i < length ts" "Suc i < length ts" using iN b(3) by simp_all
    have "moved_right t (Suc m) tr mc (descend (Suc i) ?q ?mc)"
      unfolding moved_right_def using st ds [OF iL(2)] iL at
      by (simp add: cong(3,4) take_Suc_conv_app_nth Cons_nth_drop_Suc [symmetric, OF iL(2)])
    then show ?thesis using r ne by auto
  next
    case True
    then have iN: "Suc i = NUMKEYS p" using sp(3) b(3) by (simp add: i_def)
    have re: "right_items t (Suc m) mc 0 tr = right_items t m mc 0 tr" using iN b(3) by (simp add: at(3))
    have pp: "stack_ok (popped mc)" "mc_top (popped mc) = m" "mc_snum (popped mc) = Suc m" using Suc.prems(2-4) by simp_all
    have pc: "on_spine m (popped mc) 0 tr" "sub_at m (popped mc) 0 tr = Br p ts" "left_items t m (popped mc) 0 tr = left_items t m mc 0 tr" "right_items t m (popped mc) 0 tr = right_items t m mc 0 tr"
      using spine_cong [of 0 m "popped mc" mc] sp by simp_all
    note IH = Suc.IH [OF C(2) pp pc(1), unfolded pc]
    show ?thesis
    proof (cases "right_items t m mc 0 tr = []")
      case True
      then show ?thesis using IH re \<open>NUMKEYS p \<le> i + 1\<close> pp unpop [OF Suc.prems(3,4)]
        by (simp add: step MDB_NOTFOUND_def)
    next
      case False
      then obtain mc2 where mc2: "mdb_cursor_sibling True (t, popped mc) = Inr (0, t, mc2)" "moved_right t m tr (popped mc) mc2"
        using IH by auto
      note mr = moved_rightD [OF mc2(2), unfolded pc]
      obtain lo' hi' where ok2: "tree_ok t psize ok lt (Suc (h - Suc m)) lo' hi' (sub_at m mc2 0 tr)"
        using spine_sub [OF assms(1) mr(6) C(2)] Suc.prems(1) by (metis Suc_diff_Suc Suc_le_lessD)
      then obtain p2 ts2 where s2: "sub_at m mc2 0 tr = Br p2 ts2" by (cases "sub_at m mc2 0 tr") auto
      note b2 = tree_ok_Br [OF ok2 [unfolded s2]]
      have n2: "0 < NUMKEYS p2" "0 < length ts2" using page_sortedD(4) [OF b2(1,2)] b2(3) by simp_all
      have pg2: "mc_pg mc2 ! m = Some p2" using spine_page [OF mr(6)] s2 by simp
      let ?q = "root_page (ts2 ! 0)"
      have ch2: "page_of t (NODEPGNO (hdr_at p2 0)) ?q" using ok2 s2 n2 by simp
      have r: "mdb_cursor_sibling True (t, mc) = Inr (0, t, descend 0 ?q mc2)"
        unfolding step using \<open>NUMKEYS p \<le> i + 1\<close> mc2(1)
          sibling_push [OF mr(1-3) C(1) pg2 b2(2) page_sortedD(1) [OF b2(1)], of t ?q] mr(7) n2 ch2 by simp
      note ds = descend_spine [OF mr(6) s2 n2(2) mr(1-3) C(1) refl]
      have all: "concat (map (tree_items t) ts) = concat (map (tree_items t) (take i ts)) @ tree_items t (ts ! i)"
        using concat_split [of i ts "tree_items t"] iN b(3) by simp
      have all2: "tree_items t (ts2 ! 0) @ concat (map (tree_items t) (drop (Suc 0) ts2)) = concat (map (tree_items t) ts2)"
        using concat_split [of 0 ts2 "tree_items t"] n2 by simp
      have "moved_right t (Suc m) tr mc (descend 0 ?q mc2)"
        unfolding moved_right_def using mr ds at re all all2 s2 by (simp add: append_assoc [symmetric] del: append_assoc)
      then show ?thesis using r re False by auto
    qed
  qed
qed

end
