(* ===== verification/Mdb_Scan.thy ===== *)
theory Mdb_Scan
  imports Mdb_Sibling
begin

text \<open>
  Cursors that walk. \<open>cursor_inv\<close> is the state of a cursor that stands on an item; \<open>mdb_cursor_first\<close> puts a cursor on the
  first item, \<open>mdb_cursor_next\<close> moves it by one, and the loop that a program writes around
  \<open>mdb_cursor_get\<close> sees every item once, in order. A positioning with \<open>MDB_SET_RANGE\<close> starts the walk at the first key not
  below a given one.
\<close>

subsection \<open>A cursor on an item\<close>

definition leaf_of :: "nat \<Rightarrow> MDB_cursor \<Rightarrow> mtree \<Rightarrow> MDB_page" where
  "leaf_of h mc tr = root_page (sub_at h mc 0 tr)"

definition cursor_inv :: "MDB_txn \<Rightarrow> nat \<Rightarrow> mtree \<Rightarrow> MDB_cursor \<Rightarrow> bool" where
  "cursor_inv t h tr mc \<longleftrightarrow> cursor_at h mc tr \<and> mc_ki mc ! h < NUMKEYS (leaf_of h mc tr) \<and> has_flag (mc_flags mc) C_INITIALIZED \<and>
     \<not> has_flag (mc_flags mc) C_DEL \<and> (has_flag (mc_flags mc) C_EOF \<longrightarrow> right_items t h mc 0 tr = [])"

lemma flag_bits [simp]:
  "C_INITIALIZED AND C_EOF = 0" "C_EOF AND C_INITIALIZED = 0" "C_DEL AND C_EOF = 0" "C_EOF AND C_DEL = 0" "C_DEL AND C_INITIALIZED = 0"
  "C_INITIALIZED AND C_DEL = 0"
  by (simp_all add: C_INITIALIZED_def C_EOF_def C_DEL_def)

lemma flag_tests [simp]:
  "has_flag C_INITIALIZED C_INITIALIZED" "has_flag C_EOF C_EOF" "\<not> has_flag C_INITIALIZED C_EOF" "\<not> has_flag C_INITIALIZED C_DEL"
  "\<not> has_flag C_EOF C_DEL" "\<not> has_flag C_EOF C_INITIALIZED"
  by (simp_all add: has_flag_def C_INITIALIZED_def C_EOF_def C_DEL_def)

lemma clear_eof [simp]:
  "has_flag (clear_flag w C_EOF) C_INITIALIZED = has_flag w C_INITIALIZED" "has_flag (clear_flag w C_EOF) C_DEL = has_flag w C_DEL"
  "\<not> has_flag (clear_flag w C_EOF) C_EOF"
  by (simp_all add: has_flag_clear_disjoint)

lemma clear_not_set: "\<not> has_flag w m \<Longrightarrow> clear_flag w m = w"
  by (rule bit_word_eqI) (auto simp: has_flag_iff_bit clear_flag_def bit_and_iff bit_not_iff)

text \<open>The leaf under a cursor.\<close>

lemma cursor_leaf:
  assumes ok: "tree_ok t psize ok lt h None None tr" and at: "cursor_at h mc tr"
  obtains p lo hi where "p = leaf_of h mc tr" "sub_at h mc 0 tr = Lf p" "mc_pg mc ! h = Some p" "top_page mc = Inr p" "top_ki mc = Inr (mc_ki mc ! h)"
    "tree_ok t psize ok lt 0 lo hi (Lf p)" "on_spine h mc 0 tr"
    "ahead t h mc 0 tr = drop (mc_ki mc ! h) (leaf_items t p) @ right_items t h mc 0 tr"
    "passed t h mc 0 tr = left_items t h mc 0 tr @ take (mc_ki mc ! h) (leaf_items t p)"
proof -
  have a: "stack_ok mc" "h < CURSOR_STACK" "mc_top mc = h" "on_path h mc 0 tr" using at by (auto simp: cursor_at_def)
  have sp: "on_spine h mc 0 tr" using spine_path [OF ok] a(4) by blast
  obtain lo hi where s: "tree_ok t psize ok lt 0 lo hi (sub_at h mc 0 tr)" using spine_sub [OF ok sp order_refl] by auto
  then obtain p where p: "sub_at h mc 0 tr = Lf p" by (cases "sub_at h mc 0 tr") auto
  have pg: "mc_pg mc ! h = Some p" using spine_page [OF sp] p by simp
  show thesis
    by (rule that [of p lo hi])
      (use a p pg s sp around_leaf [OF a(4), of p t] top_page_eq [of mc p] top_ki_eq [of mc] in \<open>simp_all add: leaf_of_def\<close>)
qed

lemma leaf_wf:
  assumes "tree_ok t psize ok lt 0 lo hi (Lf p)"
  shows "page_wf psize p" "\<not> IS_LEAF2 p" "IS_LEAF p" "0 < NUMKEYS p" "\<And>i. i < NUMKEYS p \<Longrightarrow> item_ok t p i" "length (leaf_items t p) = NUMKEYS p"
  using assms page_sortedD(1,2) [of ok lt psize p] by (auto simp: leaf_items_def)

lemma nth_leaf_items: "i < NUMKEYS p \<Longrightarrow> leaf_items t p ! i = (page_keys p ! i, item_val t p i)"
  by (simp add: leaf_items_def)

lemma read_item_ok:
  assumes "page_wf psize p" and "i < NUMKEYS p" and "item_ok t p i"
  shows "read_item p i (Some k, Some d) (t, mc) = Inr (0, map_prod Some Some (leaf_items t p ! i), t, mc)"
  using assms(3) leaf_search_item [OF assms(1,2)] node_key_ok [OF assms(1,2)]
  by (simp add: read_item_def get_data_def get_key_def item_ok_def nth_leaf_items [OF assms(2)])

text \<open>Changing the index on the leaf.\<close>

lemma set_leaf_index:
  assumes at: "cursor_at h mc tr" and mc': "mc' = mc\<lparr>mc_ki := (mc_ki mc)[h := i], mc_flags := fl\<rparr>"
  shows "cursor_at h mc' tr" "mc_ki mc' ! h = i" "left_items t h mc' 0 tr = left_items t h mc 0 tr" "right_items t h mc' 0 tr = right_items t h mc 0 tr"
    "leaf_of h mc' tr = leaf_of h mc tr"
proof -
  have a: "stack_ok mc" "h < CURSOR_STACK" "mc_top mc = h" "mc_snum mc = Suc h" "on_path h mc 0 tr" using at by (auto simp: cursor_at_def)
  show "mc_ki mc' ! h = i" using a(1,2) by (simp add: mc' stack_ok_def)
  note c = spine_cong [of 0 h mc' mc, simplified mc', simplified]
  show "left_items t h mc' 0 tr = left_items t h mc 0 tr" "right_items t h mc' 0 tr = right_items t h mc 0 tr" "leaf_of h mc' tr = leaf_of h mc tr"
    using c by (simp_all add: mc' leaf_of_def)
  have "on_path h' mc' l tr' = on_path h' mc l tr'" if "l + h' = h" for h' l tr'
    using that
  proof (induction h' arbitrary: l tr')
    case 0
    then show ?case by (cases tr') (simp_all add: mc')
  next
    case (Suc h')
    then show ?case by (cases tr') (simp_all add: mc')
  qed
  then show "cursor_at h mc' tr" using a by (simp add: cursor_at_def mc' stack_ok_def)
qed

subsection \<open>The next item\<close>

lemma next_item_ok:
  assumes ok: "tree_ok t psize ok lt h None None tr" and at: "cursor_at h mc tr" and i: "mc_ki mc ! h < NUMKEYS (leaf_of h mc tr)"
    and x: "ahead t h mc 0 tr = x # xs"
  shows "next_item (Some k, Some d) (t, mc) = Inr (0, map_prod Some Some x, t, mc)"
proof -
  obtain p lo hi where p: "p = leaf_of h mc tr" "top_page mc = Inr p" "top_ki mc = Inr (mc_ki mc ! h)" "tree_ok t psize ok lt 0 lo hi (Lf p)"
    "ahead t h mc 0 tr = drop (mc_ki mc ! h) (leaf_items t p) @ right_items t h mc 0 tr"
    using cursor_leaf [OF ok at] by metis
  note w = leaf_wf [OF p(4)]
  have i': "mc_ki mc ! h < NUMKEYS p" using i p(1) by simp
  have "x = leaf_items t p ! (mc_ki mc ! h)"
    using p(5) x i' w(6) by (simp add: Cons_nth_drop_Suc [symmetric])
  then show ?thesis using w p read_item_ok [OF w(1) i' w(5) [OF i'], of k d mc] by (simp add: next_item_def)
qed

text \<open>The parts of the list around a cursor that stands on an item.\<close>

lemma around_item:
  assumes ok: "tree_ok t psize ok lt h None None tr" and at: "cursor_at h mc tr" and i: "mc_ki mc ! h < NUMKEYS (leaf_of h mc tr)"
  obtains x where "ahead t h mc 0 tr = x # drop (Suc (mc_ki mc ! h)) (leaf_items t (leaf_of h mc tr)) @ right_items t h mc 0 tr"
    "passed t h mc 0 tr @ [x] = left_items t h mc 0 tr @ take (Suc (mc_ki mc ! h)) (leaf_items t (leaf_of h mc tr))"
proof -
  obtain p lo hi where p: "p = leaf_of h mc tr" "tree_ok t psize ok lt 0 lo hi (Lf p)"
    "ahead t h mc 0 tr = drop (mc_ki mc ! h) (leaf_items t p) @ right_items t h mc 0 tr"
    "passed t h mc 0 tr = left_items t h mc 0 tr @ take (mc_ki mc ! h) (leaf_items t p)"
    using cursor_leaf [OF ok at] by metis
  have "mc_ki mc ! h < length (leaf_items t p)" using leaf_wf(6) [OF p(2)] i p(1) by simp
  then show thesis
    using that [of "leaf_items t p ! (mc_ki mc ! h)"] p
    by (simp add: Cons_nth_drop_Suc [symmetric] take_Suc_conv_app_nth)
qed

lemma next_moves:
  assumes db: "db_tree t dbi f psize ok lt h tr" and inv: "cursor_inv t h tr mc" and dbi: "mc_dbi mc = dbi"
    and x: "ahead t h mc 0 tr = x # y # ys"
  shows "\<exists>mc'. mdb_cursor_next touch MDB_NEXT (Some k, Some d) (t, mc) = Inr (0, map_prod Some Some y, t, mc') \<and> cursor_inv t h tr mc' \<and> mc_dbi mc' = dbi \<and>
     ahead t h mc' 0 tr = y # ys \<and> passed t h mc' 0 tr = passed t h mc 0 tr @ [x]"
proof -
  note dd = db_treeD [OF db]
  have at: "cursor_at h mc tr" and i: "mc_ki mc ! h < NUMKEYS (leaf_of h mc tr)" and fl: "has_flag (mc_flags mc) C_INITIALIZED" "\<not> has_flag (mc_flags mc) C_DEL"
    and eof: "has_flag (mc_flags mc) C_EOF \<Longrightarrow> right_items t h mc 0 tr = []" using inv by (auto simp: cursor_inv_def)
  let ?i = "mc_ki mc ! h" and ?p = "leaf_of h mc tr"
  obtain lo hi where p: "top_page mc = Inr ?p" "top_ki mc = Inr ?i" "tree_ok t psize ok lt 0 lo hi (Lf ?p)" "sub_at h mc 0 tr = Lf ?p" "on_spine h mc 0 tr"
    using cursor_leaf [OF dd(13) at] by metis
  note w = leaf_wf [OF p(3)]
  obtain x' where ar: "ahead t h mc 0 tr = x' # drop (Suc ?i) (leaf_items t ?p) @ right_items t h mc 0 tr"
    "passed t h mc 0 tr @ [x'] = left_items t h mc 0 tr @ take (Suc ?i) (leaf_items t ?p)" by (rule around_item [OF dd(13) at i])
  have xx: "x' = x" "drop (Suc ?i) (leaf_items t ?p) @ right_items t h mc 0 tr = y # ys" using ar(1) x by simp_all
  let ?mc1 = "mc\<lparr>mc_flags := clear_flag (mc_flags mc) C_EOF\<rparr>"
  have ne: "\<not> (has_flag (mc_flags mc) C_EOF \<and> 0 < NUMKEYS ?p \<and> NUMKEYS ?p - 1 \<le> ?i)"
    using eof xx(2) w(6) by auto
  have tops: "mc_top mc = h" "stack_ok mc" "h < CURSOR_STACK" "mc_snum mc = Suc h" using at by (auto simp: cursor_at_def)
  show ?thesis
  proof (cases "NUMKEYS ?p \<le> ?i + 1")
    case False
    let ?mc2 = "mc\<lparr>mc_ki := (mc_ki mc)[h := ?i + 1], mc_flags := clear_flag (mc_flags mc) C_EOF\<rparr>"
    note s = set_leaf_index [OF at refl, where i = "?i + 1" and fl = "clear_flag (mc_flags mc) C_EOF"]
    have i2: "mc_ki ?mc2 ! h < NUMKEYS (leaf_of h ?mc2 tr)" using s(2,5) False by simp
    have k2: "set_ki (?i + 1) ?mc1 = Inr ?mc2" using set_ki_eq [of ?mc1 "?i + 1"] tops by simp
    obtain p2 lo2 hi2 where c2: "p2 = leaf_of h ?mc2 tr" "ahead t h ?mc2 0 tr = drop (mc_ki ?mc2 ! h) (leaf_items t p2) @ right_items t h ?mc2 0 tr"
      "passed t h ?mc2 0 tr = left_items t h ?mc2 0 tr @ take (mc_ki ?mc2 ! h) (leaf_items t p2)"
      using cursor_leaf [OF dd(13) s(1)] by metis
    have a2: "ahead t h ?mc2 0 tr = y # ys" "passed t h ?mc2 0 tr = passed t h mc 0 tr @ [x]"
      using c2 s xx ar(2) by simp_all
    have "next_item (Some k, Some d) (t, ?mc2) = Inr (0, map_prod Some Some y, t, ?mc2)" by (rule next_item_ok [OF dd(13) s(1) i2 a2(1)])
    then have "mdb_cursor_next touch MDB_NEXT (Some k, Some d) (t, mc) = Inr (0, map_prod Some Some y, t, ?mc2)"
      using fl p ne dd(2,6) dbi False k2 by (auto simp: mdb_cursor_next_def Let_def)
    moreover have "cursor_inv t h tr ?mc2" using s i2 fl by (simp add: cursor_inv_def)
    ultimately show ?thesis using a2 dbi by auto
  next
    case True
    then have last: "Suc ?i = NUMKEYS ?p" using i by simp
    then have ri: "right_items t h mc 0 tr = y # ys" using xx(2) w(6) by simp
    have c1: "on_spine h ?mc1 0 tr" "sub_at h ?mc1 0 tr = sub_at h mc 0 tr" "left_items t h ?mc1 0 tr = left_items t h mc 0 tr" "right_items t h ?mc1 0 tr = right_items t h mc 0 tr"
      using spine_cong [of 0 h ?mc1 mc] p(5) by simp_all
    obtain mc2 where m: "mdb_cursor_sibling True (t, ?mc1) = Inr (0, t, mc2)" "moved_right t h tr ?mc1 mc2"
      using sibling_right [OF dd(13) order_refl dd(12), of ?mc1] tops c1(1,4) ri by auto
    note mr = moved_rightD [OF m(2), unfolded c1]
    have at2: "cursor_at h mc2 tr" using mr tops(3) spine_path [OF dd(13), of mc2 0] by (simp add: cursor_at_def)
    obtain p2 lo2 hi2 where c2: "p2 = leaf_of h mc2 tr" "sub_at h mc2 0 tr = Lf p2" "tree_ok t psize ok lt 0 lo2 hi2 (Lf p2)"
      "ahead t h mc2 0 tr = drop (mc_ki mc2 ! h) (leaf_items t p2) @ right_items t h mc2 0 tr"
      "passed t h mc2 0 tr = left_items t h mc2 0 tr @ take (mc_ki mc2 ! h) (leaf_items t p2)"
      using cursor_leaf [OF dd(13) at2] by metis
    have i2: "mc_ki mc2 ! h < NUMKEYS (leaf_of h mc2 tr)" using mr(7) leaf_wf(4) [OF c2(3)] c2(1) by simp
    have a2: "ahead t h mc2 0 tr = y # ys" "passed t h mc2 0 tr = passed t h mc 0 tr @ [x]"
      using c2 mr ri xx(1) ar(2) last w(6) p(4) by simp_all
    have "next_item (Some k, Some d) (t, mc2) = Inr (0, map_prod Some Some y, t, mc2)" by (rule next_item_ok [OF dd(13) at2 i2 a2(1)])
    then have "mdb_cursor_next touch MDB_NEXT (Some k, Some d) (t, mc) = Inr (0, map_prod Some Some y, t, mc2)"
      using fl p ne dd(2,6) dbi True m(1) by (auto simp: mdb_cursor_next_def Let_def)
    moreover have "cursor_inv t h tr mc2" using at2 i2 mr(4) fl by (simp add: cursor_inv_def)
    ultimately show ?thesis using a2 mr(5) dbi by auto
  qed
qed

lemma next_ends:
  assumes db: "db_tree t dbi f psize ok lt h tr" and inv: "cursor_inv t h tr mc" and dbi: "mc_dbi mc = dbi"
    and x: "ahead t h mc 0 tr = [x]"
  shows "\<exists>mc'. mdb_cursor_next touch MDB_NEXT (Some k, Some d) (t, mc) = Inr (MDB_NOTFOUND, (Some k, Some d), t, mc') \<and> cursor_inv t h tr mc' \<and>
     mc_dbi mc' = dbi \<and> ahead t h mc' 0 tr = [x]"
proof -
  note dd = db_treeD [OF db]
  have at: "cursor_at h mc tr" and i: "mc_ki mc ! h < NUMKEYS (leaf_of h mc tr)" and fl: "has_flag (mc_flags mc) C_INITIALIZED" "\<not> has_flag (mc_flags mc) C_DEL"
    using inv by (auto simp: cursor_inv_def)
  let ?i = "mc_ki mc ! h" and ?p = "leaf_of h mc tr"
  obtain lo hi where p: "top_page mc = Inr ?p" "top_ki mc = Inr ?i" "tree_ok t psize ok lt 0 lo hi (Lf ?p)" "on_spine h mc 0 tr"
    using cursor_leaf [OF dd(13) at] by metis
  note w = leaf_wf [OF p(3)]
  have "drop (Suc ?i) (leaf_items t ?p) @ right_items t h mc 0 tr = []"
    using around_item [OF dd(13) at i] x by (metis list.inject)
  then have last: "NUMKEYS ?p \<le> ?i + 1" and ri: "right_items t h mc 0 tr = []" using w(6) by simp_all
  show ?thesis
  proof (cases "has_flag (mc_flags mc) C_EOF")
    case True
    then have "mdb_cursor_next touch MDB_NEXT (Some k, Some d) (t, mc) = Inr (MDB_NOTFOUND, (Some k, Some d), t, mc)"
      using fl p dd(2) dbi w(4) last by (simp add: mdb_cursor_next_def le_diff_conv)
    then show ?thesis using inv dbi x by blast
  next
    case False
    have ce: "mc\<lparr>mc_flags := clear_flag (mc_flags mc) C_EOF\<rparr> = mc" using clear_not_set [OF False] by simp
    let ?mc2 = "mc\<lparr>mc_flags := set_flag (mc_flags mc) C_EOF\<rparr>"
    have sib: "mdb_cursor_sibling True (t, mc) = Inr (MDB_NOTFOUND, t, mc)"
      using sibling_right [OF dd(13) order_refl dd(12), of mc] at p(4) ri by (simp add: cursor_at_def)
    have "mdb_cursor_next touch MDB_NEXT (Some k, Some d) (t, mc) = Inr (MDB_NOTFOUND, (Some k, Some d), t, ?mc2)"
      using fl p dd(2,6) dbi last sib False by (simp add: mdb_cursor_next_def Let_def ce MDB_NOTFOUND_def)
    moreover have s: "cursor_at h ?mc2 tr" "mc_ki ?mc2 ! h = ?i" "right_items t h ?mc2 0 tr = []" "leaf_of h ?mc2 tr = ?p" "left_items t h ?mc2 0 tr = left_items t h mc 0 tr"
      using set_leaf_index [OF at refl, where i = ?i and fl = "set_flag (mc_flags mc) C_EOF"] ri by simp_all
    moreover have "cursor_inv t h tr ?mc2" using s i fl by (simp add: cursor_inv_def)
    moreover have "ahead t h ?mc2 0 tr = ahead t h mc 0 tr"
      by (rule path_cong(2)) simp
    ultimately show ?thesis using x dbi by auto
  qed
qed

subsection \<open>The first item\<close>

lemma follows_first: "on_path h mc l tr \<Longrightarrow> follows (\<lambda>_. 0) h mc l tr \<Longrightarrow> left_items t h mc l tr = []"
proof (induction h arbitrary: l tr)
  case (Suc h)
  then show ?case by (cases tr) simp_all
qed simp

lemma PS_FIRST_flags [simp]:
  "has_flag MDB_PS_FIRST (MDB_PS_FIRST OR MDB_PS_LAST)" "\<not> has_flag MDB_PS_FIRST MDB_PS_LAST" "plain MDB_PS_FIRST"
  by (simp_all add: has_flag_def MDB_PS_FIRST_def MDB_PS_LAST_def plain_def MDB_PS_MODIFY_def MDB_PS_ROOTONLY_def)

lemma chooses_first:
  assumes "page_sorted ok lt psize p" and "IS_BRANCH p"
  shows "chooses t dbi None MDB_PS_FIRST fl (\<lambda>_. 0) p"
proof -
  have "0 < NUMKEYS p" using page_sortedD(4) [OF assms] by simp
  moreover have "search_index g pad None MDB_PS_FIRST p mc = Inr (Some 0, mc\<lparr>mc_ki := (mc_ki mc)[mc_top mc := mc_ki mc ! mc_top mc]\<rparr>)" for g pad mc
    by (simp add: search_index_def)
  ultimately show ?thesis unfolding chooses_def by blast
qed

text \<open>A cursor that may be set: new, or on the tree.\<close>

definition settable :: "nat \<Rightarrow> mtree \<Rightarrow> MDB_cursor \<Rightarrow> bool" where
  "settable h tr mc \<longleftrightarrow> stack_ok mc \<and> root_cell mc tr \<and> \<not> has_flag (mc_flags mc) C_DEL \<and> (has_flag (mc_flags mc) C_INITIALIZED \<longrightarrow> cursor_at h mc tr)"

lemma settable_new: "settable h tr (cursor_on dbi)"
  by (simp add: settable_def root_cell_def)

lemma first_descends:
  assumes db: "db_tree t dbi f psize ok lt h tr" and mc: "settable h tr mc" "mc_dbi mc = dbi"
  obtains mc' fl where "(if \<not> has_flag (mc_flags mc) C_INITIALIZED \<or> mc_top mc \<noteq> 0 then mdb_page_search touch None MDB_PS_FIRST (t, mc) else Inr (0, t, mc)) =
      Inr (0, t, mc'\<lparr>mc_flags := fl\<rparr>)" "cursor_at h mc' tr" "left_items t h mc' 0 tr = []" "mc_dbi mc' = dbi" "\<not> has_flag fl C_DEL"
proof (cases "\<not> has_flag (mc_flags mc) C_INITIALIZED \<or> mc_top mc \<noteq> 0")
  case True
  have st: "stack_ok mc" "root_cell mc tr" "\<not> has_flag (mc_flags mc) C_DEL" using mc(1) by (auto simp: settable_def)
  obtain mc' where m: "mdb_page_search touch None MDB_PS_FIRST (t, mc) = Inr (0, t, set_initialized mc')" "mc_dbi mc' = dbi" "mc_flags mc' = mc_flags mc"
     "cursor_at h mc' tr" "follows (\<lambda>_. 0) h mc' 0 tr"
    using page_search_descends [OF db st(1) mc(2) st(2), of MDB_PS_FIRST None "\<lambda>_. 0" touch] chooses_first by auto
  have "left_items t h mc' 0 tr = []" using follows_first m(4,5) by (auto simp: cursor_at_def)
  then show ?thesis using that [where mc' = mc' and fl = "clear_flag (set_flag (mc_flags mc) C_INITIALIZED) C_EOF"] True m st(3) by (simp add: set_initialized_def)
next
  case False
  then have at: "cursor_at h mc tr" "mc_top mc = 0" and d: "\<not> has_flag (mc_flags mc) C_DEL" using mc(1) by (auto simp: settable_def)
  then have "h = 0" by (simp add: cursor_at_def)
  then have "left_items t h mc 0 tr = []" by simp
  then show ?thesis using that [where mc' = mc and fl = "mc_flags mc"] False at d mc(2) by simp
qed

lemma first_ok:
  assumes db: "db_tree t dbi f psize ok lt h tr" and mc: "settable h tr mc" "mc_dbi mc = dbi"
  shows "\<exists>mc' x xs. tree_items t tr = x # xs \<and> mdb_cursor_first touch (Some k, Some d) (t, mc) = Inr (0, map_prod Some Some x, t, mc') \<and>
     cursor_inv t h tr mc' \<and> mc_dbi mc' = dbi \<and> ahead t h mc' 0 tr = x # xs \<and> passed t h mc' 0 tr = []"
proof -
  note dd = db_treeD [OF db]
  obtain mc1 fl where m: "(if \<not> has_flag (mc_flags mc) C_INITIALIZED \<or> mc_top mc \<noteq> 0 then mdb_page_search touch None MDB_PS_FIRST (t, mc) else Inr (0, t, mc)) =
      Inr (0, t, mc1\<lparr>mc_flags := fl\<rparr>)" "cursor_at h mc1 tr" "left_items t h mc1 0 tr = []" "mc_dbi mc1 = dbi" "\<not> has_flag fl C_DEL"
    by (rule first_descends [OF db mc])
  let ?fl = "clear_flag (set_flag fl C_INITIALIZED) C_EOF"
  let ?mc2 = "mc1\<lparr>mc_ki := (mc_ki mc1)[h := 0], mc_flags := ?fl\<rparr>"
  note s = set_leaf_index [OF m(2) refl, where i = 0 and fl = ?fl]
  obtain p lo hi where p: "p = leaf_of h ?mc2 tr" "mc_pg ?mc2 ! h = Some p" "tree_ok t psize ok lt 0 lo hi (Lf p)"
    "ahead t h ?mc2 0 tr = drop (mc_ki ?mc2 ! h) (leaf_items t p) @ right_items t h ?mc2 0 tr"
    "passed t h ?mc2 0 tr = left_items t h ?mc2 0 tr @ take (mc_ki ?mc2 ! h) (leaf_items t p)"
    using cursor_leaf [OF dd(13) s(1)] by metis
  note w = leaf_wf [OF p(3)]
  have ps: "passed t h ?mc2 0 tr = []" using p(5) s(2,3) m(3) by simp
  have "passed t h ?mc2 0 tr @ ahead t h ?mc2 0 tr = tree_items t tr" using passed_ahead s(1) by (auto simp: cursor_at_def)
  then have ah: "ahead t h ?mc2 0 tr = tree_items t tr" using ps by simp
  let ?x = "leaf_items t p ! 0"
  have x: "ahead t h ?mc2 0 tr = ?x # drop 1 (leaf_items t p) @ right_items t h ?mc2 0 tr"
    using p(4) s(2) w(4,6) Cons_nth_drop_Suc [of 0 "leaf_items t p"] by simp
  have tops: "stack_ok mc1" "mc_top mc1 = h" "h < CURSOR_STACK" "mc_pg mc1 ! h = Some p" using m(2) p(2) by (auto simp: cursor_at_def)
  have tp: "top_page (mc1\<lparr>mc_flags := fl\<rparr>) = Inr p" using tops by (intro top_page_eq) simp_all
  have "set_ki 0 (mc1\<lparr>mc_flags := ?fl\<rparr>) = Inr ?mc2" using tops by (subst set_ki_eq) simp_all
  then have "mdb_cursor_first touch (Some k, Some d) (t, mc) = Inr (0, map_prod Some Some ?x, t, ?mc2)"
    using m(1) w tp read_item_ok [OF w(1) w(4) w(5) [OF w(4)], of k d ?mc2] by (simp add: mdb_cursor_first_def)
  moreover have "cursor_inv t h tr ?mc2" using s p(1) w(4) m(5) by (simp add: cursor_inv_def)
  moreover have "tree_items t tr = ?x # drop 1 (leaf_items t p) @ right_items t h ?mc2 0 tr" using ah x by simp
  ultimately show ?thesis using x ps m(4) by (intro exI [of _ ?mc2] exI [of _ ?x]) auto
qed

subsection \<open>A walk through the database\<close>

text \<open>The loop of \<open>dumpit\<close> in \<open>mdb_dump.c\<close>: \<open>while (mdb_cursor_get(mc, &key, &data, MDB_NEXT) == MDB_SUCCESS)\<close>. The result has the items it
  sees and the code that ends it.\<close>

fun scan_loop :: "nat \<Rightarrow> (cur \<Rightarrow> (int \<times> cur) res) \<Rightarrow> cur \<Rightarrow> ((u8 list \<times> u8 list) list \<times> int) res" where
  "scan_loop 0 touch c = Inl Diverges"
| "scan_loop (Suc n) touch c =
     bindE (mdb_cursor_get touch MDB_NEXT (Some [], Some []) c) (\<lambda>(rc, kd, c').
     if rc \<noteq> 0 then Inr ([], rc)
     else bindE (scan_loop n touch c') (\<lambda>(xs, rc'). Inr ((the (fst kd), the (snd kd)) # xs, rc')))"

lemma get_next:
  assumes "\<not> has_flag (mt_flags t) MDB_TXN_BLOCKED" and "mdb_cursor_next touch MDB_NEXT kd (t, mc) = Inr (rc, kd', t', mc')" and "\<not> has_flag (mc_flags mc') C_DEL"
  shows "mdb_cursor_get touch MDB_NEXT kd (t, mc) = Inr (rc, kd', t', mc')"
  using assms clear_not_set [OF assms(3)] by (simp add: mdb_cursor_get_def Let_def)

lemma scan_rest:
  assumes db: "db_tree t dbi f psize ok lt h tr"
  shows "cursor_inv t h tr mc \<Longrightarrow> mc_dbi mc = dbi \<Longrightarrow> ahead t h mc 0 tr = x # xs \<Longrightarrow> length xs < n \<Longrightarrow> scan_loop n touch (t, mc) = Inr (xs, MDB_NOTFOUND)"
proof (induction n arbitrary: mc x xs)
  case (Suc n)
  note nb = db_treeD(1) [OF db]
  show ?case
  proof (cases xs)
    case Nil
    then obtain mc' where "mdb_cursor_next touch MDB_NEXT (Some [], Some []) (t, mc) = Inr (MDB_NOTFOUND, (Some [], Some []), t, mc')" "cursor_inv t h tr mc'"
      using next_ends [OF db Suc.prems(1,2)] Suc.prems(3) by blast
    then have "mdb_cursor_get touch MDB_NEXT (Some [], Some []) (t, mc) = Inr (MDB_NOTFOUND, (Some [], Some []), t, mc')"
      by (intro get_next [OF nb]) (auto simp: cursor_inv_def)
    then show ?thesis using Nil by (simp add: MDB_NOTFOUND_def)
  next
    case (Cons y ys)
    then obtain mc' where m: "mdb_cursor_next touch MDB_NEXT (Some [], Some []) (t, mc) = Inr (0, map_prod Some Some y, t, mc')" "cursor_inv t h tr mc'" "mc_dbi mc' = dbi"
      "ahead t h mc' 0 tr = y # ys"
      using next_moves [OF db Suc.prems(1,2)] Suc.prems(3) by blast
    have "mdb_cursor_get touch MDB_NEXT (Some [], Some []) (t, mc) = Inr (0, map_prod Some Some y, t, mc')"
      using m by (intro get_next [OF nb]) (auto simp: cursor_inv_def)
    moreover have "scan_loop n touch (t, mc') = Inr (ys, MDB_NOTFOUND)" using Suc.IH [OF m(2-4)] Suc.prems(4) Cons by simp
    ultimately show ?thesis using Cons by (cases y) simp
  qed
qed simp

lemma scan_all:
  assumes db: "db_tree t dbi f psize ok lt h tr" and n: "length (tree_items t tr) < n"
  shows "scan_loop n touch (t, cursor_on dbi) = Inr (tree_items t tr, MDB_NOTFOUND)"
proof -
  obtain m where m: "n = Suc m" using n by (cases n) auto
  obtain mc x xs where f: "tree_items t tr = x # xs" "mdb_cursor_first touch (Some [], Some []) (t, cursor_on dbi) = Inr (0, map_prod Some Some x, t, mc)"
    "cursor_inv t h tr mc" "mc_dbi mc = dbi" "ahead t h mc 0 tr = x # xs"
    using first_ok [OF db settable_new, of dbi touch "[]" "[]"] by auto
  have "mdb_cursor_next touch MDB_NEXT (Some [], Some []) (t, cursor_on dbi) = Inr (0, map_prod Some Some x, t, mc)"
    using f(2) by (simp add: mdb_cursor_next_def)
  then have "mdb_cursor_get touch MDB_NEXT (Some [], Some []) (t, cursor_on dbi) = Inr (0, map_prod Some Some x, t, mc)"
    using f(3) by (intro get_next [OF db_treeD(1) [OF db]]) (auto simp: cursor_inv_def)
  moreover have "scan_loop m touch (t, mc) = Inr (xs, MDB_NOTFOUND)" using scan_rest [OF db f(3-5)] n m f(1) by simp
  ultimately show ?thesis using f(1) m by (cases x) simp
qed

subsection \<open>A range\<close>

text \<open>The end of \<open>mdb_cursor_set\<close>, on the item that the cursor was moved to.\<close>

lemma set_stands:
  assumes db: "db_tree t dbi f psize ok lt h tr" and at: "cursor_at h mc tr" and i: "mc_ki mc ! h < NUMKEYS (leaf_of h mc tr)"
    and mc: "mc_dbi mc = dbi" "\<not> has_flag (mc_flags mc) C_DEL"
  obtains x xs where "ahead t h mc 0 tr = x # xs"
    "cursor_set1 MDB_SET_RANGE (leaf_of h mc tr) (mc_ki mc ! h) (Some key, Some d) (t, mc) = Inr (0, map_prod Some Some x, t, set_initialized mc)"
    "cursor_inv t h tr (set_initialized mc)" "ahead t h (set_initialized mc) 0 tr = x # xs"
proof -
  note dd = db_treeD [OF db]
  let ?i = "mc_ki mc ! h" and ?p = "leaf_of h mc tr"
  obtain lo hi where p: "tree_ok t psize ok lt 0 lo hi (Lf ?p)" "ahead t h mc 0 tr = drop ?i (leaf_items t ?p) @ right_items t h mc 0 tr"
    using cursor_leaf [OF dd(13) at] by metis
  note w = leaf_wf [OF p(1)]
  let ?x = "leaf_items t ?p ! ?i" and ?xs = "drop (Suc ?i) (leaf_items t ?p) @ right_items t h mc 0 tr"
  have a: "ahead t h mc 0 tr = ?x # ?xs" using p(2) w(6) i by (simp add: Cons_nth_drop_Suc [symmetric])
  have "set_initialized mc = mc\<lparr>mc_ki := (mc_ki mc)[h := ?i], mc_flags := mc_flags (set_initialized mc)\<rparr>" by (simp add: set_initialized_def)
  note s = set_leaf_index [OF at this]
  show thesis
  proof (rule that [OF a])
    show "cursor_set1 MDB_SET_RANGE ?p ?i (Some key, Some d) (t, mc) = Inr (0, map_prod Some Some ?x, t, set_initialized mc)"
      using cursor_set1_reads [OF w(1) i w(5) [OF i] w(2), of mc MDB_SET_RANGE] mc(1) dd(3) by (simp add: nth_leaf_items [OF i])
    show "cursor_inv t h tr (set_initialized mc)" using s i mc(2) by (simp add: cursor_inv_def) (simp add: set_initialized_def)
    show "ahead t h (set_initialized mc) 0 tr = ?x # ?xs" using a path_cong(2) [of 0 h "set_initialized mc" mc t tr] by simp
  qed
qed

text \<open>The move of a cursor to the next leaf, as \<open>mdb_cursor_set\<close> makes it.\<close>

lemma sibling_stands:
  assumes db: "db_tree t dbi f psize ok lt h tr" and at: "cursor_at h mc tr" and R: "right_items t h mc 0 tr \<noteq> []"
  obtains mc' where "mdb_cursor_sibling True (t, mc) = Inr (0, t, mc')" "cursor_at h mc' tr" "mc_ki mc' ! h = 0" "0 < NUMKEYS (leaf_of h mc' tr)"
    "top_page mc' = Inr (leaf_of h mc' tr)" "IS_LEAF (leaf_of h mc' tr)" "mc_dbi mc' = mc_dbi mc" "mc_flags mc' = mc_flags mc" "ahead t h mc' 0 tr = right_items t h mc 0 tr"
proof -
  note dd = db_treeD [OF db]
  have st: "stack_ok mc" "mc_top mc = h" "mc_snum mc = Suc h" "h < CURSOR_STACK" "on_spine h mc 0 tr"
    using at spine_path [OF dd(13), of mc 0] by (auto simp: cursor_at_def)
  obtain mc' where m: "mdb_cursor_sibling True (t, mc) = Inr (0, t, mc')" "moved_right t h tr mc mc'"
    using sibling_right [OF dd(13) order_refl dd(12) st(1-3,5)] R by auto
  note mr = moved_rightD [OF m(2)]
  have at': "cursor_at h mc' tr" using mr st(4) spine_path [OF dd(13), of mc' 0] by (simp add: cursor_at_def)
  obtain lo hi where c: "sub_at h mc' 0 tr = Lf (leaf_of h mc' tr)" "top_page mc' = Inr (leaf_of h mc' tr)" "tree_ok t psize ok lt 0 lo hi (Lf (leaf_of h mc' tr))"
    "ahead t h mc' 0 tr = drop (mc_ki mc' ! h) (leaf_items t (leaf_of h mc' tr)) @ right_items t h mc' 0 tr"
    using cursor_leaf [OF dd(13) at'] by metis
  have "ahead t h mc' 0 tr = right_items t h mc 0 tr" using c(1,4) mr(7,9) by simp
  then show thesis using that [OF m(1) at' mr(7) leaf_wf(4) [OF c(3)] c(2) leaf_wf(3) [OF c(3)] mr(5,4)] by blast
qed

context key_order
begin

text \<open>The items that are not below a key: those from the index of \<open>mdb_node_search\<close> on.\<close>

lemma range_split:
  assumes p: "page_sorted fit lt psize p" "IS_LEAF p" and key: "fit key" and r: "search_result lt key p node exact i"
    and L: "\<And>a v. (a, v) \<in> set ls \<Longrightarrow> lt a key" and R: "\<And>a v. (a, v) \<in> set rs \<Longrightarrow> lt key a"
  shows "dropWhile (\<lambda>(a, v). lt a key) (ls @ leaf_items t p @ rs) = drop i (leaf_items t p) @ rs"
proof -
  let ?M = "leaf_items t p"
  have lM: "length ?M = NUMKEYS p" by (simp add: leaf_items_def)
  have iN: "i \<le> NUMKEYS p" "first_key p = 0" using r p(2) by (auto simp: search_result_def first_key_def)
  have low: "lt a key" if "(a, v) \<in> set (take i ?M)" for a v
    using that r iN by (auto simp: in_set_conv_nth lM nth_leaf_items search_result_def)
  have high: "\<not> lt a key" if mem: "(a, v) \<in> set (drop i ?M @ rs)" for a v
  proof -
    have "a = key \<or> lt key a"
    proof (cases "(a, v) \<in> set rs")
      case False
      then obtain j where j: "j < length (drop i ?M)" "drop i ?M ! j = (a, v)" using mem by (auto simp: in_set_conv_nth [of _ "drop i ?M"])
      then have "i + j < NUMKEYS p" "page_keys p ! (i + j) = a" using lM by (simp_all add: nth_leaf_items)
      then show ?thesis using r unfolding search_result_def by (metis le_add1)
    qed (use R in blast)
    then show ?thesis using lt_asym [OF key] lt_irrefl [OF key] by blast
  qed
  have "dropWhile (\<lambda>(a, v). lt a key) ((ls @ take i ?M) @ (drop i ?M @ rs)) = dropWhile (\<lambda>(a, v). lt a key) (drop i ?M @ rs)"
    using L low by (intro dropWhile_append2) auto
  moreover have "ls @ ?M @ rs = (ls @ take i ?M) @ (drop i ?M @ rs)" by simp
  ultimately have "dropWhile (\<lambda>(a, v). lt a key) (ls @ ?M @ rs) = dropWhile (\<lambda>(a, v). lt a key) (drop i ?M @ rs)" by metis
  also have "\<dots> = drop i ?M @ rs" using high by (cases "drop i ?M @ rs") auto
  finally show ?thesis .
qed

lemma set_range_ok:
  assumes db: "db_tree t dbi f psize fit lt h tr" and k: "fit key" "key \<noteq> []"
  shows "case dropWhile (\<lambda>(a, v). lt a key) (tree_items t tr) of
      [] \<Rightarrow> \<exists>mc'. mdb_cursor_set touch MDB_SET_RANGE False key (Some d) (t, cursor_on dbi) = Inr (MDB_NOTFOUND, (Some key, Some d), t, mc')
    | x # xs \<Rightarrow> \<exists>mc'. mdb_cursor_set touch MDB_SET_RANGE False key (Some d) (t, cursor_on dbi) = Inr (0, map_prod Some Some x, t, mc') \<and>
        cursor_inv t h tr mc' \<and> mc_dbi mc' = dbi \<and> ahead t h mc' 0 tr = x # xs"
proof -
  note dd = db_treeD [OF db]
  let ?mc = "(cursor_on dbi)\<lparr>mc_pg := (mc_pg (cursor_on dbi))[0 := None]\<rparr>"
  let ?call = "mdb_cursor_set touch MDB_SET_RANGE False key (Some d) (t, cursor_on dbi)"
  have C: "0 < CURSOR_STACK" by (simp add: CURSOR_STACK_def)
  obtain mc' p where s: "mdb_page_search touch (Some key) 0 (t, ?mc) = Inr (0, t, set_initialized mc')" "mc_dbi mc' = dbi" "mc_flags mc' = mc_flags ?mc"
    "cursor_at h mc' tr" "top_page mc' = Inr p" "mc_pg mc' ! h = Some p" "page_sorted fit lt psize p" "IS_LEAF p" "0 < NUMKEYS p" "\<And>i. i < NUMKEYS p \<Longrightarrow> item_ok t p i"
    "\<And>k v. (k, v) \<in> set (left_items t h mc' 0 tr) \<Longrightarrow> lt k key" "\<And>k v. (k, v) \<in> set (right_items t h mc' 0 tr) \<Longrightarrow> lt key k"
    "tree_items t tr = left_items t h mc' 0 tr @ leaf_items t p @ right_items t h mc' 0 tr"
    by (rule search_key_leaf [OF db, of ?mc key touch]) (use k in \<open>auto simp: stack_ok_def cursor_on_def CURSOR_STACK_def\<close>)
  obtain node exact i where r: "mdb_node_search f (unat (md_pad (mt_dbs t ! dbi))) key p = Inr (node, exact, i)" "search_result lt key p node exact i"
    using node_search_ok [OF s(7) k(1)] s(9) by blast
  let ?R = "right_items t h mc' 0 tr"
  have dw: "dropWhile (\<lambda>(a, v). lt a key) (tree_items t tr) = drop i (leaf_items t p) @ ?R"
    unfolding s(13) using s(11,12) by (intro range_split [OF s(7,8) k(1) r(2)]) blast+
  define m1 where "m1 = (set_initialized mc')\<lparr>mc_ki := (mc_ki mc')[h := i]\<rparr>"
  have m1: "m1 = mc'\<lparr>mc_ki := (mc_ki mc')[h := i], mc_flags := mc_flags m1\<rparr>" by (simp add: m1_def set_initialized_def)
  note sl = set_leaf_index [OF s(4) m1]
  have sk: "set_ki i (set_initialized mc') = Inr m1" using set_ki_eq [of "set_initialized mc'" i] s(4) by (simp add: cursor_at_def m1_def)
  have d1: "mc_dbi m1 = dbi" "\<not> has_flag (mc_flags m1) C_DEL" using s(2,3) by (simp_all add: m1_def set_initialized_def)
  have lp: "leaf_of h m1 tr = p" using cursor_leaf [OF dd(13) s(4)] s(5) sl(5) by (metis Inr_inject)
  have call: "?call = (case node of Some j \<Rightarrow> cursor_set1 MDB_SET_RANGE p j (Some key, Some d) (t, m1)
     | None \<Rightarrow> bindE (mdb_cursor_sibling True (t, m1)) (\<lambda>(rc, t2, mc2).
         if rc \<noteq> 0 then Inr (rc, (Some key, Some d), t2, mc2\<lparr>mc_flags := set_flag (mc_flags mc2) C_EOF\<rparr>)
         else bindE (top_page mc2) (\<lambda>mp2. assertE (IS_LEAF mp2) (cursor_set1 MDB_SET_RANGE mp2 0 (Some key, Some d) (t2, mc2)))))"
    using dd k(2) C s(1,2,5,8) r(1) sk by (simp add: mdb_cursor_set_def cursor_set2_def Let_def)
  have iN: "node = (if i < NUMKEYS p then Some i else None)" using r(2) by (auto simp: search_result_def)
  have ah: "ahead t h m1 0 tr = drop i (leaf_items t p) @ ?R" using cursor_leaf [OF dd(13) sl(1)] sl(2,4) lp by metis
  have stands: ?thesis if "?call = Inr (0, map_prod Some Some x, t, mc2)" "cursor_inv t h tr mc2" "mc_dbi mc2 = dbi" "ahead t h mc2 0 tr = x # xs" "drop i (leaf_items t p) @ ?R = x # xs" for x xs mc2
    unfolding dw that(5) list.case using that(1-4) by blast
  consider "i < NUMKEYS p" | "node = None" "drop i (leaf_items t p) = []" "?R = []" | "node = None" "drop i (leaf_items t p) = []" "?R \<noteq> []"
    using iN by (fastforce simp: leaf_items_def)
  then show ?thesis
  proof cases
    case 1
    then have "mc_ki m1 ! h < NUMKEYS (leaf_of h m1 tr)" using sl(2) lp by simp
    then obtain x xs where "ahead t h m1 0 tr = x # xs" "cursor_set1 MDB_SET_RANGE p i (Some key, Some d) (t, m1) = Inr (0, map_prod Some Some x, t, set_initialized m1)"
      "cursor_inv t h tr (set_initialized m1)" "ahead t h (set_initialized m1) 0 tr = x # xs" using set_stands [OF db sl(1) _ d1, of key d] sl(2) lp by metis
    then show ?thesis using stands [of x "set_initialized m1" xs] 1 iN call ah d1(1) by simp
  next
    case 2
    have sp: "stack_ok m1" "mc_top m1 = h" "mc_snum m1 = Suc h" "on_spine h m1 0 tr" using sl(1) spine_path [OF dd(13), of m1 0] by (auto simp: cursor_at_def)
    have "mdb_cursor_sibling True (t, m1) = Inr (MDB_NOTFOUND, t, m1)" using sibling_right [OF dd(13) order_refl dd(12) sp] sl(4) 2 by simp
    then have "?call = Inr (MDB_NOTFOUND, (Some key, Some d), t, m1\<lparr>mc_flags := set_flag (mc_flags m1) C_EOF\<rparr>)" using 2 call by (simp add: MDB_NOTFOUND_def)
    then show ?thesis unfolding dw 2(2,3) append_Nil list.case by blast
  next
    case 3
    then have "right_items t h m1 0 tr \<noteq> []" using sl(4) by simp
    then obtain mc2 where m: "mdb_cursor_sibling True (t, m1) = Inr (0, t, mc2)" "cursor_at h mc2 tr" "mc_ki mc2 ! h = 0" "0 < NUMKEYS (leaf_of h mc2 tr)"
      "top_page mc2 = Inr (leaf_of h mc2 tr)" "IS_LEAF (leaf_of h mc2 tr)" "mc_dbi mc2 = mc_dbi m1" "mc_flags mc2 = mc_flags m1" "ahead t h mc2 0 tr = right_items t h m1 0 tr"
      by (rule sibling_stands [OF db sl(1)])
    have i2: "mc_ki mc2 ! h < NUMKEYS (leaf_of h mc2 tr)" "mc_dbi mc2 = dbi" "\<not> has_flag (mc_flags mc2) C_DEL" using m(3,4,7,8) d1 by simp_all
    obtain x xs where x: "ahead t h mc2 0 tr = x # xs" "cursor_set1 MDB_SET_RANGE (leaf_of h mc2 tr) 0 (Some key, Some d) (t, mc2) = Inr (0, map_prod Some Some x, t, set_initialized mc2)"
      "cursor_inv t h tr (set_initialized mc2)" "ahead t h (set_initialized mc2) 0 tr = x # xs" using set_stands [OF db m(2) i2, of key d] m(3) by metis
    have "?call = Inr (0, map_prod Some Some x, t, set_initialized mc2)" using 3(1) call m(1,5,6) x(2) by simp
    then show ?thesis using stands [of x "set_initialized mc2" xs] x(1,3,4) i2(2) m(9) sl(4) 3(2) by simp
  qed
qed

end

end
