(* ===== verification/Mdb_Read.thy ===== *)
theory Mdb_Read
  imports Mdb_Scan
begin

text \<open>
  A small database with three pages, and the properties of reading on the default order of keys: lookup,
  search on a page, walks and ranges.
\<close>

subsection \<open>A database with three pages\<close>

definition page64 :: "size_t \<Rightarrow> u16 \<Rightarrow> u16 list \<Rightarrow> u8 list \<Rightarrow> MDB_page" where
  "page64 pgno flags ptrs bs = \<lparr>mp_pgno = pgno, mp_pad = 0, mp_flags = flags, mp_lower = 16 + 2 * of_nat (length ptrs), mp_upper = 64 - of_nat (length bs),
     mp_ptrs = ptrs @ replicate (24 - length ptrs) 0, mp_bytes = replicate (64 - length bs) 0 @ bs\<rparr>"

definition leaf_a :: MDB_page where
  "leaf_a = page64 3 P_LEAF [40, 52] [1, 0, 0, 0, 0, 0, 1, 0, 5, 9, 0, 0, 2, 0, 0, 0, 0, 0, 2, 0, 5, 1, 8, 8]"

definition leaf_b :: MDB_page where
  "leaf_b = page64 4 P_LEAF [52] [1, 0, 0, 0, 0, 0, 2, 0, 7, 7, 3, 0]"

definition root_ab :: MDB_page where
  "root_ab = page64 2 P_BRANCH [46, 54] [3, 0, 0, 0, 0, 0, 0, 0, 4, 0, 0, 0, 0, 0, 1, 0, 7, 0]"

lemma small_page_facts:
  "NUMKEYS leaf_a = 2" "NUMKEYS leaf_b = 1" "NUMKEYS root_ab = 2" "IS_LEAF leaf_a" "IS_LEAF leaf_b" "IS_BRANCH root_ab" "\<not> IS_LEAF root_ab" "\<not> IS_BRANCH leaf_a" "\<not> IS_BRANCH leaf_b"
  "\<not> IS_LEAF2 leaf_a" "\<not> IS_LEAF2 leaf_b" "\<not> IS_LEAF2 root_ab"
  by (simp_all add: NUMKEYS_eq leaf_a_def leaf_b_def root_ab_def page64_def IS_LEAF_def IS_BRANCH_def IS_LEAF2_def F_ISSET_def P_LEAF_def P_BRANCH_def P_LEAF2_def)

lemma small_offs: "page_offs leaf_a = [40, 52]" "page_offs leaf_b = [52]" "page_offs root_ab = [46, 54]"
  by (simp_all add: page_offs_def small_page_facts) (simp_all add: leaf_a_def leaf_b_def root_ab_def page64_def)

lemma small_hdrs:
  "dec_node (slice (mp_bytes leaf_a) 40 8) = \<lparr>mn_lo = 1, mn_hi = 0, mn_flags = 0, mn_ksize = 1\<rparr>"
  "dec_node (slice (mp_bytes leaf_a) 52 8) = \<lparr>mn_lo = 2, mn_hi = 0, mn_flags = 0, mn_ksize = 2\<rparr>"
  "dec_node (slice (mp_bytes leaf_b) 52 8) = \<lparr>mn_lo = 1, mn_hi = 0, mn_flags = 0, mn_ksize = 2\<rparr>"
  "dec_node (slice (mp_bytes root_ab) 46 8) = \<lparr>mn_lo = 3, mn_hi = 0, mn_flags = 0, mn_ksize = 0\<rparr>"
  "dec_node (slice (mp_bytes root_ab) 54 8) = \<lparr>mn_lo = 4, mn_hi = 0, mn_flags = 0, mn_ksize = 1\<rparr>"
  by (simp_all add: leaf_a_def leaf_b_def root_ab_def page64_def slice_def dec_node_def de16_def)

lemma small_wf: "page_wf 64 leaf_a" "page_wf 64 leaf_b" "page_wf 64 root_ab"
  by (simp_all add: page_wf_def small_offs small_page_facts ext_at_def small_hdrs node_len_def payload_size_def NODEDSZ_def F_ISSET_def F_BIGDATA_def EVEN_def apart_def)
    (simp_all add: leaf_a_def leaf_b_def root_ab_def page64_def)

lemma small_keys: "page_keys leaf_a = [[5], [5, 1]]" "page_keys leaf_b = [[7, 7]]" "page_keys root_ab = [[], [7]]"
  by (simp_all add: page_keys_def page_nodes_def small_offs node_at_def small_page_facts small_hdrs Let_def)
    (simp_all add: leaf_a_def leaf_b_def root_ab_def page64_def slice_def)

lemma small_sorted: "page_sorted short_key (<) 64 leaf_a" "page_sorted short_key (<) 64 leaf_b" "page_sorted short_key (<) 64 root_ab"
  by (simp_all add: page_sorted_def small_wf small_page_facts small_keys first_key_def short_key_def)

definition small_txn :: MDB_txn where
  "small_txn = \<lparr>mt_flags = MDB_TXN_RDONLY, mt_next_pgno = 5, mt_lists = [],
     me_map = (\<lambda>g. if g = 3 then leaf_a else if g = 4 then leaf_b else root_ab), me_mem = (\<lambda>_. root_ab),
     mt_dbs = [\<lparr>md_pad = 0, md_flags = 0, md_depth = 2, md_branch_pages = 1, md_leaf_pages = 2, md_overflow_pages = 0, md_entries = 3, md_root = 2\<rparr>],
     mt_dbxs = [\<lparr>md_name = [], md_cmp = Cmp_memn, md_dcmp = Cmp_memn\<rparr>], mt_dbflags = [DB_VALID OR DB_USRVALID], mt_dbiseqs = [0], me_dbiseqs = [0]\<rparr>"

definition small_tree :: mtree where
  "small_tree = Br root_ab [Lf leaf_a, Lf leaf_b]"

lemma small_reads:
  "mdb_node_read small_txn leaf_a 0 = Inr (0, small_txn, [9])" "mdb_node_read small_txn leaf_a (Suc 0) = Inr (0, small_txn, [8, 8])"
  "mdb_node_read small_txn leaf_b 0 = Inr (0, small_txn, [3])"
  by (simp_all add: mdb_node_read_def leaf_search_item [OF small_wf(1)] leaf_search_item [OF small_wf(2)] small_page_facts small_offs hdr_at_def small_hdrs NODEDSZ_def
      F_ISSET_def F_BIGDATA_def mem_get_def Let_def NODESIZE_def) (simp_all add: leaf_a_def leaf_b_def page64_def slice_def)

lemma small_items: "tree_items small_txn small_tree = [([5], [9]), ([5, 1], [8, 8]), ([7, 7], [3])]"
  by (simp add: small_tree_def leaf_items_def small_page_facts small_keys item_val_def small_reads upt_rec)

lemma small_pages: "page_of small_txn 2 root_ab" "page_of small_txn 3 leaf_a" "page_of small_txn 4 leaf_b"
  by (simp_all add: page_of_def mdb_page_get_def small_txn_def has_flag_def MDB_TXN_RDONLY_def MDB_TXN_WRITEMAP_def)

lemma small_leaves:
  "tree_ok small_txn 64 short_key (<) 0 None (Some [7]) (Lf leaf_a)" "tree_ok small_txn 64 short_key (<) 0 (Some [7]) None (Lf leaf_b)"
proof -
  have "item_ok small_txn leaf_a 0" "item_ok small_txn leaf_a 1" "item_ok small_txn leaf_b 0"
    by (simp_all add: item_ok_def item_val_def small_reads hdr_at_def small_hdrs small_offs F_ISSET_def F_DUPDATA_def)
  then show "tree_ok small_txn 64 short_key (<) 0 None (Some [7]) (Lf leaf_a)" "tree_ok small_txn 64 short_key (<) 0 (Some [7]) None (Lf leaf_b)"
    by (auto simp: small_sorted small_page_facts within_def small_keys less_2_cases_iff)
qed

lemma small_root: "tree_ok small_txn 64 short_key (<) 1 None None small_tree"
proof -
  have n: "NODEPGNO (hdr_at root_ab 0) = 3" "NODEPGNO (hdr_at root_ab 1) = 4" by (simp_all add: hdr_at_def small_hdrs small_offs NODEPGNO_def)
  have b: "low_bound None root_ab 0 = None" "high_bound None root_ab 0 = Some [7]" "low_bound None root_ab 1 = Some [7]" "high_bound None root_ab 1 = None"
    by (simp_all add: low_bound_def high_bound_def small_page_facts small_keys)
  show ?thesis
    unfolding small_tree_def One_nat_def tree_ok.simps using small_leaves small_pages n b
    by (auto simp del: tree_ok.simps simp: small_sorted small_page_facts less_2_cases_iff within_def)
qed

lemma small_db: "db_tree small_txn 0 Cmp_memn 64 short_key (<) 1 small_tree"
proof -
  have r: "root_page small_tree = root_ab" "mp_pgno root_ab = 2" by (simp_all add: small_tree_def root_ab_def page64_def)
  have "\<not> has_flag (mt_flags small_txn) MDB_TXN_BLOCKED"
    by (simp add: small_txn_def has_flag_def MDB_TXN_BLOCKED_def MDB_TXN_FINISHED_def MDB_TXN_ERROR_def MDB_TXN_HAS_CHILD_def MDB_TXN_RDONLY_def)
  moreover have "has_flag (DB_VALID OR DB_USRVALID) DB_USRVALID" "\<not> has_flag (DB_VALID OR DB_USRVALID) DB_STALE" "\<not> has_flag 0 MDB_DUPSORT"
    by (simp_all add: has_flag_def DB_VALID_def DB_USRVALID_def DB_STALE_def)
  moreover have "md_root (mt_dbs small_txn ! 0) = 2" "mt_dbflags small_txn = [DB_VALID OR DB_USRVALID]" "length (mt_dbs small_txn) = 1" "length (mt_dbxs small_txn) = 1"
     "md_cmp (mt_dbxs small_txn ! 0) = Cmp_memn" "md_flags (mt_dbs small_txn ! 0) = 0" by (simp_all add: small_txn_def)
  moreover have "(2 :: size_t) \<noteq> P_INVALID" by (simp add: P_INVALID_def)
  ultimately show ?thesis using small_pages(1) small_root r by (simp add: db_tree_def CURSOR_STACK_def)
qed

subsection \<open>Search on a page\<close>

text \<open>C25: \<open>mdb_node_search\<close> with the default comparison on a well-formed sorted page, leaf or branch: the search ends without a
  fault, the index it stores is the number of the first entry that is not below the key (entry 0 of a branch page counts
  as below every key), the node it returns is that entry or \<open>NULL\<close> when there is none, and \<open>*exactp\<close> says whether the entry has the
  key itself.\<close>

theorem node_search_finds:
  assumes "page_sorted short_key (<) psize p" and "short_key key"
  shows "\<exists>node exact i. mdb_node_search Cmp_memn pad key p = Inr (node, exact, i) \<and> first_key p \<le> i \<and> i \<le> NUMKEYS p \<and>
     node = (if i < NUMKEYS p then Some i else None) \<and> (exact \<longleftrightarrow> i < NUMKEYS p \<and> page_keys p ! i = key) \<and>
     (\<forall>j. first_key p \<le> j \<and> j < i \<longrightarrow> page_keys p ! j < key) \<and>
     (\<forall>j. i \<le> j \<and> j < NUMKEYS p \<longrightarrow> key < page_keys p ! j \<or> j = i \<and> exact)"
  using memn.node_search_always [OF assms] unfolding search_result_def .

theorem node_search_finds_witness:
  "\<exists>i. mdb_node_search Cmp_memn 0 [5, 1] leaf_a = Inr (Some i, True, i) \<and> page_keys leaf_a ! i = [5, 1]"
proof -
  obtain node exact i where r: "mdb_node_search Cmp_memn 0 [5, 1] leaf_a = Inr (node, exact, i)" "i \<le> 2" "node = (if i < 2 then Some i else None)"
    "exact \<longleftrightarrow> i < 2 \<and> [[5], [5, 1]] ! i = [5, 1 :: u8]" "\<forall>j. j < i \<longrightarrow> [[5], [5, 1]] ! j < [5, 1 :: u8]"
    "\<forall>j. i \<le> j \<and> j < 2 \<longrightarrow> [5, 1 :: u8] < [[5], [5, 1]] ! j \<or> j = i \<and> exact"
    using node_search_finds [of 64 leaf_a "[5, 1]" 0] small_sorted(1) by (auto simp: short_key_def small_page_facts small_keys first_key_def)
  have "i \<le> 1" using r(2) spec [OF r(5), of 1] by (cases "i = 2") simp_all
  moreover have "i \<noteq> 0" using spec [OF r(6), of 0] r(4) by (cases "i = 0") simp_all
  ultimately have "i = 1" by simp
  then show ?thesis using r(1,3,4) by (simp add: small_keys)
qed

subsection \<open>Lookup\<close>

text \<open>C3: \<open>mdb_get\<close> on a database whose pages form a sorted tree, of any height that fits a cursor and with values in
  the leaves or on overflow pages, is the lookup in the list of items of the tree: the value of the key with code 0, or
  \<open>MDB_NOTFOUND\<close> with the data argument unchanged. No read leaves a page, no assertion fails, the loop of the descent ends, and the
  transaction is as it was.\<close>

theorem get_is_lookup:
  assumes "db_tree t dbi Cmp_memn psize short_key (<) h tr" and "short_key key" and "key \<noteq> []"
  shows "mdb_get touch t dbi (Some key) (Some d) =
     Inr (case map_of (tree_items t tr) key of Some v \<Rightarrow> (0, Some v, t) | None \<Rightarrow> (MDB_NOTFOUND, Some d, t))"
  by (rule memn.get_lookup [OF assms])

theorem get_is_lookup_witness:
  "mdb_get (\<lambda>c. Inr (0, c)) small_txn 0 (Some [7, 7]) (Some []) = Inr (0, Some [3], small_txn)"
  using get_is_lookup [OF small_db, of "[7, 7]" "\<lambda>c. Inr (0, c)" "[]"] by (simp add: short_key_def small_items)

subsection \<open>Walks\<close>

text \<open>C14: A walk with \<open>MDB_NEXT\<close> from a new cursor, the loop of \<open>dumpit\<close>: it ends with
  \<open>MDB_NOTFOUND\<close> after exactly the items of the tree, each once and in ascending order of keys.\<close>

theorem scan_sees_all:
  assumes "db_tree t dbi Cmp_memn psize short_key (<) h tr" and "length (tree_items t tr) < n"
  shows "scan_loop n touch (t, cursor_on dbi) = Inr (tree_items t tr, MDB_NOTFOUND) \<and> sorted_wrt (<) (map fst (tree_items t tr))"
  using scan_all [OF assms] memn.items_ascend [OF db_treeD(13) [OF assms(1)]] by simp

theorem scan_sees_all_witness:
  "scan_loop 4 (\<lambda>c. Inr (0, c)) (small_txn, cursor_on 0) = Inr ([([5], [9]), ([5, 1], [8, 8]), ([7, 7], [3])], MDB_NOTFOUND)"
  using scan_sees_all [OF small_db, of 4 "\<lambda>c. Inr (0, c)"] by (simp add: small_items)

text \<open>C19: \<open>MDB_SET_RANGE\<close> on a new cursor: when some key of the tree is not below the given one, the call returns the first such item, and
  the walk from there with \<open>MDB_NEXT\<close> sees exactly the items behind it; when all keys are below, the code is
  \<open>MDB_NOTFOUND\<close> and key and data are unchanged.\<close>

theorem range_scan:
  assumes "db_tree t dbi Cmp_memn psize short_key (<) h tr" and "short_key key" and "key \<noteq> []" and "length (tree_items t tr) < n"
  shows "case dropWhile (\<lambda>(a, v). a < key) (tree_items t tr) of
      [] \<Rightarrow> \<exists>c. mdb_cursor_get touch MDB_SET_RANGE (Some key, Some d) (t, cursor_on dbi) = Inr (MDB_NOTFOUND, (Some key, Some d), c)
    | (k, v) # xs \<Rightarrow> \<exists>c. mdb_cursor_get touch MDB_SET_RANGE (Some key, Some d) (t, cursor_on dbi) = Inr (0, (Some k, Some v), c) \<and>
        scan_loop n touch c = Inr (xs, MDB_NOTFOUND)"
proof -
  note nb = db_treeD(1) [OF assms(1)]
  let ?call = "mdb_cursor_set touch MDB_SET_RANGE False key (Some d) (t, cursor_on dbi)"
  have get: "mdb_cursor_get touch MDB_SET_RANGE (Some key, Some d) (t, cursor_on dbi) =
      bindE ?call (\<lambda>(rc, kd', t, mc). Inr (rc, kd', t, mc\<lparr>mc_flags := clear_flag (mc_flags mc) C_DEL\<rparr>))"
    using nb by (simp add: mdb_cursor_get_def Let_def)
  note r = memn.set_range_ok [OF assms(1-3), of touch d]
  show ?thesis
  proof (cases "dropWhile (\<lambda>(a, v). a < key) (tree_items t tr)")
    case Nil
    then show ?thesis using r get by (auto simp: Nil)
  next
    case (Cons x xs)
    obtain mc where m: "?call = Inr (0, map_prod Some Some x, t, mc)" "cursor_inv t h tr mc" "mc_dbi mc = dbi" "ahead t h mc 0 tr = x # xs"
      using r by (auto simp: Cons)
    have cd: "clear_flag (mc_flags mc) C_DEL = mc_flags mc" using m(2) by (intro clear_not_set) (simp add: cursor_inv_def)
    have g: "mdb_cursor_get touch MDB_SET_RANGE (Some key, Some d) (t, cursor_on dbi) = Inr (0, map_prod Some Some x, t, mc)"
      using get m(1) cd by simp
    have "length (x # xs) \<le> length (tree_items t tr)" unfolding Cons [symmetric] by (rule length_dropWhile_le)
    then have "scan_loop n touch (t, mc) = Inr (xs, MDB_NOTFOUND)" using scan_rest [OF assms(1) m(2-4)] assms(4) by simp
    then show ?thesis using g by (cases x) (auto simp: Cons)
  qed
qed

theorem range_scan_witness:
  "\<exists>c. mdb_cursor_get (\<lambda>c. Inr (0, c)) MDB_SET_RANGE (Some [5, 0, 4], Some []) (small_txn, cursor_on 0) = Inr (0, (Some [5, 1], Some [8, 8]), c) \<and>
     scan_loop 4 (\<lambda>c. Inr (0, c)) c = Inr ([([7, 7], [3])], MDB_NOTFOUND)"
  using range_scan [OF small_db, of "[5, 0, 4]" 4 "\<lambda>c. Inr (0, c)" "[]"] by (simp add: short_key_def small_items)

end
