(* ===== verification/Mdb_Cow.thy ===== *)
theory Mdb_Cow
  imports Mdb_Touch_Correct Mdb_Read
begin

text \<open>
  Copy-on-write of a path: \<open>mdb_cursor_touch\<close> moves the pages from the root to the top of a cursor to new page numbers and
  leaves the contents of the tree as they were. A tree of pages is stored (\<open>stored\<close>) under the numbers of its pages (\<open>numbers\<close>); its
  contents (\<open>content\<close>) do not mention them.
\<close>

subsection \<open>Where a page is\<close>

definition dirty_at :: "MDB_wtxn \<Rightarrow> size_t \<rightharpoonup> nat" where
  "dirty_at w = map_of (map (\<lambda>e. (mid e, mptr e)) (dirty_of w))"

lemma page_of_dirty:
  assumes dl: "mt_lists (w_txn w) = [(None, dl)]" "id2_asc dl" and fl: "\<not> has_flag (mt_flags (w_txn w)) (MDB_TXN_RDONLY OR MDB_TXN_WRITEMAP)"
  shows "page_of (w_txn w) g p \<longleftrightarrow> (case dirty_at w g of Some a \<Rightarrow> me_mem (w_txn w) a = p | None \<Rightarrow> g < mt_next_pgno (w_txn w) \<and> me_map (w_txn w) g = p)"
proof -
  have ok: "txn_lists_ok (w_txn w)" using dl by (simp add: txn_lists_ok_def)
  have "dirty_at w = map_of (map (\<lambda>e. (mid e, mptr e)) (id2_of dl))" by (simp add: dirty_at_def dirty_of_def dl(1))
  then show ?thesis using fl by (simp add: page_of_def page_get_ok [OF ok] dl(1) split: option.split)
qed

lemma page_of_iff:
  assumes "write_ready k w"
  shows "page_of (w_txn w) g p \<longleftrightarrow> (case dirty_at w g of Some a \<Rightarrow> me_mem (w_txn w) a = p | None \<Rightarrow> g < mt_next_pgno (w_txn w) \<and> me_map (w_txn w) g = p)"
  using assms page_of_dirty unfolding write_ready_def lists_ready_def by blast

lemma map_of_insort:
  "mid e \<notin> mid ` set xs \<Longrightarrow> map_of (map (\<lambda>e. (mid e, mptr e)) (insort_key mid e xs)) = (map_of (map (\<lambda>e. (mid e, mptr e)) xs))(mid e \<mapsto> mptr e)"
  by (induction xs) auto

lemma dirty_at_new: "dirty_at w pgno = None \<longleftrightarrow> pgno \<notin> mid ` set (dirty_of w)"
  by (force simp: dirty_at_def map_of_eq_None_iff)

lemma dirty_at_ids: "dirty_at w g = Some b \<Longrightarrow> g \<in> mid ` set (dirty_of w)"
  unfolding dirty_at_def by (drule map_of_SomeD) auto

lemma dirty_at_mem: "dirty_at w g = Some b \<Longrightarrow> b \<in> mptr ` set (dirty_of w)"
  unfolding dirty_at_def by (drule map_of_SomeD) auto

text \<open>No two numbers share a page in memory.\<close>

lemma dirty_at_inj:
  assumes "write_ready k w" and "dirty_at w g = Some b" and "dirty_at w g' = Some b"
  shows "g = g'"
proof -
  obtain e e' where e: "e \<in> set (dirty_of w)" "mid e = g" "mptr e = b" "e' \<in> set (dirty_of w)" "mid e' = g'" "mptr e' = b"
    using assms(2,3) unfolding dirty_at_def by (auto dest!: map_of_SomeD)
  have "inj_on mptr (set (dirty_of w))" using assms(1) by (simp add: write_ready_def distinct_map)
  then have "e = e'" using e by (auto dest: inj_onD)
  then show ?thesis using e by simp
qed

subsection \<open>Trees as they are stored\<close>

datatype ctree = CLf "node list" | CBr "u8 list list" "ctree list"

fun content :: "mtree \<Rightarrow> ctree" where
  "content (Lf p) = CLf (page_nodes p)"
| "content (Br p ts) = CBr (page_keys p) (map content ts)"

fun numbers :: "mtree \<Rightarrow> size_t list" where
  "numbers (Lf p) = [mp_pgno p]"
| "numbers (Br p ts) = mp_pgno p # concat (map numbers ts)"

fun stored :: "MDB_txn \<Rightarrow> nat \<Rightarrow> nat \<Rightarrow> mtree \<Rightarrow> bool" where
  "stored t ps 0 (Lf p) \<longleftrightarrow> page_of t (mp_pgno p) p \<and> page_wf ps p \<and> IS_LEAF p \<and> \<not> IS_LEAF2 p"
| "stored t ps (Suc h) (Br p ts) \<longleftrightarrow> page_of t (mp_pgno p) p \<and> page_wf ps p \<and> \<not> IS_LEAF p \<and> \<not> IS_LEAF2 p \<and> length ts = NUMKEYS p \<and>
     (\<forall>i<NUMKEYS p. NODEPGNO (hdr_at p i) = mp_pgno (root_page (ts ! i)) \<and> stored t ps h (ts ! i))"
| "stored t ps 0 (Br p ts) \<longleftrightarrow> False"
| "stored t ps (Suc h) (Lf p) \<longleftrightarrow> False"

fun set_root :: "MDB_page \<Rightarrow> mtree \<Rightarrow> mtree" where
  "set_root q (Lf p) = Lf q"
| "set_root q (Br p ts) = Br q ts"

text \<open>The cursor is on a path of the tree; the pages above level \<open>l\<close> are dirty and in memory, the others clean and in the map.\<close>

definition slot :: "MDB_wtxn \<Rightarrow> MDB_wcursor \<Rightarrow> nat \<Rightarrow> nat \<Rightarrow> MDB_page \<Rightarrow> bool" where
  "slot w mc j l p \<longleftrightarrow>
     (if j < l then \<exists>b. wc_pg mc ! j = Some (Mem b) \<and> dirty_at w (mp_pgno p) = Some b
      else wc_pg mc ! j = Some (Map (mp_pgno p)) \<and> dirty_at w (mp_pgno p) = None \<and> \<not> F_ISSET (mp_flags p) P_DIRTY)"

fun wc_on :: "MDB_wtxn \<Rightarrow> MDB_wcursor \<Rightarrow> nat \<Rightarrow> nat \<Rightarrow> nat \<Rightarrow> mtree \<Rightarrow> bool" where
  "wc_on w mc 0 j l (Lf p) \<longleftrightarrow> slot w mc j l p"
| "wc_on w mc (Suc h) j l (Br p ts) \<longleftrightarrow> slot w mc j l p \<and> wc_ki mc ! j < length ts \<and> wc_on w mc h (Suc j) l (ts ! (wc_ki mc ! j))"
| "wc_on w mc 0 j l (Br p ts) \<longleftrightarrow> False"
| "wc_on w mc (Suc h) j l (Lf p) \<longleftrightarrow> False"

lemma numbers_child: "i < length ts \<Longrightarrow> set (numbers (ts ! i)) \<subseteq> set (numbers (Br p ts))"
  by auto

lemma numbers_root: "mp_pgno (root_page tr) \<in> set (numbers tr)" "numbers tr = mp_pgno (root_page tr) # tl (numbers tr)"
  by (cases tr; simp)+

lemma numbers_distinct:
  assumes "distinct (numbers (Br p ts))" and "i < length ts"
  shows "mp_pgno p \<notin> set (numbers (ts ! i))" "distinct (numbers (ts ! i))" "k < length ts \<Longrightarrow> k \<noteq> i \<Longrightarrow> set (numbers (ts ! i)) \<inter> set (numbers (ts ! k)) = {}"
proof -
  let ?A = "concat (map numbers (take i ts))" and ?B = "concat (map numbers (drop (Suc i) ts))"
  have "concat (map numbers ts) = ?A @ numbers (ts ! i) @ ?B"
    using id_take_nth_drop [OF assms(2)] by (metis concat.simps(2) concat_append list.simps(9) map_append)
  then have d: "mp_pgno p \<notin> set (?A @ numbers (ts ! i) @ ?B)" "distinct (?A @ numbers (ts ! i) @ ?B)" using assms(1) by simp_all
  then show "mp_pgno p \<notin> set (numbers (ts ! i))" "distinct (numbers (ts ! i))" by simp_all
  assume k: "k < length ts" "k \<noteq> i"
  have "set (numbers (ts ! k)) \<subseteq> set ?A \<union> set ?B"
  proof (cases "k < i")
    case True
    then have "ts ! k \<in> set (take i ts)" using k(1) by (auto simp: in_set_conv_nth intro!: exI [of _ k])
    then show ?thesis by auto
  next
    case False
    then have "ts ! k \<in> set (drop (Suc i) ts)" using k by (auto simp: in_set_conv_nth intro!: exI [of _ "k - Suc i"])
    then show ?thesis by auto
  qed
  then show "set (numbers (ts ! i)) \<inter> set (numbers (ts ! k)) = {}" using d(2) unfolding distinct_append set_append by blast
qed

lemma fst_page_nodes: "page_wf ps p \<Longrightarrow> i < NUMKEYS p \<Longrightarrow> fst (page_nodes p ! i) = hdr_at p i"
  using length_page_offs [of ps p] by (simp add: page_nodes_def node_at_def hdr_at_def Let_def)

lemma length_page_nodes: "page_wf ps p \<Longrightarrow> length (page_nodes p) = NUMKEYS p"
  using length_page_offs [of ps p] by (simp add: page_nodes_def)

lemma same_nodes:
  assumes "page_wf ps p" and "page_wf ps q" and "page_nodes q = page_nodes p"
  shows "NUMKEYS q = NUMKEYS p" "page_keys q = page_keys p" "i < NUMKEYS p \<Longrightarrow> hdr_at q i = hdr_at p i"
  using length_page_nodes [OF assms(1)] length_page_nodes [OF assms(2)] fst_page_nodes [OF assms(1)] fst_page_nodes [OF assms(2)] assms(3)
  by (simp_all add: page_keys_def)

lemma relinked_nodes:
  assumes "page_wf ps p" and "page_wf ps q" and "page_nodes q = (page_nodes p)[i := redirect g (page_nodes p ! i)]" and "g < 2 ^ 48" and "i < NUMKEYS p"
  shows "NUMKEYS q = NUMKEYS p" "page_keys q = page_keys p" "k < NUMKEYS p \<Longrightarrow> NODEPGNO (hdr_at q k) = (if k = i then g else NODEPGNO (hdr_at p k))"
proof -
  show nk: "NUMKEYS q = NUMKEYS p" using length_page_nodes [OF assms(1)] length_page_nodes [OF assms(2)] assms(3) by simp
  have "(case redirect g x of (h, k, v) \<Rightarrow> k) = (case x of (h, k, v) \<Rightarrow> k)" for x by (simp add: redirect_def split: prod.split)
  then show "page_keys q = page_keys p" unfolding page_keys_def assms(3) map_update
    by (metis (no_types, lifting) length_page_nodes [OF assms(1)] assms(5) list_update_id nth_map)
  assume k: "k < NUMKEYS p"
  have "hdr_at q k = fst ((page_nodes p)[i := redirect g (page_nodes p ! i)] ! k)" using fst_page_nodes [OF assms(2), of k] k nk assms(3) by simp
  then have "hdr_at q k = (if k = i then SETPGNO g (hdr_at p i) else hdr_at p k)"
    using k assms(5) length_page_nodes [OF assms(1)] fst_page_nodes [OF assms(1)] by (simp add: redirect_def split_beta)
  then show "NODEPGNO (hdr_at q k) = (if k = i then g else NODEPGNO (hdr_at p k))" using NODEPGNO_SETPGNO [OF assms(4)] by simp
qed

subsection \<open>One page moves\<close>

text \<open>The number \<open>g\<close> is not that of the parent of the page at the top.\<close>

definition avoid :: "MDB_wcursor \<Rightarrow> MDB_wtxn \<Rightarrow> size_t \<Rightarrow> bool" where
  "avoid mc w g \<longleftrightarrow> g \<notin> set (free_ids w) \<and> (\<forall>b. 0 < wc_top mc \<and> wc_pg mc ! (wc_top mc - 1) = Some (Mem b) \<longrightarrow> dirty_at w g \<noteq> Some b)"

definition move_step :: "nat \<Rightarrow> nat \<Rightarrow> size_t \<Rightarrow> MDB_page \<Rightarrow> MDB_wcursor \<Rightarrow> MDB_wcursor \<Rightarrow> MDB_wtxn \<Rightarrow> MDB_wtxn \<Rightarrow> bool" where
  "move_step k a pgno p mc mc' w w' \<longleftrightarrow> write_ready (Suc k) w \<and> write_ready k w' \<and> a \<notin> mptr ` set (dirty_of w) \<and> moved a pgno p mc w w' \<and>
     mc' = mc\<lparr>wc_pg := (wc_pg mc)[wc_top mc := Some (Mem a)]\<rparr> \<and> wc_top mc < length (wc_pg mc)"

lemma step_dirty:
  assumes "move_step k a pgno p mc mc' w w'"
  shows "dirty_at w' = (dirty_at w)(pgno \<mapsto> a)"
proof -
  have "pgno \<notin> mid ` set (dirty_of w)" using assms by (auto simp: move_step_def moved_def write_ready_def)
  then show ?thesis using assms map_of_insort [of "\<lparr>mid = pgno, mptr = a\<rparr>" "dirty_of w"] by (simp add: move_step_def moved_def dirty_at_def)
qed

lemma step_mem:
  assumes "move_step k a pgno p mc mc' w w'" and "avoid mc w g" and "dirty_at w g = Some b"
  shows "me_mem (w_txn w') b = me_mem (w_txn w) b" "b \<noteq> a" "g \<noteq> pgno"
proof -
  show g: "g \<noteq> pgno" and "b \<noteq> a" using assms dirty_at_mem [OF assms(3)] by (auto simp: move_step_def moved_def avoid_def)
  then show "me_mem (w_txn w') b = me_mem (w_txn w) b" using assms by (auto simp: move_step_def moved_def relinked_def avoid_def split: if_splits)
qed

lemma step_keeps_page:
  assumes st: "move_step k a pgno p mc mc' w w'" and av: "avoid mc w g"
  shows "page_of (w_txn w) g x \<Longrightarrow> page_of (w_txn w') g x"
proof -
  have r: "write_ready (Suc k) w" "write_ready k w'" and m: "me_map (w_txn w') = me_map (w_txn w)" "mt_next_pgno (w_txn w') = mt_next_pgno (w_txn w)"
    using st by (simp_all add: move_step_def moved_def)
  have "g \<noteq> pgno" using st av by (auto simp: move_step_def moved_def avoid_def)
  then show "page_of (w_txn w) g x \<Longrightarrow> page_of (w_txn w') g x"
    unfolding page_of_iff [OF r(1)] page_of_iff [OF r(2)] using m step_dirty [OF st] step_mem [OF st av] by (auto split: option.splits)
qed

lemma step_keeps_slot:
  assumes st: "move_step k a pgno p mc mc' w w'" and av: "avoid mc w (mp_pgno x)" and j: "j \<noteq> wc_top mc"
  shows "slot w mc j (wc_top mc) x \<Longrightarrow> slot w' mc' j (Suc (wc_top mc)) x"
proof -
  have "mp_pgno x \<noteq> pgno" using st av by (auto simp: move_step_def moved_def avoid_def)
  then show "slot w mc j (wc_top mc) x \<Longrightarrow> slot w' mc' j (Suc (wc_top mc)) x"
    using st j step_dirty [OF st] by (auto simp: slot_def move_step_def split: if_splits)
qed

lemma step_keeps_tree:
  assumes st: "move_step k a pgno p mc mc' w w'"
  shows "stored (w_txn w) ps h tr \<Longrightarrow> (\<And>g. g \<in> set (numbers tr) \<Longrightarrow> avoid mc w g) \<Longrightarrow> stored (w_txn w') ps h tr"
proof (induction h arbitrary: tr)
  case 0
  then show ?case using step_keeps_page [OF st] by (cases tr) simp_all
next
  case (Suc h)
  show ?case
  proof (cases tr)
    case (Br r ts)
    have "stored (w_txn w') ps h (ts ! i)" if i: "i < length ts" for i
    proof (rule Suc.IH)
      show "stored (w_txn w) ps h (ts ! i)" using Suc.prems(1) i by (simp add: Br)
      show "avoid mc w g" if "g \<in> set (numbers (ts ! i))" for g using Suc.prems(2) that numbers_child [OF i, of r] unfolding Br by blast
    qed
    then show ?thesis using Suc.prems step_keeps_page [OF st] by (simp add: Br)
  qed (use Suc.prems in simp)
qed

lemma step_keeps_path:
  assumes st: "move_step k a pgno p mc mc' w w'"
  shows "wc_on w mc h j (wc_top mc) tr \<Longrightarrow> wc_top mc < j \<Longrightarrow> (\<And>g. g \<in> set (numbers tr) \<Longrightarrow> avoid mc w g) \<Longrightarrow> wc_on w' mc' h j (Suc (wc_top mc)) tr"
proof (induction h arbitrary: tr j)
  case 0
  then show ?case using step_keeps_slot [OF st] by (cases tr) simp_all
next
  case (Suc h)
  have ki: "wc_ki mc' = wc_ki mc" using st by (simp add: move_step_def)
  show ?case
  proof (cases tr)
    case (Br r ts)
    let ?i = "wc_ki mc ! j"
    have i: "?i < length ts" using Suc.prems by (simp add: Br)
    have "wc_on w' mc' h (Suc j) (Suc (wc_top mc)) (ts ! ?i)"
    proof (rule Suc.IH)
      show "wc_on w mc h (Suc j) (wc_top mc) (ts ! ?i)" "wc_top mc < Suc j" using Suc.prems(1,2) by (simp_all add: Br)
      show "avoid mc w g" if "g \<in> set (numbers (ts ! ?i))" for g using Suc.prems(3) that numbers_child [OF i, of r] unfolding Br by blast
    qed
    then show ?thesis using Suc.prems step_keeps_slot [OF st, of r j] i ki by (simp add: Br)
  qed (use Suc.prems in simp)
qed

subsection \<open>The path to it\<close>

lemma path_parent:
  "wc_on w mc h j l tr \<Longrightarrow> j < l \<Longrightarrow> l \<le> j + h \<Longrightarrow> \<exists>g b. g \<in> set (numbers tr) \<and> wc_pg mc ! (l - 1) = Some (Mem b) \<and> dirty_at w g = Some b \<and> (l = Suc j \<longrightarrow> g = mp_pgno (root_page tr))"
proof (induction h arbitrary: j tr)
  case (Suc h)
  then obtain r ts where tr: "tr = Br r ts" by (cases tr) auto
  let ?i = "wc_ki mc ! j"
  have i: "?i < length ts" "slot w mc j l r" "wc_on w mc h (Suc j) l (ts ! ?i)" using Suc.prems(1) by (simp_all add: tr)
  show ?case
  proof (cases "l = Suc j")
    case True
    then show ?thesis using i(2) by (auto simp: tr slot_def)
  next
    case False
    then obtain g b where "g \<in> set (numbers (ts ! ?i))" "wc_pg mc ! (l - 1) = Some (Mem b)" "dirty_at w g = Some b" using Suc.IH [OF i(3)] Suc.prems(2,3) by auto
    then show ?thesis using False numbers_child [OF i(1), of r] unfolding tr by blast
  qed
qed simp

lemma path_top:
  "wc_on w mc h j l tr \<Longrightarrow> j \<le> l \<Longrightarrow> l \<le> j + h \<Longrightarrow> wc_pg mc ! l = Some (Map g) \<Longrightarrow> g \<in> set (numbers tr)"
proof (induction h arbitrary: j tr)
  case 0
  then show ?case by (cases tr) (auto simp: slot_def)
next
  case (Suc h)
  then obtain r ts where tr: "tr = Br r ts" by (cases tr) auto
  let ?i = "wc_ki mc ! j"
  have i: "?i < length ts" "slot w mc j l r" "wc_on w mc h (Suc j) l (ts ! ?i)" using Suc.prems(1) by (simp_all add: tr)
  show ?case
  proof (cases "l = j")
    case True
    then show ?thesis using i(2) Suc.prems(4) by (simp add: tr slot_def)
  next
    case False
    then have "g \<in> set (numbers (ts ! ?i))" using Suc.IH [OF i(3)] Suc.prems(2-4) by simp
    then show ?thesis using numbers_child [OF i(1), of r] unfolding tr by blast
  qed
qed

lemma renumber_same: "old \<notin> set xs \<Longrightarrow> map (\<lambda>g. if g = old then new else g) xs = xs"
  by (rule map_idI) auto

lemma top_root:
  assumes r: "write_ready k w" and pm: "me_map (w_txn w) (mp_pgno p) = p" and pg: "wc_pg mc ! l = Some (Map (mp_pgno p))" and tr: "stored (w_txn w) ps h tr" "wc_on w mc h l l tr"
  shows "root_page tr = p" "page_wf ps p" "\<not> IS_LEAF2 p" "\<not> F_ISSET (mp_flags p) P_DIRTY"
proof -
  have sl: "slot w mc l l (root_page tr)" using tr(2) by (cases h; cases tr) simp_all
  then have n: "mp_pgno (root_page tr) = mp_pgno p" "dirty_at w (mp_pgno p) = None" using pg by (auto simp: slot_def)
  have s: "page_of (w_txn w) (mp_pgno (root_page tr)) (root_page tr)" "page_wf ps (root_page tr)" "\<not> IS_LEAF2 (root_page tr)" using tr(1) by (cases h; cases tr; simp)+
  then have "me_map (w_txn w) (mp_pgno p) = root_page tr" using n unfolding page_of_iff [OF r] by simp
  then show root: "root_page tr = p" using pm by simp
  then show "page_wf ps p" "\<not> IS_LEAF2 p" "\<not> F_ISSET (mp_flags p) P_DIRTY" using s sl by (simp_all add: slot_def)
qed

text \<open>The subtree whose root moves.\<close>

lemma step_root:
  assumes st: "move_step k a pgno p mc mc' w w'" and pm: "me_map (w_txn w) (mp_pgno p) = p" and pg: "wc_pg mc ! wc_top mc = Some (Map (mp_pgno p))"
    and tr: "stored (w_txn w) (me_psize (w_env w)) h tr" "wc_on w mc h (wc_top mc) (wc_top mc) tr" "distinct (numbers tr)" and av: "\<And>g. g \<in> set (numbers tr) \<Longrightarrow> avoid mc w g"
  defines "tr' \<equiv> set_root (me_mem (w_txn w') a) tr"
  shows "stored (w_txn w') (me_psize (w_env w)) h tr'" "content tr' = content tr" "numbers tr' = map (\<lambda>g. if g = mp_pgno p then pgno else g) (numbers tr)"
    "wc_on w' mc' h (wc_top mc) (Suc (wc_top mc)) tr'" "mp_pgno (root_page tr') = pgno"
proof -
  let ?q = "me_mem (w_txn w') a" and ?ps = "me_psize (w_env w)"
  have r: "write_ready (Suc k) w" "write_ready k w'" using st by (simp_all add: move_step_def)
  have q: "page_wf ?ps ?q" "page_nodes ?q = page_nodes p" "mp_pgno ?q = pgno" "mp_flags ?q = mp_flags p OR P_DIRTY" using st by (simp_all add: move_step_def moved_def Let_def)
  note root = top_root(1) [OF r(1) pm pg tr(1,2)] and wf = top_root(2,3) [OF r(1) pm pg tr(1,2)]
  have fl: "IS_LEAF ?q = IS_LEAF p" "\<not> IS_LEAF2 ?q" using wf(2) q(4) by (simp_all add: IS_LEAF_def IS_LEAF2_def F_ISSET_def P_LEAF_def P_LEAF2_def P_DIRTY_def bit.conj_disj_distrib2)
  note sn = same_nodes [OF wf(1) q(1,2)]
  have po: "page_of (w_txn w') pgno ?q" unfolding page_of_iff [OF r(2)] by (simp add: step_dirty [OF st])
  have sl: "slot w' mc' (wc_top mc) (Suc (wc_top mc)) ?q" using st q(3) by (simp add: slot_def move_step_def step_dirty [OF st])
  have ki: "wc_ki mc' = wc_ki mc" using st by (simp add: move_step_def)
  show "mp_pgno (root_page tr') = pgno" unfolding tr'_def using q(3) by (cases tr) simp_all
  show "content tr' = content tr" unfolding tr'_def using root q(2) sn(2) by (cases tr) simp_all
  show "numbers tr' = map (\<lambda>g. if g = mp_pgno p then pgno else g) (numbers tr)"
    unfolding tr'_def using root q(3) tr(3) by (cases tr) (simp_all add: renumber_same)
  have "stored (w_txn w') ?ps h tr' \<and> wc_on w' mc' h (wc_top mc) (Suc (wc_top mc)) tr'"
  proof (cases tr)
    case (Lf x)
    then have "h = 0" "x = p" using tr(1) root by (cases h; simp)+
    then show ?thesis using Lf tr(1) q fl po sl unfolding tr'_def by simp
  next
    case (Br x ts)
    then obtain h' where h: "h = Suc h'" "x = p" using tr(1) root by (cases h) auto
    have ch: "stored (w_txn w') ?ps h' (ts ! i)" if i: "i < length ts" for i
    proof (rule step_keeps_tree [OF st])
      show "stored (w_txn w) ?ps h' (ts ! i)" using tr(1) i by (simp add: Br h)
      show "avoid mc w g" if "g \<in> set (numbers (ts ! i))" for g using av that numbers_child [OF i, of x] unfolding Br by blast
    qed
    then have st': "stored (w_txn w') ?ps h tr'" using tr(1) q(1,3) fl po sn(1,3) unfolding tr'_def by (simp add: Br h)
    let ?i = "wc_ki mc ! wc_top mc"
    have i: "?i < length ts" using tr(2) by (simp add: Br h)
    have "wc_on w' mc' h' (Suc (wc_top mc)) (Suc (wc_top mc)) (ts ! ?i)"
    proof (rule step_keeps_path [OF st])
      show "wc_on w mc h' (Suc (wc_top mc)) (wc_top mc) (ts ! ?i)" "wc_top mc < Suc (wc_top mc)" using tr(2) by (simp_all add: Br h)
      show "avoid mc w g" if "g \<in> set (numbers (ts ! ?i))" for g using av that numbers_child [OF i, of x] unfolding Br by blast
    qed
    then show ?thesis using st' sl i ki unfolding tr'_def by (simp add: Br h)
  qed
  then show "stored (w_txn w') ?ps h tr'" "wc_on w' mc' h (wc_top mc) (Suc (wc_top mc)) tr'" by simp_all
qed

text \<open>A page above it: the parent is changed, the others are not.\<close>

lemma step_above_page:
  assumes st: "move_step k a pgno p mc mc' w w'" and on: "slot w mc j (wc_top mc) r" "j < wc_top mc" and pw: "page_of (w_txn w) (mp_pgno r) r" "page_wf (me_psize (w_env w)) r"
    and i: "wc_ki mc ! j < NUMKEYS r" and ch: "NODEPGNO (hdr_at r (wc_ki mc ! j)) = c" and av: "Suc j < wc_top mc \<Longrightarrow> avoid mc w (mp_pgno r)"
  obtains r' where "page_of (w_txn w') (mp_pgno r) r'" "page_wf (me_psize (w_env w)) r'" "mp_pgno r' = mp_pgno r" "mp_flags r' = mp_flags r" "NUMKEYS r' = NUMKEYS r" "page_keys r' = page_keys r"
    "\<And>k. k < NUMKEYS r \<Longrightarrow> NODEPGNO (hdr_at r' k) = (if k = wc_ki mc ! j then if Suc j = wc_top mc then pgno else c else NODEPGNO (hdr_at r k))"
proof (cases "Suc j = wc_top mc")
  case False
  then have "page_of (w_txn w') (mp_pgno r) r" using step_keeps_page [OF st av pw(1)] on(2) by simp
  then show thesis by (rule that) (use pw(2) False ch in simp_all)
next
  case True
  have r: "write_ready (Suc k) w" "write_ready k w'" using st by (simp_all add: move_step_def)
  obtain b where b: "wc_pg mc ! j = Some (Mem b)" "dirty_at w (mp_pgno r) = Some b" using on by (auto simp: slot_def)
  have mb: "me_mem (w_txn w) b = r" using pw(1) b(2) unfolding page_of_iff [OF r(1)] by simp
  have free: "pgno \<in> set (free_ids w)" using st by (simp add: move_step_def moved_def)
  then have "pgno < 2 ^ 48" "dirty_at w pgno = None" using r(1) by (auto simp: write_ready_def dirty_at_new)
  then have pn: "pgno < 2 ^ 48" "mp_pgno r \<noteq> pgno" using b(2) by auto
  have jl: "wc_top mc - 1 = j" "wc_top mc \<noteq> 0" using True by simp_all
  have rl: "page_wf (me_psize (w_env w)) (me_mem (w_txn w') b)" "mp_flags (me_mem (w_txn w') b) = mp_flags r" "mp_pgno (me_mem (w_txn w') b) = mp_pgno r"
    "page_nodes (me_mem (w_txn w') b) = (page_nodes r)[wc_ki mc ! j := redirect pgno (page_nodes r ! (wc_ki mc ! j))]"
    using st b(1) jl mb by (auto simp: move_step_def moved_def relinked_def)
  have "page_of (w_txn w') (mp_pgno r) (me_mem (w_txn w') b)" unfolding page_of_iff [OF r(2)] using b(2) pn(2) by (simp add: step_dirty [OF st])
  then show thesis
    by (rule that) (use rl True relinked_nodes [OF pw(2) rl(1,4) pn(1) i] in simp_all)
qed

text \<open>The tree with the path to the page that moves.\<close>

lemma renumber_concat:
  assumes i: "i < length ts" and here: "numbers s' = map f (numbers (ts ! i))" and other: "\<And>k. k < length ts \<Longrightarrow> k \<noteq> i \<Longrightarrow> map f (numbers (ts ! k)) = numbers (ts ! k)"
  shows "concat (map numbers (ts[i := s'])) = map f (concat (map numbers ts))"
proof -
  have "map numbers (ts[i := s']) = map (map f) (map numbers ts)"
  proof (rule nth_equalityI)
    fix k assume "k < length (map numbers (ts[i := s']))"
    then show "map numbers (ts[i := s']) ! k = map (map f) (map numbers ts) ! k" using here other [of k] by (cases "k = i") simp_all
  qed simp
  then show ?thesis by (simp add: map_concat)
qed

lemma path_avoid:
  assumes r: "write_ready k w" and on: "wc_on w mc (Suc h) j (wc_top mc) (Br r ts)" "j < wc_top mc" "wc_top mc \<le> j + Suc h"
    and g: "g \<notin> set (free_ids w)" "Suc j = wc_top mc \<Longrightarrow> g \<noteq> mp_pgno r" "Suc j \<noteq> wc_top mc \<Longrightarrow> g \<notin> set (numbers (ts ! (wc_ki mc ! j)))"
  shows "avoid mc w g"
proof -
  obtain g' b where b: "wc_pg mc ! (wc_top mc - 1) = Some (Mem b)" "dirty_at w g' = Some b" "g \<noteq> g'"
  proof (cases "Suc j = wc_top mc")
    case True
    then show thesis using path_parent [OF on] that g(2) by fastforce
  next
    case False
    have "wc_on w mc h (Suc j) (wc_top mc) (ts ! (wc_ki mc ! j))" using on(1) by simp
    then show thesis using path_parent [of w mc h "Suc j"] on(2,3) that g(3) False by fastforce
  qed
  then show ?thesis using g(1) dirty_at_inj [OF r] by (auto simp: avoid_def)
qed

lemma step_above:
  assumes st: "move_step k a pgno p mc mc' w w'" and old: "mp_pgno p \<in> set (numbers (ts ! i))" and i: "i = wc_ki mc ! j" and jl: "j < wc_top mc" "wc_top mc \<le> j + Suc h"
    and tr: "stored (w_txn w) (me_psize (w_env w)) (Suc h) (Br r ts)" "wc_on w mc (Suc h) j (wc_top mc) (Br r ts)" "distinct (numbers (Br r ts))" "set (numbers (Br r ts)) \<inter> set (free_ids w) = {}"
    and s': "stored (w_txn w') (me_psize (w_env w)) h s'" "content s' = content (ts ! i)" "numbers s' = map (\<lambda>g. if g = mp_pgno p then pgno else g) (numbers (ts ! i))"
      "wc_on w' mc' h (Suc j) (Suc (wc_top mc)) s'" "mp_pgno (root_page s') = (if Suc j = wc_top mc then pgno else mp_pgno (root_page (ts ! i)))"
  shows "\<exists>t'. stored (w_txn w') (me_psize (w_env w)) (Suc h) t' \<and> content t' = content (Br r ts) \<and> numbers t' = map (\<lambda>g. if g = mp_pgno p then pgno else g) (numbers (Br r ts)) \<and>
     wc_on w' mc' (Suc h) j (Suc (wc_top mc)) t' \<and> mp_pgno (root_page t') = mp_pgno r"
proof -
  let ?l = "wc_top mc" and ?ps = "me_psize (w_env w)" and ?f = "\<lambda>g. if g = mp_pgno p then pgno else g"
  have rd: "write_ready (Suc k) w" using st by (simp add: move_step_def)
  have on: "slot w mc j ?l r" "i < length ts" using tr(2) by (simp_all add: i)
  have sr: "page_of (w_txn w) (mp_pgno r) r" "page_wf ?ps r" "\<not> IS_LEAF r" "\<not> IS_LEAF2 r" "length ts = NUMKEYS r"
    "\<And>k. k < NUMKEYS r \<Longrightarrow> NODEPGNO (hdr_at r k) = mp_pgno (root_page (ts ! k)) \<and> stored (w_txn w) ?ps h (ts ! k)" using tr(1) by simp_all
  note nd = numbers_distinct [OF tr(3) on(2)]
  have av: "avoid mc w g" if g: "g \<in> set (numbers (Br r ts))" "Suc j = ?l \<Longrightarrow> g \<noteq> mp_pgno r" "Suc j \<noteq> ?l \<Longrightarrow> g \<notin> set (numbers (ts ! i))" for g
    using path_avoid [OF rd tr(2) jl _ g(2) g(3) [unfolded i]] g(1) tr(4) by blast
  have avr: "avoid mc w (mp_pgno r)" if "Suc j < ?l" using av [of "mp_pgno r"] nd(1) that by simp
  have ir: "wc_ki mc ! j < NUMKEYS r" "NODEPGNO (hdr_at r (wc_ki mc ! j)) = mp_pgno (root_page (ts ! i))" using on(2) sr(5,6) by (simp_all add: i)
  obtain r' where r': "page_of (w_txn w') (mp_pgno r) r'" "page_wf ?ps r'" "mp_pgno r' = mp_pgno r" "mp_flags r' = mp_flags r" "NUMKEYS r' = NUMKEYS r" "page_keys r' = page_keys r"
    "\<And>k. k < NUMKEYS r \<Longrightarrow> NODEPGNO (hdr_at r' k) = (if k = i then mp_pgno (root_page s') else NODEPGNO (hdr_at r k))"
    by (rule step_above_page [OF st on(1) jl(1) sr(1,2) ir avr]) (use s'(5) in \<open>simp_all add: i\<close>)
  let ?t = "Br r' (ts[i := s'])"
  have other: "stored (w_txn w') ?ps h (ts ! k)" "map ?f (numbers (ts ! k)) = numbers (ts ! k)" if k: "k < length ts" "k \<noteq> i" for k
  proof -
    have dis: "set (numbers (ts ! i)) \<inter> set (numbers (ts ! k)) = {}" using nd(3) k by simp
    then show "map ?f (numbers (ts ! k)) = numbers (ts ! k)" using old by (intro renumber_same) blast
    have "avoid mc w g" if "g \<in> set (numbers (ts ! k))" for g
      using av [of g] that numbers_child [OF k(1), of r] dis numbers_distinct(1) [OF tr(3) k(1)] by blast
    then show "stored (w_txn w') ?ps h (ts ! k)" using step_keeps_tree [OF st] sr(5,6) k(1) by simp
  qed
  have "stored (w_txn w') ?ps (Suc h) ?t"
    using r' s'(1) sr(3-6) on(2) other(1) by (auto simp: nth_list_update IS_LEAF_def IS_LEAF2_def)
  moreover have "content ?t = content (Br r ts)" using s'(2) r'(6) on(2) by (simp add: map_update list_update_same_conv)
  moreover have "numbers ?t = map ?f (numbers (Br r ts))" using renumber_concat [OF on(2) s'(3) other(2)] r'(3) nd(1) old by auto
  moreover have "wc_on w' mc' (Suc h) j (Suc ?l) ?t"
  proof -
    have "slot w' mc' j (Suc ?l) r'" using on(1) jl r'(3) st step_dirty [OF st] rd by (auto simp: slot_def move_step_def moved_def write_ready_def dest!: dirty_at_ids)
    then show ?thesis using s'(4) on(2) st by (simp add: i move_step_def)
  qed
  ultimately show ?thesis using r'(3) by (intro exI [of _ ?t]) simp
qed

lemma step_path:
  assumes st: "move_step k a pgno p mc mc' w w'" and pm: "me_map (w_txn w) (mp_pgno p) = p" and pg: "wc_pg mc ! wc_top mc = Some (Map (mp_pgno p))"
  shows "stored (w_txn w) (me_psize (w_env w)) h tr \<Longrightarrow> wc_on w mc h j (wc_top mc) tr \<Longrightarrow> distinct (numbers tr) \<Longrightarrow> set (numbers tr) \<inter> set (free_ids w) = {} \<Longrightarrow>
     j \<le> wc_top mc \<Longrightarrow> wc_top mc \<le> j + h \<Longrightarrow> (j = wc_top mc \<longrightarrow> (\<forall>g\<in>set (numbers tr). avoid mc w g)) \<Longrightarrow>
     \<exists>tr'. stored (w_txn w') (me_psize (w_env w)) h tr' \<and> content tr' = content tr \<and> numbers tr' = map (\<lambda>g. if g = mp_pgno p then pgno else g) (numbers tr) \<and>
       wc_on w' mc' h j (Suc (wc_top mc)) tr' \<and> mp_pgno (root_page tr') = (if j = wc_top mc then pgno else mp_pgno (root_page tr))"
proof (induction h arbitrary: j tr)
  case 0
  then have "j = wc_top mc" by simp
  then show ?case using step_root [OF st pm pg, of 0 tr] 0 by (intro exI [of _ "set_root (me_mem (w_txn w') a) tr"]) simp
next
  case (Suc h)
  let ?l = "wc_top mc" and ?ps = "me_psize (w_env w)" and ?f = "\<lambda>g. if g = mp_pgno p then pgno else g"
  show ?case
  proof (cases "j = ?l")
    case True
    then show ?thesis using step_root [OF st pm pg, of "Suc h" tr] Suc.prems by (intro exI [of _ "set_root (me_mem (w_txn w') a) tr"]) simp
  next
    case False
    then have jl: "j < ?l" using Suc.prems(5) by simp
    obtain r ts where tr: "tr = Br r ts" using Suc.prems(1) by (cases tr) auto
    define i where "i = wc_ki mc ! j"
    have on: "i < length ts" "wc_on w mc h (Suc j) ?l (ts ! i)" and sr: "stored (w_txn w) ?ps h (ts ! i)" using Suc.prems(1,2) by (simp_all add: tr i_def)
    note nd = numbers_distinct [OF Suc.prems(3) [unfolded tr] on(1)]
    have sub: "set (numbers (ts ! i)) \<subseteq> set (numbers tr)" using numbers_child [OF on(1), of r] by (simp add: tr)
    have rd: "write_ready (Suc k) w" using st by (simp add: move_step_def)
    have "\<exists>s'. stored (w_txn w') ?ps h s' \<and> content s' = content (ts ! i) \<and> numbers s' = map ?f (numbers (ts ! i)) \<and> wc_on w' mc' h (Suc j) (Suc ?l) s' \<and>
        mp_pgno (root_page s') = (if Suc j = ?l then pgno else mp_pgno (root_page (ts ! i)))"
    proof (rule Suc.IH [OF sr on(2) nd(2)])
      show "set (numbers (ts ! i)) \<inter> set (free_ids w) = {}" "Suc j \<le> ?l" "?l \<le> Suc j + h" using Suc.prems(4,6) sub jl by auto
      show "Suc j = ?l \<longrightarrow> (\<forall>g\<in>set (numbers (ts ! i)). avoid mc w g)"
        using path_avoid [OF rd Suc.prems(2) [unfolded tr] jl Suc.prems(6)] sub nd(1) Suc.prems(4) by blast
    qed
    then obtain s' where s': "stored (w_txn w') ?ps h s'" "content s' = content (ts ! i)" "numbers s' = map ?f (numbers (ts ! i))" "wc_on w' mc' h (Suc j) (Suc ?l) s'"
      "mp_pgno (root_page s') = (if Suc j = ?l then pgno else mp_pgno (root_page (ts ! i)))" by blast
    have "mp_pgno p \<in> set (numbers (ts ! i))" using path_top [OF on(2) _ _ pg] jl Suc.prems(6) by simp
    then show ?thesis using step_above [OF st _ i_def jl Suc.prems(6) Suc.prems(1-4) [unfolded tr] s'] False by (simp add: tr)
  qed
qed

subsection \<open>The loop of \<open>mdb_cursor_touch\<close>\<close>

lemma path_page:
  "wc_on w mc h j l tr \<Longrightarrow> stored (w_txn w) ps h tr \<Longrightarrow> j \<le> l \<Longrightarrow> l \<le> j + h \<Longrightarrow> write_ready k w \<Longrightarrow>
     \<exists>p. wc_pg mc ! l = Some (Map (mp_pgno p)) \<and> me_map (w_txn w) (mp_pgno p) = p \<and> page_wf ps p \<and> \<not> IS_LEAF2 p \<and> \<not> F_ISSET (mp_flags p) P_DIRTY"
proof (induction h arbitrary: j tr)
  case 0
  then show ?case by (cases tr) (auto simp: slot_def page_of_iff intro!: exI [of _ "root_page tr"])
next
  case (Suc h)
  then obtain r ts where tr: "tr = Br r ts" by (cases tr) auto
  show ?case
  proof (cases "j = l")
    case True
    then show ?thesis using Suc.prems by (auto simp: tr slot_def page_of_iff intro!: exI [of _ r])
  next
    case False
    then show ?thesis using Suc.IH [of "Suc j" "ts ! (wc_ki mc ! j)"] Suc.prems by (simp add: tr)
  qed
qed

lemma path_parent_page:
  "wc_on w mc h j l tr \<Longrightarrow> stored (w_txn w) ps h tr \<Longrightarrow> j < l \<Longrightarrow> l \<le> j + h \<Longrightarrow> write_ready k w \<Longrightarrow>
     \<exists>b. wc_pg mc ! (l - 1) = Some (Mem b) \<and> b \<in> mptr ` set (dirty_of w) \<and> page_wf ps (me_mem (w_txn w) b) \<and> \<not> IS_LEAF (me_mem (w_txn w) b) \<and> wc_ki mc ! (l - 1) < NUMKEYS (me_mem (w_txn w) b)"
proof (induction h arbitrary: j tr)
  case (Suc h)
  then obtain r ts where tr: "tr = Br r ts" by (cases tr) auto
  show ?case
  proof (cases "l = Suc j")
    case True
    then show ?thesis using Suc.prems by (auto simp: tr slot_def page_of_iff intro: dirty_at_mem)
  next
    case False
    then show ?thesis using Suc.IH [of "Suc j" "ts ! (wc_ki mc ! j)"] Suc.prems by (simp add: tr)
  qed
qed simp

lemma wc_on_cong: "wc_pg mc' = wc_pg mc \<Longrightarrow> wc_ki mc' = wc_ki mc \<Longrightarrow> wc_on w mc' h j l tr = wc_on w mc h j l tr"
proof (induction h arbitrary: j tr)
  case 0
  then show ?case by (cases tr) (simp_all add: slot_def)
next
  case (Suc h)
  then show ?case by (cases tr) (simp_all add: slot_def)
qed

text \<open>The cursor is on a path of the tree of its database; \<open>k\<close> pages of it, from the top of the cursor on, are still to be moved.\<close>

definition touch_inv :: "nat \<Rightarrow> nat \<Rightarrow> MDB_wtxn \<Rightarrow> MDB_wcursor \<Rightarrow> mtree \<Rightarrow> bool" where
  "touch_inv h k w mc tr \<longleftrightarrow> write_ready k w \<and> stored (w_txn w) (me_psize (w_env w)) h tr \<and> distinct (numbers tr) \<and> set (numbers tr) \<inter> set (free_ids w) = {} \<and>
     wc_on w mc h 0 (wc_top mc) tr \<and> wc_top mc + k = Suc h \<and> h < length (wc_pg mc) \<and> h < length (wc_ki mc) \<and> wc_dbi mc < length (mt_dbs (w_txn w)) \<and>
     md_root (mt_dbs (w_txn w) ! wc_dbi mc) = mp_pgno (root_page tr)"

definition map_no :: "pptr option \<Rightarrow> size_t" where
  "map_no x = (case x of Some (Map g) \<Rightarrow> g | _ \<Rightarrow> 0)"

lemma touch_inv_step:
  assumes inv: "touch_inv h (Suc k) w mc tr" and f: "fresh m a w" and mf: "mem_ok mf"
  obtains w' pgs cs' tr' where "mdb_page_touch (Suc n) mm mf m w mc cs = Inr (0, w', mc\<lparr>wc_pg := pgs\<rparr>, cs')" "touch_inv h k w' (mc\<lparr>wc_pg := pgs, wc_top := wc_top mc + 1\<rparr>) tr'"
    "content tr' = content tr" "me_map (w_txn w') = me_map (w_txn w)" "mptr ` set (dirty_of w') = insert a (mptr ` set (dirty_of w))" "me_psize (w_env w') = me_psize (w_env w)"
    "idl_ids (mt_free_pgs w') = idl_ids (mt_free_pgs w) @ [map_no (wc_pg mc ! wc_top mc)]" "drop (Suc (wc_top mc)) pgs = drop (Suc (wc_top mc)) (wc_pg mc)"
proof -
  let ?l = "wc_top mc" and ?ps = "me_psize (w_env w)"
  have i: "write_ready (Suc k) w" "stored (w_txn w) ?ps h tr" "distinct (numbers tr)" "set (numbers tr) \<inter> set (free_ids w) = {}" "wc_on w mc h 0 ?l tr" "?l \<le> 0 + h" "?l + Suc k = Suc h"
    "h < length (wc_pg mc)" "h < length (wc_ki mc)" "wc_dbi mc < length (mt_dbs (w_txn w))" "md_root (mt_dbs (w_txn w) ! wc_dbi mc) = mp_pgno (root_page tr)"
    using inv by (simp_all add: touch_inv_def)
  obtain p where p: "wc_pg mc ! ?l = Some (Map (mp_pgno p))" "me_map (w_txn w) (mp_pgno p) = p" "page_wf ?ps p" "\<not> IS_LEAF2 p" "\<not> F_ISSET (mp_flags p) P_DIRTY"
    using path_page [OF i(5,2) le0 i(6,1)] by blast
  have free: "mp_pgno p \<notin> set (free_ids w)" using path_top [OF i(5) le0 i(6) p(1)] i(4) by blast
  have top: "wtop mc = Inr (Map (mp_pgno p))" using p(1) i(6,8) by (simp add: wtop_def)
  have par: "parent_ready a w mc"
  proof (cases "?l = 0")
    case True
    then show ?thesis using i(10) by (simp add: parent_ready_def)
  next
    case False
    then show ?thesis using path_parent_page [OF i(5,2) _ i(6,1)] i(6,8,9) f by (auto simp: parent_ready_def fresh_def)
  qed
  obtain pgno w' cs' where t: "mdb_page_touch (Suc n) mm mf m w mc cs = Inr (0, w', mc\<lparr>wc_pg := (wc_pg mc)[?l := Some (Mem a)]\<rparr>, cs')" "moved a pgno p mc w w'" "write_ready k w'"
    by (rule touch_ok [OF top p(2) [symmetric] p(5,3,4) free i(1) f par mf]) (rule that)
  let ?mc = "mc\<lparr>wc_pg := (wc_pg mc)[?l := Some (Mem a)]\<rparr>"
  have st: "move_step k a pgno p mc ?mc w w'" using i(1,6,8) t(2,3) f by (simp add: move_step_def fresh_def)
  have av: "0 = ?l \<longrightarrow> (\<forall>g\<in>set (numbers tr). avoid mc w g)" using i(4) by (auto simp: avoid_def)
  obtain tr' where tr': "stored (w_txn w') ?ps h tr'" "content tr' = content tr" "numbers tr' = map (\<lambda>g. if g = mp_pgno p then pgno else g) (numbers tr)" "wc_on w' ?mc h 0 (Suc ?l) tr'"
    "mp_pgno (root_page tr') = (if 0 = ?l then pgno else mp_pgno (root_page tr))"
    using step_path [OF st p(2,1) i(2,5,3,4) le0 i(6) av] by blast
  have mv: "me_map (w_txn w') = me_map (w_txn w)" "mptr ` set (dirty_of w') = insert a (mptr ` set (dirty_of w))" "me_psize (w_env w') = ?ps" "set (free_ids w') = set (free_ids w) - {pgno}" "pgno \<in> set (free_ids w)"
    "idl_ids (mt_free_pgs w') = idl_ids (mt_free_pgs w) @ [mp_pgno p]" using t(2) by (simp_all add: moved_def set_insort_key)
  have "distinct (numbers tr')" "set (numbers tr') \<inter> set (free_ids w') = {}"
    unfolding tr'(3) mv(4) using i(3,4) mv(5) by (auto simp: distinct_map inj_on_def)
  moreover have "wc_dbi mc < length (mt_dbs (w_txn w'))" "md_root (mt_dbs (w_txn w') ! wc_dbi mc) = mp_pgno (root_page tr')"
    using t(2) i(10,11) tr'(5) by (auto simp: moved_def relinked_def split: if_splits)
  ultimately have inv': "touch_inv h k w' (mc\<lparr>wc_pg := (wc_pg mc)[?l := Some (Mem a)], wc_top := ?l + 1\<rparr>) tr'"
    using t(3) tr'(1,4) mv(3) i(7-9) wc_on_cong [of "mc\<lparr>wc_pg := (wc_pg mc)[?l := Some (Mem a)], wc_top := ?l + 1\<rparr>" ?mc] by (simp add: touch_inv_def)
  show thesis by (rule that [OF t(1) inv' tr'(2) mv(1-3)]) (use mv(6) p(1) in \<open>simp_all add: map_no_def\<close>)
qed

lemma touch_loop_ok:
  "touch_inv h k w mc tr \<Longrightarrow> (\<forall>j<k. fresh (m j) (ad j) w) \<Longrightarrow> inj_on ad {..<k} \<Longrightarrow> mem_ok mf \<Longrightarrow>
   \<exists>w' mc' cs' tr'. touch_loop k (\<lambda>j. mdb_page_touch (Suc n) mm mf (m j)) w mc cs = Inr (0, w', mc', cs') \<and> touch_inv h 0 w' mc' tr' \<and> content tr' = content tr \<and>
     me_map (w_txn w') = me_map (w_txn w) \<and> me_psize (w_env w') = me_psize (w_env w) \<and> wc_ki mc' = wc_ki mc \<and> wc_dbi mc' = wc_dbi mc \<and> wc_snum mc' = wc_snum mc \<and>
     idl_ids (mt_free_pgs w') = idl_ids (mt_free_pgs w) @ map (\<lambda>j. map_no (wc_pg mc ! j)) [wc_top mc..<Suc h]"
proof (induction k arbitrary: w mc tr cs)
  case 0
  then have "wc_top mc = Suc h" by (simp add: touch_inv_def)
  then show ?case using 0 by auto
next
  case (Suc k)
  let ?touch = "\<lambda>j. mdb_page_touch (Suc n) mm mf (m j)"
  have f: "fresh (m k) (ad k) w" using Suc.prems(2) by simp
  obtain w1 pgs cs1 tr1 where s: "?touch k w mc cs = Inr (0, w1, mc\<lparr>wc_pg := pgs\<rparr>, cs1)" "touch_inv h k w1 (mc\<lparr>wc_pg := pgs, wc_top := wc_top mc + 1\<rparr>) tr1"
    "content tr1 = content tr" "me_map (w_txn w1) = me_map (w_txn w)" "mptr ` set (dirty_of w1) = insert (ad k) (mptr ` set (dirty_of w))" "me_psize (w_env w1) = me_psize (w_env w)"
    "idl_ids (mt_free_pgs w1) = idl_ids (mt_free_pgs w) @ [map_no (wc_pg mc ! wc_top mc)]" "drop (Suc (wc_top mc)) pgs = drop (Suc (wc_top mc)) (wc_pg mc)"
    by (rule touch_inv_step [OF Suc.prems(1) f Suc.prems(4)]) (rule that)
  let ?mc = "mc\<lparr>wc_pg := pgs, wc_top := wc_top mc + 1\<rparr>"
  have fr: "\<forall>j<k. fresh (m j) (ad j) w1"
  proof (intro allI impI)
    fix j assume j: "j < k"
    then have "ad j \<noteq> ad k" using Suc.prems(3) by (auto dest: inj_onD)
    then show "fresh (m j) (ad j) w1" using Suc.prems(2) [rule_format, of j] j unfolding fresh_def s(5,6) by simp
  qed
  have inj: "inj_on ad {..<k}" by (rule inj_on_subset [OF Suc.prems(3)]) auto
  obtain w' mc' cs' tr' where r: "touch_loop k ?touch w1 ?mc cs1 = Inr (0, w', mc', cs')" "touch_inv h 0 w' mc' tr'" "content tr' = content tr1" "me_map (w_txn w') = me_map (w_txn w1)"
    "me_psize (w_env w') = me_psize (w_env w1)" "wc_ki mc' = wc_ki ?mc" "wc_dbi mc' = wc_dbi ?mc" "wc_snum mc' = wc_snum ?mc"
    "idl_ids (mt_free_pgs w') = idl_ids (mt_free_pgs w1) @ map (\<lambda>j. map_no (wc_pg ?mc ! j)) [wc_top ?mc..<Suc h]"
    using Suc.IH [OF s(2) fr inj Suc.prems(4), of cs1] by blast
  have lh: "wc_top mc \<le> h" "h < length (wc_pg mc)" using Suc.prems(1) by (simp_all add: touch_inv_def)
  have "pgs ! j = wc_pg mc ! j" if "wc_top mc < j" "j \<le> h" for j
    using that lh(2) arg_cong [OF s(8), of "\<lambda>xs. xs ! (j - Suc (wc_top mc))"] arg_cong [OF s(8), of length] by simp
  then have "map (\<lambda>j. map_no (pgs ! j)) [Suc (wc_top mc)..<Suc h] = map (\<lambda>j. map_no (wc_pg mc ! j)) [Suc (wc_top mc)..<Suc h]" by (intro map_cong) auto
  then have "idl_ids (mt_free_pgs w') = idl_ids (mt_free_pgs w) @ map (\<lambda>j. map_no (wc_pg mc ! j)) [wc_top mc..<Suc h]"
    using r(9) s(7) lh(1) by (simp add: upt_conv_Cons del: upt_Suc)
  moreover have "touch_loop (Suc k) ?touch w mc cs = Inr (0, w', mc', cs')" using s(1) r(1) by simp
  ultimately show ?case using r s(3,4,6) by (intro exI [of _ w'] exI [of _ mc'] exI [of _ cs'] exI [of _ tr']) simp
qed

text \<open>C4: \<open>mdb_cursor_touch\<close> on a cursor in a tree of any height, all of whose pages are clean, with enough free pages: the call succeeds; the
  pages on the path of the cursor move to new numbers and are dirty and in memory; the tree that is stored under the new root of the database has the
  contents of the old one, key for key and node for node; the old numbers of the path, in order, join \<open>mt_free_pgs\<close>; and the map, with the tree that
  readers of the last snapshot see, does not change.\<close>

theorem cursor_touch_copies_path:
  assumes "touch_inv h (Suc h) w (mc\<lparr>wc_top := 0\<rparr>) tr" and "wc_snum mc = Suc h" and "aget (mt_dbflags (w_txn w)) (wc_dbi mc) = Inr fl"
    and "wc_dbi mc < CORE_DBS \<or> has_flag fl (DB_DIRTY OR DB_DUPDATA)" and "\<forall>j\<le>h. fresh (m j) (ad j) w" and "inj_on ad {..h}" and "mem_ok mf"
  shows "\<exists>w' mc' cs' tr'. mdb_cursor_touch search_rec (\<lambda>j. mdb_page_touch (Suc n) mm mf (m j)) w mc cs = Inr (0, w', mc', cs') \<and>
     stored (w_txn w') (me_psize (w_env w)) h tr' \<and> md_root (mt_dbs (w_txn w') ! wc_dbi mc) = mp_pgno (root_page tr') \<and> content tr' = content tr \<and>
     wc_on w' mc' h 0 (Suc h) tr' \<and> wc_ki mc' = wc_ki mc \<and> wc_top mc' = h \<and> me_map (w_txn w') = me_map (w_txn w) \<and>
     idl_ids (mt_free_pgs w') = idl_ids (mt_free_pgs w) @ map (\<lambda>j. map_no (wc_pg mc ! j)) [0..<Suc h]"
proof -
  have f: "\<forall>j<Suc h. fresh (m j) (ad j) w" and inj: "inj_on ad {..<Suc h}" using assms(5,6) by (simp_all add: less_Suc_eq_le lessThan_Suc_atMost)
  obtain w' mc' cs' tr' where l: "touch_loop (Suc h) (\<lambda>j. mdb_page_touch (Suc n) mm mf (m j)) w (mc\<lparr>wc_top := 0\<rparr>) cs = Inr (0, w', mc', cs')" "touch_inv h 0 w' mc' tr'"
    "content tr' = content tr" "me_map (w_txn w') = me_map (w_txn w)" "me_psize (w_env w') = me_psize (w_env w)" "wc_ki mc' = wc_ki mc" "wc_dbi mc' = wc_dbi mc" "wc_snum mc' = wc_snum mc"
    "idl_ids (mt_free_pgs w') = idl_ids (mt_free_pgs w) @ map (\<lambda>j. map_no (wc_pg mc ! j)) [0..<Suc h]"
    using touch_loop_ok [OF assms(1) f inj assms(7), of n mm cs] by auto
  let ?mc = "mc'\<lparr>wc_top := wc_snum mc' - 1\<rparr>"
  have "mdb_cursor_touch search_rec (\<lambda>j. mdb_page_touch (Suc n) mm mf (m j)) w mc cs = Inr (0, w', ?mc, cs')"
    using assms(2-4) l(1) by (auto simp: mdb_cursor_touch_def Let_def simp del: touch_loop.simps)
  moreover have "wc_top mc' = Suc h" "wc_on w' mc' h 0 (wc_top mc') tr'" using l(2) unfolding touch_inv_def by (simp, blast)
  then have "wc_on w' ?mc h 0 (Suc h) tr'" using wc_on_cong [of ?mc mc'] by simp
  ultimately show ?thesis using l assms(2) by (intro exI [of _ w'] exI [of _ ?mc] exI [of _ cs'] exI [of _ tr']) (simp add: touch_inv_def)
qed

text \<open>The database with three pages in a write transaction with three free pages; the cursor is on the second leaf.\<close>

definition cow_txn :: MDB_wtxn where
  "cow_txn = \<lparr>w_txn = small_txn\<lparr>mt_flags := 0, mt_lists := [(None, replicate 4 \<lparr>mid = 0, mptr = 0\<rparr>)]\<rparr>,
     w_env = \<lparr>me_flags = 0, me_psize = 64, me_maxpg = 1000, me_pghead = Some \<lparr>alloclen = 3, cells = [3, 7, 6, 5]\<rparr>, me_pglast = 0, me_pgoldest = 0, me_txns = None, me_dpages = []\<rparr>,
     mt_txnid = 9, mt_free_pgs = \<lparr>alloclen = 2, cells = [0, 0, 0]\<rparr>, mt_loose_pgs = [], mt_loose_count = 0, mt_dirty_room = 5\<rparr>"

definition cow_cursor :: MDB_wcursor where
  "cow_cursor = \<lparr>wc_dbi = 0, wc_snum = 2, wc_top = 1, wc_flags = 0, wc_pg = [Some (Map 2), Some (Map 4)], wc_ki = [1, 0]\<rparr>"

lemma cow_lists: "free_ids cow_txn = [7, 6, 5]" "dirty_of cow_txn = []" "dirty_at cow_txn g = None"
  by (simp_all add: free_ids_def cow_txn_def ids_of_def dirty_of_def id2_of_def dirty_at_def take_Cons')

lemma cow_ready: "write_ready 2 cow_txn"
proof -
  have "free_ok [3, 7, 6, 5]" by (simp add: free_ok_def ids_ok_def ids_of_def take_Cons')
  moreover have "lists_ready 2 cow_txn"
    by (simp add: lists_ready_def cow_txn_def id2_asc_def id2_of_def MDB_IDL_UM_MAX_def MDB_IDL_UM_SIZE_def MDB_IDL_LOGN_def)
  moreover have "midl_ok \<lparr>alloclen = 2, cells = [0, 0, 0]\<rparr>" by (simp add: midl_ok_def)
  ultimately show ?thesis unfolding write_ready_def cow_lists by (simp add: cow_txn_def has_flag_def)
qed

lemma cow_tree: "stored (w_txn cow_txn) 64 1 small_tree" "wc_on cow_txn (cow_cursor\<lparr>wc_top := 0\<rparr>) 1 0 0 small_tree" "numbers small_tree = [2, 3, 4]"
proof -
  have n: "mp_pgno leaf_a = 3" "mp_pgno leaf_b = 4" "mp_pgno root_ab = 2" by (simp_all add: leaf_a_def leaf_b_def root_ab_def page64_def)
  show "numbers small_tree = [2, 3, 4]" by (simp add: small_tree_def n)
  have p: "page_of (w_txn cow_txn) 2 root_ab" "page_of (w_txn cow_txn) 3 leaf_a" "page_of (w_txn cow_txn) 4 leaf_b"
    unfolding page_of_iff [OF cow_ready] cow_lists by (simp_all add: cow_txn_def small_txn_def)
  have h: "NODEPGNO (hdr_at root_ab 0) = 3" "NODEPGNO (hdr_at root_ab 1) = 4" by (simp_all add: hdr_at_def small_hdrs small_offs NODEPGNO_def)
  show "stored (w_txn cow_txn) 64 1 small_tree"
    unfolding small_tree_def One_nat_def stored.simps using p h by (auto simp: n small_wf small_page_facts less_2_cases_iff)
  have "\<not> F_ISSET (mp_flags root_ab) P_DIRTY" "\<not> F_ISSET (mp_flags leaf_b) P_DIRTY"
    by (simp_all add: root_ab_def leaf_b_def page64_def F_ISSET_def P_DIRTY_def P_BRANCH_def P_LEAF_def)
  then show "wc_on cow_txn (cow_cursor\<lparr>wc_top := 0\<rparr>) 1 0 0 small_tree"
    unfolding small_tree_def One_nat_def by (simp add: slot_def cow_lists n cow_cursor_def)
qed

theorem cursor_touch_copies_path_witness:
  "\<exists>w' mc' cs' tr'. mdb_cursor_touch (\<lambda>w. Inr (0, w)) (\<lambda>j. mdb_page_touch 1 (\<lambda>_. \<lparr>mem_ok = True, mem_fill = \<lambda>_. 0\<rparr>) \<lparr>mem_ok = True, mem_fill = \<lambda>_. 0\<rparr>
       (\<lambda>_. Some (100 + j, blank_page 0))) cow_txn cow_cursor [] = Inr (0, w', mc', cs') \<and>
     stored (w_txn w') 64 1 tr' \<and> md_root (mt_dbs (w_txn w') ! 0) = mp_pgno (root_page tr') \<and> content tr' = content small_tree \<and> idl_ids (mt_free_pgs w') = [2, 4]"
proof -
  have e: "me_psize (w_env cow_txn) = 64" "mt_dbs (w_txn cow_txn) = mt_dbs small_txn" "wc_dbi cow_cursor = 0" "length (wc_pg cow_cursor) = 2" "length (wc_ki cow_cursor) = 2"
    by (simp_all add: cow_txn_def cow_cursor_def)
  have d: "length (mt_dbs small_txn) = 1" "md_root (mt_dbs small_txn ! 0) = mp_pgno (root_page small_tree)" by (simp_all add: small_txn_def small_tree_def root_ab_def page64_def)
  have r: "write_ready (Suc 1) cow_txn" using cow_ready by (simp add: numeral_2_eq_2)
  have inv: "touch_inv 1 (Suc 1) cow_txn (cow_cursor\<lparr>wc_top := 0\<rparr>) small_tree"
    unfolding touch_inv_def cow_lists cow_tree(3) using r cow_tree(1,2) by (simp add: e d)
  have fr: "\<forall>j\<le>1. fresh (\<lambda>_. Some (100 + j, blank_page 0)) (100 + j) cow_txn"
    unfolding fresh_def cow_lists by (simp add: cow_txn_def blank_page_def)
  have inj: "inj_on ((+) 100) {..1::nat}" and ok: "mem_ok \<lparr>mem_ok = True, mem_fill = \<lambda>_. 0\<rparr>" by simp_all
  have sn: "wc_snum cow_cursor = Suc 1" by (simp add: cow_cursor_def)
  have fl: "aget (mt_dbflags (w_txn cow_txn)) (wc_dbi cow_cursor) = Inr (DB_VALID OR DB_USRVALID)" by (simp add: cow_txn_def cow_cursor_def small_txn_def)
  have core: "wc_dbi cow_cursor < CORE_DBS \<or> has_flag (DB_VALID OR DB_USRVALID) (DB_DIRTY OR DB_DUPDATA)" by (simp add: cow_cursor_def CORE_DBS_def)
  have fp: "idl_ids (mt_free_pgs cow_txn) = []" "map (\<lambda>j. map_no (wc_pg cow_cursor ! j)) [0..<Suc 1] = [2, 4]"
    by (simp_all add: cow_txn_def cow_cursor_def idl_ids_def ids_of_def map_no_def)
  show ?thesis
    using cursor_touch_copies_path [OF inv sn fl core fr inj ok, of "\<lambda>w. Inr (0, w)" 0 "\<lambda>_. \<lparr>mem_ok = True, mem_fill = \<lambda>_. 0\<rparr>" "[]"]
    unfolding e fp append_Nil One_nat_def [symmetric] by blast
qed

end
