(* ===== verification/Mdb_Meta.thy ===== *)
theory Mdb_Meta
  imports Mdb_Alloc
begin

text \<open>
  The two meta pages of an LMDB file (\<open>lib/lmdb/mdb.c\<close>): \<open>mdb_env_read_header\<close>, \<open>mdb_env_init_meta0\<close>, \<open>mdb_env_init_meta\<close>,
  \<open>mdb_env_write_meta\<close>, \<open>mdb_env_pick_meta\<close>, and the part of \<open>mdb_txn_renew0\<close> that sets up a transaction from a meta page. Transaction \<open>n\<close>
  writes meta page \<open>n mod 2\<close>, so the page of the last commit stays as it is while the next one is written.

  \<open>pread\<close> is an argument that gives the result, \<open>errno\<close>, and the flags and the meta data in the buffer. A call of \<open>pwrite\<close> on a meta page is a function of
  the data and of the old page; it gives the result, \<open>errno\<close>, and the page afterwards.
\<close>

subsection \<open>Data\<close>

definition MDB_MAGIC :: u32 where "MDB_MAGIC = 0xBEEFC0DE"
definition MDB_DATA_VERSION :: u32 where "MDB_DATA_VERSION = 1"
definition P_META :: u16 where "P_META = 0x08"
definition NUM_METAS :: nat where "NUM_METAS = 2"
definition MDB_FATAL_ERROR :: u32 where "MDB_FATAL_ERROR = 0x80000000"
definition MDB_VALID :: u16 where "MDB_VALID = 0x8000"
definition MDB_PANIC :: int where "MDB_PANIC = -30795"
definition MDB_VERSION_MISMATCH :: int where "MDB_VERSION_MISMATCH = -30794"
definition MDB_INVALID :: int where "MDB_INVALID = -30793"
definition MDB_MAP_RESIZED :: int where "MDB_MAP_RESIZED = -30785"
definition MDB_NOSYNC :: u32 where "MDB_NOSYNC = 0x10000"
definition MDB_NOMETASYNC :: u32 where "MDB_NOMETASYNC = 0x40000"
definition MDB_RDONLY :: u32 where "MDB_RDONLY = 0x20000"
definition MDB_MAPASYNC :: u32 where "MDB_MAPASYNC = 0x100000"
definition INTEGERKEY16 :: u16 where "INTEGERKEY16 = 0x08"

text \<open>Values of \<open>errno\<close>.\<close>

definition E_NOENT :: int where "E_NOENT = 2"
definition E_INTR :: int where "E_INTR = 4"
definition E_IO :: int where "E_IO = 5"
definition E_ACCES :: int where "E_ACCES = 13"
definition E_NOSPC :: int where "E_NOSPC = 28"

record MDB_meta =
  mm_magic :: u32
  mm_version :: u32
  mm_address :: size_t
  mm_mapsize :: size_t
  mm_dbs :: "MDB_db list"
  mm_last_pg :: size_t
  mm_txnid :: size_t

text \<open>\<open>mti_txnid\<close> is in the lock file, if there is one.\<close>

record MDB_menv = MDB_env +
  me_metas :: "MDB_meta list"
  me_mapsize :: size_t
  me_dbflags :: "u16 list"
  mti_txnid :: "size_t option"

definition mm_psize :: "MDB_meta \<Rightarrow> u32" where
  "mm_psize m = md_pad (mm_dbs m ! FREE_DBI)"

subsection \<open>Reading the header\<close>

type_synonym pread = "nat \<Rightarrow> int \<times> int \<times> u16 \<times> MDB_meta"

text \<open>One round of the loop: an error, or what \<open>*meta\<close> is afterwards. \<open>sz\<close> is the size of the buffer.\<close>

definition read_meta_page :: "int \<Rightarrow> pread \<Rightarrow> nat \<Rightarrow> MDB_meta \<Rightarrow> int + MDB_meta" where
  "read_meta_page sz pread off meta =
     (case pread off of (n, e, fl, m) \<Rightarrow>
        if n \<noteq> sz then if n = 0 \<and> off = 0 then Inl E_NOENT else if n < 0 then Inl e else Inl MDB_INVALID
        else if \<not> F_ISSET fl P_META then Inl MDB_INVALID
        else if mm_magic m \<noteq> MDB_MAGIC then Inl MDB_INVALID
        else if mm_version m \<noteq> MDB_DATA_VERSION then Inl MDB_VERSION_MISMATCH
        else Inr (if off = 0 \<or> mm_txnid meta < mm_txnid m then m else meta))"

fun read_metas :: "nat \<Rightarrow> int \<Rightarrow> pread \<Rightarrow> nat \<Rightarrow> MDB_meta \<Rightarrow> int \<times> MDB_meta" where
  "read_metas 0 sz pread off meta = (0, meta)"
| "read_metas (Suc n) sz pread off meta =
     (case read_meta_page sz pread off meta of Inl rc \<Rightarrow> (rc, meta) | Inr m \<Rightarrow> read_metas n sz pread (off + unat (mm_psize m)) m)"

definition mdb_env_read_header :: "int \<Rightarrow> pread \<Rightarrow> MDB_meta \<Rightarrow> int \<times> MDB_meta" where
  "mdb_env_read_header sz pread meta = read_metas NUM_METAS sz pread 0 meta"

subsection \<open>A new file\<close>

definition mdb_env_init_meta0 :: "MDB_menv \<Rightarrow> MDB_meta \<Rightarrow> MDB_meta" where
  "mdb_env_init_meta0 e meta =
     meta\<lparr>mm_magic := MDB_MAGIC, mm_version := MDB_DATA_VERSION, mm_mapsize := me_mapsize e, mm_last_pg := of_nat (NUM_METAS - 1),
       mm_dbs := (mm_dbs meta)[FREE_DBI := (mm_dbs meta ! FREE_DBI)\<lparr>md_pad := of_nat (me_psize e), md_flags := ucast (me_flags e AND 0xffff) OR INTEGERKEY16, md_root := P_INVALID\<rparr>,
         MAIN_DBI := (mm_dbs meta ! MAIN_DBI)\<lparr>md_root := P_INVALID\<rparr>]\<rparr>"

text \<open>\<open>DO_PWRITE\<close>: the results of \<open>pwrite\<close> one after the other.\<close>

fun pwrite_retry :: "(int \<times> int) list \<Rightarrow> (int \<times> int) res" where
  "pwrite_retry [] = Inl Diverges"
| "pwrite_retry ((n, e) # rs) = (if n = -1 \<and> e = E_INTR then pwrite_retry rs else Inr (n, e))"

text \<open>\<open>mdb_env_init_meta\<close>: the code and the two pages, with their flags, that were to be written.\<close>

definition mdb_env_init_meta :: "bool \<Rightarrow> (int \<times> int) list \<Rightarrow> MDB_menv \<Rightarrow> MDB_meta \<Rightarrow> (int \<times> (u16 \<times> MDB_meta) list) res" where
  "mdb_env_init_meta got rs e meta =
     (if \<not> got then Inr (ENOMEM, [])
      else
        bindE (pwrite_retry rs) (\<lambda>(n, er).
        Inr (if n < 0 then er else if n = int (me_psize e * NUM_METAS) then 0 else E_NOSPC, replicate NUM_METAS (P_META, meta))))"

subsection \<open>Committing\<close>

definition mdb_env_pick_meta :: "MDB_menv \<Rightarrow> MDB_meta res" where
  "mdb_env_pick_meta e =
     bindE (aget (me_metas e) 0) (\<lambda>m0. bindE (aget (me_metas e) 1) (\<lambda>m1. Inr (if mm_txnid m0 < mm_txnid m1 then m1 else m0)))"

type_synonym pwrite = "MDB_meta \<Rightarrow> MDB_meta \<Rightarrow> int \<times> int \<times> MDB_meta"

text \<open>\<open>retry_write\<close>: the code, the page, and the calls that are left.\<close>

fun write_meta_loop :: "int \<Rightarrow> pwrite list \<Rightarrow> MDB_meta \<Rightarrow> MDB_meta \<Rightarrow> (int \<times> MDB_meta \<times> pwrite list) res" where
  "write_meta_loop len [] meta mp = Inl Diverges"
| "write_meta_loop len (pw # pws) meta mp =
     (case pw meta mp of (n, e, mp') \<Rightarrow>
        if n = len then Inr (0, mp', pws)
        else
          let rc = (if n < 0 then e else E_IO) in
          if rc = E_INTR then write_meta_loop len pws meta mp' else Inr (rc, mp', pws))"

text \<open>The meta data of the transaction, on the page that it goes to.\<close>

definition new_meta :: "MDB_wtxn \<Rightarrow> size_t \<Rightarrow> MDB_meta \<Rightarrow> MDB_meta" where
  "new_meta w mapsize mp =
     mp\<lparr>mm_mapsize := mapsize, mm_dbs := [mt_dbs (w_txn w) ! FREE_DBI, mt_dbs (w_txn w) ! MAIN_DBI], mm_last_pg := mt_next_pgno (w_txn w) - 1, mm_txnid := mt_txnid w\<rparr>"

definition mdb_env_write_meta :: "int \<Rightarrow> pwrite list \<Rightarrow> int \<Rightarrow> MDB_wtxn \<Rightarrow> MDB_menv \<Rightarrow> (int \<times> MDB_menv) res" where
  "mdb_env_write_meta len pws msync w e =
     (let toggle = unat (mt_txnid w AND 1) in
      if length (mt_dbs (w_txn w)) < CORE_DBS then Inl Out_of_bounds
      else
        bindE (aget (me_metas e) toggle) (\<lambda>mp. bindE (aget (me_metas e) (1 - toggle)) (\<lambda>other.
        let mapsize = (if mm_mapsize other < me_mapsize e then me_mapsize e else mm_mapsize other);
            meta = new_meta w mapsize mp;
            success = (\<lambda>m. (0, e\<lparr>me_metas := (me_metas e)[toggle := m], mti_txnid := map_option (\<lambda>_. mt_txnid w) (mti_txnid e)\<rparr>));
            fail = (\<lambda>rc m. (rc, e\<lparr>me_metas := (me_metas e)[toggle := m], me_flags := me_flags e OR MDB_FATAL_ERROR\<rparr>)) in
        if has_flag (me_flags e) MDB_WRITEMAP then
          Inr (if \<not> has_flag (me_flags e) (MDB_NOMETASYNC OR MDB_NOSYNC) \<and> msync \<noteq> 0 then fail msync meta else success meta)
        else
          bindE (write_meta_loop len pws meta mp) (\<lambda>(rc, mp', rest).
          if rc = 0 then Inr (success mp')
          else
            (case rest of
               [] \<Rightarrow> Inl Diverges
             | pw # _ \<Rightarrow> Inr (fail rc (snd (snd (pw (meta\<lparr>mm_last_pg := mm_last_pg mp, mm_txnid := mm_txnid mp\<rparr>) mp')))))))))"

text \<open>\<open>mdb_env_sync\<close>: \<open>msync\<close>, which is told whether to wait, and \<open>fdatasync\<close> give 0 or the value of \<open>errno\<close>.\<close>

definition mdb_env_sync :: "(bool \<Rightarrow> int) \<Rightarrow> int \<Rightarrow> bool \<Rightarrow> MDB_menv \<Rightarrow> int" where
  "mdb_env_sync msync fdatasync force e =
     (if has_flag (me_flags e) MDB_RDONLY then E_ACCES
      else if force \<or> \<not> has_flag (me_flags e) MDB_NOSYNC then
        (if has_flag (me_flags e) MDB_WRITEMAP then msync (\<not> (has_flag (me_flags e) MDB_MAPASYNC \<and> \<not> force)) else fdatasync)
      else 0)"

subsection \<open>Beginning\<close>

text \<open>\<open>mdb_txn_renew0\<close>: the number and the meta page of a write transaction, and the fields that every transaction gets from its meta page.\<close>

definition renew_write_meta :: "MDB_menv \<Rightarrow> (size_t \<times> MDB_meta) res" where
  "renew_write_meta e =
     (case mti_txnid e of
        Some n \<Rightarrow> bindE (aget (me_metas e) (unat (n AND 1))) (\<lambda>m. Inr (n + 1, m))
      | None \<Rightarrow> bindE (mdb_env_pick_meta e) (\<lambda>m. Inr (mm_txnid m + 1, m)))"

text \<open>The same for a read transaction; the number that it stores in the reader table is \<open>mti_txnid\<close>.\<close>

definition renew_read_meta :: "MDB_menv \<Rightarrow> (size_t \<times> MDB_meta) res" where
  "renew_read_meta e =
     (case mti_txnid e of
        Some n \<Rightarrow> bindE (aget (me_metas e) (unat (n AND 1))) (\<lambda>m. Inr (n, m))
      | None \<Rightarrow> bindE (mdb_env_pick_meta e) (\<lambda>m. Inr (mm_txnid m, m)))"

definition renew_fields :: "u32 \<Rightarrow> MDB_meta \<Rightarrow> MDB_menv \<Rightarrow> MDB_txn \<Rightarrow> int \<times> MDB_txn" where
  "renew_fields flags meta e t =
     (let named = drop CORE_DBS (me_dbflags e);
          t' = t\<lparr>mt_dbs := take CORE_DBS (mm_dbs meta) @ map2 (\<lambda>x db. db\<lparr>md_flags := x AND PERSISTENT_FLAGS\<rparr>) named (drop CORE_DBS (mt_dbs t)),
            mt_next_pgno := mm_last_pg meta + 1, mt_flags := flags,
            mt_dbflags := [DB_VALID, DB_VALID OR DB_USRVALID] @ map (\<lambda>x. if has_flag x MDB_VALID then DB_VALID OR DB_USRVALID OR DB_STALE else 0) named\<rparr> in
      (if has_flag (me_flags e) MDB_FATAL_ERROR then MDB_PANIC else if me_maxpg e < mt_next_pgno t' then MDB_MAP_RESIZED else 0, t'))"

subsection \<open>Two pages in turn\<close>

definition metas_ok :: "MDB_meta list \<Rightarrow> bool" where
  "metas_ok ms \<longleftrightarrow> length ms = 2 \<and>
     (let a = unat (mm_txnid (ms ! 0)); b = unat (mm_txnid (ms ! 1)) in a = 0 \<and> b = 0 \<or> even a \<and> (b = a + 1 \<or> a = b + 1))"

definition newest :: "MDB_meta list \<Rightarrow> MDB_meta" where
  "newest ms = (if mm_txnid (ms ! 0) < mm_txnid (ms ! 1) then ms ! 1 else ms ! 0)"

lemma unat_and_1: "unat (x AND 1) = unat x mod 2" for x :: size_t
  by (simp add: and_one_eq unat_mod)

lemma unat_next: "x \<noteq> - 1 \<Longrightarrow> unat (x + 1) = Suc (unat x)" for x :: size_t
proof -
  assume "x \<noteq> - 1"
  then have "unat x \<noteq> 2 ^ 64 - 1" by (simp add: word_unat_eq_iff unsigned_minus_1_eq_mask mask_eq_exp_minus_1)
  then show ?thesis using unat_lt_pow [of x] by (intro unat_Suc_word) simp
qed

lemma pick_newest: "length (me_metas e) = 2 \<Longrightarrow> mdb_env_pick_meta e = Inr (newest (me_metas e))"
  by (simp add: mdb_env_pick_meta_def newest_def)

text \<open>The newest page is the one with the parity of its number; the next commit goes to the other one.\<close>

lemma newest_place:
  assumes "metas_ok ms"
  shows "ms ! (unat (mm_txnid (newest ms)) mod 2) = newest ms"
  using assms by (auto simp: metas_ok_def newest_def Let_def word_less_nat_alt)

lemma next_place:
  assumes ok: "metas_ok ms" and t: "t = mm_txnid (newest ms) + 1" "mm_txnid (newest ms) \<noteq> - 1"
  defines "k \<equiv> unat t mod 2"
  shows "k < 2" "1 - k < 2" "ms ! (1 - k) = newest ms" "unat t = Suc (unat (mm_txnid (newest ms)))"
proof -
  show u: "unat t = Suc (unat (mm_txnid (newest ms)))" unfolding t(1) using t(2) by (rule unat_next)
  show "k < 2" "1 - k < 2" by (simp_all add: k_def)
  have "1 - k = unat (mm_txnid (newest ms)) mod 2" unfolding k_def u by presburger
  then show "ms ! (1 - k) = newest ms" using newest_place [OF ok] by simp
qed

lemma newest_after:
  assumes ok: "metas_ok ms" and t: "t = mm_txnid (newest ms) + 1" "mm_txnid (newest ms) \<noteq> - 1" and m: "mm_txnid m = t"
  shows "metas_ok (ms[unat t mod 2 := m])" "newest (ms[unat t mod 2 := m]) = m"
proof -
  note n = next_place [OF ok t]
  have l: "length ms = 2" using ok by (simp add: metas_ok_def)
  consider "unat t mod 2 = 0" | "unat t mod 2 = 1" by linarith
  then have "metas_ok (ms[unat t mod 2 := m]) \<and> newest (ms[unat t mod 2 := m]) = m"
  proof cases
    case 1
    then have "unat t = Suc (unat (mm_txnid (ms ! 1)))" using n(3,4) by simp
    then show ?thesis using 1 l m by (auto simp: metas_ok_def newest_def Let_def word_less_nat_alt)
  next
    case 2
    then have "unat t = Suc (unat (mm_txnid (ms ! 0)))" using n(3,4) by simp
    moreover from this 2 have "even (unat (mm_txnid (ms ! 0)))" by presburger
    ultimately show ?thesis using 2 l m by (auto simp: metas_ok_def newest_def Let_def word_less_nat_alt)
  qed
  then show "metas_ok (ms[unat t mod 2 := m])" "newest (ms[unat t mod 2 := m]) = m" by simp_all
qed

text \<open>A page that keeps its number does not become the newest.\<close>

lemma newest_kept:
  assumes ok: "metas_ok ms" and t: "t = mm_txnid (newest ms) + 1" "mm_txnid (newest ms) \<noteq> - 1" and m: "mm_txnid m = mm_txnid (ms ! (unat t mod 2))"
  shows "newest (ms[unat t mod 2 := m]) = newest ms"
proof -
  note n = next_place [OF ok t]
  have l: "length ms = 2" using ok by (simp add: metas_ok_def)
  have less: "mm_txnid (ms ! 0) < mm_txnid (ms ! 1) \<longleftrightarrow> odd (unat (mm_txnid (newest ms)))"
    using ok by (cases "mm_txnid (ms ! 0) < mm_txnid (ms ! 1)") (auto simp: metas_ok_def newest_def Let_def word_less_nat_alt)
  consider "unat t mod 2 = 0" | "unat t mod 2 = 1" by linarith
  then show ?thesis
  proof cases
    case 1
    then have "odd (unat (mm_txnid (newest ms)))" using n(4) by presburger
    then show ?thesis using 1 l m less by (simp add: newest_def)
  next
    case 2
    then have "\<not> odd (unat (mm_txnid (newest ms)))" using n(4) by presburger
    then show ?thesis using 2 l m less by (simp add: newest_def)
  qed
qed

subsection \<open>Commits\<close>

text \<open>\<open>pwrite\<close> was interrupted; it wrote the data; it failed.\<close>

definition interrupted :: "pwrite \<Rightarrow> bool" where
  "interrupted pw \<longleftrightarrow> (\<forall>d c. fst (pw d c) = - 1 \<and> fst (snd (pw d c)) = E_INTR)"

definition writes :: "int \<Rightarrow> pwrite \<Rightarrow> bool" where
  "writes len pw \<longleftrightarrow> (\<forall>d c. fst (pw d c) = len \<and> snd (snd (pw d c)) = d)"

definition fails :: "int \<Rightarrow> pwrite \<Rightarrow> bool" where
  "fails len pw \<longleftrightarrow> (\<forall>d c. fst (pw d c) \<noteq> len \<and> (fst (pw d c) < 0 \<longrightarrow> fst (snd (pw d c)) \<noteq> 0 \<and> fst (snd (pw d c)) \<noteq> E_INTR))"

lemma write_loop_skips:
  "\<forall>pw\<in>set intr. interrupted pw \<Longrightarrow> 0 < len \<Longrightarrow> \<exists>mp'. write_meta_loop len (intr @ pws) meta mp = write_meta_loop len pws meta mp'"
proof (induction intr arbitrary: mp)
  case (Cons pw intr)
  obtain n e c where c: "pw meta mp = (n, e, c)" by (cases "pw meta mp")
  have "fst (pw meta mp) = - 1 \<and> fst (snd (pw meta mp)) = E_INTR" using Cons.prems(1) by (simp add: interrupted_def)
  then have "n = - 1" "e = E_INTR" by (simp_all add: c)
  then show ?case using Cons c by simp
qed auto

lemma write_loop_ok:
  assumes "\<forall>pw\<in>set intr. interrupted pw" and "0 < len" and "writes len pw"
  shows "write_meta_loop len (intr @ pw # rest) meta mp = Inr (0, meta, rest)"
proof -
  obtain mp' where m: "write_meta_loop len (intr @ pw # rest) meta mp = write_meta_loop len (pw # rest) meta mp'" using write_loop_skips [OF assms(1,2)] by blast
  obtain n e c where c: "pw meta mp' = (n, e, c)" by (cases "pw meta mp'")
  have "fst (pw meta mp') = len \<and> snd (snd (pw meta mp')) = meta" using assms(3) by (simp add: writes_def)
  then have "n = len" "c = meta" by (simp_all add: c)
  then show ?thesis using m c by simp
qed

lemma write_loop_fails:
  assumes "\<forall>pw\<in>set intr. interrupted pw" and "0 < len" and "fails len pw"
  shows "\<exists>rc c. write_meta_loop len (intr @ pw # rest) meta mp = Inr (rc, c, rest) \<and> rc \<noteq> 0"
proof -
  obtain mp' where m: "write_meta_loop len (intr @ pw # rest) meta mp = write_meta_loop len (pw # rest) meta mp'" using write_loop_skips [OF assms(1,2)] by blast
  obtain n e c where c: "pw meta mp' = (n, e, c)" by (cases "pw meta mp'")
  have "fst (pw meta mp') \<noteq> len \<and> (fst (pw meta mp') < 0 \<longrightarrow> fst (snd (pw meta mp')) \<noteq> 0 \<and> fst (snd (pw meta mp')) \<noteq> E_INTR)" using assms(3) by (simp add: fails_def)
  then have "n \<noteq> len" "n < 0 \<Longrightarrow> e \<noteq> 0 \<and> e \<noteq> E_INTR" by (simp_all add: c)
  then show ?thesis using m c by (auto simp: E_INTR_def E_IO_def)
qed

text \<open>The state in which transaction \<open>w\<close> commits: it began from the newest meta page.\<close>

definition commits_from :: "MDB_wtxn \<Rightarrow> MDB_menv \<Rightarrow> bool" where
  "commits_from w e \<longleftrightarrow> metas_ok (me_metas e) \<and> mm_txnid (newest (me_metas e)) \<noteq> - 1 \<and> mt_txnid w = mm_txnid (newest (me_metas e)) + 1 \<and> 2 \<le> length (mt_dbs (w_txn w)) \<and>
     \<not> has_flag (me_flags e) MDB_WRITEMAP"

definition written_meta :: "MDB_wtxn \<Rightarrow> MDB_menv \<Rightarrow> MDB_meta" where
  "written_meta w e =
     (let k = unat (mt_txnid w) mod 2; other = me_metas e ! (1 - k) in
      new_meta w (if mm_mapsize other < me_mapsize e then me_mapsize e else mm_mapsize other) (me_metas e ! k))"

lemma commits_place:
  assumes "commits_from w e"
  defines "k \<equiv> unat (mt_txnid w) mod 2"
  shows "aget (me_metas e) k = Inr (me_metas e ! k)" "aget (me_metas e) (1 - k) = Inr (me_metas e ! (1 - k))" "unat (mt_txnid w AND 1) = k" "k < length (me_metas e)"
    "mm_txnid (written_meta w e) = mt_txnid w"
  using assms next_place [of "me_metas e" "mt_txnid w"] by (simp_all add: commits_from_def metas_ok_def unat_and_1 written_meta_def new_meta_def Let_def)

lemma write_meta_eq:
  assumes c: "commits_from w e"
  defines "k \<equiv> unat (mt_txnid w) mod 2"
  shows "mdb_env_write_meta len pws ms w e =
    bindE (write_meta_loop len pws (written_meta w e) (me_metas e ! k)) (\<lambda>(rc, mp', rest).
      if rc = 0 then Inr (0, e\<lparr>me_metas := (me_metas e)[k := mp'], mti_txnid := map_option (\<lambda>_. mt_txnid w) (mti_txnid e)\<rparr>)
      else
        (case rest of
           [] \<Rightarrow> Inl Diverges
         | pw # _ \<Rightarrow> Inr (rc, e\<lparr>me_metas := (me_metas e)[k := snd (snd (pw ((written_meta w e)\<lparr>mm_last_pg := mm_last_pg (me_metas e ! k), mm_txnid := mm_txnid (me_metas e ! k)\<rparr>) mp'))],
             me_flags := me_flags e OR MDB_FATAL_ERROR\<rparr>)))"
proof -
  have "\<not> length (mt_dbs (w_txn w)) < 2" "\<not> has_flag (me_flags e) MDB_WRITEMAP" using c by (simp_all add: commits_from_def)
  then show ?thesis unfolding mdb_env_write_meta_def k_def commits_place(3) [OF c] Let_def CORE_DBS_def
    by (simp only: if_False bindE_Inr commits_place(1,2) [OF c] written_meta_def Let_def)
qed

lemma write_meta_ok:
  assumes c: "commits_from w e" and p: "\<forall>pw\<in>set intr. interrupted pw" "0 < len" "writes len pw"
  shows "mdb_env_write_meta len (intr @ pw # rest) ms w e =
    Inr (0, e\<lparr>me_metas := (me_metas e)[unat (mt_txnid w) mod 2 := written_meta w e], mti_txnid := map_option (\<lambda>_. mt_txnid w) (mti_txnid e)\<rparr>)"
  unfolding write_meta_eq [OF c] write_loop_ok [OF p] by simp

lemma write_meta_fails:
  assumes c: "commits_from w e" and p: "\<forall>pw\<in>set intr. interrupted pw" "0 < len" "fails len pw" and wb: "writes len wb"
  defines "k \<equiv> unat (mt_txnid w) mod 2"
  obtains rc m where "mdb_env_write_meta len (intr @ pw # wb # rest) ms w e = Inr (rc, e\<lparr>me_metas := (me_metas e)[k := m], me_flags := me_flags e OR MDB_FATAL_ERROR\<rparr>)" "rc \<noteq> 0"
    "mm_txnid m = mm_txnid (me_metas e ! k)"
proof -
  let ?m = "(written_meta w e)\<lparr>mm_last_pg := mm_last_pg (me_metas e ! k), mm_txnid := mm_txnid (me_metas e ! k)\<rparr>"
  obtain rc c' where f: "write_meta_loop len (intr @ pw # wb # rest) (written_meta w e) (me_metas e ! k) = Inr (rc, c', wb # rest)" "rc \<noteq> 0"
    using write_loop_fails [OF p] by blast
  have "snd (snd (wb ?m c')) = ?m" using wb by (simp add: writes_def)
  then have "mdb_env_write_meta len (intr @ pw # wb # rest) ms w e = Inr (rc, e\<lparr>me_metas := (me_metas e)[k := ?m], me_flags := me_flags e OR MDB_FATAL_ERROR\<rparr>)"
    unfolding write_meta_eq [OF c] using f by (simp add: k_def)
  then show thesis using f(2) by (intro that [of rc ?m]) simp_all
qed

lemma begin_after:
  assumes c: "commits_from w e" and mti: "mti_txnid e \<in> {None, Some (mt_txnid w - 1)}"
    and e': "e' = e\<lparr>me_metas := (me_metas e)[unat (mt_txnid w) mod 2 := written_meta w e], mti_txnid := map_option (\<lambda>_. mt_txnid w) (mti_txnid e)\<rparr>"
  shows "metas_ok (me_metas e')" "mdb_env_pick_meta e' = Inr (written_meta w e)" "renew_write_meta e' = Inr (mt_txnid w + 1, written_meta w e)"
proof -
  have f: "metas_ok (me_metas e)" "mt_txnid w = mm_txnid (newest (me_metas e)) + 1" "mm_txnid (newest (me_metas e)) \<noteq> - 1" using c by (simp_all add: commits_from_def)
  note a = newest_after [OF f commits_place(5) [OF c]]
  show ok: "metas_ok (me_metas e')" using a(1) by (simp add: e')
  then show pick: "mdb_env_pick_meta e' = Inr (written_meta w e)" using pick_newest [of e'] a(2) by (simp add: metas_ok_def e')
  show "renew_write_meta e' = Inr (mt_txnid w + 1, written_meta w e)"
    using pick mti commits_place(4,5) [OF c] by (auto simp: renew_write_meta_def e' unat_and_1)
qed

lemma read_after:
  assumes c: "commits_from w e" and mti: "mti_txnid e \<in> {None, Some (mt_txnid w - 1)}"
    and e': "e' = e\<lparr>me_metas := (me_metas e)[unat (mt_txnid w) mod 2 := written_meta w e], mti_txnid := map_option (\<lambda>_. mt_txnid w) (mti_txnid e)\<rparr>"
  shows "renew_read_meta e' = Inr (mt_txnid w, written_meta w e)"
  using begin_after(2) [OF assms] mti commits_place(4,5) [OF c] by (auto simp: renew_read_meta_def e' unat_and_1)

text \<open>Calls of \<open>pwrite\<close> that have written the data when they return its length, and that set \<open>errno\<close> when they fail.\<close>

definition reports :: "int \<Rightarrow> pwrite \<Rightarrow> bool" where
  "reports len pw \<longleftrightarrow> (\<forall>d c. (fst (pw d c) = len \<longrightarrow> snd (snd (pw d c)) = d) \<and> (fst (pw d c) < 0 \<longrightarrow> fst (snd (pw d c)) \<noteq> 0))"

lemma write_loop_done:
  "write_meta_loop len pws meta mp = Inr (0, mp', rest) \<Longrightarrow> \<forall>pw\<in>set pws. reports len pw \<Longrightarrow> mp' = meta"
proof (induction pws arbitrary: mp)
  case (Cons pw pws)
  obtain n er c where c: "pw meta mp = (n, er, c)" by (cases "pw meta mp")
  have "fst (pw meta mp) = len \<longrightarrow> snd (snd (pw meta mp)) = meta" "fst (pw meta mp) < 0 \<longrightarrow> fst (snd (pw meta mp)) \<noteq> 0" using Cons.prems(2) by (simp_all add: reports_def)
  then show ?case using Cons c by (auto simp: Let_def E_IO_def split: if_splits)
qed simp

lemma write_meta_done:
  assumes c: "commits_from w e" and r: "mdb_env_write_meta len pws ms w e = Inr (0, e')" and p: "\<forall>pw\<in>set pws. reports len pw"
  shows "e' = e\<lparr>me_metas := (me_metas e)[unat (mt_txnid w) mod 2 := written_meta w e], mti_txnid := map_option (\<lambda>_. mt_txnid w) (mti_txnid e)\<rparr>"
proof -
  let ?k = "unat (mt_txnid w) mod 2"
  obtain rc mp' rest where l: "write_meta_loop len pws (written_meta w e) (me_metas e ! ?k) = Inr (rc, mp', rest)"
    using r unfolding write_meta_eq [OF c] by (cases "write_meta_loop len pws (written_meta w e) (me_metas e ! ?k)") auto
  have "rc = 0" using r unfolding write_meta_eq [OF c] l by (auto split: if_splits list.splits)
  moreover from this have "mp' = written_meta w e" using write_loop_done [of len pws _ _ mp' rest] l p by simp
  ultimately show ?thesis using r unfolding write_meta_eq [OF c] l by simp
qed

text \<open>C12: A commit. \<open>mdb_env_write_meta\<close> for a transaction that began from the newest meta page, after any number of interrupted writes: when the
  write succeeds, the newest meta page is that of the transaction, and the next transaction begins from it, with the next number, the databases and the first unused page that
  the committed one had; when the write fails and the old number is written back, the call gives an error, the environment is marked as broken and the newest meta page is the one before.
  In both cases the page of the last commit is not written to.\<close>

theorem commit_then_begin:
  assumes "commits_from w e" and "\<forall>pw\<in>set intr. interrupted pw" and "0 < len" and "if ok then writes len pw else fails len pw" and "writes len wb"
    and "mti_txnid e \<in> {None, Some (mt_txnid w - 1)}"
  shows "\<exists>rc e'. mdb_env_write_meta len (intr @ pw # wb # rest) ms w e = Inr (rc, e') \<and> (rc = 0 \<longleftrightarrow> ok) \<and>
     me_metas e' ! (1 - unat (mt_txnid w) mod 2) = newest (me_metas e) \<and>
     (if ok then
        (\<exists>m. renew_write_meta e' = Inr (mt_txnid w + 1, m) \<and> metas_ok (me_metas e') \<and> mdb_env_pick_meta e' = Inr m \<and>
           (let t' = snd (renew_fields fl m e' t) in take 2 (mt_dbs t') = take 2 (mt_dbs (w_txn w)) \<and> mt_next_pgno t' = mt_next_pgno (w_txn w)))
      else has_flag (me_flags e') MDB_FATAL_ERROR \<and> mdb_env_pick_meta e' = mdb_env_pick_meta e \<and> fst (renew_fields fl m0 e' t) = MDB_PANIC)"
proof -
  let ?k = "unat (mt_txnid w) mod 2"
  have f: "metas_ok (me_metas e)" "mt_txnid w = mm_txnid (newest (me_metas e)) + 1" "mm_txnid (newest (me_metas e)) \<noteq> - 1" "2 \<le> length (mt_dbs (w_txn w))"
    using assms(1) by (simp_all add: commits_from_def)
  have other: "(me_metas e)[?k := m] ! (1 - ?k) = newest (me_metas e)" for m
  proof -
    have "?k \<noteq> 1 - ?k" by presburger
    then show ?thesis using next_place(3) [OF f(1-3)] by simp
  qed
  show ?thesis
  proof (cases ok)
    case True
    let ?e = "e\<lparr>me_metas := (me_metas e)[?k := written_meta w e], mti_txnid := map_option (\<lambda>_. mt_txnid w) (mti_txnid e)\<rparr>"
    have "writes len pw" using assms(4) True by simp
    note w = write_meta_ok [OF assms(1-3) this, of "wb # rest" ms] and b = begin_after [OF assms(1,6) refl]
    have "take 2 (mt_dbs (w_txn w)) = [mt_dbs (w_txn w) ! 0, mt_dbs (w_txn w) ! 1]"
      using f(4) by (cases "mt_dbs (w_txn w)"; cases "tl (mt_dbs (w_txn w))") auto
    then have "let t' = snd (renew_fields fl (written_meta w e) ?e t) in take 2 (mt_dbs t') = take 2 (mt_dbs (w_txn w)) \<and> mt_next_pgno t' = mt_next_pgno (w_txn w)"
      by (simp add: renew_fields_def Let_def written_meta_def new_meta_def CORE_DBS_def FREE_DBI_def MAIN_DBI_def)
    then show ?thesis using w b other True by (intro exI [of _ 0] exI [of _ ?e]) auto
  next
    case False
    then have "fails len pw" using assms(4) by simp
    then obtain rc m where w: "mdb_env_write_meta len (intr @ pw # wb # rest) ms w e = Inr (rc, e\<lparr>me_metas := (me_metas e)[?k := m], me_flags := me_flags e OR MDB_FATAL_ERROR\<rparr>)" "rc \<noteq> 0"
      "mm_txnid m = mm_txnid (me_metas e ! ?k)" using write_meta_fails [OF assms(1-3) _ assms(5)] by metis
    let ?e = "e\<lparr>me_metas := (me_metas e)[?k := m], me_flags := me_flags e OR MDB_FATAL_ERROR\<rparr>"
    have "length (me_metas e) = 2" using f(1) by (simp add: metas_ok_def)
    then have "mdb_env_pick_meta ?e = mdb_env_pick_meta e" using newest_kept [OF f(1-3) w(3)] by (simp add: pick_newest)
    moreover have "has_flag (me_flags ?e) MDB_FATAL_ERROR" by (simp add: has_flag_def MDB_FATAL_ERROR_def bit.conj_disj_distrib2 or_eq_0_iff)
    ultimately show ?thesis using w other False by (intro exI [of _ rc] exI [of _ ?e]) (simp add: renew_fields_def Let_def)
  qed
qed

text \<open>A new environment, and its first write transaction.\<close>

definition no_db :: MDB_db where
  "no_db = \<lparr>md_pad = 0, md_flags = 0, md_depth = 0, md_branch_pages = 0, md_leaf_pages = 0, md_overflow_pages = 0, md_entries = 0, md_root = 0\<rparr>"

definition bare_env :: MDB_menv where
  "bare_env = \<lparr>me_flags = 0, me_psize = 4096, me_maxpg = 256, me_pghead = None, me_pglast = 0, me_pgoldest = 0, me_txns = None, me_dpages = [],
     me_metas = [], me_mapsize = 1048576, me_dbflags = [0, 0], mti_txnid = Some 0\<rparr>"

definition first_meta :: MDB_meta where
  "first_meta = mdb_env_init_meta0 bare_env \<lparr>mm_magic = 0, mm_version = 0, mm_address = 0, mm_mapsize = 0, mm_dbs = [no_db, no_db], mm_last_pg = 0, mm_txnid = 0\<rparr>"

definition first_env :: MDB_menv where
  "first_env = bare_env\<lparr>me_metas := [first_meta, first_meta]\<rparr>"

definition first_txn :: MDB_wtxn where
  "first_txn = \<lparr>w_txn = nested_txn\<lparr>mt_dbs := [no_db\<lparr>md_pad := 4096, md_root := P_INVALID\<rparr>, no_db\<lparr>md_root := 2, md_depth := 1\<rparr>], mt_next_pgno := 3\<rparr>,
     w_env = \<lparr>me_flags = 0, me_psize = 4096, me_maxpg = 256, me_pghead = None, me_pglast = 0, me_pgoldest = 0, me_txns = None, me_dpages = []\<rparr>,
     mt_txnid = 1, mt_free_pgs = \<lparr>alloclen = 2, cells = [0, 0, 0]\<rparr>, mt_loose_pgs = [], mt_loose_count = 0, mt_dirty_room = 5\<rparr>"

lemma first_metas: "mm_txnid first_meta = 0" "mm_magic first_meta = MDB_MAGIC" "mm_version first_meta = MDB_DATA_VERSION" "unat (mm_psize first_meta) = 4096"
  by (simp_all add: first_meta_def mdb_env_init_meta0_def mm_psize_def bare_env_def FREE_DBI_def MAIN_DBI_def)

lemma first_commits: "commits_from first_txn first_env"
  by (simp add: commits_from_def metas_ok_def newest_def first_env_def first_metas first_txn_def Let_def) (simp add: bare_env_def has_flag_def)

theorem commit_then_begin_witness:
  "\<exists>rc e'. mdb_env_write_meta 136 ([\<lambda>d c. (-1, E_INTR, c)] @ (\<lambda>d c. (136, 0, d)) # (\<lambda>d c. (136, 0, d)) # []) 0 first_txn first_env = Inr (rc, e') \<and> rc = 0 \<and>
     (\<exists>m. renew_write_meta e' = Inr (2, m) \<and> mt_next_pgno (snd (renew_fields 0 m e' nested_txn)) = 3)"
proof -
  have m: "mti_txnid first_env \<in> {None, Some (mt_txnid first_txn - 1)}" "mt_txnid first_txn = 1" "mt_next_pgno (w_txn first_txn) = 3"
    by (simp_all add: first_env_def bare_env_def first_txn_def)
  have i: "\<forall>pw\<in>set [\<lambda>d c. (-1, E_INTR, c)]. interrupted pw" "if True then writes 136 (\<lambda>d c. (136, 0, d)) else fails 136 (\<lambda>d c. (136, 0, d))" "writes 136 (\<lambda>d c. (136, 0, d))" "(0 :: int) < 136"
    by (simp_all add: interrupted_def writes_def)
  show ?thesis using commit_then_begin [OF first_commits i(1,4,2,3) m(1), of "[]" 0 0 nested_txn] m(2,3) by (auto simp: Let_def)
qed

text \<open>The two pages, with the header that the program checks, and what is read from the file.\<close>

definition good_metas :: "nat \<Rightarrow> MDB_meta list \<Rightarrow> bool" where
  "good_metas ps ms \<longleftrightarrow> length ms = 2 \<and> 0 < ps \<and> (\<forall>i<2. mm_magic (ms ! i) = MDB_MAGIC \<and> mm_version (ms ! i) = MDB_DATA_VERSION \<and> unat (mm_psize (ms ! i)) = ps)"

definition reads_pages :: "int \<Rightarrow> nat \<Rightarrow> pread \<Rightarrow> MDB_meta list \<Rightarrow> bool" where
  "reads_pages sz ps pread ms \<longleftrightarrow> (\<forall>i<2. \<exists>er. pread (i * ps) = (sz, er, P_META, ms ! i))"

lemma read_header_ok:
  assumes "good_metas ps ms" and "reads_pages sz ps pread ms"
  shows "mdb_env_read_header sz pread meta = (0, newest ms)"
proof -
  obtain e0 e1 where p: "pread 0 = (sz, e0, P_META, ms ! 0)" "pread ps = (sz, e1, P_META, ms ! 1)"
    using assms(2) by (fastforce simp: reads_pages_def less_2_cases_iff)
  have m: "mm_magic (ms ! i) = MDB_MAGIC" "mm_version (ms ! i) = MDB_DATA_VERSION" "unat (mm_psize (ms ! i)) = ps" if "i < 2" for i
    using assms(1) that by (simp_all add: good_metas_def)
  have "read_meta_page sz pread 0 meta = Inr (ms ! 0)" using p(1) m [of 0] by (simp add: read_meta_page_def F_ISSET_def)
  moreover have "read_meta_page sz pread ps (ms ! 0) = Inr (newest ms)" using p(2) m [of 1] assms(1) by (simp add: read_meta_page_def F_ISSET_def newest_def good_metas_def)
  ultimately show ?thesis using m(3) [of 0] by (simp add: mdb_env_read_header_def NUM_METAS_def numeral_2_eq_2)
qed

end
