(* ===== verification/Mdb_Flush.thy ===== *)
theory Mdb_Flush
  imports Mdb_Cow Mdb_Meta
begin

text \<open>
  The commit of a write transaction on the data file (\<open>lib/lmdb/mdb.c\<close>): \<open>mdb_page_flush\<close> writes the dirty pages, adjacent ones with one call, and then \<open>mdb_env_write_meta\<close>
  (theory \<open>Mdb_Meta\<close>) makes them visible. A system call is a value (\<open>io_call\<close>); what the calls return is a list of functions, one for each call, that give the result and \<open>errno\<close>.
  The model records the calls that were made with their results. What a call does to the file is stated apart, in \<open>wrote\<close> and \<open>spared\<close>.
\<close>

subsection \<open>The calls\<close>

definition P_KEEP :: u16 where "P_KEEP = 0x8000"
definition MDB_COMMIT_PAGES :: nat where "MDB_COMMIT_PAGES = 64"
definition MAX_WRITE :: size_t where "MAX_WRITE = 0x40000000"

text \<open>A vector of pages with their sizes, at a position; \<open>writev\<close> writes at the position of the \<open>lseek\<close> before it.\<close>

datatype io_call = Io_pwrite size_t "(MDB_page \<times> size_t) list" | Io_lseek size_t | Io_writev size_t "(MDB_page \<times> size_t) list"

type_synonym io = "io_call \<Rightarrow> int \<times> int"
type_synonym trace = "(io_call \<times> int) list"

text \<open>\<open>retry_write\<close> and \<open>retry_seek\<close>: the code, the calls and the results that are left. \<open>sought\<close>: the \<open>lseek\<close> has been done.\<close>

definition next_call :: "bool \<Rightarrow> size_t \<Rightarrow> (MDB_page \<times> size_t) list \<Rightarrow> io_call" where
  "next_call sought wpos iov = (if length iov = 1 then Io_pwrite wpos iov else if sought then Io_writev wpos iov else Io_lseek wpos)"

fun write_iov :: "io list \<Rightarrow> bool \<Rightarrow> size_t \<Rightarrow> size_t \<Rightarrow> (MDB_page \<times> size_t) list \<Rightarrow> (int \<times> trace \<times> io list) res" where
  "write_iov [] sought wpos wsize iov = Inl Diverges"
| "write_iov (io # ios) sought wpos wsize iov =
     (let call = next_call sought wpos iov; (r, e) = io call in
      if length iov = 1 \<or> sought then
        if r = int (unat wsize) then Inr (0, [(call, r)], ios)
        else if r < 0 then
          if e = E_INTR then bindE (write_iov ios False wpos wsize iov) (\<lambda>(rc, tr, rest). Inr (rc, (call, r) # tr, rest))
          else Inr (e, [(call, r)], ios)
        else Inr (E_IO, [(call, r)], ios)
      else if r = - 1 then
        if e = E_INTR then bindE (write_iov ios False wpos wsize iov) (\<lambda>(rc, tr, rest). Inr (rc, (call, r) # tr, rest))
        else Inr (e, [(call, r)], ios)
      else bindE (write_iov ios True wpos wsize iov) (\<lambda>(rc, tr, rest). Inr (rc, (call, r) # tr, rest)))"

subsection \<open>The loop\<close>

text \<open>The local variables of \<open>mdb_page_flush\<close>; \<open>iov\<close> holds addresses.\<close>

record flushing =
  fl_dl :: "MDB_ID2 list"
  fl_dp :: nat
  fl_pos :: size_t
  fl_size :: size_t
  fl_wpos :: size_t
  fl_wsize :: size_t
  fl_next :: size_t
  fl_iov :: "(nat \<times> size_t) list"

definition mp_pages :: "MDB_page \<Rightarrow> u32" where
  "mp_pages p = ucast (mp_lower p) OR push_bit 16 (ucast (mp_upper p))"

definition page_bytes :: "nat \<Rightarrow> MDB_page \<Rightarrow> size_t" where
  "page_bytes psize p = (if IS_OVERFLOW p then of_nat psize * ucast (mp_pages p) else of_nat psize)"

text \<open>Writing the pages that have been collected, when the next one does not go with them: the code, the calls, the results left, the variables, and whether there was something to decide.\<close>

definition flush_write :: "io list \<Rightarrow> flushing \<Rightarrow> MDB_wtxn \<Rightarrow> (int \<times> trace \<times> io list \<times> flushing \<times> bool) res" where
  "flush_write ios f w =
     (if fl_pos f \<noteq> fl_next f \<or> length (fl_iov f) = MDB_COMMIT_PAGES \<or> MAX_WRITE < fl_wsize f + fl_size f then
        if fl_iov f = [] then Inr (0, [], ios, f, True)
        else
          bindE (write_iov ios False (fl_wpos f) (fl_wsize f) (map (\<lambda>(a, n). (me_mem (w_txn w) a, n)) (fl_iov f))) (\<lambda>(rc, tr, ios').
          Inr (rc, tr, ios', if rc = 0 then f\<lparr>fl_iov := []\<rparr> else f, True))
      else Inr (0, [], ios, f, False))"

definition flush_add :: "flushing \<Rightarrow> flushing res" where
  "flush_add f =
     (if length (fl_iov f) < MDB_COMMIT_PAGES then
        Inr (f\<lparr>fl_next := fl_pos f + fl_size f, fl_iov := fl_iov f @ [(fl_dp f, fl_size f)], fl_wsize := fl_wsize f + fl_size f\<rparr>)
      else Inl Out_of_bounds)"

text \<open>The loop over the dirty list from index \<open>i\<close> on; \<open>pc\<close> is \<open>pagecount\<close>.\<close>

fun flush_loop :: "nat \<Rightarrow> nat \<Rightarrow> nat \<Rightarrow> io list \<Rightarrow> flushing \<Rightarrow> MDB_wtxn \<Rightarrow> (int \<times> trace \<times> flushing \<times> MDB_wtxn) res" where
  "flush_loop 0 pc i ios f w = Inl Diverges"
| "flush_loop (Suc k) pc i ios f w =
     (let step = (\<lambda>over f w.
        bindE (flush_write ios f w) (\<lambda>(rc, tr, ios', f', brk).
        if rc \<noteq> 0 then Inr (rc, tr, f', w)
        else if brk \<and> over then Inr (0, tr, f', w)
        else
          bindE (flush_add (if brk then f'\<lparr>fl_wpos := fl_pos f', fl_wsize := 0\<rparr> else f')) (\<lambda>f''.
          bindE (flush_loop k pc (Suc i) ios' f'' w) (\<lambda>(rc, tr', f3, w'). Inr (rc, tr @ tr', f3, w'))))) in
      if Suc i \<le> pc then
        bindE (aget (fl_dl f) (Suc i)) (\<lambda>d.
        let dp = me_mem (w_txn w) (mptr d) in
        if has_flag (mp_flags dp) (P_LOOSE OR P_KEEP) then
          flush_loop k pc (Suc i) ios (f\<lparr>fl_dl := (fl_dl f)[Suc i := d\<lparr>mid := 0\<rparr>], fl_dp := mptr d\<rparr>)
            (put_page (mptr d) (dp\<lparr>mp_flags := clear_flag (mp_flags dp) P_KEEP\<rparr>) w)
        else
          step False (f\<lparr>fl_dp := mptr d, fl_pos := mid d * of_nat (me_psize (w_env w)), fl_size := page_bytes (me_psize (w_env w)) dp\<rparr>)
            (put_page (mptr d) (dp\<lparr>mp_flags := clear_flag (mp_flags dp) P_DIRTY\<rparr>) w))
      else step True f w)"

text \<open>The second loop: pages that were skipped stay in the list, the others are freed.\<close>

definition mdb_dpage_free :: "nat \<Rightarrow> MDB_wtxn \<Rightarrow> MDB_wtxn" where
  "mdb_dpage_free a w = (let dp = me_mem (w_txn w) a in if \<not> IS_OVERFLOW dp \<or> mp_pages dp = 1 then mdb_page_free a w else w)"

fun flush_free :: "nat \<Rightarrow> nat \<Rightarrow> nat \<Rightarrow> MDB_ID2 list \<Rightarrow> MDB_wtxn \<Rightarrow> (nat \<times> MDB_ID2 list \<times> MDB_wtxn) res" where
  "flush_free 0 i j dl w = Inr (j, dl, w)"
| "flush_free (Suc n) i j dl w =
     bindE (aget dl (Suc i)) (\<lambda>d.
     if mid d = 0 then bindE (aset dl (Suc j) (d\<lparr>mid := mp_pgno (me_mem (w_txn w) (mptr d))\<rparr>)) (\<lambda>dl'. flush_free n (Suc i) (Suc j) dl' w)
     else flush_free n (Suc i) j dl (mdb_dpage_free (mptr d) w))"

text \<open>With \<open>MDB_WRITEMAP\<close> the pages are in the map, and only their flags change.\<close>

fun flush_flags :: "nat \<Rightarrow> nat \<Rightarrow> nat \<Rightarrow> MDB_ID2 list \<Rightarrow> MDB_wtxn \<Rightarrow> (nat \<times> MDB_ID2 list \<times> MDB_wtxn) res" where
  "flush_flags 0 i j dl w = Inr (j, dl, w)"
| "flush_flags (Suc n) i j dl w =
     bindE (aget dl (Suc i)) (\<lambda>d.
     let dp = me_mem (w_txn w) (mptr d) in
     if has_flag (mp_flags dp) (P_LOOSE OR P_KEEP) then
       bindE (aset dl (Suc j) d) (\<lambda>dl'. flush_flags n (Suc i) (Suc j) dl' (put_page (mptr d) (dp\<lparr>mp_flags := clear_flag (mp_flags dp) P_KEEP\<rparr>) w))
     else flush_flags n (Suc i) j dl (put_page (mptr d) (dp\<lparr>mp_flags := clear_flag (mp_flags dp) P_DIRTY\<rparr>) w))"

definition set_dirty_list :: "MDB_ID2 list \<Rightarrow> MDB_wtxn \<Rightarrow> MDB_wtxn" where
  "set_dirty_list dl = upd_txn (\<lambda>t. t\<lparr>mt_lists := (case mt_lists t of [] \<Rightarrow> [] | (sp, _) # ls \<Rightarrow> (sp, dl) # ls)\<rparr>)"

definition flush_done :: "nat \<Rightarrow> nat \<Rightarrow> MDB_ID2 list \<Rightarrow> MDB_wtxn \<Rightarrow> MDB_wtxn res" where
  "flush_done i j dl w =
     bindE (aget dl 0) (\<lambda>n. bindE (aset dl 0 (n\<lparr>mid := of_nat j\<rparr>)) (\<lambda>dl'.
     Inr ((set_dirty_list dl' w)\<lparr>mt_dirty_room := mt_dirty_room w + of_nat i - of_nat j\<rparr>)))"

text \<open>\<open>mdb_page_flush\<close>: the code, the calls, and the transaction.\<close>

definition mdb_page_flush :: "io list \<Rightarrow> nat \<Rightarrow> MDB_wtxn \<Rightarrow> (int \<times> trace \<times> MDB_wtxn) res" where
  "mdb_page_flush ios keep w =
     (case mt_lists (w_txn w) of
        [] \<Rightarrow> Inl Bad_pointer
      | (sp, dl) # ls \<Rightarrow>
          bindE (aget dl 0) (\<lambda>n.
          let pc = unat (mid n) in
          if has_flag (me_flags (w_env w)) MDB_WRITEMAP then
            bindE (flush_flags (pc - keep) keep keep dl w) (\<lambda>(j, dl', w').
            bindE (flush_done (max keep pc) j dl' w') (\<lambda>w''. Inr (0, [], w'')))
          else
            bindE (flush_loop (pc - keep + MDB_COMMIT_PAGES + 2) pc keep ios
                \<lparr>fl_dl = dl, fl_dp = 0, fl_pos = 0, fl_size = 0, fl_wpos = 0, fl_wsize = 0, fl_next = 1, fl_iov = []\<rparr> w) (\<lambda>(rc, tr, f, w').
            if rc \<noteq> 0 then Inr (rc, tr, set_dirty_list (fl_dl f) w')
            else
              bindE (flush_free (pc - keep) keep keep (fl_dl f) w') (\<lambda>(j, dl', w'').
              bindE (flush_done (max keep pc) j dl' w'') (\<lambda>w3. Inr (0, tr, w3))))))"

subsection \<open>Where the bytes go\<close>

fun placed :: "size_t \<Rightarrow> (MDB_page \<times> size_t) list \<Rightarrow> (size_t \<times> MDB_page \<times> size_t) list" where
  "placed pos [] = []"
| "placed pos ((p, n) # v) = (pos, p, n) # placed (pos + n) v"

fun call_places :: "io_call \<Rightarrow> (size_t \<times> MDB_page \<times> size_t) list" where
  "call_places (Io_pwrite pos v) = placed pos v"
| "call_places (Io_lseek pos) = []"
| "call_places (Io_writev pos v) = placed pos v"

fun call_len :: "io_call \<Rightarrow> size_t" where
  "call_len (Io_pwrite pos v) = sum_list (map snd v)"
| "call_len (Io_lseek pos) = 0"
| "call_len (Io_writev pos v) = sum_list (map snd v)"

text \<open>The pages of the calls that wrote everything, in order, with the positions they went to; and what all calls were about.\<close>

definition completed :: "trace \<Rightarrow> (size_t \<times> MDB_page \<times> size_t) list" where
  "completed tr = concat (map (\<lambda>(c, r). if r = int (unat (call_len c)) then call_places c else []) tr)"

definition attempted :: "trace \<Rightarrow> (size_t \<times> MDB_page \<times> size_t) set" where
  "attempted tr = (\<Union>(c, r)\<in>set tr. set (call_places c))"

lemma trace_simps [simp]:
  "completed [] = []" "completed ((c, r) # tr) = (if r = int (unat (call_len c)) then call_places c else []) @ completed tr" "completed (tr @ tr') = completed tr @ completed tr'"
  "attempted [] = {}" "attempted ((c, r) # tr) = set (call_places c) \<union> attempted tr" "attempted (tr @ tr') = attempted tr \<union> attempted tr'"
  by (simp_all add: completed_def attempted_def)

lemma placed_append: "placed pos (u @ v) = placed pos u @ placed (pos + sum_list (map snd u)) v"
  by (induction u arbitrary: pos) (auto simp: add.assoc)

text \<open>A call that fails sets \<open>errno\<close>; a call that works transfers everything.\<close>

definition sane :: "io list \<Rightarrow> bool" where
  "sane ios \<longleftrightarrow> (\<forall>io\<in>set ios. \<forall>c. fst (io c) < 0 \<longrightarrow> snd (io c) \<noteq> 0)"

definition works :: "io \<Rightarrow> bool" where
  "works io \<longleftrightarrow> (\<forall>c. fst (io c) = int (unat (call_len c)))"

lemma write_iov_spec:
  "write_iov ios sought wpos wsize iov = Inr (rc, tr, rest) \<Longrightarrow> wsize = sum_list (map snd iov) \<Longrightarrow> sane ios \<Longrightarrow>
     set rest \<subseteq> set ios \<and> attempted tr \<subseteq> set (placed wpos iov) \<and> (rc = 0 \<longrightarrow> completed tr = placed wpos iov)"
proof (induction ios arbitrary: sought tr)
  case (Cons io ios)
  let ?c = "next_call sought wpos iov"
  have sane: "sane ios" "\<And>c. fst (io c) < 0 \<Longrightarrow> snd (io c) \<noteq> 0" using Cons.prems(3) by (simp_all add: sane_def)
  note IH = Cons.IH [OF _ Cons.prems(2) sane(1)]
  obtain r e where io: "io ?c = (r, e)" by (cases "io ?c")
  have e: "r < 0 \<Longrightarrow> e \<noteq> 0" using sane(2) [of ?c] io by simp
  have c: "set (call_places ?c) \<subseteq> set (placed wpos iov)" by (simp add: next_call_def)
  show ?case
  proof (cases "length iov = 1 \<or> sought")
    case True
    have cp: "call_places ?c = placed wpos iov" "call_len ?c = wsize" using Cons.prems(2) True by (auto simp: next_call_def)
    consider "r = int (unat wsize)" | "r < 0" "e = E_INTR" | "r \<noteq> int (unat wsize)" "\<not> (r < 0 \<and> e = E_INTR)" by linarith
    then show ?thesis
    proof cases
      case 1
      then have "rc = 0 \<and> tr = [(?c, r)] \<and> rest = ios" using Cons.prems(1) True io by (simp add: Let_def)
      then show ?thesis using cp 1 by auto
    next
      case 2
      then have n: "r \<noteq> int (unat wsize)" by linarith
      then obtain tr' where "write_iov ios False wpos wsize iov = Inr (rc, tr', rest)" "tr = (?c, r) # tr'" using Cons.prems(1) True io 2 by (auto simp: Let_def bindE_def split: sum.splits)
      then show ?thesis using IH [of False tr'] c cp n by auto
    next
      case 3
      then have "rc \<noteq> 0 \<and> tr = [(?c, r)] \<and> rest = ios" using Cons.prems(1) True io e by (auto simp: Let_def E_IO_def split: if_splits)
      then show ?thesis using c by auto
    qed
  next
    case False
    then have cp: "call_places ?c = []" by (simp add: next_call_def)
    show ?thesis
    proof (cases "r = - 1 \<and> e \<noteq> E_INTR")
      case True
      then have "rc \<noteq> 0 \<and> tr = [(?c, r)] \<and> rest = ios" using Cons.prems(1) False io e by (auto simp: Let_def)
      then show ?thesis using c by auto
    next
      case go: False
      then obtain tr' where "write_iov ios (r \<noteq> - 1) wpos wsize iov = Inr (rc, tr', rest)" "tr = (?c, r) # tr'"
        using Cons.prems(1) False io by (cases "r = - 1") (auto simp: Let_def bindE_def split: sum.splits)
      then show ?thesis using IH [of "r \<noteq> - 1" tr'] cp by auto
    qed
  qed
qed simp

lemma write_iov_works:
  assumes "works io" "works io'" and "wsize = sum_list (map snd iov)"
  shows "\<exists>tr rest. write_iov (io # io' # ios) False wpos wsize iov = Inr (0, tr, rest) \<and> rest \<in> {ios, io' # ios}"
proof -
  obtain e where io: "io (Io_pwrite wpos iov) = (int (unat wsize), e)" using assms(1,3) by (cases "io (Io_pwrite wpos iov)") (auto simp: works_def dest: spec [of _ "Io_pwrite wpos iov"])
  obtain e1 where sk: "io (Io_lseek wpos) = (0, e1)" using assms(1) by (cases "io (Io_lseek wpos)") (auto simp: works_def dest: spec [of _ "Io_lseek wpos"])
  obtain e2 where wv: "io' (Io_writev wpos iov) = (int (unat wsize), e2)" using assms(2,3) by (cases "io' (Io_writev wpos iov)") (auto simp: works_def dest: spec [of _ "Io_writev wpos iov"])
  show ?thesis using io sk wv by (cases "length iov = 1") (auto simp: next_call_def Let_def)
qed

subsection \<open>What the loop does\<close>

definition clean :: "MDB_page \<Rightarrow> MDB_page" where
  "clean p = p\<lparr>mp_flags := clear_flag (mp_flags p) P_DIRTY\<rparr>"

definition unkeep :: "MDB_page \<Rightarrow> MDB_page" where
  "unkeep p = p\<lparr>mp_flags := clear_flag (mp_flags p) P_KEEP\<rparr>"

definition skipped :: "(nat \<Rightarrow> MDB_page) \<Rightarrow> MDB_ID2 \<Rightarrow> bool" where
  "skipped m d \<longleftrightarrow> has_flag (mp_flags (m (mptr d))) (P_LOOSE OR P_KEEP)"

text \<open>Where a page goes; the memory, and the entries of the list, afterwards.\<close>

definition place :: "nat \<Rightarrow> (nat \<Rightarrow> MDB_page) \<Rightarrow> MDB_ID2 \<Rightarrow> size_t \<times> MDB_page \<times> size_t" where
  "place ps m d = (mid d * of_nat ps, clean (m (mptr d)), page_bytes ps (m (mptr d)))"

definition flush_mem :: "MDB_ID2 list \<Rightarrow> (nat \<Rightarrow> MDB_page) \<Rightarrow> nat \<Rightarrow> MDB_page" where
  "flush_mem ds m a = (if a \<in> mptr ` set ds then if has_flag (mp_flags (m a)) (P_LOOSE OR P_KEEP) then unkeep (m a) else clean (m a) else m a)"

definition mark :: "(nat \<Rightarrow> MDB_page) \<Rightarrow> MDB_ID2 \<Rightarrow> MDB_ID2" where
  "mark m d = (if skipped m d then d\<lparr>mid := 0\<rparr> else d)"

abbreviation set_mem :: "(nat \<Rightarrow> MDB_page) \<Rightarrow> MDB_wtxn \<Rightarrow> MDB_wtxn" where
  "set_mem m \<equiv> upd_txn (\<lambda>t. t\<lparr>me_mem := m\<rparr>)"

definition pend :: "(nat \<Rightarrow> MDB_page) \<Rightarrow> flushing \<Rightarrow> (size_t \<times> MDB_page \<times> size_t) list" where
  "pend m f = placed (fl_wpos f) (map (\<lambda>(a, n). (m a, n)) (fl_iov f))"

definition loop_inv :: "flushing \<Rightarrow> bool" where
  "loop_inv f \<longleftrightarrow> fl_wsize f = sum_list (map snd (fl_iov f)) \<and> (fl_iov f \<noteq> [] \<longrightarrow> fl_next f = fl_wpos f + fl_wsize f) \<and> length (fl_iov f) \<le> MDB_COMMIT_PAGES"

lemma iov_sizes: "map snd (map (\<lambda>(a, n). (m a, n)) v) = map snd v"
  by auto

lemma flush_write_spec:
  assumes inv: "loop_inv f" and sane: "sane ios" and r: "flush_write ios f w = Inr (rc, tr, ios', f', brk)" and p: "fl_iov f = [] \<Longrightarrow> fl_pos f \<noteq> fl_next f"
  defines "f2 \<equiv> if brk then f'\<lparr>fl_wpos := fl_pos f', fl_wsize := 0\<rparr> else f'"
  shows "set ios' \<subseteq> set ios" "attempted tr \<subseteq> set (pend (me_mem (w_txn w)) f)"
    "rc = 0 \<Longrightarrow> completed tr = (if brk then pend (me_mem (w_txn w)) f else []) \<and> loop_inv f2 \<and> length (fl_iov f2) < MDB_COMMIT_PAGES \<and> fl_wpos f2 + fl_wsize f2 = fl_pos f \<and>
       f2 = f\<lparr>fl_wpos := fl_wpos f2, fl_wsize := fl_wsize f2, fl_iov := (if brk then [] else fl_iov f)\<rparr>"
    "brk = (fl_pos f \<noteq> fl_next f \<or> length (fl_iov f) = MDB_COMMIT_PAGES \<or> MAX_WRITE < fl_wsize f + fl_size f)"
proof -
  let ?v = "map (\<lambda>(a, n). (me_mem (w_txn w) a, n)) (fl_iov f)"
  show c: "brk = (fl_pos f \<noteq> fl_next f \<or> length (fl_iov f) = MDB_COMMIT_PAGES \<or> MAX_WRITE < fl_wsize f + fl_size f)"
    using r by (auto simp: flush_write_def bindE_def split: if_splits sum.splits)
  have sz: "fl_wsize f = sum_list (map snd ?v)" using inv by (simp only: loop_inv_def iov_sizes)
  have "set ios' \<subseteq> set ios \<and> attempted tr \<subseteq> set (pend (me_mem (w_txn w)) f) \<and> (rc = 0 \<longrightarrow> completed tr = (if brk then pend (me_mem (w_txn w)) f else []) \<and> loop_inv f2 \<and> length (fl_iov f2) < MDB_COMMIT_PAGES \<and> fl_wpos f2 + fl_wsize f2 = fl_pos f \<and>
       f2 = f\<lparr>fl_wpos := fl_wpos f2, fl_wsize := fl_wsize f2, fl_iov := (if brk then [] else fl_iov f)\<rparr>)"
  proof (cases brk)
    case False
    then have "rc = 0 \<and> tr = [] \<and> ios' = ios \<and> f' = f \<and> fl_pos f = fl_next f \<and> length (fl_iov f) \<noteq> MDB_COMMIT_PAGES" using r c by (simp add: flush_write_def)
    moreover have "fl_wpos f + fl_wsize f = fl_pos f" if "fl_iov f \<noteq> []" "fl_pos f = fl_next f" using that inv by (simp add: loop_inv_def)
    ultimately show ?thesis using inv False p by (auto simp: f2_def loop_inv_def)
  next
    case True
    show ?thesis
    proof (cases "fl_iov f = []")
      case e: True
      then have "rc = 0 \<and> tr = [] \<and> ios' = ios \<and> f' = f" using r c True by (simp add: flush_write_def)
      then show ?thesis using e True by (simp add: f2_def loop_inv_def pend_def MDB_COMMIT_PAGES_def)
    next
      case False
      then have w: "write_iov ios False (fl_wpos f) (fl_wsize f) ?v = Inr (rc, tr, ios')" "f' = (if rc = 0 then f\<lparr>fl_iov := []\<rparr> else f)"
        using r c True by (auto simp: flush_write_def bindE_def split: if_splits sum.splits)
      show ?thesis using write_iov_spec [OF w(1) sz sane] w(2) True by (simp add: f2_def loop_inv_def pend_def MDB_COMMIT_PAGES_def)
    qed
  qed
  then show "set ios' \<subseteq> set ios" "attempted tr \<subseteq> set (pend (me_mem (w_txn w)) f)"
    "rc = 0 \<Longrightarrow> completed tr = (if brk then pend (me_mem (w_txn w)) f else []) \<and> loop_inv f2 \<and> length (fl_iov f2) < MDB_COMMIT_PAGES \<and> fl_wpos f2 + fl_wsize f2 = fl_pos f \<and>
       f2 = f\<lparr>fl_wpos := fl_wpos f2, fl_wsize := fl_wsize f2, fl_iov := (if brk then [] else fl_iov f)\<rparr>" by blast+
qed

text \<open>The page that the loop is at joins the ones that are collected.\<close>

lemma flush_add_spec:
  assumes "loop_inv f" and "length (fl_iov f) < MDB_COMMIT_PAGES" and "fl_wpos f + fl_wsize f = fl_pos f"
  obtains f' where "flush_add f = Inr f'" "loop_inv f'" "pend m f' = pend m f @ [(fl_pos f, m (fl_dp f), fl_size f)]" "fl_iov f' = fl_iov f @ [(fl_dp f, fl_size f)]"
    "fl_next f' = fl_pos f + fl_size f" "fl_pos f' = fl_pos f" "fl_dl f' = fl_dl f" "fl_size f' = fl_size f"
proof -
  let ?f = "f\<lparr>fl_next := fl_pos f + fl_size f, fl_iov := fl_iov f @ [(fl_dp f, fl_size f)], fl_wsize := fl_wsize f + fl_size f\<rparr>"
  have s: "sum_list (map snd (map (\<lambda>(a, n). (m a, n)) (fl_iov f))) = fl_wsize f" using assms(1) by (simp only: loop_inv_def iov_sizes)
  have "loop_inv ?f" using assms by (auto simp: loop_inv_def add.assoc [symmetric])
  moreover have "pend m ?f = pend m f @ [(fl_pos f, m (fl_dp f), fl_size f)]" using assms(3) s by (simp add: pend_def placed_append)
  ultimately show thesis using assms(2) by (intro that [of ?f]) (simp_all add: flush_add_def)
qed

text \<open>One round for a page that is written.\<close>

lemma pend_same: "fl_wpos f' = fl_wpos f \<Longrightarrow> fl_iov f' = fl_iov f \<Longrightarrow> (\<And>a. a \<in> fst ` set (fl_iov f) \<Longrightarrow> m' a = m a) \<Longrightarrow> pend m' f' = pend m f"
  by (force simp: pend_def intro!: arg_cong [of _ _ "placed (fl_wpos f)"])

definition flush_page :: "MDB_ID2 \<Rightarrow> MDB_wtxn \<Rightarrow> MDB_wtxn" where
  "flush_page d w = put_page (mptr d) ((if skipped (me_mem (w_txn w)) d then unkeep else clean) (me_mem (w_txn w) (mptr d))) w"

definition at_page :: "MDB_ID2 \<Rightarrow> MDB_wtxn \<Rightarrow> flushing \<Rightarrow> flushing" where
  "at_page d w f = f\<lparr>fl_dp := mptr d, fl_pos := mid d * of_nat (me_psize (w_env w)), fl_size := page_bytes (me_psize (w_env w)) (me_mem (w_txn w) (mptr d))\<rparr>"

lemma flush_step_on:
  assumes inv: "loop_inv f" and sane: "sane ios" and i: "Suc i \<le> pc" "fl_dl f ! Suc i = d" "Suc i < length (fl_dl f)" and nk: "\<not> skipped (me_mem (w_txn w)) d"
    and p: "fl_iov f = [] \<Longrightarrow> mid d * of_nat (me_psize (w_env w)) \<noteq> fl_next f" and new: "mptr d \<notin> fst ` set (fl_iov f)"
    and fw: "flush_write ios (at_page d w f) (flush_page d w) = Inr (0, tr1, ios', f1, brk)"
  defines "pl \<equiv> place (me_psize (w_env w)) (me_mem (w_txn w)) d" and "m \<equiv> me_mem (w_txn (flush_page d w))"
  obtains f2 where "flush_loop (Suc k) pc i ios f w = bindE (flush_loop k pc (Suc i) ios' f2 (flush_page d w)) (\<lambda>(rc, tr', f3, w'). Inr (rc, tr1 @ tr', f3, w'))" "loop_inv f2"
      "completed tr1 @ pend m f2 = pend (me_mem (w_txn w)) f @ [pl]" "attempted tr1 \<subseteq> set (pend (me_mem (w_txn w)) f)" "set (pend m f2) \<subseteq> set (pend (me_mem (w_txn w)) f @ [pl])"
      "fl_iov f2 \<noteq> []" "fl_next f2 = fl_pos f2 + fl_size f2" "fl_size f2 = page_bytes (me_psize (w_env w)) (me_mem (w_txn w) (mptr d))" "fl_dl f2 = fl_dl f"
      "fst ` set (fl_iov f2) \<subseteq> insert (mptr d) (fst ` set (fl_iov f))"
proof -
  let ?m = "me_mem (w_txn w)" and ?f = "at_page d w f"
  have m: "m = ?m(mptr d := clean (?m (mptr d)))" using nk by (simp add: m_def flush_page_def)
  have pf: "pend m ?f = pend ?m f" using new by (intro pend_same) (auto simp: m at_page_def rev_image_eqI)
  have inv': "loop_inv ?f" using inv by (simp add: loop_inv_def at_page_def)
  have pos: "fl_iov ?f = [] \<Longrightarrow> fl_pos ?f \<noteq> fl_next ?f" using p by (simp add: at_page_def)
  define fb where "fb = (if brk then f1\<lparr>fl_wpos := fl_pos f1, fl_wsize := 0\<rparr> else f1)"
  note sp = flush_write_spec [OF inv' sane fw pos] and s3 = flush_write_spec(3) [OF inv' sane fw pos refl, folded fb_def]
  define wp ws where "wp = fl_wpos fb" and "ws = fl_wsize fb"
  have f2eq: "fb = ?f\<lparr>fl_wpos := wp, fl_wsize := ws, fl_iov := (if brk then [] else fl_iov ?f)\<rparr>" using s3 unfolding wp_def ws_def by blast
  have fpos: "fl_pos fb = fl_pos ?f" "fl_wpos fb + fl_wsize fb = fl_pos ?f" using s3 by (simp add: f2eq, blast)
  have room: "loop_inv fb" "length (fl_iov fb) < MDB_COMMIT_PAGES" "fl_wpos fb + fl_wsize fb = fl_pos fb" using s3 fpos by (blast, blast, simp)
  obtain f2 where a: "flush_add fb = Inr f2" "loop_inv f2" "pend m f2 = pend m fb @ [(fl_pos fb, m (fl_dp fb), fl_size fb)]" "fl_iov f2 = fl_iov fb @ [(fl_dp fb, fl_size fb)]"
    "fl_next f2 = fl_pos fb + fl_size fb" "fl_pos f2 = fl_pos fb" "fl_dl f2 = fl_dl fb" "fl_size f2 = fl_size fb"
    using flush_add_spec [OF room] by blast
  have pl: "(fl_pos fb, m (fl_dp fb), fl_size fb) = pl" unfolding f2eq by (simp add: pl_def place_def m at_page_def)
  have "completed tr1 @ pend m fb = pend ?m f"
  proof (cases brk)
    case True
    then show ?thesis using s3 pf f2eq by (simp add: m_def pend_def)
  next
    case False
    then have "tr1 = []" "fb = ?f" using fw sp(4) by (simp_all add: flush_write_def fb_def split: if_splits)
    then show ?thesis using pf by simp
  qed
  then have c: "completed tr1 @ pend m f2 = pend ?m f @ [pl]" using a(3) pl by simp
  then have "set (pend m f2) \<subseteq> set (pend ?m f @ [pl])" by (metis Un_upper2 set_append)
  moreover have "flush_loop (Suc k) pc i ios f w = bindE (flush_loop k pc (Suc i) ios' f2 (flush_page d w)) (\<lambda>(rc, tr', f3, w'). Inr (rc, tr1 @ tr', f3, w'))"
    using i nk fw a(1) by (simp add: Let_def skipped_def flush_page_def clean_def fb_def at_page_def)
  ultimately show thesis using sp(2) a c pf f2eq by (intro that [of f2]) (auto simp: m_def at_page_def)
qed

lemma flush_step:
  assumes inv: "loop_inv f" and sane: "sane ios" and i: "Suc i \<le> pc" "fl_dl f ! Suc i = d" "Suc i < length (fl_dl f)" and nk: "\<not> skipped (me_mem (w_txn w)) d"
    and p: "fl_iov f = [] \<Longrightarrow> mid d * of_nat (me_psize (w_env w)) \<noteq> fl_next f" and new: "mptr d \<notin> fst ` set (fl_iov f)"
    and r: "flush_loop (Suc k) pc i ios f w = Inr (rc, tr, f', w')"
  obtains "rc \<noteq> 0" "attempted tr \<subseteq> set (pend (me_mem (w_txn w)) f)"
  | tr1 ios' f1 brk where "flush_write ios (at_page d w f) (flush_page d w) = Inr (0, tr1, ios', f1, brk)" "set ios' \<subseteq> set ios"
proof -
  obtain rc1 tr1 ios' f1 brk where fw: "flush_write ios (at_page d w f) (flush_page d w) = Inr (rc1, tr1, ios', f1, brk)"
    using r i nk by (auto simp: Let_def skipped_def flush_page_def clean_def bindE_def at_page_def split: sum.splits)
  have inv': "loop_inv (at_page d w f)" and pos: "fl_iov (at_page d w f) = [] \<Longrightarrow> fl_pos (at_page d w f) \<noteq> fl_next (at_page d w f)"
    using inv p by (simp_all add: loop_inv_def at_page_def)
  note sp = flush_write_spec [OF inv' sane fw pos]
  have pf: "pend (me_mem (w_txn (flush_page d w))) (at_page d w f) = pend (me_mem (w_txn w)) f" using new by (intro pend_same) (auto simp: flush_page_def at_page_def rev_image_eqI)
  show thesis
  proof (cases "rc1 = 0")
    case False
    then have "rc = rc1 \<and> tr = tr1" using r i nk fw by (simp add: Let_def skipped_def flush_page_def clean_def at_page_def)
    then show thesis using False sp(2) pf by (intro that(1)) simp_all
  next
    case True
    then show thesis using fw sp(1) by (intro that(2)) simp_all
  qed
qed

text \<open>Pages at other addresses are not affected.\<close>

definition to_write :: "nat \<Rightarrow> (nat \<Rightarrow> MDB_page) \<Rightarrow> MDB_ID2 list \<Rightarrow> (size_t \<times> MDB_page \<times> size_t) list" where
  "to_write ps m ds = map (place ps m) (filter (\<lambda>d. \<not> skipped m d) ds)"

lemma to_write_simps [simp]: "to_write ps m [] = []" "to_write ps m (d # ds) = (if skipped m d then [] else [place ps m d]) @ to_write ps m ds"
  by (simp_all add: to_write_def)

lemma other_pages:
  assumes "mptr d \<notin> mptr ` set ds"
  shows "to_write ps (m(mptr d := p)) ds = to_write ps m ds" "map (mark (m(mptr d := p))) ds = map (mark m) ds"
  using assms by (induction ds) (auto simp: place_def skipped_def mark_def)

lemma flush_mem_Cons:
  assumes "mptr d \<notin> mptr ` set ds"
  shows "flush_mem ds (m(mptr d := (if skipped m d then unkeep else clean) (m (mptr d)))) = flush_mem (d # ds) m"
  using assms by (auto simp: flush_mem_def skipped_def fun_eq_iff)

lemma flush_page_simps [simp]:
  "me_mem (w_txn (flush_page d w)) = (me_mem (w_txn w))(mptr d := (if skipped (me_mem (w_txn w)) d then unkeep else clean) (me_mem (w_txn w) (mptr d)))"
  "w_env (flush_page d w) = w_env w" "set_mem m (flush_page d w) = set_mem m w"
  by (simp_all add: flush_page_def put_page_def upd_txn_def)

definition loop_at :: "flushing \<Rightarrow> nat \<Rightarrow> (nat \<Rightarrow> MDB_page) \<Rightarrow> MDB_ID2 list \<Rightarrow> bool" where
  "loop_at f ps m ds \<longleftrightarrow> loop_inv f \<and> fl_pos f \<noteq> fl_next f \<and> (fl_iov f = [] \<longrightarrow> fl_next f = 1) \<and> distinct (map mptr ds) \<and> mptr ` set ds \<inter> fst ` set (fl_iov f) = {} \<and>
     (\<forall>d\<in>set ds. page_bytes ps (m (mptr d)) \<noteq> 0 \<and> mid d * of_nat ps \<noteq> 1)"

lemma list_at:
  assumes "d # ds = drop (Suc i) (take (Suc pc) dl)" and "pc < length dl"
  shows "Suc i \<le> pc" "Suc i < length dl" "dl ! Suc i = d" "drop (Suc (Suc i)) (take (Suc pc) dl) = ds"
proof -
  have "length (drop (Suc i) (take (Suc pc) dl)) = Suc (length ds)" by (simp flip: assms(1))
  then show i: "Suc i \<le> pc" "Suc i < length dl" using assms(2) by auto
  have "dl ! Suc i # drop (Suc (Suc i)) (take (Suc pc) dl) = d # ds"
    unfolding assms(1) using Cons_nth_drop_Suc [of "Suc i" "take (Suc pc) dl"] i by simp
  then show "dl ! Suc i = d" "drop (Suc (Suc i)) (take (Suc pc) dl) = ds" by simp_all
qed

lemma loop_at_Cons:
  assumes "loop_at f ps m (d # ds)"
  shows "loop_inv f" "fl_pos f \<noteq> fl_next f" "fl_iov f = [] \<Longrightarrow> mid d * of_nat ps \<noteq> fl_next f" "mptr d \<notin> mptr ` set ds" "mptr d \<notin> fst ` set (fl_iov f)"
  using assms unfolding loop_at_def by auto

lemma loop_at_next:
  assumes at: "loop_at f ps m (d # ds)" and f2: "loop_inv f2" "fl_iov f2 = [] \<longrightarrow> fl_next f2 = 1" "fl_pos f2 \<noteq> fl_next f2" "fst ` set (fl_iov f2) \<subseteq> insert (mptr d) (fst ` set (fl_iov f))"
  shows "loop_at f2 ps (m(mptr d := p)) ds"
proof -
  have d: "distinct (map mptr ds)" "mptr d \<notin> mptr ` set ds" "mptr ` set ds \<inter> fst ` set (fl_iov f) = {}" using at unfolding loop_at_def by auto
  have "mptr ` set ds \<inter> fst ` set (fl_iov f2) = {}" using Int_mono [OF subset_refl f2(4), of "mptr ` set ds"] d(2,3) by simp
  moreover have "page_bytes ps ((m(mptr d := p)) (mptr e)) \<noteq> 0 \<and> mid e * of_nat ps \<noteq> 1" if "e \<in> set ds" for e
  proof -
    have "mptr e \<noteq> mptr d" using d(2) imageI [OF that, of mptr] by metis
    then show ?thesis using at that by (simp add: loop_at_def)
  qed
  ultimately show ?thesis using f2(1-3) d(1) by (simp add: loop_at_def)
qed

lemma flush_loop_end:
  assumes at: "loop_at f ps (me_mem (w_txn w)) []" and sane: "sane ios" and r: "flush_loop k pc pc ios f w = Inr (rc, tr, f', w')"
  shows "attempted tr \<subseteq> set (pend (me_mem (w_txn w)) f) \<and> (rc = 0 \<longrightarrow> completed tr = pend (me_mem (w_txn w)) f \<and> w' = w \<and> fl_dl f' = fl_dl f)"
proof (cases k)
  case (Suc k)
  obtain rc1 tr1 ios' f1 brk where fw: "flush_write ios f w = Inr (rc1, tr1, ios', f1, brk)" using r Suc by (auto simp: Let_def bindE_def split: sum.splits)
  have p: "fl_pos f \<noteq> fl_next f" using at by (simp add: loop_at_def)
  note sp = flush_write_spec [OF _ sane fw p]
  have brk: brk using sp(4) at p by (simp add: loop_at_def)
  have eq: "rc = rc1 \<and> tr = tr1 \<and> w' = w \<and> f' = f1" using r Suc fw brk by (auto split: if_splits)
  have "fl_dl f1 = fl_dl f" using fw by (auto simp: flush_write_def bindE_def split: if_splits sum.splits)
  then show ?thesis using eq sp(2,3) at brk by (simp add: loop_at_def)
qed (use r in simp)

lemma flush_loop_spec:
  "flush_loop k pc i ios f w = Inr (rc, tr, f', w') \<Longrightarrow> ds = drop (Suc i) (take (Suc pc) (fl_dl f)) \<Longrightarrow> pc < length (fl_dl f) \<Longrightarrow> i \<le> pc \<Longrightarrow>
     loop_at f (me_psize (w_env w)) (me_mem (w_txn w)) ds \<Longrightarrow> sane ios \<Longrightarrow>
     attempted tr \<subseteq> set (pend (me_mem (w_txn w)) f @ to_write (me_psize (w_env w)) (me_mem (w_txn w)) ds) \<and>
     (rc = 0 \<longrightarrow> completed tr = pend (me_mem (w_txn w)) f @ to_write (me_psize (w_env w)) (me_mem (w_txn w)) ds \<and>
        w' = set_mem (flush_mem ds (me_mem (w_txn w))) w \<and> fl_dl f' = take (Suc i) (fl_dl f) @ map (mark (me_mem (w_txn w))) ds @ drop (Suc pc) (fl_dl f))"
proof (induction ds arbitrary: k i ios f w tr)
  case Nil
  then have "i = pc" by simp
  moreover have "flush_mem [] (me_mem (w_txn w)) = me_mem (w_txn w)" by (simp add: flush_mem_def fun_eq_iff)
  then have "set_mem (flush_mem [] (me_mem (w_txn w))) w = w" by (simp add: upd_txn_def)
  ultimately show ?case using flush_loop_end [OF Nil.prems(5,6)] Nil.prems(1) by simp
next
  case (Cons d ds)
  let ?m = "me_mem (w_txn w)" and ?ps = "me_psize (w_env w)" and ?dl = "fl_dl f"
  note l = list_at [OF Cons.prems(2,3)]
  note i = l(1,2) and d = l(3,4) and at = loop_at_Cons [OF Cons.prems(5)]
  let ?w = "flush_page d w"
  define m1 where "m1 = me_mem (w_txn ?w)"
  have m1: "m1 = ?m(mptr d := (if skipped ?m d then unkeep else clean) (?m (mptr d)))" by (simp add: m1_def)
  have same: "to_write ?ps m1 ds = to_write ?ps ?m ds" "map (mark m1) ds = map (mark ?m) ds" "flush_mem ds m1 = flush_mem (d # ds) ?m"
    using other_pages [OF at(4)] flush_mem_Cons [OF at(4)] by (simp_all add: m1)
  obtain k' where k: "k = Suc k'" using Cons.prems(1) by (cases k) auto
  show ?case
  proof (cases "skipped ?m d")
    case True
    let ?f = "f\<lparr>fl_dl := ?dl[Suc i := d\<lparr>mid := 0\<rparr>], fl_dp := mptr d\<rparr>"
    have r: "flush_loop k' pc (Suc i) ios ?f ?w = Inr (rc, tr, f', w')"
      using Cons.prems(1) True i d(1) by (simp add: k Let_def skipped_def flush_page_def unkeep_def)
    have ds: "ds = drop (Suc (Suc i)) (take (Suc pc) (fl_dl ?f))" using d(2) by (simp add: take_update_swap)
    have "loop_at ?f ?ps m1 ds" unfolding m1 using Cons.prems(5) by (intro loop_at_next [OF Cons.prems(5)]) (auto simp: loop_at_def loop_inv_def)
    moreover have "pend m1 ?f = pend ?m f" using at(5) by (intro pend_same) (auto simp: m1_def rev_image_eqI)
    ultimately have "attempted tr \<subseteq> set (pend ?m f @ to_write ?ps ?m ds)" "rc = 0 \<longrightarrow> completed tr = pend ?m f @ to_write ?ps ?m ds \<and> w' = set_mem (flush_mem (d # ds) ?m) w \<and>
        fl_dl f' = take (Suc (Suc i)) (fl_dl ?f) @ map (mark ?m) ds @ drop (Suc pc) (fl_dl ?f)"
      using Cons.IH [OF r ds, folded m1_def] same Cons.prems(3,6) i(1) by simp_all
    moreover have "take (Suc (Suc i)) (fl_dl ?f) = take (Suc i) ?dl @ [mark ?m d]" "drop (Suc pc) (fl_dl ?f) = drop (Suc pc) ?dl"
      using i True by (simp_all add: take_Suc_conv_app_nth mark_def)
    ultimately show ?thesis using True by simp
  next
    case False
    show ?thesis
    proof (rule flush_step [OF at(1) Cons.prems(6) i(1) d(1) i(2) False at(3,5) Cons.prems(1) [unfolded k]])
      assume "rc \<noteq> 0" "attempted tr \<subseteq> set (pend ?m f)"
      then show ?thesis by auto
    next
      fix tr1 ios' f1 brk
      assume fw: "flush_write ios (at_page d w f) ?w = Inr (0, tr1, ios', f1, brk)" "set ios' \<subseteq> set ios"
      obtain f2 where a: "flush_loop (Suc k') pc i ios f w = bindE (flush_loop k' pc (Suc i) ios' f2 ?w) (\<lambda>(rc, tr', f3, w'). Inr (rc, tr1 @ tr', f3, w'))" "loop_inv f2"
        "completed tr1 @ pend m1 f2 = pend ?m f @ [place ?ps ?m d]" "attempted tr1 \<subseteq> set (pend ?m f)" "set (pend m1 f2) \<subseteq> set (pend ?m f @ [place ?ps ?m d])"
        "fl_iov f2 \<noteq> []" "fl_next f2 = fl_pos f2 + fl_size f2" "fl_size f2 = page_bytes ?ps (?m (mptr d))" "fl_dl f2 = ?dl" "fst ` set (fl_iov f2) \<subseteq> insert (mptr d) (fst ` set (fl_iov f))"
        by (rule flush_step_on [OF at(1) Cons.prems(6) i(1) d(1) i(2) False at(3,5) fw(1), folded m1_def])
      obtain tr2 where l: "flush_loop k' pc (Suc i) ios' f2 ?w = Inr (rc, tr2, f', w')" "tr = tr1 @ tr2"
        using Cons.prems(1) a(1) k by (auto simp: bindE_def split: sum.splits)
      have "page_bytes ?ps (?m (mptr d)) \<noteq> 0" using Cons.prems(5) by (simp add: loop_at_def)
      then have "loop_at f2 ?ps m1 ds" unfolding m1 using a(2,6-8,10) by (intro loop_at_next [OF Cons.prems(5)]) simp_all
      moreover have "sane ios'" using fw(2) Cons.prems(6) by (auto simp: sane_def)
      ultimately have IH: "attempted tr2 \<subseteq> set (pend m1 f2 @ to_write ?ps ?m ds)" "rc = 0 \<longrightarrow> completed tr2 = pend m1 f2 @ to_write ?ps ?m ds \<and>
          w' = set_mem (flush_mem (d # ds) ?m) w \<and> fl_dl f' = take (Suc (Suc i)) ?dl @ map (mark ?m) ds @ drop (Suc pc) ?dl"
        using Cons.IH [OF l(1), folded m1_def] a(9) d(2) Cons.prems(3) i(1) same by simp_all
      have "take (Suc (Suc i)) ?dl = take (Suc i) ?dl @ [mark ?m d]" using i d(1) False by (simp add: take_Suc_conv_app_nth mark_def)
      then show ?thesis using IH l(2) a(3,4,5) False by auto
    qed
  qed
qed

text \<open>When every call works, the loop ends without an error.\<close>

lemma flush_write_works:
  assumes "loop_inv f" and "\<forall>io\<in>set ios. works io" and "2 \<le> length ios"
  obtains tr ios' f' brk where "flush_write ios f w = Inr (0, tr, ios', f', brk)" "length ios \<le> length ios' + 2" "set ios' \<subseteq> set ios"
proof -
  obtain io io' rest where ios: "ios = io # io' # rest" using assms(3) by (cases ios; cases "tl ios") auto
  have sz: "fl_wsize f = sum_list (map snd (map (\<lambda>(a, n). (me_mem (w_txn w) a, n)) (fl_iov f)))" using assms(1) by (simp only: loop_inv_def iov_sizes)
  have "\<exists>tr ios' f' brk. flush_write ios f w = Inr (0, tr, ios', f', brk) \<and> length ios \<le> length ios' + 2 \<and> set ios' \<subseteq> set ios"
    using write_iov_works [OF _ _ sz, of io io' rest "fl_wpos f"] assms(2) unfolding flush_write_def ios by auto
  then show thesis using that by blast
qed

lemma works_sane: "\<forall>io\<in>set ios. works io \<Longrightarrow> sane ios"
  by (simp add: sane_def works_def)

lemma flush_loop_works:
  "ds = drop (Suc i) (take (Suc pc) (fl_dl f)) \<Longrightarrow> pc < length (fl_dl f) \<Longrightarrow> i \<le> pc \<Longrightarrow> loop_at f (me_psize (w_env w)) (me_mem (w_txn w)) ds \<Longrightarrow>
     \<forall>io\<in>set ios. works io \<Longrightarrow> 2 * length ds + 2 \<le> length ios \<Longrightarrow> length ds < k \<Longrightarrow> \<exists>tr f' w'. flush_loop k pc i ios f w = Inr (0, tr, f', w')"
proof (induction ds arbitrary: k i ios f w)
  case Nil
  then obtain k' where k: "k = Suc k'" "i = pc" by (cases k) auto
  have f: "loop_inv f" "fl_pos f \<noteq> fl_next f" using Nil.prems(4) by (simp_all add: loop_at_def)
  obtain tr ios' f' brk where w: "flush_write ios f w = Inr (0, tr, ios', f', brk)" using flush_write_works [OF f(1) Nil.prems(5), of w] Nil.prems(6) by (metis add_leD2)
  have brk using flush_write_spec(4) [OF f(1) works_sane [OF Nil.prems(5)] w] f(2) by simp
  then show ?case using w k by simp
next
  case (Cons d ds)
  let ?m = "me_mem (w_txn w)" and ?ps = "me_psize (w_env w)"
  note l = list_at [OF Cons.prems(1,2)] and at = loop_at_Cons [OF Cons.prems(4)]
  obtain k' where k: "k = Suc k'" "length ds < k'" using Cons.prems(7) by (cases k) auto
  show ?case
  proof (cases "skipped ?m d")
    case True
    let ?f = "f\<lparr>fl_dl := (fl_dl f)[Suc i := d\<lparr>mid := 0\<rparr>], fl_dp := mptr d\<rparr>"
    have ds: "ds = drop (Suc (Suc i)) (take (Suc pc) (fl_dl ?f))" using l(4) by (simp add: take_update_swap)
    have L: "loop_at ?f (me_psize (w_env (flush_page d w))) (me_mem (w_txn (flush_page d w))) ds"
      unfolding flush_page_simps(1,2) using Cons.prems(4) by (intro loop_at_next [OF Cons.prems(4)]) (auto simp: loop_at_def loop_inv_def)
    have "\<exists>tr f' w'. flush_loop k' pc (Suc i) ios ?f (flush_page d w) = Inr (0, tr, f', w')"
      by (rule Cons.IH [OF ds _ l(1) L Cons.prems(5) _ k(2)]) (use Cons.prems(2,6) in simp_all)
    then show ?thesis using True l by (simp add: k(1) Let_def skipped_def flush_page_def unkeep_def)
  next
    case False
    have sane: "sane ios" by (rule works_sane [OF Cons.prems(5)])
    have "loop_inv (at_page d w f)" using at(1) by (simp add: loop_inv_def at_page_def)
    then obtain tr1 ios' f1 brk where fw: "flush_write ios (at_page d w f) (flush_page d w) = Inr (0, tr1, ios', f1, brk)" "length ios \<le> length ios' + 2" "set ios' \<subseteq> set ios"
      using flush_write_works Cons.prems(5,6) by (metis add_leD2)
    obtain f2 where a: "flush_loop (Suc k') pc i ios f w = bindE (flush_loop k' pc (Suc i) ios' f2 (flush_page d w)) (\<lambda>(rc, tr', f3, w'). Inr (rc, tr1 @ tr', f3, w'))" "loop_inv f2"
      "fl_iov f2 \<noteq> []" "fl_next f2 = fl_pos f2 + fl_size f2" "fl_size f2 = page_bytes ?ps (?m (mptr d))" "fl_dl f2 = fl_dl f" "fst ` set (fl_iov f2) \<subseteq> insert (mptr d) (fst ` set (fl_iov f))"
      by (rule flush_step_on [OF at(1) sane l(1,3,2) False at(3,5) fw(1)])
    have "page_bytes ?ps (?m (mptr d)) \<noteq> 0" using Cons.prems(4) by (simp add: loop_at_def)
    then have L: "loop_at f2 (me_psize (w_env (flush_page d w))) (me_mem (w_txn (flush_page d w))) ds"
      unfolding flush_page_simps(1,2) using a(2-5,7) by (intro loop_at_next [OF Cons.prems(4)]) simp_all
    have wk: "\<forall>io\<in>set ios'. works io" using fw(3) Cons.prems(5) by blast
    have "\<exists>tr f' w'. flush_loop k' pc (Suc i) ios' f2 (flush_page d w) = Inr (0, tr, f', w')"
      by (rule Cons.IH [OF _ _ l(1) L wk _ k(2)]) (use Cons.prems(2,6) fw(2) l(4) a(6) in simp_all)
    then show ?thesis using a(1) k(1) by auto
  qed
qed

subsection \<open>The list afterwards\<close>

definition restore :: "(nat \<Rightarrow> MDB_page) \<Rightarrow> MDB_ID2 \<Rightarrow> MDB_ID2" where
  "restore m d = d\<lparr>mid := mp_pgno (m (mptr d))\<rparr>"

lemma dpage_free_env: "\<exists>e. mdb_dpage_free a w = upd_env (\<lambda>x. x\<lparr>me_dpages := e\<rparr>) w"
proof -
  have "w = upd_env (\<lambda>x. x\<lparr>me_dpages := me_dpages (w_env w)\<rparr>) w" by (simp add: upd_env_def)
  then have "\<exists>e. w = upd_env (\<lambda>x. x\<lparr>me_dpages := e\<rparr>) w" by blast
  then show ?thesis by (auto simp: mdb_dpage_free_def mdb_page_free_def Let_def upd_env_def)
qed

lemma flush_free_spec:
  "es = take n (drop (Suc i) dl) \<Longrightarrow> i + n < length dl \<Longrightarrow> j \<le> i \<Longrightarrow>
     \<exists>dl' e. flush_free n i j dl w = Inr (j + length (filter (\<lambda>d. mid d = 0) es), dl', upd_env (\<lambda>x. x\<lparr>me_dpages := e\<rparr>) w) \<and> length dl' = length dl \<and>
       take (Suc (j + length (filter (\<lambda>d. mid d = 0) es))) dl' = take (Suc j) dl @ map (restore (me_mem (w_txn w))) (filter (\<lambda>d. mid d = 0) es)"
proof (induction n arbitrary: i j dl w es)
  case 0
  then show ?case by (intro exI [of _ dl] exI [of _ "me_dpages (w_env w)"]) (simp add: upd_env_def)
next
  case (Suc n)
  let ?d = "dl ! Suc i"
  define es' where "es' = take n (drop (Suc (Suc i)) dl)"
  have es: "es = ?d # es'" using Suc.prems(1,2) by (simp add: es'_def Cons_nth_drop_Suc [symmetric])
  show ?case
  proof (cases "mid ?d = 0")
    case True
    let ?dl = "dl[Suc j := restore (me_mem (w_txn w)) ?d]"
    have "es' = take n (drop (Suc (Suc i)) ?dl)" using Suc.prems(3) by (simp add: es'_def)
    from Suc.IH [OF this, of "Suc j" w] Suc.prems(2,3) obtain dl' e where
      "flush_free n (Suc i) (Suc j) ?dl w = Inr (Suc j + length (filter (\<lambda>d. mid d = 0) es'), dl', upd_env (\<lambda>x. x\<lparr>me_dpages := e\<rparr>) w)" "length dl' = length dl"
      "take (Suc (Suc j + length (filter (\<lambda>d. mid d = 0) es'))) dl' = take (Suc (Suc j)) ?dl @ map (restore (me_mem (w_txn w))) (filter (\<lambda>d. mid d = 0) es')" by auto
    then show ?thesis using True Suc.prems(2,3) by (intro exI [of _ dl'] exI [of _ e]) (simp add: es restore_def take_Suc_conv_app_nth)
  next
    case False
    obtain e0 where fr: "mdb_dpage_free (mptr ?d) w = upd_env (\<lambda>x. x\<lparr>me_dpages := e0\<rparr>) w" using dpage_free_env by blast
    from Suc.IH [OF es'_def, of j "mdb_dpage_free (mptr ?d) w"] Suc.prems(2,3) obtain dl' e where
      "flush_free n (Suc i) j dl (mdb_dpage_free (mptr ?d) w) = Inr (j + length (filter (\<lambda>d. mid d = 0) es'), dl', upd_env (\<lambda>x. x\<lparr>me_dpages := e\<rparr>) w)" "length dl' = length dl"
      "take (Suc (j + length (filter (\<lambda>d. mid d = 0) es'))) dl' = take (Suc j) dl @ map (restore (me_mem (w_txn w))) (filter (\<lambda>d. mid d = 0) es')"
      by (auto simp: fr upd_env_def)
    then show ?thesis using False Suc.prems(2) by (intro exI [of _ dl'] exI [of _ e]) (simp add: es)
  qed
qed

text \<open>A transaction whose dirty list can be flushed: the entries have pages of their own, of the number they say.\<close>

definition page_at_entry :: "MDB_wtxn \<Rightarrow> MDB_ID2 \<Rightarrow> bool" where
  "page_at_entry w d \<longleftrightarrow> mid d \<noteq> 0 \<and> mp_pgno (me_mem (w_txn w) (mptr d)) = mid d \<and> (IS_OVERFLOW (me_mem (w_txn w) (mptr d)) \<longrightarrow> mp_pages (me_mem (w_txn w) (mptr d)) \<noteq> 0)"

definition flush_ready :: "nat \<Rightarrow> MDB_wtxn \<Rightarrow> bool" where
  "flush_ready keep w \<longleftrightarrow> (case mt_lists (w_txn w) of [] \<Rightarrow> False | (sp, dl) # ls \<Rightarrow> unat (mid (dl ! 0)) < length dl) \<and> keep \<le> length (dirty_of w) \<and> distinct (map mptr (dirty_of w)) \<and>
     (\<forall>d\<in>set (dirty_of w). page_at_entry w d) \<and> even (me_psize (w_env w)) \<and> 0 < me_psize (w_env w) \<and> me_psize (w_env w) < 2 ^ 16 \<and> \<not> has_flag (me_flags (w_env w)) MDB_WRITEMAP"

lemma page_bytes_pos:
  assumes "0 < ps" "ps < 2 ^ 16" and "IS_OVERFLOW p \<longrightarrow> mp_pages p \<noteq> 0"
  shows "page_bytes ps p \<noteq> 0" "unat (page_bytes ps p) = ps * (if IS_OVERFLOW p then unat (mp_pages p) else 1)"
proof -
  have u: "unat (of_nat ps :: size_t) = ps" using assms(2) by (simp add: unat_of_nat_small)
  have n: "unat (mp_pages p) < 2 ^ 32" using unat_lt_pow [of "mp_pages p"] by simp
  have "ps * unat (mp_pages p) < 2 ^ 16 * 2 ^ 32" using assms(2) n by (intro mult_strict_mono) simp_all
  then have m: "unat (of_nat ps * ucast (mp_pages p) :: size_t) = ps * unat (mp_pages p)" using u n by (simp add: unat_word_ariths(2) unsigned_ucast_eq take_bit_nat_eq_self)
  show "unat (page_bytes ps p) = ps * (if IS_OVERFLOW p then unat (mp_pages p) else 1)" by (simp add: page_bytes_def m u)
  moreover have "IS_OVERFLOW p \<longrightarrow> unat (mp_pages p) \<noteq> 0" using assms(3) by (simp add: unat_eq_0)
  ultimately have "unat (page_bytes ps p) \<noteq> 0" using assms(1) by simp
  then show "page_bytes ps p \<noteq> 0" by (metis unat_0)
qed

lemma even_pos: "even ps \<Longrightarrow> g * of_nat ps \<noteq> (1 :: size_t)"
proof
  assume "even ps" and e: "g * of_nat ps = (1 :: size_t)"
  then obtain k where "ps = 2 * k" by (auto elim: evenE)
  then have "even (g * of_nat ps :: size_t)" by simp
  then show False using e by simp
qed

lemma kept_entries:
  assumes "\<forall>d\<in>set ds. page_at_entry w d"
  shows "map (restore (flush_mem es (me_mem (w_txn w)))) (filter (\<lambda>d. mid d = 0) (map (mark (me_mem (w_txn w))) ds)) = filter (skipped (me_mem (w_txn w))) ds"
  using assms
proof (induction ds)
  case (Cons d ds)
  have "restore (flush_mem es (me_mem (w_txn w))) (d\<lparr>mid := 0\<rparr>) = d" using Cons.prems
    by (simp add: restore_def flush_mem_def page_at_entry_def unkeep_def clean_def)
  then show ?case using Cons by (simp add: mark_def page_at_entry_def)
qed simp

lemma flush_readyD:
  assumes "flush_ready keep w"
  obtains sp dl ls where "mt_lists (w_txn w) = (sp, dl) # ls" "unat (mid (dl ! 0)) < length dl" "keep \<le> unat (mid (dl ! 0))" "dirty_of w = id2_of dl"
    "drop keep (dirty_of w) = drop (Suc keep) (take (Suc (unat (mid (dl ! 0)))) dl)"
proof -
  obtain sp dl ls where l: "mt_lists (w_txn w) = (sp, dl) # ls" "unat (mid (dl ! 0)) < length dl" using assms by (auto simp: flush_ready_def split: list.splits)
  then have d: "dirty_of w = id2_of dl" by (simp add: dirty_of_def)
  have "length (id2_of dl) = unat (mid (dl ! 0))" using l(2) by (simp add: id2_of_def)
  moreover have "keep \<le> length (dirty_of w)" using assms by (simp add: flush_ready_def)
  moreover have "drop (Suc keep) (take (Suc (unat (mid (dl ! 0)))) dl) = drop keep (id2_of dl)" by (simp add: id2_of_def drop_take)
  ultimately show thesis using that [OF l] d by simp
qed

lemma flush_start:
  assumes "flush_ready keep w"
  shows "loop_at \<lparr>fl_dl = dl, fl_dp = 0, fl_pos = 0, fl_size = 0, fl_wpos = 0, fl_wsize = 0, fl_next = 1, fl_iov = []\<rparr> (me_psize (w_env w)) (me_mem (w_txn w)) (drop keep (dirty_of w))"
proof -
  have r: "distinct (map mptr (dirty_of w))" "\<And>d. d \<in> set (dirty_of w) \<Longrightarrow> page_at_entry w d" "even (me_psize (w_env w))" "0 < me_psize (w_env w)" "me_psize (w_env w) < 2 ^ 16"
    using assms by (simp_all add: flush_ready_def)
  have "page_bytes (me_psize (w_env w)) (me_mem (w_txn w) (mptr d)) \<noteq> 0" if "d \<in> set (drop keep (dirty_of w))" for d
    using r(2) [OF in_set_dropD [OF that]] by (intro page_bytes_pos(1) [OF r(4,5)]) (simp add: page_at_entry_def)
  then show ?thesis using r(1) even_pos [OF r(3)] by (simp add: loop_at_def loop_inv_def drop_map [symmetric] distinct_drop)
qed

text \<open>What remains after the loop has written everything.\<close>

lemma flush_finish:
  assumes ready: "flush_ready keep w" and l: "mt_lists (w_txn w) = (sp, dl) # ls"
  defines "m \<equiv> me_mem (w_txn w)" and "ds \<equiv> drop keep (dirty_of w)" and "n \<equiv> unat (mid (dl ! 0))"
  obtains j dl' e w' where "flush_free (n - keep) keep keep (take (Suc keep) dl @ map (mark m) ds @ drop (Suc n) dl) (set_mem (flush_mem ds m) w) = Inr (j, dl', upd_env (\<lambda>x. x\<lparr>me_dpages := e\<rparr>) (set_mem (flush_mem ds m) w))"
    "flush_done n j dl' (upd_env (\<lambda>x. x\<lparr>me_dpages := e\<rparr>) (set_mem (flush_mem ds m) w)) = Inr w'"
    "dirty_of w' = take keep (dirty_of w) @ filter (skipped m) ds" "me_mem (w_txn w') = flush_mem ds m" "me_map (w_txn w') = me_map (w_txn w)"
proof -
  obtain sp' dl0 ls' where f: "mt_lists (w_txn w) = (sp', dl0) # ls'" "unat (mid (dl0 ! 0)) < length dl0" "keep \<le> unat (mid (dl0 ! 0))" "dirty_of w = id2_of dl0"
    "ds = drop (Suc keep) (take (Suc (unat (mid (dl0 ! 0)))) dl0)" unfolding ds_def by (rule flush_readyD [OF ready])
  have [simp]: "dl0 = dl" using f(1) l by simp
  have nl: "n < length dl" "keep \<le> n" "ds = drop (Suc keep) (take (Suc n) dl)" using f(2,3,5) by (simp_all add: n_def)
  then have lds: "length ds = n - keep" by simp
  let ?dl = "take (Suc keep) dl @ map (mark m) ds @ drop (Suc n) dl" and ?w = "set_mem (flush_mem ds m) w"
  let ?kept = "filter (\<lambda>d. mid d = 0) (map (mark m) ds)"
  have es: "map (mark m) ds = take (n - keep) (drop (Suc keep) ?dl)" using nl(1,2) lds by simp
  have len: "length ?dl = length dl" using nl lds by simp
  obtain dl' e where fr: "flush_free (n - keep) keep keep ?dl ?w = Inr (keep + length ?kept, dl', upd_env (\<lambda>x. x\<lparr>me_dpages := e\<rparr>) ?w)" "length dl' = length dl"
    "take (Suc (keep + length ?kept)) dl' = take (Suc keep) ?dl @ map (restore (flush_mem ds m)) ?kept"
    using flush_free_spec [OF es, of keep ?w] nl len by (auto simp: upd_txn_def)
  let ?j = "keep + length ?kept"
  have pe: "\<forall>d\<in>set ds. page_at_entry w d" using ready in_set_dropD unfolding ds_def flush_ready_def by fast
  have kept: "map (restore (flush_mem ds m)) ?kept = filter (skipped m) ds" using kept_entries [OF pe] by (simp add: m_def)
  have j: "?j \<le> n" using nl(2) lds length_filter_le [of "\<lambda>d. mid d = 0" "map (mark m) ds"] by simp
  have ju: "unat (of_nat ?j :: size_t) = ?j"
  proof (rule unat_of_nat_small)
    show "?j < 2 ^ LENGTH(64)" using j unat_lt_pow [of "mid (dl ! 0)"] by (simp add: n_def)
  qed
  let ?d0 = "(dl' ! 0)\<lparr>mid := of_nat ?j\<rparr>"
  let ?w' = "(set_dirty_list (dl'[0 := ?d0]) (upd_env (\<lambda>x. x\<lparr>me_dpages := e\<rparr>) ?w))\<lparr>mt_dirty_room := mt_dirty_room w + of_nat n - of_nat ?j\<rparr>"
  have l0: "0 < length dl'" using nl(1) fr(2) by linarith
  have dn: "flush_done n ?j dl' (upd_env (\<lambda>x. x\<lparr>me_dpages := e\<rparr>) ?w) = Inr ?w'" using l0 by (simp add: flush_done_def upd_env_def upd_txn_def)
  have "dirty_of ?w' = id2_of (dl'[0 := ?d0])" using l by (simp add: dirty_of_def set_dirty_list_def upd_txn_def upd_env_def)
  also have "\<dots> = take ?j (drop 1 dl')" using l0 ju by (simp add: id2_of_def)
  also have "\<dots> = drop 1 (take (Suc ?j) dl')" by (simp add: drop_take)
  also have "\<dots> = take keep (dirty_of w) @ filter (skipped m) ds"
    unfolding fr(3) kept using nl f(4) by (simp add: id2_of_def n_def drop_take min_def)
  finally have dirty: "dirty_of ?w' = take keep (dirty_of w) @ filter (skipped m) ds" .
  show thesis by (rule that [OF fr(1) dn dirty]) (simp_all add: set_dirty_list_def upd_txn_def upd_env_def)
qed

abbreviation fl_start :: "MDB_ID2 list \<Rightarrow> flushing" where
  "fl_start dl \<equiv> \<lparr>fl_dl = dl, fl_dp = 0, fl_pos = 0, fl_size = 0, fl_wpos = 0, fl_wsize = 0, fl_next = 1, fl_iov = []\<rparr>"

lemma flush_unfold:
  assumes "flush_ready keep w" and "mt_lists (w_txn w) = (sp, dl) # ls"
  defines "n \<equiv> unat (mid (dl ! 0))"
  shows "mdb_page_flush ios keep w = bindE (flush_loop (n - keep + MDB_COMMIT_PAGES + 2) n keep ios (fl_start dl) w) (\<lambda>(rc, tr, f, w').
    if rc \<noteq> 0 then Inr (rc, tr, set_dirty_list (fl_dl f) w')
    else bindE (flush_free (n - keep) keep keep (fl_dl f) w') (\<lambda>(j, dl', w''). bindE (flush_done n j dl' w'') (\<lambda>w3. Inr (0, tr, w3))))"
proof -
  have l: "n < length dl" "\<not> has_flag (me_flags (w_env w)) MDB_WRITEMAP" "keep \<le> length (dirty_of w)" using assms by (simp_all add: flush_ready_def)
  then have "keep \<le> n" using assms(2) by (simp add: dirty_of_def id2_of_def n_def)
  then have n: "max keep n = n" "aget dl 0 = Inr (dl ! 0)" using l(1) by (simp, intro aget_ok, linarith)
  show ?thesis unfolding mdb_page_flush_def assms(2) Let_def n(2) list.case prod.case bindE_Inr n_def [symmetric] n(1) if_not_P [OF l(2)] by (rule refl)
qed

lemma flush_result:
  assumes ready: "flush_ready keep w" and sane: "sane ios" and r: "mdb_page_flush ios keep w = Inr (rc, tr, w')"
  defines "E \<equiv> to_write (me_psize (w_env w)) (me_mem (w_txn w)) (drop keep (dirty_of w))"
  shows "attempted tr \<subseteq> set E" "rc = 0 \<Longrightarrow> completed tr = E \<and> dirty_of w' = take keep (dirty_of w) @ filter (skipped (me_mem (w_txn w))) (drop keep (dirty_of w)) \<and>
     me_mem (w_txn w') = flush_mem (drop keep (dirty_of w)) (me_mem (w_txn w))"
proof -
  let ?m = "me_mem (w_txn w)" and ?ds = "drop keep (dirty_of w)"
  obtain sp dl ls where f: "mt_lists (w_txn w) = (sp, dl) # ls" "unat (mid (dl ! 0)) < length dl" "keep \<le> unat (mid (dl ! 0))" "dirty_of w = id2_of dl"
    "?ds = drop (Suc keep) (take (Suc (unat (mid (dl ! 0)))) dl)" by (rule flush_readyD [OF ready])
  let ?n = "unat (mid (dl ! 0))"
  let ?k = "?n - keep + MDB_COMMIT_PAGES + 2" and ?f = "fl_start dl"
  note u = flush_unfold [OF ready f(1), of ios]
  obtain rc1 tr1 f1 w1 where l: "flush_loop ?k ?n keep ios ?f w = Inr (rc1, tr1, f1, w1)"
    using r unfolding u by (auto simp: bindE_def simp del: flush_loop.simps split: sum.splits)
  have pd: "pend ?m ?f = []" by (simp add: pend_def)
  have ds: "?ds = drop (Suc keep) (take (Suc ?n) (fl_dl ?f))" "?n < length (fl_dl ?f)" using f(2,5) by simp_all
  note sp = flush_loop_spec [OF l ds f(3) flush_start [OF ready] sane, unfolded pd append_Nil]
  have "attempted tr \<subseteq> set E \<and> (rc = 0 \<longrightarrow> completed tr = E \<and> dirty_of w' = take keep (dirty_of w) @ filter (skipped ?m) ?ds \<and> me_mem (w_txn w') = flush_mem ?ds ?m)"
  proof (cases "rc1 = 0")
    case False
    then have "rc = rc1 \<and> tr = tr1" using r unfolding u l by simp
    then show ?thesis using sp False by (simp add: E_def)
  next
    case True
    have w1: "w1 = set_mem (flush_mem ?ds ?m) w" "fl_dl f1 = take (Suc keep) dl @ map (mark ?m) ?ds @ drop (Suc ?n) dl" "completed tr1 = E" "attempted tr1 \<subseteq> set E"
      using sp True by (simp_all add: E_def)
    obtain j dl' e w2 where fin: "flush_free (?n - keep) keep keep (take (Suc keep) dl @ map (mark ?m) ?ds @ drop (Suc ?n) dl) (set_mem (flush_mem ?ds ?m) w) =
        Inr (j, dl', upd_env (\<lambda>x. x\<lparr>me_dpages := e\<rparr>) (set_mem (flush_mem ?ds ?m) w))"
      "flush_done ?n j dl' (upd_env (\<lambda>x. x\<lparr>me_dpages := e\<rparr>) (set_mem (flush_mem ?ds ?m) w)) = Inr w2"
      "dirty_of w2 = take keep (dirty_of w) @ filter (skipped ?m) ?ds" "me_mem (w_txn w2) = flush_mem ?ds ?m"
      by (rule flush_finish [OF ready f(1)])
    have "mdb_page_flush ios keep w = Inr (0, tr1, w2)"
      unfolding u l using True by (simp add: w1(1,2) fin(1,2))
    then show ?thesis using r w1(3,4) fin(3,4) by simp
  qed
  then show "attempted tr \<subseteq> set E" "rc = 0 \<Longrightarrow> completed tr = E \<and> dirty_of w' = take keep (dirty_of w) @ filter (skipped ?m) ?ds \<and> me_mem (w_txn w') = flush_mem ?ds ?m" by blast+
qed

lemma flush_returns:
  assumes ready: "flush_ready keep w" and wk: "\<forall>io\<in>set ios. works io" "2 * length (drop keep (dirty_of w)) + 2 \<le> length ios"
  shows "\<exists>tr w'. mdb_page_flush ios keep w = Inr (0, tr, w')"
proof -
  let ?m = "me_mem (w_txn w)" and ?ds = "drop keep (dirty_of w)"
  obtain sp dl ls where f: "mt_lists (w_txn w) = (sp, dl) # ls" "unat (mid (dl ! 0)) < length dl" "keep \<le> unat (mid (dl ! 0))" "dirty_of w = id2_of dl"
    "?ds = drop (Suc keep) (take (Suc (unat (mid (dl ! 0)))) dl)" by (rule flush_readyD [OF ready])
  let ?n = "unat (mid (dl ! 0))"
  let ?k = "?n - keep + MDB_COMMIT_PAGES + 2" and ?f = "fl_start dl"
  note u = flush_unfold [OF ready f(1), of ios]
  have ds: "?ds = drop (Suc keep) (take (Suc ?n) (fl_dl ?f))" "?n < length (fl_dl ?f)" using f(2,5) by simp_all
  have k: "length ?ds < ?k" using f(2,5) by simp
  obtain tr f1 w1 where l: "flush_loop ?k ?n keep ios ?f w = Inr (0, tr, f1, w1)"
    using flush_loop_works [OF ds f(3) flush_start [OF ready] wk k] by blast
  note sp = flush_loop_spec [OF l ds f(3) flush_start [OF ready] works_sane [OF wk(1)]]
  have w1: "w1 = set_mem (flush_mem ?ds ?m) w" "fl_dl f1 = take (Suc keep) dl @ map (mark ?m) ?ds @ drop (Suc ?n) dl" using sp by simp_all
  obtain j dl' e w2 where fin: "flush_free (?n - keep) keep keep (take (Suc keep) dl @ map (mark ?m) ?ds @ drop (Suc ?n) dl) (set_mem (flush_mem ?ds ?m) w) =
      Inr (j, dl', upd_env (\<lambda>x. x\<lparr>me_dpages := e\<rparr>) (set_mem (flush_mem ?ds ?m) w))"
    "flush_done ?n j dl' (upd_env (\<lambda>x. x\<lparr>me_dpages := e\<rparr>) (set_mem (flush_mem ?ds ?m) w)) = Inr w2"
    by (rule flush_finish [OF ready f(1)])
  show ?thesis unfolding u l by (simp add: w1 fin)
qed

end
