(* ===== verification/Mdb_Commit.thy ===== *)
theory Mdb_Commit
  imports Mdb_Flush
begin

text \<open>
  What a commit means for the trees in the file. The pages that \<open>mdb_page_flush\<close> writes are those of the dirty list, at their places; a transaction that begins afterwards reads from the map what the
  writer had in memory; a transaction that reads an older tree finds it untouched, whatever part of the writes has reached the file.
\<close>

subsection \<open>The file\<close>

text \<open>The page of number \<open>g\<close> starts inside the bytes of a place.\<close>

fun covers :: "nat \<Rightarrow> size_t \<times> MDB_page \<times> size_t \<Rightarrow> size_t \<Rightarrow> bool" where
  "covers ps (pos, p, n) g \<longleftrightarrow> unat pos \<le> unat g * ps \<and> unat g * ps < unat pos + unat n"

text \<open>From \<open>m\<close> to \<open>m'\<close> only pages at the places of \<open>A\<close> have changed; \<open>m'\<close> has the pages of \<open>C\<close> at their places.\<close>

definition spared :: "nat \<Rightarrow> (size_t \<times> MDB_page \<times> size_t) set \<Rightarrow> (size_t \<Rightarrow> MDB_page) \<Rightarrow> (size_t \<Rightarrow> MDB_page) \<Rightarrow> bool" where
  "spared ps A m m' \<longleftrightarrow> (\<forall>g. (\<forall>x\<in>A. \<not> covers ps x g) \<longrightarrow> m' g = m g)"

definition wrote :: "nat \<Rightarrow> (size_t \<times> MDB_page \<times> size_t) list \<Rightarrow> (size_t \<Rightarrow> MDB_page) \<Rightarrow> bool" where
  "wrote ps C m' \<longleftrightarrow> (\<forall>(pos, p, n)\<in>set C. \<forall>g. unat g * ps = unat pos \<longrightarrow> m' g = p)"

text \<open>The numbers of the pages that an entry of the dirty list stands for.\<close>

definition run_of :: "(nat \<Rightarrow> MDB_page) \<Rightarrow> MDB_ID2 \<Rightarrow> nat set" where
  "run_of m d = {unat (mid d)..<unat (mid d) + (if IS_OVERFLOW (m (mptr d)) then unat (mp_pages (m (mptr d))) else 1)}"

definition file_fits :: "MDB_wtxn \<Rightarrow> bool" where
  "file_fits w \<longleftrightarrow> (\<forall>d\<in>set (dirty_of w). unat (mid d) * me_psize (w_env w) < 2 ^ 63)"

lemma place_pos:
  assumes "unat (mid d) * ps < 2 ^ 63" and "ps < 2 ^ 16"
  shows "unat (mid d * of_nat ps :: size_t) = unat (mid d) * ps"
proof -
  have "unat (of_nat ps :: size_t) = ps" using assms(2) by (simp add: unat_of_nat_small)
  then show ?thesis using assms(1) by (simp add: unat_word_ariths(2))
qed

lemma covers_place:
  assumes ready: "flush_ready keep w" and fits: "file_fits w" and d: "d \<in> set (dirty_of w)"
  shows "covers (me_psize (w_env w)) (place (me_psize (w_env w)) (me_mem (w_txn w)) d) g \<longleftrightarrow> unat g \<in> run_of (me_mem (w_txn w)) d"
proof -
  let ?ps = "me_psize (w_env w)" and ?p = "me_mem (w_txn w) (mptr d)"
  have r: "0 < ?ps" "?ps < 2 ^ 16" "IS_OVERFLOW ?p \<longrightarrow> mp_pages ?p \<noteq> 0" using ready d by (auto simp: flush_ready_def page_at_entry_def)
  have u: "unat (mid d * of_nat ?ps :: size_t) = unat (mid d) * ?ps" using fits d by (intro place_pos [OF _ r(2)]) (simp add: file_fits_def)
  let ?n = "if IS_OVERFLOW ?p then unat (mp_pages ?p) else 1"
  have "covers ?ps (place ?ps (me_mem (w_txn w)) d) g \<longleftrightarrow> unat (mid d) * ?ps \<le> unat g * ?ps \<and> unat g * ?ps < (unat (mid d) + ?n) * ?ps"
    unfolding place_def covers.simps u page_bytes_pos(2) [OF r] by (simp add: algebra_simps)
  also have "\<dots> \<longleftrightarrow> unat (mid d) \<le> unat g \<and> unat g < unat (mid d) + ?n" using r(1) by (simp only: mult_le_cancel2 mult_less_cancel2) simp
  finally show ?thesis by (simp add: run_of_def)
qed

subsection \<open>The same pages in another transaction\<close>

text \<open>Pages that differ in \<open>P_DIRTY\<close> only.\<close>

definition same_page :: "MDB_page \<Rightarrow> MDB_page \<Rightarrow> bool" where
  "same_page p q \<longleftrightarrow> q = p\<lparr>mp_flags := mp_flags q\<rparr> \<and> clear_flag (mp_flags q) P_DIRTY = clear_flag (mp_flags p) P_DIRTY"

lemma same_page_refl: "same_page p p" and same_page_clean: "same_page p (clean p)"
  by (simp_all add: same_page_def clean_def clear_flag_def and.assoc)

lemma isset_clear: "k AND NOT P_DIRTY = k \<Longrightarrow> F_ISSET (clear_flag x P_DIRTY) k \<longleftrightarrow> F_ISSET x k"
  by (simp add: F_ISSET_def clear_flag_def and.assoc) (simp add: and.commute)

lemma same_page_flags:
  assumes "same_page p q"
  shows "IS_LEAF q = IS_LEAF p" "IS_LEAF2 q = IS_LEAF2 p" "IS_BRANCH q = IS_BRANCH p"
proof -
  have same: "F_ISSET (mp_flags q) k = F_ISSET (mp_flags p) k" if "k AND NOT P_DIRTY = k" for k
    using isset_clear [OF that, of "mp_flags q"] isset_clear [OF that, of "mp_flags p"] assms by (simp add: same_page_def)
  have "P_LEAF AND NOT P_DIRTY = P_LEAF" "P_LEAF2 AND NOT P_DIRTY = P_LEAF2" "P_BRANCH AND NOT P_DIRTY = P_BRANCH"
    by (simp_all add: P_LEAF_def P_LEAF2_def P_BRANCH_def P_DIRTY_def)
  then show "IS_LEAF q = IS_LEAF p" "IS_LEAF2 q = IS_LEAF2 p" "IS_BRANCH q = IS_BRANCH p"
    unfolding IS_LEAF_def IS_LEAF2_def IS_BRANCH_def by (simp_all only: same)
qed

lemma same_page_data:
  assumes "same_page p q"
  shows "mp_bytes q = mp_bytes p" "mp_ptrs q = mp_ptrs p" "mp_lower q = mp_lower p" "mp_upper q = mp_upper p" "mp_pgno q = mp_pgno p" "NUMKEYS q = NUMKEYS p" "page_offs q = page_offs p"
    "page_nodes q = page_nodes p" "page_keys q = page_keys p" "hdr_at q = hdr_at p" "node_hdr q i = node_hdr p i" "page_wf ps q = page_wf ps p" "page_sorted ok lt ps q = page_sorted ok lt ps p"
proof -
  obtain x where q: "q = p\<lparr>mp_flags := x\<rparr>" using assms by (auto simp: same_page_def)
  show b: "mp_bytes q = mp_bytes p" "mp_ptrs q = mp_ptrs p" "mp_lower q = mp_lower p" "mp_upper q = mp_upper p" "mp_pgno q = mp_pgno p" by (simp_all add: q)
  show n: "NUMKEYS q = NUMKEYS p" by (simp add: NUMKEYS_def b)
  show o: "page_offs q = page_offs p" by (simp add: page_offs_def n b)
  show pn: "page_nodes q = page_nodes p" by (simp add: page_nodes_def o b same_page_flags [OF assms])
  show pk: "page_keys q = page_keys p" by (simp add: page_keys_def pn)
  show "hdr_at q = hdr_at p" by (simp add: hdr_at_def o b fun_eq_iff)
  show "node_hdr q i = node_hdr p i" by (simp add: node_hdr_def NODEPTR_def b)
  show w: "page_wf ps q = page_wf ps p" by (simp add: page_wf_def o b same_page_flags [OF assms])
  show "page_sorted ok lt ps q = page_sorted ok lt ps p" by (simp add: page_sorted_def w n pk first_key_def same_page_flags [OF assms])
qed

text \<open>The overflow page that an entry leads to; the pages below the root of a tree.\<close>

definition big_page :: "MDB_page \<Rightarrow> nat \<Rightarrow> size_t option" where
  "big_page p i =
     (case node_hdr p i of
        Inr (d, h) \<Rightarrow>
          if F_ISSET (ucast (mn_flags h)) F_BIGDATA then
            (case mem_get (d + NODESIZE + unat (mn_ksize h)) 8 (mp_bytes p) of Inr pg \<Rightarrow> Some (of_nat (le_val pg)) | Inl _ \<Rightarrow> None)
          else None
      | Inl _ \<Rightarrow> None)"

fun below :: "mtree \<Rightarrow> size_t set" where
  "below (Lf p) = {g. \<exists>i<NUMKEYS p. big_page p i = Some g}"
| "below (Br p ts) = {g. \<exists>i<NUMKEYS p. g = NODEPGNO (hdr_at p i)} \<union> (\<Union>t\<in>set ts. below t)"

text \<open>The pages \<open>U\<close> of \<open>t\<close> are in \<open>t'\<close> too.\<close>

definition view :: "size_t set \<Rightarrow> MDB_txn \<Rightarrow> MDB_txn \<Rightarrow> bool" where
  "view U t t' \<longleftrightarrow> (\<forall>g\<in>U. \<forall>p. page_of t g p \<longrightarrow> (\<exists>q. page_of t' g q \<and> same_page p q))"

lemma page_get_cases:
  assumes "mdb_page_get g t = Inr (rc, t1, r)"
  shows "(\<exists>p l. r = Some (p, l) \<and> rc = 0 \<and> t1 = t \<and> page_of t g p) \<or> (r = None \<and> rc \<noteq> 0)"
  using assms by (auto simp: mdb_page_get_def bindE_def page_of_def MDB_PAGE_NOTFOUND_def split: sum.splits option.splits if_splits)

lemma node_read_view:
  assumes r: "mdb_node_read t p i = Inr (0, t, v)" and s: "same_page p q" and vw: "view U t t'" "\<And>g. big_page p i = Some g \<Longrightarrow> g \<in> U"
  shows "mdb_node_read t' q i = Inr (0, t', v)"
proof -
  note sd = same_page_data [OF s]
  obtain d h where nh: "node_hdr p i = Inr (d, h)" using r by (cases "node_hdr p i") (auto simp: mdb_node_read_def)
  let ?at = "d + NODESIZE + unat (mn_ksize h)"
  show ?thesis
  proof (cases "F_ISSET (ucast (mn_flags h) :: u32) F_BIGDATA")
    case False
    then show ?thesis using r nh by (auto simp: mdb_node_read_def sd Let_def bindE_def split: sum.splits)
  next
    case True
    then obtain pg where pg: "mem_get ?at 8 (mp_bytes p) = Inr pg" using r nh by (cases "mem_get ?at 8 (mp_bytes p)") (auto simp: mdb_node_read_def Let_def)
    let ?g = "of_nat (le_val pg) :: size_t"
    obtain rc t1 x where g: "mdb_page_get ?g t = Inr (rc, t1, x)" using r nh True pg by (cases "mdb_page_get ?g t") (auto simp: mdb_node_read_def Let_def)
    then obtain omp l where o: "x = Some (omp, l)" "rc = 0" "t1 = t" "page_of t ?g omp" using page_get_cases [OF g] r nh True pg by (auto simp: mdb_node_read_def Let_def)
    have "big_page p i = Some ?g" using nh True pg by (simp add: big_page_def)
    then obtain q' where q': "page_of t' ?g q'" "same_page omp q'" using vw o(4) by (auto simp: view_def)
    obtain l' where "mdb_page_get ?g t' = Inr (0, t', Some (q', l'))" using page_ofD [OF q'(1)] by blast
    then show ?thesis using r nh True pg g o(1-3) same_page_data(1) [OF q'(2)] by (auto simp: mdb_node_read_def sd Let_def bindE_def split: sum.splits)
  qed
qed

lemma item_view:
  assumes "item_ok t p i" and "same_page p q" and "view U t t'" and "\<And>g. big_page p i = Some g \<Longrightarrow> g \<in> U"
  shows "item_ok t' q i" "item_val t' q i = item_val t p i"
proof -
  have r: "mdb_node_read t p i = Inr (0, t, item_val t p i)" using assms(1) by (simp add: item_ok_def)
  note n = node_read_view [OF r assms(2-4)]
  show v: "item_val t' q i = item_val t p i" by (simp add: item_val_def n)
  show "item_ok t' q i" using assms(1) n by (simp add: item_ok_def v same_page_data(10) [OF assms(2)])
qed

lemma tree_view:
  "tree_ok t ps ok lt h lo hi tr \<Longrightarrow> view U t t' \<Longrightarrow> below tr \<subseteq> U \<Longrightarrow> same_page (root_page tr) q \<Longrightarrow>
     \<exists>tr'. root_page tr' = q \<and> tree_ok t' ps ok lt h lo hi tr' \<and> tree_items t' tr' = tree_items t tr \<and> below tr' = below tr"
proof (induction h arbitrary: lo hi tr q)
  case 0
  then obtain p where tr: "tr = Lf p" by (cases tr) auto
  have s: "same_page p q" using 0(4) by (simp add: tr)
  note sd = same_page_data [OF s] same_page_flags [OF s]
  have i: "item_ok t' q i \<and> item_val t' q i = item_val t p i" if "i < NUMKEYS p" for i
    using 0(1,3) that item_view [OF _ s 0(2), of i] by (auto simp: tr)
  have "leaf_items t' q = leaf_items t p" using i by (simp add: leaf_items_def sd)
  moreover have "below (Lf q) = below (Lf p)" unfolding below.simps big_page_def sd by (rule refl)
  ultimately show ?case using 0(1) i by (intro exI [of _ "Lf q"]) (simp add: tr sd)
next
  case (Suc h)
  then obtain p ts where tr: "tr = Br p ts" by (cases tr) auto
  have s: "same_page p q" using Suc.prems(4) by (simp add: tr)
  note sd = same_page_data [OF s] same_page_flags [OF s]
  have ok: "page_sorted ok lt ps p" "IS_BRANCH p" "length ts = NUMKEYS p" using Suc.prems(1) by (simp_all add: tr)
  have child: "page_of t (NODEPGNO (hdr_at p i)) (root_page (ts ! i))" "0 < i \<Longrightarrow> within lt lo hi (page_keys p ! i)" "tree_ok t ps ok lt h (low_bound lo p i) (high_bound hi p i) (ts ! i)"
    if "i < NUMKEYS p" for i using Suc.prems(1) that by (simp_all add: tr)
  let ?P = "\<lambda>i u. page_of t' (NODEPGNO (hdr_at p i)) (root_page u) \<and> tree_ok t' ps ok lt h (low_bound lo p i) (high_bound hi p i) u \<and> tree_items t' u = tree_items t (ts ! i) \<and> below u = below (ts ! i)"
  have "\<exists>u. ?P i u" if i: "i < NUMKEYS p" for i
  proof -
    have "NODEPGNO (hdr_at p i) \<in> U" using Suc.prems(3) i by (auto simp: tr)
    then obtain q' where q': "page_of t' (NODEPGNO (hdr_at p i)) q'" "same_page (root_page (ts ! i)) q'" using Suc.prems(2) child(1) [OF i] by (auto simp: view_def)
    have "ts ! i \<in> set ts" using i ok(3) by simp
    then have "below (ts ! i) \<subseteq> U" using Suc.prems(3) by (auto simp: tr)
    then show ?thesis using Suc.IH [OF child(3) [OF i] Suc.prems(2) _ q'(2)] q'(1) by metis
  qed
  then obtain f where f: "\<And>i. i < NUMKEYS p \<Longrightarrow> ?P i (f i)" by metis
  let ?us = "map f [0..<NUMKEYS p]"
  have "map below ?us = map below ts" using f ok(3) by (intro nth_equalityI) simp_all
  then have "(\<Union>u\<in>set ?us. below u) = (\<Union>u\<in>set ts. below u)" by (metis image_set)
  then have bl: "below (Br q ?us) = below tr" by (simp add: tr sd)
  have "map (tree_items t') ?us = map (tree_items t) ts" using f ok(3) by (intro nth_equalityI) simp_all
  then have items: "tree_items t' (Br q ?us) = tree_items t tr" by (simp add: tr)
  have "low_bound lo q i = low_bound lo p i" "high_bound hi q i = high_bound hi p i" for i by (simp_all add: low_bound_def high_bound_def sd)
  then have "tree_ok t' ps ok lt (Suc h) lo hi (Br q ?us)" using ok f child(2) by (simp add: sd)
  then show ?case using items bl root_page.simps(2) by blast
qed

lemma db_tree_view:
  assumes tree: "db_tree t dbi f ps ok lt h tr" and vw: "view (insert (md_root (mt_dbs t ! dbi)) (below tr)) t t'"
    and t': "dbi' < length (mt_dbs t')" "mt_dbs t' ! dbi' = mt_dbs t ! dbi" "dbi' < length (mt_dbxs t')" "mt_dbxs t' ! dbi' = mt_dbxs t ! dbi"
      "\<not> has_flag (mt_flags t') MDB_TXN_BLOCKED" "dbi' < length (mt_dbflags t')" "has_flag (mt_dbflags t' ! dbi') DB_USRVALID" "\<not> has_flag (mt_dbflags t' ! dbi') DB_STALE"
  obtains tr' where "db_tree t' dbi' f ps ok lt h tr'" "tree_items t' tr' = tree_items t tr" "below tr' = below tr"
proof -
  have d: "page_of t (md_root (mt_dbs t ! dbi)) (root_page tr)" "tree_ok t ps ok lt h None None tr" "mp_pgno (root_page tr) = md_root (mt_dbs t ! dbi)" using tree by (simp_all add: db_tree_def)
  obtain q where q: "page_of t' (md_root (mt_dbs t ! dbi)) q" "same_page (root_page tr) q" using vw d(1) by (auto simp: view_def)
  obtain tr' where "root_page tr' = q" "tree_ok t' ps ok lt h None None tr'" "tree_items t' tr' = tree_items t tr" "below tr' = below tr"
    using tree_view [OF d(2) vw _ q(2)] by blast
  then show thesis using tree q same_page_data(5) [OF q(2)] t' d(3) by (intro that [of tr']) (simp_all add: db_tree_def)
qed

subsection \<open>Flushing\<close>

text \<open>C13: \<open>mdb_page_flush\<close> on a dirty list whose entries have pages of their own, with any results of the system calls: every call, also one that fails or is repeated, is about pages
  of the list at their places, the page number times the page size; when the function returns 0, the calls that completed have written each page that is not loose or kept once, in the order of the list,
  without \<open>P_DIRTY\<close>, and only the loose and kept pages stay in the list; and it does return 0 when the calls work, two for each page and two more at most.\<close>

theorem flush_writes_dirty:
  assumes "flush_ready keep w" and "sane ios"
  shows "(\<forall>rc tr w'. mdb_page_flush ios keep w = Inr (rc, tr, w') \<longrightarrow>
       attempted tr \<subseteq> set (to_write (me_psize (w_env w)) (me_mem (w_txn w)) (drop keep (dirty_of w))) \<and>
       (rc = 0 \<longrightarrow> completed tr = to_write (me_psize (w_env w)) (me_mem (w_txn w)) (drop keep (dirty_of w)) \<and>
          dirty_of w' = take keep (dirty_of w) @ filter (skipped (me_mem (w_txn w))) (drop keep (dirty_of w)))) \<and>
     ((\<forall>io\<in>set ios. works io) \<and> 2 * length (drop keep (dirty_of w)) + 2 \<le> length ios \<longrightarrow> (\<exists>tr w'. mdb_page_flush ios keep w = Inr (0, tr, w')))"
  using flush_result [OF assms] flush_returns [OF assms(1)] by blast

subsection \<open>Readers during a commit\<close>

lemma page_of_reader: "has_flag (mt_flags t) (MDB_TXN_RDONLY OR MDB_TXN_WRITEMAP) \<Longrightarrow> page_of t g p \<longleftrightarrow> g < mt_next_pgno t \<and> me_map t g = p"
  by (simp add: page_of_def mdb_page_get_def)

lemma spared_page:
  assumes ready: "flush_ready keep w" and fits: "file_fits w" and sane: "sane ios" and r: "mdb_page_flush ios keep w = Inr (rc, tr, w')"
    and sp: "spared (me_psize (w_env w)) (attempted tr) m m'" and g: "\<And>d. d \<in> set (dirty_of w) \<Longrightarrow> unat g \<notin> run_of (me_mem (w_txn w)) d"
  shows "m' g = m g"
proof -
  let ?ps = "me_psize (w_env w)" and ?m = "me_mem (w_txn w)"
  have "\<not> covers ?ps x g" if "x \<in> attempted tr" for x
  proof -
    have "x \<in> set (to_write ?ps ?m (drop keep (dirty_of w)))" using flush_result(1) [OF ready sane r] that by blast
    then obtain d where d: "d \<in> set (dirty_of w)" "x = place ?ps ?m d" by (auto simp: to_write_def dest: in_set_dropD)
    show ?thesis using covers_place [OF ready fits d(1)] g [OF d(1)] d(2) by simp
  qed
  then show ?thesis using sp by (simp add: spared_def)
qed

text \<open>C9: A reader during a commit. While a writer flushes its dirty pages, and after any part of the writes has reached the file, also when the flush has failed, \<open>mdb_get\<close> of a read transaction
  whose tree has no page in common with the dirty list gives the same answers as before.\<close>

theorem readers_undisturbed:
  assumes "db_tree t dbi Cmp_memn psize short_key (<) h tr" and "has_flag (mt_flags t) MDB_TXN_RDONLY" and "flush_ready keep w" and "file_fits w" and "sane ios"
    and "mdb_page_flush ios keep w = Inr (rc, trc, w')" and "spared (me_psize (w_env w)) (attempted trc) (me_map t) m'"
    and "\<forall>g\<in>insert (md_root (mt_dbs t ! dbi)) (below tr). \<forall>d\<in>set (dirty_of w). unat g \<notin> run_of (me_mem (w_txn w)) d" and "short_key key" and "key \<noteq> []"
  shows "mdb_get touch (t\<lparr>me_map := m'\<rparr>) dbi (Some key) (Some d) =
     Inr (case map_of (tree_items t tr) key of Some v \<Rightarrow> (0, Some v, t\<lparr>me_map := m'\<rparr>) | None \<Rightarrow> (MDB_NOTFOUND, Some d, t\<lparr>me_map := m'\<rparr>))"
proof -
  let ?t = "t\<lparr>me_map := m'\<rparr>" and ?U = "insert (md_root (mt_dbs t ! dbi)) (below tr)"
  have ro: "has_flag (mt_flags t) (MDB_TXN_RDONLY OR MDB_TXN_WRITEMAP)" "has_flag (mt_flags ?t) (MDB_TXN_RDONLY OR MDB_TXN_WRITEMAP)" using assms(2) by (simp_all add: has_flag_or)
  have "m' g = me_map t g" if "g \<in> ?U" for g using assms(8) that by (intro spared_page [OF assms(3-7)]) blast
  then have vw: "view ?U t ?t" unfolding view_def page_of_reader [OF ro(1)] page_of_reader [OF ro(2)] using same_page_refl by auto
  have nb: "\<not> has_flag (mt_flags ?t) MDB_TXN_BLOCKED" using db_treeD(1) [OF assms(1)] by simp
  obtain tr' where tr': "db_tree ?t dbi Cmp_memn psize short_key (<) h tr'" "tree_items ?t tr' = tree_items t tr"
    by (rule db_tree_view [OF assms(1) vw _ _ _ _ nb]) (use db_treeD [OF assms(1)] in simp_all)
  show ?thesis using memn.get_lookup [OF tr'(1) assms(9,10)] tr'(2) by simp
qed

subsection \<open>Transactions after a commit\<close>

text \<open>The end of \<open>mdb_txn_commit\<close>: the dirty pages, the sync, and the meta page. The result has the code, the calls of the flush, the transaction and the environment.\<close>

definition commit_write :: "io list \<Rightarrow> (bool \<Rightarrow> int) \<Rightarrow> int \<Rightarrow> int \<Rightarrow> pwrite list \<Rightarrow> int \<Rightarrow> MDB_wtxn \<Rightarrow> MDB_menv \<Rightarrow> (int \<times> trace \<times> MDB_wtxn \<times> MDB_menv) res" where
  "commit_write ios msync fdatasync len pws meta_msync w e =
     bindE (mdb_page_flush ios 0 w) (\<lambda>(rc, tr, w').
     if rc \<noteq> 0 then Inr (rc, tr, w', e)
     else
       let rc = mdb_env_sync msync fdatasync False e in
       if rc \<noteq> 0 then Inr (rc, tr, w', e)
       else bindE (mdb_env_write_meta len pws meta_msync w' e) (\<lambda>(rc, e'). Inr (rc, tr, w', e')))"

text \<open>The flush leaves what goes into the meta page alone.\<close>

definition same_core :: "MDB_wtxn \<Rightarrow> MDB_wtxn \<Rightarrow> bool" where
  "same_core w w' \<longleftrightarrow> mt_dbs (w_txn w') = mt_dbs (w_txn w) \<and> mt_next_pgno (w_txn w') = mt_next_pgno (w_txn w) \<and> mt_txnid w' = mt_txnid w"

lemma same_core_refl [simp]: "same_core w w"
  by (simp add: same_core_def)

lemma same_core_trans [trans]: "same_core w w1 \<Longrightarrow> same_core w1 w2 \<Longrightarrow> same_core w w2"
  by (simp add: same_core_def)

lemma same_core_put: "same_core w (put_page a p w)" "same_core w (mdb_dpage_free a w)" "same_core w (set_dirty_list dl w)"
  by (simp_all add: same_core_def put_page_def upd_txn_def mdb_dpage_free_def mdb_page_free_def upd_env_def set_dirty_list_def Let_def)

lemma flush_loop_core: "flush_loop k pc i ios f w = Inr (rc, tr, f', w') \<Longrightarrow> same_core w w'"
proof (induction k arbitrary: i ios f w rc tr f' w')
  case (Suc k)
  have step: "same_core w1 w'" if "bindE (flush_write ios g w1) (\<lambda>(rc, tr, ios', f', brk).
        if rc \<noteq> 0 then Inr (rc, tr, f', w1) else if brk \<and> over then Inr (0, tr, f', w1)
        else bindE (flush_add (if brk then f'\<lparr>fl_wpos := fl_pos f', fl_wsize := 0\<rparr> else f')) (\<lambda>f''.
          bindE (flush_loop k pc (Suc i) ios' f'' w1) (\<lambda>(rc, tr', f3, w'). Inr (rc, tr @ tr', f3, w')))) = Inr (rc, tr, f', w')" for over g w1
    using that Suc.IH by (auto simp: bindE_def split: sum.splits if_splits)
  show ?case
  proof (cases "Suc i \<le> pc")
    case False
    then show ?thesis using Suc.prems step [of f w True] by (simp add: Let_def)
  next
    case True
    then obtain d where d: "aget (fl_dl f) (Suc i) = Inr d" using Suc.prems by (cases "aget (fl_dl f) (Suc i)") auto
    let ?dp = "me_mem (w_txn w) (mptr d)"
    show ?thesis
    proof (cases "has_flag (mp_flags ?dp) (P_LOOSE OR P_KEEP)")
      case kept: True
      have "same_core (put_page (mptr d) (?dp\<lparr>mp_flags := clear_flag (mp_flags ?dp) P_KEEP\<rparr>) w) w'" using Suc.prems True d kept by (intro Suc.IH) (simp add: Let_def)
      then show ?thesis by (rule same_core_trans [OF same_core_put(1)])
    next
      case False
      have "same_core (put_page (mptr d) (?dp\<lparr>mp_flags := clear_flag (mp_flags ?dp) P_DIRTY\<rparr>) w) w'" using Suc.prems True d False by (intro step [of _ _ False]) (simp add: Let_def)
      then show ?thesis by (rule same_core_trans [OF same_core_put(1)])
    qed
  qed
qed simp

lemma flush_free_core: "flush_free n i j dl w = Inr (j', dl', w') \<Longrightarrow> same_core w w'"
proof (induction n arbitrary: i j dl w)
  case (Suc n)
  then obtain d where d: "aget dl (Suc i) = Inr d" by (cases "aget dl (Suc i)") auto
  show ?case
  proof (cases "mid d = 0")
    case True
    then show ?thesis using Suc d by (auto simp: bindE_def split: sum.splits)
  next
    case False
    then have "same_core (mdb_dpage_free (mptr d) w) w'" using Suc.prems d by (intro Suc.IH) simp
    then show ?thesis by (rule same_core_trans [OF same_core_put(2)])
  qed
qed simp

lemma flush_core:
  assumes "mdb_page_flush ios keep w = Inr (rc, tr, w')" and "\<not> has_flag (me_flags (w_env w)) MDB_WRITEMAP"
  shows "same_core w w'"
proof -
  obtain sp dl ls where l: "mt_lists (w_txn w) = (sp, dl) # ls" using assms(1) by (cases "mt_lists (w_txn w)") (auto simp: mdb_page_flush_def)
  obtain n where n: "aget dl 0 = Inr n" using assms(1) by (cases "aget dl 0") (auto simp: mdb_page_flush_def l)
  let ?pc = "unat (mid n)"
  obtain k f where "mdb_page_flush ios keep w =
      bindE (flush_loop k ?pc keep ios f w) (\<lambda>(rc, tr, f, w'). if rc \<noteq> 0 then Inr (rc, tr, set_dirty_list (fl_dl f) w')
        else bindE (flush_free (?pc - keep) keep keep (fl_dl f) w') (\<lambda>(j, dl', w''). bindE (flush_done (max keep ?pc) j dl' w'') (\<lambda>w3. Inr (0, tr, w3))))"
    using assms(2) by (simp add: mdb_page_flush_def l n Let_def del: flush_loop.simps flush_free.simps)
  note u = this [unfolded assms(1), symmetric]
  obtain rc1 tr1 f1 w1 where r: "flush_loop k ?pc keep ios f w = Inr (rc1, tr1, f1, w1)" using u by (cases "flush_loop k ?pc keep ios f w") auto
  note s = flush_loop_core [OF r]
  show ?thesis
  proof (cases "rc1 = 0")
    case False
    then have "w' = set_dirty_list (fl_dl f1) w1" using u r by simp
    then show ?thesis using same_core_trans [OF s] same_core_put(3) by simp
  next
    case True
    obtain j dl' w2 where w2: "flush_free (?pc - keep) keep keep (fl_dl f1) w1 = Inr (j, dl', w2)" using u r True by (cases "flush_free (?pc - keep) keep keep (fl_dl f1) w1") auto
    have "flush_done (max keep ?pc) j dl' w2 = Inr w'" using u r True w2 by (cases "flush_done (max keep ?pc) j dl' w2") auto
    then obtain x where "w' = (set_dirty_list x w2)\<lparr>mt_dirty_room := mt_dirty_room w2 + of_nat (max keep ?pc) - of_nat j\<rparr>"
      by (auto simp: flush_done_def bindE_def split: sum.splits)
    then have "same_core w2 w'" using same_core_put(3) [of w2 x] by (simp add: same_core_def)
    then show ?thesis using same_core_trans [OF same_core_trans [OF s flush_free_core [OF w2]]] by simp
  qed
qed

lemma commit_write_done:
  assumes "commit_write ios msync fd len pws mm w e = Inr (0, tr, w', e')" and c: "commits_from w e" and p: "\<forall>pw\<in>set pws. reports len pw" and nw: "\<not> has_flag (me_flags (w_env w)) MDB_WRITEMAP"
  shows "mdb_page_flush ios 0 w = Inr (0, tr, w')"
    "e' = e\<lparr>me_metas := (me_metas e)[unat (mt_txnid w) mod 2 := written_meta w e], mti_txnid := map_option (\<lambda>_. mt_txnid w) (mti_txnid e)\<rparr>"
proof -
  show f: "mdb_page_flush ios 0 w = Inr (0, tr, w')" using assms(1) by (auto simp: commit_write_def bindE_def Let_def split: sum.splits if_splits)
  have s: "same_core w w'" by (rule flush_core [OF f nw])
  have m: "mdb_env_write_meta len pws mm w' e = Inr (0, e')" using assms(1) f by (auto simp: commit_write_def bindE_def Let_def split: sum.splits if_splits)
  have c': "commits_from w' e" "written_meta w' e = written_meta w e" "mt_txnid w' = mt_txnid w" using c s by (simp_all add: commits_from_def same_core_def written_meta_def new_meta_def Let_def)
  show "e' = e\<lparr>me_metas := (me_metas e)[unat (mt_txnid w) mod 2 := written_meta w e], mti_txnid := map_option (\<lambda>_. mt_txnid w) (mti_txnid e)\<rparr>"
    using write_meta_done [OF c'(1) m p] by (simp add: c'(2,3))
qed

lemma published_page:
  assumes ready: "flush_ready 0 w" and fits: "file_fits w" and sane: "sane ios" and r: "mdb_page_flush ios 0 w = Inr (0, tr, w')"
    and wr: "wrote (me_psize (w_env w)) (completed tr) m'" and g: "dirty_at w g = Some a" and nk: "\<And>d. d \<in> set (dirty_of w) \<Longrightarrow> mid d = g \<Longrightarrow> \<not> skipped (me_mem (w_txn w)) d"
  shows "m' g = clean (me_mem (w_txn w) a)"
proof -
  let ?ps = "me_psize (w_env w)" and ?m = "me_mem (w_txn w)"
  obtain d where d: "d \<in> set (dirty_of w)" "mid d = g" "mptr d = a" using g unfolding dirty_at_def by (auto dest!: map_of_SomeD)
  have "place ?ps ?m d \<in> set (completed tr)" using flush_result(2) [OF ready sane r refl] d nk by (auto simp: to_write_def)
  moreover have "?ps < 2 ^ 16" using ready by (simp add: flush_ready_def)
  then have "unat (mid d * of_nat ?ps :: size_t) = unat g * ?ps" using fits d by (auto simp: file_fits_def intro!: place_pos)
  ultimately show ?thesis using wr d(3) by (auto simp: wrote_def place_def)
qed

text \<open>What a reader of the map finds, when the map shows what was written, is what the writer had.\<close>

lemma view_after:
  assumes wl: "mt_lists (w_txn w) = [(None, dl)]" "id2_asc dl" "\<not> has_flag (mt_flags (w_txn w)) (MDB_TXN_RDONLY OR MDB_TXN_WRITEMAP)"
    and fl: "flush_ready 0 w" "file_fits w" "sane ios" "mdb_page_flush ios 0 w = Inr (0, trc, w')"
    and map: "spared (me_psize (w_env w)) (attempted trc) (me_map (w_txn w)) m'" "wrote (me_psize (w_env w)) (completed trc) m'"
    and U: "\<forall>g\<in>U. g < mt_next_pgno (w_txn w) \<and> (\<forall>d\<in>set (dirty_of w). if g = mid d then \<not> skipped (me_mem (w_txn w)) d else unat g \<notin> run_of (me_mem (w_txn w)) d)"
    and t: "has_flag (mt_flags t) (MDB_TXN_RDONLY OR MDB_TXN_WRITEMAP)" "me_map t = m'" "mt_next_pgno t = mt_next_pgno (w_txn w)"
  shows "view U (w_txn w) t"
proof -
  have pg: "page_of t g q \<longleftrightarrow> g < mt_next_pgno (w_txn w) \<and> m' g = q" for g q using page_of_reader [OF t(1)] t(2,3) by simp
  have "\<exists>q. page_of t g q \<and> same_page p q" if g: "g \<in> U" and p: "page_of (w_txn w) g p" for g p
  proof -
    have lt: "g < mt_next_pgno (w_txn w)" and ap: "\<And>d. d \<in> set (dirty_of w) \<Longrightarrow> if g = mid d then \<not> skipped (me_mem (w_txn w)) d else unat g \<notin> run_of (me_mem (w_txn w)) d"
      using U g by blast+
    show ?thesis
    proof (cases "dirty_at w g")
      case None
      then have "g \<notin> mid ` set (dirty_of w)" by (simp add: dirty_at_new)
      then have "unat g \<notin> run_of (me_mem (w_txn w)) d" if "d \<in> set (dirty_of w)" for d using ap [OF that] that by (auto split: if_splits)
      then have "m' g = me_map (w_txn w) g" by (rule spared_page [OF fl map(1)])
      then show ?thesis using None p page_of_dirty [OF wl] lt same_page_refl by (simp add: pg)
    next
      case (Some a)
      have "m' g = clean (me_mem (w_txn w) a)" using ap by (intro published_page [OF fl map(2) Some]) auto
      moreover have "p = me_mem (w_txn w) a" using Some p page_of_dirty [OF wl] by simp
      ultimately show ?thesis using lt same_page_clean by (simp add: pg)
    qed
  qed
  then show ?thesis by (simp only: view_def) blast
qed

text \<open>The transaction that \<open>mdb_txn_renew0\<close> sets up from the meta page of a commit.\<close>

lemma renewed_reader:
  assumes "\<not> has_flag (me_flags e) MDB_FATAL_ERROR" and "mt_next_pgno (w_txn w) \<le> me_maxpg e"
    and "e' = e\<lparr>me_metas := ms, mti_txnid := n\<rparr>"
  obtains t' where "renew_fields MDB_TXN_RDONLY (written_meta w e) e' t = (0, t')" "mt_flags t' = MDB_TXN_RDONLY" "mt_next_pgno t' = mt_next_pgno (w_txn w)" "mt_dbs t' ! MAIN_DBI = mt_dbs (w_txn w) ! MAIN_DBI"
    "MAIN_DBI < length (mt_dbs t')" "MAIN_DBI < length (mt_dbflags t')" "mt_dbflags t' ! MAIN_DBI = DB_VALID OR DB_USRVALID" "mt_dbxs t' = mt_dbxs t" "me_map t' = me_map t"
proof -
  let ?t = "snd (renew_fields MDB_TXN_RDONLY (written_meta w e) e' t)"
  have "renew_fields MDB_TXN_RDONLY (written_meta w e) e' t = (0, ?t)"
    using assms leD [OF assms(2)] by (simp add: renew_fields_def written_meta_def new_meta_def Let_def)
  then show thesis by (rule that) (simp_all add: renew_fields_def written_meta_def new_meta_def Let_def CORE_DBS_def MAIN_DBI_def FREE_DBI_def)
qed

text \<open>C5: A commit makes the writer's main database visible. When the end of \<open>mdb_txn_commit\<close>, with \<open>mdb_page_flush\<close>, \<open>mdb_env_sync\<close> and \<open>mdb_env_write_meta\<close>, has returned 0 and the map shows what was
  written, a read transaction that \<open>mdb_txn_renew0\<close> sets up begins without an error, has the number of the committed transaction, and its \<open>mdb_get\<close> on the main database is the lookup in the items of the tree that the
  writer had, in memory and in the map together; none of them is lost and none is changed.\<close>

theorem commit_visible:
  assumes "db_tree (w_txn w) MAIN_DBI Cmp_memn psize short_key (<) h tr" and "mt_lists (w_txn w) = [(None, dl)]" and "id2_asc dl" and "\<not> has_flag (mt_flags (w_txn w)) (MDB_TXN_RDONLY OR MDB_TXN_WRITEMAP)"
    and "flush_ready 0 w" and "file_fits w" and "sane ios" and "commits_from w e" and "mti_txnid e \<in> {None, Some (mt_txnid w - 1)}" and "\<forall>pw\<in>set pws. reports len pw"
    and "\<not> has_flag (me_flags e) MDB_FATAL_ERROR" and "mt_next_pgno (w_txn w) \<le> me_maxpg e"
    and "commit_write ios msync fd len pws mm w e = Inr (0, trc, w', e')"
    and "spared (me_psize (w_env w)) (attempted trc) (me_map (w_txn w)) m'" and "wrote (me_psize (w_env w)) (completed trc) m'"
    and "\<forall>g\<in>insert (md_root (mt_dbs (w_txn w) ! MAIN_DBI)) (below tr). g < mt_next_pgno (w_txn w) \<and>
       (\<forall>d\<in>set (dirty_of w). if g = mid d then \<not> skipped (me_mem (w_txn w)) d else unat g \<notin> run_of (me_mem (w_txn w)) d)"
    and "me_map t = m'" and "mt_dbxs t = mt_dbxs (w_txn w)" and "short_key key" and "key \<noteq> []"
  shows "\<exists>m t'. renew_read_meta e' = Inr (mt_txnid w, m) \<and> renew_fields MDB_TXN_RDONLY m e' t = (0, t') \<and>
     mdb_get touch t' MAIN_DBI (Some key) (Some d) =
       Inr (case map_of (tree_items (w_txn w) tr) key of Some v \<Rightarrow> (0, Some v, t') | None \<Rightarrow> (MDB_NOTFOUND, Some d, t'))"
proof -
  have nw: "\<not> has_flag (me_flags (w_env w)) MDB_WRITEMAP" using assms(5) by (simp add: flush_ready_def)
  note c = commit_write_done [OF assms(13,8,10) nw]
  obtain t' where t': "renew_fields MDB_TXN_RDONLY (written_meta w e) e' t = (0, t')" "mt_flags t' = MDB_TXN_RDONLY" "mt_next_pgno t' = mt_next_pgno (w_txn w)" "mt_dbs t' ! MAIN_DBI = mt_dbs (w_txn w) ! MAIN_DBI"
    "MAIN_DBI < length (mt_dbs t')" "MAIN_DBI < length (mt_dbflags t')" "mt_dbflags t' ! MAIN_DBI = DB_VALID OR DB_USRVALID" "mt_dbxs t' = mt_dbxs t" "me_map t' = me_map t"
    by (rule renewed_reader [OF assms(11,12) c(2)])
  have ro: "has_flag (mt_flags t') (MDB_TXN_RDONLY OR MDB_TXN_WRITEMAP)" "\<not> has_flag (mt_flags t') MDB_TXN_BLOCKED"
    unfolding t'(2) by (simp_all add: has_flag_def MDB_TXN_RDONLY_def MDB_TXN_WRITEMAP_def MDB_TXN_BLOCKED_def MDB_TXN_FINISHED_def MDB_TXN_ERROR_def MDB_TXN_HAS_CHILD_def)
  have vw: "view (insert (md_root (mt_dbs (w_txn w) ! MAIN_DBI)) (below tr)) (w_txn w) t'"
    by (rule view_after [OF assms(2-7) c(1) assms(14,15,16) ro(1)]) (simp_all add: t'(3,9) assms(17))
  have fl: "has_flag (mt_dbflags t' ! MAIN_DBI) DB_USRVALID" "\<not> has_flag (mt_dbflags t' ! MAIN_DBI) DB_STALE"
    unfolding t'(7) by (simp_all add: has_flag_def DB_VALID_def DB_USRVALID_def DB_STALE_def)
  obtain tr' where tr': "db_tree t' MAIN_DBI Cmp_memn psize short_key (<) h tr'" "tree_items t' tr' = tree_items (w_txn w) tr"
    by (rule db_tree_view [OF assms(1) vw t'(5,4) _ _ ro(2) t'(6) fl]) (use db_treeD(3) [OF assms(1)] in \<open>simp_all add: t'(8) assms(18)\<close>)
  have "renew_read_meta e' = Inr (mt_txnid w, written_meta w e)" by (rule read_after [OF assms(8,9) c(2)])
  then show ?thesis using t'(1) memn.get_lookup [OF tr'(1) assms(19,20)] tr'(2) by auto
qed

subsection \<open>A page that is written\<close>

text \<open>The main database with three pages in a write transaction that has one dirty page, of number \<open>g\<close>; page 4 is not in the map yet.\<close>

definition dirty_txn :: "size_t \<Rightarrow> MDB_wtxn" where
  "dirty_txn g = \<lparr>w_txn = small_txn\<lparr>mt_flags := 0, mt_lists := [(None, [\<lparr>mid = 1, mptr = 0\<rparr>, \<lparr>mid = g, mptr = 7\<rparr>])],
       me_mem := (\<lambda>_. leaf_b\<lparr>mp_pgno := g, mp_flags := P_LEAF OR P_DIRTY\<rparr>), me_map := (\<lambda>x. if x = 3 then leaf_a else root_ab),
       mt_dbs := mt_dbs small_txn @ mt_dbs small_txn, mt_dbxs := mt_dbxs small_txn @ mt_dbxs small_txn, mt_dbflags := mt_dbflags small_txn @ mt_dbflags small_txn\<rparr>,
     w_env = \<lparr>me_flags = 0, me_psize = 64, me_maxpg = 1000, me_pghead = None, me_pglast = 0, me_pgoldest = 0, me_txns = None, me_dpages = []\<rparr>,
     mt_txnid = 9, mt_free_pgs = \<lparr>alloclen = 2, cells = [0, 0, 0]\<rparr>, mt_loose_pgs = [], mt_loose_count = 0, mt_dirty_room = 5\<rparr>"

definition all_written :: "io list" where
  "all_written = replicate 4 (\<lambda>c. (int (unat (call_len c)), 0))"

lemma all_written_works: "\<forall>io\<in>set all_written. works io" "sane all_written" "length all_written = 4"
  by (simp_all add: all_written_def works_def sane_def)

lemma dirty_txn_list: "dirty_of (dirty_txn g) = [\<lparr>mid = g, mptr = 7\<rparr>]"
  by (simp add: dirty_of_def dirty_txn_def id2_of_def)

lemma dirty_page_plain:
  assumes "p = leaf_b\<lparr>mp_pgno := g, mp_flags := P_LEAF OR P_DIRTY\<rparr>"
  shows "\<not> IS_OVERFLOW p" "\<not> has_flag (mp_flags p) (P_LOOSE OR P_KEEP)"
  using assms by (simp_all add: IS_OVERFLOW_def F_ISSET_def P_OVERFLOW_def P_LEAF_def P_DIRTY_def has_flag_def P_LOOSE_def P_KEEP_def)

lemma dirty_txn_mem: "me_mem (w_txn (dirty_txn g)) a = leaf_b\<lparr>mp_pgno := g, mp_flags := P_LEAF OR P_DIRTY\<rparr>" "me_psize (w_env (dirty_txn g)) = 64"
  by (simp_all add: dirty_txn_def)

lemma dirty_txn_ready: "g \<noteq> 0 \<Longrightarrow> flush_ready 0 (dirty_txn g)"
  using dirty_page_plain(1) [OF refl, of g] unfolding flush_ready_def dirty_txn_list page_at_entry_def dirty_txn_mem by (simp add: dirty_txn_def has_flag_def)

lemma dirty_txn_place:
  "skipped (me_mem (w_txn (dirty_txn g))) d \<longleftrightarrow> False" "run_of (me_mem (w_txn (dirty_txn g))) d = {unat (mid d)}"
  using dirty_page_plain [OF refl, of g] by (auto simp: skipped_def run_of_def dirty_txn_mem)

lemma small_below: "below small_tree = {3, 4}"
proof -
  have n: "NODEPGNO (hdr_at root_ab 0) = 3" "NODEPGNO (hdr_at root_ab 1) = 4" by (simp_all add: hdr_at_def small_hdrs small_offs NODEPGNO_def)
  have "big_page leaf_a i = None" if "i < 2" for i
    using that by (auto simp: big_page_def leaf_search_item [OF small_wf(1)] small_page_facts small_offs hdr_at_def small_hdrs F_ISSET_def F_BIGDATA_def less_2_cases_iff)
  moreover have "big_page leaf_b i = None" if "i < 1" for i
    using that by (simp add: big_page_def leaf_search_item [OF small_wf(2)] small_page_facts small_offs hdr_at_def small_hdrs F_ISSET_def F_BIGDATA_def)
  ultimately show ?thesis using n by (auto simp: small_tree_def small_page_facts less_2_cases_iff)
qed

text \<open>The tree in the write transaction: its second leaf is the dirty page 4.\<close>

lemma dirty_txn_tree:
  obtains tr where "db_tree (w_txn (dirty_txn 4)) MAIN_DBI Cmp_memn 64 short_key (<) 1 tr" "tree_items (w_txn (dirty_txn 4)) tr = [([5], [9]), ([5, 1], [8, 8]), ([7, 7], [3])]" "below tr = {3, 4}"
proof -
  let ?w = "dirty_txn 4"
  have l: "mt_lists (w_txn ?w) = [(None, [\<lparr>mid = 1, mptr = 0\<rparr>, \<lparr>mid = 4, mptr = 7\<rparr>])]" "id2_asc [\<lparr>mid = 1, mptr = 0\<rparr>, \<lparr>mid = 4, mptr = 7\<rparr>]"
    "\<not> has_flag (mt_flags (w_txn ?w)) (MDB_TXN_RDONLY OR MDB_TXN_WRITEMAP)"
    by (simp_all add: dirty_txn_def id2_asc_def id2_of_def MDB_IDL_UM_MAX_def MDB_IDL_UM_SIZE_def MDB_IDL_LOGN_def)
  have at: "dirty_at ?w g = (if g = 4 then Some 7 else None)" for g by (simp add: dirty_at_def dirty_txn_list)
  have pg: "page_of (w_txn ?w) 2 root_ab" "page_of (w_txn ?w) 3 leaf_a" "page_of (w_txn ?w) 4 (leaf_b\<lparr>mp_pgno := 4, mp_flags := P_LEAF OR P_DIRTY\<rparr>)"
    unfolding page_of_dirty [OF l] at by (simp_all add: dirty_txn_def small_txn_def)
  have sm: "same_page leaf_b (leaf_b\<lparr>mp_pgno := 4, mp_flags := P_LEAF OR P_DIRTY\<rparr>)"
    by (simp add: same_page_def leaf_b_def page64_def clear_flag_def P_LEAF_def P_DIRTY_def)
  have one: "p = q" if "page_of small_txn g p" "page_of small_txn g q" for g p q using that by (simp add: page_of_def split: sum.splits option.splits prod.splits)
  have "\<exists>q. page_of (w_txn ?w) g q \<and> same_page p q" if g: "g \<in> {2, 3, 4}" and p: "page_of small_txn g p" for g p
  proof -
    consider "g = 2" | "g = 3" | "g = 4" using g by auto
    then show ?thesis
    proof cases
      case 1
      then show ?thesis using one [of 2 p root_ab] p small_pages(1) pg(1) same_page_refl by auto
    next
      case 2
      then show ?thesis using one [of 3 p leaf_a] p small_pages(2) pg(2) same_page_refl by auto
    next
      case 3
      then show ?thesis using one [of 4 p leaf_b] p small_pages(3) pg(3) sm by auto
    qed
  qed
  moreover have "md_root (mt_dbs small_txn ! 0) = 2" by (simp add: small_txn_def)
  ultimately have vw: "view (insert (md_root (mt_dbs small_txn ! 0)) (below small_tree)) small_txn (w_txn ?w)" unfolding view_def small_below by simp
  have nb: "\<not> has_flag (mt_flags (w_txn ?w)) MDB_TXN_BLOCKED" by (simp add: dirty_txn_def)
  have h: "MAIN_DBI < length (mt_dbs (w_txn ?w))" "mt_dbs (w_txn ?w) ! MAIN_DBI = mt_dbs small_txn ! 0" "MAIN_DBI < length (mt_dbxs (w_txn ?w))" "mt_dbxs (w_txn ?w) ! MAIN_DBI = mt_dbxs small_txn ! 0"
    "MAIN_DBI < length (mt_dbflags (w_txn ?w))" "mt_dbflags (w_txn ?w) ! MAIN_DBI = mt_dbflags small_txn ! 0" by (simp_all add: dirty_txn_def small_txn_def MAIN_DBI_def)
  have "has_flag (mt_dbflags (w_txn ?w) ! MAIN_DBI) DB_USRVALID" "\<not> has_flag (mt_dbflags (w_txn ?w) ! MAIN_DBI) DB_STALE" unfolding h(6) using db_treeD(5,14) [OF small_db] by simp_all
  then obtain tr where "db_tree (w_txn ?w) MAIN_DBI Cmp_memn 64 short_key (<) 1 tr" "tree_items (w_txn ?w) tr = tree_items small_txn small_tree" "below tr = below small_tree"
    using db_tree_view [OF small_db vw h(1-4) nb h(5)] by blast
  then show thesis using that small_items small_below by simp
qed

lemma dirty_txn_flush:
  assumes "g \<noteq> 0"
  obtains tr w' where "mdb_page_flush all_written 0 (dirty_txn g) = Inr (0, tr, w')" "completed tr = [(g * 64, clean (leaf_b\<lparr>mp_pgno := g, mp_flags := P_LEAF OR P_DIRTY\<rparr>), 64)]"
    "attempted tr \<subseteq> {(g * 64, clean (leaf_b\<lparr>mp_pgno := g, mp_flags := P_LEAF OR P_DIRTY\<rparr>), 64)}"
proof -
  let ?p = "leaf_b\<lparr>mp_pgno := g, mp_flags := P_LEAF OR P_DIRTY\<rparr>"
  note rd = dirty_txn_ready [OF assms] and aw = all_written_works
  obtain tr w' where f: "mdb_page_flush all_written 0 (dirty_txn g) = Inr (0, tr, w')" using flush_returns [OF rd aw(1)] aw(3) by (auto simp: dirty_txn_list)
  have "to_write 64 (me_mem (w_txn (dirty_txn g))) (drop 0 (dirty_of (dirty_txn g))) = [(g * 64, clean ?p, 64)]"
    using dirty_page_plain(1) [OF refl, of g] by (simp add: dirty_txn_list dirty_txn_place place_def dirty_txn_mem page_bytes_def)
  then show thesis using flush_result [OF rd aw(2) f] that [OF f] by (simp add: dirty_txn_mem(2))
qed

theorem flush_writes_dirty_witness:
  "\<exists>tr w'. mdb_page_flush all_written 0 (dirty_txn 4) = Inr (0, tr, w') \<and> map (\<lambda>(pos, p, n). (pos, mp_pgno p, mp_flags p, n)) (completed tr) = [(256, 4, P_LEAF, 64)] \<and> dirty_of w' = []"
proof -
  have g: "(4 :: size_t) \<noteq> 0" by simp
  note t = flush_writes_dirty [OF dirty_txn_ready [OF g] all_written_works(2)]
  obtain tr w' where f: "mdb_page_flush all_written 0 (dirty_txn 4) = Inr (0, tr, w')" "completed tr = [(4 * 64, clean (leaf_b\<lparr>mp_pgno := 4, mp_flags := P_LEAF OR P_DIRTY\<rparr>), 64)]"
    by (rule dirty_txn_flush [OF g])
  have "dirty_of w' = []" using t f(1) by (auto simp: dirty_txn_list dirty_txn_place)
  moreover have "clear_flag (P_LEAF OR P_DIRTY) P_DIRTY = P_LEAF" by (simp add: clear_flag_def P_LEAF_def P_DIRTY_def)
  ultimately show ?thesis using f by (simp add: clean_def)
qed

theorem readers_undisturbed_witness:
  "mdb_get (\<lambda>c. Inr (0, c)) (small_txn\<lparr>me_map := (me_map small_txn)(5 := blank_page P_LEAF)\<rparr>) 0 (Some [7, 7]) (Some []) = Inr (0, Some [3], small_txn\<lparr>me_map := (me_map small_txn)(5 := blank_page P_LEAF)\<rparr>)"
proof -
  let ?m = "(me_map small_txn)(5 := blank_page P_LEAF)"
  have g: "(5 :: size_t) \<noteq> 0" by simp
  have ro: "has_flag (mt_flags small_txn) MDB_TXN_RDONLY" by (simp add: small_txn_def has_flag_def MDB_TXN_RDONLY_def)
  have fits: "file_fits (dirty_txn 5)" by (simp add: file_fits_def dirty_txn_list dirty_txn_mem(2))
  obtain tr w' where f: "mdb_page_flush all_written 0 (dirty_txn 5) = Inr (0, tr, w')" "completed tr = [(5 * 64, clean (leaf_b\<lparr>mp_pgno := 5, mp_flags := P_LEAF OR P_DIRTY\<rparr>), 64)]"
    by (rule dirty_txn_flush [OF g])
  have c: "covers 64 (5 * 64, p, 64) 5" for p by simp
  have "set (completed tr) \<subseteq> attempted tr" by (auto simp: completed_def attempted_def split: if_splits)
  then have sp: "spared (me_psize (w_env (dirty_txn 5))) (attempted tr) (me_map small_txn) ?m" unfolding spared_def dirty_txn_mem(2) using f(2) c by fastforce
  have ap: "\<forall>g\<in>insert (md_root (mt_dbs small_txn ! 0)) (below small_tree). \<forall>d\<in>set (dirty_of (dirty_txn 5)). unat g \<notin> run_of (me_mem (w_txn (dirty_txn 5))) d"
    by (simp add: small_below dirty_txn_list dirty_txn_place) (simp add: small_txn_def)
  show ?thesis using readers_undisturbed [OF small_db ro dirty_txn_ready [OF g] fits all_written_works(2) f(1) sp ap, of "[7, 7]" "\<lambda>c. Inr (0, c)" "[]"]
    by (simp add: small_items short_key_def)
qed

text \<open>The environment in which transaction 9 commits, and the read transaction that begins in it.\<close>

definition env_8 :: MDB_menv where
  "env_8 = first_env\<lparr>me_metas := [first_meta\<lparr>mm_txnid := 8\<rparr>, first_meta\<lparr>mm_txnid := 7\<rparr>], mti_txnid := Some 8\<rparr>"

definition next_reader :: MDB_txn where
  "next_reader = (w_txn (dirty_txn 4))\<lparr>me_map := (me_map (w_txn (dirty_txn 4)))(4 := leaf_b)\<rparr>"

definition pwrites :: "pwrite list" where
  "pwrites = [\<lambda>d c. (120, 0, d)]"

lemma env_8_commits: "commits_from (dirty_txn 4) env_8" "mti_txnid env_8 \<in> {None, Some (mt_txnid (dirty_txn 4) - 1)}" "\<forall>pw\<in>set pwrites. reports 120 pw"
  "\<not> has_flag (me_flags env_8) MDB_FATAL_ERROR" "mt_next_pgno (w_txn (dirty_txn 4)) \<le> me_maxpg env_8"
  by (simp_all add: commits_from_def metas_ok_def newest_def env_8_def first_env_def dirty_txn_def Let_def pwrites_def reports_def bare_env_def has_flag_def small_txn_def)

lemma dirty_txn_commit:
  obtains tr w' e' where "mdb_page_flush all_written 0 (dirty_txn 4) = Inr (0, tr, w')" "completed tr = [(4 * 64, clean (leaf_b\<lparr>mp_pgno := 4, mp_flags := P_LEAF OR P_DIRTY\<rparr>), 64)]"
    "commit_write all_written (\<lambda>_. 0) 0 120 pwrites 0 (dirty_txn 4) env_8 = Inr (0, tr, w', e')"
proof -
  have g: "(4 :: size_t) \<noteq> 0" by simp
  obtain tr w' where f: "mdb_page_flush all_written 0 (dirty_txn 4) = Inr (0, tr, w')" "completed tr = [(4 * 64, clean (leaf_b\<lparr>mp_pgno := 4, mp_flags := P_LEAF OR P_DIRTY\<rparr>), 64)]"
    by (rule dirty_txn_flush [OF g])
  have "\<not> has_flag (me_flags (w_env (dirty_txn 4))) MDB_WRITEMAP" by (simp add: dirty_txn_def has_flag_def)
  then have "same_core (dirty_txn 4) w'" by (rule flush_core [OF f(1)])
  then have "commits_from w' env_8" using env_8_commits(1) by (simp add: commits_from_def same_core_def)
  then obtain e' where "mdb_env_write_meta 120 pwrites 0 w' env_8 = Inr (0, e')" unfolding write_meta_eq [OF \<open>commits_from w' env_8\<close>] by (simp add: pwrites_def)
  moreover have "mdb_env_sync (\<lambda>_. 0) 0 False env_8 = 0" by (simp add: mdb_env_sync_def env_8_def first_env_def bare_env_def has_flag_def)
  ultimately show thesis using f by (intro that [of tr w' e']) (simp_all add: commit_write_def)
qed

theorem commit_visible_witness:
  "\<exists>tr w' e' m t'. commit_write all_written (\<lambda>_. 0) 0 120 pwrites 0 (dirty_txn 4) env_8 = Inr (0, tr, w', e') \<and> renew_read_meta e' = Inr (9, m) \<and>
     renew_fields MDB_TXN_RDONLY m e' next_reader = (0, t') \<and> mdb_get (\<lambda>c. Inr (0, c)) t' MAIN_DBI (Some [7, 7]) (Some []) = Inr (0, Some [3], t')"
proof -
  let ?w = "dirty_txn 4" and ?p = "leaf_b\<lparr>mp_pgno := 4, mp_flags := P_LEAF OR P_DIRTY\<rparr>"
  let ?m = "(me_map (w_txn ?w))(4 := leaf_b)"
  have g: "(4 :: size_t) \<noteq> 0" by simp
  have l: "mt_lists (w_txn ?w) = [(None, [\<lparr>mid = 1, mptr = 0\<rparr>, \<lparr>mid = 4, mptr = 7\<rparr>])]" "id2_asc [\<lparr>mid = 1, mptr = 0\<rparr>, \<lparr>mid = 4, mptr = 7\<rparr>]"
    "\<not> has_flag (mt_flags (w_txn ?w)) (MDB_TXN_RDONLY OR MDB_TXN_WRITEMAP)"
    by (simp_all add: dirty_txn_def id2_asc_def id2_of_def MDB_IDL_UM_MAX_def MDB_IDL_UM_SIZE_def MDB_IDL_LOGN_def)
  have fits: "file_fits ?w" by (simp add: file_fits_def dirty_txn_list dirty_txn_mem(2))
  have cl: "clean ?p = leaf_b" by (simp add: clean_def leaf_b_def page64_def clear_flag_def P_LEAF_def P_DIRTY_def)
  obtain tr w' e' where f: "mdb_page_flush all_written 0 ?w = Inr (0, tr, w')" "completed tr = [(4 * 64, clean ?p, 64)]" "commit_write all_written (\<lambda>_. 0) 0 120 pwrites 0 ?w env_8 = Inr (0, tr, w', e')"
    by (rule dirty_txn_commit)
  have c: "covers 64 (4 * 64, p, 64) 4" for p by simp
  have "set (completed tr) \<subseteq> attempted tr" by (auto simp: completed_def attempted_def split: if_splits)
  then have sp: "spared (me_psize (w_env ?w)) (attempted tr) (me_map (w_txn ?w)) ?m" unfolding spared_def dirty_txn_mem(2) using f(2) c by fastforce
  have "x = 4" if "unat x * 64 = unat (4 * 64 :: size_t)" for x :: size_t using that by (simp add: word_unat_eq_iff)
  then have wr: "wrote (me_psize (w_env ?w)) (completed tr) ?m" unfolding wrote_def f(2) cl dirty_txn_mem(2) by auto
  obtain t where t: "db_tree (w_txn ?w) MAIN_DBI Cmp_memn 64 short_key (<) 1 t" "tree_items (w_txn ?w) t = [([5], [9]), ([5, 1], [8, 8]), ([7, 7], [3])]" "below t = {3, 4}" by (rule dirty_txn_tree)
  have ap: "\<forall>g\<in>insert (md_root (mt_dbs (w_txn ?w) ! MAIN_DBI)) (below t). g < mt_next_pgno (w_txn ?w) \<and>
       (\<forall>d\<in>set (dirty_of ?w). if g = mid d then \<not> skipped (me_mem (w_txn ?w)) d else unat g \<notin> run_of (me_mem (w_txn ?w)) d)"
    unfolding t(3) dirty_txn_list dirty_txn_place by (simp add: dirty_txn_def small_txn_def MAIN_DBI_def)
  have r: "me_map next_reader = ?m" "mt_dbxs next_reader = mt_dbxs (w_txn ?w)" "mt_txnid ?w = 9" by (simp_all add: next_reader_def) (simp add: dirty_txn_def)
  show ?thesis using commit_visible [OF t(1) l dirty_txn_ready [OF g] fits all_written_works(2) env_8_commits f(3) sp wr ap r(1,2), of "[7, 7]" "\<lambda>c. Inr (0, c)" "[]"] f(3) r(3)
    by (auto simp: t(2) short_key_def)
qed

end
