(* ===== verification/Mdb_Recover.thy ===== *)
theory Mdb_Recover
  imports Mdb_Meta
begin

text \<open>
  What the next start finds when the program stops while it writes a meta page (\<open>lib/lmdb/mdb.c\<close>, \<open>mdb_env_write_meta\<close> and \<open>mdb_env_read_header\<close>). \<open>pwrite\<close> writes its bytes one after the other, and a
  stop leaves the first \<open>n\<close> of them in the file. The number of the transaction has the last bytes of the meta data, so that it is the new one only when everything before it is.
\<close>

subsection \<open>The bytes of the meta data\<close>

fun le_bytes :: "nat \<Rightarrow> nat \<Rightarrow> u8 list" where
  "le_bytes 0 x = []"
| "le_bytes (Suc n) x = of_nat x # le_bytes n (x div 256)"

lemma length_le_bytes [simp]: "length (le_bytes n x) = n"
  by (induction n arbitrary: x) auto

lemma le_val_bytes: "x < 256 ^ n \<Longrightarrow> le_val (le_bytes n x) = x"
proof (induction n arbitrary: x)
  case (Suc n)
  then have "x div 256 < 256 ^ n" by (simp add: less_mult_imp_div_less mult.commute)
  then show ?case using Suc.IH [of "x div 256"] by (simp add: unsigned_of_nat take_bit_eq_mod)
qed simp

lemma word_le_bytes: "LENGTH('a) = 8 * n \<Longrightarrow> of_nat (le_val (le_bytes n (unat w))) = w" for w :: "'a::len word"
proof -
  assume "LENGTH('a) = 8 * n"
  then have "unat w < 256 ^ n" using unat_lt_pow [of w] by (simp add: power_mult)
  then show ?thesis by (simp add: le_val_bytes)
qed

definition enc_db :: "MDB_db \<Rightarrow> u8 list" where
  "enc_db d = le_bytes 4 (unat (md_pad d)) @ le_bytes 2 (unat (md_flags d)) @ le_bytes 2 (unat (md_depth d)) @ le_bytes 8 (unat (md_branch_pages d)) @
     le_bytes 8 (unat (md_leaf_pages d)) @ le_bytes 8 (unat (md_overflow_pages d)) @ le_bytes 8 (unat (md_entries d)) @ le_bytes 8 (unat (md_root d))"

lemma length_enc_db [simp]: "length (enc_db d) = 48"
  by (simp add: enc_db_def)

lemma dec_enc_db: "dec_db (enc_db d) = d"
  unfolding dec_db_def enc_db_def slice_def by (simp add: word_le_bytes)

text \<open>The bytes from \<open>mm_mapsize\<close> on, which \<open>mdb_env_write_meta\<close> writes, and the page that has them.\<close>

definition meta_bytes :: "MDB_meta \<Rightarrow> u8 list" where
  "meta_bytes m = le_bytes 8 (unat (mm_mapsize m)) @ enc_db (mm_dbs m ! FREE_DBI) @ enc_db (mm_dbs m ! MAIN_DBI) @ le_bytes 8 (unat (mm_last_pg m)) @ le_bytes 8 (unat (mm_txnid m))"

definition meta_of :: "u8 list \<Rightarrow> MDB_meta \<Rightarrow> MDB_meta" where
  "meta_of bs m = m\<lparr>mm_mapsize := of_nat (le_val (slice bs 0 8)), mm_dbs := [dec_db (slice bs 8 48), dec_db (slice bs 56 48)],
     mm_last_pg := of_nat (le_val (slice bs 104 8)), mm_txnid := of_nat (le_val (slice bs 112 8))\<rparr>"

definition meta_part :: "nat \<Rightarrow> MDB_meta \<Rightarrow> MDB_meta \<Rightarrow> MDB_meta" where
  "meta_part n d c = meta_of (take n (meta_bytes d) @ drop n (meta_bytes c)) c"

lemma length_meta_bytes [simp]: "length (meta_bytes m) = 120"
  by (simp add: meta_bytes_def)

lemma meta_slices:
  "slice (meta_bytes m) 0 8 = le_bytes 8 (unat (mm_mapsize m))" "slice (meta_bytes m) 8 48 = enc_db (mm_dbs m ! FREE_DBI)" "slice (meta_bytes m) 56 48 = enc_db (mm_dbs m ! MAIN_DBI)"
  "slice (meta_bytes m) 104 8 = le_bytes 8 (unat (mm_last_pg m))" "slice (meta_bytes m) 112 8 = le_bytes 8 (unat (mm_txnid m))"
  by (simp_all add: meta_bytes_def slice_def)

text \<open>A part of a mixture is the mixture of the parts.\<close>

lemma mix_nth: "length xs = length ys \<Longrightarrow> k < length xs \<Longrightarrow> (take n xs @ drop n ys) ! k = (if k < n then xs ! k else ys ! k)"
  by (cases "n \<le> length xs") (auto simp: nth_append min_def)

lemma slice_nth: "i < l \<Longrightarrow> a + i < length zs \<Longrightarrow> slice zs a l ! i = zs ! (a + i)"
  by (simp add: slice_def)

lemma length_slice_min: "length (slice zs a l) = min l (length zs - a)"
  by (simp add: slice_def min.commute)

lemma length_mix: "length xs = length ys \<Longrightarrow> length (take n xs @ drop n ys) = length xs"
  by simp

lemma slice_mix:
  assumes "length xs = length ys"
  shows "slice (take n xs @ drop n ys) a l = take (n - a) (slice xs a l) @ drop (n - a) (slice ys a l)"
proof (rule nth_equalityI)
  have e: "length (take n xs @ drop n ys) = length xs" using assms by (rule length_mix)
  have "length (slice xs a l) = length (slice ys a l)" using assms by (simp add: length_slice_min)
  then show "length (slice (take n xs @ drop n ys) a l) = length (take (n - a) (slice xs a l) @ drop (n - a) (slice ys a l))"
    unfolding length_mix [OF \<open>length (slice xs a l) = length (slice ys a l)\<close>] length_slice_min e by simp
  show "slice (take n xs @ drop n ys) a l ! i = (take (n - a) (slice xs a l) @ drop (n - a) (slice ys a l)) ! i"
    if "i < length (slice (take n xs @ drop n ys) a l)" for i
  proof -
    have i: "i < l" "a + i < length xs" "i < length (slice xs a l)" using that unfolding length_slice_min e by auto
    have "slice (take n xs @ drop n ys) a l ! i = (if a + i < n then xs ! (a + i) else ys ! (a + i))"
      using i assms by (simp add: slice_nth mix_nth)
    also have "\<dots> = (if i < n - a then slice xs a l ! i else slice ys a l ! i)" using i assms by (auto simp: slice_nth)
    also have "\<dots> = (take (n - a) (slice xs a l) @ drop (n - a) (slice ys a l)) ! i" using i(3) assms by (intro mix_nth [symmetric]) (simp_all add: length_slice_min)
    finally show ?thesis .
  qed
qed

text \<open>The first bytes of a greater number over those of a smaller one: the greater number, or less than it by a byte at least.\<close>

lemma mixed_number:
  assumes l: "length xs = length ys" and le: "le_val ys \<le> le_val xs" and j: "0 < j" "j < length xs"
  shows "take j xs @ drop j ys = xs \<or> le_val (take j xs @ drop j ys) + 256 \<le> le_val xs"
proof -
  have v: "le_val zs = le_val (take j zs) + 256 ^ j * le_val (drop j zs)" if "j < length zs" for zs
    using le_val_append [of "take j zs" "drop j zs"] that by simp
  have m: "le_val (take j xs @ drop j ys) = le_val (take j xs) + 256 ^ j * le_val (drop j ys)" using j by (simp add: le_val_append)
  have lt: "le_val (take j zs) < 256 ^ j" if "j < length zs" for zs using le_val_less [of "take j zs"] that by simp
  show ?thesis
  proof (cases "le_val (drop j ys) < le_val (drop j xs)")
    case True
    then have "256 ^ j * (le_val (drop j ys) + 1) \<le> 256 ^ j * le_val (drop j xs)" by (intro mult_le_mono2) simp
    moreover have "(256 :: nat) \<le> 256 ^ j" using j(1) by (cases j) simp_all
    ultimately show ?thesis using v [OF j(2)] m by (simp add: algebra_simps)
  next
    case False
    have "\<not> le_val (drop j xs) < le_val (drop j ys)"
    proof
      assume "le_val (drop j xs) < le_val (drop j ys)"
      then have "256 ^ j * (le_val (drop j xs) + 1) \<le> 256 ^ j * le_val (drop j ys)" by (intro mult_le_mono2) simp
      then show False using le v [OF j(2)] v [of ys] lt [OF j(2)] l j(2) by (simp add: algebra_simps)
    qed
    then have "le_val (drop j xs) = le_val (drop j ys)" using False by simp
    then have "drop j xs = drop j ys" using le_val_inj [of "drop j xs" "drop j ys"] l by simp
    then have "take j xs @ drop j ys = xs" by (metis append_take_drop_id)
    then show ?thesis by simp
  qed
qed

subsection \<open>A page that is written in part\<close>

lemma meta_part_dbs_pad:
  assumes "md_pad (mm_dbs d ! FREE_DBI) = md_pad (mm_dbs c ! FREE_DBI)"
  shows "mm_psize (meta_part n d c) = md_pad (mm_dbs c ! FREE_DBI)"
proof -
  let ?d = "enc_db (mm_dbs d ! FREE_DBI)" and ?c = "enc_db (mm_dbs c ! FREE_DBI)"
  have p: "slice (enc_db b) 0 4 = le_bytes 4 (unat (md_pad b))" for b by (simp add: enc_db_def slice_def)
  have "mm_psize (meta_part n d c) = of_nat (le_val (slice (take (n - 8) ?d @ drop (n - 8) ?c) 0 4))"
    by (simp add: mm_psize_def meta_part_def meta_of_def FREE_DBI_def slice_mix meta_slices dec_db_def)
  also have "slice (take (n - 8) ?d @ drop (n - 8) ?c) 0 4 = le_bytes 4 (unat (md_pad (mm_dbs c ! FREE_DBI)))" by (simp add: slice_mix p assms)
  finally show ?thesis by (simp add: word_le_bytes)
qed

lemma meta_part_number:
  "mm_txnid (meta_part n d c) = of_nat (le_val (take (n - 112) (le_bytes 8 (unat (mm_txnid d))) @ drop (n - 112) (le_bytes 8 (unat (mm_txnid c)))))"
  by (simp add: meta_part_def meta_of_def slice_mix meta_slices)

lemma meta_part_header: "mm_magic (meta_part n d c) = mm_magic c" "mm_version (meta_part n d c) = mm_version c"
  by (simp_all add: meta_part_def meta_of_def)

lemma meta_part_full:
  assumes "112 < n" and "take (n - 112) (le_bytes 8 (unat (mm_txnid d))) @ drop (n - 112) (le_bytes 8 (unat (mm_txnid c))) = le_bytes 8 (unat (mm_txnid d))"
  shows "meta_part n d c = c\<lparr>mm_mapsize := mm_mapsize d, mm_dbs := [mm_dbs d ! FREE_DBI, mm_dbs d ! MAIN_DBI], mm_last_pg := mm_last_pg d, mm_txnid := mm_txnid d\<rparr>"
  unfolding meta_part_def meta_of_def using assms by (simp add: slice_mix meta_slices dec_enc_db word_le_bytes)

text \<open>Either all of it is there, or the number is the old one, or a number that is not above that of the other page.\<close>

lemma meta_part_cases:
  assumes "unat (mm_txnid c) < unat (mm_txnid d)"
  obtains (old) "mm_txnid (meta_part n d c) = mm_txnid c" "n \<le> 112"
    | (new) "meta_part n d c = c\<lparr>mm_mapsize := mm_mapsize d, mm_dbs := [mm_dbs d ! FREE_DBI, mm_dbs d ! MAIN_DBI], mm_last_pg := mm_last_pg d, mm_txnid := mm_txnid d\<rparr>" "112 < n"
    | (low) "unat (mm_txnid (meta_part n d c)) + 256 \<le> unat (mm_txnid d)" "112 < n" "n < 120"
proof -
  let ?x = "le_bytes 8 (unat (mm_txnid d))" and ?y = "le_bytes 8 (unat (mm_txnid c))" and ?j = "n - 112"
  have u: "le_val (le_bytes 8 (unat w)) = unat w" for w :: size_t using unat_lt_pow [of w] by (intro le_val_bytes) simp
  consider "n \<le> 112" | "112 < n" "n < 120" | "120 \<le> n" by linarith
  then show thesis
  proof cases
    case 1
    then show thesis by (intro old) (simp_all add: meta_part_number u)
  next
    case 2
    have "take ?j ?x @ drop ?j ?y = ?x \<or> le_val (take ?j ?x @ drop ?j ?y) + 256 \<le> le_val ?x" using 2 assms by (intro mixed_number) (simp_all add: u)
    then show thesis
    proof
      assume "take ?j ?x @ drop ?j ?y = ?x"
      then show thesis using new meta_part_full [OF 2(1)] 2(1) by blast
    next
      assume m: "le_val (take ?j ?x @ drop ?j ?y) + 256 \<le> le_val ?x"
      then have "le_val (take ?j ?x @ drop ?j ?y) < 2 ^ 64" using u [of "mm_txnid d"] unat_lt_pow [of "mm_txnid d"] by simp
      then have "unat (mm_txnid (meta_part n d c)) = le_val (take ?j ?x @ drop ?j ?y)" by (simp add: meta_part_number unat_of_nat_small)
      then show thesis using m 2 low u by simp
    qed
  next
    case 3
    then have "take ?j ?x @ drop ?j ?y = ?x" by simp
    then show thesis using new meta_part_full [of n] 3 by simp
  qed
qed

subsection \<open>A stop during the write\<close>

text \<open>A call that puts the first \<open>n\<close> bytes of its data into the file, whatever it returns, and one that writes nothing.\<close>

definition writes_part :: "nat \<Rightarrow> pwrite \<Rightarrow> bool" where
  "writes_part n pw \<longleftrightarrow> (\<forall>d c. snd (snd (pw d c)) = meta_part n d c)"

definition quiet :: "pwrite \<Rightarrow> bool" where
  "quiet pw \<longleftrightarrow> (\<forall>d c. snd (snd (pw d c)) = c)"

lemma loop_quiet: "write_meta_loop len pws meta mp = Inr (rc, mp', rest) \<Longrightarrow> \<forall>p\<in>set pws. quiet p \<Longrightarrow> mp' = mp \<and> set rest \<subseteq> set pws"
proof (induction pws)
  case (Cons pw pws)
  obtain n er c where c: "pw meta mp = (n, er, c)" by (cases "pw meta mp")
  have "snd (snd (pw meta mp)) = mp" using Cons.prems(2) by (simp add: quiet_def)
  then show ?case using Cons c by (auto simp: Let_def split: if_splits)
qed simp

lemma loop_stopped:
  assumes "write_meta_loop len (pre @ pw # rest) meta mp = Inr (rc, mp', rest')" and "0 < len" and "\<forall>p\<in>set pre. interrupted p \<and> quiet p" and "writes_part n pw" and "\<forall>p\<in>set rest. quiet p"
  shows "mp' = meta_part n meta mp \<and> set rest' \<subseteq> set rest"
  using assms(1,3)
proof (induction pre)
  case Nil
  obtain k er c where c: "pw meta mp = (k, er, c)" by (cases "pw meta mp")
  have "snd (snd (pw meta mp)) = meta_part n meta mp" using assms(4) by (simp add: writes_part_def)
  then have "c = meta_part n meta mp" by (simp add: c)
  then show ?case using Nil(1) c loop_quiet [OF _ assms(5)] by (auto simp: Let_def split: if_splits)
next
  case (Cons p pre)
  have "fst (p meta mp) = - 1 \<and> fst (snd (p meta mp)) = E_INTR \<and> snd (snd (p meta mp)) = mp" using Cons.prems(2) by (simp add: interrupted_def quiet_def)
  then have "p meta mp = (- 1, E_INTR, mp)" by (simp add: prod_eq_iff)
  then show ?case using Cons assms(2) by simp
qed

lemma write_meta_stopped:
  assumes c: "commits_from w e" and "0 < len" and "\<forall>p\<in>set pre. interrupted p \<and> quiet p" and "writes_part n pw" and q: "\<forall>p\<in>set rest. quiet p"
    and r: "mdb_env_write_meta len (pre @ pw # rest) ms w e = Inr (rc, e')"
  shows "me_metas e' = (me_metas e)[unat (mt_txnid w) mod 2 := meta_part n (written_meta w e) (me_metas e ! (unat (mt_txnid w) mod 2))]"
proof -
  let ?k = "unat (mt_txnid w) mod 2"
  obtain rc1 mp' rest' where l: "write_meta_loop len (pre @ pw # rest) (written_meta w e) (me_metas e ! ?k) = Inr (rc1, mp', rest')"
    using r unfolding write_meta_eq [OF c] by (cases "write_meta_loop len (pre @ pw # rest) (written_meta w e) (me_metas e ! ?k)") auto
  have m: "mp' = meta_part n (written_meta w e) (me_metas e ! ?k)" "\<forall>p\<in>set rest'. quiet p" using loop_stopped [OF l assms(2-5)] q by auto
  show ?thesis using r m unfolding write_meta_eq [OF c] l by (auto simp: quiet_def split: if_splits list.splits)
qed

lemma newest_other:
  assumes "length ms = 2" and "k < 2" and "mm_txnid m < mm_txnid (ms ! (1 - k))"
  shows "newest (ms[k := m]) = ms ! (1 - k)"
  using assms by (auto simp: newest_def less_2_cases_iff)

text \<open>C8: Recovery. When the program stops during the write of \<open>mdb_env_write_meta\<close>, after calls that were interrupted and with any number of bytes of the meta data in the file (the calls after the stop
  write nothing), the header that \<open>mdb_env_read_header\<close> finds at the next start is that of the last commit, or that of the new one with its databases and its last page; it is not a mixture, also when
  only a part of the number of the transaction has been written. It is the old one as long as no byte of the number is in the file, and the new one when all bytes are.\<close>

theorem crash_recovers:
  assumes "commits_from w e" and "good_metas ps (me_metas e)" and "unat (md_pad (mt_dbs (w_txn w) ! FREE_DBI)) = ps"
    and "\<forall>p\<in>set pre. interrupted p \<and> quiet p" and "writes_part n pw" and "\<forall>p\<in>set rest. quiet p" and "0 < len"
    and "mdb_env_write_meta len (pre @ pw # rest) ms w e = Inr (rc, e')" and "reads_pages sz ps pread (me_metas e')"
  shows "\<exists>m. mdb_env_read_header sz pread meta = (0, m) \<and>
     (m = newest (me_metas e) \<and> n < 120 \<or>
      mm_txnid m = mt_txnid w \<and> mm_dbs m = [mt_dbs (w_txn w) ! FREE_DBI, mt_dbs (w_txn w) ! MAIN_DBI] \<and> mm_last_pg m = mt_next_pgno (w_txn w) - 1 \<and> 112 < n)"
proof -
  let ?k = "unat (mt_txnid w) mod 2"
  let ?c = "me_metas e ! ?k" and ?d = "written_meta w e"
  let ?m = "meta_part n ?d ?c"
  have f: "metas_ok (me_metas e)" "mt_txnid w = mm_txnid (newest (me_metas e)) + 1" "mm_txnid (newest (me_metas e)) \<noteq> - 1" using assms(1) by (simp_all add: commits_from_def)
  note p = next_place [OF f]
  have g: "length (me_metas e) = 2" "0 < ps" "\<And>i. i < 2 \<Longrightarrow> mm_magic (me_metas e ! i) = MDB_MAGIC \<and> mm_version (me_metas e ! i) = MDB_DATA_VERSION \<and> unat (mm_psize (me_metas e ! i)) = ps"
    using assms(2) by (simp_all add: good_metas_def)
  have e': "me_metas e' = (me_metas e)[?k := ?m]" by (rule write_meta_stopped [OF assms(1,7,4,5,6,8)])
  have d: "mm_dbs ?d = [mt_dbs (w_txn w) ! FREE_DBI, mt_dbs (w_txn w) ! MAIN_DBI]" "mm_last_pg ?d = mt_next_pgno (w_txn w) - 1" "mm_txnid ?d = mt_txnid w"
    by (simp_all add: written_meta_def new_meta_def Let_def)
  have "unat (md_pad (mm_dbs ?d ! FREE_DBI)) = unat (md_pad (mm_dbs ?c ! FREE_DBI))" using g(3) [of ?k] assms(3) by (simp add: d(1) FREE_DBI_def mm_psize_def)
  then have "mm_psize ?m = mm_psize ?c" using meta_part_dbs_pad [of ?d ?c n] by (simp add: mm_psize_def word_unat_eq_iff)
  then have good: "good_metas ps (me_metas e')" using g p(1) by (auto simp: good_metas_def e' nth_list_update meta_part_header)
  have "unat (mm_txnid ?c) \<le> unat (mm_txnid (newest (me_metas e)))" using f(1) by (cases "?k = 0") (auto simp: newest_def word_less_nat_alt mod2_eq_if)
  then have lt: "unat (mm_txnid ?c) < unat (mm_txnid ?d)" using p(4) by (simp add: d(3))
  note r = read_header_ok [OF good assms(9), of meta]
  show ?thesis
  proof (rule meta_part_cases [OF lt, of n])
    assume o: "mm_txnid ?m = mm_txnid ?c" "n \<le> 112"
    then show ?thesis using r newest_kept [OF f o(1)] by (simp add: e')
  next
    assume o: "?m = ?c\<lparr>mm_mapsize := mm_mapsize ?d, mm_dbs := [mm_dbs ?d ! FREE_DBI, mm_dbs ?d ! MAIN_DBI], mm_last_pg := mm_last_pg ?d, mm_txnid := mm_txnid ?d\<rparr>" "112 < n"
    then have "mm_txnid ?m = mt_txnid w" by (simp add: d(3))
    then show ?thesis using r newest_after(2) [OF f] o by (simp add: e' d FREE_DBI_def MAIN_DBI_def)
  next
    assume o: "unat (mm_txnid ?m) + 256 \<le> unat (mm_txnid ?d)" "112 < n" "n < 120"
    then have "mm_txnid ?m < mm_txnid (me_metas e ! (1 - ?k))" using p(3,4) by (simp add: word_less_nat_alt d(3))
    then show ?thesis using r newest_other [OF g(1) p(1)] p(3) o by (simp add: e')
  qed
qed

theorem crash_recovers_witness:
  "\<exists>rc e'. mdb_env_write_meta 120 ([\<lambda>d c. (-1, E_INTR, c)] @ (\<lambda>d c. (112, 0, meta_part 112 d c)) # [\<lambda>d c. (0, 0, c)]) 0 first_txn first_env = Inr (rc, e') \<and>
     mdb_env_read_header 152 (\<lambda>off. (152, 0, P_META, me_metas e' ! (if off = 0 then 0 else 1))) first_meta = (0, first_meta)"
proof -
  let ?pws = "[\<lambda>d c. (-1, E_INTR, c)] @ (\<lambda>d c. (112, 0, meta_part 112 d c)) # [\<lambda>d c. (0, 0, c)]"
  obtain rc e' where r: "mdb_env_write_meta 120 ?pws 0 first_txn first_env = Inr (rc, e')"
    unfolding write_meta_eq [OF first_commits] by (simp add: E_INTR_def E_IO_def)
  have i: "\<forall>p\<in>set [\<lambda>d c. (-1, E_INTR, c)]. interrupted p \<and> quiet p" "writes_part 112 (\<lambda>d c. (112, 0, meta_part 112 d c))" "\<forall>p\<in>set [\<lambda>d c. (0, 0, c)]. quiet p" "(0 :: int) < 120"
    by (simp_all add: interrupted_def quiet_def writes_part_def)
  have g: "good_metas 4096 (me_metas first_env)" "unat (md_pad (mt_dbs (w_txn first_txn) ! FREE_DBI)) = 4096"
    using first_metas by (auto simp: good_metas_def first_env_def less_2_cases_iff first_txn_def FREE_DBI_def)
  have p: "reads_pages 152 4096 (\<lambda>off. (152, 0, P_META, me_metas e' ! (if off = 0 then 0 else 1))) (me_metas e')" by (simp add: reads_pages_def less_2_cases_iff)
  have "newest (me_metas first_env) = first_meta" by (simp add: newest_def first_env_def)
  then show ?thesis using crash_recovers [OF first_commits g i r p, of first_meta] r by auto
qed

end
