(* ===== verification/Mdb_Readers.thy ===== *)
theory Mdb_Readers
  imports Mdb_Alloc_Correct Mdb_Meta
begin

text \<open>
  Readers and the writer of an LMDB environment side by side (\<open>lib/lmdb/mdb.c\<close>): the reader table of the lock file, the registration of a reader in
  \<open>mdb_txn_renew0\<close>, its end in \<open>mdb_txn_end\<close>, and a writer that begins, looks for the oldest reader slot by slot, writes its meta page and publishes its number.
  Every load and every store of the reader table and of \<open>mti_txnid\<close> is a step of its own; the meta page is read and written in one step. Steps of different threads
  interleave in any order, and memory is sequentially consistent. A slot belongs to one thread; the mutex of the table admits one claimant at a time.
\<close>

subsection \<open>The state\<close>

text \<open>Where the thread of a slot is: it has no slot; it is outside a transaction; it has loaded \<open>mti_txnid\<close>; it has stored it in its slot; its transaction has that number;
  it has also read the meta page, which was that of transaction \<open>v\<close>.\<close>

datatype rpc = R_none | R_out | R_loaded size_t | R_stored size_t | R_in size_t | R_run size_t size_t

text \<open>Where the thread that holds \<open>me_rmutex\<close> is, with its process number, the \<open>nr\<close> it has loaded and its index.\<close>

datatype cpc = C_out | C_look int nat nat | C_found int nat nat | C_reset int nat nat | C_cleared int nat nat | C_listed int nat nat

text \<open>Where the writer is: outside; in transaction \<open>t\<close>; in \<open>mdb_find_oldest\<close> with \<open>i\<close> slots to look at and \<open>oldest\<close>, before the load of \<open>mr_pid\<close> or after it; after the write of the meta page.\<close>

datatype wpc = W_out | W_in size_t | W_scan size_t nat size_t | W_slot size_t nat size_t | W_meta size_t

record rstate =
  ti_txnid :: size_t
  ti_numreaders :: nat
  ti_readers :: "(int \<times> size_t) list"
  meta_txnids :: "size_t list"
  threads :: "rpc list"
  claimer :: cpc
  writer :: wpc
  pgoldest :: size_t

abbreviation set_thread :: "nat \<Rightarrow> rpc \<Rightarrow> rstate \<Rightarrow> rstate" where
  "set_thread i r s \<equiv> s\<lparr>threads := (threads s)[i := r]\<rparr>"

abbreviation set_pid :: "nat \<Rightarrow> int \<Rightarrow> rstate \<Rightarrow> rstate" where
  "set_pid i pid s \<equiv> s\<lparr>ti_readers := (ti_readers s)[i := (pid, snd (ti_readers s ! i))]\<rparr>"

abbreviation set_txnid :: "nat \<Rightarrow> size_t \<Rightarrow> rstate \<Rightarrow> rstate" where
  "set_txnid i n s \<equiv> s\<lparr>ti_readers := (ti_readers s)[i := (fst (ti_readers s ! i), n)]\<rparr>"

subsection \<open>Steps of a reader\<close>

text \<open>\<open>mdb_txn_renew0\<close> with the mutex of the table: the search for a slot, and the stores that claim it. A full table ends the search.\<close>

definition claim_lock :: "int \<Rightarrow> rstate \<Rightarrow> rstate option" where
  "claim_lock pid s = (if claimer s = C_out then Some (s\<lparr>claimer := C_look pid (ti_numreaders s) 0\<rparr>) else None)"

definition claim_slot :: "rstate \<Rightarrow> rstate option" where
  "claim_slot s =
     (case claimer s of
        C_out \<Rightarrow> None
      | C_look pid nr i \<Rightarrow>
          Some (s\<lparr>claimer := (if i < nr \<and> fst (ti_readers s ! i) \<noteq> 0 then C_look pid nr (Suc i)
            else if i = length (ti_readers s) then C_out else C_found pid nr i)\<rparr>)
      | C_found pid nr i \<Rightarrow> Some ((set_pid i 0 s)\<lparr>claimer := C_reset pid nr i\<rparr>)
      | C_reset pid nr i \<Rightarrow> Some ((set_txnid i (- 1) s)\<lparr>claimer := C_cleared pid nr i\<rparr>)
      | C_cleared pid nr i \<Rightarrow> Some (s\<lparr>ti_numreaders := (if i = nr then nr + 1 else ti_numreaders s), claimer := C_listed pid nr i\<rparr>)
      | C_listed pid nr i \<Rightarrow> Some ((set_thread i R_out (set_pid i pid s))\<lparr>claimer := C_out\<rparr>))"

text \<open>The loop \<open>do r->mr_txnid = ti->mti_txnid; while (r->mr_txnid != ti->mti_txnid)\<close>: a load, a store, and the load of the test.\<close>

definition load_txnid :: "nat \<Rightarrow> rstate \<Rightarrow> rstate option" where
  "load_txnid i s = (if threads s ! i = R_out then Some (set_thread i (R_loaded (ti_txnid s)) s) else None)"

definition store_txnid :: "nat \<Rightarrow> rstate \<Rightarrow> rstate option" where
  "store_txnid i s = (case threads s ! i of R_loaded n \<Rightarrow> Some (set_thread i (R_stored n) (set_txnid i n s)) | _ \<Rightarrow> None)"

definition check_txnid :: "nat \<Rightarrow> rstate \<Rightarrow> rstate option" where
  "check_txnid i s =
     (case threads s ! i of
        R_stored n \<Rightarrow> Some (set_thread i (if snd (ti_readers s ! i) \<noteq> ti_txnid s then R_out else R_in (snd (ti_readers s ! i))) s)
      | _ \<Rightarrow> None)"

text \<open>\<open>meta = env->me_metas[txn->mt_txnid & 1]\<close> and the copy of its contents.\<close>

definition read_meta :: "nat \<Rightarrow> rstate \<Rightarrow> rstate option" where
  "read_meta i s = (case threads s ! i of R_in n \<Rightarrow> Some (set_thread i (R_run n (meta_txnids s ! unat (n AND 1))) s) | _ \<Rightarrow> None)"

text \<open>\<open>mdb_txn_end\<close> of a reader: the slot is reset, and given back with \<open>MDB_END_SLOT\<close>.\<close>

definition end_read :: "nat \<Rightarrow> rstate \<Rightarrow> rstate option" where
  "end_read i s = (case threads s ! i of R_run n v \<Rightarrow> Some (set_thread i R_out (set_txnid i (- 1) s)) | _ \<Rightarrow> None)"

definition release_slot :: "nat \<Rightarrow> rstate \<Rightarrow> rstate option" where
  "release_slot i s = (if threads s ! i = R_out then Some (set_thread i R_none (set_pid i 0 s)) else None)"

subsection \<open>Steps of the writer\<close>

definition begin_write :: "rstate \<Rightarrow> rstate option" where
  "begin_write s = (if writer s = W_out then Some (s\<lparr>writer := W_in (ti_txnid s + 1)\<rparr>) else None)"

definition start_scan :: "rstate \<Rightarrow> rstate option" where
  "start_scan s = (case writer s of W_in t \<Rightarrow> Some (s\<lparr>writer := W_scan t (ti_numreaders s) (t - 1)\<rparr>) | _ \<Rightarrow> None)"

definition scan_slot :: "rstate \<Rightarrow> rstate option" where
  "scan_slot s =
     (case writer s of
        W_scan t (Suc i) old \<Rightarrow> Some (s\<lparr>writer := if fst (ti_readers s ! i) \<noteq> 0 then W_slot t i old else W_scan t i old\<rparr>)
      | W_slot t i old \<Rightarrow> (let mr = snd (ti_readers s ! i) in Some (s\<lparr>writer := W_scan t i (if mr < old then mr else old)\<rparr>))
      | _ \<Rightarrow> None)"

definition end_scan :: "rstate \<Rightarrow> rstate option" where
  "end_scan s = (case writer s of W_scan t 0 old \<Rightarrow> Some (s\<lparr>pgoldest := old, writer := W_in t\<rparr>) | _ \<Rightarrow> None)"

definition write_meta :: "rstate \<Rightarrow> rstate option" where
  "write_meta s = (case writer s of W_in t \<Rightarrow> Some (s\<lparr>meta_txnids := (meta_txnids s)[unat (t AND 1) := t], writer := W_meta t\<rparr>) | _ \<Rightarrow> None)"

definition publish :: "rstate \<Rightarrow> rstate option" where
  "publish s = (case writer s of W_meta t \<Rightarrow> Some (s\<lparr>ti_txnid := t, writer := W_out\<rparr>) | _ \<Rightarrow> None)"

definition abort_write :: "rstate \<Rightarrow> rstate option" where
  "abort_write s = (case writer s of W_in t \<Rightarrow> Some (s\<lparr>writer := W_out\<rparr>) | _ \<Rightarrow> None)"

subsection \<open>Interleaving\<close>

text \<open>No process has number 0, and transaction numbers do not wrap around.\<close>

inductive rstep :: "rstate \<Rightarrow> rstate \<Rightarrow> bool" where
  lock: "pid \<noteq> 0 \<Longrightarrow> claim_lock pid s = Some s' \<Longrightarrow> rstep s s'"
| claim: "claim_slot s = Some s' \<Longrightarrow> rstep s s'"
| reader: "i < length (threads s) \<Longrightarrow> f \<in> {load_txnid, store_txnid, check_txnid, read_meta, end_read, release_slot} \<Longrightarrow> f i s = Some s' \<Longrightarrow> rstep s s'"
| begin_write: "ti_txnid s \<noteq> - 1 \<Longrightarrow> begin_write s = Some s' \<Longrightarrow> rstep s s'"
| writer: "f \<in> {start_scan, scan_slot, end_scan, write_meta, publish, abort_write} \<Longrightarrow> f s = Some s' \<Longrightarrow> rstep s s'"

inductive rreach :: "rstate \<Rightarrow> rstate \<Rightarrow> bool" for s0 where
  refl: "rreach s0 s0"
| step: "rreach s0 s \<Longrightarrow> rstep s s' \<Longrightarrow> rreach s0 s'"

text \<open>A new lock file of \<open>n\<close> slots, for the two meta pages of the data file.\<close>

definition fresh_table :: "nat \<Rightarrow> MDB_meta list \<Rightarrow> rstate" where
  "fresh_table n ms = \<lparr>ti_txnid = mm_txnid (newest ms), ti_numreaders = 0, ti_readers = replicate n (0, 0), meta_txnids = map mm_txnid ms, threads = replicate n R_none,
     claimer = C_out, writer = W_out, pgoldest = 0\<rparr>"

subsection \<open>The invariant\<close>

text \<open>The snapshot that a running reader has entered in the table.\<close>

fun snapshot :: "rpc \<Rightarrow> size_t option" where
  "snapshot (R_in n) = Some n"
| "snapshot (R_run n v) = Some n"
| "snapshot _ = None"

text \<open>What a slot says about its thread, when the last commit is \<open>T\<close> and the writer remembers \<open>old\<close>.\<close>

fun slot_ok :: "size_t \<Rightarrow> size_t \<Rightarrow> int \<times> size_t \<Rightarrow> rpc \<Rightarrow> bool" where
  "slot_ok T old (pid, n) R_none \<longleftrightarrow> pid = 0"
| "slot_ok T old (pid, n) R_out \<longleftrightarrow> pid \<noteq> 0"
| "slot_ok T old (pid, n) (R_loaded m) \<longleftrightarrow> pid \<noteq> 0"
| "slot_ok T old (pid, n) (R_stored m) \<longleftrightarrow> pid \<noteq> 0 \<and> n = m"
| "slot_ok T old (pid, n) (R_in m) \<longleftrightarrow> pid \<noteq> 0 \<and> n = m \<and> old \<le> m \<and> m \<le> T"
| "slot_ok T old (pid, n) (R_run m v) \<longleftrightarrow> pid \<noteq> 0 \<and> n = m \<and> old \<le> m \<and> m \<le> T \<and> m \<le> v \<and> unat v \<le> Suc (unat T)"

fun claimer_ok :: "nat \<Rightarrow> rpc list \<Rightarrow> cpc \<Rightarrow> bool" where
  "claimer_ok k rs C_out \<longleftrightarrow> True"
| "claimer_ok k rs (C_look pid nr i) \<longleftrightarrow> pid \<noteq> 0 \<and> nr = k \<and> i \<le> nr"
| "claimer_ok k rs (C_found pid nr i) \<longleftrightarrow> pid \<noteq> 0 \<and> nr = k \<and> i \<le> nr \<and> i < length rs \<and> rs ! i = R_none"
| "claimer_ok k rs (C_reset pid nr i) \<longleftrightarrow> pid \<noteq> 0 \<and> nr = k \<and> i \<le> nr \<and> i < length rs \<and> rs ! i = R_none"
| "claimer_ok k rs (C_cleared pid nr i) \<longleftrightarrow> pid \<noteq> 0 \<and> nr = k \<and> i \<le> nr \<and> i < length rs \<and> rs ! i = R_none"
| "claimer_ok k rs (C_listed pid nr i) \<longleftrightarrow> pid \<noteq> 0 \<and> i < k \<and> i < length rs \<and> rs ! i = R_none"

text \<open>The readers in the slots that the writer has looked at are not older than what it has found.\<close>

definition scanned :: "size_t \<Rightarrow> nat \<Rightarrow> rpc list \<Rightarrow> bool" where
  "scanned old i rs \<longleftrightarrow> (\<forall>j<length rs. i \<le> j \<longrightarrow> (\<forall>n. snapshot (rs ! j) = Some n \<longrightarrow> old \<le> n))"

fun writer_ok :: "size_t \<Rightarrow> rpc list \<Rightarrow> wpc \<Rightarrow> bool" where
  "writer_ok T rs W_out \<longleftrightarrow> True"
| "writer_ok T rs (W_in t) \<longleftrightarrow> T \<noteq> - 1 \<and> t = T + 1"
| "writer_ok T rs (W_scan t i old) \<longleftrightarrow> T \<noteq> - 1 \<and> t = T + 1 \<and> old \<le> T \<and> i \<le> length rs \<and> scanned old i rs"
| "writer_ok T rs (W_slot t i old) \<longleftrightarrow> T \<noteq> - 1 \<and> t = T + 1 \<and> old \<le> T \<and> i < length rs \<and> scanned old (Suc i) rs"
| "writer_ok T rs (W_meta t) \<longleftrightarrow> T \<noteq> - 1 \<and> t = T + 1"

text \<open>The meta pages: that of the last commit, and one that is at most one transaction older.\<close>

definition meta_ok :: "size_t \<Rightarrow> wpc \<Rightarrow> size_t list \<Rightarrow> bool" where
  "meta_ok T w ms \<longleftrightarrow> length ms = 2 \<and> ms ! (unat T mod 2) = T \<and> unat T \<le> Suc (unat (ms ! (Suc (unat T) mod 2))) \<and>
     unat (ms ! (Suc (unat T) mod 2)) \<le> Suc (unat T) \<and> (\<forall>t. w = W_meta t \<longrightarrow> ms ! (Suc (unat T) mod 2) = t)"

definition table_inv :: "rstate \<Rightarrow> bool" where
  "table_inv s \<longleftrightarrow> list_all2 (slot_ok (ti_txnid s) (pgoldest s)) (ti_readers s) (threads s) \<and> ti_numreaders s \<le> length (threads s) \<and>
     (\<forall>i<length (threads s). ti_numreaders s \<le> i \<longrightarrow> threads s ! i = R_none) \<and> pgoldest s \<le> ti_txnid s \<and>
     claimer_ok (ti_numreaders s) (threads s) (claimer s) \<and> writer_ok (ti_txnid s) (threads s) (writer s) \<and> meta_ok (ti_txnid s) (writer s) (meta_txnids s)"

lemma table_inv_parts:
  assumes "table_inv s"
  shows "length (threads s) = length (ti_readers s)" "i < length (threads s) \<Longrightarrow> slot_ok (ti_txnid s) (pgoldest s) (ti_readers s ! i) (threads s ! i)"
    "i < length (threads s) \<Longrightarrow> threads s ! i \<noteq> R_none \<Longrightarrow> i < ti_numreaders s" "pgoldest s \<le> ti_txnid s" "ti_numreaders s \<le> length (threads s)"
    "claimer_ok (ti_numreaders s) (threads s) (claimer s)" "writer_ok (ti_txnid s) (threads s) (writer s)" "meta_ok (ti_txnid s) (writer s) (meta_txnids s)"
  using assms unfolding table_inv_def by (auto simp: list_all2_conv_all_nth not_less [symmetric])

text \<open>A reader changes its slot: what the claimant and the writer rely on stays.\<close>

lemma nth_update: "j < length xs \<Longrightarrow> xs[i := x] ! j = (if i = j then x else xs ! j)"
  by (cases "i = j") auto

lemma claimer_ok_update: "claimer_ok k rs c \<Longrightarrow> rs ! i \<noteq> R_none \<Longrightarrow> claimer_ok k (rs[i := r]) c"
  by (cases c) (auto simp: nth_update)

lemma scanned_update: "scanned old k rs \<Longrightarrow> (\<And>n. snapshot r = Some n \<Longrightarrow> old \<le> n \<or> snapshot (rs ! i) = Some n) \<Longrightarrow> scanned old k (rs[i := r])"
  by (fastforce simp: scanned_def nth_update)

lemma writer_ok_update:
  assumes "writer_ok T rs w" and "\<And>n. snapshot r = Some n \<Longrightarrow> n = T \<or> snapshot (rs ! i) = Some n"
  shows "writer_ok T (rs[i := r]) w"
proof -
  have "scanned old k (rs[i := r])" if "scanned old k rs" "old \<le> T" for old k using that assms(2) by (intro scanned_update) auto
  then show ?thesis using assms(1) by (cases w) auto
qed

lemma slot_update_inv:
  assumes inv: "table_inv s" and i: "i < length (threads s)" and used: "i < ti_numreaders s" and c: "claimer_ok (ti_numreaders s) ((threads s)[i := r]) c"
    and sl: "slot_ok (ti_txnid s) (pgoldest s) sl r" and snap: "\<And>n. snapshot r = Some n \<Longrightarrow> n = ti_txnid s \<or> snapshot (threads s ! i) = Some n"
  shows "table_inv (s\<lparr>ti_readers := (ti_readers s)[i := sl], threads := (threads s)[i := r], claimer := c\<rparr>)"
proof -
  have "list_all2 (slot_ok (ti_txnid s) (pgoldest s)) ((ti_readers s)[i := sl]) ((threads s)[i := r])"
    using inv sl by (intro list_all2_update_cong) (simp_all add: table_inv_def)
  moreover have "writer_ok (ti_txnid s) ((threads s)[i := r]) (writer s)" using writer_ok_update [OF table_inv_parts(7) [OF inv] snap] by simp
  ultimately show ?thesis using inv c used by (simp add: table_inv_def nth_list_update)
qed

lemma same_slot: "s\<lparr>threads := ths\<rparr> = s\<lparr>ti_readers := (ti_readers s)[i := ti_readers s ! i], threads := ths, claimer := claimer s\<rparr>"
  "s\<lparr>ti_readers := rs, threads := ths\<rparr> = s\<lparr>ti_readers := rs, threads := ths, claimer := claimer s\<rparr>"
  by simp_all

text \<open>The meta page that a reader finds is its own or a later one.\<close>

lemma meta_read:
  assumes m: "meta_ok T w ms" and n: "n \<le> T"
  shows "n \<le> ms ! unat (n AND 1)" "unat (ms ! unat (n AND 1)) \<le> Suc (unat T)"
proof -
  have "n \<le> ms ! unat (n AND 1) \<and> unat (ms ! unat (n AND 1)) \<le> Suc (unat T)"
  proof (cases "unat n mod 2 = unat T mod 2")
    case True
    then show ?thesis using m n by (simp add: meta_ok_def unat_and_1)
  next
    case False
    then have "unat n mod 2 = Suc (unat T) mod 2" "unat n \<noteq> unat T" by presburger+
    then show ?thesis using m n by (simp add: meta_ok_def unat_and_1 word_le_nat_alt)
  qed
  then show "n \<le> ms ! unat (n AND 1)" "unat (ms ! unat (n AND 1)) \<le> Suc (unat T)" by simp_all
qed
text \<open>The steps of a reader that owns slot \<open>i\<close>.\<close>

lemma reader_update_inv:
  assumes inv: "table_inv s" and i: "i < length (threads s)" "threads s ! i \<noteq> R_none"
    and sl: "slot_ok (ti_txnid s) (pgoldest s) sl r" and snap: "\<And>n. snapshot r = Some n \<Longrightarrow> n = ti_txnid s \<or> snapshot (threads s ! i) = Some n"
  shows "table_inv (s\<lparr>ti_readers := (ti_readers s)[i := sl], threads := (threads s)[i := r]\<rparr>)"
proof -
  note p = table_inv_parts [OF inv]
  show ?thesis using slot_update_inv [OF inv i(1) p(3) [OF i] claimer_ok_update [OF p(6) i(2)] sl snap] by simp
qed

lemma reader_thread_inv:
  assumes "table_inv s" and "i < length (threads s)" "threads s ! i \<noteq> R_none"
    and "slot_ok (ti_txnid s) (pgoldest s) (ti_readers s ! i) r" and "\<And>n. snapshot r = Some n \<Longrightarrow> n = ti_txnid s \<or> snapshot (threads s ! i) = Some n"
  shows "table_inv (set_thread i r s)"
  using reader_update_inv [OF assms] by simp

lemma reader_inv:
  assumes inv: "table_inv s" and i: "i < length (threads s)" and f: "f \<in> {load_txnid, store_txnid, check_txnid, read_meta, end_read, release_slot}" and s': "f i s = Some s'"
  shows "table_inv s'"
proof -
  obtain pid n where sl: "ti_readers s ! i = (pid, n)" by (cases "ti_readers s ! i")
  note p = table_inv_parts [OF inv]
  have ok: "slot_ok (ti_txnid s) (pgoldest s) (pid, n) (threads s ! i)" using p(2) [OF i] sl by simp
  note upd = reader_update_inv [OF inv i] and thr = reader_thread_inv [OF inv i]
  consider "f = load_txnid" | "f = store_txnid" | "f = check_txnid" | "f = read_meta" | "f = end_read" | "f = release_slot" using f by auto
  then show ?thesis
  proof cases
    case 1
    then have "threads s ! i = R_out" "s' = set_thread i (R_loaded (ti_txnid s)) s" using s' by (simp_all add: load_txnid_def split: if_splits)
    then show ?thesis using ok sl by (auto intro!: thr)
  next
    case 2
    then obtain m where "threads s ! i = R_loaded m" "s' = set_thread i (R_stored m) (set_txnid i m s)" using s' by (auto simp: store_txnid_def split: rpc.splits)
    then show ?thesis using ok sl by (auto intro!: upd)
  next
    case 3
    then obtain m where "threads s ! i = R_stored m" "s' = set_thread i (if n \<noteq> ti_txnid s then R_out else R_in n) s"
      using s' sl by (auto simp: check_txnid_def split: rpc.splits)
    then show ?thesis using ok sl p(4) by (auto intro!: thr)
  next
    case 4
    then obtain m where "threads s ! i = R_in m" "s' = set_thread i (R_run m (meta_txnids s ! unat (m AND 1))) s" using s' by (auto simp: read_meta_def split: rpc.splits)
    then show ?thesis using ok sl meta_read [OF p(8), of m] by (auto intro!: thr)
  next
    case 5
    then obtain m v where "threads s ! i = R_run m v" "s' = set_thread i R_out (set_txnid i (- 1) s)" using s' by (auto simp: end_read_def split: rpc.splits)
    then show ?thesis using ok sl by (auto intro!: upd)
  next
    case 6
    then have "threads s ! i = R_out" "s' = set_thread i R_none (set_pid i 0 s)" using s' by (simp_all add: release_slot_def split: if_splits)
    then show ?thesis using ok sl by (auto intro!: upd)
  qed
qed

text \<open>The steps of the claimant: a slot that is not in use changes, or only the claimant.\<close>

lemma claimer_step_inv:
  assumes "table_inv s" and "claimer_ok (ti_numreaders s) (threads s) c"
  shows "table_inv (s\<lparr>claimer := c\<rparr>)"
  using assms by (simp add: table_inv_def)

lemma free_slot_inv:
  assumes inv: "table_inv s" and i: "i < length (threads s)" "threads s ! i = R_none"
  shows "table_inv (s\<lparr>ti_readers := (ti_readers s)[i := (0, n)]\<rparr>)"
proof -
  have "list_all2 (slot_ok (ti_txnid s) (pgoldest s)) ((ti_readers s)[i := (0, n)]) ((threads s)[i := threads s ! i])"
    using inv i by (intro list_all2_update_cong) (simp_all add: table_inv_def)
  then show ?thesis using inv by (simp add: table_inv_def)
qed

lemma claim_inv:
  assumes inv: "table_inv s" and s': "claim_slot s = Some s'"
  shows "table_inv s'"
proof -
  note p = table_inv_parts [OF inv]
  have pid0: "fst (ti_readers s ! i) = 0" if "i < length (threads s)" "threads s ! i = R_none" for i
    using p(2) [OF that(1)] that(2) by (cases "ti_readers s ! i") simp
  show ?thesis
  proof (cases "claimer s")
    case C_out
    then show ?thesis using s' by (simp add: claim_slot_def)
  next
    case (C_look pid nr i)
    then have l: "pid \<noteq> 0" "nr = ti_numreaders s" "i \<le> nr" using p(6) by simp_all
    have "threads s ! i = R_none" if "i < length (threads s)" "\<not> (i < nr \<and> fst (ti_readers s ! i) \<noteq> 0)"
      using p(2) [OF that(1)] p(3) [OF that(1)] that(2) l(2) by (cases "ti_readers s ! i"; cases "threads s ! i") auto
    then have "claimer_ok (ti_numreaders s) (threads s) (if i < nr \<and> fst (ti_readers s ! i) \<noteq> 0 then C_look pid nr (Suc i) else if i = length (ti_readers s) then C_out else C_found pid nr i)"
      using l p(1,5) by auto
    then have "table_inv (s\<lparr>claimer := (if i < nr \<and> fst (ti_readers s ! i) \<noteq> 0 then C_look pid nr (Suc i) else if i = length (ti_readers s) then C_out else C_found pid nr i)\<rparr>)"
      by (rule claimer_step_inv [OF inv])
    then show ?thesis using s' C_look by (simp add: claim_slot_def)
  next
    case (C_found pid nr i)
    then show ?thesis using s' p(6) claimer_step_inv [OF free_slot_inv [OF inv, of i "snd (ti_readers s ! i)"], of "C_reset pid nr i"] by (auto simp: claim_slot_def)
  next
    case (C_reset pid nr i)
    then show ?thesis using s' p(6) pid0 claimer_step_inv [OF free_slot_inv [OF inv, of i "- 1"], of "C_cleared pid nr i"] by (auto simp: claim_slot_def)
  next
    case (C_cleared pid nr i)
    then have "s' = s\<lparr>ti_numreaders := (if i = nr then nr + 1 else ti_numreaders s), claimer := C_listed pid nr i\<rparr>" using s' by (simp add: claim_slot_def)
    then show ?thesis using inv C_cleared by (auto simp: table_inv_def)
  next
    case (C_listed pid nr i)
    then have c: "pid \<noteq> 0" "i < ti_numreaders s" "i < length (threads s)" using p(6) by simp_all
    have "table_inv (s\<lparr>ti_readers := (ti_readers s)[i := (pid, snd (ti_readers s ! i))], threads := (threads s)[i := R_out], claimer := C_out\<rparr>)"
      using c by (intro slot_update_inv [OF inv]) simp_all
    then show ?thesis using s' C_listed by (simp add: claim_slot_def)
  qed
qed

text \<open>The steps of the writer.\<close>

lemma writer_step_inv:
  assumes "table_inv s" and "writer_ok (ti_txnid s) (threads s) w" and "meta_ok (ti_txnid s) w (meta_txnids s)"
  shows "table_inv (s\<lparr>writer := w\<rparr>)"
  using assms by (simp add: table_inv_def)

lemma scan_inv:
  assumes inv: "table_inv s" and s': "scan_slot s = Some s'"
  shows "table_inv s'"
proof -
  note p = table_inv_parts [OF inv]
  have sl: "fst (ti_readers s ! i) \<noteq> 0 \<and> snd (ti_readers s ! i) = n" if "i < length (threads s)" "snapshot (threads s ! i) = Some n" for i n
    using p(2) [OF that(1)] that(2) by (cases "ti_readers s ! i"; cases "threads s ! i") auto
  have no_meta: "meta_ok (ti_txnid s) w (meta_txnids s)" if "\<And>t. w \<noteq> W_meta t" for w using p(8) that by (simp add: meta_ok_def)
  show ?thesis
  proof (cases "writer s")
    case (W_scan t k old)
    then obtain i where k: "k = Suc i" and s'': "s' = s\<lparr>writer := if fst (ti_readers s ! i) \<noteq> 0 then W_slot t i old else W_scan t i old\<rparr>"
      using s' by (auto simp: scan_slot_def split: nat.splits)
    have "scanned old i (threads s)" if "fst (ti_readers s ! i) = 0" "scanned old (Suc i) (threads s)"
      unfolding scanned_def using that sl by (metis le_neq_implies_less Suc_leI scanned_def)
    then show ?thesis using p(7) W_scan k by (auto simp: s'' intro!: writer_step_inv [OF inv] no_meta split: if_splits)
  next
    case (W_slot t i old)
    let ?old = "if snd (ti_readers s ! i) < old then snd (ti_readers s ! i) else old"
    have s'': "s' = s\<lparr>writer := W_scan t i ?old\<rparr>" using s' W_slot by (simp add: scan_slot_def Let_def)
    have w: "ti_txnid s \<noteq> - 1" "t = ti_txnid s + 1" "old \<le> ti_txnid s" "i < length (threads s)" "scanned old (Suc i) (threads s)" using p(7) W_slot by simp_all
    have "?old \<le> n" if "j < length (threads s)" "i \<le> j" "snapshot (threads s ! j) = Some n" for j n
    proof (cases "j = i")
      case True
      then show ?thesis using sl [OF that(1,3)] by auto
    next
      case False
      then have "old \<le> n" using w(5) that by (auto simp: scanned_def)
      then show ?thesis by auto
    qed
    then have "scanned ?old i (threads s)" by (simp add: scanned_def)
    moreover have "?old \<le> ti_txnid s" using w(3) by auto
    ultimately show ?thesis unfolding s'' using w by (intro writer_step_inv [OF inv] no_meta) simp_all
  qed (use s' in \<open>simp_all add: scan_slot_def\<close>)
qed


lemma slots_mono:
  assumes "list_all2 (slot_ok T old) rs ths" and "\<And>sl r. slot_ok T old sl r \<Longrightarrow> r \<in> set ths \<Longrightarrow> slot_ok T' old' sl r"
  shows "list_all2 (slot_ok T' old') rs ths"
  using assms by (auto simp: list_all2_conv_all_nth)

lemma slot_ok_old: "slot_ok T old sl r \<Longrightarrow> (\<And>n. snapshot r = Some n \<Longrightarrow> old' \<le> n) \<Longrightarrow> slot_ok T old' sl r"
  by (cases sl; cases r) auto

lemma slot_ok_next: "slot_ok T old sl r \<Longrightarrow> T \<noteq> - 1 \<Longrightarrow> slot_ok (T + 1) old sl r"
  using unat_next [of T] by (cases sl; cases r) (auto simp: word_le_nat_alt)

lemma end_scan_inv:
  assumes inv: "table_inv s" and s': "end_scan s = Some s'"
  shows "table_inv s'"
proof -
  obtain t old where w: "writer s = W_scan t 0 old" and s'': "s' = s\<lparr>pgoldest := old, writer := W_in t\<rparr>" using s' by (auto simp: end_scan_def split: wpc.splits nat.splits)
  have i: "list_all2 (slot_ok (ti_txnid s) (pgoldest s)) (ti_readers s) (threads s)" "ti_txnid s \<noteq> - 1" "t = ti_txnid s + 1" "old \<le> ti_txnid s" "scanned old 0 (threads s)"
    using inv w by (simp_all add: table_inv_def)
  have "list_all2 (slot_ok (ti_txnid s) old) (ti_readers s) (threads s)"
  proof (rule slots_mono [OF i(1)])
    fix sl r
    assume ok: "slot_ok (ti_txnid s) (pgoldest s) sl r" and "r \<in> set (threads s)"
    then show "slot_ok (ti_txnid s) old sl r" using i(5) by (intro slot_ok_old [OF ok]) (auto simp: scanned_def in_set_conv_nth)
  qed
  then show ?thesis using inv w i(2-4) by (simp add: s'' table_inv_def meta_ok_def)
qed

lemma publish_inv:
  assumes inv: "table_inv s" and s': "publish s = Some s'"
  shows "table_inv s'"
proof -
  obtain t where w: "writer s = W_meta t" and s'': "s' = s\<lparr>ti_txnid := t, writer := W_out\<rparr>" using s' by (auto simp: publish_def split: wpc.splits)
  have i: "list_all2 (slot_ok (ti_txnid s) (pgoldest s)) (ti_readers s) (threads s)" "ti_txnid s \<noteq> - 1" "t = ti_txnid s + 1" "pgoldest s \<le> ti_txnid s"
    using inv w by (simp_all add: table_inv_def)
  have u: "unat t = Suc (unat (ti_txnid s))" unfolding i(3) using i(2) by (rule unat_next)
  have "list_all2 (slot_ok t (pgoldest s)) (ti_readers s) (threads s)" unfolding i(3) by (rule slots_mono [OF i(1)]) (rule slot_ok_next [OF _ i(2)])
  moreover have "meta_ok t W_out (meta_txnids s)"
  proof -
    have "Suc (unat t) mod 2 = unat (ti_txnid s) mod 2" unfolding u by presburger
    then show ?thesis using table_inv_parts(8) [OF inv] w u by (simp add: meta_ok_def)
  qed
  moreover have "pgoldest s \<le> t" using i(4) u by (simp add: word_le_nat_alt)
  ultimately show ?thesis using inv by (simp add: s'' table_inv_def)
qed

lemma write_meta_inv:
  assumes inv: "table_inv s" and s': "write_meta s = Some s'"
  shows "table_inv s'"
proof -
  obtain t where w: "writer s = W_in t" and s'': "s' = s\<lparr>meta_txnids := (meta_txnids s)[unat (t AND 1) := t], writer := W_meta t\<rparr>"
    using s' by (auto simp: write_meta_def split: wpc.splits)
  have i: "ti_txnid s \<noteq> - 1" "t = ti_txnid s + 1" using inv w by (simp_all add: table_inv_def)
  have u: "unat t = Suc (unat (ti_txnid s))" unfolding i(2) using i(1) by (rule unat_next)
  have "Suc (unat (ti_txnid s)) mod 2 \<noteq> unat (ti_txnid s) mod 2" by presburger
  then have "meta_ok (ti_txnid s) (W_meta t) ((meta_txnids s)[unat (t AND 1) := t])"
    using table_inv_parts(8) [OF inv] u by (simp add: meta_ok_def unat_and_1)
  then show ?thesis using inv i by (simp add: s'' table_inv_def)
qed

lemma writer_inv:
  assumes inv: "table_inv s" and f: "f \<in> {start_scan, scan_slot, end_scan, write_meta, publish, abort_write}" and s': "f s = Some s'"
  shows "table_inv s'"
proof -
  note p = table_inv_parts [OF inv]
  consider "f = start_scan" | "f = scan_slot" | "f = end_scan" | "f = write_meta" | "f = publish" | "f = abort_write" using f by auto
  then show ?thesis
  proof cases
    case 1
    then obtain t where w: "writer s = W_in t" and s'': "s' = s\<lparr>writer := W_scan t (ti_numreaders s) (t - 1)\<rparr>" using s' by (auto simp: start_scan_def split: wpc.splits)
    have "scanned old (ti_numreaders s) (threads s)" for old using p(3) by (fastforce simp: scanned_def)
    then show ?thesis using p(5,7,8) w by (auto simp: s'' meta_ok_def intro!: writer_step_inv [OF inv])
  next
    case 6
    then show ?thesis using s' p(8) by (auto simp: abort_write_def meta_ok_def split: wpc.splits intro!: writer_step_inv [OF inv])
  qed (use s' scan_inv [OF inv] end_scan_inv [OF inv] write_meta_inv [OF inv] publish_inv [OF inv] in simp_all)
qed

lemma rstep_inv:
  assumes "rstep s s'" and inv: "table_inv s"
  shows "table_inv s'"
  using assms(1)
proof cases
  case (lock pid)
  then show ?thesis by (auto simp: claim_lock_def split: if_splits intro!: claimer_step_inv [OF inv])
next
  case claim
  then show ?thesis by (rule claim_inv [OF inv])
next
  case (reader i f)
  then show ?thesis by (rule reader_inv [OF inv])
next
  case begin_write
  then show ?thesis using table_inv_parts(8) [OF inv] by (auto simp: begin_write_def meta_ok_def split: if_splits intro!: writer_step_inv [OF inv])
next
  case (writer f)
  then show ?thesis by (rule writer_inv [OF inv])
qed

lemma fresh_table_inv:
  assumes ok: "metas_ok ms"
  shows "table_inv (fresh_table n ms)"
proof -
  let ?T = "mm_txnid (newest ms)"
  have "meta_ok ?T W_out (map mm_txnid ms)"
  proof (cases "mm_txnid (ms ! 0) < mm_txnid (ms ! 1)")
    case True
    then show ?thesis using ok by (auto simp: meta_ok_def metas_ok_def newest_def Let_def word_less_nat_alt)
  next
    case False
    then show ?thesis using ok by (auto simp: meta_ok_def metas_ok_def newest_def Let_def word_less_nat_alt mod2_eq_if)
  qed
  then show ?thesis by (simp add: table_inv_def fresh_table_def list_all2_conv_all_nth)
qed

lemma rreach_inv: "rreach (fresh_table n ms) s \<Longrightarrow> metas_ok ms \<Longrightarrow> table_inv s"
proof (induction rule: rreach.induct)
  case refl
  then show ?case by (rule fresh_table_inv)
next
  case (step s s')
  then show ?case using rstep_inv by simp
qed

lemma rreach_first:
  assumes "rreach s1 s" and "rstep s0 s1"
  shows "rreach s0 s"
  using assms
proof (induction rule: rreach.induct)
  case refl
  then show ?case using rreach.step [OF rreach.refl] by simp
next
  case (step s s')
  then show ?case using rreach.step by blast
qed

text \<open>The scan, when nothing comes between its steps, is \<open>mdb_find_oldest\<close>.\<close>

lemma scan_is_find_oldest:
  "i \<le> length (ti_readers s) \<Longrightarrow> \<exists>r. oldest_reader i (ti_readers s) old = Inr r \<and> rreach (s\<lparr>writer := W_scan t i old\<rparr>) (s\<lparr>writer := W_scan t 0 r\<rparr>)"
proof (induction i arbitrary: old)
  case 0
  then show ?case by (auto intro: rreach.refl)
next
  case (Suc i)
  obtain pid mr where r: "ti_readers s ! i = (pid, mr)" by (cases "ti_readers s ! i")
  let ?old = "if pid \<noteq> 0 \<and> mr < old then mr else old"
  obtain r' where IH: "oldest_reader i (ti_readers s) ?old = Inr r'" "rreach (s\<lparr>writer := W_scan t i ?old\<rparr>) (s\<lparr>writer := W_scan t 0 r'\<rparr>)"
    using Suc.IH [of ?old] Suc.prems by auto
  have step: "rstep x y" if "scan_slot x = Some y" for x y using rstep.writer [of scan_slot] that by simp
  have "rreach (s\<lparr>writer := W_scan t (Suc i) old\<rparr>) (s\<lparr>writer := W_scan t 0 r'\<rparr>)"
  proof (cases "pid = 0")
    case True
    then show ?thesis using r IH(2) by (intro rreach_first [OF IH(2)] step) (simp add: scan_slot_def)
  next
    case False
    have "rstep (s\<lparr>writer := W_slot t i old\<rparr>) (s\<lparr>writer := W_scan t i ?old\<rparr>)" using r False by (intro step) (simp add: scan_slot_def Let_def)
    moreover have "rstep (s\<lparr>writer := W_scan t (Suc i) old\<rparr>) (s\<lparr>writer := W_slot t i old\<rparr>)" using r False by (intro step) (simp add: scan_slot_def)
    ultimately show ?thesis using rreach_first [OF rreach_first [OF IH(2)]] by blast
  qed
  moreover have "oldest_reader (Suc i) (ti_readers s) old = Inr r'" using r IH(1) Suc.prems by simp
  ultimately show ?case by blast
qed


text \<open>C7: Readers are protected. In every state that readers and a writer can reach by interleaving their loads and stores, a reader whose transaction runs has its snapshot
  in its slot, and the oldest snapshot that the writer remembers, from a scan during which readers came and went, is not newer than any of these snapshots. So the records of the free database
  below it, the ones that \<open>mdb_page_alloc\<close> takes, hold no page that a running reader can see. The meta page that the reader has read is never older than its snapshot.\<close>

theorem snapshots_protected:
  assumes "metas_ok ms" and "rreach (fresh_table n ms) s" and "i < length (threads s)" and "snapshot (threads s ! i) = Some v"
  shows "pgoldest s \<le> v \<and> v \<le> ti_txnid s \<and> fst (ti_readers s ! i) \<noteq> 0 \<and> snd (ti_readers s ! i) = v \<and> (\<forall>w. threads s ! i = R_run v w \<longrightarrow> v \<le> w)"
proof -
  have inv: "table_inv s" using rreach_inv [OF assms(2,1)] .
  show ?thesis using table_inv_parts(2) [OF inv assms(3)] assms(4) by (cases "ti_readers s ! i"; cases "threads s ! i") auto
qed

subsection \<open>A schedule\<close>

text \<open>Steps one after the other, with the conditions under which they are steps.\<close>

fun run_steps :: "(rstate \<Rightarrow> rstate option) list \<Rightarrow> rstate \<Rightarrow> rstate option" where
  "run_steps [] s = Some s"
| "run_steps (f # fs) s = (case f s of None \<Rightarrow> None | Some s' \<Rightarrow> run_steps fs s')"

definition at_slot :: "nat \<Rightarrow> (nat \<Rightarrow> rstate \<Rightarrow> rstate option) \<Rightarrow> rstate \<Rightarrow> rstate option" where
  "at_slot i f s = (if i < length (threads s) then f i s else None)"

definition begin_next :: "rstate \<Rightarrow> rstate option" where
  "begin_next s = (if ti_txnid s \<noteq> - 1 then begin_write s else None)"

lemma run_steps_reach:
  "(\<And>f s s'. f \<in> set fs \<Longrightarrow> f s = Some s' \<Longrightarrow> rstep s s') \<Longrightarrow> run_steps fs s = Some s' \<Longrightarrow> rreach s s'"
proof (induction fs arbitrary: s)
  case Nil
  then show ?case using rreach.refl by simp
next
  case (Cons f fs)
  then obtain s1 where s1: "f s = Some s1" "run_steps fs s1 = Some s'" by (auto split: option.splits)
  have "rreach s1 s'" by (rule Cons.IH [OF _ s1(2)]) (use Cons.prems(1) in \<open>meson list.set_intros(2)\<close>)
  moreover have "rstep s s1" using Cons.prems(1) [of f s s1] s1(1) by simp
  ultimately show ?case by (rule rreach_first)
qed

text \<open>A reader takes a slot and snapshot 3; the writer commits 4, scans in transaction 5 and commits it; then the reader reads its meta page, which is that of transaction 5.\<close>

definition race_schedule :: "(rstate \<Rightarrow> rstate option) list" where
  "race_schedule = [claim_lock 11, claim_slot, claim_slot, claim_slot, claim_slot, claim_slot, at_slot 0 load_txnid, at_slot 0 store_txnid, at_slot 0 check_txnid,
     begin_next, write_meta, publish, begin_next, start_scan, scan_slot, scan_slot, end_scan, write_meta, publish, at_slot 0 read_meta]"

lemma race_steps: "f \<in> set race_schedule \<Longrightarrow> f s = Some s' \<Longrightarrow> rstep s s'"
proof -
  assume f: "f \<in> set race_schedule" "f s = Some s'"
  have pid: "(11 :: int) \<noteq> 0" by simp
  have slot: "rstep s s'" if "at_slot i g s = Some s'" "g \<in> {load_txnid, store_txnid, check_txnid, read_meta, end_read, release_slot}" for i g
    using that rstep.reader by (auto simp: at_slot_def split: if_splits)
  have wr: "rstep s s'" if "f \<in> {start_scan, scan_slot, end_scan, write_meta, publish, abort_write}" using rstep.writer [OF that f(2)] .
  have "rstep s s'" if "begin_next s = Some s'" using that rstep.begin_write by (auto simp: begin_next_def split: if_splits)
  then show ?thesis using f slot wr rstep.claim rstep.lock [OF pid] unfolding race_schedule_def by auto
qed

definition metas_2_3 :: "MDB_meta list" where
  "metas_2_3 = [first_meta\<lparr>mm_txnid := 2\<rparr>, first_meta\<lparr>mm_txnid := 3\<rparr>]"

definition race_end :: rstate where
  "race_end = \<lparr>ti_txnid = 5, ti_numreaders = 1, ti_readers = [(11, 3), (0, 0)], meta_txnids = [4, 5], threads = [R_run 3 5, R_none], claimer = C_out, writer = W_out, pgoldest = 3\<rparr>"

lemma metas_2_3_ok: "metas_ok metas_2_3" "newest metas_2_3 = metas_2_3 ! 1"
  by (simp_all add: metas_ok_def metas_2_3_def newest_def)

lemma two_slots: "replicate 2 x = [x, x]"
  by (simp add: numeral_2_eq_2)

lemma race_run: "run_steps race_schedule (fresh_table 2 metas_2_3) = Some race_end"
  unfolding race_schedule_def fresh_table_def metas_2_3_ok(2) two_slots
  by (simp add: metas_2_3_def race_end_def claim_lock_def claim_slot_def at_slot_def load_txnid_def store_txnid_def check_txnid_def read_meta_def begin_next_def begin_write_def write_meta_def
    publish_def start_scan_def scan_slot_def end_scan_def Let_def)

theorem snapshots_protected_witness:
  "\<exists>s. rreach (fresh_table 2 metas_2_3) s \<and> threads s ! 0 = R_run 3 5 \<and> ti_txnid s = 5 \<and> pgoldest s = 3 \<and> pgoldest s \<le> 3 \<and> snd (ti_readers s ! 0) = 3"
proof -
  have r: "rreach (fresh_table 2 metas_2_3) race_end" by (rule run_steps_reach [OF race_steps race_run])
  show ?thesis using snapshots_protected [OF metas_2_3_ok(1) r, of 0 3] r by (intro exI [of _ race_end]) (simp add: race_end_def)
qed

text \<open>The same schedule shows that a reader can get the contents of a later transaction than its number: two commits fit between the test of the loop and the copy of the meta page.\<close>

lemma later_meta_read: "\<exists>s. rreach (fresh_table 2 metas_2_3) s \<and> threads s ! 0 = R_run 3 5"
  using run_steps_reach [OF race_steps race_run] by (intro exI [of _ race_end]) (simp add: race_end_def)


end
