(* ===== verification/Mdb_Tools.thy ===== *)
theory Mdb_Tools
  imports Arr
begin

text \<open>
  The command line tools \<open>mdb_dump\<close> and \<open>mdb_load\<close> of LMDB (\<open>lib/lmdb/mdb_dump.c\<close>,
  \<open>lib/lmdb/mdb_load.c\<close>): the text format they share, the printer, the line reader with its growing
  buffer, the header parser and the loop that stores the records.

  Input and output are lists of bytes. The functions of the C library that the tools use
  (\<open>fgets\<close>, \<open>strlen\<close>, \<open>memchr\<close>, \<open>isprint\<close>, \<open>atoi\<close>, \<open>sscanf\<close>, \<open>printf\<close> of numbers) are
  written out for the C locale; the LMDB calls are arguments. \<open>exit(EXIT_FAILURE)\<close> is the result
  \<open>None\<close>.
\<close>

type_synonym bytes = "u8 list"

definition str :: "string \<Rightarrow> bytes" where
  "str s = map of_char s"

definition isprint :: "u8 \<Rightarrow> bool" where "isprint c \<longleftrightarrow> 32 \<le> c \<and> c \<le> 126"
definition isdigit :: "u8 \<Rightarrow> bool" where "isdigit c \<longleftrightarrow> 48 \<le> c \<and> c \<le> 57"
definition isxdigit :: "u8 \<Rightarrow> bool" where
  "isxdigit c \<longleftrightarrow> isdigit c \<or> 65 \<le> c \<and> c \<le> 70 \<or> 97 \<le> c \<and> c \<le> 102"
definition isspace :: "u8 \<Rightarrow> bool" where "isspace c \<longleftrightarrow> c = 32 \<or> 9 \<le> c \<and> c \<le> 13"

text \<open>\<open>BSL\<close> is the backslash, \<open>NL\<close> the newline.\<close>

abbreviation NL :: u8 where "NL \<equiv> 10"
abbreviation SP :: u8 where "SP \<equiv> 32"
abbreviation BSL :: u8 where "BSL \<equiv> 92"

definition PRINT :: u32 where "PRINT = 1"
definition NOHDR :: u32 where "NOHDR = 2"

definition MDB_REVERSEKEY :: u32 where "MDB_REVERSEKEY = 0x02"
definition MDB_DUPSORT :: u32 where "MDB_DUPSORT = 0x04"
definition MDB_INTEGERKEY :: u32 where "MDB_INTEGERKEY = 0x08"
definition MDB_DUPFIXED :: u32 where "MDB_DUPFIXED = 0x10"
definition MDB_INTEGERDUP :: u32 where "MDB_INTEGERDUP = 0x20"
definition MDB_REVERSEDUP :: u32 where "MDB_REVERSEDUP = 0x40"

lemmas tool_flags = PRINT_def NOHDR_def MDB_REVERSEKEY_def MDB_DUPSORT_def MDB_INTEGERKEY_def
  MDB_DUPFIXED_def MDB_INTEGERDUP_def MDB_REVERSEDUP_def

text \<open>The table \<open>dbflags\<close>, the same in both programs.\<close>

definition dbflags :: "(u32 \<times> bytes) list" where
  "dbflags = [(MDB_REVERSEKEY, str ''reversekey''), (MDB_DUPSORT, str ''dupsort''),
     (MDB_INTEGERKEY, str ''integerkey''), (MDB_DUPFIXED, str ''dupfixed''),
     (MDB_INTEGERDUP, str ''integerdup''), (MDB_REVERSEDUP, str ''reversedup'')]"

subsection \<open>Printing\<close>

definition hexc :: bytes where "hexc = str ''0123456789abcdef''"

definition hex :: "u8 \<Rightarrow> bytes" where
  "hex c = [hexc ! unat (drop_bit 4 c), hexc ! unat (c AND 0xf)]"

definition text_char :: "u8 \<Rightarrow> bytes" where
  "text_char c = (if isprint c then (if c = BSL then [BSL, c] else [c]) else BSL # hex c)"

definition text_val :: "bytes \<Rightarrow> bytes" where
  "text_val v = SP # concat (map text_char v) @ [NL]"

definition byte_val :: "bytes \<Rightarrow> bytes" where
  "byte_val v = SP # concat (map hex v) @ [NL]"

text \<open>\<open>printf\<close> of an unsigned number in decimal and of a pointer.\<close>

fun dec :: "nat \<Rightarrow> bytes" where
  "dec n = (if n < 10 then [48 + of_nat n] else dec (n div 10) @ [48 + of_nat (n mod 10)])"

fun hexnum :: "nat \<Rightarrow> bytes" where
  "hexnum n = (if n < 16 then [hexc ! n] else hexnum (n div 16) @ [hexc ! (n mod 16)])"

declare dec.simps [simp del] hexnum.simps [simp del]

record MDB_envinfo =
  me_mapaddr :: size_t
  me_mapsize :: size_t
  me_maxreaders :: u32

definition EINTR :: int where "EINTR = 4"
definition MDB_NOTFOUND :: int where "MDB_NOTFOUND = -30798"
definition MDB_KEYEXIST :: int where "MDB_KEYEXIST = -30799"

definition dump_header :: "u32 \<Rightarrow> bytes option \<Rightarrow> MDB_envinfo \<Rightarrow> u32 \<Rightarrow> u32 \<Rightarrow> bytes" where
  "dump_header mode name info flags psize =
     str ''VERSION=3'' @ [NL] @
     str ''format='' @ (if has_flag mode PRINT then str ''print'' else str ''bytevalue'') @ [NL] @
     (case name of None \<Rightarrow> [] | Some n \<Rightarrow> str ''database='' @ n @ [NL]) @
     str ''type=btree'' @ [NL] @
     str ''mapsize='' @ dec (unat (me_mapsize info)) @ [NL] @
     (if me_mapaddr info \<noteq> 0 then str ''mapaddr=0x'' @ hexnum (unat (me_mapaddr info)) @ [NL] else []) @
     str ''maxreaders='' @ dec (unat (me_maxreaders info)) @ [NL] @
     (if has_flag flags MDB_DUPSORT then str ''duplicates=1'' @ [NL] else []) @
     concat (map (\<lambda>(b, n). if has_flag flags b then n @ str ''=1'' @ [NL] else []) dbflags) @
     str ''db_pagesize='' @ dec (unat psize) @ [NL] @
     str ''HEADER=END'' @ [NL]"

text \<open>The cursor loop. \<open>sig\<close> is the number of records after which a signal arrives, \<open>endrc\<close> the code
  with which the cursor ends; the assignment in the loop condition stores the result of the comparison
  and not the code.\<close>

fun dump_loop :: "u32 \<Rightarrow> int \<Rightarrow> nat option \<Rightarrow> (bytes \<times> bytes) list \<Rightarrow> int \<times> bytes" where
  "dump_loop mode endrc sig [] = (if endrc = 0 then 1 else 0, [])"
| "dump_loop mode endrc sig ((k, d) # es) =
     (if sig = Some 0 then (EINTR, [])
      else let (rc, out) = dump_loop mode endrc (map_option (\<lambda>n. n - 1) sig) es in
           (rc, (if has_flag mode PRINT then text_val k @ text_val d else byte_val k @ byte_val d) @ out))"

definition dumpit :: "u32 \<Rightarrow> int \<times> u32 \<Rightarrow> int \<times> u32 \<Rightarrow> int \<times> MDB_envinfo \<Rightarrow> int \<Rightarrow> int \<Rightarrow> nat option \<Rightarrow>
    (bytes \<times> bytes) list \<Rightarrow> bytes option \<Rightarrow> int \<times> bytes" where
  "dumpit mode dbi_flags stat info cursor_rc endrc sig es name =
     (if fst dbi_flags \<noteq> 0 then (fst dbi_flags, [])
      else if fst stat \<noteq> 0 then (fst stat, [])
      else if fst info \<noteq> 0 then (fst info, [])
      else
        let h = dump_header mode name (snd info) (snd dbi_flags) (snd stat) in
        if cursor_rc \<noteq> 0 then (cursor_rc, h)
        else
          let (rc, out) = dump_loop mode endrc sig es in
          (if rc = MDB_NOTFOUND then 0 else rc, h @ out @ str ''DATA=END'' @ [NL]))"

subsection \<open>Reading lines\<close>

text \<open>A size that is passed as an \<open>int\<close>, and \<open>fgets\<close> with a size of \<open>n\<close>: at most \<open>n - 1\<close> bytes, up to and including a
  newline; \<open>None\<close> at the end of the input and for a size that is not positive.\<close>

definition c_int :: "nat \<Rightarrow> int" where
  "c_int n = sint (of_nat n :: 32 word)"

fun fgets_take :: "nat \<Rightarrow> bytes \<Rightarrow> bytes \<times> bytes" where
  "fgets_take 0 inp = ([], inp)"
| "fgets_take (Suc n) [] = ([], [])"
| "fgets_take (Suc n) (c # inp) =
     (if c = NL then ([c], inp) else let (l, r) = fgets_take n inp in (c # l, r))"

definition fgets :: "int \<Rightarrow> bytes \<Rightarrow> (bytes \<times> bytes) option" where
  "fgets n inp =
     (if n \<le> 0 then None
      else if n = 1 then Some ([], inp)
      else if inp = [] then None
      else Some (fgets_take (nat n - 1) inp))"

definition cstr :: "bytes \<Rightarrow> bytes" where
  "cstr s = takeWhile (\<lambda>c. c \<noteq> 0) s"

lemma fgets_take_shorter: "fgets_take (Suc n) (c # inp) = (l, r) \<Longrightarrow> length r < Suc (length inp)"
proof -
  have "length (snd (fgets_take n inp)) \<le> length inp" for n inp
    by (induction n inp rule: fgets_take.induct) (auto simp: Let_def split: prod.splits)
  from this [of n inp] show "fgets_take (Suc n) (c # inp) = (l, r) \<Longrightarrow> length r < Suc (length inp)"
    by (auto split: if_splits prod.splits)
qed

lemma fgets_shorter: "fgets n inp = Some (l, r) \<Longrightarrow> n \<noteq> 1 \<Longrightarrow> length r < length inp"
  by (cases inp; cases "nat n - 1") (auto simp: fgets_def simp del: fgets_take.simps split: if_splits dest!: fgets_take_shorter)

lemma c_int_small: "n < 2 ^ 31 \<Longrightarrow> c_int n = int n"
  unfolding c_int_def by (simp add: signed_of_nat signed_take_bit_int_eq_self)

text \<open>The loop that doubles the buffer until the line is complete: \<open>sz\<close> is \<open>mv_size\<close>, \<open>acc\<close> the
  \<open>l2\<close> bytes read so far. The results are the lines of code after the loop (\<open>Inr (Some \<dots>)\<close>), the early
  return with \<open>EOF\<close> (\<open>Inr None\<close>), and the faults; \<open>oom\<close> says whether \<open>realloc\<close> fails, which it also does for the size 0 and for more than
  \<open>PTRDIFF_MAX\<close> bytes. \<open>mv_size + 1\<close> becomes an \<open>int\<close> when it is passed to \<open>fgets\<close>.\<close>

function read_more :: "bool \<Rightarrow> nat \<Rightarrow> bytes \<Rightarrow> bytes \<Rightarrow> (nat \<times> bytes \<times> bytes) option res" where
  "read_more oom sz acc inp =
     (if acc = [] then Inl Out_of_bounds
      else if last acc = NL then Inr (Some (sz, acc, inp))
      else if oom \<or> sz = 0 \<or> 2 ^ 63 \<le> 2 * sz then Inr None
      else if 2 * int sz < int (length acc) + c_int (sz + 1) then Inl Out_of_bounds
      else (case fgets (c_int (sz + 1)) inp of
              None \<Rightarrow> Inr None
            | Some (l, r) \<Rightarrow> read_more oom (2 * sz) (acc @ cstr l) r))"
  by pat_completeness auto

termination
  by (relation "measure (\<lambda>(oom, sz, acc, inp). 2 ^ 63 - sz)") auto

declare read_more.simps [simp del]

text \<open>\<open>unhex\<close>.\<close>

definition unhex1 :: "u8 \<Rightarrow> u32" where
  "unhex1 c = (let x = ucast c AND 0x4f in if x AND 0x40 \<noteq> 0 then x - 55 else x)"

definition unhex :: "u8 \<Rightarrow> u8 \<Rightarrow> u8" where
  "unhex a b = ucast (push_bit 4 (unhex1 a) OR unhex1 b)"

text \<open>The decoding loops; \<open>None\<close> is the early return.\<close>

fun decode_print :: "bytes \<Rightarrow> bytes option" where
  "decode_print [] = Some []"
| "decode_print (c # cs) =
     (if c = BSL then
        (case cs of
           [] \<Rightarrow> None
         | a # cs1 \<Rightarrow>
             if a = BSL then map_option (Cons BSL) (decode_print cs1)
             else (case cs1 of
                     [] \<Rightarrow> None
                   | b # cs2 \<Rightarrow>
                       if isxdigit a \<and> isxdigit b then map_option (Cons (unhex a b)) (decode_print cs2)
                       else None))
      else map_option (Cons c) (decode_print cs))"

fun decode_bytes :: "bytes \<Rightarrow> bytes option" where
  "decode_bytes [] = Some []"
| "decode_bytes [c] = None"
| "decode_bytes (a # b # cs) =
     (if isxdigit a \<and> isxdigit b then map_option (Cons (unhex a b)) (decode_bytes cs) else None)"

definition decode :: "u32 \<Rightarrow> bytes \<Rightarrow> bytes option" where
  "decode mode body =
     (if has_flag mode PRINT then decode_print body
      else if odd (length body) then None else decode_bytes body)"

text \<open>The state of the reader: the input, the line number and the flag \<open>Eof\<close>.\<close>

record rdr =
  r_in :: bytes
  lineno :: size_t
  Eof :: bool

text \<open>\<open>readline\<close>: \<open>None\<close> is the return value \<open>EOF\<close>, otherwise the bytes of \<open>out\<close>; the number is the
  new size of the buffer.\<close>

definition read_body :: "u32 \<Rightarrow> bool \<Rightarrow> nat \<Rightarrow> rdr \<Rightarrow> (bytes option \<times> nat \<times> rdr) res" where
  "read_body mode oom sz s =
     (case fgets (c_int sz) (r_in s) of
        None \<Rightarrow> Inr (None, sz, s\<lparr>Eof := True\<rparr>)
      | Some (l, r) \<Rightarrow>
          let s1 = s\<lparr>r_in := r, lineno := lineno s + 1\<rparr> in
          bindE (read_more oom sz (cstr l) r) (\<lambda>out.
            case out of
              None \<Rightarrow> Inr (None, sz, s1\<lparr>Eof := True\<rparr>)
            | Some (sz', acc, r') \<Rightarrow>
                (case decode mode (butlast acc) of
                   None \<Rightarrow> Inr (None, sz', s1\<lparr>r_in := r', Eof := True\<rparr>)
                 | Some v \<Rightarrow> Inr (Some v, sz', s1\<lparr>r_in := r'\<rparr>))))"

definition readline :: "u32 \<Rightarrow> bool \<Rightarrow> nat \<Rightarrow> rdr \<Rightarrow> (bytes option \<times> nat \<times> rdr) res" where
  "readline mode oom sz s =
     (if \<not> has_flag mode NOHDR then
        (case r_in s of
           [] \<Rightarrow> Inr (None, sz, s\<lparr>Eof := True\<rparr>)
         | c # r \<Rightarrow>
             if c \<noteq> SP then
               let s1 = s\<lparr>r_in := r, lineno := lineno s + 1\<rparr> in
               (case fgets (c_int sz) r of
                  None \<Rightarrow> Inr (None, sz, s1\<lparr>Eof := True\<rparr>)
                | Some (l, r') \<Rightarrow>
                    if c = 68 \<and> take 7 l = str ''ATA=END'' then Inr (None, sz, s1\<lparr>r_in := r'\<rparr>)
                    else Inr (None, sz, s1\<lparr>r_in := r', Eof := True\<rparr>))
             else read_body mode oom sz (s\<lparr>r_in := r\<rparr>))
      else read_body mode oom sz s)"

subsection \<open>Reading the header\<close>

record hdr =
  version :: int
  hmode :: u32
  hflags :: u32
  subname :: "bytes option"
  hinfo :: MDB_envinfo

text \<open>A scanned number: blanks, an optional sign, digits; without digits the conversion fails. A value
  beyond the type is the greatest one, as \<open>strtoul\<close> has it.\<close>

definition digits_val :: "nat \<Rightarrow> nat list \<Rightarrow> nat" where
  "digits_val base ds = foldl (\<lambda>n d. base * n + d) 0 ds"

definition digit_val :: "u8 \<Rightarrow> nat" where
  "digit_val c = (if isdigit c then unat c - 48 else if c \<le> 70 then unat c - 55 else unat c - 87)"

definition strtoul :: "(u8 \<Rightarrow> bool) \<Rightarrow> nat \<Rightarrow> bytes \<Rightarrow> size_t option" where
  "strtoul isdig base s0 =
     (let s = dropWhile isspace s0;
          neg = (s \<noteq> [] \<and> hd s = 45);
          s1 = (if s \<noteq> [] \<and> (hd s = 45 \<or> hd s = 43) then tl s else s);
          s2 = (if base = 16 \<and> take 2 s1 = str ''0x'' then drop 2 s1 else s1);
          ds = map digit_val (takeWhile isdig s2);
          v = digits_val base ds
      in if ds = [] then None
         else Some (if 2 ^ 64 \<le> v then - 1 else if neg then - of_nat v else of_nat v))"

text \<open>\<open>atoi\<close> of a number that fits.\<close>

definition atoi :: "bytes \<Rightarrow> int" where
  "atoi s = (case strtoul isdigit 10 s of None \<Rightarrow> 0 | Some v \<Rightarrow> sint (ucast v :: 32 word))"

definition starts :: "string \<Rightarrow> bytes \<Rightarrow> bool" where
  "starts lit buf \<longleftrightarrow> take (length lit) buf = str lit"

text \<open>\<open>ptr = memchr(\<dots>, '\\n', \<dots>); if (ptr) *ptr = 0\<close>, and the string behind a keyword.\<close>

definition cut_nl :: "bytes \<Rightarrow> bytes" where
  "cut_nl buf = (let k = length (takeWhile (\<lambda>c. c \<noteq> NL) buf) in if k < length buf then buf[k := 0] else buf)"

definition after :: "string \<Rightarrow> bytes \<Rightarrow> bytes" where
  "after lit buf = cstr (drop (length lit) buf)"

fun find_flag :: "(u32 \<times> bytes) list \<Rightarrow> bytes \<Rightarrow> u32 option" where
  "find_flag [] buf = None"
| "find_flag ((b, n) # fs) buf =
     (if take (length n) buf = n \<and> buf ! length n = 61 then Some b else find_flag fs buf)"

text \<open>One header line, with the buffer it leaves behind: \<open>Inl True\<close> ends the header, \<open>Inl False\<close> is
  \<open>exit(EXIT_FAILURE)\<close>.\<close>

definition header_line :: "bytes \<Rightarrow> hdr \<Rightarrow> bool + bytes \<times> hdr" where
  "header_line buf h =
     (if starts ''VERSION='' buf then
        let v = atoi (after ''VERSION='' buf) in if 3 < v then Inl False else Inr (buf, h\<lparr>version := v\<rparr>)
      else if starts ''HEADER=END'' buf then Inl True
      else if starts ''format='' buf then
        (if take 5 (drop 7 buf) = str ''print'' then Inr (buf, h\<lparr>hmode := hmode h OR PRINT\<rparr>)
         else if take 9 (drop 7 buf) \<noteq> str ''bytevalue'' then Inl False else Inr (buf, h))
      else if starts ''database='' buf then
        Inr (cut_nl buf, h\<lparr>subname := Some (after ''database='' (cut_nl buf))\<rparr>)
      else if starts ''type='' buf then
        (if take 5 (drop 5 buf) \<noteq> str ''btree'' then Inl False else Inr (buf, h))
      else if starts ''mapaddr='' buf then
        (case strtoul isxdigit 16 (after ''mapaddr='' (cut_nl buf)) of
           None \<Rightarrow> Inl False
         | Some v \<Rightarrow> Inr (cut_nl buf, h\<lparr>hinfo := (hinfo h)\<lparr>me_mapaddr := v\<rparr>\<rparr>))
      else if starts ''mapsize='' buf then
        (case strtoul isdigit 10 (after ''mapsize='' (cut_nl buf)) of
           None \<Rightarrow> Inl False
         | Some v \<Rightarrow> Inr (cut_nl buf, h\<lparr>hinfo := (hinfo h)\<lparr>me_mapsize := v\<rparr>\<rparr>))
      else if starts ''maxreaders='' buf then
        (case strtoul isdigit 10 (after ''maxreaders='' (cut_nl buf)) of
           None \<Rightarrow> Inl False
         | Some v \<Rightarrow> Inr (cut_nl buf, h\<lparr>hinfo := (hinfo h)\<lparr>me_maxreaders := ucast v\<rparr>\<rparr>))
      else
        (case find_flag dbflags buf of
           Some b \<Rightarrow> Inr (buf, h\<lparr>hflags := hflags h OR b\<rparr>)
         | None \<Rightarrow>
             let k = length (takeWhile (\<lambda>c. c \<noteq> 61) buf) in
             if k < length buf then Inr (buf[k := 0], h) else Inl False))"

text \<open>\<open>fgets\<close> into the buffer \<open>dbuf\<close> of fixed size: the bytes behind the terminator are the old ones. A size that is 1 as an \<open>int\<close> would read nothing for ever;
  the buffer has 4096 bytes or a power of two times as many.\<close>

definition fill_buf :: "bytes \<Rightarrow> bytes \<Rightarrow> bytes" where
  "fill_buf l buf = l @ [0] @ drop (Suc (length l)) buf"

function header_loop :: "bytes \<Rightarrow> rdr \<Rightarrow> hdr \<Rightarrow> (rdr \<times> hdr) option res" where
  "header_loop buf s h =
     (if c_int (length buf) = 1 then Inl Diverges
      else
        (case fgets (c_int (length buf)) (r_in s) of
           None \<Rightarrow> Inr (Some (s, h))
         | Some (l, r) \<Rightarrow>
             let s1 = s\<lparr>r_in := r, lineno := lineno s + 1\<rparr>; buf1 = fill_buf l buf in
             (case header_line buf1 h of
                Inl e \<Rightarrow> if e then Inr (Some (s1, h)) else Inr None
              | Inr (buf2, h1) \<Rightarrow> header_loop buf2 s1 h1)))"
  by pat_completeness auto

termination
  by (relation "measure (\<lambda>(buf, s, h). length (r_in s))") (auto dest: fgets_shorter)

declare header_loop.simps [simp del]

definition readhdr :: "bytes \<Rightarrow> rdr \<Rightarrow> hdr \<Rightarrow> (rdr \<times> hdr) option res" where
  "readhdr buf s h = header_loop buf s (h\<lparr>hflags := 0\<rparr>)"

subsection \<open>Storing the records\<close>

definition MDB_CREATE :: u32 where "MDB_CREATE = 0x40000"
definition MDB_NOOVERWRITE :: u32 where "MDB_NOOVERWRITE = 0x10"
definition MDB_NODUPDATA :: u32 where "MDB_NODUPDATA = 0x20"
definition MDB_CURRENT :: u32 where "MDB_CURRENT = 0x40"
definition MDB_APPEND :: u32 where "MDB_APPEND = 0x20000"
definition MDB_APPENDDUP :: u32 where "MDB_APPENDDUP = 0x40000"

text \<open>The LMDB calls of \<open>mdb_load\<close>; \<open>'e\<close> is the state of the library.\<close>

record 'e ldops =
  lo_begin :: "'e \<Rightarrow> int \<times> 'e"
  lo_open :: "bytes option \<Rightarrow> u32 \<Rightarrow> 'e \<Rightarrow> int \<times> 'e"
  lo_compare :: "'e \<Rightarrow> 'e"
  lo_dupsort :: "'e \<Rightarrow> 'e"
  lo_cursor :: "'e \<Rightarrow> int \<times> 'e"
  lo_put :: "bytes \<Rightarrow> bytes \<Rightarrow> u32 \<Rightarrow> 'e \<Rightarrow> int \<times> 'e"
  lo_commit :: "'e \<Rightarrow> int \<times> 'e"
  lo_last :: "'e \<Rightarrow> 'e"
  lo_close :: "'e \<Rightarrow> 'e"

record lcfg =
  l_append :: bool
  l_putflags :: u32
  l_k0 :: nat   \<comment> \<open>the size of \<open>kbuf\<close> and \<open>k0buf\<close> when they were allocated\<close>

text \<open>How the loop over the records ends: the end of the data, \<open>goto txn_abort\<close> or \<open>goto env_close\<close>.\<close>

datatype load_end = L_Break | L_Abort int | L_Close int

text \<open>The choice of the put flags in append mode, with the remembered key. \<open>prevk\<close> points into the
  block of \<open>kbuf\<close>: it dangles once \<open>readline\<close> has reallocated that block.\<close>

definition app_flag :: "lcfg \<Rightarrow> u32 \<Rightarrow> nat \<Rightarrow> bytes \<Rightarrow> bytes \<Rightarrow> (u32 \<times> bytes) res" where
  "app_flag cfg flags ksz prevk key =
     (if \<not> l_append cfg then Inr (0, prevk)
      else if \<not> has_flag flags MDB_DUPSORT then Inr (MDB_APPEND, prevk)
      else if ksz \<noteq> l_k0 cfg then Inl Bad_pointer
      else if prevk = key then Inr (MDB_CURRENT OR MDB_APPENDDUP, prevk)
      else if l_k0 cfg < length key then Inl Out_of_bounds
      else Inr (MDB_APPEND, key))"

text \<open>The end of a batch of 100 records: commit, a new transaction and a new cursor.\<close>

definition end_batch :: "'e ldops \<Rightarrow> u32 \<Rightarrow> 'e \<Rightarrow> load_end option \<times> 'e" where
  "end_batch ops appflag e =
     (let (rc, e1) = lo_commit ops e in
      if rc \<noteq> 0 then (Some (L_Close rc), e1)
      else
        let (rc, e2) = lo_begin ops e1 in
        if rc \<noteq> 0 then (Some (L_Close rc), e2)
        else
          let (rc, e3) = lo_cursor ops e2 in
          if rc \<noteq> 0 then (Some (L_Abort rc), e3)
          else (None, if has_flag appflag MDB_APPENDDUP then lo_last ops e3 else e3))"

text \<open>The loop \<open>while(1)\<close> over the records; the fuel counts its rounds.\<close>

fun load_records :: "nat \<Rightarrow> 'e ldops \<Rightarrow> lcfg \<Rightarrow> u32 \<Rightarrow> u32 \<Rightarrow> nat \<Rightarrow> nat \<Rightarrow> bytes \<Rightarrow> nat \<Rightarrow> rdr \<Rightarrow> 'e \<Rightarrow>
    (load_end \<times> nat \<times> nat \<times> rdr \<times> 'e) res" where
  "load_records 0 ops cfg mode flags ksz dsz prevk batch s e = Inl Diverges"
| "load_records (Suc fuel) ops cfg mode flags ksz dsz prevk batch s e =
     bindE (readline mode False ksz s) (\<lambda>(k, ksz1, s1).
       case k of
         None \<Rightarrow> Inr (L_Break, ksz1, dsz, s1, e)
       | Some key \<Rightarrow>
           bindE (readline mode False dsz s1) (\<lambda>(d, dsz1, s2).
             case d of
               None \<Rightarrow> Inr (L_Abort (- 1), ksz1, dsz1, s2, e)
             | Some val \<Rightarrow>
                 bindE (app_flag cfg flags ksz1 prevk key) (\<lambda>(appflag, prevk1).
                   let (rc, e1) = lo_put ops key val (l_putflags cfg OR appflag) e in
                   if rc = MDB_KEYEXIST \<and> l_putflags cfg \<noteq> 0
                   then load_records fuel ops cfg mode flags ksz1 dsz1 prevk1 batch s2 e1
                   else if rc \<noteq> 0 then Inr (L_Abort rc, ksz1, dsz1, s2, e1)
                   else if batch + 1 = 100 then
                     (case end_batch ops appflag e1 of
                        (Some r, e2) \<Rightarrow> Inr (r, ksz1, dsz1, s2, e2)
                      | (None, e2) \<Rightarrow> load_records fuel ops cfg mode flags ksz1 dsz1 prevk1 0 s2 e2)
                   else load_records fuel ops cfg mode flags ksz1 dsz1 prevk1 (batch + 1) s2 e1)))"

text \<open>One round of the loop \<open>while(!Eof)\<close>: \<open>first\<close> is \<open>!dohdr\<close>, \<open>dbuf n\<close> is what the data
  buffer holds when it has grown to \<open>n\<close> bytes and is used for a header. The flags that the header before the
  loop has set are reset here, before the database is opened.\<close>

definition load_db :: "nat \<Rightarrow> 'e ldops \<Rightarrow> lcfg \<Rightarrow> (nat \<Rightarrow> bytes) \<Rightarrow> bool \<Rightarrow> nat \<Rightarrow> nat \<Rightarrow> rdr \<Rightarrow> hdr \<Rightarrow> 'e \<Rightarrow>
    (load_end \<times> nat \<times> nat \<times> rdr \<times> hdr \<times> 'e) option res" where
  "load_db fuel ops cfg dbuf first ksz dsz s h0 e =
     (let h = h0\<lparr>hflags := 0\<rparr> in
      bindE (if \<not> first \<and> \<not> has_flag (hmode h) NOHDR then readhdr (dbuf dsz) s h else Inr (Some (s, h))) (\<lambda>r.
        case r of
          None \<Rightarrow> Inr None
        | Some (s1, h1) \<Rightarrow>
            let (rc, e1) = lo_begin ops e in
            if rc \<noteq> 0 then Inr (Some (L_Close rc, ksz, dsz, s1, h1, e1))
            else
              let (rc, e2) = lo_open ops (subname h1) (hflags h1 OR MDB_CREATE) e1 in
              if rc \<noteq> 0 then Inr (Some (L_Abort rc, ksz, dsz, s1, h1, e2))
              else
                let e3 = (if l_append cfg
                          then (if has_flag (hflags h1) MDB_DUPSORT then lo_dupsort ops else id) (lo_compare ops e2)
                          else e2);
                    (rc, e4) = lo_cursor ops e3 in
                if rc \<noteq> 0 then Inr (Some (L_Abort rc, ksz, dsz, s1, h1, e4))
                else
                  bindE (load_records fuel ops cfg (hmode h1) (hflags h1) ksz dsz [] 0 s1 e4)
                    (\<lambda>(r, ksz1, dsz1, s2, e5).
                      if r \<noteq> L_Break then Inr (Some (r, ksz1, dsz1, s2, h1, e5))
                      else
                        let (rc, e6) = lo_commit ops e5 in
                        if rc \<noteq> 0 then Inr (Some (L_Close rc, ksz1, dsz1, s2, h1, e6))
                        else Inr (Some (L_Break, ksz1, dsz1, s2, h1, lo_close ops e6)))))"

fun load_dbs :: "nat \<Rightarrow> 'e ldops \<Rightarrow> lcfg \<Rightarrow> (nat \<Rightarrow> bytes) \<Rightarrow> bool \<Rightarrow> nat \<Rightarrow> nat \<Rightarrow> rdr \<Rightarrow> hdr \<Rightarrow> 'e \<Rightarrow> (int \<times> 'e) option res" where
  "load_dbs 0 ops cfg dbuf first ksz dsz s h e = Inl Diverges"
| "load_dbs (Suc fuel) ops cfg dbuf first ksz dsz s h e =
     (if Eof s then Inr (Some (0, e))
      else
        bindE (load_db fuel ops cfg dbuf first ksz dsz s h e) (\<lambda>r.
          case r of
            None \<Rightarrow> Inr None
          | Some (L_Break, ksz1, dsz1, s1, h1, e1) \<Rightarrow> load_dbs fuel ops cfg dbuf False ksz1 dsz1 s1 h1 e1
          | Some (L_Abort rc, _, _, _, _, e1) \<Rightarrow> Inr (Some (rc, e1))
          | Some (L_Close rc, _, _, _, _, e1) \<Rightarrow> Inr (Some (rc, e1))))"

text \<open>\<open>main\<close> after the options: the first header, the environment (its calls are the argument
  \<open>env_open\<close>), the loop.\<close>

definition load_main :: "nat \<Rightarrow> 'e ldops \<Rightarrow> (MDB_envinfo \<Rightarrow> int \<times> 'e) \<Rightarrow> nat \<Rightarrow> bool \<Rightarrow> u32 \<Rightarrow> u32 \<Rightarrow> bytes option \<Rightarrow>
    (nat \<Rightarrow> bytes) \<Rightarrow> bytes \<Rightarrow> (int \<times> 'e) option res" where
  "load_main fuel ops env_open maxkey app putflags mode sub dbuf inp =
     (let s = \<lparr>r_in = inp, lineno = 0, Eof = False\<rparr>;
          h = \<lparr>version = 0, hmode = mode, hflags = 0, subname = sub,
               hinfo = \<lparr>me_mapaddr = 0, me_mapsize = 0, me_maxreaders = 0\<rparr>\<rparr> in
      bindE (if has_flag mode NOHDR then Inr (Some (s, h)) else readhdr (dbuf 4096) s h) (\<lambda>r.
        case r of
          None \<Rightarrow> Inr None
        | Some (s1, h1) \<Rightarrow>
            let (rc, e) = env_open (hinfo h1); ksz = maxkey * 2 + 2 in
            if rc \<noteq> 0 then Inr (Some (rc, e))
            else load_dbs fuel ops \<lparr>l_append = app, l_putflags = putflags, l_k0 = ksz\<rparr> dbuf True ksz
                   4096 s1 h1 e))"

end
