(* ===== verification/Mdb_Roundtrip.thy ===== *)
theory Mdb_Roundtrip
  imports Mdb_Tools
begin

text \<open>
  What \<open>mdb_dump\<close> prints, \<open>mdb_load\<close> reads: the encoding of values in both formats, the line
  reader with its growing buffer, the records, the header, and the two programs together.
\<close>

subsection \<open>Values\<close>

lemma hexc_digit:
  assumes "n < 16"
  shows "isxdigit (hexc ! n)" "unhex1 (hexc ! n) = of_nat n" "isprint (hexc ! n)" "hexc ! n \<noteq> BSL"
    "digit_val (hexc ! n) = n"
proof -
  have "list_all (\<lambda>n. isxdigit (hexc ! n) \<and> unhex1 (hexc ! n) = of_nat n \<and> isprint (hexc ! n) \<and> hexc ! n \<noteq> BSL \<and>
      digit_val (hexc ! n) = n) [0..<16]"
    by code_simp
  then show "isxdigit (hexc ! n)" "unhex1 (hexc ! n) = of_nat n" "isprint (hexc ! n)" "hexc ! n \<noteq> BSL"
    "digit_val (hexc ! n) = n"
    using assms by (auto simp: list_all_iff)
qed

lemma nibbles: "unat (drop_bit 4 c) < 16" "unat (c AND 0xf) < 16" for c :: u8
proof -
  have "unat (drop_bit 4 c) = unat c div 16" unfolding unat_drop_bit_eq by (simp add: drop_bit_eq_div)
  then show "unat (drop_bit 4 c) < 16" using unat_lt_pow [of c] by simp
  have "c AND 0xf \<le> 0xf" by (rule word_and_le1)
  then show "unat (c AND 0xf) < 16" by (simp add: word_le_nat_alt)
qed

lemma unhex_hex: "unhex (hexc ! unat (drop_bit 4 c)) (hexc ! unat (c AND 0xf)) = c"
proof -
  have "unhex (hexc ! unat (drop_bit 4 c)) (hexc ! unat (c AND 0xf)) =
      ucast (push_bit 4 (ucast (drop_bit 4 c) :: u32) OR ucast (c AND 0xf))"
    by (simp add: unhex_def hexc_digit(2) nibbles)
  also have "\<dots> = c"
  proof (rule bit_word_eqI)
    fix n assume "n < LENGTH(8)"
    then have n: "n < 8" by simp
    have m: "(0xf :: u8) = mask 4" by (simp add: mask_eq_exp_minus_1)
    show "bit (ucast (push_bit 4 (ucast (drop_bit 4 c) :: u32) OR ucast (c AND 0xf)) :: u8) n = bit c n"
      unfolding m using n by (cases "n < 4") (auto simp: bit_simps not_less)
  qed
  finally show ?thesis .
qed

lemma decode_text: "decode_print (concat (map text_char v)) = Some v"
proof (induction v)
  case (Cons c v)
  show ?case
  proof (cases "isprint c")
    case True
    then show ?thesis using Cons by (simp add: text_char_def)
  next
    case False
    then show ?thesis using Cons
      by (simp add: text_char_def hex_def hexc_digit nibbles unhex_hex)
  qed
qed simp

lemma decode_hex: "decode_bytes (concat (map hex v)) = Some v"
  by (induction v) (simp_all add: hex_def hexc_digit nibbles unhex_hex)

lemma length_hex: "length (concat (map hex v)) = 2 * length v"
  by (induction v) (simp_all add: hex_def)

text \<open>A printed value, in the format of the mode.\<close>

definition body_of :: "u32 \<Rightarrow> bytes \<Rightarrow> bytes" where
  "body_of mode v = (if has_flag mode PRINT then concat (map text_char v) else concat (map hex v))"

definition print_val :: "u32 \<Rightarrow> bytes \<Rightarrow> bytes" where
  "print_val mode v = (if has_flag mode PRINT then text_val v else byte_val v)"

lemma print_val_body: "print_val mode v = SP # body_of mode v @ [NL]"
  by (simp add: print_val_def body_of_def text_val_def byte_val_def)

lemma decode_body: "decode mode (body_of mode v) = Some v"
  by (simp add: decode_def body_of_def decode_text decode_hex length_hex)

definition plain :: "bytes \<Rightarrow> bool" where
  "plain s \<longleftrightarrow> NL \<notin> set s \<and> 0 \<notin> set s"

lemma isprint_plain: "isprint c \<Longrightarrow> c \<noteq> NL \<and> c \<noteq> 0"
  by (auto simp: isprint_def)

lemma plain_body: "plain (body_of mode v)"
proof -
  have "isprint c" if "c \<in> set (hex x)" for c x
    using that by (auto simp: hex_def hexc_digit nibbles)
  moreover have "isprint BSL" by (simp add: isprint_def)
  ultimately have "\<forall>c\<in>set (body_of mode v). isprint c"
    by (auto simp: body_of_def text_char_def split: if_splits)
  then show ?thesis using isprint_plain by (auto simp: plain_def)
qed

subsection \<open>Lines\<close>

lemma fgets_take_line:
  assumes "NL \<notin> set body"
  shows "fgets_take n (body @ NL # rest) =
    (if n \<le> length body then (take n body, drop n body @ NL # rest) else (body @ [NL], rest))"
  using assms
proof (induction n "body @ NL # rest" arbitrary: body rule: fgets_take.induct)
  case (3 n c inp)
  show ?case
  proof (cases body)
    case Nil
    then show ?thesis using 3 by simp
  next
    case (Cons b bs)
    then show ?thesis using 3 by auto
  qed
qed simp_all

lemma cstr_plain: "0 \<notin> set s \<Longrightarrow> cstr s = s"
  unfolding cstr_def by (induction s) auto

lemma cstr_append: "0 \<notin> set s \<Longrightarrow> cstr (s @ t) = s @ cstr t"
  unfolding cstr_def by (induction s) auto

lemma fgets_line:
  assumes "NL \<notin> set body" and "1 \<le> n" and "n + 1 < 2 ^ 31"
  shows "fgets (c_int (n + 1)) (body @ NL # rest) =
    Some (if n \<le> length body then (take n body, drop n body @ NL # rest) else (body @ [NL], rest))"
proof -
  have "c_int (n + 1) = int (n + 1)" using assms(3) by (rule c_int_small)
  then show ?thesis using assms(1,2) fgets_take_line [OF assms(1), of n rest] by (simp add: fgets_def nat_add_distrib)
qed

text \<open>The buffer ends with at most twice the size that the line needs.\<close>

lemma read_more_line:
  assumes "plain body" and "acc \<noteq> []" and "NL \<notin> set acc" and "Suc (length acc) = sz" and "length acc + length body + 2 < 2 ^ 31"
  shows "\<exists>sz'\<ge>sz. sz' \<le> 2 * (length acc + length body + 1) \<and>
    read_more False sz acc (body @ NL # rest) = Inr (Some (sz', acc @ body @ [NL], rest))"
  using assms
proof (induction "length body" arbitrary: body acc sz rule: less_induct)
  case less
  have l: "last acc \<noteq> NL" using less.prems(2,3) last_in_set by metis
  have sz: "2 \<le> sz" "sz + 1 < 2 ^ 31" using less.prems(2,4,5) by (cases acc; simp)+
  have f: "fgets (c_int (sz + 1)) (body @ NL # rest) =
    Some (if sz \<le> length body then (take sz body, drop sz body @ NL # rest) else (body @ [NL], rest))"
    using less.prems(1) sz by (intro fgets_line) (simp_all add: plain_def)
  have room: "\<not> 2 * int sz < int (length acc) + c_int (sz + 1)" "\<not> (sz = 0 \<or> 2 ^ 63 \<le> 2 * sz)"
    using c_int_small [OF sz(2)] sz less.prems(4) by simp_all
  show ?case
  proof (cases "sz \<le> length body")
    case True
    have z: "0 \<notin> set (take sz body)" "NL \<notin> set (take sz body)" "plain (drop sz body)"
      using less.prems(1) by (auto simp: plain_def dest: in_set_takeD in_set_dropD)
    have "read_more False sz acc (body @ NL # rest) =
        read_more False (2 * sz) (acc @ take sz body) (drop sz body @ NL # rest)"
      using l less.prems(2) room f True by (subst read_more.simps) (simp add: cstr_plain [OF z(1)])
    moreover have "length (drop sz body) < length body" using True sz by simp
    then have "\<exists>sz'\<ge>2 * sz. sz' \<le> 2 * (length (acc @ take sz body) + length (drop sz body) + 1) \<and>
        read_more False (2 * sz) (acc @ take sz body) (drop sz body @ NL # rest) =
        Inr (Some (sz', (acc @ take sz body) @ drop sz body @ [NL], rest))"
      using z less.prems True by (intro less.hyps) auto
    ultimately show ?thesis using True by (auto intro: order_trans [of _ "2 * sz"])
  next
    case False
    have "cstr (body @ [NL]) = body @ [NL]" using less.prems(1) by (intro cstr_plain) (auto simp: plain_def)
    then have "read_more False sz acc (body @ NL # rest) = Inr (Some (2 * sz, acc @ body @ [NL], rest))"
      using l less.prems(2) room f False
      by (subst read_more.simps) (simp add: read_more.simps [of _ _ "acc @ body @ [NL]"])
    then show ?thesis using less.prems(4) by auto
  qed
qed

lemma read_line_ok:
  assumes "plain body" and "2 \<le> sz" and "sz < 2 ^ 31" and "length body + 2 < 2 ^ 31"
  shows "\<exists>l r sz'. fgets (c_int sz) (body @ NL # rest) = Some (l, r) \<and> sz \<le> sz' \<and> sz' \<le> max sz (2 * (length body + 1)) \<and>
    read_more False sz (cstr l) r = Inr (Some (sz', body @ [NL], rest))"
proof -
  let ?n = "sz - 1"
  have n: "1 \<le> ?n" "?n + 1 < 2 ^ 31" "?n + 1 = sz" using assms(2,3) by simp_all
  have f: "fgets (c_int sz) (body @ NL # rest) =
    Some (if ?n \<le> length body then (take ?n body, drop ?n body @ NL # rest) else (body @ [NL], rest))"
    using fgets_line [OF _ n(1,2), of body rest] assms(1) unfolding n(3) plain_def by blast
  show ?thesis
  proof (cases "?n \<le> length body")
    case True
    have z: "0 \<notin> set (take ?n body)" "NL \<notin> set (take ?n body)" "plain (drop ?n body)"
      using assms(1) by (auto simp: plain_def dest: in_set_takeD in_set_dropD)
    have "take ?n body \<noteq> []" using True assms(2) by (cases body) auto
    from read_more_line [OF z(3) this z(2), of sz rest] True assms(2,4) obtain sz' where
      "sz \<le> sz'" "sz' \<le> 2 * (length body + 1)"
      "read_more False sz (take ?n body) (drop ?n body @ NL # rest) = Inr (Some (sz', body @ [NL], rest))"
      by auto
    then show ?thesis using f True cstr_plain [OF z(1)] by auto
  next
    case False
    have "cstr (body @ [NL]) = body @ [NL]" using assms(1) by (intro cstr_plain) (auto simp: plain_def)
    then show ?thesis using f False by (auto simp: read_more.simps [of _ _ "body @ [NL]"])
  qed
qed

lemma readline_roundtrip_aux:
  assumes "\<not> has_flag mode NOHDR" and "2 \<le> sz" and "sz < 2 ^ 31" and "length (print_val mode v) < 2 ^ 31" and "r_in s = print_val mode v @ rest"
  shows "\<exists>sz'\<ge>sz. sz' \<le> max sz (2 * length (print_val mode v)) \<and>
    readline mode False sz s = Inr (Some v, sz', s\<lparr>r_in := rest, lineno := lineno s + 1\<rparr>)"
proof -
  have i: "r_in s = SP # body_of mode v @ NL # rest" using assms(5) by (simp add: print_val_body)
  have n: "length (body_of mode v) + 2 < 2 ^ 31" using assms(4) by (simp add: print_val_body)
  from read_line_ok [OF plain_body assms(2,3) n, of rest] obtain l r sz' where
    "fgets (c_int sz) (body_of mode v @ NL # rest) = Some (l, r)" "sz \<le> sz'" "sz' \<le> max sz (2 * (length (body_of mode v) + 1))"
    "read_more False sz (cstr l) r = Inr (Some (sz', body_of mode v @ [NL], rest))" by blast
  then show ?thesis using assms(1) i by (auto simp: readline_def read_body_def decode_body print_val_body)
qed

text \<open>C39: A value that \<open>mdb_dump\<close> prints on a line of less than 2 GiB, in either format, is read back by \<open>readline\<close> of
  \<open>mdb_load\<close>, byte for byte, from a buffer of any size that an \<open>int\<close> holds, when \<open>realloc\<close> succeeds: the escapes and hexadecimal digits
  decode to the bytes they came from, and the buffer doubles until the line fits, to at most twice the length of the line.\<close>

theorem readline_roundtrip:
  assumes "\<not> has_flag mode NOHDR" and "2 \<le> sz" and "sz < 2 ^ 31" and "length (print_val mode v) < 2 ^ 31" and "r_in s = print_val mode v @ rest"
  shows "\<exists>sz'\<ge>sz. sz' \<le> max sz (2 * length (print_val mode v)) \<and>
    readline mode False sz s = Inr (Some v, sz', s\<lparr>r_in := rest, lineno := lineno s + 1\<rparr>)"
  using assms by (rule readline_roundtrip_aux)

text \<open>The bound is that of the program: the buffer that a line of 2 GiB leaves behind has a size that is negative as an \<open>int\<close>, so that the next line is
  not read at all and ends the input.\<close>

lemma c_int_2GiB: "c_int (2 ^ 31) = - (2 ^ 31)"
  unfolding c_int_def by simp

lemma readline_2GiB:
  assumes "\<not> has_flag mode NOHDR" and "r_in s = SP # inp"
  shows "readline mode oom (2 ^ 31) s = Inr (None, 2 ^ 31, s\<lparr>r_in := inp, Eof := True\<rparr>)"
  using assms c_int_2GiB by (simp add: readline_def read_body_def fgets_def)

theorem readline_roundtrip_witness:
  "\<exists>sz'\<ge>2. readline PRINT False 2 \<lparr>r_in = print_val PRINT [0, 92, 65], lineno = 0, Eof = False\<rparr> =
     Inr (Some [0, 92, 65], sz', \<lparr>r_in = [], lineno = 1, Eof = False\<rparr>)"
proof -
  have "\<not> has_flag PRINT NOHDR" by (simp add: tool_flags has_flag_def)
  moreover have "length (print_val PRINT [0, 92, 65]) < 2 ^ 31"
    by (simp add: print_val_body body_of_def text_char_def hex_def isprint_def)
  ultimately show ?thesis using readline_roundtrip [of PRINT 2 "[0, 92, 65]" "\<lparr>r_in = print_val PRINT [0, 92, 65], lineno = 0, Eof = False\<rparr>" "[]"]
    by auto
qed

end
