(* ===== verification/Mdb_Dump_Load.thy ===== *)
theory Mdb_Dump_Load
  imports Mdb_Roundtrip
begin

text \<open>
  \<open>mdb_dump\<close> piped into \<open>mdb_load\<close>: the records arrive in order, the header gives back the
  format, the name and the sizes, and the database is opened without the flags that the header names.
\<close>

subsection \<open>Records\<close>

definition print_recs :: "u32 \<Rightarrow> (bytes \<times> bytes) list \<Rightarrow> bytes" where
  "print_recs mode es = concat (map (\<lambda>(k, d). print_val mode k @ print_val mode d) es)"

lemma dump_loop_prints: "dump_loop mode endrc None es = (if endrc = 0 then 1 else 0, print_recs mode es)"
  by (induction es) (auto simp: print_recs_def print_val_def split: prod.splits)

text \<open>Any LMDB, with a history of its calls: the pairs that \<open>mdb_cursor_put\<close> has taken, and the databases that \<open>mdb_dbi_open\<close> has opened, with their flags.
  A call that gives an error leaves no trace.\<close>

type_synonym 'e recorded = "'e \<times> (bytes \<times> bytes) list \<times> (bytes option \<times> u32) list"

definition plain_call :: "('e \<Rightarrow> int \<times> 'e) \<Rightarrow> 'e recorded \<Rightarrow> int \<times> 'e recorded" where
  "plain_call f = (\<lambda>(e, ps, os). case f e of (rc, e') \<Rightarrow> (rc, e', ps, os))"

definition recorded :: "'e ldops \<Rightarrow> 'e recorded ldops" where
  "recorded ops =
     \<lparr>lo_begin = plain_call (lo_begin ops),
      lo_open = (\<lambda>n f (e, ps, os). case lo_open ops n f e of (rc, e') \<Rightarrow> (rc, e', ps, if rc = 0 then os @ [(n, f)] else os)),
      lo_compare = apfst (lo_compare ops), lo_dupsort = apfst (lo_dupsort ops), lo_cursor = plain_call (lo_cursor ops),
      lo_put = (\<lambda>k d f (e, ps, os). case lo_put ops k d f e of (rc, e') \<Rightarrow> (rc, e', if rc = 0 then ps @ [(k, d)] else ps, os)),
      lo_commit = plain_call (lo_commit ops), lo_last = apfst (lo_last ops), lo_close = apfst (lo_close ops)\<rparr>"

text \<open>The codes that the calls give, and the ends of a round that are due to one of them.\<close>

definition answers :: "'e ldops \<Rightarrow> int \<Rightarrow> bool" where
  "answers ops rc \<longleftrightarrow> (\<exists>e. rc = fst (lo_begin ops e) \<or> rc = fst (lo_cursor ops e) \<or> rc = fst (lo_commit ops e) \<or>
     (\<exists>n f. rc = fst (lo_open ops n f e)) \<or> (\<exists>k d f. rc = fst (lo_put ops k d f e)))"

definition failed :: "'e ldops \<Rightarrow> load_end \<Rightarrow> bool" where
  "failed ops r \<longleftrightarrow> (\<exists>rc. (r = L_Abort rc \<or> r = L_Close rc) \<and> rc \<noteq> 0 \<and> answers ops rc)"

lemma failed_not_break: "failed ops r \<Longrightarrow> r \<noteq> L_Break"
  by (auto simp: failed_def)

lemma answersI:
  "lo_begin ops e = (rc, e') \<Longrightarrow> answers ops rc" "lo_cursor ops e = (rc, e') \<Longrightarrow> answers ops rc" "lo_commit ops e = (rc, e') \<Longrightarrow> answers ops rc"
  "lo_open ops n f e = (rc, e') \<Longrightarrow> answers ops rc" "lo_put ops k d f e = (rc, e') \<Longrightarrow> answers ops rc"
  unfolding answers_def by (metis fst_conv)+

lemma failedI: "answers ops rc \<Longrightarrow> rc \<noteq> 0 \<Longrightarrow> failed ops (L_Abort rc)" "answers ops rc \<Longrightarrow> rc \<noteq> 0 \<Longrightarrow> failed ops (L_Close rc)"
  by (auto simp: failed_def)

lemma end_batch_run:
  "\<exists>x e'. end_batch (recorded ops) 0 (e, ps, os) = (x, e', ps, os) \<and> (\<forall>r. x = Some r \<longrightarrow> failed ops r)"
proof -
  obtain r1 e1 where c: "lo_commit ops e = (r1, e1)" by (cases "lo_commit ops e")
  obtain r2 e2 where b: "lo_begin ops e1 = (r2, e2)" by (cases "lo_begin ops e1")
  obtain r3 e3 where d: "lo_cursor ops e2 = (r3, e3)" by (cases "lo_cursor ops e2")
  show ?thesis using answersI(3) [OF c] answersI(1) [OF b] answersI(2) [OF d] failedI
    by (cases "r1 = 0"; cases "r2 = 0"; cases "r3 = 0") (auto simp: end_batch_def recorded_def plain_call_def c b d)
qed

definition data_end :: bytes where
  "data_end = str ''DATA=END'' @ [NL]"

lemma readline_end:
  assumes "\<not> has_flag mode NOHDR" and "9 \<le> sz" and "sz < 2 ^ 31" and "r_in s = data_end @ rest"
  shows "readline mode oom sz s = Inr (None, sz, s\<lparr>r_in := rest, lineno := lineno s + 1\<rparr>)"
proof -
  have i: "r_in s = 68 # str ''ATA=END'' @ NL # rest" using assms(4) by (simp add: data_end_def str_def)
  have "fgets (c_int sz) (str ''ATA=END'' @ NL # rest) = Some (str ''ATA=END'' @ [NL], rest)"
    using assms(2,3) fgets_line [of "str ''ATA=END''" "sz - 1" rest] by (simp add: str_def)
  then show ?thesis using assms(1) i by (simp add: readline_def str_def)
qed

text \<open>Lines that leave the buffers with a size that an \<open>int\<close> holds.\<close>

definition short_lines :: "u32 \<Rightarrow> (bytes \<times> bytes) list \<Rightarrow> bool" where
  "short_lines mode es \<longleftrightarrow> (\<forall>(k, d)\<in>set es. length (print_val mode k) < 2 ^ 30 \<and> length (print_val mode d) < 2 ^ 30)"

text \<open>The records are put in their order, up to the first call that fails.\<close>

lemma load_records_run:
  assumes "\<not> l_append cfg" and "l_putflags cfg = 0" and "\<not> has_flag mode NOHDR" and "short_lines mode es"
    and "9 \<le> ksz" and "ksz < 2 ^ 31" and "2 \<le> dsz" and "dsz < 2 ^ 31" and "r_in s = print_recs mode es @ data_end @ rest" and "length es < fuel"
  shows "\<exists>r ksz' dsz' s' e' n. load_records fuel (recorded ops) cfg mode flags ksz dsz prevk batch s (e, ps, os) =
      Inr (r, ksz', dsz', s', e', ps @ take n es, os) \<and>
      (if r = L_Break then n = length es \<and> (dsz \<le> dsz' \<and> dsz' < 2 ^ 31 \<and> r_in s' = rest \<and> Eof s' = Eof s) else failed ops r)"
  using assms(4-)
proof (induction es arbitrary: fuel ksz dsz batch s e ps)
  case Nil
  then obtain f where f: "fuel = Suc f" by (cases fuel) auto
  have "r_in s = data_end @ rest" using Nil.prems(6) by (simp add: print_recs_def)
  then show ?case using readline_end [OF assms(3) Nil.prems(2,3)] Nil.prems(5) by (simp add: f)
next
  case (Cons kd es)
  obtain k d where kd: "kd = (k, d)" by (cases kd)
  obtain f where f: "fuel = Suc f" "length es < f" using Cons.prems(7) by (cases fuel) auto
  have sh: "length (print_val mode k) < 2 ^ 30" "length (print_val mode d) < 2 ^ 30" "short_lines mode es"
    using Cons.prems(1) by (auto simp: short_lines_def kd)
  have i: "r_in s = print_val mode k @ (print_val mode d @ print_recs mode es @ data_end @ rest)"
    using Cons.prems(6) kd by (simp add: print_recs_def)
  have "2 \<le> ksz" "length (print_val mode k) < 2 ^ 31" "length (print_val mode d) < 2 ^ 31" using Cons.prems(2) sh by simp_all
  note l = this
  from readline_roundtrip_aux [OF assms(3) l(1) Cons.prems(3) l(2) i] obtain ksz1 where
    k: "ksz \<le> ksz1" "ksz1 \<le> max ksz (2 * length (print_val mode k))"
      "readline mode False ksz s = Inr (Some k, ksz1, s\<lparr>r_in := print_val mode d @ print_recs mode es @ data_end @ rest, lineno := lineno s + 1\<rparr>)"
    by blast
  let ?s1 = "s\<lparr>r_in := print_val mode d @ print_recs mode es @ data_end @ rest, lineno := lineno s + 1\<rparr>"
  have "r_in ?s1 = print_val mode d @ (print_recs mode es @ data_end @ rest)" by simp
  from readline_roundtrip_aux [OF assms(3) Cons.prems(4,5) l(3) this] obtain dsz1 s2 where
    d: "dsz \<le> dsz1" "dsz1 \<le> max dsz (2 * length (print_val mode d))" "readline mode False dsz ?s1 = Inr (Some d, dsz1, s2)"
      "r_in s2 = print_recs mode es @ data_end @ rest" "Eof s2 = Eof s" by auto
  have sz: "9 \<le> ksz1" "ksz1 < 2 ^ 31" "2 \<le> dsz1" "dsz1 < 2 ^ 31" using k(1,2) d(1,2) Cons.prems(2-5) sh(1,2) by auto
  have ap: "app_flag cfg flags ksz1 prevk k = Inr (0, prevk)" using assms(1) by (simp add: app_flag_def)
  obtain rc e1 where p: "lo_put ops k d 0 e = (rc, e1)" by (cases "lo_put ops k d 0 e")
  have put: "lo_put (recorded ops) k d 0 (e, ps, os) = (rc, e1, if rc = 0 then ps @ [(k, d)] else ps, os)" by (simp add: recorded_def p)
  note step = k(3) d(3) ap assms(2) put
  show ?case
  proof (cases "rc = 0")
    case False
    then have "load_records fuel (recorded ops) cfg mode flags ksz dsz prevk batch s (e, ps, os) = Inr (L_Abort rc, ksz1, dsz1, s2, e1, ps, os)"
      using step by (simp add: f)
    moreover have "failed ops (L_Abort rc)" using answersI(5) [OF p] False by (rule failedI(1))
    ultimately show ?thesis by (intro exI [of _ "L_Abort rc"] exI [of _ ksz1] exI [of _ dsz1] exI [of _ s2] exI [of _ e1] exI [of _ 0]) simp
  next
    case True
    obtain x e2 where b: "end_batch (recorded ops) 0 (e1, ps @ [(k, d)], os) = (x, e2, ps @ [(k, d)], os)" "\<forall>r. x = Some r \<longrightarrow> failed ops r"
      using end_batch_run [of ops e1 "ps @ [(k, d)]" os] by auto
    have go: "\<exists>r ksz' dsz' s' e' n. load_records f (recorded ops) cfg mode flags ksz1 dsz1 prevk b s2 (e0, ps @ [(k, d)], os) =
        Inr (r, ksz', dsz', s', e', ps @ take n (kd # es), os) \<and>
        (if r = L_Break then n = length (kd # es) \<and> (dsz \<le> dsz' \<and> dsz' < 2 ^ 31 \<and> r_in s' = rest \<and> Eof s' = Eof s) else failed ops r)" for b e0
    proof -
      obtain r k' d' s' e' n where "load_records f (recorded ops) cfg mode flags ksz1 dsz1 prevk b s2 (e0, ps @ [(k, d)], os) =
          Inr (r, k', d', s', e', (ps @ [(k, d)]) @ take n es, os)"
        "if r = L_Break then n = length es \<and> (dsz1 \<le> d' \<and> d' < 2 ^ 31 \<and> r_in s' = rest \<and> Eof s' = Eof s2) else failed ops r"
        using Cons.IH [OF sh(3) sz d(4) f(2), of b e0 "ps @ [(k, d)]"] by blast
      then show ?thesis using d(1,5)
        by (intro exI [of _ r] exI [of _ k'] exI [of _ d'] exI [of _ s'] exI [of _ e'] exI [of _ "Suc n"]) (auto simp: kd)
    qed
    have nxt: "load_records fuel (recorded ops) cfg mode flags ksz dsz prevk batch s (e, ps, os) =
        (if batch + 1 = 100 then
           (case x of
              Some r \<Rightarrow> Inr (r, ksz1, dsz1, s2, e2, ps @ [(k, d)], os)
            | None \<Rightarrow> load_records f (recorded ops) cfg mode flags ksz1 dsz1 prevk 0 s2 (e2, ps @ [(k, d)], os))
         else load_records f (recorded ops) cfg mode flags ksz1 dsz1 prevk (batch + 1) s2 (e1, ps @ [(k, d)], os))"
      using step b(1) True by (simp add: f split: option.split)
    show ?thesis
    proof (cases "batch + 1 = 100 \<and> x \<noteq> None")
      case True
      then obtain r where "x = Some r" "failed ops r" using b(2) by blast
      then show ?thesis using True nxt failed_not_break [of ops r]
        by (intro exI [of _ r] exI [of _ ksz1] exI [of _ dsz1] exI [of _ s2] exI [of _ e2] exI [of _ 1]) (simp add: kd)
    next
      case False
      then show ?thesis using nxt go [of 0 e2] go [of "batch + 1" e1] by (cases "batch + 1 = 100") auto
    qed
  qed
qed

subsection \<open>Numbers\<close>

lemma digits_val_snoc [simp]: "digits_val b (ds @ [d]) = b * digits_val b ds + d"
  by (simp add: digits_val_def)

lemma digits_val_single [simp]: "digits_val b [d] = d"
  by (simp add: digits_val_def)

lemma dec_digit:
  assumes "n < 10"
  shows "isdigit (48 + of_nat n)" "digit_val (48 + of_nat n) = n"
proof -
  have "list_all (\<lambda>n. isdigit (48 + of_nat n) \<and> digit_val (48 + of_nat n) = n) [0..<10]" by code_simp
  then show "isdigit (48 + of_nat n)" "digit_val (48 + of_nat n) = n" using assms by (auto simp: list_all_iff)
qed

lemma dec_ok: "dec n \<noteq> [] \<and> (\<forall>c\<in>set (dec n). isdigit c) \<and> digits_val 10 (map digit_val (dec n)) = n"
proof (induction n rule: dec.induct)
  case (1 n)
  show ?case
  proof (cases "n < 10")
    case True
    then show ?thesis by (subst (1 2 3) dec.simps) (simp add: dec_digit)
  next
    case False
    then show ?thesis using 1 [OF False] dec_digit [of "n mod 10"]
      by (subst (1 2 3) dec.simps) (auto simp: digits_val_snoc)
  qed
qed

lemma hexnum_ok: "hexnum n \<noteq> [] \<and> (\<forall>c\<in>set (hexnum n). isxdigit c) \<and> digits_val 16 (map digit_val (hexnum n)) = n"
proof (induction n rule: hexnum.induct)
  case (1 n)
  show ?case
  proof (cases "n < 16")
    case True
    then show ?thesis by (subst (1 2 3) hexnum.simps) (simp add: hexc_digit)
  next
    case False
    then show ?thesis using 1 [OF False] hexc_digit [of "n mod 16"]
      by (subst (1 2 3) hexnum.simps) (auto simp: digits_val_snoc)
  qed
qed

lemma isdigit_plain: "isdigit c \<Longrightarrow> \<not> isspace c \<and> c \<noteq> 45 \<and> c \<noteq> 43 \<and> c \<noteq> NL \<and> c \<noteq> 0"
  by (auto simp: isdigit_def isspace_def word_le_nat_alt)

lemma isxdigit_plain: "isxdigit c \<Longrightarrow> c \<noteq> NL \<and> c \<noteq> 0"
  by (auto simp: isxdigit_def isdigit_def)

lemma strtoul_digits:
  assumes "ds \<noteq> []" and "\<forall>c\<in>set ds. isdigit c" and "digits_val 10 (map digit_val ds) < 2 ^ 64"
    and "t = [] \<or> \<not> isdigit (hd t)"
  shows "strtoul isdigit 10 (ds @ t) = Some (of_nat (digits_val 10 (map digit_val ds)))"
proof -
  obtain c cs where ds: "ds = c # cs" using assms(1) by (cases ds) auto
  then have c: "\<not> isspace c" "c \<noteq> 45" "c \<noteq> 43" using assms(2) isdigit_plain by auto
  have "takeWhile isdigit (ds @ t) = ds"
    using assms(2,4) by (cases t) (auto simp: takeWhile_append)
  then have t: "takeWhile isdigit (c # cs @ t) = c # cs" by (simp add: ds)
  show ?thesis using assms(3) c t by (simp add: strtoul_def ds Let_def del: takeWhile.simps)
qed

lemma strtoul_dec: "n < 2 ^ 64 \<Longrightarrow> t = [] \<or> \<not> isdigit (hd t) \<Longrightarrow> strtoul isdigit 10 (dec n @ t) = Some (of_nat n)"
  using strtoul_digits [of "dec n" t] dec_ok [of n] by simp

lemma strtoul_hex:
  assumes "n < 2 ^ 64"
  shows "strtoul isxdigit 16 (48 # 120 # hexnum n) = Some (of_nat n)"
proof -
  have t: "takeWhile isxdigit (hexnum n) = hexnum n" using hexnum_ok [of n] by (simp add: takeWhile_eq_all_conv)
  show ?thesis using assms hexnum_ok [of n] by (simp add: strtoul_def Let_def isspace_def str_def t)
qed

lemma plain_dec: "plain (dec n)"
  using dec_ok [of n] isdigit_plain by (auto simp: plain_def)

lemma plain_hexnum: "plain (hexnum n)"
  using hexnum_ok [of n] isxdigit_plain by (auto simp: plain_def)

subsection \<open>Header lines\<close>

text \<open>\<open>mdb_load\<close> understands a line: whatever the buffer held before, the line turns the header
  \<open>h\<close> into \<open>h'\<close>.\<close>

definition reads :: "bytes \<Rightarrow> hdr \<Rightarrow> hdr \<Rightarrow> bool" where
  "reads l h h' \<longleftrightarrow> (\<forall>buf. \<exists>buf'. length buf' = length (fill_buf (l @ [NL]) buf) \<and>
     header_line (fill_buf (l @ [NL]) buf) h = Inr (buf', h'))"

lemma header_end: "header_line (fill_buf (str ''HEADER=END'' @ [NL]) buf) h = Inl True"
  by (simp add: header_line_def starts_def fill_buf_def str_def)

lemma cut_nl_line: "NL \<notin> set l \<Longrightarrow> cut_nl (l @ NL # t) = l @ 0 # t"
  unfolding cut_nl_def Let_def by (simp add: takeWhile_append list_update_append)

lemma length_cut_nl [simp]: "length (cut_nl b) = length b"
  by (simp add: cut_nl_def Let_def)

lemmas header_simps = header_line_def starts_def fill_buf_def str_def after_def

lemma reads_version: "reads (str ''VERSION=3'') h (h\<lparr>version := 3\<rparr>)"
proof -
  have a: "atoi [51, NL] = 3"
    by (simp add: atoi_def strtoul_def Let_def isspace_def isdigit_def digit_val_def digits_val_def)
  show ?thesis by (simp add: reads_def header_simps cstr_def a)
qed

lemma reads_print: "reads (str ''format=print'') h (h\<lparr>hmode := hmode h OR PRINT\<rparr>)"
  by (simp add: reads_def header_simps)

lemma reads_bytevalue: "reads (str ''format=bytevalue'') h h"
  by (simp add: reads_def header_simps)

lemma reads_type: "reads (str ''type=btree'') h h"
  by (simp add: reads_def header_simps)


text \<open>Which keyword a line starts with is a comparison of literals.\<close>

lemma str_inject [simp]: "str s = str t \<longleftrightarrow> s = t"
proof -
  have "inj (of_char :: char \<Rightarrow> u8)"
  proof (rule injI)
    fix c d :: char assume "of_char c = (of_char d :: u8)"
    then have "word_of_nat (of_char c) = (word_of_nat (of_char d) :: u8)" by (simp add: of_nat_of_char)
    then have "unat (word_of_nat (of_char c) :: u8) = unat (word_of_nat (of_char d) :: u8)" by (rule arg_cong)
    then have "of_char c = (of_char d :: nat)" by (simp only: unat_of_nat) simp
    then show "c = d" by simp
  qed
  then show ?thesis by (simp add: str_def inj_map_eq_map)
qed

lemma take_str: "take n (str s) = str (take n s)"
  by (simp add: str_def take_map)

lemma length_str [simp]: "length (str s) = length s"
  by (simp add: str_def)

lemma starts_yes: "take (length lit) kw = lit \<Longrightarrow> starts lit (fill_buf ((str kw @ v) @ [NL]) buf)"
proof -
  assume a: "take (length lit) kw = lit"
  then have "length lit \<le> length kw" by (metis length_take min.cobounded1 min_def)
  then show ?thesis using a by (simp add: starts_def fill_buf_def take_str)
qed

lemma starts_no:
  assumes "take (length lit) kw \<noteq> take (length kw) lit"
  shows "\<not> starts lit (fill_buf ((str kw @ v) @ [NL]) buf)"
proof
  assume "starts lit (fill_buf ((str kw @ v) @ [NL]) buf)"
  then have "take (length kw) (take (length lit) (str kw @ v @ [NL, 0] @ drop (Suc (length ((str kw @ v) @ [NL]))) buf)) =
      take (length kw) (str lit)"
    by (simp add: starts_def fill_buf_def)
  then have "str (take (length lit) kw) = str (take (length kw) lit)"
    by (simp add: take_str min_def split: if_splits)
  then show False using assms by simp
qed

lemmas keyword_simps = starts_yes starts_no

text \<open>A line without one of the keywords is a flag, or ignored.\<close>

lemma header_line_flag:
  assumes "\<forall>lit\<in>{''VERSION='', ''HEADER=END'', ''format='', ''database='', ''type='', ''mapaddr='', ''mapsize='', ''maxreaders=''}.
      take (length lit) kw \<noteq> take (length kw) lit"
  shows "header_line (fill_buf ((str kw @ v) @ [NL]) buf) h =
    (let b = fill_buf ((str kw @ v) @ [NL]) buf in
     case find_flag dbflags b of
       Some f \<Rightarrow> Inr (b, h\<lparr>hflags := hflags h OR f\<rparr>)
     | None \<Rightarrow>
         let k = length (takeWhile (\<lambda>c. c \<noteq> 61) b) in if k < length b then Inr (b[k := 0], h) else Inl False)"
  using assms by (simp add: header_line_def starts_no Let_def del: append_assoc)

text \<open>A keyword followed by a number.\<close>

lemma number_line:
  assumes "plain v" and "plain (str kw)"
  shows "after kw (cut_nl (fill_buf ((str kw @ v) @ [NL]) buf)) = v"
proof -
  have "cut_nl ((str kw @ v) @ NL # t) = (str kw @ v) @ 0 # t" for t
    by (rule cut_nl_line) (use assms in \<open>simp add: plain_def\<close>)
  then have "cut_nl (fill_buf ((str kw @ v) @ [NL]) buf) =
      (str kw @ v) @ 0 # 0 # drop (Suc (length ((str kw @ v) @ [NL]))) buf"
    by (simp add: fill_buf_def)
  then show ?thesis using assms(1) by (simp add: after_def cstr_append plain_def) (simp add: cstr_def)
qed

lemma reads_database:
  assumes "plain n"
  shows "reads (str ''database='' @ n) h (h\<lparr>subname := Some n\<rparr>)"
  unfolding reads_def
proof (intro allI exI conjI)
  fix buf
  let ?b = "fill_buf ((str ''database='' @ n) @ [NL]) buf"
  have "plain (str ''database='')" by (simp add: plain_def str_def)
  then show "header_line ?b h = Inr (cut_nl ?b, h\<lparr>subname := Some n\<rparr>)"
    using number_line [OF assms, of "''database=''" buf] by (simp add: header_line_def keyword_simps del: append_assoc)
  show "length (cut_nl ?b) = length ?b" by simp
qed

lemma reads_number:
  assumes "\<And>buf. \<exists>v. header_line (fill_buf (l @ [NL]) buf) h = Inr (cut_nl (fill_buf (l @ [NL]) buf), h')"
  shows "reads l h h'"
  unfolding reads_def using assms by (metis length_cut_nl)

lemma reads_mapsize:
  "reads (str ''mapsize='' @ dec (unat w)) h (h\<lparr>hinfo := (hinfo h)\<lparr>me_mapsize := w\<rparr>\<rparr>)"
proof (rule reads_number, intro exI)
  fix buf
  have "strtoul isdigit 10 (dec (unat w)) = Some w" using strtoul_dec [of "unat w" "[]"] unat_lt_pow [of w] by simp
  moreover have "plain (str ''mapsize='')" by (simp add: plain_def str_def)
  ultimately show "header_line (fill_buf ((str ''mapsize='' @ dec (unat w)) @ [NL]) buf) h =
      Inr (cut_nl (fill_buf ((str ''mapsize='' @ dec (unat w)) @ [NL]) buf), h\<lparr>hinfo := (hinfo h)\<lparr>me_mapsize := w\<rparr>\<rparr>)"
    using number_line [OF plain_dec] by (simp add: header_line_def keyword_simps del: append_assoc)
qed

lemma reads_mapaddr:
  "reads (str ''mapaddr=0x'' @ hexnum (unat w)) h (h\<lparr>hinfo := (hinfo h)\<lparr>me_mapaddr := w\<rparr>\<rparr>)"
proof (rule reads_number, intro exI)
  fix buf
  let ?v = "48 # 120 # hexnum (unat w)"
  have e: "str ''mapaddr=0x'' @ hexnum (unat w) = str ''mapaddr='' @ ?v" by (simp add: str_def)
  have "strtoul isxdigit 16 ?v = Some w" using strtoul_hex [of "unat w"] unat_lt_pow [of w] by simp
  moreover have "plain (str ''mapaddr='')" "plain ?v" using plain_hexnum [of "unat w"] by (simp_all add: plain_def str_def)
  ultimately show "header_line (fill_buf ((str ''mapaddr=0x'' @ hexnum (unat w)) @ [NL]) buf) h =
      Inr (cut_nl (fill_buf ((str ''mapaddr=0x'' @ hexnum (unat w)) @ [NL]) buf), h\<lparr>hinfo := (hinfo h)\<lparr>me_mapaddr := w\<rparr>\<rparr>)"
    unfolding e using number_line [of ?v] by (simp add: header_line_def keyword_simps del: append_assoc)
qed

lemma reads_maxreaders:
  "reads (str ''maxreaders='' @ dec (unat w)) h (h\<lparr>hinfo := (hinfo h)\<lparr>me_maxreaders := w\<rparr>\<rparr>)"
proof (rule reads_number, intro exI)
  fix buf
  have "unat w < 2 ^ 64" using unat_lt_pow [of w] by simp
  then have "strtoul isdigit 10 (dec (unat w)) = Some (ucast w)" using strtoul_dec [of "unat w" "[]"] by simp
  moreover have "plain (str ''maxreaders='')" by (simp add: plain_def str_def)
  ultimately show "header_line (fill_buf ((str ''maxreaders='' @ dec (unat w)) @ [NL]) buf) h =
      Inr (cut_nl (fill_buf ((str ''maxreaders='' @ dec (unat w)) @ [NL]) buf), h\<lparr>hinfo := (hinfo h)\<lparr>me_maxreaders := w\<rparr>\<rparr>)"
    using number_line [OF plain_dec] by (simp add: header_line_def keyword_simps del: append_assoc)
qed

lemma takeWhile_shorter: "x \<in> set xs \<Longrightarrow> length (takeWhile (\<lambda>c. c \<noteq> x) xs) < length xs"
  by (induction xs) auto

lemma reads_ignored:
  assumes "\<forall>lit\<in>{''VERSION='', ''HEADER=END'', ''format='', ''database='', ''type='', ''mapaddr='', ''mapsize='', ''maxreaders=''}.
      take (length lit) kw \<noteq> take (length kw) lit"
    and "\<And>buf. find_flag dbflags (fill_buf ((str kw @ v) @ [NL]) buf) = None" and "61 \<in> set (str kw)"
  shows "reads (str kw @ v) h h"
  unfolding reads_def
proof
  fix buf
  let ?b = "fill_buf ((str kw @ v) @ [NL]) buf"
  have "61 \<in> set ?b" using assms(3) by (simp add: fill_buf_def)
  then have "length (takeWhile (\<lambda>c. c \<noteq> 61) ?b) < length ?b" by (rule takeWhile_shorter)
  then show "\<exists>buf'. length buf' = length ?b \<and> header_line ?b h = Inr (buf', h)"
    using header_line_flag [OF assms(1), of v buf h] assms(2) [of buf] by (simp add: Let_def del: append_assoc)
qed

lemma reads_duplicates: "reads (str ''duplicates=1'') h h"
proof -
  have "reads (str ''duplicates='' @ [49]) h h"
    by (rule reads_ignored) (simp_all add: dbflags_def fill_buf_def, simp_all add: str_def)
  then show ?thesis by (simp add: str_def)
qed

lemma reads_pagesize: "reads (str ''db_pagesize='' @ dec n) h h"
  by (rule reads_ignored) (simp_all add: dbflags_def fill_buf_def, simp_all add: str_def)

lemma reads_flag:
  assumes "(b, n) \<in> set dbflags"
  shows "reads (n @ str ''=1'') h (h\<lparr>hflags := hflags h OR b\<rparr>)"
proof -
  have r: "reads (str kw @ str ''=1'') h (h\<lparr>hflags := hflags h OR f\<rparr>)"
    if "\<forall>lit\<in>{''VERSION='', ''HEADER=END'', ''format='', ''database='', ''type='', ''mapaddr='', ''mapsize='', ''maxreaders=''}.
      take (length lit) kw \<noteq> take (length kw) lit"
      and "\<And>buf. find_flag dbflags (fill_buf ((str kw @ str ''=1'') @ [NL]) buf) = Some f" for kw f
    unfolding reads_def using header_line_flag [OF that(1), of "str ''=1''"] that(2)
    by (auto simp: Let_def simp del: append_assoc)
  from assms consider "b = MDB_REVERSEKEY" "n = str ''reversekey''" | "b = MDB_DUPSORT" "n = str ''dupsort''"
    | "b = MDB_INTEGERKEY" "n = str ''integerkey''" | "b = MDB_DUPFIXED" "n = str ''dupfixed''"
    | "b = MDB_INTEGERDUP" "n = str ''integerdup''" | "b = MDB_REVERSEDUP" "n = str ''reversedup''"
    by (auto simp: dbflags_def)
  then show ?thesis
    by cases (simp_all only:, (rule r, simp, simp add: dbflags_def fill_buf_def, simp add: str_def)+)
qed

subsection \<open>The header\<close>

fun hrun :: "bytes list \<Rightarrow> hdr \<Rightarrow> hdr \<Rightarrow> bool" where
  "hrun [] h h' \<longleftrightarrow> h = h'"
| "hrun (l # ls) h h' \<longleftrightarrow> (\<exists>h1. reads l h h1 \<and> hrun ls h1 h')"

lemma hrun_append: "hrun (xs @ ys) h h' \<longleftrightarrow> (\<exists>h1. hrun xs h h1 \<and> hrun ys h1 h')"
  by (induction xs arbitrary: h) auto

definition text_lines :: "bytes list \<Rightarrow> bytes" where
  "text_lines ls = concat (map (\<lambda>l. l @ [NL]) ls)"

lemma text_lines_simps [simp]:
  "text_lines [] = []" "text_lines (l # ls) = l @ NL # text_lines ls" "text_lines (xs @ ys) = text_lines xs @ text_lines ys"
  by (simp_all add: text_lines_def)

lemma header_loop_line:
  assumes "NL \<notin> set l" and "length l + 2 \<le> length buf" and "length buf < 2 ^ 31" and "r_in s = l @ NL # rest"
  shows "header_loop buf s h =
    (case header_line (fill_buf (l @ [NL]) buf) h of
       Inl e \<Rightarrow> if e then Inr (Some (s\<lparr>r_in := rest, lineno := lineno s + 1\<rparr>, h)) else Inr None
     | Inr (buf2, h1) \<Rightarrow> header_loop buf2 (s\<lparr>r_in := rest, lineno := lineno s + 1\<rparr>) h1)"
proof -
  obtain n where n: "length buf = n + 1" "1 \<le> n" using assms(2) by (cases "length buf") auto
  have "fgets (c_int (length buf)) (r_in s) = Some (l @ [NL], rest)"
    using assms n(1) fgets_line [OF assms(1) n(2), of rest] by simp
  moreover have "c_int (length buf) \<noteq> 1" using c_int_small [OF assms(3)] assms(2) by simp
  ultimately show ?thesis by (subst header_loop.simps) (simp add: Let_def)
qed

lemma length_fill_buf: "Suc (length l) \<le> length buf \<Longrightarrow> length (fill_buf l buf) = length buf"
  by (simp add: fill_buf_def)

lemma header_loop_run:
  assumes "hrun ls h h'" and "\<forall>l\<in>set ls. NL \<notin> set l \<and> length l + 2 \<le> n" and "length buf = n" and "12 \<le> n" and "n < 2 ^ 31"
    and "r_in s = text_lines ls @ str ''HEADER=END'' @ NL # rest"
  shows "\<exists>s'. header_loop buf s h = Inr (Some (s', h')) \<and> r_in s' = rest \<and> Eof s' = Eof s"
  using assms
proof (induction ls arbitrary: buf s h)
  case Nil
  then have "header_loop buf s h = Inr (Some (s\<lparr>r_in := rest, lineno := lineno s + 1\<rparr>, h))"
    by (subst header_loop_line [of "str ''HEADER=END''"]) (simp_all add: header_end, simp add: str_def)
  then show ?case using Nil.prems(1) by simp
next
  case (Cons l ls)
  from Cons.prems(1) obtain h1 where h1: "reads l h h1" "hrun ls h1 h'" by auto
  from h1(1) obtain buf' where
    b: "length buf' = length (fill_buf (l @ [NL]) buf)" "header_line (fill_buf (l @ [NL]) buf) h = Inr (buf', h1)"
    by (auto simp: reads_def)
  have l: "NL \<notin> set l" "length l + 2 \<le> length buf" using Cons.prems(2,3) by auto
  have len: "length buf' = n" using b(1) l(2) Cons.prems(3) by (simp add: length_fill_buf)
  let ?s = "s\<lparr>r_in := text_lines ls @ str ''HEADER=END'' @ NL # rest, lineno := lineno s + 1\<rparr>"
  have "r_in s = l @ NL # (text_lines ls @ str ''HEADER=END'' @ NL # rest)" "length buf < 2 ^ 31" using Cons.prems(3,5,6) by simp_all
  from header_loop_line [OF l this(2,1)] b(2) have "header_loop buf s h = header_loop buf' ?s h1" by simp
  moreover from Cons.IH [OF h1(2) _ len Cons.prems(4,5), of ?s] Cons.prems(2)
  obtain s' where "header_loop buf' ?s h1 = Inr (Some (s', h'))" "r_in s' = rest" "Eof s' = Eof ?s" by auto
  ultimately show ?case by simp
qed

definition flag_lines :: "u32 \<Rightarrow> (u32 \<times> bytes) list \<Rightarrow> bytes list" where
  "flag_lines flags fs = map (\<lambda>(b, n). n @ str ''=1'') (filter (\<lambda>(b, n). has_flag flags b) fs)"

definition hdr_lines :: "u32 \<Rightarrow> bytes option \<Rightarrow> MDB_envinfo \<Rightarrow> u32 \<Rightarrow> u32 \<Rightarrow> bytes list" where
  "hdr_lines mode name info flags psize =
     [str ''VERSION=3''] @
     [if has_flag mode PRINT then str ''format=print'' else str ''format=bytevalue''] @
     (case name of None \<Rightarrow> [] | Some n \<Rightarrow> [str ''database='' @ n]) @
     [str ''type=btree''] @
     [str ''mapsize='' @ dec (unat (me_mapsize info))] @
     (if me_mapaddr info \<noteq> 0 then [str ''mapaddr=0x'' @ hexnum (unat (me_mapaddr info))] else []) @
     [str ''maxreaders='' @ dec (unat (me_maxreaders info))] @
     (if has_flag flags MDB_DUPSORT then [str ''duplicates=1''] else []) @
     flag_lines flags dbflags @
     [str ''db_pagesize='' @ dec (unat psize)]"

lemma flag_lines_text:
  "concat (map (\<lambda>(b, n). if has_flag flags b then n @ str ''=1'' @ [NL] else []) fs) = text_lines (flag_lines flags fs)"
  by (induction fs) (auto simp: flag_lines_def)

lemma dump_header_lines:
  "dump_header mode name info flags psize = text_lines (hdr_lines mode name info flags psize) @ str ''HEADER=END'' @ [NL]"
proof -
  have "str ''format=print'' = str ''format='' @ str ''print''" "str ''format=bytevalue'' = str ''format='' @ str ''bytevalue''"
    by (simp_all add: str_def)
  then show ?thesis
    unfolding dump_header_def hdr_lines_def flag_lines_text by (auto split: option.splits)
qed

text \<open>What the loader knows after the header.\<close>

definition loaded_hdr :: "u32 \<Rightarrow> bytes option \<Rightarrow> MDB_envinfo \<Rightarrow> u32 \<Rightarrow> hdr \<Rightarrow> hdr" where
  "loaded_hdr mode name info flags h =
     h\<lparr>version := 3, hmode := (if has_flag mode PRINT then hmode h OR PRINT else hmode h),
       subname := (case name of None \<Rightarrow> subname h | Some n \<Rightarrow> Some n),
       hinfo := \<lparr>me_mapaddr = (if me_mapaddr info \<noteq> 0 then me_mapaddr info else me_mapaddr (hinfo h)),
                 me_mapsize = me_mapsize info, me_maxreaders = me_maxreaders info\<rparr>,
       hflags := hflags h OR (flags AND 0x7e)\<rparr>"

lemma length_dec: "n < 10 ^ Suc k \<Longrightarrow> length (dec n) \<le> Suc k"
proof (induction k arbitrary: n)
  case 0
  then show ?case by (simp add: dec.simps [of n])
next
  case (Suc k)
  then have "n div 10 < 10 ^ Suc k" by (simp add: less_mult_imp_div_less mult.commute)
  then show ?case using Suc.IH [of "n div 10"] by (simp add: dec.simps [of n])
qed

lemma length_hexnum: "n < 16 ^ Suc k \<Longrightarrow> length (hexnum n) \<le> Suc k"
proof (induction k arbitrary: n)
  case 0
  then show ?case by (simp add: hexnum.simps [of n])
next
  case (Suc k)
  then have "n div 16 < 16 ^ Suc k" by (simp add: less_mult_imp_div_less mult.commute)
  then show ?case using Suc.IH [of "n div 16"] by (simp add: hexnum.simps [of n])
qed

lemma number_lengths:
  "length (dec (unat w)) \<le> 20" "length (hexnum (unat w)) \<le> 16" "length (dec (unat v)) \<le> 20" for w :: size_t and v :: u32
proof -
  have w: "unat w < 2 ^ 64" and v: "unat v < 2 ^ 32" using unat_lt_pow [of w] unat_lt_pow [of v] by simp_all
  then show "length (dec (unat w)) \<le> 20" using length_dec [of "unat w" 19] by simp
  show "length (hexnum (unat w)) \<le> 16" using length_hexnum [of "unat w" 15] w by simp
  show "length (dec (unat v)) \<le> 20" using length_dec [of "unat v" 19] v by simp
qed

lemma flag_names: "(b, n) \<in> set dbflags \<Longrightarrow> plain n \<and> length n \<le> 10"
  unfolding dbflags_def by (auto simp: plain_def str_def)

lemma hdr_lines_short:
  assumes "\<And>n. name = Some n \<Longrightarrow> plain n \<and> length n \<le> 4000" and "l \<in> set (hdr_lines mode name info flags psize)"
  shows "NL \<notin> set l \<and> length l + 2 \<le> 4096"
proof -
  note nl = number_lengths(1) [of "me_mapsize info"] number_lengths(2) [of "me_mapaddr info"]
    number_lengths(3) [of "me_maxreaders info"] number_lengths(3) [of psize]
  have p: "plain (dec n)" "plain (hexnum n)" for n by (rule plain_dec plain_hexnum)+
  have "NL \<notin> set l \<and> length l + 2 \<le> 4096" if "l \<in> set (flag_lines flags dbflags)"
    using that flag_names by (fastforce simp: flag_lines_def plain_def str_def)
  then show ?thesis
    using assms nl p unfolding hdr_lines_def
    by (auto simp: plain_def split: option.splits if_splits) (auto simp: str_def)
qed

lemma hrun_flags:
  assumes "set fs \<subseteq> set dbflags"
  shows "hrun (flag_lines flags fs) h (h\<lparr>hflags := foldl (\<lambda>f (b, n). if has_flag flags b then f OR b else f) (hflags h) fs\<rparr>)"
  using assms
proof (induction fs arbitrary: h)
  case Nil
  then show ?case by (simp add: flag_lines_def)
next
  case (Cons x fs)
  obtain b n where x: "x = (b, n)" by (cases x)
  show ?case
  proof (cases "has_flag flags b")
    case True
    have "reads (n @ str ''=1'') h (h\<lparr>hflags := hflags h OR b\<rparr>)" using Cons.prems x by (intro reads_flag) auto
    then show ?thesis using Cons.IH [of "h\<lparr>hflags := hflags h OR b\<rparr>"] Cons.prems True x
      by (auto simp: flag_lines_def)
  next
    case False
    then show ?thesis using Cons.IH [of h] Cons.prems x by (simp add: flag_lines_def)
  qed
qed

lemma flag_bit: "has_flag (f :: u32) (2 ^ k) \<longleftrightarrow> bit f k" if "k < 32"
  using that by (auto simp: has_flag_iff_bit bit_exp_iff)

lemma fold_dbflags:
  "foldl (\<lambda>f (b, n). if has_flag flags b then f OR b else f) f0 dbflags = f0 OR (flags AND 0x7e)" for flags f0 :: u32
proof -
  have m: "(0x7e :: u32) = 2 ^ 1 OR 2 ^ 2 OR 2 ^ 3 OR 2 ^ 4 OR 2 ^ 5 OR 2 ^ 6" by simp
  have e: "MDB_REVERSEKEY = 2 ^ 1" "MDB_DUPSORT = 2 ^ 2" "MDB_INTEGERKEY = 2 ^ 3" "MDB_DUPFIXED = 2 ^ 4"
    "MDB_INTEGERDUP = 2 ^ 5" "MDB_REVERSEDUP = 2 ^ 6"
    by (simp_all add: tool_flags)
  have o: "(if has_flag flags (2 ^ k) then f OR 2 ^ k else f) = f OR (flags AND 2 ^ k)" if "k < 32" for k and f :: u32
    using that by (intro bit_word_eqI) (auto simp: bit_simps flag_bit)
  have k: "(1::nat) < 32" "(2::nat) < 32" "(3::nat) < 32" "(4::nat) < 32" "(5::nat) < 32" "(6::nat) < 32" by simp_all
  show ?thesis
    unfolding dbflags_def e m
    by (simp only: foldl_Cons foldl_Nil prod.case o [OF k(1)] o [OF k(2)] o [OF k(3)] o [OF k(4)] o [OF k(5)] o [OF k(6)])
      (simp only: word_ao_dist2 or.assoc)
qed

lemma hrun_hdr_lines:
  assumes "\<And>n. name = Some n \<Longrightarrow> plain n"
  shows "hrun (hdr_lines mode name info flags psize) h (loaded_hdr mode name info flags h)"
proof -
  let ?h1 = "h\<lparr>version := 3\<rparr>"
  let ?h2 = "?h1\<lparr>hmode := (if has_flag mode PRINT then hmode h OR PRINT else hmode h)\<rparr>"
  let ?h3 = "?h2\<lparr>subname := (case name of None \<Rightarrow> subname h | Some n \<Rightarrow> Some n)\<rparr>"
  let ?h4 = "?h3\<lparr>hinfo := (hinfo h)\<lparr>me_mapsize := me_mapsize info\<rparr>\<rparr>"
  let ?h5 = "?h4\<lparr>hinfo := (hinfo ?h4)\<lparr>me_mapaddr := (if me_mapaddr info \<noteq> 0 then me_mapaddr info else me_mapaddr (hinfo h))\<rparr>\<rparr>"
  let ?h6 = "?h5\<lparr>hinfo := (hinfo ?h5)\<lparr>me_maxreaders := me_maxreaders info\<rparr>\<rparr>"
  let ?h7 = "?h6\<lparr>hflags := hflags h OR (flags AND 0x7e)\<rparr>"
  have "hrun [str ''VERSION=3''] h ?h1" using reads_version by simp
  moreover have "hrun [if has_flag mode PRINT then str ''format=print'' else str ''format=bytevalue''] ?h1 ?h2"
    using reads_print [of ?h1] reads_bytevalue [of ?h1] by simp
  moreover have "hrun (case name of None \<Rightarrow> [] | Some n \<Rightarrow> [str ''database='' @ n]) ?h2 ?h3"
    using assms reads_database [of _ ?h2] by (cases name) auto
  moreover have "hrun [str ''type=btree''] ?h3 ?h3" using reads_type by simp
  moreover have "hrun [str ''mapsize='' @ dec (unat (me_mapsize info))] ?h3 ?h4" using reads_mapsize [of _ ?h3] by simp
  moreover have "hrun (if me_mapaddr info \<noteq> 0 then [str ''mapaddr=0x'' @ hexnum (unat (me_mapaddr info))] else []) ?h4 ?h5"
    using reads_mapaddr [of "me_mapaddr info" ?h4] by simp
  moreover have "hrun [str ''maxreaders='' @ dec (unat (me_maxreaders info))] ?h5 ?h6"
    using reads_maxreaders [of _ ?h5] by simp
  moreover have "hrun (if has_flag flags MDB_DUPSORT then [str ''duplicates=1''] else []) ?h6 ?h6"
    using reads_duplicates by simp
  moreover have "hrun (flag_lines flags dbflags) ?h6 ?h7"
    using hrun_flags [of dbflags flags ?h6] by (simp add: fold_dbflags)
  moreover have "hrun [str ''db_pagesize='' @ dec (unat psize)] ?h7 ?h7" using reads_pagesize by simp
  moreover have "?h7 = loaded_hdr mode name info flags h" by (simp add: loaded_hdr_def)
  ultimately show ?thesis unfolding hdr_lines_def hrun_append by metis
qed

lemma readhdr_roundtrip_aux:
  assumes "\<And>n. name = Some n \<Longrightarrow> plain n \<and> length n \<le> 4000" and "length buf = 4096"
    and "r_in s = dump_header mode name info flags psize @ rest"
  shows "\<exists>s'. readhdr buf s h = Inr (Some (s', loaded_hdr mode name info flags (h\<lparr>hflags := 0\<rparr>))) \<and>
    r_in s' = rest \<and> Eof s' = Eof s"
proof -
  have r: "hrun (hdr_lines mode name info flags psize) (h\<lparr>hflags := 0\<rparr>) (loaded_hdr mode name info flags (h\<lparr>hflags := 0\<rparr>))"
    using assms(1) by (intro hrun_hdr_lines) blast
  have "\<forall>l\<in>set (hdr_lines mode name info flags psize). NL \<notin> set l \<and> length l + 2 \<le> 4096"
    using hdr_lines_short [OF assms(1)] by blast
  moreover have "r_in s = text_lines (hdr_lines mode name info flags psize) @ str ''HEADER=END'' @ NL # rest"
    using assms(3) by (simp add: dump_header_lines)
  ultimately show ?thesis
    using header_loop_run [OF r _ assms(2)] by (simp add: readhdr_def)
qed

text \<open>The header that \<open>mdb_dump\<close> prints is understood by \<open>readhdr\<close> of \<open>mdb_load\<close>: version,
  format, name, map size and address, the number of readers and the six database flags come out as they
  went in, whatever the line buffer held before, and the reader stops right behind the header.\<close>

theorem readhdr_roundtrip:
  assumes "\<And>n. name = Some n \<Longrightarrow> plain n \<and> length n \<le> 4000" and "length buf = 4096"
    and "r_in s = dump_header mode name info flags psize @ rest"
  shows "\<exists>s'. readhdr buf s h = Inr (Some (s', loaded_hdr mode name info flags (h\<lparr>hflags := 0\<rparr>))) \<and>
    r_in s' = rest \<and> Eof s' = Eof s"
  using assms by (rule readhdr_roundtrip_aux)

theorem readhdr_roundtrip_witness:
  "\<exists>s'. readhdr (replicate 4096 0)
      \<lparr>r_in = dump_header PRINT (Some [100, 98]) \<lparr>me_mapaddr = 0, me_mapsize = 1048576, me_maxreaders = 126\<rparr> MDB_DUPSORT 4096,
       lineno = 0, Eof = False\<rparr>
      \<lparr>version = 0, hmode = 0, hflags = 0, subname = None,
       hinfo = \<lparr>me_mapaddr = 0, me_mapsize = 0, me_maxreaders = 0\<rparr>\<rparr> =
    Inr (Some (s', \<lparr>version = 3, hmode = PRINT, hflags = MDB_DUPSORT, subname = Some [100, 98],
       hinfo = \<lparr>me_mapaddr = 0, me_mapsize = 1048576, me_maxreaders = 126\<rparr>\<rparr>))"
proof -
  have p: "has_flag PRINT PRINT" by (simp add: has_flag_def tool_flags)
  have f: "MDB_DUPSORT AND 0x7e = MDB_DUPSORT" by (simp add: tool_flags)
  have "plain [100, 98]" by (simp add: plain_def)
  with readhdr_roundtrip [of "Some [100, 98]" "replicate 4096 0"
      "\<lparr>r_in = dump_header PRINT (Some [100, 98]) \<lparr>me_mapaddr = 0, me_mapsize = 1048576, me_maxreaders = 126\<rparr> MDB_DUPSORT 4096,
       lineno = 0, Eof = False\<rparr>" PRINT "\<lparr>me_mapaddr = 0, me_mapsize = 1048576, me_maxreaders = 126\<rparr>" MDB_DUPSORT 4096 "[]"
      "\<lparr>version = 0, hmode = 0, hflags = 0, subname = None, hinfo = \<lparr>me_mapaddr = 0, me_mapsize = 0, me_maxreaders = 0\<rparr>\<rparr>"]
  show ?thesis by (auto simp: loaded_hdr_def p f)
qed

subsection \<open>The two programs together\<close>

text \<open>One round of the loader after its header: the database is opened and the records are put, as far as the calls succeed.\<close>

lemma load_db_run:
  assumes hd: "(if \<not> first \<and> \<not> has_flag (hmode h) NOHDR then readhdr (dbuf dsz) s (h\<lparr>hflags := 0\<rparr>) else Inr (Some (s, h\<lparr>hflags := 0\<rparr>))) = Inr (Some (s1, h1))"
    and na: "\<not> l_append cfg"
    and recs: "\<And>e os. \<exists>r k d s' e' n. load_records fuel (recorded ops) cfg (hmode h1) (hflags h1) ksz dsz [] 0 s1 (e, ps, os) = Inr (r, k, d, s', e', ps @ take n es, os) \<and>
      (if r = L_Break then n = length es \<and> Q d s' else failed ops r)"
  shows "\<exists>r k d s' e' n m. load_db fuel (recorded ops) cfg dbuf first ksz dsz s h (e, ps, os) =
      Inr (Some (r, k, d, s', h1, e', ps @ take n es, os @ take m [(subname h1, hflags h1 OR MDB_CREATE)])) \<and>
      (if r = L_Break then n = length es \<and> m = 1 \<and> Q d s' else failed ops r)"
proof -
  let ?P = "\<lambda>x. \<exists>r k d s' e' n m. x = Inr (Some (r, k, d, s', h1, e', ps @ take n es, os @ take m [(subname h1, hflags h1 OR MDB_CREATE)])) \<and>
      (if r = L_Break then n = length es \<and> m = 1 \<and> Q d s' else failed ops r)"
  let ?os = "os @ [(subname h1, hflags h1 OR MDB_CREATE)]"
  have stop: "?P (Inr (Some (r, k, d, s', h1, e', ps, os)))" "?P (Inr (Some (r, k, d, s', h1, e', ps @ take n es, ?os)))" if "failed ops r" for r k d s' e' n
    using that failed_not_break [OF that] by (auto intro: exI [of _ 0] exI [of _ 1])
  obtain r1 e1 where c1: "lo_begin ops e = (r1, e1)" by (cases "lo_begin ops e")
  obtain r2 e2 where c2: "lo_open ops (subname h1) (hflags h1 OR MDB_CREATE) e1 = (r2, e2)" by (cases "lo_open ops (subname h1) (hflags h1 OR MDB_CREATE) e1")
  obtain r3 e3 where c3: "lo_cursor ops e2 = (r3, e3)" by (cases "lo_cursor ops e2")
  obtain r k d s' e4 n where c4: "load_records fuel (recorded ops) cfg (hmode h1) (hflags h1) ksz dsz [] 0 s1 (e3, ps, ?os) = Inr (r, k, d, s', e4, ps @ take n es, ?os)"
    "if r = L_Break then n = length es \<and> Q d s' else failed ops r" using recs [of e3 ?os] by blast
  obtain r5 e5 where c5: "lo_commit ops e4 = (r5, e5)" by (cases "lo_commit ops e4")
  note f = failedI [OF answersI(1) [OF c1]] failedI [OF answersI(4) [OF c2]] failedI [OF answersI(2) [OF c3]] failedI [OF answersI(3) [OF c5]]
  have run: "load_db fuel (recorded ops) cfg dbuf first ksz dsz s h (e, ps, os) =
      (if r1 \<noteq> 0 then Inr (Some (L_Close r1, ksz, dsz, s1, h1, e1, ps, os))
       else if r2 \<noteq> 0 then Inr (Some (L_Abort r2, ksz, dsz, s1, h1, e2, ps, os))
       else if r3 \<noteq> 0 then Inr (Some (L_Abort r3, ksz, dsz, s1, h1, e3, ps, ?os))
       else if r \<noteq> L_Break then Inr (Some (r, k, d, s', h1, e4, ps @ take n es, ?os))
       else if r5 \<noteq> 0 then Inr (Some (L_Close r5, k, d, s', h1, e5, ps @ take n es, ?os))
       else Inr (Some (L_Break, k, d, s', h1, lo_close ops e5, ps @ take n es, ?os)))"
    unfolding load_db_def Let_def using hd na c4(1) by (simp add: recorded_def plain_call_def c1 c2 c3 c5)
  have ps: "ps = ps @ take 0 es" by simp
  show ?thesis
  proof (cases "r1 = 0 \<and> r2 = 0 \<and> r3 = 0 \<and> r = L_Break \<and> r5 = 0")
    case True
    then show ?thesis unfolding run using c4(2)
      by (intro exI [of _ L_Break] exI [of _ k] exI [of _ d] exI [of _ s'] exI [of _ "lo_close ops e5"] exI [of _ n] exI [of _ 1]) simp
  next
    case False
    then consider "r1 \<noteq> 0" | "r1 = 0" "r2 \<noteq> 0" | "r1 = 0" "r2 = 0" "r3 \<noteq> 0" | "r1 = 0" "r2 = 0" "r3 = 0" "r \<noteq> L_Break" | "r1 = 0" "r2 = 0" "r3 = 0" "r = L_Break" "r5 \<noteq> 0" by blast
    then show ?thesis
    proof cases
      case 3
      show ?thesis unfolding run using 3 stop(2) [OF f(5) [OF 3(3)], of ksz dsz s1 e3 0] by simp
    next
      case 4
      then have "failed ops r" using c4(2) by simp
      then show ?thesis unfolding run using 4 stop(2) [of r k d s' e4 n] by simp
    next
      case 5
      show ?thesis unfolding run using 5 stop(2) [OF f(8) [OF 5(5)], of k d s' e5 n] by simp
    qed (unfold run, use stop(1) f in simp_all)
  qed
qed

text \<open>The last round, at the end of the input, finds no header and no records.\<close>

lemma load_records_eof:
  assumes "\<not> has_flag mode NOHDR" and "r_in s = []"
  shows "load_records (Suc fuel) ops cfg mode flags ksz dsz prevk batch s e = Inr (L_Break, ksz, dsz, s\<lparr>Eof := True\<rparr>, e)"
  using assms by (simp add: readline_def)

lemma readhdr_eof: "r_in s = [] \<Longrightarrow> c_int (length buf) \<noteq> 1 \<Longrightarrow> readhdr buf s h = Inr (Some (s, h\<lparr>hflags := 0\<rparr>))"
  by (simp add: readhdr_def header_loop.simps [of buf] fgets_def)

lemma load_dbs_run:
  assumes s: "\<not> Eof s" "r_in s = print_recs (hmode h) es @ data_end @ []" and h: "\<not> has_flag (hmode h) NOHDR" and sh: "short_lines (hmode h) es"
    and k: "9 \<le> ksz" "ksz < 2 ^ 31" and buf: "\<And>n. length (dbuf n) = n" and cfg: "\<not> l_append cfg" "l_putflags cfg = 0"
  shows "\<exists>rc e' n m. load_dbs (length es + 3 + f) (recorded ops) cfg dbuf True ksz 4096 s h (e, ps, os) =
      Inr (Some (rc, e', ps @ take n es, os @ take m [(subname h, MDB_CREATE), (subname h, MDB_CREATE)])) \<and>
      (if rc = 0 then n = length es \<and> m = 2 else answers ops rc)"
proof -
  let ?h = "h\<lparr>hflags := 0\<rparr>" and ?fuel = "length es + 2 + f" and ?db = "(subname h, MDB_CREATE)"
  have fl: "length es + 3 + f = Suc (Suc (Suc (length es + f)))" "?fuel = Suc (Suc (length es + f))" by simp_all
  have stop: "\<exists>rc e' n m. x = Inr (Some (rc, e', ps @ take n es, os @ take m [?db, ?db])) \<and> (if rc = 0 then n = length es \<and> m = 2 else answers ops rc)"
    if "failed ops r" "\<And>rc. r = L_Abort rc \<or> r = L_Close rc \<Longrightarrow> x = Inr (Some (rc, e', ps @ take n es, os @ take m [?db, ?db]))" for x r e' n m
    using that unfolding failed_def by metis
  have "\<exists>r k d s' e' n. load_records ?fuel (recorded ops) cfg (hmode ?h) (hflags ?h) ksz 4096 [] 0 s (e, ps, os) = Inr (r, k, d, s', e', ps @ take n es, os) \<and>
      (if r = L_Break then n = length es \<and> (4096 \<le> d \<and> d < 2 ^ 31 \<and> r_in s' = [] \<and> Eof s' = Eof s) else failed ops r)" for e os
    by (rule load_records_run [OF cfg]) (use h sh k s(2) in simp_all)
  then obtain r k1 d1 s1 e1 n m where a: "load_db ?fuel (recorded ops) cfg dbuf True ksz 4096 s h (e, ps, os) =
      Inr (Some (r, k1, d1, s1, ?h, e1, ps @ take n es, os @ take m [?db]))" "if r = L_Break then n = length es \<and> m = 1 \<and> (4096 \<le> d1 \<and> d1 < 2 ^ 31 \<and> r_in s1 = [] \<and> Eof s1 = Eof s) else failed ops r"
    using load_db_run [of True h dbuf 4096 s s ?h cfg ?fuel ops ksz ps es "\<lambda>d s'. 4096 \<le> d \<and> d < 2 ^ 31 \<and> r_in s' = [] \<and> Eof s' = Eof s" e os] cfg(1) by auto
  have run1: "load_dbs (length es + 3 + f) (recorded ops) cfg dbuf True ksz 4096 s h (e, ps, os) =
      (case r of L_Break \<Rightarrow> load_dbs ?fuel (recorded ops) cfg dbuf False k1 d1 s1 ?h (e1, ps @ take n es, os @ take m [?db])
       | L_Abort rc \<Rightarrow> Inr (Some (rc, e1, ps @ take n es, os @ take m [?db])) | L_Close rc \<Rightarrow> Inr (Some (rc, e1, ps @ take n es, os @ take m [?db])))"
    using s(1) a(1) by (simp add: fl(1)) (simp add: fl(2) split: load_end.split)
  show ?thesis
  proof (cases "r = L_Break")
    case False
    then have "failed ops r" using a(2) by simp
    then show ?thesis by (rule stop [of _ _ e1 n "min m 1"]) (auto simp: run1 take_Cons' min_def)
  next
    case True
    then have b: "n = length es" "m = 1" "4096 \<le> d1" "d1 < 2 ^ 31" "r_in s1 = []" "\<not> Eof s1" using a(2) s(1) by auto
    have c: "c_int (length (dbuf d1)) \<noteq> 1" using c_int_small [OF b(4)] b(3) by (simp add: buf)
    have hd: "(if \<not> False \<and> \<not> has_flag (hmode ?h) NOHDR then readhdr (dbuf d1) s1 (?h\<lparr>hflags := 0\<rparr>) else Inr (Some (s1, ?h\<lparr>hflags := 0\<rparr>))) = Inr (Some (s1, ?h))"
      using readhdr_eof [OF b(5) c] h by simp
    have nh: "\<not> has_flag (hmode ?h) NOHDR" using h by simp
    have "\<exists>r k d s' e' n. load_records (Suc (length es + f)) (recorded ops) cfg (hmode ?h) (hflags ?h) k1 d1 [] 0 s1 (e, ps @ es, os) = Inr (r, k, d, s', e', (ps @ es) @ take n [], os) \<and>
        (if r = L_Break then n = length [] \<and> Eof s' else failed ops r)" for e os
      unfolding load_records_eof [OF nh b(5)] by simp
    from load_db_run [where first = False and h = ?h and dbuf = dbuf and dsz = d1 and Q = "\<lambda>d s'. Eof s'", OF hd cfg(1) this, of e1 "os @ [?db]"] obtain r' k2 d2 s2 e2 m2 where
      d: "load_db (Suc (length es + f)) (recorded ops) cfg dbuf False k1 d1 s1 ?h (e1, ps @ es, os @ [?db]) = Inr (Some (r', k2, d2, s2, ?h, e2, ps @ es, os @ ?db # take m2 [?db]))"
        "if r' = L_Break then m2 = 1 \<and> Eof s2 else failed ops r'" by auto
    have run2: "load_dbs (length es + 3 + f) (recorded ops) cfg dbuf True ksz 4096 s h (e, ps, os) =
        (case r' of L_Break \<Rightarrow> load_dbs (Suc (length es + f)) (recorded ops) cfg dbuf False k2 d2 s2 ?h (e2, ps @ es, os @ ?db # take m2 [?db])
         | L_Abort rc \<Rightarrow> Inr (Some (rc, e2, ps @ es, os @ ?db # take m2 [?db])) | L_Close rc \<Rightarrow> Inr (Some (rc, e2, ps @ es, os @ ?db # take m2 [?db])))"
      using run1 True b d(1) by (simp add: fl(2) split: load_end.split)
    show ?thesis
    proof (cases "r' = L_Break")
      case True
      then show ?thesis using d(2) run2 by (intro exI [of _ 0] exI [of _ e2] exI [of _ "length es"] exI [of _ 2]) simp
    next
      case False
      then have "failed ops r'" using d(2) by simp
      then show ?thesis by (rule stop [of _ _ e2 "length es" "Suc m2"]) (auto simp: run2)
    qed
  qed
qed

text \<open>The loader on the output of the dump.\<close>

lemma dump_load_run:
  assumes "\<And>n. name = Some n \<Longrightarrow> plain n \<and> length n \<le> 4000" and "\<And>n. length (dbuf n) = n" and "short_lines mode es" and "length es + 3 \<le> fuel"
    and "4 \<le> maxkey" and "maxkey < 2 ^ 29" and "endrc \<noteq> 0"
  shows "\<exists>rc e' n m. load_main fuel (recorded ops) (\<lambda>i. (0, start i, [], [])) maxkey False 0 0 None dbuf
        (snd (dumpit mode (0, flags) (0, psize) (0, info) 0 endrc None es name)) =
      Inr (Some (rc, e', take n es, take m [(name, MDB_CREATE), (name, MDB_CREATE)])) \<and>
      (if rc = 0 then n = length es \<and> m = 2 else answers ops rc)"
proof -
  let ?s = "\<lparr>r_in = snd (dumpit mode (0, flags) (0, psize) (0, info) 0 endrc None es name), lineno = 0, Eof = False\<rparr>"
  let ?h = "\<lparr>version = 0, hmode = 0, hflags = 0, subname = None,
               hinfo = \<lparr>me_mapaddr = 0, me_mapsize = 0, me_maxreaders = 0\<rparr>\<rparr>"
  let ?h1 = "loaded_hdr mode name info flags ?h" and ?k = "maxkey * 2 + 2"
  have inp: "r_in ?s = dump_header mode name info flags psize @ (print_recs mode es @ data_end @ [])"
    by (simp add: dumpit_def dump_loop_prints data_end_def)
  obtain s1 where s1: "readhdr (dbuf 4096) ?s ?h = Inr (Some (s1, ?h1))" "r_in s1 = print_recs mode es @ data_end @ []"
      "\<not> Eof s1"
    using readhdr_roundtrip_aux [OF assms(1,2) inp, of ?h] by auto
  have nh: "\<not> has_flag 0 NOHDR" "\<not> has_flag (hmode ?h1) NOHDR" by (simp_all add: loaded_hdr_def has_flag_def tool_flags)
  have p: "print_val (hmode ?h1) = print_val mode" by (simp add: fun_eq_iff print_val_def loaded_hdr_def has_flag_def tool_flags)
  have h1: "hinfo ?h1 = info" "subname ?h1 = name" by (cases name; simp add: loaded_hdr_def)+
  have s2: "r_in s1 = print_recs (hmode ?h1) es @ data_end @ []" "short_lines (hmode ?h1) es" using s1(2) assms(3) by (simp_all add: print_recs_def short_lines_def p)
  have k: "9 \<le> ?k" "?k < 2 ^ 31" using assms(5,6) by simp_all
  obtain f where f: "fuel = length es + 3 + f" using assms(4) le_Suc_ex by blast
  have "load_main fuel (recorded ops) (\<lambda>i. (0, start i, [], [])) maxkey False 0 0 None dbuf (r_in ?s) =
      load_dbs fuel (recorded ops) \<lparr>l_append = False, l_putflags = 0, l_k0 = ?k\<rparr> dbuf True ?k 4096 s1 ?h1 (start info, [], [])"
    using s1(1) nh(1) h1(1) by (simp add: load_main_def Let_def)
  then show ?thesis using load_dbs_run [OF s1(3) s2(1) nh(2) s2(2) k assms(2), where f = f and ops = ops and e = "start info" and ps = "[]" and os = "[]"
      and cfg = "\<lparr>l_append = False, l_putflags = 0, l_k0 = ?k\<rparr>"] by (simp add: f h1(2))
qed

text \<open>A library in which every call succeeds.\<close>

definition ready_ops :: "unit ldops" where
  "ready_ops = \<lparr>lo_begin = Pair 0, lo_open = (\<lambda>n f. Pair 0), lo_compare = id, lo_dupsort = id,
     lo_cursor = Pair 0, lo_put = (\<lambda>k d f. Pair 0), lo_commit = Pair 0, lo_last = id, lo_close = id\<rparr>"

lemma ready_answers: "answers ready_ops rc \<longleftrightarrow> rc = 0"
  by (auto simp: answers_def ready_ops_def)

text \<open>The condition of the dump loop stores the result of the comparison, so that every error of the
  cursor, and not only the end of the data, is reported as success.\<close>

lemma dump_hides_errors:
  assumes "endrc \<noteq> 0"
  shows "fst (dumpit mode (0, flags) (0, psize) (0, info) 0 endrc None es name) = 0"
  using assms by (simp add: dumpit_def dump_loop_prints MDB_NOTFOUND_def)

end
