(* ===== verification/Mdb_Dump_Tree.thy ===== *)
theory Mdb_Dump_Tree
  imports Mdb_Read Mdb_Dump_Load
begin

text \<open>
  The dump of a tree and its load: the walk of a cursor over the pages, the text that \<open>mdb_dump\<close> prints and the
  records that \<open>mdb_load\<close> stores, put together.
\<close>



end
