(* ===== verification/Mdb_Split.thy ===== *)
theory Mdb_Split
  imports Mdb_Page_Correct
begin

text \<open>
  Splitting a page (\<open>mdb_page_split\<close> of \<open>lib/lmdb/mdb.c\<close>): the temporary copy with the pointers of the page and a gap for
  the new node, the choice of the split point, the separator, and the loop that moves the nodes from the split point on to
  the new right page and the others to the copy, which then becomes the left page. The pages are leaf or branch pages without
  \<open>P_LEAF2\<close>, and \<open>MDB_APPEND\<close> is not given. \<open>i\<close>, \<open>j\<close>, \<open>nkeys\<close> and the sizes are natural numbers: all are below
  \<open>2 ^ 17\<close> and fit \<open>int\<close>.
\<close>

subsection \<open>The temporary copy\<close>

text \<open>\<open>for (i=0, j=0; i<nkeys; i++)\<close> over the pointers; \<open>n\<close> rounds are left.\<close>

fun split_ptrs :: "nat \<Rightarrow> nat \<Rightarrow> nat \<Rightarrow> nat \<Rightarrow> u16 list \<Rightarrow> u16 list \<Rightarrow> u16 list res" where
  "split_ptrs 0 i j newindx ps cs = Inr cs"
| "split_ptrs (Suc n) i j newindx ps cs =
     bindE (if i = newindx then bindE (aset cs j 0) (\<lambda>cs'. Inr (cs', Suc j)) else Inr (cs, j)) (\<lambda>(cs1, j1).
     bindE (aget ps i) (\<lambda>w.
     bindE (aset cs1 j1 w) (split_ptrs n (Suc i) (Suc j1) newindx ps)))"

definition split_copy :: "nat \<Rightarrow> nat \<Rightarrow> MDB_page \<Rightarrow> MDB_page \<Rightarrow> MDB_page res" where
  "split_copy psize newindx mp copy =
     bindE (split_ptrs (NUMKEYS mp) 0 0 newindx (mp_ptrs mp) (mp_ptrs copy)) (\<lambda>cs.
     Inr (copy\<lparr>mp_pgno := mp_pgno mp, mp_flags := mp_flags mp, mp_lower := of_nat PAGEHDRSZ, mp_upper := of_nat psize, mp_ptrs := cs\<rparr>))"

text \<open>\<open>(char *)mp + copy->mp_ptrs[i]\<close> and the header found there. The nodes that are written to the copy grow towards its
  pointers: one that they have reached can no longer be read.\<close>

definition copy_ptr :: "MDB_page \<Rightarrow> nat \<Rightarrow> nat res" where
  "copy_ptr copy i = (if PAGEHDRSZ + 2 * i + 2 \<le> unat (mp_upper copy) then NODEPTR copy i else Inl Out_of_bounds)"

definition copy_node :: "MDB_page \<Rightarrow> MDB_page \<Rightarrow> nat \<Rightarrow> (nat \<times> MDB_node) res" where
  "copy_node mp copy i = bindE (copy_ptr copy i) (\<lambda>d. bindE (mem_get d NODESIZE (mp_bytes mp)) (\<lambda>h. Inr (d, dec_node h)))"

subsection \<open>The split point\<close>

text \<open>The loop \<open>for (; i!=k; i+=j)\<close>; the list holds the values that \<open>i\<close> takes, so that \<open>i == k-j\<close> at its last one.\<close>

fun split_scan :: "MDB_page \<Rightarrow> MDB_page \<Rightarrow> nat \<Rightarrow> nat \<Rightarrow> nat \<Rightarrow> nat \<Rightarrow> nat list \<Rightarrow> nat option res" where
  "split_scan mp copy newindx nsize pmax psize [] = Inr None"
| "split_scan mp copy newindx nsize pmax psize (i # is) =
     bindE (if i = newindx then Inr (psize + nsize)
            else bindE (copy_node mp copy i) (\<lambda>(d, h).
              Inr (EVEN (psize + (NODESIZE + unat (mn_ksize h) + 2) +
                (if IS_LEAF mp then if F_ISSET (ucast (mn_flags h)) F_BIGDATA then 8 else unat (NODEDSZ h) else 0))))) (\<lambda>psize'.
     if pmax < psize' \<or> is = [] then Inr (Some i) else split_scan mp copy newindx nsize pmax psize' is)"

definition split_nsize :: "nat \<Rightarrow> bool \<Rightarrow> nat \<Rightarrow> nat \<Rightarrow> nat" where
  "split_nsize nodemax leaf klen dlen = EVEN (if leaf then mdb_leaf_size nodemax klen dlen else mdb_branch_size (Some klen))"

text \<open>\<open>split_checked\<close> is the condition under which the split point is looked for at all.\<close>

definition split_checked :: "nat \<Rightarrow> nat \<Rightarrow> nat \<Rightarrow> nat \<Rightarrow> bool" where
  "split_checked psize nkeys nsize newindx \<longleftrightarrow> nkeys < psize div 128 \<or> (psize - PAGEHDRSZ) div 16 < nsize \<or> nkeys \<le> newindx"

definition split_point :: "nat \<Rightarrow> nat \<Rightarrow> nat \<Rightarrow> MDB_page \<Rightarrow> MDB_page \<Rightarrow> nat res" where
  "split_point psize newindx nsize mp copy =
     (let nkeys = NUMKEYS mp; split_indx = (nkeys + 1) div 2; pmax = psize - PAGEHDRSZ in
      if split_checked psize nkeys nsize newindx then
        if newindx \<le> split_indx \<or> nkeys \<le> newindx then
          bindE (split_scan mp copy newindx nsize pmax 0
                   [0..<(if nkeys \<le> newindx then nkeys else split_indx + 1 + (if IS_LEAF mp then 1 else 0))])
            (\<lambda>r. Inr (case r of None \<Rightarrow> split_indx | Some i \<Rightarrow> i))
        else
          bindE (split_scan mp copy newindx nsize pmax 0 (rev [split_indx..<nkeys + 1]))
            (\<lambda>r. Inr (case r of None \<Rightarrow> split_indx | Some i \<Rightarrow> i + 1))
      else Inr split_indx)"

text \<open>The separator key.\<close>

definition split_sep :: "nat \<Rightarrow> nat \<Rightarrow> u8 list \<Rightarrow> MDB_page \<Rightarrow> MDB_page \<Rightarrow> u8 list res" where
  "split_sep split_indx newindx newkey mp copy =
     (if split_indx = newindx then Inr newkey
      else bindE (copy_node mp copy split_indx) (\<lambda>(d, h). mem_get (d + NODESIZE) (unat (mn_ksize h)) (mp_bytes mp)))"

subsection \<open>Moving the nodes\<close>

text \<open>The node for index \<open>i\<close>: its key, data, page number and flags. The value of a node with \<open>F_BIGDATA\<close> is \<open>NODEDSZ\<close> bytes
  long, of which the page holds the page number in the first eight; the others are not there and are not read, and stand as
  zeros.\<close>

type_synonym split_item = "u8 list \<times> u8 list option \<times> size_t \<times> u32"

definition split_data :: "MDB_page \<Rightarrow> nat \<Rightarrow> MDB_node \<Rightarrow> u8 list res" where
  "split_data mp d h =
     (let dd = d + NODESIZE + unat (mn_ksize h) in
      if F_ISSET (ucast (mn_flags h)) F_BIGDATA then bindE (mem_get dd 8 (mp_bytes mp)) (\<lambda>x. Inr (x @ replicate (unat (NODEDSZ h) - 8) 0))
      else mem_get dd (unat (NODEDSZ h)) (mp_bytes mp))"

definition split_pick :: "nat \<Rightarrow> split_item \<Rightarrow> MDB_page \<Rightarrow> MDB_page \<Rightarrow> nat \<Rightarrow> split_item res" where
  "split_pick newindx new mp copy i =
     (if i = newindx then Inr new
      else
        bindE (copy_node mp copy i) (\<lambda>(d, h).
        bindE (mem_get (d + NODESIZE) (unat (mn_ksize h)) (mp_bytes mp)) (\<lambda>k.
        if IS_LEAF mp then bindE (split_data mp d h) (\<lambda>v. Inr (k, Some v, 0, ucast (mn_flags h)))
        else Inr (k, None, NODEPGNO h, ucast (mn_flags h)))))"

text \<open>The state of the loop: the right page, the copy, which of them \<open>mc_pg[mc_top]\<close> is, the index of the new node, the
  flags of the transaction, and the data that went to overflow pages.\<close>

record split_state =
  sp_rp :: MDB_page
  sp_copy :: MDB_page
  sp_right :: bool
  sp_ki :: nat
  sp_flags :: u32
  sp_big :: "(size_t \<times> u8 list) option"

definition sp_page :: "split_state \<Rightarrow> MDB_page" where
  "sp_page s = (if sp_right s then sp_rp s else sp_copy s)"

definition sp_put :: "MDB_page \<Rightarrow> split_state \<Rightarrow> split_state" where
  "sp_put p s = (if sp_right s then s\<lparr>sp_rp := p\<rparr> else s\<lparr>sp_copy := p\<rparr>)"

definition sp_note :: "nat \<Rightarrow> nat \<Rightarrow> nat \<Rightarrow> split_state \<Rightarrow> split_state" where
  "sp_note newindx i j s = (if i = newindx then s\<lparr>sp_ki := j\<rparr> else s)"

text \<open>One round of the loop, up to the call of \<open>mdb_node_add\<close>; \<open>newpg\<close> is the call of \<open>mdb_page_new\<close> for overflow pages.\<close>

definition split_round :: "nat \<Rightarrow> nat \<Rightarrow> (nat \<Rightarrow> int \<times> size_t) \<Rightarrow> nat \<Rightarrow> split_item \<Rightarrow> MDB_page \<Rightarrow> nat \<Rightarrow> nat \<Rightarrow>
    split_state \<Rightarrow> (int \<times> split_state) res" where
  "split_round nodemax psize newpg newindx new mp i j s =
     bindE (split_pick newindx new mp (sp_copy s) i) (\<lambda>(k, data, pgno, flags).
     bindE (mdb_node_add nodemax psize 0 newpg j (Some (if \<not> IS_LEAF mp \<and> j = 0 then [] else k)) data pgno flags (sp_page s) (sp_flags s))
       (\<lambda>(rc, p, tf, big). Inr (rc, sp_put p (sp_note newindx i j s)
          \<lparr>sp_flags := tf, sp_big := (if i = newindx then big else sp_big s)\<rparr>)))"

fun split_move :: "nat \<Rightarrow> nat \<Rightarrow> nat \<Rightarrow> (nat \<Rightarrow> int \<times> size_t) \<Rightarrow> nat \<Rightarrow> nat \<Rightarrow> nat \<Rightarrow> split_item \<Rightarrow> MDB_page \<Rightarrow> nat \<Rightarrow> nat \<Rightarrow>
    split_state \<Rightarrow> (int \<times> split_state) res" where
  "split_move 0 nodemax psize newpg nkeys split_indx newindx new mp i j s = Inl Diverges"
| "split_move (Suc fuel) nodemax psize newpg nkeys split_indx newindx new mp i j s =
     bindE (split_round nodemax psize newpg newindx new mp i j s) (\<lambda>(rc, s').
     if rc \<noteq> 0 then Inr (rc, s')
     else if i = nkeys then
       (if 0 = split_indx then Inr (0, s'\<lparr>sp_right := False\<rparr>)
        else split_move fuel nodemax psize newpg nkeys split_indx newindx new mp 0 0 (s'\<lparr>sp_right := False\<rparr>))
     else if i + 1 = split_indx then Inr (0, s')
     else split_move fuel nodemax psize newpg nkeys split_indx newindx new mp (i + 1) (j + 1) s')"

text \<open>The copy becomes the left page.\<close>

fun copy_ptrs :: "nat \<Rightarrow> nat \<Rightarrow> u16 list \<Rightarrow> u16 list \<Rightarrow> u16 list res" where
  "copy_ptrs 0 i cs ps = Inr ps"
| "copy_ptrs (Suc n) i cs ps = bindE (aget cs i) (\<lambda>w. bindE (aset ps i w) (copy_ptrs n (Suc i) cs))"

definition split_back :: "nat \<Rightarrow> MDB_page \<Rightarrow> MDB_page \<Rightarrow> MDB_page res" where
  "split_back psize copy mp =
     bindE (copy_ptrs (NUMKEYS copy) 0 (mp_ptrs copy) (mp_ptrs mp)) (\<lambda>ps.
     if NUMKEYS copy = 0 then Inl Out_of_bounds
     else
       bindE (aget ps (NUMKEYS copy - 1)) (\<lambda>dst.
       bindE (NODEPTR copy (NUMKEYS copy - 1)) (\<lambda>d.
       bindE (mem_get d (psize - unat (mp_upper copy)) (mp_bytes copy)) (\<lambda>xs.
       bindE (mem_put (unat dst) xs (mp_bytes mp)) (\<lambda>bs.
       Inr (mp\<lparr>mp_ptrs := ps, mp_lower := mp_lower copy, mp_upper := mp_upper copy, mp_bytes := bs\<rparr>))))))"

text \<open>From \<open>Move nodes\<close> to the copy back to the left page. The loop adds each of the \<open>nkeys + 1\<close> nodes once, so that this many
  rounds are enough.\<close>

definition split_nodes :: "nat \<Rightarrow> nat \<Rightarrow> (nat \<Rightarrow> int \<times> size_t) \<Rightarrow> nat \<Rightarrow> nat \<Rightarrow> split_item \<Rightarrow> MDB_page \<Rightarrow> MDB_page \<Rightarrow> MDB_page \<Rightarrow> u32 \<Rightarrow>
    (int \<times> MDB_page \<times> split_state) res" where
  "split_nodes nodemax psize newpg split_indx newindx new mp rp copy tf =
     bindE (split_move (NUMKEYS mp + 1) nodemax psize newpg (NUMKEYS mp) split_indx newindx new mp split_indx 0
        \<lparr>sp_rp = rp, sp_copy = copy, sp_right = True, sp_ki = newindx, sp_flags = tf, sp_big = None\<rparr>) (\<lambda>(rc, s).
     if rc \<noteq> 0 then Inr (rc, mp, s)
     else bindE (split_back psize (sp_copy s) mp) (\<lambda>mp'. Inr (0, mp', s)))"

subsection \<open>Adding one node at the end\<close>

lemma node_write_layout:
  assumes "node_write (NUMKEYS p) key data pgno flags pl ns p = Inr p'" and "NUMKEYS p < length (mp_ptrs p)"
  shows "mp_upper p' = mp_upper p - of_nat ns" and "mp_flags p' = mp_flags p" and "mp_pgno p' = mp_pgno p"
    and "mp_ptrs p' = take (NUMKEYS p) (mp_ptrs p) @ mp_upper p' # drop (Suc (NUMKEYS p)) (mp_ptrs p)"
proof -
  have sh: "shift_up (NUMKEYS p) (NUMKEYS p) (mp_ptrs p) = Inr (mp_ptrs p)"
    using shift_up_ok [of "NUMKEYS p" "NUMKEYS p" "mp_ptrs p"] assms(2) by simp
  note r = assms(1) [unfolded node_write_def sh]
  show u: "mp_upper p' = mp_upper p - of_nat ns" and "mp_flags p' = mp_flags p" and "mp_pgno p' = mp_pgno p"
    using r assms(2) by (auto simp: bindE_def assertE_def Let_def split: if_splits sum.splits)
  have "mp_ptrs p' = (mp_ptrs p) [NUMKEYS p := mp_upper p - of_nat ns]"
    using r assms(2) by (auto simp: bindE_def assertE_def Let_def split: if_splits sum.splits)
  then show "mp_ptrs p' = take (NUMKEYS p) (mp_ptrs p) @ mp_upper p' # drop (Suc (NUMKEYS p)) (mp_ptrs p)"
    using assms(2) by (simp add: u upd_conv_take_nth_drop)
qed

definition appended :: "MDB_page \<Rightarrow> MDB_page \<Rightarrow> node \<Rightarrow> nat \<Rightarrow> bool" where
  "appended p p' n sz \<longleftrightarrow> mp_flags p' = mp_flags p \<and> mp_pgno p' = mp_pgno p \<and> page_nodes p' = page_nodes p @ [n] \<and>
     unat (mp_upper p') + sz = unat (mp_upper p) + 2 \<and>
     mp_ptrs p' = take (NUMKEYS p) (mp_ptrs p) @ mp_upper p' # drop (Suc (NUMKEYS p)) (mp_ptrs p)"

text \<open>What can be added to a page: the arguments of \<open>mdb_node_add\<close>, the space it takes, the node it becomes, and the data
  that it sends to overflow pages.\<close>

type_synonym split_spec = "split_item \<times> nat \<times> (node \<Rightarrow> bool) \<times> (size_t \<times> u8 list) option"

definition addable :: "nat \<Rightarrow> nat \<Rightarrow> (nat \<Rightarrow> int \<times> size_t) \<Rightarrow> bool \<Rightarrow> split_spec \<Rightarrow> bool" where
  "addable nodemax psize newpg leaf x \<longleftrightarrow> (case x of ((k, data, pgno, flags), sz, Q, big) \<Rightarrow>
     \<forall>p tf. page_wf psize p \<and> IS_LEAF p = leaf \<and> \<not> IS_LEAF2 p \<longrightarrow>
       (if unat (SIZELEFT p) < sz
        then mdb_node_add nodemax psize 0 newpg (NUMKEYS p) (Some k) data pgno flags p tf = Inr (MDB_PAGE_FULL, p, tf OR MDB_TXN_ERROR, None)
        else (\<exists>p' n. mdb_node_add nodemax psize 0 newpg (NUMKEYS p) (Some k) data pgno flags p tf = Inr (0, p', tf, big) \<and>
          page_wf psize p' \<and> appended p p' n sz \<and> Q n)))"

lemma page_nodes_length: "page_wf psize p \<Longrightarrow> length (page_nodes p) = NUMKEYS p"
  by (simp add: page_nodes_def length_page_offs)

lemma write_appends:
  assumes wf: "page_wf psize p" and pl: "place_ok (IS_LEAF p) flags pl data"
    and ns: "ns = EVEN (8 + length k + payload_len (IS_LEAF p) pl data)" and ro: "\<not> unat (SIZELEFT p) < ns + 2"
  shows "\<exists>p' old. node_write (NUMKEYS p) (Some k) data pgno flags pl ns p = Inr p' \<and> page_wf psize p' \<and>
     payload_len (IS_LEAF p) pl data \<le> length old \<and>
     appended p p' (new_header (IS_LEAF p) (Some k) data pgno flags, k, new_payload (IS_LEAF p) flags pl data old) (ns + 2)"
proof -
  note room = room_for [OF wf ro] and w = page_wfD [OF wf]
  define old where "old = drop (unat (mp_upper p) - ns + 8 + length k) (mp_bytes p)"
  have nsl: "8 + length k + payload_len (IS_LEAF p) pl data \<le> ns" unfolding ns by (rule EVEN_ge)
  obtain p' where p': "node_write (NUMKEYS p) (Some k) data pgno flags pl ns p = Inr p'" "page_wf psize p'" "mp_flags p' = mp_flags p"
    "page_nodes p' = take (NUMKEYS p) (page_nodes p) @ (new_header (IS_LEAF p) (Some k) data pgno flags, k, new_payload (IS_LEAF p) flags pl data old) #
       drop (NUMKEYS p) (page_nodes p)"
    using node_write_inserts [OF wf pl order_refl _ room, of "Some k" pgno] unfolding old_def ns by (auto simp: opt_bytes_def)
  have cap: "NUMKEYS p < length (mp_ptrs p)" using room w(3,4,6) nsl by simp
  note lay = node_write_layout [OF p'(1) cap]
  have "unat (of_nat ns :: u16) = ns" using room w(1,6) by (intro unat_of_nat_small) simp
  then have "unat (mp_upper p') = unat (mp_upper p) - ns"
    unfolding lay(1) using room by (subst unat_sub) (simp_all add: word_le_nat_alt)
  then have "appended p p' (new_header (IS_LEAF p) (Some k) data pgno flags, k, new_payload (IS_LEAF p) flags pl data old) (ns + 2)"
    using p'(4) lay(2-4) room page_nodes_length [OF wf] by (simp add: appended_def)
  moreover have "payload_len (IS_LEAF p) pl data \<le> length old" using nsl room w(2,6) by (simp add: old_def)
  ultimately show ?thesis using p'(1,2) by blast
qed

lemma addableI:
  assumes pl: "place_ok leaf flags' pl data" and ns: "ns = EVEN (8 + length k + payload_len leaf pl data)"
    and call: "\<And>p tf. page_wf psize p \<Longrightarrow> IS_LEAF p = leaf \<Longrightarrow> \<not> IS_LEAF2 p \<Longrightarrow>
      mdb_node_add nodemax psize 0 newpg (NUMKEYS p) (Some k) data pgno flags p tf =
      (if int (unat (SIZELEFT p)) - 2 < int ns then node_full p tf
       else bindE (node_write (NUMKEYS p) (Some k) data pgno flags' pl ns p) (\<lambda>p'. Inr (0, p', tf, big)))"
    and Q: "\<And>old. payload_len leaf pl data \<le> length old \<Longrightarrow> Q (new_header leaf (Some k) data pgno flags', k, new_payload leaf flags' pl data old)"
  shows "addable nodemax psize newpg leaf ((k, data, pgno, flags), ns + 2, Q, big)"
proof -
  have "if unat (SIZELEFT p) < ns + 2
        then mdb_node_add nodemax psize 0 newpg (NUMKEYS p) (Some k) data pgno flags p tf = Inr (MDB_PAGE_FULL, p, tf OR MDB_TXN_ERROR, None)
        else (\<exists>p' n. mdb_node_add nodemax psize 0 newpg (NUMKEYS p) (Some k) data pgno flags p tf = Inr (0, p', tf, big) \<and>
          page_wf psize p' \<and> appended p p' n (ns + 2) \<and> Q n)"
    if h: "page_wf psize p" "IS_LEAF p = leaf" "\<not> IS_LEAF2 p" for p tf
  proof (cases "unat (SIZELEFT p) < ns + 2")
    case True
    then have "int (unat (SIZELEFT p)) - 2 < int ns" by linarith
    then show ?thesis using True call [OF h] by (simp add: node_full_def)
  next
    case False
    obtain p' old where "node_write (NUMKEYS p) (Some k) data pgno flags' pl ns p = Inr p'" "page_wf psize p'"
      "payload_len leaf pl data \<le> length old"
      "appended p p' (new_header leaf (Some k) data pgno flags', k, new_payload leaf flags' pl data old) (ns + 2)"
      using write_appends [OF h(1) _ _ False, of flags' pl data k pgno] pl ns h(2) by auto
    moreover have "\<not> int (unat (SIZELEFT p)) - 2 < int ns" using False by linarith
    ultimately show ?thesis using False call [OF h, of tf] Q [of old] by (simp del: split_paired_Ex) blast
  qed
  then show ?thesis unfolding addable_def prod.case by blast
qed

text \<open>The nodes that are on the page already. \<open>node_ok\<close> is what every node has by how it was added: its key and data have the
  sizes in its header, and data that is not on overflow pages keeps the node below \<open>me_nodemax\<close>.\<close>

definition node_big :: "MDB_node \<Rightarrow> bool" where
  "node_big h \<longleftrightarrow> F_ISSET (ucast (mn_flags h)) F_BIGDATA"

definition node_ok :: "nat \<Rightarrow> bool \<Rightarrow> node \<Rightarrow> bool" where
  "node_ok nodemax leaf n \<longleftrightarrow> (case n of (h, k, pay) \<Rightarrow>
     length k = unat (mn_ksize h) \<and> length pay = payload_size leaf h \<and>
     (leaf \<longrightarrow> (if node_big h then 8 \<le> unat (NODEDSZ h) else 8 + length k + length pay \<le> nodemax)))"

definition node_item :: "bool \<Rightarrow> node \<Rightarrow> split_item" where
  "node_item leaf n = (case n of (h, k, pay) \<Rightarrow>
     (k, if leaf then Some (if node_big h then pay @ replicate (unat (NODEDSZ h) - 8) 0 else pay) else None,
      if leaf then 0 else NODEPGNO h, ucast (mn_flags h)))"

definition node_spec :: "bool \<Rightarrow> node \<Rightarrow> split_spec" where
  "node_spec leaf n = (node_item leaf n, node_len leaf (fst n) + 2, \<lambda>m. m = n, None)"

lemma SETDSZ_NODEDSZ: "SETDSZ (NODEDSZ h) \<lparr>mn_lo = 0, mn_hi = 0, mn_flags = mn_flags h, mn_ksize = mn_ksize h\<rparr> = h"
proof -
  have "ucast (NODEDSZ h AND 0xffff) = mn_lo h" "ucast (drop_bit 16 (NODEDSZ h)) = mn_hi h"
    by (rule bit_word_eqI, auto simp: NODEDSZ_def header_bits dest: bit_imp_le_length)+
  then show ?thesis by (simp add: SETDSZ_def)
qed

lemma SETPGNO_NODEPGNO: "SETPGNO (NODEPGNO h) \<lparr>mn_lo = 0, mn_hi = 0, mn_flags = f, mn_ksize = mn_ksize h\<rparr> = h"
proof -
  have "ucast (NODEPGNO h AND 0xffff) = mn_lo h" "ucast (drop_bit 16 (NODEPGNO h)) = mn_hi h" "ucast (drop_bit 32 (NODEPGNO h)) = mn_flags h"
    by (rule bit_word_eqI, auto simp: NODEPGNO_def header_bits dest: bit_imp_le_length)+
  then show ?thesis by (simp add: SETPGNO_def)
qed

lemma no_RESERVE16: "\<not> F_ISSET (ucast f :: u32) MDB_RESERVE" for f :: u16
proof
  assume "F_ISSET (ucast f :: u32) MDB_RESERVE"
  then have "bit ((ucast f :: u32) AND MDB_RESERVE) 16 = bit MDB_RESERVE 16" by (simp add: F_ISSET_def)
  moreover have "bit MDB_RESERVE 16" by (simp add: MDB_RESERVE_def bit_iff_odd)
  ultimately show False by (simp add: bit_and_iff bit_ucast_iff) (auto dest: bit_imp_le_length)
qed

lemma ucast_u16_u32 [simp]: "ucast (ucast f :: u32) = f" for f :: u16
  by (rule bit_word_eqI) (auto simp: bit_ucast_iff dest: bit_imp_le_length)

lemma node_addable:
  assumes ok: "node_ok nodemax leaf n"
  shows "addable nodemax psize newpg leaf (node_spec leaf n)"
proof -
  obtain h k pay where n: "n = (h, k, pay)" by (cases n)
  note o = ok [unfolded node_ok_def n prod.case]
  have kl: "of_nat (length k) = mn_ksize h" using o by simp
  show ?thesis
  proof (cases leaf)
    case leaf: True
    define v where "v = (if node_big h then pay @ replicate (unat (NODEDSZ h) - 8) 0 else pay)"
    define pl where "pl = (if node_big h then Big_known else In_node)"
    have ps: "length pay = (if node_big h then 8 else unat (NODEDSZ h))" using o leaf by (simp add: payload_size_def node_big_def)
    have lv: "length v = unat (NODEDSZ h)" using o leaf ps by (cases "node_big h") (auto simp: v_def)
    have hdr: "new_header True (Some k) (Some v) 0 (ucast (mn_flags h)) = h"
      using SETDSZ_NODEDSZ [of h] by (simp add: new_header_def lv kl)
    have pl': "payload_len True pl (Some v) = length pay" using ps lv by (simp add: payload_len_def pl_def v_def opt_bytes_def)
    have pay: "new_payload True (ucast (mn_flags h)) pl (Some v) old = pay" for old
      using ps no_RESERVE16 [of "mn_flags h"] by (simp add: new_payload_def pl_def v_def)
    have len: "node_len True h = EVEN (8 + length k + length pay)" using o leaf by (simp add: node_len_def)
    have "addable nodemax psize newpg True ((k, Some v, 0, ucast (mn_flags h)), EVEN (8 + length k + length pay) + 2, (\<lambda>m. m = n), None)"
    proof (rule addableI [where flags' = "ucast (mn_flags h)" and pl = pl])
      show "place_ok True (ucast (mn_flags h)) pl (Some v)"
        using o leaf lv unat_lt_pow [of "NODEDSZ h"] by (auto simp: place_ok_def pl_def node_big_def [symmetric])
    next
      fix p tf
      assume p: "page_wf psize p" "IS_LEAF p = True" "\<not> IS_LEAF2 p"
      show "mdb_node_add nodemax psize 0 newpg (NUMKEYS p) (Some k) (Some v) 0 (ucast (mn_flags h)) p tf =
        (if int (unat (SIZELEFT p)) - 2 < int (EVEN (8 + length k + length pay)) then node_full p tf
         else bindE (node_write (NUMKEYS p) (Some k) (Some v) 0 (ucast (mn_flags h)) pl (EVEN (8 + length k + length pay)) p) (\<lambda>p'. Inr (0, p', tf, None)))"
        using o leaf p SIZELEFT_eq(2) [OF p(1)] ps
        by (auto simp: mdb_node_add_def NODESIZE_def node_update_def pl_def v_def node_big_def [symmetric])
    qed (simp_all add: pl' hdr pay n)
    then show ?thesis using leaf by (simp add: node_spec_def node_item_def n len v_def)
  next
    case False
    then have p0: "pay = []" "node_len False h = EVEN (8 + length k)" using o by (simp_all add: payload_size_def node_len_def)
    have hdr: "new_header False (Some k) None (NODEPGNO h) (ucast (mn_flags h)) = h"
      using SETPGNO_NODEPGNO [of h "mn_flags h"] by (simp add: new_header_def kl)
    have "addable nodemax psize newpg False ((k, None, NODEPGNO h, ucast (mn_flags h)), EVEN (8 + length k) + 2, (\<lambda>m. m = n), None)"
      by (rule addableI [where flags' = "ucast (mn_flags h)" and pl = In_node])
        (simp_all add: place_ok_def payload_len_def hdr new_payload_def n p0 mdb_node_add_def NODESIZE_def node_update_def SIZELEFT_eq(2))
    then show ?thesis using False by (simp add: node_spec_def node_item_def n p0)
  qed
qed

text \<open>A new node: with its data, with its data on overflow pages, or of a branch page.\<close>

lemma inline_addable:
  assumes "\<not> F_ISSET flags F_BIGDATA" and "8 + length k + length v \<le> nodemax" and "nodemax < 2 ^ 32"
  shows "addable nodemax psize newpg True ((k, Some v, pgno, flags), EVEN (8 + length k + length v) + 2,
    (\<lambda>n. \<exists>v'. n = (leaf_header flags (length k) (length v), k, v') \<and> length v' = length v \<and> (F_ISSET flags MDB_RESERVE \<or> v' = v)), None)"
  by (rule addableI [where flags' = flags and pl = In_node])
    (use assms in \<open>auto simp: place_ok_def payload_len_def opt_bytes_def new_header_leaf new_payload_def mdb_node_add_def NODESIZE_def
       node_update_def SIZELEFT_eq(2)\<close>)

lemma big_addable:
  assumes "\<not> F_ISSET flags F_BIGDATA" and "nodemax < 8 + length k + length v" and "newpg (OVPAGES (length v) psize) = (0, g)"
  shows "addable nodemax psize newpg True ((k, Some v, pgno, flags), EVEN (8 + length k + 8) + 2,
    (\<lambda>n. n = (leaf_header (flags OR F_BIGDATA) (length k) (length v), k, le64 g)), if F_ISSET flags MDB_RESERVE then None else Some (g, v))"
  by (rule addableI [where flags' = "flags OR F_BIGDATA" and pl = "Big_new g"])
    (use assms set_BIGDATA [of flags] in \<open>auto simp: place_ok_def payload_len_def new_header_leaf new_payload_def mdb_node_add_def NODESIZE_def
       node_update_def SIZELEFT_eq(2)\<close>)

definition branch_node :: "u8 list \<Rightarrow> size_t \<Rightarrow> node" where
  "branch_node k pgno = (SETPGNO pgno \<lparr>mn_lo = 0, mn_hi = 0, mn_flags = 0, mn_ksize = of_nat (length k)\<rparr>, k, [])"

lemma branch_addable:
  "addable nodemax psize newpg False ((k, None, pgno, flags), EVEN (8 + length k) + 2, (\<lambda>n. n = branch_node k pgno), None)"
  by (rule addableI [where flags' = flags and pl = In_node])
    (auto simp: place_ok_def payload_len_def new_payload_def mdb_node_add_def NODESIZE_def node_update_def SIZELEFT_eq(2)
       new_header_def branch_node_def SETPGNO_def)

text \<open>The first node of a branch page loses its key.\<close>

definition blank :: "node \<Rightarrow> node" where
  "blank n = (case n of (h, k, pay) \<Rightarrow> (h\<lparr>mn_ksize := 0\<rparr>, [], pay))"

definition blank_spec :: "split_spec \<Rightarrow> split_spec" where
  "blank_spec x = (case x of ((k, it), sz, Q, big) \<Rightarrow> (([], it), 10, \<lambda>m. \<exists>n. Q n \<and> m = blank n, big))"

definition first_spec :: "bool \<Rightarrow> nat \<Rightarrow> split_spec \<Rightarrow> split_spec" where
  "first_spec leaf j x = (if \<not> leaf \<and> j = 0 then blank_spec x else x)"

definition spec_ok :: "nat \<Rightarrow> nat \<Rightarrow> (nat \<Rightarrow> int \<times> size_t) \<Rightarrow> bool \<Rightarrow> split_spec \<Rightarrow> bool" where
  "spec_ok nodemax psize newpg leaf x \<longleftrightarrow> (\<forall>j. addable nodemax psize newpg leaf (first_spec leaf j x) \<and> 2 \<le> fst (snd (first_spec leaf j x)))"

lemma blank_spec_size: "fst (snd (blank_spec x)) = 10"
  by (simp add: blank_spec_def split: prod.split)

lemma node_spec_ok:
  assumes "node_ok nodemax leaf n"
  shows "spec_ok nodemax psize newpg leaf (node_spec leaf n)"
proof -
  have "addable nodemax psize newpg leaf (blank_spec (node_spec leaf n))" if nl: "\<not> leaf"
  proof -
    obtain h k pay where n: "n = (h, k, pay)" by (cases n)
    have "node_ok nodemax leaf (blank n)" using assms nl by (simp add: n node_ok_def blank_def payload_size_def)
    moreover have "blank_spec (node_spec leaf n) = node_spec leaf (blank n)"
      using nl by (simp add: n blank_spec_def node_spec_def node_item_def blank_def NODEPGNO_def node_len_def payload_size_def EVEN_def)
    ultimately show ?thesis using node_addable by metis
  qed
  moreover have "2 \<le> fst (snd (node_spec leaf n))" by (simp add: node_spec_def)
  ultimately show ?thesis using node_addable [OF assms] by (simp add: spec_ok_def first_spec_def blank_spec_size)
qed

lemma leaf_spec_ok: "addable nodemax psize newpg True (it, sz + 2, Q, big) \<Longrightarrow> spec_ok nodemax psize newpg True (it, sz + 2, Q, big)"
  by (simp add: spec_ok_def first_spec_def)

lemma branch_spec_ok:
  "spec_ok nodemax psize newpg False ((k, None, pgno, flags), EVEN (8 + length k) + 2, (\<lambda>n. n = branch_node k pgno), None)"
  using branch_addable [of nodemax psize newpg "[]" pgno flags] branch_addable [of nodemax psize newpg k pgno flags]
  by (simp add: spec_ok_def first_spec_def blank_spec_def EVEN_def branch_node_def blank_def SETPGNO_def)

subsection \<open>Reading the nodes through the copy\<close>

definition old_index :: "nat \<Rightarrow> nat \<Rightarrow> nat" where
  "old_index newindx i = (if i < newindx then i else i - 1)"

definition readable :: "nat \<Rightarrow> MDB_page \<Rightarrow> MDB_page \<Rightarrow> nat \<Rightarrow> bool" where
  "readable newindx mp copy lo \<longleftrightarrow> (\<forall>i. lo \<le> i \<and> i \<le> NUMKEYS mp \<and> i \<noteq> newindx \<longrightarrow>
     i < length (mp_ptrs copy) \<and> mp_ptrs copy ! i = mp_ptrs mp ! old_index newindx i)"

lemma split_ptrs_ok:
  assumes "i + n \<le> length ps" and "i + n < length cs" and "j = (if newindx < i then Suc i else i)"
  shows "\<exists>cs'. split_ptrs n i j newindx ps cs = Inr cs' \<and> length cs' = length cs \<and> (\<forall>x<j. cs' ! x = cs ! x) \<and>
     (\<forall>x. j \<le> x \<and> x \<le> i + n \<and> x \<noteq> newindx \<and> (newindx < i + n \<or> x < i + n) \<longrightarrow> cs' ! x = ps ! old_index newindx x)"
  using assms
proof (induction n arbitrary: i j cs)
  case 0
  then show ?case by (auto split: if_splits)
next
  case (Suc n)
  define cs1 where "cs1 = (if i = newindx then cs[j := 0] else cs)"
  define j1 where "j1 = (if i = newindx then Suc j else j)"
  have l1: "length cs1 = length cs" "j1 < length cs" using Suc.prems by (auto simp: cs1_def j1_def)
  have step: "split_ptrs (Suc n) i j newindx ps cs = split_ptrs n (Suc i) (Suc j1) newindx ps (cs1[j1 := ps ! i])"
    using Suc.prems l1 by (auto simp: cs1_def j1_def)
  obtain cs' where cs': "split_ptrs n (Suc i) (Suc j1) newindx ps (cs1[j1 := ps ! i]) = Inr cs'" "length cs' = length cs"
    "\<forall>x<Suc j1. cs' ! x = cs1[j1 := ps ! i] ! x"
    "\<forall>x. Suc j1 \<le> x \<and> x \<le> Suc i + n \<and> x \<noteq> newindx \<and> (newindx < Suc i + n \<or> x < Suc i + n) \<longrightarrow> cs' ! x = ps ! old_index newindx x"
    using Suc.IH [of "Suc i" "cs1[j1 := ps ! i]" "Suc j1"] Suc.prems l1 by (auto simp: j1_def split: if_splits)
  have "cs' ! x = cs ! x" if "x < j" for x
    using cs'(3) that by (auto simp: j1_def cs1_def split: if_splits)
  moreover have "cs' ! x = ps ! old_index newindx x"
    if x: "j \<le> x" "x \<le> i + Suc n" "x \<noteq> newindx" "newindx < i + Suc n \<or> x < i + Suc n" for x
  proof (cases "x \<le> j1")
    case True
    then have "x = j1" using x Suc.prems(3) by (auto simp: j1_def split: if_splits)
    then show ?thesis using cs'(3) l1 x Suc.prems(3) by (auto simp: j1_def old_index_def split: if_splits)
  next
    case False
    then show ?thesis using cs'(4) x by simp
  qed
  ultimately show ?case using step cs'(1,2) by auto
qed

lemma page_wf_slots:
  assumes "page_wf psize p" and "NUMKEYS p \<noteq> 0"
  shows "NUMKEYS p < length (mp_ptrs p)" and "16 + 2 * NUMKEYS p + 2 \<le> psize"
proof -
  have "0 < length (page_offs p)" using assms(2) by (simp add: length_page_offs [OF assms(1)])
  then have "page_offs p ! 0 \<in> set (page_offs p)" by simp
  note d = page_wfD(8) [OF assms(1) this]
  show "16 + 2 * NUMKEYS p + 2 \<le> psize"
    using d ext_ge [of "IS_LEAF p" "mp_bytes p" "page_offs p ! 0"] page_wfD(4,5) [OF assms(1)] by linarith
  then show "NUMKEYS p < length (mp_ptrs p)" using page_wfD(3) [OF assms(1)] by simp
qed

lemma split_copy_ok:
  assumes wf: "page_wf psize mp" and nk: "NUMKEYS mp \<noteq> 0" and x: "newindx \<le> NUMKEYS mp"
    and c: "length (mp_ptrs copy0) = (psize - 16) div 2" "length (mp_bytes copy0) = psize" and ev: "even psize"
  shows "\<exists>copy. split_copy psize newindx mp copy0 = Inr copy \<and> page_wf psize copy \<and> page_nodes copy = [] \<and>
     mp_flags copy = mp_flags mp \<and> mp_pgno copy = mp_pgno mp \<and> unat (mp_upper copy) = psize \<and> readable newindx mp copy 0"
proof -
  note w = page_wfD [OF wf] and sl = page_wf_slots [OF wf nk]
  obtain cs where cs: "split_ptrs (NUMKEYS mp) 0 0 newindx (mp_ptrs mp) (mp_ptrs copy0) = Inr cs" "length cs = length (mp_ptrs copy0)"
    "\<forall>i. i \<le> NUMKEYS mp \<and> i \<noteq> newindx \<and> (newindx < NUMKEYS mp \<or> i < NUMKEYS mp) \<longrightarrow> cs ! i = mp_ptrs mp ! old_index newindx i"
    using split_ptrs_ok [of 0 "NUMKEYS mp" "mp_ptrs mp" "mp_ptrs copy0" 0 newindx] w(3,7) sl c(1) by auto
  define copy where "copy = copy0\<lparr>mp_pgno := mp_pgno mp, mp_flags := mp_flags mp, mp_lower := of_nat PAGEHDRSZ, mp_upper := of_nat psize, mp_ptrs := cs\<rparr>"
  have up: "unat (mp_upper copy) = psize" unfolding copy_def using w(1) by (simp add: unat_of_nat_small)
  have lo: "unat (mp_lower copy) = 16" by (simp add: copy_def PAGEHDRSZ_def)
  have n0: "NUMKEYS copy = 0" using NUMKEYS_eq [of copy] lo by simp
  have "page_wf psize copy" "page_nodes copy = []"
    using up lo n0 w(1) cs(2) c ev sl by (simp_all add: page_wf_def page_nodes_def page_offs_def) (simp_all add: copy_def)
  moreover have "readable newindx mp copy 0"
    using cs(2,3) sl(1) w(3) c(1) x by (auto simp: readable_def copy_def)
  ultimately show ?thesis using cs(1) up by (auto simp: split_copy_def copy_def)
qed

lemma copy_node_ok:
  assumes wf: "page_wf psize mp" and i: "i \<le> NUMKEYS mp" "i \<noteq> newindx" "newindx \<le> NUMKEYS mp" "lo \<le> i"
    and c: "readable newindx mp copy lo" "16 + 2 * i + 2 \<le> unat (mp_upper copy)"
  shows "copy_node mp copy i = node_hdr mp (old_index newindx i)" and "old_index newindx i < NUMKEYS mp"
proof -
  show o: "old_index newindx i < NUMKEYS mp" using i by (auto simp: old_index_def)
  have "NODEPTR copy i = NODEPTR mp (old_index newindx i)"
    using c(1) i o page_wfD(7) [OF wf] by (simp add: NODEPTR_def readable_def)
  then show "copy_node mp copy i = node_hdr mp (old_index newindx i)"
    using c(2) by (simp add: copy_node_def copy_ptr_def node_hdr_def PAGEHDRSZ_def)
qed

lemma page_node_nth:
  assumes wf: "page_wf psize p" and i: "i < NUMKEYS p"
  obtains d h k pay where "page_nodes p ! i = (h, k, pay)" and "node_hdr p i = Inr (d, h)"
    and "mem_get (d + 8) (unat (mn_ksize h)) (mp_bytes p) = Inr k" and "length k = unat (mn_ksize h)"
    and "mem_get (d + 8 + unat (mn_ksize h)) (payload_size (IS_LEAF p) h) (mp_bytes p) = Inr pay" and "length pay = payload_size (IS_LEAF p) h"
proof -
  define d where "d = page_offs p ! i"
  define h where "h = dec_node (slice (mp_bytes p) d 8)"
  note nh = node_hdr_ok [OF assms]
  have ext: "d + ext_at (IS_LEAF p) (mp_bytes p) d \<le> length (mp_bytes p)" using page_wfD(8) [OF wf nh(4)] page_wfD(2) [OF wf] by (simp add: d_def)
  moreover have "8 + unat (mn_ksize h) + payload_size (IS_LEAF p) h \<le> ext_at (IS_LEAF p) (mp_bytes p) d"
    unfolding ext_at_def node_len_def h_def by (rule EVEN_ge)
  ultimately have b: "d + 8 + unat (mn_ksize h) + payload_size (IS_LEAF p) h \<le> length (mp_bytes p)" by simp
  have "page_nodes p ! i = node_at (IS_LEAF p) (mp_bytes p) d" using i length_page_offs [OF wf] by (simp add: page_nodes_def d_def)
  then have n: "page_nodes p ! i = (h, slice (mp_bytes p) (d + 8) (unat (mn_ksize h)), slice (mp_bytes p) (d + 8 + unat (mn_ksize h)) (payload_size (IS_LEAF p) h))"
    by (simp add: node_at_def h_def Let_def)
  have nh1: "node_hdr p i = Inr (d, h)" by (simp add: nh(1) d_def h_def)
  show thesis
    by (rule that [OF n nh1]) (use b in \<open>simp_all add: mem_get_def\<close>)
qed

lemma split_pick_ok:
  assumes wf: "page_wf psize mp" and i: "i \<le> NUMKEYS mp" "newindx \<le> NUMKEYS mp" "lo \<le> i"
    and c: "readable newindx mp copy lo" "16 + 2 * i + 2 \<le> unat (mp_upper copy)"
  shows "split_pick newindx new mp copy i = Inr (if i = newindx then new else node_item (IS_LEAF mp) (page_nodes mp ! old_index newindx i))"
proof (cases "i = newindx")
  case True
  then show ?thesis by (simp add: split_pick_def)
next
  case False
  note cn = copy_node_ok [OF wf i(1) False i(2,3) c]
  obtain d h k pay where n: "page_nodes mp ! old_index newindx i = (h, k, pay)" "node_hdr mp (old_index newindx i) = Inr (d, h)"
    "mem_get (d + 8) (unat (mn_ksize h)) (mp_bytes mp) = Inr k"
    "mem_get (d + 8 + unat (mn_ksize h)) (payload_size (IS_LEAF mp) h) (mp_bytes mp) = Inr pay"
    by (rule page_node_nth [OF wf cn(2)]) blast
  then show ?thesis using False
    by (auto simp: split_pick_def cn(1) NODESIZE_def split_data_def node_item_def node_big_def payload_size_def split: if_splits)
qed

subsection \<open>The loop\<close>

text \<open>The two halves of the loop, each as a pass over the indices it takes.\<close>

fun split_fill :: "nat \<Rightarrow> nat \<Rightarrow> (nat \<Rightarrow> int \<times> size_t) \<Rightarrow> nat \<Rightarrow> split_item \<Rightarrow> MDB_page \<Rightarrow> nat list \<Rightarrow> nat \<Rightarrow>
    split_state \<Rightarrow> (int \<times> split_state) res" where
  "split_fill nodemax psize newpg newindx new mp [] j s = Inr (0, s)"
| "split_fill nodemax psize newpg newindx new mp (i # is) j s =
     bindE (split_round nodemax psize newpg newindx new mp i j s) (\<lambda>(rc, s').
     if rc \<noteq> 0 then Inr (rc, s') else split_fill nodemax psize newpg newindx new mp is (j + 1) s')"

lemma bindE_pair_cong: "(\<And>a b. m = Inr (a, b) \<Longrightarrow> f a b = g a b) \<Longrightarrow> bindE m (\<lambda>(a, b). f a b) = bindE m (\<lambda>(a, b). g a b)"
  by (cases m) auto

lemma split_move_left:
  assumes "n \<noteq> 0" and "i + n = split" and "split \<le> nkeys" and "n \<le> fuel"
  shows "split_move fuel nodemax psize newpg nkeys split newindx new mp i j s = split_fill nodemax psize newpg newindx new mp [i..<split] j s"
  using assms
proof (induction n arbitrary: i j s fuel)
  case (Suc n)
  then obtain f where f: "fuel = Suc f" by (cases fuel) auto
  have l: "[i..<split] = i # [Suc i..<split]" using Suc.prems by (simp add: upt_conv_Cons)
  show ?case
    unfolding f l split_move.simps split_fill.simps
    by (rule bindE_pair_cong) (use Suc.prems Suc.IH [of "Suc i" f "Suc j"] f in \<open>cases n; auto\<close>)
qed simp

lemma split_move_right:
  assumes "i + n = nkeys" and "0 < split" and "split \<le> i" and "Suc n + split \<le> fuel"
  shows "split_move fuel nodemax psize newpg nkeys split newindx new mp i j s =
    bindE (split_fill nodemax psize newpg newindx new mp [i..<nkeys + 1] j s) (\<lambda>(rc, s').
      if rc \<noteq> 0 then Inr (rc, s') else split_fill nodemax psize newpg newindx new mp [0..<split] 0 (s'\<lparr>sp_right := False\<rparr>))"
  using assms
proof (induction n arbitrary: i j s fuel)
  case 0
  then obtain f where f: "fuel = Suc f" "split \<le> f" by (cases fuel) auto
  have l: "[i..<nkeys + 1] = [i]" using 0 by simp
  have "split_move f nodemax psize newpg nkeys split newindx new mp 0 0 s' = split_fill nodemax psize newpg newindx new mp [0..<split] 0 s'" for s'
    using 0 f by (intro split_move_left [of split]) simp_all
  then show ?case
    unfolding f(1) l split_move.simps split_fill.simps using 0
    by (cases "split_round nodemax psize newpg newindx new mp i j s") (auto split: prod.split)
next
  case (Suc n)
  then obtain f where f: "fuel = Suc f" by (cases fuel) auto
  have l: "[i..<nkeys + 1] = i # [Suc i..<nkeys + 1]" using Suc.prems by (simp add: upt_conv_Cons)
  show ?case
    unfolding f l split_move.simps split_fill.simps using Suc.prems Suc.IH [of "Suc i" f "Suc j"] f
    by (cases "split_round nodemax psize newpg newindx new mp i j s") (auto split: prod.split)
qed

text \<open>\<open>phase\<close> is the loop invariant: the page that is being filled is well formed and has \<open>j\<close> nodes, and the pointers from \<open>i\<close>
  on can still be read from the copy.\<close>

definition phase :: "nat \<Rightarrow> nat \<Rightarrow> MDB_page \<Rightarrow> split_state \<Rightarrow> nat \<Rightarrow> nat \<Rightarrow> bool" where
  "phase psize newindx mp s i j \<longleftrightarrow> page_wf psize (sp_page s) \<and> IS_LEAF (sp_page s) = IS_LEAF mp \<and> \<not> IS_LEAF2 (sp_page s) \<and>
     NUMKEYS (sp_page s) = j \<and> readable newindx mp (sp_copy s) i \<and>
     (if sp_right s then unat (mp_upper (sp_copy s)) = psize else i = j)"

definition grown :: "split_state \<Rightarrow> split_state \<Rightarrow> bool" where
  "grown s s' \<longleftrightarrow> sp_right s' = sp_right s \<and> sp_flags s' = sp_flags s \<and> (if sp_right s then sp_copy s' = sp_copy s else sp_rp s' = sp_rp s) \<and>
     mp_flags (sp_page s') = mp_flags (sp_page s) \<and> mp_pgno (sp_page s') = mp_pgno (sp_page s)"

definition item_at :: "nat \<Rightarrow> split_item \<Rightarrow> MDB_page \<Rightarrow> nat \<Rightarrow> split_item" where
  "item_at newindx new mp i = (if i = newindx then new else node_item (IS_LEAF mp) (page_nodes mp ! old_index newindx i))"

lemma phase_pick:
  assumes "page_wf psize mp" and "phase psize newindx mp s i j" and "i \<le> NUMKEYS mp" and "newindx \<le> NUMKEYS mp" and "NUMKEYS mp \<noteq> 0"
    and "sp_right s \<or> 2 \<le> unat (SIZELEFT (sp_page s))"
  shows "split_pick newindx new mp (sp_copy s) i = Inr (item_at newindx new mp i)"
  unfolding item_at_def
proof (rule split_pick_ok [OF assms(1,3,4) order_refl])
  note ph = assms(2) [unfolded phase_def]
  show "readable newindx mp (sp_copy s) i" using ph by simp
  show "16 + 2 * i + 2 \<le> unat (mp_upper (sp_copy s))"
  proof (cases "sp_right s")
    case True
    then show ?thesis using ph page_wf_slots(2) [OF assms(1,5)] assms(3) by simp
  next
    case False
    then have "2 \<le> unat (mp_upper (sp_copy s)) - unat (mp_lower (sp_copy s))"
      using assms(6) ph SIZELEFT_eq(1) [of psize "sp_page s"] by (simp add: sp_page_def)
    moreover have "unat (mp_lower (sp_copy s)) = 16 + 2 * i"
      using False ph page_wfD(4) [of psize "sp_page s"] by (simp add: sp_page_def)
    ultimately show ?thesis by linarith
  qed
qed

lemma sp_put_page:
  "sp_page (sp_put p (sp_note newindx i j s)\<lparr>sp_flags := tf, sp_big := b\<rparr>) = p"
  "sp_right (sp_put p (sp_note newindx i j s)) = sp_right s"
  "sp_copy (sp_put p (sp_note newindx i j s)) = (if sp_right s then sp_copy s else p)"
  "sp_rp (sp_put p (sp_note newindx i j s)) = (if sp_right s then p else sp_rp s)"
  by (simp_all add: sp_page_def sp_put_def sp_note_def)

lemma readable_appended:
  assumes "readable newindx mp p i" and "NUMKEYS p = i" and "i < length (mp_ptrs p)" and "appended p p' n sz"
  shows "readable newindx mp p' (Suc i)"
proof -
  have l: "length (mp_ptrs p') = length (mp_ptrs p)" using assms(2,3,4) by (simp add: appended_def)
  have "mp_ptrs p' ! x = mp_ptrs p ! x" if "Suc i \<le> x" "x < length (mp_ptrs p)" for x
    using that assms(2,4) by (simp add: appended_def nth_append nth_Cons' min_def)
  then show ?thesis using assms(1) l by (simp add: readable_def)
qed

lemma split_round_ok:
  assumes wf: "page_wf psize mp" and ph: "phase psize newindx mp s i j" and i: "i \<le> NUMKEYS mp" "newindx \<le> NUMKEYS mp" "NUMKEYS mp \<noteq> 0"
    and x: "fst x = item_at newindx new mp i" "spec_ok nodemax psize newpg (IS_LEAF mp) x"
    and f: "first_spec (IS_LEAF mp) j x = (it, sz, Q, big)"
  shows "sz \<le> unat (SIZELEFT (sp_page s)) \<Longrightarrow> \<exists>s' n. split_round nodemax psize newpg newindx new mp i j s = Inr (0, s') \<and>
      phase psize newindx mp s' (Suc i) (Suc j) \<and> grown s s' \<and> appended (sp_page s) (sp_page s') n sz \<and> Q n \<and>
      mp_ptrs (sp_page s') ! j = mp_upper (sp_page s') \<and>
      sp_big s' = (if i = newindx then big else sp_big s) \<and> sp_ki s' = (if i = newindx then j else sp_ki s)"
    and "unat (SIZELEFT (sp_page s)) < sz \<Longrightarrow> sp_right s \<Longrightarrow> \<exists>s'. split_round nodemax psize newpg newindx new mp i j s = Inr (MDB_PAGE_FULL, s') \<and>
      sp_flags s' = sp_flags s OR MDB_TXN_ERROR"
proof -
  note p = ph [unfolded phase_def]
  obtain k data pgno flags where xi: "item_at newindx new mp i = (k, data, pgno, flags)" by (cases "item_at newindx new mp i")
  define k' where "k' = (if \<not> IS_LEAF mp \<and> j = 0 then [] else k)"
  have it: "it = (k', data, pgno, flags)"
    using f x(1) xi by (cases x) (auto simp: first_spec_def blank_spec_def k'_def split: if_splits)
  have ad: "addable nodemax psize newpg (IS_LEAF mp) ((k', data, pgno, flags), sz, Q, big)" and sz2: "2 \<le> sz"
    using x(2) f it unfolding spec_ok_def by (metis, metis fst_conv snd_conv)
  note law = ad [unfolded addable_def prod.case, rule_format, of "sp_page s" "sp_flags s"]
  have round: "split_round nodemax psize newpg newindx new mp i j s =
     bindE (mdb_node_add nodemax psize 0 newpg (NUMKEYS (sp_page s)) (Some k') data pgno flags (sp_page s) (sp_flags s))
       (\<lambda>(rc, p, tf, big). Inr (rc, sp_put p (sp_note newindx i j s)\<lparr>sp_flags := tf, sp_big := (if i = newindx then big else sp_big s)\<rparr>))"
    if "sp_right s \<or> 2 \<le> unat (SIZELEFT (sp_page s))"
    using phase_pick [OF wf ph i that, of new] p by (simp add: split_round_def xi k'_def)
  {
    assume r: "sz \<le> unat (SIZELEFT (sp_page s))"
    then have r': "sp_right s \<or> 2 \<le> unat (SIZELEFT (sp_page s))" and nr: "\<not> unat (SIZELEFT (sp_page s)) < sz" using sz2 by auto
    obtain p' n where p': "mdb_node_add nodemax psize 0 newpg (NUMKEYS (sp_page s)) (Some k') data pgno flags (sp_page s) (sp_flags s) = Inr (0, p', sp_flags s, big)"
      "page_wf psize p'" "appended (sp_page s) p' n sz" "Q n" using law nr p by auto
    define s' where "s' = sp_put p' (sp_note newindx i j s)\<lparr>sp_flags := sp_flags s, sp_big := (if i = newindx then big else sp_big s)\<rparr>"
    have s': "split_round nodemax psize newpg newindx new mp i j s = Inr (0, s')" using round [OF r'] p'(1) by (simp add: s'_def)
    have pg: "sp_page s' = p'" unfolding s'_def by (rule sp_put_page)
    have sf: "mp_flags p' = mp_flags (sp_page s)" "mp_pgno p' = mp_pgno (sp_page s)" using p'(3) by (simp_all add: appended_def)
    have nk: "NUMKEYS p' = Suc j" using page_nodes_length [OF p'(2)] page_nodes_length [of psize "sp_page s"] p p'(3) by (simp add: appended_def)
    have jl: "j < length (mp_ptrs (sp_page s))"
      using r sz2 p SIZELEFT_eq(1) [of psize "sp_page s"] page_wfD(3,4,6) [of psize "sp_page s"] by simp
    then have pj: "mp_ptrs p' ! j = mp_upper p'" using p'(3) p by (simp add: appended_def nth_append)
    have "readable newindx mp (sp_copy s') (Suc i)"
      using p jl readable_appended [of newindx mp "sp_page s" i p' n sz] p'(3)
      by (auto simp: s'_def sp_put_page readable_def sp_page_def split: if_splits)
    then have "phase psize newindx mp s' (Suc i) (Suc j)"
      using p p'(2) nk sf unfolding phase_def pg by (simp add: s'_def sp_put_page IS_LEAF_def IS_LEAF2_def split: if_splits)
    moreover have "grown s s'" using sf unfolding grown_def pg by (simp add: s'_def sp_put_page)
    moreover have "sp_big s' = (if i = newindx then big else sp_big s)" "sp_ki s' = (if i = newindx then j else sp_ki s)"
      by (simp_all add: s'_def sp_put_def sp_note_def)
    ultimately show "\<exists>s' n. split_round nodemax psize newpg newindx new mp i j s = Inr (0, s') \<and>
      phase psize newindx mp s' (Suc i) (Suc j) \<and> grown s s' \<and> appended (sp_page s) (sp_page s') n sz \<and> Q n \<and>
      mp_ptrs (sp_page s') ! j = mp_upper (sp_page s') \<and>
      sp_big s' = (if i = newindx then big else sp_big s) \<and> sp_ki s' = (if i = newindx then j else sp_ki s)"
      using s' p'(3,4) pg pj by blast
  next
    assume "unat (SIZELEFT (sp_page s)) < sz" and "sp_right s"
    then show "\<exists>s'. split_round nodemax psize newpg newindx new mp i j s = Inr (MDB_PAGE_FULL, s') \<and> sp_flags s' = sp_flags s OR MDB_TXN_ERROR"
      using round law p by simp
  }
qed

text \<open>A half of the nodes: the space it takes from position \<open>j\<close> of a page on, and the nodes that it becomes.\<close>

fun specs_size :: "bool \<Rightarrow> nat \<Rightarrow> split_spec list \<Rightarrow> nat" where
  "specs_size leaf j [] = 0"
| "specs_size leaf j (x # xs) = fst (snd (first_spec leaf j x)) + specs_size leaf (Suc j) xs"

fun made :: "bool \<Rightarrow> nat \<Rightarrow> split_spec list \<Rightarrow> node list \<Rightarrow> bool" where
  "made leaf j [] ys \<longleftrightarrow> ys = []"
| "made leaf j (x # xs) ys \<longleftrightarrow> (case ys of [] \<Rightarrow> False | y # ys' \<Rightarrow> fst (snd (snd (first_spec leaf j x))) y \<and> made leaf (Suc j) xs ys')"

definition spec_at :: "nat \<Rightarrow> split_spec \<Rightarrow> MDB_page \<Rightarrow> nat \<Rightarrow> split_spec" where
  "spec_at newindx ns mp i = (if i = newindx then ns else node_spec (IS_LEAF mp) (page_nodes mp ! old_index newindx i))"

lemma appended_left:
  assumes "page_wf psize p" and "page_wf psize p'" and "appended p p' n sz"
  shows "unat (SIZELEFT p') = unat (SIZELEFT p) - sz"
proof -
  have "NUMKEYS p' = Suc (NUMKEYS p)"
    using page_nodes_length [OF assms(1)] page_nodes_length [OF assms(2)] assms(3) by (simp add: appended_def)
  then have "unat (mp_lower p') = unat (mp_lower p) + 2" using page_wfD(4) [OF assms(1)] page_wfD(4) [OF assms(2)] by simp
  moreover have "unat (mp_upper p') + sz = unat (mp_upper p) + 2" using assms(3) by (simp add: appended_def)
  ultimately show ?thesis unfolding SIZELEFT_eq(1) [OF assms(1)] SIZELEFT_eq(1) [OF assms(2)] by linarith
qed

lemma phase_left:
  assumes "phase psize newindx mp s i j" and "phase psize newindx mp s' i' j'" and "appended (sp_page s) (sp_page s') n sz"
  shows "unat (SIZELEFT (sp_page s')) = unat (SIZELEFT (sp_page s)) - sz"
  using appended_left [OF _ _ assms(3)] assms(1,2) by (auto simp: phase_def)

lemma spec_at_ok:
  assumes "\<forall>n\<in>set (page_nodes mp). node_ok nodemax (IS_LEAF mp) n" and "spec_ok nodemax psize newpg (IS_LEAF mp) ns"
    and "page_wf psize mp" and "i \<le> NUMKEYS mp" and "newindx \<le> NUMKEYS mp"
  shows "fst (spec_at newindx ns mp i) = item_at newindx (fst ns) mp i" and "spec_ok nodemax psize newpg (IS_LEAF mp) (spec_at newindx ns mp i)"
proof -
  show "fst (spec_at newindx ns mp i) = item_at newindx (fst ns) mp i" by (simp add: spec_at_def item_at_def node_spec_def)
  have "i \<noteq> newindx \<Longrightarrow> old_index newindx i < length (page_nodes mp)"
    using assms(4,5) by (auto simp: old_index_def page_nodes_length [OF assms(3)])
  then show "spec_ok nodemax psize newpg (IS_LEAF mp) (spec_at newindx ns mp i)"
    using assms(1,2) node_spec_ok by (auto simp: spec_at_def)
qed

lemma grown_trans: "grown s t \<Longrightarrow> grown t u \<Longrightarrow> grown s u"
  by (auto simp: grown_def split: if_splits)

lemma split_fill_fits:
  assumes wf: "page_wf psize mp" and nk: "newindx \<le> NUMKEYS mp" "NUMKEYS mp \<noteq> 0"
    and ok: "\<forall>n\<in>set (page_nodes mp). node_ok nodemax (IS_LEAF mp) n" "spec_ok nodemax psize newpg (IS_LEAF mp) ns"
    and ph: "phase psize newindx mp s i j" and n: "i + n \<le> Suc (NUMKEYS mp)"
    and fits: "specs_size (IS_LEAF mp) j (map (spec_at newindx ns mp) [i..<i + n]) \<le> unat (SIZELEFT (sp_page s))"
  shows "\<exists>s' ys. split_fill nodemax psize newpg newindx (fst ns) mp [i..<i + n] j s = Inr (0, s') \<and> phase psize newindx mp s' (i + n) (j + n) \<and>
     grown s s' \<and> page_nodes (sp_page s') = page_nodes (sp_page s) @ ys \<and> made (IS_LEAF mp) j (map (spec_at newindx ns mp) [i..<i + n]) ys \<and>
     (n \<noteq> 0 \<longrightarrow> mp_ptrs (sp_page s') ! (j + n - 1) = mp_upper (sp_page s')) \<and>
     (i \<le> newindx \<and> newindx < i + n \<longrightarrow> sp_big s' = snd (snd (snd ns)) \<and> sp_ki s' = j + (newindx - i)) \<and>
     (\<not> (i \<le> newindx \<and> newindx < i + n) \<longrightarrow> sp_big s' = sp_big s \<and> sp_ki s' = sp_ki s)"
  using ph n fits
proof (induction n arbitrary: i j s)
  case 0
  then show ?case by (auto simp: grown_def)
next
  case (Suc n)
  define leaf where "leaf = IS_LEAF mp"
  have l: "[i..<i + Suc n] = i # [Suc i..<Suc i + n]" by (simp add: upt_conv_Cons)
  note [simp del] = upt_Suc
  have ile: "i \<le> NUMKEYS mp" using Suc.prems(2) by simp
  note so = spec_at_ok [OF ok wf ile nk(1)]
  obtain it sz Q big where f: "first_spec (IS_LEAF mp) j (spec_at newindx ns mp i) = (it, sz, Q, big)"
    by (cases "first_spec (IS_LEAF mp) j (spec_at newindx ns mp i)")
  have sum: "sz + specs_size leaf (Suc j) (map (spec_at newindx ns mp) [Suc i..<Suc i + n]) \<le> unat (SIZELEFT (sp_page s))"
    using Suc.prems(3) unfolding l leaf_def by (simp add: f)
  obtain s1 y where s1: "split_round nodemax psize newpg newindx (fst ns) mp i j s = Inr (0, s1)" "phase psize newindx mp s1 (Suc i) (Suc j)"
    "grown s s1" "appended (sp_page s) (sp_page s1) y sz" "Q y" "sp_big s1 = (if i = newindx then big else sp_big s)"
    "sp_ki s1 = (if i = newindx then j else sp_ki s)" "mp_ptrs (sp_page s1) ! j = mp_upper (sp_page s1)"
    using split_round_ok(1) [OF wf Suc.prems(1) ile nk so f] sum by auto
  have b: "i = newindx \<Longrightarrow> big = snd (snd (snd ns))"
    using f by (auto simp: spec_at_def first_spec_def blank_spec_def split: prod.splits if_splits)
  have "specs_size leaf (Suc j) (map (spec_at newindx ns mp) [Suc i..<Suc i + n]) \<le> unat (SIZELEFT (sp_page s1))"
    using phase_left [OF Suc.prems(1) s1(2,4)] sum by simp
  then obtain s' ys where s': "split_fill nodemax psize newpg newindx (fst ns) mp [Suc i..<Suc i + n] (Suc j) s1 = Inr (0, s')"
    "phase psize newindx mp s' (Suc i + n) (Suc j + n)" "grown s1 s'" "page_nodes (sp_page s') = page_nodes (sp_page s1) @ ys"
    "made leaf (Suc j) (map (spec_at newindx ns mp) [Suc i..<Suc i + n]) ys"
    "n \<noteq> 0 \<longrightarrow> mp_ptrs (sp_page s') ! (Suc j + n - 1) = mp_upper (sp_page s')"
    "Suc i \<le> newindx \<and> newindx < Suc i + n \<longrightarrow> sp_big s' = snd (snd (snd ns)) \<and> sp_ki s' = Suc j + (newindx - Suc i)"
    "\<not> (Suc i \<le> newindx \<and> newindx < Suc i + n) \<longrightarrow> sp_big s' = sp_big s1 \<and> sp_ki s' = sp_ki s1"
    using Suc.IH [OF s1(2)] Suc.prems(2) unfolding leaf_def by auto
  have n0: "s' = s1" if "n = 0" using s'(1) that by simp
  have up: "mp_ptrs (sp_page s') ! (j + Suc n - 1) = mp_upper (sp_page s')" using s'(6) s1(8) n0 by (cases n) simp_all
  have "split_fill nodemax psize newpg newindx (fst ns) mp [i..<i + Suc n] j s = Inr (0, s')"
    unfolding l using s1(1) s'(1) by simp
  moreover have "page_nodes (sp_page s') = page_nodes (sp_page s) @ (y # ys)" using s1(4) s'(4) by (simp add: appended_def)
  moreover have "made leaf j (map (spec_at newindx ns mp) [i..<i + Suc n]) (y # ys)"
    unfolding l leaf_def using s1(5) s'(5) by (simp add: f leaf_def)
  ultimately show ?case
    using s'(2,7,8) s1(6,7) b up grown_trans [OF s1(3) s'(3)] unfolding leaf_def
    by (intro exI [of _ s'] exI [of _ "y # ys"]) auto
qed

lemma split_fill_full:
  assumes wf: "page_wf psize mp" and nk: "newindx \<le> NUMKEYS mp" "NUMKEYS mp \<noteq> 0"
    and ok: "\<forall>n\<in>set (page_nodes mp). node_ok nodemax (IS_LEAF mp) n" "spec_ok nodemax psize newpg (IS_LEAF mp) ns"
    and ph: "phase psize newindx mp s i j" "sp_right s" and n: "i + n \<le> Suc (NUMKEYS mp)"
    and full: "unat (SIZELEFT (sp_page s)) < specs_size (IS_LEAF mp) j (map (spec_at newindx ns mp) [i..<i + n])"
  shows "\<exists>s'. split_fill nodemax psize newpg newindx (fst ns) mp [i..<i + n] j s = Inr (MDB_PAGE_FULL, s') \<and>
    sp_flags s' = sp_flags s OR MDB_TXN_ERROR"
  using ph n full
proof (induction n arbitrary: i j s)
  case 0
  then show ?case by simp
next
  case (Suc n)
  have l: "[i..<i + Suc n] = i # [Suc i..<Suc i + n]" by (simp add: upt_conv_Cons)
  note [simp del] = upt_Suc
  have ile: "i \<le> NUMKEYS mp" using Suc.prems(3) by simp
  note so = spec_at_ok [OF ok wf ile nk(1)]
  obtain it sz Q big where f: "first_spec (IS_LEAF mp) j (spec_at newindx ns mp i) = (it, sz, Q, big)"
    by (cases "first_spec (IS_LEAF mp) j (spec_at newindx ns mp i)")
  note rd = split_round_ok [OF wf Suc.prems(1) ile nk so f]
  have full0: "MDB_PAGE_FULL \<noteq> 0" by (simp add: MDB_PAGE_FULL_def)
  show ?case
  proof (cases "sz \<le> unat (SIZELEFT (sp_page s))")
    case True
    obtain s1 y where s1: "split_round nodemax psize newpg newindx (fst ns) mp i j s = Inr (0, s1)" "phase psize newindx mp s1 (Suc i) (Suc j)"
      "grown s s1" "appended (sp_page s) (sp_page s1) y sz" using rd(1) [OF True] by auto
    have "unat (SIZELEFT (sp_page s1)) < specs_size (IS_LEAF mp) (Suc j) (map (spec_at newindx ns mp) [Suc i..<Suc i + n])"
      using phase_left [OF Suc.prems(1) s1(2,4)] Suc.prems(4) True unfolding l by (simp add: f)
    then show ?thesis using Suc.IH [OF s1(2)] Suc.prems(2,3) s1(1,3) unfolding l by (simp add: grown_def)
  next
    case False
    then show ?thesis using rd(2) Suc.prems(2) full0 unfolding l by auto
  qed
qed

subsection \<open>The left page\<close>

lemma copy_ptrs_ok:
  assumes "i + n \<le> length cs" and "i + n \<le> length ps"
  shows "copy_ptrs n i cs ps = Inr (take i ps @ take n (drop i cs) @ drop (i + n) ps)"
  using assms
proof (induction n arbitrary: i ps)
  case 0
  then show ?case by simp
next
  case (Suc n)
  have "copy_ptrs (Suc n) i cs ps = Inr (take (Suc i) (ps[i := cs ! i]) @ take n (drop (Suc i) cs) @ drop (Suc i + n) (ps[i := cs ! i]))"
    using Suc.prems Suc.IH [of "Suc i" "ps[i := cs ! i]"] by simp
  moreover have "take (Suc i) (ps[i := cs ! i]) = take i ps @ [cs ! i]" using Suc.prems by (simp add: take_Suc_conv_app_nth)
  moreover have "take (Suc n) (drop i cs) = cs ! i # take n (drop (Suc i) cs)"
    using Suc.prems by (metis Cons_nth_drop_Suc add_Suc_right le_add1 less_Suc_eq_le order_less_le_trans take_Suc_Cons)
  ultimately show ?case using Suc.prems by simp
qed

lemma page_same_nodes:
  assumes wf: "page_wf psize p" and q: "mp_flags q = mp_flags p" "mp_lower q = mp_lower p" "mp_upper q = mp_upper p"
    "take (NUMKEYS p) (mp_ptrs q) = take (NUMKEYS p) (mp_ptrs p)" "length (mp_ptrs q) = length (mp_ptrs p)"
    "length (mp_bytes q) = psize" "\<And>x. unat (mp_upper p) \<le> x \<Longrightarrow> x < psize \<Longrightarrow> mp_bytes q ! x = mp_bytes p ! x"
  shows "page_wf psize q" and "page_nodes q = page_nodes p"
proof -
  have n: "NUMKEYS q = NUMKEYS p" and lf: "IS_LEAF q = IS_LEAF p" by (simp_all add: NUMKEYS_def IS_LEAF_def q)
  have o: "page_offs q = page_offs p" by (simp add: page_offs_def n q)
  have k: "node_at (IS_LEAF p) (mp_bytes q) d = node_at (IS_LEAF p) (mp_bytes p) d"
    "ext_at (IS_LEAF p) (mp_bytes q) d = ext_at (IS_LEAF p) (mp_bytes p) d" if "d \<in> set (page_offs p)" for d
    using nodes_kept [OF wf that, of "mp_bytes q"] q(6,7) page_wfD(2) [OF wf] by auto
  show "page_nodes q = page_nodes p" using k(1) by (simp add: page_nodes_def o lf)
  have "sorted_wrt (apart (IS_LEAF p) (mp_bytes q)) (page_offs p)"
    using page_wfD(9) [OF wf] k(2) by (auto simp: apart_def elim: sorted_wrt_mono_rel [rotated])
  then show "page_wf psize q" using wf k(2) q by (simp add: page_wf_def o lf)
qed

lemma split_back_ok:
  assumes wf: "page_wf psize copy" and nz: "NUMKEYS copy \<noteq> 0" and lst: "mp_ptrs copy ! (NUMKEYS copy - 1) = mp_upper copy"
    and mp: "mp_flags mp = mp_flags copy" "length (mp_bytes mp) = psize" "length (mp_ptrs mp) = length (mp_ptrs copy)"
  shows "\<exists>mp'. split_back psize copy mp = Inr mp' \<and> page_wf psize mp' \<and> page_nodes mp' = page_nodes copy \<and>
     mp_flags mp' = mp_flags mp \<and> mp_pgno mp' = mp_pgno mp"
proof -
  note w = page_wfD [OF wf]
  define up where "up = unat (mp_upper copy)"
  define ps where "ps = take (NUMKEYS copy) (mp_ptrs copy) @ drop (NUMKEYS copy) (mp_ptrs mp)"
  define bs where "bs = take up (mp_bytes mp) @ drop up (mp_bytes copy)"
  define mp' where "mp' = mp\<lparr>mp_ptrs := ps, mp_lower := mp_lower copy, mp_upper := mp_upper copy, mp_bytes := bs\<rparr>"
  have up: "up \<le> psize" using w(6) by (simp add: up_def)
  have cp: "copy_ptrs (NUMKEYS copy) 0 (mp_ptrs copy) (mp_ptrs mp) = Inr ps"
    using copy_ptrs_ok [of 0 "NUMKEYS copy" "mp_ptrs copy" "mp_ptrs mp"] w(7) mp(3) by (simp add: ps_def)
  have dst: "aget ps (NUMKEYS copy - 1) = Inr (mp_upper copy)" "NODEPTR copy (NUMKEYS copy - 1) = Inr up"
    using w(7) nz lst mp(3) by (simp_all add: ps_def aget_def nth_append NODEPTR_def up_def)
  have "mem_get up (psize - up) (mp_bytes copy) = Inr (drop up (mp_bytes copy))"
    using up w(2) by (simp add: mem_get_def slice_def)
  moreover have "mem_put up (drop up (mp_bytes copy)) (mp_bytes mp) = Inr bs"
    using up w(2) mp(2) by (simp add: mem_put_def bs_def)
  ultimately have "split_back psize copy mp = Inr mp'"
    using nz by (simp add: split_back_def cp dst [unfolded One_nat_def] up_def [symmetric] mp'_def)
  moreover have "page_wf psize mp' \<and> page_nodes mp' = page_nodes copy"
    using page_same_nodes [OF wf, of mp'] up w(2,7) mp by (simp add: mp'_def ps_def bs_def up_def nth_append min_def)
  ultimately show ?thesis by (simp add: mp'_def)
qed

subsection \<open>Both pages\<close>

definition insert_node :: "nat \<Rightarrow> 'a \<Rightarrow> 'a list \<Rightarrow> 'a list" where
  "insert_node i x xs = take i xs @ x # drop i xs"

definition blank_first :: "bool \<Rightarrow> node list \<Rightarrow> node list" where
  "blank_first leaf ns = (case ns of [] \<Rightarrow> [] | n # ns' \<Rightarrow> (if leaf then n else blank n) # ns')"

definition spec_node :: "split_spec \<Rightarrow> node \<Rightarrow> bool" where
  "spec_node x = fst (snd (snd x))"

lemma made_later: "0 < j \<Longrightarrow> made leaf j xs ys \<longleftrightarrow> list_all2 spec_node xs ys"
proof (induction xs arbitrary: j ys)
  case (Cons x xs)
  then show ?case by (cases ys) (simp_all add: first_spec_def spec_node_def)
qed simp

lemma made_blank:
  assumes "made leaf 0 xs ys"
  obtains zs where "list_all2 spec_node xs zs" and "ys = blank_first leaf zs"
proof (cases xs)
  case Nil
  then show ?thesis using assms that [of "[]"] by (simp add: blank_first_def)
next
  case (Cons x xs')
  then obtain y ys' where y: "ys = y # ys'" "spec_node (first_spec leaf 0 x) y" "list_all2 spec_node xs' ys'"
    using assms by (cases ys) (simp_all add: made_later spec_node_def)
  have "\<exists>n. spec_node x n \<and> y = (if leaf then n else blank n)"
    using y(2) by (cases leaf) (auto simp: first_spec_def blank_spec_def spec_node_def split: prod.splits simp del: split_paired_Ex)
  then obtain n where "spec_node x n" "y = (if leaf then n else blank n)" by blast
  then show ?thesis using that [of "n # ys'"] y(1,3) Cons by (simp add: blank_first_def)
qed

lemma insert_node_nth:
  assumes "x \<le> length xs" and "i \<le> length xs"
  shows "insert_node x a xs ! i = (if i = x then a else xs ! old_index x i)"
  using assms by (auto simp: insert_node_def nth_append nth_Cons' old_index_def min_def)

lemma specs_inserted:
  assumes "list_all2 spec_node (map (spec_at newindx ns mp) [0..<Suc (NUMKEYS mp)]) zs" and "newindx \<le> NUMKEYS mp" and "page_wf psize mp"
  shows "\<exists>nn. spec_node ns nn \<and> zs = insert_node newindx nn (page_nodes mp)"
proof (intro exI conjI)
  note len = page_nodes_length [OF assms(3)]
  have l: "length zs = Suc (NUMKEYS mp)" using list_all2_lengthD [OF assms(1)] by simp
  have q: "spec_node (spec_at newindx ns mp i) (zs ! i)" if "i \<le> NUMKEYS mp" for i
    using list_all2_nthD [OF assms(1), of i] that by (simp del: upt_Suc)
  show "spec_node ns (zs ! newindx)" using q [OF assms(2)] by (simp add: spec_at_def)
  show "zs = insert_node newindx (zs ! newindx) (page_nodes mp)"
  proof (rule nth_equalityI)
    show "length zs = length (insert_node newindx (zs ! newindx) (page_nodes mp))" using assms(2) l len by (simp add: insert_node_def)
  next
    fix i
    assume "i < length zs"
    then show "zs ! i = insert_node newindx (zs ! newindx) (page_nodes mp) ! i"
      using q [of i] l len assms(2) insert_node_nth [of newindx "page_nodes mp" i "zs ! newindx"]
      by (auto simp: spec_at_def spec_node_def node_spec_def)
  qed
qed

definition half :: "nat \<Rightarrow> split_spec \<Rightarrow> MDB_page \<Rightarrow> nat \<Rightarrow> nat \<Rightarrow> nat" where
  "half newindx ns mp a b = specs_size (IS_LEAF mp) 0 (map (spec_at newindx ns mp) [a..<b])"

text \<open>What the loop starts from: the page, the empty right page and the copy.\<close>

definition split_start :: "nat \<Rightarrow> nat \<Rightarrow> (nat \<Rightarrow> int \<times> size_t) \<Rightarrow> nat \<Rightarrow> split_spec \<Rightarrow> MDB_page \<Rightarrow> MDB_page \<Rightarrow> MDB_page \<Rightarrow> bool" where
  "split_start nodemax psize newpg newindx ns mp rp copy \<longleftrightarrow>
     page_wf psize mp \<and> \<not> IS_LEAF2 mp \<and> newindx \<le> NUMKEYS mp \<and> NUMKEYS mp \<noteq> 0 \<and>
     (\<forall>n\<in>set (page_nodes mp). node_ok nodemax (IS_LEAF mp) n) \<and> spec_ok nodemax psize newpg (IS_LEAF mp) ns \<and>
     page_wf psize rp \<and> page_nodes rp = [] \<and> IS_LEAF rp = IS_LEAF mp \<and> \<not> IS_LEAF2 rp \<and> unat (SIZELEFT rp) = psize - 16 \<and>
     page_wf psize copy \<and> page_nodes copy = [] \<and> mp_flags copy = mp_flags mp \<and> unat (mp_upper copy) = psize \<and> readable newindx mp copy 0"

lemma startD:
  assumes "split_start nodemax psize newpg newindx ns mp rp copy"
  shows "page_wf psize mp" "newindx \<le> NUMKEYS mp" "NUMKEYS mp \<noteq> 0" "\<forall>n\<in>set (page_nodes mp). node_ok nodemax (IS_LEAF mp) n"
    "spec_ok nodemax psize newpg (IS_LEAF mp) ns" "unat (SIZELEFT rp) = psize - 16" "\<not> IS_LEAF2 mp" "page_nodes rp = []"
    "page_wf psize copy" "page_nodes copy = []" "mp_flags copy = mp_flags mp" "unat (mp_upper copy) = psize" "readable newindx mp copy 0"
  using assms by (simp_all add: split_start_def)

lemma start_phase:
  assumes "split_start nodemax psize newpg newindx ns mp rp copy"
  shows "phase psize newindx mp \<lparr>sp_rp = rp, sp_copy = copy, sp_right = True, sp_ki = x, sp_flags = tf, sp_big = None\<rparr> split 0"
  using assms page_nodes_length [of psize rp] by (auto simp: split_start_def phase_def sp_page_def readable_def)

definition split_init :: "nat \<Rightarrow> MDB_page \<Rightarrow> MDB_page \<Rightarrow> u32 \<Rightarrow> split_state" where
  "split_init newindx rp copy tf = \<lparr>sp_rp = rp, sp_copy = copy, sp_right = True, sp_ki = newindx, sp_flags = tf, sp_big = None\<rparr>"

lemma split_nodes_passes:
  assumes "0 < split" and "split \<le> NUMKEYS mp"
  shows "split_nodes nodemax psize newpg split newindx new mp rp copy tf =
    bindE (bindE (split_fill nodemax psize newpg newindx new mp [split..<split + (Suc (NUMKEYS mp) - split)] 0 (split_init newindx rp copy tf)) (\<lambda>(rc, s').
      if rc \<noteq> 0 then Inr (rc, s') else split_fill nodemax psize newpg newindx new mp [0..<0 + split] 0 (s'\<lparr>sp_right := False\<rparr>)))
     (\<lambda>(rc, s). if rc \<noteq> 0 then Inr (rc, mp, s) else bindE (split_back psize (sp_copy s) mp) (\<lambda>mp'. Inr (0, mp', s)))"
proof -
  have e: "split + (Suc (NUMKEYS mp) - split) = NUMKEYS mp + 1" using assms by simp
  have "split_move (NUMKEYS mp + 1) nodemax psize newpg (NUMKEYS mp) split newindx new mp split 0 s =
     bindE (split_fill nodemax psize newpg newindx new mp [split..<NUMKEYS mp + 1] 0 s) (\<lambda>(rc, s').
      if rc \<noteq> 0 then Inr (rc, s') else split_fill nodemax psize newpg newindx new mp [0..<split] 0 (s'\<lparr>sp_right := False\<rparr>))" for s
    using assms by (intro split_move_right [of _ "NUMKEYS mp - split"]) simp_all
  then show ?thesis unfolding split_nodes_def e split_init_def add_0 by simp
qed

lemma split_nodes_full:
  assumes st: "split_start nodemax psize newpg newindx ns mp rp copy" and sp: "0 < split" "split \<le> NUMKEYS mp"
    and r: "psize - 16 < half newindx ns mp split (Suc (NUMKEYS mp))"
  shows "\<exists>s. split_nodes nodemax psize newpg split newindx (fst ns) mp rp copy tf = Inr (MDB_PAGE_FULL, mp, s) \<and> sp_flags s = tf OR MDB_TXN_ERROR"
proof -
  note d = startD [OF st]
  have "sp_page (split_init newindx rp copy tf) = rp" "sp_right (split_init newindx rp copy tf)" "sp_flags (split_init newindx rp copy tf) = tf"
    by (simp_all add: sp_page_def split_init_def)
  then obtain s' where "split_fill nodemax psize newpg newindx (fst ns) mp [split..<split + (Suc (NUMKEYS mp) - split)] 0 (split_init newindx rp copy tf) =
      Inr (MDB_PAGE_FULL, s')" "sp_flags s' = tf OR MDB_TXN_ERROR"
    using split_fill_full [OF d(1-5) start_phase [OF st, of newindx tf split], where n = "Suc (NUMKEYS mp) - split"] d(6) r sp
    by (auto simp: half_def split_init_def [symmetric] simp del: upt_Suc)
  then show ?thesis unfolding split_nodes_passes [OF sp] by (simp add: MDB_PAGE_FULL_def)
qed

lemma right_pass:
  assumes st: "split_start nodemax psize newpg newindx ns mp rp copy" and sp: "split \<le> NUMKEYS mp"
    and r: "half newindx ns mp split (Suc (NUMKEYS mp)) \<le> psize - 16"
  shows "\<exists>s. split_fill nodemax psize newpg newindx (fst ns) mp [split..<split + (Suc (NUMKEYS mp) - split)] 0 (split_init newindx rp copy tf) = Inr (0, s) \<and>
    page_wf psize (sp_rp s) \<and> sp_copy s = copy \<and> mp_flags (sp_rp s) = mp_flags rp \<and> mp_pgno (sp_rp s) = mp_pgno rp \<and> sp_flags s = tf \<and>
    made (IS_LEAF mp) 0 (map (spec_at newindx ns mp) [split..<Suc (NUMKEYS mp)]) (page_nodes (sp_rp s)) \<and>
    (split \<le> newindx \<longrightarrow> sp_big s = snd (snd (snd ns)) \<and> sp_ki s = newindx - split)"
proof -
  let ?s0 = "split_init newindx rp copy tf"
  note d = startD [OF st]
  have s0: "sp_page ?s0 = rp" "sp_right ?s0" "sp_flags ?s0 = tf" "sp_copy ?s0 = copy"
    by (simp_all add: sp_page_def split_init_def)
  have e: "split + (Suc (NUMKEYS mp) - split) = Suc (NUMKEYS mp)" using sp by simp
  obtain s ys where s: "split_fill nodemax psize newpg newindx (fst ns) mp [split..<Suc (NUMKEYS mp)] 0 ?s0 = Inr (0, s)"
    "phase psize newindx mp s (Suc (NUMKEYS mp)) (0 + (Suc (NUMKEYS mp) - split))" "grown ?s0 s" "page_nodes (sp_page s) = page_nodes rp @ ys"
    "made (IS_LEAF mp) 0 (map (spec_at newindx ns mp) [split..<Suc (NUMKEYS mp)]) ys"
    "split \<le> newindx \<and> newindx < Suc (NUMKEYS mp) \<longrightarrow> sp_big s = snd (snd (snd ns)) \<and> sp_ki s = 0 + (newindx - split)"
    using split_fill_fits [OF d(1-5) start_phase [OF st, of newindx tf split], where n = "Suc (NUMKEYS mp) - split"] r [unfolded half_def, folded d(6)]
    unfolding e split_init_def [symmetric] s0 by blast
  have "sp_page s = sp_rp s" using s(3) s0 by (simp add: grown_def sp_page_def)
  then show ?thesis unfolding e using s d(2,8) s0 by (intro exI [of _ s]) (simp add: grown_def phase_def del: upt_Suc)
qed

lemma left_pass:
  assumes st: "split_start nodemax psize newpg newindx ns mp rp copy" and sp: "0 < split" "split \<le> NUMKEYS mp"
    and l: "half newindx ns mp 0 split \<le> psize - 16" and t: "sp_copy t = copy" "\<not> sp_right t"
  shows "\<exists>s mp'. split_fill nodemax psize newpg newindx (fst ns) mp [0..<0 + split] 0 t = Inr (0, s) \<and> split_back psize (sp_copy s) mp = Inr mp' \<and>
    page_wf psize mp' \<and> sp_rp s = sp_rp t \<and> mp_flags mp' = mp_flags mp \<and> mp_pgno mp' = mp_pgno mp \<and> sp_flags s = sp_flags t \<and>
    made (IS_LEAF mp) 0 (map (spec_at newindx ns mp) [0..<split]) (page_nodes mp') \<and>
    (if newindx < split then sp_big s = snd (snd (snd ns)) \<and> sp_ki s = newindx else sp_big s = sp_big t \<and> sp_ki s = sp_ki t)"
proof -
  note d = startD [OF st]
  have n0: "NUMKEYS copy = 0" using page_nodes_length [OF d(9)] d(10) by simp
  have lf: "IS_LEAF copy = IS_LEAF mp" "\<not> IS_LEAF2 copy" using d(7,11) by (simp_all add: IS_LEAF_def IS_LEAF2_def)
  have pt: "sp_page t = copy" using t by (simp add: sp_page_def)
  have left: "unat (SIZELEFT copy) = psize - 16" using SIZELEFT_eq(1) [OF d(9)] page_wfD(4) [OF d(9)] d(12) n0 by simp
  have ph: "phase psize newindx mp t 0 0" using d(9,13) lf n0 t by (simp add: phase_def pt)
  obtain s ys where s: "split_fill nodemax psize newpg newindx (fst ns) mp [0..<0 + split] 0 t = Inr (0, s)"
    "phase psize newindx mp s (0 + split) (0 + split)" "grown t s" "page_nodes (sp_page s) = page_nodes copy @ ys"
    "made (IS_LEAF mp) 0 (map (spec_at newindx ns mp) [0..<0 + split]) ys"
    "split \<noteq> 0 \<longrightarrow> mp_ptrs (sp_page s) ! (0 + split - 1) = mp_upper (sp_page s)"
    "0 \<le> newindx \<and> newindx < 0 + split \<longrightarrow> sp_big s = snd (snd (snd ns)) \<and> sp_ki s = 0 + (newindx - 0)"
    "\<not> (0 \<le> newindx \<and> newindx < 0 + split) \<longrightarrow> sp_big s = sp_big t \<and> sp_ki s = sp_ki t"
    using split_fill_fits [OF d(1-5) ph, where n = split] l [folded left] sp
    unfolding pt half_def add_0 le_Suc_eq by blast
  have c: "sp_page s = sp_copy s" "sp_rp s = sp_rp t" "sp_flags s = sp_flags t" "mp_flags (sp_copy s) = mp_flags mp"
    using s(3) t pt d(11) by (auto simp: grown_def sp_page_def)
  obtain mp' where mp': "split_back psize (sp_copy s) mp = Inr mp'" "page_wf psize mp'" "page_nodes mp' = ys"
    "mp_flags mp' = mp_flags mp" "mp_pgno mp' = mp_pgno mp"
    using split_back_ok [of psize "sp_copy s" mp] s(2,4,6) sp c d(10) page_wfD(2,3) [OF d(1)] page_wfD(3) [of psize "sp_copy s"]
    by (auto simp: phase_def)
  then show ?thesis using s c by (intro exI [of _ s] exI [of _ mp']) simp
qed

lemma split_nodes_ok:
  assumes st: "split_start nodemax psize newpg newindx ns mp rp copy" and sp: "0 < split" "split \<le> NUMKEYS mp"
    and l: "half newindx ns mp 0 split \<le> psize - 16" and r: "half newindx ns mp split (Suc (NUMKEYS mp)) \<le> psize - 16"
  shows "\<exists>mp' s nn. split_nodes nodemax psize newpg split newindx (fst ns) mp rp copy tf = Inr (0, mp', s) \<and>
     page_wf psize mp' \<and> page_wf psize (sp_rp s) \<and> spec_node ns nn \<and>
     page_nodes mp' = blank_first (IS_LEAF mp) (take split (insert_node newindx nn (page_nodes mp))) \<and>
     page_nodes (sp_rp s) = blank_first (IS_LEAF mp) (drop split (insert_node newindx nn (page_nodes mp))) \<and>
     mp_flags mp' = mp_flags mp \<and> mp_pgno mp' = mp_pgno mp \<and> mp_flags (sp_rp s) = mp_flags rp \<and> mp_pgno (sp_rp s) = mp_pgno rp \<and>
     sp_flags s = tf \<and> sp_big s = snd (snd (snd ns)) \<and> sp_ki s = (if newindx < split then newindx else newindx - split)"
proof -
  let ?leaf = "IS_LEAF mp"
  obtain s1 where s1: "split_fill nodemax psize newpg newindx (fst ns) mp [split..<split + (Suc (NUMKEYS mp) - split)] 0 (split_init newindx rp copy tf) = Inr (0, s1)"
    "page_wf psize (sp_rp s1)" "sp_copy s1 = copy" "mp_flags (sp_rp s1) = mp_flags rp" "mp_pgno (sp_rp s1) = mp_pgno rp" "sp_flags s1 = tf"
    "made ?leaf 0 (map (spec_at newindx ns mp) [split..<Suc (NUMKEYS mp)]) (page_nodes (sp_rp s1))"
    "split \<le> newindx \<longrightarrow> sp_big s1 = snd (snd (snd ns)) \<and> sp_ki s1 = newindx - split"
    using right_pass [OF st sp(2) r, of tf] by blast
  define t where "t = s1\<lparr>sp_right := False\<rparr>"
  have t: "sp_copy t = copy" "\<not> sp_right t" using s1(3) by (simp_all add: t_def)
  obtain s2 mp' where s2: "split_fill nodemax psize newpg newindx (fst ns) mp [0..<0 + split] 0 t = Inr (0, s2)" "split_back psize (sp_copy s2) mp = Inr mp'"
    "page_wf psize mp'" "sp_rp s2 = sp_rp t" "mp_flags mp' = mp_flags mp" "mp_pgno mp' = mp_pgno mp" "sp_flags s2 = sp_flags t"
    "made ?leaf 0 (map (spec_at newindx ns mp) [0..<split]) (page_nodes mp')"
    "if newindx < split then sp_big s2 = snd (snd (snd ns)) \<and> sp_ki s2 = newindx else sp_big s2 = sp_big t \<and> sp_ki s2 = sp_ki t"
    using left_pass [OF st sp l t] by blast
  obtain zl zr where z: "list_all2 spec_node (map (spec_at newindx ns mp) [0..<split]) zl" "page_nodes mp' = blank_first ?leaf zl"
    "list_all2 spec_node (map (spec_at newindx ns mp) [split..<Suc (NUMKEYS mp)]) zr" "page_nodes (sp_rp s1) = blank_first ?leaf zr"
    using made_blank [OF s2(8)] made_blank [OF s1(7)] by metis
  have "map (spec_at newindx ns mp) [0..<Suc (NUMKEYS mp)] =
     map (spec_at newindx ns mp) [0..<split] @ map (spec_at newindx ns mp) [split..<Suc (NUMKEYS mp)]"
    using upt_add_eq_append [of 0 split "Suc (NUMKEYS mp) - split"] sp by (simp del: upt_Suc flip: map_append)
  then have "list_all2 spec_node (map (spec_at newindx ns mp) [0..<Suc (NUMKEYS mp)]) (zl @ zr)"
    using list_all2_appendI [OF z(1,3)] by simp
  then obtain nn where nn: "spec_node ns nn" "zl @ zr = insert_node newindx nn (page_nodes mp)"
    using specs_inserted [OF _ startD(2,1) [OF st]] by blast
  have "length zl = split" using list_all2_lengthD [OF z(1)] by simp
  then have zz: "zl = take split (insert_node newindx nn (page_nodes mp))" "zr = drop split (insert_node newindx nn (page_nodes mp))"
    by (simp_all add: nn(2) [symmetric])
  have "split_nodes nodemax psize newpg split newindx (fst ns) mp rp copy tf = Inr (0, mp', s2)"
    unfolding split_nodes_passes [OF sp] using s1(1) s2(1,2) by (simp add: t_def del: upt_Suc)
  moreover have "sp_big s2 = snd (snd (snd ns)) \<and> sp_ki s2 = (if newindx < split then newindx else newindx - split)"
    using s1(8) s2(9) by (simp add: t_def split: if_splits)
  moreover have "sp_rp s2 = sp_rp s1" "sp_flags s2 = tf" using s2(4,7) s1(6) by (simp_all add: t_def)
  ultimately show ?thesis using s1(2,4,5) s2(3,5,6) nn(1) z(2,4) zz
    by (intro exI [of _ mp'] exI [of _ s2] exI [of _ nn]) simp
qed

end
