(* ===== verification/Mdb_Split_Point.thy ===== *)
theory Mdb_Split_Point
  imports Mdb_Split
begin

text \<open>
  The split point of \<open>mdb_page_split\<close>. Where the code looks for it (\<open>split_checked\<close>) both halves fit their pages, whatever
  the sizes of the nodes; where it does not and takes the middle, they need not.
\<close>

subsection \<open>The space on a page\<close>

lemma disjoint_sum:
  fixes f :: "nat \<Rightarrow> nat"
  assumes "sorted_wrt (\<lambda>d e. d + f d \<le> e \<or> e + f e \<le> d) ds" and "\<forall>d\<in>set ds. a \<le> d \<and> d + f d \<le> b"
  shows "sum_list (map f ds) \<le> b - a"
proof -
  have "card (\<Union>d\<in>set ds. {d..<d + f d}) = sum_list (map f ds)"
    using assms(1)
  proof (induction ds)
    case (Cons d ds)
    have "{d..<d + f d} \<inter> (\<Union>e\<in>set ds. {e..<e + f e}) = {}" using Cons.prems by fastforce
    then have "card (\<Union>e\<in>set (d # ds). {e..<e + f e}) = f d + card (\<Union>e\<in>set ds. {e..<e + f e})"
      by (simp add: card_Un_disjoint)
    then show ?case using Cons by simp
  qed simp
  moreover have "card (\<Union>d\<in>set ds. {d..<d + f d}) \<le> card {a..<b}" using assms(2) by (intro card_mono) fastforce+
  ultimately show ?thesis by simp
qed

definition node_space :: "MDB_page \<Rightarrow> nat \<Rightarrow> nat" where
  "node_space mp i = node_len (IS_LEAF mp) (fst (page_nodes mp ! i)) + 2"

lemma sum_upt: "sum_list (map f [a..<b]) = sum f {a..<b}" for f :: "nat \<Rightarrow> nat"
  by (simp add: sum_list_distinct_conv_sum_set)

lemma page_space:
  assumes "page_wf psize mp"
  shows "sum (node_space mp) {0..<NUMKEYS mp} \<le> psize - 16"
proof -
  note w = page_wfD [OF assms]
  let ?f = "ext_at (IS_LEAF mp) (mp_bytes mp)"
  have "sum_list (map ?f (page_offs mp)) \<le> psize - unat (mp_upper mp)"
    using w(8,9) by (intro disjoint_sum) (auto simp: apart_def [abs_def])
  moreover have "node_space mp i = ?f (page_offs mp ! i) + 2" if "i < NUMKEYS mp" for i
    using that length_page_offs [OF assms] by (simp add: node_space_def page_nodes_def ext_at_def node_at_def Let_def)
  then have "sum (node_space mp) {0..<NUMKEYS mp} = sum (\<lambda>i. ?f (page_offs mp ! i) + 2) {0..<NUMKEYS mp}" by simp
  then have "sum (node_space mp) {0..<NUMKEYS mp} = sum_list (map ?f (page_offs mp)) + 2 * NUMKEYS mp"
    using length_page_offs [OF assms] unfolding sum.distrib by (simp add: sum_list_sum_nth)
  ultimately show ?thesis using w(4,5,6) by linarith
qed

text \<open>The spaces with the new node in its place.\<close>

definition new_space :: "nat \<Rightarrow> nat \<Rightarrow> MDB_page \<Rightarrow> nat \<Rightarrow> nat" where
  "new_space newindx nsize mp i = (if i = newindx then nsize else node_space mp (old_index newindx i))"

lemma space_before: "b \<le> newindx \<Longrightarrow> sum (new_space newindx nsize mp) {a..<b} = sum (node_space mp) {a..<b}"
  by (intro sum.cong) (auto simp: new_space_def old_index_def)

lemma space_after:
  assumes "newindx < a"
  shows "sum (new_space newindx nsize mp) {a..<b} = sum (node_space mp) {a - 1..<b - 1}"
proof -
  have "sum (new_space newindx nsize mp) {a..<b} = sum (\<lambda>i. node_space mp (i - 1)) {a..<b}"
    using assms by (intro sum.cong) (auto simp: new_space_def old_index_def)
  also have "\<dots> = sum (node_space mp) {a - 1..<b - 1}"
    using assms by (cases a; cases b) (simp_all only: sum.shift_bounds_Suc_ivl diff_Suc_1 not_less_zero, simp_all)
  finally show ?thesis .
qed

lemma space_across:
  assumes "a \<le> newindx" and "newindx < b"
  shows "sum (new_space newindx nsize mp) {a..<b} = nsize + sum (node_space mp) {a..<b - 1}"
proof -
  have "sum (new_space newindx nsize mp) {a..<b} = sum (new_space newindx nsize mp) {a..<newindx} + sum (new_space newindx nsize mp) {newindx..<b}"
    using assms by (simp add: sum.atLeastLessThan_concat)
  also have "sum (new_space newindx nsize mp) {newindx..<b} = nsize + sum (new_space newindx nsize mp) {Suc newindx..<b}"
    using assms by (simp add: sum.atLeast_Suc_lessThan new_space_def)
  also have "\<dots> = nsize + sum (node_space mp) {newindx..<b - 1}" using space_after [of newindx "Suc newindx" nsize mp b] by simp
  also have "sum (new_space newindx nsize mp) {a..<newindx} = sum (node_space mp) {a..<newindx}" by (rule space_before) simp
  finally show ?thesis using assms sum.atLeastLessThan_concat [of a newindx "b - 1" "node_space mp"] by simp
qed

lemma space_part: "c \<le> a \<Longrightarrow> b \<le> d \<Longrightarrow> sum (node_space mp) {a..<b} \<le> sum (node_space mp) {c..<d}"
  by (intro sum_mono2) auto

subsection \<open>The scan\<close>

lemma scan_step:
  assumes wf: "page_wf psize mp" and i: "i \<le> NUMKEYS mp" "newindx \<le> NUMKEYS mp" "NUMKEYS mp \<noteq> 0"
    and c: "readable newindx mp copy 0" "unat (mp_upper copy) = psize" and ev: "even ps" "even nsize"
  shows "split_scan mp copy newindx nsize pmax ps (i # is) =
      (let ps' = ps + new_space newindx nsize mp i in if pmax < ps' \<or> is = [] then Inr (Some i) else split_scan mp copy newindx nsize pmax ps' is)"
    and "even (ps + new_space newindx nsize mp i)"
proof -
  have "\<exists>h. copy_node mp copy i = Inr h \<and> EVEN (ps + (NODESIZE + unat (mn_ksize (snd h)) + 2) +
      (if IS_LEAF mp then if F_ISSET (ucast (mn_flags (snd h))) F_BIGDATA then 8 else unat (NODEDSZ (snd h)) else 0)) = ps + new_space newindx nsize mp i"
    if ne: "i \<noteq> newindx"
  proof -
    have "16 + 2 * i + 2 \<le> unat (mp_upper copy)" using page_wf_slots(2) [OF wf i(3)] i(1) c(2) by simp
    note cn = copy_node_ok [OF wf i(1) ne i(2) _ c(1) this, simplified]
    obtain d h k pay where n: "page_nodes mp ! old_index newindx i = (h, k, pay)" "node_hdr mp (old_index newindx i) = Inr (d, h)"
      by (rule page_node_nth [OF wf cn(2)]) blast
    have "EVEN (ps + (8 + unat (mn_ksize h) + 2) + payload_size (IS_LEAF mp) h) = ps + (node_len (IS_LEAF mp) h + 2)"
      using ev(1) unfolding node_len_def EVEN_def by presburger
    then show ?thesis using ne cn(1) n(2)
      by (intro exI [of _ "(d, h)"] conjI)
        (simp_all only: n(1) new_space_def node_space_def NODESIZE_def payload_size_def fst_conv snd_conv if_False)
  qed
  then show "split_scan mp copy newindx nsize pmax ps (i # is) =
      (let ps' = ps + new_space newindx nsize mp i in if pmax < ps' \<or> is = [] then Inr (Some i) else split_scan mp copy newindx nsize pmax ps' is)"
    by (cases "i = newindx") (auto simp: new_space_def Let_def)
  show "even (ps + new_space newindx nsize mp i)"
    using ev by (simp add: new_space_def node_space_def node_len_def EVEN_def)
qed

text \<open>The scan stops at the first index at which the sum passes \<open>pmax\<close>, or at the last.\<close>

lemma split_scan_stops:
  assumes wf: "page_wf psize mp" and nk: "newindx \<le> NUMKEYS mp" "NUMKEYS mp \<noteq> 0"
    and c: "readable newindx mp copy 0" "unat (mp_upper copy) = psize" and ev: "even nsize"
    and "even ps" and "ps \<le> pmax" and "is \<noteq> []" and "\<forall>i\<in>set is. i \<le> NUMKEYS mp"
  shows "\<exists>as i bs. split_scan mp copy newindx nsize pmax ps is = Inr (Some i) \<and> is = as @ i # bs \<and>
     ps + sum_list (map (new_space newindx nsize mp) as) \<le> pmax \<and>
     (bs = [] \<or> pmax < ps + sum_list (map (new_space newindx nsize mp) (as @ [i])))"
  using assms(7-10)
proof (induction "is" arbitrary: ps)
  case (Cons i "is")
  have i: "i \<le> NUMKEYS mp" using Cons.prems(4) by simp
  define ps' where "ps' = ps + new_space newindx nsize mp i"
  have st: "split_scan mp copy newindx nsize pmax ps (i # is) =
      (if pmax < ps' \<or> is = [] then Inr (Some i) else split_scan mp copy newindx nsize pmax ps' is)" and ev': "even ps'"
    using scan_step [OF wf i nk c Cons.prems(1) ev] unfolding ps'_def Let_def by blast+
  show ?case
  proof (cases "pmax < ps' \<or> is = []")
    case True
    then show ?thesis using st Cons.prems(2)
      by (intro exI [of _ "[]"] exI [of _ i] exI [of _ "is"]) (auto simp: ps'_def)
  next
    case False
    obtain as j bs where j: "split_scan mp copy newindx nsize pmax ps' is = Inr (Some j)" "is = as @ j # bs"
      "ps' + sum_list (map (new_space newindx nsize mp) as) \<le> pmax"
      "bs = [] \<or> pmax < ps' + sum_list (map (new_space newindx nsize mp) (as @ [j]))"
      using Cons.IH [OF ev'] False Cons.prems(4) by auto
    then show ?thesis using st False
      by (intro exI [of _ "i # as"] exI [of _ j] exI [of _ bs]) (auto simp: ps'_def)
  qed
qed simp

lemma upt_split:
  assumes "[a..<b] = as @ i # bs"
  shows "as = [a..<i]" and "bs = [Suc i..<b]" and "a \<le> i" and "i < b"
proof -
  have l: "length as < b - a" using arg_cong [OF assms, of length] by simp
  have "i = [a..<b] ! length as" by (simp add: assms)
  then have i: "i = a + length as" using l by simp
  have "as = take (length as) [a..<b]" "bs = drop (Suc (length as)) [a..<b]" by (simp_all add: assms)
  then show "as = [a..<i]" "bs = [Suc i..<b]" "a \<le> i" "i < b" using l i by simp_all
qed

lemma scan_up:
  assumes wf: "page_wf psize mp" and nk: "newindx \<le> NUMKEYS mp" "NUMKEYS mp \<noteq> 0"
    and c: "readable newindx mp copy 0" "unat (mp_upper copy) = psize" and ev: "even nsize" and k: "0 < k" "k \<le> Suc (NUMKEYS mp)"
  obtains i where "split_scan mp copy newindx nsize pmax 0 [0..<k] = Inr (Some i)" and "i < k"
    and "sum (new_space newindx nsize mp) {0..<i} \<le> pmax"
    and "Suc i = k \<or> pmax < sum (new_space newindx nsize mp) {0..<Suc i}"
proof -
  obtain as i bs where r: "split_scan mp copy newindx nsize pmax 0 [0..<k] = Inr (Some i)" "[0..<k] = as @ i # bs"
    "sum_list (map (new_space newindx nsize mp) as) \<le> pmax" "bs = [] \<or> pmax < sum_list (map (new_space newindx nsize mp) (as @ [i]))"
    using split_scan_stops [OF wf nk c ev, of 0 pmax "[0..<k]"] k by auto
  have "i = length as" "as = [0..<i]" "i < k" "bs = [] \<longrightarrow> Suc i = k"
    using upt_split [OF r(2)] by auto
  moreover from this have "sum_list (map (new_space newindx nsize mp) (as @ [i])) = sum (new_space newindx nsize mp) {0..<Suc i}"
    using sum_upt [of "new_space newindx nsize mp" 0 "Suc i"] by simp
  ultimately show thesis using r(1,3,4) sum_upt [of "new_space newindx nsize mp" 0 i] by (intro that [of i]) auto
qed

lemma scan_down:
  assumes wf: "page_wf psize mp" and nk: "newindx \<le> NUMKEYS mp" "NUMKEYS mp \<noteq> 0"
    and c: "readable newindx mp copy 0" "unat (mp_upper copy) = psize" and ev: "even nsize" and k: "k \<le> NUMKEYS mp"
  obtains i where "split_scan mp copy newindx nsize pmax 0 (rev [k..<Suc (NUMKEYS mp)]) = Inr (Some i)" and "k \<le> i" and "i \<le> NUMKEYS mp"
    and "sum (new_space newindx nsize mp) {Suc i..<Suc (NUMKEYS mp)} \<le> pmax"
    and "i = k \<or> pmax < sum (new_space newindx nsize mp) {i..<Suc (NUMKEYS mp)}"
proof -
  obtain as i bs where r: "split_scan mp copy newindx nsize pmax 0 (rev [k..<Suc (NUMKEYS mp)]) = Inr (Some i)"
    "rev [k..<Suc (NUMKEYS mp)] = as @ i # bs"
    "sum_list (map (new_space newindx nsize mp) as) \<le> pmax" "bs = [] \<or> pmax < sum_list (map (new_space newindx nsize mp) (as @ [i]))"
    using split_scan_stops [OF wf nk c ev, of 0 pmax "rev [k..<Suc (NUMKEYS mp)]"] k by auto
  have "[k..<Suc (NUMKEYS mp)] = rev bs @ i # rev as" using arg_cong [OF r(2), of rev] by simp
  from upt_split [OF this]
  have e: "rev bs = [k..<i]" "rev as = [Suc i..<Suc (NUMKEYS mp)]" "k \<le> i" "i \<le> NUMKEYS mp" by auto
  have s: "sum_list (map (new_space newindx nsize mp) as) = sum (new_space newindx nsize mp) {Suc i..<Suc (NUMKEYS mp)}"
    using sum_upt [of "new_space newindx nsize mp" "Suc i" "Suc (NUMKEYS mp)"] e(2) by (metis rev_map sum_list_rev)
  have s': "sum (new_space newindx nsize mp) {i..<Suc (NUMKEYS mp)} = new_space newindx nsize mp i + sum (new_space newindx nsize mp) {Suc i..<Suc (NUMKEYS mp)}"
    using e(4) by (subst sum.atLeast_Suc_lessThan) simp_all
  have "bs = [] \<Longrightarrow> i = k" using arg_cong [OF e(1), of length] e(3) by simp
  then have "i = k \<or> pmax < sum (new_space newindx nsize mp) {i..<Suc (NUMKEYS mp)}" using r(4) unfolding s' by (auto simp: s)
  then show thesis using r(3) s by (intro that [OF r(1) e(3,4)]) simp_all
qed

subsection \<open>Both halves fit\<close>

lemma specs_size_later: "0 < j \<Longrightarrow> specs_size leaf j xs = sum_list (map (\<lambda>x. fst (snd x)) xs)"
  by (induction xs arbitrary: j) (simp_all add: first_spec_def)

lemma spec_at_space: "fst (snd (spec_at newindx ns mp i)) = new_space newindx (fst (snd ns)) mp i"
  by (simp add: spec_at_def new_space_def node_space_def node_spec_def)

lemma half_space:
  assumes "a < b"
  shows "half newindx ns mp a b = (if IS_LEAF mp then new_space newindx (fst (snd ns)) mp a else 10) + sum (new_space newindx (fst (snd ns)) mp) {Suc a..<b}"
proof -
  have l: "[a..<b] = a # [Suc a..<b]" using assms by (simp add: upt_conv_Cons)
  show ?thesis unfolding half_def l
    by (simp add: specs_size_later first_spec_def blank_spec_size spec_at_space sum_upt [symmetric] o_def del: upt_Suc)
qed

lemma half_le:
  assumes "10 \<le> fst (snd ns)"
  shows "half newindx ns mp a b \<le> sum (new_space newindx (fst (snd ns)) mp) {a..<b}"
proof (cases "a < b")
  case True
  have "10 \<le> new_space newindx (fst (snd ns)) mp a"
    using assms EVEN_ge [of "8 + unat (mn_ksize (fst (page_nodes mp ! old_index newindx a))) + payload_size (IS_LEAF mp) (fst (page_nodes mp ! old_index newindx a))"]
    by (simp add: new_space_def node_space_def node_len_def)
  then show ?thesis using half_space [OF True, of newindx ns mp] True by (simp add: sum.atLeast_Suc_lessThan)
next
  case False
  then show ?thesis by (simp add: half_def)
qed

text \<open>The arithmetic of the two scans: \<open>pmax\<close> holds all old nodes, and the new node takes at most half of it.\<close>

lemma up_fits:
  assumes tot: "sum (node_space mp) {0..<NUMKEYS mp} \<le> pmax" and ns: "10 \<le> fst (snd ns)" "2 * fst (snd ns) \<le> pmax"
    and x: "newindx \<le> i" and i: "0 < i" "i \<le> NUMKEYS mp"
    and over: "newindx < i \<or> pmax < sum (new_space newindx (fst (snd ns)) mp) {0..<Suc i} \<or> \<not> IS_LEAF mp"
  shows "half newindx ns mp i (Suc (NUMKEYS mp)) \<le> pmax"
proof (cases "newindx < i")
  case True
  then have "sum (new_space newindx (fst (snd ns)) mp) {i..<Suc (NUMKEYS mp)} \<le> sum (node_space mp) {0..<NUMKEYS mp}"
    using space_after [of newindx i "fst (snd ns)" mp "Suc (NUMKEYS mp)"] by (simp add: space_part)
  then show ?thesis using half_le [OF ns(1), of newindx mp i "Suc (NUMKEYS mp)"] tot by linarith
next
  case False
  then have xi: "newindx = i" using x by simp
  have sp: "sum (node_space mp) {0..<NUMKEYS mp} = sum (node_space mp) {0..<i} + sum (node_space mp) {i..<NUMKEYS mp}"
    using i by (simp add: sum.atLeastLessThan_concat)
  show ?thesis
  proof (cases "pmax < sum (new_space newindx (fst (snd ns)) mp) {0..<Suc i}")
    case True
    then have "pmax < fst (snd ns) + sum (node_space mp) {0..<i}"
      using space_across [of 0 newindx "Suc i" "fst (snd ns)" mp] xi by simp
    moreover have "half newindx ns mp i (Suc (NUMKEYS mp)) \<le> fst (snd ns) + sum (node_space mp) {i..<NUMKEYS mp}"
      using half_le [OF ns(1), of newindx mp i "Suc (NUMKEYS mp)"] space_across [of i newindx "Suc (NUMKEYS mp)" "fst (snd ns)" mp] xi i by simp
    ultimately show ?thesis using sp tot ns(2) by linarith
  next
    case False
    then have nl: "\<not> IS_LEAF mp" using over xi by simp
    have "half newindx ns mp i (Suc (NUMKEYS mp)) = 10 + sum (node_space mp) {i..<NUMKEYS mp}"
      using half_space [of i "Suc (NUMKEYS mp)" newindx ns mp] space_after [of newindx "Suc i" "fst (snd ns)" mp "Suc (NUMKEYS mp)"] i nl xi
      by (simp del: sum.op_ivl_Suc)
    moreover have "node_space mp 0 \<le> sum (node_space mp) {0..<i}" using i by (intro member_le_sum) auto
    moreover have "10 \<le> node_space mp 0"
      using EVEN_ge [of "8 + unat (mn_ksize (fst (page_nodes mp ! 0))) + payload_size (IS_LEAF mp) (fst (page_nodes mp ! 0))"]
      by (simp add: node_space_def node_len_def)
    ultimately show ?thesis using sp tot by linarith
  qed
qed

lemma down_fits:
  assumes tot: "sum (node_space mp) {0..<NUMKEYS mp} \<le> pmax" and ns: "10 \<le> fst (snd ns)" "2 * fst (snd ns) \<le> pmax"
    and i: "i < NUMKEYS mp" and over: "i < newindx \<or> pmax < sum (new_space newindx (fst (snd ns)) mp) {i..<Suc (NUMKEYS mp)}"
  shows "half newindx ns mp 0 (Suc i) \<le> pmax"
proof (cases "i < newindx")
  case True
  then have "sum (new_space newindx (fst (snd ns)) mp) {0..<Suc i} \<le> sum (node_space mp) {0..<NUMKEYS mp}"
    using space_before [of "Suc i" newindx "fst (snd ns)" mp 0] i space_part [of 0 0 "Suc i" "NUMKEYS mp" mp] by simp
  then show ?thesis using half_le [OF ns(1), of newindx mp 0 "Suc i"] tot by linarith
next
  case False
  then have o: "pmax < sum (new_space newindx (fst (snd ns)) mp) {i..<Suc (NUMKEYS mp)}" using over by simp
  have "\<not> newindx < i"
  proof
    assume "newindx < i"
    then have "sum (new_space newindx (fst (snd ns)) mp) {i..<Suc (NUMKEYS mp)} \<le> sum (node_space mp) {0..<NUMKEYS mp}"
      using space_after [of newindx i "fst (snd ns)" mp "Suc (NUMKEYS mp)"] by (simp add: space_part)
    then show False using o tot by linarith
  qed
  then have xi: "newindx = i" using False by simp
  have sp: "sum (node_space mp) {0..<NUMKEYS mp} = sum (node_space mp) {0..<i} + sum (node_space mp) {i..<NUMKEYS mp}"
    using i by (simp add: sum.atLeastLessThan_concat)
  have "pmax < fst (snd ns) + sum (node_space mp) {i..<NUMKEYS mp}"
    using o space_across [of i newindx "Suc (NUMKEYS mp)" "fst (snd ns)" mp] xi i by simp
  moreover have "half newindx ns mp 0 (Suc i) \<le> fst (snd ns) + sum (node_space mp) {0..<i}"
    using half_le [OF ns(1), of newindx mp 0 "Suc i"] space_across [of 0 newindx "Suc i" "fst (snd ns)" mp] xi by simp
  ultimately show ?thesis using sp tot ns(2) by linarith
qed

lemma first_fits:
  assumes "2 * fst (snd ns) \<le> pmax" and "\<forall>i<NUMKEYS mp. 2 * node_space mp i \<le> pmax" and "i \<le> NUMKEYS mp" and "newindx \<le> NUMKEYS mp"
  shows "2 * new_space newindx (fst (snd ns)) mp i \<le> pmax"
proof (cases "i = newindx")
  case False
  then have "old_index newindx i < NUMKEYS mp" using assms(3,4) by (auto simp: old_index_def)
  then show ?thesis using assms(2) False by (simp add: new_space_def)
qed (use assms(1) in \<open>simp add: new_space_def\<close>)

lemma split_up:
  assumes wf: "page_wf psize mp" and nk: "newindx \<le> NUMKEYS mp" "2 \<le> NUMKEYS mp"
    and c: "readable newindx mp copy 0" "unat (mp_upper copy) = psize"
    and ns: "even (fst (snd ns))" "10 \<le> fst (snd ns)" "2 * fst (snd ns) \<le> psize - 16" "\<forall>i<NUMKEYS mp. 2 * node_space mp i \<le> psize - 16"
    and k: "newindx < NUMKEYS mp" "newindx \<le> (NUMKEYS mp + 1) div 2" "k = (NUMKEYS mp + 1) div 2 + 1 + (if IS_LEAF mp then 1 else 0)"
  shows "\<exists>i. split_scan mp copy newindx (fst (snd ns)) (psize - 16) 0 [0..<k] = Inr (Some i) \<and> 0 < i \<and> i \<le> NUMKEYS mp \<and>
    half newindx ns mp 0 i \<le> psize - 16 \<and> half newindx ns mp i (Suc (NUMKEYS mp)) \<le> psize - 16"
proof -
  note tot = page_space [OF wf]
  have n0: "NUMKEYS mp \<noteq> 0" and k0: "0 < k" "k \<le> Suc (NUMKEYS mp)" using k nk by auto
  obtain i where i: "split_scan mp copy newindx (fst (snd ns)) (psize - 16) 0 [0..<k] = Inr (Some i)" "i < k"
    "sum (new_space newindx (fst (snd ns)) mp) {0..<i} \<le> psize - 16"
    "Suc i = k \<or> psize - 16 < sum (new_space newindx (fst (snd ns)) mp) {0..<Suc i}"
    by (rule scan_up [OF wf nk(1) n0 c ns(1) k0])
  have pos: "0 < i"
  proof (rule ccontr)
    assume "\<not> 0 < i"
    then show False using i(4) first_fits [OF ns(3,4) _ nk(1), of 0] k nk(2) by (auto simp: split: if_splits)
  qed
  have "\<not> i < newindx"
  proof
    assume x: "i < newindx"
    then have "sum (new_space newindx (fst (snd ns)) mp) {0..<Suc i} \<le> sum (node_space mp) {0..<NUMKEYS mp}"
      using space_before [of "Suc i" newindx "fst (snd ns)" mp 0] space_part [of 0 0 "Suc i" "NUMKEYS mp" mp] nk(1) by simp
    then show False using i(4) tot x k(2,3) by (auto split: if_splits)
  qed
  then have "half newindx ns mp i (Suc (NUMKEYS mp)) \<le> psize - 16"
    using i(2,4) k k0 pos by (intro up_fits [OF tot ns(2,3)]) (auto split: if_splits)
  then show ?thesis using i(1,2,3) pos k0(2) half_le [OF ns(2), of newindx mp 0 i] by (intro exI [of _ i]) simp
qed

lemma split_down:
  assumes wf: "page_wf psize mp" and nk: "newindx \<le> NUMKEYS mp" "2 \<le> NUMKEYS mp"
    and c: "readable newindx mp copy 0" "unat (mp_upper copy) = psize"
    and ns: "even (fst (snd ns))" "10 \<le> fst (snd ns)" "2 * fst (snd ns) \<le> psize - 16" "\<forall>i<NUMKEYS mp. 2 * node_space mp i \<le> psize - 16"
    and k: "newindx < NUMKEYS mp" "k = (NUMKEYS mp + 1) div 2" "k < newindx"
  shows "\<exists>i. split_scan mp copy newindx (fst (snd ns)) (psize - 16) 0 (rev [k..<NUMKEYS mp + 1]) = Inr (Some i) \<and> i < NUMKEYS mp \<and>
    half newindx ns mp 0 (Suc i) \<le> psize - 16 \<and> half newindx ns mp (Suc i) (Suc (NUMKEYS mp)) \<le> psize - 16"
proof -
  note tot = page_space [OF wf]
  have n0: "NUMKEYS mp \<noteq> 0" and kn: "k \<le> NUMKEYS mp" using k nk by auto
  obtain i where i: "split_scan mp copy newindx (fst (snd ns)) (psize - 16) 0 (rev [k..<Suc (NUMKEYS mp)]) = Inr (Some i)" "k \<le> i" "i \<le> NUMKEYS mp"
    "sum (new_space newindx (fst (snd ns)) mp) {Suc i..<Suc (NUMKEYS mp)} \<le> psize - 16"
    "i = k \<or> psize - 16 < sum (new_space newindx (fst (snd ns)) mp) {i..<Suc (NUMKEYS mp)}"
    by (rule scan_down [OF wf nk(1) n0 c ns(1) kn])
  have "i \<noteq> NUMKEYS mp"
  proof
    assume "i = NUMKEYS mp"
    then show False using i(5) first_fits [OF ns(3,4) order_refl nk(1)] k by auto
  qed
  then have lt: "i < NUMKEYS mp" using i(3) by simp
  have "half newindx ns mp 0 (Suc i) \<le> psize - 16"
    using i(5) k by (intro down_fits [OF tot ns(2,3) lt]) auto
  then show ?thesis using i(1,4) lt half_le [OF ns(2), of newindx mp "Suc i" "Suc (NUMKEYS mp)"] by (intro exI [of _ i]) (simp del: upt_Suc)
qed

lemma split_last:
  assumes wf: "page_wf psize mp" and nk: "newindx = NUMKEYS mp" "2 \<le> NUMKEYS mp"
    and c: "readable newindx mp copy 0" "unat (mp_upper copy) = psize"
    and ns: "even (fst (snd ns))" "10 \<le> fst (snd ns)" "2 * fst (snd ns) \<le> psize - 16" "\<forall>i<NUMKEYS mp. 2 * node_space mp i \<le> psize - 16"
  shows "split_scan mp copy newindx (fst (snd ns)) (psize - 16) 0 [0..<NUMKEYS mp] = Inr (Some (NUMKEYS mp - 1)) \<and>
    half newindx ns mp 0 (NUMKEYS mp - 1) \<le> psize - 16 \<and> half newindx ns mp (NUMKEYS mp - 1) (Suc (NUMKEYS mp)) \<le> psize - 16"
proof -
  note tot = page_space [OF wf]
  have le: "newindx \<le> NUMKEYS mp" and n0: "NUMKEYS mp \<noteq> 0" "0 < NUMKEYS mp" "NUMKEYS mp \<le> Suc (NUMKEYS mp)" using nk by auto
  obtain i where i: "split_scan mp copy newindx (fst (snd ns)) (psize - 16) 0 [0..<NUMKEYS mp] = Inr (Some i)" "i < NUMKEYS mp"
    "sum (new_space newindx (fst (snd ns)) mp) {0..<i} \<le> psize - 16"
    "Suc i = NUMKEYS mp \<or> psize - 16 < sum (new_space newindx (fst (snd ns)) mp) {0..<Suc i}"
    by (rule scan_up [OF wf le n0(1) c ns(1) n0(2,3)])
  have "sum (new_space newindx (fst (snd ns)) mp) {0..<Suc i} \<le> sum (node_space mp) {0..<NUMKEYS mp}"
    using space_before [of "Suc i" newindx "fst (snd ns)" mp 0] space_part [of 0 0 "Suc i" "NUMKEYS mp" mp] nk(1) i(2) by simp
  then have il: "i = NUMKEYS mp - 1" using i(4) tot by auto
  have "half newindx ns mp i (Suc (NUMKEYS mp)) \<le> sum (new_space newindx (fst (snd ns)) mp) {i..<Suc (NUMKEYS mp)}" by (rule half_le [OF ns(2)])
  also have "NUMKEYS mp = Suc i" using il n0(2) by simp
  then have "sum (new_space newindx (fst (snd ns)) mp) {i..<Suc (NUMKEYS mp)} = new_space newindx (fst (snd ns)) mp i + new_space newindx (fst (snd ns)) mp (NUMKEYS mp)"
    by simp
  finally show ?thesis using i(1,3) il half_le [OF ns(2), of newindx mp 0 i] first_fits [OF ns(3,4) _ le, of i] first_fits [OF ns(3,4) _ le, of "NUMKEYS mp"] i(2)
    by simp
qed

text \<open>Where the split point is looked for, both halves fit.\<close>

lemma split_point_checked:
  assumes wf: "page_wf psize mp" and nk: "newindx \<le> NUMKEYS mp" "2 \<le> NUMKEYS mp"
    and c: "readable newindx mp copy 0" "unat (mp_upper copy) = psize"
    and ns: "even (fst (snd ns))" "10 \<le> fst (snd ns)" "2 * fst (snd ns) \<le> psize - 16" "\<forall>i<NUMKEYS mp. 2 * node_space mp i \<le> psize - 16"
    and ck: "split_checked psize (NUMKEYS mp) (fst (snd ns)) newindx"
  shows "\<exists>split. split_point psize newindx (fst (snd ns)) mp copy = Inr split \<and> 0 < split \<and> split \<le> NUMKEYS mp \<and>
    half newindx ns mp 0 split \<le> psize - 16 \<and> half newindx ns mp split (Suc (NUMKEYS mp)) \<le> psize - 16"
proof -
  consider "newindx = NUMKEYS mp" | "newindx < NUMKEYS mp" "newindx \<le> (NUMKEYS mp + 1) div 2" | "newindx < NUMKEYS mp" "(NUMKEYS mp + 1) div 2 < newindx"
    using nk(1) by linarith
  then show ?thesis
  proof cases
    case 1
    then show ?thesis using split_last [OF wf 1 nk(2) c ns] ck nk(2) by (auto simp: split_point_def PAGEHDRSZ_def Let_def)
  next
    case 2
    then show ?thesis using split_up [OF wf nk c ns 2 refl] ck by (auto simp: split_point_def PAGEHDRSZ_def Let_def simp del: upt_Suc)
  next
    case 3
    then show ?thesis using split_down [OF wf nk c ns 3(1) refl 3(2)] ck by (auto simp: split_point_def PAGEHDRSZ_def Let_def simp del: upt_Suc)
  qed
qed

lemma split_sep_ok:
  assumes wf: "page_wf psize mp" and i: "split \<le> NUMKEYS mp" "newindx \<le> NUMKEYS mp" "NUMKEYS mp \<noteq> 0"
    and c: "readable newindx mp copy 0" "unat (mp_upper copy) = psize" and nn: "fst (snd nn) = newkey"
  shows "split_sep split newindx newkey mp copy = Inr (fst (snd (insert_node newindx nn (page_nodes mp) ! split)))"
proof (cases "split = newindx")
  case True
  then show ?thesis using i nn page_nodes_length [OF wf] by (simp add: split_sep_def insert_node_nth)
next
  case False
  have "16 + 2 * split + 2 \<le> unat (mp_upper copy)" using page_wf_slots(2) [OF wf i(3)] i(1) c(2) by simp
  note cn = copy_node_ok [OF wf i(1) False i(2) _ c(1) this, simplified]
  obtain d h k pay where "page_nodes mp ! old_index newindx split = (h, k, pay)" "node_hdr mp (old_index newindx split) = Inr (d, h)"
    "mem_get (d + 8) (unat (mn_ksize h)) (mp_bytes mp) = Inr k"
    by (rule page_node_nth [OF wf cn(2)]) blast
  then show ?thesis using False i page_nodes_length [OF wf] by (simp add: split_sep_def cn(1) NODESIZE_def insert_node_nth)
qed

text \<open>A page that can always be split: it has few nodes, or the new node comes last, or none of its halves takes more than
  fifteen sixteenths of a page.\<close>

definition splittable :: "nat \<Rightarrow> MDB_page \<Rightarrow> nat \<Rightarrow> bool" where
  "splittable psize mp newindx \<longleftrightarrow> (let n = NUMKEYS mp; pmax = psize - 16 in
     2 \<le> n \<and> newindx \<le> n \<and> (\<forall>i<n. 2 * node_space mp i \<le> pmax) \<and>
     (n < psize div 128 \<or> n \<le> newindx \<or>
      sum (node_space mp) {0..<(n + 1) div 2} + pmax div 16 \<le> pmax \<and> sum (node_space mp) {(n - 1) div 2..<n} + pmax div 16 \<le> pmax))"

lemma middle_fits:
  assumes mid: "split = (NUMKEYS mp + 1) div 2" "2 \<le> NUMKEYS mp" and x: "newindx \<le> NUMKEYS mp" and ns: "10 \<le> fst (snd ns)"
    and l: "sum (node_space mp) {0..<split} + fst (snd ns) \<le> pmax" and r: "sum (node_space mp) {(NUMKEYS mp - 1) div 2..<NUMKEYS mp} + fst (snd ns) \<le> pmax"
  shows "half newindx ns mp 0 split \<le> pmax" and "half newindx ns mp split (Suc (NUMKEYS mp)) \<le> pmax"
proof -
  note hl = half_le [OF ns, of newindx mp 0 split] and hr = half_le [OF ns, of newindx mp split "Suc (NUMKEYS mp)"]
  have p: "(NUMKEYS mp - 1) div 2 \<le> split - 1" using mid by linarith
  then have p2: "(NUMKEYS mp - 1) div 2 \<le> split" by simp
  show "half newindx ns mp 0 split \<le> pmax"
  proof (cases "newindx < split")
    case True
    then show ?thesis using hl l space_across [of 0 newindx split "fst (snd ns)" mp] space_part [of 0 0 "split - 1" split mp] by simp
  next
    case False
    then show ?thesis using hl l space_before [of split newindx "fst (snd ns)" mp 0] by simp
  qed
  show "half newindx ns mp split (Suc (NUMKEYS mp)) \<le> pmax"
  proof (cases "newindx < split")
    case True
    then show ?thesis
      using hr r space_after [of newindx split "fst (snd ns)" mp "Suc (NUMKEYS mp)"] space_part [OF p, of "NUMKEYS mp" "NUMKEYS mp" mp] by simp
  next
    case False
    then show ?thesis
      using hr r x space_across [of split newindx "Suc (NUMKEYS mp)" "fst (snd ns)" mp] space_part [OF p2, of "NUMKEYS mp" "NUMKEYS mp" mp] by simp
  qed
qed

lemma split_point_ok:
  assumes wf: "page_wf psize mp" and sp: "splittable psize mp newindx"
    and c: "readable newindx mp copy 0" "unat (mp_upper copy) = psize"
    and ns: "even (fst (snd ns))" "10 \<le> fst (snd ns)" "2 * fst (snd ns) \<le> psize - 16"
  shows "\<exists>split. split_point psize newindx (fst (snd ns)) mp copy = Inr split \<and> 0 < split \<and> split \<le> NUMKEYS mp \<and>
    half newindx ns mp 0 split \<le> psize - 16 \<and> half newindx ns mp split (Suc (NUMKEYS mp)) \<le> psize - 16"
proof (cases "split_checked psize (NUMKEYS mp) (fst (snd ns)) newindx")
  case True
  then show ?thesis using split_point_checked [OF wf _ _ c ns] sp by (simp add: splittable_def Let_def)
next
  case False
  note d = sp [unfolded splittable_def Let_def]
  have "fst (snd ns) \<le> (psize - 16) div 16" and "\<not> NUMKEYS mp < psize div 128" "\<not> NUMKEYS mp \<le> newindx"
    using False by (auto simp: split_checked_def PAGEHDRSZ_def)
  then have b: "sum (node_space mp) {0..<(NUMKEYS mp + 1) div 2} + fst (snd ns) \<le> psize - 16"
    "sum (node_space mp) {(NUMKEYS mp - 1) div 2..<NUMKEYS mp} + fst (snd ns) \<le> psize - 16"
    using d by linarith+
  have "2 \<le> NUMKEYS mp" "newindx \<le> NUMKEYS mp" using d by blast+
  note m = middle_fits [OF refl this ns(2) b]
  then show ?thesis using False d m by (auto simp: split_point_def Let_def)
qed

subsection \<open>The new node\<close>

text \<open>What \<open>mdb_page_split\<close> is called with: data for a leaf page, a page number for a branch page; \<open>newpg\<close> can give the
  overflow pages.\<close>

definition item_ok :: "nat \<Rightarrow> nat \<Rightarrow> (nat \<Rightarrow> int \<times> size_t) \<Rightarrow> bool \<Rightarrow> split_item \<Rightarrow> bool" where
  "item_ok nodemax psize newpg leaf it \<longleftrightarrow> (case it of (k, data, pgno, flags) \<Rightarrow>
     if leaf then (case data of None \<Rightarrow> False
       | Some v \<Rightarrow> \<not> F_ISSET flags F_BIGDATA \<and> (nodemax < 8 + length k + length v \<longrightarrow> fst (newpg (OVPAGES (length v) psize)) = 0))
     else data = None)"

definition item_len :: "split_item \<Rightarrow> nat" where
  "item_len it = (case it of (k, data, pgno, flags) \<Rightarrow> length (opt_bytes data))"

definition item_spec :: "nat \<Rightarrow> nat \<Rightarrow> (nat \<Rightarrow> int \<times> size_t) \<Rightarrow> bool \<Rightarrow> split_item \<Rightarrow> split_spec" where
  "item_spec nodemax psize newpg leaf it = (case it of (k, data, pgno, flags) \<Rightarrow>
     (let v = opt_bytes data; g = snd (newpg (OVPAGES (length v) psize)) in
      if \<not> leaf then (it, EVEN (8 + length k) + 2, (\<lambda>n. n = branch_node k pgno), None)
      else if nodemax < 8 + length k + length v then
        (it, EVEN (8 + length k + 8) + 2, (\<lambda>n. n = (leaf_header (flags OR F_BIGDATA) (length k) (length v), k, le64 g)),
         if F_ISSET flags MDB_RESERVE then None else Some (g, v))
      else (it, EVEN (8 + length k + length v) + 2,
        (\<lambda>n. \<exists>v'. n = (leaf_header flags (length k) (length v), k, v') \<and> length v' = length v \<and> (F_ISSET flags MDB_RESERVE \<or> v' = v)), None)))"

lemma item_spec_facts:
  assumes "item_ok nodemax psize newpg leaf it" and "nodemax < 2 ^ 32"
  shows "spec_ok nodemax psize newpg leaf (item_spec nodemax psize newpg leaf it)"
    and "fst (item_spec nodemax psize newpg leaf it) = it"
    and "fst (snd (item_spec nodemax psize newpg leaf it)) = split_nsize nodemax leaf (length (fst it)) (item_len it)"
    and "even (fst (snd (item_spec nodemax psize newpg leaf it)))" and "10 \<le> fst (snd (item_spec nodemax psize newpg leaf it))"
    and "spec_node (item_spec nodemax psize newpg leaf it) nn \<Longrightarrow> fst (snd nn) = fst it"
proof -
  obtain k data pgno flags where it: "it = (k, data, pgno, flags)" by (cases it)
  let ?v = "opt_bytes data"
  show "fst (item_spec nodemax psize newpg leaf it) = it" by (simp add: item_spec_def it Let_def)
  show ev: "even (fst (snd (item_spec nodemax psize newpg leaf it)))" by (simp add: item_spec_def it Let_def EVEN_def)
  have "8 \<le> EVEN (8 + length k)" "8 \<le> EVEN (8 + length k + 8)" "8 \<le> EVEN (8 + length k + length ?v)"
    by (simp_all add: EVEN_def)
  then show "10 \<le> fst (snd (item_spec nodemax psize newpg leaf it))" by (simp add: item_spec_def it Let_def)
  show "fst (snd nn) = fst it" if "spec_node (item_spec nodemax psize newpg leaf it) nn"
    using that by (auto simp: spec_node_def item_spec_def it Let_def branch_node_def split: if_splits)
  show "fst (snd (item_spec nodemax psize newpg leaf it)) = split_nsize nodemax leaf (length (fst it)) (item_len it)"
    by (simp add: item_spec_def it Let_def item_len_def split_nsize_def mdb_leaf_size_def mdb_branch_size_def NODESIZE_def EVEN_def) presburger
  show "spec_ok nodemax psize newpg leaf (item_spec nodemax psize newpg leaf it)"
  proof (cases leaf)
    case True
    then obtain v where v: "data = Some v" "\<not> F_ISSET flags F_BIGDATA" "nodemax < 8 + length k + length v \<longrightarrow> fst (newpg (OVPAGES (length v) psize)) = 0"
      using assms(1) by (auto simp: item_ok_def it split: option.splits)
    show ?thesis
    proof (cases "nodemax < 8 + length k + length v")
      case big: True
      then have "newpg (OVPAGES (length v) psize) = (0, snd (newpg (OVPAGES (length v) psize)))" using v(3) by (simp add: prod_eq_iff)
      from leaf_spec_ok [OF big_addable [where newpg = newpg and psize = psize, OF v(2) big this, of pgno]] show ?thesis
        using True big by (cases "F_ISSET flags MDB_RESERVE") (simp_all add: item_spec_def it v(1) opt_bytes_def Let_def)
    next
      case False
      then have "8 + length k + length v \<le> nodemax" by simp
      from leaf_spec_ok [OF inline_addable [OF v(2) this assms(2), of psize newpg pgno]] show ?thesis
        using True False by (simp add: item_spec_def it v(1) opt_bytes_def Let_def)
    qed
  next
    case False
    then show ?thesis using assms(1) branch_spec_ok [of nodemax psize newpg k pgno flags] by (simp add: item_spec_def it item_ok_def Let_def)
  qed
qed

subsection \<open>The middle need not do\<close>

text \<open>Every list of nodes that fits is the contents of some page.\<close>

lemma page_with_nodes:
  assumes "page_wf psize p" and "\<not> IS_LEAF2 p" and "\<forall>n\<in>set ns. node_ok nodemax (IS_LEAF p) n"
    and "sum_list (map (\<lambda>n. node_len (IS_LEAF p) (fst n) + 2) ns) \<le> unat (SIZELEFT p)"
  shows "\<exists>p'. page_wf psize p' \<and> mp_flags p' = mp_flags p \<and> mp_pgno p' = mp_pgno p \<and> page_nodes p' = page_nodes p @ ns \<and>
    unat (SIZELEFT p') = unat (SIZELEFT p) - sum_list (map (\<lambda>n. node_len (IS_LEAF p) (fst n) + 2) ns)"
  using assms
proof (induction ns arbitrary: p)
  case Nil
  then show ?case by (intro exI [of _ p]) simp
next
  case (Cons n ns)
  let ?it = "node_item (IS_LEAF p) n"
  obtain k data pgno flags where it: "?it = (k, data, pgno, flags)" by (cases ?it)
  have "addable nodemax psize (\<lambda>_. (0, 0)) (IS_LEAF p) (node_spec (IS_LEAF p) n)" using Cons.prems(3) by (intro node_addable) simp
  from this [unfolded addable_def node_spec_def it prod.case, rule_format, of p 0]
  obtain p1 where p1: "page_wf psize p1" "appended p p1 n (node_len (IS_LEAF p) (fst n) + 2)" using Cons.prems(1,2,4) by auto
  have fl: "IS_LEAF p1 = IS_LEAF p" "IS_LEAF2 p1 = IS_LEAF2 p" "mp_flags p1 = mp_flags p" "page_nodes p1 = page_nodes p @ [n]" "mp_pgno p1 = mp_pgno p"
    using p1(2) by (simp_all add: appended_def IS_LEAF_def IS_LEAF2_def)
  have left: "unat (SIZELEFT p1) = unat (SIZELEFT p) - (node_len (IS_LEAF p) (fst n) + 2)"
    by (rule appended_left [OF Cons.prems(1) p1])
  have room: "sum_list (map (\<lambda>n. node_len (IS_LEAF p) (fst n) + 2) ns) \<le> unat (SIZELEFT p1)" using Cons.prems(4) left by simp
  obtain p' where "page_wf psize p'" "mp_flags p' = mp_flags p1" "mp_pgno p' = mp_pgno p1" "page_nodes p' = page_nodes p1 @ ns"
    "unat (SIZELEFT p') = unat (SIZELEFT p1) - sum_list (map (\<lambda>n. node_len (IS_LEAF p) (fst n) + 2) ns)"
    using Cons.IH [OF p1(1)] Cons.prems(2,3) fl(1,2) room by auto
  then show ?case using fl left by (intro exI [of _ p']) simp
qed

text \<open>A leaf page of 4096 bytes: 16 nodes of 12 bytes before 16 nodes of 242 bytes. The node to come, of 254 bytes, goes between
  the large ones.\<close>

definition small_node :: "nat \<Rightarrow> node" where
  "small_node i = (leaf_header 0 2 0, [0, of_nat i], [])"

definition large_node :: "nat \<Rightarrow> node" where
  "large_node i = (leaf_header 0 2 230, [1, of_nat i], replicate 230 0)"

definition uneven_nodes :: "node list" where
  "uneven_nodes = map small_node [0..<16] @ map large_node [0..<16]"

definition late_item :: split_item where
  "late_item = ([1, 3, 0], Some (replicate 241 0), 0, 0)"

definition blank4096 :: MDB_page where
  "blank4096 = \<lparr>mp_pgno = 9, mp_pad = 0, mp_flags = P_LEAF, mp_lower = 16, mp_upper = 4096, mp_ptrs = replicate 2040 0, mp_bytes = replicate 4096 0\<rparr>"

lemma leaf_header_facts:
  assumes "kl < 2 ^ 16" and "vl < 2 ^ 32" and "\<not> F_ISSET f F_BIGDATA"
  shows "unat (mn_ksize (leaf_header f kl vl)) = kl" and "payload_size True (leaf_header f kl vl) = vl" and "\<not> node_big (leaf_header f kl vl)"
proof -
  show k: "unat (mn_ksize (leaf_header f kl vl)) = kl" using assms(1) by (simp add: leaf_header_def SETDSZ_def unat_of_nat_small)
  show b: "\<not> node_big (leaf_header f kl vl)" using assms(3) by (simp add: node_big_def leaf_header_def SETDSZ_def)
  have "unat (NODEDSZ (leaf_header f kl vl)) = vl" using assms(2) by (simp add: leaf_header_def NODEDSZ_SETDSZ unat_of_nat_small)
  then show "payload_size True (leaf_header f kl vl) = vl" using b by (simp add: payload_size_def node_big_def)
qed

lemma uneven_facts:
  shows "\<forall>n\<in>set uneven_nodes. node_ok 2038 True n" and "length uneven_nodes = 32"
    and "node_len True (fst (small_node i)) = 10" and "node_len True (fst (large_node i)) = 240"
proof -
  have f: "\<not> F_ISSET 0 F_BIGDATA" by (simp add: F_BIGDATA_bit)
  note h = leaf_header_facts [OF _ _ f, of 2 0] leaf_header_facts [OF _ _ f, of 2 230]
  show "\<forall>n\<in>set uneven_nodes. node_ok 2038 True n" using h by (auto simp: uneven_nodes_def small_node_def large_node_def node_ok_def)
  show "node_len True (fst (small_node i)) = 10" "node_len True (fst (large_node i)) = 240"
    using h by (simp_all add: small_node_def large_node_def node_len_def EVEN_def)
  show "length uneven_nodes = 32" by (simp add: uneven_nodes_def)
qed

lemma blank4096_facts: "page_wf 4096 blank4096" "page_nodes blank4096 = []" "IS_LEAF blank4096" "\<not> IS_LEAF2 blank4096" "unat (SIZELEFT blank4096) = 4080"
proof -
  have n: "NUMKEYS blank4096 = 0" by (simp add: NUMKEYS_eq blank4096_def)
  show "page_wf 4096 blank4096" "page_nodes blank4096 = []"
    by (simp_all add: page_wf_def page_nodes_def page_offs_def n) (simp_all add: blank4096_def)
  show "IS_LEAF blank4096" "\<not> IS_LEAF2 blank4096" "unat (SIZELEFT blank4096) = 4080"
    by (simp_all add: blank4096_def IS_LEAF_def IS_LEAF2_def F_ISSET_def P_LEAF_def P_LEAF2_def SIZELEFT_def)
qed

lemma uneven_page:
  obtains mp where "page_wf 4096 mp" and "IS_LEAF mp" and "\<not> IS_LEAF2 mp" and "page_nodes mp = uneven_nodes" and "unat (SIZELEFT mp) = 16"
proof -
  note b = blank4096_facts and u = uneven_facts
  have s: "sum_list (map (\<lambda>n. node_len True (fst n) + 2) uneven_nodes) = 4064"
    by (simp add: uneven_nodes_def o_def u(3,4) sum_list_triv)
  obtain mp where "page_wf 4096 mp" "mp_flags mp = mp_flags blank4096" "page_nodes mp = uneven_nodes" "unat (SIZELEFT mp) = 16"
    using page_with_nodes [OF b(1,4), of uneven_nodes 2038] b(2,3,5) u(1) s by auto
  then show thesis using that b(3,4) by (simp add: IS_LEAF_def IS_LEAF2_def)
qed

lemma uneven_half:
  assumes "page_nodes mp = uneven_nodes" and "IS_LEAF mp" and "NUMKEYS mp = 32"
  shows "half 20 (item_spec 2038 4096 newpg True late_item) mp 16 33 = 4126"
proof -
  have sz: "fst (snd (item_spec 2038 4096 newpg True late_item)) = 254" by (simp add: item_spec_def late_item_def opt_bytes_def EVEN_def Let_def)
  have "node_space mp i = 242" if "16 \<le> i" "i < 32" for i
    using that assms(1,2) uneven_facts(4) by (simp add: node_space_def uneven_nodes_def nth_append)
  then have "sum (node_space mp) {16..<32} = 242 * 16" by simp
  moreover have "half 20 (item_spec 2038 4096 newpg True late_item) mp 16 33 = sum (new_space 20 254 mp) {16..<33}"
    using half_space [of 16 33 20 "item_spec 2038 4096 newpg True late_item" mp] assms(2) sum.atLeast_Suc_lessThan [of 16 33 "new_space 20 254 mp"]
    by (simp add: sz)
  ultimately show ?thesis using space_across [of 16 20 33 254 mp] by simp
qed

text \<open>The page is full for the node, the code takes the middle, and the larger half does not fit: the call fails although the
  nodes would fit two pages.\<close>

theorem middle_split_full:
  "\<exists>mp copy s. page_wf 4096 mp \<and> IS_LEAF mp \<and> page_nodes mp = uneven_nodes \<and> unat (SIZELEFT mp) < mdb_leaf_size 2038 3 241 \<and>
     split_copy 4096 20 mp blank4096 = Inr copy \<and> split_point 4096 20 (split_nsize 2038 True 3 241) mp copy = Inr 16 \<and>
     split_nodes 2038 4096 newpg 16 20 late_item mp blank4096 copy tf = Inr (MDB_PAGE_FULL, mp, s) \<and> sp_flags s = tf OR MDB_TXN_ERROR"
proof -
  obtain mp where mp: "page_wf 4096 mp" "IS_LEAF mp" "\<not> IS_LEAF2 mp" "page_nodes mp = uneven_nodes" "unat (SIZELEFT mp) = 16" by (rule uneven_page)
  have nk: "NUMKEYS mp = 32" using page_nodes_length [OF mp(1)] mp(4) uneven_facts(2) by simp
  then have nk': "NUMKEYS mp \<noteq> 0" "20 \<le> NUMKEYS mp" by simp_all
  have c0: "length (mp_ptrs blank4096) = (4096 - 16) div 2" "length (mp_bytes blank4096) = 4096" by (simp_all add: blank4096_def)
  obtain copy where cp: "split_copy 4096 20 mp blank4096 = Inr copy" "page_wf 4096 copy" "page_nodes copy = []" "mp_flags copy = mp_flags mp"
    "unat (mp_upper copy) = 4096" "readable 20 mp copy 0"
    using split_copy_ok [OF mp(1) nk' c0] by auto
  define ns where "ns = item_spec 2038 4096 newpg True late_item"
  have ok: "item_ok 2038 4096 newpg True late_item" by (simp add: item_ok_def late_item_def F_BIGDATA_bit)
  have so: "spec_ok 2038 4096 newpg True ns" "fst ns = late_item" using item_spec_facts(1,2) [OF ok] by (simp_all add: ns_def)
  have nz: "split_nsize 2038 True 3 241 = 254" by (simp add: split_nsize_def mdb_leaf_size_def NODESIZE_def EVEN_def)
  have pt: "split_point 4096 20 254 mp copy = Inr 16" by (simp add: split_point_def nk split_checked_def PAGEHDRSZ_def)
  have "split_start 2038 4096 newpg 20 ns mp blank4096 copy"
    using mp nk' blank4096_facts uneven_facts(1) so(1) cp by (simp add: split_start_def)
  moreover have "4096 - 16 < half 20 ns mp 16 (Suc (NUMKEYS mp))" using uneven_half [OF mp(4,2) nk, of newpg] by (simp add: nk ns_def)
  ultimately obtain s where "split_nodes 2038 4096 newpg 16 20 late_item mp blank4096 copy tf = Inr (MDB_PAGE_FULL, mp, s)" "sp_flags s = tf OR MDB_TXN_ERROR"
    using split_nodes_full [of 2038 4096 newpg 20 ns mp blank4096 copy 16 tf] so(2) nk by auto
  moreover have "unat (SIZELEFT mp) < mdb_leaf_size 2038 3 241" by (simp add: mp(5) mdb_leaf_size_def NODESIZE_def EVEN_def)
  ultimately show ?thesis using mp(1,2,4) cp(1) pt by (auto simp: nz)
qed

end
