(* ===== verification/Mdb_Split_Tree.thy ===== *)
theory Mdb_Split_Tree
  imports Mdb_Split_Point Midl
begin

text \<open>
  \<open>mdb_page_split\<close> as a whole: the right page, a new root where the page was the root, the separator in the parent, which
  may have to be split itself, and then the move of the nodes. The pages of the cursor's path have been touched before, so
  that they are in memory under their numbers (\<open>sm_page\<close>); a cursor is its path of page numbers and indices from the page that is
  split up to the root. \<open>alloc\<close> and \<open>malloc\<close> give the outcomes of the calls of \<open>mdb_page_alloc\<close> and \<open>mdb_page_malloc\<close>, by
  their number. The adjustment of the other cursors on the same pages, and of the levels of the cursor above the page, is not modelled.
\<close>

record split_mem =
  sm_page :: "size_t \<Rightarrow> MDB_page"
  sm_db :: MDB_db
  sm_news :: nat
  sm_mallocs :: nat
  sm_flags :: u32
  sm_big :: "(size_t \<times> u8 list) option"

definition set_page :: "size_t \<Rightarrow> MDB_page \<Rightarrow> split_mem \<Rightarrow> split_mem" where
  "set_page g p m = m\<lparr>sm_page := (sm_page m)(g := p)\<rparr>"

definition split_fail :: "split_mem \<Rightarrow> split_mem" where
  "split_fail m = m\<lparr>sm_flags := sm_flags m OR MDB_TXN_ERROR\<rparr>"

definition split_new :: "nat \<Rightarrow> (nat \<Rightarrow> int \<times> MDB_page) \<Rightarrow> u32 \<Rightarrow> split_mem \<Rightarrow> int \<times> MDB_page option \<times> split_mem" where
  "split_new psize alloc flags m =
     (case mdb_page_new psize (\<lambda>_. alloc (sm_news m)) flags 1 (sm_db m) of
        (rc, np, db) \<Rightarrow> (rc, np, m\<lparr>sm_db := db, sm_news := Suc (sm_news m)\<rparr>))"

text \<open>The parent: one level up on the path, or a new root page whose only node is the page that is split.\<close>

definition split_parent :: "nat \<Rightarrow> nat \<Rightarrow> (nat \<Rightarrow> int \<times> size_t) \<Rightarrow> (nat \<Rightarrow> int \<times> MDB_page) \<Rightarrow> MDB_page \<Rightarrow> (size_t \<times> nat) list \<Rightarrow> split_mem \<Rightarrow>
    (int \<times> (size_t \<times> nat) list \<times> split_mem) res" where
  "split_parent nodemax psize newpg alloc mp up m =
     (if up \<noteq> [] then Inr (0, up, m)
      else
        (case split_new psize alloc (ucast P_BRANCH) m of
           (rc, None, m1) \<Rightarrow> Inr (rc, [], m1)
         | (rc, Some pp, m1) \<Rightarrow>
             bindE (mdb_node_add nodemax psize 0 newpg 0 None None (mp_pgno mp) 0 pp (sm_flags m1)) (\<lambda>(rc, pp', tf, _).
             if rc \<noteq> 0 then Inr (rc, [], (set_page (mp_pgno pp) pp' m1)
               \<lparr>sm_flags := tf, sm_db := (sm_db m1)\<lparr>md_root := mp_pgno mp\<rparr>\<rparr>)
             else Inr (0, [(mp_pgno pp, 0)], (set_page (mp_pgno pp) pp' m1)
               \<lparr>sm_flags := tf, sm_db := (sm_db m1)\<lparr>md_root := mp_pgno pp, md_depth := md_depth (sm_db m1) + 1\<rparr>\<rparr>))))"

text \<open>The separator goes into the parent; \<open>split\<close> is the recursive call that makes room there.\<close>

definition split_link :: "nat \<Rightarrow> nat \<Rightarrow> (nat \<Rightarrow> int \<times> size_t) \<Rightarrow> ((size_t \<times> nat) list \<Rightarrow> split_item \<Rightarrow> split_mem \<Rightarrow> (int \<times> split_mem \<times> size_t \<times> nat) res) \<Rightarrow>
    size_t \<Rightarrow> u8 list \<Rightarrow> size_t \<Rightarrow> nat \<Rightarrow> (size_t \<times> nat) list \<Rightarrow> split_mem \<Rightarrow> (int \<times> split_mem) res" where
  "split_link nodemax psize newpg split r sep pg ki upup m =
     (if unat (SIZELEFT (sm_page m pg)) < mdb_branch_size (Some (length sep)) then
        bindE (split ((pg, ki + 1) # upup) (sep, None, r, 0) m) (\<lambda>(rc, m', _). Inr (rc, m'))
      else
        bindE (mdb_node_add nodemax psize 0 newpg (ki + 1) (Some sep) None r 0 (sm_page m pg) (sm_flags m))
          (\<lambda>(rc, p, tf, _). Inr (rc, (set_page pg p m)\<lparr>sm_flags := tf\<rparr>)))"

text \<open>The result has the code, the memory, and the page and the index of the new node. A call splits one page and calls itself
  for the next page up the path, where only a new root is added: the length of the path and two are enough fuel.\<close>

fun mdb_page_split :: "nat \<Rightarrow> nat \<Rightarrow> nat \<Rightarrow> (nat \<Rightarrow> int \<times> size_t) \<Rightarrow> (nat \<Rightarrow> int \<times> MDB_page) \<Rightarrow> (nat \<Rightarrow> MDB_page option) \<Rightarrow>
    (size_t \<times> nat) list \<Rightarrow> split_item \<Rightarrow> split_mem \<Rightarrow> (int \<times> split_mem \<times> size_t \<times> nat) res" where
  "mdb_page_split 0 nodemax psize newpg alloc malloc path new m = Inl Diverges"
| "mdb_page_split (Suc fuel) nodemax psize newpg alloc malloc path new m =
     (case path of
        [] \<Rightarrow> Inl Bad_pointer
      | (g, newindx) # up \<Rightarrow>
          let mp = sm_page m g in
          (case split_new psize alloc (ucast (mp_flags mp)) m of
             (rc, None, m1) \<Rightarrow> Inr (rc, m1, g, newindx)
           | (rc, Some rp0, m1) \<Rightarrow>
               let rp = rp0\<lparr>mp_pad := mp_pad mp\<rparr>; r = mp_pgno rp in
               bindE (split_parent nodemax psize newpg alloc mp up (set_page r rp m1)) (\<lambda>(rc, up', m2).
               if rc \<noteq> 0 then Inr (rc, split_fail m2, g, newindx)
               else
                 (case malloc (sm_mallocs m2) of
                    None \<Rightarrow> Inr (ENOMEM, split_fail (m2\<lparr>sm_mallocs := Suc (sm_mallocs m2)\<rparr>), g, newindx)
                  | Some copy0 \<Rightarrow>
                      let m3 = m2\<lparr>sm_mallocs := Suc (sm_mallocs m2)\<rparr> in
                      bindE (split_copy psize newindx mp copy0) (\<lambda>copy.
                      bindE (split_point psize newindx (split_nsize nodemax (IS_LEAF mp) (length (fst new)) (item_len new)) mp copy) (\<lambda>split_indx.
                      bindE (split_sep split_indx newindx (fst new) mp copy) (\<lambda>sep.
                      case up' of
                        [] \<Rightarrow> Inl Bad_pointer
                      | (pg, ki) # upup \<Rightarrow>
                          bindE (split_link nodemax psize newpg (\<lambda>path' new' m'. mdb_page_split fuel nodemax psize newpg alloc malloc path' new' m')
                                   r sep pg ki upup m3) (\<lambda>(rc, m4).
                          if rc \<noteq> 0 then Inr (rc, split_fail m4, g, newindx)
                          else
                            bindE (split_nodes nodemax psize newpg split_indx newindx new (sm_page m4 g) (sm_page m4 r) copy (sm_flags m4)) (\<lambda>(rc, mp', s).
                            let m5 = (set_page g mp' (set_page r (sp_rp s) m4))\<lparr>sm_flags := sp_flags s, sm_big := sp_big s\<rparr> in
                            if rc \<noteq> 0 then Inr (rc, split_fail m5, g, newindx)
                            else Inr (0, m5, if newindx < split_indx then g else r, sp_ki s))))))))))"

declare mdb_page_split.simps [simp del]

subsection \<open>One page\<close>

definition fresh_page :: "nat \<Rightarrow> MDB_page \<Rightarrow> bool" where
  "fresh_page psize np \<longleftrightarrow> length (mp_bytes np) = psize \<and> length (mp_ptrs np) = (psize - 16) div 2"

definition psize_ok :: "nat \<Rightarrow> bool" where
  "psize_ok psize \<longleftrightarrow> even psize \<and> 16 \<le> psize \<and> psize < 2 ^ 16"

definition empty_page :: "nat \<Rightarrow> bool \<Rightarrow> MDB_page \<Rightarrow> bool" where
  "empty_page psize leaf p \<longleftrightarrow> page_wf psize p \<and> page_nodes p = [] \<and> IS_LEAF p = leaf \<and> \<not> IS_LEAF2 p \<and> unat (SIZELEFT p) = psize - 16"

definition page_ok :: "nat \<Rightarrow> nat \<Rightarrow> MDB_page \<Rightarrow> bool" where
  "page_ok nodemax psize p \<longleftrightarrow> page_wf psize p \<and> \<not> IS_LEAF2 p \<and> (IS_LEAF p \<or> IS_BRANCH p) \<and> (\<forall>n\<in>set (page_nodes p). node_ok nodemax (IS_LEAF p) n)"

lemma page_flag_bits: "F_ISSET w P_BRANCH \<longleftrightarrow> bit w 0" "F_ISSET w P_LEAF \<longleftrightarrow> bit w 1" "F_ISSET w P_LEAF2 \<longleftrightarrow> bit w 5" for w :: u16
proof -
  have f: "F_ISSET w (push_bit n 1) \<longleftrightarrow> bit w n" if "n < 16" for n
  proof
    assume "F_ISSET w (push_bit n 1)"
    then have "bit (w AND push_bit n 1) n = bit (push_bit n 1 :: u16) n" by (simp add: F_ISSET_def)
    then show "bit w n" using that by (simp add: bit_simps)
  next
    assume "bit w n"
    then show "F_ISSET w (push_bit n 1)" unfolding F_ISSET_def by (intro bit_word_eqI) (auto simp: bit_simps)
  qed
  show "F_ISSET w P_BRANCH \<longleftrightarrow> bit w 0" "F_ISSET w P_LEAF \<longleftrightarrow> bit w 1" "F_ISSET w P_LEAF2 \<longleftrightarrow> bit w 5"
    using f [of 0] f [of 1] f [of 5] by (simp_all add: P_BRANCH_def P_LEAF_def P_LEAF2_def)
qed

lemma dirty_kept: "F_ISSET (w OR P_DIRTY) f = F_ISSET w f" if "f \<in> {P_BRANCH, P_LEAF, P_LEAF2}" for w :: u16
proof -
  have "\<not> bit P_DIRTY 0" "\<not> bit P_DIRTY 1" "\<not> bit P_DIRTY 5" by (simp_all add: P_DIRTY_def bit_iff_odd)
  then show ?thesis using that by (auto simp: page_flag_bits bit_or_iff)
qed

lemma split_new_ok:
  assumes a: "alloc (sm_news m) = (0, np)" "fresh_page psize np" and ps: "psize_ok psize"
    and fl: "F_ISSET fl P_LEAF \<or> F_ISSET fl P_BRANCH" "\<not> F_ISSET fl P_LEAF2"
  shows "\<exists>rp db. split_new psize alloc (ucast fl) m = (0, Some rp, m\<lparr>sm_db := db, sm_news := Suc (sm_news m)\<rparr>) \<and> mp_pgno rp = mp_pgno np \<and>
    empty_page psize (F_ISSET fl P_LEAF) rp \<and> IS_BRANCH rp = F_ISSET fl P_BRANCH \<and> md_root db = md_root (sm_db m)"
proof -
  define p where "p = np\<lparr>mp_flags := fl OR P_DIRTY, mp_lower := of_nat PAGEHDRSZ, mp_upper := of_nat psize\<rparr>"
  have u: "unat (of_nat psize :: u16) = psize" using ps by (intro unat_of_nat_small) (simp add: psize_ok_def)
  then have wf: "page_wf psize p" "page_nodes p = []"
    using a(2) ps NUMKEYS_eq [of p] by (simp_all add: page_wf_def page_nodes_def page_offs_def PAGEHDRSZ_def fresh_page_def psize_ok_def p_def)
  have f: "IS_LEAF p = F_ISSET fl P_LEAF" "IS_BRANCH p = F_ISSET fl P_BRANCH" "\<not> IS_LEAF2 p"
    using fl(2) by (simp_all add: IS_LEAF_def IS_BRANCH_def IS_LEAF2_def p_def dirty_kept)
  have "unat (SIZELEFT p) = psize - 16" using SIZELEFT_eq(1) [OF wf(1)] u by (simp add: p_def PAGEHDRSZ_def)
  then have e: "empty_page psize (F_ISSET fl P_LEAF) p" using wf f by (simp add: empty_page_def)
  have "\<exists>db. mdb_page_new psize (\<lambda>_. alloc (sm_news m)) (ucast fl) 1 (sm_db m) = (0, Some p, db) \<and> md_root db = md_root (sm_db m)"
    using f fl(1) a(1) by (auto simp: mdb_page_new_def Let_def p_def [symmetric])
  then show ?thesis using e f by (auto simp: split_new_def p_def)
qed

text \<open>What a call has before it goes to the parent: the separator, which is no larger than the node it comes from, and the move
  of the nodes to whatever empty page.\<close>

definition split_moved :: "nat \<Rightarrow> nat \<Rightarrow> (nat \<Rightarrow> int \<times> size_t) \<Rightarrow> nat \<Rightarrow> nat \<Rightarrow> split_item \<Rightarrow> MDB_page \<Rightarrow> MDB_page \<Rightarrow> MDB_page \<Rightarrow> u8 list \<Rightarrow> u32 \<Rightarrow> bool" where
  "split_moved nodemax psize newpg sp x new mp rp copy sep tf \<longleftrightarrow>
     (let ns = item_spec nodemax psize newpg (IS_LEAF mp) new in
      \<exists>mp' s nn. split_nodes nodemax psize newpg sp x new mp rp copy tf = Inr (0, mp', s) \<and>
       page_wf psize mp' \<and> page_wf psize (sp_rp s) \<and> spec_node ns nn \<and> sep = fst (snd (insert_node x nn (page_nodes mp) ! sp)) \<and>
       page_nodes mp' = blank_first (IS_LEAF mp) (take sp (insert_node x nn (page_nodes mp))) \<and>
       page_nodes (sp_rp s) = blank_first (IS_LEAF mp) (drop sp (insert_node x nn (page_nodes mp))) \<and>
       mp_flags mp' = mp_flags mp \<and> mp_flags (sp_rp s) = mp_flags rp \<and> sp_flags s = tf \<and>
       sp_big s = snd (snd (snd ns)) \<and> sp_ki s = (if x < sp then x else x - sp))"

lemma split_ready:
  assumes ok: "page_ok nodemax psize mp" and sp: "splittable psize mp newindx" and ps: "psize_ok psize" and nm: "nodemax < 2 ^ 32"
    and it: "item_ok nodemax psize newpg (IS_LEAF mp) new" and sz: "2 * split_nsize nodemax (IS_LEAF mp) (length (fst new)) (item_len new) \<le> psize - 16"
    and c: "fresh_page psize copy0"
  shows "\<exists>copy split sep. split_copy psize newindx mp copy0 = Inr copy \<and>
    split_point psize newindx (split_nsize nodemax (IS_LEAF mp) (length (fst new)) (item_len new)) mp copy = Inr split \<and> 0 < split \<and> split \<le> NUMKEYS mp \<and>
    split_sep split newindx (fst new) mp copy = Inr sep \<and> 2 * (EVEN (8 + length sep) + 2) \<le> psize - 16 \<and>
    (\<forall>rp tf. empty_page psize (IS_LEAF mp) rp \<longrightarrow> split_moved nodemax psize newpg split newindx new mp rp copy sep tf)"
proof -
  define ns where "ns = item_spec nodemax psize newpg (IS_LEAF mp) new"
  note f = item_spec_facts [OF it nm, folded ns_def]
  have wf: "page_wf psize mp" and n2: "\<not> IS_LEAF2 mp" and nok: "\<forall>n\<in>set (page_nodes mp). node_ok nodemax (IS_LEAF mp) n" using ok by (simp_all add: page_ok_def)
  have nk: "2 \<le> NUMKEYS mp" "newindx \<le> NUMKEYS mp" "NUMKEYS mp \<noteq> 0" "\<forall>i<NUMKEYS mp. 2 * node_space mp i \<le> psize - 16"
    using sp by (auto simp: splittable_def Let_def)
  have sz': "2 * fst (snd ns) \<le> psize - 16" using sz f(3) by simp
  obtain copy where cp: "split_copy psize newindx mp copy0 = Inr copy" "page_wf psize copy" "page_nodes copy = []" "mp_flags copy = mp_flags mp"
    "unat (mp_upper copy) = psize" "readable newindx mp copy 0"
    using split_copy_ok [OF wf nk(3,2)] c ps by (auto simp: fresh_page_def psize_ok_def)
  obtain split where st: "split_point psize newindx (fst (snd ns)) mp copy = Inr split" "0 < split" "split \<le> NUMKEYS mp"
    "half newindx ns mp 0 split \<le> psize - 16" "half newindx ns mp split (Suc (NUMKEYS mp)) \<le> psize - 16"
    using split_point_ok [OF wf sp cp(6,5) f(4,5) sz'] by blast
  define sep where "sep = fst (snd (insert_node newindx (undefined, fst new, undefined) (page_nodes mp) ! split))"
  have se: "split_sep split newindx (fst new) mp copy = Inr sep"
    unfolding sep_def by (rule split_sep_ok [OF wf st(3) nk(2,3) cp(6,5)]) simp
  have sepn: "sep = fst (snd (insert_node newindx nn (page_nodes mp) ! split))" if "fst (snd nn) = fst new" for nn
    using that st(3) nk(2) page_nodes_length [OF wf] by (simp add: sep_def insert_node_nth)
  have "2 * (EVEN (8 + length sep) + 2) \<le> psize - 16"
  proof (cases "split = newindx")
    case True
    then have "sep = fst new" using nk(2) page_nodes_length [OF wf] by (simp add: sep_def insert_node_nth)
    moreover have "EVEN (8 + length (fst new)) + 2 \<le> fst (snd ns)"
      unfolding ns_def item_spec_def by (auto simp: Let_def EVEN_def split: prod.split)
    ultimately show ?thesis using sz' by simp
  next
    case False
    let ?o = "old_index newindx split"
    have o: "?o < NUMKEYS mp" using False st(3) nk(2) by (auto simp: old_index_def)
    obtain d h k pay where n: "page_nodes mp ! ?o = (h, k, pay)" "length k = unat (mn_ksize h)" by (rule page_node_nth [OF wf o]) blast
    have "sep = k" using False nk(2) st(3) page_nodes_length [OF wf] n(1) by (simp add: sep_def insert_node_nth)
    then have "EVEN (8 + length sep) + 2 \<le> node_space mp ?o"
      using n by (auto simp: node_space_def node_len_def EVEN_def)
    then show ?thesis using nk(4) o by fastforce
  qed
  moreover have "split_moved nodemax psize newpg split newindx new mp rp copy sep tf" if "empty_page psize (IS_LEAF mp) rp" for rp tf
  proof -
    have "split_start nodemax psize newpg newindx ns mp rp copy"
      using that wf n2 nk nok f(1) cp by (simp add: split_start_def empty_page_def)
    from split_nodes_ok [OF this st(2-5), of tf] obtain mp' s nn where
      q: "split_nodes nodemax psize newpg split newindx new mp rp copy tf = Inr (0, mp', s)" "page_wf psize mp'" "page_wf psize (sp_rp s)" "spec_node ns nn"
      "page_nodes mp' = blank_first (IS_LEAF mp) (take split (insert_node newindx nn (page_nodes mp)))"
      "page_nodes (sp_rp s) = blank_first (IS_LEAF mp) (drop split (insert_node newindx nn (page_nodes mp)))"
      "mp_flags mp' = mp_flags mp" "mp_flags (sp_rp s) = mp_flags rp" "sp_flags s = tf" "sp_big s = snd (snd (snd ns))"
      "sp_ki s = (if newindx < split then newindx else newindx - split)" unfolding f(2) by blast
    show ?thesis unfolding split_moved_def Let_def ns_def [symmetric] using q sepn [OF f(6) [OF q(4)]] by blast
  qed
  ultimately show ?thesis using cp(1) st(1-3) se unfolding f(3) by blast
qed

subsection \<open>The levels of a tree\<close>

definition children :: "(size_t \<Rightarrow> MDB_page) \<Rightarrow> size_t \<Rightarrow> size_t list" where
  "children f g = map (\<lambda>n. NODEPGNO (fst n)) (page_nodes (f g))"

fun lev :: "(size_t \<Rightarrow> MDB_page) \<Rightarrow> size_t \<Rightarrow> nat \<Rightarrow> size_t list" where
  "lev f root 0 = [root]"
| "lev f root (Suc k) = concat (map (children f) (lev f root k))"

definition above :: "(size_t \<Rightarrow> MDB_page) \<Rightarrow> size_t \<Rightarrow> nat \<Rightarrow> size_t set" where
  "above f root k = (\<Union>j<k. set (lev f root j))"

text \<open>A page number occurs once in the tree.\<close>

definition levels_distinct :: "(size_t \<Rightarrow> MDB_page) \<Rightarrow> size_t \<Rightarrow> nat \<Rightarrow> bool" where
  "levels_distinct f root k \<longleftrightarrow> (\<forall>j\<le>k. distinct (lev f root j) \<and> set (lev f root j) \<inter> above f root j = {})"

text \<open>A cursor: each page is the child of the next one at its index, and the last page is the root.\<close>

fun path_ok :: "(size_t \<Rightarrow> MDB_page) \<Rightarrow> size_t \<Rightarrow> (size_t \<times> nat) list \<Rightarrow> bool" where
  "path_ok f root [] \<longleftrightarrow> False"
| "path_ok f root [(g, x)] \<longleftrightarrow> g = root"
| "path_ok f root ((g, x) # (pg, ki) # up) \<longleftrightarrow> ki < length (children f pg) \<and> children f pg ! ki = g \<and> path_ok f root ((pg, ki) # up)"

lemma above_Suc: "above f root (Suc k) = above f root k \<union> set (lev f root k)"
  by (auto simp: above_def less_Suc_eq)

lemma lev_frame:
  assumes "\<forall>y\<in>above f root k. f' y = f y"
  shows "lev f' root k = lev f root k \<and> above f' root k = above f root k"
  using assms
proof (induction k)
  case 0
  show ?case by (simp add: above_def)
next
  case (Suc k)
  have "lev f' root k = lev f root k" "above f' root k = above f root k" using Suc.IH Suc.prems by (auto simp: above_Suc)
  moreover have "children f' y = children f y" if "y \<in> set (lev f root k)" for y using Suc.prems that by (simp add: children_def above_Suc)
  ultimately show ?case by (auto simp: above_Suc intro!: arg_cong [of _ _ concat])
qed

lemma levels_distinctD:
  assumes "levels_distinct f root k" and "j \<le> k"
  shows "distinct (lev f root j)" and "set (lev f root j) \<inter> above f root j = {}"
  using assms by (simp_all add: levels_distinct_def)

lemma above_mono: "j \<le> k \<Longrightarrow> above f root j \<subseteq> above f root k"
  unfolding above_def by (intro UN_mono) auto

lemma path_lev: "path_ok f root ((g, x) # up) \<Longrightarrow> g \<in> set (lev f root (length up))"
proof (induction up arbitrary: g x)
  case (Cons e up)
  obtain pg ki where e: "e = (pg, ki)" by (cases e)
  then have "pg \<in> set (lev f root (length up))" "g \<in> set (children f pg)" using Cons by auto
  then show ?case by auto
qed simp

lemma path_index: "path_ok f root ((g, x) # up) \<longleftrightarrow> path_ok f root ((g, y) # up)"
  by (cases up) auto

lemma path_frame:
  assumes "path_ok f root ((g, x) # up)" and "\<forall>y\<in>above f root (length up). f' y = f y"
  shows "path_ok f' root ((g, x) # up)"
  using assms
proof (induction up arbitrary: g x)
  case (Cons e up)
  obtain pg ki where e: "e = (pg, ki)" by (cases e)
  have p: "path_ok f root ((pg, ki) # up)" "ki < length (children f pg)" "children f pg ! ki = g" using Cons.prems(1) by (simp_all add: e)
  have "f' pg = f pg" using path_lev [OF p(1)] Cons.prems(2) by (simp add: above_Suc)
  then have "children f' pg = children f pg" by (simp add: children_def)
  then show ?case using p Cons.IH [OF p(1)] Cons.prems(2) by (simp add: e above_Suc)
qed simp

text \<open>A child put behind \<open>g\<close> in a page above is a page put behind \<open>g\<close> in the level of \<open>g\<close>.\<close>

lemma level_grows:
  assumes lv: "lev f root j = A' @ pg # B'" and ki: "ki < length (children f pg)" "children f pg ! ki = g"
    and d: "distinct (lev f root (Suc j))"
    and l4: "lev f4 root4 (Suc k4) = concat (map (children f) A') @ insert_node (Suc ki) r (children f pg) @ concat (map (children f) B')"
    and AB: "lev f root (Suc j) = A @ g # B"
  shows "lev f4 root4 (Suc k4) = A @ g # r # B"
proof -
  define X where "X = concat (map (children f) A') @ take ki (children f pg)"
  define Y where "Y = drop (Suc ki) (children f pg) @ concat (map (children f) B')"
  have c: "children f pg = take ki (children f pg) @ g # drop (Suc ki) (children f pg)" using ki by (metis id_take_nth_drop)
  have xy: "lev f root (Suc j) = X @ g # Y"
    using c by (simp only: lev.simps lv map_append concat_append list.map concat.simps X_def Y_def append.assoc append_Cons) (metis append.assoc append_Cons)
  have "g \<notin> set A \<and> g \<notin> set B" using d unfolding AB by auto
  moreover have "A @ g # B = X @ g # Y" using AB xy by simp
  ultimately have "A = X" "B = Y" using append_Cons_eq_iff [of g A B X Y] by auto
  moreover have "insert_node (Suc ki) r (children f pg) = take ki (children f pg) @ g # r # drop (Suc ki) (children f pg)"
    using ki by (simp add: insert_node_def take_Suc_conv_app_nth)
  ultimately show ?thesis unfolding l4 by (simp add: X_def Y_def)
qed

lemma children_halves:
  assumes "page_nodes p = blank_first False (take sp ns)" and "page_nodes q = blank_first False (drop sp ns)"
  shows "map (\<lambda>n. NODEPGNO (fst n)) (page_nodes p) @ map (\<lambda>n. NODEPGNO (fst n)) (page_nodes q) = map (\<lambda>n. NODEPGNO (fst n)) ns"
proof -
  have b: "map (\<lambda>n. NODEPGNO (fst n)) (blank_first False ns) = map (\<lambda>n. NODEPGNO (fst n)) ns" for ns
    by (auto simp: blank_first_def blank_def NODEPGNO_def split: list.split)
  show ?thesis unfolding assms b by (simp flip: map_append)
qed

subsection \<open>What a split does to the tree\<close>

definition fresh :: "(nat \<Rightarrow> int \<times> MDB_page) \<Rightarrow> nat \<Rightarrow> nat \<Rightarrow> size_t set" where
  "fresh alloc n b = (\<lambda>i. mp_pgno (snd (alloc i))) ` {n..<b}"

definition branch_page :: "nat \<Rightarrow> MDB_page \<Rightarrow> bool" where
  "branch_page psize p \<longleftrightarrow> page_wf psize p \<and> \<not> IS_LEAF p \<and> \<not> IS_LEAF2 p"

text \<open>The level of \<open>g\<close> has \<open>r\<close> behind \<open>g\<close>; the pages above are those that were there and new ones, and are branch pages. The
  tree may be one level higher.\<close>

definition split_post :: "nat \<Rightarrow> size_t set \<Rightarrow> (size_t \<Rightarrow> MDB_page) \<Rightarrow> size_t \<Rightarrow> nat \<Rightarrow> size_t \<Rightarrow> size_t \<Rightarrow>
    (size_t \<Rightarrow> MDB_page) \<Rightarrow> size_t \<Rightarrow> nat \<Rightarrow> bool" where
  "split_post psize N f root k g r f' root' k' \<longleftrightarrow> (k' = k \<or> k' = Suc k) \<and>
     (\<forall>A B. lev f root k = A @ g # B \<longrightarrow> lev f' root' k' = A @ g # r # B) \<and>
     above f' root' k' \<subseteq> above f root k \<union> N \<and>
     ((\<forall>y\<in>above f root k. branch_page psize (f y)) \<longrightarrow> (\<forall>y\<in>above f' root' k'. branch_page psize (f' y)))"

lemma post_update:
  assumes "split_post psize N f root k g r f4 root' k'" and "g \<notin> above f root k \<union> N" and "r \<notin> above f root k \<union> N"
    and "\<And>y. y \<noteq> g \<Longrightarrow> y \<noteq> r \<Longrightarrow> f5 y = f4 y"
  shows "split_post psize N f root k g r f5 root' k'"
proof -
  have "y \<noteq> g \<and> y \<noteq> r" if "y \<in> above f4 root' k'" for y using assms(1-3) that unfolding split_post_def by auto
  then have "\<forall>y\<in>above f4 root' k'. f5 y = f4 y" using assms(4) by simp
  then show ?thesis using assms(1) lev_frame [of f4 root' k' f5] unfolding split_post_def by simp
qed

lemma post_up:
  assumes lv: "lev f root j = A' @ pg # B'" and ki: "ki < length (children f pg)" "children f pg ! ki = g" and d: "distinct (lev f root (Suc j))"
    and l4: "lev f4 root4 k4 = A' @ ps @ B'" and ps: "concat (map (children f4) ps) = insert_node (Suc ki) r (children f pg)"
    and rest: "\<forall>y\<in>set A' \<union> set B'. f4 y = f y" and k4: "k4 = j \<or> k4 = Suc j"
    and ab: "above f4 root4 k4 \<subseteq> above f root j \<union> N" and psub: "set ps \<subseteq> {pg} \<union> N"
    and wf: "(\<forall>y\<in>above f root j. branch_page psize (f y)) \<longrightarrow> (\<forall>y\<in>above f4 root4 k4. branch_page psize (f4 y))"
    and psb: "\<forall>y\<in>set ps. branch_page psize (f4 y)"
  shows "split_post psize N f root (Suc j) g r f4 root4 (Suc k4)"
proof -
  have c: "map (children f4) A' = map (children f) A'" "map (children f4) B' = map (children f) B'"
    using rest by (simp_all add: children_def)
  have "lev f4 root4 (Suc k4) = concat (map (children f) A') @ insert_node (Suc ki) r (children f pg) @ concat (map (children f) B')"
    by (simp add: l4 c ps)
  note g = level_grows [OF lv ki d this]
  have a: "above f4 root4 (Suc k4) = above f4 root4 k4 \<union> (set A' \<union> set ps \<union> set B')" "above f root (Suc j) = above f root j \<union> (set A' \<union> {pg} \<union> set B')"
    by (auto simp: above_Suc l4 lv)
  have "above f4 root4 (Suc k4) \<subseteq> above f root (Suc j) \<union> N" using ab psub unfolding a by blast
  moreover have "\<forall>y\<in>above f4 root4 (Suc k4). branch_page psize (f4 y)" if w: "\<forall>y\<in>above f root (Suc j). branch_page psize (f y)"
    using w wf psb rest unfolding a by (metis Un_iff)
  ultimately show ?thesis using g k4 unfolding split_post_def by blast
qed

text \<open>The three ways to put \<open>r\<close> into the parent: there is room, the parent is split, or the parent is a new root.\<close>

lemma post_room:
  assumes lv: "lev f root j = A' @ pg # B'" and ki: "ki < length (children f pg)" "children f pg ! ki = g" and ld: "levels_distinct f root (Suc j)"
    and f3: "\<And>y. y \<noteq> r \<Longrightarrow> f3 y = f y" and r: "r \<notin> above f root (Suc j)" and f4: "f4 = f3(pg := p')"
    and p': "page_nodes p' = insert_node (Suc ki) nn (page_nodes (f pg))" "NODEPGNO (fst nn) = r" "branch_page psize p'"
  shows "split_post psize N f root (Suc j) g r f4 root (Suc j)"
proof (rule post_up [OF lv ki, where ps = "[pg]"])
  have d: "distinct (lev f root j)" "pg \<notin> above f root j" using levels_distinctD [OF ld, of j] lv by auto
  show "distinct (lev f root (Suc j))" using levels_distinctD [OF ld] by blast
  have "y \<noteq> r \<and> y \<noteq> pg" if "y \<in> above f root j" for y using that d(2) r by (auto simp: above_Suc)
  then have fr: "\<forall>y\<in>above f root j. f4 y = f y" using f3 by (simp add: f4)
  from lev_frame [OF fr] show "lev f4 root j = A' @ [pg] @ B'" "above f4 root j \<subseteq> above f root j \<union> N"
    "(\<forall>y\<in>above f root j. branch_page psize (f y)) \<longrightarrow> (\<forall>y\<in>above f4 root j. branch_page psize (f4 y))"
    using lv fr by auto
  have "y \<noteq> r \<and> y \<noteq> pg" if "y \<in> set A' \<union> set B'" for y using that d(1) r by (auto simp: above_Suc lv)
  then show "\<forall>y\<in>set A' \<union> set B'. f4 y = f y" using f3 by (simp add: f4)
  show "concat (map (children f4) [pg]) = insert_node (Suc ki) r (children f pg)"
    using p'(1,2) by (simp add: children_def f4 insert_node_def take_map drop_map)
qed (use p' f4 in auto)

lemma post_split:
  assumes lv: "lev f root j = A' @ pg # B'" and ki: "ki < length (children f pg)" "children f pg ! ki = g" and ld: "levels_distinct f root (Suc j)"
    and f3: "\<And>y. y \<noteq> r \<Longrightarrow> f3 y = f y" and r: "r \<notin> above f root (Suc j)"
    and ih: "split_post psize N' f3 root j pg r4 f4 root4 k4" and N: "N' \<subseteq> N" "r4 \<in> N"
    and fr: "\<And>y. y \<notin> above f root j \<Longrightarrow> y \<notin> N \<Longrightarrow> y \<noteq> pg \<Longrightarrow> f4 y = f3 y"
    and new: "set (lev f root j) \<inter> N = {}"
    and p': "page_nodes (f4 pg) = blank_first False (take sp (insert_node (Suc ki) nn (page_nodes (f pg))))"
      "page_nodes (f4 r4) = blank_first False (drop sp (insert_node (Suc ki) nn (page_nodes (f pg))))" "NODEPGNO (fst nn) = r"
      "branch_page psize (f4 pg)" "branch_page psize (f4 r4)"
  shows "split_post psize N f root (Suc j) g r f4 root4 (Suc k4)"
proof (rule post_up [OF lv ki, where ps = "[pg, r4]"])
  have d: "distinct (lev f root j)" "set (lev f root j) \<inter> above f root j = {}" using levels_distinctD [OF ld, of j] by auto
  show "distinct (lev f root (Suc j))" using levels_distinctD [OF ld] by blast
  have "y \<noteq> r" if "y \<in> above f root j" for y using that r by (auto simp: above_Suc)
  then have f3': "\<forall>y\<in>above f root j. f3 y = f y" using f3 by simp
  note e = lev_frame [OF f3']
  show "lev f4 root4 k4 = A' @ [pg, r4] @ B'" using ih e lv unfolding split_post_def by auto
  show "k4 = j \<or> k4 = Suc j" "above f4 root4 k4 \<subseteq> above f root j \<union> N" using ih e N(1) unfolding split_post_def by auto
  show "(\<forall>y\<in>above f root j. branch_page psize (f y)) \<longrightarrow> (\<forall>y\<in>above f4 root4 k4. branch_page psize (f4 y))"
    using ih e f3' unfolding split_post_def by auto
  show "\<forall>y\<in>set A' \<union> set B'. f4 y = f y"
  proof
    fix y
    assume y: "y \<in> set A' \<union> set B'"
    then have "y \<in> set (lev f root j)" "y \<noteq> pg" using d(1) unfolding lv by auto
    moreover from this have "y \<noteq> r" using r by (auto simp: above_Suc)
    ultimately show "f4 y = f y" using fr d(2) new f3 by (metis disjoint_iff)
  qed
  show "concat (map (children f4) [pg, r4]) = insert_node (Suc ki) r (children f pg)"
    using children_halves [OF p'(1,2)] p'(3) by (simp add: children_def insert_node_def take_map drop_map)
qed (use p' N in auto)

lemma post_root:
  assumes "f4 pp = p'" and "map (\<lambda>n. NODEPGNO (fst n)) (page_nodes p') = [g, r]" and "branch_page psize p'" and "pp \<in> N"
  shows "split_post psize N f g 0 g r f4 pp (Suc 0)"
proof -
  have "lev f4 pp (Suc 0) = [g, r]" using assms(1,2) by (simp add: children_def)
  moreover have "lev f g 0 = A @ g # B \<Longrightarrow> A = [] \<and> B = []" for A B by (cases A) auto
  ultimately show ?thesis using assms by (auto simp: split_post_def above_Suc) (auto simp: above_def)
qed

subsection \<open>The parent\<close>

lemma branch_header: "new_header False key None pgno flags = fst (branch_node (opt_bytes key) pgno)"
  by (cases key) (simp_all add: new_header_def branch_node_def opt_bytes_def SETPGNO_def)

lemma branch_write:
  assumes wf: "page_wf psize p" and b: "\<not> IS_LEAF p" "\<not> IS_LEAF2 p" and i: "indx \<le> NUMKEYS p" and ro: "8 + length (opt_bytes key) + 2 \<le> unat (SIZELEFT p)"
  shows "\<exists>p'. mdb_node_add nodemax psize pad newpg indx key None pgno flags p tf = Inr (0, p', tf, None) \<and>
    node_write indx key None pgno flags In_node (EVEN (8 + length (opt_bytes key))) p = Inr p' \<and>
    page_wf psize p' \<and> mp_flags p' = mp_flags p \<and> page_nodes p' = insert_node indx (branch_node (opt_bytes key) pgno) (page_nodes p)"
proof -
  let ?ns = "EVEN (8 + length (opt_bytes key))"
  have pl: "place_ok (IS_LEAF p) flags In_node None" using b by (simp add: place_ok_def)
  have "even (unat (SIZELEFT p))" using page_wfD(4,5,10) [OF wf] SIZELEFT_eq(1) [OF wf] by simp
  then have full: "\<not> unat (SIZELEFT p) < ?ns + 2" using ro unfolding EVEN_def by presburger
  have call: "mdb_node_add nodemax psize pad newpg indx key None pgno flags p tf =
     node_update (int (unat (SIZELEFT p)) - 2) indx key None pgno flags In_node ?ns p tf"
    using b SIZELEFT_eq(2) [OF wf] by (cases key) (simp_all add: mdb_node_add_def NODESIZE_def opt_bytes_def)
  obtain p' where p': "node_write indx key None pgno flags In_node ?ns p = Inr p'" "page_wf psize p'" "mp_flags p' = mp_flags p"
    "page_nodes p' = insert_node indx (branch_node (opt_bytes key) pgno) (page_nodes p)"
    using node_write_inserts [OF wf pl i _ room_for [OF wf full], of key pgno] b
    by (auto simp: payload_len_def new_payload_def insert_node_def branch_header) (simp add: branch_node_def)
  then show ?thesis using full by (simp add: call node_update_def not_room)
qed

lemma root_add:
  assumes e: "empty_page psize False pp" and ps: "20 \<le> psize - 16"
  shows "\<exists>p'. mdb_node_add nodemax psize 0 newpg 0 None None g 0 pp tf = Inr (0, p', tf, None) \<and> page_wf psize p' \<and> mp_flags p' = mp_flags pp \<and>
    page_nodes p' = [branch_node [] g] \<and> unat (SIZELEFT p') = psize - 26"
proof -
  have wf: "page_wf psize pp" and n: "page_nodes pp = []" and fl: "\<not> IS_LEAF pp" "\<not> IS_LEAF2 pp" and sl: "unat (SIZELEFT pp) = psize - 16"
    using e by (simp_all add: empty_page_def)
  have nk: "NUMKEYS pp = 0" using page_nodes_length [OF wf] n by simp
  have ro: "8 + length (opt_bytes None) + 2 \<le> unat (SIZELEFT pp)" using ps sl by (simp add: opt_bytes_def)
  obtain p' where p': "mdb_node_add nodemax psize 0 newpg 0 None None g 0 pp tf = Inr (0, p', tf, None)"
    "node_write 0 None None g 0 In_node 8 pp = Inr p'" "page_wf psize p'" "mp_flags p' = mp_flags pp" "page_nodes p' = [branch_node [] g]"
    using branch_write [OF wf fl _ ro, of 0 nodemax 0 newpg g 0 tf] nk n by (auto simp: opt_bytes_def insert_node_def EVEN_def)
  have cap: "NUMKEYS pp < length (mp_ptrs pp)" using nk ps page_wfD(3) [OF wf] by simp
  note lay = node_write_layout [OF p'(2) [folded nk] cap]
  have up: "unat (mp_upper pp) = psize" using sl SIZELEFT_eq(1) [OF wf] page_wfD(4,6) [OF wf] nk ps by simp
  have "unat (mp_upper p') = psize - 8"
    unfolding lay(1) using up ps by (subst unat_sub) (simp_all add: word_le_nat_alt)
  moreover have "NUMKEYS p' = 1" using page_nodes_length [OF p'(3)] p'(5) by simp
  ultimately have "unat (SIZELEFT p') = psize - 26" using SIZELEFT_eq(1) [OF p'(3)] page_wfD(4) [OF p'(3)] by simp
  then show ?thesis using p' by blast
qed

lemma split_call:
  assumes "split_new psize alloc (ucast (mp_flags (sm_page m g))) m = (0, Some rp0, m1)"
    and "rp = rp0\<lparr>mp_pad := mp_pad (sm_page m g)\<rparr>" and "r = mp_pgno rp"
    and "split_parent nodemax psize newpg alloc (sm_page m g) up (set_page r rp m1) = Inr (0, (pg, ki) # upup, m2)"
    and "malloc (sm_mallocs m2) = Some copy0" and "m3 = m2\<lparr>sm_mallocs := Suc (sm_mallocs m2)\<rparr>"
    and "split_copy psize x (sm_page m g) copy0 = Inr copy"
    and "split_point psize x (split_nsize nodemax (IS_LEAF (sm_page m g)) (length (fst new)) (item_len new)) (sm_page m g) copy = Inr sp"
    and "split_sep sp x (fst new) (sm_page m g) copy = Inr sep"
    and "split_link nodemax psize newpg (mdb_page_split fuel nodemax psize newpg alloc malloc) r sep pg ki upup m3 = Inr (0, m4)"
    and "split_nodes nodemax psize newpg sp x new (sm_page m4 g) (sm_page m4 r) copy (sm_flags m4) = Inr (0, mp', s)"
  shows "mdb_page_split (Suc fuel) nodemax psize newpg alloc malloc ((g, x) # up) new m =
    Inr (0, (set_page g mp' (set_page r (sp_rp s) m4))\<lparr>sm_flags := sp_flags s, sm_big := sp_big s\<rparr>, if x < sp then g else r, sp_ki s)"
  using assms by (simp add: mdb_page_split.simps Let_def)

subsection \<open>The whole path\<close>

definition alloc_ok :: "nat \<Rightarrow> (nat \<Rightarrow> int \<times> MDB_page) \<Rightarrow> nat \<Rightarrow> nat \<Rightarrow> size_t set \<Rightarrow> bool" where
  "alloc_ok psize alloc n b S \<longleftrightarrow> inj_on (\<lambda>i. mp_pgno (snd (alloc i))) {n..<b} \<and>
     (\<forall>i. n \<le> i \<and> i < b \<longrightarrow> fst (alloc i) = 0 \<and> fresh_page psize (snd (alloc i)) \<and> mp_pgno (snd (alloc i)) < 2 ^ 48 \<and> mp_pgno (snd (alloc i)) \<notin> S)"

text \<open>What a call of \<open>mdb_page_split\<close> starts from: a cursor in a tree, pages that can be split, a node that takes at most half a page, and
  as many new pages as there may be splits and a new root.\<close>

definition split_pre :: "nat \<Rightarrow> nat \<Rightarrow> (nat \<Rightarrow> int \<times> size_t) \<Rightarrow> (nat \<Rightarrow> int \<times> MDB_page) \<Rightarrow> (nat \<Rightarrow> MDB_page option) \<Rightarrow> nat \<Rightarrow> size_t \<Rightarrow>
    size_t \<Rightarrow> nat \<Rightarrow> (size_t \<times> nat) list \<Rightarrow> split_item \<Rightarrow> split_mem \<Rightarrow> bool" where
  "split_pre nodemax psize newpg alloc malloc b root g x up new m \<longleftrightarrow> (let f = sm_page m in
     psize_ok psize \<and> nodemax < 2 ^ 32 \<and> (\<forall>i. \<exists>c. malloc i = Some c \<and> fresh_page psize c) \<and>
     alloc_ok psize alloc (sm_news m) b (above f root (Suc (length up))) \<and> sm_news m + length up + 1 < b \<and>
     path_ok f root ((g, x) # up) \<and> md_root (sm_db m) = root \<and> levels_distinct f root (length up) \<and>
     (\<forall>(p, i)\<in>set ((g, x) # up). page_ok nodemax psize (f p) \<and> mp_pgno (f p) = p \<and> p < 2 ^ 48) \<and>
     splittable psize (f g) x \<and> (\<forall>(p, i)\<in>set up. \<not> IS_LEAF (f p) \<and> splittable psize (f p) (Suc i)) \<and>
     item_ok nodemax psize newpg (IS_LEAF (f g)) new \<and> 2 * split_nsize nodemax (IS_LEAF (f g)) (length (fst new)) (item_len new) \<le> psize - 16)"

lemma preD:
  assumes "split_pre nodemax psize newpg alloc malloc b root g x up new m"
  shows "psize_ok psize" "nodemax < 2 ^ 32" "\<And>i. \<exists>c. malloc i = Some c \<and> fresh_page psize c"
    "alloc_ok psize alloc (sm_news m) b (above (sm_page m) root (Suc (length up)))" "sm_news m + length up + 1 < b"
    "path_ok (sm_page m) root ((g, x) # up)" "md_root (sm_db m) = root" "levels_distinct (sm_page m) root (length up)"
    "\<And>p i. (p, i) \<in> set ((g, x) # up) \<Longrightarrow> page_ok nodemax psize (sm_page m p) \<and> mp_pgno (sm_page m p) = p \<and> p < 2 ^ 48"
    "splittable psize (sm_page m g) x" "\<And>p i. (p, i) \<in> set up \<Longrightarrow> \<not> IS_LEAF (sm_page m p) \<and> splittable psize (sm_page m p) (Suc i)"
    "item_ok nodemax psize newpg (IS_LEAF (sm_page m g)) new" "2 * split_nsize nodemax (IS_LEAF (sm_page m g)) (length (fst new)) (item_len new) \<le> psize - 16"
  using assms unfolding split_pre_def Let_def by blast+

definition new_page :: "(nat \<Rightarrow> int \<times> MDB_page) \<Rightarrow> nat \<Rightarrow> size_t" where
  "new_page alloc n = mp_pgno (snd (alloc n))"

text \<open>What it ends in.\<close>

definition split_done :: "nat \<Rightarrow> nat \<Rightarrow> (nat \<Rightarrow> int \<times> size_t) \<Rightarrow> (nat \<Rightarrow> int \<times> MDB_page) \<Rightarrow> nat \<Rightarrow> size_t \<Rightarrow>
    size_t \<Rightarrow> nat \<Rightarrow> nat \<Rightarrow> split_item \<Rightarrow> split_mem \<Rightarrow> split_mem \<Rightarrow> size_t \<times> nat \<Rightarrow> bool" where
  "split_done nodemax psize newpg alloc b root g x k new m m' w \<longleftrightarrow>
     (let f = sm_page m; f' = sm_page m'; r = new_page alloc (sm_news m); leaf = IS_LEAF (f g); ns = item_spec nodemax psize newpg leaf new in
      sm_flags m' = sm_flags m \<and> sm_big m' = snd (snd (snd ns)) \<and>
      (\<exists>k'. split_post psize (fresh alloc (Suc (sm_news m)) b) f root k g r f' (md_root (sm_db m')) k') \<and>
      (\<forall>y. y \<notin> above f root k \<union> fresh alloc (sm_news m) b \<union> {g} \<longrightarrow> f' y = f y) \<and>
      (\<forall>p\<in>{g, r}. page_wf psize (f' p) \<and> IS_LEAF (f' p) = leaf \<and> \<not> IS_LEAF2 (f' p)) \<and>
      (\<exists>sp nn. 0 < sp \<and> sp \<le> NUMKEYS (f g) \<and> spec_node ns nn \<and> w = (if x < sp then (g, x) else (r, x - sp)) \<and>
         page_nodes (f' g) = blank_first leaf (take sp (insert_node x nn (page_nodes (f g)))) \<and>
         page_nodes (f' r) = blank_first leaf (drop sp (insert_node x nn (page_nodes (f g))))))"

text \<open>What the link to the parent leaves.\<close>

definition split_linked :: "nat \<Rightarrow> (nat \<Rightarrow> int \<times> MDB_page) \<Rightarrow> nat \<Rightarrow> size_t \<Rightarrow> size_t \<Rightarrow> nat \<Rightarrow> split_mem \<Rightarrow> MDB_page \<Rightarrow> split_mem \<Rightarrow> bool" where
  "split_linked psize alloc b root g k m rp m4 \<longleftrightarrow>
     (let f = sm_page m; f4 = sm_page m4; r = new_page alloc (sm_news m); N = fresh alloc (Suc (sm_news m)) b in
      sm_flags m4 = sm_flags m \<and> f4 r = rp \<and> (\<forall>y. y \<notin> above f root k \<union> N \<union> {r} \<longrightarrow> f4 y = f y) \<and>
      (\<exists>k'. split_post psize N f root k g r f4 (md_root (sm_db m4)) k'))"

lemma fresh_Suc:
  assumes "n < b"
  shows "fresh alloc n b = insert (new_page alloc n) (fresh alloc (Suc n) b)"
proof -
  have "{n..<b} = insert n {Suc n..<b}" using assms by auto
  then show ?thesis by (simp add: fresh_def new_page_def)
qed

lemma alloc_okD:
  assumes "alloc_ok psize alloc n b S" and "n \<le> i" and "i < b"
  shows "alloc i = (0, snd (alloc i))" "fresh_page psize (snd (alloc i))" "new_page alloc i < 2 ^ 48" "new_page alloc i \<notin> S"
    "new_page alloc i \<notin> fresh alloc (Suc i) b"
proof -
  show "alloc i = (0, snd (alloc i))" "fresh_page psize (snd (alloc i))" "new_page alloc i < 2 ^ 48" "new_page alloc i \<notin> S"
    using assms by (simp_all add: alloc_ok_def new_page_def prod_eq_iff)
  show "new_page alloc i \<notin> fresh alloc (Suc i) b"
  proof
    assume "new_page alloc i \<in> fresh alloc (Suc i) b"
    then obtain j where "Suc i \<le> j" "j < b" "mp_pgno (snd (alloc i)) = mp_pgno (snd (alloc j))" by (auto simp: fresh_def new_page_def)
    then have "i = j" using assms by (intro inj_onD [of "\<lambda>i. mp_pgno (snd (alloc i))" "{n..<b}"]) (auto simp: alloc_ok_def)
    then show False using \<open>Suc i \<le> j\<close> by simp
  qed
qed

lemma alloc_ok_mono: "alloc_ok psize alloc n b S \<Longrightarrow> n \<le> n' \<Longrightarrow> S' \<subseteq> S \<Longrightarrow> alloc_ok psize alloc n' b S'"
  unfolding alloc_ok_def by (auto intro: inj_on_subset)

lemma fresh_disjoint: "alloc_ok psize alloc n b S \<Longrightarrow> n \<le> n' \<Longrightarrow> S \<inter> fresh alloc n' b = {}"
  by (auto simp: alloc_ok_def fresh_def)

text \<open>The page that is split was the root.\<close>

lemma link_root:
  assumes pre: "split_pre nodemax psize newpg alloc malloc b root g x [] new m" and ps: "20 \<le> psize - 16"
    and m1: "sm_page m1 = (sm_page m)(new_page alloc (sm_news m) := rp)" "sm_news m1 = Suc (sm_news m)" "sm_flags m1 = sm_flags m"
    and sep: "2 * (EVEN (8 + length sep) + 2) \<le> psize - 16"
  shows "\<exists>pg ki upup m2 m4. split_parent nodemax psize newpg alloc (sm_page m g) [] m1 = Inr (0, (pg, ki) # upup, m2) \<and>
    split_link nodemax psize newpg split (new_page alloc (sm_news m)) sep pg ki upup (m2\<lparr>sm_mallocs := Suc (sm_mallocs m2)\<rparr>) = Inr (0, m4) \<and>
    split_linked psize alloc b root g 0 m rp m4"
proof -
  note d = preD [OF pre]
  let ?n = "sm_news m" and ?r = "new_page alloc (sm_news m)" and ?pp = "new_page alloc (Suc (sm_news m))"
  have nb: "?n < b" "Suc ?n < b" using d(5) by auto
  note a0 = alloc_okD [OF d(4) order_refl nb(1)] and a1 = alloc_okD [OF d(4) _ nb(2), simplified]
  have root: "g = root" and mpg: "mp_pgno (sm_page m g) = g" "g < 2 ^ 48" using d(6,9) by auto
  have ppN: "?pp \<in> fresh alloc (Suc ?n) b" using fresh_Suc [OF nb(2), of alloc] by simp
  then have pr: "?pp \<noteq> ?r" using a0(5) by auto
  have al: "alloc (sm_news m1) = (0, snd (alloc (Suc ?n)))" using a1(1) m1(2) by simp
  have fb: "F_ISSET P_BRANCH P_LEAF \<or> F_ISSET P_BRANCH P_BRANCH" "\<not> F_ISSET P_BRANCH P_LEAF2" "\<not> F_ISSET P_BRANCH P_LEAF"
    by (simp_all add: F_ISSET_def P_BRANCH_def P_LEAF2_def P_LEAF_def)
  obtain pp db where pp: "split_new psize alloc (ucast P_BRANCH) m1 = (0, Some pp, m1\<lparr>sm_db := db, sm_news := Suc (sm_news m1)\<rparr>)"
    "mp_pgno pp = ?pp" "empty_page psize False pp"
    using split_new_ok [where alloc = alloc and m = m1, OF al a1(2) d(1) fb(1,2)] fb(3) by (auto simp: new_page_def)
  obtain p1 where p1: "mdb_node_add nodemax psize 0 newpg 0 None None g 0 pp (sm_flags m1) = Inr (0, p1, sm_flags m1, None)" "page_wf psize p1"
    "mp_flags p1 = mp_flags pp" "page_nodes p1 = [branch_node [] g]" "unat (SIZELEFT p1) = psize - 26"
    using root_add [OF pp(3) ps] by blast
  have fl: "\<not> IS_LEAF p1" "\<not> IS_LEAF2 p1" using p1(3) pp(3) by (simp_all add: empty_page_def IS_LEAF_def IS_LEAF2_def)
  have nk: "1 \<le> NUMKEYS p1" using page_nodes_length [OF p1(2)] p1(4) by simp
  have "8 + length sep \<le> EVEN (8 + length sep)" by (rule EVEN_ge)
  then have room: "8 + length (opt_bytes (Some sep)) + 2 \<le> unat (SIZELEFT p1)" using sep ps p1(5) by (simp add: opt_bytes_def)
  obtain p2 where p2: "mdb_node_add nodemax psize 0 newpg 1 (Some sep) None ?r 0 p1 (sm_flags m1) = Inr (0, p2, sm_flags m1, None)" "page_wf psize p2"
    "mp_flags p2 = mp_flags p1" "page_nodes p2 = insert_node 1 (branch_node sep ?r) (page_nodes p1)"
    using branch_write [OF p1(2) fl nk room, of nodemax 0 newpg ?r 0 "sm_flags m1"] by (auto simp: opt_bytes_def)
  have ch: "map (\<lambda>n. NODEPGNO (fst n)) (page_nodes p2) = [g, ?r]"
    using NODEPGNO_SETPGNO [OF mpg(2)] NODEPGNO_SETPGNO [OF a0(3)] by (simp add: p2(4) p1(4) insert_node_def branch_node_def)
  have bp: "branch_page psize p2" using p2(2,3) fl by (simp add: branch_page_def IS_LEAF_def IS_LEAF2_def)
  define m2 where "m2 = (set_page ?pp p1 m1)\<lparr>sm_flags := sm_flags m1, sm_news := Suc (sm_news m1), sm_db := db\<lparr>md_root := ?pp, md_depth := md_depth db + 1\<rparr>\<rparr>"
  define m4 where "m4 = (set_page ?pp p2 (m2\<lparr>sm_mallocs := Suc (sm_mallocs m2)\<rparr>))\<lparr>sm_flags := sm_flags m1\<rparr>"
  have par: "split_parent nodemax psize newpg alloc (sm_page m g) [] m1 = Inr (0, [(?pp, 0)], m2)"
    using pp(1,2) p1(1) mpg(1) by (simp add: split_parent_def m2_def set_page_def)
  have lk: "split_link nodemax psize newpg split ?r sep ?pp 0 [] (m2\<lparr>sm_mallocs := Suc (sm_mallocs m2)\<rparr>) = Inr (0, m4)"
    using p2(1) room by (simp add: split_link_def m2_def m4_def set_page_def mdb_branch_size_def NODESIZE_def opt_bytes_def)
  have f4: "sm_page m4 = (sm_page m)(?r := rp, ?pp := p2)" "md_root (sm_db m4) = ?pp" "sm_flags m4 = sm_flags m"
    using m1(1,3) by (simp_all add: m4_def m2_def set_page_def fun_eq_iff)
  have "split_post psize (fresh alloc (Suc ?n) b) (sm_page m) g 0 g ?r (sm_page m4) ?pp (Suc 0)"
    by (rule post_root [OF _ ch bp ppN]) (simp add: f4)
  then have "split_linked psize alloc b root g 0 m rp m4"
    using f4 pr ppN root by (auto simp: split_linked_def Let_def)
  then show ?thesis using par lk by blast
qed

text \<open>The parent is on the path. \<open>split_rec\<close> is what the recursive call does, for the proof by induction on the path.\<close>

definition split_rec :: "nat \<Rightarrow> nat \<Rightarrow> nat \<Rightarrow> (nat \<Rightarrow> int \<times> size_t) \<Rightarrow> (nat \<Rightarrow> int \<times> MDB_page) \<Rightarrow> (nat \<Rightarrow> MDB_page option) \<Rightarrow> nat \<Rightarrow> size_t \<Rightarrow>
    (size_t \<times> nat) list \<Rightarrow> bool" where
  "split_rec fuel nodemax psize newpg alloc malloc b root up \<longleftrightarrow> (\<forall>g x new m. split_pre nodemax psize newpg alloc malloc b root g x up new m \<longrightarrow>
     (\<exists>m' w. mdb_page_split fuel nodemax psize newpg alloc malloc ((g, x) # up) new m = Inr (0, m', w) \<and>
        split_done nodemax psize newpg alloc b root g x (length up) new m m' w))"

lemma branch_nsize: "split_nsize nodemax False k v = EVEN (8 + k) + 2"
  by (simp add: split_nsize_def mdb_branch_size_def NODESIZE_def EVEN_def) presburger

lemma pre_parent:
  assumes pre: "split_pre nodemax psize newpg alloc malloc b root g x ((pg, ki) # up) new m"
    and f3: "sm_page m3 = (sm_page m)(new_page alloc (sm_news m) := rp)" "sm_news m3 = Suc (sm_news m)" "md_root (sm_db m3) = root"
    and sep: "2 * (EVEN (8 + length sep) + 2) \<le> psize - 16"
  shows "split_pre nodemax psize newpg alloc malloc b root pg (Suc ki) up (sep, None, new_page alloc (sm_news m), 0) m3"
proof -
  note d = preD [OF pre]
  let ?f = "sm_page m" and ?f3 = "sm_page m3" and ?r = "new_page alloc (sm_news m)"
  have r: "?r \<notin> above ?f root (Suc (Suc (length up)))" using alloc_okD(4) [OF d(4) order_refl] d(5) by simp
  have fr: "\<forall>y\<in>above ?f root (Suc (Suc (length up))). ?f3 y = ?f y" using r f3(1) by auto
  have lv: "lev ?f3 root j = lev ?f root j" "above ?f3 root j = above ?f root j" if "j \<le> Suc (Suc (length up))" for j
    using lev_frame [of ?f root j ?f3] fr above_mono [OF that, of ?f root] by auto
  have pth: "path_ok ?f root ((pg, ki) # up)" using d(6) by simp
  have pin: "p \<in> above ?f root (Suc (Suc (length up)))" if "(p, i) \<in> set ((pg, ki) # up)" for p i
    using pth that
  proof (induction up arbitrary: pg ki)
    case Nil
    then show ?case using path_lev [of ?f root pg ki "[]"] by (simp add: above_Suc)
  next
    case (Cons e up)
    then show ?case using path_lev [of ?f root pg ki "e # up"] above_mono [of "Suc (Suc (length up))" "Suc (Suc (length (e # up)))" ?f root]
      by (cases e) (auto simp: above_Suc)
  qed
  have same: "?f3 p = ?f p" if "(p, i) \<in> set ((pg, ki) # up)" for p i using fr pin [OF that] by simp
  have "\<forall>y\<in>above ?f root (length up). ?f3 y = ?f y" using fr above_mono [of "length up" "Suc (Suc (length up))" ?f root] by auto
  from path_frame [OF pth this] have "path_ok ?f3 root ((pg, Suc ki) # up)" using path_index [of ?f3 root pg ki up "Suc ki"] by blast
  moreover have "levels_distinct ?f3 root (length up)" using d(8) lv by (simp add: levels_distinct_def)
  moreover have "alloc_ok psize alloc (sm_news m3) b (above ?f3 root (Suc (length up)))"
    using alloc_ok_mono [OF d(4), of "sm_news m3" "above ?f3 root (Suc (length up))"] lv(2) [of "Suc (length up)"] above_mono [of "Suc (length up)" "Suc (Suc (length up))" ?f root] f3(2) by simp
  moreover have "\<forall>(p, i)\<in>set ((pg, Suc ki) # up). page_ok nodemax psize (?f3 p) \<and> mp_pgno (?f3 p) = p \<and> p < 2 ^ 48"
  proof -
    have "page_ok nodemax psize (?f3 p) \<and> mp_pgno (?f3 p) = p \<and> p < 2 ^ 48" if "(p, i) \<in> set ((pg, ki) # up)" for p i
      using that same [OF that] d(9) [of p i] by simp
    then show ?thesis by auto
  qed
  moreover have "\<forall>(p, i)\<in>set up. \<not> IS_LEAF (?f3 p) \<and> splittable psize (?f3 p) (Suc i)"
    using same d(11) by fastforce
  moreover have lf: "IS_LEAF (?f3 pg) = False" and "splittable psize (?f3 pg) (Suc ki)" using same [of pg ki] d(11) [of pg ki] by simp_all
  moreover have "item_ok nodemax psize newpg (IS_LEAF (?f3 pg)) (sep, None, ?r, 0)" by (simp add: lf item_ok_def)
  moreover have "2 * split_nsize nodemax (IS_LEAF (?f3 pg)) (length (fst (sep, None, ?r, 0))) (item_len (sep, None, ?r, 0)) \<le> psize - 16"
    using sep by (simp add: lf branch_nsize)
  moreover have "sm_news m3 + length up + 1 < b" using d(5) f3(2) by simp
  ultimately show ?thesis using d(1,2,3) f3(3) unfolding split_pre_def Let_def by blast
qed

lemma link_up:
  assumes pre: "split_pre nodemax psize newpg alloc malloc b root g x ((pg, ki) # up) new m"
    and f3: "sm_page m3 = (sm_page m)(new_page alloc (sm_news m) := rp)" "sm_news m3 = Suc (sm_news m)" "md_root (sm_db m3) = root"
      "sm_flags m3 = sm_flags m"
    and sep: "2 * (EVEN (8 + length sep) + 2) \<le> psize - 16"
    and rec: "split_rec fuel nodemax psize newpg alloc malloc b root up"
  shows "\<exists>m4. split_link nodemax psize newpg (mdb_page_split fuel nodemax psize newpg alloc malloc) (new_page alloc (sm_news m)) sep pg ki up m3 = Inr (0, m4) \<and>
    split_linked psize alloc b root g (Suc (length up)) m rp m4"
proof -
  note d = preD [OF pre]
  let ?n = "sm_news m" and ?f = "sm_page m" and ?r = "new_page alloc (sm_news m)" and ?N = "fresh alloc (Suc (sm_news m)) b" and ?j = "length up"
  have nb: "?n < b" "Suc ?n < b" using d(5) by auto
  note a0 = alloc_okD [OF d(4) order_refl nb(1)]
  have r: "?r \<notin> above ?f root (Suc ?j)" "?r \<notin> above ?f root ?j" "?r \<noteq> pg"
    using a0(4) path_lev [of ?f root pg ki up] d(6) by (auto simp: above_Suc)
  have pg: "sm_page m3 pg = ?f pg" and f3': "\<And>y. y \<noteq> ?r \<Longrightarrow> sm_page m3 y = ?f y" using f3(1) r(3) by auto
  have ki: "ki < length (children ?f pg)" "children ?f pg ! ki = g" using d(6) by simp_all
  have ld: "levels_distinct ?f root (Suc ?j)" using d(8) by simp
  obtain A' B' where lv: "lev ?f root ?j = A' @ pg # B'" using path_lev [of ?f root pg ki up] d(6) split_list by force
  have ok: "page_wf psize (?f pg)" "\<not> IS_LEAF (?f pg)" "\<not> IS_LEAF2 (?f pg)" using d(9) [of pg ki] d(11) [of pg ki] by (auto simp: page_ok_def)
  have nk: "Suc ki \<le> NUMKEYS (?f pg)" using ki(1) page_nodes_length [OF ok(1)] by (simp add: children_def)
  have nr: "NODEPGNO (fst (branch_node sep ?r)) = ?r" using NODEPGNO_SETPGNO [OF a0(3)] by (simp add: branch_node_def)
  show ?thesis
  proof (cases "unat (SIZELEFT (?f pg)) < mdb_branch_size (Some (length sep))")
    case False
    then have ro: "8 + length (opt_bytes (Some sep)) + 2 \<le> unat (SIZELEFT (?f pg))" by (simp add: mdb_branch_size_def NODESIZE_def opt_bytes_def)
    obtain p' where p': "mdb_node_add nodemax psize 0 newpg (Suc ki) (Some sep) None ?r 0 (?f pg) (sm_flags m3) = Inr (0, p', sm_flags m3, None)"
      "page_wf psize p'" "mp_flags p' = mp_flags (?f pg)" "page_nodes p' = insert_node (Suc ki) (branch_node sep ?r) (page_nodes (?f pg))"
      using branch_write [OF ok nk ro, of nodemax 0 newpg ?r 0 "sm_flags m3"] by (auto simp: opt_bytes_def)
    define m4 where "m4 = (set_page pg p' m3)\<lparr>sm_flags := sm_flags m3\<rparr>"
    have bp: "branch_page psize p'" using p'(2,3) ok by (simp add: branch_page_def IS_LEAF_def IS_LEAF2_def)
    have f4: "sm_page m4 = (sm_page m3)(pg := p')" "sm_db m4 = sm_db m3" "sm_flags m4 = sm_flags m" by (simp_all add: m4_def set_page_def f3(4))
    have "split_post psize ?N ?f root (Suc ?j) g ?r (sm_page m4) root (Suc ?j)"
      by (rule post_room [OF lv ki ld f3' r(1) f4(1) p'(4) nr bp])
    moreover have "sm_page m4 y = ?f y" if "y \<notin> above ?f root (Suc ?j) \<union> ?N \<union> {?r}" for y
      using that f4(1) f3' path_lev [of ?f root pg ki up] d(6) by (auto simp: above_Suc)
    moreover have "sm_page m4 ?r = rp" using f4(1) f3(1) r(3) by simp
    ultimately have "split_linked psize alloc b root g (Suc ?j) m rp m4"
      using f4 f3(3) by (auto simp: split_linked_def Let_def)
    moreover have "split_link nodemax psize newpg (mdb_page_split fuel nodemax psize newpg alloc malloc) ?r sep pg ki up m3 = Inr (0, m4)"
      using False p'(1) pg by (simp add: split_link_def m4_def)
    ultimately show ?thesis by blast
  next
    case True
    let ?r4 = "new_page alloc (Suc ?n)" and ?N' = "fresh alloc (Suc (Suc ?n)) b"
    obtain m4 w where m4: "mdb_page_split fuel nodemax psize newpg alloc malloc ((pg, Suc ki) # up) (sep, None, ?r, 0) m3 = Inr (0, m4, w)"
      "split_done nodemax psize newpg alloc b root pg (Suc ki) ?j (sep, None, ?r, 0) m3 m4 w"
      using rec pre_parent [OF pre f3(1-3) sep] unfolding split_rec_def by blast
    have N: "?N = insert ?r4 ?N'" by (rule fresh_Suc [OF nb(2)])
    have lf: "IS_LEAF (?f pg) = False" using ok(2) by simp
    have "\<forall>y\<in>above ?f root ?j. sm_page m3 y = ?f y" using f3' r(2) by metis
    then have ab: "above (sm_page m3) root ?j = above ?f root ?j" using lev_frame by blast
    have nspec: "nn = branch_node sep ?r" if "spec_node (item_spec nodemax psize newpg False (sep, None, ?r, 0)) nn" for nn
      using that by (simp add: spec_node_def item_spec_def Let_def)
    note M0 = m4(2) [unfolded split_done_def Let_def f3(2) lf ab pg f3(4)]
    note M = M0 [THEN conjunct1] M0 [THEN conjunct2, THEN conjunct2, THEN conjunct1] M0 [THEN conjunct2, THEN conjunct2, THEN conjunct2, THEN conjunct1]
      M0 [THEN conjunct2, THEN conjunct2, THEN conjunct2, THEN conjunct2, THEN conjunct1] M0 [THEN conjunct2, THEN conjunct2, THEN conjunct2, THEN conjunct2, THEN conjunct2]
    obtain k4 where D1: "split_post psize ?N' (sm_page m3) root ?j pg ?r4 (sm_page m4) (md_root (sm_db m4)) k4" using M(2) by blast
    have D2: "\<And>y. y \<notin> above ?f root ?j \<Longrightarrow> y \<notin> ?N \<Longrightarrow> y \<noteq> pg \<Longrightarrow> sm_page m4 y = sm_page m3 y" using M(3) by simp
    have D3: "branch_page psize (sm_page m4 pg)" "branch_page psize (sm_page m4 ?r4)" using M(4) by (simp_all add: branch_page_def)
    obtain sp nn where D4: "nn = branch_node sep ?r"
      "page_nodes (sm_page m4 pg) = blank_first False (take sp (insert_node (Suc ki) nn (page_nodes (?f pg))))"
      "page_nodes (sm_page m4 ?r4) = blank_first False (drop sp (insert_node (Suc ki) nn (page_nodes (?f pg))))"
      using M(5) nspec by metis
    have new: "set (lev ?f root ?j) \<inter> ?N = {}"
      using fresh_disjoint [OF d(4), of "Suc ?n"] above_mono [of "Suc ?j" "Suc (length ((pg, ki) # up))" ?f root] by (auto simp: above_Suc)
    have nn: "NODEPGNO (fst nn) = ?r" using D4(1) nr by simp
    have N1: "?N' \<subseteq> ?N" "?r4 \<in> ?N" using N by auto
    have "split_post psize ?N ?f root (Suc ?j) g ?r (sm_page m4) (md_root (sm_db m4)) (Suc k4)"
      by (rule post_split [OF lv ki ld f3' r(1) D1 N1 D2 new D4(2,3) nn D3])
    moreover have "sm_page m4 y = ?f y" if "y \<notin> above ?f root (Suc ?j) \<union> ?N \<union> {?r}" for y
      using that D2 [of y] f3' [of y] path_lev [of ?f root pg ki up] d(6) by (auto simp: above_Suc)
    moreover have "sm_page m4 ?r = rp" using D2 [of ?r] r(2,3) a0(5) f3(1) by simp
    ultimately have "split_linked psize alloc b root g (Suc ?j) m rp m4" using M(1) by (auto simp: split_linked_def Let_def)
    moreover have "split_link nodemax psize newpg (mdb_page_split fuel nodemax psize newpg alloc malloc) ?r sep pg ki up m3 = Inr (0, m4)"
      using True m4(1) pg by (simp add: split_link_def)
    ultimately show ?thesis by blast
  qed
qed

lemma empty_page_pad: "empty_page psize leaf (p\<lparr>mp_pad := w\<rparr>) = empty_page psize leaf p"
  by (simp add: empty_page_def page_wf_def page_nodes_def page_offs_def NUMKEYS_def SIZELEFT_def IS_LEAF_def IS_LEAF2_def)

lemma nsize_ge: "10 \<le> split_nsize nodemax leaf k v"
  by (cases leaf; simp add: split_nsize_def mdb_leaf_size_def mdb_branch_size_def NODESIZE_def EVEN_def Let_def; presburger)

text \<open>From the link to the parent to the end.\<close>

lemma split_finish:
  assumes pre: "split_pre nodemax psize newpg alloc malloc b root g x up new m" and lk: "split_linked psize alloc b root g (length up) m rp m4"
    and rp: "empty_page psize (IS_LEAF (sm_page m g)) rp"
    and sp: "0 < sp" "sp \<le> NUMKEYS (sm_page m g)" and nn: "spec_node (item_spec nodemax psize newpg (IS_LEAF (sm_page m g)) new) nn"
    and mp': "page_wf psize mp'" "mp_flags mp' = mp_flags (sm_page m g)" "page_nodes mp' = blank_first (IS_LEAF (sm_page m g)) (take sp (insert_node x nn (page_nodes (sm_page m g))))"
    and rp': "page_wf psize rp'" "mp_flags rp' = mp_flags rp" "page_nodes rp' = blank_first (IS_LEAF (sm_page m g)) (drop sp (insert_node x nn (page_nodes (sm_page m g))))"
    and m': "sm_page m' = (sm_page m4)(new_page alloc (sm_news m) := rp', g := mp')" "sm_db m' = sm_db m4" "sm_flags m' = sm_flags m4"
      "sm_big m' = snd (snd (snd (item_spec nodemax psize newpg (IS_LEAF (sm_page m g)) new)))"
  shows "split_done nodemax psize newpg alloc b root g x (length up) new m m' (if x < sp then (g, x) else (new_page alloc (sm_news m), x - sp))"
proof -
  note d = preD [OF pre]
  let ?f = "sm_page m" and ?f' = "sm_page m'" and ?r = "new_page alloc (sm_news m)" and ?N = "fresh alloc (Suc (sm_news m)) b" and ?k = "length up"
  have nb: "sm_news m < b" using d(5) by simp
  note a0 = alloc_okD [OF d(4) order_refl nb]
  have gl: "g \<in> set (lev ?f root ?k)" using path_lev [OF d(6)] .
  then have g: "g \<notin> above ?f root ?k \<union> ?N" "g \<noteq> ?r"
    using levels_distinctD(2) [OF d(8) order_refl] fresh_disjoint [OF d(4), of "Suc (sm_news m)"] a0(4) by (auto simp: above_Suc)
  have r: "?r \<notin> above ?f root ?k \<union> ?N" using a0(4,5) by (simp add: above_Suc)
  obtain k' where post: "split_post psize ?N ?f root ?k g ?r (sm_page m4) (md_root (sm_db m4)) k'" using lk unfolding split_linked_def Let_def by blast
  have F1: "split_post psize ?N ?f root ?k g ?r ?f' (md_root (sm_db m')) k'"
    unfolding m'(2) by (rule post_update [OF post g(1) r]) (simp add: m'(1))
  have F2: "\<forall>y. y \<notin> above ?f root ?k \<union> fresh alloc (sm_news m) b \<union> {g} \<longrightarrow> ?f' y = ?f y"
    using lk fresh_Suc [OF nb, of alloc] unfolding split_linked_def Let_def m'(1) by simp
  have F3: "\<forall>p\<in>{g, ?r}. page_wf psize (?f' p) \<and> IS_LEAF (?f' p) = IS_LEAF (?f g) \<and> \<not> IS_LEAF2 (?f' p)"
    using g(2) mp'(1,2) rp'(1,2) rp d(9) [of g x] by (auto simp: m'(1) page_ok_def empty_page_def IS_LEAF_def IS_LEAF2_def)
  have F4: "page_nodes (?f' g) = blank_first (IS_LEAF (?f g)) (take sp (insert_node x nn (page_nodes (?f g))))"
    "page_nodes (?f' ?r) = blank_first (IS_LEAF (?f g)) (drop sp (insert_node x nn (page_nodes (?f g))))"
    using g(2) mp'(3) rp'(3) by (simp_all add: m'(1))
  have F5: "sm_flags m' = sm_flags m" using lk m'(3) by (simp add: split_linked_def Let_def)
  show ?thesis unfolding split_done_def Let_def using F1 F2 F3 F4 F5 m'(4) sp nn by blast
qed

lemma page_split_level:
  assumes pre: "split_pre nodemax psize newpg alloc malloc b root g x up new m"
    and rec: "\<And>pg ki upup. up = (pg, ki) # upup \<Longrightarrow> split_rec fuel nodemax psize newpg alloc malloc b root upup"
  shows "\<exists>m' w. mdb_page_split (Suc fuel) nodemax psize newpg alloc malloc ((g, x) # up) new m = Inr (0, m', w) \<and>
    split_done nodemax psize newpg alloc b root g x (length up) new m m' w"
proof -
  note d = preD [OF pre]
  let ?mp = "sm_page m g" and ?r = "new_page alloc (sm_news m)"
  have nb: "sm_news m < b" using d(5) by simp
  note a0 = alloc_okD [OF d(4) order_refl nb]
  have ok: "page_ok nodemax psize ?mp" using d(9) [of g x] by simp
  then have fl: "F_ISSET (mp_flags ?mp) P_LEAF \<or> F_ISSET (mp_flags ?mp) P_BRANCH" "\<not> F_ISSET (mp_flags ?mp) P_LEAF2"
    by (auto simp: page_ok_def IS_LEAF_def IS_BRANCH_def IS_LEAF2_def)
  obtain rp0 db where rp0: "split_new psize alloc (ucast (mp_flags ?mp)) m = (0, Some rp0, m\<lparr>sm_db := db, sm_news := Suc (sm_news m)\<rparr>)"
    "mp_pgno rp0 = ?r" "empty_page psize (IS_LEAF ?mp) rp0" "md_root db = root"
    using split_new_ok [where alloc = alloc and m = m, OF a0(1,2) d(1) fl] d(7) unfolding new_page_def IS_LEAF_def by blast
  define rp where "rp = rp0\<lparr>mp_pad := mp_pad ?mp\<rparr>"
  have rp: "mp_pgno rp = ?r" "empty_page psize (IS_LEAF ?mp) rp" using rp0(2,3) by (simp_all add: rp_def empty_page_pad)
  define m1 where "m1 = set_page ?r rp (m\<lparr>sm_db := db, sm_news := Suc (sm_news m)\<rparr>)"
  have m1: "sm_page m1 = (sm_page m)(?r := rp)" "sm_news m1 = Suc (sm_news m)" "md_root (sm_db m1) = root" "sm_flags m1 = sm_flags m"
    using rp0(4) by (simp_all add: m1_def set_page_def)
  have ps: "20 \<le> psize - 16" using d(13) nsize_ge [of nodemax "IS_LEAF ?mp" "length (fst new)" "item_len new"] by linarith
  have link: "\<exists>pg ki upup m2 m4. split_parent nodemax psize newpg alloc ?mp up m1 = Inr (0, (pg, ki) # upup, m2) \<and>
    split_link nodemax psize newpg (mdb_page_split fuel nodemax psize newpg alloc malloc) ?r sep pg ki upup (m2\<lparr>sm_mallocs := Suc (sm_mallocs m2)\<rparr>) = Inr (0, m4) \<and>
    split_linked psize alloc b root g (length up) m rp m4" if sep: "2 * (EVEN (8 + length sep) + 2) \<le> psize - 16" for sep
  proof (cases up)
    case Nil
    then show ?thesis using link_root [OF pre [unfolded Nil] ps m1(1,2,4) sep] by simp
  next
    case (Cons e upup)
    obtain pg ki where e: "up = (pg, ki) # upup" using Cons by (cases e) auto
    have m3: "sm_page (m1\<lparr>sm_mallocs := n\<rparr>) = (sm_page m)(?r := rp)" "sm_news (m1\<lparr>sm_mallocs := n\<rparr>) = Suc (sm_news m)"
      "md_root (sm_db (m1\<lparr>sm_mallocs := n\<rparr>)) = root" "sm_flags (m1\<lparr>sm_mallocs := n\<rparr>) = sm_flags m" for n
      using m1 by simp_all
    show ?thesis
      using link_up [OF pre [unfolded e] m3 [of "Suc (sm_mallocs m1)"] sep rec [OF e]] by (auto simp: split_parent_def e)
  qed
  have "2 * (EVEN (8 + length ([] :: u8 list)) + 2) \<le> psize - 16" using ps by (simp add: EVEN_def)
  from link [OF this] obtain pg ki upup m2 where par: "split_parent nodemax psize newpg alloc ?mp up m1 = Inr (0, (pg, ki) # upup, m2)" by blast
  obtain copy0 where c0: "malloc (sm_mallocs m2) = Some copy0" "fresh_page psize copy0" using d(3) by blast
  obtain copy sp sep where rdy: "split_copy psize x ?mp copy0 = Inr copy"
    "split_point psize x (split_nsize nodemax (IS_LEAF ?mp) (length (fst new)) (item_len new)) ?mp copy = Inr sp" "0 < sp" "sp \<le> NUMKEYS ?mp"
    "split_sep sp x (fst new) ?mp copy = Inr sep" "2 * (EVEN (8 + length sep) + 2) \<le> psize - 16"
    and nodes: "\<And>tf. split_moved nodemax psize newpg sp x new ?mp rp copy sep tf"
    using split_ready [OF ok d(10,1,2,12,13) c0(2)] rp(2) by blast
  define m3 where "m3 = m2\<lparr>sm_mallocs := Suc (sm_mallocs m2)\<rparr>"
  obtain m4 where m4: "split_link nodemax psize newpg (mdb_page_split fuel nodemax psize newpg alloc malloc) ?r sep pg ki upup m3 = Inr (0, m4)"
    "split_linked psize alloc b root g (length up) m rp m4"
    using link [OF rdy(6)] unfolding par m3_def by auto
  have gr: "g \<noteq> ?r" "g \<notin> above (sm_page m) root (length up) \<union> fresh alloc (Suc (sm_news m)) b"
    using path_lev [OF d(6)] a0(4) levels_distinctD(2) [OF d(8) order_refl] fresh_disjoint [OF d(4), of "Suc (sm_news m)"] by (auto simp: above_Suc)
  have f4: "sm_page m4 g = ?mp" "sm_page m4 ?r = rp" using m4(2) gr by (simp_all add: split_linked_def Let_def)
  obtain mp' s nn where sn: "split_nodes nodemax psize newpg sp x new ?mp rp copy (sm_flags m4) = Inr (0, mp', s)"
    "page_wf psize mp'" "page_wf psize (sp_rp s)" "spec_node (item_spec nodemax psize newpg (IS_LEAF ?mp) new) nn"
    "page_nodes mp' = blank_first (IS_LEAF ?mp) (take sp (insert_node x nn (page_nodes ?mp)))"
    "page_nodes (sp_rp s) = blank_first (IS_LEAF ?mp) (drop sp (insert_node x nn (page_nodes ?mp)))"
    "mp_flags mp' = mp_flags ?mp" "mp_flags (sp_rp s) = mp_flags rp" "sp_flags s = sm_flags m4"
    "sp_big s = snd (snd (snd (item_spec nodemax psize newpg (IS_LEAF ?mp) new)))" "sp_ki s = (if x < sp then x else x - sp)"
    using nodes [of "sm_flags m4"] unfolding split_moved_def Let_def by blast
  define m' where "m' = (set_page g mp' (set_page ?r (sp_rp s) m4))\<lparr>sm_flags := sp_flags s, sm_big := sp_big s\<rparr>"
  have m': "sm_page m' = (sm_page m4)(?r := sp_rp s, g := mp')" "sm_db m' = sm_db m4" "sm_flags m' = sm_flags m4"
    "sm_big m' = snd (snd (snd (item_spec nodemax psize newpg (IS_LEAF ?mp) new)))"
    using sn(9,10) by (simp_all add: m'_def set_page_def)
  have "mdb_page_split (Suc fuel) nodemax psize newpg alloc malloc ((g, x) # up) new m = Inr (0, m', if x < sp then g else ?r, sp_ki s)"
    unfolding m'_def
    by (rule split_call [OF rp0(1) rp_def rp(1) [symmetric] _ c0(1) m3_def rdy(1,2,5) m4(1)]) (use par sn(1) f4 m1_def in auto)
  then have "mdb_page_split (Suc fuel) nodemax psize newpg alloc malloc ((g, x) # up) new m = Inr (0, m', if x < sp then (g, x) else (?r, x - sp))"
    using sn(11) by simp
  moreover have "split_done nodemax psize newpg alloc b root g x (length up) new m m' (if x < sp then (g, x) else (?r, x - sp))"
    by (rule split_finish [OF pre m4(2) rp(2) rdy(3,4) sn(4,2,7,5,3,8,6) m'])
  ultimately show ?thesis by blast
qed

lemma page_split_rec:
  assumes "length up < fuel"
  shows "split_rec fuel nodemax psize newpg alloc malloc b root up"
  using assms
proof (induction up arbitrary: fuel)
  case Nil
  then obtain fl where fl: "fuel = Suc fl" by (cases fuel) auto
  show ?case unfolding split_rec_def fl by (intro allI impI, rule page_split_level) simp_all
next
  case (Cons e up)
  then obtain fl where fl: "fuel = Suc fl" "length up < fl" by (cases fuel) auto
  show ?case unfolding split_rec_def fl(1) by (intro allI impI, rule page_split_level) (use Cons.IH [OF fl(2)] in simp_all)
qed

subsection \<open>The leaves\<close>

definition leaves :: "(size_t \<Rightarrow> MDB_page) \<Rightarrow> size_t \<Rightarrow> nat \<Rightarrow> node list" where
  "leaves f root h = concat (map (\<lambda>g. page_nodes (f g)) (lev f root h))"

lemma blank_first_leaf: "blank_first True ns = ns"
  by (cases ns) (simp_all add: blank_first_def)

text \<open>C6: \<open>mdb_page_split\<close> on a full leaf page, with a cursor on it, returns 0: the nodes of the leaves, from left to right,
  are those of before with the new node at the cursor's place, whether the parent has room for the separator, is split itself, up to
  the root, or is a new root. The pages above the leaves are well-formed branch pages, the transaction is not marked as failed, and the
  page and index that are returned are those of the new node. The pages of the path are \<open>splittable\<close>: the layouts in which the middle is taken and one half
  does not fit, where the code returns \<open>MDB_PAGE_FULL\<close> (\<open>middle_split_full\<close>), are left out.\<close>

theorem page_split_inserts:
  assumes pre: "split_pre nodemax psize newpg alloc malloc b root g x up new m" and leaf: "IS_LEAF (sm_page m g)" and fuel: "length up < fuel"
    and lv: "lev (sm_page m) root (length up) = A @ g # B" and br: "\<forall>y\<in>above (sm_page m) root (length up). branch_page psize (sm_page m y)"
  shows "\<exists>m' g' x' h nn. mdb_page_split fuel nodemax psize newpg alloc malloc ((g, x) # up) new m = Inr (0, m', g', x') \<and>
     (h = length up \<or> h = Suc (length up)) \<and> spec_node (item_spec nodemax psize newpg True new) nn \<and>
     leaves (sm_page m) root (length up) =
       concat (map (\<lambda>y. page_nodes (sm_page m y)) A) @ page_nodes (sm_page m g) @ concat (map (\<lambda>y. page_nodes (sm_page m y)) B) \<and>
     leaves (sm_page m') (md_root (sm_db m')) h =
       concat (map (\<lambda>y. page_nodes (sm_page m y)) A) @ insert_node x nn (page_nodes (sm_page m g)) @ concat (map (\<lambda>y. page_nodes (sm_page m y)) B) \<and>
     g' \<in> set (lev (sm_page m') (md_root (sm_db m')) h) \<and> x' < length (page_nodes (sm_page m' g')) \<and> page_nodes (sm_page m' g') ! x' = nn \<and>
     (\<forall>y\<in>above (sm_page m') (md_root (sm_db m')) h. branch_page psize (sm_page m' y)) \<and> sm_flags m' = sm_flags m"
proof -
  note d = preD [OF pre]
  let ?f = "sm_page m" and ?k = "length up" and ?r = "new_page alloc (sm_news m)" and ?ns = "page_nodes (sm_page m g)"
  have lf: "IS_LEAF (?f g) = True" using leaf by simp
  obtain m' w where m': "mdb_page_split fuel nodemax psize newpg alloc malloc ((g, x) # up) new m = Inr (0, m', w)"
    "split_done nodemax psize newpg alloc b root g x ?k new m m' w"
    using page_split_rec [OF fuel] pre unfolding split_rec_def by blast
  note D = m'(2) [unfolded split_done_def Let_def lf blank_first_leaf]
  have fl: "sm_flags m' = sm_flags m" and fr: "\<forall>y. y \<notin> above ?f root ?k \<union> fresh alloc (sm_news m) b \<union> {g} \<longrightarrow> sm_page m' y = ?f y" using D by blast+
  obtain h where h: "split_post psize (fresh alloc (Suc (sm_news m)) b) ?f root ?k g ?r (sm_page m') (md_root (sm_db m')) h" using D by blast
  obtain sp nn where sp: "0 < sp" "sp \<le> NUMKEYS (?f g)" "spec_node (item_spec nodemax psize newpg True new) nn" "w = (if x < sp then (g, x) else (?r, x - sp))"
    "page_nodes (sm_page m' g) = take sp (insert_node x nn ?ns)" "page_nodes (sm_page m' ?r) = drop sp (insert_node x nn ?ns)" using D by blast
  have lv': "lev (sm_page m') (md_root (sm_db m')) h = A @ g # ?r # B" using h lv unfolding split_post_def by blast
  have "page_nodes (sm_page m' y) = page_nodes (?f y)" if y: "y \<in> set A \<union> set B" for y
  proof -
    have "y \<in> set (lev ?f root ?k)" "y \<noteq> g" using y levels_distinctD(1) [OF d(8) order_refl] unfolding lv by auto
    then show ?thesis
      using fr levels_distinctD(2) [OF d(8) order_refl] fresh_disjoint [OF d(4) order_refl] by (auto simp: above_Suc)
  qed
  then have same: "map (\<lambda>y. page_nodes (sm_page m' y)) A = map (\<lambda>y. page_nodes (?f y)) A" "map (\<lambda>y. page_nodes (sm_page m' y)) B = map (\<lambda>y. page_nodes (?f y)) B"
    by simp_all
  have all: "leaves (sm_page m') (md_root (sm_db m')) h =
       concat (map (\<lambda>y. page_nodes (?f y)) A) @ insert_node x nn ?ns @ concat (map (\<lambda>y. page_nodes (?f y)) B)"
    by (simp add: leaves_def lv' same sp(5,6))
  have wf: "page_wf psize (?f g)" using d(9) [of g x] by (simp add: page_ok_def)
  have nk: "x \<le> length ?ns" "length ?ns = NUMKEYS (?f g)" using d(10) page_nodes_length [OF wf] by (auto simp: splittable_def Let_def)
  obtain g' x' where w: "w = (g', x')" by (cases w)
  have li: "length (insert_node x nn ?ns) = Suc (NUMKEYS (?f g))" using nk by (simp add: insert_node_def)
  have "g' \<in> {g, ?r} \<and> x' < length (page_nodes (sm_page m' g')) \<and> page_nodes (sm_page m' g') ! x' = nn"
    using w sp(2,4,5,6) li nk insert_node_nth [OF nk(1,1), of nn] by (cases "x < sp") auto
  moreover have "\<forall>y\<in>above (sm_page m') (md_root (sm_db m')) h. branch_page psize (sm_page m' y)" "h = ?k \<or> h = Suc ?k"
    using h br unfolding split_post_def by blast+
  ultimately show ?thesis using m'(1) w sp(3) all fl lv lv'
    by (intro exI [of _ m'] exI [of _ g'] exI [of _ x'] exI [of _ h] exI [of _ nn]) (auto simp: leaves_def)
qed

subsection \<open>A concrete split\<close>

text \<open>A leaf page of 64 bytes with four nodes, which is the root; the new node comes last.\<close>

definition four_nodes :: "node list" where
  "four_nodes = map (\<lambda>i. (leaf_header 0 2 0, [i, i], [])) [1, 2, 3, 4]"

definition root_mem :: "MDB_page \<Rightarrow> split_mem" where
  "root_mem p = \<lparr>sm_page = (\<lambda>_. p),
     sm_db = \<lparr>md_pad = 0, md_flags = 0, md_depth = 1, md_branch_pages = 0, md_leaf_pages = 1, md_overflow_pages = 0, md_entries = 4, md_root = 3\<rparr>,
     sm_news = 0, sm_mallocs = 0, sm_flags = 0, sm_big = None\<rparr>"

definition next_page :: "nat \<Rightarrow> int \<times> MDB_page" where
  "next_page i = (0, (blank_page 0)\<lparr>mp_pgno := (if i = 0 then 10 else 11)\<rparr>)"

lemma four_page:
  obtains p where "page_wf 64 p" and "IS_LEAF p" and "\<not> IS_LEAF2 p" and "page_nodes p = four_nodes" and "mp_pgno p = 3"
proof -
  have f: "\<not> F_ISSET 0 F_BIGDATA" by (simp add: F_BIGDATA_bit)
  note h = leaf_header_facts [OF _ _ f, of 2 0]
  have ok: "\<forall>n\<in>set four_nodes. node_ok 20 True n" using h by (auto simp: four_nodes_def node_ok_def)
  have s: "sum_list (map (\<lambda>n. node_len True (fst n) + 2) four_nodes) = 48" using h by (simp add: four_nodes_def node_len_def EVEN_def)
  have pg: "mp_pgno (blank_page P_LEAF) = 3" by (simp add: blank_page_def)
  note b = blank_page_facts(1,3,4) [of P_LEAF] blank_page_facts(5,7)
  from b(3) have sl: "unat (SIZELEFT (blank_page P_LEAF)) = 48" by simp
  obtain p where "page_wf 64 p" "mp_flags p = mp_flags (blank_page P_LEAF)" "mp_pgno p = 3" "page_nodes p = four_nodes"
    using page_with_nodes [OF b(1,5), of four_nodes 20] b(2,4) ok s sl pg by auto
  then show thesis using that b(4,5) by (simp add: IS_LEAF_def IS_LEAF2_def)
qed

lemma root_pre:
  assumes p: "page_wf 64 p" "IS_LEAF p" "\<not> IS_LEAF2 p" "page_nodes p = four_nodes" "mp_pgno p = 3"
  shows "split_pre 20 64 (\<lambda>_. (0, 0)) next_page (\<lambda>_. Some (blank_page 0)) 2 3 3 4 [] ([9, 9], Some [], 0, 0) (root_mem p)"
proof -
  have f: "\<not> F_ISSET 0 F_BIGDATA" by (simp add: F_BIGDATA_bit)
  note h = leaf_header_facts [OF _ _ f, of 2 0]
  have nk: "NUMKEYS p = 4" using page_nodes_length [OF p(1)] p(4) by (simp add: four_nodes_def)
  have nodes: "n = (leaf_header 0 2 0, [i, i], [])" if "n = four_nodes ! j" "j < 4" "i = of_nat (Suc j)" for n j i
    using that by (auto simp: four_nodes_def less_Suc_eq numeral_eq_Suc)
  have sp: "node_space p i = 12" if "i < 4" for i
    using nodes [OF refl that refl] h p(2,4) by (simp add: node_space_def node_len_def EVEN_def)
  have "node_ok 20 True n" if "n \<in> set four_nodes" for n using that h by (auto simp: four_nodes_def node_ok_def)
  then have "page_ok 20 64 p" using p by (simp add: page_ok_def)
  moreover have "splittable 64 p 4" using nk sp by (simp add: splittable_def)
  moreover have "fresh_page 64 (blank_page 0)" by (simp add: fresh_page_def blank_page_def)
  then have "alloc_ok 64 next_page 0 2 (above (\<lambda>_. p) 3 (Suc 0))"
    by (auto simp: alloc_ok_def next_page_def fresh_page_def above_def inj_on_def)
  moreover have "levels_distinct (\<lambda>_. p) 3 0" by (simp add: levels_distinct_def above_def)
  moreover have "fresh_page 64 (blank_page 0)" by (simp add: fresh_page_def blank_page_def)
  ultimately show ?thesis using p(2,5)
    by (simp add: split_pre_def root_mem_def psize_ok_def item_ok_def f split_nsize_def mdb_leaf_size_def NODESIZE_def EVEN_def item_len_def opt_bytes_def)
qed

theorem page_split_inserts_witness:
  "\<exists>p m' g' x' h. page_nodes p = four_nodes \<and>
     mdb_page_split 1 20 64 (\<lambda>_. (0, 0)) next_page (\<lambda>_. Some (blank_page 0)) [(3, 4)] ([9, 9], Some [], 0, 0) (root_mem p) = Inr (0, m', g', x') \<and>
     leaves (sm_page m') (md_root (sm_db m')) h = four_nodes @ [(leaf_header 0 2 0, [9, 9], [])]"
proof -
  obtain p where p: "page_wf 64 p" "IS_LEAF p" "\<not> IS_LEAF2 p" "page_nodes p = four_nodes" "mp_pgno p = 3" by (rule four_page)
  have sm: "sm_page (root_mem p) = (\<lambda>_. p)" by (simp add: root_mem_def)
  have four: "length four_nodes = 4" by (simp add: four_nodes_def)
  obtain m' g' x' h nn where r: "mdb_page_split 1 20 64 (\<lambda>_. (0, 0)) next_page (\<lambda>_. Some (blank_page 0)) [(3, 4)] ([9, 9], Some [], 0, 0) (root_mem p) = Inr (0, m', g', x')"
    "spec_node (item_spec 20 64 (\<lambda>_. (0, 0)) True ([9, 9], Some [], 0, 0)) nn"
    "leaves (sm_page m') (md_root (sm_db m')) h = insert_node 4 nn four_nodes"
    using page_split_inserts [OF root_pre [OF p], of 1 "[]" "[]"] p(2,4) by (auto simp: sm above_def simp del: One_nat_def)
  have "nn = (leaf_header 0 2 0, [9, 9], [])" using r(2) by (simp add: spec_node_def item_spec_def opt_bytes_def numeral_2_eq_2)
  then show ?thesis using r p(4) four by (auto simp: insert_node_def)
qed

end
