(* ===== verification/Spec2Isabelle.thy ===== *)
theory Spec2Isabelle
  imports Pool_Correct Pool_Limits Cook Logger Db_Correct Server Mdb_Commit Mdb_Recover Mdb_Readers Mdb_Dump_Tree Mdb_Split_Tree
begin

text \<open>
  \<^bold>\<open>A verification of trashdb\<close>

  trashdb is a small key-value server written in C. Its own code is under \<open>src/src\<close> and
  \<open>src/include\<close>; it stores its data with LMDB, whose sources it carries under \<open>src/lib/lmdb\<close>.

  \<^bold>\<open>The parts of the program.\<close> \<open>main.c\<close> sets up the signals and the listening sockets of
  \<open>server.c\<close>; the server accepts clients and hands them to \<open>buffy.c\<close>, which reads and writes framed
  messages through the byte buffers of \<open>message.c\<close>. A job goes to the scheduler \<open>cook.c\<close>, which
  picks a group of threads of the pool \<open>pool.c\<close>; the pool keeps its threads, groups and queues in
  the intrusive lists of \<open>il.h\<close>. The threads use the storage layer \<open>db.c\<close>, which calls LMDB.
  Everybody writes to the log through \<open>logger.c\<close>; \<open>utilities.c\<close> holds paths, sockets and addresses.
  In LMDB, \<open>mdb.c\<close> keeps B+trees of pages in a memory map and walks them with cursors, \<open>midl.c\<close> holds the
  lists of page numbers, and \<open>mdb_dump.c\<close> and \<open>mdb_load.c\<close> are the tools that write a database out as text and
  read it back.

  \<^bold>\<open>Conventions\<close> (theory \<open>Prelude\<close>). Machine integers are words of their C width. What C leaves
  undefined (a load through a bad pointer, an access outside an array, signed overflow, a second
  \<open>free\<close>), a failed \<open>assert\<close> and a loop that does not end are values of the type \<open>fault\<close>; an operation
  that can fault returns \<open>'a res\<close>. So a theorem of the form \<open>f x = Inr y\<close> states that \<open>f\<close> returns,
  and without undefined behaviour. Memory, clocks, sockets and library calls are arguments.

  \<^bold>\<open>The theories.\<close>
  \<^item> \<open>Prelude\<close>: words, flags, the fault monad. \<open>Arr\<close>: arrays with checked access, the binary search
    loop and the locale \<open>search_array\<close>. \<open>Fifo\<close>: the locales \<open>fifo\<close> and \<open>fifo_values\<close>, the
    contract of a first-in first-out container, with the lemmas of its clients.
  \<^item> \<open>Il\<close> (\<open>include/il.h\<close>): the intrusive list on a heap of nodes, the same operations on a list
    value (\<open>vlist\<close>), and the refinement between the two. Both are instances of \<open>fifo\<close>. The
    operations keep a ring, \<open>list_append\<close> and \<open>list_pop\<close> are a queue, \<open>for_each\<close> visits every node;
    \<open>list_rotate\<close> loses one from the counter every time.
  \<^item> \<open>Pool\<close> (\<open>src/pool.c\<close>): one function for each critical section of the pool (worker, manager,
    \<open>do_work\<close>, \<open>wait_pool\<close>, creation and destruction of groups), on the records \<open>TPool\<close>,
    \<open>TGroup\<close>, \<open>TThread\<close>. \<open>Pool_Group\<close>: the interleaving of these sections for one group as step
    relations \<open>internal\<close> and \<open>external\<close>, its invariant, and a measure that every internal step
    lowers. \<open>Pool_Correct\<close>: in every reachable state every accepted item is in one place, runs once
    and is freed once; no section faults; a group that is left alone finishes its work; destroying a
    group ends. \<open>Pool_Limits\<close>: what the calls do on every branch, the admission of groups, and where
    the accounting goes wrong.
  \<^item> \<open>Message\<close> (\<open>src/message.c\<close>): the growing byte buffer, an instance of \<open>fifo_values\<close>; the round
    trip through every reallocation, and the sizes at which the growth computation fails.
  \<^item> \<open>Utilities\<close> (\<open>src/utilities.c\<close>), \<open>Logger\<close> (\<open>src/logger.c\<close>), \<open>Cook\<close> (\<open>src/cook.c\<close>),
    \<open>Buffy\<close> (\<open>src/buffy.c\<close>), \<open>Server\<close> (\<open>src/server.c\<close>, \<open>src/main.c\<close>): the functions of these
    files and their properties. The logger is a step relation between writers and the log thread; its
    timestamp has no terminator, so the log thread faults on the first record it takes (\<open>logged_record_faults\<close>).
  \<^item> \<open>Db\<close> and \<open>Db_Correct\<close> (\<open>src/db.c\<close>): the storage layer over an LMDB that is an argument (the
    record of its calls), with the hypotheses on it named where they are used. A cursor gives the memory from the
    key on, since \<open>init_metadata\<close> reads the name of a database there as a string.
  \<^item> \<open>Midl\<close> (\<open>lib/lmdb/midl.c\<close>, \<open>midl.h\<close>): the ID lists, with cells, allocated length and 32 bit
    indices. \<open>Midl_Sort\<close>: \<open>mdb_midl_sort\<close> sorts, within its stack of 64 cells. \<open>Midl_Correct\<close>: the
    search (an instance of \<open>search_array\<close>), the merge in place, the append operations.
    \<open>Mid2l_Correct\<close>: the ID/pointer lists (a second instance of \<open>search_array\<close>) and the room that
    \<open>mdb_midl_need\<close> makes.
  \<^item> \<open>Mdb_Tools\<close> (\<open>lib/lmdb/mdb_dump.c\<close>, \<open>mdb_load.c\<close>): the printer, the line reader, the header
    parser and the loading loop; \<open>fgets\<close> gets the sizes of buffers as an \<open>int\<close>. \<open>Mdb_Roundtrip\<close> and \<open>Mdb_Dump_Load\<close>: values and headers
    come back as they went out, and \<open>mdb_load\<close> puts the records of a dump in order, with any LMDB behind it: \<open>recorded\<close>
    keeps the calls that an LMDB has answered with success.
  \<^item> \<open>Mdb_Page\<close> and \<open>Mdb_Page_Correct\<close> (\<open>lib/lmdb/mdb.c\<close>): the layout of pages and nodes byte by byte,
    \<open>mdb_node_add\<close>, \<open>mdb_node_del\<close>, \<open>mdb_page_new\<close> and the size functions. A well-formed page (\<open>page_wf\<close>) has its
    nodes apart from each other between \<open>mp_upper\<close> and the end; the operations keep that and act on the list of nodes.
  \<^item> \<open>Mdb_Cmp\<close>: the comparison functions and the locale \<open>key_order\<close>, the contract that the search relies
    on, interpreted for the default, the reverse and the integer comparison. \<open>Mdb_Search\<close>: \<open>mdb_node_search\<close>.
  \<^item> \<open>Mdb_Cursor\<close>: the read path, from \<open>mdb_page_get\<close> and \<open>mdb_page_search\<close> to \<open>mdb_get\<close> and \<open>mdb_cursor_get\<close>.
    \<open>Mdb_Page_Get\<close>: where a nested transaction finds its pages. \<open>Mdb_Tree\<close>: trees of pages (\<open>tree_ok\<close>,
    \<open>db_tree\<close>), their list of items, and the descent. \<open>Mdb_Get\<close>, \<open>Mdb_Sibling\<close>, \<open>Mdb_Scan\<close>: lookup, siblings,
    walks and ranges inside \<open>key_order\<close>. \<open>Mdb_Read\<close>: the same for the default comparison, with a database of three pages.
  \<^item> \<open>Mdb_Alloc\<close>: the allocation of pages in a write transaction, with the free list, the records of the free database, the reader table and the
    dirty list. \<open>Mdb_Alloc_Correct\<close>: a run of free pages is found and leaves the free list; no record that a reader may need is consumed.
    \<open>Mdb_Touch\<close>: \<open>mdb_page_copy\<close>, \<open>mdb_page_unspill\<close>, \<open>mdb_page_touch\<close>, \<open>mdb_cursor_touch\<close>. \<open>Mdb_Touch_Correct\<close>: a touched page is a
    copy under a new number, and its parent leads there. \<open>Mdb_Cow\<close>: the path of a cursor is copied, and the tree keeps its contents.
  \<^item> \<open>Mdb_Meta\<close>: the two meta pages: reading the header, creating a file, writing the meta page of a commit, and what a transaction takes from it. A commit is seen by
    the next transaction. \<open>Mdb_Recover\<close>: the bytes of the meta data; a \<open>mdb_env_write_meta\<close> that stops after any number of bytes leaves the last commit in force or completes the new one. \<open>Mdb_Readers\<close>: readers and a writer side by side, every load and store of the reader
    table a step; the snapshot of a running reader is never given up. \<open>Mdb_Flush\<close>: \<open>mdb_page_flush\<close> with its system calls. \<open>Mdb_Commit\<close>: the end of
    \<open>mdb_txn_commit\<close> (flush, sync, meta page; \<open>commit_write\<close>) makes the writer's tree of the main database the one that the next transaction reads, and readers are not disturbed at any moment of the writing.
  \<^item> \<open>Mdb_Split\<close>: the parts of \<open>mdb_page_split\<close>: the temporary copy, the choice of the split point, the separator and the loop that moves the nodes. Its lemmas
    show that the two pages have the nodes of the old one and the new node between them, when both halves fit (\<open>split_nodes_ok\<close>). \<open>Mdb_Split_Point\<close>: where the code looks for a
    split point both halves fit; where it takes the middle they need not (\<open>middle_split_full\<close>). \<open>Mdb_Split_Tree\<close>: \<open>mdb_page_split\<close> along the path of a cursor, up to a new
    root, inserts the node at its place in the leaves.
  \<^item> \<open>Mdb_Dump_Tree\<close>: a tree of pages goes through \<open>mdb_dump\<close> and \<open>mdb_load\<close>.

  \<^bold>\<open>Bounds and fuel.\<close> A loop whose end is not structural has a termination proof, or fuel: \<open>drain\<close>
  (one more than the elements), \<open>tcp_loop\<close>, \<open>clean_listening_sockets\<close>, \<open>reopen_dbs\<close>,
  \<open>destroy_pool_groups\<close>, \<open>load_records\<close> and \<open>load_dbs\<close> (one more than the entries), and
  \<open>sort_loop\<close> (\<open>2 n + 2\<close> rounds for \<open>n\<close> IDs), \<open>scan_loop\<close> (one more than the items), \<open>alloc_loop\<close> (one round
  when the free list has a run, else one per record of the free database) and \<open>search_root_loop\<close>
  (\<open>CURSOR_STACK + 2\<close> rounds: every round pushes a page or ends) and \<open>flush_loop\<close> (one round for each page, and 66 more);
  \<open>split_move\<close> takes one round for each node, and \<open>mdb_page_split\<close> one call for each page of the path.
  Loops that repeat an interrupted system call (\<open>pwrite_retry\<close>, \<open>write_meta_loop\<close>, \<open>write_iov\<close>) run over the list of the results of the calls. Running out of fuel is the fault \<open>Diverges\<close>, so the
  theorems that give a result also show that the fuel is enough. The health check of the pool is the
  exact one for queues of at most \<open>2 ^ 24\<close> items, where single precision floats are exact. The sort of
  ID lists is for fewer than \<open>2 ^ 30\<close> IDs, where the sum of two indices fits an \<open>int\<close>. Lines of a dump are
  shorter than 2 GiB (a whole dump: 1 GiB, so that the doubled buffer of one line still has a size for the next), where \<open>mdb_load\<close> passes the right size to \<open>fgets\<close>; \<open>readline_2GiB\<close> is the case beyond. A stopped write of a meta page
  leaves a prefix of its bytes.

  \<^bold>\<open>Not modelled.\<close> Of LMDB (\<open>lib/lmdb/mdb.c\<close>), which the storage layer takes as an argument: the sub-cursors of
  databases with \<open>MDB_DUPSORT\<close>, writable maps (\<open>MDB_WRITEMAP\<close>), the merging of pages, splits of \<open>P_LEAF2\<close> pages and with \<open>MDB_APPEND\<close>, the adjustment of other cursors by a split, the spilling of pages, the commit of nested transactions, the records of named databases that a commit stores in the main database,
  the saving of the free list, the set-up of the lock file and the opening of environments; the tools \<open>mdb_stat\<close> and
  \<open>mdb_copy\<close> and the option parsing of the others; the test programs; the structures \<open>SendBuff\<close> and
  \<open>Message\<close>, which the code uses and does not define (their fields are those that are used);
  spurious wake-ups of condition variables in the logger; the address copies of \<open>on_connect\<close>. The
  pool is proved for one group at a time; the manager and \<open>wait_pool\<close> over several groups are functions
  of the theory \<open>Pool\<close> and are not interleaved.
\<close>

end
